(* ===== verification/KvPrelude.thy ===== *)
theory KvPrelude
  imports Main "HOL-Library.Word"
begin

text \<open>
  The vocabulary of the development: machine integer types, the constants, enumerations and
  alignment helpers of \<^verbatim>\<open>include/spdk_kv/types.h\<close>, the little-endian memory layout of
  integers that the structs of the engine rely on, and the generic lemmas about words, lists
  and layouts that every component uses.
\<close>

unbundle bit_operations_syntax

section \<open>Lemma collections\<close>

named_theorems kv_consts \<open>numeric values of the constants of types.h\<close>
named_theorems kv_layout \<open>lengths and field positions of byte layouts\<close>
named_theorems kv_inv \<open>preservation lemmas for component invariants\<close>

section \<open>Machine types\<close>

type_synonym byte = "8 word"
type_synonym u8 = "8 word"
type_synonym u16 = "16 word"
type_synonym u32 = "32 word"
type_synonym u64 = "64 word"

section \<open>types.h: constants\<close>

definition kPageSize :: u64 where [kv_consts]: "kPageSize = 4096"
definition kSectorSize :: u64 where [kv_consts]: "kSectorSize = 512"
definition kDefaultFileSize :: u64 where [kv_consts]: "kDefaultFileSize = 8 * 1024 * 1024 * 1024"
definition kMaxFileCount :: nat where [kv_consts]: "kMaxFileCount = 1024"
definition kMaxCapacity :: u64 where
  [kv_consts]: "kMaxCapacity = 8 * 1024 * 1024 * 1024 * 1024"

definition kSuperblockMagic :: u32 where [kv_consts]: "kSuperblockMagic = 0x53504B56"
definition kEntryMagic :: u32 where [kv_consts]: "kEntryMagic = 0x5350444B"
definition kDataFileHeaderMagic :: u32 where [kv_consts]: "kDataFileHeaderMagic = 0x53504446"
definition kMemIndexMagic :: u32 where [kv_consts]: "kMemIndexMagic = 0x4D494458"
definition kSegmentMagic :: u32 where [kv_consts]: "kSegmentMagic = 0x53454748"

definition kSuperblockPrimaryOffset :: u64 where [kv_consts]: "kSuperblockPrimaryOffset = 0"
definition kSuperblockBackupOffset :: u64 where
  [kv_consts]: "kSuperblockBackupOffset = 4 * 1024 * 1024"
definition kSuperblockBlobSize :: u64 where [kv_consts]: "kSuperblockBlobSize = 8 * 1024 * 1024"

definition kAllocLogMagic :: u32 where [kv_consts]: "kAllocLogMagic = 0x414C4F47"
definition kAllocLogAreaOffset :: u64 where [kv_consts]: "kAllocLogAreaOffset = 1 * 1024 * 1024"
definition kAllocLogCapacity :: u32 where [kv_consts]: "kAllocLogCapacity = 64"
definition kAllocLogNearFullThreshold :: u32 where [kv_consts]: "kAllocLogNearFullThreshold = 48"
definition kAllocLogOpAlloc :: u8 where [kv_consts]: "kAllocLogOpAlloc = 1"

definition kMemIndexSegmentSize :: u64 where [kv_consts]: "kMemIndexSegmentSize = 1 * 1024 * 1024 * 1024"
definition kMemIndexSegmentCount :: u64 where [kv_consts]: "kMemIndexSegmentCount = 80"

definition kAppendBufferSize :: u64 where [kv_consts]: "kAppendBufferSize = 2 * 1024 * 1024"
definition kMinBufferCount :: nat where [kv_consts]: "kMinBufferCount = 4"
definition kMaxBufferCount :: nat where [kv_consts]: "kMaxBufferCount = 16"
definition kFlushThreshold :: u64 where
  [kv_consts]: "kFlushThreshold = kAppendBufferSize - 64 * 1024"

definition kBackpressureHighWater :: nat where [kv_consts]: "kBackpressureHighWater = 12"
definition kBackpressureLowWater :: nat where [kv_consts]: "kBackpressureLowWater = 6"

definition kFlagDeleted :: u8 where [kv_consts]: "kFlagDeleted = 0x01"
definition kFlagCompaction :: u8 where [kv_consts]: "kFlagCompaction = 0x02"
definition kFlagSegmentBuf :: u8 where [kv_consts]: "kFlagSegmentBuf = 0x04"

definition kSegmentMetaOffset :: u64 where [kv_consts]: "kSegmentMetaOffset = 256"
definition kSegmentDataOffset :: u64 where [kv_consts]: "kSegmentDataOffset = 512"

section \<open>types.h: enumerations\<close>

datatype kv_error =
    KSuccess | KKeyNotFound | KValueTooLarge | KNoSpace | KIoError | KCorruption
  | KInvalidArgument | KEngineNotReady | KInternalError | KBackpressure | KInvalidState

text \<open>The integer each enumerator is cast to when it is handed to a callback.\<close>

fun kv_code :: "kv_error \<Rightarrow> int" where
  "kv_code KSuccess = 0"
| "kv_code KKeyNotFound = -1"
| "kv_code KValueTooLarge = -2"
| "kv_code KNoSpace = -3"
| "kv_code KIoError = -4"
| "kv_code KCorruption = -5"
| "kv_code KInvalidArgument = -6"
| "kv_code KEngineNotReady = -7"
| "kv_code KInternalError = -8"
| "kv_code KBackpressure = -9"
| "kv_code KInvalidState = -10"

datatype engine_state =
    EUninitialized | EOpening | ERecovering | EReady | EClosing | EClosed | EErrorState

datatype file_state = FActive | FSealed | FCompacting | FDeleted

fun file_state_code :: "file_state \<Rightarrow> u8" where
  "file_state_code FActive = 0"
| "file_state_code FSealed = 1"
| "file_state_code FCompacting = 2"
| "file_state_code FDeleted = 3"

section \<open>types.h: alignment helpers\<close>

definition align_up :: "u64 \<Rightarrow> u64 \<Rightarrow> u64" where
  "align_up value alignment = (value + alignment - 1) AND NOT (alignment - 1)"

definition align_down :: "u64 \<Rightarrow> u64 \<Rightarrow> u64" where
  "align_down value alignment = value AND NOT (alignment - 1)"

definition is_aligned :: "u64 \<Rightarrow> u64 \<Rightarrow> bool" where
  "is_aligned value alignment = (value AND (alignment - 1) = 0)"

section \<open>Little-endian layout of integers\<close>

text \<open>
  \<^verbatim>\<open>reinterpret_cast<const uint32_t*>(p)\<close> on the x86-64 targets of the engine reads four
  bytes, least significant first. \<open>nat_le n k\<close> is the layout of the \<open>n\<close>-byte
  integer \<open>k\<close>, \<open>le_nat\<close> reads one back.
\<close>

fun nat_le :: "nat \<Rightarrow> nat \<Rightarrow> byte list" where
  "nat_le 0 k = []"
| "nat_le (Suc n) k = word_of_nat (k mod 256) # nat_le n (k div 256)"

fun le_nat :: "byte list \<Rightarrow> nat" where
  "le_nat [] = 0"
| "le_nat (b # bs) = unat b + 256 * le_nat bs"

lemma le_nat_zeros: "le_nat (replicate n 0) = 0"
  by (induction n) simp_all

definition enc_u8 :: "u8 \<Rightarrow> byte list" where "enc_u8 w = [w]"
definition enc_u16 :: "u16 \<Rightarrow> byte list" where "enc_u16 w = nat_le 2 (unat w)"
definition enc_u32 :: "u32 \<Rightarrow> byte list" where "enc_u32 w = nat_le 4 (unat w)"
definition enc_u64 :: "u64 \<Rightarrow> byte list" where "enc_u64 w = nat_le 8 (unat w)"

definition slice :: "nat \<Rightarrow> nat \<Rightarrow> 'a list \<Rightarrow> 'a list" where
  "slice off n xs = take n (drop off xs)"

definition get_u8 :: "byte list \<Rightarrow> nat \<Rightarrow> u8" where
  "get_u8 bs off = word_of_nat (le_nat (slice off 1 bs))"
definition get_u16 :: "byte list \<Rightarrow> nat \<Rightarrow> u16" where
  "get_u16 bs off = word_of_nat (le_nat (slice off 2 bs))"
definition get_u32 :: "byte list \<Rightarrow> nat \<Rightarrow> u32" where
  "get_u32 bs off = word_of_nat (le_nat (slice off 4 bs))"
definition get_u64 :: "byte list \<Rightarrow> nat \<Rightarrow> u64" where
  "get_u64 bs off = word_of_nat (le_nat (slice off 8 bs))"

text \<open>Writing a run of bytes at an offset: the effect of a \<^verbatim>\<open>memcpy\<close> into a buffer.\<close>

definition put_bytes :: "nat \<Rightarrow> 'a list \<Rightarrow> 'a list \<Rightarrow> 'a list" where
  "put_bytes off bs buf = take off buf @ bs @ drop (off + length bs) buf"

subsection \<open>Layout lemmas\<close>

lemma unat_u8: "unat (w :: u8) < 256"
  by (rule order.strict_trans2 [OF unsigned_less]) simp

lemma unat_u16: "unat (w :: u16) < 65536"
  by (rule order.strict_trans2 [OF unsigned_less]) simp

lemma unat_u32: "unat (w :: u32) < 4294967296"
  by (rule order.strict_trans2 [OF unsigned_less]) simp

lemma unat_u64: "unat (w :: u64) < 18446744073709551616"
  by (rule order.strict_trans2 [OF unsigned_less]) simp

lemma length_nat_le [simp, kv_layout]: "length (nat_le n k) = n"
  by (induction n k rule: nat_le.induct) auto

lemma le_nat_nat_le [simp]: "le_nat (nat_le n k) = k mod 256 ^ n"
proof (induction n k rule: nat_le.induct)
  case (1 k)
  then show ?case by simp
next
  case (2 n k)
  have "unat (word_of_nat (k mod 256) :: byte) = k mod 256"
    by (simp add: unat_of_nat)
  with 2 show ?case by (simp add: mod_mult2_eq)
qed

lemma le_nat_bound: "le_nat bs < 256 ^ length bs"
proof (induction bs)
  case Nil
  then show ?case by simp
next
  case (Cons b bs)
  have "unat b < 256" using unat_u8 [of b] by simp
  moreover have "256 * le_nat bs + 256 \<le> 256 * 256 ^ length bs"
    using Cons by linarith
  ultimately show ?case by simp
qed

lemma nat_le_le_nat [simp]: "nat_le (length bs) (le_nat bs) = bs"
proof (induction bs)
  case Nil
  then show ?case by simp
next
  case (Cons b bs)
  have b: "unat b < 256" using unat_u8 [of b] by simp
  then have "(unat b + 256 * le_nat bs) mod 256 = unat b"
    and "(unat b + 256 * le_nat bs) div 256 = le_nat bs" by simp_all
  with Cons show ?case by simp
qed

lemma le_nat_append: "le_nat (xs @ ys) = le_nat xs + 256 ^ length xs * le_nat ys"
  by (induction xs) (simp_all add: algebra_simps)

lemma length_enc [simp, kv_layout]:
  "length (enc_u8 a) = 1" "length (enc_u16 b) = 2" "length (enc_u32 c) = 4" "length (enc_u64 d) = 8"
  by (simp_all add: enc_u8_def enc_u16_def enc_u32_def enc_u64_def)

lemma le_nat_enc [simp]:
  "le_nat (enc_u8 a) = unat a" "le_nat (enc_u16 b) = unat b"
  "le_nat (enc_u32 c) = unat c" "le_nat (enc_u64 d) = unat d"
  using unat_u16 [of b] unat_u32 [of c] unat_u64 [of d]
  by (simp_all add: enc_u8_def enc_u16_def enc_u32_def enc_u64_def)

lemma slice_append_exact: "length xs = off \<Longrightarrow> length ys = n \<Longrightarrow> slice off n (xs @ ys @ zs) = ys"
  by (simp add: slice_def)

lemma slice_skip: "length xs \<le> off \<Longrightarrow> slice off n (xs @ ys) = slice (off - length xs) n ys"
  by (simp add: slice_def)

lemma slice_here: "length ys = n \<Longrightarrow> slice 0 n (ys @ zs) = ys"
  by (simp add: slice_def)

lemma slice_within: "off + n \<le> length xs \<Longrightarrow> slice off n (xs @ ys) = slice off n xs"
  by (simp add: slice_def)

lemma length_slice: "off + n \<le> length xs \<Longrightarrow> length (slice off n xs) = n"
  by (simp add: slice_def)

lemma length_put_bytes [simp]:
  "off + length bs \<le> length buf \<Longrightarrow> length (put_bytes off bs buf) = length buf"
  by (simp add: put_bytes_def)

lemma slice_put_bytes_same:
  "off + length bs \<le> length buf \<Longrightarrow> n = length bs \<Longrightarrow> slice off n (put_bytes off bs buf) = bs"
  by (simp add: put_bytes_def slice_def)

lemma slice_put_bytes_before:
  "a + n \<le> off \<Longrightarrow> off + length bs \<le> length buf \<Longrightarrow>
   slice a n (put_bytes off bs buf) = slice a n buf"
  by (simp add: put_bytes_def slice_def) (simp add: drop_take take_take min_def)

lemma slice_put_bytes_after:
  "off + length bs \<le> a \<Longrightarrow> off + length bs \<le> length buf \<Longrightarrow>
   slice a n (put_bytes off bs buf) = slice a n buf"
  by (simp add: put_bytes_def slice_def)

section \<open>Positions on a ring\<close>

lemma mod_add_inj:
  assumes "(t + i) mod n = (t + j) mod (n :: nat)" "i < n" "j < n"
  shows "i = j"
proof -
  have "n dvd (t + j) - (t + i)" if "i \<le> j"
    using assms(1) that by (metis add_le_cancel_left mod_eq_dvd_iff_nat)
  moreover have "n dvd (t + i) - (t + j)" if "j \<le> i"
    using assms(1) that by (metis add_le_cancel_left mod_eq_dvd_iff_nat)
  ultimately show ?thesis
    using assms(2,3) by (cases i j rule: linorder_cases) (auto dest!: dvd_imp_le)
qed

section \<open>Words\<close>

lemma unat_and_mask: "unat ((w :: 'a::len word) AND mask k) = unat w mod 2 ^ k"
  by (metis take_bit_eq_mask take_bit_eq_mod unsigned_take_bit_eq)

lemma and_not_plus_and: "((w :: 'a::len word) AND NOT m) + (w AND m) = w"
proof -
  have "(w AND NOT m) + (w AND m) = (w AND NOT m) OR (w AND m)"
    by (rule disjunctive_add) (simp add: bit_and_iff bit_not_iff)
  also have "\<dots> = w AND (NOT m OR m)" by (simp only: bit.conj_disj_distrib)
  finally show ?thesis by simp
qed

lemma unat_and_not_mask: "unat ((w :: 'a::len word) AND NOT (mask k)) = unat w - unat w mod 2 ^ k"
proof -
  have le: "unat (w AND mask k) \<le> unat w"
    by (simp add: unat_and_mask)
  have "w AND NOT (mask k) = w - (w AND mask k)"
    using and_not_plus_and [of w "mask k"] by (simp add: eq_diff_eq)
  then show ?thesis using le
    by (simp add: unat_sub word_le_nat_alt unat_and_mask)
qed

lemma unat_plus_small:
  "unat (a :: 'a::len word) + unat b < 2 ^ LENGTH('a) \<Longrightarrow> unat (a + b) = unat a + unat b"
  by (simp add: unat_word_ariths)

lemma unat_of_nat_small: "n < 2 ^ LENGTH('a) \<Longrightarrow> unat (word_of_nat n :: 'a::len word) = n"
  by (simp add: unat_of_nat)

lemma mod_div_pack: "f < b \<Longrightarrow> (f + b * x) mod b = f \<and> (f + b * x) div b = (x :: nat)"
  by simp

lemma unat_minus_small: "b \<le> (a :: 'a::len word) \<Longrightarrow> unat (a - b) = unat a - unat b"
  by (simp add: unat_sub)

lemma word_xor_cancel_right [simp]: "(a :: 'a::len word) XOR x = b XOR x \<longleftrightarrow> a = b"
  by (metis xor.assoc xor_self_eq xor.right_neutral)

lemma word_xor_cancel_left [simp]: "x XOR (a :: 'a::len word) = x XOR b \<longleftrightarrow> a = b"
  by (metis xor.assoc xor_self_eq xor.left_neutral)

subsection \<open>Alignment to a page\<close>

lemma page_mask: "kPageSize - 1 = mask 12"
  by (simp add: kPageSize_def mask_eq_exp_minus_1)

lemma unat_align_up_page:
  assumes "unat v + 4095 < 2 ^ 64"
  shows "unat (align_up v kPageSize) = 4096 * ((unat v + 4095) div 4096)"
proof -
  have v: "unat (v + 4095) = unat v + 4095"
    using assms by (simp add: unat_plus_small)
  have "align_up v kPageSize = (v + 4095) AND NOT (mask 12)"
    unfolding align_up_def page_mask by (simp add: kPageSize_def add.commute)
  then have "unat (align_up v kPageSize) = (unat v + 4095) - (unat v + 4095) mod 4096"
    by (simp add: unat_and_not_mask v)
  then show ?thesis by (simp add: minus_mod_eq_mult_div)
qed

lemma unat_align_down_page: "unat (align_down v kPageSize) = 4096 * (unat v div 4096)"
  unfolding align_down_def page_mask by (simp add: unat_and_not_mask minus_mod_eq_mult_div)

lemma is_aligned_page: "is_aligned v kPageSize \<longleftrightarrow> 4096 dvd unat v"
  unfolding is_aligned_def page_mask
  using and_mask_dvd_nat [of 12 v] by simp

end
