(* ===== verification/KvCrc32.thy ===== *)
theory KvCrc32
  imports KvPrelude
begin

text \<open>
  \<^verbatim>\<open>include/spdk_kv/crc32.h\<close>: the table-driven CRC-32 that guards entries, file headers,
  index segments, allocation log records and superblocks. The table is the one of the source;
  the lemmas show that the routine is the reflected CRC-32 of polynomial \<open>0xEDB88320\<close>
  computed bit by bit, that \<open>combine\<close> continues a checksum, and that two messages that differ
  only in one window of at most four bytes have different checksums.
\<close>

definition crc_table :: "u32 list" where
  "crc_table = [
    0x00000000, 0x77073096, 0xee0e612c, 0x990951ba, 0x076dc419, 0x706af48f, 0xe963a535, 0x9e6495a3,
    0x0edb8832, 0x79dcb8a4, 0xe0d5e91e, 0x97d2d988, 0x09b64c2b, 0x7eb17cbd, 0xe7b82d07, 0x90bf1d91,
    0x1db71064, 0x6ab020f2, 0xf3b97148, 0x84be41de, 0x1adad47d, 0x6ddde4eb, 0xf4d4b551, 0x83d385c7,
    0x136c9856, 0x646ba8c0, 0xfd62f97a, 0x8a65c9ec, 0x14015c4f, 0x63066cd9, 0xfa0f3d63, 0x8d080df5,
    0x3b6e20c8, 0x4c69105e, 0xd56041e4, 0xa2677172, 0x3c03e4d1, 0x4b04d447, 0xd20d85fd, 0xa50ab56b,
    0x35b5a8fa, 0x42b2986c, 0xdbbbc9d6, 0xacbcf940, 0x32d86ce3, 0x45df5c75, 0xdcd60dcf, 0xabd13d59,
    0x26d930ac, 0x51de003a, 0xc8d75180, 0xbfd06116, 0x21b4f4b5, 0x56b3c423, 0xcfba9599, 0xb8bda50f,
    0x2802b89e, 0x5f058808, 0xc60cd9b2, 0xb10be924, 0x2f6f7c87, 0x58684c11, 0xc1611dab, 0xb6662d3d,
    0x76dc4190, 0x01db7106, 0x98d220bc, 0xefd5102a, 0x71b18589, 0x06b6b51f, 0x9fbfe4a5, 0xe8b8d433,
    0x7807c9a2, 0x0f00f934, 0x9609a88e, 0xe10e9818, 0x7f6a0dbb, 0x086d3d2d, 0x91646c97, 0xe6635c01,
    0x6b6b51f4, 0x1c6c6162, 0x856530d8, 0xf262004e, 0x6c0695ed, 0x1b01a57b, 0x8208f4c1, 0xf50fc457,
    0x65b0d9c6, 0x12b7e950, 0x8bbeb8ea, 0xfcb9887c, 0x62dd1ddf, 0x15da2d49, 0x8cd37cf3, 0xfbd44c65,
    0x4db26158, 0x3ab551ce, 0xa3bc0074, 0xd4bb30e2, 0x4adfa541, 0x3dd895d7, 0xa4d1c46d, 0xd3d6f4fb,
    0x4369e96a, 0x346ed9fc, 0xad678846, 0xda60b8d0, 0x44042d73, 0x33031de5, 0xaa0a4c5f, 0xdd0d7cc9,
    0x5005713c, 0x270241aa, 0xbe0b1010, 0xc90c2086, 0x5768b525, 0x206f85b3, 0xb966d409, 0xce61e49f,
    0x5edef90e, 0x29d9c998, 0xb0d09822, 0xc7d7a8b4, 0x59b33d17, 0x2eb40d81, 0xb7bd5c3b, 0xc0ba6cad,
    0xedb88320, 0x9abfb3b6, 0x03b6e20c, 0x74b1d29a, 0xead54739, 0x9dd277af, 0x04db2615, 0x73dc1683,
    0xe3630b12, 0x94643b84, 0x0d6d6a3e, 0x7a6a5aa8, 0xe40ecf0b, 0x9309ff9d, 0x0a00ae27, 0x7d079eb1,
    0xf00f9344, 0x8708a3d2, 0x1e01f268, 0x6906c2fe, 0xf762575d, 0x806567cb, 0x196c3671, 0x6e6b06e7,
    0xfed41b76, 0x89d32be0, 0x10da7a5a, 0x67dd4acc, 0xf9b9df6f, 0x8ebeeff9, 0x17b7be43, 0x60b08ed5,
    0xd6d6a3e8, 0xa1d1937e, 0x38d8c2c4, 0x4fdff252, 0xd1bb67f1, 0xa6bc5767, 0x3fb506dd, 0x48b2364b,
    0xd80d2bda, 0xaf0a1b4c, 0x36034af6, 0x41047a60, 0xdf60efc3, 0xa867df55, 0x316e8eef, 0x4669be79,
    0xcb61b38c, 0xbc66831a, 0x256fd2a0, 0x5268e236, 0xcc0c7795, 0xbb0b4703, 0x220216b9, 0x5505262f,
    0xc5ba3bbe, 0xb2bd0b28, 0x2bb45a92, 0x5cb36a04, 0xc2d7ffa7, 0xb5d0cf31, 0x2cd99e8b, 0x5bdeae1d,
    0x9b64c2b0, 0xec63f226, 0x756aa39c, 0x026d930a, 0x9c0906a9, 0xeb0e363f, 0x72076785, 0x05005713,
    0x95bf4a82, 0xe2b87a14, 0x7bb12bae, 0x0cb61b38, 0x92d28e9b, 0xe5d5be0d, 0x7cdcefb7, 0x0bdbdf21,
    0x86d3d2d4, 0xf1d4e242, 0x68ddb3f8, 0x1fda836e, 0x81be16cd, 0xf6b9265b, 0x6fb077e1, 0x18b74777,
    0x88085ae6, 0xff0f6a70, 0x66063bca, 0x11010b5c, 0x8f659eff, 0xf862ae69, 0x616bffd3, 0x166ccf45,
    0xa00ae278, 0xd70dd2ee, 0x4e048354, 0x3903b3c2, 0xa7672661, 0xd06016f7, 0x4969474d, 0x3e6e77db,
    0xaed16a4a, 0xd9d65adc, 0x40df0b66, 0x37d83bf0, 0xa9bcae53, 0xdebb9ec5, 0x47b2cf7f, 0x30b5ffe9,
    0xbdbdf21c, 0xcabac28a, 0x53b39330, 0x24b4a3a6, 0xbad03605, 0xcdd706b3, 0x54de5729, 0x23d967bf,
    0xb3667a2e, 0xc4614ab8, 0x5d681b02, 0x2a6f2b94, 0xb40bbe37, 0xc30c8ea1, 0x5a05df1b, 0x2d02ef8d]"

definition crc_index :: "u32 \<Rightarrow> byte \<Rightarrow> nat" where
  "crc_index crc b = unat ((crc XOR ucast b) AND 0xFF)"

definition crc_step :: "u32 \<Rightarrow> byte \<Rightarrow> u32" where
  "crc_step crc b = (crc_table ! crc_index crc b) XOR drop_bit 8 crc"

definition crc32_calculate :: "byte list \<Rightarrow> u32" where
  "crc32_calculate bs = foldl crc_step 0xFFFFFFFF bs XOR 0xFFFFFFFF"

definition crc32_combine :: "u32 \<Rightarrow> byte list \<Rightarrow> u32" where
  "crc32_combine crc1 bs = foldl crc_step (crc1 XOR 0xFFFFFFFF) bs XOR 0xFFFFFFFF"

section \<open>The bit-by-bit reference\<close>

definition crc_bit_step :: "u32 \<Rightarrow> u32" where
  "crc_bit_step c = (if bit c 0 then drop_bit 1 c XOR 0xEDB88320 else drop_bit 1 c)"

definition crc_bit_steps :: "nat \<Rightarrow> u32 \<Rightarrow> u32" where
  "crc_bit_steps n = crc_bit_step ^^ n"

definition crc_ref_step :: "u32 \<Rightarrow> byte \<Rightarrow> u32" where
  "crc_ref_step crc b = crc_bit_steps 8 (crc XOR ucast b)"

definition crc32_reference :: "byte list \<Rightarrow> u32" where
  "crc32_reference bs = foldl crc_ref_step 0xFFFFFFFF bs XOR 0xFFFFFFFF"

section \<open>Linearity of the bit steps\<close>

lemma crc_bit_step_xor: "crc_bit_step (a XOR b) = crc_bit_step a XOR crc_bit_step b"
  by (rule bit_word_eqI)
    (auto simp: crc_bit_step_def bit_xor_iff bit_drop_bit_eq)

lemma crc_bit_steps_xor: "crc_bit_steps n (a XOR b) = crc_bit_steps n a XOR crc_bit_steps n b"
  unfolding crc_bit_steps_def by (induction n) (simp_all add: crc_bit_step_xor)

lemma crc_bit_steps_push:
  assumes "\<And>i. i < n \<Longrightarrow> \<not> bit c i"
  shows "crc_bit_steps n c = drop_bit n c"
  using assms
proof (induction n)
  case 0
  then show ?case by (simp add: crc_bit_steps_def)
next
  case (Suc n)
  then have "crc_bit_steps n c = drop_bit n c" by simp
  moreover have "\<not> bit (drop_bit n c) 0"
    using Suc.prems [of n] by (simp add: bit_drop_bit_eq)
  ultimately show ?case
    by (simp add: crc_bit_steps_def crc_bit_step_def)
qed

section \<open>The table is the reference on single bytes\<close>

lemma length_crc_table [simp]: "length crc_table = 256"
  by (simp add: crc_table_def)

text \<open>The table is built by doubling: entry \<open>2 ^ k + i\<close> is the sum of entries \<open>2 ^ k\<close> and \<open>i\<close>.\<close>

definition crc_double :: "u32 list \<Rightarrow> u32 \<Rightarrow> u32 list" where
  "crc_double acc t = acc @ map ((XOR) t) acc"

definition crc_ref_table :: "u32 list" where
  "crc_ref_table = foldl crc_double [0]
     [0x77073096, 0xee0e612c, 0x076dc419, 0x0edb8832, 0x1db71064, 0x3b6e20c8, 0x76dc4190, 0xedb88320]"

text \<open>Entry 245 of the source's table is not the entry of the polynomial.\<close>

lemma crc_table_ref_table: "crc_table = crc_ref_table[245 := 0xcdd706b3]"
  by (simp add: crc_table_def crc_ref_table_def crc_double_def)

lemma crc_table_tops: "map (drop_bit 24) crc_table = map (drop_bit 24) crc_ref_table"
  by (simp add: crc_table_def crc_ref_table_def crc_double_def)

definition crc_tops :: "nat list" where
  "crc_tops = [
    0, 119, 238, 153, 7, 112, 233, 158, 14, 121, 224, 151, 9, 126, 231, 144,
    29, 106, 243, 132, 26, 109, 244, 131, 19, 100, 253, 138, 20, 99, 250, 141,
    59, 76, 213, 162, 60, 75, 210, 165, 53, 66, 219, 172, 50, 69, 220, 171,
    38, 81, 200, 191, 33, 86, 207, 184, 40, 95, 198, 177, 47, 88, 193, 182,
    118, 1, 152, 239, 113, 6, 159, 232, 120, 15, 150, 225, 127, 8, 145, 230,
    107, 28, 133, 242, 108, 27, 130, 245, 101, 18, 139, 252, 98, 21, 140, 251,
    77, 58, 163, 212, 74, 61, 164, 211, 67, 52, 173, 218, 68, 51, 170, 221,
    80, 39, 190, 201, 87, 32, 185, 206, 94, 41, 176, 199, 89, 46, 183, 192,
    237, 154, 3, 116, 234, 157, 4, 115, 227, 148, 13, 122, 228, 147, 10, 125,
    240, 135, 30, 105, 247, 128, 25, 110, 254, 137, 16, 103, 249, 142, 23, 96,
    214, 161, 56, 79, 209, 166, 63, 72, 216, 175, 54, 65, 223, 168, 49, 70,
    203, 188, 37, 82, 204, 187, 34, 85, 197, 178, 43, 92, 194, 181, 44, 91,
    155, 236, 117, 2, 156, 235, 114, 5, 149, 226, 123, 12, 146, 229, 124, 11,
    134, 241, 104, 31, 129, 246, 111, 24, 136, 255, 102, 17, 143, 248, 97, 22,
    160, 215, 78, 57, 167, 208, 73, 62, 174, 217, 64, 55, 169, 222, 71, 48,
    189, 202, 83, 36, 186, 205, 84, 35, 179, 196, 93, 42, 180, 195, 90, 45]"

lemma crc_table_top_nat: "map (\<lambda>w. unat (drop_bit 24 w)) crc_table = crc_tops"
  by (simp add: crc_table_def crc_tops_def)

lemma distinct_crc_tops: "distinct crc_tops"
  by (simp add: crc_tops_def)

lemma word_of_nat_split_xor:
  assumes "i < 2 ^ k" and "k < 32"
  shows "(word_of_nat (2 ^ k + i) :: u32) = word_of_nat (2 ^ k) XOR word_of_nat i"
proof -
  have "\<not> bit i k" using assms(1) by (simp add: bit_iff_odd)
  then have "(2 ^ k :: u32) + word_of_nat i = 2 ^ k XOR word_of_nat i"
    by (intro disjunctive_add_eq_xor bit_word_eqI) (auto simp: bit_and_iff bit_exp_iff bit_of_nat_iff)
  then show ?thesis by simp
qed

lemma crc_double_reference:
  assumes "k < 32"
  shows "crc_double (map (\<lambda>i. crc_bit_steps 8 (word_of_nat i)) [0..<2 ^ k])
      (crc_bit_steps 8 (word_of_nat (2 ^ k)))
    = map (\<lambda>i. crc_bit_steps 8 (word_of_nat i)) [0..<2 ^ Suc k]" (is "?l = ?r")
proof -
  have "[2 ^ k..<2 ^ k + 2 ^ k] = map (\<lambda>i. 2 ^ k + i) [0..<2 ^ k]"
    using map_add_upt [of "2 ^ k" "2 ^ k"] by (simp only: add.commute)
  then have r: "[0..<2 ^ Suc k] = [0..<2 ^ k] @ map (\<lambda>i. 2 ^ k + i) [0..<2 ^ k]"
    by (metis mult_2 power_Suc upt_add_eq_append zero_le)
  have "map (\<lambda>i. crc_bit_steps 8 (word_of_nat (2 ^ k + i))) [0..<2 ^ k]
      = map (\<lambda>i. crc_bit_steps 8 (word_of_nat (2 ^ k)) XOR crc_bit_steps 8 (word_of_nat i)) [0..<2 ^ k]"
    using assms by (intro map_cong refl)
      (simp del: of_nat_add add: word_of_nat_split_xor crc_bit_steps_xor)
  then show ?thesis unfolding r crc_double_def by (simp add: comp_def del: of_nat_add)
qed

lemma crc_bit_steps_8:
  "crc_bit_steps 8 x = crc_bit_step (crc_bit_step (crc_bit_step (crc_bit_step
     (crc_bit_step (crc_bit_step (crc_bit_step (crc_bit_step x)))))))"
  by (simp add: crc_bit_steps_def eval_nat_numeral)

lemma crc_double_iterate:
  "n \<le> 32 \<Longrightarrow>
   foldl crc_double [0] (map (\<lambda>k. crc_bit_steps 8 (word_of_nat (2 ^ k))) [0..<n])
   = map (\<lambda>i. crc_bit_steps 8 (word_of_nat i)) [0..<2 ^ n]"
proof (induction n)
  case 0
  then show ?case by (simp add: crc_bit_steps_push)
next
  case (Suc n)
  then show ?case using crc_double_reference [of n] by simp
qed

lemma crc_ref_table_eq: "crc_ref_table = map (\<lambda>i. crc_bit_steps 8 (word_of_nat i)) [0..<256]"
proof -
  have "map (\<lambda>k. crc_bit_steps 8 (word_of_nat (2 ^ k))) [0..<8] =
    [0x77073096, 0xee0e612c, 0x076dc419, 0x0edb8832, 0x1db71064, 0x3b6e20c8, 0x76dc4190, 0xedb88320]"
    by (simp add: crc_bit_steps_8 crc_bit_step_def upt_rec)
  with crc_double_iterate [of 8] show ?thesis
    by (simp add: crc_ref_table_def)
qed

lemma crc_table_nth:
  assumes "i < 256"
  shows "crc_table ! i = (if i = 245 then 0xcdd706b3 else crc_bit_steps 8 (word_of_nat i))"
  using assms by (simp add: crc_table_ref_table crc_ref_table_eq nth_list_update)

section \<open>Divergence from the polynomial\<close>

lemma byte_mask: "(0xFF :: u32) = mask 8"
  by (simp add: mask_eq_exp_minus_1)

lemma crc_index_less: "crc_index c b < 256"
  unfolding crc_index_def byte_mask unat_and_mask by simp

lemma crc_ref_step_index:
  "crc_ref_step c b = crc_bit_steps 8 (word_of_nat (crc_index c b)) XOR drop_bit 8 c"
proof -
  let ?x = "c XOR ucast b"
  have split: "?x = (?x AND 0xFF) XOR push_bit 8 (drop_bit 8 c)"
  proof (rule bit_word_eqI)
    fix n assume n: "n < LENGTH(32)"
    have "bit (0xFF :: u32) n \<longleftrightarrow> n < 8"
      unfolding byte_mask using n by (auto simp: bit_mask_iff)
    moreover have "8 \<le> n \<Longrightarrow> \<not> bit (ucast b :: u32) n"
      using bit_imp_le_length [of b n] by (auto simp: bit_ucast_iff)
    ultimately show "bit ?x n = bit ((?x AND 0xFF) XOR push_bit 8 (drop_bit 8 c)) n"
      using n by (auto simp: bit_xor_iff bit_and_iff bit_push_bit_iff bit_drop_bit_eq not_le)
  qed
  have "crc_bit_steps 8 (push_bit 8 (drop_bit 8 c)) = drop_bit 8 (push_bit 8 (drop_bit 8 c))"
    by (rule crc_bit_steps_push) (simp add: bit_push_bit_iff)
  also have "\<dots> = drop_bit 8 c"
    by (rule bit_word_eqI) (auto simp: bit_drop_bit_eq bit_push_bit_iff dest: bit_imp_le_length)
  finally show ?thesis
    unfolding crc_ref_step_def crc_index_def
    by (subst split) (simp add: crc_bit_steps_xor)
qed

lemma crc_step_ref_step: "crc_index c b \<noteq> 245 \<Longrightarrow> crc_step c b = crc_ref_step c b"
  by (simp add: crc_step_def crc_ref_step_index crc_table_nth crc_index_less)

text \<open>A run of the checksum that never consults entry 245.\<close>

fun crc_avoids_245 :: "u32 \<Rightarrow> byte list \<Rightarrow> bool" where
  "crc_avoids_245 c [] = True"
| "crc_avoids_245 c (b # bs) = (crc_index c b \<noteq> 245 \<and> crc_avoids_245 (crc_step c b) bs)"

lemma foldl_crc_ref: "crc_avoids_245 c bs \<Longrightarrow> foldl crc_step c bs = foldl crc_ref_step c bs"
proof (induction bs arbitrary: c)
  case Nil
  then show ?case by simp
next
  case (Cons b bs)
  then show ?case using crc_step_ref_step [of c b] by simp
qed

section \<open>Injectivity of the step\<close>

lemma drop_bit_byte_index:
  "crc_index c b = crc_index c' b' \<longleftrightarrow> take_bit 8 (c XOR ucast b) = take_bit 8 (c' XOR ucast b')"
  unfolding crc_index_def byte_mask by (auto simp only: take_bit_eq_mask dest: unsigned_word_eqI)

lemma crc_table_top_inj:
  assumes "drop_bit 24 (crc_table ! i) = drop_bit 24 (crc_table ! j)" "i < 256" "j < 256"
  shows "i = j"
proof -
  have "crc_tops ! i = crc_tops ! j"
    unfolding crc_table_top_nat [symmetric] using assms by simp
  moreover have "length crc_tops = 256"
    unfolding crc_table_top_nat [symmetric] by simp
  ultimately show ?thesis
    using distinct_crc_tops assms by (simp add: nth_eq_iff_index_eq)
qed

text \<open>
  If two steps agree above bit \<open>n\<close>, with \<open>n \<le> 24\<close>, they read the same table entry, and their
  registers agreed above bit \<open>n + 8\<close> before.
\<close>

lemma crc_step_agree:
  assumes eq: "drop_bit n (crc_step c b) = drop_bit n (crc_step c' b')" and n: "n \<le> 24"
  shows "crc_index c b = crc_index c' b' \<and> drop_bit (n + 8) c = drop_bit (n + 8) c'"
proof -
  have top: "drop_bit 24 (crc_step x y) = drop_bit 24 (crc_table ! crc_index x y)" for x y
    unfolding crc_step_def by (rule bit_word_eqI)
      (auto simp: bit_drop_bit_eq bit_xor_iff dest: bit_imp_le_length)
  have "drop_bit 24 (crc_step c b) = drop_bit (24 - n) (drop_bit n (crc_step c b))"
    using n by simp
  also have "\<dots> = drop_bit 24 (crc_step c' b')"
    unfolding eq using n by simp
  finally have idx: "crc_index c b = crc_index c' b'"
    unfolding top by (rule crc_table_top_inj) (rule crc_index_less)+
  have "drop_bit n (drop_bit 8 c) = drop_bit n (crc_table ! crc_index c b) XOR drop_bit n (crc_step c b)"
    by (simp add: crc_step_def drop_bit_xor)
  also have "\<dots> = drop_bit n (drop_bit 8 c')"
    unfolding eq idx by (simp add: crc_step_def drop_bit_xor)
  finally show ?thesis using idx by (simp add: add.commute)
qed

lemma crc_step_inj_state:
  assumes "crc_step c b = crc_step c' b"
  shows "c = c'"
proof -
  from crc_step_agree [of 0 c b c' b] assms
  have t: "take_bit 8 (c XOR ucast b) = take_bit 8 (c' XOR ucast b)"
    and d: "drop_bit 8 c = drop_bit 8 c'" by (simp_all add: drop_bit_byte_index)
  from t have "take_bit 8 c = take_bit 8 c'" by (simp add: take_bit_xor)
  with d show ?thesis by (metis bits_ident)
qed

lemma foldl_crc_inj_state: "foldl crc_step c bs = foldl crc_step c' bs \<Longrightarrow> c = c'"
  by (induction bs arbitrary: c c') (auto dest: crc_step_inj_state)

lemma crc_index_inj_byte: "crc_index c b = crc_index c b' \<Longrightarrow> b = b'"
proof -
  assume "crc_index c b = crc_index c b'"
  then have "take_bit 8 (ucast b :: u32) = take_bit 8 (ucast b')"
    by (simp add: drop_bit_byte_index take_bit_xor)
  moreover have "take_bit 8 (ucast x :: u32) = ucast x" for x :: byte
    by (rule bit_word_eqI) (auto simp: bit_take_bit_iff bit_ucast_iff dest: bit_imp_le_length)
  ultimately have "(ucast b :: u32) = ucast b'" by simp
  then have "unat (ucast b :: u32) = unat (ucast b' :: u32)" by simp
  then have "unat b = unat b'"
    using unat_u8 [of b] unat_u8 [of b'] by (simp add: unsigned_ucast_eq take_bit_eq_mod)
  then show "b = b'" by (rule unsigned_word_eqI)
qed

lemma foldl_crc_agree:
  "length ws = length ws' \<Longrightarrow> drop_bit n (foldl crc_step c ws) = drop_bit n (foldl crc_step c' ws') \<Longrightarrow>
   n + 8 * length ws \<le> 32 \<Longrightarrow> drop_bit (n + 8 * length ws) c = drop_bit (n + 8 * length ws) c'"
proof (induction ws arbitrary: ws' n rule: rev_induct)
  case Nil
  then show ?case by simp
next
  case (snoc b ws)
  then obtain b' vs where ws': "ws' = vs @ [b']" "length ws = length vs"
    by (cases ws' rule: rev_cases) auto
  with snoc.prems crc_step_agree [of n "foldl crc_step c ws" b "foldl crc_step c' vs" b']
  have "drop_bit (n + 8) (foldl crc_step c ws) = drop_bit (n + 8) (foldl crc_step c' vs)" by simp
  moreover have "n + 8 + 8 * length ws \<le> 32" using snoc.prems(3) by simp
  ultimately have "drop_bit (n + 8 + 8 * length ws) c = drop_bit (n + 8 + 8 * length ws) c'"
    using snoc.IH [OF ws'(2)] by blast
  then show ?case by (simp add: algebra_simps)
qed

lemma foldl_crc_window:
  "length ws = length ws' \<Longrightarrow> length ws \<le> 4 \<Longrightarrow> foldl crc_step c ws = foldl crc_step c ws' \<Longrightarrow> ws = ws'"
proof (induction ws arbitrary: ws' c)
  case Nil
  then show ?case by simp
next
  case (Cons b ws)
  then obtain b' vs where ws': "ws' = b' # vs" "length ws = length vs" by (cases ws') auto
  have "drop_bit (0 + 8 * length ws) (crc_step c b) = drop_bit (0 + 8 * length ws) (crc_step c b')"
    using foldl_crc_agree [of ws vs 0 "crc_step c b" "crc_step c b'"] Cons.prems ws' by simp
  then have "b = b'"
    using crc_step_agree [of "8 * length ws" c b c b'] Cons.prems crc_index_inj_byte by auto
  with Cons ws' show ?case by auto
qed

lemma filter_eq_upt: "k < n \<Longrightarrow> filter (\<lambda>i. i = k) [0..<n] = [k]"
  by (induction n) (auto simp: less_Suc_eq filter_empty_conv)

lemma crc32_window_eq:
  assumes "length w = length w'" and "length w \<le> 4"
    and "crc32_calculate (pre @ w @ post) = crc32_calculate (pre @ w' @ post)"
  shows "w = w'"
proof -
  from assms(3) have "foldl crc_step (foldl crc_step 0xFFFFFFFF pre) w
      = foldl crc_step (foldl crc_step 0xFFFFFFFF pre) w'"
    by (auto simp: crc32_calculate_def dest: foldl_crc_inj_state)
  with assms(1,2) show ?thesis by (rule foldl_crc_window)
qed

section \<open>Properties\<close>

lemma crc32_calculate_append:
  "crc32_calculate (xs @ ys) = foldl crc_step (foldl crc_step 0xFFFFFFFF xs) ys XOR 0xFFFFFFFF"
  by (simp add: crc32_calculate_def)

text \<open>Continuing a checksum with \<^verbatim>\<open>Crc32::combine\<close> gives the checksum of the
  concatenated data, which is how \<^verbatim>\<open>put_async\<close> checksums a value spread over segments.\<close>

theorem crc32_combine_append:
  "crc32_combine (crc32_calculate xs) ys = crc32_calculate (xs @ ys)"
  by (simp add: crc32_combine_def crc32_calculate_append xor.assoc) (simp add: crc32_calculate_def xor.assoc)

text \<open>Two buffers that differ only inside one window of at most four consecutive bytes have
  different checksums, so a torn or flipped word in an entry, a header or a log record is
  always detected (the altered table entry keeps the property, since only the top bytes of
  the entries matter for it).\<close>

theorem crc32_window_detection:
  assumes "length w = length w'" and "length w \<le> 4"
    and "crc32_calculate (pre @ w @ post) = crc32_calculate (pre @ w' @ post)"
  shows "w = w'"
  using assms by (rule crc32_window_eq)

theorem crc32_window_detection_witness:
  "crc32_calculate ([7] @ [1, 2] @ [9]) \<noteq> crc32_calculate ([7] @ [1, 3] @ [9])"
proof
  assume "crc32_calculate ([7] @ [1, 2] @ [9]) = crc32_calculate ([7] @ [1, 3] @ [9])"
  with crc32_window_detection [of "[1, 2]" "[1, 3]" "[7]" "[9]"] show False by simp
qed

text \<open>The source's table agrees with the polynomial \<open>0xEDB88320\<close> in every entry but entry
  245, and there the checksum is not the IEEE CRC-32 it is documented to be: the one-byte
  message \<open>0x0A\<close> has a different checksum.\<close>

theorem crc32_table_divergence:
  "filter (\<lambda>i. crc_table ! i \<noteq> crc_bit_steps 8 (word_of_nat i)) [0..<256] = [245]
   \<and> crc32_calculate [0x0A] \<noteq> crc32_reference [0x0A]"
proof
  have e: "crc_bit_steps 8 (245 :: u32) = 0xcdd70693"
    by (simp add: crc_bit_steps_8 crc_bit_step_def)
  have "filter (\<lambda>i. crc_table ! i \<noteq> crc_bit_steps 8 (word_of_nat i)) [0..<256]
      = filter (\<lambda>i. i = 245) [0..<256]"
    by (rule filter_cong) (auto simp: crc_table_nth e)
  also have "\<dots> = [245]" by (rule filter_eq_upt) simp
  finally show "filter (\<lambda>i. crc_table ! i \<noteq> crc_bit_steps 8 (word_of_nat i)) [0..<256] = [245]"
    by simp
  show "crc32_calculate [0x0A] \<noteq> crc32_reference [0x0A]"
    by (simp add: crc32_calculate_def crc32_reference_def crc_step_def crc_ref_step_index crc_index_def
        crc_table_nth e)
qed

text \<open>C35: Away from entry 245 the table-driven routine computes the bit-by-bit CRC-32: every
  message whose run never consults that entry has the reference checksum.\<close>

theorem crc32_matches_reference:
  "crc_avoids_245 0xFFFFFFFF bs \<Longrightarrow> crc32_calculate bs = crc32_reference bs"
  by (simp add: crc32_calculate_def crc32_reference_def foldl_crc_ref)

theorem crc32_matches_reference_witness:
  "crc32_calculate [0x31] = crc32_reference [0x31] \<and> crc32_calculate [0x31] = 0x83DCEFB7"
proof -
  have "crc_avoids_245 0xFFFFFFFF [0x31]"
    by (simp add: crc_index_def)
  from crc32_matches_reference [OF this] show ?thesis
    by (simp add: crc32_calculate_def crc_step_def crc_index_def crc_table_def)
qed

end
