(* ===== verification/KvRings.thy ===== *)
theory KvRings
  imports KvPrelude
begin

text \<open>
  The bounded FIFO queues of the engine: \<^verbatim>\<open>SimpleRing\<close> of
  \<^verbatim>\<open>include/spdk_kv/append_buffer.h\<close> (buffer hand-over, resume callbacks) and
  \<^verbatim>\<open>CallbackTaskQueue\<close> of \<^verbatim>\<open>include/spdk_kv/callback_task_queue.h\<close>. Both are arrays with a
  head and a tail index that keep one slot free. The locale \<open>bounded_queue\<close> states what a
  client may rely on; both rings are interpretations of it.
\<close>

section \<open>SimpleRing\<close>

text \<open>The template parameter \<open>N\<close> is the length of the array.\<close>

record 'a ring =
  rg_buffer :: "'a list"
  rg_head :: nat
  rg_tail :: nat

definition ring_new :: "nat \<Rightarrow> 'a \<Rightarrow> 'a ring" where
  "ring_new N fill = \<lparr>rg_buffer = replicate N fill, rg_head = 0, rg_tail = 0\<rparr>"

definition ring_enqueue :: "'a ring \<Rightarrow> 'a \<Rightarrow> bool \<times> 'a ring" where
  "ring_enqueue r item =
     (let next_head = (rg_head r + 1) mod length (rg_buffer r) in
      if next_head = rg_tail r then (False, r)
      else (True, r\<lparr>rg_buffer := (rg_buffer r)[rg_head r := item], rg_head := next_head\<rparr>))"

text \<open>\<open>None\<close> is the return value \<^verbatim>\<open>false\<close>; the item is the value stored through the pointer.\<close>

definition ring_dequeue :: "'a ring \<Rightarrow> ('a \<times> 'a ring) option" where
  "ring_dequeue r =
     (if rg_tail r = rg_head r then None
      else Some (rg_buffer r ! rg_tail r,
                 r\<lparr>rg_tail := (rg_tail r + 1) mod length (rg_buffer r)\<rparr>))"

definition ring_count :: "'a ring \<Rightarrow> nat" where
  "ring_count r =
     (if rg_head r \<ge> rg_tail r then rg_head r - rg_tail r
      else length (rg_buffer r) - rg_tail r + rg_head r)"

definition ring_is_empty :: "'a ring \<Rightarrow> bool" where
  "ring_is_empty r = (rg_head r = rg_tail r)"

section \<open>CallbackTaskQueue\<close>

datatype task_type = RdmaSend | IndexUpdate | UserCallback

text \<open>A task: its type, its context and its function pointer (\<open>None\<close> is a null pointer).\<close>

record ('c, 'f) cb_task =
  ct_type :: task_type
  ct_context :: 'c
  ct_execute :: "'f option"

definition kTaskCapacity :: nat where [kv_consts]: "kTaskCapacity = 4096"

record ('c, 'f) task_queue =
  tq_tasks :: "('c, 'f) cb_task list"
  tq_head :: nat
  tq_tail :: nat

definition tq_new :: "('c, 'f) cb_task \<Rightarrow> ('c, 'f) task_queue" where
  "tq_new fill = \<lparr>tq_tasks = replicate kTaskCapacity fill, tq_head = 0, tq_tail = 0\<rparr>"

definition tq_enqueue :: "('c, 'f) task_queue \<Rightarrow> ('c, 'f) cb_task \<Rightarrow> bool \<times> ('c, 'f) task_queue" where
  "tq_enqueue q task =
     (let next_head = (tq_head q + 1) mod kTaskCapacity in
      if next_head = tq_tail q then (False, q)
      else (True, q\<lparr>tq_tasks := (tq_tasks q)[tq_head q := task], tq_head := next_head\<rparr>))"

text \<open>
  \<^verbatim>\<open>process_tasks\<close> runs at most \<open>max_tasks\<close> tasks. The function a task points to may touch
  the queue (it may enqueue) and the rest of the program, so \<open>call\<close> takes and returns both;
  the tail moves only after the call, as in the source.
\<close>

fun tq_process ::
  "('f \<Rightarrow> 'c \<Rightarrow> ('c, 'f) task_queue \<times> 'w \<Rightarrow> ('c, 'f) task_queue \<times> 'w) \<Rightarrow>
   nat \<Rightarrow> ('c, 'f) task_queue \<times> 'w \<Rightarrow> nat \<times> ('c, 'f) task_queue \<times> 'w" where
  "tq_process call 0 (q, w) = (0, q, w)"
| "tq_process call (Suc n) (q, w) =
     (if tq_tail q \<noteq> tq_head q then
        let task = tq_tasks q ! tq_tail q;
            (q1, w1) = (case ct_execute task of
                          Some f \<Rightarrow> call f (ct_context task) (q, w)
                        | None \<Rightarrow> (q, w));
            q2 = q1\<lparr>tq_tail := (tq_tail q1 + 1) mod kTaskCapacity\<rparr>;
            (k, r) = tq_process call n (q2, w1)
        in (Suc k, r)
      else (0, q, w))"

definition tq_is_empty :: "('c, 'f) task_queue \<Rightarrow> bool" where
  "tq_is_empty q = (tq_head q = tq_tail q)"

definition tq_count :: "('c, 'f) task_queue \<Rightarrow> nat" where
  "tq_count q =
     (if tq_head q \<ge> tq_tail q then tq_head q - tq_tail q
      else kTaskCapacity - tq_tail q + tq_head q)"

section \<open>The contract of a bounded queue\<close>

text \<open>Repeated dequeuing up to a bound: the loop of \<^verbatim>\<open>get_pending_buffers\<close>.\<close>

fun dequeue_upto :: "('q \<Rightarrow> ('a \<times> 'q) option) \<Rightarrow> nat \<Rightarrow> 'q \<Rightarrow> 'a list \<times> 'q" where
  "dequeue_upto deq 0 q = ([], q)"
| "dequeue_upto deq (Suc n) q =
     (case deq q of None \<Rightarrow> ([], q)
      | Some (x, q') \<Rightarrow> (let (xs, q'') = dequeue_upto deq n q' in (x # xs, q'')))"

fun enqueue_all :: "('q \<Rightarrow> 'a \<Rightarrow> bool \<times> 'q) \<Rightarrow> 'q \<Rightarrow> 'a list \<Rightarrow> 'q" where
  "enqueue_all enq q [] = q"
| "enqueue_all enq q (x # xs) = enqueue_all enq (snd (enq q x)) xs"

text \<open>A sequence of calls with their answers, on an implementation and on a bounded list.\<close>

datatype 'a queue_op = QEnq 'a | QDeq

datatype 'a queue_answer = RAccepted bool | RItem "'a option"

fun queue_run :: "('q \<Rightarrow> 'a \<Rightarrow> bool \<times> 'q) \<Rightarrow> ('q \<Rightarrow> ('a \<times> 'q) option) \<Rightarrow> 'q \<Rightarrow> 'a queue_op list
    \<Rightarrow> 'a queue_answer list \<times> 'q" where
  "queue_run enq deq q [] = ([], q)"
| "queue_run enq deq q (QEnq x # ops) =
     (let (ok, q1) = enq q x; (as, q2) = queue_run enq deq q1 ops in (RAccepted ok # as, q2))"
| "queue_run enq deq q (QDeq # ops) =
     (case deq q of None \<Rightarrow> (let (as, q2) = queue_run enq deq q ops in (RItem None # as, q2))
      | Some (x, q1) \<Rightarrow> (let (as, q2) = queue_run enq deq q1 ops in (RItem (Some x) # as, q2)))"

fun list_run :: "nat \<Rightarrow> 'a list \<Rightarrow> 'a queue_op list \<Rightarrow> 'a queue_answer list \<times> 'a list" where
  "list_run cap xs [] = ([], xs)"
| "list_run cap xs (QEnq x # ops) =
     (if length xs < cap then let (as, ys) = list_run cap (xs @ [x]) ops in (RAccepted True # as, ys)
      else let (as, ys) = list_run cap xs ops in (RAccepted False # as, ys))"
| "list_run cap [] (QDeq # ops) = (let (as, ys) = list_run cap [] ops in (RItem None # as, ys))"
| "list_run cap (x # xs) (QDeq # ops) = (let (as, ys) = list_run cap xs ops in (RItem (Some x) # as, ys))"

lemma list_run_bounded: "length xs \<le> cap \<Longrightarrow> length (snd (list_run cap xs ops)) \<le> cap"
  by (induction cap xs ops rule: list_run.induct) (simp_all add: case_prod_beta)

locale bounded_queue =
  fixes enq :: "'q \<Rightarrow> 'a \<Rightarrow> bool \<times> 'q"
    and deq :: "'q \<Rightarrow> ('a \<times> 'q) option"
    and cnt :: "'q \<Rightarrow> nat"
    and contents :: "'q \<Rightarrow> 'a list"
    and room :: "'q \<Rightarrow> nat"
    and wf :: "'q \<Rightarrow> bool"
  assumes cnt_contents: "wf q \<Longrightarrow> cnt q = length (contents q)"
    and cnt_room: "wf q \<Longrightarrow> cnt q \<le> room q"
    and enq_ok: "wf q \<Longrightarrow> cnt q < room q \<Longrightarrow> \<exists>q'. enq q x = (True, q') \<and> wf q'
      \<and> contents q' = contents q @ [x] \<and> room q' = room q"
    and enq_full: "wf q \<Longrightarrow> cnt q = room q \<Longrightarrow> enq q x = (False, q)"
    and deq_none: "wf q \<Longrightarrow> contents q = [] \<Longrightarrow> deq q = None"
    and deq_some: "wf q \<Longrightarrow> contents q = x # xs \<Longrightarrow> \<exists>q'. deq q = Some (x, q') \<and> wf q'
      \<and> contents q' = xs \<and> room q' = room q"
begin

lemma enq_wf: "wf q \<Longrightarrow> wf (snd (enq q x)) \<and> room (snd (enq q x)) = room q"
  using enq_ok [of q x] enq_full [of q x] cnt_room [of q] by (cases "cnt q < room q") auto

lemma enq_contents: "wf q \<Longrightarrow>
  contents (snd (enq q x)) = (if fst (enq q x) then contents q @ [x] else contents q)"
  using enq_ok [of q x] enq_full [of q x] cnt_room [of q] by (cases "cnt q < room q") auto

lemma enq_result: "wf q \<Longrightarrow> fst (enq q x) \<longleftrightarrow> length (contents q) < room q"
  using enq_ok [of q x] enq_full [of q x] cnt_room [of q] cnt_contents [of q]
  by (cases "cnt q < room q") auto

lemma deq_cases: "wf q \<Longrightarrow>
  (case deq q of None \<Rightarrow> contents q = []
   | Some (x, q') \<Rightarrow> contents q = x # contents q' \<and> wf q' \<and> room q' = room q)"
  using deq_none [of q] deq_some [of q] by (cases "contents q") fastforce+

lemma dequeue_upto_fifo:
  "wf q \<Longrightarrow> dequeue_upto deq n q = (xs, q') \<Longrightarrow>
   xs = take n (contents q) \<and> contents q' = drop n (contents q) \<and> wf q' \<and> room q' = room q"
proof (induction n arbitrary: q xs q')
  case 0
  then show ?case by simp
next
  case (Suc n)
  show ?case
  proof (cases "deq q")
    case None
    with Suc.prems deq_cases [of q] show ?thesis by simp
  next
    case (Some p)
    obtain x r where p: "p = (x, r)" by (cases p)
    obtain ys s where d: "dequeue_upto deq n r = (ys, s)" by fastforce
    from Suc.prems(1) Some p deq_cases [of q]
    have "contents q = x # contents r" "wf r" "room r = room q" by auto
    with Suc.IH [OF _ d] Suc.prems Some p d show ?thesis by auto
  qed
qed

lemma queue_run_refines:
  "wf q \<Longrightarrow> fst (queue_run enq deq q ops) = fst (list_run (room q) (contents q) ops)
     \<and> contents (snd (queue_run enq deq q ops)) = snd (list_run (room q) (contents q) ops)"
proof (induction ops arbitrary: q)
  case Nil
  then show ?case by simp
next
  case (Cons op ops)
  show ?case
  proof (cases op)
    case (QEnq x)
    obtain ok q1 where e: "enq q x = (ok, q1)" by fastforce
    with enq_wf [OF Cons.prems, of x] enq_contents [OF Cons.prems, of x] enq_result [OF Cons.prems, of x]
    have "wf q1" "room q1 = room q" "ok \<longleftrightarrow> length (contents q) < room q"
      "contents q1 = (if ok then contents q @ [x] else contents q)" by simp_all
    with Cons.IH [of q1] QEnq e show ?thesis by (simp add: case_prod_beta)
  next
    case QDeq
    with Cons.IH Cons.prems deq_cases [OF Cons.prems] show ?thesis
      by (cases "deq q") (auto simp: case_prod_beta)
  qed
qed

lemma enqueue_all_fifo:
  "wf q \<Longrightarrow> length (contents q) + length xs \<le> room q \<Longrightarrow>
   contents (enqueue_all enq q xs) = contents q @ xs \<and> wf (enqueue_all enq q xs)"
proof (induction xs arbitrary: q)
  case Nil
  then show ?case by simp
next
  case (Cons x xs)
  then have "cnt q < room q" by (simp add: cnt_contents)
  with Cons.prems(1) obtain q' where q': "enq q x = (True, q')" "wf q'"
    "contents q' = contents q @ [x]" "room q' = room q" using enq_ok by blast
  with Cons.IH [of q'] Cons.prems(2) show ?case by simp
qed

end

section \<open>The rings implement the contract\<close>

definition ring_wf :: "'a ring \<Rightarrow> bool" where
  "ring_wf r \<longleftrightarrow> rg_head r < length (rg_buffer r) \<and> rg_tail r < length (rg_buffer r)"

definition ring_list :: "'a ring \<Rightarrow> 'a list" where
  "ring_list r = map (\<lambda>i. rg_buffer r ! ((rg_tail r + i) mod length (rg_buffer r))) [0..<ring_count r]"

definition ring_room :: "'a ring \<Rightarrow> nat" where
  "ring_room r = length (rg_buffer r) - 1"

lemma ring_new_wf: "0 < N \<Longrightarrow> ring_wf (ring_new N x) \<and> ring_list (ring_new N x) = []
    \<and> ring_room (ring_new N x) = N - 1"
  by (simp add: ring_wf_def ring_new_def ring_list_def ring_count_def ring_room_def)

lemma ring_count_less: "ring_wf r \<Longrightarrow> ring_count r < length (rg_buffer r)"
  by (auto simp: ring_wf_def ring_count_def)

lemma ring_head_pos:
  "ring_wf r \<Longrightarrow> rg_head r = (rg_tail r + ring_count r) mod length (rg_buffer r)"
  by (auto simp: ring_wf_def ring_count_def mod_if)

lemma ring_full_iff:
  "ring_wf r \<Longrightarrow> (rg_head r + 1) mod length (rg_buffer r) = rg_tail r \<longleftrightarrow> ring_count r = ring_room r"
  by (auto simp: ring_wf_def ring_count_def ring_room_def mod_Suc)

lemma ring_enqueue_ok:
  assumes wf: "ring_wf r" and room: "ring_count r < ring_room r"
  shows "\<exists>q. ring_enqueue r x = (True, q) \<and> ring_wf q
      \<and> ring_list q = ring_list r @ [x] \<and> ring_room q = ring_room r"
proof -
  let ?n = "length (rg_buffer r)"
  let ?q = "r\<lparr>rg_buffer := (rg_buffer r)[rg_head r := x], rg_head := (rg_head r + 1) mod ?n\<rparr>"
  have neq: "(rg_head r + 1) mod ?n \<noteq> rg_tail r"
    using ring_full_iff [OF wf] room by simp
  have cnt: "ring_count ?q = Suc (ring_count r)"
    using wf neq by (auto simp: ring_wf_def ring_count_def mod_Suc)
  have "i < ring_count r \<Longrightarrow> rg_head r \<noteq> (rg_tail r + i) mod ?n" for i
    using mod_add_inj [of "rg_tail r" i ?n "ring_count r"] ring_head_pos [OF wf] ring_count_less [OF wf]
    by fastforce
  then have old: "i < ring_count r \<Longrightarrow>
      (rg_buffer r)[rg_head r := x] ! ((rg_tail r + i) mod ?n) = rg_buffer r ! ((rg_tail r + i) mod ?n)" for i
    by simp
  have "ring_list ?q = ring_list r @ [x]"
    unfolding ring_list_def cnt using old ring_head_pos [OF wf] wf
    by (simp add: ring_wf_def)
  moreover have "0 < ?n" using wf by (auto simp: ring_wf_def)
  then have "ring_wf ?q" using wf by (auto simp: ring_wf_def)
  ultimately show ?thesis using neq
    by (simp add: ring_enqueue_def Let_def ring_room_def)
qed

lemma ring_dequeue_ok:
  assumes wf: "ring_wf r" and list: "ring_list r = x # xs"
  shows "\<exists>q. ring_dequeue r = Some (x, q) \<and> ring_wf q \<and> ring_list q = xs \<and> ring_room q = ring_room r"
proof -
  let ?n = "length (rg_buffer r)"
  let ?q = "r\<lparr>rg_tail := (rg_tail r + 1) mod ?n\<rparr>"
  have pos: "0 < ring_count r" using list by (cases "ring_count r") (auto simp: ring_list_def)
  then have neq: "rg_tail r \<noteq> rg_head r" by (auto simp: ring_count_def)
  have cnt: "ring_count r = Suc (ring_count ?q)"
    using wf neq by (auto simp: ring_wf_def ring_count_def mod_Suc)
  have "ring_list r = rg_buffer r ! rg_tail r # ring_list ?q"
    unfolding ring_list_def cnt using wf
    by (simp add: ring_wf_def upt_conv_Cons map_Suc_upt [symmetric] comp_def mod_add_left_eq del: upt_Suc)
  moreover have "0 < ?n" using wf by (auto simp: ring_wf_def)
  ultimately show ?thesis using list neq wf
    by (auto simp: ring_dequeue_def ring_wf_def ring_room_def)
qed

interpretation sring: bounded_queue ring_enqueue ring_dequeue ring_count ring_list ring_room ring_wf
proof unfold_locales
  fix q :: "'a ring" and x :: 'a
  show "ring_wf q \<Longrightarrow> ring_count q = length (ring_list q)" by (simp add: ring_list_def)
  show "ring_wf q \<Longrightarrow> ring_count q \<le> ring_room q" using ring_count_less [of q] by (simp add: ring_room_def)
  show "ring_wf q \<Longrightarrow> ring_count q = ring_room q \<Longrightarrow> ring_enqueue q x = (False, q)"
    using ring_full_iff [of q] by (simp add: ring_enqueue_def)
  show "ring_wf q \<Longrightarrow> ring_list q = [] \<Longrightarrow> ring_dequeue q = None"
    by (auto simp: ring_list_def ring_dequeue_def ring_wf_def ring_count_def split: if_splits)
  show "ring_wf q \<Longrightarrow> ring_count q < ring_room q \<Longrightarrow> \<exists>q'. ring_enqueue q x = (True, q') \<and> ring_wf q'
      \<and> ring_list q' = ring_list q @ [x] \<and> ring_room q' = ring_room q"
    by (rule ring_enqueue_ok)
next
  fix q :: "'a ring" and x xs
  show "ring_wf q \<Longrightarrow> ring_list q = x # xs \<Longrightarrow> \<exists>q'. ring_dequeue q = Some (x, q') \<and> ring_wf q'
      \<and> ring_list q' = xs \<and> ring_room q' = ring_room q"
    by (rule ring_dequeue_ok)
qed

section \<open>The task queue runs on the ring\<close>

definition tq_wf :: "('c, 'f) task_queue \<Rightarrow> bool" where
  "tq_wf q \<longleftrightarrow> length (tq_tasks q) = kTaskCapacity \<and> tq_head q < kTaskCapacity \<and> tq_tail q < kTaskCapacity"

definition tq_ring :: "('c, 'f) task_queue \<Rightarrow> ('c, 'f) cb_task ring" where
  "tq_ring q = \<lparr>rg_buffer = tq_tasks q, rg_head = tq_head q, rg_tail = tq_tail q\<rparr>"

definition ring_tq :: "('c, 'f) cb_task ring \<Rightarrow> ('c, 'f) task_queue" where
  "ring_tq r = \<lparr>tq_tasks = rg_buffer r, tq_head = rg_head r, tq_tail = rg_tail r\<rparr>"

definition tq_list :: "('c, 'f) task_queue \<Rightarrow> ('c, 'f) cb_task list" where
  "tq_list q = ring_list (tq_ring q)"

definition tq_pop :: "('c, 'f) task_queue \<Rightarrow> (('c, 'f) cb_task \<times> ('c, 'f) task_queue) option" where
  "tq_pop q = map_option (map_prod id ring_tq) (ring_dequeue (tq_ring q))"

definition tq_room :: "('c, 'f) task_queue \<Rightarrow> nat" where
  "tq_room q = kTaskCapacity - 1"

lemma ring_tq_inverse [simp]: "ring_tq (tq_ring q) = q" "tq_ring (ring_tq r) = r"
  by (simp_all add: ring_tq_def tq_ring_def)

lemma tq_wf_ring: "tq_wf q \<Longrightarrow> ring_wf (tq_ring q)"
  by (simp add: tq_wf_def ring_wf_def tq_ring_def)

lemma tq_count_ring: "tq_wf q \<Longrightarrow> tq_count q = ring_count (tq_ring q)"
  by (simp add: tq_wf_def tq_count_def ring_count_def tq_ring_def)

lemma tq_enqueue_ring: "tq_wf q \<Longrightarrow> tq_enqueue q t = map_prod id ring_tq (ring_enqueue (tq_ring q) t)"
  by (simp add: tq_wf_def tq_enqueue_def ring_enqueue_def tq_ring_def ring_tq_def Let_def)

lemma tq_room_ring: "tq_wf q \<Longrightarrow> tq_room q = ring_room (tq_ring q)"
  by (simp add: tq_wf_def tq_room_def ring_room_def tq_ring_def)

lemma ring_enqueue_length: "length (rg_buffer (snd (ring_enqueue r x))) = length (rg_buffer r)"
  by (simp add: ring_enqueue_def Let_def)

lemma ring_dequeue_length: "ring_dequeue r = Some (x, r') \<Longrightarrow> length (rg_buffer r') = length (rg_buffer r)"
  by (auto simp: ring_dequeue_def split: if_splits)

lemma tq_wf_ring_tq: "ring_wf r \<Longrightarrow> length (rg_buffer r) = kTaskCapacity \<Longrightarrow> tq_wf (ring_tq r)"
  by (simp add: tq_wf_def ring_wf_def ring_tq_def)

lemma tq_wf_length: "tq_wf q \<Longrightarrow> length (rg_buffer (tq_ring q)) = kTaskCapacity"
  by (simp add: tq_wf_def tq_ring_def)

interpretation tqueue: bounded_queue tq_enqueue tq_pop tq_count tq_list tq_room tq_wf
proof unfold_locales
  fix q :: "('c, 'f) task_queue" and x
  assume wf: "tq_wf q"
  note r = tq_wf_ring [OF wf]
  show "tq_count q = length (tq_list q)"
    using sring.cnt_contents [OF r] by (simp add: tq_count_ring [OF wf] tq_list_def)
  show "tq_count q \<le> tq_room q"
    using sring.cnt_room [OF r] by (simp add: tq_count_ring [OF wf] tq_room_ring [OF wf])
  show "tq_count q = tq_room q \<Longrightarrow> tq_enqueue q x = (False, q)"
    using sring.enq_full [OF r] by (simp add: tq_count_ring tq_room_ring tq_enqueue_ring wf)
  show "tq_list q = [] \<Longrightarrow> tq_pop q = None"
    using sring.deq_none [OF r] by (simp add: tq_list_def tq_pop_def)
  show "\<exists>q'. tq_enqueue q x = (True, q') \<and> tq_wf q' \<and> tq_list q' = tq_list q @ [x] \<and> tq_room q' = tq_room q"
    if "tq_count q < tq_room q"
  proof -
    from that obtain s where s: "ring_enqueue (tq_ring q) x = (True, s)" "ring_wf s"
      "ring_list s = ring_list (tq_ring q) @ [x]"
      using sring.enq_ok [OF r] by (metis tq_count_ring tq_room_ring wf)
    moreover have "length (rg_buffer s) = kTaskCapacity"
      using ring_enqueue_length [of "tq_ring q" x] s tq_wf_length [OF wf] by simp
    ultimately show ?thesis
      by (simp add: tq_enqueue_ring [OF wf] tq_wf_ring_tq tq_list_def tq_room_def)
  qed
next
  fix q :: "('c, 'f) task_queue" and x xs
  assume wf: "tq_wf q" and list: "tq_list q = x # xs"
  then obtain s where s: "ring_dequeue (tq_ring q) = Some (x, s)" "ring_wf s" "ring_list s = xs"
    using sring.deq_some [OF tq_wf_ring [OF wf]] by (auto simp: tq_list_def)
  moreover have "length (rg_buffer s) = kTaskCapacity"
    using ring_dequeue_length [OF s(1)] tq_wf_length [OF wf] by simp
  ultimately show "\<exists>q'. tq_pop q = Some (x, q') \<and> tq_wf q' \<and> tq_list q' = xs \<and> tq_room q' = tq_room q"
    by (simp add: tq_pop_def tq_wf_ring_tq tq_list_def tq_room_def)
qed

text \<open>The effect of one task on the rest of the program, when it leaves the queue alone.\<close>

definition task_effect :: "('f \<Rightarrow> 'c \<Rightarrow> 'w \<Rightarrow> 'w) \<Rightarrow> ('c, 'f) cb_task \<Rightarrow> 'w \<Rightarrow> 'w" where
  "task_effect h t w = (case ct_execute t of Some f \<Rightarrow> h f (ct_context t) w | None \<Rightarrow> w)"

lemma tq_pop_unfold:
  "tq_wf q \<Longrightarrow> tq_pop q = (if tq_tail q = tq_head q then None
     else Some (tq_tasks q ! tq_tail q, q\<lparr>tq_tail := (tq_tail q + 1) mod kTaskCapacity\<rparr>))"
  by (simp add: tq_pop_def ring_dequeue_def tq_ring_def ring_tq_def tq_wf_def)

lemma tq_process_pop:
  "tq_wf q \<Longrightarrow> tq_process (\<lambda>f c (q, w). (q, h f c w)) n (q, w) =
    (let (ts, q') = dequeue_upto tq_pop n q in (length ts, q', fold (task_effect h) ts w))"
proof (induction n arbitrary: q w)
  case 0
  then show ?case by simp
next
  case (Suc n)
  show ?case
  proof (cases "tq_tail q = tq_head q")
    case True
    with Suc.prems show ?thesis by (simp add: tq_pop_unfold)
  next
    case False
    let ?q = "q\<lparr>tq_tail := (tq_tail q + 1) mod kTaskCapacity\<rparr>"
    have "tq_wf ?q" using Suc.prems by (auto simp: tq_wf_def kTaskCapacity_def)
    with Suc.IH False Suc.prems show ?thesis
      by (auto simp: tq_pop_unfold task_effect_def Let_def split: option.splits prod.splits)
  qed
qed

section \<open>Properties\<close>

text \<open>C32: \<^verbatim>\<open>SimpleRing\<close> is a bounded FIFO queue. On a new ring of \<open>N\<close> slots, any sequence of calls of
  enqueue and dequeue, of any length, is answered as by a list that holds at most \<open>N - 1\<close> items: enqueue
  appends and answers true unless the list is full, when it answers false and changes nothing; dequeue
  takes the oldest item, or answers false on the empty list. Both indices may wrap around any number of
  times. Afterwards the ring holds exactly the items of the list, in order.\<close>

theorem ring_fifo:
  assumes "0 < N"
  shows "fst (queue_run ring_enqueue ring_dequeue (ring_new N fill) ops) = fst (list_run (N - 1) [] ops)
       \<and> ring_list (snd (queue_run ring_enqueue ring_dequeue (ring_new N fill) ops)) = snd (list_run (N - 1) [] ops)
       \<and> length (snd (list_run (N - 1) [] ops)) \<le> N - 1"
  using sring.queue_run_refines [of "ring_new N fill" ops] ring_new_wf [OF assms, of fill]
    list_run_bounded [of "[]" "N - 1" ops] by simp

theorem ring_fifo_witness:
  "fst (queue_run ring_enqueue ring_dequeue (ring_new 3 (0 :: nat))
      [QEnq 5, QEnq 6, QEnq 7, QDeq, QEnq 8, QDeq, QEnq 9, QDeq, QDeq, QDeq])
    = [RAccepted True, RAccepted True, RAccepted False, RItem (Some 5), RAccepted True, RItem (Some 6),
       RAccepted True, RItem (Some 8), RItem (Some 9), RItem None]"
  using ring_fifo [of 3 "0 :: nat" "[QEnq 5, QEnq 6, QEnq 7, QDeq, QEnq 8, QDeq, QEnq 9, QDeq, QDeq, QDeq]"] by simp

text \<open>A call of \<^verbatim>\<open>process_tasks(n)\<close> executes exactly the first \<open>n\<close> queued tasks (or
  all of them), in the order they were enqueued, and leaves the others queued.\<close>

theorem tq_process_fifo:
  assumes "tq_wf q" and "tq_process (\<lambda>f c (q, w). (q, h f c w)) n (q, w) = (k, q', w')"
  shows "k = min n (tq_count q) \<and> w' = fold (task_effect h) (take n (tq_list q)) w
       \<and> tq_list q' = drop n (tq_list q) \<and> tq_wf q'"
proof -
  obtain ts r where d: "dequeue_upto tq_pop n q = (ts, r)" by fastforce
  from tqueue.dequeue_upto_fifo [OF assms(1) d] tq_process_pop [OF assms(1), of h n w] d assms(2)
  show ?thesis using tqueue.cnt_contents [OF assms(1)] by auto
qed

theorem tq_process_fifo_witness:
  "\<exists>q' w'. tq_process (\<lambda>f c (q, w). (q, w + c)) 3
      (tq_new \<lparr>ct_type = UserCallback, ct_context = 0, ct_execute = Some ()\<rparr>, 4 :: nat) = (0, q', w')
    \<and> w' = 4"
proof -
  let ?q = "tq_new \<lparr>ct_type = UserCallback, ct_context = 0 :: nat, ct_execute = Some ()\<rparr>"
  have wf: "tq_wf ?q" and c: "tq_count ?q = 0"
    by (simp_all add: tq_wf_def tq_new_def tq_count_def kTaskCapacity_def)
  obtain k q' w' where r: "tq_process (\<lambda>f c (q, w). (q, w + c)) 3 (?q, 4) = (k, q', w')"
    by (metis prod_cases3)
  have "tq_list ?q = []" using tqueue.cnt_contents [OF wf] c by simp
  with tq_process_fifo [where h = "\<lambda>f c w. w + c", OF wf r] c r show ?thesis by simp
qed

end
