(* ===== verification/KvPools.thy ===== *)
theory KvPools
  imports KvPrelude
begin

text \<open>
  The object pools: \<^verbatim>\<open>CtxPool\<close> of \<^verbatim>\<open>include/spdk_kv/ctx_pool.h\<close> (completion contexts of
  in-flight IO), \<^verbatim>\<open>DmaMemoryPool\<close> and \<^verbatim>\<open>RefCountedBuffer\<close> of
  \<^verbatim>\<open>include/spdk_kv/dma_memory_pool.h\<close>. The locale \<open>slot_pool\<close> is the contract of a pool of
  reusable slots; both pools interpret it, and its client lemma is that a slot is never handed
  out twice while it is live.
\<close>

section \<open>CtxPool\<close>

text \<open>
  A context pointer is the address of one of the pool's \<open>N\<close> storage slots or of a heap block;
  \<^verbatim>\<open>is_from_pool\<close> compares the address with the storage array.
\<close>

datatype ctx_ptr = PoolSlot nat | HeapBlock nat

record ctx_pool =
  cp_free_list :: "nat list"
  cp_free_count :: nat

definition ctx_pool_new :: "nat \<Rightarrow> ctx_pool" where
  "ctx_pool_new N = \<lparr>cp_free_list = [0..<N], cp_free_count = N\<rparr>"

text \<open>\<open>fresh\<close> is the block \<^verbatim>\<open>::operator new\<close> returns when the pool is exhausted.\<close>

definition ctx_pool_alloc :: "nat \<Rightarrow> ctx_pool \<Rightarrow> ctx_ptr \<times> ctx_pool" where
  "ctx_pool_alloc fresh p =
     (if cp_free_count p > 0
      then (PoolSlot (cp_free_list p ! (cp_free_count p - 1)), p\<lparr>cp_free_count := cp_free_count p - 1\<rparr>)
      else (HeapBlock fresh, p))"

definition ctx_is_from_pool :: "ctx_pool \<Rightarrow> ctx_ptr \<Rightarrow> bool" where
  "ctx_is_from_pool p ptr = (case ptr of PoolSlot i \<Rightarrow> i < length (cp_free_list p) | HeapBlock _ \<Rightarrow> False)"

definition ctx_pool_free :: "ctx_ptr option \<Rightarrow> ctx_pool \<Rightarrow> ctx_pool" where
  "ctx_pool_free ptr p =
     (case ptr of
        None \<Rightarrow> p
      | Some (PoolSlot i) \<Rightarrow>
          if ctx_is_from_pool p (PoolSlot i)
          then p\<lparr>cp_free_list := (cp_free_list p)[cp_free_count p := i],
                 cp_free_count := cp_free_count p + 1\<rparr>
          else p
      | Some (HeapBlock _) \<Rightarrow> p)"

definition ctx_pool_available :: "ctx_pool \<Rightarrow> nat" where
  "ctx_pool_available p = cp_free_count p"

section \<open>DmaMemoryPool\<close>

record dma_pool =
  dp_base :: u64
  dp_block_size :: u64
  dp_block_count :: nat
  dp_free_list :: "u64 list"

text \<open>
  The constructor after the allocation fallback chain: \<open>base\<close> is the address the SPDK or libc
  allocator returned, 0 when every attempt failed.
\<close>

definition dma_pool_new :: "u64 \<Rightarrow> u64 \<Rightarrow> nat \<Rightarrow> dma_pool" where
  "dma_pool_new base block_size block_count =
     \<lparr>dp_base = base, dp_block_size = block_size, dp_block_count = block_count,
      dp_free_list = (if base = 0 then [] else map (\<lambda>i. base + of_nat i * block_size) [0..<block_count])\<rparr>"

definition dma_pool_is_valid :: "dma_pool \<Rightarrow> bool" where
  "dma_pool_is_valid p = (dp_base p \<noteq> 0)"

definition dma_pool_alloc :: "dma_pool \<Rightarrow> (u64 \<times> dma_pool) option" where
  "dma_pool_alloc p =
     (if dp_free_list p = [] then None
      else Some (last (dp_free_list p), p\<lparr>dp_free_list := butlast (dp_free_list p)\<rparr>))"

definition dma_pool_free :: "u64 \<Rightarrow> dma_pool \<Rightarrow> dma_pool" where
  "dma_pool_free ptr p = (if ptr \<noteq> 0 then p\<lparr>dp_free_list := dp_free_list p @ [ptr]\<rparr> else p)"

section \<open>RefCountedBuffer\<close>

record rc_buffer =
  rb_data :: u64
  rb_pool :: "dma_pool option"
  rb_ref_count :: "32 word"
  rb_destroyed :: bool

definition rc_buffer_new :: "u64 \<Rightarrow> dma_pool option \<Rightarrow> rc_buffer" where
  "rc_buffer_new data pool = \<lparr>rb_data = data, rb_pool = pool, rb_ref_count = 1, rb_destroyed = False\<rparr>"

definition rc_add_ref :: "rc_buffer \<Rightarrow> rc_buffer" where
  "rc_add_ref b = b\<lparr>rb_ref_count := rb_ref_count b + 1\<rparr>"

definition rc_release :: "rc_buffer \<Rightarrow> bool \<times> rc_buffer" where
  "rc_release b =
     (let b1 = b\<lparr>rb_ref_count := rb_ref_count b - 1\<rparr> in
      if rb_ref_count b = 1
      then (True, b1\<lparr>rb_pool := map_option (dma_pool_free (rb_data b)) (rb_pool b), rb_destroyed := True\<rparr>)
      else (False, b1))"

section \<open>The contract of a slot pool\<close>

datatype 'x pool_op = PoolAlloc | PoolFree 'x

text \<open>A client of the pool: it frees only what it holds.\<close>

fun pool_run :: "('p \<Rightarrow> ('x \<times> 'p) option) \<Rightarrow> ('x \<Rightarrow> 'p \<Rightarrow> 'p) \<Rightarrow> 'x pool_op list \<Rightarrow>
    'p \<times> 'x list \<Rightarrow> 'p \<times> 'x list" where
  "pool_run pop push [] (p, live) = (p, live)"
| "pool_run pop push (PoolAlloc # ops) (p, live) =
     (case pop p of None \<Rightarrow> pool_run pop push ops (p, live)
      | Some (x, q) \<Rightarrow> pool_run pop push ops (q, x # live))"
| "pool_run pop push (PoolFree x # ops) (p, live) =
     (if x \<in> set live then pool_run pop push ops (push x p, remove1 x live)
      else pool_run pop push ops (p, live))"

locale slot_pool =
  fixes pop :: "'p \<Rightarrow> ('x \<times> 'p) option"
    and push :: "'x \<Rightarrow> 'p \<Rightarrow> 'p"
    and free_slots :: "'p \<Rightarrow> 'x list"
    and slots :: "'p \<Rightarrow> 'x set"
    and wf :: "'p \<Rightarrow> bool"
  assumes pop_none: "wf p \<Longrightarrow> pop p = None \<longleftrightarrow> free_slots p = []"
    and pop_some: "wf p \<Longrightarrow> pop p = Some (x, q) \<Longrightarrow>
      free_slots p = free_slots q @ [x] \<and> wf q \<and> slots q = slots p"
    and push_slot: "wf p \<Longrightarrow> x \<in> slots p \<Longrightarrow> x \<notin> set (free_slots p) \<Longrightarrow>
      free_slots (push x p) = free_slots p @ [x] \<and> wf (push x p) \<and> slots (push x p) = slots p"
    and wf_distinct: "wf p \<Longrightarrow> distinct (free_slots p) \<and> set (free_slots p) \<subseteq> slots p"
begin

definition accounted :: "'p \<Rightarrow> 'x list \<Rightarrow> bool" where
  "accounted p live \<longleftrightarrow> wf p \<and> distinct (live @ free_slots p) \<and> set (live @ free_slots p) = slots p"

lemma accounted_step:
  assumes "accounted p live"
  shows "pop p = Some (x, q) \<Longrightarrow> accounted q (x # live)"
    and "x \<in> set live \<Longrightarrow> accounted (push x p) (remove1 x live)"
proof -
  assume "pop p = Some (x, q)"
  with pop_some [of p x q] assms show "accounted q (x # live)"
    unfolding accounted_def by auto
next
  assume x: "x \<in> set live"
  with assms have "wf p" "x \<in> slots p" "x \<notin> set (free_slots p)" unfolding accounted_def by auto
  with push_slot [of p x] assms x show "accounted (push x p) (remove1 x live)"
    unfolding accounted_def by auto
qed

lemma pool_run_accounted:
  "accounted p live \<Longrightarrow> pool_run pop push ops (p, live) = (p', live') \<Longrightarrow> accounted p' live'"
proof (induction ops arbitrary: p live)
  case Nil
  then show ?case by simp
next
  case (Cons opr ops)
  show ?case
  proof (cases opr)
    case PoolAlloc
    with Cons show ?thesis by (auto split: option.splits dest: accounted_step(1))
  next
    case (PoolFree x)
    with Cons show ?thesis by (auto split: if_splits dest: accounted_step(2))
  qed
qed

lemma accounted_exclusive: "accounted p live \<Longrightarrow> distinct live \<and> set live \<subseteq> slots p"
  unfolding accounted_def by auto

end

section \<open>Interpretations\<close>

definition ctx_pop :: "ctx_pool \<Rightarrow> (nat \<times> ctx_pool) option" where
  "ctx_pop p = (case ctx_pool_alloc 0 p of (PoolSlot i, q) \<Rightarrow> Some (i, q) | (HeapBlock _, _) \<Rightarrow> None)"

definition ctx_push :: "nat \<Rightarrow> ctx_pool \<Rightarrow> ctx_pool" where
  "ctx_push i p = ctx_pool_free (Some (PoolSlot i)) p"

definition ctx_free_slots :: "ctx_pool \<Rightarrow> nat list" where
  "ctx_free_slots p = take (cp_free_count p) (cp_free_list p)"

definition ctx_slots :: "ctx_pool \<Rightarrow> nat set" where
  "ctx_slots p = {..<length (cp_free_list p)}"

definition ctx_pool_wf :: "ctx_pool \<Rightarrow> bool" where
  "ctx_pool_wf p \<longleftrightarrow> cp_free_count p \<le> length (cp_free_list p) \<and> distinct (ctx_free_slots p)
     \<and> set (ctx_free_slots p) \<subseteq> ctx_slots p"

lemma ctx_pool_not_full:
  assumes "ctx_pool_wf p" "i \<in> ctx_slots p" "i \<notin> set (ctx_free_slots p)"
  shows "cp_free_count p < length (cp_free_list p)"
proof -
  have "card (set (ctx_free_slots p)) < card (ctx_slots p)"
    using assms by (intro psubset_card_mono) (auto simp: ctx_slots_def ctx_pool_wf_def)
  with assms(1) show ?thesis
    by (simp add: ctx_pool_wf_def distinct_card ctx_slots_def) (simp add: ctx_free_slots_def)
qed

interpretation ctxp: slot_pool ctx_pop ctx_push ctx_free_slots ctx_slots ctx_pool_wf
proof unfold_locales
  fix p :: ctx_pool and x q
  assume wf: "ctx_pool_wf p"
  then show "(ctx_pop p = None) = (ctx_free_slots p = [])"
    by (auto simp: ctx_pop_def ctx_pool_alloc_def ctx_free_slots_def ctx_pool_wf_def)
  show "distinct (ctx_free_slots p) \<and> set (ctx_free_slots p) \<subseteq> ctx_slots p"
    using wf by (simp add: ctx_pool_wf_def)
  show "ctx_free_slots p = ctx_free_slots q @ [x] \<and> ctx_pool_wf q \<and> ctx_slots q = ctx_slots p"
    if "ctx_pop p = Some (x, q)"
  proof -
    from that have c: "0 < cp_free_count p" and q: "q = p\<lparr>cp_free_count := cp_free_count p - 1\<rparr>"
      and x: "x = cp_free_list p ! (cp_free_count p - 1)"
      by (auto simp: ctx_pop_def ctx_pool_alloc_def split: if_splits)
    from c obtain m where m: "cp_free_count p = Suc m" by (cases "cp_free_count p") auto
    have eq: "ctx_free_slots p = ctx_free_slots q @ [x]"
      using wf by (simp add: m ctx_free_slots_def q x ctx_pool_wf_def take_Suc_conv_app_nth)
    with wf show ?thesis by (auto simp: ctx_pool_wf_def q ctx_slots_def)
  qed
  show "ctx_free_slots (ctx_push x p) = ctx_free_slots p @ [x] \<and> ctx_pool_wf (ctx_push x p)
      \<and> ctx_slots (ctx_push x p) = ctx_slots p"
    if "x \<in> ctx_slots p" "x \<notin> set (ctx_free_slots p)"
  proof -
    have "cp_free_count p < length (cp_free_list p)"
      using ctx_pool_not_full [OF wf that] .
    then have "ctx_free_slots (ctx_push x p) = ctx_free_slots p @ [x]"
      using that(1) by (simp add: ctx_push_def ctx_pool_free_def ctx_is_from_pool_def ctx_slots_def
          ctx_free_slots_def take_Suc_conv_app_nth)
    with that wf \<open>cp_free_count p < length (cp_free_list p)\<close> show ?thesis
      by (auto simp: ctx_pool_wf_def ctx_slots_def ctx_push_def ctx_pool_free_def ctx_is_from_pool_def)
  qed
qed

definition dma_blocks :: "dma_pool \<Rightarrow> u64 set" where
  "dma_blocks p = (\<lambda>i. dp_base p + of_nat i * dp_block_size p) ` {..<dp_block_count p}"

text \<open>The pool lies in the address space and its blocks are not empty.\<close>

definition dma_pool_wf :: "dma_pool \<Rightarrow> bool" where
  "dma_pool_wf p \<longleftrightarrow> 0 \<notin> dma_blocks p \<and> distinct (dp_free_list p) \<and> set (dp_free_list p) \<subseteq> dma_blocks p"

interpretation dmap: slot_pool dma_pool_alloc dma_pool_free dp_free_list dma_blocks dma_pool_wf
proof unfold_locales
  fix p :: dma_pool and x q
  assume wf: "dma_pool_wf p"
  show "(dma_pool_alloc p = None) = (dp_free_list p = [])" by (simp add: dma_pool_alloc_def)
  show "distinct (dp_free_list p) \<and> set (dp_free_list p) \<subseteq> dma_blocks p"
    using wf by (simp add: dma_pool_wf_def)
  show "dp_free_list p = dp_free_list q @ [x] \<and> dma_pool_wf q \<and> dma_blocks q = dma_blocks p"
    if "dma_pool_alloc p = Some (x, q)"
  proof -
    from that have ne: "dp_free_list p \<noteq> []" and x: "x = last (dp_free_list p)"
      and q: "q = p\<lparr>dp_free_list := butlast (dp_free_list p)\<rparr>"
      by (auto simp: dma_pool_alloc_def split: if_splits)
    from ne have "dp_free_list p = dp_free_list q @ [x]" by (simp add: q x)
    moreover have "dma_blocks q = dma_blocks p" by (simp add: q dma_blocks_def)
    ultimately show ?thesis using wf by (auto simp: dma_pool_wf_def)
  qed
  show "dp_free_list (dma_pool_free x p) = dp_free_list p @ [x] \<and> dma_pool_wf (dma_pool_free x p)
      \<and> dma_blocks (dma_pool_free x p) = dma_blocks p"
    if "x \<in> dma_blocks p" "x \<notin> set (dp_free_list p)"
  proof -
    have "x \<noteq> 0" using that wf by (auto simp: dma_pool_wf_def)
    then have "dp_free_list (dma_pool_free x p) = dp_free_list p @ [x]"
      and "dma_blocks (dma_pool_free x p) = dma_blocks p"
      by (simp_all add: dma_pool_free_def dma_blocks_def)
    with that wf show ?thesis by (simp add: dma_pool_wf_def)
  qed
qed

lemma dma_addr:
  assumes bs: "0 < unat bs" and fits: "unat base + n * unat bs < 2 ^ 64" and "i < n"
  shows "unat (base + of_nat i * bs) = unat base + i * unat (bs :: u64)"
proof -
  have le: "i * unat bs \<le> n * unat bs" using \<open>i < n\<close> by simp
  have "n \<le> n * unat bs" using bs by simp
  with fits \<open>i < n\<close> have "i < 2 ^ 64" by linarith
  then have i: "unat (of_nat i :: u64) = i" by (simp add: unat_of_nat)
  from le fits have "i * unat bs < 2 ^ 64" by linarith
  with i have m: "unat (of_nat i * bs) = i * unat bs" by (simp add: unat_word_ariths)
  from le fits have "unat base + i * unat bs < 2 ^ 64" by linarith
  then have "unat base + unat (of_nat i * bs) < 2 ^ LENGTH(64)" by (simp add: m)
  then show ?thesis by (simp only: unat_plus_small m)
qed

lemma dma_addr_inj:
  assumes bs: "0 < unat bs" and fits: "unat base + n * unat bs < 2 ^ 64"
  shows "inj_on (\<lambda>i. base + of_nat i * (bs :: u64)) {..<n}"
proof (rule inj_onI)
  fix i j assume "i \<in> {..<n}" "j \<in> {..<n}" "base + of_nat i * bs = base + of_nat j * bs"
  with dma_addr [OF bs fits, of i] dma_addr [OF bs fits, of j] bs show "i = j"
    by (metis add_left_cancel lessThan_iff mult_cancel2 neq0_conv)
qed

lemma dma_pool_new_wf:
  assumes base: "base \<noteq> 0" and bs: "0 < unat bs" and fits: "unat base + n * unat bs < 2 ^ 64"
  shows "dmap.accounted (dma_pool_new base bs n) []"
proof -
  have "base + of_nat i * bs \<noteq> 0" if "i < n" for i
  proof
    assume "base + of_nat i * bs = 0"
    then have "unat base + i * unat bs = 0" using dma_addr [OF bs fits that] by simp
    with base show False by (simp add: unat_eq_zero)
  qed
  with dma_addr_inj [OF bs fits] show ?thesis
    using base unfolding dmap.accounted_def
    by (auto simp: dma_pool_wf_def dma_pool_new_def dma_blocks_def distinct_map lessThan_atLeast0)
qed

text \<open>Neither pool changes its geometry during a run.\<close>

lemma ctx_pool_run_length:
  "pool_run ctx_pop ctx_push ops (p, live) = (q, live') \<Longrightarrow> length (cp_free_list q) = length (cp_free_list p)"
proof (induction ops arbitrary: p live)
  case Nil
  then show ?case by simp
next
  case (Cons opr ops)
  then show ?case
    by (cases opr) (auto simp: ctx_pop_def ctx_pool_alloc_def ctx_push_def ctx_pool_free_def
        split: option.splits if_splits dest!: Cons.IH)
qed

lemma dma_step_blocks:
  "dma_blocks (dma_pool_free x p) = dma_blocks p"
  "dma_pool_alloc p = Some (y, q) \<Longrightarrow> dma_blocks q = dma_blocks p"
  by (auto simp: dma_pool_free_def dma_pool_alloc_def dma_blocks_def split: if_splits)

lemma dma_pool_run_blocks:
  "pool_run dma_pool_alloc dma_pool_free ops (p, live) = (q, live') \<Longrightarrow> dma_blocks q = dma_blocks p"
proof (induction ops arbitrary: p live)
  case Nil
  then show ?case by simp
next
  case (Cons opr ops)
  then show ?case
    by (cases opr) (auto simp: dma_step_blocks split: option.splits if_splits)
qed

lemma ctx_accounted_length:
  assumes "ctxp.accounted p live"
  shows "length live + cp_free_count p = length (cp_free_list p)"
proof -
  from assms have d: "distinct (live @ ctx_free_slots p)" and s: "set (live @ ctx_free_slots p) = ctx_slots p"
    and c: "cp_free_count p \<le> length (cp_free_list p)"
    by (simp_all add: ctxp.accounted_def ctx_pool_wf_def)
  from distinct_card [OF d] s have "length (live @ ctx_free_slots p) = card (ctx_slots p)" by simp
  with c show ?thesis by (simp add: ctx_slots_def ctx_free_slots_def)
qed

text \<open>The region a pool carves its blocks from, and its arithmetic without wrap-around.\<close>

definition dma_region :: "u64 \<Rightarrow> u64 \<Rightarrow> nat \<Rightarrow> u64 set" where
  "dma_region base bs n = (\<lambda>i. base + of_nat i * bs) ` {..<n}"

lemma dma_region_bounds:
  assumes "0 < unat bs" "unat base + n * unat bs < 2 ^ 64" "a \<in> dma_region base bs n"
  shows "unat base \<le> unat a \<and> unat a + unat bs \<le> unat base + n * unat bs"
proof -
  from assms(3) obtain i where i: "i < n" "a = base + of_nat i * bs" by (auto simp: dma_region_def)
  from i(1) have "(i + 1) * unat bs \<le> n * unat bs" by (intro mult_right_mono) auto
  with dma_addr [OF assms(1,2) i(1)] i(2) show ?thesis by simp
qed

lemma dma_region_apart:
  assumes "0 < unat bs" "unat base + n * unat bs < 2 ^ 64"
    and "a \<in> dma_region base bs n" "b \<in> dma_region base bs n" "a \<noteq> b"
  shows "unat a + unat bs \<le> unat b \<or> unat b + unat bs \<le> unat a"
proof -
  from assms(3,4) obtain i j where ij: "i < n" "j < n" "a = base + of_nat i * bs" "b = base + of_nat j * bs"
    by (auto simp: dma_region_def)
  have apart: "x < y \<Longrightarrow> x * unat bs + unat bs \<le> y * unat bs" for x y
    using mult_right_mono [of "x + 1" y "unat bs"] by simp
  from ij assms(5) have "i \<noteq> j" by auto
  then have "i < j \<or> j < i" by linarith
  then show ?thesis using ij apart dma_addr [OF assms(1,2)] by fastforce
qed

lemma dma_region_card:
  assumes "0 < unat bs" "unat base + n * unat bs < 2 ^ 64"
  shows "card (dma_region base bs n) = n"
proof -
  have "inj_on (\<lambda>i. base + of_nat i * bs) {..<n}"
    using dma_addr_inj [OF assms] .
  then show ?thesis by (simp add: dma_region_def card_image)
qed

section \<open>Runs of a reference-counted buffer\<close>

datatype rc_op = RcAddRef | RcRelease

text \<open>The values returned by the releases, the last call first, and the buffer.\<close>

fun rc_run :: "rc_op list \<Rightarrow> bool list \<times> rc_buffer \<Rightarrow> bool list \<times> rc_buffer" where
  "rc_run [] s = s"
| "rc_run (RcAddRef # ops) (rs, b) = rc_run ops (rs, rc_add_ref b)"
| "rc_run (RcRelease # ops) (rs, b) = (case rc_release b of (r, b') \<Rightarrow> rc_run ops (r # rs, b'))"

text \<open>The references held after the calls, \<open>None\<close> once somebody releases one too many.\<close>

fun rc_refs :: "nat \<Rightarrow> rc_op list \<Rightarrow> nat option" where
  "rc_refs n [] = Some n"
| "rc_refs n (RcAddRef # ops) = (if n = 0 then None else rc_refs (n + 1) ops)"
| "rc_refs n (RcRelease # ops) = (if n = 0 then None else rc_refs (n - 1) ops)"

lemma rc_run_refs:
  assumes "rc_refs n ops = Some m" "0 < m" "n + length ops < 2 ^ 32"
    and "unat (rb_ref_count b) = n" "\<not> rb_destroyed b" "\<not> list_ex id rs"
  shows "case rc_run ops (rs, b) of (rs', b') \<Rightarrow> unat (rb_ref_count b') = m \<and> rb_pool b' = rb_pool b
      \<and> rb_data b' = rb_data b \<and> \<not> rb_destroyed b' \<and> \<not> list_ex id rs'"
  using assms
proof (induction n ops arbitrary: b rs rule: rc_refs.induct)
  case (1 n)
  then show ?case by simp
next
  case (2 n ops)
  from "2.prems" have n: "n \<noteq> 0" and rest: "rc_refs (n + 1) ops = Some m" by (auto split: if_splits)
  have "unat (rb_ref_count (rc_add_ref b)) = n + 1"
    using "2.prems" by (simp add: unat_plus_small rc_add_ref_def)
  from "2.IH" [OF n rest "2.prems"(2) _ this] "2.prems" show ?case
    by (simp add: rc_add_ref_def)
next
  case (3 n ops)
  from "3.prems" have n: "0 < n" and rest: "rc_refs (n - 1) ops = Some m" by (auto split: if_splits)
  from rest \<open>0 < m\<close> have "n - 1 \<noteq> 0" by (cases ops rule: list.exhaust) (auto elim: rc_refs.elims)
  then have "rb_ref_count b \<noteq> 1" using "3.prems"(4) by auto
  then have rel: "rc_release b = (False, b\<lparr>rb_ref_count := rb_ref_count b - 1\<rparr>)"
    by (simp add: rc_release_def Let_def)
  have "unat (rb_ref_count b - 1) = n - 1"
    using n "3.prems"(4) by (subst unat_minus_small) (auto simp: word_le_nat_alt)
  with "3.IH" [of "b\<lparr>rb_ref_count := rb_ref_count b - 1\<rparr>" "False # rs"] n rest "3.prems"
  show ?case by (simp add: rel)
qed

section \<open>Properties\<close>

text \<open>\<^verbatim>\<open>CtxPool\<close> never hands out a slot that is still in use, hands out only slots of its
  storage array, and loses none: the slots in use and the available ones add up to \<open>N\<close> after
  any sequence of allocations and frees by a client that frees what it holds.\<close>

theorem ctxpool_no_double_alloc:
  "case pool_run ctx_pop ctx_push ops (ctx_pool_new N, []) of (p, live) \<Rightarrow>
     distinct live \<and> set live \<subseteq> {..<N} \<and> length live + ctx_pool_available p = N"
proof -
  obtain p live where run: "pool_run ctx_pop ctx_push ops (ctx_pool_new N, []) = (p, live)" by fastforce
  have "ctxp.accounted (ctx_pool_new N) []"
    by (auto simp: ctxp.accounted_def ctx_pool_wf_def ctx_pool_new_def ctx_free_slots_def ctx_slots_def)
  then have acc: "ctxp.accounted p live" using run by (rule ctxp.pool_run_accounted)
  have "length (cp_free_list p) = N"
    using ctx_pool_run_length [OF run] by (simp add: ctx_pool_new_def)
  with ctx_accounted_length [OF acc] ctxp.accounted_exclusive [OF acc] run show ?thesis
    by (simp add: ctx_slots_def ctx_pool_available_def)
qed

text \<open>C34: \<^verbatim>\<open>DmaMemoryPool\<close> hands out blocks of its own region that do not overlap: two blocks in
  use at the same time are at least one block size apart, and no block lies outside
  \<open>[base, base + n * block_size)\<close>. The hypotheses say that the allocator returned a region that
  lies in the address space.\<close>

theorem dma_pool_blocks_disjoint:
  assumes "base \<noteq> 0" "0 < unat bs" "unat base + n * unat bs < 2 ^ 64"
    and run: "pool_run dma_pool_alloc dma_pool_free ops (dma_pool_new base bs n, []) = (p, live)"
  shows "distinct live \<and> length live + length (dp_free_list p) = n
     \<and> (\<forall>a \<in> set live. unat base \<le> unat a \<and> unat a + unat bs \<le> unat base + n * unat bs)
     \<and> (\<forall>a \<in> set live. \<forall>b \<in> set live. a \<noteq> b \<longrightarrow> unat a + unat bs \<le> unat b \<or> unat b + unat bs \<le> unat a)"
proof -
  have "dmap.accounted p live"
    using dma_pool_new_wf [OF assms(1-3)] run by (rule dmap.pool_run_accounted)
  then have acc: "distinct (live @ dp_free_list p)" "set (live @ dp_free_list p) = dma_blocks p"
    by (simp_all add: dmap.accounted_def)
  have blocks: "dma_blocks p = dma_region base bs n"
    using dma_pool_run_blocks [OF run] by (simp add: dma_blocks_def dma_region_def dma_pool_new_def)
  have "length live + length (dp_free_list p) = card (dma_region base bs n)"
    using distinct_card [OF acc(1)] acc(2) blocks by simp
  then have "length live + length (dp_free_list p) = n"
    using dma_region_card [OF assms(2,3)] by simp
  moreover have "set live \<subseteq> dma_region base bs n" using acc(2) blocks by auto
  ultimately show ?thesis
    using acc(1) dma_region_apart [OF assms(2,3)] dma_region_bounds [OF assms(2,3)]
    by (auto simp: subset_iff)
qed

theorem dma_pool_blocks_disjoint_witness:
  "\<exists>p. pool_run dma_pool_alloc dma_pool_free [PoolAlloc, PoolAlloc, PoolFree 0x2000, PoolAlloc]
      (dma_pool_new 0x1000 0x1000 2, []) = (p, [0x2000, 0x1000]) \<and> distinct [0x2000, 0x1000 :: u64]
     \<and> length (dp_free_list p) = 0"
proof -
  obtain p where p: "pool_run dma_pool_alloc dma_pool_free [PoolAlloc, PoolAlloc, PoolFree 0x2000, PoolAlloc]
      (dma_pool_new 0x1000 0x1000 2, []) = (p, [0x2000, 0x1000])"
    by (simp add: dma_pool_new_def dma_pool_alloc_def dma_pool_free_def upt_rec)
  with dma_pool_blocks_disjoint [OF _ _ _ p] show ?thesis by auto
qed

text \<open>A \<^verbatim>\<open>RefCountedBuffer\<close> returns its block to the pool exactly once, at the release that
  drops the last reference: no earlier release reports or frees anything, and that one returns
  true and appends the block to the pool's free list. The bound on the number of calls keeps the
  32-bit counter from wrapping.\<close>

theorem rc_buffer_freed_once:
  assumes "rc_refs 1 ops = Some 1" "length ops < 2 ^ 32 - 1" "data \<noteq> 0"
  shows "case rc_run ops ([], rc_buffer_new data (Some pool)) of (rs, b) \<Rightarrow>
      \<not> list_ex id rs \<and> rb_pool b = Some pool \<and> \<not> rb_destroyed b
      \<and> fst (rc_release b) \<and> rb_destroyed (snd (rc_release b))
      \<and> map_option dp_free_list (rb_pool (snd (rc_release b))) = Some (dp_free_list pool @ [data])"
proof -
  obtain rs b where run: "rc_run ops ([], rc_buffer_new data (Some pool)) = (rs, b)" by fastforce
  from rc_run_refs [of 1 ops 1 "rc_buffer_new data (Some pool)" "[]"] assms run
  have b: "unat (rb_ref_count b) = 1" "rb_pool b = Some pool" "rb_data b = data"
    "\<not> rb_destroyed b" "\<not> list_ex id rs" by (auto simp: rc_buffer_new_def)
  from b(1) have "rb_ref_count b = 1" by (metis unsigned_1 unsigned_word_eqI)
  with b assms(3) run show ?thesis
    by (simp add: rc_release_def Let_def dma_pool_free_def)
qed

theorem rc_buffer_freed_once_witness:
  "case rc_run [RcAddRef, RcRelease] ([], rc_buffer_new 0x1000 (Some (dma_pool_new 0 0 0))) of (rs, b) \<Rightarrow>
      rs = [False] \<and> fst (rc_release b)"
  using rc_buffer_freed_once [of "[RcAddRef, RcRelease]" "0x1000" "dma_pool_new 0 0 0"]
  by (simp add: rc_release_def rc_add_ref_def rc_buffer_new_def Let_def)

end
