(* ===== verification/KvEntry.thy ===== *)
theory KvEntry
  imports KvPrelude KvCrc32
begin

text \<open>
  The on-disk structures of \<^verbatim>\<open>include/spdk_kv/entry.h\<close> with their byte layouts, and the
  serialisation of a key-value entry, \<^verbatim>\<open>Engine::build_entry_inplace\<close> and
  \<^verbatim>\<open>build_entry_inplace_rdma\<close> of \<^verbatim>\<open>src/engine.cpp\<close>. A struct is a record; its
  \<open>_bytes\<close> function is its memory image and its \<open>_at\<close> function the fields a
  \<^verbatim>\<open>reinterpret_cast\<close> at an offset reads. Padding arrays are zero in the images: every writer
  clears them.
\<close>

section \<open>Reading fields of a layout\<close>

lemma get_skip [kv_layout]:
  "length xs \<le> off \<Longrightarrow> get_u8 (xs @ ys) off = get_u8 ys (off - length xs)"
  "length xs \<le> off \<Longrightarrow> get_u16 (xs @ ys) off = get_u16 ys (off - length xs)"
  "length xs \<le> off \<Longrightarrow> get_u32 (xs @ ys) off = get_u32 ys (off - length xs)"
  "length xs \<le> off \<Longrightarrow> get_u64 (xs @ ys) off = get_u64 ys (off - length xs)"
  by (simp_all add: get_u8_def get_u16_def get_u32_def get_u64_def slice_skip)

lemma get_here [simp]:
  "get_u8 (enc_u8 a @ ys) 0 = a" "get_u16 (enc_u16 b @ ys) 0 = b"
  "get_u32 (enc_u32 c @ ys) 0 = c" "get_u64 (enc_u64 d @ ys) 0 = d"
  by (simp_all add: get_u8_def get_u16_def get_u32_def get_u64_def slice_here)

lemma get_last [simp]:
  "get_u8 (enc_u8 a) 0 = a" "get_u16 (enc_u16 b) 0 = b"
  "get_u32 (enc_u32 c) 0 = c" "get_u64 (enc_u64 d) 0 = d"
  using get_here [where ys = "[]"] by simp_all

lemma get_offset_append:
  "length pre = n \<Longrightarrow> get_u8 (pre @ xs) (n + off) = get_u8 xs off"
  "length pre = n \<Longrightarrow> get_u16 (pre @ xs) (n + off) = get_u16 xs off"
  "length pre = n \<Longrightarrow> get_u32 (pre @ xs) (n + off) = get_u32 xs off"
  "length pre = n \<Longrightarrow> get_u64 (pre @ xs) (n + off) = get_u64 xs off"
  by (simp_all add: get_skip)

section \<open>EntryHeader\<close>

record entry_header =
  eh_magic :: u32
  eh_version :: u16
  eh_flags :: u8
  eh_reserved :: u8
  eh_sequence :: u32
  eh_padding :: u32

definition eh_is_deleted :: "entry_header \<Rightarrow> bool" where
  "eh_is_deleted h = (eh_flags h AND kFlagDeleted \<noteq> 0)"
definition eh_is_compaction :: "entry_header \<Rightarrow> bool" where
  "eh_is_compaction h = (eh_flags h AND kFlagCompaction \<noteq> 0)"
definition eh_is_valid :: "entry_header \<Rightarrow> bool" where
  "eh_is_valid h = (eh_magic h = kEntryMagic)"

definition entry_header_bytes :: "entry_header \<Rightarrow> byte list" where
  "entry_header_bytes h = enc_u32 (eh_magic h) @ enc_u16 (eh_version h) @ enc_u8 (eh_flags h)
     @ enc_u8 (eh_reserved h) @ enc_u32 (eh_sequence h) @ enc_u32 (eh_padding h)"

definition entry_header_at :: "byte list \<Rightarrow> nat \<Rightarrow> entry_header" where
  "entry_header_at bs off = \<lparr>eh_magic = get_u32 bs off, eh_version = get_u16 bs (off + 4),
     eh_flags = get_u8 bs (off + 6), eh_reserved = get_u8 bs (off + 7),
     eh_sequence = get_u32 bs (off + 8), eh_padding = get_u32 bs (off + 12)\<rparr>"

lemma length_entry_header_bytes [simp, kv_layout]: "length (entry_header_bytes h) = 16"
  by (simp add: entry_header_bytes_def)

lemma entry_header_roundtrip: "entry_header_at (entry_header_bytes h @ rest) 0 = h"
  by (simp add: entry_header_at_def entry_header_bytes_def kv_layout)

lemma entry_header_at_append: "entry_header_at (pre @ xs) (length pre + off) = entry_header_at xs off"
  by (simp add: entry_header_at_def get_skip)

section \<open>DataFileHeader\<close>

record data_file_header =
  dh_magic :: u32
  dh_version :: u32
  dh_create_time :: u64
  dh_sealed_time :: u64
  dh_entry_count :: u64
  dh_valid_bytes :: u64
  dh_total_bytes :: u64
  dh_file_id :: u16
  dh_state :: u8
  dh_reserved :: u8
  dh_checksum :: u32

definition dh_is_valid :: "data_file_header \<Rightarrow> bool" where
  "dh_is_valid h = (dh_magic h = kDataFileHeaderMagic)"

definition data_file_header_bytes :: "data_file_header \<Rightarrow> byte list" where
  "data_file_header_bytes h = enc_u32 (dh_magic h) @ enc_u32 (dh_version h) @ enc_u64 (dh_create_time h)
     @ enc_u64 (dh_sealed_time h) @ enc_u64 (dh_entry_count h) @ enc_u64 (dh_valid_bytes h)
     @ enc_u64 (dh_total_bytes h) @ enc_u16 (dh_file_id h) @ enc_u8 (dh_state h)
     @ enc_u8 (dh_reserved h) @ enc_u32 (dh_checksum h) @ replicate 4040 0"

definition data_file_header_at :: "byte list \<Rightarrow> nat \<Rightarrow> data_file_header" where
  "data_file_header_at bs off = \<lparr>dh_magic = get_u32 bs off, dh_version = get_u32 bs (off + 4),
     dh_create_time = get_u64 bs (off + 8), dh_sealed_time = get_u64 bs (off + 16),
     dh_entry_count = get_u64 bs (off + 24), dh_valid_bytes = get_u64 bs (off + 32),
     dh_total_bytes = get_u64 bs (off + 40), dh_file_id = get_u16 bs (off + 48),
     dh_state = get_u8 bs (off + 50), dh_reserved = get_u8 bs (off + 51),
     dh_checksum = get_u32 bs (off + 52)\<rparr>"

lemma length_data_file_header_bytes [simp, kv_layout]: "length (data_file_header_bytes h) = 4096"
  by (simp add: data_file_header_bytes_def)

lemma data_file_header_roundtrip: "data_file_header_at (data_file_header_bytes h @ rest) 0 = h"
  by (simp add: data_file_header_at_def data_file_header_bytes_def kv_layout)

section \<open>MemIndexEntry\<close>

text \<open>The bit fields keep their width: 10, 21 and 1 bits of one 32-bit word.\<close>

record mem_index_entry =
  me_key :: u64
  me_file_id :: "10 word"
  me_offset_index :: "21 word"
  me_deleted :: bool
  me_sequence :: u32
  me_page_count :: u16
  me_tag :: u8
  me_reserved :: u8

definition me_is_empty :: "mem_index_entry \<Rightarrow> bool" where
  "me_is_empty e = (me_key e = 0 \<and> me_sequence e = 0)"

definition me_zero :: mem_index_entry where
  "me_zero = \<lparr>me_key = 0, me_file_id = 0, me_offset_index = 0, me_deleted = False, me_sequence = 0,
     me_page_count = 0, me_tag = 0, me_reserved = 0\<rparr>"

definition me_packed :: "mem_index_entry \<Rightarrow> u32" where
  "me_packed e = word_of_nat (unat (me_file_id e) + 1024 * unat (me_offset_index e)
     + 2147483648 * of_bool (me_deleted e))"

definition mem_index_entry_bytes :: "mem_index_entry \<Rightarrow> byte list" where
  "mem_index_entry_bytes e = enc_u64 (me_key e) @ enc_u32 (me_packed e) @ enc_u32 (me_sequence e)
     @ enc_u16 (me_page_count e) @ enc_u8 (me_tag e) @ enc_u8 (me_reserved e)"

definition mem_index_entry_at :: "byte list \<Rightarrow> nat \<Rightarrow> mem_index_entry" where
  "mem_index_entry_at bs off =
     (let w = unat (get_u32 bs (off + 8)) in
      \<lparr>me_key = get_u64 bs off, me_file_id = word_of_nat (w mod 1024),
       me_offset_index = word_of_nat (w div 1024 mod 2097152), me_deleted = (w div 2147483648 = 1),
       me_sequence = get_u32 bs (off + 12), me_page_count = get_u16 bs (off + 16),
       me_tag = get_u8 bs (off + 18), me_reserved = get_u8 bs (off + 19)\<rparr>)"

lemma length_mem_index_entry_bytes [simp, kv_layout]: "length (mem_index_entry_bytes e) = 20"
  by (simp add: mem_index_entry_bytes_def)

lemma unat_me_packed:
  "unat (me_packed e) = unat (me_file_id e) + 1024 * unat (me_offset_index e)
     + 2147483648 * of_bool (me_deleted e)"
proof -
  have "unat (me_file_id e) < 1024" "unat (me_offset_index e) < 2097152"
    by (rule order.strict_trans2 [OF unsigned_less], simp)+
  then have "unat (me_file_id e) + 1024 * unat (me_offset_index e)
     + 2147483648 * of_bool (me_deleted e) < 4294967296"
    by (auto simp: of_bool_def)
  then have "unat (me_file_id e) + 1024 * unat (me_offset_index e)
     + 2147483648 * of_bool (me_deleted e) < 2 ^ LENGTH(32)" by simp
  then show ?thesis unfolding me_packed_def by (rule unat_of_nat_small)
qed

lemma mem_index_entry_roundtrip: "mem_index_entry_at (mem_index_entry_bytes e @ rest) 0 = e"
proof -
  have f: "unat (me_file_id e) < 1024" and o: "unat (me_offset_index e) < 2097152"
    by (rule order.strict_trans2 [OF unsigned_less], simp)+
  let ?w = "unat (me_packed e)"
  have w: "?w = unat (me_file_id e) + 1024 * (unat (me_offset_index e) + 2097152 * of_bool (me_deleted e))"
    by (simp only: unat_me_packed) (simp add: algebra_simps)
  have "?w mod 1024 = unat (me_file_id e)"
    and d: "?w div 1024 = unat (me_offset_index e) + 2097152 * of_bool (me_deleted e)"
    unfolding w using mod_div_pack [OF f] by blast+
  moreover have "?w div 1024 mod 2097152 = unat (me_offset_index e)"
    unfolding d using mod_div_pack [OF o] by blast
  moreover have "?w div 2147483648 = ?w div 1024 div 2097152" by (simp add: div_mult2_eq [symmetric])
  then have "?w div 2147483648 = of_bool (me_deleted e)"
    unfolding d using mod_div_pack [OF o] by simp
  ultimately show ?thesis
    by (simp add: mem_index_entry_at_def mem_index_entry_bytes_def kv_layout Let_def)
qed

lemma mem_index_entry_at_append:
  "mem_index_entry_at (pre @ xs) (length pre + off) = mem_index_entry_at xs off"
  by (simp add: mem_index_entry_at_def get_skip)

section \<open>SegmentHeader, SerializedMemIndexHeader and AllocLogEntry\<close>

record segment_header =
  sh_magic :: u32
  sh_segment_id :: u32
  sh_version :: u64
  sh_entry_count :: u64
  sh_dirty_sequence :: u64
  sh_checksum :: u32

definition segment_header_bytes :: "segment_header \<Rightarrow> byte list" where
  "segment_header_bytes h = enc_u32 (sh_magic h) @ enc_u32 (sh_segment_id h) @ enc_u64 (sh_version h)
     @ enc_u64 (sh_entry_count h) @ enc_u64 (sh_dirty_sequence h) @ enc_u32 (sh_checksum h) @ replicate 28 0"

definition segment_header_at :: "byte list \<Rightarrow> nat \<Rightarrow> segment_header" where
  "segment_header_at bs off = \<lparr>sh_magic = get_u32 bs off, sh_segment_id = get_u32 bs (off + 4),
     sh_version = get_u64 bs (off + 8), sh_entry_count = get_u64 bs (off + 16),
     sh_dirty_sequence = get_u64 bs (off + 24), sh_checksum = get_u32 bs (off + 32)\<rparr>"

lemma segment_header_roundtrip:
  "segment_header_at (segment_header_bytes h @ rest) 0 = h \<and> length (segment_header_bytes h) = 64"
  by (simp add: segment_header_at_def segment_header_bytes_def kv_layout)

record mem_index_header =
  mh_magic :: u32
  mh_version :: u32
  mh_entry_count :: u64
  mh_capacity :: u64
  mh_global_sequence :: u64
  mh_checksum :: u32

definition mem_index_header_bytes :: "mem_index_header \<Rightarrow> byte list" where
  "mem_index_header_bytes h = enc_u32 (mh_magic h) @ enc_u32 (mh_version h) @ enc_u64 (mh_entry_count h)
     @ enc_u64 (mh_capacity h) @ enc_u64 (mh_global_sequence h) @ enc_u32 (mh_checksum h) @ replicate 28 0"

definition mem_index_header_at :: "byte list \<Rightarrow> nat \<Rightarrow> mem_index_header" where
  "mem_index_header_at bs off = \<lparr>mh_magic = get_u32 bs off, mh_version = get_u32 bs (off + 4),
     mh_entry_count = get_u64 bs (off + 8), mh_capacity = get_u64 bs (off + 16),
     mh_global_sequence = get_u64 bs (off + 24), mh_checksum = get_u32 bs (off + 32)\<rparr>"

lemma mem_index_header_roundtrip:
  "mem_index_header_at (mem_index_header_bytes h @ rest) 0 = h \<and> length (mem_index_header_bytes h) = 64"
  by (simp add: mem_index_header_at_def mem_index_header_bytes_def kv_layout)

record alloc_log_entry =
  al_magic :: u32
  al_sequence :: u32
  al_blob_id :: u64
  al_file_id :: u16
  al_op :: u8
  al_reserved1 :: u8
  al_reserved2 :: u32
  al_create_time :: u64
  al_file_size :: u64
  al_checksum :: u32

definition al_is_valid_magic :: "alloc_log_entry \<Rightarrow> bool" where
  "al_is_valid_magic e = (al_magic e = kAllocLogMagic)"

definition alloc_log_entry_body :: "alloc_log_entry \<Rightarrow> byte list" where
  "alloc_log_entry_body e = enc_u32 (al_magic e) @ enc_u32 (al_sequence e) @ enc_u64 (al_blob_id e)
     @ enc_u16 (al_file_id e) @ enc_u8 (al_op e) @ enc_u8 (al_reserved1 e) @ enc_u32 (al_reserved2 e)
     @ enc_u64 (al_create_time e) @ enc_u64 (al_file_size e) @ replicate 20 0"

definition alloc_log_entry_bytes :: "alloc_log_entry \<Rightarrow> byte list" where
  "alloc_log_entry_bytes e = alloc_log_entry_body e @ enc_u32 (al_checksum e)"

text \<open>
  The 60 bytes before the checksum hold 40 bytes of fields and 20 of padding, so the struct is
  64 bytes long, as the source asserts.
\<close>

definition alloc_log_entry_at :: "byte list \<Rightarrow> nat \<Rightarrow> alloc_log_entry" where
  "alloc_log_entry_at bs off = \<lparr>al_magic = get_u32 bs off, al_sequence = get_u32 bs (off + 4),
     al_blob_id = get_u64 bs (off + 8), al_file_id = get_u16 bs (off + 16),
     al_op = get_u8 bs (off + 18), al_reserved1 = get_u8 bs (off + 19),
     al_reserved2 = get_u32 bs (off + 20), al_create_time = get_u64 bs (off + 24),
     al_file_size = get_u64 bs (off + 32), al_checksum = get_u32 bs (off + 60)\<rparr>"

lemma length_alloc_log_entry [simp, kv_layout]:
  "length (alloc_log_entry_body e) = 60" "length (alloc_log_entry_bytes e) = 64"
  by (simp_all add: alloc_log_entry_body_def alloc_log_entry_bytes_def)

lemma alloc_log_entry_roundtrip: "alloc_log_entry_at (alloc_log_entry_bytes e @ rest) 0 = e"
  by (simp add: alloc_log_entry_at_def alloc_log_entry_bytes_def alloc_log_entry_body_def kv_layout)

lemma alloc_log_entry_at_append:
  "alloc_log_entry_at (pre @ xs) (length pre + off) = alloc_log_entry_at xs off"
  by (simp add: alloc_log_entry_at_def get_skip)

section \<open>FileMapping, ActiveBufferPos and Superblock\<close>

record file_mapping =
  fm_file_id :: u16
  fm_blob_id :: u64
  fm_size :: u64
  fm_write_offset :: u64
  fm_state :: file_state

definition file_state_writable :: "file_state \<Rightarrow> bool" where
  "file_state_writable s = (s = FActive)"
definition file_state_readable :: "file_state \<Rightarrow> bool" where
  "file_state_readable s = (s = FActive \<or> s = FSealed \<or> s = FCompacting)"

record active_buffer_pos =
  ab_file_id :: u16
  ab_page_index :: u64

text \<open>The arrays \<^verbatim>\<open>file_mappings\<close> and \<^verbatim>\<open>active_buffer_positions\<close> are the lists of their used slots;
  \<^verbatim>\<open>file_count\<close> and \<^verbatim>\<open>active_buffer_count\<close> are their lengths.\<close>

record superblock =
  sb_magic :: u32
  sb_version :: u32
  sb_sequence :: u64
  sb_create_time :: u64
  sb_last_mount_time :: u64
  sb_total_capacity :: u64
  sb_data_file_size :: u64
  sb_alignment_unit :: u32
  sb_mem_index_blob_a :: u64
  sb_mem_index_blob_b :: u64
  sb_mem_index_size :: u64
  sb_active_mem_index_area :: u8
  sb_active_file_id :: u16
  sb_file_mappings :: "file_mapping list"
  sb_checkpoint_sequence :: u64
  sb_checkpoint_global_seq :: u32
  sb_checkpoint_file_id :: u16
  sb_checkpoint_page_index :: u64
  sb_active_buffer_positions :: "active_buffer_pos list"
  sb_total_entries :: u64
  sb_total_data_bytes :: u64
  sb_total_garbage_bytes :: u64
  sb_alloc_log_head :: u32
  sb_alloc_log_tail :: u32
  sb_alloc_log_sequence :: u32

section \<open>A key-value entry\<close>

text \<open>The size of an entry: header, key, value length, value and checksum, in whole pages.\<close>

definition kv_entry_size :: "u32 \<Rightarrow> u64" where
  "kv_entry_size len = align_up (16 + 8 + 4 + ucast len + 4) kPageSize"

definition entry_prefix :: "u64 \<Rightarrow> u32 \<Rightarrow> u32 \<Rightarrow> bool \<Rightarrow> byte list" where
  "entry_prefix key len seq is_tombstone =
     entry_header_bytes \<lparr>eh_magic = kEntryMagic, eh_version = 1,
       eh_flags = (if is_tombstone then kFlagDeleted else 0), eh_reserved = 0,
       eh_sequence = seq, eh_padding = 0\<rparr> @ enc_u64 key @ enc_u32 len"

definition entry_padding :: "u32 \<Rightarrow> u64" where
  "entry_padding len = (let used = 16 + 8 + 4 + ucast len; aligned = align_up (used + 4) kPageSize
     in aligned - used - 4)"

text \<open>\<open>value\<close> is the memory at the value pointer, \<open>None\<close> a null pointer; the result is the
  bytes written from the start of the slot.\<close>

definition build_entry_inplace ::
    "u64 \<Rightarrow> byte list option \<Rightarrow> u32 \<Rightarrow> u32 \<Rightarrow> bool \<Rightarrow> byte list" where
  "build_entry_inplace key value len seq is_tombstone =
     (let data = entry_prefix key len seq is_tombstone
               @ (case value of Some v \<Rightarrow> if len > 0 then take (unat len) v else [] | None \<Rightarrow> [])
               @ replicate (unat (entry_padding len)) 0
      in data @ enc_u32 (crc32_calculate data))"

text \<open>The RDMA variant leaves the value that the peer wrote into the slot in place.\<close>

definition build_entry_inplace_rdma ::
    "byte list \<Rightarrow> u64 \<Rightarrow> u32 \<Rightarrow> u32 \<Rightarrow> bool \<Rightarrow> byte list" where
  "build_entry_inplace_rdma slot key len seq is_tombstone =
     (let data = entry_prefix key len seq is_tombstone @ slice 28 (unat len) slot
               @ replicate (unat (entry_padding len)) 0
      in data @ enc_u32 (crc32_calculate data))"

subsection \<open>Sizes and fields of a built entry\<close>

lemma unat_entry_used: "unat (16 + 8 + 4 + ucast (len :: u32) + 4 :: u64) = unat len + 32"
proof -
  have l: "unat (ucast len :: u64) = unat len"
    using unat_u32 [of len] by (simp add: unsigned_ucast_eq take_bit_nat_eq_self)
  have "unat (32 + ucast len :: u64) = 32 + unat len"
    using unat_u32 [of len] l by (subst unat_plus_small) simp_all
  then show ?thesis by (simp add: add.commute)
qed

lemma unat_kv_entry_size: "unat (kv_entry_size len) = 4096 * ((unat len + 4127) div 4096)"
proof -
  have "unat (16 + 8 + 4 + ucast len + 4 :: u64) + 4095 < 2 ^ 64"
    using unat_u32 [of len] unfolding unat_entry_used by simp
  from unat_align_up_page [OF this] show ?thesis
    unfolding kv_entry_size_def unat_entry_used by simp
qed

lemma kv_entry_size_bounds:
  "unat len + 32 \<le> unat (kv_entry_size len)" "unat (kv_entry_size len) < unat len + 4128"
  "4096 dvd unat (kv_entry_size len)" "4096 \<le> unat (kv_entry_size len)"
proof -
  define q where "q = (unat len + 4127) div 4096"
  define r where "r = (unat len + 4127) mod 4096"
  have "unat len + 4127 = 4096 * q + r" by (simp add: q_def r_def)
  moreover have "r < 4096" by (simp add: r_def)
  moreover have "unat (kv_entry_size len) = 4096 * q" by (simp add: unat_kv_entry_size q_def)
  ultimately show "unat len + 32 \<le> unat (kv_entry_size len)" "unat (kv_entry_size len) < unat len + 4128"
    "4096 dvd unat (kv_entry_size len)" "4096 \<le> unat (kv_entry_size len)" by simp_all
qed

lemma entry_padding_size: "unat (entry_padding len) = unat (kv_entry_size len) - (unat len + 32)"
proof -
  have eq: "entry_padding len = kv_entry_size len - (16 + 8 + 4 + ucast len + 4)"
    by (simp add: entry_padding_def kv_entry_size_def Let_def)
  have "16 + 8 + 4 + ucast len + 4 \<le> kv_entry_size len"
    using kv_entry_size_bounds(1) [of len] unfolding word_le_nat_alt unat_entry_used .
  from unat_minus_small [OF this] show ?thesis unfolding eq unat_entry_used .
qed

lemma length_entry_prefix [simp, kv_layout]: "length (entry_prefix key len seq t) = 28"
  by (simp add: entry_prefix_def)

text \<open>An entry whose value bytes are \<open>v\<close>; both serialisers produce one.\<close>

definition kv_entry_body :: "u64 \<Rightarrow> byte list \<Rightarrow> u32 \<Rightarrow> u32 \<Rightarrow> bool \<Rightarrow> byte list" where
  "kv_entry_body key v len seq t = entry_prefix key len seq t @ v @ replicate (unat (entry_padding len)) 0"

definition kv_entry_image :: "u64 \<Rightarrow> byte list \<Rightarrow> u32 \<Rightarrow> u32 \<Rightarrow> bool \<Rightarrow> byte list" where
  "kv_entry_image key v len seq t =
     kv_entry_body key v len seq t @ enc_u32 (crc32_calculate (kv_entry_body key v len seq t))"

lemma build_entry_image:
  assumes "unat len \<le> length v"
  shows "build_entry_inplace key (Some v) len seq t = kv_entry_image key (take (unat len) v) len seq t"
proof -
  have "(if len > 0 then take (unat len) v else []) = take (unat len) v"
    by (simp add: word_neq_0_conv [symmetric])
  then show ?thesis by (simp add: build_entry_inplace_def kv_entry_image_def kv_entry_body_def Let_def)
qed

lemma build_entry_tombstone_image:
  "build_entry_inplace key None 0 seq t = kv_entry_image key [] 0 seq t"
  by (simp add: build_entry_inplace_def kv_entry_image_def kv_entry_body_def Let_def)

lemma build_entry_rdma_image:
  "build_entry_inplace_rdma slot key len seq t = kv_entry_image key (slice 28 (unat len) slot) len seq t"
  by (simp add: build_entry_inplace_rdma_def kv_entry_image_def kv_entry_body_def Let_def)

lemma length_kv_entry:
  assumes "length v = unat len"
  shows "length (kv_entry_body key v len seq t) = unat (kv_entry_size len) - 4"
    and "length (kv_entry_image key v len seq t) = unat (kv_entry_size len)"
  using kv_entry_size_bounds [of len] assms
  by (simp_all add: kv_entry_body_def kv_entry_image_def entry_padding_size)

lemma kv_entry_fields:
  assumes v: "length v = unat len"
  shows "entry_header_at (kv_entry_image key v len seq t @ rest) 0 = \<lparr>eh_magic = kEntryMagic, eh_version = 1,
       eh_flags = (if t then kFlagDeleted else 0), eh_reserved = 0, eh_sequence = seq, eh_padding = 0\<rparr>"
    and "get_u64 (kv_entry_image key v len seq t @ rest) 16 = key"
    and "get_u32 (kv_entry_image key v len seq t @ rest) 24 = len"
    and "slice 28 (unat len) (kv_entry_image key v len seq t @ rest) = v"
proof -
  show "entry_header_at (kv_entry_image key v len seq t @ rest) 0 = \<lparr>eh_magic = kEntryMagic, eh_version = 1,
       eh_flags = (if t then kFlagDeleted else 0), eh_reserved = 0, eh_sequence = seq, eh_padding = 0\<rparr>"
    unfolding kv_entry_image_def kv_entry_body_def entry_prefix_def append_assoc
    by (rule entry_header_roundtrip)
  show "get_u64 (kv_entry_image key v len seq t @ rest) 16 = key"
    and "get_u32 (kv_entry_image key v len seq t @ rest) 24 = len"
    and "slice 28 (unat len) (kv_entry_image key v len seq t @ rest) = v"
    using v by (simp_all add: kv_entry_image_def kv_entry_body_def entry_prefix_def kv_layout slice_skip slice_here)
qed

lemma kv_entry_checksum:
  assumes "length v = unat len"
  shows "get_u32 (kv_entry_image key v len seq t @ rest) (unat (kv_entry_size len) - 4)
       = crc32_calculate (take (unat (kv_entry_size len) - 4) (kv_entry_image key v len seq t @ rest))"
  using length_kv_entry(1) [OF assms, of key seq t]
  by (simp add: kv_entry_image_def get_skip(3))

section \<open>Properties\<close>

text \<open>C29: What \<^verbatim>\<open>build_entry_inplace\<close> writes fills exactly the pages reserved for it, and every
  reader finds in it what the writer was given: a valid header with the sequence and the tombstone
  flag, the key, the value length, the value, and a checksum that matches the bytes before it,
  whatever follows the entry in the buffer.\<close>

theorem build_entry_roundtrip:
  assumes "unat len \<le> length v"
  shows "let e = build_entry_inplace key (Some v) len seq t; n = unat (kv_entry_size len) in
     length e = n \<and> eh_is_valid (entry_header_at (e @ rest) 0)
     \<and> eh_sequence (entry_header_at (e @ rest) 0) = seq \<and> eh_is_deleted (entry_header_at (e @ rest) 0) = t
     \<and> get_u64 (e @ rest) 16 = key \<and> get_u32 (e @ rest) 24 = len
     \<and> slice 28 (unat len) (e @ rest) = take (unat len) v
     \<and> get_u32 (e @ rest) (n - 4) = crc32_calculate (take (n - 4) (e @ rest))"
proof -
  have l: "length (take (unat len) v) = unat len" using assms by simp
  show ?thesis
    using length_kv_entry(2) [OF l] kv_entry_fields [OF l] kv_entry_checksum [OF l]
    by (simp add: build_entry_image [OF assms] Let_def eh_is_valid_def eh_is_deleted_def kFlagDeleted_def)
qed

theorem build_entry_roundtrip_witness:
  "length (build_entry_inplace 7 (Some [1, 2, 3]) 3 9 False) = 4096
   \<and> slice 28 3 (build_entry_inplace 7 (Some [1, 2, 3]) 3 9 False @ []) = [1, 2, 3]"
proof -
  have "unat (3 :: u32) = 3" by simp
  then show ?thesis
    using build_entry_roundtrip [of 3 "[1, 2, 3]" 7 9 False "[]"] by (simp add: Let_def unat_kv_entry_size)
qed

text \<open>The RDMA commit path writes the same bytes as the ordinary path does for the value that
  the peer placed behind the 28-byte prefix of the slot: the two serialisers are equivalent.\<close>

theorem build_entry_rdma_equivalent:
  assumes "28 + unat len \<le> length slot"
  shows "build_entry_inplace_rdma slot key len seq t
       = build_entry_inplace key (Some (slice 28 (unat len) slot)) len seq t"
  using assms by (simp add: build_entry_rdma_image build_entry_image length_slice)

theorem build_entry_rdma_equivalent_witness:
  "build_entry_inplace_rdma (replicate 28 0 @ [5, 6]) 1 2 3 False
     = build_entry_inplace 1 (Some (slice 28 (unat (2 :: u32)) (replicate 28 0 @ [5, 6]))) 2 3 False"
  by (rule build_entry_rdma_equivalent) simp

text \<open>A page count that fits the index's 16 bits and an aligned size: an entry occupies whole
  pages, never less than its payload, and wastes less than one page.\<close>

theorem kv_entry_size_tight:
  "unat len + 32 \<le> unat (kv_entry_size len) \<and> unat (kv_entry_size len) < unat len + 32 + 4096
   \<and> 4096 dvd unat (kv_entry_size len)
   \<and> (unat (kv_entry_size len div kPageSize) < 65536 \<longleftrightarrow> unat len < 65535 * 4096 - 31)"
proof -
  have "unat (kv_entry_size len div kPageSize) = (unat len + 4127) div 4096"
    by (simp add: unat_div_distrib unat_kv_entry_size kPageSize_def)
  then show ?thesis using kv_entry_size_bounds [of len] by auto
qed

end
