(* ===== verification/KvMemIndex.thy ===== *)
theory KvMemIndex
  imports KvPrelude KvCrc32 KvEntry
begin

text \<open>
  The memory index, \<^verbatim>\<open>include/spdk_kv/mem_index.h\<close>: an open-addressing table with
  Robin Hood displacement, the arrays \<^verbatim>\<open>entries_\<close> and \<^verbatim>\<open>psl_\<close> of
  \<^verbatim>\<open>capacity_\<close> slots each. The theory holds the operations as the header writes them, the
  probe invariant that makes lookups find what was stored, and the limits of \<^verbatim>\<open>upsert\<close>.
\<close>

section \<open>State\<close>

text \<open>\<open>mi_mapped\<close> is the test \<^verbatim>\<open>entries_ && psl_\<close> that the two allocations succeeded.
  The AVX2 code path, compiled conditionally, is modelled in \<open>KvSimd\<close>; without it \<^verbatim>\<open>find_avx2\<close> is
  \<^verbatim>\<open>find\<close>. Prefetches have no effect on the state.\<close>

record mem_index =
  mi_mapped :: bool
  mi_capacity :: u64
  mi_size :: u64
  mi_global_sequence :: u32
  mi_entries :: "mem_index_entry list"
  mi_psl :: "u8 list"
  mi_dirty :: "bool list"

definition next_power_of_2 :: "u64 \<Rightarrow> u64" where
  "next_power_of_2 n =
     (let n = n - 1; n = n OR drop_bit 1 n; n = n OR drop_bit 2 n; n = n OR drop_bit 4 n;
          n = n OR drop_bit 8 n; n = n OR drop_bit 16 n; n = n OR drop_bit 32 n
      in n + 1)"

text \<open>\<open>slots\<close> is the rounded quotient \<^verbatim>\<open>max_entries / load_factor\<close>.\<close>

definition mem_index_new :: "u64 \<Rightarrow> bool \<Rightarrow> mem_index" where
  "mem_index_new slots mapped =
     (let c = next_power_of_2 slots in
      \<lparr>mi_mapped = mapped, mi_capacity = c, mi_size = 0, mi_global_sequence = 0,
       mi_entries = replicate (unat c) me_zero, mi_psl = replicate (unat c) 0,
       mi_dirty = replicate (unat kMemIndexSegmentCount) False\<rparr>)"

section \<open>Hashing\<close>

fun hash_bytes :: "nat \<Rightarrow> u64 \<Rightarrow> u64 \<Rightarrow> u64" where
  "hash_bytes 0 key h = h"
| "hash_bytes (Suc n) key h =
     hash_bytes n (drop_bit 8 key) ((h XOR (key AND 0xFF)) * 1099511628211)"

definition kv_hash :: "u64 \<Rightarrow> u64" where
  "kv_hash key = hash_bytes 8 key 14695981039346656037"

definition kv_tag :: "u64 \<Rightarrow> u8" where
  "kv_tag key = ucast (drop_bit 56 (kv_hash key) AND 0xFF)"

definition mi_wrap :: "mem_index \<Rightarrow> u64 \<Rightarrow> u64" where
  "mi_wrap m i = i AND (mi_capacity m - 1)"

definition mi_home :: "mem_index \<Rightarrow> u64 \<Rightarrow> u64" where
  "mi_home m key = mi_wrap m (kv_hash key)"

section \<open>Lookup\<close>

text \<open>The result is the index of the slot the returned pointer points to. The loop ends because
  the probe distance grows and is cut off beyond 128: \<open>dist \<ge> 128\<close> is the source's test
  \<^verbatim>\<open>dist > 128\<close> before the increment instead of after it.\<close>

lemma u8_incr: "\<not> (128 :: u8) \<le> d \<Longrightarrow> unat (d + 1) = unat d + 1"
  by (simp add: unat_plus_small word_le_nat_alt)

function (sequential) find_internal :: "mem_index \<Rightarrow> u64 \<Rightarrow> u64 \<Rightarrow> u8 \<Rightarrow> u8 \<Rightarrow> nat option" where
  "find_internal m key idx tag dist =
     (if mi_psl m ! unat idx < dist then None
      else if me_tag (mi_entries m ! unat idx) = tag \<and> me_key (mi_entries m ! unat idx) = key
              \<and> \<not> me_deleted (mi_entries m ! unat idx)
      then Some (unat idx)
      else if dist \<ge> 128 then None
      else find_internal m key (mi_wrap m (idx + 1)) tag (dist + 1))"
  by pat_completeness auto

termination
  by (relation "measure (\<lambda>(_, _, _, _, dist). 256 - unat dist)") (auto simp: u8_incr word_le_nat_alt)

definition mi_find :: "mem_index \<Rightarrow> u64 \<Rightarrow> nat option" where
  "mi_find m key = (if \<not> mi_mapped m then None else find_internal m key (mi_home m key) (kv_tag key) 0)"

definition mi_batch_find :: "mem_index \<Rightarrow> u64 list \<Rightarrow> nat option list" where
  "mi_batch_find m keys =
     (if \<not> mi_mapped m then map (\<lambda>_. None) keys
      else (let probes = map (\<lambda>k. (k, mi_home m k, kv_tag k)) keys
            in map (\<lambda>(k, idx, tag). find_internal m k idx tag 0) probes))"

section \<open>Insert and update\<close>

definition sequence_newer :: "u32 \<Rightarrow> u32 \<Rightarrow> bool" where
  "sequence_newer a b = (0 <s a - b)"

text \<open>Every swap raises a stored probe length or else the carried distance, so the loop ends on
  every table, whatever its contents.\<close>

definition psl_slack :: "mem_index \<Rightarrow> nat" where
  "psl_slack m = (\<Sum>p \<leftarrow> mi_psl m. 255 - unat p)"

lemma psl_slack_update:
  assumes "i < length (mi_psl m)"
  shows "psl_slack (m\<lparr>mi_entries := es, mi_psl := (mi_psl m)[i := d]\<rparr>) + (255 - unat (mi_psl m ! i))
       = psl_slack m + (255 - unat d)"
proof -
  define ps where "ps = mi_psl m"
  have i: "i < length ps" using assms by (simp add: ps_def)
  have "ps = take i ps @ ps ! i # drop (Suc i) ps" by (rule id_take_nth_drop [OF i])
  then have "sum_list (map f ps) = sum_list (map f (take i ps @ ps ! i # drop (Suc i) ps))"
    for f :: "u8 \<Rightarrow> nat" by simp
  moreover have "ps[i := d] = take i ps @ d # drop (Suc i) ps" by (rule upd_conv_take_nth_drop [OF i])
  ultimately have "(\<Sum>p \<leftarrow> ps[i := d]. 255 - unat p) + (255 - unat (ps ! i))
      = (\<Sum>p \<leftarrow> ps. 255 - unat p) + (255 - unat d)" by simp
  then show ?thesis by (simp add: psl_slack_def ps_def)
qed

lemma u8_le_255: "unat (d :: u8) \<le> 255"
  using unat_u8 [of d] by simp

text \<open>
  The loop of \<^verbatim>\<open>upsert\<close>: \<open>e\<close> is \<^verbatim>\<open>entry_to_insert\<close>. The comparison
  \<^verbatim>\<open>psl_[idx] < dist + 1\<close> is done on \<^verbatim>\<open>int\<close>. The first branch is not in the source: an index
  outside the arrays would be an access outside the allocation; the invariant below excludes it.
\<close>

function (sequential) upsert_loop ::
    "mem_index \<Rightarrow> u64 \<Rightarrow> u64 \<Rightarrow> u8 \<Rightarrow> mem_index_entry \<Rightarrow> bool \<times> mem_index" where
  "upsert_loop m key idx dist e =
     (if \<not> unat idx < length (mi_psl m) then (False, m)
      else if mi_psl m ! unat idx = 0 \<and> me_is_empty (mi_entries m ! unat idx)
      then (True, m\<lparr>mi_entries := (mi_entries m)[unat idx := e],
                    mi_psl := (mi_psl m)[unat idx := dist + 1], mi_size := mi_size m + 1\<rparr>)
      else if me_key (mi_entries m ! unat idx) = key
      then (True, if sequence_newer (me_sequence e) (me_sequence (mi_entries m ! unat idx))
                  then m\<lparr>mi_entries := (mi_entries m)[unat idx := e]\<rparr> else m)
      else (let swap = unat (mi_psl m ! unat idx) < unat dist + 1;
                e' = (if swap then mi_entries m ! unat idx else e);
                d' = (if swap then mi_psl m ! unat idx + 1 else dist);
                m' = (if swap then m\<lparr>mi_entries := (mi_entries m)[unat idx := e],
                                     mi_psl := (mi_psl m)[unat idx := dist]\<rparr> else m)
            in if d' \<ge> 128 then (False, m') else upsert_loop m' key (mi_wrap m (idx + 1)) (d' + 1) e'))"
  by pat_completeness auto

termination
proof (relation "measures [\<lambda>(m, _). psl_slack m, 
    \<lambda>(_, _, _, dist, _). if dist = 255 then 300 else 256 - unat dist]", goal_cases)
  case 1
  show ?case by simp
next
  case (2 m key idx dist e swap e' d' m')
  show ?case
  proof (cases swap)
    case False
    with 2 have "\<not> 128 \<le> dist" "m' = m" "d' = dist" by simp_all
    moreover from this have "unat dist < 128" "unat (dist + 1) = unat dist + 1"
      by (simp_all add: u8_incr word_le_nat_alt)
    moreover from this have "dist \<noteq> 255" "dist \<noteq> 254" by auto
    ultimately show ?thesis by simp
  next
    case True
    then have p: "unat (mi_psl m ! unat idx) \<le> unat dist" using 2 by simp
    have eq: "psl_slack m' + (255 - unat (mi_psl m ! unat idx)) = psl_slack m + (255 - unat dist)"
      using psl_slack_update [of "unat idx" m dist "(mi_entries m)[unat idx := e]"] 2 True by simp
    have d': "\<not> 128 \<le> d'" "d' = mi_psl m ! unat idx + 1" using 2 True by simp_all
    show ?thesis
    proof (cases "mi_psl m ! unat idx = dist")
      case True
      then have "psl_slack m' = psl_slack m" using eq by simp
      moreover have "unat (d' + 1) = unat d' + 1" using u8_incr [OF d'(1)] .
      moreover have "unat dist < unat d'" if "dist \<noteq> 255"
      proof -
        have "unat dist \<noteq> unat (255 :: u8)" using that unsigned_word_eqI by blast
        then have "unat (dist + 1) = unat dist + 1"
          using u8_le_255 [of dist] by (subst unat_plus_small) auto
        then show ?thesis using d'(2) True by simp
      qed
      moreover have "d' \<noteq> 254" using d'(1) by auto
      ultimately show ?thesis using u8_le_255 [of dist] u8_le_255 [of "d' + 1"] by auto
    next
      case False
      then have "unat (mi_psl m ! unat idx) \<noteq> unat dist" using unsigned_word_eqI by blast
      then have "unat (mi_psl m ! unat idx) < unat dist" using p by simp
      then have "psl_slack m' < psl_slack m" using eq u8_le_255 [of dist] by linarith
      then show ?thesis by simp
    qed
  qed
qed

declare find_internal.simps [simp del] upsert_loop.simps [simp del]

definition mi_upsert :: "mem_index \<Rightarrow> u64 \<Rightarrow> mem_index_entry \<Rightarrow> bool \<times> mem_index" where
  "mi_upsert m key new_entry =
     (if \<not> mi_mapped m then (False, m)
      else upsert_loop m key (mi_home m key) 0 (new_entry\<lparr>me_tag := kv_tag key\<rparr>))"

definition mi_remove :: "mem_index \<Rightarrow> u64 \<Rightarrow> bool \<times> mem_index" where
  "mi_remove m key =
     (case mi_find m key of
        Some i \<Rightarrow> (True, m\<lparr>mi_entries := (mi_entries m)[i := (mi_entries m ! i)\<lparr>me_deleted := True\<rparr>]\<rparr>)
      | None \<Rightarrow> (False, m))"

section \<open>Sequence numbers\<close>

definition mi_allocate_sequence :: "mem_index \<Rightarrow> u32 \<times> mem_index" where
  "mi_allocate_sequence m =
     (let s = mi_global_sequence m + 1 in (s, m\<lparr>mi_global_sequence := s\<rparr>))"

definition mi_set_global_sequence :: "u32 \<Rightarrow> mem_index \<Rightarrow> mem_index" where
  "mi_set_global_sequence s m = m\<lparr>mi_global_sequence := s\<rparr>"

section \<open>Rebuilding and serialisation\<close>

definition mi_distance :: "mem_index \<Rightarrow> nat \<Rightarrow> u64" where
  "mi_distance m i =
     (let ideal = mi_home m (me_key (mi_entries m ! i)); i = word_of_nat i in
      if i \<ge> ideal then i - ideal else mi_capacity m - ideal + i)"

definition mi_rebuild_psl_array :: "mem_index \<Rightarrow> mem_index" where
  "mi_rebuild_psl_array m = m\<lparr>
     mi_psl := map (\<lambda>i. if me_is_empty (mi_entries m ! i) then 0 else ucast (mi_distance m i + 1))
                 [0..<length (mi_entries m)],
     mi_size := word_of_nat (length (filter (\<lambda>e. \<not> me_is_empty e \<and> \<not> me_deleted e) (mi_entries m)))\<rparr>"

text \<open>The occupied slots in slot order.\<close>

definition mi_occupied :: "mem_index \<Rightarrow> mem_index_entry list" where
  "mi_occupied m = map fst (filter (\<lambda>(_, p). 0 < p) (zip (mi_entries m) (mi_psl m)))"

text \<open>The bytes written to the buffer; the empty list is the return value 0.\<close>

definition mi_serialize :: "mem_index \<Rightarrow> nat \<Rightarrow> byte list" where
  "mi_serialize m buf_size =
     (if \<not> mi_mapped m \<or> buf_size < 64 then []
      else (let es = take ((buf_size - 64) div 20) (mi_occupied m);
                data = concat (map mem_index_entry_bytes es)
            in mem_index_header_bytes \<lparr>mh_magic = kMemIndexMagic, mh_version = 1,
                 mh_entry_count = word_of_nat (length es), mh_capacity = mi_capacity m,
                 mh_global_sequence = ucast (mi_global_sequence m),
                 mh_checksum = crc32_calculate data\<rparr> @ data))"

definition mi_load_entries :: "mem_index \<Rightarrow> mem_index_entry list \<Rightarrow> mem_index" where
  "mi_load_entries = foldl (\<lambda>m src. if me_deleted src then m else snd (mi_upsert m (me_key src) src))"

text \<open>The product \<^verbatim>\<open>count * sizeof(MemIndexEntry)\<close> is computed in 64 bits, as in the source.\<close>

definition mi_deserialize :: "mem_index \<Rightarrow> byte list \<Rightarrow> u64 \<times> mem_index" where
  "mi_deserialize m buffer =
     (if \<not> mi_mapped m \<or> length buffer < 64 then (0, m)
      else (let h = mem_index_header_at buffer 0; data = drop 64 buffer; count = mh_entry_count h in
        if mh_magic h \<noteq> kMemIndexMagic then (0, m)
        else if crc32_calculate data \<noteq> mh_checksum h then (0, m)
        else if count * 20 > word_of_nat (length data) then (0, m)
        else (count, (mi_load_entries m (map (\<lambda>i. mem_index_entry_at data (20 * i)) [0..<unat count]))
                       \<lparr>mi_global_sequence := ucast (mh_global_sequence h)\<rparr>)))"

section \<open>Dirty segments\<close>

text \<open>\<open>None\<close> is the division by zero of a table with fewer than 80 slots.\<close>

definition mi_mark_dirty :: "u64 \<Rightarrow> mem_index \<Rightarrow> mem_index option" where
  "mi_mark_dirty bucket_index m =
     (if mi_capacity m div kMemIndexSegmentCount = 0 then None
      else (let segment_id = (ucast (bucket_index div (mi_capacity m div kMemIndexSegmentCount)) :: u32) in
        Some (if ucast segment_id < kMemIndexSegmentCount
              then m\<lparr>mi_dirty := (mi_dirty m)[unat segment_id := True]\<rparr> else m)))"

definition mi_is_segment_dirty :: "mem_index \<Rightarrow> u32 \<Rightarrow> bool" where
  "mi_is_segment_dirty m s = (ucast s < kMemIndexSegmentCount \<and> mi_dirty m ! unat s)"

definition mi_clear_dirty_flags :: "mem_index \<Rightarrow> mem_index" where
  "mi_clear_dirty_flags m = m\<lparr>mi_dirty := replicate (unat kMemIndexSegmentCount) False\<rparr>"

definition mi_dirty_segment_count :: "mem_index \<Rightarrow> nat" where
  "mi_dirty_segment_count m = length (filter id (mi_dirty m))"

section \<open>The probe invariant\<close>

abbreviation mi_cap :: "mem_index \<Rightarrow> nat" where
  "mi_cap m \<equiv> length (mi_psl m)"

definition mi_wf :: "mem_index \<Rightarrow> bool" where
  "mi_wf m \<longleftrightarrow> mi_mapped m \<and> (\<exists>k < 64. mi_capacity m = 2 ^ k) \<and> mi_cap m = unat (mi_capacity m)
     \<and> length (mi_entries m) = mi_cap m"

text \<open>Slot \<open>j\<close> of the probe sequence of a key, and the number of steps from its home to a slot.\<close>

definition mi_pos :: "mem_index \<Rightarrow> u64 \<Rightarrow> nat \<Rightarrow> nat" where
  "mi_pos m key j = (unat (mi_home m key) + j) mod mi_cap m"

definition mi_disp :: "mem_index \<Rightarrow> u64 \<Rightarrow> nat \<Rightarrow> nat" where
  "mi_disp m key i = (i + mi_cap m - unat (mi_home m key)) mod mi_cap m"

text \<open>The first \<open>t\<close> steps of the probe sequence do not stop a lookup.\<close>

definition mi_path :: "mem_index \<Rightarrow> u64 \<Rightarrow> nat \<Rightarrow> bool" where
  "mi_path m key t \<longleftrightarrow> (\<forall>j < t. j \<le> unat (mi_psl m ! mi_pos m key j))"

definition mi_slot_ok :: "mem_index \<Rightarrow> nat \<Rightarrow> bool" where
  "mi_slot_ok m i \<longleftrightarrow>
     (if mi_psl m ! i = 0 then mi_entries m ! i = me_zero
      else (let e = mi_entries m ! i; d = mi_disp m (me_key e) i in
        \<not> me_is_empty e \<and> me_tag e = kv_tag (me_key e) \<and> d \<le> 128 \<and> mi_path m (me_key e) (d + 1)))"

definition mi_inv :: "mem_index \<Rightarrow> bool" where
  "mi_inv m \<longleftrightarrow> mi_wf m \<and> (\<forall>i < mi_cap m. mi_slot_ok m i)
     \<and> (\<forall>i < mi_cap m. \<forall>j < mi_cap m. mi_psl m ! i \<noteq> 0 \<longrightarrow> mi_psl m ! j \<noteq> 0 \<longrightarrow>
          me_key (mi_entries m ! i) = me_key (mi_entries m ! j) \<longrightarrow> i = j)"

lemma unat_exp_u64: "k < 64 \<Longrightarrow> unat (2 ^ k :: u64) = 2 ^ k"
proof -
  assume "k < 64"
  then have "(2 :: nat) ^ k < 2 ^ LENGTH(64)" by (intro power_strict_increasing) auto
  from unat_of_nat_small [OF this] show ?thesis by simp
qed

lemma mi_wf_cap: "mi_wf m \<Longrightarrow> \<exists>k < 64. mi_capacity m = 2 ^ k \<and> mi_cap m = 2 ^ k \<and> mi_capacity m - 1 = mask k"
  by (auto simp: mi_wf_def mask_eq_exp_minus_1 unat_exp_u64)

lemma mi_wf_bounds:
  assumes "mi_wf m"
  shows "0 < mi_cap m" "mi_cap m \<le> 2 ^ 63"
proof -
  obtain k where k: "k < 64" "mi_cap m = 2 ^ k" using mi_wf_cap [OF assms] by blast
  then show "0 < mi_cap m" by simp
  have "(2 :: nat) ^ k \<le> 2 ^ 63" using k(1) by (intro power_increasing) auto
  with k show "mi_cap m \<le> 2 ^ 63" by simp
qed

lemma unat_mi_wrap: "mi_wf m \<Longrightarrow> unat (mi_wrap m i) = unat i mod mi_cap m"
  using mi_wf_cap [of m] by (auto simp: mi_wrap_def unat_and_mask)

lemma mi_home_less: "mi_wf m \<Longrightarrow> unat (mi_home m key) < mi_cap m"
  using mi_wf_bounds [of m] by (simp add: mi_home_def unat_mi_wrap)

lemma mi_pos_less: "mi_wf m \<Longrightarrow> mi_pos m key j < mi_cap m"
  using mi_wf_bounds [of m] by (simp add: mi_pos_def)

lemma unat_mi_wrap_next:
  assumes "mi_wf m" "unat idx < mi_cap m"
  shows "unat (mi_wrap m (idx + 1)) = (unat idx + 1) mod mi_cap m"
proof -
  have "unat (idx + 1) = unat idx + 1"
    using assms mi_wf_bounds [OF assms(1)] by (subst unat_plus_small) auto
  with unat_mi_wrap [OF assms(1), of "idx + 1"] show ?thesis by simp
qed

lemma mi_pos_Suc: "mi_wf m \<Longrightarrow> (mi_pos m key j + 1) mod mi_cap m = mi_pos m key (j + 1)"
  by (simp add: mi_pos_def mod_Suc_eq)

lemma mi_disp_less: "mi_wf m \<Longrightarrow> mi_disp m key i < mi_cap m"
  using mi_wf_bounds [of m] by (simp add: mi_disp_def)

lemma mi_pos_disp:
  assumes "mi_wf m" "i < mi_cap m"
  shows "mi_pos m key (mi_disp m key i) = i"
proof -
  have "unat (mi_home m key) < mi_cap m" by (rule mi_home_less [OF assms(1)])
  then have "(unat (mi_home m key) + (i + mi_cap m - unat (mi_home m key))) mod mi_cap m = i"
    using assms(2) by simp
  then show ?thesis by (simp add: mi_pos_def mi_disp_def mod_add_right_eq)
qed

lemma mi_disp_pos:
  assumes "mi_wf m" "j < mi_cap m"
  shows "mi_disp m key (mi_pos m key j) = j"
  by (rule mod_add_inj [of "unat (mi_home m key)" _ "mi_cap m"])
    (use mi_pos_disp [OF assms(1) mi_pos_less [OF assms(1)], of key key j] mi_disp_less [OF assms(1)] assms
      in \<open>simp_all add: mi_pos_def\<close>)

lemma mi_disp_next:
  assumes "mi_wf m" "i < mi_cap m"
  shows "mi_disp m key ((i + 1) mod mi_cap m) = (if mi_disp m key i + 1 = mi_cap m then 0 else mi_disp m key i + 1)"
proof -
  let ?d = "mi_disp m key i"
  have "(i + 1) mod mi_cap m = mi_pos m key (?d + 1)"
    using mi_pos_Suc [OF assms(1), of key ?d] mi_pos_disp [OF assms] by simp
  also have "\<dots> = mi_pos m key (if ?d + 1 = mi_cap m then 0 else ?d + 1)"
    by (cases "?d + 1 = mi_cap m") (simp_all only: mi_pos_def mod_add_self2 simp_thms if_True if_False add_0_right)
  finally show ?thesis
    using mi_disp_pos [OF assms(1)] mi_disp_less [OF assms(1), of key i] mi_wf_bounds [OF assms(1)] by simp
qed

section \<open>Lookups find what is stored\<close>

definition mi_live :: "mem_index \<Rightarrow> u64 \<Rightarrow> nat \<Rightarrow> bool" where
  "mi_live m key i \<longleftrightarrow> i < mi_cap m \<and> mi_psl m ! i \<noteq> 0 \<and> me_key (mi_entries m ! i) = key"

lemma hash_bytes_numeral:
  "hash_bytes (numeral v) key h =
     hash_bytes (pred_numeral v) (drop_bit 8 key) ((h XOR (key AND 0xFF)) * 1099511628211)"
  by (simp add: numeral_eq_Suc)

lemma kv_tag_zero: "kv_tag 0 \<noteq> 0"
  by (simp add: kv_tag_def kv_hash_def hash_bytes_numeral)

lemma mi_match_live:
  assumes "mi_inv m" "i < mi_cap m"
  shows "me_tag (mi_entries m ! i) = kv_tag key \<and> me_key (mi_entries m ! i) = key \<longleftrightarrow> mi_live m key i"
  using assms kv_tag_zero
  by (auto simp: mi_inv_def mi_slot_ok_def mi_live_def Let_def me_zero_def split: if_splits)

lemma mi_live_unique: "mi_inv m \<Longrightarrow> mi_live m key i \<Longrightarrow> mi_live m key j \<Longrightarrow> i = j"
  by (auto simp: mi_inv_def mi_live_def)

lemma mi_live_path:
  assumes "mi_inv m" "mi_live m key i"
  shows "mi_disp m key i \<le> 128" "mi_path m key (mi_disp m key i + 1)"
  using assms by (auto simp: mi_inv_def mi_live_def mi_slot_ok_def Let_def)

lemma mi_inv_wf: "mi_inv m \<Longrightarrow> mi_wf m"
  by (simp add: mi_inv_def)

lemma find_internal_sound:
  "find_internal m key idx tag dist = Some i \<Longrightarrow> mi_wf m \<Longrightarrow> unat idx < mi_cap m \<Longrightarrow>
   i < mi_cap m \<and> me_tag (mi_entries m ! i) = tag \<and> me_key (mi_entries m ! i) = key
   \<and> \<not> me_deleted (mi_entries m ! i)"
proof (induction m key idx tag dist rule: find_internal.induct)
  case (1 m key idx tag dist)
  have "unat (mi_wrap m (idx + 1)) < mi_cap m"
    using "1.prems" mi_wf_bounds [of m] by (simp add: unat_mi_wrap_next)
  with 1 show ?case by (simp add: find_internal.simps [of m key idx tag dist] split: if_splits)
qed

lemma find_internal_complete:
  assumes wf: "mi_wf m" and path: "\<And>j. j \<le> d \<Longrightarrow> j \<le> unat (mi_psl m ! mi_pos m key j)"
    and skip: "\<And>j. j < d \<Longrightarrow> \<not> (me_tag (mi_entries m ! mi_pos m key j) = tag
      \<and> me_key (mi_entries m ! mi_pos m key j) = key \<and> \<not> me_deleted (mi_entries m ! mi_pos m key j))"
    and here: "me_tag (mi_entries m ! mi_pos m key d) = tag" "me_key (mi_entries m ! mi_pos m key d) = key"
      "\<not> me_deleted (mi_entries m ! mi_pos m key d)"
    and d: "d \<le> 128"
  shows "unat dist = d - n \<Longrightarrow> n \<le> d \<Longrightarrow> unat idx = mi_pos m key (d - n)
    \<Longrightarrow> find_internal m key idx tag dist = Some (mi_pos m key d)"
proof (induction n arbitrary: idx dist)
  case 0
  then show ?case using path [of d] here by (subst find_internal.simps) (simp add: word_less_nat_alt)
next
  case (Suc n)
  have lt: "d - Suc n < d" "unat dist < 128" using Suc.prems d by auto
  then have n128: "\<not> 128 \<le> dist" by (simp add: word_le_nat_alt)
  have "unat (mi_wrap m (idx + 1)) = mi_pos m key (d - Suc n + 1)"
    using Suc.prems mi_pos_less [OF wf] by (simp add: unat_mi_wrap_next [OF wf] mi_pos_Suc [OF wf, simplified])
  then have "find_internal m key (mi_wrap m (idx + 1)) tag (dist + 1) = Some (mi_pos m key d)"
    using Suc.IH [of "dist + 1" "mi_wrap m (idx + 1)"] Suc.prems lt u8_incr [OF n128] by (simp add: Suc_diff_Suc)
  moreover have "\<not> mi_psl m ! unat idx < dist"
    using path [of "d - Suc n"] Suc.prems by (simp add: word_less_nat_alt)
  ultimately show ?case
    using skip [OF lt(1)] Suc.prems n128 by (subst find_internal.simps) auto
qed

text \<open>Under the invariant, a lookup is membership: it returns the one slot that holds the key, unless
  its entry is marked deleted.\<close>

lemma mi_find_iff:
  assumes inv: "mi_inv m"
  shows "mi_find m key = Some i \<longleftrightarrow> mi_live m key i \<and> \<not> me_deleted (mi_entries m ! i)"
proof
  have wf: "mi_wf m" and mapped: "mi_mapped m" using inv by (auto simp: mi_inv_def mi_wf_def)
  { assume "mi_find m key = Some i"
    then have "find_internal m key (mi_home m key) (kv_tag key) 0 = Some i"
      using mapped by (simp add: mi_find_def)
    from find_internal_sound [OF this wf mi_home_less [OF wf]] mi_match_live [OF inv]
    show "mi_live m key i \<and> \<not> me_deleted (mi_entries m ! i)" by auto }
  assume live: "mi_live m key i \<and> \<not> me_deleted (mi_entries m ! i)"
  then have i: "i < mi_cap m" by (simp add: mi_live_def)
  let ?d = "mi_disp m key i"
  have pos: "mi_pos m key ?d = i" by (rule mi_pos_disp [OF wf i])
  have "\<not> mi_live m key (mi_pos m key j)" if "j < ?d" for j
  proof
    assume "mi_live m key (mi_pos m key j)"
    then have "mi_pos m key j = i" using mi_live_unique [OF inv] live by blast
    then have "?d = j"
      using mi_disp_pos [OF wf, of j key] that mi_disp_less [OF wf, of key i] by simp
    with that show False by simp
  qed
  then have skip: "\<not> (me_tag (mi_entries m ! mi_pos m key j) = kv_tag key
      \<and> me_key (mi_entries m ! mi_pos m key j) = key \<and> \<not> me_deleted (mi_entries m ! mi_pos m key j))"
    if "j < ?d" for j using mi_match_live [OF inv mi_pos_less [OF wf]] that by blast
  have path: "j \<le> unat (mi_psl m ! mi_pos m key j)" if "j \<le> ?d" for j
    using mi_live_path(2) [OF inv, of key i] live that by (simp add: mi_path_def less_Suc_eq_le)
  have start: "unat (mi_home m key) = mi_pos m key (?d - ?d)"
    using mi_home_less [OF wf, of key] by (simp add: mi_pos_def)
  have match: "me_tag (mi_entries m ! i) = kv_tag key" "me_key (mi_entries m ! i) = key"
    using mi_match_live [OF inv i, of key] live by simp_all
  have "find_internal m key (mi_home m key) (kv_tag key) 0 = Some (mi_pos m key ?d)"
    by (rule find_internal_complete [OF wf path skip _ _ _ mi_live_path(1) [OF inv], where n = ?d])
      (use pos match live start in simp_all)
  then show "mi_find m key = Some i" using mapped pos by (simp add: mi_find_def)
qed

section \<open>Inserting a key\<close>

text \<open>The abstract content: the entry stored for a key, tombstones included.\<close>

definition mi_content :: "mem_index \<Rightarrow> u64 \<Rightarrow> mem_index_entry option" where
  "mi_content m = map_of (map (\<lambda>e. (me_key e, e)) (mi_occupied m))"

lemma mi_occupied_set:
  "mi_wf m \<Longrightarrow> set (mi_occupied m) = {mi_entries m ! i |i. i < mi_cap m \<and> mi_psl m ! i \<noteq> 0}"
  by (force simp: mi_occupied_def set_zip mi_wf_def word_neq_0_conv)

lemma mi_content_Some:
  assumes "mi_inv m"
  shows "mi_content m key = Some e \<longleftrightarrow> (\<exists>i. mi_live m key i \<and> mi_entries m ! i = e)"
proof
  assume "mi_content m key = Some e"
  then have "e \<in> set (mi_occupied m)" "me_key e = key"
    by (auto simp: mi_content_def dest: map_of_SomeD)
  then show "\<exists>i. mi_live m key i \<and> mi_entries m ! i = e"
    using mi_occupied_set [OF mi_inv_wf [OF assms]] by (auto simp: mi_live_def)
next
  assume "\<exists>i. mi_live m key i \<and> mi_entries m ! i = e"
  then obtain i where i: "mi_live m key i" "mi_entries m ! i = e" by blast
  then have "(key, e) \<in> set (map (\<lambda>e. (me_key e, e)) (mi_occupied m))"
    using mi_occupied_set [OF mi_inv_wf [OF assms]] by (auto simp: mi_live_def)
  then obtain e' where e': "mi_content m key = Some e'"
    unfolding mi_content_def by (meson weak_map_of_SomeI)
  then have "e' \<in> set (mi_occupied m)" "me_key e' = key"
    by (auto simp: mi_content_def dest: map_of_SomeD)
  then obtain j where "mi_live m key j" "mi_entries m ! j = e'"
    using mi_occupied_set [OF mi_inv_wf [OF assms]] by (auto simp: mi_live_def)
  with i mi_live_unique [OF assms] have "e' = e" by blast
  with e' show "mi_content m key = Some e" by simp
qed

lemma mi_content_None: "mi_inv m \<Longrightarrow> mi_content m key = None \<longleftrightarrow> (\<forall>i. \<not> mi_live m key i)"
  using mi_content_Some [of m key] by (metis not_Some_eq)

text \<open>Storing an entry in a slot.\<close>

definition mi_place :: "mem_index \<Rightarrow> nat \<Rightarrow> u8 \<Rightarrow> mem_index_entry \<Rightarrow> mem_index" where
  "mi_place m i d e = m\<lparr>mi_entries := (mi_entries m)[i := e], mi_psl := (mi_psl m)[i := d]\<rparr>"

text \<open>What the loop of \<^verbatim>\<open>upsert\<close> knows of the entry it carries to a slot.\<close>

definition mi_carry :: "mem_index \<Rightarrow> mem_index_entry \<Rightarrow> nat \<Rightarrow> u8 \<Rightarrow> bool" where
  "mi_carry m e i dist \<longleftrightarrow> i < mi_cap m \<and> \<not> me_is_empty e \<and> me_tag e = kv_tag (me_key e)
     \<and> (\<forall>j. \<not> mi_live m (me_key e) j) \<and> mi_disp m (me_key e) i \<le> unat dist \<and> unat dist \<le> 128
     \<and> mi_path m (me_key e) (mi_disp m (me_key e) i)"

lemma mi_place_simps [simp]:
  "mi_capacity (mi_place m i d e) = mi_capacity m" "mi_cap (mi_place m i d e) = mi_cap m"
  "mi_home (mi_place m i d e) k = mi_home m k" "mi_pos (mi_place m i d e) k j = mi_pos m k j"
  "mi_disp (mi_place m i d e) k j = mi_disp m k j" "mi_wf (mi_place m i d e) = mi_wf m"
  by (simp_all add: mi_place_def mi_home_def mi_wrap_def mi_pos_def mi_disp_def mi_wf_def)

lemma mi_place_psl:
  assumes "unat (mi_psl m ! i) \<le> unat d"
  shows "unat (mi_psl m ! j) \<le> unat (mi_psl (mi_place m i d e) ! j)"
  using assms by (cases "i < mi_cap m") (auto simp: mi_place_def nth_list_update list_update_beyond not_less)

lemma mi_place_path:
  "unat (mi_psl m ! i) \<le> unat d \<Longrightarrow> mi_path m k t \<Longrightarrow> mi_path (mi_place m i d e) k t"
  unfolding mi_path_def mi_place_simps by (meson le_trans mi_place_psl)

lemma mi_place_live:
  assumes "mi_wf m" "i < mi_cap m" "d \<noteq> 0"
  shows "mi_live (mi_place m i d e) k j \<longleftrightarrow> (if j = i then me_key e = k else mi_live m k j)"
  using assms by (auto simp: mi_live_def mi_place_def nth_list_update mi_wf_def)

lemma mi_place_inv:
  assumes inv: "mi_inv m" and carry: "mi_carry m e i dist" and d: "d \<noteq> 0" "unat dist \<le> unat d"
    and le: "unat (mi_psl m ! i) \<le> unat d"
  shows "mi_inv (mi_place m i d e)"
proof -
  let ?m = "mi_place m i d e"
  have wf: "mi_wf m" by (rule mi_inv_wf [OF inv])
  have i: "i < mi_cap m" using carry by (simp add: mi_carry_def)
  have "mi_slot_ok ?m j" if j: "j < mi_cap m" for j
  proof (cases "j = i")
    case True
    have e: "mi_entries ?m ! i = e" "mi_psl ?m ! i = d"
      using i wf by (simp_all add: mi_place_def mi_wf_def)
    have "mi_path ?m (me_key e) (mi_disp m (me_key e) i)"
      using carry mi_place_path [OF le] by (simp add: mi_carry_def)
    moreover have "mi_disp m (me_key e) i \<le> unat (mi_psl ?m ! mi_pos m (me_key e) (mi_disp m (me_key e) i))"
      using carry d(2) by (simp add: mi_pos_disp [OF wf i] e mi_carry_def)
    ultimately have "mi_path ?m (me_key e) (mi_disp m (me_key e) i + 1)"
      by (simp add: mi_path_def less_Suc_eq)
    then show ?thesis using carry d(1) True by (simp add: mi_slot_ok_def e mi_carry_def Let_def)
  next
    case False
    then have eq: "mi_entries ?m ! j = mi_entries m ! j" "mi_psl ?m ! j = mi_psl m ! j"
      by (simp_all add: mi_place_def)
    have "mi_slot_ok m j" using inv j by (simp add: mi_inv_def)
    then show ?thesis using mi_place_path [OF le]
      by (auto simp: mi_slot_ok_def eq Let_def split: if_splits)
  qed
  moreover have "j = k" if "mi_live ?m key j" "mi_live ?m key k" for j k key
    using that carry mi_live_unique [OF inv]
    by (auto simp: mi_place_live [OF wf i d(1)] mi_carry_def split: if_splits)
  ultimately show ?thesis using wf unfolding mi_inv_def by (simp add: mi_live_def)
qed

lemma mi_place_content:
  assumes inv: "mi_inv m" and carry: "mi_carry m e i dist" and d: "d \<noteq> 0" "unat dist \<le> unat d"
    and le: "unat (mi_psl m ! i) \<le> unat d"
  shows "mi_content (mi_place m i d e) k =
    (if k = me_key e then Some e
     else if mi_psl m ! i \<noteq> 0 \<and> k = me_key (mi_entries m ! i) then None else mi_content m k)"
proof -
  let ?m = "mi_place m i d e"
  have inv': "mi_inv ?m" by (rule mi_place_inv [OF assms])
  have wf: "mi_wf m" by (rule mi_inv_wf [OF inv])
  have i: "i < mi_cap m" using carry by (simp add: mi_carry_def)
  note live = mi_place_live [OF wf i d(1), of e]
  have ent: "mi_entries ?m ! j = (if j = i then e else mi_entries m ! j)" for j
    using i wf by (simp add: mi_place_def mi_wf_def nth_list_update)
  consider "k = me_key e" | "k \<noteq> me_key e" "mi_live m k i" | "k \<noteq> me_key e" "\<not> mi_live m k i" by blast
  then show ?thesis
  proof cases
    case 1
    then have "mi_content ?m k = Some e" using ent live by (auto simp: mi_content_Some [OF inv'])
    with 1 show ?thesis by simp
  next
    case 2
    have "\<not> mi_live ?m k j" for j
      using 2(1) mi_live_unique [OF inv 2(2), of j] by (simp add: live) blast
    then have "mi_content ?m k = None" by (simp add: mi_content_None [OF inv'])
    with 2 show ?thesis by (simp add: mi_live_def)
  next
    case 3
    then have "mi_live ?m k j \<and> mi_entries ?m ! j = x \<longleftrightarrow> mi_live m k j \<and> mi_entries m ! j = x" for j x
      using live ent by auto
    then have "mi_content ?m k = Some x \<longleftrightarrow> mi_content m k = Some x" for x
      by (simp only: mi_content_Some [OF inv'] mi_content_Some [OF inv])
    then have "mi_content ?m k = mi_content m k" by (metis option.exhaust)
    with 3 i show ?thesis by (auto simp: mi_live_def)
  qed
qed

text \<open>A free slot ends the loop: \<open>n\<close> steps ahead of slot \<open>i\<close>, with \<open>key\<close> nowhere before it.\<close>

definition mi_gap :: "mem_index \<Rightarrow> nat \<Rightarrow> nat \<Rightarrow> u64 \<Rightarrow> bool" where
  "mi_gap m i n key \<longleftrightarrow> n < mi_cap m \<and> mi_psl m ! ((i + n) mod mi_cap m) = 0
     \<and> (\<forall>j < n. mi_psl m ! ((i + j) mod mi_cap m) \<noteq> 0 \<and> \<not> mi_live m key ((i + j) mod mi_cap m))"

lemma mi_gap_ahead:
  assumes "n < c" "i < c" "j < n"
  shows "(i + 1 + j) mod c \<noteq> (i :: nat)"
proof
  assume "(i + 1 + j) mod c = i"
  then have "(i + (1 + j)) mod c = (i + 0) mod c" using assms(2) by simp
  from mod_add_inj [OF this] assms show False by simp
qed

lemma mi_gap_next:
  assumes wf: "mi_wf m" and gap: "mi_gap m i (Suc n) key" and i: "i < mi_cap m"
    and eq: "\<And>j. j \<noteq> i \<Longrightarrow> mi_psl m' ! j = mi_psl m ! j" "\<And>j. j \<noteq> i \<Longrightarrow> mi_entries m' ! j = mi_entries m ! j"
      "mi_cap m' = mi_cap m"
  shows "mi_gap m' ((i + 1) mod mi_cap m) n key"
proof -
  let ?s = "\<lambda>j. ((i + 1) mod mi_cap m + j) mod mi_cap m"
  have s: "?s j = (i + Suc j) mod mi_cap m" for j by (simp add: mod_simps)
  have ne: "(i + Suc j) mod mi_cap m \<noteq> i" if "j \<le> n" for j
    using mi_gap_ahead [of "Suc n" "mi_cap m" i j] gap i that by (simp add: mi_gap_def)
  have "mi_psl m' ! ((i + Suc n) mod mi_cap m) = 0"
    using gap eq(1) [OF ne [of n]] by (simp add: mi_gap_def)
  moreover have "mi_psl m' ! ((i + Suc j) mod mi_cap m) \<noteq> 0 \<and> \<not> mi_live m' key ((i + Suc j) mod mi_cap m)"
    if "j < n" for j
    using gap eq(1) [OF ne [of j]] eq(2) [OF ne [of j]] eq(3) that by (auto simp: mi_gap_def mi_live_def)
  ultimately show ?thesis
    using gap unfolding mi_gap_def eq(3) s by (simp add: Suc_lessD)
qed

lemma mi_carry_next:
  assumes wf: "mi_wf m" and i: "i < mi_cap m" and e: "\<not> me_is_empty e" "me_tag e = kv_tag (me_key e)"
    and absent: "\<And>j. \<not> mi_live m (me_key e) j" and path: "mi_path m (me_key e) (mi_disp m (me_key e) i + 1)"
    and d: "mi_disp m (me_key e) i < unat d" "unat d \<le> 128"
  shows "mi_carry m e ((i + 1) mod mi_cap m) d"
proof -
  have "mi_path m (me_key e) 0" by (simp add: mi_path_def)
  then show ?thesis
    using assms mi_wf_bounds [OF wf] unfolding mi_carry_def mi_disp_next [OF wf i] by simp
qed

text \<open>The two ways a step of the loop goes on: the slot keeps its entry, or gives it up.\<close>

lemma mi_carry_keep:
  assumes "mi_wf m" "mi_carry m e i dist" "unat dist + 1 \<le> unat (mi_psl m ! i)" "\<not> 128 \<le> dist"
  shows "mi_carry m e ((i + 1) mod mi_cap m) (dist + 1)"
proof (rule mi_carry_next)
  show "mi_path m (me_key e) (mi_disp m (me_key e) i + 1)"
    using assms by (auto simp: mi_path_def mi_carry_def less_Suc_eq mi_pos_disp)
qed (use assms u8_incr [of dist] in \<open>auto simp: mi_carry_def word_le_nat_alt\<close>)

lemma mi_carry_swap:
  assumes inv: "mi_inv m" and carry: "mi_carry m e i dist" and occ: "mi_psl m ! i \<noteq> 0"
    and le: "unat (mi_psl m ! i) \<le> unat dist" and d: "\<not> 128 \<le> mi_psl m ! i + 1"
  shows "mi_carry (mi_place m i dist e) (mi_entries m ! i) ((i + 1) mod mi_cap m) (mi_psl m ! i + 1 + 1)"
proof -
  let ?o = "mi_entries m ! i" and ?m = "mi_place m i dist e"
  have wf: "mi_wf m" by (rule mi_inv_wf [OF inv])
  have i: "i < mi_cap m" using carry by (simp add: mi_carry_def)
  have "unat (mi_psl m ! i) \<noteq> 0" using occ by (simp add: unat_eq_zero)
  then have nz: "dist \<noteq> 0" using le by auto
  have o: "mi_live m (me_key ?o) i" using i occ by (simp add: mi_live_def)
  have ok: "mi_slot_ok m i" using inv i by (simp add: mi_inv_def)
  have "unat (mi_psl m ! i) \<noteq> unat (255 :: u8)" using le carry by (simp add: mi_carry_def)
  then have p1: "unat (mi_psl m ! i + 1) = unat (mi_psl m ! i) + 1"
    using le carry by (subst unat_plus_small) (simp_all add: mi_carry_def)
  have p2: "unat (mi_psl m ! i + 1 + 1) = unat (mi_psl m ! i) + 2" using u8_incr [OF d] p1 by simp
  have "mi_carry ?m ?o ((i + 1) mod mi_cap ?m) (mi_psl m ! i + 1 + 1)"
  proof (rule mi_carry_next)
    show "mi_wf ?m" "i < mi_cap ?m" using wf i by simp_all
    show "\<not> me_is_empty ?o" "me_tag ?o = kv_tag (me_key ?o)"
      using ok occ by (simp_all add: mi_slot_ok_def Let_def)
    show "\<not> mi_live ?m (me_key ?o) j" for j
      using carry o mi_live_unique [OF inv o, of j]
      by (auto simp: mi_place_live [OF wf i nz] mi_carry_def)
    show "mi_path ?m (me_key ?o) (mi_disp ?m (me_key ?o) i + 1)"
      using ok occ le by (simp add: mi_slot_ok_def Let_def mi_place_path)
    have "mi_disp m (me_key ?o) i \<le> unat (mi_psl m ! i)"
      using ok occ mi_pos_disp [OF wf i] by (auto simp: mi_slot_ok_def Let_def mi_path_def)
    then show "mi_disp ?m (me_key ?o) i < unat (mi_psl m ! i + 1 + 1)" using p2 by simp
    show "unat (mi_psl m ! i + 1 + 1) \<le> 128" using d p1 p2 by (simp add: word_le_nat_alt)
  qed
  then show ?thesis by simp
qed

definition mi_free :: "mem_index \<Rightarrow> nat" where
  "mi_free m = card {i. i < mi_cap m \<and> mi_psl m ! i = 0}"

lemma mi_place_free:
  assumes "i < mi_cap m" "d \<noteq> 0"
  shows "mi_free (mi_place m i d e) + (if mi_psl m ! i = 0 then 1 else 0) = mi_free m"
proof -
  let ?F = "{j. j < mi_cap m \<and> mi_psl m ! j = 0}"
  have "{j. j < mi_cap (mi_place m i d e) \<and> mi_psl (mi_place m i d e) ! j = 0} = ?F - {i}"
    using assms by (auto simp: mi_place_def nth_list_update)
  then have "mi_free (mi_place m i d e) = card (?F - {i})" by (simp add: mi_free_def)
  moreover have "mi_psl m ! i = 0 \<Longrightarrow> 0 < card ?F" using assms(1) by (auto simp: card_gt_0_iff)
  ultimately show ?thesis using assms(1) by (auto simp: mi_free_def card_Diff_singleton_if)
qed

text \<open>The outcome of an insertion: the new entry is stored and nothing else changes, or the call fails
  and one entry, the one carried when the loop gave up, is no longer stored.\<close>

definition mi_inserted :: "mem_index \<Rightarrow> u64 \<Rightarrow> mem_index_entry \<Rightarrow> bool \<Rightarrow> mem_index \<Rightarrow> bool" where
  "mi_inserted m k e ok m' \<longleftrightarrow> mi_inv m' \<and> mi_capacity m' = mi_capacity m
     \<and> (if ok then mi_content m' = (mi_content m)(k \<mapsto> e) \<and> mi_size m' = mi_size m + 1
             \<and> mi_free m' + 1 = mi_free m
        else (\<exists>v. mi_content m' = ((mi_content m)(k \<mapsto> e))(v := None)) \<and> mi_size m' = mi_size m
             \<and> mi_free m' = mi_free m)"

lemma mi_inserted_swap:
  assumes "mi_inserted m1 k' e' ok m'" "mi_capacity m1 = mi_capacity m" "mi_size m1 = mi_size m"
    and "mi_free m1 = mi_free m" and "(mi_content m1)(k' \<mapsto> e') = (mi_content m)(k \<mapsto> e)"
  shows "mi_inserted m k e ok m'"
  using assms(1) unfolding mi_inserted_def assms(2-5) .

lemma mi_inserted_place:
  assumes inv: "mi_inv m" and carry: "mi_carry m e i dist" and free: "mi_psl m ! i = 0"
  shows "mi_inserted m (me_key e) e True
    (m\<lparr>mi_entries := (mi_entries m)[i := e], mi_psl := (mi_psl m)[i := dist + 1], mi_size := mi_size m + 1\<rparr>)"
proof -
  let ?p = "mi_place m i (dist + 1) e"
  have d: "unat (dist + 1) = unat dist + 1"
    using carry by (subst unat_plus_small) (simp_all add: mi_carry_def)
  then have nz: "dist + 1 \<noteq> 0" by auto
  have le: "unat dist \<le> unat (dist + 1)" "unat (mi_psl m ! i) \<le> unat (dist + 1)"
    using d free by simp_all
  have size: "mi_inv (x\<lparr>mi_size := s\<rparr>) = mi_inv x" "mi_content (x\<lparr>mi_size := s\<rparr>) = mi_content x" for x s
    by (simp_all add: mi_inv_def mi_wf_def mi_slot_ok_def mi_disp_def mi_home_def mi_wrap_def mi_path_def
        mi_pos_def mi_content_def mi_occupied_def)
  have fr: "mi_free (x\<lparr>mi_size := s\<rparr>) = mi_free x" for x s by (simp add: mi_free_def)
  have i: "i < mi_cap m" using carry by (simp add: mi_carry_def)
  have "m\<lparr>mi_entries := (mi_entries m)[i := e], mi_psl := (mi_psl m)[i := dist + 1], mi_size := mi_size m + 1\<rparr>
      = ?p\<lparr>mi_size := mi_size m + 1\<rparr>" by (simp add: mi_place_def)
  moreover have "mi_inv ?p" by (rule mi_place_inv [OF inv carry nz le])
  moreover have "mi_content ?p = (mi_content m)(me_key e \<mapsto> e)"
    by (rule ext) (simp add: mi_place_content [OF inv carry nz le] free)
  moreover have "mi_free ?p + 1 = mi_free m" using mi_place_free [OF i nz, of e] free by simp
  ultimately show ?thesis by (simp add: mi_inserted_def size fr)
qed

text \<open>The loop goes on with the carried entry, or puts it down and goes on with the one that was there; what
  it does from there is a hypothesis here and an induction below.\<close>

definition upsert_tail :: "nat \<Rightarrow> u64 \<Rightarrow> bool \<Rightarrow> mem_index \<Rightarrow> bool" where
  "upsert_tail n key ok m' \<longleftrightarrow> (\<forall>m e idx dist. mi_inv m \<longrightarrow> mi_carry m e (unat idx) dist \<longrightarrow> mi_gap m (unat idx) n key
     \<longrightarrow> upsert_loop m key idx dist e = (ok, m') \<longrightarrow> mi_inserted m (me_key e) e ok m')"

lemma upsert_loop_keep:
  assumes "mi_inv m" "mi_carry m e (unat idx) dist" "mi_gap m (unat idx) (Suc n) key" "upsert_loop m key idx dist e = (ok, m')"
    and "mi_psl m ! unat idx \<noteq> 0" "me_key (mi_entries m ! unat idx) \<noteq> key" "\<not> unat (mi_psl m ! unat idx) < unat dist + 1"
    and "upsert_tail n key ok m'"
  shows "mi_inserted m (me_key e) e ok m'"
proof -
  let ?i = "unat idx"
  have wf: "mi_wf m" by (rule mi_inv_wf [OF assms(1)])
  have i: "?i < mi_cap m" using assms(2) by (simp add: mi_carry_def)
  have step: "upsert_loop m key idx dist e =
      (if 128 \<le> dist then (False, m) else upsert_loop m key (mi_wrap m (idx + 1)) (dist + 1) e)"
    using assms(5-7) i by (subst upsert_loop.simps) simp
  show ?thesis
  proof (cases "128 \<le> dist")
    case True
    have "mi_content m (me_key e) = None"
      using assms(2) by (simp add: mi_content_None [OF assms(1)] mi_carry_def)
    then have "mi_content m = ((mi_content m)(me_key e \<mapsto> e))(me_key e := None)" by (auto simp: fun_eq_iff)
    then have "mi_inserted m (me_key e) e False m"
      using assms(1) unfolding mi_inserted_def if_False by (metis (no_types))
    then show ?thesis using assms(4) step True by simp
  next
    case False
    have "mi_gap m ((?i + 1) mod mi_cap m) n key" by (rule mi_gap_next [OF wf assms(3) i]) simp_all
    moreover have "mi_carry m e ((?i + 1) mod mi_cap m) (dist + 1)"
      using assms(7) by (intro mi_carry_keep [OF wf assms(2) _ False]) simp
    moreover have "upsert_loop m key (mi_wrap m (idx + 1)) (dist + 1) e = (ok, m')"
      using assms(4) step False by simp
    ultimately show ?thesis
      using assms(8) assms(1) unat_mi_wrap_next [OF wf i] unfolding upsert_tail_def by metis
  qed
qed

lemma upsert_loop_swap:
  assumes "mi_inv m" "mi_carry m e (unat idx) dist" "mi_gap m (unat idx) (Suc n) key" "upsert_loop m key idx dist e = (ok, m')"
    and "mi_psl m ! unat idx \<noteq> 0" "me_key (mi_entries m ! unat idx) \<noteq> key" "unat (mi_psl m ! unat idx) < unat dist + 1"
    and "upsert_tail n key ok m'"
  shows "mi_inserted m (me_key e) e ok m'"
proof -
  let ?i = "unat idx" and ?o = "mi_entries m ! unat idx" and ?p = "mi_psl m ! unat idx"
  let ?m = "mi_place m ?i dist e"
  have wf: "mi_wf m" by (rule mi_inv_wf [OF assms(1)])
  have i: "?i < mi_cap m" using assms(2) by (simp add: mi_carry_def)
  have le: "unat ?p \<le> unat dist" using assms(7) by simp
  have "unat ?p \<noteq> 0" using assms(5) by (simp add: unat_eq_zero)
  then have nz: "dist \<noteq> 0" using le by auto
  have step: "upsert_loop m key idx dist e = (if 128 \<le> ?p + 1 then (False, ?m)
      else upsert_loop ?m key (mi_wrap ?m (idx + 1)) (?p + 1 + 1) ?o)"
    using assms(5-7) i by (subst upsert_loop.simps) (simp add: mi_place_def mi_wrap_def)
  have inv': "mi_inv ?m" by (rule mi_place_inv [OF assms(1,2) nz order_refl le])
  have "mi_live m (me_key ?o) ?i" using assms(5) i by (simp add: mi_live_def)
  then have o: "mi_content m (me_key ?o) = Some ?o" "me_key ?o \<noteq> me_key e"
    using assms(2) by (auto simp: mi_content_Some [OF assms(1)] mi_carry_def)
  have content: "mi_content ?m = ((mi_content m)(me_key e \<mapsto> e))(me_key ?o := None)"
    by (rule ext) (use o(2) assms(5) in \<open>auto simp: mi_place_content [OF assms(1,2) nz order_refl le]\<close>)
  have fr: "mi_free ?m = mi_free m" using mi_place_free [OF i nz, of e] assms(5) by simp
  show ?thesis
  proof (cases "128 \<le> ?p + 1")
    case True
    then have "ok = False" "m' = ?m" using assms(4) step by simp_all
    moreover have "mi_inserted m (me_key e) e False ?m"
      using inv' content fr unfolding mi_inserted_def by (auto simp: mi_place_def)
    ultimately show ?thesis by simp
  next
    case False
    have "mi_gap ?m ((?i + 1) mod mi_cap m) n key"
      by (rule mi_gap_next [OF wf assms(3) i]) (simp_all add: mi_place_def)
    moreover have "mi_carry ?m ?o ((?i + 1) mod mi_cap m) (?p + 1 + 1)"
      by (rule mi_carry_swap [OF assms(1,2,5) le False])
    moreover have "mi_wrap ?m (idx + 1) = mi_wrap m (idx + 1)" by (simp add: mi_wrap_def)
    moreover have "upsert_loop ?m key (mi_wrap ?m (idx + 1)) (?p + 1 + 1) ?o = (ok, m')"
      using assms(4) step False by simp
    ultimately have ins: "mi_inserted ?m (me_key ?o) ?o ok m'"
      using assms(8) inv' unat_mi_wrap_next [OF wf i] unfolding upsert_tail_def by metis
    have "(mi_content ?m)(me_key ?o \<mapsto> ?o) = (mi_content m)(me_key e \<mapsto> e)"
      using o by (auto simp: content fun_eq_iff)
    from mi_inserted_swap [OF ins _ _ fr this] show ?thesis by (simp add: mi_place_def)
  qed
qed

lemma upsert_loop_insert:
  assumes "mi_inv m" "mi_carry m e (unat idx) dist" "mi_gap m (unat idx) n key"
    and "upsert_loop m key idx dist e = (ok, m')"
  shows "mi_inserted m (me_key e) e ok m'"
  using assms
proof (induction n arbitrary: m e idx dist)
  case 0
  let ?i = "unat idx"
  have i: "?i < mi_cap m" using "0.prems"(2) by (simp add: mi_carry_def)
  then have free: "mi_psl m ! ?i = 0" using "0.prems"(3) by (simp add: mi_gap_def)
  have "mi_slot_ok m ?i" using "0.prems"(1) i by (simp add: mi_inv_def)
  then have "me_is_empty (mi_entries m ! ?i)" using free by (simp add: mi_slot_ok_def me_zero_def me_is_empty_def)
  with "0.prems"(4) free i mi_inserted_place [OF "0.prems"(1,2) free] show ?case
    by (auto simp: upsert_loop.simps [of m])
next
  case (Suc n)
  have i: "unat idx < mi_cap m" using Suc.prems(2) by (simp add: mi_carry_def)
  have occ: "mi_psl m ! unat idx \<noteq> 0" and absent: "\<not> mi_live m key (unat idx)"
    using Suc.prems(3) i by (auto simp: mi_gap_def)
  then have nokey: "me_key (mi_entries m ! unat idx) \<noteq> key" using i by (simp add: mi_live_def)
  have tail: "upsert_tail n key ok m'" unfolding upsert_tail_def using Suc.IH by blast
  show ?case
    using upsert_loop_keep [OF Suc.prems occ nokey _ tail] upsert_loop_swap [OF Suc.prems occ nokey _ tail] by blast
qed

lemma mi_gap_exists:
  assumes inv: "mi_inv m" and room: "0 < mi_free m" and absent: "mi_content m key = None" and i: "i < mi_cap m"
  shows "\<exists>n. mi_gap m i n key"
proof -
  have wf: "mi_wf m" by (rule mi_inv_wf [OF inv])
  have "{i. i < mi_cap m \<and> mi_psl m ! i = 0} \<noteq> {}" using room by (auto simp: mi_free_def card_gt_0_iff)
  then obtain f where f: "f < mi_cap m" "mi_psl m ! f = 0" by auto
  let ?P = "\<lambda>n. mi_psl m ! ((i + n) mod mi_cap m) = 0"
  have "(i + (f + mi_cap m - i) mod mi_cap m) mod mi_cap m = f" using i f by (simp add: mod_add_right_eq)
  then have ex: "?P ((f + mi_cap m - i) mod mi_cap m)" using f by simp
  let ?n = "LEAST n. ?P n"
  have "?n \<le> (f + mi_cap m - i) mod mi_cap m" using ex by (rule Least_le)
  moreover have "(f + mi_cap m - i) mod mi_cap m < mi_cap m" using mi_wf_bounds [OF wf] by simp
  ultimately have "?n < mi_cap m" by simp
  moreover have "?P ?n" using ex by (rule LeastI)
  moreover have "\<not> ?P j" if "j < ?n" for j using that by (rule not_less_Least)
  moreover have "\<not> mi_live m key j" for j using absent by (simp add: mi_content_None [OF inv])
  ultimately show ?thesis unfolding mi_gap_def by blast
qed

lemma mi_upsert_fresh:
  assumes inv: "mi_inv m" and absent: "mi_content m key = None" and room: "0 < mi_free m"
    and e: "me_key e = key" "\<not> me_is_empty e" and run: "mi_upsert m key e = (ok, m')"
  shows "mi_inserted m key (e\<lparr>me_tag := kv_tag key\<rparr>) ok m'"
proof -
  let ?e = "e\<lparr>me_tag := kv_tag key\<rparr>"
  have wf: "mi_wf m" by (rule mi_inv_wf [OF inv])
  have home: "unat (mi_home m key) < mi_cap m" by (rule mi_home_less [OF wf])
  obtain n where gap: "mi_gap m (unat (mi_home m key)) n key"
    using mi_gap_exists [OF inv room absent home] by blast
  have "mi_disp m key (unat (mi_home m key)) = 0" by (simp add: mi_disp_def)
  then have carry: "mi_carry m ?e (unat (mi_home m key)) 0"
    using e home absent by (simp add: mi_carry_def mi_path_def me_is_empty_def mi_content_None [OF inv])
  have "upsert_loop m key (mi_home m key) 0 ?e = (ok, m')"
    using run wf by (simp add: mi_upsert_def mi_wf_def)
  from upsert_loop_insert [OF inv carry gap this] e(1) show ?thesis by simp
qed

section \<open>Updating and removing a key\<close>

lemma mi_set_entry:
  assumes inv: "mi_inv m" and live: "mi_live m key i"
    and e: "me_key e = key" "\<not> me_is_empty e" "me_tag e = kv_tag key"
  shows "mi_inv (m\<lparr>mi_entries := (mi_entries m)[i := e]\<rparr>)"
    and "mi_content (m\<lparr>mi_entries := (mi_entries m)[i := e]\<rparr>) = (mi_content m)(key \<mapsto> e)"
proof -
  let ?m = "m\<lparr>mi_entries := (mi_entries m)[i := e]\<rparr>"
  have i: "i < mi_cap m" "mi_psl m ! i \<noteq> 0" "me_key (mi_entries m ! i) = key" using live by (simp_all add: mi_live_def)
  have wf: "mi_wf m" by (rule mi_inv_wf [OF inv])
  have ent: "(mi_entries m)[i := e] ! j = (if j = i then e else mi_entries m ! j)" for j
    using i wf by (simp add: mi_wf_def nth_list_update)
  have same: "mi_disp ?m = mi_disp m" "mi_path ?m = mi_path m" "mi_psl ?m = mi_psl m"
    by (auto simp: fun_eq_iff mi_disp_def mi_home_def mi_wrap_def mi_path_def mi_pos_def)
  have livem: "mi_live ?m k j = mi_live m k j" for k j
    using e(1) i(3) by (auto simp: mi_live_def ent)
  have "mi_slot_ok ?m j" if "j < mi_cap m" for j
  proof -
    have "mi_slot_ok m j" using inv that by (simp add: mi_inv_def)
    then show ?thesis using i e
      unfolding mi_slot_ok_def same Let_def by (cases "j = i"; cases "mi_psl m ! j = 0") (simp_all add: ent)
  qed
  moreover have "mi_wf ?m" using wf by (simp add: mi_wf_def)
  moreover have "j = k" if "mi_live ?m x j" "mi_live ?m x k" for x j k
    using mi_live_unique [OF inv] that livem by blast
  ultimately show inv': "mi_inv ?m" by (simp add: mi_inv_def mi_live_def)
  show "mi_content ?m = (mi_content m)(key \<mapsto> e)"
  proof
    fix k
    show "mi_content ?m k = ((mi_content m)(key \<mapsto> e)) k"
    proof (cases "k = key")
      case True
      have "mi_live ?m key i \<and> mi_entries ?m ! i = e" using live by (simp add: livem ent)
      then have "mi_content ?m key = Some e" using mi_content_Some [OF inv'] by blast
      with True show ?thesis by simp
    next
      case False
      then have "mi_live m k j \<Longrightarrow> j \<noteq> i" for j using i(3) by (auto simp: mi_live_def)
      then have "mi_live ?m k j \<and> mi_entries ?m ! j = x \<longleftrightarrow> mi_live m k j \<and> mi_entries m ! j = x" for j x
        unfolding livem by (auto simp: ent)
      then have "mi_content ?m k = Some x \<longleftrightarrow> mi_content m k = Some x" for x
        by (simp only: mi_content_Some [OF inv'] mi_content_Some [OF inv])
      then have "mi_content ?m k = mi_content m k" by (metis option.exhaust)
      with False show ?thesis by simp
    qed
  qed
qed

text \<open>Nothing on the probe path of \<open>key\<close> gives way: every slot before the key's own has a probe length
  greater than the distance at which the path reaches it.\<close>

definition mi_strict_path :: "mem_index \<Rightarrow> u64 \<Rightarrow> nat \<Rightarrow> bool" where
  "mi_strict_path m key d \<longleftrightarrow> (\<forall>j < d. j < unat (mi_psl m ! mi_pos m key j))"

lemma upsert_loop_update:
  assumes inv: "mi_inv m" and live: "mi_live m key i" and strict: "mi_strict_path m key (mi_disp m key i)"
  shows "n \<le> mi_disp m key i \<Longrightarrow> unat dist = mi_disp m key i - n \<Longrightarrow>
    unat idx = mi_pos m key (mi_disp m key i - n) \<Longrightarrow>
    upsert_loop m key idx dist e =
      (True, if sequence_newer (me_sequence e) (me_sequence (mi_entries m ! i))
             then m\<lparr>mi_entries := (mi_entries m)[i := e]\<rparr> else m)"
proof (induction n arbitrary: idx dist)
  case 0
  have wf: "mi_wf m" and i: "i < mi_cap m" "mi_psl m ! i \<noteq> 0" "me_key (mi_entries m ! i) = key"
    using inv live by (simp_all add: mi_inv_def mi_live_def)
  have "unat idx = i" using 0 mi_pos_disp [OF wf i(1)] by simp
  then show ?case using i by (simp add: upsert_loop.simps [of m key idx])
next
  case (Suc n)
  have wf: "mi_wf m" using inv by (simp add: mi_inv_def)
  have i: "i < mi_cap m" using live by (simp add: mi_live_def)
  let ?d = "mi_disp m key i" and ?j = "mi_disp m key i - Suc n"
  have j: "?j < ?d" "?j + 1 = ?d - n" using Suc.prems(1) by auto
  have idx: "unat idx < mi_cap m" using Suc.prems(3) mi_pos_less [OF wf] by simp
  have p: "?j < unat (mi_psl m ! unat idx)" using strict j(1) Suc.prems(3) by (simp add: mi_strict_path_def)
  then have occ: "mi_psl m ! unat idx \<noteq> 0" by auto
  have "unat idx \<noteq> i"
    using mi_disp_pos [OF wf, of ?j key] mi_disp_less [OF wf, of key i] Suc.prems(3) j(1) by auto
  then have key: "me_key (mi_entries m ! unat idx) \<noteq> key"
    using mi_live_unique [OF inv live, of "unat idx"] idx occ by (auto simp: mi_live_def)
  have "?d \<le> 128" by (rule mi_live_path(1) [OF inv live])
  then have n128: "\<not> 128 \<le> dist" using Suc.prems(1,2) by (simp add: word_le_nat_alt)
  have "upsert_loop m key idx dist e = upsert_loop m key (mi_wrap m (idx + 1)) (dist + 1) e"
    using idx occ key n128 p Suc.prems(2) by (simp add: upsert_loop.simps [of m key idx])
  moreover have "unat (mi_wrap m (idx + 1)) = mi_pos m key (?d - n)"
    unfolding unat_mi_wrap_next [OF wf idx] Suc.prems(3) mi_pos_Suc [OF wf] j(2) ..
  moreover have "unat (dist + 1) = ?d - n" using u8_incr [OF n128] Suc.prems(2) j(2) by simp
  ultimately show ?case using Suc.IH [of "dist + 1" "mi_wrap m (idx + 1)"] Suc.prems(1) by simp
qed

lemma mi_upsert_update:
  assumes inv: "mi_inv m" and live: "mi_live m key i" and strict: "mi_strict_path m key (mi_disp m key i)"
    and e: "me_key e = key" "\<not> me_is_empty e"
  shows "\<exists>m'. mi_upsert m key e = (True, m') \<and> mi_inv m' \<and> mi_size m' = mi_size m
    \<and> mi_content m' = (if sequence_newer (me_sequence e) (me_sequence (mi_entries m ! i))
                        then (mi_content m)(key \<mapsto> e\<lparr>me_tag := kv_tag key\<rparr>) else mi_content m)"
proof -
  let ?e = "e\<lparr>me_tag := kv_tag key\<rparr>"
  have wf: "mi_wf m" by (rule mi_inv_wf [OF inv])
  have "unat (mi_home m key) = mi_pos m key 0" using mi_home_less [OF wf] by (simp add: mi_pos_def)
  then have "mi_upsert m key e =
      (True, if sequence_newer (me_sequence e) (me_sequence (mi_entries m ! i))
             then m\<lparr>mi_entries := (mi_entries m)[i := ?e]\<rparr> else m)"
    using upsert_loop_update [OF inv live strict, of "mi_disp m key i" 0 "mi_home m key" ?e] wf
    by (simp add: mi_upsert_def mi_wf_def)
  moreover have "\<not> me_is_empty ?e" using e by (simp add: me_is_empty_def)
  ultimately show ?thesis
    using mi_set_entry [OF inv live, of ?e] e inv by simp
qed

lemma mi_remove_spec:
  assumes inv: "mi_inv m"
  shows "case mi_content m key of
      Some e \<Rightarrow> if me_deleted e then mi_remove m key = (False, m)
        else \<exists>m'. mi_remove m key = (True, m') \<and> mi_inv m'
              \<and> mi_content m' = (mi_content m)(key \<mapsto> e\<lparr>me_deleted := True\<rparr>)
    | None \<Rightarrow> mi_remove m key = (False, m)"
proof (cases "mi_content m key")
  case None
  then have "mi_find m key = None"
    using mi_find_iff [OF inv, of key] by (metis mi_content_None [OF inv] not_Some_eq)
  with None show ?thesis by (simp add: mi_remove_def)
next
  case (Some e)
  then obtain i where i: "mi_live m key i" "mi_entries m ! i = e" using mi_content_Some [OF inv] by blast
  show ?thesis
  proof (cases "me_deleted e")
    case True
    then have "mi_find m key = None"
      using mi_find_iff [OF inv, of key] i mi_live_unique [OF inv i(1)] by (metis not_Some_eq)
    with True Some show ?thesis by (simp add: mi_remove_def)
  next
    case False
    then have f: "mi_find m key = Some i" using mi_find_iff [OF inv] i by blast
    have "mi_slot_ok m i" "mi_psl m ! i \<noteq> 0" "me_key e = key" using inv i by (auto simp: mi_inv_def mi_live_def)
    then have "\<not> me_is_empty (e\<lparr>me_deleted := True\<rparr>)" "me_tag (e\<lparr>me_deleted := True\<rparr>) = kv_tag key"
      using i by (auto simp: mi_slot_ok_def Let_def me_is_empty_def)
    from mi_set_entry [OF inv i(1) _ this] show ?thesis
      using Some False f i \<open>me_key e = key\<close> by (simp add: mi_remove_def)
  qed
qed

end
