(* ===== verification/KvIndexStore.thy ===== *)
theory KvIndexStore
  imports KvMemIndex
begin

text \<open>
  What the rest of the engine relies on in the memory index. The locale \<open>kv_index\<close> states the
  contract, lookup after insertion, update and removal over an abstract content, and derives the
  effect of loading a batch of entries; the table of \<^verbatim>\<open>mem_index.h\<close> is its interpretation. The
  theory also settles the capacity computation, the dump format and the limits of \<^verbatim>\<open>upsert\<close>.
\<close>

section \<open>The contract\<close>

fun insert_all :: "('s \<Rightarrow> 'k \<Rightarrow> 'e \<Rightarrow> bool \<times> 's) \<Rightarrow> ('k \<times> 'e) list \<Rightarrow> 's \<Rightarrow> bool \<times> 's" where
  "insert_all ins [] s = (True, s)"
| "insert_all ins ((k, e) # kes) s =
     (case ins s k e of (ok, s1) \<Rightarrow> case insert_all ins kes s1 of (oks, s2) \<Rightarrow> (ok \<and> oks, s2))"

locale kv_index =
  fixes lookup :: "'s \<Rightarrow> 'k \<Rightarrow> 'e option"
    and ins :: "'s \<Rightarrow> 'k \<Rightarrow> 'e \<Rightarrow> bool \<times> 's"
    and del :: "'s \<Rightarrow> 'k \<Rightarrow> bool \<times> 's"
    and content :: "'s \<Rightarrow> 'k \<Rightarrow> 'e option"
    and free :: "'s \<Rightarrow> nat"
    and inv :: "'s \<Rightarrow> bool"
    and storable :: "'k \<Rightarrow> 'e \<Rightarrow> bool"
    and stored :: "'k \<Rightarrow> 'e \<Rightarrow> 'e"
    and visible :: "'e \<Rightarrow> bool"
    and bury :: "'e \<Rightarrow> 'e"
  assumes lookup_content: "inv s \<Longrightarrow>
      lookup s k = (case content s k of Some e \<Rightarrow> if visible e then Some e else None | None \<Rightarrow> None)"
    and ins_fresh: "inv s \<Longrightarrow> content s k = None \<Longrightarrow> 0 < free s \<Longrightarrow> storable k e \<Longrightarrow> ins s k e = (True, t) \<Longrightarrow>
      inv t \<and> content t = (content s)(k \<mapsto> stored k e) \<and> free t + 1 = free s"
    and ins_failed: "inv s \<Longrightarrow> content s k = None \<Longrightarrow> 0 < free s \<Longrightarrow> storable k e \<Longrightarrow> ins s k e = (False, t) \<Longrightarrow>
      inv t \<and> (\<exists>v. content t = ((content s)(k \<mapsto> stored k e))(v := None))"
    and del_content: "inv s \<Longrightarrow> del s k = (ok, t) \<Longrightarrow> inv t \<and> ok = (lookup s k \<noteq> None)
      \<and> content t = (case lookup s k of Some e \<Rightarrow> (content s)(k \<mapsto> bury e) | None \<Rightarrow> content s)"
    and bury_hides: "\<not> visible (bury e)"
begin

lemma lookup_ins:
  assumes "inv s" "content s k = None" "0 < free s" "storable k e" "ins s k e = (True, t)" "visible (stored k e)"
  shows "lookup t x = (if x = k then Some (stored k e) else lookup s x)"
  using ins_fresh [OF assms(1-5)] assms(1,6) by (simp add: lookup_content)

lemma ins_failed_loses_one:
  assumes "inv s" "content s k = None" "0 < free s" "storable k e" "ins s k e = (False, t)"
  shows "\<exists>v. \<forall>x. x \<noteq> v \<longrightarrow> x \<noteq> k \<longrightarrow> lookup t x = lookup s x"
  using ins_failed [OF assms] assms(1) by (auto simp: lookup_content)

lemma lookup_del:
  assumes "inv s" "del s k = (ok, t)"
  shows "lookup t x = (if x = k then None else lookup s x)"
proof -
  from del_content [OF assms] have t: "inv t"
    "content t = (case lookup s k of Some e \<Rightarrow> (content s)(k \<mapsto> bury e) | None \<Rightarrow> content s)" by simp_all
  show ?thesis
  proof (cases "lookup s k")
    case None
    then show ?thesis using t assms(1) by (auto simp: lookup_content)
  next
    case (Some e)
    then have "content t = (content s)(k \<mapsto> bury e)" using t by simp
    then show ?thesis using t(1) assms(1) bury_hides by (simp add: lookup_content)
  qed
qed

lemma insert_all_content:
  assumes "inv s" "distinct (map fst kes)" "\<And>k e. (k, e) \<in> set kes \<Longrightarrow> storable k e \<and> content s k = None"
    and "length kes \<le> free s" "insert_all ins kes s = (True, t)"
  shows "inv t \<and> content t = content s ++ map_of (map (\<lambda>(k, e). (k, stored k e)) kes)"
  using assms
proof (induction kes arbitrary: s)
  case Nil
  then show ?case by simp
next
  case (Cons ke kes)
  obtain k e where ke: "ke = (k, e)" by (cases ke)
  obtain s1 where s1: "ins s k e = (True, s1)" "insert_all ins kes s1 = (True, t)"
    using Cons.prems(5) ke by (auto split: prod.splits)
  have "inv s1 \<and> content s1 = (content s)(k \<mapsto> stored k e) \<and> free s1 + 1 = free s"
    using Cons.prems ke s1(1) by (intro ins_fresh) auto
  moreover have "k \<notin> fst ` set kes" using Cons.prems(2) ke by simp
  ultimately have "inv t \<and> content t = content s1 ++ map_of (map (\<lambda>(k, e). (k, stored k e)) kes)"
    using Cons.prems s1(2) by (intro Cons.IH) (force simp: ke)+
  moreover have "map_of (map (\<lambda>(k, e). (k, stored k e)) kes) k = None"
    using \<open>k \<notin> fst ` set kes\<close> by (force simp: map_of_eq_None_iff)
  ultimately show ?case
    using \<open>inv s1 \<and> content s1 = (content s)(k \<mapsto> stored k e) \<and> free s1 + 1 = free s\<close>
    by (auto simp: ke fun_eq_iff map_add_def split: option.splits)
qed

lemma insert_all_lookup:
  assumes "inv s" "content s = Map.empty" "distinct (map fst kes)"
    and "\<And>k e. (k, e) \<in> set kes \<Longrightarrow> storable k e \<and> visible (stored k e)"
    and "length kes \<le> free s" "insert_all ins kes s = (True, t)"
  shows "lookup t x = map_option (stored x) (map_of kes x)"
proof -
  have "inv t \<and> content t = content s ++ map_of (map (\<lambda>(k, e). (k, stored k e)) kes)"
    using assms by (intro insert_all_content) auto
  moreover have "map_of (map (\<lambda>(k, e). (k, stored k e)) kes) x = map_option (stored x) (map_of kes x)"
    by (induction kes) auto
  moreover have "visible (stored x e)" if "map_of kes x = Some e" for e
    using assms(4) [of x e] map_of_SomeD [OF that] by simp
  ultimately show ?thesis using assms(2) by (auto simp: lookup_content split: option.splits)
qed

end

section \<open>The table implements it\<close>

definition mi_lookup :: "mem_index \<Rightarrow> u64 \<Rightarrow> mem_index_entry option" where
  "mi_lookup m key = map_option (\<lambda>i. mi_entries m ! i) (mi_find m key)"

definition mi_storable :: "u64 \<Rightarrow> mem_index_entry \<Rightarrow> bool" where
  "mi_storable key e \<longleftrightarrow> me_key e = key \<and> \<not> me_is_empty e"

definition mi_stored :: "u64 \<Rightarrow> mem_index_entry \<Rightarrow> mem_index_entry" where
  "mi_stored key e = e\<lparr>me_tag := kv_tag key\<rparr>"

definition mi_visible :: "mem_index_entry \<Rightarrow> bool" where
  "mi_visible e \<longleftrightarrow> \<not> me_deleted e"

definition mi_bury :: "mem_index_entry \<Rightarrow> mem_index_entry" where
  "mi_bury e = e\<lparr>me_deleted := True\<rparr>"

lemma mi_lookup_content:
  assumes "mi_inv m"
  shows "mi_lookup m key = (case mi_content m key of Some e \<Rightarrow> if mi_visible e then Some e else None | None \<Rightarrow> None)"
proof (cases "mi_content m key")
  case None
  then have "mi_find m key = None"
    using mi_find_iff [OF assms, of key] by (metis mi_content_None [OF assms] not_Some_eq)
  with None show ?thesis by (simp add: mi_lookup_def)
next
  case (Some e)
  then obtain i where i: "mi_live m key i" "mi_entries m ! i = e" using mi_content_Some [OF assms] by blast
  have "mi_find m key = (if me_deleted e then None else Some i)"
    using mi_find_iff [OF assms, of key] i mi_live_unique [OF assms i(1)] by (metis not_Some_eq)
  with Some i show ?thesis by (simp add: mi_lookup_def mi_visible_def)
qed

text \<open>A lookup depends on the keys, the tags, the deletion marks and the probe lengths only.\<close>

definition mi_same_keys :: "mem_index \<Rightarrow> mem_index \<Rightarrow> bool" where
  "mi_same_keys m m' \<longleftrightarrow> mi_psl m' = mi_psl m \<and> mi_capacity m' = mi_capacity m \<and> mi_mapped m' = mi_mapped m
     \<and> (\<forall>i. me_key (mi_entries m' ! i) = me_key (mi_entries m ! i) \<and> me_tag (mi_entries m' ! i) = me_tag (mi_entries m ! i)
            \<and> me_deleted (mi_entries m' ! i) = me_deleted (mi_entries m ! i))"

lemma find_internal_same:
  assumes "mi_same_keys m m'"
  shows "find_internal m' key idx tag d = find_internal m key idx tag d"
  using assms
proof (induction m key idx tag d rule: find_internal.induct)
  case (1 m key idx tag d)
  then have same: "mi_psl m' = mi_psl m" "mi_wrap m' = mi_wrap m"
    "me_key (mi_entries m' ! unat idx) = me_key (mi_entries m ! unat idx)"
    "me_tag (mi_entries m' ! unat idx) = me_tag (mi_entries m ! unat idx)"
    "me_deleted (mi_entries m' ! unat idx) = me_deleted (mi_entries m ! unat idx)"
    by (simp_all add: mi_same_keys_def mi_wrap_def fun_eq_iff)
  show ?case
    by (subst (1 2) find_internal.simps) (use 1 same in \<open>simp del: find_internal.simps\<close>)
qed

lemma find_same: "mi_same_keys m m' \<Longrightarrow> mi_find m' key = mi_find m key"
  by (auto simp: mi_find_def mi_home_def find_internal_same) (auto simp: mi_same_keys_def mi_wrap_def)

lemma find_internal_key:
  "find_internal m key idx tag d = Some i \<Longrightarrow> me_key (mi_entries m ! i) = key \<and> \<not> me_deleted (mi_entries m ! i)"
proof (induction m key idx tag d rule: find_internal.induct)
  case (1 m key idx tag d)
  then show ?case
    by (subst (asm) (2) find_internal.simps) (auto split: if_splits simp del: find_internal.simps)
qed

lemma find_key: "mi_find m key = Some i \<Longrightarrow> me_key (mi_entries m ! i) = key \<and> \<not> me_deleted (mi_entries m ! i)"
  by (auto simp: mi_find_def dest: find_internal_key split: if_splits)

lemma same_keys_sequence: "mi_same_keys m (m\<lparr>mi_global_sequence := s\<rparr>)"
  by (simp add: mi_same_keys_def)

interpretation mix: kv_index mi_lookup mi_upsert mi_remove mi_content mi_free mi_inv
  mi_storable mi_stored mi_visible mi_bury
proof unfold_locales
  fix s t :: mem_index and k :: u64 and e :: mem_index_entry and ok :: bool
  assume inv: "mi_inv s"
  show "mi_lookup s k = (case mi_content s k of Some e \<Rightarrow> if mi_visible e then Some e else None | None \<Rightarrow> None)"
    by (rule mi_lookup_content [OF inv])
  { assume a: "mi_content s k = None" "0 < mi_free s" "mi_storable k e"
    then have e: "me_key e = k" "\<not> me_is_empty e" by (simp_all add: mi_storable_def)
    show "mi_upsert s k e = (True, t) \<Longrightarrow>
        mi_inv t \<and> mi_content t = (mi_content s)(k \<mapsto> mi_stored k e) \<and> mi_free t + 1 = mi_free s"
      using mi_upsert_fresh [OF inv a(1,2) e, of True t] by (simp add: mi_inserted_def mi_stored_def)
    show "mi_upsert s k e = (False, t) \<Longrightarrow>
        mi_inv t \<and> (\<exists>v. mi_content t = ((mi_content s)(k \<mapsto> mi_stored k e))(v := None))"
      using mi_upsert_fresh [OF inv a(1,2) e, of False t] unfolding mi_inserted_def mi_stored_def if_False by blast }
  show "mi_remove s k = (ok, t) \<Longrightarrow> mi_inv t \<and> ok = (mi_lookup s k \<noteq> None)
      \<and> mi_content t = (case mi_lookup s k of Some e \<Rightarrow> (mi_content s)(k \<mapsto> mi_bury e) | None \<Rightarrow> mi_content s)"
    using mi_remove_spec [OF inv, of k] inv
    by (auto simp: mi_lookup_content [OF inv] mi_visible_def mi_bury_def split: option.splits if_splits)
qed (simp add: mi_visible_def mi_bury_def)

section \<open>Capacity\<close>

lemma smear_step:
  assumes "\<And>i. bit (w :: u64) i \<longleftrightarrow> (\<exists>j < n. bit v (i + j))"
  shows "bit (w OR drop_bit n w) i \<longleftrightarrow> (\<exists>j < 2 * n. bit v (i + j))"
proof -
  have "(\<exists>j < 2 * n. bit v (i + j)) \<longleftrightarrow> (\<exists>j < n. bit v (i + j)) \<or> (\<exists>j < n. bit v (i + n + j))"
  proof safe
    fix j assume j: "j < 2 * n" "bit v (i + j)" and no: "\<nexists>j. j < n \<and> bit v (i + n + j)"
    then have "j < n" using no [unfolded not_ex, rule_format, of "j - n"] by (cases "j < n") auto
    with j show "\<exists>j < n. bit v (i + j)" by blast
  next
    fix j assume "j < n" "bit v (i + j)"
    then show "\<exists>j < 2 * n. bit v (i + j)" by (intro exI [of _ j]) simp
  next
    fix j assume "j < n" "bit v (i + n + j)"
    then show "\<exists>j < 2 * n. bit v (i + j)" by (intro exI [of _ "n + j"]) (simp add: add.assoc)
  qed
  with assms show ?thesis by (simp add: bit_or_iff bit_drop_bit_eq add.commute)
qed

definition smear :: "u64 \<Rightarrow> u64" where
  "smear n = (let n = n OR drop_bit 1 n; n = n OR drop_bit 2 n; n = n OR drop_bit 4 n;
     n = n OR drop_bit 8 n; n = n OR drop_bit 16 n in n OR drop_bit 32 n)"

lemma bit_smear: "bit (smear v) i \<longleftrightarrow> (\<exists>j < 64. bit v (i + j))"
proof -
  have "bit v k \<longleftrightarrow> (\<exists>j < 1. bit v (k + j))" for k by simp
  note 1 = smear_step [OF this, simplified]
  note 2 = smear_step [OF 1, simplified] note 4 = smear_step [OF 2, simplified]
  note 8 = smear_step [OF 4, simplified] note 16 = smear_step [OF 8, simplified]
  note 32 = smear_step [OF 16, simplified]
  show ?thesis unfolding smear_def Let_def using 32 by simp
qed

lemma bit_u64_above: "bit (v :: u64) i \<Longrightarrow> i < 64"
  using bit_imp_le_length [of v i] by simp

lemma bit_u64_bound:
  assumes "\<And>i. k \<le> i \<Longrightarrow> \<not> bit (v :: u64) i"
  shows "unat v < 2 ^ k"
proof -
  have "bit v i \<Longrightarrow> i < k" for i using assms [of i] by (meson not_le)
  then have "take_bit k v = v" by (auto simp: bit_eq_iff bit_take_bit_iff)
  then have "take_bit k (unat v) = unat v" by (metis unsigned_take_bit_eq)
  then show ?thesis by (metis take_bit_nat_less_exp)
qed

lemma smear_mask: "\<exists>k \<le> 64. smear v = mask k \<and> unat v < 2 ^ k \<and> (k \<noteq> 0 \<longrightarrow> 2 ^ (k - 1) \<le> unat v)"
proof (cases "v = 0")
  case True
  then have "smear v = mask 0" by (simp add: smear_def)
  with True show ?thesis by (intro exI [of _ 0]) simp
next
  case False
  let ?S = "{i. bit v i}"
  have fin: "finite ?S" by (rule finite_subset [of _ "{..<64}"]) (auto dest: bit_u64_above)
  have ne: "?S \<noteq> {}" using False by (auto simp: bit_eq_iff)
  let ?h = "Max ?S"
  have h: "bit v ?h" using Max_in [OF fin ne] by simp
  have top: "bit v i \<Longrightarrow> i \<le> ?h" for i using Max_ge [OF fin] by simp
  have h64: "?h < 64" by (rule bit_u64_above [OF h])
  have "bit (smear v) i \<longleftrightarrow> i \<le> ?h" for i
  proof
    assume "bit (smear v) i"
    then obtain j where "bit v (i + j)" by (auto simp: bit_smear)
    from order_trans [OF le_add1 top [OF this]] show "i \<le> ?h" .
  next
    assume "i \<le> ?h"
    then show "bit (smear v) i" using h h64 by (auto simp: bit_smear intro!: exI [of _ "?h - i"])
  qed
  then have "smear v = mask (?h + 1)"
    using h64 by (auto simp: bit_eq_iff bit_mask_iff less_Suc_eq_le)
  moreover have "unat v < 2 ^ (?h + 1)" by (rule bit_u64_bound) (use top in fastforce)
  moreover have "2 ^ ?h \<le> unat v"
  proof -
    have "bit (unat v) ?h" using h by (simp add: bit_unsigned_iff)
    then have "odd (unat v div 2 ^ ?h)" by (simp add: bit_iff_odd)
    then have "unat v div 2 ^ ?h \<noteq> 0" by (metis even_zero)
    then show ?thesis by (simp add: div_eq_0_iff not_less)
  qed
  ultimately show ?thesis using h64 by (intro exI [of _ "?h + 1"]) simp
qed

lemma next_power_of_2_smear: "next_power_of_2 n = smear (n - 1) + 1"
  by (simp add: next_power_of_2_def smear_def Let_def)

text \<open>For a request the address space can hold, the capacity is the least power of two that is
  at least the request.\<close>

lemma next_power_of_2_least:
  assumes "0 < unat n" "unat n \<le> 2 ^ 63"
  shows "\<exists>k < 64. next_power_of_2 n = 2 ^ k \<and> unat n \<le> 2 ^ k \<and> (\<forall>j. unat n \<le> 2 ^ j \<longrightarrow> k \<le> j)"
proof -
  have n: "unat (n - 1) = unat n - 1" using assms by (subst unat_minus_small) (simp_all add: word_le_nat_alt)
  obtain k where k: "smear (n - 1) = mask k" "unat n - 1 < 2 ^ k" "k \<noteq> 0 \<longrightarrow> 2 ^ (k - 1) \<le> unat n - 1"
    using smear_mask [of "n - 1"] n by auto
  have least: "k \<le> j" if "unat n \<le> 2 ^ j" for j
  proof (rule ccontr)
    assume "\<not> k \<le> j"
    then have "k \<noteq> 0" "j \<le> k - 1" by auto
    then have "(2 :: nat) ^ j \<le> unat n - 1" using k(3) power_increasing [of j "k - 1" "2 :: nat"] by linarith
    with that assms(1) show False by linarith
  qed
  have "k < 64" using least [of 63] assms(2) by simp
  moreover have "next_power_of_2 n = 2 ^ k"
    by (simp add: next_power_of_2_smear k(1) mask_eq_exp_minus_1)
  moreover have "unat n \<le> 2 ^ k" using k(2) assms(1) by linarith
  ultimately show ?thesis using least by blast
qed

lemma mem_index_new_inv:
  assumes "0 < unat slots" "unat slots \<le> 2 ^ 63"
  shows "mi_inv (mem_index_new slots True)" "mi_content (mem_index_new slots True) = Map.empty"
    "mi_free (mem_index_new slots True) = unat (next_power_of_2 slots)"
proof -
  let ?m = "mem_index_new slots True"
  obtain k where k: "k < 64" "next_power_of_2 slots = 2 ^ k" using next_power_of_2_least [OF assms] by blast
  have cap: "mi_cap ?m = unat (next_power_of_2 slots)" by (simp add: mem_index_new_def Let_def)
  have psl: "i < mi_cap ?m \<Longrightarrow> mi_psl ?m ! i = 0" for i by (simp add: mem_index_new_def Let_def)
  have "mi_wf ?m" using k by (auto simp: mi_wf_def mem_index_new_def Let_def)
  moreover have "i < mi_cap ?m \<Longrightarrow> mi_slot_ok ?m i" for i
    using psl [of i] by (simp add: mi_slot_ok_def mem_index_new_def Let_def)
  ultimately show inv: "mi_inv ?m" using psl by (simp add: mi_inv_def)
  show "mi_content ?m = Map.empty"
    by (rule ext) (use psl in \<open>auto simp: mi_content_None [OF inv] mi_live_def\<close>)
  have "{i. i < mi_cap ?m \<and> mi_psl ?m ! i = 0} = {..<mi_cap ?m}" using psl by auto
  then show "mi_free ?m = unat (next_power_of_2 slots)" by (simp add: mi_free_def cap)
qed

section \<open>Dump and reload\<close>

lemma mem_index_entry_at_nth:
  "i < length es \<Longrightarrow> mem_index_entry_at (concat (map mem_index_entry_bytes es)) (20 * i) = es ! i"
proof (induction es arbitrary: i)
  case Nil
  then show ?case by simp
next
  case (Cons e es)
  show ?case
  proof (cases i)
    case 0
    then show ?thesis by (simp add: mem_index_entry_roundtrip)
  next
    case (Suc j)
    have "mem_index_entry_at (mem_index_entry_bytes e @ concat (map mem_index_entry_bytes es)) (20 + 20 * j)
        = mem_index_entry_at (concat (map mem_index_entry_bytes es)) (20 * j)"
      using mem_index_entry_at_append [of "mem_index_entry_bytes e"] by simp
    with Cons Suc show ?thesis by simp
  qed
qed

lemma map_mem_index_entry_at:
  "map (\<lambda>i. mem_index_entry_at (concat (map mem_index_entry_bytes es)) (20 * i)) [0..<length es] = es"
  by (rule nth_equalityI) (simp_all add: mem_index_entry_at_nth)

lemma length_concat_entries: "length (concat (map mem_index_entry_bytes es)) = 20 * length es"
  by (induction es) simp_all

lemma deserialize_serialize:
  assumes "mi_mapped m" "mi_mapped t" "64 + 20 * length (mi_occupied m) \<le> buf_size"
    and bound: "20 * length (mi_occupied m) < 2 ^ 64"
  shows "mi_deserialize t (mi_serialize m buf_size) = (word_of_nat (length (mi_occupied m)),
     (mi_load_entries t (mi_occupied m))\<lparr>mi_global_sequence := mi_global_sequence m\<rparr>)"
proof -
  let ?es = "mi_occupied m" and ?data = "concat (map mem_index_entry_bytes (mi_occupied m))"
  let ?h = "\<lparr>mh_magic = kMemIndexMagic, mh_version = 1, mh_entry_count = word_of_nat (length ?es),
     mh_capacity = mi_capacity m, mh_global_sequence = ucast (mi_global_sequence m),
     mh_checksum = crc32_calculate ?data\<rparr>"
  have take: "take ((buf_size - 64) div 20) ?es = ?es" using assms(3) by (intro take_all) simp
  have ser: "mi_serialize m buf_size = mem_index_header_bytes ?h @ ?data"
    using assms(1,3) by (simp add: mi_serialize_def take Let_def)
  have hdr: "mem_index_header_at (mi_serialize m buf_size) 0 = ?h" "drop 64 (mi_serialize m buf_size) = ?data"
    "64 \<le> length (mi_serialize m buf_size)"
    unfolding ser using mem_index_header_roundtrip [of ?h ?data] by simp_all
  have cnt: "unat (word_of_nat (length ?es) :: u64) = length ?es" using bound by (intro unat_of_nat_small) simp
  have "(word_of_nat (length ?es) :: u64) * 20 = word_of_nat (length ?data)"
    by (simp add: length_concat_entries)
  moreover have "ucast (ucast (mi_global_sequence m) :: u64) = mi_global_sequence m"
    by (rule bit_word_eqI) (simp add: bit_unsigned_iff)
  ultimately show ?thesis
    using assms(2) hdr(3) unfolding mi_deserialize_def hdr(1,2) Let_def
    by (simp add: cnt map_mem_index_entry_at)
qed

lemma mi_load_entries_insert_all:
  "mi_load_entries t es = snd (insert_all mi_upsert (map (\<lambda>e. (me_key e, e)) (filter (\<lambda>e. \<not> me_deleted e) es)) t)"
  by (induction es arbitrary: t) (auto simp: mi_load_entries_def split: prod.splits)

lemma mi_occupied_keys:
  assumes "mi_inv m"
  shows "distinct (map me_key (mi_occupied m))"
proof -
  let ?is = "filter (\<lambda>i. mi_psl m ! i \<noteq> 0) [0..<mi_cap m]"
  have len: "length (mi_entries m) = mi_cap m" using mi_inv_wf [OF assms] by (simp add: mi_wf_def)
  have "zip (mi_entries m) (mi_psl m) = map (\<lambda>i. (mi_entries m ! i, mi_psl m ! i)) [0..<mi_cap m]"
    by (rule nth_equalityI) (simp_all add: len)
  then have "map me_key (mi_occupied m) = map (\<lambda>i. me_key (mi_entries m ! i)) ?is"
    by (simp add: mi_occupied_def filter_map comp_def word_neq_0_conv)
  moreover have "inj_on (\<lambda>i. me_key (mi_entries m ! i)) (set ?is)"
    using assms by (auto simp: mi_inv_def inj_on_def)
  ultimately show ?thesis by (simp add: distinct_map)
qed

lemma mi_occupied_ok:
  assumes "mi_inv m" "e \<in> set (mi_occupied m)"
  shows "\<not> me_is_empty e" "me_tag e = kv_tag (me_key e)"
proof -
  obtain i where i: "i < mi_cap m" "mi_psl m ! i \<noteq> 0" "e = mi_entries m ! i"
    using assms(2) mi_occupied_set [OF mi_inv_wf [OF assms(1)]] by auto
  moreover from this have "mi_slot_ok m i" using assms(1) by (simp add: mi_inv_def)
  ultimately show "\<not> me_is_empty e" "me_tag e = kv_tag (me_key e)" by (simp_all add: mi_slot_ok_def Let_def)
qed

lemma mi_lookup_occupied:
  assumes "mi_inv m"
  shows "mi_lookup m k = map_of (map (\<lambda>e. (me_key e, e)) (filter mi_visible (mi_occupied m))) k"
proof -
  have gen: "distinct (map me_key es) \<Longrightarrow> map_of (map (\<lambda>e. (me_key e, e)) (filter mi_visible es)) k =
     (case map_of (map (\<lambda>e. (me_key e, e)) es) k of Some e \<Rightarrow> if mi_visible e then Some e else None | None \<Rightarrow> None)" for es
    by (induction es) (force simp: map_of_eq_None_iff split: option.splits)+
  show ?thesis
    unfolding mi_lookup_content [OF assms] gen [OF mi_occupied_keys [OF assms]] by (simp add: mi_content_def)
qed

lemma mi_reload_lookup:
  assumes inv: "mi_inv m" and t: "mi_inv t" "mi_content t = Map.empty"
    and room: "length (filter mi_visible (mi_occupied m)) \<le> mi_free t"
    and ok: "fst (insert_all mi_upsert (map (\<lambda>e. (me_key e, e)) (filter mi_visible (mi_occupied m))) t)"
  shows "mi_inv (mi_load_entries t (mi_occupied m)) \<and> mi_lookup (mi_load_entries t (mi_occupied m)) = mi_lookup m"
proof -
  let ?kes = "map (\<lambda>e. (me_key e, e)) (filter mi_visible (mi_occupied m))"
  have vis: "mi_visible = (\<lambda>e. \<not> me_deleted e)" by (auto simp: mi_visible_def)
  have run: "insert_all mi_upsert ?kes t = (True, mi_load_entries t (mi_occupied m))"
    using ok by (simp add: mi_load_entries_insert_all vis prod_eq_iff)
  have keys: "distinct (map fst ?kes)"
    using mi_occupied_keys [OF inv] by (simp add: comp_def distinct_map_filter)
  have same: "mi_stored k e = e" and store: "mi_storable k e \<and> mi_visible (mi_stored k e)"
    and fresh: "mi_storable k e \<and> mi_content t k = None" if "(k, e) \<in> set ?kes" for k e
    using that mi_occupied_ok [OF inv] t(2) by (auto simp: mi_storable_def mi_stored_def mi_visible_def)
  have len: "length ?kes \<le> mi_free t" using room by simp
  have "mi_lookup (mi_load_entries t (mi_occupied m)) x = mi_lookup m x" for x
  proof -
    have "mi_lookup (mi_load_entries t (mi_occupied m)) x = map_option (mi_stored x) (map_of ?kes x)"
      by (rule mix.insert_all_lookup [OF t keys store len run])
    also have "\<dots> = map_of ?kes x"
    proof (cases "map_of ?kes x")
      case None
      then show ?thesis by (simp only: option.map)
    next
      case (Some e)
      then show ?thesis using same [OF map_of_SomeD [OF Some]] by (simp only: option.map)
    qed
    finally show ?thesis by (simp add: mi_lookup_occupied [OF inv])
  qed
  moreover have "mi_inv (mi_load_entries t (mi_occupied m))"
    by (rule conjunct1 [OF mix.insert_all_content [OF t(1) keys fresh len run]])
  ultimately show ?thesis by auto
qed

lemma sless_zero_window: "0 <s (d :: u32) \<longleftrightarrow> 0 < unat d \<and> unat d < 2 ^ 31"
proof -
  obtain n where n: "n = unat d" "n < 4294967296" using unat_u32 [of d] by blast
  have "uint d = int n" unfolding n(1) by simp
  then have s: "sint d = (int n + 2147483648) mod 4294967296 - 2147483648"
    unfolding sint_uint by (simp add: signed_take_bit_eq_take_bit_shift take_bit_eq_mod)
  have "0 < sint d \<longleftrightarrow> 0 < n \<and> n < 2147483648"
  proof (cases "n < 2147483648")
    case True
    then have "(int n + 2147483648) mod 4294967296 = int n + 2147483648" by (intro mod_pos_pos_trivial) simp_all
    with s True show ?thesis by simp
  next
    case False
    then obtain m where m: "n = 2147483648 + m" by (metis le_iff_add not_less)
    then have "m < 2147483648" using n(2) by simp
    then have "(int n + 2147483648) mod 4294967296 = int m" by (simp add: m)
    with s False m \<open>m < 2147483648\<close> show ?thesis by simp
  qed
  then show ?thesis by (simp add: word_sless_alt n(1))
qed

section \<open>Properties\<close>


text \<open>Small tables for the witnesses: entries that differ in key and sequence only.\<close>

definition ix_entry :: "u64 \<Rightarrow> u32 \<Rightarrow> mem_index_entry" where
  "ix_entry k s = me_zero\<lparr>me_key := k, me_sequence := s\<rparr>"

definition ix_table :: "(u64 \<times> u32) list \<Rightarrow> mem_index" where
  "ix_table kss = snd (insert_all mi_upsert (map (\<lambda>(k, s). (k, ix_entry k s)) kss) (mem_index_new 8 True))"

lemma ix_hash: "kv_hash 5 = 0xde21504f16dc720" "kv_hash 4 = 0x2cdcdc0dfc5d1141"
  "kv_hash 13 = 0x5b84d4d48e81828" "kv_hash 21 = 0xfd8e8595a0626930" "kv_hash 26 = 0xce402f1d4467c11f"
  "kv_hash 29 = 0xf564bdddf7dcba38" "kv_hash 24 = 0x904aa10b2e892cdd" "kv_hash 3 = 0xc7c2bf3b330983e6"
  "kv_hash 16 = 0x987468c2d70edbd5" "kv_hash 11 = 0xbf98f7838a83d4ee"
  by (simp_all add: kv_hash_def hash_bytes_numeral)

lemma ix_tag: "kv_tag 5 = 13" "kv_tag 4 = 44" "kv_tag 13 = 5" "kv_tag 21 = 253" "kv_tag 26 = 206"
  "kv_tag 29 = 245" "kv_tag 24 = 144" "kv_tag 3 = 199" "kv_tag 16 = 152" "kv_tag 11 = 191"
  by (simp_all add: kv_tag_def ix_hash)

lemma ix_replicate: "replicate 8 x = [x, x, x, x, x, x, x, x]"
  by (simp add: numeral_eq_Suc)

lemma ix_new: "mem_index_new 8 True = \<lparr>mi_mapped = True, mi_capacity = 8, mi_size = 0, mi_global_sequence = 0,
   mi_entries = replicate 8 me_zero, mi_psl = replicate 8 0, mi_dirty = replicate 80 False\<rparr>"
proof -
  have "next_power_of_2 8 = 8" by (simp add: next_power_of_2_def)
  then show ?thesis by (simp add: mem_index_new_def Let_def kMemIndexSegmentCount_def)
qed

lemma ix_less: "\<not> (128 :: u8) \<le> 1"
  by (simp add: word_le_nat_alt)

lemmas ix_eval = ix_less ix_new ix_replicate mi_upsert_def mi_home_def mi_wrap_def ix_hash ix_tag upsert_loop.simps
  me_is_empty_def ix_entry_def me_zero_def Let_def sequence_newer_def

lemma ix_entry_ok: "me_key (ix_entry k s) = k" "\<not> me_is_empty (ix_entry 5 s)"
  by (simp_all add: ix_entry_def me_is_empty_def)

lemma ix_table_5_inv: "mi_inv (ix_table [(5, 1)])"
proof -
  have fresh: "mi_inv (mem_index_new 8 True)" "mi_content (mem_index_new 8 True) 5 = None"
    "0 < mi_free (mem_index_new 8 True)"
    using mem_index_new_inv [of 8] by (simp_all add: next_power_of_2_def)
  have run: "mi_upsert (mem_index_new 8 True) 5 (ix_entry 5 1) = (True, ix_table [(5, 1)])"
    by (simp add: ix_table_def) (simp add: ix_eval)
  show ?thesis using mi_upsert_fresh [OF fresh ix_entry_ok run] by (simp add: mi_inserted_def)
qed


text \<open>C21: Updating a stored key replaces its entry exactly when the new sequence number is newer, under
  wrap-around comparison, and changes no other key, provided every slot on the key's probe path has a
  probe length greater than the distance walked.\<close>

theorem index_upsert_update:
  assumes "mi_inv m" "mi_live m key i" "mi_strict_path m key (mi_disp m key i)"
    and "me_key e = key" "\<not> me_is_empty e"
  shows "\<exists>m'. mi_upsert m key e = (True, m') \<and> mi_inv m' \<and> mi_size m' = mi_size m
    \<and> (\<forall>x. mi_content m' x = (if x = key \<and> sequence_newer (me_sequence e) (me_sequence (mi_entries m ! i))
                              then Some (e\<lparr>me_tag := kv_tag key\<rparr>) else mi_content m x))"
  using mi_upsert_update [OF assms] by (auto split: if_splits)

theorem index_upsert_update_witness:
  "\<exists>m'. mi_upsert (ix_table [(5, 1)]) 5 (ix_entry 5 2) = (True, m')
     \<and> mi_content m' 5 = Some ((ix_entry 5 2)\<lparr>me_tag := kv_tag 5\<rparr>)"
proof -
  have "mi_live (ix_table [(5, 1)]) 5 0" and "mi_disp (ix_table [(5, 1)]) 5 0 = 0"
    and "me_sequence (mi_entries (ix_table [(5, 1)]) ! 0) = 1"
    by (simp_all add: ix_table_def mi_live_def mi_disp_def ix_eval)
  with index_upsert_update [OF ix_table_5_inv _ _ ix_entry_ok, of 0 2] show ?thesis
    by (auto simp: mi_strict_path_def ix_entry_def sequence_newer_def sless_zero_window)
qed

text \<open>C15: \<^verbatim>\<open>remove\<close> hides exactly the key it is given and reports whether the key was there.\<close>

theorem index_remove:
  assumes "mi_inv m" "mi_remove m key = (ok, m')"
  shows "mi_inv m' \<and> ok = (mi_lookup m key \<noteq> None)
       \<and> (\<forall>x. mi_lookup m' x = (if x = key then None else mi_lookup m x))"
  using mix.del_content [OF assms] mix.lookup_del [OF assms] by simp

theorem index_remove_witness:
  "\<exists>m'. mi_remove (ix_table [(5, 1)]) 5 = (True, m') \<and> mi_lookup m' 5 = None"
proof -
  obtain ok m' where run: "mi_remove (ix_table [(5, 1)]) 5 = (ok, m')" by fastforce
  have "mi_lookup (ix_table [(5, 1)]) 5 \<noteq> None"
    by (simp add: ix_table_def mi_lookup_def mi_find_def find_internal.simps ix_eval)
  with index_remove [OF ix_table_5_inv run] run show ?thesis by simp
qed

text \<open>\<^verbatim>\<open>batch_find\<close> computes the same results as one \<^verbatim>\<open>find\<close> per key.\<close>

theorem index_batch_find:
  "mi_batch_find m keys = map (mi_find m) keys"
  by (simp add: mi_batch_find_def mi_find_def)

text \<open>The constructor allocates the least power of two of slots that covers the request, and the
  table it builds is well-formed, empty and all free.\<close>

theorem index_new_capacity:
  assumes "0 < unat slots" "unat slots \<le> 2 ^ 63"
  shows "(\<exists>k < 64. mi_capacity (mem_index_new slots True) = 2 ^ k \<and> unat slots \<le> 2 ^ k
        \<and> (\<forall>j. unat slots \<le> 2 ^ j \<longrightarrow> k \<le> j))
    \<and> mi_inv (mem_index_new slots True) \<and> (\<forall>x. mi_lookup (mem_index_new slots True) x = None)
    \<and> mi_free (mem_index_new slots True) = unat (mi_capacity (mem_index_new slots True))"
proof -
  have cap: "mi_capacity (mem_index_new slots True) = next_power_of_2 slots"
    by (simp add: mem_index_new_def Let_def)
  note new = mem_index_new_inv [OF assms]
  show ?thesis
    unfolding cap using next_power_of_2_least [OF assms] new by (simp add: mi_lookup_content [OF new(1)])
qed

theorem index_new_capacity_witness:
  "\<exists>k < 64. mi_capacity (mem_index_new 1000 True) = 2 ^ k \<and> (1000 :: nat) \<le> 2 ^ k"
  using index_new_capacity [of 1000] by auto



text \<open>The loop of \<^verbatim>\<open>upsert\<close> walks past slots of other keys with a greater probe length; \<open>c\<close> is what the
  carried distance is ahead of the step.\<close>

lemma upsert_walk:
  assumes "mi_wf m" "a \<le> b" "b + c \<le> 128" "unat idx = mi_pos m key a" "unat dist = a + c"
    and "\<And>l. a \<le> l \<Longrightarrow> l < b \<Longrightarrow> l + c < unat (mi_psl m ! mi_pos m key l) \<and> me_key (mi_entries m ! mi_pos m key l) \<noteq> key"
  shows "\<exists>idx' dist'. unat idx' = mi_pos m key b \<and> unat dist' = b + c
    \<and> upsert_loop m key idx dist e = upsert_loop m key idx' dist' e"
  using assms(2-6)
proof (induction "b - a" arbitrary: a idx dist)
  case 0
  then show ?case by auto
next
  case (Suc n)
  then have lt: "a < b" by simp
  have idx: "unat idx < mi_cap m" using Suc.prems(3) mi_pos_less [OF assms(1)] by simp
  have p: "a + c < unat (mi_psl m ! unat idx)" "me_key (mi_entries m ! unat idx) \<noteq> key"
    using Suc.prems(5) [of a] lt Suc.prems(3) by simp_all
  have n128: "\<not> 128 \<le> dist" using Suc.prems(2,4) lt by (simp add: word_le_nat_alt)
  have step: "upsert_loop m key idx dist e = upsert_loop m key (mi_wrap m (idx + 1)) (dist + 1) e"
    using idx p n128 Suc.prems(4) by (simp add: upsert_loop.simps [of m key idx]) (auto simp: word_less_nat_alt)
  have "unat (mi_wrap m (idx + 1)) = mi_pos m key (a + 1)"
    unfolding unat_mi_wrap_next [OF assms(1) idx] Suc.prems(3) mi_pos_Suc [OF assms(1)] ..
  moreover have "unat (dist + 1) = a + 1 + c" using u8_incr [OF n128] Suc.prems(4) by simp
  ultimately show ?case
    unfolding step using Suc.hyps(2) lt Suc.prems by (intro Suc.hyps(1)) auto
qed

text \<open>The update of a key whose path passes a slot that gives way.\<close>

lemma path_of_live:
  assumes "mi_inv m" "mi_live m key i" "mi_disp m key i = d"
  shows "mi_pos m key d = i" "l < n \<Longrightarrow> n \<le> d \<Longrightarrow> mi_pos m key l \<noteq> mi_pos m key n"
    and "l < d \<Longrightarrow> 0 < unat (mi_psl m ! mi_pos m key l) \<Longrightarrow> me_key (mi_entries m ! mi_pos m key l) \<noteq> key"
proof -
  note wf = mi_inv_wf [OF assms(1)]
  have i: "i < mi_cap m" using assms(2) by (simp add: mi_live_def)
  have cap: "d < mi_cap m" using mi_disp_less [OF wf] assms(3) by metis
  show pos: "mi_pos m key d = i" using mi_pos_disp [OF wf i] assms(3) by metis
  have ne: "mi_pos m key l \<noteq> mi_pos m key n" if "l < n" "n \<le> d" for l n
    using mi_disp_pos [OF wf, of l key] mi_disp_pos [OF wf, of n key] that cap by fastforce
  then show "l < n \<Longrightarrow> n \<le> d \<Longrightarrow> mi_pos m key l \<noteq> mi_pos m key n" .
  show "me_key (mi_entries m ! mi_pos m key l) \<noteq> key" if "l < d" "0 < unat (mi_psl m ! mi_pos m key l)"
  proof
    assume "me_key (mi_entries m ! mi_pos m key l) = key"
    then have "mi_live m key (mi_pos m key l)" using that(2) mi_pos_less [OF wf] by (auto simp: mi_live_def)
    then show False using mi_live_unique [OF assms(1,2)] ne [OF that(1)] pos by fastforce
  qed
qed

lemma upsert_drops:
  assumes "mi_inv m" "mi_live m key i" "mi_disp m key i = d" "d < 128" "0 < j" "j < d"
    and "\<And>l. l < j \<Longrightarrow> l < unat (mi_psl m ! mi_pos m key l)" "unat (mi_psl m ! mi_pos m key j) = j"
    and "\<And>l. j < l \<Longrightarrow> l < d \<Longrightarrow> l + 1 < unat (mi_psl m ! mi_pos m key l)"
    and "\<not> sequence_newer (me_sequence (mi_entries m ! mi_pos m key j)) (me_sequence (mi_entries m ! i))"
  shows "mi_upsert m key e = (True, m\<lparr>mi_entries := (mi_entries m)[mi_pos m key j := e\<lparr>me_tag := kv_tag key\<rparr>]\<rparr>)"
proof -
  note wf = mi_inv_wf [OF assms(1)]
  have i: "i < mi_cap m" "mi_psl m ! i \<noteq> 0" "me_key (mi_entries m ! i) = key" using assms(2) by (simp_all add: mi_live_def)
  note pos = path_of_live(1) [OF assms(1-3)] and ne = path_of_live(2) [OF assms(1-3)] and key = path_of_live(3) [OF assms(1-3)]
  let ?pj = "mi_pos m key j" and ?e = "e\<lparr>me_tag := kv_tag key\<rparr>"
  let ?m = "m\<lparr>mi_entries := (mi_entries m)[?pj := ?e]\<rparr>"
  have at: "mi_pos ?m key l = mi_pos m key l" for l by (simp add: mi_pos_def mi_home_def mi_wrap_def)
  have wf': "mi_wf ?m" using wf by (simp add: mi_wf_def)
  have start: "unat (mi_home m key) = mi_pos m key 0" using mi_home_less [OF wf] by (simp add: mi_pos_def)
  obtain idx dist where 1: "unat idx = ?pj" "unat dist = j"
    "upsert_loop m key (mi_home m key) 0 ?e = upsert_loop m key idx dist ?e"
    using upsert_walk [OF wf, of 0 j 0 "mi_home m key" key 0 ?e] start assms(4,6,7) key by fastforce
  have same: "(mi_psl m)[?pj := dist] = mi_psl m"
    using 1(2) assms(8) by (metis list_update_id word_unat_eq_iff)
  have p: "mi_psl m ! ?pj = dist" "\<not> dist + 1 \<ge> 128" "unat (dist + 1) = Suc j" "unat (dist + 1 + 1) = Suc j + 1"
  proof -
    show "mi_psl m ! ?pj = dist" using 1(2) assms(8) by (simp add: word_unat_eq_iff)
    show s: "unat (dist + 1) = Suc j" using 1(2) assms(4,6) by (subst unat_plus_small) auto
    then show "\<not> dist + 1 \<ge> 128" using assms(4,6) by (simp add: word_le_nat_alt)
    show "unat (dist + 1 + 1) = Suc j + 1" using s assms(4,6) by (subst unat_plus_small) auto
  qed
  have nz: "dist \<noteq> 0" using 1(2) assms(5) by auto
  have less: "?pj < mi_cap m" by (rule mi_pos_less [OF wf])
  have 2: "upsert_loop m key idx dist ?e = upsert_loop ?m key (mi_wrap m (idx + 1)) (dist + 1 + 1) (mi_entries m ! ?pj)"
    using less p nz key [of j] assms(5,6,8)
    by (subst upsert_loop.simps) (simp add: 1(1) same Let_def)
  have next_pos: "unat (mi_wrap m (idx + 1)) = mi_pos ?m key (Suc j)"
    using unat_mi_wrap_next [OF wf, of idx] 1(1) less mi_pos_Suc [OF wf, of key j] at by simp
  have "\<exists>idx' dist'. unat idx' = mi_pos ?m key d \<and> unat dist' = d + 1
      \<and> upsert_loop ?m key (mi_wrap m (idx + 1)) (dist + 1 + 1) (mi_entries m ! ?pj)
        = upsert_loop ?m key idx' dist' (mi_entries m ! ?pj)"
  proof (rule upsert_walk [OF wf' _ _ next_pos p(4)])
    fix l assume l: "Suc j \<le> l" "l < d"
    then have "l + 1 < unat (mi_psl m ! mi_pos m key l)" using assms(9) by simp
    then show "l + 1 < unat (mi_psl ?m ! mi_pos ?m key l) \<and> me_key (mi_entries ?m ! mi_pos ?m key l) \<noteq> key"
      using key [OF l(2)] ne [of j l] l at by simp
  qed (use assms(4,6) in simp_all)
  then obtain idx' dist' where 3: "unat idx' = i"
    "upsert_loop ?m key (mi_wrap m (idx + 1)) (dist + 1 + 1) (mi_entries m ! ?pj) = upsert_loop ?m key idx' dist' (mi_entries m ! ?pj)"
    using pos at by auto
  have "upsert_loop ?m key idx' dist' (mi_entries m ! ?pj) = (True, ?m)"
    using i ne [OF assms(6)] pos assms(10) by (subst upsert_loop.simps) (simp add: 3(1))
  then show ?thesis using 1 2 3 wf by (simp add: mi_upsert_def mi_wf_def)
qed

text \<open>C36: An update can lose another key although it reports success. Let \<open>key\<close> be stored \<open>d\<close> steps from its
  home, and let step \<open>j\<close> of its path pass the slot of another stored key \<open>y\<close> whose probe length is exactly
  \<open>j\<close>; the slots between do not give way. Then the update of \<open>key\<close>, newer or not, displaces \<open>y\<close>, carries
  its entry to the old slot of \<open>key\<close> and, where that slot's sequence is not older than \<open>y\<close>'s, drops it:
  the call answers true, \<open>key\<close> has its new entry, and \<open>y\<close> is found no more. The swap stores the distance
  itself, not distance + 1, as the probe length of the slot, so that it is \<open>j\<close> again, and
  the slot gives way to the next one, too.\<close>

theorem index_update_loses_key:
  assumes "mi_inv m" "mi_find m key = Some i" "mi_disp m key i = d" "d < 128" "0 < j" "j < d"
    and "\<forall>l < j. l < unat (mi_psl m ! mi_pos m key l)" "unat (mi_psl m ! mi_pos m key j) = j"
    and "\<forall>l. j < l \<and> l < d \<longrightarrow> l + 1 < unat (mi_psl m ! mi_pos m key l)"
    and "mi_find m y = Some (mi_pos m key j)"
    and "\<not> sequence_newer (me_sequence (mi_entries m ! mi_pos m key j)) (me_sequence (mi_entries m ! i))"
    and "me_key e = key" "\<not> me_deleted e"
  shows "\<exists>m'. mi_upsert m key e = (True, m') \<and> mi_lookup m y \<noteq> None \<and> mi_lookup m' y = None
    \<and> mi_lookup m' key = Some (e\<lparr>me_tag := kv_tag key\<rparr>) \<and> unat (mi_psl m' ! mi_pos m' key j) = j"
proof -
  note wf = mi_inv_wf [OF assms(1)]
  let ?pj = "mi_pos m key j" and ?e = "e\<lparr>me_tag := kv_tag key\<rparr>"
  define m' where "m' = m\<lparr>mi_entries := (mi_entries m)[?pj := ?e]\<rparr>"
  have live: "mi_live m key i" "mi_live m y ?pj" using assms(2,10) mi_find_iff [OF assms(1)] by auto
  have up: "mi_upsert m key e = (True, m')"
    unfolding m'_def by (rule upsert_drops [OF assms(1) live(1) assms(3-6)]) (use assms(7-9,11) in auto)
  have at: "mi_pos m' key l = mi_pos m key l" for l by (simp add: m'_def mi_pos_def mi_home_def mi_wrap_def)
  have wf': "mi_wf m'" and home: "mi_home m' x = mi_home m x" for x
    using wf by (simp_all add: m'_def mi_wf_def mi_home_def mi_wrap_def)
  have less: "?pj < length (mi_entries m)" using mi_pos_less [OF wf] wf by (simp add: mi_wf_def)
  note pos = path_of_live(1) [OF assms(1) live(1) assms(3)] and ne = path_of_live(2) [OF assms(1) live(1) assms(3)]
  have yk: "y \<noteq> key" using mi_live_unique [OF assms(1) live(1)] live(2) ne [OF assms(6)] pos by auto
  have "mi_find m' y \<noteq> Some x" for x
  proof
    assume "mi_find m' y = Some x"
    then have "find_internal m' y (mi_home m' y) (kv_tag y) 0 = Some x" using wf' by (simp add: mi_find_def mi_wf_def)
    moreover have "mi_cap m' = mi_cap m" by (simp add: m'_def)
    ultimately have x: "x < mi_cap m" "me_tag (mi_entries m' ! x) = kv_tag y" "me_key (mi_entries m' ! x) = y"
      using find_internal_sound [OF _ wf' mi_home_less [OF wf']] by simp_all
    then have "x \<noteq> ?pj" using yk assms(12) less by (auto simp: m'_def)
    moreover from this x have "mi_live m y x" using mi_match_live [OF assms(1) x(1), of y] by (simp add: m'_def)
    ultimately show False using mi_live_unique [OF assms(1) _ live(2)] by blast
  qed
  then have "mi_find m' y = None" by (cases "mi_find m' y") auto
  moreover have "find_internal m' key (mi_home m' key) (kv_tag key) 0 = Some (mi_pos m' key j)"
  proof (rule find_internal_complete [OF wf', where n = j])
    show "l \<le> unat (mi_psl m' ! mi_pos m' key l)" if "l \<le> j" for l
      using that assms(7,8) unfolding at by (cases "l = j") (auto simp: m'_def intro: less_imp_le)
    show "\<not> (me_tag (mi_entries m' ! mi_pos m' key l) = kv_tag key
        \<and> me_key (mi_entries m' ! mi_pos m' key l) = key \<and> \<not> me_deleted (mi_entries m' ! mi_pos m' key l))" if "l < j" for l
    proof -
      have "\<not> mi_live m key (mi_pos m key l)"
        using mi_live_unique [OF assms(1) live(1)] ne [of l d] that assms(6) pos by fastforce
      then show ?thesis
        using mi_match_live [OF assms(1) mi_pos_less [OF wf], of key l key] ne [OF that] assms(6) unfolding at
        by (auto simp: m'_def)
    qed
  qed (use assms(4,6,12,13) less at mi_home_less [OF wf', of key] in \<open>simp_all add: m'_def mi_pos_def\<close>)
  then have "mi_lookup m' key = Some ?e"
    using wf' less at by (simp add: mi_lookup_def mi_find_def mi_wf_def) (simp add: m'_def)
  ultimately show ?thesis using up assms(8,10) at by (simp add: mi_lookup_def m'_def)
qed

theorem index_update_loses_key_witness:
  "\<exists>m'. mi_upsert (ix_table [(5, 1), (4, 2), (13, 5), (21, 4)]) 13 (ix_entry 13 6) = (True, m')
     \<and> mi_lookup (ix_table [(5, 1), (4, 2), (13, 5), (21, 4)]) 21 \<noteq> None \<and> mi_lookup m' 21 = None"
proof -
  let ?kes = "map (\<lambda>(k, s). (k, ix_entry k s)) [(5, 1), (4, 2), (13, 5), (21, 4)]"
  let ?m = "ix_table [(5, 1), (4, 2), (13, 5), (21, 4)]"
  have new: "mi_inv (mem_index_new 8 True)" "mi_content (mem_index_new 8 True) = Map.empty" "mi_free (mem_index_new 8 True) = 8"
    using mem_index_new_inv [of 8] by (simp_all add: next_power_of_2_def)
  have "fst (insert_all mi_upsert ?kes (mem_index_new 8 True))" by (simp add: ix_eval)
  then have ins: "insert_all mi_upsert ?kes (mem_index_new 8 True) = (True, ?m)"
    by (intro prod_eqI) (simp_all only: ix_table_def fst_conv snd_conv simp_thms)
  have inv: "mi_inv ?m"
    by (rule conjunct1 [OF mix.insert_all_content [OF new(1) _ _ _ ins]])
      (auto simp: new mi_storable_def ix_entry_def me_is_empty_def me_zero_def)
  have f: "mi_find ?m 13 = Some 3" "mi_find ?m 21 = Some 1" "mi_disp ?m 13 3 = 3"
    "mi_psl ?m = [1, 1, 4, 5, 0, 0, 0, 0]" "mi_pos ?m 13 l = l mod 8"
    "\<not> sequence_newer (me_sequence (mi_entries ?m ! 1)) (me_sequence (mi_entries ?m ! 3))" for l
    by (simp_all add: ix_table_def mi_find_def find_internal.simps mi_disp_def mi_pos_def ix_eval)
  have between: "\<forall>l. 1 < l \<and> l < 3 \<longrightarrow> l + 1 < unat (mi_psl ?m ! mi_pos ?m 13 l)"
  proof (intro allI impI)
    fix l :: nat assume "1 < l \<and> l < 3"
    then have "l = 2" by simp
    then show "l + 1 < unat (mi_psl ?m ! mi_pos ?m 13 l)" by (simp add: f)
  qed
  have "me_key (ix_entry 13 6) = 13" "\<not> me_deleted (ix_entry 13 6)" by (simp_all add: ix_entry_def me_zero_def)
  from index_update_loses_key [OF inv f(1,3) _ _ _ _ _ between _ _ this, of 21] f(2,4-6) show ?thesis
    by (simp add: f(5)) blast
qed

text \<open>\<^verbatim>\<open>rebuild_psl_array\<close> can make a stored key unfindable. The six keys are inserted with success
  and found; after the probe lengths are recomputed from the true displacements, the lookup of key
  11 stops early: the table was laid out with the larger probe lengths that \<^verbatim>\<open>upsert\<close> carries.\<close>

theorem index_rebuild_loses_key:
  "fst (insert_all mi_upsert (map (\<lambda>(k, s). (k, ix_entry k s)) [(26, 1), (29, 2), (24, 3), (3, 4), (16, 5), (11, 6)])
      (mem_index_new 8 True))
   \<and> mi_lookup (ix_table [(26, 1), (29, 2), (24, 3), (3, 4), (16, 5), (11, 6)]) 11 \<noteq> None
   \<and> mi_lookup (mi_rebuild_psl_array (ix_table [(26, 1), (29, 2), (24, 3), (3, 4), (16, 5), (11, 6)])) 11 = None"
  by (simp add: ix_table_def mi_lookup_def mi_find_def find_internal.simps mi_rebuild_psl_array_def
      mi_distance_def upt_rec ix_eval)

text \<open>The comparison of sequence numbers tolerates wrap-around: a number is newer than another exactly
  when it is ahead of it by less than half the number space.\<close>

theorem sequence_newer_window:
  "sequence_newer (s + d) s \<longleftrightarrow> 0 < unat d \<and> unat d < 2 ^ 31"
  by (simp add: sequence_newer_def sless_zero_window)

text \<open>Writes to the last buckets of the table never mark a segment dirty: a power of two is not a
  multiple of 80, and the buckets beyond 80 whole segments belong to no segment.\<close>

theorem index_tail_never_dirty:
  assumes "mi_capacity m = 2 ^ k" "7 \<le> k" "k < 64"
  shows "mi_mark_dirty (mi_capacity m - 1) m = Some m"
proof -
  define c where "c = (2 :: nat) ^ k"
  have uc: "unat (mi_capacity m) = c" using assms(1,3) by (simp add: unat_exp_u64 c_def)
  have c128: "128 \<le> c" using power_increasing [OF assms(2), of "2 :: nat"] by (simp add: c_def)
  have "\<not> 80 dvd c"
  proof
    assume "80 dvd c"
    then have "5 dvd (2 :: nat) ^ k" unfolding c_def by (rule dvd_trans [rotated]) simp
    moreover have "(2 :: nat) ^ n mod 5 \<in> {1, 2, 3, 4}" for n
      by (induction n) (simp, simp, presburger)
    ultimately show False by (auto simp: dvd_eq_mod_eq_0 dest: meta_spec [of _ k])
  qed
  then have rest: "c mod 80 \<noteq> 0" by (simp add: dvd_eq_mod_eq_0)
  have seg: "unat (mi_capacity m div 80) = c div 80" by (simp add: unat_div_distrib uc)
  have nz: "mi_capacity m div 80 \<noteq> 0" using seg c128 by (auto simp: div_eq_0_iff)
  have last: "unat (mi_capacity m - 1) = c - 1" using uc c128 by (subst unat_minus_small) (simp_all add: word_le_nat_alt)
  have q: "unat ((mi_capacity m - 1) div (mi_capacity m div 80)) = (c - 1) div (c div 80)"
    by (simp only: unat_div_distrib [of "mi_capacity m - 1"] seg last)
  have div80: "c div 80 * 80 + c mod 80 = c" "c mod 80 < 80" "1 \<le> c div 80" using c128 by simp_all
  then have "80 * (c div 80) \<le> c - 1" using rest by linarith
  then have ge: "80 \<le> (c - 1) div (c div 80)" using div80(3) by (simp add: less_eq_div_iff_mult_less_eq)
  have "c - 1 < 160 * (c div 80)" using div80 c128 by linarith
  then have lt: "(c - 1) div (c div 80) < 160" using div80(3) by (simp add: div_less_iff_less_mult)
  let ?x = "(mi_capacity m - 1) div (mi_capacity m div 80)"
  have "unat (ucast (ucast ?x :: u32) :: u64) = unat ?x"
    using lt unfolding q [symmetric] by (simp add: unsigned_ucast_eq unsigned_take_bit_eq take_bit_nat_eq_self)
  then have "\<not> (ucast (ucast ?x :: u32) :: u64) < 80" using ge unfolding q [symmetric] by (simp add: word_less_nat_alt)
  then show ?thesis using nz by (simp add: mi_mark_dirty_def kMemIndexSegmentCount_def Let_def)
qed

theorem index_tail_never_dirty_witness:
  "mi_mark_dirty 127 (mem_index_new 100 True) = Some (mem_index_new 100 True)"
proof -
  have c: "mi_capacity (mem_index_new 100 True) = 2 ^ 7"
    by (simp add: mem_index_new_def Let_def next_power_of_2_def)
  show ?thesis using index_tail_never_dirty [OF c] unfolding c by simp
qed

end
