(* ===== verification/KvAppendBuffer.thy ===== *)
theory KvAppendBuffer
  imports KvPrelude KvRings "HOL-Library.Multiset"
begin

text \<open>
  The append buffers of \<^verbatim>\<open>include/spdk_kv/append_buffer.h\<close>: \<^verbatim>\<open>AppendBuffer\<close> with its RDMA
  slots, and \<^verbatim>\<open>AppendBufferManager\<close>, which moves buffers between the active position, the submit
  ring, the IO in flight, the pending-reset queue and the complete ring. A buffer pointer is the
  buffer's index in \<^verbatim>\<open>all_buffers_\<close>; a pointer into a buffer is its offset.
\<close>

section \<open>AppendBuffer\<close>

record rdma_slot_state =
  rs_is_allocated :: bool
  rs_write_complete :: bool
  rs_offset :: u32
  rs_size :: u32

definition rdma_slot_zero :: rdma_slot_state where
  "rdma_slot_zero = \<lparr>rs_is_allocated = False, rs_write_complete = False, rs_offset = 0, rs_size = 0\<rparr>"

definition kMaxSlotsPerBuffer :: u32 where [kv_consts]: "kMaxSlotsPerBuffer = 64"

record append_buffer =
  bf_bytes :: "byte list"
  bf_capacity :: u64
  bf_used :: u64
  bf_entry_count :: u64
  bf_epoch :: u32
  bf_next_slot_id :: u32
  bf_active_slots :: u32
  bf_slots :: "rdma_slot_state list"

text \<open>\<open>bytes\<close> is the memory at \<^verbatim>\<open>data\<close>.\<close>

definition append_buffer_new :: "byte list \<Rightarrow> u64 \<Rightarrow> append_buffer" where
  "append_buffer_new bytes capacity =
     \<lparr>bf_bytes = bytes, bf_capacity = capacity, bf_used = 0, bf_entry_count = 0, bf_epoch = 0,
      bf_next_slot_id = 0, bf_active_slots = 0, bf_slots = replicate (unat kMaxSlotsPerBuffer) rdma_slot_zero\<rparr>"

definition buf_reserve :: "u64 \<Rightarrow> append_buffer \<Rightarrow> (u64 \<times> append_buffer) option" where
  "buf_reserve len b =
     (if bf_used b + len > bf_capacity b then None
      else Some (bf_used b, b\<lparr>bf_used := bf_used b + len, bf_entry_count := bf_entry_count b + 1\<rparr>))"

definition buf_append :: "byte list \<Rightarrow> append_buffer \<Rightarrow> (u64 \<times> append_buffer) option" where
  "buf_append data b =
     (let len = word_of_nat (length data) in
      if bf_used b + len > bf_capacity b then None
      else Some (bf_used b, b\<lparr>bf_bytes := put_bytes (unat (bf_used b)) data (bf_bytes b),
                              bf_used := bf_used b + len, bf_entry_count := bf_entry_count b + 1\<rparr>))"

definition buf_get_offset :: "u64 \<Rightarrow> u32" where
  "buf_get_offset ptr = ucast ptr"

definition buf_reset :: "append_buffer \<Rightarrow> append_buffer" where
  "buf_reset b = b\<lparr>bf_used := 0, bf_entry_count := 0, bf_epoch := bf_epoch b + 1, bf_next_slot_id := 0,
     bf_active_slots := 0, bf_slots := replicate (unat kMaxSlotsPerBuffer) rdma_slot_zero\<rparr>"

definition buf_is_full :: "append_buffer \<Rightarrow> bool" where
  "buf_is_full b = (bf_used b \<ge> kFlushThreshold)"

definition buf_is_empty :: "append_buffer \<Rightarrow> bool" where
  "buf_is_empty b = (bf_used b = 0)"

definition buf_alloc_rdma_slot :: "u32 \<Rightarrow> append_buffer \<Rightarrow> (u64 \<times> u32 \<times> append_buffer) option" where
  "buf_alloc_rdma_slot sz b =
     (if bf_next_slot_id b \<ge> kMaxSlotsPerBuffer then None
      else case buf_reserve (ucast sz) b of
          None \<Rightarrow> None
        | Some (slot, b1) \<Rightarrow>
            let slot_id = bf_next_slot_id b1 in
            Some (slot, slot_id,
              b1\<lparr>bf_next_slot_id := slot_id + 1,
                 bf_slots := (bf_slots b1)[unat slot_id := \<lparr>rs_is_allocated = True, rs_write_complete = False,
                                rs_offset = buf_get_offset slot, rs_size = sz\<rparr>],
                 bf_active_slots := bf_active_slots b1 + 1\<rparr>))"

definition buf_mark_rdma_complete :: "u32 \<Rightarrow> append_buffer \<Rightarrow> append_buffer" where
  "buf_mark_rdma_complete slot_id b =
     (if slot_id < kMaxSlotsPerBuffer
      then b\<lparr>bf_slots := (bf_slots b)[unat slot_id := (bf_slots b ! unat slot_id)\<lparr>rs_write_complete := True\<rparr>]\<rparr>
      else b)"

definition buf_release_rdma_slot :: "u32 \<Rightarrow> append_buffer \<Rightarrow> append_buffer" where
  "buf_release_rdma_slot slot_id b =
     (if slot_id < kMaxSlotsPerBuffer \<and> rs_is_allocated (bf_slots b ! unat slot_id)
      then b\<lparr>bf_slots := (bf_slots b)[unat slot_id := (bf_slots b ! unat slot_id)\<lparr>rs_is_allocated := False\<rparr>],
             bf_active_slots := bf_active_slots b - 1\<rparr>
      else b)"

definition buf_can_reset :: "append_buffer \<Rightarrow> bool" where
  "buf_can_reset b = (bf_active_slots b = 0)"

definition buf_can_submit :: "append_buffer \<Rightarrow> bool" where
  "buf_can_submit b = list_all (\<lambda>s. \<not> (rs_is_allocated s \<and> \<not> rs_write_complete s)) (bf_slots b)"

section \<open>AppendBufferManager\<close>

text \<open>\<open>'r\<close> is the type of a resume notification, the pair of a callback and its argument.\<close>

record 'r append_mgr =
  am_all_buffers :: "append_buffer list"
  am_buffer_size :: u64
  am_submit_ring :: "nat ring"
  am_complete_ring :: "nat ring"
  am_active :: "nat option"
  am_backpressure :: bool
  am_buffer_count :: nat
  am_was_backpressure :: bool
  am_resume :: "'r ring"
  am_pending_reset :: "nat list"

definition am_new :: "'r \<Rightarrow> 'r append_mgr" where
  "am_new fill = \<lparr>am_all_buffers = [], am_buffer_size = kAppendBufferSize,
     am_submit_ring = ring_new (kMaxBufferCount + 1) 0, am_complete_ring = ring_new (kMaxBufferCount + 1) 0,
     am_active = None, am_backpressure = False, am_buffer_count = 0, am_was_backpressure = False,
     am_resume = ring_new 256 fill, am_pending_reset = []\<rparr>"

text \<open>\<^verbatim>\<open>complete_ring_.dequeue(&active_buffer_)\<close>: the active buffer is overwritten on success only.\<close>

definition am_take_active :: "'r append_mgr \<Rightarrow> 'r append_mgr" where
  "am_take_active m =
     (case ring_dequeue (am_complete_ring m) of
        None \<Rightarrow> m
      | Some (b, ring) \<Rightarrow> m\<lparr>am_complete_ring := ring, am_active := Some b\<rparr>)"

definition am_add_buffer :: "byte list \<Rightarrow> 'r append_mgr \<Rightarrow> 'r append_mgr" where
  "am_add_buffer mem m =
     m\<lparr>am_all_buffers := am_all_buffers m @ [append_buffer_new mem (am_buffer_size m)],
       am_complete_ring := snd (ring_enqueue (am_complete_ring m) (length (am_all_buffers m)))\<rparr>"

text \<open>\<open>mems\<close> lists the results of the \<^verbatim>\<open>aligned_alloc\<close> calls, \<open>None\<close> for a failed one.\<close>

fun am_init_loop :: "byte list option list \<Rightarrow> 'r append_mgr \<Rightarrow> bool \<times> 'r append_mgr" where
  "am_init_loop [] m = (True, m)"
| "am_init_loop (None # mems) m = (False, m)"
| "am_init_loop (Some mem # mems) m = am_init_loop mems (am_add_buffer mem m)"

definition am_initialize :: "byte list option list \<Rightarrow> u64 \<Rightarrow> 'r append_mgr \<Rightarrow> bool \<times> 'r append_mgr" where
  "am_initialize mems buffer_size m =
     (case am_init_loop mems (m\<lparr>am_buffer_size := buffer_size\<rparr>) of
        (False, m1) \<Rightarrow> (False, m1)
      | (True, m1) \<Rightarrow>
          let m2 = am_take_active (m1\<lparr>am_buffer_count := length mems\<rparr>) in (am_active m2 \<noteq> None, m2))"

definition am_update_buffer :: "nat \<Rightarrow> (append_buffer \<Rightarrow> append_buffer) \<Rightarrow> 'r append_mgr \<Rightarrow> 'r append_mgr" where
  "am_update_buffer i f m = m\<lparr>am_all_buffers := (am_all_buffers m)[i := f (am_all_buffers m ! i)]\<rparr>"

text \<open>The private \<^verbatim>\<open>reserve\<close>; the result is the buffer and the offset of the slot.\<close>

definition am_reserve :: "u64 \<Rightarrow> 'r append_mgr \<Rightarrow> (nat \<times> u64) option \<times> 'r append_mgr" where
  "am_reserve len m =
     (case am_active m of
        None \<Rightarrow> (None, m)
      | Some i \<Rightarrow>
          if bf_used (am_all_buffers m ! i) + len > kFlushThreshold then (None, m)
          else case buf_reserve len (am_all_buffers m ! i) of
              None \<Rightarrow> (None, m)
            | Some (slot, b) \<Rightarrow> (Some (i, slot), am_update_buffer i (\<lambda>_. b) m))"

definition am_pending_count :: "'r append_mgr \<Rightarrow> nat" where
  "am_pending_count m = ring_count (am_submit_ring m)"

text \<open>\<open>mem\<close> is the result of the \<^verbatim>\<open>aligned_alloc\<close> call that an expansion makes.\<close>

definition am_try_expand :: "byte list option \<Rightarrow> 'r append_mgr \<Rightarrow> bool \<times> 'r append_mgr" where
  "am_try_expand mem m =
     (if am_buffer_count m \<ge> kMaxBufferCount then (False, m)
      else case mem of
          None \<Rightarrow> (False, m)
        | Some bytes \<Rightarrow>
            let m1 = (am_add_buffer bytes m)\<lparr>am_buffer_count := am_buffer_count m + 1\<rparr>
            in (True, if am_active m1 = None then am_take_active m1 else m1))"

definition am_check_backpressure :: "byte list option \<Rightarrow> 'r append_mgr \<Rightarrow> bool \<times> 'r append_mgr" where
  "am_check_backpressure mem m =
     (let pending = am_pending_count m;
          m1 = (if am_backpressure m
                then (if pending \<le> kBackpressureLowWater then m\<lparr>am_backpressure := False\<rparr> else m)
                else if pending \<ge> kBackpressureHighWater
                then (case am_try_expand mem m of
                        (True, m1) \<Rightarrow> m1
                      | (False, m1) \<Rightarrow> m1\<lparr>am_backpressure := True\<rparr>)
                else m)
      in (am_backpressure m1, m1))"

text \<open>The slot or the value stored in \<^verbatim>\<open>*error\<close>.\<close>

definition am_reserve_with_backpressure ::
    "u64 \<Rightarrow> byte list option \<Rightarrow> 'r append_mgr \<Rightarrow> ((nat \<times> u64) + kv_error) \<times> 'r append_mgr" where
  "am_reserve_with_backpressure len mem m =
     (case am_check_backpressure mem m of
        (True, m1) \<Rightarrow> (Inr KBackpressure, m1)
      | (False, m1) \<Rightarrow>
          (case am_reserve len m1 of
             (None, m2) \<Rightarrow> (Inr KBackpressure, m2)
           | (Some slot, m2) \<Rightarrow> (Inl slot, m2)))"

definition am_submit_current_buffer :: "'r append_mgr \<Rightarrow> 'r append_mgr" where
  "am_submit_current_buffer m =
     (case am_active m of
        None \<Rightarrow> m
      | Some i \<Rightarrow>
          if buf_is_empty (am_all_buffers m ! i) then m
          else am_take_active (m\<lparr>am_submit_ring := snd (ring_enqueue (am_submit_ring m) i), am_active := None\<rparr>))"

definition am_get_pending_buffers :: "nat \<Rightarrow> 'r append_mgr \<Rightarrow> nat list \<times> 'r append_mgr" where
  "am_get_pending_buffers max_count m =
     (case dequeue_upto ring_dequeue max_count (am_submit_ring m) of
        (bufs, ring) \<Rightarrow> (bufs, m\<lparr>am_submit_ring := ring\<rparr>))"

definition am_recycle :: "nat \<Rightarrow> 'r append_mgr \<Rightarrow> 'r append_mgr" where
  "am_recycle i m = (let m1 = am_update_buffer i buf_reset m in
     m1\<lparr>am_complete_ring := snd (ring_enqueue (am_complete_ring m1) i)\<rparr>)"

definition am_return_buffer :: "nat \<Rightarrow> 'r append_mgr \<Rightarrow> 'r append_mgr" where
  "am_return_buffer i m =
     (if \<not> buf_can_reset (am_all_buffers m ! i) then m\<lparr>am_pending_reset := am_pending_reset m @ [i]\<rparr>
      else let m1 = am_recycle i m in if am_active m1 = None then am_take_active m1 else m1)"

fun am_reset_loop :: "nat list \<Rightarrow> 'r append_mgr \<Rightarrow> 'r append_mgr" where
  "am_reset_loop [] m = m\<lparr>am_pending_reset := []\<rparr>"
| "am_reset_loop (i # is) m =
     (if buf_can_reset (am_all_buffers m ! i) then am_reset_loop is (am_recycle i m)
      else m\<lparr>am_pending_reset := i # is\<rparr>)"

definition am_check_pending_resets :: "'r append_mgr \<Rightarrow> 'r append_mgr" where
  "am_check_pending_resets m = am_reset_loop (am_pending_reset m) m"

definition am_current_buffer_epoch :: "'r append_mgr \<Rightarrow> u32" where
  "am_current_buffer_epoch m = (case am_active m of Some i \<Rightarrow> bf_epoch (am_all_buffers m ! i) | None \<Rightarrow> 0)"

definition am_register_resume_callback :: "'r \<Rightarrow> 'r append_mgr \<Rightarrow> 'r append_mgr" where
  "am_register_resume_callback r m = m\<lparr>am_resume := snd (ring_enqueue (am_resume m) r)\<rparr>"

text \<open>The notifications fired, in order. The loop drains the ring; a callback that registers a new
  notification while the ring is drained is not modelled.\<close>

definition am_process_resume_notifications :: "'r append_mgr \<Rightarrow> 'r list \<times> 'r append_mgr" where
  "am_process_resume_notifications m =
     (if \<not> am_was_backpressure m \<and> \<not> am_backpressure m then ([], m)
      else (case (if am_was_backpressure m \<and> \<not> am_backpressure m
                  then dequeue_upto ring_dequeue (ring_count (am_resume m)) (am_resume m) else ([], am_resume m)) of
              (fired, ring) \<Rightarrow> (fired, m\<lparr>am_resume := ring, am_was_backpressure := am_backpressure m\<rparr>)))"

definition am_can_accept_request :: "'r append_mgr \<Rightarrow> bool" where
  "am_can_accept_request m = (\<not> am_backpressure m)"

definition am_try_process_or_defer :: "'r \<Rightarrow> 'r append_mgr \<Rightarrow> bool \<times> 'r append_mgr" where
  "am_try_process_or_defer r m =
     (if am_can_accept_request m then (True, m) else (False, am_register_resume_callback r m))"

section \<open>Ownership of the buffers\<close>

text \<open>The list of the places where a buffer can be, and of the buffers handed out for IO.\<close>

definition am_owned :: "'r append_mgr \<Rightarrow> nat list \<Rightarrow> nat list" where
  "am_owned m inflight = (case am_active m of Some i \<Rightarrow> [i] | None \<Rightarrow> []) @ ring_list (am_submit_ring m)
     @ ring_list (am_complete_ring m) @ am_pending_reset m @ inflight"

definition am_rings_ok :: "'r append_mgr \<Rightarrow> bool" where
  "am_rings_ok m \<longleftrightarrow> ring_wf (am_submit_ring m) \<and> ring_room (am_submit_ring m) = kMaxBufferCount
     \<and> ring_wf (am_complete_ring m) \<and> ring_room (am_complete_ring m) = kMaxBufferCount"

definition am_inv :: "'r append_mgr \<Rightarrow> nat list \<Rightarrow> bool" where
  "am_inv m inflight \<longleftrightarrow> am_rings_ok m \<and> length (am_all_buffers m) \<le> kMaxBufferCount
     \<and> length (am_all_buffers m) = am_buffer_count m
     \<and> mset (am_owned m inflight) = mset [0..<length (am_all_buffers m)]"

lemma am_inv_distinct: "am_inv m inflight \<Longrightarrow> distinct (am_owned m inflight)"
  by (metis am_inv_def distinct_upt mset_eq_imp_distinct_iff)

lemma am_inv_length: "am_inv m inflight \<Longrightarrow> length (am_owned m inflight) = am_buffer_count m"
  by (metis am_inv_def length_upt mset_eq_length diff_zero)

lemma am_inv_owned: "am_inv m inflight \<Longrightarrow> i \<in> set (am_owned m inflight) \<Longrightarrow> i < length (am_all_buffers m)"
  by (metis am_inv_def atLeastLessThan_iff set_mset_mset set_upt)

text \<open>A ring that holds some of at most 16 buffers has room for one more of them.\<close>

lemma ring_enqueue_room:
  assumes "ring_wf r" "ring_room r = kMaxBufferCount" "length (ring_list r) < kMaxBufferCount"
  shows "ring_wf (snd (ring_enqueue r x))" "ring_room (snd (ring_enqueue r x)) = kMaxBufferCount"
    "ring_list (snd (ring_enqueue r x)) = ring_list r @ [x]"
proof -
  have "ring_count r < ring_room r" using assms sring.cnt_contents [OF assms(1)] by simp
  from sring.enq_ok [OF assms(1) this, of x] show "ring_wf (snd (ring_enqueue r x))"
    "ring_room (snd (ring_enqueue r x)) = kMaxBufferCount" "ring_list (snd (ring_enqueue r x)) = ring_list r @ [x]"
    using assms(2) by auto
qed

lemma am_take_active_owned:
  assumes "am_rings_ok m" "am_active m = None"
  shows "am_rings_ok (am_take_active m)" "mset (am_owned (am_take_active m) fl) = mset (am_owned m fl)"
    "am_all_buffers (am_take_active m) = am_all_buffers m" "am_buffer_count (am_take_active m) = am_buffer_count m"
proof -
  have wf: "ring_wf (am_complete_ring m)" using assms by (simp add: am_rings_ok_def)
  have "am_rings_ok (am_take_active m) \<and> mset (am_owned (am_take_active m) fl) = mset (am_owned m fl)"
  proof (cases "ring_list (am_complete_ring m)")
    case Nil
    then show ?thesis using sring.deq_none [OF wf] assms by (simp add: am_take_active_def)
  next
    case (Cons x xs)
    then obtain q where "ring_dequeue (am_complete_ring m) = Some (x, q)" "ring_wf q" "ring_list q = xs"
      "ring_room q = ring_room (am_complete_ring m)" using sring.deq_some [OF wf] by blast
    then show ?thesis using assms Cons by (simp add: am_take_active_def am_rings_ok_def am_owned_def)
  qed
  then show "am_rings_ok (am_take_active m)" "mset (am_owned (am_take_active m) fl) = mset (am_owned m fl)" by simp_all
  show "am_all_buffers (am_take_active m) = am_all_buffers m" "am_buffer_count (am_take_active m) = am_buffer_count m"
    by (simp_all add: am_take_active_def split: option.split prod.split)
qed

lemma am_inv_take_active: "am_inv m fl \<Longrightarrow> am_active m = None \<Longrightarrow> am_inv (am_take_active m) fl"
  by (simp add: am_inv_def am_take_active_owned)

lemma am_ring_length:
  assumes "am_inv m fl" "x \<in> set (am_owned m fl)" "distinct (x # zs)" "set zs \<subseteq> set (am_owned m fl)"
  shows "length zs < kMaxBufferCount"
proof -
  have "set (x # zs) \<subseteq> {..<length (am_all_buffers m)}"
    using assms am_inv_owned [OF assms(1)] by auto
  then have "length (x # zs) \<le> length (am_all_buffers m)"
    using assms(3) by (metis card_lessThan card_mono distinct_card finite_lessThan)
  then show ?thesis using assms(1) by (simp add: am_inv_def)
qed

lemma am_update_buffer_simps [simp]:
  "am_owned (am_update_buffer i f m) fl = am_owned m fl" "am_rings_ok (am_update_buffer i f m) = am_rings_ok m"
  "length (am_all_buffers (am_update_buffer i f m)) = length (am_all_buffers m)"
  "am_buffer_count (am_update_buffer i f m) = am_buffer_count m" "am_active (am_update_buffer i f m) = am_active m"
  "am_complete_ring (am_update_buffer i f m) = am_complete_ring m"
  "am_submit_ring (am_update_buffer i f m) = am_submit_ring m"
  "am_pending_reset (am_update_buffer i f m) = am_pending_reset m"
  by (simp_all add: am_update_buffer_def am_owned_def am_rings_ok_def)

lemma am_inv_update [kv_inv]: "am_inv m fl \<Longrightarrow> am_inv (am_update_buffer i f m) fl"
  by (simp add: am_inv_def)

lemma am_inv_reserve [kv_inv]:
  assumes "am_inv m fl"
  shows "am_inv (snd (am_reserve len m)) fl"
  using assms by (auto simp: am_reserve_def am_inv_update split: option.split prod.split)

text \<open>A buffer that leaves its place for a ring: the ring takes it, and the rest stays as it was.\<close>

lemma am_inv_recycle:
  assumes inv: "am_inv m (i # fl)"
  shows "am_inv (am_recycle i m) fl" "am_active (am_recycle i m) = am_active m"
    "am_pending_reset (am_recycle i m) = am_pending_reset m"
proof -
  have d: "distinct (am_owned m (i # fl))" by (rule am_inv_distinct [OF inv])
  have ring: "ring_wf (am_complete_ring m)" "ring_room (am_complete_ring m) = kMaxBufferCount"
    using inv by (simp_all add: am_inv_def am_rings_ok_def)
  have "length (ring_list (am_complete_ring m)) < kMaxBufferCount"
    by (rule am_ring_length [OF inv, of i]) (use d in \<open>auto simp: am_owned_def\<close>)
  note e = ring_enqueue_room [OF ring this, of i]
  have "mset (am_owned (am_recycle i m) fl) = mset (am_owned m (i # fl))"
    by (simp add: am_recycle_def Let_def am_owned_def e)
  moreover have "am_rings_ok (am_recycle i m)"
    using inv e by (simp add: am_recycle_def Let_def am_inv_def am_rings_ok_def)
  ultimately show "am_inv (am_recycle i m) fl"
    using inv by (simp add: am_inv_def am_recycle_def Let_def)
  show "am_active (am_recycle i m) = am_active m" "am_pending_reset (am_recycle i m) = am_pending_reset m"
    by (simp_all add: am_recycle_def Let_def)
qed

lemma am_inv_return:
  assumes inv: "am_inv m fl" and i: "i \<in> set fl"
  shows "am_inv (am_return_buffer i m) (remove1 i fl)"
proof -
  have "mset (am_owned m (i # remove1 i fl)) = mset (am_owned m fl)"
    using i by (simp add: am_owned_def)
  then have inv': "am_inv m (i # remove1 i fl)" using inv by (simp add: am_inv_def)
  have "am_inv (am_return_buffer i m) (remove1 i fl)" if "\<not> buf_can_reset (am_all_buffers m ! i)"
    using that inv' by (simp add: am_return_buffer_def am_inv_def am_owned_def am_rings_ok_def)
  moreover have "am_inv (am_return_buffer i m) (remove1 i fl)" if "buf_can_reset (am_all_buffers m ! i)"
    using that am_inv_recycle [OF inv'] by (simp add: am_return_buffer_def Let_def am_inv_take_active)
  ultimately show ?thesis by blast
qed

lemma am_inv_submit [kv_inv]:
  assumes inv: "am_inv m fl"
  shows "am_inv (am_submit_current_buffer m) fl"
proof (cases "am_active m")
  case None
  then show ?thesis using inv by (simp add: am_submit_current_buffer_def)
next
  case (Some i)
  let ?m = "m\<lparr>am_submit_ring := snd (ring_enqueue (am_submit_ring m) i), am_active := None\<rparr>"
  have d: "distinct (am_owned m fl)" by (rule am_inv_distinct [OF inv])
  have ring: "ring_wf (am_submit_ring m)" "ring_room (am_submit_ring m) = kMaxBufferCount"
    using inv by (simp_all add: am_inv_def am_rings_ok_def)
  have "length (ring_list (am_submit_ring m)) < kMaxBufferCount"
    by (rule am_ring_length [OF inv, of i]) (use d Some in \<open>auto simp: am_owned_def\<close>)
  note e = ring_enqueue_room [OF ring this, of i]
  have "am_inv ?m fl" using inv Some by (simp add: am_inv_def am_rings_ok_def am_owned_def e)
  then show ?thesis
    using Some inv by (simp add: am_submit_current_buffer_def am_inv_take_active)
qed

lemma am_inv_get_pending:
  assumes inv: "am_inv m fl" and run: "am_get_pending_buffers n m = (bufs, m')"
  shows "am_inv m' (fl @ bufs)"
proof -
  have wf: "ring_wf (am_submit_ring m)" using inv by (simp add: am_inv_def am_rings_ok_def)
  obtain ring where d: "dequeue_upto ring_dequeue n (am_submit_ring m) = (bufs, ring)"
    and m': "m' = m\<lparr>am_submit_ring := ring\<rparr>"
    using run by (auto simp: am_get_pending_buffers_def split: prod.splits)
  from sring.dequeue_upto_fifo [OF wf d] have
    "ring_list (am_submit_ring m) = bufs @ ring_list ring" "ring_wf ring" "ring_room ring = ring_room (am_submit_ring m)"
    by (auto simp: append_take_drop_id)
  then show ?thesis using inv by (simp add: am_inv_def am_rings_ok_def am_owned_def m' ac_simps)
qed

lemma am_inv_reset_loop:
  "am_inv (m\<lparr>am_pending_reset := is\<rparr>) fl \<Longrightarrow> am_inv (am_reset_loop is m) fl"
proof (induction "is" m rule: am_reset_loop.induct)
  case (1 m)
  then show ?case by simp
next
  case (2 i "is" m)
  have "am_inv (m\<lparr>am_pending_reset := is\<rparr>) (i # fl)"
    using "2.prems" by (simp add: am_inv_def am_owned_def am_rings_ok_def)
  moreover have "am_recycle i (m\<lparr>am_pending_reset := is\<rparr>) = (am_recycle i m)\<lparr>am_pending_reset := is\<rparr>"
    by (simp add: am_recycle_def Let_def am_update_buffer_def)
  ultimately have "am_inv ((am_recycle i m)\<lparr>am_pending_reset := is\<rparr>) fl"
    using am_inv_recycle(1) by metis
  with 2 show ?case by simp
qed

lemma am_inv_check_resets [kv_inv]: "am_inv m fl \<Longrightarrow> am_inv (am_check_pending_resets m) fl"
  by (simp add: am_check_pending_resets_def am_inv_reset_loop)

lemma am_inv_add_buffer:
  assumes inv: "am_inv m fl" and room: "am_buffer_count m < kMaxBufferCount"
  shows "am_inv ((am_add_buffer mem m)\<lparr>am_buffer_count := am_buffer_count m + 1\<rparr>) fl"
proof -
  have ring: "ring_wf (am_complete_ring m)" "ring_room (am_complete_ring m) = kMaxBufferCount"
    using inv by (simp_all add: am_inv_def am_rings_ok_def)
  have "length (ring_list (am_complete_ring m)) \<le> am_buffer_count m"
    using am_inv_length [OF inv] by (simp add: am_owned_def)
  then have "length (ring_list (am_complete_ring m)) < kMaxBufferCount" using room by simp
  note e = ring_enqueue_room [OF ring this, of "am_buffer_count m"]
  have len: "length (am_all_buffers m) = am_buffer_count m" using inv by (simp add: am_inv_def)
  have "mset [0..<Suc (am_buffer_count m)] = add_mset (am_buffer_count m) (mset [0..<am_buffer_count m])" by simp
  then show ?thesis
    using inv room unfolding am_inv_def am_rings_ok_def am_owned_def am_add_buffer_def len
    by (simp add: e len del: mset_upt)
qed

lemma am_inv_try_expand [kv_inv]:
  assumes "am_inv m fl"
  shows "am_inv (snd (am_try_expand mem m)) fl"
  using assms am_inv_add_buffer [OF assms]
  by (auto simp: am_try_expand_def Let_def am_inv_take_active am_add_buffer_def not_le split: option.split)

lemma am_inv_check_backpressure [kv_inv]:
  assumes "am_inv m fl"
  shows "am_inv (snd (am_check_backpressure mem m)) fl"
proof -
  have flag: "am_inv (x\<lparr>am_backpressure := b\<rparr>) fl = am_inv x fl" for x :: "'a append_mgr" and b
    by (simp add: am_inv_def am_owned_def am_rings_ok_def)
  show ?thesis
    using assms am_inv_try_expand [OF assms, of mem]
    by (auto simp: am_check_backpressure_def Let_def flag split: prod.split bool.split)
qed

lemma am_inv_reserve_with_backpressure [kv_inv]:
  assumes "am_inv m fl"
  shows "am_inv (snd (am_reserve_with_backpressure len mem m)) fl"
proof -
  obtain b m1 where c: "am_check_backpressure mem m = (b, m1)" by fastforce
  with am_inv_check_backpressure [OF assms, of mem] have "am_inv m1 fl" by simp
  from am_inv_reserve [OF this, of len] c \<open>am_inv m1 fl\<close> show ?thesis
    by (auto simp: am_reserve_with_backpressure_def split: bool.split prod.split option.split)
qed

lemma am_init_loop_inv:
  "am_init_loop mems m = (ok, m') \<Longrightarrow> am_inv (m\<lparr>am_buffer_count := length (am_all_buffers m)\<rparr>) fl \<Longrightarrow>
   length (am_all_buffers m) + length mems \<le> kMaxBufferCount \<Longrightarrow>
   am_inv (m'\<lparr>am_buffer_count := length (am_all_buffers m')\<rparr>) fl \<and> am_active m' = am_active m
   \<and> (ok \<longrightarrow> length (am_all_buffers m') = length (am_all_buffers m) + length mems)"
proof (induction mems m rule: am_init_loop.induct)
  case (3 mem mems m)
  let ?m = "m\<lparr>am_buffer_count := length (am_all_buffers m)\<rparr>"
  have len: "length (am_all_buffers (am_add_buffer mem m)) = length (am_all_buffers m) + 1"
    by (simp add: am_add_buffer_def)
  have "am_inv ((am_add_buffer mem ?m)\<lparr>am_buffer_count := am_buffer_count ?m + 1\<rparr>) fl"
    using "3.prems" by (intro am_inv_add_buffer) simp_all
  moreover have "(am_add_buffer mem ?m)\<lparr>am_buffer_count := am_buffer_count ?m + 1\<rparr>
      = (am_add_buffer mem m)\<lparr>am_buffer_count := length (am_all_buffers (am_add_buffer mem m))\<rparr>"
    by (simp add: am_add_buffer_def)
  ultimately have "am_inv ((am_add_buffer mem m)\<lparr>am_buffer_count := length (am_all_buffers (am_add_buffer mem m))\<rparr>) fl"
    by metis
  moreover have "am_active (am_add_buffer mem m) = am_active m" by (simp add: am_add_buffer_def)
  ultimately show ?case using "3.IH" "3.prems" len by simp
qed simp_all

lemma ring_new_list: "0 < N \<Longrightarrow> ring_wf (ring_new N x) \<and> ring_list (ring_new N x) = [] \<and> ring_room (ring_new N x) = N - 1"
  by (rule ring_new_wf)

lemma am_initialize_inv:
  assumes "am_initialize mems buffer_size (am_new fill) = (True, m)" "length mems \<le> kMaxBufferCount"
  shows "am_inv m [] \<and> am_buffer_count m = length mems"
proof -
  let ?m = "(am_new fill)\<lparr>am_buffer_size := buffer_size\<rparr>"
  obtain m1 where m1: "am_init_loop mems ?m = (True, m1)"
    and m: "m = am_take_active (m1\<lparr>am_buffer_count := length mems\<rparr>)"
    using assms(1) by (auto simp: am_initialize_def Let_def split: prod.splits bool.splits)
  have "am_inv (?m\<lparr>am_buffer_count := length (am_all_buffers ?m)\<rparr>) []"
    using ring_new_list [of "kMaxBufferCount + 1" "0 :: nat"]
    by (simp add: am_new_def am_inv_def am_rings_ok_def am_owned_def)
  moreover have "length (am_all_buffers ?m) + length mems \<le> kMaxBufferCount" using assms(2) by (simp add: am_new_def)
  ultimately have r: "am_inv (m1\<lparr>am_buffer_count := length (am_all_buffers m1)\<rparr>) [] \<and> am_active m1 = am_active ?m
      \<and> (True \<longrightarrow> length (am_all_buffers m1) = length (am_all_buffers ?m) + length mems)"
    using am_init_loop_inv [OF m1] by blast
  have i: "am_inv (m1\<lparr>am_buffer_count := length (am_all_buffers m1)\<rparr>) []" "am_active m1 = None"
    using r by (blast, simp add: am_new_def)
  have len: "length (am_all_buffers m1) = length mems" using r by (simp add: am_new_def)
  from i(1) have "am_inv (m1\<lparr>am_buffer_count := length mems\<rparr>) []" unfolding len .
  moreover note i(2)
  ultimately show ?thesis using am_take_active_owned(4) unfolding m
    by (simp add: am_inv_take_active am_inv_def am_take_active_owned)
qed

section \<open>Runs of the manager\<close>

text \<open>What the engine does with the manager. RDMA traffic changes the slots of any buffer at any time;
  a buffer is returned by the completion of its IO.\<close>

datatype 'r am_op = AmReserve u64 "byte list option" | AmSubmit | AmGetPending nat | AmReturn nat
  | AmCheckResets | AmAllocSlot nat u32 | AmRdmaComplete nat u32 | AmReleaseSlot nat u32
  | AmDefer 'r | AmNotify

definition buf_after_alloc :: "u32 \<Rightarrow> append_buffer \<Rightarrow> append_buffer" where
  "buf_after_alloc sz b = (case buf_alloc_rdma_slot sz b of Some (_, _, b') \<Rightarrow> b' | None \<Rightarrow> b)"

fun am_step :: "'r am_op \<Rightarrow> 'r append_mgr \<times> nat list \<Rightarrow> 'r append_mgr \<times> nat list" where
  "am_step (AmReserve len mem) (m, fl) = (snd (am_reserve_with_backpressure len mem m), fl)"
| "am_step AmSubmit (m, fl) = (am_submit_current_buffer m, fl)"
| "am_step (AmGetPending n) (m, fl) = (case am_get_pending_buffers n m of (bufs, m') \<Rightarrow> (m', fl @ bufs))"
| "am_step (AmReturn i) (m, fl) = (if i \<in> set fl then (am_return_buffer i m, remove1 i fl) else (m, fl))"
| "am_step AmCheckResets (m, fl) = (am_check_pending_resets m, fl)"
| "am_step (AmAllocSlot i sz) (m, fl) = (am_update_buffer i (buf_after_alloc sz) m, fl)"
| "am_step (AmRdmaComplete i s) (m, fl) = (am_update_buffer i (buf_mark_rdma_complete s) m, fl)"
| "am_step (AmReleaseSlot i s) (m, fl) = (am_update_buffer i (buf_release_rdma_slot s) m, fl)"
| "am_step (AmDefer r) (m, fl) = (snd (am_try_process_or_defer r m), fl)"
| "am_step AmNotify (m, fl) = (snd (am_process_resume_notifications m), fl)"

definition am_run :: "'r am_op list \<Rightarrow> 'r append_mgr \<times> nat list \<Rightarrow> 'r append_mgr \<times> nat list" where
  "am_run = fold am_step"

lemma am_inv_resume: "am_inv (m\<lparr>am_resume := r\<rparr>) fl = am_inv m fl"
    "am_inv (m\<lparr>am_was_backpressure := b\<rparr>) fl = am_inv m fl"
    "am_inv (m\<lparr>am_resume := r, am_was_backpressure := b\<rparr>) fl = am_inv m fl"
  by (simp_all add: am_inv_def am_owned_def am_rings_ok_def)

lemma am_step_inv: "am_inv m fl \<Longrightarrow> am_step opr (m, fl) = (m', fl') \<Longrightarrow> am_inv m' fl'"
proof (cases opr)
  case (AmGetPending n)
  assume "am_inv m fl" "am_step opr (m, fl) = (m', fl')"
  with AmGetPending am_inv_get_pending show ?thesis by (auto split: prod.splits)
next
  case AmNotify
  assume "am_inv m fl" "am_step opr (m, fl) = (m', fl')"
  with AmNotify show ?thesis
    by (auto simp: am_process_resume_notifications_def am_inv_resume split: if_splits prod.splits)
qed (auto simp: kv_inv am_inv_return am_try_process_or_defer_def am_register_resume_callback_def am_inv_resume
    split: if_splits)

lemma am_run_inv: "am_inv m fl \<Longrightarrow> am_run ops (m, fl) = (m', fl') \<Longrightarrow> am_inv m' fl'"
proof (induction ops arbitrary: m fl)
  case Nil
  then show ?case by (simp add: am_run_def)
next
  case (Cons opr ops)
  obtain m1 fl1 where s: "am_step opr (m, fl) = (m1, fl1)" by fastforce
  with Cons.IH [OF am_step_inv [OF Cons.prems(1) s]] Cons.prems(2) show ?case by (simp add: am_run_def)
qed

section \<open>Regions and slots of one buffer\<close>

datatype buf_op = BufReserve u32 | BufSlot u32 | BufComplete u32 | BufRelease u32 | BufReset

text \<open>The regions handed out since the last reset, oldest first, and the buffer.\<close>

fun buf_step :: "buf_op \<Rightarrow> (u64 \<times> u64) list \<times> append_buffer \<Rightarrow> (u64 \<times> u64) list \<times> append_buffer" where
  "buf_step (BufReserve len) (rs, b) =
     (case buf_reserve (ucast len) b of Some (off, b') \<Rightarrow> (rs @ [(off, ucast len)], b') | None \<Rightarrow> (rs, b))"
| "buf_step (BufSlot len) (rs, b) =
     (case buf_alloc_rdma_slot len b of Some (off, _, b') \<Rightarrow> (rs @ [(off, ucast len)], b') | None \<Rightarrow> (rs, b))"
| "buf_step (BufComplete s) (rs, b) = (rs, buf_mark_rdma_complete s b)"
| "buf_step (BufRelease s) (rs, b) = (rs, buf_release_rdma_slot s b)"
| "buf_step BufReset (rs, b) = ([], buf_reset b)"

definition buf_run :: "buf_op list \<Rightarrow> (u64 \<times> u64) list \<times> append_buffer \<Rightarrow> (u64 \<times> u64) list \<times> append_buffer" where
  "buf_run = fold buf_step"

text \<open>The regions tile the used part of the buffer from its start.\<close>

fun buf_tiles :: "nat \<Rightarrow> (u64 \<times> u64) list \<Rightarrow> nat \<Rightarrow> bool" where
  "buf_tiles a [] z = (a = z)"
| "buf_tiles a ((off, len) # rs) z = (unat off = a \<and> buf_tiles (a + unat len) rs z)"

definition buf_allocated :: "append_buffer \<Rightarrow> nat" where
  "buf_allocated b = length (filter rs_is_allocated (bf_slots b))"

definition buf_inv :: "append_buffer \<Rightarrow> bool" where
  "buf_inv b \<longleftrightarrow> unat (bf_used b) \<le> unat (bf_capacity b) \<and> unat (bf_capacity b) < 2 ^ 32
     \<and> length (bf_slots b) = 64 \<and> unat (bf_next_slot_id b) \<le> 64
     \<and> (\<forall>i. unat (bf_next_slot_id b) \<le> i \<longrightarrow> i < 64 \<longrightarrow> \<not> rs_is_allocated (bf_slots b ! i))
     \<and> unat (bf_active_slots b) = buf_allocated b"

lemma buf_tiles_append: "buf_tiles a (rs @ [(off, len)]) z \<longleftrightarrow> buf_tiles a rs (unat off) \<and> z = unat off + unat len"
  by (induction a rs "unat off" rule: buf_tiles.induct) auto

lemma buf_tiles_regions:
  "buf_tiles a rs z \<Longrightarrow> a \<le> z \<and> (\<forall>(off, len) \<in> set rs. a \<le> unat off \<and> unat off + unat len \<le> z)
     \<and> sorted_wrt (\<lambda>(o1, l1) (o2, l2). unat o1 + unat l1 \<le> unat o2) rs"
proof (induction a rs z rule: buf_tiles.induct)
  case (2 a off len rs z)
  then show ?case by fastforce
qed simp

lemma unat_ucast_u32: "unat (ucast (w :: u32) :: u64) = unat w"
  using unat_u32 [of w] by (simp add: unsigned_ucast_eq take_bit_nat_eq_self)

lemma buf_reserve_fit:
  assumes "buf_inv b"
  shows "buf_reserve (ucast (len :: u32)) b =
    (if unat (bf_used b) + unat len \<le> unat (bf_capacity b)
     then Some (bf_used b, b\<lparr>bf_used := bf_used b + ucast len, bf_entry_count := bf_entry_count b + 1\<rparr>) else None)"
  and "unat (bf_used b + ucast len) = unat (bf_used b) + unat len"
proof -
  show u: "unat (bf_used b + ucast len) = unat (bf_used b) + unat len"
    using assms unat_u32 [of len] unat_ucast_u32 [of len]
    by (subst unat_plus_small) (auto simp: buf_inv_def)
  then show "buf_reserve (ucast (len :: u32)) b =
    (if unat (bf_used b) + unat len \<le> unat (bf_capacity b)
     then Some (bf_used b, b\<lparr>bf_used := bf_used b + ucast len, bf_entry_count := bf_entry_count b + 1\<rparr>) else None)"
    by (simp add: buf_reserve_def word_less_nat_alt not_less)
qed

lemma filter_update_length:
  assumes "i < length xs"
  shows "length (filter P (xs[i := x])) + of_bool (P (xs ! i)) = length (filter P xs) + of_bool (P x)"
proof -
  have "length (filter P xs) = length (filter P (take i xs @ xs ! i # drop (Suc i) xs))"
    using id_take_nth_drop [OF assms] by simp
  then show ?thesis using assms by (simp add: upd_conv_take_nth_drop)
qed

lemma buf_inv_slots:
  assumes "buf_inv b" "unat s < 64" "rs_is_allocated x = rs_is_allocated (bf_slots b ! unat (s :: u32))"
  shows "buf_inv (b\<lparr>bf_slots := (bf_slots b)[unat s := x]\<rparr>)"
  using assms filter_update_length [of "unat s" "bf_slots b" rs_is_allocated x]
  by (auto simp: buf_inv_def buf_allocated_def nth_list_update)

text \<open>A slot that is handed out, and one that is given back.\<close>

lemma buf_slot_inv:
  assumes inv: "buf_inv b" and room: "bf_next_slot_id b < 64" "unat (bf_used b) + unat len \<le> unat (bf_capacity b)"
  shows "\<exists>s b'. buf_alloc_rdma_slot len b = Some (bf_used b, s, b') \<and> buf_inv b'
    \<and> unat (bf_used b') = unat (bf_used b) + unat len \<and> bf_capacity b' = bf_capacity b"
proof -
  let ?s = "bf_next_slot_id b"
  let ?x = "\<lparr>rs_is_allocated = True, rs_write_complete = False, rs_offset = buf_get_offset (bf_used b), rs_size = len\<rparr>"
  from room have s64: "unat ?s < 64" by (simp add: word_less_nat_alt)
  then have s1: "unat (?s + 1) = unat ?s + 1" by (subst unat_plus_small) simp_all
  have free: "\<not> rs_is_allocated (bf_slots b ! unat ?s)" and len64: "length (bf_slots b) = 64"
    and act: "unat (bf_active_slots b) = buf_allocated b"
    using inv s64 by (auto simp: buf_inv_def)
  have cnt: "length (filter rs_is_allocated ((bf_slots b)[unat ?s := ?x])) = buf_allocated b + 1"
    using filter_update_length [of "unat ?s" "bf_slots b" rs_is_allocated ?x] free s64 len64
    by (simp add: buf_allocated_def)
  have "buf_allocated b < 64"
    using length_filter_le [of rs_is_allocated "(bf_slots b)[unat ?s := ?x]"] cnt len64 by simp
  then have a1: "unat (bf_active_slots b + 1) = buf_allocated b + 1"
    using act by (subst unat_plus_small) simp_all
  let ?b = "b\<lparr>bf_used := bf_used b + ucast len, bf_entry_count := bf_entry_count b + 1, bf_next_slot_id := ?s + 1,
      bf_slots := (bf_slots b)[unat ?s := ?x], bf_active_slots := bf_active_slots b + 1\<rparr>"
  have "buf_alloc_rdma_slot len b = Some (bf_used b, ?s, ?b)"
    using room by (simp add: buf_alloc_rdma_slot_def buf_reserve_fit [OF inv] kMaxSlotsPerBuffer_def Let_def not_le)
  moreover have "buf_inv ?b"
    using inv room s64 s1 len64 cnt a1 by (auto simp: buf_inv_def buf_allocated_def buf_reserve_fit(2) [OF inv] nth_list_update)
  ultimately show ?thesis by (simp add: buf_reserve_fit(2) [OF inv])
qed

lemma buf_release_inv:
  assumes inv: "buf_inv b" and slot: "s < 64" "rs_is_allocated (bf_slots b ! unat s)"
  shows "\<exists>b'. buf_release_rdma_slot s b = b' \<and> buf_inv b' \<and> bf_used b' = bf_used b \<and> bf_capacity b' = bf_capacity b"
proof -
  let ?x = "(bf_slots b ! unat s)\<lparr>rs_is_allocated := False\<rparr>"
  have s64: "unat s < 64" using slot(1) by (simp add: word_less_nat_alt)
  have len64: "length (bf_slots b) = 64" and act: "unat (bf_active_slots b) = buf_allocated b"
    using inv by (auto simp: buf_inv_def)
  have cnt: "length (filter rs_is_allocated ((bf_slots b)[unat s := ?x])) + 1 = buf_allocated b"
    using filter_update_length [of "unat s" "bf_slots b" rs_is_allocated ?x] slot s64 len64
    by (simp add: buf_allocated_def)
  then have "unat (bf_active_slots b - 1) = buf_allocated b - 1"
    using act by (subst unat_minus_small) (simp_all add: word_le_nat_alt)
  with inv slot s64 len64 cnt show ?thesis
    by (auto simp: buf_release_rdma_slot_def kMaxSlotsPerBuffer_def buf_inv_def buf_allocated_def nth_list_update
        split: if_splits)
qed

lemma buf_step_inv:
  assumes "buf_inv b" "buf_tiles 0 rs (unat (bf_used b))" "buf_step opr (rs, b) = (rs', b')"
  shows "buf_inv b' \<and> buf_tiles 0 rs' (unat (bf_used b')) \<and> bf_capacity b' = bf_capacity b"
proof (cases opr)
  case (BufReserve len)
  with assms buf_reserve_fit [OF assms(1), of len] show ?thesis
    by (auto simp: buf_inv_def buf_allocated_def buf_tiles_append unat_ucast_u32 split: if_splits)
next
  case (BufSlot len)
  show ?thesis
  proof (cases "bf_next_slot_id b < 64 \<and> unat (bf_used b) + unat len \<le> unat (bf_capacity b)")
    case True
    with buf_slot_inv [OF assms(1), of len] assms BufSlot show ?thesis by (auto simp: buf_tiles_append unat_ucast_u32)
  next
    case False
    then have "buf_alloc_rdma_slot len b = None"
      by (auto simp: buf_alloc_rdma_slot_def buf_reserve_fit [OF assms(1)] kMaxSlotsPerBuffer_def not_le)
    with assms BufSlot show ?thesis by simp
  qed
next
  case (BufComplete s)
  with assms buf_inv_slots [OF assms(1), of s] show ?thesis
    by (auto simp: buf_mark_rdma_complete_def kMaxSlotsPerBuffer_def word_less_nat_alt)
next
  case (BufRelease s)
  show ?thesis
  proof (cases "s < 64 \<and> rs_is_allocated (bf_slots b ! unat s)")
    case True
    with buf_release_inv [OF assms(1), of s] assms BufRelease show ?thesis by auto
  next
    case False
    with assms BufRelease show ?thesis by (auto simp: buf_release_rdma_slot_def kMaxSlotsPerBuffer_def)
  qed
next
  case BufReset
  with assms show ?thesis
    by (auto simp: buf_reset_def buf_inv_def buf_allocated_def kMaxSlotsPerBuffer_def rdma_slot_zero_def)
qed

lemma buf_run_inv:
  "buf_inv b \<Longrightarrow> buf_tiles 0 rs (unat (bf_used b)) \<Longrightarrow> buf_run ops (rs, b) = (rs', b') \<Longrightarrow>
   buf_inv b' \<and> buf_tiles 0 rs' (unat (bf_used b')) \<and> bf_capacity b' = bf_capacity b"
proof (induction ops arbitrary: rs b)
  case Nil
  then show ?case by (simp add: buf_run_def)
next
  case (Cons opr ops)
  obtain rs1 b1 where s: "buf_step opr (rs, b) = (rs1, b1)" by fastforce
  from buf_step_inv [OF Cons.prems(1,2) s] Cons.IH [of b1 rs1] Cons.prems(3) s show ?case
    by (simp add: buf_run_def)
qed

lemma append_buffer_new_inv: "unat capacity < 2 ^ 32 \<Longrightarrow> buf_inv (append_buffer_new bytes capacity)"
  by (simp add: buf_inv_def append_buffer_new_def buf_allocated_def kMaxSlotsPerBuffer_def rdma_slot_zero_def)

section \<open>Properties\<close>

text \<open>C20: No append buffer is ever lost or owned twice. Whatever the sequence of reservations,
  submissions, hand-outs for IO, IO completions, RDMA slot operations, pending-reset checks and
  expansions, each buffer of the manager is in exactly one place: active, queued for IO, in flight,
  waiting for its RDMA slots, or free; and there are never more than 16.\<close>

theorem append_mgr_conserves_buffers:
  assumes "am_initialize mems buffer_size (am_new fill) = (True, m0)" "length mems \<le> kMaxBufferCount"
    and "am_run ops (m0, []) = (m, inflight)"
  shows "distinct (am_owned m inflight) \<and> set (am_owned m inflight) = {..<am_buffer_count m}
       \<and> am_buffer_count m \<le> kMaxBufferCount"
proof -
  have inv: "am_inv m inflight"
    using am_run_inv [OF _ assms(3)] am_initialize_inv [OF assms(1,2)] by blast
  then have "set (am_owned m inflight) = {..<am_buffer_count m}"
    unfolding am_inv_def by (metis atLeast_upt set_mset_mset)
  then show ?thesis using inv am_inv_distinct [OF inv] by (simp add: am_inv_def)
qed

lemma am_two_buffers:
  "\<exists>m. am_initialize [Some [], Some []] 4096 (am_new ()) = (True, m)"
  by (simp add: am_initialize_def am_new_def am_add_buffer_def am_take_active_def ring_new_def ring_enqueue_def
      ring_dequeue_def kMaxBufferCount_def Let_def)

theorem append_mgr_conserves_buffers_witness:
  "\<exists>m0 m fl. am_run [AmReserve 100 None, AmSubmit, AmGetPending 4] (m0 :: unit append_mgr, []) = (m, fl)
     \<and> distinct (am_owned m fl)"
proof -
  obtain m0 where m0: "am_initialize [Some [], Some []] 4096 (am_new ()) = (True, m0)" using am_two_buffers by blast
  obtain m fl where run: "am_run [AmReserve 100 None, AmSubmit, AmGetPending 4] (m0, []) = (m, fl)" by fastforce
  have "length [Some [], Some ([] :: byte list)] \<le> kMaxBufferCount" by (simp add: kMaxBufferCount_def)
  from append_mgr_conserves_buffers [OF m0 this run] run show ?thesis by blast
qed

text \<open>C28: Regions of an append buffer never overlap. After any sequence of reservations, RDMA slot
  allocations, completions, releases and resets, the regions handed out since the last reset lie
  one behind the other inside the used part of the buffer, which never exceeds its capacity, and
  the count of active slots is the number of slots marked allocated, so that \<^verbatim>\<open>can_reset\<close> holds
  exactly when no slot is held.\<close>

theorem append_buffer_regions_disjoint:
  assumes "unat capacity < 2 ^ 32" "buf_run ops ([], append_buffer_new bytes capacity) = (rs, b)"
  shows "(\<forall>(off, len) \<in> set rs. unat off + unat len \<le> unat (bf_used b)) \<and> unat (bf_used b) \<le> unat capacity
     \<and> sorted_wrt (\<lambda>(o1, l1) (o2, l2). unat o1 + unat l1 \<le> unat o2) rs
     \<and> (buf_can_reset b \<longleftrightarrow> (\<forall>s \<in> set (bf_slots b). \<not> rs_is_allocated s))"
proof -
  have "buf_tiles 0 [] (unat (bf_used (append_buffer_new bytes capacity)))" by (simp add: append_buffer_new_def)
  from buf_run_inv [OF append_buffer_new_inv [OF assms(1)] this assms(2)]
  have inv: "buf_inv b" "buf_tiles 0 rs (unat (bf_used b))" and cap: "bf_capacity b = capacity"
    by (simp_all add: append_buffer_new_def)
  have "bf_active_slots b = 0 \<longleftrightarrow> buf_allocated b = 0"
    using inv(1) by (metis buf_inv_def unat_eq_zero)
  also have "\<dots> \<longleftrightarrow> (\<forall>s \<in> set (bf_slots b). \<not> rs_is_allocated s)"
    by (simp add: buf_allocated_def filter_empty_conv)
  finally show ?thesis
    using buf_tiles_regions [OF inv(2)] inv(1) cap by (auto simp: buf_inv_def buf_can_reset_def)
qed

theorem append_buffer_regions_disjoint_witness:
  "\<exists>rs b. buf_run [BufReserve 100, BufSlot 28, BufRelease 0] ([], append_buffer_new [] 4096) = (rs, b)
     \<and> rs = [(0, 100), (100, 28)] \<and> sorted_wrt (\<lambda>(o1, l1) (o2, l2). unat o1 + unat l1 \<le> unat o2) rs \<and> buf_can_reset b"
proof -
  have cap: "unat (4096 :: u64) < 2 ^ 32" by simp
  obtain rs b where run: "buf_run [BufReserve 100, BufSlot 28, BufRelease 0] ([], append_buffer_new [] 4096) = (rs, b)"
    by fastforce
  then have "rs = [(0, 100), (100, 28)] \<and> buf_can_reset b"
    by (auto simp: buf_run_def buf_reserve_def buf_alloc_rdma_slot_def append_buffer_new_def
        kMaxSlotsPerBuffer_def Let_def buf_release_rdma_slot_def buf_can_reset_def)
  with append_buffer_regions_disjoint [OF cap run] run show ?thesis by blast
qed

text \<open>Back-pressure has hysteresis: it starts only when at least 12 buffers wait for IO and no further
  buffer can be allocated, and once active it ends only when at most 6 wait.\<close>

theorem backpressure_hysteresis:
  "(\<not> am_backpressure m \<longrightarrow> fst (am_check_backpressure mem m) \<longrightarrow>
      12 \<le> am_pending_count m \<and> (kMaxBufferCount \<le> am_buffer_count m \<or> mem = None))
   \<and> (am_backpressure m \<longrightarrow> (fst (am_check_backpressure mem m) \<longleftrightarrow> 6 < am_pending_count m))"
  by (auto simp: am_check_backpressure_def Let_def kBackpressureHighWater_def kBackpressureLowWater_def
      am_try_expand_def am_take_active_def am_add_buffer_def not_le split: if_splits option.splits prod.splits)

text \<open>The caller of \<^verbatim>\<open>reserve_with_backpressure\<close> cannot tell a full buffer from back-pressure: every
  failure reports \<^verbatim>\<open>kBackpressure\<close>, even when back-pressure is not active and the active buffer is
  merely full.\<close>

theorem reserve_reports_backpressure_only:
  "(\<forall>len mem m. fst (am_reserve_with_backpressure len mem m) \<in> insert (Inr KBackpressure) (range Inl))
   \<and> (\<exists>m0 m. am_initialize [Some [], Some []] 4096 (am_new ()) = (True, m0)
        \<and> am_reserve_with_backpressure 8192 None m0 = (Inr KBackpressure, m) \<and> \<not> am_backpressure m)"
proof
  show "\<forall>len mem m. fst (am_reserve_with_backpressure len mem m) \<in> insert (Inr KBackpressure) (range Inl)"
    by (auto simp: am_reserve_with_backpressure_def split: prod.splits bool.splits option.splits)
  show "\<exists>m0 m. am_initialize [Some [], Some []] 4096 (am_new ()) = (True, m0)
        \<and> am_reserve_with_backpressure 8192 None m0 = (Inr KBackpressure, m) \<and> \<not> am_backpressure m"
    by (simp add: am_initialize_def am_new_def am_add_buffer_def am_take_active_def ring_new_def ring_enqueue_def
      ring_dequeue_def kMaxBufferCount_def Let_def am_reserve_with_backpressure_def am_check_backpressure_def
      am_pending_count_def ring_count_def kBackpressureHighWater_def am_reserve_def append_buffer_new_def
      kFlushThreshold_def kAppendBufferSize_def buf_reserve_def)
qed

text \<open>A buffer recycled by \<^verbatim>\<open>check_pending_resets\<close> does not become active again, unlike one recycled by
  \<^verbatim>\<open>return_buffer\<close>. With one buffer whose RDMA slot is released after its IO completed, the manager
  ends with a free buffer in the complete ring and no active buffer, and every reservation fails.\<close>

theorem pending_reset_leaves_no_active_buffer:
  "\<exists>m0. am_initialize [Some []] 4096 (am_new ()) = (True, m0) \<and>
     (case am_run [AmAllocSlot 0 100, AmSubmit, AmGetPending 1, AmReturn 0, AmReleaseSlot 0 0, AmCheckResets] (m0, []) of
        (m, fl) \<Rightarrow> fl = [] \<and> am_pending_reset m = [] \<and> am_active m = None \<and> ring_list (am_complete_ring m) = [0]
          \<and> fst (am_reserve_with_backpressure 100 None m) = Inr KBackpressure)"
  by (simp add: am_initialize_def am_new_def am_add_buffer_def am_take_active_def ring_new_def ring_enqueue_def
      ring_dequeue_def kMaxBufferCount_def Let_def am_run_def buf_after_alloc_def buf_alloc_rdma_slot_def
      append_buffer_new_def kMaxSlotsPerBuffer_def buf_reserve_def am_update_buffer_def am_submit_current_buffer_def
      buf_is_empty_def am_get_pending_buffers_def am_return_buffer_def buf_can_reset_def buf_release_rdma_slot_def
      am_check_pending_resets_def am_recycle_def buf_reset_def ring_list_def ring_count_def
      am_reserve_with_backpressure_def am_check_backpressure_def am_pending_count_def kBackpressureHighWater_def
      am_reserve_def)

end
