(* ===== verification/KvAllocLog.thy ===== *)
theory KvAllocLog
  imports KvPrelude KvCrc32 KvEntry
begin

text \<open>
  The allocation log, \<^verbatim>\<open>src/alloc_log.cpp\<close>: a page of 64 records in the superblock blob that
  names the blobs allocated since the last checkpoint, with its head, tail and sequence kept in the
  superblock; and what \<^verbatim>\<open>src/engine.cpp\<close> does with it, the data file header that completes an
  allocation and the recovery that keeps or deletes the blobs of the log.
\<close>

section \<open>State\<close>

text \<open>\<open>lg_has_spdk\<close> is the test \<^verbatim>\<open>superblock_blob_ && channel_ && blobstore_\<close>.\<close>

record alloc_log =
  lg_head :: u32
  lg_tail :: u32
  lg_sequence :: u32
  lg_page :: "byte list"
  lg_initialized :: bool
  lg_has_spdk :: bool

text \<open>\<open>mapped\<close>: the DMA page could be allocated.\<close>

definition lg_initialize :: "bool \<Rightarrow> bool \<Rightarrow> u32 \<Rightarrow> u32 \<Rightarrow> u32 \<Rightarrow> alloc_log" where
  "lg_initialize has_spdk mapped head tail sequence =
     \<lparr>lg_head = head, lg_tail = tail, lg_sequence = sequence, lg_page = replicate 4096 0,
      lg_initialized = mapped, lg_has_spdk = has_spdk\<rparr>"

definition lg_used_count :: "alloc_log \<Rightarrow> u32" where
  "lg_used_count lg = lg_tail lg - lg_head lg"

definition lg_is_near_full :: "alloc_log \<Rightarrow> bool" where
  "lg_is_near_full lg = (lg_used_count lg \<ge> kAllocLogNearFullThreshold)"

definition lg_is_full :: "alloc_log \<Rightarrow> bool" where
  "lg_is_full lg = (lg_used_count lg \<ge> kAllocLogCapacity)"

definition lg_reclaim :: "alloc_log \<Rightarrow> alloc_log" where
  "lg_reclaim lg = lg\<lparr>lg_head := lg_tail lg\<rparr>"

section \<open>Writing\<close>

definition lg_slot :: "u32 \<Rightarrow> nat" where
  "lg_slot i = unat (i mod kAllocLogCapacity)"

definition lg_build_entry :: "u32 \<Rightarrow> u64 \<Rightarrow> u16 \<Rightarrow> u64 \<Rightarrow> u64 \<Rightarrow> alloc_log_entry" where
  "lg_build_entry sequence blob_id file_id file_size now =
     (let e = \<lparr>al_magic = kAllocLogMagic, al_sequence = sequence, al_blob_id = blob_id, al_file_id = file_id,
               al_op = kAllocLogOpAlloc, al_reserved1 = 0, al_reserved2 = 0, al_create_time = now,
               al_file_size = file_size, al_checksum = 0\<rparr>
      in e\<lparr>al_checksum := crc32_calculate (alloc_log_entry_body e)\<rparr>)"

text \<open>What a call does: the callback is run with an error, or with success and no IO, or the page is
  submitted for writing and the callback runs with the status of that IO.\<close>

datatype lg_outcome = LgRejected | LgInMemory | LgWritePage "byte list"

definition lg_write_entry :: "u64 \<Rightarrow> u16 \<Rightarrow> u64 \<Rightarrow> u64 \<Rightarrow> alloc_log \<Rightarrow> lg_outcome \<times> alloc_log" where
  "lg_write_entry blob_id file_id file_size now lg =
     (if \<not> lg_initialized lg \<or> lg_is_full lg then (LgRejected, lg)
      else (let s = lg_sequence lg + 1;
                e = lg_build_entry s blob_id file_id file_size now;
                page = put_bytes (64 * lg_slot (lg_tail lg)) (alloc_log_entry_bytes e) (lg_page lg);
                lg' = lg\<lparr>lg_sequence := s, lg_page := page, lg_tail := lg_tail lg + 1\<rparr>
            in if \<not> lg_has_spdk lg then (LgInMemory, lg') else (LgWritePage page, lg')))"

section \<open>Loading\<close>

definition lg_entry_at :: "byte list \<Rightarrow> nat \<Rightarrow> alloc_log_entry" where
  "lg_entry_at page slot = alloc_log_entry_at page (64 * slot)"

definition lg_entry_crc_ok :: "byte list \<Rightarrow> nat \<Rightarrow> bool" where
  "lg_entry_crc_ok page slot \<longleftrightarrow>
     crc32_calculate (slice (64 * slot) 60 page) = al_checksum (lg_entry_at page slot)"

text \<open>The scan loop with its remaining iterations; \<open>i\<close> is the loop variable.\<close>

fun lg_scan :: "byte list \<Rightarrow> u32 \<Rightarrow> nat \<Rightarrow> u32 \<Rightarrow> u32 \<Rightarrow> alloc_log_entry list" where
  "lg_scan page head 0 i last_seq = []"
| "lg_scan page head (Suc n) i last_seq =
     (let slot = lg_slot (head + i); e = lg_entry_at page slot in
      if \<not> al_is_valid_magic e then []
      else if \<not> lg_entry_crc_ok page slot then []
      else if al_sequence e \<le> last_seq then []
      else e # lg_scan page head n (i + 1) (al_sequence e))"

definition lg_load_page :: "u32 \<Rightarrow> alloc_log \<Rightarrow> alloc_log_entry list \<times> alloc_log" where
  "lg_load_page checkpoint_sequence lg =
     (let result = lg_scan (lg_page lg) (lg_head lg) (unat kAllocLogCapacity) 0 checkpoint_sequence in
      (result, lg\<lparr>lg_tail := lg_head lg + word_of_nat (length result),
                  lg_sequence := (if result = [] then lg_sequence lg else al_sequence (last result))\<rparr>))"

datatype lg_load = LgLoadFailed | LgLoaded "alloc_log_entry list" | LgReadPage

definition lg_load_entries :: "u32 \<Rightarrow> alloc_log \<Rightarrow> lg_load \<times> alloc_log" where
  "lg_load_entries checkpoint_sequence lg =
     (if \<not> lg_initialized lg then (LgLoadFailed, lg)
      else if \<not> lg_has_spdk lg
      then (case lg_load_page checkpoint_sequence lg of (es, lg') \<Rightarrow> (LgLoaded es, lg'))
      else (LgReadPage, lg))"

text \<open>The completion of the page read; \<open>data\<close> is what the read put into the page buffer.\<close>

definition lg_on_page_read :: "u32 \<Rightarrow> bool \<Rightarrow> byte list \<Rightarrow> alloc_log \<Rightarrow> (alloc_log_entry list) option \<times> alloc_log" where
  "lg_on_page_read checkpoint_seq ok data lg =
     (if \<not> ok then (None, lg\<lparr>lg_page := data\<rparr>)
      else (case lg_load_page checkpoint_seq (lg\<lparr>lg_page := data\<rparr>) of (es, lg') \<Rightarrow> (Some es, lg')))"

section \<open>The data file header of an allocation\<close>

text \<open>\<^verbatim>\<open>handle_blob_opened_for_file\<close> and \<^verbatim>\<open>CompactionTask::write_file_header\<close> fill a zeroed page and
  checksum its first 4092 bytes before the checksum field is set.\<close>

definition data_header_page :: "u16 \<Rightarrow> file_state \<Rightarrow> u64 \<Rightarrow> byte list" where
  "data_header_page file_id st create_time =
     (let h = \<lparr>dh_magic = kDataFileHeaderMagic, dh_version = 1, dh_create_time = create_time,
               dh_sealed_time = 0, dh_entry_count = 0, dh_valid_bytes = 0, dh_total_bytes = 0,
               dh_file_id = file_id, dh_state = file_state_code st, dh_reserved = 0, dh_checksum = 0\<rparr>
      in data_file_header_bytes (h\<lparr>dh_checksum := crc32_calculate (take 4092 (data_file_header_bytes h))\<rparr>))"

text \<open>The validation in \<^verbatim>\<open>process_alloc_log_recovery\<close>.\<close>

definition recovery_header_valid :: "byte list \<Rightarrow> u16 \<Rightarrow> bool" where
  "recovery_header_valid page file_id =
     (let h = data_file_header_at page 0 in
      dh_magic h = kDataFileHeaderMagic \<and> dh_checksum h = crc32_calculate (take 4092 page)
      \<and> dh_file_id h = file_id)"

section \<open>Recovery of the allocations in the log\<close>

text \<open>\<open>open_blob\<close> tells whether a blob can be opened and what its first page holds, \<open>Some None\<close> when
  the page cannot be read.\<close>

record alloc_recovery =
  ar_mappings :: "file_mapping list"
  ar_next_file_id :: u16
  ar_deleted :: "u64 list"

definition recover_allocation ::
    "(u64 \<Rightarrow> byte list option option) \<Rightarrow> alloc_log_entry \<Rightarrow> alloc_recovery \<Rightarrow> alloc_recovery" where
  "recover_allocation open_blob e r =
     (case open_blob (al_blob_id e) of
        None \<Rightarrow> r
      | Some page \<Rightarrow>
          if (case page of Some bytes \<Rightarrow> recovery_header_valid bytes (al_file_id e) | None \<Rightarrow> False)
          then (if length (ar_mappings r) < kMaxFileCount
                then r\<lparr>ar_mappings := ar_mappings r @ [\<lparr>fm_file_id = al_file_id e, fm_blob_id = al_blob_id e,
                                         fm_size = 0, fm_write_offset = 4096, fm_state = FActive\<rparr>],
                       ar_next_file_id := (if al_file_id e \<ge> ar_next_file_id r then al_file_id e + 1
                                           else ar_next_file_id r)\<rparr>
                else r)
          else r\<lparr>ar_deleted := ar_deleted r @ [al_blob_id e]\<rparr>)"

definition process_alloc_log_recovery ::
    "(u64 \<Rightarrow> byte list option option) \<Rightarrow> alloc_log_entry list \<Rightarrow> alloc_recovery \<Rightarrow> alloc_recovery" where
  "process_alloc_log_recovery open_blob es r = fold (recover_allocation open_blob) es r"

text \<open>\<^verbatim>\<open>release_dangling_blobs\<close>: the blobs of the store that nothing refers to.\<close>

definition dangling_blobs :: "u64 option \<Rightarrow> superblock \<Rightarrow> u64 list \<Rightarrow> u64 list" where
  "dangling_blobs super sb blobs =
     (let known = (case super of Some b \<Rightarrow> [b] | None \<Rightarrow> [])
        @ (if sb_mem_index_blob_a sb \<noteq> 0 then [sb_mem_index_blob_a sb] else [])
        @ (if sb_mem_index_blob_b sb \<noteq> 0 then [sb_mem_index_blob_b sb] else [])
        @ map fm_blob_id (sb_file_mappings sb)
      in filter (\<lambda>b. b \<notin> set known) blobs)"

section \<open>Reading back what was written\<close>

lemma slice_slice: "k + n \<le> m \<Longrightarrow> slice k n (slice off m xs) = slice (off + k) n xs"
  by (simp add: slice_def drop_take take_take min_def add.commute)

lemma get_slice:
  "k + 1 \<le> m \<Longrightarrow> get_u8 (slice off m xs) k = get_u8 xs (off + k)"
  "k + 2 \<le> m \<Longrightarrow> get_u16 (slice off m xs) k = get_u16 xs (off + k)"
  "k + 4 \<le> m \<Longrightarrow> get_u32 (slice off m xs) k = get_u32 xs (off + k)"
  "k + 8 \<le> m \<Longrightarrow> get_u64 (slice off m xs) k = get_u64 xs (off + k)"
  by (simp_all only: get_u8_def get_u16_def get_u32_def get_u64_def slice_slice)

text \<open>An entry is determined by the 64 bytes of its slot.\<close>

lemma lg_entry_slice: "lg_entry_at page slot = alloc_log_entry_at (slice (64 * slot) 64 page) 0"
  by (simp add: lg_entry_at_def alloc_log_entry_at_def get_slice)

lemma lg_crc_slice: "slice (64 * slot) 60 page = slice 0 60 (slice (64 * slot) 64 page)"
  by (simp add: slice_slice)

definition lg_entry_ok :: "byte list \<Rightarrow> nat \<Rightarrow> bool" where
  "lg_entry_ok page slot \<longleftrightarrow> al_is_valid_magic (lg_entry_at page slot) \<and> lg_entry_crc_ok page slot"

lemma lg_put_same:
  assumes "64 * slot + 64 \<le> length page"
  shows "lg_entry_at (put_bytes (64 * slot) (alloc_log_entry_bytes e) page) slot = e"
    and "slice (64 * slot) 60 (put_bytes (64 * slot) (alloc_log_entry_bytes e) page) = alloc_log_entry_body e"
proof -
  have s: "slice (64 * slot) 64 (put_bytes (64 * slot) (alloc_log_entry_bytes e) page) = alloc_log_entry_bytes e"
    using assms by (intro slice_put_bytes_same) simp_all
  show "lg_entry_at (put_bytes (64 * slot) (alloc_log_entry_bytes e) page) slot = e"
    using alloc_log_entry_roundtrip [of e "[]"] by (simp add: lg_entry_slice s)
  show "slice (64 * slot) 60 (put_bytes (64 * slot) (alloc_log_entry_bytes e) page) = alloc_log_entry_body e"
    unfolding lg_crc_slice s by (simp add: alloc_log_entry_bytes_def slice_here)
qed

lemma lg_put_other:
  assumes "64 * slot + 64 \<le> length page" "other \<noteq> slot"
  shows "slice (64 * other) 64 (put_bytes (64 * slot) (alloc_log_entry_bytes e) page) = slice (64 * other) 64 page"
proof (cases "other < slot")
  case True
  then show ?thesis using assms by (intro slice_put_bytes_before) simp_all
next
  case False
  then show ?thesis using assms by (intro slice_put_bytes_after) simp_all
qed

text \<open>Damage inside the first 60 bytes of a slot.\<close>

lemma slice_window_other:
  assumes "length w' = length w" "a + n \<le> length pre \<or> length pre + length w \<le> a"
  shows "slice a n (pre @ w' @ post) = slice a n (pre @ w @ post)"
  using assms by (auto simp: slice_def)

lemma lg_window_other:
  assumes "64 * p \<le> length pre" "length pre + length w \<le> 64 * p + 60" "length w' = length w" "k \<noteq> p"
  shows "lg_entry_ok (pre @ w' @ post) k = lg_entry_ok (pre @ w @ post) k"
    and "lg_entry_at (pre @ w' @ post) k = lg_entry_at (pre @ w @ post) k"
proof -
  have "64 * k + 64 \<le> length pre \<or> length pre + length w \<le> 64 * k"
    using assms by (cases "k < p") auto
  from slice_window_other [OF assms(3) this]
  show "lg_entry_ok (pre @ w' @ post) k = lg_entry_ok (pre @ w @ post) k"
    and "lg_entry_at (pre @ w' @ post) k = lg_entry_at (pre @ w @ post) k"
    by (simp_all add: lg_entry_ok_def lg_entry_crc_ok_def lg_entry_slice lg_crc_slice)
qed

lemma lg_window_bad:
  assumes "lg_entry_ok (pre @ w @ post) p" "length w \<le> 4" "length w' = length w" "w' \<noteq> w"
    and "64 * p \<le> length pre" "length pre + length w \<le> 64 * p + 60"
  shows "\<not> lg_entry_ok (pre @ w' @ post) p"
proof
  assume "lg_entry_ok (pre @ w' @ post) p"
  have body: "slice (64 * p) 60 (pre @ v @ post) = drop (64 * p) pre @ v @ take (64 * p + 60 - (length pre + length w)) post"
    if "length v = length w" for v
    using assms(5,6) that by (simp add: slice_def add.commute)
  have "slice (64 * p + 60) 4 (pre @ w' @ post) = slice (64 * p + 60) 4 (pre @ w @ post)"
    using assms(3,6) by (intro slice_window_other) simp_all
  then have "al_checksum (lg_entry_at (pre @ w' @ post) p) = al_checksum (lg_entry_at (pre @ w @ post) p)"
    by (simp add: lg_entry_at_def alloc_log_entry_at_def get_u32_def)
  then have "crc32_calculate (slice (64 * p) 60 (pre @ w' @ post)) = crc32_calculate (slice (64 * p) 60 (pre @ w @ post))"
    using \<open>lg_entry_ok (pre @ w' @ post) p\<close> assms(1) by (simp add: lg_entry_ok_def lg_entry_crc_ok_def)
  then have "w' = w"
    unfolding body [OF assms(3)] body [OF refl] using assms(2,3) by (intro crc32_window_eq) simp_all
  with assms(4) show False ..
qed

lemma lg_slot_less: "lg_slot i < 64"
  by (simp add: lg_slot_def kAllocLogCapacity_def unat_mod_distrib)

lemma lg_slot_add: "lg_slot (h + word_of_nat n) = (unat h + n) mod 64"
proof -
  have "unat (h + word_of_nat n) mod 64 = (unat h + n) mod 64"
    by (simp add: unat_word_ariths unat_of_nat mod_mod_cancel mod_simps)
  then show ?thesis by (simp add: lg_slot_def kAllocLogCapacity_def unat_mod_distrib)
qed

section \<open>The log refines a list\<close>

text \<open>\<open>es\<close> are the entries written since the last reclaim, \<open>base\<close> the sequence number persisted then.\<close>

definition lg_holds :: "alloc_log \<Rightarrow> nat \<Rightarrow> alloc_log_entry list \<Rightarrow> bool" where
  "lg_holds lg base es \<longleftrightarrow> lg_initialized lg \<and> length (lg_page lg) = 4096 \<and> length es \<le> 64
     \<and> lg_tail lg = lg_head lg + word_of_nat (length es) \<and> unat (lg_sequence lg) = base + length es
     \<and> (\<forall>i < length es. lg_entry_ok (lg_page lg) ((unat (lg_head lg) + i) mod 64)
           \<and> lg_entry_at (lg_page lg) ((unat (lg_head lg) + i) mod 64) = es ! i
           \<and> unat (al_sequence (es ! i)) = base + i + 1)
     \<and> (\<forall>slot < 64. slot \<notin> (\<lambda>i. (unat (lg_head lg) + i) mod 64) ` {..<length es} \<longrightarrow>
           lg_entry_ok (lg_page lg) slot \<longrightarrow> unat (al_sequence (lg_entry_at (lg_page lg) slot)) \<le> base)"

lemma lg_holds_used:
  assumes "lg_holds lg base es"
  shows "unat (lg_used_count lg) = length es" "lg_is_full lg = (length es = 64)"
proof -
  have "lg_used_count lg = word_of_nat (length es)" using assms by (simp add: lg_holds_def lg_used_count_def)
  moreover have "length es < 2 ^ LENGTH(32)" using assms by (simp add: lg_holds_def)
  ultimately show u: "unat (lg_used_count lg) = length es" by (simp only: unat_of_nat_small)
  show "lg_is_full lg = (length es = 64)"
    using assms u by (auto simp: lg_is_full_def kAllocLogCapacity_def word_le_nat_alt lg_holds_def)
qed

lemma lg_build_entry_ok:
  "al_is_valid_magic (lg_build_entry sq b f z t)"
  "crc32_calculate (alloc_log_entry_body (lg_build_entry sq b f z t)) = al_checksum (lg_build_entry sq b f z t)"
  "al_sequence (lg_build_entry sq b f z t) = sq" "al_blob_id (lg_build_entry sq b f z t) = b"
  "al_file_id (lg_build_entry sq b f z t) = f"
  by (simp_all add: lg_build_entry_def al_is_valid_magic_def Let_def alloc_log_entry_body_def)

lemma lg_holds_write:
  assumes h: "lg_holds lg base es" and room: "length es < 64" and seq: "base + length es + 1 < 2 ^ 32"
    and run: "lg_write_entry b f z t lg = (out, lg')"
  shows "lg_holds lg' base (es @ [lg_build_entry (lg_sequence lg + 1) b f z t]) \<and> out \<noteq> LgRejected
     \<and> lg_head lg' = lg_head lg \<and> (lg_has_spdk lg \<longrightarrow> out = LgWritePage (lg_page lg')) \<and> lg_has_spdk lg' = lg_has_spdk lg"
proof -
  let ?e = "lg_build_entry (lg_sequence lg + 1) b f z t" and ?h = "unat (lg_head lg)"
  let ?s = "(?h + length es) mod 64"
  let ?page = "put_bytes (64 * ?s) (alloc_log_entry_bytes ?e) (lg_page lg)"
  have slot: "lg_slot (lg_tail lg) = ?s" using h by (simp add: lg_holds_def lg_slot_add)
  have len: "length (lg_page lg) = 4096" and init: "lg_initialized lg" using h by (simp_all add: lg_holds_def)
  have full: "\<not> lg_is_full lg" using lg_holds_used(2) [OF h] room by simp
  have s64: "?s < 64" by simp
  then have fits: "64 * ?s + 64 \<le> length (lg_page lg)" unfolding len by linarith
  have lg': "lg' = lg\<lparr>lg_sequence := lg_sequence lg + 1, lg_page := ?page, lg_tail := lg_tail lg + 1\<rparr>"
    and out: "out = (if lg_has_spdk lg then LgWritePage ?page else LgInMemory)"
    using run init full by (auto simp: lg_write_entry_def Let_def slot split: if_splits)
  have sq: "unat (lg_sequence lg + 1) = base + length es + 1"
    using h seq by (subst unat_plus_small) (simp_all add: lg_holds_def)
  note same = lg_put_same [OF fits, of ?e]
  have other: "lg_entry_at ?page k = lg_entry_at (lg_page lg) k" "lg_entry_ok ?page k = lg_entry_ok (lg_page lg) k"
    if "k \<noteq> ?s" for k
    using lg_put_other [OF fits that, of ?e]
    by (simp_all add: lg_entry_slice lg_entry_ok_def lg_entry_crc_ok_def lg_crc_slice)
  have ok: "lg_entry_ok ?page ?s"
    by (simp add: lg_entry_ok_def lg_entry_crc_ok_def same lg_build_entry_ok)
  have ne: "(?h + i) mod 64 \<noteq> ?s" if "i < length es" for i
    using mod_add_inj [of ?h i 64 "length es"] that room by auto
  have img: "(\<lambda>i. (?h + i) mod 64) ` {..<length (es @ [?e])} = insert ?s ((\<lambda>i. (?h + i) mod 64) ` {..<length es})"
    by (auto simp: less_Suc_eq)
  have "lg_holds lg' base (es @ [?e])"
    unfolding lg_holds_def
  proof (intro conjI allI impI)
    fix i assume i: "i < length (es @ [?e])"
    have "i < length es \<or> i = length es" using i by auto
    then show "lg_entry_ok (lg_page lg') ((unat (lg_head lg') + i) mod 64)"
      "lg_entry_at (lg_page lg') ((unat (lg_head lg') + i) mod 64) = (es @ [?e]) ! i"
      "unat (al_sequence ((es @ [?e]) ! i)) = base + i + 1"
      using h ne [of i] ok sq by (auto simp: lg' lg_holds_def other same nth_append lg_build_entry_ok)
  next
    fix k assume k: "k < 64" "k \<notin> (\<lambda>i. (unat (lg_head lg') + i) mod 64) ` {..<length (es @ [?e])}"
      "lg_entry_ok (lg_page lg') k"
    have "lg_head lg' = lg_head lg" by (simp add: lg')
    then have "k \<noteq> ?s" "k \<notin> (\<lambda>i. (unat (lg_head lg) + i) mod 64) ` {..<length es}"
      using k(2) unfolding \<open>lg_head lg' = lg_head lg\<close> img by blast+
    then show "unat (al_sequence (lg_entry_at (lg_page lg') k)) \<le> base"
      using h k(1,3) by (auto simp: lg' lg_holds_def other)
  qed (use h room sq fits len in \<open>auto simp: lg' lg_holds_def\<close>)
  then show ?thesis using out by (simp add: lg')
qed

lemma lg_holds_reclaim:
  assumes "lg_holds lg base es"
  shows "lg_holds (lg_reclaim lg) (base + length es) []"
proof -
  have "unat (al_sequence (lg_entry_at (lg_page lg) k)) \<le> base + length es"
    if "k < 64" "lg_entry_ok (lg_page lg) k" for k
  proof (cases "k \<in> (\<lambda>i. (unat (lg_head lg) + i) mod 64) ` {..<length es}")
    case True
    then obtain i where "i < length es" "k = (unat (lg_head lg) + i) mod 64" by auto
    then show ?thesis using assms by (auto simp: lg_holds_def)
  next
    case False
    then have "unat (al_sequence (lg_entry_at (lg_page lg) k)) \<le> base"
      using assms that by (auto simp: lg_holds_def)
    then show ?thesis by simp
  qed
  then show ?thesis using assms by (simp add: lg_holds_def lg_reclaim_def)
qed

lemma lg_holds_scan:
  assumes h: "lg_holds lg base es"
  shows "i \<le> length es \<Longrightarrow> unat ls = base + i \<Longrightarrow> n = 64 - i \<Longrightarrow>
    lg_scan (lg_page lg) (lg_head lg) n (word_of_nat i) ls = drop i es"
proof (induction n arbitrary: i ls)
  case 0
  then show ?case using h by (simp add: lg_holds_def)
next
  case (Suc n)
  let ?s = "(unat (lg_head lg) + i) mod 64"
  have slot: "lg_slot (lg_head lg + word_of_nat i) = ?s" by (rule lg_slot_add)
  show ?case
  proof (cases "i < length es")
    case True
    then have e: "lg_entry_ok (lg_page lg) ?s" "lg_entry_at (lg_page lg) ?s = es ! i"
      "unat (al_sequence (es ! i)) = base + i + 1" using h by (auto simp: lg_holds_def)
    have "n = 64 - (i + 1)" using Suc.prems(3) by simp
    then have "lg_scan (lg_page lg) (lg_head lg) n (word_of_nat (i + 1)) (al_sequence (es ! i)) = drop (i + 1) es"
      using True e(3) by (intro Suc.IH) simp_all
    then have "lg_scan (lg_page lg) (lg_head lg) n (word_of_nat i + 1) (al_sequence (es ! i)) = drop (i + 1) es"
      by (simp add: add.commute)
    moreover have "\<not> al_sequence (es ! i) \<le> ls" using e(3) Suc.prems(2) by (simp add: word_le_nat_alt)
    ultimately show ?thesis
      using e(1,2) True by (simp add: Let_def slot lg_entry_ok_def Cons_nth_drop_Suc)
  next
    case False
    then have i: "i = length es" using Suc.prems(1) by simp
    then have lt: "i < 64" using Suc.prems(3) by simp
    have "?s \<notin> (\<lambda>j. (unat (lg_head lg) + j) mod 64) ` {..<length es}"
      using mod_add_inj [of "unat (lg_head lg)" i 64] lt i by fastforce
    then have "lg_entry_ok (lg_page lg) ?s \<Longrightarrow> unat (al_sequence (lg_entry_at (lg_page lg) ?s)) \<le> base"
      using h by (auto simp: lg_holds_def)
    then have "lg_entry_ok (lg_page lg) ?s \<Longrightarrow> al_sequence (lg_entry_at (lg_page lg) ?s) \<le> ls"
      using Suc.prems(2) by (simp add: word_le_nat_alt)
    then show ?thesis using i slot [unfolded i] by (auto simp: Let_def lg_entry_ok_def)
  qed
qed

text \<open>A page that agrees with the log up to entry \<open>i\<close> and is not valid there.\<close>

lemma lg_scan_cut:
  assumes h: "lg_holds lg base es" and i: "i < length es"
    and same: "\<And>j. j < i \<Longrightarrow> lg_entry_ok page ((unat (lg_head lg) + j) mod 64) = lg_entry_ok (lg_page lg) ((unat (lg_head lg) + j) mod 64)
      \<and> lg_entry_at page ((unat (lg_head lg) + j) mod 64) = lg_entry_at (lg_page lg) ((unat (lg_head lg) + j) mod 64)"
    and bad: "\<not> lg_entry_ok page ((unat (lg_head lg) + i) mod 64)"
  shows "j \<le> i \<Longrightarrow> unat ls = base + j \<Longrightarrow> n = 64 - j \<Longrightarrow>
    lg_scan page (lg_head lg) n (word_of_nat j) ls = drop j (take i es)"
proof (induction n arbitrary: j ls)
  case 0
  then show ?case using h i by (simp add: lg_holds_def)
next
  case (Suc n)
  let ?s = "(unat (lg_head lg) + j) mod 64"
  have slot: "lg_slot (lg_head lg + word_of_nat j) = ?s" by (rule lg_slot_add)
  show ?case
  proof (cases "j < i")
    case True
    then have e: "lg_entry_ok page ?s" "lg_entry_at page ?s = es ! j" "unat (al_sequence (es ! j)) = base + j + 1"
      using h i same by (auto simp: lg_holds_def)
    have "n = 64 - (j + 1)" using Suc.prems(3) by simp
    then have "lg_scan page (lg_head lg) n (word_of_nat (j + 1)) (al_sequence (es ! j)) = drop (j + 1) (take i es)"
      using True e(3) by (intro Suc.IH) simp_all
    then have "lg_scan page (lg_head lg) n (word_of_nat j + 1) (al_sequence (es ! j)) = drop (j + 1) (take i es)"
      by (simp add: add.commute)
    moreover have "\<not> al_sequence (es ! j) \<le> ls" using e(3) Suc.prems(2) by (simp add: word_le_nat_alt)
    moreover have "drop j (take i es) = es ! j # drop (j + 1) (take i es)"
      using True i Cons_nth_drop_Suc [of j "take i es"] by simp
    ultimately show ?thesis using e(1,2) by (simp add: Let_def slot lg_entry_ok_def)
  next
    case False
    then have j: "j = i" using Suc.prems(1) by simp
    then show ?thesis using bad slot [unfolded j] by (auto simp: Let_def lg_entry_ok_def)
  qed
qed

lemma lg_holds_load:
  assumes h: "lg_holds lg base es"
  shows "lg_load_page (word_of_nat base) lg = (es, lg)"
proof -
  have b: "unat (word_of_nat base :: u32) = base + 0"
    using h unat_u32 [of "lg_sequence lg"] by (subst unat_of_nat_small) (simp_all add: lg_holds_def)
  have scan: "lg_scan (lg_page lg) (lg_head lg) (unat kAllocLogCapacity) 0 (word_of_nat base) = es"
    using lg_holds_scan [OF h _ b, of 64] by (simp add: kAllocLogCapacity_def)
  have "al_sequence (last es) = lg_sequence lg" if "es \<noteq> []"
  proof -
    from that have "length es - 1 < length es" by simp
    then have "unat (al_sequence (es ! (length es - 1))) = base + (length es - 1) + 1"
      using h unfolding lg_holds_def by blast
    also have "\<dots> = unat (lg_sequence lg)" using h that by (cases es) (simp_all add: lg_holds_def)
    finally have "al_sequence (es ! (length es - 1)) = lg_sequence lg" by (rule unsigned_word_eqI)
    then show ?thesis using that by (simp add: last_conv_nth)
  qed
  then show ?thesis using h by (simp add: lg_load_page_def scan Let_def lg_holds_def)
qed

section \<open>Runs of the log\<close>

datatype lg_op = LgWrite u64 u16 u64 u64 | LgReclaim

fun lg_step :: "lg_op \<Rightarrow> alloc_log \<Rightarrow> alloc_log" where
  "lg_step (LgWrite b f z t) lg = snd (lg_write_entry b f z t lg)"
| "lg_step LgReclaim lg = lg_reclaim lg"

text \<open>The specification: the sequence number at the last reclaim and the allocations since then.\<close>

fun lg_spec_step :: "lg_op \<Rightarrow> nat \<times> (u64 \<times> u16) list \<Rightarrow> nat \<times> (u64 \<times> u16) list" where
  "lg_spec_step (LgWrite b f z t) (base, as) = (base, if length as < 64 then as @ [(b, f)] else as)"
| "lg_spec_step LgReclaim (base, as) = (base + length as, [])"

definition lg_alloc :: "alloc_log_entry \<Rightarrow> u64 \<times> u16" where
  "lg_alloc e = (al_blob_id e, al_file_id e)"

lemma lg_run_holds:
  "lg_holds lg base es \<Longrightarrow> base + length es + length ops < 2 ^ 32 \<Longrightarrow>
   fold lg_spec_step ops (base, map lg_alloc es) = (base', as') \<Longrightarrow>
   \<exists>es'. lg_holds (fold lg_step ops lg) base' es' \<and> map lg_alloc es' = as'"
proof (induction ops arbitrary: lg base es)
  case Nil
  then show ?case by auto
next
  case (Cons opr ops)
  show ?case
  proof (cases opr)
    case LgReclaim
    then show ?thesis
      using Cons.IH [OF lg_holds_reclaim [OF Cons.prems(1)]] Cons.prems by simp
  next
    case (LgWrite b f z t)
    obtain out lg1 where w: "lg_write_entry b f z t lg = (out, lg1)" by fastforce
    show ?thesis
    proof (cases "length es < 64")
      case True
      let ?e = "lg_build_entry (lg_sequence lg + 1) b f z t"
      have "lg_holds lg1 base (es @ [?e])"
        using lg_holds_write [OF Cons.prems(1) True _ w] Cons.prems(2) by simp
      then show ?thesis
        using Cons.IH [of lg1 base "es @ [?e]"] Cons.prems LgWrite True w
        by (simp add: lg_alloc_def lg_build_entry_ok)
    next
      case False
      then have "lg1 = lg" using w lg_holds_used(2) [OF Cons.prems(1)] Cons.prems(1)
        by (auto simp: lg_write_entry_def lg_holds_def)
      then show ?thesis using Cons.IH [OF Cons.prems(1)] Cons.prems LgWrite False w by simp
    qed
  qed
qed

lemma lg_initialize_holds:
  "lg_holds (lg_initialize has_spdk True head head sequence) (unat sequence) []"
proof -
  have "\<not> lg_entry_ok (replicate 4096 0) slot" if "slot < 64" for slot
  proof -
    have "64 * slot + 4 \<le> 4096" using that by simp
    then have "slice (64 * slot) 4 (replicate 4096 0) = replicate 4 (0 :: byte)"
      by (simp add: slice_def min_def)
    then have "al_magic (lg_entry_at (replicate 4096 0) slot) = 0"
      by (simp add: lg_entry_at_def alloc_log_entry_at_def get_u32_def numeral_eq_Suc)
    then show ?thesis by (simp add: lg_entry_ok_def al_is_valid_magic_def kAllocLogMagic_def)
  qed
  then show ?thesis by (simp add: lg_holds_def lg_initialize_def)
qed

section \<open>Header validation\<close>

lemma recovery_header_valid_iff:
  "recovery_header_valid (data_header_page file_id st create_time) file_id
     \<longleftrightarrow> dh_checksum (data_file_header_at (data_header_page file_id st create_time) 0) = 0"
proof -
  define h where "h = \<lparr>dh_magic = kDataFileHeaderMagic, dh_version = 1, dh_create_time = create_time,
      dh_sealed_time = 0, dh_entry_count = 0, dh_valid_bytes = 0, dh_total_bytes = 0,
      dh_file_id = file_id, dh_state = file_state_code st, dh_reserved = 0, dh_checksum = 0\<rparr>"
  define c where "c = crc32_calculate (take 4092 (data_file_header_bytes h))"
  have page: "data_header_page file_id st create_time = data_file_header_bytes (h\<lparr>dh_checksum := c\<rparr>)"
    by (simp add: data_header_page_def h_def c_def Let_def)
  have dec: "data_file_header_at (data_header_page file_id st create_time) 0 = h\<lparr>dh_checksum := c\<rparr>"
    unfolding page using data_file_header_roundtrip [of "h\<lparr>dh_checksum := c\<rparr>" "[]"] by simp
  obtain pre where pre: "data_file_header_bytes (h\<lparr>dh_checksum := x\<rparr>) = pre @ enc_u32 x @ replicate 4040 0"
    and l: "length pre = 52" for x
    by (rule that [of "enc_u32 (dh_magic h) @ enc_u32 (dh_version h) @ enc_u64 (dh_create_time h)
     @ enc_u64 (dh_sealed_time h) @ enc_u64 (dh_entry_count h) @ enc_u64 (dh_valid_bytes h)
     @ enc_u64 (dh_total_bytes h) @ enc_u16 (dh_file_id h) @ enc_u8 (dh_state h) @ enc_u8 (dh_reserved h)"])
      (simp_all add: data_file_header_bytes_def)
  have cut: "take 4092 (data_file_header_bytes (h\<lparr>dh_checksum := x\<rparr>)) = pre @ enc_u32 x @ replicate 4036 0" for x
    unfolding pre using l by simp
  have "h\<lparr>dh_checksum := 0\<rparr> = h" by (simp add: h_def)
  then have c0: "c = crc32_calculate (pre @ enc_u32 0 @ replicate 4036 0)" using cut [of 0] by (simp add: c_def)
  have "recovery_header_valid (data_header_page file_id st create_time) file_id
      \<longleftrightarrow> c = crc32_calculate (pre @ enc_u32 c @ replicate 4036 0)"
    unfolding recovery_header_valid_def dec Let_def unfolding page cut by (simp add: h_def)
  also have "\<dots> \<longleftrightarrow> enc_u32 c = enc_u32 0"
    using crc32_window_eq [of "enc_u32 c" "enc_u32 0" pre "replicate 4036 0"] c0 by auto
  also have "\<dots> \<longleftrightarrow> c = 0" by (metis get_last(3))
  finally show ?thesis by (simp add: dec)
qed

text \<open>The checksums of two creation times that differ in their lowest byte are different.\<close>

lemma header_checksum_nonzero:
  "\<exists>t. dh_checksum (data_file_header_at (data_header_page file_id st t) 0) \<noteq> 0"
proof -
  define h where "h = (\<lambda>t. \<lparr>dh_magic = kDataFileHeaderMagic, dh_version = 1, dh_create_time = t,
      dh_sealed_time = 0, dh_entry_count = 0, dh_valid_bytes = 0, dh_total_bytes = 0,
      dh_file_id = file_id, dh_state = file_state_code st, dh_reserved = 0, dh_checksum = 0\<rparr>)"
  define c where "c = (\<lambda>t. crc32_calculate (take 4092 (data_file_header_bytes (h t))))"
  have c: "dh_checksum (data_file_header_at (data_header_page file_id st t) 0) = c t" for t
    using data_file_header_roundtrip [of "(h t)\<lparr>dh_checksum := c t\<rparr>" "[]"]
    by (simp add: data_header_page_def h_def c_def Let_def)
  let ?pre = "enc_u32 kDataFileHeaderMagic @ enc_u32 1"
  let ?post = "replicate 7 0 @ enc_u64 0 @ enc_u64 0 @ enc_u64 0 @ enc_u64 0 @ enc_u16 file_id
    @ enc_u8 (file_state_code st) @ enc_u8 0 @ enc_u32 0 @ replicate 4036 0"
  have le0: "nat_le n 0 = replicate n 0" for n by (induction n) simp_all
  have e0: "enc_u64 0 = [0] @ replicate 7 0" and e1: "enc_u64 1 = [1] @ replicate 7 0"
    using nat_le.simps(2) [of 7 0] nat_le.simps(2) [of 7 1] by (simp_all add: enc_u64_def le0)
  have body: "take 4092 (data_file_header_bytes (h t)) = ?pre @ enc_u64 t @ enc_u64 0 @ enc_u64 0 @ enc_u64 0
      @ enc_u64 0 @ enc_u16 file_id @ enc_u8 (file_state_code st) @ enc_u8 0 @ enc_u32 0 @ replicate 4036 0" for t
    unfolding data_file_header_bytes_def h_def by simp
  have "take 4092 (data_file_header_bytes (h 0)) = ?pre @ [0] @ ?post"
    unfolding body unfolding e0 append.assoc ..
  moreover have "take 4092 (data_file_header_bytes (h 1)) = ?pre @ [1] @ ?post"
    unfolding body unfolding e0 e1 append.assoc ..
  ultimately have "c 0 \<noteq> c 1" using crc32_window_eq [of "[0]" "[1]" ?pre ?post] by (auto simp: c_def)
  then have "c 0 \<noteq> 0 \<or> c 1 \<noteq> 0" by auto
  then show ?thesis unfolding c by blast
qed

section \<open>Properties\<close>

text \<open>C19: Crash recovery of the allocation log. After any sequence of writes and reclaims on a fresh log,
  a new manager that reads the page from disk, with the head and the sequence that were persisted
  at the last reclaim, gets back exactly the allocations accepted since then, in order, and
  resumes with the tail and the sequence of the lost one. Entries of earlier rounds that are still
  in the page are never taken for new ones.\<close>

theorem alloc_log_recovers_allocations:
  assumes "unat sequence + length ops < 2 ^ 32"
    and "lg = fold lg_step ops (lg_initialize True True head head sequence)"
    and "fold lg_spec_step ops (unat sequence, []) = (base, allocs)"
    and "lg_on_page_read (word_of_nat base) True (lg_page lg) (lg_initialize True True (lg_head lg) t q) = (res, lg')"
  shows "map_option (map (\<lambda>e. (al_blob_id e, al_file_id e))) res = Some allocs
       \<and> lg_tail lg' = lg_tail lg \<and> (allocs \<noteq> [] \<longrightarrow> lg_sequence lg' = lg_sequence lg)"
proof -
  from lg_run_holds [OF lg_initialize_holds [of True head sequence], of ops base allocs] assms
  obtain es where h: "lg_holds lg base es" and es: "map lg_alloc es = allocs" by auto
  note load = lg_holds_load [OF h]
  let ?n = "(lg_initialize True True (lg_head lg) t q)\<lparr>lg_page := lg_page lg\<rparr>"
  let ?scan = "\<lambda>l. lg_scan (lg_page l) (lg_head l) (unat kAllocLogCapacity) 0 (word_of_nat base)"
  have scan: "?scan lg = es" using arg_cong [OF load, of fst] by (simp add: lg_load_page_def Let_def)
  have keep: "lg\<lparr>lg_tail := lg_head lg + word_of_nat (length es),
      lg_sequence := (if es = [] then lg_sequence lg else al_sequence (last es))\<rparr> = lg"
    using arg_cong [OF load, of snd] unfolding lg_load_page_def Let_def scan by simp
  have tail: "lg_head lg + word_of_nat (length es) = lg_tail lg" using arg_cong [OF keep, of lg_tail] by simp
  have sq: "es \<noteq> [] \<Longrightarrow> al_sequence (last es) = lg_sequence lg" using arg_cong [OF keep, of lg_sequence] by simp
  have scan': "?scan ?n = es" using scan by (simp add: lg_initialize_def)
  have "lg_on_page_read (word_of_nat base) True (lg_page lg) (lg_initialize True True (lg_head lg) t q)
      = (Some es, ?n\<lparr>lg_tail := lg_head ?n + word_of_nat (length es),
           lg_sequence := (if es = [] then lg_sequence ?n else al_sequence (last es))\<rparr>)"
    unfolding lg_on_page_read_def lg_load_page_def Let_def scan' by simp
  then have res: "res = Some es" and lg': "lg_tail lg' = lg_tail lg" "es \<noteq> [] \<Longrightarrow> lg_sequence lg' = lg_sequence lg"
    using assms(4) sq tail by (auto simp: lg_initialize_def)
  have "map (\<lambda>e. (al_blob_id e, al_file_id e)) es = allocs" using es by (simp add: lg_alloc_def [abs_def])
  then show ?thesis using res lg' by auto
qed

theorem alloc_log_recovers_allocations_witness:
  "\<exists>res lg'. lg_on_page_read 0 True
       (lg_page (fold lg_step [LgWrite 11 3 4096 5, LgWrite 12 4 4096 6] (lg_initialize True True 0 0 0)))
       (lg_initialize True True 0 0 0) = (res, lg')
     \<and> map_option (map (\<lambda>e. (al_blob_id e, al_file_id e))) res = Some [(11, 3), (12, 4)]"
proof -
  let ?lg = "fold lg_step [LgWrite 11 3 4096 5, LgWrite 12 4 4096 6] (lg_initialize True True 0 0 0)"
  have head: "lg_head ?lg = 0"
    by (simp add: lg_write_entry_def Let_def lg_initialize_def lg_is_full_def lg_used_count_def kAllocLogCapacity_def)
  obtain res lg' where run: "lg_on_page_read (word_of_nat 0) True (lg_page ?lg) (lg_initialize True True (lg_head ?lg) 0 0) = (res, lg')"
    by fastforce
  have "fold lg_spec_step [LgWrite 11 3 4096 5, LgWrite 12 4 4096 6] (unat (0 :: u32), []) = (0, [(11, 3), (12, 4)])"
    by simp
  from alloc_log_recovers_allocations [OF _ refl this run] run show ?thesis unfolding head by auto
qed

text \<open>A log entry damaged inside one four-byte window is noticed, and recovery then keeps exactly the
  entries before it: nothing after the damage is trusted and nothing damaged is returned.\<close>

theorem alloc_log_damage_truncates:
  assumes "lg_holds lg base es" "i < length es" "p = (unat (lg_head lg) + i) mod 64"
    and "lg_page lg = pre @ w @ post" "length w \<le> 4" "length w' = length w" "w' \<noteq> w"
    and "64 * p \<le> length pre" "length pre + length w \<le> 64 * p + 60"
  shows "fst (lg_load_page (word_of_nat base) (lg\<lparr>lg_page := pre @ w' @ post\<rparr>)) = take i es"
proof -
  have len: "length (pre @ w @ post) = 4096" and seq: "unat (lg_sequence lg) = base + length es"
    using assms(1,4) by (auto simp: lg_holds_def)
  have b: "unat (word_of_nat base :: u32) = base + 0"
    using seq unat_u32 [of "lg_sequence lg"] by (subst unat_of_nat_small) simp_all
  have "lg_entry_ok (pre @ w @ post) p" using assms(1-4) by (auto simp: lg_holds_def)
  then have bad: "\<not> lg_entry_ok (pre @ w' @ post) p"
    using lg_window_bad [OF _ assms(5-9)] by blast
  have "lg_scan (pre @ w' @ post) (lg_head lg) 64 (word_of_nat 0) (word_of_nat base) = drop 0 (take i es)"
  proof (rule lg_scan_cut [OF assms(1,2)])
    fix j assume "j < i"
    then have "(unat (lg_head lg) + j) mod 64 \<noteq> p"
      using mod_add_inj [of "unat (lg_head lg)" j 64 i] assms(1-3) by (auto simp: lg_holds_def)
    from lg_window_other [OF assms(8,9,6) this] show
      "lg_entry_ok (pre @ w' @ post) ((unat (lg_head lg) + j) mod 64) = lg_entry_ok (lg_page lg) ((unat (lg_head lg) + j) mod 64)
       \<and> lg_entry_at (pre @ w' @ post) ((unat (lg_head lg) + j) mod 64) = lg_entry_at (lg_page lg) ((unat (lg_head lg) + j) mod 64)"
      unfolding assms(4) by simp
  qed (use bad assms(3) b in simp_all)
  then show ?thesis by (simp add: lg_load_page_def Let_def kAllocLogCapacity_def)
qed

theorem alloc_log_damage_truncates_witness:
  "\<exists>lg lg1. lg_write_entry 11 3 4096 5 (lg_initialize True True 0 0 0) = (LgWritePage (lg_page lg), lg)
     \<and> lg1 = lg\<lparr>lg_page := take 8 (lg_page lg) @ [slice 8 1 (lg_page lg) ! 0 + 1] @ drop 9 (lg_page lg)\<rparr>
     \<and> fst (lg_load_page 0 lg1) = []"
proof -
  obtain out lg where w: "lg_write_entry 11 3 4096 5 (lg_initialize True True 0 0 0) = (out, lg)" by fastforce
  have h0: "lg_holds (lg_initialize True True 0 0 0) (unat (0 :: u32)) []" by (rule lg_initialize_holds)
  from lg_holds_write [OF h0 _ _ w] obtain e where h: "lg_holds lg 0 [e]" and hd: "lg_head lg = 0"
    and out: "out = LgWritePage (lg_page lg)"
    by (auto simp: lg_initialize_def)
  have len: "length (lg_page lg) = 4096" using h by (simp add: lg_holds_def)
  let ?x = "slice 8 1 (lg_page lg) ! 0"
  have page: "lg_page lg = take 8 (lg_page lg) @ [?x] @ drop 9 (lg_page lg)"
    using len id_take_nth_drop [of 8 "lg_page lg"] by (simp add: slice_def)
  have "fst (lg_load_page (word_of_nat 0) (lg\<lparr>lg_page := take 8 (lg_page lg) @ [?x + 1] @ drop 9 (lg_page lg)\<rparr>)) = take 0 [e]"
    by (rule alloc_log_damage_truncates [OF h _ _ page, where p = 0 and i = 0]) (use len hd in simp_all)
  with w out show ?thesis by auto
qed

text \<open>The recovery of allocations deletes complete allocations. The header is checksummed with its
  checksum field zero, but recovery recomputes the checksum over the same 4092 bytes with the field
  filled in. A blob that the log names and that holds exactly the header the allocation wrote is
  kept only if that checksum is zero; for every file there are creation times where it is not, and
  then the blob, with the data written to it, is deleted.\<close>

theorem alloc_recovery_deletes_complete_blob:
  "process_alloc_log_recovery (\<lambda>_. Some (Some (data_header_page (al_file_id e) st t))) [e] r =
     (if dh_checksum (data_file_header_at (data_header_page (al_file_id e) st t) 0) \<noteq> 0
      then r\<lparr>ar_deleted := ar_deleted r @ [al_blob_id e]\<rparr>
      else if length (ar_mappings r) < kMaxFileCount
      then r\<lparr>ar_mappings := ar_mappings r @ [\<lparr>fm_file_id = al_file_id e, fm_blob_id = al_blob_id e,
               fm_size = 0, fm_write_offset = 4096, fm_state = FActive\<rparr>],
             ar_next_file_id := (if al_file_id e \<ge> ar_next_file_id r then al_file_id e + 1 else ar_next_file_id r)\<rparr>
      else r)
   \<and> (\<exists>t. dh_checksum (data_file_header_at (data_header_page (al_file_id e) st t) 0) \<noteq> 0)"
  using header_checksum_nonzero [of "al_file_id e" st]
  by (simp add: process_alloc_log_recovery_def recover_allocation_def recovery_header_valid_iff)

text \<open>\<^verbatim>\<open>release_dangling_blobs\<close> deletes exactly the blobs of the store that the superblock does not
  know, and never the superblock's own blob, an index blob or a mapped file.\<close>

theorem dangling_blobs_unreferenced:
  "b \<in> set (dangling_blobs super sb blobs) \<longleftrightarrow> b \<in> set blobs \<and> super \<noteq> Some b
     \<and> b \<notin> {sb_mem_index_blob_a sb, sb_mem_index_blob_b sb} - {0} \<and> b \<notin> fm_blob_id ` set (sb_file_mappings sb)"
  by (auto simp: dangling_blobs_def Let_def split: option.splits)

end
