(* ===== verification/KvCheckpoint.thy ===== *)
theory KvCheckpoint
  imports KvIndexStore
begin

text \<open>
  The incremental checkpoint, \<^verbatim>\<open>include/spdk_kv/checkpoint.h\<close> and \<^verbatim>\<open>src/checkpoint.cpp\<close>: the
  trigger, the state machine that writes the dirty segments of the memory index one after the
  other, syncs them and updates the superblock, and the segment format. The IO completions are
  steps of their own; the code around the manager (the index it reads, the superblock update and
  the callbacks it runs, which may call the manager again) is a record of functions on an
  environment state.
\<close>

section \<open>Trigger\<close>

record ckpt_trigger =
  ct_interval_ns :: u64
  ct_bytes_threshold :: u64
  ct_dirty_segment_threshold :: u32
  ct_last_checkpoint_time_ns :: u64
  ct_bytes_since_last_checkpoint :: u64

definition ct_default :: ckpt_trigger where
  "ct_default = \<lparr>ct_interval_ns = 300 * 1000 * 1000 * 1000, ct_bytes_threshold = 10 * 1024 * 1024 * 1024,
     ct_dirty_segment_threshold = 8, ct_last_checkpoint_time_ns = 0, ct_bytes_since_last_checkpoint = 0\<rparr>"

definition ct_should_checkpoint :: "ckpt_trigger \<Rightarrow> nat \<Rightarrow> u64 \<Rightarrow> bool" where
  "ct_should_checkpoint t dirty_segment_count current_time_ns =
     (if current_time_ns - ct_last_checkpoint_time_ns t \<ge> ct_interval_ns t then True
      else if ct_bytes_since_last_checkpoint t \<ge> ct_bytes_threshold t then True
      else if dirty_segment_count \<ge> unat (ct_dirty_segment_threshold t) then True
      else False)"

definition ct_reset :: "u64 \<Rightarrow> ckpt_trigger \<Rightarrow> ckpt_trigger" where
  "ct_reset current_time_ns t =
     t\<lparr>ct_last_checkpoint_time_ns := current_time_ns, ct_bytes_since_last_checkpoint := 0\<rparr>"

definition ct_add_bytes :: "u64 \<Rightarrow> ckpt_trigger \<Rightarrow> ckpt_trigger" where
  "ct_add_bytes bytes t = t\<lparr>ct_bytes_since_last_checkpoint := ct_bytes_since_last_checkpoint t + bytes\<rparr>"

section \<open>State\<close>

datatype ckpt_state = CkIdle | CkSnapshoting | CkWritingSegments | CkSyncingData | CkUpdatingSuperblock
  | CkComplete | CkFailed

text \<open>The request that SPDK has in flight for the manager.\<close>

datatype ckpt_io = CkWrite nat "byte list" | CkSync

text \<open>\<open>'c\<close> names the user callbacks. \<open>ck_positions\<close> is the array of \<^verbatim>\<open>kMaxBufferCount\<close>
  positions, \<open>ck_count\<close> its used prefix.\<close>

record 'c ckpt =
  ck_capacity :: u64
  ck_dirty :: "bool list"
  ck_snapshot :: "bool list"
  ck_versions :: "u64 list"
  ck_state :: ckpt_state
  ck_sequence :: u64
  ck_global_sequence :: u32
  ck_start_sequence :: u32
  ck_positions :: "active_buffer_pos list"
  ck_count :: nat
  ck_pending :: "nat list"
  ck_current :: nat
  ck_io_pending :: bool
  ck_io :: "ckpt_io option"
  ck_callback :: "'c option"

abbreviation ck_segments :: nat where
  "ck_segments \<equiv> unat kMemIndexSegmentCount"

definition ck_new :: "u64 \<Rightarrow> 'c ckpt" where
  "ck_new capacity = \<lparr>ck_capacity = capacity, ck_dirty = replicate ck_segments False,
     ck_snapshot = replicate ck_segments False, ck_versions = replicate ck_segments 0, ck_state = CkIdle,
     ck_sequence = 0, ck_global_sequence = 0, ck_start_sequence = 0,
     ck_positions = replicate kMaxBufferCount \<lparr>ab_file_id = 0, ab_page_index = 0\<rparr>, ck_count = 0,
     ck_pending = [], ck_current = 0, ck_io_pending = False, ck_io = None, ck_callback = None\<rparr>"

text \<open>The world around the manager: \<open>ce_blob\<close> and \<open>ce_channel\<close> tell whether the SPDK resources are set,
  \<open>ce_dma\<close> whether a DMA buffer can be allocated, \<open>ce_manager\<close> whether there is a buffer manager and
  if so whether it has an active buffer. \<open>ce_superblock\<close> is the superblock update, which completes
  before it returns (the only one is \<^verbatim>\<open>Engine::on_superblock_update\<close>); \<open>ce_run\<close> runs a callback.\<close>

record ('c, 's) ckpt_env =
  ce_blob :: bool
  ce_channel :: bool
  ce_dma :: bool
  ce_manager :: "'s \<Rightarrow> bool option"
  ce_index :: "'s \<Rightarrow> mem_index option"
  ce_superblock :: "('c ckpt \<Rightarrow> u32 \<Rightarrow> active_buffer_pos list \<Rightarrow> 's \<Rightarrow> int \<times> 's) option"
  ce_run :: "'c \<Rightarrow> int \<Rightarrow> 'c ckpt \<times> 's \<Rightarrow> 'c ckpt \<times> 's"

section \<open>Dirty segments and positions\<close>

text \<open>\<open>None\<close> is the division by zero.\<close>

definition ck_mark_dirty :: "u64 \<Rightarrow> 'c ckpt \<Rightarrow> 'c ckpt option" where
  "ck_mark_dirty bucket_index c =
     (if ck_capacity c div kMemIndexSegmentCount = 0 then None
      else (let segment_id = (ucast (bucket_index div (ck_capacity c div kMemIndexSegmentCount)) :: u32) in
        Some (if ucast segment_id < kMemIndexSegmentCount
              then c\<lparr>ck_dirty := (ck_dirty c)[unat segment_id := True]\<rparr> else c)))"

definition ck_dirty_segment_count :: "'c ckpt \<Rightarrow> nat" where
  "ck_dirty_segment_count c = length (filter id (ck_dirty c))"

definition ck_is_in_progress :: "'c ckpt \<Rightarrow> bool" where
  "ck_is_in_progress c = (ck_state c \<noteq> CkIdle)"

definition ck_set_positions :: "active_buffer_pos list \<Rightarrow> 'c ckpt \<Rightarrow> 'c ckpt" where
  "ck_set_positions positions c =
     (let n = min (length positions) kMaxBufferCount in
      c\<lparr>ck_count := n, ck_positions := take n positions @ drop n (ck_positions c)\<rparr>)"

definition ck_snapshot_positions :: "bool option \<Rightarrow> 'c ckpt \<Rightarrow> 'c ckpt" where
  "ck_snapshot_positions manager c =
     (case manager of None \<Rightarrow> c
      | Some has_active \<Rightarrow> (let c = c\<lparr>ck_count := 0\<rparr> in
          if has_active then c\<lparr>ck_count := max (ck_count c) 1\<rparr> else c))"

section \<open>Segments\<close>

definition ck_entries_per_segment :: "u64 \<Rightarrow> nat" where
  "ck_entries_per_segment capacity = unat (capacity div kMemIndexSegmentCount)"

definition ck_segment_slots :: "u64 \<Rightarrow> nat \<Rightarrow> nat list" where
  "ck_segment_slots capacity segment_id =
     (let n = ck_entries_per_segment capacity; start = segment_id * n in
      filter (\<lambda>i. i < unat capacity) [start..<start + n])"

definition ck_segment_entries :: "u64 \<Rightarrow> mem_index \<Rightarrow> nat \<Rightarrow> mem_index_entry list" where
  "ck_segment_entries capacity m segment_id =
     map (\<lambda>i. mi_entries m ! i) (filter (\<lambda>i. 0 < mi_psl m ! i) (ck_segment_slots capacity segment_id))"

text \<open>The bytes written to the buffer; the empty list is the return value 0.\<close>

definition ck_serialize_segment :: "mem_index option \<Rightarrow> nat \<Rightarrow> nat \<Rightarrow> 'c ckpt \<Rightarrow> byte list" where
  "ck_serialize_segment index segment_id buffer_size c =
     (case index of None \<Rightarrow> []
      | Some m \<Rightarrow>
        if segment_id \<ge> ck_segments then []
        else if (buffer_size - 64) div 20 < ck_entries_per_segment (ck_capacity c) then []
        else (let es = ck_segment_entries (ck_capacity c) m segment_id;
                  data = concat (map mem_index_entry_bytes es)
              in segment_header_bytes \<lparr>sh_magic = kSegmentMagic, sh_segment_id = word_of_nat segment_id,
                   sh_version = ck_versions c ! segment_id + 1, sh_entry_count = word_of_nat (length es),
                   sh_dirty_sequence = ucast (ck_start_sequence c), sh_checksum = crc32_calculate data\<rparr> @ data))"

text \<open>\<open>None\<close> is the result \<^verbatim>\<open>false\<close>.\<close>

definition ck_deserialize_segment ::
    "nat \<Rightarrow> byte list \<Rightarrow> 'c ckpt \<times> mem_index option \<Rightarrow> ('c ckpt \<times> mem_index option) option" where
  "ck_deserialize_segment segment_id buffer = (\<lambda>(c, index).
     case index of None \<Rightarrow> None
     | Some m \<Rightarrow>
        if segment_id \<ge> ck_segments \<or> length buffer < 64 then None
        else (let h = segment_header_at buffer 0; data = drop 64 buffer in
          if sh_magic h \<noteq> kSegmentMagic \<or> unat (sh_segment_id h) \<noteq> segment_id then None
          else if crc32_calculate data \<noteq> sh_checksum h then None
          else (let n = ck_entries_per_segment (ck_capacity c); start = segment_id * n;
                    num = length data div 20
                in Some (c\<lparr>ck_versions := (ck_versions c)[segment_id := sh_version h]\<rparr>,
                     Some (m\<lparr>mi_entries := fold (\<lambda>i es. es[start + i := mem_index_entry_at data (20 * i)])
                                        [0..<min num n] (mi_entries m)\<rparr>)))))"

section \<open>The state machine\<close>

definition ck_complete :: "('c, 's) ckpt_env \<Rightarrow> int \<Rightarrow> 'c ckpt \<times> 's \<Rightarrow> 'c ckpt \<times> 's" where
  "ck_complete env status = (\<lambda>(c, s).
     let c1 = (if status = 0 then c\<lparr>ck_sequence := ck_sequence c + 1, ck_state := CkComplete\<rparr>
               else c\<lparr>ck_state := CkFailed\<rparr>);
         (c2, s2) = (case ck_callback c1 of None \<Rightarrow> (c1, s)
                     | Some cb \<Rightarrow> (case ce_run env cb status (c1, s) of (c2, s2) \<Rightarrow> (c2\<lparr>ck_callback := None\<rparr>, s2)))
     in (c2\<lparr>ck_state := CkIdle\<rparr>, s2))"

definition ck_on_superblock_updated :: "('c, 's) ckpt_env \<Rightarrow> int \<Rightarrow> 'c ckpt \<times> 's \<Rightarrow> 'c ckpt \<times> 's" where
  "ck_on_superblock_updated env status cs = ck_complete env status cs"

definition ck_bump_versions :: "nat list \<Rightarrow> u64 list \<Rightarrow> u64 list" where
  "ck_bump_versions segs vs = fold (\<lambda>seg vs. vs[seg := vs ! seg + 1]) segs vs"

definition ck_on_sync_complete :: "('c, 's) ckpt_env \<Rightarrow> int \<Rightarrow> 'c ckpt \<times> 's \<Rightarrow> 'c ckpt \<times> 's" where
  "ck_on_sync_complete env status = (\<lambda>(c, s).
     if status \<noteq> 0 then ck_complete env status (c, s)
     else (let c1 = c\<lparr>ck_versions := ck_bump_versions (ck_pending c) (ck_versions c),
                      ck_state := CkUpdatingSuperblock\<rparr> in
       case ce_superblock env of
         Some update \<Rightarrow>
           (case update c1 (ck_start_sequence c1) (take (ck_count c1) (ck_positions c1)) s of
              (sb_status, s1) \<Rightarrow>
                (case ck_on_superblock_updated env sb_status (c1\<lparr>ck_io_pending := False\<rparr>, s1) of
                   (c2, s2) \<Rightarrow> (c2\<lparr>ck_io_pending := True\<rparr>, s2)))
       | None \<Rightarrow> ck_on_superblock_updated env 0 (c1, s)))"

text \<open>The DMA buffer: zeroed, a whole number of pages, filled from the front.\<close>

definition ck_dma_image :: "byte list \<Rightarrow> byte list" where
  "ck_dma_image data =
     put_bytes 0 data (replicate (unat (align_up (word_of_nat (length data)) kPageSize)) 0)"

text \<open>Without SPDK resources a segment completes at once and the next one follows.\<close>

function (sequential) ck_process_next_segment :: "('c, 's) ckpt_env \<Rightarrow> 'c ckpt \<times> 's \<Rightarrow> 'c ckpt \<times> 's" where
  "ck_process_next_segment env (c, s) =
     (if ck_current c \<ge> length (ck_pending c)
      then (let c1 = c\<lparr>ck_state := CkSyncingData\<rparr> in
            if ce_blob env then (c1\<lparr>ck_io_pending := True, ck_io := Some CkSync\<rparr>, s)
            else ck_on_sync_complete env 0 (c1, s))
      else (let seg_id = ck_pending c ! ck_current c;
                data = ck_serialize_segment (ce_index env s) seg_id (64 * 1024 * 1024) c
            in if data = [] then ck_complete env (- 1) (c, s)
               else if ce_blob env \<and> ce_channel env
               then (if \<not> ce_dma env then ck_complete env (- 1) (c, s)
                     else (c\<lparr>ck_io_pending := True, ck_io := Some (CkWrite seg_id (ck_dma_image data))\<rparr>, s))
               else ck_process_next_segment env (c\<lparr>ck_current := ck_current c + 1\<rparr>, s)))"
  by pat_completeness auto

termination
  by (relation "measure (\<lambda>(_, c, _). length (ck_pending c) - ck_current c)") auto

declare ck_process_next_segment.simps [simp del]

definition ck_on_segment_written :: "('c, 's) ckpt_env \<Rightarrow> int \<Rightarrow> 'c ckpt \<times> 's \<Rightarrow> 'c ckpt \<times> 's" where
  "ck_on_segment_written env status = (\<lambda>(c, s).
     if status \<noteq> 0 then ck_complete env status (c, s)
     else ck_process_next_segment env (c\<lparr>ck_current := ck_current c + 1\<rparr>, s))"

definition ck_start_checkpoint :: "('c, 's) ckpt_env \<Rightarrow> 'c \<Rightarrow> 'c ckpt \<times> 's \<Rightarrow> 'c ckpt \<times> 's" where
  "ck_start_checkpoint env cb = (\<lambda>(c, s).
     if ck_state c \<noteq> CkIdle then ce_run env cb (- 1) (c, s)
     else (let c1 = c\<lparr>ck_callback := Some cb, ck_state := CkSnapshoting,
                      ck_start_sequence := ck_global_sequence c\<rparr>;
               c2 = ck_snapshot_positions (ce_manager env s) c1;
               c3 = c2\<lparr>ck_snapshot := ck_dirty c2, ck_dirty := replicate ck_segments False\<rparr>;
               pending = filter (\<lambda>i. ck_snapshot c3 ! i) [0..<ck_segments];
               c4 = c3\<lparr>ck_pending := pending\<rparr>
           in if pending = [] then ck_complete env 0 (c4, s)
              else ck_process_next_segment env (c4\<lparr>ck_state := CkWritingSegments, ck_current := 0\<rparr>, s)))"

text \<open>The completion of the request in flight: the two lambdas given to SPDK.\<close>

definition ck_io_complete :: "('c, 's) ckpt_env \<Rightarrow> int \<Rightarrow> 'c ckpt \<times> 's \<Rightarrow> 'c ckpt \<times> 's" where
  "ck_io_complete env status = (\<lambda>(c, s).
     let c1 = c\<lparr>ck_io := None, ck_io_pending := False\<rparr> in
     case ck_io c of None \<Rightarrow> (c, s)
     | Some (CkWrite seg data) \<Rightarrow> ck_on_segment_written env status (c1, s)
     | Some CkSync \<Rightarrow> ck_on_sync_complete env status (c1, s))"

text \<open>\<open>done\<close>: the status of the request if polling SPDK completes it.\<close>

definition ck_poll :: "('c, 's) ckpt_env \<Rightarrow> int option \<Rightarrow> 'c ckpt \<times> 's \<Rightarrow> bool \<times> 'c ckpt \<times> 's" where
  "ck_poll env completion = (\<lambda>(c, s).
     if ck_state c = CkIdle then (False, c, s)
     else (case (if ck_io_pending c then (case completion of Some st \<Rightarrow> ck_io_complete env st (c, s)
                                          | None \<Rightarrow> (c, s)) else (c, s)) of
             (c1, s1) \<Rightarrow> (ck_state c1 \<noteq> CkIdle, c1, s1)))"

text \<open>The part of \<^verbatim>\<open>Engine::start_checkpoint\<close> that touches the manager.\<close>

definition ck_engine_start ::
    "('c, 's) ckpt_env \<Rightarrow> 'c \<Rightarrow> u32 \<Rightarrow> active_buffer_pos list \<Rightarrow> 'c ckpt \<times> 's \<Rightarrow> 'c ckpt \<times> 's" where
  "ck_engine_start env cb global_sequence positions = (\<lambda>(c, s).
     ck_start_checkpoint env cb (ck_set_positions positions (c\<lparr>ck_global_sequence := global_sequence\<rparr>), s))"

section \<open>The segment format\<close>

lemma fold_list_update:
  "n \<le> length xs - k \<Longrightarrow> k \<le> length xs \<Longrightarrow> fold (\<lambda>i es. es[k + i := f i]) [0..<n] xs = take k xs @ map f [0..<n] @ drop (k + n) xs"
proof (induction n)
  case 0
  then show ?case by simp
next
  case (Suc n)
  then have lt: "k + n < length xs" and IH: "fold (\<lambda>i es. es[k + i := f i]) [0..<n] xs = take k xs @ map f [0..<n] @ drop (k + n) xs"
    by auto
  have d: "drop (k + n) xs = xs ! (k + n) # drop (k + Suc n) xs" using lt by (simp add: Cons_nth_drop_Suc)
  have l: "length (take k xs) = k" using Suc.prems by simp
  have "fold (\<lambda>i es. es[k + i := f i]) [0..<Suc n] xs = (take k xs @ map f [0..<n] @ drop (k + n) xs)[k + n := f n]"
    by (simp add: IH)
  also have "\<dots> = take k xs @ map f [0..<n] @ (drop (k + n) xs)[0 := f n]"
    using l by (simp add: list_update_append)
  finally show ?case by (simp add: d)
qed

text \<open>A table of a power of two of slots, at least one per segment.\<close>

lemma ck_capacity_bounds:
  assumes "segment_id < ck_segments"
  shows "segment_id * ck_entries_per_segment capacity + ck_entries_per_segment capacity \<le> unat capacity"
proof -
  have n: "ck_entries_per_segment capacity = unat capacity div 80"
    by (simp add: ck_entries_per_segment_def kMemIndexSegmentCount_def unat_div_distrib)
  have "(segment_id + 1) * (unat capacity div 80) \<le> 80 * (unat capacity div 80)"
    using assms by (intro mult_right_mono) (simp_all add: kMemIndexSegmentCount_def)
  also have "\<dots> \<le> unat capacity" by simp
  finally show ?thesis by (simp add: n)
qed

lemma ck_segment_slots_eq:
  assumes "segment_id < ck_segments"
  shows "ck_segment_slots capacity segment_id
    = [segment_id * ck_entries_per_segment capacity..<segment_id * ck_entries_per_segment capacity + ck_entries_per_segment capacity]"
  using ck_capacity_bounds [OF assms, of capacity] by (simp add: ck_segment_slots_def Let_def filter_id_conv)

lemma length_ck_segment_entries:
  "segment_id < ck_segments \<Longrightarrow> length (ck_segment_entries capacity m segment_id) \<le> ck_entries_per_segment capacity"
  unfolding ck_segment_entries_def by (simp add: ck_segment_slots_eq le_trans [OF length_filter_le])

lemma ck_segment_reload:
  assumes id: "segment_id < ck_segments"
    and fits: "ck_entries_per_segment (ck_capacity c) \<le> (buffer_size - 64) div 20"
    and cap: "length (mi_entries t) = unat (ck_capacity d)" "ck_capacity d = ck_capacity c"
  shows "ck_deserialize_segment segment_id (ck_serialize_segment (Some m) segment_id buffer_size c) (d, Some t)
    = Some (d\<lparr>ck_versions := (ck_versions d)[segment_id := ck_versions c ! segment_id + 1]\<rparr>,
        Some (t\<lparr>mi_entries := (let n = ck_entries_per_segment (ck_capacity c); start = segment_id * n;
             es = ck_segment_entries (ck_capacity c) m segment_id
           in take start (mi_entries t) @ es @ drop (start + length es) (mi_entries t))\<rparr>))"
proof -
  let ?n = "ck_entries_per_segment (ck_capacity c)" and ?es = "ck_segment_entries (ck_capacity c) m segment_id"
  let ?data = "concat (map mem_index_entry_bytes ?es)"
  let ?h = "\<lparr>sh_magic = kSegmentMagic, sh_segment_id = word_of_nat segment_id,
     sh_version = ck_versions c ! segment_id + 1, sh_entry_count = word_of_nat (length ?es),
     sh_dirty_sequence = ucast (ck_start_sequence c), sh_checksum = crc32_calculate ?data\<rparr>"
  have s: "ck_serialize_segment (Some m) segment_id buffer_size c = segment_header_bytes ?h @ ?data"
    using id fits by (simp add: ck_serialize_segment_def Let_def)
  have h: "segment_header_at (segment_header_bytes ?h @ ?data) 0 = ?h" using segment_header_roundtrip [of ?h ?data] by simp
  have sid: "unat (word_of_nat segment_id :: u32) = segment_id"
    using id by (intro unat_of_nat_small) (simp add: kMemIndexSegmentCount_def)
  have le: "length ?es \<le> ?n" by (rule length_ck_segment_entries [OF id])
  have b: "segment_id * ?n + ?n \<le> length (mi_entries t)" using ck_capacity_bounds [OF id] cap by simp
  have "fold (\<lambda>i es. es[segment_id * ?n + i := mem_index_entry_at ?data (20 * i)]) [0..<length ?es] (mi_entries t)
      = take (segment_id * ?n) (mi_entries t) @ map (\<lambda>i. mem_index_entry_at ?data (20 * i)) [0..<length ?es]
        @ drop (segment_id * ?n + length ?es) (mi_entries t)"
    using b le by (intro fold_list_update) linarith+
  moreover have "length (segment_header_bytes ?h) = 64" by (simp add: segment_header_bytes_def)
  ultimately show ?thesis
    using id le cap(2) unfolding ck_deserialize_segment_def s
    by (simp add: h sid length_concat_entries map_mem_index_entry_at Let_def min_def)
qed

section \<open>Runs\<close>

definition ck_resources :: "('c, 's) ckpt_env \<Rightarrow> 's \<Rightarrow> 'c ckpt \<Rightarrow> bool" where
  "ck_resources env s c \<longleftrightarrow> ce_blob env \<and> ce_channel env \<and> ce_dma env \<and> ce_index env s \<noteq> None
     \<and> ck_entries_per_segment (ck_capacity c) \<le> (64 * 1024 * 1024 - 64) div 20"

lemma ck_serialize_nonempty:
  assumes "ck_resources env s c" "seg < ck_segments"
  shows "ck_serialize_segment (ce_index env s) seg (64 * 1024 * 1024) c \<noteq> []"
proof -
  obtain m where "ce_index env s = Some m" using assms(1) by (auto simp: ck_resources_def)
  moreover have "segment_header_bytes h \<noteq> []" for h
    using segment_header_roundtrip [of h] by auto
  ultimately show ?thesis
    using assms by (simp add: ck_serialize_segment_def ck_resources_def Let_def)
qed

definition ck_request :: "('c, 's) ckpt_env \<Rightarrow> 's \<Rightarrow> nat \<Rightarrow> 'c ckpt \<Rightarrow> ckpt_io" where
  "ck_request env s k c = (if k < length (ck_pending c)
     then CkWrite (ck_pending c ! k) (ck_dma_image (ck_serialize_segment (ce_index env s) (ck_pending c ! k) (64 * 1024 * 1024) c))
     else CkSync)"

lemma ck_process_next_request:
  assumes "ck_resources env s c" "\<forall>seg \<in> set (ck_pending c). seg < ck_segments"
  shows "ck_process_next_segment env (c, s) = (c\<lparr>ck_io_pending := True, ck_io := Some (ck_request env s (ck_current c) c),
    ck_state := (if ck_current c < length (ck_pending c) then ck_state c else CkSyncingData)\<rparr>, s)"
proof (cases "ck_current c < length (ck_pending c)")
  case True
  then have "ck_serialize_segment (ce_index env s) (ck_pending c ! ck_current c) (64 * 1024 * 1024) c \<noteq> []"
    using assms by (intro ck_serialize_nonempty) auto
  then show ?thesis
    using True assms(1) by (subst ck_process_next_segment.simps) (simp add: ck_request_def ck_resources_def Let_def)
next
  case False
  then show ?thesis
    using assms(1) by (subst ck_process_next_segment.simps) (simp add: ck_request_def ck_resources_def Let_def)
qed

lemma ck_serialize_cong:
  "ck_serialize_segment index seg n (c\<lparr>ck_current := k, ck_io_pending := b, ck_io := i, ck_state := st\<rparr>)
   = ck_serialize_segment index seg n c"
  by (cases index) (simp_all add: ck_serialize_segment_def Let_def)

lemma ck_request_cong:
  "ck_request env s k (c\<lparr>ck_current := j, ck_io_pending := b, ck_io := i, ck_state := st\<rparr>) = ck_request env s k c"
  by (simp add: ck_request_def ck_serialize_cong)

lemma ck_resources_cong:
  "ck_resources env s (c\<lparr>ck_current := j, ck_io_pending := b, ck_io := i, ck_state := st\<rparr>) = ck_resources env s c"
  by (simp add: ck_resources_def)

text \<open>The run of a checkpoint whose \<open>k\<close>th request is in flight.\<close>

definition ck_flying :: "('c, 's) ckpt_env \<Rightarrow> 's \<Rightarrow> nat \<Rightarrow> 'c ckpt \<Rightarrow> 'c ckpt" where
  "ck_flying env s k c = c\<lparr>ck_current := k, ck_io_pending := True, ck_io := Some (ck_request env s k c),
     ck_state := (if k < length (ck_pending c) then CkWritingSegments else CkSyncingData)\<rparr>"

lemma ck_flying_next:
  assumes "ck_resources env s c" "\<forall>seg \<in> set (ck_pending c). seg < ck_segments" "k < length (ck_pending c)"
  shows "ck_io_complete env 0 (ck_flying env s k c, s) = (ck_flying env s (k + 1) c, s)"
proof -
  let ?c = "c\<lparr>ck_current := k + 1, ck_io_pending := False, ck_io := None, ck_state := CkWritingSegments\<rparr>"
  have "ck_io_complete env 0 (ck_flying env s k c, s) = ck_process_next_segment env (?c, s)"
    using assms(3) by (cases c) (simp add: ck_io_complete_def ck_flying_def ck_request_def ck_on_segment_written_def Let_def)
  also have "\<dots> = (ck_flying env s (k + 1) c, s)"
    using ck_process_next_request [of env s ?c] assms(1,2)
    by (simp add: ck_resources_cong ck_request_cong ck_flying_def)
  finally show ?thesis .
qed

lemma ck_flying_run:
  assumes "ck_resources env s c" "\<forall>seg \<in> set (ck_pending c). seg < ck_segments"
  shows "k \<le> length (ck_pending c) \<Longrightarrow> (ck_io_complete env 0 ^^ k) (ck_flying env s 0 c, s) = (ck_flying env s k c, s)"
  by (induction k) (simp_all add: ck_flying_next [OF assms])

text \<open>The state in which a checkpoint starts to write.\<close>

definition ck_begun :: "('c, 's) ckpt_env \<Rightarrow> 'c \<Rightarrow> 's \<Rightarrow> 'c ckpt \<Rightarrow> 'c ckpt" where
  "ck_begun env cb s c = (ck_snapshot_positions (ce_manager env s) (c\<lparr>ck_callback := Some cb,
     ck_start_sequence := ck_global_sequence c\<rparr>))
   \<lparr>ck_snapshot := ck_dirty c, ck_dirty := replicate ck_segments False,
    ck_pending := filter (\<lambda>i. ck_dirty c ! i) [0..<ck_segments]\<rparr>"

lemma ck_begun_fields [simp]:
  "ck_capacity (ck_begun env cb s c) = ck_capacity c"
  "ck_pending (ck_begun env cb s c) = filter (\<lambda>i. ck_dirty c ! i) [0..<ck_segments]"
  "ck_versions (ck_begun env cb s c) = ck_versions c" "ck_sequence (ck_begun env cb s c) = ck_sequence c"
  "ck_start_sequence (ck_begun env cb s c) = ck_global_sequence c"
  "ck_callback (ck_begun env cb s c) = Some cb" "ck_positions (ck_begun env cb s c) = ck_positions c"
  "ck_dirty (ck_begun env cb s c) = replicate ck_segments False"
  "ck_global_sequence (ck_begun env cb s c) = ck_global_sequence c"
  by (simp_all add: ck_begun_def ck_snapshot_positions_def Let_def split: option.splits)

lemma ck_start_flying:
  assumes "ck_state c = CkIdle" "ck_resources env s c" "filter (\<lambda>i. ck_dirty c ! i) [0..<ck_segments] \<noteq> []"
  shows "ck_start_checkpoint env cb (c, s) = (ck_flying env s 0 (ck_begun env cb s c), s)"
proof -
  let ?b = "(ck_begun env cb s c)\<lparr>ck_current := 0, ck_state := CkWritingSegments\<rparr>"
  have eq: "ck_start_checkpoint env cb (c, s) = ck_process_next_segment env (?b, s)"
    using assms(1,3) by (cases c; cases "ce_manager env s")
      (simp_all add: ck_start_checkpoint_def Let_def ck_begun_def ck_snapshot_positions_def)
  have r: "ck_resources env s (ck_begun env cb s c)" using assms(2) by (simp add: ck_resources_def)
  have "ck_resources env s ?b" using r by (simp add: ck_resources_def)
  then have "ck_process_next_segment env (?b, s) = (?b\<lparr>ck_io_pending := True, ck_io := Some (ck_request env s (ck_current ?b) ?b),
    ck_state := (if ck_current ?b < length (ck_pending ?b) then ck_state ?b else CkSyncingData)\<rparr>, s)"
    by (rule ck_process_next_request) simp
  also have "ck_request env s (ck_current ?b) ?b = ck_request env s 0 (ck_begun env cb s c)"
    by (cases "ce_index env s") (simp_all add: ck_request_def ck_serialize_segment_def)
  finally show ?thesis unfolding eq using assms(3) by (simp add: ck_flying_def)
qed

lemma packed_front:
  assumes "\<And>i. i < n \<Longrightarrow> P i \<longleftrightarrow> f i \<noteq> z"
    and eq: "map f (filter P [0..<n]) @ replicate (n - length (filter P [0..<n])) z = map f [0..<n]"
    and i: "i < n" and j: "j < i" and P: "P i"
  shows "P j"
proof -
  let ?l = "map f (filter P [0..<n]) @ replicate (n - length (filter P [0..<n])) z"
  have len: "length (filter P [0..<n]) \<le> n" by (rule le_trans [OF length_filter_le]) simp
  from eq have nth: "?l ! k = f k" if "k < n" for k using that by simp
  have "i < length (filter P [0..<n])"
  proof (rule ccontr)
    assume "\<not> i < length (filter P [0..<n])"
    then have "?l ! i = z" using i len by (simp add: nth_append)
    with nth [OF i] assms(1) [OF i] P show False by simp
  qed
  then have "?l ! j = f (filter P [0..<n] ! j)" and m: "filter P [0..<n] ! j \<in> set (filter P [0..<n])"
    using j by (simp_all add: nth_append del: set_filter)
  then have "f j = f (filter P [0..<n] ! j)" using nth [of j] i j by simp
  moreover from m have "f (filter P [0..<n] ! j) \<noteq> z" using assms(1) by auto
  ultimately show ?thesis using assms(1) [of j] i j by simp
qed

lemma packed_map:
  assumes "\<And>i. i < n \<Longrightarrow> P i \<longleftrightarrow> f i \<noteq> z" "\<forall>i < n. \<forall>j < i. P i \<longrightarrow> P j"
  shows "map f (filter P [0..<n]) @ replicate (n - length (filter P [0..<n])) z = map f [0..<n]"
  using assms
proof (induction n)
  case (Suc n)
  let ?k = "length (filter P [0..<n])"
  show ?case
  proof (cases "P n")
    case True
    then have "filter P [0..<n] = [0..<n]" using Suc.prems(2) by (auto simp: filter_id_conv)
    with True show ?thesis by simp
  next
    case False
    have "?k \<le> n" by (rule le_trans [OF length_filter_le]) simp
    then have "Suc n - ?k = Suc (n - ?k)" by simp
    then have "replicate (Suc n - ?k) z = replicate (n - ?k) z @ [z]"
      by (simp add: replicate_append_same)
    moreover have "f n = z" using False Suc.prems(1) [of n] by simp
    moreover have "map f (filter P [0..<n]) @ replicate (n - ?k) z = map f [0..<n]"
      by (rule Suc.IH) (use Suc.prems in \<open>auto simp: less_Suc_eq\<close>)
    ultimately show ?thesis using False by simp
  qed
qed simp

lemma filter_packed:
  assumes "\<And>i. i < n \<Longrightarrow> P i \<longleftrightarrow> f i \<noteq> z"
  shows "map f (filter P [0..<n]) @ replicate (n - length (filter P [0..<n])) z = map f [0..<n]
     \<longleftrightarrow> (\<forall>i < n. \<forall>j < i. P i \<longrightarrow> P j)"
  using packed_front [where P = P and f = f and z = z and n = n] packed_map [of n P f z] assms by blast

text \<open>An occupied slot is one whose entry is not zero.\<close>

lemma slot_occupied:
  assumes "mi_inv m" "k < mi_cap m"
  shows "0 < mi_psl m ! k \<longleftrightarrow> mi_entries m ! k \<noteq> me_zero"
proof -
  have ok: "mi_slot_ok m k" using assms by (simp add: mi_inv_def)
  show ?thesis
  proof (cases "mi_psl m ! k = 0")
    case True
    then show ?thesis using ok by (simp add: mi_slot_ok_def)
  next
    case False
    then have "\<not> me_is_empty (mi_entries m ! k)" using ok by (simp add: mi_slot_ok_def Let_def)
    then have "mi_entries m ! k \<noteq> me_zero" by (auto simp: me_is_empty_def me_zero_def)
    then show ?thesis using False by (simp add: word_neq_0_conv)
  qed
qed

lemma one_dirty: "k < n \<Longrightarrow> filter (\<lambda>i. (replicate n False)[k := True] ! i) [0..<n] = [k]"
proof -
  assume "k < n"
  have "filter (\<lambda>i. i = k) [0..<n] = (if k < n then [k] else [])" for n by (induction n) auto
  moreover have "filter (\<lambda>i. (replicate n False)[k := True] ! i) [0..<n] = filter (\<lambda>i. i = k) [0..<n]"
    using \<open>k < n\<close> by (intro filter_cong) (auto simp: nth_list_update split: if_splits)
  ultimately show ?thesis using \<open>k < n\<close> by simp
qed

text \<open>An environment for concrete runs: an empty table of 128 slots, storage that works, a superblock
  update that records its arguments, and callbacks that are counted.\<close>

definition ck_demo_env :: "(nat, (u32 \<times> active_buffer_pos list) list \<times> int list) ckpt_env" where
  "ck_demo_env = \<lparr>ce_blob = True, ce_channel = True, ce_dma = True, ce_manager = (\<lambda>_. None),
     ce_index = (\<lambda>_. Some (mem_index_new 128 True)),
     ce_superblock = Some (\<lambda>_ seq ps (us, cbs). (0, us @ [(seq, ps)], cbs)),
     ce_run = (\<lambda>_ st (c, us, cbs). (c, us, cbs @ [st]))\<rparr>"

definition ck_demo :: "nat ckpt" where
  "ck_demo = (ck_new 128)\<lparr>ck_dirty := (replicate ck_segments False)[0 := True]\<rparr>"

lemma ck_demo_facts:
  "ck_state ck_demo = CkIdle" "ck_resources ck_demo_env s ck_demo"
  "filter (\<lambda>i. ck_dirty ck_demo ! i) [0..<ck_segments] = [0]"
  using one_dirty [of 0 ck_segments]
  by (simp_all add: ck_demo_def ck_new_def ck_resources_def ck_demo_env_def ck_entries_per_segment_def kMemIndexSegmentCount_def)

section \<open>Properties\<close>

text \<open>A segment written by \<^verbatim>\<open>serialize_segment\<close> and read into an empty segment by
  \<^verbatim>\<open>deserialize_segment\<close> is restored exactly when its occupied slots are its first slots: the format
  stores the entries without their slots, so every entry behind a free slot comes back in another
  place, where its key is not looked for.\<close>

theorem segment_reload_restores_iff_packed:
  assumes "mi_inv m" "ck_capacity c = mi_capacity m" "ck_capacity d = mi_capacity m"
    and "segment_id < ck_segments" "ck_entries_per_segment (ck_capacity c) \<le> (buffer_size - 64) div 20"
    and "length (mi_entries t) = length (mi_entries m)"
    and "n = ck_entries_per_segment (ck_capacity c)" "start = segment_id * n"
    and "\<forall>i < n. mi_entries t ! (start + i) = me_zero"
    and "ck_deserialize_segment segment_id (ck_serialize_segment (Some m) segment_id buffer_size c) (d, Some t)
           = Some (d', Some t')"
  shows "(\<forall>i < n. mi_entries t' ! (start + i) = mi_entries m ! (start + i))
     \<longleftrightarrow> (\<forall>i < n. \<forall>j < i. 0 < mi_psl m ! (start + i) \<longrightarrow> 0 < mi_psl m ! (start + j))"
proof -
  let ?P = "\<lambda>i. 0 < mi_psl m ! (start + i)" and ?f = "\<lambda>i. mi_entries m ! (start + i)"
  let ?es = "ck_segment_entries (ck_capacity c) m segment_id"
  have cap: "length (mi_entries m) = unat (mi_capacity m)" "mi_cap m = unat (mi_capacity m)"
    using assms(1) by (simp_all add: mi_inv_def mi_wf_def)
  have b: "start + n \<le> unat (mi_capacity m)" using ck_capacity_bounds [OF assms(4), of "ck_capacity c"] assms(2,7,8) by simp
  have es: "?es = map ?f (filter ?P [0..<n])"
  proof -
    have "[start..<start + n] = map (\<lambda>i. start + i) [0..<n]" by (simp add: map_add_upt add.commute)
    then show ?thesis
      using assms(4,7,8) by (simp add: ck_segment_entries_def ck_segment_slots_eq filter_map comp_def)
  qed
  have le: "length ?es \<le> n" using length_ck_segment_entries [OF assms(4)] assms(7) by simp
  have t': "mi_entries t' = take start (mi_entries t) @ ?es @ drop (start + length ?es) (mi_entries t)"
  proof -
    have "length (mi_entries t) = unat (ck_capacity d)" "ck_capacity d = ck_capacity c"
      using assms(2,3,6) cap by simp_all
    note trans [OF assms(10) [symmetric] ck_segment_reload [OF assms(4,5) this, of m]]
    then have "t' = t\<lparr>mi_entries := take start (mi_entries t) @ ?es @ drop (start + length ?es) (mi_entries t)\<rparr>"
      unfolding Let_def by (simp only: option.inject prod.inject assms(7) [symmetric] assms(8) [symmetric])
    then show ?thesis by simp
  qed
  have lt: "length (mi_entries t) = unat (mi_capacity m)" using assms(6) cap by simp
  have seg: "map (\<lambda>i. mi_entries t' ! (start + i)) [0..<n] = ?es @ replicate (n - length ?es) me_zero"
  proof (rule nth_equalityI)
    show "length (map (\<lambda>i. mi_entries t' ! (start + i)) [0..<n]) = length (?es @ replicate (n - length ?es) me_zero)"
      using le by simp
    fix i assume "i < length (map (\<lambda>i. mi_entries t' ! (start + i)) [0..<n])"
    then have i: "i < n" by simp
    show "map (\<lambda>i. mi_entries t' ! (start + i)) [0..<n] ! i = (?es @ replicate (n - length ?es) me_zero) ! i"
    proof (cases "i < length ?es")
      case True
      then show ?thesis using i b lt by (simp add: t' nth_append)
    next
      case False
      then have "mi_entries t' ! (start + i) = mi_entries t ! (start + i)"
        using i b lt by (simp add: t' nth_append)
      then show ?thesis using i False assms(9) by (simp add: nth_append)
    qed
  qed
  have occ: "?P i \<longleftrightarrow> ?f i \<noteq> me_zero" if "i < n" for i
    by (rule slot_occupied [OF assms(1)]) (use that b cap in simp)
  have "(\<forall>i < n. mi_entries t' ! (start + i) = ?f i) \<longleftrightarrow> map (\<lambda>i. mi_entries t' ! (start + i)) [0..<n] = map ?f [0..<n]"
    by (simp add: list_eq_iff_nth_eq)
  also have "\<dots> \<longleftrightarrow> (\<forall>i < n. \<forall>j < i. ?P i \<longrightarrow> ?P j)"
    unfolding seg es using occ by (subst filter_packed [symmetric, where f = ?f and z = me_zero]) simp_all
  finally show ?thesis .
qed

theorem segment_reload_restores_iff_packed_witness:
  "\<exists>m c t' d'. mi_inv m \<and> ck_capacity (c :: nat ckpt) = mi_capacity m
     \<and> ck_deserialize_segment 0 (ck_serialize_segment (Some m) 0 (64 * 1024 * 1024) c)
          (c, Some (mem_index_new 128 True)) = Some (d', Some t')
     \<and> mi_entries t' ! 0 = mi_entries m ! 0"
proof -
  let ?m = "mem_index_new 128 True" and ?c = "ck_new 128 :: nat ckpt"
  have np: "next_power_of_2 128 = (128 :: u64)" by (simp add: next_power_of_2_def Let_def)
  have cap: "mi_capacity ?m = 128" by (simp add: mem_index_new_def np Let_def)
  have inv: "mi_inv ?m" by (rule mem_index_new_inv) simp_all
  have n: "ck_entries_per_segment (ck_capacity ?c) = 1"
    by (simp add: ck_new_def ck_entries_per_segment_def kMemIndexSegmentCount_def)
  have cc: "ck_capacity ?c = mi_capacity ?m" unfolding cap by (simp add: ck_new_def)
  have len: "length (mi_entries ?m) = unat (ck_capacity ?c)" by (simp add: ck_new_def mem_index_new_def np Let_def)
  have id: "(0 :: nat) < ck_segments" by (simp add: kMemIndexSegmentCount_def)
  have fits: "ck_entries_per_segment (ck_capacity ?c) \<le> (64 * 1024 * 1024 - 64) div 20" by (simp add: n)
  obtain d' t' where run: "ck_deserialize_segment 0 (ck_serialize_segment (Some ?m) 0 (64 * 1024 * 1024) ?c) (?c, Some ?m)
      = Some (d', Some t')"
    using ck_segment_reload [OF id fits len refl, of ?m] by blast
  have zero: "\<forall>i < 1. mi_entries ?m ! (0 + i) = me_zero" by (simp add: mem_index_new_def np Let_def)
  from segment_reload_restores_iff_packed [OF inv cc cc id fits refl n [symmetric] _ zero run]
  have "mi_entries t' ! 0 = mi_entries ?m ! 0" by simp
  with inv cc run show ?thesis by blast
qed

text \<open>The sync that follows the last segment ends the checkpoint.\<close>

lemma ck_sync_ends:
  assumes "ck_io c = Some CkSync" "ck_callback c = Some cb" "ce_superblock env = Some update"
    and "c1 = c\<lparr>ck_io := None, ck_io_pending := False, ck_versions := ck_bump_versions (ck_pending c) (ck_versions c), ck_state := CkUpdatingSuperblock\<rparr>"
    and "update c1 (ck_start_sequence c) (take (ck_count c) (ck_positions c)) s = (status, s1)"
  shows "\<exists>c2. snd (ck_io_complete env 0 (c, s)) = snd (ce_run env cb status (c2, s1))
     \<and> ck_sequence c2 = ck_sequence c + (if status = 0 then 1 else 0) \<and> ck_state (fst (ck_io_complete env 0 (c, s))) = CkIdle"
proof -
  let ?c2 = "if status = 0 then c1\<lparr>ck_io_pending := False, ck_sequence := ck_sequence c + 1, ck_state := CkComplete\<rparr>
     else c1\<lparr>ck_io_pending := False, ck_state := CkFailed\<rparr>"
  obtain c3 s3 where cb: "ce_run env cb status (?c2, s1) = (c3, s3)" by fastforce
  have "ck_complete env status (c1\<lparr>ck_io_pending := False\<rparr>, s1) = (c3\<lparr>ck_callback := None, ck_state := CkIdle\<rparr>, s3)"
    using cb assms(2) by (auto simp: ck_complete_def assms(4) Let_def)
  then have fin: "ck_io_complete env 0 (c, s) = (c3\<lparr>ck_callback := None, ck_state := CkIdle, ck_io_pending := True\<rparr>, s3)"
    using assms(5) by (simp add: ck_io_complete_def assms(1,3) ck_on_sync_complete_def ck_on_superblock_updated_def Let_def assms(4))
  show ?thesis by (rule exI [of _ ?c2]) (use cb fin in \<open>simp add: assms(4)\<close>)
qed

text \<open>C27: A checkpoint of a dirty index on working storage. The requests it has in flight are the writes
  of exactly the dirty segments, in order, each with the image of that segment, and then the sync;
  no user code runs before. After the sync the versions of these segments are raised, the superblock
  is updated with the sequence of the start of the checkpoint, the user callback gets the result of
  that update and the manager is idle.\<close>

theorem ckpt_writes_dirty_segments:
  assumes "ck_state c = CkIdle" "ck_resources env s c" "ce_superblock env = Some update"
    and "D = filter (\<lambda>i. ck_dirty c ! i) [0..<ck_segments]" "D \<noteq> []"
    and "run = (\<lambda>k. (ck_io_complete env 0 ^^ k) (ck_start_checkpoint env cb (c, s)))"
  shows "(\<forall>k < length D. snd (run k) = s \<and> ck_io (fst (run k)) = Some (CkWrite (D ! k) (ck_dma_image
            (ck_serialize_segment (ce_index env s) (D ! k) (64 * 1024 * 1024) (c\<lparr>ck_start_sequence := ck_global_sequence c\<rparr>)))))
     \<and> ck_io (fst (run (length D))) = Some CkSync \<and> snd (run (length D)) = s
     \<and> (\<exists>c1 c2 status s1. update c1 (ck_global_sequence c) (take (ck_count c1) (ck_positions c)) s = (status, s1)
          \<and> ck_versions c1 = ck_bump_versions D (ck_versions c)
          \<and> ck_sequence c2 = ck_sequence c + (if status = 0 then 1 else 0)
          \<and> snd (run (length D + 1)) = snd (ce_run env cb status (c2, s1))
          \<and> ck_state (fst (run (length D + 1))) = CkIdle)"
proof -
  let ?b = "ck_begun env cb s c"
  have r: "ck_resources env s ?b" using assms(2) by (simp add: ck_resources_def)
  have segs: "\<forall>seg \<in> set (ck_pending ?b). seg < ck_segments" by simp
  have D: "ck_pending ?b = D" using assms(4) by simp
  have start: "ck_start_checkpoint env cb (c, s) = (ck_flying env s 0 ?b, s)"
    using ck_start_flying [OF assms(1,2)] assms(4,5) by simp
  have run: "run k = (ck_flying env s k ?b, s)" if "k \<le> length D" for k
    unfolding assms(6) start by (rule ck_flying_run [OF r segs]) (use that in \<open>unfold D\<close>)
  have "ck_serialize_segment index seg n ?b = ck_serialize_segment index seg n (c\<lparr>ck_start_sequence := ck_global_sequence c\<rparr>)"
    for index seg n by (cases index) (simp_all add: ck_serialize_segment_def)
  then have req: "ck_request env s k ?b = CkWrite (D ! k) (ck_dma_image (ck_serialize_segment (ce_index env s) (D ! k)
      (64 * 1024 * 1024) (c\<lparr>ck_start_sequence := ck_global_sequence c\<rparr>)))" if "k < length D" for k
    unfolding ck_request_def D using that by simp
  let ?c = "ck_flying env s (length D) ?b"
  let ?c1 = "?c\<lparr>ck_io := None, ck_io_pending := False, ck_versions := ck_bump_versions D (ck_versions c), ck_state := CkUpdatingSuperblock\<rparr>"
  have flds: "ck_io ?c = Some CkSync" "ck_pending ?c = D" "ck_versions ?c = ck_versions c" "ck_start_sequence ?c = ck_global_sequence c"
    "ck_positions ?c = ck_positions c" "ck_sequence ?c = ck_sequence c" "ck_callback ?c = Some cb"
    using D by (simp_all add: ck_flying_def ck_request_def)
  obtain status s1 where upd: "update ?c1 (ck_global_sequence c) (take (ck_count ?c1) (ck_positions c)) s = (status, s1)"
    by fastforce
  have last: "run (length D + 1) = ck_io_complete env 0 (?c, s)"
    using run [of "length D"] unfolding assms(6) by simp
  obtain c2 where fin: "snd (run (length D + 1)) = snd (ce_run env cb status (c2, s1))"
    "ck_sequence c2 = ck_sequence c + (if status = 0 then 1 else 0)" "ck_state (fst (run (length D + 1))) = CkIdle"
    using ck_sync_ends [OF flds(1,7) assms(3) refl, of s status s1] upd unfolding last flds by auto
  have "ck_io (fst (run k)) = Some (ck_request env s k ?b)" "snd (run k) = s" if "k \<le> length D" for k
    using run [OF that] by (simp_all add: ck_flying_def)
  then have "\<forall>k < length D. snd (run k) = s \<and> ck_io (fst (run k)) = Some (CkWrite (D ! k) (ck_dma_image
            (ck_serialize_segment (ce_index env s) (D ! k) (64 * 1024 * 1024) (c\<lparr>ck_start_sequence := ck_global_sequence c\<rparr>))))"
    and "ck_io (fst (run (length D))) = Some CkSync" "snd (run (length D)) = s"
    using req D by (simp_all add: ck_request_def)
  moreover have "\<exists>c1 c2 status s1. update c1 (ck_global_sequence c) (take (ck_count c1) (ck_positions c)) s = (status, s1)
          \<and> ck_versions c1 = ck_bump_versions D (ck_versions c)
          \<and> ck_sequence c2 = ck_sequence c + (if status = 0 then 1 else 0)
          \<and> snd (run (length D + 1)) = snd (ce_run env cb status (c2, s1))
          \<and> ck_state (fst (run (length D + 1))) = CkIdle"
    by (intro exI [of _ ?c1] exI [of _ c2] exI [of _ status] exI [of _ s1]) (use upd fin in simp)
  ultimately show ?thesis by blast
qed

theorem ckpt_writes_dirty_segments_witness:
  "\<exists>run. run = (\<lambda>k. (ck_io_complete ck_demo_env 0 ^^ k) (ck_start_checkpoint ck_demo_env 7 (ck_demo, [], [])))
     \<and> (\<exists>bytes. ck_io (fst (run 0)) = Some (CkWrite 0 bytes)) \<and> ck_io (fst (run 1)) = Some CkSync
     \<and> (\<exists>ps. snd (run 2) = ([(0, ps)], [0]))"
proof -
  let ?run = "\<lambda>k. (ck_io_complete ck_demo_env 0 ^^ k) (ck_start_checkpoint ck_demo_env 7 (ck_demo, [], []))"
  have "ce_superblock ck_demo_env = Some (\<lambda>_ seq ps (us, cbs). (0, us @ [(seq, ps)], cbs))"
    by (simp add: ck_demo_env_def)
  note main = ckpt_writes_dirty_segments [OF ck_demo_facts(1,2) this ck_demo_facts(3) [symmetric] not_Cons_self2 refl, where cb = 7 and s = "([], [])"]
  have c: "ck_global_sequence ck_demo = 0" by (simp add: ck_demo_def ck_new_def)
  from main have "\<exists>bytes. ck_io (fst (?run 0)) = Some (CkWrite 0 bytes)" "ck_io (fst (?run 1)) = Some CkSync"
    by auto
  moreover have "\<exists>ps. snd (?run 2) = ([(0, ps)], [0])"
  proof -
    from conjunct2 [OF conjunct2 [OF conjunct2 [OF main]]]
    obtain c1 c2 :: "nat ckpt" and status s1 where
      u: "(case ([], []) of (us, cbs) \<Rightarrow> (0, us @ [(ck_global_sequence ck_demo, take (ck_count c1) (ck_positions ck_demo))], cbs)) = (status, s1)"
      and r: "snd (?run (length [0 :: nat] + 1)) = snd (ce_run ck_demo_env 7 status (c2, s1))"
      by blast
    from u r show ?thesis by (auto simp: c ck_demo_env_def numeral_2_eq_2)
  qed
  ultimately show ?thesis by blast
qed

text \<open>A failed checkpoint forgets what was dirty. When the write of the first dirty segment fails, the
  callback gets the error and the manager is idle with no segment marked dirty; the next checkpoint
  therefore reports success and counts as a new version of the index although it writes nothing.\<close>

theorem ckpt_failure_forgets_dirty:
  assumes "ck_state c = CkIdle" "ck_resources env s c" "filter (\<lambda>i. ck_dirty c ! i) [0..<ck_segments] \<noteq> []"
    and "status \<noteq> 0" "\<forall>cb st c s. fst (ce_run env cb st (c, s)) = c"
    and "ck_io_complete env status (ck_start_checkpoint env cb (c, s)) = (c1, s1)"
    and "ck_start_checkpoint env cb' (c1, s1') = (c2, s2)"
  shows "(\<exists>d. s1 = snd (ce_run env cb status (d, s)))
       \<and> ck_state c1 = CkIdle \<and> ck_dirty_segment_count c1 = 0 \<and> ck_sequence c1 = ck_sequence c
       \<and> (\<exists>d. s2 = snd (ce_run env cb' 0 (d, s1')))
       \<and> ck_state c2 = CkIdle \<and> ck_io c2 = None \<and> ck_sequence c2 = ck_sequence c + 1 \<and> ck_versions c2 = ck_versions c"
proof -
  let ?b = "ck_begun env cb s c"
  let ?d = "(ck_flying env s 0 ?b)\<lparr>ck_io := None, ck_io_pending := False, ck_state := CkFailed\<rparr>"
  have p: "0 < length (ck_pending ?b)" using assms(3) by simp
  have flds: "ck_callback ?d = Some cb" "ck_dirty ?d = replicate ck_segments False" "ck_sequence ?d = ck_sequence c"
    "ck_versions ?d = ck_versions c" "ck_io ?d = None"
    by (simp_all add: ck_flying_def)
  obtain c3 s3 where cb: "ce_run env cb status (?d, s) = (c3, s3)" by fastforce
  then have c3: "c3 = ?d" using assms(5) by (metis fst_conv)
  have "ck_io (ck_flying env s 0 ?b) = Some (CkWrite (ck_pending ?b ! 0)
      (ck_dma_image (ck_serialize_segment (ce_index env s) (ck_pending ?b ! 0) (64 * 1024 * 1024) ?b)))"
    using p by (simp add: ck_flying_def ck_request_def)
  then have "ck_io_complete env status (ck_flying env s 0 ?b, s)
      = ck_complete env status ((ck_flying env s 0 ?b)\<lparr>ck_io := None, ck_io_pending := False\<rparr>, s)"
    using assms(4) by (simp add: ck_io_complete_def ck_on_segment_written_def Let_def)
  also have "\<dots> = (c3\<lparr>ck_callback := None, ck_state := CkIdle\<rparr>, s3)"
    using assms(4) cb flds(1) by (simp add: ck_complete_def Let_def)
  finally have c1: "c1 = ?d\<lparr>ck_callback := None, ck_state := CkIdle\<rparr>" "s1 = s3"
    using assms(6) by (auto simp: ck_start_flying [OF assms(1-3)] c3)
  have idle: "ck_state c1 = CkIdle" "ck_dirty c1 = replicate ck_segments False" "ck_sequence c1 = ck_sequence c"
    "ck_versions c1 = ck_versions c" "ck_io c1 = None"
    using flds by (simp_all add: c1)
  let ?e = "(ck_begun env cb' s1' c1)\<lparr>ck_sequence := ck_sequence c + 1, ck_state := CkComplete\<rparr>"
  have none: "filter (\<lambda>i. ck_dirty c1 ! i) [0..<ck_segments] = []" by (simp add: idle filter_empty_conv)
  have "ck_start_checkpoint env cb' (c1, s1') = ck_complete env 0 ((ck_begun env cb' s1' c1)\<lparr>ck_state := CkSnapshoting\<rparr>, s1')"
    using none idle(1) by (cases c1; cases "ce_manager env s1'")
      (auto simp: ck_start_checkpoint_def Let_def ck_begun_def ck_snapshot_positions_def)
  also have "\<dots> = (case ce_run env cb' 0 (?e, s1') of (c4, s4) \<Rightarrow> (c4\<lparr>ck_callback := None, ck_state := CkIdle\<rparr>, s4))"
    using idle(3) by (simp add: ck_complete_def Let_def split: prod.splits)
  finally have "c2 = (fst (ce_run env cb' 0 (?e, s1')))\<lparr>ck_callback := None, ck_state := CkIdle\<rparr>"
    "s2 = snd (ce_run env cb' 0 (?e, s1'))"
    using assms(7) by (simp_all split: prod.splits)
  then have c2: "c2 = ?e\<lparr>ck_callback := None, ck_state := CkIdle\<rparr>" "\<exists>d. s2 = snd (ce_run env cb' 0 (d, s1'))"
    using assms(5) by auto
  have "ck_io (ck_begun env cb' s1' c1) = ck_io c1"
    by (simp add: ck_begun_def ck_snapshot_positions_def Let_def split: option.splits)
  then have "ck_state c2 = CkIdle \<and> ck_io c2 = None \<and> ck_sequence c2 = ck_sequence c + 1 \<and> ck_versions c2 = ck_versions c"
    using idle by (simp add: c2)
  moreover have "\<exists>d. s1 = snd (ce_run env cb status (d, s))" using cb c1(2) by (metis snd_conv)
  moreover have "ck_dirty_segment_count c1 = 0" using none by (simp add: ck_dirty_segment_count_def idle filter_empty_conv)
  ultimately show ?thesis using idle c2(2) by blast
qed

theorem ckpt_failure_forgets_dirty_witness:
  "\<exists>c1 s1 c2 s2. ck_io_complete ck_demo_env (- 5) (ck_start_checkpoint ck_demo_env 7 (ck_demo, [], [])) = (c1, s1)
     \<and> ck_start_checkpoint ck_demo_env 8 (c1, s1) = (c2, s2) \<and> ck_sequence c2 = 1 \<and> ck_io c2 = None"
proof -
  obtain c1 s1 where 1: "ck_io_complete ck_demo_env (- 5) (ck_start_checkpoint ck_demo_env 7 (ck_demo, [], [])) = (c1, s1)"
    by (metis surj_pair)
  obtain c2 s2 where 2: "ck_start_checkpoint ck_demo_env 8 (c1, s1) = (c2, s2)" by (metis surj_pair)
  have ne: "filter (\<lambda>i. ck_dirty ck_demo ! i) [0..<ck_segments] \<noteq> []" by (simp add: ck_demo_facts(3))
  have quiet: "\<forall>cb st c s. fst (ce_run ck_demo_env cb st (c, s)) = c" by (simp add: ck_demo_env_def split: prod.splits)
  have "ck_sequence ck_demo = 0" by (simp add: ck_demo_def ck_new_def)
  with ckpt_failure_forgets_dirty [OF ck_demo_facts(1,2) ne _ quiet 1 2] 1 2 show ?thesis by auto
qed

text \<open>The snapshot of a running checkpoint is not protected. \<^verbatim>\<open>Engine::start_checkpoint\<close> stores the
  current sequence and write position in the manager before it starts a checkpoint; when one is
  running, the new request is refused, but its position replaces the one of the running checkpoint.
  The superblock then gets the sequence of the start with a later position, and recovery, which
  scans from that position, skips the entries between the two.\<close>

theorem ckpt_rejected_start_moves_snapshot:
  "snd ((ck_io_complete ck_demo_env 0 ^^ 2)
      (ck_engine_start ck_demo_env 8 seq2 [later] (ck_engine_start ck_demo_env 7 seq1 [pos] (ck_demo, [], []))))
   = ([(seq1, [later])], [- 1, 0])"
proof -
  let ?e = "ck_demo_env" and ?c = "ck_set_positions [pos] (ck_demo\<lparr>ck_global_sequence := seq1\<rparr>)"
  let ?b = "ck_begun ?e 7 ([], []) ?c"
  let ?b2 = "ck_set_positions [later] (?b\<lparr>ck_global_sequence := seq2\<rparr>)"
  have c: "ck_dirty ?c = ck_dirty ck_demo" "ck_state ?c = CkIdle" "ck_resources ?e s ?c" for s
    using ck_demo_facts(1) ck_demo_facts(2) [of s] by (simp_all add: ck_set_positions_def Let_def ck_resources_def)
  have 1: "ck_engine_start ?e 7 seq1 [pos] (ck_demo, [], []) = (ck_flying ?e ([], []) 0 ?b, [], [])"
    unfolding ck_engine_start_def using ck_start_flying [OF c(2,3)] ck_demo_facts(3) c(1) by simp
  have pend: "ck_pending ?b = [0]" "ck_pending ?b2 = [0]"
    using ck_demo_facts(3) c(1) by (simp_all add: ck_set_positions_def Let_def)
  have "ck_set_positions [later] ((ck_flying ?e ([], []) 0 ?b)\<lparr>ck_global_sequence := seq2\<rparr>) = ck_flying ?e ([], []) 0 ?b2"
    by (cases ck_demo) (simp add: ck_flying_def ck_set_positions_def ck_begun_def ck_snapshot_positions_def ck_request_def
        ck_serialize_segment_def ck_demo_env_def Let_def)
  moreover have "ck_state (ck_flying ?e ([], []) 0 ?b) \<noteq> CkIdle" by (simp add: ck_flying_def)
  ultimately have 2: "ck_engine_start ?e 8 seq2 [later] (ck_flying ?e ([], []) 0 ?b, [], [])
      = (ck_flying ?e ([], []) 0 ?b2, [], [- 1])"
    unfolding ck_engine_start_def
    by (simp add: ck_start_checkpoint_def) (simp add: ck_demo_env_def ck_flying_def)
  let ?s = "([], [- 1])"
  have 3: "ck_flying ?e ([], []) 0 ?b2 = ck_flying ?e ?s 0 ?b2"
    by (simp add: ck_flying_def ck_request_def ck_demo_env_def)
  have r: "ck_resources ?e ?s ?b2" and segs: "\<forall>seg \<in> set (ck_pending ?b2). seg < ck_segments"
    using c(3) [of ?s] pend(2) by (simp_all add: ck_resources_def ck_set_positions_def Let_def kMemIndexSegmentCount_def)
  have 4: "ck_io_complete ?e 0 (ck_flying ?e ?s 0 ?b2, ?s) = (ck_flying ?e ?s 1 ?b2, ?s)"
    using ck_flying_next [OF r segs, of 0] pend(2) by simp
  have flds: "ck_io (ck_flying ?e ?s 1 ?b2) = Some CkSync" "ck_start_sequence (ck_flying ?e ?s 1 ?b2) = seq1"
    "take (ck_count (ck_flying ?e ?s 1 ?b2)) (ck_positions (ck_flying ?e ?s 1 ?b2)) = [later]"
    "ck_callback (ck_flying ?e ?s 1 ?b2) = Some 7"
    using pend(2) by (simp_all add: ck_flying_def ck_request_def ck_set_positions_def Let_def kMaxBufferCount_def)
  have 5: "snd (ck_io_complete ?e 0 (ck_flying ?e ?s 1 ?b2, ?s)) = ([(seq1, [later])], [- 1, 0])"
    using flds by (simp add: ck_io_complete_def ck_on_sync_complete_def ck_on_superblock_updated_def ck_complete_def Let_def
        ck_demo_env_def)
  show ?thesis unfolding 1 2 3 by (simp add: numeral_2_eq_2 4 5 [simplified])
qed

end
