(* ===== verification/KvSuperblock.thy ===== *)
theory KvSuperblock
  imports KvEntry
begin

text \<open>
  The superblock: its memory image (\<^verbatim>\<open>Superblock\<close> of \<^verbatim>\<open>include/spdk_kv/entry.h\<close> with the
  padding of the x86-64 ABI, 41376 bytes), its two copies in the superblock blob, and the routines
  of \<^verbatim>\<open>src/engine.cpp\<close> that create, load, write and update it. Unused array slots and padding are
  zero: the engine clears the struct once and only ever fills slots.
\<close>

section \<open>Layout\<close>

text \<open>A state byte that is no enumerator is read as the state no predicate of the source accepts.\<close>

definition file_state_of :: "u8 \<Rightarrow> file_state" where
  "file_state_of b = (if b = 0 then FActive else if b = 1 then FSealed else if b = 2 then FCompacting else FDeleted)"

lemma file_state_of_code [simp]: "file_state_of (file_state_code s) = s"
  by (cases s) (simp_all add: file_state_of_def)

definition file_mapping_bytes :: "file_mapping \<Rightarrow> byte list" where
  "file_mapping_bytes m = enc_u16 (fm_file_id m) @ replicate 6 0 @ enc_u64 (fm_blob_id m) @ enc_u64 (fm_size m)
     @ enc_u64 (fm_write_offset m) @ enc_u8 (file_state_code (fm_state m)) @ replicate 7 0"

definition file_mapping_at :: "byte list \<Rightarrow> nat \<Rightarrow> file_mapping" where
  "file_mapping_at bs off = \<lparr>fm_file_id = get_u16 bs off, fm_blob_id = get_u64 bs (off + 8),
     fm_size = get_u64 bs (off + 16), fm_write_offset = get_u64 bs (off + 24),
     fm_state = file_state_of (get_u8 bs (off + 32))\<rparr>"

definition buffer_pos_bytes :: "active_buffer_pos \<Rightarrow> byte list" where
  "buffer_pos_bytes p = enc_u16 (ab_file_id p) @ replicate 6 0 @ enc_u64 (ab_page_index p)"

definition buffer_pos_at :: "byte list \<Rightarrow> nat \<Rightarrow> active_buffer_pos" where
  "buffer_pos_at bs off = \<lparr>ab_file_id = get_u16 bs off, ab_page_index = get_u64 bs (off + 8)\<rparr>"

definition file_mapping_area :: "file_mapping list \<Rightarrow> byte list" where
  "file_mapping_area ms = concat (map file_mapping_bytes ms) @ replicate (40 * (kMaxFileCount - length ms)) 0"

definition buffer_pos_area :: "active_buffer_pos list \<Rightarrow> byte list" where
  "buffer_pos_area ps = concat (map buffer_pos_bytes ps) @ replicate (16 * (kMaxBufferCount - length ps)) 0"

definition superblock_head :: "superblock \<Rightarrow> byte list" where
  "superblock_head sb = enc_u32 (sb_magic sb) @ enc_u32 (sb_version sb) @ enc_u64 (sb_sequence sb)
     @ enc_u64 (sb_create_time sb) @ enc_u64 (sb_last_mount_time sb) @ enc_u64 (sb_total_capacity sb)
     @ enc_u64 (sb_data_file_size sb) @ enc_u32 (sb_alignment_unit sb) @ replicate 4 0
     @ enc_u64 (sb_mem_index_blob_a sb) @ enc_u64 (sb_mem_index_blob_b sb) @ enc_u64 (sb_mem_index_size sb)
     @ enc_u8 (sb_active_mem_index_area sb) @ enc_u8 0 @ enc_u16 (sb_active_file_id sb)
     @ enc_u16 (word_of_nat (length (sb_file_mappings sb))) @ replicate 2 0"

definition superblock_checkpoint :: "superblock \<Rightarrow> byte list" where
  "superblock_checkpoint sb = enc_u64 (sb_checkpoint_sequence sb) @ enc_u32 (sb_checkpoint_global_seq sb)
     @ enc_u16 (sb_checkpoint_file_id sb) @ replicate 2 0 @ enc_u64 (sb_checkpoint_page_index sb)"

definition superblock_tail :: "superblock \<Rightarrow> byte list" where
  "superblock_tail sb = enc_u8 (word_of_nat (length (sb_active_buffer_positions sb))) @ replicate 7 0
     @ enc_u64 (sb_total_entries sb) @ enc_u64 (sb_total_data_bytes sb) @ enc_u64 (sb_total_garbage_bytes sb)
     @ enc_u32 (sb_alloc_log_head sb) @ enc_u32 (sb_alloc_log_tail sb) @ enc_u32 (sb_alloc_log_sequence sb)"

text \<open>Everything before the checksum.\<close>

definition superblock_body :: "superblock \<Rightarrow> byte list" where
  "superblock_body sb = superblock_head sb @ file_mapping_area (sb_file_mappings sb) @ superblock_checkpoint sb
     @ buffer_pos_area (sb_active_buffer_positions sb) @ superblock_tail sb"

definition superblock_bytes :: "superblock \<Rightarrow> byte list" where
  "superblock_bytes sb = superblock_body sb @ enc_u32 (crc32_calculate (superblock_body sb))"

definition superblock_at :: "byte list \<Rightarrow> superblock" where
  "superblock_at bs = \<lparr>sb_magic = get_u32 bs 0, sb_version = get_u32 bs 4, sb_sequence = get_u64 bs 8,
     sb_create_time = get_u64 bs 16, sb_last_mount_time = get_u64 bs 24, sb_total_capacity = get_u64 bs 32,
     sb_data_file_size = get_u64 bs 40, sb_alignment_unit = get_u32 bs 48,
     sb_mem_index_blob_a = get_u64 bs 56, sb_mem_index_blob_b = get_u64 bs 64, sb_mem_index_size = get_u64 bs 72,
     sb_active_mem_index_area = get_u8 bs 80, sb_active_file_id = get_u16 bs 82,
     sb_file_mappings = map (\<lambda>i. file_mapping_at bs (88 + 40 * i)) [0..<unat (get_u16 bs 84)],
     sb_checkpoint_sequence = get_u64 bs 41048, sb_checkpoint_global_seq = get_u32 bs 41056,
     sb_checkpoint_file_id = get_u16 bs 41060, sb_checkpoint_page_index = get_u64 bs 41064,
     sb_active_buffer_positions = map (\<lambda>i. buffer_pos_at bs (41072 + 16 * i)) [0..<unat (get_u8 bs 41328)],
     sb_total_entries = get_u64 bs 41336, sb_total_data_bytes = get_u64 bs 41344,
     sb_total_garbage_bytes = get_u64 bs 41352, sb_alloc_log_head = get_u32 bs 41360,
     sb_alloc_log_tail = get_u32 bs 41364, sb_alloc_log_sequence = get_u32 bs 41368\<rparr>"

definition sb_fits :: "superblock \<Rightarrow> bool" where
  "sb_fits sb \<longleftrightarrow> length (sb_file_mappings sb) \<le> kMaxFileCount
     \<and> length (sb_active_buffer_positions sb) \<le> kMaxBufferCount"

definition superblock_is_valid :: "superblock \<Rightarrow> bool" where
  "superblock_is_valid sb = (sb_magic sb = kSuperblockMagic)"

text \<open>The checks of \<^verbatim>\<open>Engine::load_superblock\<close> and \<^verbatim>\<open>IndexLoader::validate_superblock\<close> on an image.\<close>

definition validate_superblock :: "byte list \<Rightarrow> bool" where
  "validate_superblock bs = (if get_u32 bs 0 \<noteq> kSuperblockMagic then False
     else get_u32 bs 41372 = crc32_calculate (take 41372 bs))"

section \<open>The two copies\<close>

record sb_disk =
  sd_primary :: "byte list"
  sd_backup :: "byte list"

definition sb_aligned_size :: nat where
  "sb_aligned_size = unat (align_up 41376 kPageSize)"

definition sb_image :: "superblock \<Rightarrow> byte list" where
  "sb_image sb = put_bytes 0 (superblock_bytes sb) (replicate sb_aligned_size 0)"

datatype sb_write = SbBackup "byte list" | SbPrimary "byte list"

fun sb_apply :: "sb_write \<Rightarrow> sb_disk \<Rightarrow> sb_disk" where
  "sb_apply (SbBackup bs) d = d\<lparr>sd_backup := bs\<rparr>"
| "sb_apply (SbPrimary bs) d = d\<lparr>sd_primary := bs\<rparr>"

text \<open>\<open>ready\<close>: blob, environment and channel exist; \<open>dma\<close>: the buffer was allocated; \<open>io\<close> is what SPDK does
  with a write, its status and what the area holds afterwards.\<close>

definition write_superblock ::
    "bool \<Rightarrow> bool \<Rightarrow> (sb_write \<Rightarrow> bool \<times> byte list) \<Rightarrow> superblock \<times> sb_disk \<Rightarrow> kv_error \<times> superblock \<times> sb_disk" where
  "write_superblock ready dma io = (\<lambda>(sb, d).
     if \<not> ready then (KInternalError, sb, d)
     else (let sb1 = sb\<lparr>sb_sequence := sb_sequence sb + 1\<rparr>; buf = sb_image sb1 in
       if \<not> dma then (KInternalError, sb1, d)
       else (case io (SbBackup buf) of (ok, bs) \<Rightarrow>
         let d1 = sb_apply (SbBackup bs) d in
         if \<not> ok then (KIoError, sb1, d1)
         else (case io (SbPrimary buf) of (ok, bs) \<Rightarrow>
           let d2 = sb_apply (SbPrimary bs) d1 in
           if \<not> ok then (KIoError, sb1, d2) else (KSuccess, sb1, d2)))))"

text \<open>\<open>read\<close> gives the content of an area unless the read fails. The first arguments are the results of
  looking up and opening the super blob and of the two allocations.\<close>

definition load_superblock ::
    "bool \<Rightarrow> u64 option \<Rightarrow> bool \<Rightarrow> bool \<Rightarrow> bool \<Rightarrow> (byte list \<Rightarrow> byte list option) \<Rightarrow> sb_disk \<Rightarrow> kv_error + superblock" where
  "load_superblock initialized super opened dma channel read d =
     (if \<not> initialized then Inl KInternalError
      else if super = None then Inl KCorruption
      else if \<not> opened then Inl KCorruption
      else if \<not> dma then Inl KInternalError
      else if \<not> channel then Inl KInternalError
      else (case read (sd_primary d) of
              Some bs \<Rightarrow> if validate_superblock bs then Inr (superblock_at bs)
                         else (case read (sd_backup d) of
                                 Some bs \<Rightarrow> if validate_superblock bs then Inr (superblock_at bs) else Inl KCorruption
                               | None \<Rightarrow> Inl KCorruption)
            | None \<Rightarrow> (case read (sd_backup d) of
                         Some bs \<Rightarrow> if validate_superblock bs then Inr (superblock_at bs) else Inl KCorruption
                       | None \<Rightarrow> Inl KCorruption)))"

text \<open>The result is the blob id and whether the handle is open.\<close>

definition create_superblock_blob :: "bool \<Rightarrow> u64 option \<Rightarrow> bool \<Rightarrow> bool \<Rightarrow> kv_error \<times> (u64 option \<times> bool)" where
  "create_superblock_blob initialized allocated set_super opened =
     (if \<not> initialized then (KInternalError, None, False)
      else (case allocated of None \<Rightarrow> (KIoError, None, False)
        | Some b \<Rightarrow> if \<not> set_super then (KIoError, Some b, False)
                    else if \<not> opened then (KIoError, Some b, False)
                    else (KSuccess, Some b, True)))"

section \<open>File mappings\<close>

record file_info =
  fi_file_id :: u16
  fi_blob_id :: u64
  fi_state :: file_state
  fi_size :: u64
  fi_write_offset :: u64
  fi_blob_opened :: bool

definition fi_mapping :: "file_info \<Rightarrow> file_mapping" where
  "fi_mapping f = \<lparr>fm_file_id = fi_file_id f, fm_blob_id = fi_blob_id f, fm_size = fi_size f,
     fm_write_offset = fi_write_offset f, fm_state = fi_state f\<rparr>"

text \<open>The loop over the mappings: the first one with the file's id is overwritten.\<close>

fun update_mapping :: "file_info \<Rightarrow> file_mapping list \<Rightarrow> file_mapping list option" where
  "update_mapping f [] = None"
| "update_mapping f (m # ms) =
     (if fm_file_id m = fi_file_id f then Some (fi_mapping f # ms)
      else map_option (\<lambda>ms'. m # ms') (update_mapping f ms))"

definition update_superblock_file_mapping :: "file_info option \<Rightarrow> superblock \<Rightarrow> superblock" where
  "update_superblock_file_mapping file sb =
     (case file of None \<Rightarrow> sb
      | Some f \<Rightarrow> (case update_mapping f (sb_file_mappings sb) of
          Some ms \<Rightarrow> sb\<lparr>sb_file_mappings := ms\<rparr>
        | None \<Rightarrow> if length (sb_file_mappings sb) < kMaxFileCount
                  then sb\<lparr>sb_file_mappings := sb_file_mappings sb @ [fi_mapping f]\<rparr> else sb))"

section \<open>Reading back the image\<close>

lemma length_file_mapping_bytes [simp]: "length (file_mapping_bytes m) = 40"
  by (simp add: file_mapping_bytes_def)

lemma length_buffer_pos_bytes [simp]: "length (buffer_pos_bytes p) = 16"
  by (simp add: buffer_pos_bytes_def)

lemma file_mapping_roundtrip: "file_mapping_at (file_mapping_bytes m @ rest) 0 = m"
  by (simp add: file_mapping_at_def file_mapping_bytes_def kv_layout)

lemma buffer_pos_roundtrip: "buffer_pos_at (buffer_pos_bytes p @ rest) 0 = p"
  by (simp add: buffer_pos_at_def buffer_pos_bytes_def kv_layout)

lemma file_mapping_at_skip: "length pre = n \<Longrightarrow> file_mapping_at (pre @ xs) (n + off) = file_mapping_at xs off"
  by (simp add: file_mapping_at_def get_offset_append add.assoc [symmetric] get_skip)

lemma buffer_pos_at_skip: "length pre = n \<Longrightarrow> buffer_pos_at (pre @ xs) (n + off) = buffer_pos_at xs off"
  by (simp add: buffer_pos_at_def get_offset_append add.assoc [symmetric] get_skip)

lemma file_mappings_at:
  "map (\<lambda>i. file_mapping_at (concat (map file_mapping_bytes ms) @ rest) (40 * i)) [0..<length ms] = ms"
proof (induction ms)
  case Nil
  then show ?case by simp
next
  case (Cons m ms)
  have "map (\<lambda>i. file_mapping_at (file_mapping_bytes m @ concat (map file_mapping_bytes ms) @ rest) (40 + 40 * i)) [0..<length ms]
      = map (\<lambda>i. file_mapping_at (concat (map file_mapping_bytes ms) @ rest) (40 * i)) [0..<length ms]"
    by (simp add: file_mapping_at_skip)
  then show ?case using Cons file_mapping_roundtrip
    by (simp add: upt_conv_Cons map_Suc_upt [symmetric] comp_def del: upt_Suc)
qed

lemma buffer_poss_at:
  "map (\<lambda>i. buffer_pos_at (concat (map buffer_pos_bytes ps) @ rest) (16 * i)) [0..<length ps] = ps"
proof (induction ps)
  case Nil
  then show ?case by simp
next
  case (Cons p ps)
  have "map (\<lambda>i. buffer_pos_at (buffer_pos_bytes p @ concat (map buffer_pos_bytes ps) @ rest) (16 + 16 * i)) [0..<length ps]
      = map (\<lambda>i. buffer_pos_at (concat (map buffer_pos_bytes ps) @ rest) (16 * i)) [0..<length ps]"
    by (simp add: buffer_pos_at_skip)
  then show ?case using Cons buffer_pos_roundtrip
    by (simp add: upt_conv_Cons map_Suc_upt [symmetric] comp_def del: upt_Suc)
qed

lemma length_areas:
  "length ms \<le> kMaxFileCount \<Longrightarrow> length (file_mapping_area ms) = 40960"
  "length ps \<le> kMaxBufferCount \<Longrightarrow> length (buffer_pos_area ps) = 256"
proof -
  have "length (concat (map file_mapping_bytes ms)) = 40 * length ms" by (induction ms) simp_all
  then show "length ms \<le> kMaxFileCount \<Longrightarrow> length (file_mapping_area ms) = 40960"
    by (simp add: file_mapping_area_def kMaxFileCount_def)
  have "length (concat (map buffer_pos_bytes ps)) = 16 * length ps" by (induction ps) simp_all
  then show "length ps \<le> kMaxBufferCount \<Longrightarrow> length (buffer_pos_area ps) = 256"
    by (simp add: buffer_pos_area_def kMaxBufferCount_def)
qed

lemma length_superblock_parts [simp]:
  "length (superblock_head sb) = 88" "length (superblock_checkpoint sb) = 24" "length (superblock_tail sb) = 44"
  by (simp_all add: superblock_head_def superblock_checkpoint_def superblock_tail_def)

lemma length_superblock_body: "sb_fits sb \<Longrightarrow> length (superblock_body sb) = 41372"
  by (simp add: superblock_body_def sb_fits_def length_areas)

lemma superblock_at_body:
  assumes "sb_fits sb"
  shows "superblock_at (superblock_body sb @ rest) = sb"
proof -
  note l = length_areas(1) [OF conjunct1 [OF assms [unfolded sb_fits_def]]]
    length_areas(2) [OF conjunct2 [OF assms [unfolded sb_fits_def]]]
  let ?bs = "superblock_body sb @ rest" and ?ms = "sb_file_mappings sb" and ?ps = "sb_active_buffer_positions sb"
  have pre: "\<exists>post. ?bs = superblock_head sb @ concat (map file_mapping_bytes ?ms) @ post"
    by (simp add: superblock_body_def file_mapping_area_def)
  have pre2: "\<exists>pre post. ?bs = pre @ concat (map buffer_pos_bytes ?ps) @ post \<and> length pre = 41072"
    by (rule exI [of _ "superblock_head sb @ file_mapping_area ?ms @ superblock_checkpoint sb"])
      (simp add: superblock_body_def buffer_pos_area_def l)
  have n: "unat (word_of_nat (length ?ms) :: u16) = length ?ms" "unat (word_of_nat (length ?ps) :: u8) = length ?ps"
    using assms by (auto intro!: unat_of_nat_small simp: sb_fits_def kMaxFileCount_def kMaxBufferCount_def)
  have ms: "map (\<lambda>i. file_mapping_at ?bs (88 + 40 * i)) [0..<length ?ms] = ?ms"
    using pre file_mappings_at by (auto simp: file_mapping_at_skip)
  have ps: "map (\<lambda>i. buffer_pos_at ?bs (41072 + 16 * i)) [0..<length ?ps] = ?ps"
    using pre2 buffer_poss_at by (auto simp: buffer_pos_at_skip)
  have cnt: "get_u16 ?bs 84 = word_of_nat (length ?ms)" "get_u8 ?bs 41328 = word_of_nat (length ?ps)"
    by (simp_all add: superblock_body_def superblock_head_def superblock_tail_def kv_layout l)
  show ?thesis
    unfolding superblock_at_def cnt n ms ps
    by (rule superblock.equality)
      (simp_all add: superblock_body_def superblock_head_def superblock_checkpoint_def superblock_tail_def kv_layout l)
qed

lemma length_superblock_bytes: "sb_fits sb \<Longrightarrow> length (superblock_bytes sb) = 41376"
  by (simp add: superblock_bytes_def length_superblock_body)

lemma sb_aligned_size_eq: "sb_aligned_size = 45056"
  by (simp add: sb_aligned_size_def unat_align_up_page)

lemma sb_image_eq: "sb_fits sb \<Longrightarrow> sb_image sb = superblock_bytes sb @ replicate 3680 0"
  by (simp add: sb_image_def put_bytes_def sb_aligned_size_eq length_superblock_bytes)

lemma sb_image_reads:
  assumes "sb_fits sb"
  shows "superblock_at (sb_image sb) = sb" "take 41372 (sb_image sb) = superblock_body sb"
    "get_u32 (sb_image sb) 41372 = crc32_calculate (superblock_body sb)"
proof -
  have img: "sb_image sb = superblock_body sb @ enc_u32 (crc32_calculate (superblock_body sb)) @ replicate 3680 0"
    by (simp add: sb_image_eq [OF assms] superblock_bytes_def)
  show "superblock_at (sb_image sb) = sb" unfolding img by (rule superblock_at_body [OF assms])
  show "take 41372 (sb_image sb) = superblock_body sb" "get_u32 (sb_image sb) 41372 = crc32_calculate (superblock_body sb)"
    unfolding img using length_superblock_body [OF assms] by (simp_all add: get_skip)
qed

lemma sb_image_valid:
  assumes "sb_fits sb" "superblock_is_valid sb"
  shows "validate_superblock (sb_image sb)"
proof -
  have "sb_magic (superblock_at (sb_image sb)) = get_u32 (sb_image sb) 0" by (simp add: superblock_at_def)
  then have "get_u32 (sb_image sb) 0 = kSuperblockMagic"
    using assms(2) by (simp add: sb_image_reads(1) [OF assms(1)] superblock_is_valid_def)
  then show ?thesis by (simp add: validate_superblock_def sb_image_reads [OF assms(1)])
qed

text \<open>Loading when everything around the two areas works.\<close>

lemma sb_load_eq:
  "load_superblock True (Some b) True True True Some d =
     (if validate_superblock (sd_primary d) then Inr (superblock_at (sd_primary d))
      else if validate_superblock (sd_backup d) then Inr (superblock_at (sd_backup d)) else Inl KCorruption)"
  by (simp add: load_superblock_def)

text \<open>A small superblock for the witnesses.\<close>

definition sb_demo :: superblock where
  "sb_demo = \<lparr>sb_magic = kSuperblockMagic, sb_version = 1, sb_sequence = 4, sb_create_time = 0, sb_last_mount_time = 0,
     sb_total_capacity = 0, sb_data_file_size = 0, sb_alignment_unit = 4096, sb_mem_index_blob_a = 0,
     sb_mem_index_blob_b = 0, sb_mem_index_size = 0, sb_active_mem_index_area = 0, sb_active_file_id = 0,
     sb_file_mappings = [], sb_checkpoint_sequence = 0, sb_checkpoint_global_seq = 9, sb_checkpoint_file_id = 0,
     sb_checkpoint_page_index = 0, sb_active_buffer_positions = [], sb_total_entries = 0, sb_total_data_bytes = 0,
     sb_total_garbage_bytes = 0, sb_alloc_log_head = 0, sb_alloc_log_tail = 0, sb_alloc_log_sequence = 0\<rparr>"

lemma sb_demo_ok: "sb_fits sb_demo" "superblock_is_valid sb_demo"
  by (simp_all add: sb_demo_def sb_fits_def superblock_is_valid_def)

section \<open>Properties\<close>

text \<open>C22: The superblock survives a failure at any point of its update. The backup is written before the
  primary; \<open>io\<close> tells for each write whether it completes and what the area holds afterwards. A write
  that completes leaves its bytes. A failed write of the backup may leave anything; a failed write of the
  primary (an IO error or a loss of power, also between the two writes) leaves the old content, the new
  content, or torn bytes that do not pass the check of magic and checksum (bytes that are neither copy and
  pass it are the one case left out). Before the update the primary holds \<open>old\<close>. Then the next start
  loads \<open>old\<close> or \<open>new\<close> with every field, never an error: \<open>new\<close> exactly when the buffer was allocated, the
  backup was written and the primary did not keep its old content; so always after a success, and also from
  a torn primary.\<close>

theorem superblock_update_crash_safe:
  assumes "sb_fits old" "superblock_is_valid old" "sd_primary d = sb_image old"
    and "sb_fits sb" "superblock_is_valid sb"
    and "\<forall>w bs. io w = (True, bs) \<longrightarrow> w = SbBackup bs \<or> w = SbPrimary bs"
    and "\<forall>w bs. io (SbPrimary w) = (False, bs) \<longrightarrow> bs = sd_primary d \<or> bs = w \<or> \<not> validate_superblock bs"
    and "write_superblock True dma io (sb, d) = (result, new, d')"
  shows "new = sb\<lparr>sb_sequence := sb_sequence sb + 1\<rparr>
     \<and> load_superblock True (Some b) True True True Some d'
         = Inr (if dma \<and> fst (io (SbBackup (sb_image new))) \<and> snd (io (SbPrimary (sb_image new))) \<noteq> sd_primary d
                then new else old)
     \<and> (result = KSuccess \<longrightarrow> load_superblock True (Some b) True True True Some d' = Inr new)"
proof -
  let ?new = "sb\<lparr>sb_sequence := sb_sequence sb + 1\<rparr>"
  have new: "sb_fits ?new" "superblock_is_valid ?new"
    using assms(4,5) by (simp_all add: sb_fits_def superblock_is_valid_def)
  note valid = sb_image_valid [OF assms(1,2)] sb_image_valid [OF new]
  note at = sb_image_reads(1) [OF assms(1)] sb_image_reads(1) [OF new(1)]
  have eq: "new = ?new" using assms(8) by (auto simp: write_superblock_def Let_def split: if_splits prod.splits)
  obtain ok1 bs1 ok2 bs2 where io: "io (SbBackup (sb_image ?new)) = (ok1, bs1)" "io (SbPrimary (sb_image ?new)) = (ok2, bs2)"
    by fastforce
  have ok: "ok1 \<longrightarrow> bs1 = sb_image ?new" "ok2 \<longrightarrow> bs2 = sb_image ?new"
    "\<not> ok2 \<longrightarrow> bs2 = sb_image old \<or> bs2 = sb_image ?new \<or> \<not> validate_superblock bs2"
    using assms(6) [rule_format, of "SbBackup (sb_image ?new)" bs1] assms(6) [rule_format, of "SbPrimary (sb_image ?new)" bs2]
      assms(3,7) io by auto
  have same: "sb_image ?new = sb_image old \<Longrightarrow> ?new = old" using at by metis
  have "d' = (if \<not> dma then d else if \<not> ok1 then d\<lparr>sd_backup := bs1\<rparr> else d\<lparr>sd_backup := bs1, sd_primary := bs2\<rparr>)"
    and "result = (if \<not> dma then KInternalError else if ok1 \<and> ok2 then KSuccess else KIoError)"
    using assms(8) io by (auto simp: write_superblock_def Let_def split: if_splits)
  then show ?thesis using eq ok io valid at same assms(3) by (auto simp: sb_load_eq)
qed

text \<open>The two outcomes of a failed write of the primary: torn, and with its old content.\<close>

theorem superblock_update_crash_safe_witness:
  "\<exists>d1 d2. write_superblock True True (\<lambda>w. case w of SbBackup bs \<Rightarrow> (True, bs) | SbPrimary bs \<Rightarrow> (False, []))
        (sb_demo, \<lparr>sd_primary = sb_image sb_demo, sd_backup = []\<rparr>) = (KIoError, sb_demo\<lparr>sb_sequence := 5\<rparr>, d1)
     \<and> load_superblock True (Some 1) True True True Some d1 = Inr (sb_demo\<lparr>sb_sequence := 5\<rparr>)
     \<and> write_superblock True True
        (\<lambda>w. case w of SbBackup bs \<Rightarrow> (True, bs) | SbPrimary bs \<Rightarrow> (False, sb_image sb_demo))
        (sb_demo, \<lparr>sd_primary = sb_image sb_demo, sd_backup = []\<rparr>) = (KIoError, sb_demo\<lparr>sb_sequence := 5\<rparr>, d2)
     \<and> load_superblock True (Some 1) True True True Some d2 = Inr sb_demo"
proof -
  let ?io = "\<lambda>left w. case w of SbBackup bs \<Rightarrow> (True, bs) | SbPrimary bs \<Rightarrow> (False, left)"
  let ?d = "\<lparr>sd_primary = sb_image sb_demo, sd_backup = []\<rparr>"
  have bad: "\<not> validate_superblock []"
    by (simp add: validate_superblock_def get_u32_def slice_def kSuperblockMagic_def)
  have ne: "[] \<noteq> sb_image sb_demo" using bad sb_image_valid [OF sb_demo_ok] by metis
  have seq: "sb_sequence sb_demo + 1 = 5" by (simp add: sb_demo_def)
  have w: "\<exists>d'. write_superblock True True (?io left) (sb_demo, ?d) = (KIoError, sb_demo\<lparr>sb_sequence := 5\<rparr>, d')" for left
    by (simp add: write_superblock_def seq Let_def)
  obtain d1 where w1: "write_superblock True True (?io []) (sb_demo, ?d) = (KIoError, sb_demo\<lparr>sb_sequence := 5\<rparr>, d1)"
    using w by blast
  obtain d2 where w2: "write_superblock True True (?io (sb_image sb_demo)) (sb_demo, ?d) = (KIoError, sb_demo\<lparr>sb_sequence := 5\<rparr>, d2)"
    using w by blast
  have io: "\<forall>w bs. ?io left w = (True, bs) \<longrightarrow> w = SbBackup bs \<or> w = SbPrimary bs" for left
    by (auto split: sb_write.splits)
  have p: "sd_primary ?d = sb_image sb_demo" by simp
  have t1: "\<forall>w bs. ?io [] (SbPrimary w) = (False, bs) \<longrightarrow> bs = sd_primary ?d \<or> bs = w \<or> \<not> validate_superblock bs"
    using bad by simp
  have t2: "\<forall>w bs. ?io (sb_image sb_demo) (SbPrimary w) = (False, bs) \<longrightarrow> bs = sd_primary ?d \<or> bs = w \<or> \<not> validate_superblock bs"
    by simp
  from superblock_update_crash_safe [OF sb_demo_ok p sb_demo_ok io t1 w1, of 1]
    superblock_update_crash_safe [OF sb_demo_ok p sb_demo_ok io t2 w2, of 1] w1 w2 ne
  show ?thesis by simp
qed

text \<open>A primary superblock damaged inside one four-byte window is never used: loading falls back to the
  backup, and reports corruption only when that is not valid either.\<close>

theorem superblock_damage_falls_back:
  assumes "sb_fits sb" "sb_image sb = pre @ w @ post" "length w' = length w" "length w \<le> 4" "w' \<noteq> w"
    and "length pre + length w \<le> 41372" "sd_primary d = pre @ w' @ post"
  shows "load_superblock True (Some b) True True True Some d =
     (if validate_superblock (sd_backup d) then Inr (superblock_at (sd_backup d)) else Inl KCorruption)"
proof -
  let ?k = "41372 - (length pre + length w)"
  have body: "superblock_body sb = pre @ w @ take ?k post"
    using sb_image_reads(2) [OF assms(1)] assms(2,6) by simp
  have t: "take 41372 (pre @ w' @ post) = pre @ w' @ take ?k post" using assms(3,6) by simp
  have "get_u32 (pre @ w' @ post) 41372 = get_u32 (pre @ w @ post) 41372"
    using assms(3,6) by (simp add: get_u32_def slice_skip)
  also have "\<dots> = crc32_calculate (pre @ w @ take ?k post)"
    using sb_image_reads(3) [OF assms(1)] unfolding assms(2) body .
  also have "\<dots> \<noteq> crc32_calculate (pre @ w' @ take ?k post)"
    using crc32_window_eq [of w w' pre "take ?k post"] assms(3-5) by auto
  finally have "\<not> validate_superblock (sd_primary d)" unfolding validate_superblock_def assms(7) t by simp
  then show ?thesis by (simp add: sb_load_eq)
qed

theorem superblock_damage_falls_back_witness:
  "\<exists>d. sd_primary d \<noteq> sb_image sb_demo \<and> sd_backup d = sb_image sb_demo
     \<and> load_superblock True (Some 1) True True True Some d = Inr sb_demo"
proof -
  let ?img = "sb_image sb_demo"
  have len: "length ?img = 45056"
    using length_superblock_bytes [OF sb_demo_ok(1)] by (simp add: sb_image_eq [OF sb_demo_ok(1)])
  have img: "?img = take 100 ?img @ [?img ! 100] @ drop 101 ?img"
    using id_take_nth_drop [of 100 ?img] len by simp
  let ?d = "\<lparr>sd_primary = take 100 ?img @ [?img ! 100 + 1] @ drop 101 ?img, sd_backup = ?img\<rparr>"
  have "load_superblock True (Some 1) True True True Some ?d
      = (if validate_superblock (sd_backup ?d) then Inr (superblock_at (sd_backup ?d)) else Inl KCorruption)"
    by (rule superblock_damage_falls_back [OF sb_demo_ok(1) img, of "[?img ! 100 + 1]"]) (use len in simp_all)
  then have "load_superblock True (Some 1) True True True Some ?d = Inr sb_demo"
    by (simp add: sb_image_valid [OF sb_demo_ok] sb_image_reads(1) [OF sb_demo_ok(1)])
  moreover have "sd_primary ?d ! 100 \<noteq> ?img ! 100" using len by (simp add: nth_append)
  then have "sd_primary ?d \<noteq> ?img" by metis
  ultimately show ?thesis by (intro exI [of _ ?d]) simp
qed

end
