(* ===== verification/KvRecovery.thy ===== *)
theory KvRecovery
  imports KvIndexStore KvSuperblock
begin

text \<open>
  Recovery of the memory index, \<^verbatim>\<open>include/spdk_kv/recovery.h\<close> and \<^verbatim>\<open>src/recovery.cpp\<close>: the
  loader that reads the superblock, the two areas of the serialised index and then scans the data
  files behind the checkpoint position, chunk by chunk. A request to SPDK ends a step and is recorded
  in \<open>ld_io\<close>; its completion is the next step.
\<close>

section \<open>State\<close>

record scan_range =
  sr_file_id :: u16
  sr_start_page :: u64
  sr_end_page :: u64

text \<open>\<open>db_clusters\<close> is what SPDK reports for the blob.\<close>

record data_blob_info =
  db_file_id :: u16
  db_blob :: bool
  db_clusters :: u64
  db_size :: u64

datatype loader_state = LdInit | LdLoadingSuperblockPrimary | LdLoadingSuperblockBackup | LdLoadingMemIndexA
  | LdLoadingMemIndexB | LdComparingVersions | LdDeserializing | LdScanningDataFiles | LdRebuildingIncremental
  | LdFinalizingRecovery | LdDone | LdErrorState

text \<open>Reads in flight: a copy of the superblock, a chunk of an index area (area, offset and size), a
  segment of an area (segment, offset and length in IO units), a chunk of a data file (file, offset
  and size).\<close>

datatype ld_request = LdReadSuperblock bool | LdReadChunk nat u64 u64 | LdReadSegment nat nat u64 u64
  | LdReadScan u16 u64 u64

text \<open>\<open>ld_sb\<close> is the memory image of the superblock. \<open>ld_spdk\<close> is \<^verbatim>\<open>has_spdk_resources()\<close>; the blob
  flags tell which handles are not null, \<open>ld_dma\<close> whether DMA buffers can be allocated, \<open>ld_io_unit\<close>
  and \<open>ld_cluster_size\<close> what the blob store reports. \<open>ld_results\<close> collects the callback's arguments.\<close>

record loader =
  ld_index :: mem_index
  ld_state :: loader_state
  ld_last_error :: kv_error
  ld_sb :: "byte list"
  ld_version_a :: u64
  ld_version_b :: u64
  ld_selected_area :: nat
  ld_ckpt_file_id :: u16
  ld_ckpt_page_index :: u64
  ld_max_sequence :: u32
  ld_ranges :: "scan_range list"
  ld_scan_idx :: nat
  ld_scan_offset :: u64
  ld_buffer :: "byte list"
  ld_data_blobs :: "data_blob_info list"
  ld_read_offset :: u64
  ld_total_size :: u64
  ld_area :: nat
  ld_pending_loads :: nat
  ld_load_error :: bool
  ld_spdk :: bool
  ld_sb_blob :: bool
  ld_blob_a :: bool
  ld_blob_b :: bool
  ld_dma :: bool
  ld_io_unit :: u64
  ld_cluster_size :: u64
  ld_io :: "ld_request list"
  ld_results :: "kv_error list"

abbreviation ld_superblock :: "loader \<Rightarrow> superblock" where
  "ld_superblock l \<equiv> superblock_at (ld_sb l)"

definition ld_is_complete :: "loader \<Rightarrow> bool" where
  "ld_is_complete l = (ld_state l = LdDone \<or> ld_state l = LdErrorState)"

definition ld_is_success :: "loader \<Rightarrow> bool" where
  "ld_is_success l = (ld_state l = LdDone)"

definition ld_issue :: "ld_request \<Rightarrow> loader \<Rightarrow> loader" where
  "ld_issue r l = l\<lparr>ld_io := ld_io l @ [r]\<rparr>"

definition ld_fail :: "kv_error \<Rightarrow> loader \<Rightarrow> loader" where
  "ld_fail e l = l\<lparr>ld_last_error := e, ld_state := LdErrorState, ld_results := ld_results l @ [e]\<rparr>"

section \<open>Parsing entries\<close>

text \<open>The index entry that an entry at a byte offset of a file becomes.\<close>

definition rebuilt_entry :: "u64 \<Rightarrow> u16 \<Rightarrow> u64 \<Rightarrow> u64 \<Rightarrow> entry_header \<Rightarrow> mem_index_entry" where
  "rebuilt_entry key file_id byte_offset entry_size h =
     \<lparr>me_key = key, me_file_id = ucast file_id, me_offset_index = ucast (byte_offset div kPageSize),
      me_deleted = eh_is_deleted h, me_sequence = eh_sequence h,
      me_page_count = ucast (entry_size div kPageSize), me_tag = kv_tag key, me_reserved = 0\<rparr>"

definition rebuild_entry :: "mem_index_entry \<Rightarrow> mem_index \<times> u32 \<Rightarrow> mem_index \<times> u32" where
  "rebuild_entry e = (\<lambda>(m, max_seq).
     (if me_deleted e then snd (mi_remove m (me_key e)) else snd (mi_upsert m (me_key e) e),
      if me_sequence e > max_seq then me_sequence e else max_seq))"

text \<open>The while loop; buffers are far below the size at which \<^verbatim>\<open>align_up(offset + 1)\<close> could wrap.\<close>

definition next_page :: "nat \<Rightarrow> nat" where
  "next_page offset = 4096 * ((offset + 1 + 4095) div 4096)"

lemma next_page_eq: "next_page offset = 4096 * (offset div 4096 + 1)"
proof -
  have "(offset + 1 + 4095) div 4096 = (offset + 1 * 4096) div 4096" by simp
  also have "\<dots> = offset div 4096 + 1" by (simp only: div_mult_self1)
  finally show ?thesis by (simp add: next_page_def)
qed

lemma next_page_gt: "offset < next_page offset"
proof -
  have "offset mod 4096 < 4096" by simp
  moreover have "4096 * (offset div 4096) + offset mod 4096 = offset" by simp
  moreover have "4096 * (offset div 4096 + 1) = 4096 * (offset div 4096) + 4096" by simp
  ultimately show ?thesis unfolding next_page_eq by linarith
qed

function (sequential) parse_entries ::
    "byte list \<Rightarrow> u16 \<Rightarrow> u64 \<Rightarrow> nat \<Rightarrow> nat \<Rightarrow> mem_index \<times> u32 \<Rightarrow> nat \<times> mem_index \<times> u32" where
  "parse_entries buf file_id base offset n ms =
     (if offset + 28 \<le> length buf
      then (let h = entry_header_at buf offset in
        if eh_magic h \<noteq> kEntryMagic
        then (if next_page offset \<ge> length buf then (n, ms)
              else parse_entries buf file_id base (next_page offset) n ms)
        else (let key = get_u64 buf (offset + 16); value_len = get_u32 buf (offset + 24);
                  entry_size = kv_entry_size value_len
              in if offset + unat entry_size > length buf then (n, ms)
                 else if get_u32 buf (offset + unat entry_size - 4)
                         \<noteq> crc32_calculate (slice offset (unat entry_size - 4) buf) then (n, ms)
                 else parse_entries buf file_id base (offset + unat entry_size) (n + 1)
                        (rebuild_entry (rebuilt_entry key file_id (base + word_of_nat offset) entry_size h) ms)))
      else (n, ms))"
  by pat_completeness auto

termination
proof (relation "measure (\<lambda>(buf, _, _, offset, _). length buf - offset)", goal_cases)
  case 1
  show ?case by simp
next
  case (2 buf file_id base offset n ms h)
  then show ?case using next_page_gt [of offset] by simp
next
  case (3 buf file_id base offset n ms h key value_len entry_size)
  have "32 \<le> unat entry_size" using kv_entry_size_bounds [of value_len] 3 by simp
  with 3 show ?case by simp
qed

declare parse_entries.simps [simp del]

definition parse_and_rebuild_entries :: "byte list \<Rightarrow> u16 \<Rightarrow> u64 \<Rightarrow> loader \<Rightarrow> nat \<times> loader" where
  "parse_and_rebuild_entries buf file_id base l =
     (case parse_entries buf file_id base 0 0 (ld_index l, ld_max_sequence l) of
        (n, m, max_seq) \<Rightarrow> (n, l\<lparr>ld_index := m, ld_max_sequence := max_seq\<rparr>))"

section \<open>Scanning the data files\<close>

definition blob_physical_end :: "loader \<Rightarrow> data_blob_info \<Rightarrow> u64" where
  "blob_physical_end l b = (if \<not> db_blob b then 0 else db_clusters b * ld_cluster_size l div kPageSize)"

definition scan_range_of :: "loader \<Rightarrow> data_blob_info \<Rightarrow> scan_range option" where
  "scan_range_of l b =
     (if db_file_id b < ld_ckpt_file_id l then None
      else (let start = (if db_file_id b = ld_ckpt_file_id l then ld_ckpt_page_index l else 4096 div kPageSize);
                end = blob_physical_end l b;
                size_pages = db_size b div kPageSize;
                end = (if size_pages > 0 \<and> size_pages < end then size_pages else end)
            in if end > start then Some \<lparr>sr_file_id = db_file_id b, sr_start_page = start, sr_end_page = end\<rparr>
               else None))"

definition build_scan_ranges :: "loader \<Rightarrow> scan_range list" where
  "build_scan_ranges l = sort_key sr_file_id (List.map_filter (scan_range_of l) (ld_data_blobs l))"

definition finalize_recovery :: "loader \<Rightarrow> loader" where
  "finalize_recovery l =
     (let new_seq = max (sb_checkpoint_global_seq (ld_superblock l)) (ld_max_sequence l) + 1 in
      l\<lparr>ld_index := mi_set_global_sequence new_seq (ld_index l), ld_state := LdDone,
        ld_results := ld_results l @ [KSuccess]\<rparr>)"

text \<open>\<^verbatim>\<open>scan_blob_chunk\<close> runs only with a valid range index; the first test makes it total.\<close>

function (sequential) scan_next_file and scan_blob_chunk where
  "scan_next_file l =
     (if ld_scan_idx l \<ge> length (ld_ranges l)
      then finalize_recovery (l\<lparr>ld_state := LdFinalizingRecovery\<rparr>)
      else scan_blob_chunk (l\<lparr>ld_scan_offset := sr_start_page (ld_ranges l ! ld_scan_idx l) * kPageSize\<rparr>))"
| "scan_blob_chunk l =
     (if ld_scan_idx l \<ge> length (ld_ranges l) then l
      else (let range = ld_ranges l ! ld_scan_idx l; end_offset = sr_end_page range * kPageSize;
                blob = (case find (\<lambda>b. db_file_id b = sr_file_id range) (ld_data_blobs l) of
                          Some b \<Rightarrow> db_blob b | None \<Rightarrow> False)
            in if ld_scan_offset l \<ge> end_offset then scan_next_file (l\<lparr>ld_scan_idx := ld_scan_idx l + 1\<rparr>)
               else if \<not> blob then scan_next_file (l\<lparr>ld_scan_idx := ld_scan_idx l + 1\<rparr>)
               else (let read_size = min (1024 * 1024) (end_offset - ld_scan_offset l) in
                 if \<not> ld_dma l then scan_next_file (l\<lparr>ld_scan_idx := ld_scan_idx l + 1\<rparr>)
                 else ld_issue (LdReadScan (sr_file_id range) (ld_scan_offset l) read_size) l)))"
  by pat_completeness auto

termination
  by (relation "measure (\<lambda>x. case x of Inl l \<Rightarrow> 2 * (length (ld_ranges l) - ld_scan_idx l) + 1
        | Inr l \<Rightarrow> 2 * (length (ld_ranges l) - ld_scan_idx l))") auto

declare scan_next_file.simps [simp del] scan_blob_chunk.simps [simp del]

definition start_incremental_rebuild :: "loader \<Rightarrow> loader" where
  "start_incremental_rebuild l =
     (let sb = ld_superblock l;
          l1 = l\<lparr>ld_ckpt_file_id := sb_checkpoint_file_id sb, ld_ckpt_page_index := sb_checkpoint_page_index sb,
                 ld_max_sequence := sb_checkpoint_global_seq sb\<rparr>;
          l2 = (if ld_data_blobs l1 \<noteq> [] then l1\<lparr>ld_ranges := build_scan_ranges l1\<rparr> else l1)
      in if ld_ranges l2 = [] then finalize_recovery (l2\<lparr>ld_state := LdFinalizingRecovery\<rparr>)
         else (let l3 = l2\<lparr>ld_scan_idx := 0\<rparr> in
           if ld_spdk l3 \<and> ld_data_blobs l3 \<noteq> [] then scan_next_file l3
           else finalize_recovery (l3\<lparr>ld_state := LdFinalizingRecovery\<rparr>)))"

text \<open>The completion of the read of a chunk: its status and, when it succeeded, the bytes read.\<close>

definition on_scan_chunk_read :: "bool \<Rightarrow> byte list \<Rightarrow> u64 \<Rightarrow> loader \<Rightarrow> loader" where
  "on_scan_chunk_read ok data read_size l =
     (if \<not> ok then scan_next_file (l\<lparr>ld_scan_idx := ld_scan_idx l + 1\<rparr>)
      else (case parse_and_rebuild_entries (take (unat read_size) data)
                   (sr_file_id (ld_ranges l ! ld_scan_idx l)) (ld_scan_offset l) l of
              (found, l1) \<Rightarrow>
                if found = 0 then scan_next_file (l1\<lparr>ld_scan_idx := ld_scan_idx l1 + 1\<rparr>)
                else scan_blob_chunk (l1\<lparr>ld_scan_offset := ld_scan_offset l1 + read_size\<rparr>)))"

section \<open>Loading a serialised index\<close>

text \<open>\<^verbatim>\<open>load_by_upsert_from_buffer\<close>; without SPDK resources its namesake does nothing. The header's entry
  count was checked against the buffer before an area can be selected.\<close>

definition load_by_upsert_from_buffer :: "loader \<Rightarrow> loader" where
  "load_by_upsert_from_buffer l =
     (if length (ld_buffer l) < 64 then l
      else (let h = mem_index_header_at (ld_buffer l) 0; data = drop 64 (ld_buffer l) in
        if mh_magic h \<noteq> kMemIndexMagic then l
        else l\<lparr>ld_index := mi_set_global_sequence (ucast (mh_global_sequence h))
                 (mi_load_entries (ld_index l)
                    (map (\<lambda>i. mem_index_entry_at data (20 * i)) [0..<unat (mh_entry_count h)]))\<rparr>))"

definition continue_rebuild :: "loader \<Rightarrow> loader" where
  "continue_rebuild l = start_incremental_rebuild (l\<lparr>ld_state := LdRebuildingIncremental\<rparr>)"

definition segment_bytes :: "loader \<Rightarrow> u64" where
  "segment_bytes l = mh_capacity (mem_index_header_at (ld_buffer l) 0) * 20 div kMemIndexSegmentCount"

definition load_as_memory_dump_from_blob :: "nat \<Rightarrow> loader \<Rightarrow> loader" where
  "load_as_memory_dump_from_blob area l =
     (if \<not> (if area = 0 then ld_blob_a l else ld_blob_b l)
      then continue_rebuild (load_by_upsert_from_buffer l)
      else (let segment_size = segment_bytes l;
                request = (\<lambda>seg. LdReadSegment area seg ((64 + word_of_nat seg * segment_size) div ld_io_unit l)
                                              (segment_size div ld_io_unit l))
            in l\<lparr>ld_pending_loads := unat kMemIndexSegmentCount, ld_load_error := False, ld_area := area,
                 ld_io := ld_io l @ map request [0..<unat kMemIndexSegmentCount]\<rparr>))"

text \<open>\<open>data\<close> went directly into the entries array of the index.\<close>

definition put_segment :: "nat \<Rightarrow> byte list \<Rightarrow> loader \<Rightarrow> loader" where
  "put_segment seg data l =
     (let m = ld_index l;
          img = put_bytes (seg * unat (segment_bytes l)) data (concat (map mem_index_entry_bytes (mi_entries m)))
      in l\<lparr>ld_index := m\<lparr>mi_entries := map (\<lambda>i. mem_index_entry_at img (20 * i)) [0..<length (mi_entries m)]\<rparr>\<rparr>)"

definition on_direct_segment_loaded :: "bool \<Rightarrow> nat \<Rightarrow> byte list \<Rightarrow> loader \<Rightarrow> loader" where
  "on_direct_segment_loaded ok seg data l =
     (let l1 = put_segment seg data l;
          l2 = (if \<not> ok then l1\<lparr>ld_load_error := True\<rparr> else l1);
          l3 = l2\<lparr>ld_pending_loads := ld_pending_loads l2 - 1\<rparr>
      in if ld_pending_loads l3 = 0
         then continue_rebuild
           (if ld_load_error l3 then load_by_upsert_from_buffer l3
            else l3\<lparr>ld_index := mi_set_global_sequence
                     (ucast (mh_global_sequence (mem_index_header_at (ld_buffer l3) 0)))
                     (mi_rebuild_psl_array (ld_index l3))\<rparr>)
         else l3)"

definition can_use_memory_dump_load :: "loader \<Rightarrow> bool" where
  "can_use_memory_dump_load l =
     (if length (ld_buffer l) < 64 then False
      else (let h = mem_index_header_at (ld_buffer l) 0 in
        mh_capacity h = mi_capacity (ld_index l) \<and> mh_version h = 1))"

definition deserialize_mem_index :: "nat \<Rightarrow> loader \<Rightarrow> loader" where
  "deserialize_mem_index area l =
     (if can_use_memory_dump_load l
      then (if ld_spdk l then load_as_memory_dump_from_blob area l else continue_rebuild l)
      else continue_rebuild (if ld_spdk l then load_by_upsert_from_buffer l else l))"

definition compare_and_select_area :: "loader \<Rightarrow> loader" where
  "compare_and_select_area l =
     (let selected = (if ld_version_a l \<ge> ld_version_b l then 0 else 1); l1 = l\<lparr>ld_selected_area := selected\<rparr> in
      if (if selected = 0 then ld_version_a l1 else ld_version_b l1) = 0
      then start_incremental_rebuild (l1\<lparr>ld_state := LdScanningDataFiles\<rparr>)
      else deserialize_mem_index selected (l1\<lparr>ld_state := LdDeserializing\<rparr>))"

text \<open>What follows the load of an area: area B after area A, then the comparison. \<open>load_b\<close> is the call
  \<^verbatim>\<open>load_mem_index_area(1)\<close>.\<close>

definition set_version :: "nat \<Rightarrow> u64 \<Rightarrow> loader \<Rightarrow> loader" where
  "set_version area v l = (if area = 0 then l\<lparr>ld_version_a := v\<rparr> else l\<lparr>ld_version_b := v\<rparr>)"

definition after_area :: "(loader \<Rightarrow> loader) \<Rightarrow> nat \<Rightarrow> loader \<Rightarrow> loader" where
  "after_area load_b area l =
     (if area = 0 then load_b (l\<lparr>ld_state := LdLoadingMemIndexB\<rparr>)
      else compare_and_select_area (l\<lparr>ld_state := LdComparingVersions\<rparr>))"

definition mem_index_area_version :: "byte list \<Rightarrow> u64" where
  "mem_index_area_version buf =
     (if length buf \<ge> 64
      then (let h = mem_index_header_at buf 0; size = mh_entry_count h * 20 in
        if mh_magic h \<noteq> kMemIndexMagic then 0
        else if length buf \<ge> unat (64 + size)
        then (if crc32_calculate (slice 64 (unat size) buf) \<noteq> mh_checksum h then 0 else mh_global_sequence h)
        else 0)
      else 0)"

definition on_mem_index_area_load_complete :: "(loader \<Rightarrow> loader) \<Rightarrow> loader \<Rightarrow> loader" where
  "on_mem_index_area_load_complete load_b l =
     after_area load_b (ld_area l) (set_version (ld_area l) (mem_index_area_version (ld_buffer l)) l)"

definition read_next_mem_index_chunk :: "(loader \<Rightarrow> loader) \<Rightarrow> loader \<Rightarrow> loader" where
  "read_next_mem_index_chunk load_b l =
     (let remaining = ld_total_size l - ld_read_offset l; chunk = min remaining (2 * 1024 * 1024) in
      if chunk = 0 then on_mem_index_area_load_complete load_b l
      else (let needed = unat (ld_read_offset l + chunk);
                l1 = l\<lparr>ld_buffer := ld_buffer l @ replicate (needed - length (ld_buffer l)) 0\<rparr>
            in if \<not> ld_dma l1 then on_mem_index_area_load_complete load_b (set_version (ld_area l1) 0 l1)
               else ld_issue (LdReadChunk (ld_area l1) (ld_read_offset l1) chunk) l1))"

definition load_mem_index_area_from_blob :: "(loader \<Rightarrow> loader) \<Rightarrow> nat \<Rightarrow> loader \<Rightarrow> loader" where
  "load_mem_index_area_from_blob load_b area l =
     (if \<not> (if area = 0 then ld_blob_a l else ld_blob_b l) then after_area load_b area (set_version area 0 l)
      else (let total = sb_mem_index_size (ld_superblock l);
                total = (if total = 0 then kMemIndexSegmentSize * kMemIndexSegmentCount else total)
            in read_next_mem_index_chunk load_b (l\<lparr>ld_total_size := total, ld_area := area, ld_read_offset := 0\<rparr>)))"

definition load_area_then :: "(loader \<Rightarrow> loader) \<Rightarrow> nat \<Rightarrow> loader \<Rightarrow> loader" where
  "load_area_then load_b area l =
     (if ld_spdk l then load_mem_index_area_from_blob load_b area l
      else after_area load_b area
             (set_version area (if area = 0 then sb_checkpoint_sequence (ld_superblock l) else 0) l))"

definition load_mem_index_area_b :: "loader \<Rightarrow> loader" where
  "load_mem_index_area_b l = load_area_then (\<lambda>l. l) 1 l"

definition load_mem_index_area :: "nat \<Rightarrow> loader \<Rightarrow> loader" where
  "load_mem_index_area area l = load_area_then load_mem_index_area_b area l"

definition on_mem_index_chunk_loaded :: "bool \<Rightarrow> byte list \<Rightarrow> loader \<Rightarrow> loader" where
  "on_mem_index_chunk_loaded ok data l =
     (let l1 = (if ok then l\<lparr>ld_buffer := put_bytes (unat (ld_read_offset l)) data (ld_buffer l)\<rparr> else l) in
      if \<not> ok then on_mem_index_area_load_complete load_mem_index_area_b (set_version (ld_area l1) 0 l1)
      else (let next = ld_read_offset l1 + 2 * 1024 * 1024;
                next = (if next > ld_total_size l1 then ld_total_size l1 else next)
            in read_next_mem_index_chunk load_mem_index_area_b (l1\<lparr>ld_read_offset := next\<rparr>)))"

section \<open>The superblock and the start\<close>

definition load_mem_index_start :: "loader \<Rightarrow> loader" where
  "load_mem_index_start l = load_mem_index_area 0 (l\<lparr>ld_state := LdLoadingMemIndexA\<rparr>)"

definition load_superblock_backup :: "loader \<Rightarrow> loader" where
  "load_superblock_backup l =
     (if validate_superblock (ld_sb l) then load_mem_index_start l else ld_fail KCorruption l)"

definition load_superblock_from_blob :: "loader \<Rightarrow> loader" where
  "load_superblock_from_blob l =
     (if \<not> ld_dma l then ld_fail KInternalError l else ld_issue (LdReadSuperblock False) l)"

definition load_superblock_primary :: "loader \<Rightarrow> loader" where
  "load_superblock_primary l =
     (if ld_spdk l \<and> ld_sb_blob l then load_superblock_from_blob l
      else if validate_superblock (ld_sb l) then load_mem_index_start l
      else load_superblock_backup (l\<lparr>ld_state := LdLoadingSuperblockBackup\<rparr>))"

definition on_superblock_read_complete :: "bool \<Rightarrow> byte list \<Rightarrow> loader \<Rightarrow> loader" where
  "on_superblock_read_complete ok data l =
     (if ok \<and> validate_superblock data then load_mem_index_start (l\<lparr>ld_sb := take 41376 data\<rparr>)
      else ld_issue (LdReadSuperblock True) (l\<lparr>ld_state := LdLoadingSuperblockBackup\<rparr>))"

definition on_superblock_backup_read_complete :: "bool \<Rightarrow> byte list \<Rightarrow> loader \<Rightarrow> loader" where
  "on_superblock_backup_read_complete ok data l =
     (if ok \<and> validate_superblock data then load_mem_index_start (l\<lparr>ld_sb := take 41376 data\<rparr>)
      else ld_fail KCorruption l)"

definition start_recovery :: "loader \<Rightarrow> loader" where
  "start_recovery l =
     (if ld_state l \<noteq> LdInit then l\<lparr>ld_results := ld_results l @ [KInvalidState]\<rparr>
      else load_superblock_primary (l\<lparr>ld_state := LdLoadingSuperblockPrimary\<rparr>))"

text \<open>The completion of the request at a position of \<open>ld_io\<close>, with its status and the bytes read.\<close>

definition ld_io_complete :: "nat \<Rightarrow> bool \<Rightarrow> byte list \<Rightarrow> loader \<Rightarrow> loader" where
  "ld_io_complete k ok data l =
     (if k \<ge> length (ld_io l) then l
      else (let l1 = l\<lparr>ld_io := take k (ld_io l) @ drop (k + 1) (ld_io l)\<rparr> in
        case ld_io l ! k of
          LdReadSuperblock backup \<Rightarrow> if backup then on_superblock_backup_read_complete ok data l1
                                      else on_superblock_read_complete ok data l1
        | LdReadChunk area off chunk \<Rightarrow> on_mem_index_chunk_loaded ok (take (unat chunk) data) l1
        | LdReadSegment area seg off len \<Rightarrow> on_direct_segment_loaded ok seg data l1
        | LdReadScan file off read_size \<Rightarrow> on_scan_chunk_read ok data read_size l1))"

text \<open>\<open>completion\<close>: the request that polling SPDK completes, if any.\<close>

definition ld_poll :: "(nat \<times> bool \<times> byte list) option \<Rightarrow> loader \<Rightarrow> bool \<times> loader" where
  "ld_poll completion l =
     (if ld_is_complete l then (False, l)
      else (let l1 = (if ld_spdk l then (case completion of Some (k, ok, data) \<Rightarrow> ld_io_complete k ok data l
                                         | None \<Rightarrow> l) else l)
            in (\<not> ld_is_complete l1, l1)))"

section \<open>The engine's use of the loader\<close>

text \<open>\<^verbatim>\<open>Engine::recover_mem_index\<close>: the index blobs are always null, only open files that are not
  deleted are scanned. \<open>clusters\<close> is what SPDK reports for a blob.\<close>

definition engine_loader ::
    "mem_index \<Rightarrow> byte list \<Rightarrow> bool \<Rightarrow> bool \<Rightarrow> u64 \<Rightarrow> u64 \<Rightarrow> (u64 \<Rightarrow> u64) \<Rightarrow> file_info list \<Rightarrow> loader" where
  "engine_loader m sb spdk dma io_unit cluster_size clusters files =
     \<lparr>ld_index = m, ld_state = LdInit, ld_last_error = KSuccess, ld_sb = sb, ld_version_a = 0, ld_version_b = 0,
      ld_selected_area = 0, ld_ckpt_file_id = 0, ld_ckpt_page_index = 0, ld_max_sequence = 0, ld_ranges = [],
      ld_scan_idx = 0, ld_scan_offset = 0, ld_buffer = replicate (64 * 1024 * 1024) 0,
      ld_data_blobs = (if spdk then map (\<lambda>f. \<lparr>db_file_id = fi_file_id f, db_blob = True,
          db_clusters = clusters (fi_blob_id f), db_size = fi_size f\<rparr>)
          (filter (\<lambda>f. fi_state f \<noteq> FDeleted \<and> fi_blob_opened f) files) else []),
      ld_read_offset = 0, ld_total_size = 0, ld_area = 0, ld_pending_loads = 0, ld_load_error = False,
      ld_spdk = spdk, ld_sb_blob = spdk, ld_blob_a = False, ld_blob_b = False, ld_dma = dma, ld_io_unit = io_unit,
      ld_cluster_size = cluster_size, ld_io = [], ld_results = []\<rparr>"

definition recover_mem_index_finish :: "superblock \<Rightarrow> loader \<Rightarrow> kv_error \<times> mem_index" where
  "recover_mem_index_finish sb l =
     (if ld_is_success l
      then (KSuccess, mi_set_global_sequence (max (sb_checkpoint_global_seq sb) (ld_max_sequence l) + 1) (ld_index l))
      else ((if ld_results l = [] then KSuccess else last (ld_results l)), ld_index l))"

section \<open>What parsing finds in a run of entries\<close>

text \<open>Key, value, sequence and tombstone flag of an entry.\<close>

type_synonym log_entry = "u64 \<times> byte list \<times> u32 \<times> bool"

abbreviation value_len :: "byte list \<Rightarrow> u32" where
  "value_len v \<equiv> word_of_nat (length v)"

fun log_image :: "log_entry \<Rightarrow> byte list" where
  "log_image (key, v, seq, t) = kv_entry_image key v (value_len v) seq t"

definition log_images :: "log_entry list \<Rightarrow> byte list" where
  "log_images es = concat (map log_image es)"

fun log_ok :: "log_entry \<Rightarrow> bool" where
  "log_ok (key, v, seq, t) \<longleftrightarrow> length v < 2 ^ 32"

text \<open>The index entries of a run that starts at an offset of the buffer.\<close>

fun log_rebuilt :: "u16 \<Rightarrow> u64 \<Rightarrow> nat \<Rightarrow> log_entry list \<Rightarrow> mem_index_entry list" where
  "log_rebuilt file base off [] = []"
| "log_rebuilt file base off ((key, v, seq, t) # es) =
     \<lparr>me_key = key, me_file_id = ucast file, me_offset_index = ucast ((base + word_of_nat off) div kPageSize),
      me_deleted = t, me_sequence = seq, me_page_count = ucast (kv_entry_size (value_len v) div kPageSize),
      me_tag = kv_tag key, me_reserved = 0\<rparr>
     # log_rebuilt file base (off + length (log_image (key, v, seq, t))) es"

lemma value_len_unat: "log_ok (key, v, seq, t) \<Longrightarrow> length v = unat (value_len v)"
  by (simp add: unat_of_nat_small)

lemma length_log_image:
  "log_ok (key, v, seq, t) \<Longrightarrow> length (log_image (key, v, seq, t)) = unat (kv_entry_size (value_len v))"
  using length_kv_entry(2) [of v "value_len v"] by (simp add: value_len_unat [symmetric])

text \<open>What the fields of an entry read as, wherever it lies in a buffer.\<close>

lemma log_image_at:
  fixes key seq t v pre rest
  defines "buf \<equiv> pre @ log_image (key, v, seq, t) @ rest"
  assumes ok: "log_ok (key, v, seq, t)" and off: "length pre = off"
  shows "entry_header_at buf off = \<lparr>eh_magic = kEntryMagic, eh_version = 1,
       eh_flags = (if t then kFlagDeleted else 0), eh_reserved = 0, eh_sequence = seq, eh_padding = 0\<rparr>" (is ?h)
    and "get_u64 buf (off + 16) = key" "get_u32 buf (off + 24) = value_len v"
    and "get_u32 buf (off + unat (kv_entry_size (value_len v)) - 4)
      = crc32_calculate (slice off (unat (kv_entry_size (value_len v)) - 4) buf)" (is ?crc)
proof -
  let ?len = "value_len v" and ?img = "kv_entry_image key v (value_len v) seq t"
  note v = value_len_unat [OF ok]
  have sz: "32 \<le> unat (kv_entry_size ?len)" using kv_entry_size_bounds [of ?len] by simp
  show ?h using entry_header_at_append [of pre "?img @ rest" 0] kv_entry_fields(1) [OF v] off
    by (simp add: buf_def)
  show "get_u64 buf (off + 16) = key" "get_u32 buf (off + 24) = ?len"
    using kv_entry_fields(2,3) [OF v, of key seq t rest] off by (simp_all add: buf_def get_offset_append)
  have "get_u32 buf (off + unat (kv_entry_size ?len) - 4) = get_u32 (?img @ rest) (unat (kv_entry_size ?len) - 4)"
    using off sz by (simp add: buf_def get_skip)
  also have "\<dots> = crc32_calculate (take (unat (kv_entry_size ?len) - 4) (?img @ rest))"
    by (rule kv_entry_checksum [OF v])
  also have "take (unat (kv_entry_size ?len) - 4) (?img @ rest) = slice off (unat (kv_entry_size ?len) - 4) buf"
    using off by (simp add: buf_def slice_def)
  finally show ?crc .
qed

lemma parse_entry:
  assumes ok: "log_ok (key, v, seq, t)" and off: "length pre = off"
  shows "parse_entries (pre @ log_image (key, v, seq, t) @ rest) file base off n ms
    = parse_entries (pre @ log_image (key, v, seq, t) @ rest) file base (off + length (log_image (key, v, seq, t))) (n + 1)
        (fold rebuild_entry (log_rebuilt file base off [(key, v, seq, t)]) ms)"
proof -
  let ?len = "value_len v" and ?buf = "pre @ log_image (key, v, seq, t) @ rest"
  note size = length_log_image [OF ok]
  have sz: "32 \<le> unat (kv_entry_size ?len)" using kv_entry_size_bounds [of ?len] by simp
  note fields = log_image_at [OF ok off, of rest]
  have del: "eh_is_deleted \<lparr>eh_magic = kEntryMagic, eh_version = 1,
       eh_flags = (if t then kFlagDeleted else 0), eh_reserved = 0, eh_sequence = seq, eh_padding = 0\<rparr> = t"
    by (simp add: eh_is_deleted_def kFlagDeleted_def)
  have fits: "off + unat (kv_entry_size ?len) \<le> length ?buf" "off + 28 \<le> length ?buf"
    using size off sz by simp_all
  show ?thesis
    by (subst parse_entries.simps)
      (use fits in \<open>simp add: fields Let_def rebuilt_entry_def del size del: log_image.simps\<close>)
qed

lemma parse_log:
  assumes "list_all log_ok es" "length pre = off"
  shows "parse_entries (pre @ log_images es @ rest) file base off n ms
    = parse_entries (pre @ log_images es @ rest) file base (off + length (log_images es)) (n + length es)
        (fold rebuild_entry (log_rebuilt file base off es) ms)"
  using assms
proof (induction es arbitrary: pre off n ms)
  case Nil
  then show ?case by (simp add: log_images_def)
next
  case (Cons e es)
  obtain key v seq t where e: "e = (key, v, seq, t)" by (cases e) auto
  let ?buf = "pre @ log_images (e # es) @ rest"
  have buf: "?buf = pre @ log_image e @ (log_images es @ rest)" "?buf = (pre @ log_image e) @ log_images es @ rest"
    by (simp_all add: log_images_def)
  have "parse_entries ?buf file base off n ms = parse_entries ?buf file base (off + length (log_image e)) (n + 1)
      (fold rebuild_entry (log_rebuilt file base off [e]) ms)"
  proof -
    have "log_ok (key, v, seq, t)" using Cons.prems(1) by (simp add: e)
    note parse_entry [OF this Cons.prems(2), where rest = "log_images es @ rest"]
    then show ?thesis unfolding buf(1) unfolding e .
  qed
  also have "\<dots> = parse_entries ?buf file base (off + length (log_image e) + length (log_images es)) (n + 1 + length es)
      (fold rebuild_entry (log_rebuilt file base (off + length (log_image e)) es) (fold rebuild_entry (log_rebuilt file base off [e]) ms))"
    unfolding buf(2) using Cons.prems by (intro Cons.IH) simp_all
  also have "off + length (log_image e) + length (log_images es) = off + length (log_images (e # es))"
    by (simp add: log_images_def)
  finally show ?case by (simp add: e)
qed

lemma parse_end: "length buf < off + 28 \<Longrightarrow> parse_entries buf file base off n ms = (n, ms)"
  by (subst parse_entries.simps) simp

lemma parse_log_all:
  assumes "list_all log_ok es"
  shows "parse_entries (log_images es) file base 0 n ms = (n + length es, fold rebuild_entry (log_rebuilt file base 0 es) ms)"
  using parse_log [OF assms, of "[]" 0 "[]"] by (simp add: parse_end)

text \<open>The parse of an entry that the buffer cuts off.\<close>

lemma parse_cut:
  assumes ok: "log_ok (key, v, seq, t)" and off: "length pre = off"
    and k: "28 \<le> k" "k < length (log_image (key, v, seq, t))"
  shows "parse_entries (pre @ take k (log_image (key, v, seq, t))) file base off n ms = (n, ms)"
proof -
  let ?len = "value_len v"
  obtain tail where img: "log_image (key, v, seq, t) = entry_prefix key ?len seq t @ tail"
    by (simp add: kv_entry_image_def kv_entry_body_def)
  define buf where "buf = pre @ take k (log_image (key, v, seq, t))"
  have buf: "buf = pre @ entry_prefix key ?len seq t @ take (k - 28) tail"
    using k(1) by (simp add: buf_def img del: log_image.simps)
  have "eh_magic (entry_header_at buf off) = kEntryMagic" "get_u32 buf (off + 24) = ?len"
    using off by (simp_all add: buf entry_prefix_def entry_header_at_def entry_header_bytes_def kv_layout)
  moreover have "off + unat (kv_entry_size ?len) > length buf"
    using k(2) length_log_image [OF ok] off by (simp add: buf_def del: log_image.simps)
  moreover have "off + 28 \<le> length buf" using off k by (simp add: buf_def del: log_image.simps)
  ultimately have "parse_entries buf file base off n ms = (n, ms)"
    by (subst parse_entries.simps) (simp add: Let_def)
  then show ?thesis by (simp only: buf_def)
qed

text \<open>The parse of a page that does not start with an entry.\<close>

lemma parse_skip_page:
  assumes "length page = 4096" "get_u32 page 0 \<noteq> kEntryMagic" "list_all log_ok es"
  shows "parse_entries (page @ log_images es) file base 0 n ms
    = (n + length es, fold rebuild_entry (log_rebuilt file base 4096 es) ms)"
proof -
  have h: "eh_magic (entry_header_at (page @ log_images es) 0) \<noteq> kEntryMagic"
    using assms(1,2) by (simp add: entry_header_at_def get_u32_def slice_def)
  have np: "next_page 0 = 4096" by (simp add: next_page_eq)
  show ?thesis
  proof (cases es)
    case Nil
    then show ?thesis using h np assms(1) by (subst parse_entries.simps) (simp add: log_images_def Let_def)
  next
    case (Cons e es')
    obtain key v seq t where e: "e = (key, v, seq, t)" by (cases e) auto
    have "28 \<le> length (log_image e)"
      using assms(3) length_log_image [of key v seq t] kv_entry_size_bounds [of "value_len v"] Cons e by simp
    then have "parse_entries (page @ log_images es) file base 0 n ms = parse_entries (page @ log_images es) file base 4096 n ms"
      using h np assms(1) Cons by (subst parse_entries.simps) (auto simp: log_images_def Let_def)
    also have "\<dots> = (n + length es, fold rebuild_entry (log_rebuilt file base 4096 es) ms)"
      using parse_log [OF assms(3,1), where rest = "[]"] by (simp add: parse_end assms(1))
    finally show ?thesis .
  qed
qed

section \<open>Scanning\<close>

lemma scan_range_of_Some:
  "scan_range_of l b = Some r \<longleftrightarrow> \<not> db_file_id b < ld_ckpt_file_id l \<and> sr_file_id r = db_file_id b
     \<and> sr_start_page r = (if db_file_id b = ld_ckpt_file_id l then ld_ckpt_page_index l else 1)
     \<and> sr_end_page r = (if 0 < db_size b div kPageSize \<and> db_size b div kPageSize < blob_physical_end l b
                       then db_size b div kPageSize else blob_physical_end l b)
     \<and> sr_start_page r < sr_end_page r"
proof -
  have "(4096 :: u64) div kPageSize = 1" by (simp add: kPageSize_def)
  then show ?thesis by (cases r) (auto simp: scan_range_of_def Let_def)
qed

lemma set_build_scan_ranges:
  "r \<in> set (build_scan_ranges l) \<longleftrightarrow> (\<exists>b \<in> set (ld_data_blobs l). scan_range_of l b = Some r)"
  by (force simp: build_scan_ranges_def List.map_filter_def)

text \<open>With null index blobs the loader goes from the superblock straight to the data files.\<close>

lemma load_index_without_blobs:
  assumes "ld_spdk l" "\<not> ld_blob_a l" "\<not> ld_blob_b l"
  shows "load_mem_index_start l = start_incremental_rebuild
    (l\<lparr>ld_version_a := 0, ld_version_b := 0, ld_selected_area := 0, ld_state := LdScanningDataFiles\<rparr>)"
proof -
  have "load_mem_index_start l = compare_and_select_area
      (l\<lparr>ld_version_a := 0, ld_version_b := 0, ld_state := LdComparingVersions\<rparr>)"
    using assms by (cases l) (simp add: load_mem_index_start_def load_mem_index_area_def load_mem_index_area_b_def
        load_area_then_def load_mem_index_area_from_blob_def after_area_def set_version_def)
  then show ?thesis by (cases l) (simp add: compare_and_select_area_def Let_def)
qed

lemma finalize_fields:
  "ld_ranges (finalize_recovery l) = ld_ranges l" "mi_entries (ld_index (finalize_recovery l)) = mi_entries (ld_index l)"
  "mi_psl (ld_index (finalize_recovery l)) = mi_psl (ld_index l)"
  by (simp_all add: finalize_recovery_def Let_def mi_set_global_sequence_def)

lemma scan_fields:
  "ld_ranges (scan_next_file l) = ld_ranges l \<and> mi_entries (ld_index (scan_next_file l)) = mi_entries (ld_index l)
     \<and> mi_psl (ld_index (scan_next_file l)) = mi_psl (ld_index l)"
  "ld_ranges (scan_blob_chunk l) = ld_ranges l \<and> mi_entries (ld_index (scan_blob_chunk l)) = mi_entries (ld_index l)
     \<and> mi_psl (ld_index (scan_blob_chunk l)) = mi_psl (ld_index l)"
proof (induction l and l rule: scan_next_file_scan_blob_chunk.induct)
  case (1 l)
  then show ?case by (subst (1 2 3) scan_next_file.simps) (simp add: finalize_fields)
next
  case (2 l)
  then show ?case by (subst (1 2 3) scan_blob_chunk.simps) (simp add: Let_def ld_issue_def)
qed

lemma start_incremental_fields:
  fixes l :: loader
  defines "l1 \<equiv> l\<lparr>ld_ckpt_file_id := sb_checkpoint_file_id (ld_superblock l),
     ld_ckpt_page_index := sb_checkpoint_page_index (ld_superblock l), ld_max_sequence := sb_checkpoint_global_seq (ld_superblock l)\<rparr>"
  shows "ld_ranges (start_incremental_rebuild l) = (if ld_data_blobs l \<noteq> [] then build_scan_ranges l1 else ld_ranges l)
     \<and> mi_entries (ld_index (start_incremental_rebuild l)) = mi_entries (ld_index l)
     \<and> mi_psl (ld_index (start_incremental_rebuild l)) = mi_psl (ld_index l)"
  by (simp add: start_incremental_rebuild_def Let_def finalize_fields scan_fields l1_def)

lemma engine_loader_superblock:
  assumes "validate_superblock data"
  shows "ld_io_complete 0 True data (start_recovery (engine_loader m sb True True io_unit cluster_size clusters files))
    = start_incremental_rebuild ((engine_loader m sb True True io_unit cluster_size clusters files)
        \<lparr>ld_state := LdScanningDataFiles, ld_sb := take 41376 data\<rparr>)"
proof -
  let ?e = "engine_loader m sb True True io_unit cluster_size clusters files"
  have "start_recovery ?e = ld_issue (LdReadSuperblock False) (?e\<lparr>ld_state := LdLoadingSuperblockPrimary\<rparr>)"
    by (simp add: start_recovery_def load_superblock_primary_def load_superblock_from_blob_def engine_loader_def)
  then have "ld_io_complete 0 True data (start_recovery ?e)
      = load_mem_index_start (?e\<lparr>ld_state := LdLoadingSuperblockPrimary, ld_sb := take 41376 data\<rparr>)"
    using assms by (simp add: ld_io_complete_def ld_issue_def on_superblock_read_complete_def engine_loader_def)
  then show ?thesis by (simp add: load_index_without_blobs engine_loader_def)
qed

lemma map_key_log_rebuilt: "map me_key (log_rebuilt file base off es) = map fst es"
  by (induction es arbitrary: off) auto

lemma log_rebuilt_fields:
  "e \<in> set (log_rebuilt file base off es) \<Longrightarrow>
   me_tag e = kv_tag (me_key e) \<and> (\<exists>v. (me_key e, v, me_sequence e, me_deleted e) \<in> set es)"
proof (induction es arbitrary: off)
  case Nil
  then show ?case by simp
next
  case (Cons x es)
  obtain key v seq t where x: "x = (key, v, seq, t)" by (cases x) auto
  show ?case
  proof (cases "e \<in> set (log_rebuilt file base (off + length (log_image x)) es)")
    case True
    then show ?thesis using Cons.IH by (metis list.set_intros(2))
  next
    case False
    then show ?thesis using Cons.prems by (auto simp: x)
  qed
qed

lemma length_log_rebuilt: "length (log_rebuilt file base off es) = length es"
  by (induction es arbitrary: off) auto

lemma fold_rebuild_upserts:
  "\<forall>e \<in> set es. \<not> me_deleted e \<Longrightarrow>
   fst (fold rebuild_entry es (m, q)) = snd (insert_all mi_upsert (map (\<lambda>e. (me_key e, e)) es) m)"
  by (induction es arbitrary: m q) (simp_all add: rebuild_entry_def split: prod.splits)

lemma parse_log_cut:
  assumes "list_all log_ok es" "log_ok (key, v, seq, t)" "28 \<le> k" "k < length (log_image (key, v, seq, t))"
  shows "parse_entries (log_images es @ take k (log_image (key, v, seq, t))) file base 0 n ms
    = (n + length es, fold rebuild_entry (log_rebuilt file base 0 es) ms)"
  using parse_log [OF assms(1), of "[]" 0 "take k (log_image (key, v, seq, t))"]
  by (simp add: parse_cut [OF assms(2) refl assms(3,4)] del: log_image.simps)

section \<open>Properties\<close>

text \<open>C16: Recovery rebuilds what the log says. From a buffer that holds a run of entries as the engine
  writes them, whatever their keys, values and flags, \<^verbatim>\<open>parse_and_rebuild_entries\<close> applies each of them
  once and in order, with the file, the page and the length where it stands, and reports their number.
  If further the index is empty with at least as many free slots as there are entries, the keys are distinct, no entry is a
  tombstone or has the sequence number zero, and every upsert succeeds, then every key is found with exactly its
  own entry, and no other key is found.\<close>

theorem recovery_parses_log:
  assumes "list_all log_ok es" "parse_and_rebuild_entries (log_images es) file base l = (n, l')"
  shows "n = length es
     \<and> (ld_index l', ld_max_sequence l') = fold rebuild_entry (log_rebuilt file base 0 es) (ld_index l, ld_max_sequence l)
     \<and> (mi_inv (ld_index l) \<and> mi_content (ld_index l) = Map.empty \<and> length es \<le> mi_free (ld_index l)
          \<and> distinct (map fst es) \<and> (\<forall>(key, v, seq, t) \<in> set es. \<not> t \<and> seq \<noteq> 0)
          \<and> insert_all mi_upsert (map (\<lambda>e. (me_key e, e)) (log_rebuilt file base 0 es)) (ld_index l) = (True, m)
        \<longrightarrow> ld_index l' = m
          \<and> (\<forall>x. mi_lookup m x = map_of (map (\<lambda>e. (me_key e, e)) (log_rebuilt file base 0 es)) x))"
proof -
  let ?es = "log_rebuilt file base 0 es"
  have eq: "n = length es" "(ld_index l', ld_max_sequence l') = fold rebuild_entry ?es (ld_index l, ld_max_sequence l)"
    using assms(2) by (auto simp: parse_and_rebuild_entries_def parse_log_all [OF assms(1)] split: prod.splits)
  moreover have "ld_index l' = m \<and> (\<forall>x. mi_lookup m x = map_of (map (\<lambda>e. (me_key e, e)) ?es) x)"
    if inv: "mi_inv (ld_index l)" and empty: "mi_content (ld_index l) = Map.empty" and room: "length es \<le> mi_free (ld_index l)"
      and dist: "distinct (map fst es)" and live: "\<forall>(key, v, seq, t) \<in> set es. \<not> t \<and> seq \<noteq> 0"
      and ins: "insert_all mi_upsert (map (\<lambda>e. (me_key e, e)) ?es) (ld_index l) = (True, m)"
  proof -
    have fields: "\<not> me_deleted e \<and> me_sequence e \<noteq> 0 \<and> me_tag e = kv_tag (me_key e)" if "e \<in> set ?es" for e
      using log_rebuilt_fields [OF that] live by auto
    have "fst (fold rebuild_entry ?es (ld_index l, ld_max_sequence l)) = m"
      using fold_rebuild_upserts [of ?es "ld_index l"] fields ins by simp
    then have 1: "ld_index l' = m" using eq(2) by (metis fst_conv)
    have keys: "map fst (map (\<lambda>e. (me_key e, e)) ?es) = map fst es"
      by (simp add: comp_def map_key_log_rebuilt)
    have dist': "distinct (map fst (map (\<lambda>e. (me_key e, e)) ?es))" unfolding keys by (rule dist)
    have "mi_lookup m x = map_option (mi_stored x) (map_of (map (\<lambda>e. (me_key e, e)) ?es) x)" for x
      by (rule mix.insert_all_lookup [OF inv empty dist' _ _ ins])
        (use room fields in \<open>auto simp: length_log_rebuilt mi_storable_def me_is_empty_def mi_visible_def mi_stored_def\<close>)
    moreover have "map_option (mi_stored x) (map_of (map (\<lambda>e. (me_key e, e)) ?es) x) = map_of (map (\<lambda>e. (me_key e, e)) ?es) x" for x
    proof (cases "map_of (map (\<lambda>e. (me_key e, e)) ?es) x")
      case (Some e)
      then have "e \<in> set ?es" "me_key e = x" using map_of_SomeD [OF Some] by auto
      then show ?thesis using Some fields by (simp add: mi_stored_def)
    qed simp
    ultimately show ?thesis using 1 by simp
  qed
  ultimately show ?thesis by blast
qed

definition demo_loader :: loader where
  "demo_loader = engine_loader (mem_index_new 8 True) [] True True 512 1048576 (\<lambda>_. 8) []"

theorem recovery_parses_log_witness:
  "\<exists>l'. parse_and_rebuild_entries (log_images [(5, [7, 8], 1, False)]) 3 4096 demo_loader = (1, l')
     \<and> map_option me_offset_index (mi_lookup (ld_index l') 5) = Some 1"
proof -
  let ?es = "[(5, [7, 8], 1, False)] :: log_entry list" and ?m = "mem_index_new 8 True"
  have idx: "ld_index demo_loader = ?m" by (simp add: demo_loader_def engine_loader_def)
  have n: "mi_inv ?m" "mi_content ?m = Map.empty" "mi_free ?m = 8"
    using mem_index_new_inv [of 8] by (simp_all add: next_power_of_2_def)
  obtain l' k where run: "parse_and_rebuild_entries (log_images ?es) 3 4096 demo_loader = (k, l')" by fastforce
  obtain e where e: "log_rebuilt 3 4096 0 ?es = [e]" "me_key e = 5" "me_sequence e = 1" "me_offset_index e = 1"
    by (simp add: kPageSize_def)
  obtain t where ins: "insert_all mi_upsert (map (\<lambda>e. (me_key e, e)) (log_rebuilt 3 4096 0 ?es)) ?m = (True, t)"
    unfolding e(1) using e(2) by (simp add: ix_eval)
  have "k = 1 \<and> mi_lookup (ld_index l') 5 = Some e"
    using recovery_parses_log [OF _ run, of t] n ins by (simp add: idx e del: log_rebuilt.simps)
  with run e(4) show ?thesis by auto
qed

text \<open>An entry that crosses the boundary of a one-megabyte chunk is lost. The first chunk ends inside a
  two-page entry, so parsing stops before it; the next read starts at the boundary, in the middle of
  the entry, whose second page does not start with the magic number and is skipped. Every other
  entry of the two chunks is rebuilt.\<close>

theorem recovery_loses_straddling_entry:
  assumes "list_all log_ok (es1 @ (key, v, seq, t) # es2)" "es1 \<noteq> []"
    and "length (log_image (key, v, seq, t)) = 8192"
    and "get_u32 (drop 4096 (log_image (key, v, seq, t))) 0 \<noteq> kEntryMagic"
    and "chunk1 = log_images es1 @ take 4096 (log_image (key, v, seq, t))" "length chunk1 = 1048576"
    and "chunk2 = drop 4096 (log_image (key, v, seq, t)) @ log_images es2"
    and "ld_scan_idx l < length (ld_ranges l)" "rg = ld_ranges l ! ld_scan_idx l"
    and "find (\<lambda>b. db_file_id b = sr_file_id rg) (ld_data_blobs l) = Some blob" "db_blob blob" "ld_dma l"
    and "unat (ld_scan_offset l) + 2097152 < 2 ^ 64" "ld_scan_offset l + 1048576 < sr_end_page rg * kPageSize"
    and "l1 = on_scan_chunk_read True chunk1 1048576 l"
    and "parse_and_rebuild_entries chunk2 (sr_file_id rg) (ld_scan_offset l1) l1 = (n, l2)"
  shows "ld_io l1 = ld_io l @ [LdReadScan (sr_file_id rg) (ld_scan_offset l + 1048576)
           (min (1024 * 1024) (sr_end_page rg * kPageSize - (ld_scan_offset l + 1048576)))]
     \<and> n = length es2
     \<and> (ld_index l2, ld_max_sequence l2)
         = fold rebuild_entry (log_rebuilt (sr_file_id rg) (ld_scan_offset l) 0 es1
             @ log_rebuilt (sr_file_id rg) (ld_scan_offset l + 1048576) 4096 es2) (ld_index l, ld_max_sequence l)"
proof -
  let ?img = "log_image (key, v, seq, t)" and ?file = "sr_file_id rg"
  have ok: "list_all log_ok es1" "log_ok (key, v, seq, t)" "list_all log_ok es2" using assms(1) by simp_all
  have "take (unat (1048576 :: u64)) chunk1 = chunk1" using assms(6) by simp
  moreover have p1: "parse_entries chunk1 ?file (ld_scan_offset l) 0 0 (ld_index l, ld_max_sequence l)
      = (length es1, fold rebuild_entry (log_rebuilt ?file (ld_scan_offset l) 0 es1) (ld_index l, ld_max_sequence l))"
    unfolding assms(5) using parse_log_cut [OF ok(1,2), of 4096] assms(3) by (simp del: log_image.simps)
  ultimately have "l1 = scan_blob_chunk (l\<lparr>ld_index := fst (fold rebuild_entry (log_rebuilt ?file (ld_scan_offset l) 0 es1) (ld_index l, ld_max_sequence l)),
      ld_max_sequence := snd (fold rebuild_entry (log_rebuilt ?file (ld_scan_offset l) 0 es1) (ld_index l, ld_max_sequence l)),
      ld_scan_offset := ld_scan_offset l + 1048576\<rparr>)"
    using assms(2,9,15) by (simp add: on_scan_chunk_read_def parse_and_rebuild_entries_def split: prod.splits)
  then have l1: "l1 = ld_issue (LdReadScan ?file (ld_scan_offset l + 1048576)
        (min (1024 * 1024) (sr_end_page rg * kPageSize - (ld_scan_offset l + 1048576))))
      (l\<lparr>ld_index := fst (fold rebuild_entry (log_rebuilt ?file (ld_scan_offset l) 0 es1) (ld_index l, ld_max_sequence l)),
        ld_max_sequence := snd (fold rebuild_entry (log_rebuilt ?file (ld_scan_offset l) 0 es1) (ld_index l, ld_max_sequence l)),
        ld_scan_offset := ld_scan_offset l + 1048576\<rparr>)"
    using assms(8-12,14) by (subst (asm) scan_blob_chunk.simps) (simp add: Let_def not_le)
  have page: "length (drop 4096 ?img) = 4096" using assms(3) by simp
  have "parse_entries chunk2 ?file (ld_scan_offset l1) 0 0 (ld_index l1, ld_max_sequence l1)
      = (length es2, fold rebuild_entry (log_rebuilt ?file (ld_scan_offset l1) 4096 es2) (ld_index l1, ld_max_sequence l1))"
    unfolding assms(7) using parse_skip_page [OF page assms(4) ok(3)] by simp
  then have "n = length es2 \<and> (ld_index l2, ld_max_sequence l2)
      = fold rebuild_entry (log_rebuilt ?file (ld_scan_offset l1) 4096 es2) (ld_index l1, ld_max_sequence l1)"
    using assms(16) by (auto simp: parse_and_rebuild_entries_def split: prod.splits)
  then show ?thesis by (simp add: l1 ld_issue_def)
qed

theorem recovery_loses_straddling_entry_witness:
  "\<exists>es1 l l1 l2. length (log_images es1) = 1044480
     \<and> l1 = on_scan_chunk_read True (log_images es1 @ take 4096 (log_image (2, replicate 4096 0, 9, False))) 1048576 l
     \<and> parse_and_rebuild_entries (drop 4096 (log_image (2, replicate 4096 0, 9, False)) @ log_images [(3, [], 10, False)])
          3 (ld_scan_offset l1) l1 = (1, l2)"
proof -
  let ?es1 = "replicate 255 (1, [], 1, False) :: log_entry list" and ?es2 = "[(3, [], 10, False)] :: log_entry list"
  let ?img = "log_image (2, replicate 4096 0, 9, False)"
  let ?l = "demo_loader\<lparr>ld_ranges := [\<lparr>sr_file_id = 3, sr_start_page = 1, sr_end_page = 2048\<rparr>],
     ld_scan_offset := 4096, ld_data_blobs := [\<lparr>db_file_id = 3, db_blob = True, db_clusters = 8, db_size = 0\<rparr>]\<rparr>"
  have vl: "value_len (replicate 4096 0) = 4096" by simp
  have sizes: "unat (kv_entry_size 0) = 4096" "unat (kv_entry_size 4096) = 8192" by (simp_all add: unat_kv_entry_size)
  have one: "length (log_image (1, [], 1, False)) = 4096"
    using length_log_image [of 1 "[]" 1 False] sizes by (simp del: log_image.simps)
  have img: "length ?img = 8192"
    using length_log_image [of 2 "replicate 4096 0" 9 False] sizes vl by (simp del: log_image.simps)
  have es1: "length (log_images (replicate n (1, [], 1, False))) = 4096 * n" for n
    using one by (induction n) (simp_all add: log_images_def del: log_image.simps)
  have ok: "list_all log_ok (?es1 @ (2, replicate 4096 0, 9, False) # ?es2)"
    by (simp add: list_all_iff del:)
  have tail: "get_u32 (drop 4096 ?img) 0 \<noteq> kEntryMagic"
  proof -
    have "slice 0 4 (drop 4096 ?img) = replicate 4 0"
      by (simp add: kv_entry_image_def kv_entry_body_def vl slice_def del:)
    then have "get_u32 (drop 4096 ?img) 0 = 0" unfolding get_u32_def by (simp only: le_nat_zeros) simp
    then show ?thesis by (simp add: kEntryMagic_def)
  qed
  obtain n l2 where run: "parse_and_rebuild_entries (drop 4096 ?img @ log_images ?es2) (sr_file_id (ld_ranges ?l ! ld_scan_idx ?l))
      (ld_scan_offset (on_scan_chunk_read True (log_images ?es1 @ take 4096 ?img) 1048576 ?l))
      (on_scan_chunk_read True (log_images ?es1 @ take 4096 ?img) 1048576 ?l) = (n, l2)" by fastforce
  have "n = length ?es2"
    using recovery_loses_straddling_entry [OF ok _ img tail refl _ refl _ refl _ _ _ _ _ refl run] es1 [of 255] img
    by (simp add: demo_loader_def engine_loader_def kPageSize_def del: log_image.simps)
  moreover have "sr_file_id (ld_ranges ?l ! ld_scan_idx ?l) = 3" by (simp add: demo_loader_def engine_loader_def)
  moreover have "length (log_images ?es1) = 1044480" using es1 [of 255] by simp
  ultimately show ?thesis using run by (intro exI [of _ ?es1] exI [of _ ?l] exI [of _ l2] exI conjI refl) simp_all
qed

text \<open>What the engine's recovery can see. It passes no index blobs, so the index starts as it is given,
  empty after a restart, and only the pages of the scan ranges are read: none of a file before the
  checkpoint's file, none before the checkpoint position in that file, and none behind the size that
  the superblock records for a file of at least one page, although later writes may be there.\<close>

theorem recovery_scan_window:
  assumes "validate_superblock data"
    and "l = ld_io_complete 0 True data (start_recovery (engine_loader m sb True True io_unit cluster_size clusters files))"
    and "r \<in> set (ld_ranges l)"
  shows "mi_entries (ld_index l) = mi_entries m \<and> mi_psl (ld_index l) = mi_psl m
     \<and> (\<exists>f \<in> set files. fi_file_id f = sr_file_id r \<and> fi_state f \<noteq> FDeleted
          \<and> \<not> sr_file_id r < sb_checkpoint_file_id (superblock_at (take 41376 data))
          \<and> sr_start_page r = (if sr_file_id r = sb_checkpoint_file_id (superblock_at (take 41376 data))
                              then sb_checkpoint_page_index (superblock_at (take 41376 data)) else 1)
          \<and> (0 < fi_size f div kPageSize \<longrightarrow> sr_end_page r \<le> fi_size f div kPageSize))"
proof -
  let ?e = "engine_loader m sb True True io_unit cluster_size clusters files"
  let ?l = "?e\<lparr>ld_state := LdScanningDataFiles, ld_sb := take 41376 data\<rparr>"
  have l: "l = start_incremental_rebuild ?l"
    unfolding assms(2) by (rule engine_loader_superblock [OF assms(1)])
  note fields = start_incremental_fields [of ?l]
  have idx: "mi_entries (ld_index l) = mi_entries m" "mi_psl (ld_index l) = mi_psl m"
    using fields by (simp_all add: l engine_loader_def)
  have "ld_data_blobs ?l \<noteq> []" using assms(3) fields by (auto simp: l engine_loader_def)
  then obtain b l1 where b: "b \<in> set (ld_data_blobs ?l)" "scan_range_of l1 b = Some r"
    "ld_ckpt_file_id l1 = sb_checkpoint_file_id (superblock_at (take 41376 data))"
    "ld_ckpt_page_index l1 = sb_checkpoint_page_index (superblock_at (take 41376 data))"
    using assms(3) fields set_build_scan_ranges by (auto simp: l)
  obtain f where f: "f \<in> set files" "fi_state f \<noteq> FDeleted" "db_file_id b = fi_file_id f" "db_size b = fi_size f"
    using b(1) by (auto simp: engine_loader_def)
  have "sr_end_page r \<le> fi_size f div kPageSize" if "0 < fi_size f div kPageSize"
    using b(2) that f(4) by (auto simp: scan_range_of_Some not_less split: if_splits)
  then show ?thesis using idx b f by (intro conjI bexI [of _ f]) (auto simp: scan_range_of_Some)
qed

theorem recovery_scan_window_witness:
  "\<exists>l r. l = ld_io_complete 0 True (sb_image sb_demo) (start_recovery (engine_loader (mem_index_new 8 True) [] True True 512 1048576
         (\<lambda>_. 8) [\<lparr>fi_file_id = 0, fi_blob_id = 5, fi_state = FActive, fi_size = 8192, fi_write_offset = 8192, fi_blob_opened = True\<rparr>]))
     \<and> r \<in> set (ld_ranges l) \<and> sr_end_page r \<le> 2"
proof -
  let ?fs = "[\<lparr>fi_file_id = 0, fi_blob_id = 5, fi_state = FActive, fi_size = 8192, fi_write_offset = 8192, fi_blob_opened = True\<rparr>]"
  let ?data = "sb_image sb_demo" and ?r = "\<lparr>sr_file_id = 0, sr_start_page = 0, sr_end_page = 2\<rparr>"
  define l where "l = ld_io_complete 0 True ?data (start_recovery (engine_loader (mem_index_new 8 True) [] True True 512 1048576
      (\<lambda>_. 8) ?fs))"
  have valid: "validate_superblock ?data" by (rule sb_image_valid [OF sb_demo_ok])
  have "take 41376 ?data = superblock_body sb_demo @ enc_u32 (crc32_calculate (superblock_body sb_demo))"
    using length_superblock_bytes [OF sb_demo_ok(1)] by (simp add: sb_image_eq [OF sb_demo_ok(1)] superblock_bytes_def)
  then have sb: "superblock_at (take 41376 ?data) = sb_demo" using superblock_at_body [OF sb_demo_ok(1)] by simp
  have ck: "sb_checkpoint_file_id sb_demo = 0" "sb_checkpoint_page_index sb_demo = 0" by (simp_all add: sb_demo_def)
  have "ld_ranges l = [?r]"
    unfolding l_def engine_loader_superblock [OF valid]
    by (simp add: start_incremental_fields sb engine_loader_def build_scan_ranges_def List.map_filter_def scan_range_of_def
        Let_def blob_physical_end_def kPageSize_def ck)
  then have r: "?r \<in> set (ld_ranges l)" by simp
  from recovery_scan_window [OF valid l_def r] have "sr_end_page ?r \<le> 2" by (simp add: kPageSize_def)
  with r show ?thesis unfolding l_def by blast
qed

text \<open>Recovery does not compare sequences for deletes: a tombstone removes its key whatever sequence
  number it carries, so a tombstone that is older than the stored entry deletes it.\<close>

theorem recovery_delete_ignores_sequence:
  assumes "mi_inv (ld_index l)" "length v < 2 ^ 32"
    and "parse_and_rebuild_entries (log_images [(key, v, seq, True)]) file base l = (n, l')"
  shows "n = 1 \<and> mi_lookup (ld_index l') x = (if x = key then None else mi_lookup (ld_index l) x)"
proof -
  have ok: "list_all log_ok [(key, v, seq, True)]" using assms(2) by simp
  obtain b t where rm: "mi_remove (ld_index l) key = (b, t)" by fastforce
  have "n = 1 \<and> ld_index l' = t"
    using assms(3) rm parse_log_all [OF ok, where n = 0 and ms = "(ld_index l, ld_max_sequence l)"]
    by (auto simp: parse_and_rebuild_entries_def rebuild_entry_def split: prod.splits)
  with mix.lookup_del [OF assms(1) rm] show ?thesis by simp
qed

theorem recovery_delete_ignores_sequence_witness:
  "\<exists>l'. parse_and_rebuild_entries (log_images [(5, [], 0, True)]) 3 4096 (demo_loader\<lparr>ld_index := ix_table [(5, 1)]\<rparr>) = (1, l')
     \<and> mi_lookup (ix_table [(5, 1)]) 5 \<noteq> None \<and> mi_lookup (ld_index l') 5 = None"
proof -
  let ?l = "demo_loader\<lparr>ld_index := ix_table [(5, 1)]\<rparr>"
  obtain n l' where run: "parse_and_rebuild_entries (log_images [(5, [], 0, True)]) 3 4096 ?l = (n, l')" by fastforce
  have inv: "mi_inv (ld_index ?l)" using ix_table_5_inv by simp
  have "mi_lookup (ix_table [(5, 1)]) 5 \<noteq> None"
    by (simp add: ix_table_def mi_lookup_def mi_find_def find_internal.simps ix_eval)
  with recovery_delete_ignores_sequence [OF inv _ run, of 5] run show ?thesis by auto
qed

end
