(* ===== verification/KvFileMeta.thy ===== *)
theory KvFileMeta
  imports Complex_Main "HOL-Library.AList" KvEntry
begin

text \<open>
  Garbage tracking per data file, the first half of \<^verbatim>\<open>include/spdk_kv/compaction.h\<close> and
  \<^verbatim>\<open>src/compaction.cpp\<close>: the sparse bitmap of valid pages, the counters of a file, and the rate
  limiter of the compaction. The bitmap is shown to be a set of page numbers.
\<close>

unbundle bit_operations_syntax

section \<open>A chunk of the bitmap\<close>

text \<open>512 words of 64 bits.\<close>

type_synonym chunk = "u64 list"

definition kChunkBits :: nat where "kChunkBits = 32768"

definition chunk_new :: chunk where
  "chunk_new = replicate (kChunkBits div 64) 0"

definition chunk_set :: "nat \<Rightarrow> chunk \<Rightarrow> chunk" where
  "chunk_set idx c = c[idx div 64 := (c ! (idx div 64)) OR push_bit (idx mod 64) 1]"

definition chunk_clear :: "nat \<Rightarrow> chunk \<Rightarrow> chunk" where
  "chunk_clear idx c = c[idx div 64 := (c ! (idx div 64)) AND NOT (push_bit (idx mod 64) 1)]"

definition chunk_test :: "chunk \<Rightarrow> nat \<Rightarrow> bool" where
  "chunk_test c idx = ((c ! (idx div 64)) AND push_bit (idx mod 64) 1 \<noteq> 0)"

fun chunk_is_empty :: "chunk \<Rightarrow> bool" where
  "chunk_is_empty [] = True"
| "chunk_is_empty (d # c) = (if d \<noteq> 0 then False else chunk_is_empty c)"

text \<open>\<^verbatim>\<open>__builtin_popcountll\<close> counts the bits that are set.\<close>

definition popcount :: "u64 \<Rightarrow> nat" where
  "popcount w = length (filter (\<lambda>i. bit w i) [0..<64])"

definition chunk_pop_count :: "chunk \<Rightarrow> nat" where
  "chunk_pop_count c = foldl (\<lambda>count d. count + popcount d) 0 c"

section \<open>The bitmap\<close>

text \<open>\<open>bm_chunks\<close> is the \<^verbatim>\<open>unordered_map\<close>; nothing depends on the order of its elements.\<close>

record sparse_bitmap =
  bm_total_bits :: nat
  bm_chunk_count :: nat
  bm_chunks :: "(nat \<times> chunk) list"

definition bm_new :: "nat \<Rightarrow> sparse_bitmap" where
  "bm_new total_bits = \<lparr>bm_total_bits = total_bits,
     bm_chunk_count = (total_bits + kChunkBits - 1) div kChunkBits, bm_chunks = []\<rparr>"

definition bm_set :: "nat \<Rightarrow> sparse_bitmap \<Rightarrow> sparse_bitmap" where
  "bm_set idx b =
     (if idx \<ge> bm_total_bits b then b
      else (let chunk_idx = idx div kChunkBits; bit_idx = idx mod kChunkBits;
                chunks = (case map_of (bm_chunks b) chunk_idx of
                            None \<Rightarrow> AList.update chunk_idx chunk_new (bm_chunks b) | Some _ \<Rightarrow> bm_chunks b)
            in b\<lparr>bm_chunks := AList.update chunk_idx (chunk_set bit_idx (the (map_of chunks chunk_idx))) chunks\<rparr>))"

definition bm_clear :: "nat \<Rightarrow> sparse_bitmap \<Rightarrow> sparse_bitmap" where
  "bm_clear idx b =
     (if idx \<ge> bm_total_bits b then b
      else (let chunk_idx = idx div kChunkBits; bit_idx = idx mod kChunkBits
            in case map_of (bm_chunks b) chunk_idx of
                 None \<Rightarrow> b
               | Some c \<Rightarrow> (let c' = chunk_clear bit_idx c
                            in b\<lparr>bm_chunks := (if chunk_is_empty c' then AList.delete chunk_idx (bm_chunks b)
                                               else AList.update chunk_idx c' (bm_chunks b))\<rparr>)))"

definition bm_test :: "sparse_bitmap \<Rightarrow> nat \<Rightarrow> bool" where
  "bm_test b idx =
     (if idx \<ge> bm_total_bits b then False
      else (case map_of (bm_chunks b) (idx div kChunkBits) of
              None \<Rightarrow> False | Some c \<Rightarrow> chunk_test c (idx mod kChunkBits)))"

text \<open>\<open>sizeof_bitmap\<close> is the size of the object itself, which depends on the library's hash map.\<close>

definition bm_memory_usage :: "nat \<Rightarrow> sparse_bitmap \<Rightarrow> nat" where
  "bm_memory_usage sizeof_bitmap b = length (bm_chunks b) * (kChunkBits div 8) + sizeof_bitmap"

definition bm_pop_count :: "sparse_bitmap \<Rightarrow> nat" where
  "bm_pop_count b = foldl (\<lambda>count (_, c). count + chunk_pop_count c) 0 (bm_chunks b)"

section \<open>File metadata\<close>

record file_meta =
  ft_file_id :: u16
  ft_state :: file_state
  ft_total_entries :: u64
  ft_valid_entries :: u64
  ft_total_bytes :: u64
  ft_valid_bytes :: u64
  ft_bitmap :: "sparse_bitmap option"

definition file_meta_new :: file_meta where
  "file_meta_new = \<lparr>ft_file_id = 0, ft_state = FActive, ft_total_entries = 0, ft_valid_entries = 0,
     ft_total_bytes = 0, ft_valid_bytes = 0, ft_bitmap = None\<rparr>"

text \<open>The ratio is exact here; the source computes it in double precision, so the two comparisons
  can differ only for ratios within rounding of 0.3.\<close>

definition garbage_ratio :: "file_meta \<Rightarrow> rat" where
  "garbage_ratio f =
     (if ft_total_bytes f = 0 then 0
      else 1 - of_nat (unat (ft_valid_bytes f)) / of_nat (unat (ft_total_bytes f)))"

definition kBitmapCreationThreshold :: rat where "kBitmapCreationThreshold = 3 / 10"

definition needs_compaction :: "file_meta \<Rightarrow> bool" where
  "needs_compaction f = (ft_state f = FSealed \<and> garbage_ratio f \<ge> kBitmapCreationThreshold)"

definition maybe_create_bitmap :: "file_meta \<Rightarrow> file_meta" where
  "maybe_create_bitmap f =
     (if ft_bitmap f = None \<and> garbage_ratio f \<ge> kBitmapCreationThreshold
      then f\<lparr>ft_bitmap := Some (bm_new (unat (kDefaultFileSize div kPageSize)))\<rparr> else f)"

definition mark_valid :: "u32 \<Rightarrow> u16 \<Rightarrow> u32 \<Rightarrow> file_meta \<Rightarrow> file_meta" where
  "mark_valid offset_index page_count bytes f =
     (let f = (case ft_bitmap f of None \<Rightarrow> f
               | Some b \<Rightarrow> f\<lparr>ft_bitmap := Some (fold (\<lambda>i. bm_set (unat (offset_index + word_of_nat i)))
                                                  [0..<unat page_count] b)\<rparr>)
      in f\<lparr>ft_valid_entries := ft_valid_entries f + 1, ft_valid_bytes := ft_valid_bytes f + ucast bytes\<rparr>)"

definition mark_invalid :: "u32 \<Rightarrow> u16 \<Rightarrow> u32 \<Rightarrow> file_meta \<Rightarrow> file_meta" where
  "mark_invalid offset_index page_count bytes f =
     (let f = maybe_create_bitmap f;
          f = (case ft_bitmap f of None \<Rightarrow> f
               | Some b \<Rightarrow> f\<lparr>ft_bitmap := Some (fold (\<lambda>i. bm_clear (unat (offset_index + word_of_nat i)))
                                                  [0..<unat page_count] b)\<rparr>);
          f = (if ft_valid_entries f > 0 then f\<lparr>ft_valid_entries := ft_valid_entries f - 1\<rparr> else f)
      in if ft_valid_bytes f \<ge> ucast bytes then f\<lparr>ft_valid_bytes := ft_valid_bytes f - ucast bytes\<rparr> else f)"

definition is_page_valid :: "file_meta \<Rightarrow> u32 \<Rightarrow> bool" where
  "is_page_valid f offset_index =
     (case ft_bitmap f of None \<Rightarrow> True | Some b \<Rightarrow> bm_test b (unat offset_index))"

definition bitmap_memory_usage :: "nat \<Rightarrow> file_meta \<Rightarrow> nat" where
  "bitmap_memory_usage sizeof_bitmap f =
     (case ft_bitmap f of None \<Rightarrow> 0 | Some b \<Rightarrow> bm_memory_usage sizeof_bitmap b)"

section \<open>Rate limiter\<close>

record rate_limiter =
  rl_max_iops :: u32
  rl_tokens :: u64
  rl_last_update_ns :: u64
  rl_token_interval_ns :: u64

definition rl_new :: "u32 \<Rightarrow> rate_limiter" where
  "rl_new max_iops = \<lparr>rl_max_iops = max_iops, rl_tokens = ucast max_iops, rl_last_update_ns = 0,
     rl_token_interval_ns = 1000000000 div ucast max_iops\<rparr>"

definition rl_set_rate :: "u32 \<Rightarrow> rate_limiter \<Rightarrow> rate_limiter" where
  "rl_set_rate iops r =
     (let r = r\<lparr>rl_max_iops := iops\<rparr>
      in if iops > 0 then r\<lparr>rl_token_interval_ns := 1000000000 div ucast iops\<rparr> else r)"

text \<open>\<open>now_ns\<close> is what the steady clock shows.\<close>

definition rl_allow :: "u64 \<Rightarrow> rate_limiter \<Rightarrow> bool \<times> rate_limiter" where
  "rl_allow now_ns r =
     (if rl_max_iops r = 0 then (True, r)
      else (let r = (if rl_last_update_ns r > 0
                     then (let elapsed = now_ns - rl_last_update_ns r;
                               new_tokens = elapsed div rl_token_interval_ns r
                           in r\<lparr>rl_tokens := min (rl_tokens r + new_tokens) (ucast (rl_max_iops r))\<rparr>)
                     else r);
                r = r\<lparr>rl_last_update_ns := now_ns\<rparr>
            in if rl_tokens r > 0 then (True, r\<lparr>rl_tokens := rl_tokens r - 1\<rparr>) else (False, r)))"

definition rl_reset :: "rate_limiter \<Rightarrow> rate_limiter" where
  "rl_reset r = r\<lparr>rl_tokens := ucast (rl_max_iops r), rl_last_update_ns := 0\<rparr>"

section \<open>The bitmap is a set of pages\<close>

lemma chunk_test_bit: "chunk_test c idx \<longleftrightarrow> bit (c ! (idx div 64)) (idx mod 64)"
  by (simp add: chunk_test_def bit_iff_and_push_bit_not_eq_0)

lemma length_chunk_ops [simp]:
  "length chunk_new = 512" "length (chunk_set i c) = length c" "length (chunk_clear i c) = length c"
  by (simp_all add: chunk_new_def chunk_set_def chunk_clear_def kChunkBits_def)

lemma div_mod_eq_iff: "i div (64 :: nat) = j div 64 \<and> i mod 64 = j mod 64 \<longleftrightarrow> i = j"
  by (metis div_mult_mod_eq)

lemma chunk_test_new [simp]: "idx < 32768 \<Longrightarrow> \<not> chunk_test chunk_new idx"
  by (simp add: chunk_test_bit chunk_new_def kChunkBits_def)

lemma chunk_test_set:
  assumes "length c = 512" "i < 32768" "j < 32768"
  shows "chunk_test (chunk_set i c) j \<longleftrightarrow> j = i \<or> chunk_test c j"
proof -
  have "i div 64 < length c" "j div 64 < length c" using assms by auto
  then show ?thesis
    using div_mod_eq_iff [of i j]
    by (auto simp: chunk_test_bit chunk_set_def nth_list_update bit_or_iff bit_exp_iff)
qed

lemma chunk_test_clear:
  assumes "length c = 512" "i < 32768" "j < 32768"
  shows "chunk_test (chunk_clear i c) j \<longleftrightarrow> j \<noteq> i \<and> chunk_test c j"
proof -
  have "i div 64 < length c" "j div 64 < length c" using assms by auto
  moreover have "j mod 64 < 64" by simp
  ultimately show ?thesis
    using div_mod_eq_iff [of i j]
    by (auto simp: chunk_test_bit chunk_clear_def nth_list_update bit_and_iff bit_not_iff bit_exp_iff)
qed

definition chunk_bits :: "chunk \<Rightarrow> nat set" where
  "chunk_bits c = {j. j < 64 * length c \<and> chunk_test c j}"

lemma chunk_bits_Nil [simp]: "chunk_bits [] = {}"
  by (simp add: chunk_bits_def)

lemma chunk_bits_Cons: "chunk_bits (d # c) = {j. j < 64 \<and> bit d j} \<union> (\<lambda>j. j + 64) ` chunk_bits c"
proof (rule set_eqI)
  fix j
  show "j \<in> chunk_bits (d # c) \<longleftrightarrow> j \<in> {j. j < 64 \<and> bit d j} \<union> (\<lambda>j. j + 64) ` chunk_bits c"
  proof (cases "j < 64")
    case True
    then show ?thesis by (auto simp: chunk_bits_def chunk_test_bit)
  next
    case False
    then have j: "j = (j - 64) + 64" by simp
    then have "j div 64 = Suc ((j - 64) div 64)" "j mod 64 = (j - 64) mod 64"
      by (metis div_add_self2 Suc_eq_plus1 zero_neq_numeral, metis mod_add_self2)
    moreover have "j \<in> (\<lambda>j. j + 64) ` chunk_bits c \<longleftrightarrow> j - 64 \<in> chunk_bits c" using j by (auto simp: image_iff)
    ultimately show ?thesis using False by (auto simp: chunk_bits_def chunk_test_bit)
  qed
qed

lemma finite_chunk_bits [simp]: "finite (chunk_bits c)"
  by (simp add: chunk_bits_def)

lemma popcount_card: "popcount w = card {j. j < 64 \<and> bit w j}"
proof -
  have "{j. j < 64 \<and> bit w j} = set (filter (\<lambda>i. bit w i) [0..<64])" by auto
  then show ?thesis by (simp only: popcount_def distinct_card distinct_filter distinct_upt)
qed

lemma chunk_pop_count_card: "chunk_pop_count c = card (chunk_bits c)"
proof -
  have "foldl (\<lambda>count d. count + popcount d) n c = n + card (chunk_bits c)" for n
  proof (induction c arbitrary: n)
    case Nil
    then show ?case by simp
  next
    case (Cons d c)
    have "card (chunk_bits (d # c)) = card {j. j < 64 \<and> bit d j} + card ((\<lambda>j. j + 64) ` chunk_bits c)"
      unfolding chunk_bits_Cons by (intro card_Un_disjoint) auto
    also have "card ((\<lambda>j. j + 64) ` chunk_bits c) = card (chunk_bits c)"
      by (intro card_image) simp
    finally show ?case using Cons by (simp add: popcount_card)
  qed
  then show ?thesis by (simp add: chunk_pop_count_def)
qed

lemma chunk_is_empty_iff: "chunk_is_empty c \<longleftrightarrow> chunk_bits c = {}"
proof (induction c)
  case (Cons d c)
  have "d = 0 \<longleftrightarrow> {j. j < 64 \<and> bit d j} = {}"
    by (auto simp: bit_eq_iff dest: bit_imp_le_length)
  then show ?case using Cons by (simp add: chunk_bits_Cons)
qed simp

text \<open>The pages a chunk map holds.\<close>

definition map_bits :: "(nat \<times> chunk) list \<Rightarrow> nat set" where
  "map_bits cs = {i. \<exists>c. map_of cs (i div 32768) = Some c \<and> chunk_test c (i mod 32768)}"

definition bm_wf :: "sparse_bitmap \<Rightarrow> bool" where
  "bm_wf b \<longleftrightarrow> distinct (map fst (bm_chunks b))
     \<and> (\<forall>k c. map_of (bm_chunks b) k = Some c \<longrightarrow> length c = 512 \<and> \<not> chunk_is_empty c)
     \<and> map_bits (bm_chunks b) \<subseteq> {..<bm_total_bits b}"

definition bm_pages :: "sparse_bitmap \<Rightarrow> nat set" where
  "bm_pages b = {i. bm_test b i}"

lemma map_bits_Cons:
  assumes "k \<notin> fst ` set cs" "length c = 512"
  shows "map_bits ((k, c) # cs) = (\<lambda>j. k * 32768 + j) ` chunk_bits c \<union> map_bits cs"
proof (rule set_eqI)
  fix i :: nat
  have im: "i \<in> (\<lambda>j. k * 32768 + j) ` chunk_bits c \<longleftrightarrow> i div 32768 = k \<and> chunk_test c (i mod 32768)"
  proof
    assume "i \<in> (\<lambda>j. k * 32768 + j) ` chunk_bits c"
    then obtain j where j: "i = k * 32768 + j" "j < 32768" "chunk_test c j"
      using assms(2) by (auto simp: chunk_bits_def)
    then have "i div 32768 = k" "i mod 32768 = j" by simp_all
    with j show "i div 32768 = k \<and> chunk_test c (i mod 32768)" by simp
  next
    assume a: "i div 32768 = k \<and> chunk_test c (i mod 32768)"
    then have "i = k * 32768 + i mod 32768" by (metis div_mult_mod_eq)
    with a assms(2) show "i \<in> (\<lambda>j. k * 32768 + j) ` chunk_bits c"
      by (intro image_eqI [of _ _ "i mod 32768"]) (simp_all add: chunk_bits_def)
  qed
  have "map_of cs k = None" using assms(1) by (simp add: map_of_eq_None_iff)
  then show "i \<in> map_bits ((k, c) # cs) \<longleftrightarrow> i \<in> (\<lambda>j. k * 32768 + j) ` chunk_bits c \<union> map_bits cs"
    unfolding Un_iff im by (auto simp: map_bits_def)
qed

lemma map_bits_count:
  assumes "distinct (map fst cs)" "\<forall>(k, c) \<in> set cs. length c = 512"
  shows "finite (map_bits cs)
    \<and> foldl (\<lambda>count (_, c). count + chunk_pop_count c) n cs = n + card (map_bits cs)"
  using assms
proof (induction cs arbitrary: n)
  case Nil
  then show ?case by (simp add: map_bits_def)
next
  case (Cons kc cs)
  obtain k c where kc: "kc = (k, c)" by (cases kc)
  have k: "k \<notin> fst ` set cs" and c: "length c = 512" using Cons.prems kc by auto
  have IH: "finite (map_bits cs)" "\<And>n. foldl (\<lambda>count (_, c). count + chunk_pop_count c) n cs = n + card (map_bits cs)"
    using Cons by auto
  have "map_of cs k = None" using k by (simp add: map_of_eq_None_iff)
  then have "(\<lambda>j. k * 32768 + j) ` chunk_bits c \<inter> map_bits cs = {}"
    using c by (auto simp: map_bits_def chunk_bits_def)
  then have "card (map_bits (kc # cs)) = card ((\<lambda>j. k * 32768 + j) ` chunk_bits c) + card (map_bits cs)"
    using IH(1) by (simp add: kc map_bits_Cons [OF k c] card_Un_disjoint)
  also have "card ((\<lambda>j. k * 32768 + j) ` chunk_bits c) = card (chunk_bits c)"
    by (intro card_image) (simp add: inj_on_def)
  finally show ?case using IH by (simp add: kc map_bits_Cons [OF k c] chunk_pop_count_card)
qed

lemma bm_test_iff: "bm_test b i \<longleftrightarrow> i < bm_total_bits b \<and> i \<in> map_bits (bm_chunks b)"
  by (cases "map_of (bm_chunks b) (i div 32768)") (auto simp: bm_test_def map_bits_def kChunkBits_def)

lemma bm_pages_map: "bm_wf b \<Longrightarrow> bm_pages b = map_bits (bm_chunks b)"
  by (auto simp: bm_pages_def bm_test_iff bm_wf_def)

lemma bm_wf_set:
  assumes "bm_wf b" "(k, c) \<in> set (bm_chunks b)"
  shows "length c = 512 \<and> \<not> chunk_is_empty c"
  using assms map_of_is_SomeI [of "bm_chunks b" k c] by (simp only: bm_wf_def) blast

lemma bm_pop_count_card:
  assumes "bm_wf b"
  shows "bm_pop_count b = card (bm_pages b) \<and> finite (bm_pages b)"
proof -
  have "distinct (map fst (bm_chunks b))" "\<forall>(k, c) \<in> set (bm_chunks b). length c = 512"
    using assms bm_wf_set [OF assms] by (auto simp: bm_wf_def)
  from map_bits_count [OF this, of 0] show ?thesis by (simp add: bm_pop_count_def bm_pages_map [OF assms])
qed

text \<open>A chunk that is kept holds a page.\<close>

lemma chunk_pop_count_pos: "\<not> chunk_is_empty c \<Longrightarrow> 1 \<le> chunk_pop_count c"
  by (simp add: chunk_pop_count_card chunk_is_empty_iff Suc_le_eq card_gt_0_iff)

lemma bm_chunks_bound:
  assumes "bm_wf b"
  shows "length (bm_chunks b) \<le> card (bm_pages b)"
proof -
  have "n + length cs \<le> foldl (\<lambda>count (_, c). count + chunk_pop_count c) n cs"
    if "\<forall>(k, c) \<in> set cs. \<not> chunk_is_empty c" for cs n
    using that
  proof (induction cs arbitrary: n)
    case (Cons kc cs)
    obtain k c where kc: "kc = (k, c)" by (cases kc)
    have "n + 1 + length cs \<le> n + chunk_pop_count c + length cs"
      using Cons.prems chunk_pop_count_pos [of c] by (simp add: kc)
    also have "\<dots> \<le> foldl (\<lambda>count (_, c). count + chunk_pop_count c) (n + chunk_pop_count c) cs"
      using Cons by simp
    finally show ?case by (simp add: kc)
  qed simp
  from this [of "bm_chunks b" 0] bm_wf_set [OF assms] bm_pop_count_card [OF assms]
  show ?thesis by (auto simp: bm_pop_count_def)
qed

lemma bm_total_ops [simp]: "bm_total_bits (bm_set i b) = bm_total_bits b" "bm_total_bits (bm_clear i b) = bm_total_bits b"
  by (simp_all add: bm_set_def bm_clear_def Let_def split: option.splits)

lemma page_index_eq: "i div (32768 :: nat) = j div 32768 \<Longrightarrow> i mod 32768 = j mod 32768 \<Longrightarrow> i = j"
  by (metis div_mult_mod_eq)

text \<open>Replacing one chunk by another that holds the pages \<open>f\<close> of it.\<close>

lemma map_bits_upd:
  assumes "map_of cs' = (map_of cs)(i div 32768 := v)"
    and "\<And>j. j < 32768 \<Longrightarrow> (\<exists>c. v = Some c \<and> chunk_test c j) \<longleftrightarrow>
      (if j = i mod 32768 then on else \<exists>c. map_of cs (i div 32768) = Some c \<and> chunk_test c j)"
  shows "map_bits cs' = (if on then insert i (map_bits cs) else map_bits cs - {i})"
proof (rule set_eqI)
  fix x
  show "x \<in> map_bits cs' \<longleftrightarrow> x \<in> (if on then insert i (map_bits cs) else map_bits cs - {i})"
    using assms(2) [of "x mod 32768"] page_index_eq [of x i]
    by (cases "x div 32768 = i div 32768") (auto simp: map_bits_def assms(1))
qed

lemma bm_set_refines:
  assumes "bm_wf b"
  shows "bm_wf (bm_set i b) \<and> bm_pages (bm_set i b) = (if i < bm_total_bits b then insert i (bm_pages b) else bm_pages b)"
proof (cases "i < bm_total_bits b")
  case False
  then show ?thesis using assms by (simp add: bm_set_def)
next
  case True
  define c where "c = (case map_of (bm_chunks b) (i div 32768) of None \<Rightarrow> chunk_new | Some c \<Rightarrow> c)"
  define cs where "cs = bm_chunks (bm_set i b)"
  have c: "length c = 512" using assms by (auto simp: c_def bm_wf_def split: option.splits)
  have upd: "map_of cs = (map_of (bm_chunks b))(i div 32768 := Some (chunk_set (i mod 32768) c))"
    using True by (auto simp: cs_def c_def bm_set_def kChunkBits_def Let_def update_conv split: option.splits)
  have "map_bits cs = insert i (map_bits (bm_chunks b))"
  proof (subst map_bits_upd [OF upd, where on = True])
    fix j :: nat assume "j < 32768"
    then show "(\<exists>c'. Some (chunk_set (i mod 32768) c) = Some c' \<and> chunk_test c' j) \<longleftrightarrow> (if j = i mod 32768 then True
        else \<exists>c. map_of (bm_chunks b) (i div 32768) = Some c \<and> chunk_test c j)"
      using c by (simp add: chunk_test_set) (auto simp: c_def split: option.splits)
  qed simp
  moreover have "distinct (map fst cs)"
    using assms True by (auto simp: cs_def bm_set_def bm_wf_def Let_def distinct_update split: option.splits)
  moreover have "\<not> chunk_is_empty (chunk_set (i mod 32768) c)"
    using c chunk_test_set [OF c, of "i mod 32768" "i mod 32768"]
    by (auto simp: chunk_is_empty_iff chunk_bits_def intro!: exI [of _ "i mod 32768"])
  ultimately have "bm_wf (bm_set i b)"
    using assms True c by (auto simp: bm_wf_def upd cs_def [symmetric] split: if_splits)
  with \<open>map_bits cs = _\<close> True assms show ?thesis by (simp add: bm_pages_map cs_def)
qed

lemma bm_clear_refines:
  assumes "bm_wf b"
  shows "bm_wf (bm_clear i b) \<and> bm_pages (bm_clear i b) = bm_pages b - {i}"
proof (cases "i < bm_total_bits b \<and> map_of (bm_chunks b) (i div 32768) \<noteq> None")
  case False
  then have "bm_clear i b = b" "i \<notin> bm_pages b"
    by (auto simp: bm_clear_def bm_pages_def bm_test_def kChunkBits_def split: option.splits)
  then show ?thesis using assms by simp
next
  case True
  then obtain c where c: "map_of (bm_chunks b) (i div 32768) = Some c" and i: "i < bm_total_bits b" by blast
  then have len: "length c = 512" using assms by (simp add: bm_wf_def)
  define c' where "c' = chunk_clear (i mod 32768) c"
  define cs where "cs = bm_chunks (bm_clear i b)"
  have upd: "map_of cs = (map_of (bm_chunks b))(i div 32768 := (if chunk_is_empty c' then None else Some c'))"
    using i c by (auto simp: cs_def c'_def bm_clear_def kChunkBits_def Let_def update_conv delete_conv)
  have "map_bits cs = map_bits (bm_chunks b) - {i}"
  proof (subst map_bits_upd [OF upd, where on = False])
    fix j :: nat assume "j < 32768"
    then have "chunk_is_empty c' \<Longrightarrow> \<not> chunk_test c' j"
      using len by (auto simp: c'_def chunk_is_empty_iff chunk_bits_def)
    then show "(\<exists>c. (if chunk_is_empty c' then None else Some c') = Some c \<and> chunk_test c j) \<longleftrightarrow> (if j = i mod 32768 then False
        else \<exists>c. map_of (bm_chunks b) (i div 32768) = Some c \<and> chunk_test c j)"
      using c len \<open>j < 32768\<close> by (auto simp: c'_def chunk_test_clear split: if_splits)
  qed simp
  moreover have "distinct (map fst cs)"
    using assms i c by (auto simp: cs_def bm_clear_def bm_wf_def kChunkBits_def Let_def distinct_update distinct_delete)
  ultimately have "bm_wf (bm_clear i b)"
    using assms len by (auto simp: bm_wf_def upd cs_def [symmetric] c'_def split: if_splits)
  with \<open>map_bits cs = _\<close> assms show ?thesis by (simp add: bm_pages_map cs_def)
qed

datatype bm_op = BmSet nat | BmClear nat

fun bm_step :: "bm_op \<Rightarrow> sparse_bitmap \<Rightarrow> sparse_bitmap" where
  "bm_step (BmSet i) b = bm_set i b"
| "bm_step (BmClear i) b = bm_clear i b"

fun pages_step :: "nat \<Rightarrow> bm_op \<Rightarrow> nat set \<Rightarrow> nat set" where
  "pages_step n (BmSet i) S = (if i < n then insert i S else S)"
| "pages_step n (BmClear i) S = S - {i}"

lemma bm_run_refines:
  assumes "bm_wf b"
  shows "bm_wf (fold bm_step ops b) \<and> bm_total_bits (fold bm_step ops b) = bm_total_bits b
    \<and> bm_pages (fold bm_step ops b) = fold (pages_step (bm_total_bits b)) ops (bm_pages b)"
  using assms
proof (induction ops arbitrary: b)
  case (Cons op ops)
  have "bm_wf (bm_step op b) \<and> bm_total_bits (bm_step op b) = bm_total_bits b
      \<and> bm_pages (bm_step op b) = pages_step (bm_total_bits b) op (bm_pages b)"
    using Cons.prems bm_set_refines bm_clear_refines by (cases op) simp_all
  then show ?case using Cons.IH [of "bm_step op b"] by simp
qed simp

lemma bm_new_empty: "bm_wf (bm_new n) \<and> bm_pages (bm_new n) = {} \<and> bm_total_bits (bm_new n) = n"
  by (simp add: bm_wf_def bm_new_def map_bits_def bm_pages_def bm_test_def)

text \<open>C31: A bitmap of \<open>n\<close> pages behaves as a set of page numbers below \<open>n\<close> under every sequence of
  \<^verbatim>\<open>set\<close> and \<^verbatim>\<open>clear\<close>: \<^verbatim>\<open>test\<close> is membership, \<^verbatim>\<open>pop_count\<close> the number of elements, although
  \<^verbatim>\<open>clear\<close> drops chunks, and the memory in use is at most one 4 KB chunk per page that is set.\<close>

theorem bitmap_refines_set:
  "bm_test (fold bm_step ops (bm_new n)) i = (i \<in> fold (pages_step n) ops {})
   \<and> bm_pop_count (fold bm_step ops (bm_new n)) = card (fold (pages_step n) ops {})
   \<and> bm_memory_usage z (fold bm_step ops (bm_new n)) \<le> card (fold (pages_step n) ops {}) * 4096 + z"
proof -
  define b where "b = fold bm_step ops (bm_new n)"
  have b: "bm_wf b" "bm_pages b = fold (pages_step n) ops {}"
    using bm_run_refines [of "bm_new n" ops] by (simp_all add: bm_new_empty b_def)
  moreover have "bm_memory_usage z b \<le> card (bm_pages b) * 4096 + z"
    using bm_chunks_bound [OF b(1)] by (simp add: bm_memory_usage_def kChunkBits_def)
  ultimately show ?thesis
    using bm_pop_count_card [OF b(1)] by (simp add: b_def [symmetric] bm_pages_def) auto
qed

section \<open>The bitmap of a file with garbage\<close>

lemma mark_invalid_empty_bitmap:
  assumes "ft_bitmap f = None" "kBitmapCreationThreshold \<le> garbage_ratio f"
  shows "\<exists>b. ft_bitmap (mark_invalid offset_index page_count bytes f) = Some b \<and> bm_pages b = {}"
proof -
  define n where "n = unat (kDefaultFileSize div kPageSize)"
  define ops where "ops = map (\<lambda>i. BmClear (unat (offset_index + word_of_nat i))) [0..<unat page_count]"
  have step: "bm_step (BmClear i) = bm_clear i" for i
    by (rule ext) simp
  have "fold (\<lambda>i. bm_clear (unat (offset_index + word_of_nat i))) [0..<unat page_count] b = fold bm_step ops b" for b
    by (simp add: ops_def fold_map comp_def step)
  then have bitmap: "ft_bitmap (mark_invalid offset_index page_count bytes f) = Some (fold bm_step ops (bm_new n))"
    using assms by (simp add: mark_invalid_def maybe_create_bitmap_def Let_def n_def)
  have "fold (pages_step n) (map (\<lambda>i. BmClear (g i)) is) {} = {}" for g :: "nat \<Rightarrow> nat" and "is"
    by (induction "is") auto
  then have "fold (pages_step n) ops {} = {}" by (simp only: ops_def)
  then have "bm_pages (fold bm_step ops (bm_new n)) = {}"
    using bm_run_refines [of "bm_new n" ops] by (simp add: bm_new_empty)
  with bitmap show ?thesis by simp
qed

text \<open>The bitmap is created empty when the garbage of a file reaches the threshold, so from then on
  every page of the file counts as invalid, also the pages of its valid entries.\<close>

theorem first_bitmap_hides_live_pages:
  assumes "ft_bitmap f = None" "kBitmapCreationThreshold \<le> garbage_ratio f"
  shows "\<not> is_page_valid (mark_invalid offset_index page_count bytes f) p"
  using mark_invalid_empty_bitmap [OF assms, of offset_index page_count bytes]
  by (auto simp: is_page_valid_def bm_pages_def)

definition half_dead :: file_meta where
  "half_dead = \<lparr>ft_file_id = 1, ft_state = FSealed, ft_total_entries = 4, ft_valid_entries = 2,
     ft_total_bytes = 16384, ft_valid_bytes = 8192, ft_bitmap = None\<rparr>"

lemma first_bitmap_hides_live_pages_witness:
  "ft_valid_entries (mark_invalid 3 1 4096 half_dead) = 1 \<and> \<not> is_page_valid (mark_invalid 3 1 4096 half_dead) 4"
proof -
  have "ft_bitmap half_dead = None" "kBitmapCreationThreshold \<le> garbage_ratio half_dead"
    by (simp_all add: half_dead_def garbage_ratio_def kBitmapCreationThreshold_def)
  from first_bitmap_hides_live_pages [OF this, of 3 1 4096 4]
  show ?thesis by (simp add: half_dead_def mark_invalid_def maybe_create_bitmap_def Let_def split: option.splits)
qed

section \<open>What the rate limiter grants\<close>

text \<open>The number of calls that are allowed when the clock shows these times.\<close>

fun rl_granted :: "u64 list \<Rightarrow> rate_limiter \<Rightarrow> nat" where
  "rl_granted [] r = 0"
| "rl_granted (t # ts) r = (case rl_allow t r of (ok, r') \<Rightarrow> of_bool ok + rl_granted ts r')"

fun rl_refills :: "u64 \<Rightarrow> u64 \<Rightarrow> u64 list \<Rightarrow> nat" where
  "rl_refills iv l [] = 0"
| "rl_refills iv l (t # ts) = (if 0 < l then unat ((t - l) div iv) else 0) + rl_refills iv t ts"

lemma unat_add_le: "unat (a + b :: u64) \<le> unat a + unat b"
  by (simp add: unat_word_ariths)

lemma unat_pred: "0 < unat (w :: u64) \<Longrightarrow> unat (w - 1) = unat w - 1"
  by (rule unat_minus_one) auto

lemma rl_granted_refills:
  assumes "rl_max_iops r \<noteq> 0"
  shows "rl_granted ts r \<le> unat (rl_tokens r) + rl_refills (rl_token_interval_ns r) (rl_last_update_ns r) ts"
  using assms
proof (induction ts arbitrary: r)
  case (Cons t ts)
  define new where "new = (if 0 < rl_last_update_ns r then (t - rl_last_update_ns r) div rl_token_interval_ns r else 0)"
  obtain ok r' where r': "rl_allow t r = (ok, r')" by (metis surj_pair)
  have r'_eq: "rl_max_iops r' = rl_max_iops r" "rl_token_interval_ns r' = rl_token_interval_ns r" "rl_last_update_ns r' = t"
    using r' Cons.prems by (auto simp: rl_allow_def Let_def split: if_splits)
  have tok: "of_bool ok + unat (rl_tokens r') \<le> unat (rl_tokens r + new)"
    using r' Cons.prems
    by (auto simp: rl_allow_def Let_def new_def min_def word_le_nat_alt word_less_nat_alt unat_pred split: if_splits)
  have "rl_granted ts r' \<le> unat (rl_tokens r') + rl_refills (rl_token_interval_ns r) t ts"
    using Cons.IH [of r'] Cons.prems by (simp add: r'_eq)
  then show ?case using tok unat_add_le [of "rl_tokens r" new] r'
    by (cases ok) (simp_all add: new_def split: if_splits)
qed simp

lemma rl_refills_sorted:
  assumes "0 < l" "sorted (l # ts)"
  shows "rl_refills iv l ts \<le> (unat (last (l # ts)) - unat l) div unat iv"
  using assms
proof (induction ts arbitrary: l)
  case (Cons t ts)
  have lt: "l \<le> t" "sorted (t # ts)" "0 < t" using Cons.prems by auto
  have "t \<le> last (t # ts)" using lt(2) by (cases ts) auto
  then have le: "unat l \<le> unat t" "unat t \<le> unat (last (t # ts))" using lt(1) by (simp_all add: word_le_nat_alt)
  have "rl_refills iv l (t # ts) \<le> (unat t - unat l) div unat iv + (unat (last (t # ts)) - unat t) div unat iv"
    using Cons.IH [OF lt(3,2)] Cons.prems(1) lt(1) by (simp add: unat_div_distrib unat_sub)
  also have "\<dots> \<le> ((unat t - unat l) + (unat (last (t # ts)) - unat t)) div unat iv"
    by (metis div_add1_eq le_add1)
  finally show ?case using le by (simp add: Cons.prems)
qed simp

text \<open>The limiter keeps its rate: over any sequence of polls it allows no more operations than it had
  tokens, plus one for each token interval that passed.\<close>

theorem rate_limiter_bound:
  assumes "rl_max_iops r \<noteq> 0" "0 < rl_last_update_ns r" "sorted (rl_last_update_ns r # ts)"
  shows "rl_granted ts r \<le> unat (rl_tokens r)
    + (unat (last (rl_last_update_ns r # ts)) - unat (rl_last_update_ns r)) div unat (rl_token_interval_ns r)"
  using rl_granted_refills [OF assms(1), of ts] rl_refills_sorted [OF assms(2,3), of "rl_token_interval_ns r"]
  by linarith

definition rl_at :: "u64 \<Rightarrow> u64 \<Rightarrow> rate_limiter" where
  "rl_at tokens t = \<lparr>rl_max_iops = 1000, rl_tokens = tokens, rl_last_update_ns = t, rl_token_interval_ns = 1000000\<rparr>"

lemma rate_limiter_bound_witness: "rl_granted [1500000, 4500000] (rl_at 0 500000) \<le> 4"
  using rate_limiter_bound [of "rl_at 0 500000" "[1500000, 4500000]"] by (simp add: rl_at_def)

lemma rl_refills_zero:
  "successively (\<lambda>a b. b - a < iv) (l # ts) \<Longrightarrow> rl_refills iv l ts = 0"
proof (induction ts arbitrary: l)
  case (Cons t ts)
  then have "(t - l) div iv = 0" by (simp add: div_word_less)
  with Cons show ?case by simp
qed simp

text \<open>Polling faster than one token interval starves the limiter. Each call restarts the measured
  interval although it added no token, so once the first tokens are used no call is allowed again,
  however long the polling goes on.\<close>

theorem rate_limiter_starves:
  assumes "rl_max_iops r \<noteq> 0"
    and "successively (\<lambda>a b. b - a < rl_token_interval_ns r) (rl_last_update_ns r # ts)"
  shows "rl_granted ts r \<le> unat (rl_tokens r)"
  using rl_granted_refills [OF assms(1), of ts] rl_refills_zero [OF assms(2)] by simp

lemma rate_limiter_starves_witness:
  "rl_granted [1900000, 2800000, 3700000, 4600000, 5500000] (rl_at 1 1000000) \<le> 1"
  using rate_limiter_starves [of "rl_at 1 1000000" "[1900000, 2800000, 3700000, 4600000, 5500000]"]
  by (simp add: rl_at_def)

end
