(* ===== verification/KvCompaction.thy ===== *)
theory KvCompaction
  imports KvRecovery KvAllocLog KvFileMeta
begin

text \<open>
  Compaction, the second half of \<^verbatim>\<open>include/spdk_kv/compaction.h\<close> and \<^verbatim>\<open>src/compaction.cpp\<close>: the
  task that copies the live entries of a sealed file to a new one, chunk by chunk, moves the index
  over, marks the source deleted or rolls everything back, and the scheduler that polls the tasks.
  A request to SPDK ends a step and is kept in \<open>ct_io\<close>; its completion is an event of its own.
\<close>

section \<open>State\<close>

datatype comp_state = CInit | CMarkCompacting | CWaitMarkComplete | CReadChunk | CWaitReadComplete
  | CProcessEntries | CWriteChunk | CWaitWriteComplete | CUpdateIndices | CFinalize | CMarkDeleted
  | CWaitDeleteComplete | CRetryWait | CRollback | CRollbackMarkSealed | CWaitRollbackComplete
  | CFailed | CDone

record migrated_entry =
  mg_key :: u64
  mg_old_file_id :: u16
  mg_old_offset_index :: u32
  mg_new_file_id :: u16
  mg_new_offset_index :: u32
  mg_page_count :: u16
  mg_sequence :: u32

text \<open>Requests in flight: a file header in one of three places, a chunk to read (offset and size), a
  chunk to write (offset and data), the removal of the destination file.\<close>

datatype comp_io = CioMarkCompacting "byte list" | CioRead nat nat | CioWrite nat "byte list"
  | CioMarkDeleted "byte list" | CioRemove u16 | CioMarkSealed "byte list"

text \<open>What a task shares with the engine: files, their metadata and the index.\<close>

record comp_world =
  cw_files :: "u16 \<Rightarrow> file_info option"
  cw_meta :: "u16 \<Rightarrow> file_meta option"
  cw_index :: mem_index

text \<open>What a task asks of its surroundings: \<^verbatim>\<open>Engine::allocate_new_file\<close>, the DMA allocator for the
  two chunk buffers and for a header page, and whether the blob store and the channel are there.\<close>

record comp_env =
  co_allocate_new_file :: "comp_world \<Rightarrow> u16 option \<times> comp_world"
  co_read_dma :: bool
  co_write_dma :: bool
  co_header_dma :: bool
  co_channel :: bool

text \<open>Pointers to file information and metadata are file ids, \<open>None\<close> the null pointer. The buffers
  are null or not; \<open>ct_read_data\<close> is what the last read brought, \<open>ct_write_data\<close> the part of the
  write buffer in use, so that \<^verbatim>\<open>write_buffer_used_\<close> is its length. Offsets are numbers: they stay
  below the size of a file, far from \<open>2^64\<close>.\<close>

record comp_task =
  ct_src_file_id :: u16
  ct_dest_file_id :: u16
  ct_src_info :: "u16 option"
  ct_dest_info :: "u16 option"
  ct_src_meta :: "u16 option"
  ct_dest_meta :: "u16 option"
  ct_state :: comp_state
  ct_last_error :: int
  ct_retry_count :: nat
  ct_retry_start :: u64
  ct_current_offset :: nat
  ct_dest_offset :: nat
  ct_entries_processed :: nat
  ct_entries_migrated :: nat
  ct_migrated :: "migrated_entry list"
  ct_committed :: "migrated_entry list"
  ct_read_buffer :: bool
  ct_write_buffer :: bool
  ct_read_data :: "byte list"
  ct_write_data :: "byte list"
  ct_bytes_read :: nat
  ct_io_pending :: bool
  ct_retry_target :: comp_state
  ct_io :: "comp_io option"

definition kChunkSize :: nat where "kChunkSize = 1048576"
definition kMaxRetryCount :: nat where "kMaxRetryCount = 3"
definition kRetryDelayUs :: u64 where "kRetryDelayUs = 1000"

definition ct_new :: "u16 \<Rightarrow> comp_task" where
  "ct_new src_file_id =
     \<lparr>ct_src_file_id = src_file_id, ct_dest_file_id = 0, ct_src_info = None, ct_dest_info = None,
      ct_src_meta = None, ct_dest_meta = None, ct_state = CInit, ct_last_error = 0, ct_retry_count = 0,
      ct_retry_start = 0, ct_current_offset = 4096, ct_dest_offset = 0, ct_entries_processed = 0,
      ct_entries_migrated = 0, ct_migrated = [], ct_committed = [], ct_read_buffer = False,
      ct_write_buffer = False, ct_read_data = [], ct_write_data = [], ct_bytes_read = 0,
      ct_io_pending = False, ct_retry_target = CInit, ct_io = None\<rparr>"

definition ct_is_complete :: "comp_task \<Rightarrow> bool" where
  "ct_is_complete t = (ct_state t = CDone \<or> ct_state t = CFailed)"

definition ct_is_failed :: "comp_task \<Rightarrow> bool" where
  "ct_is_failed t = (ct_state t = CFailed)"

definition cw_update_file :: "u16 option \<Rightarrow> (file_info \<Rightarrow> file_info) \<Rightarrow> comp_world \<Rightarrow> comp_world" where
  "cw_update_file p f w =
     (case p of None \<Rightarrow> w | Some i \<Rightarrow> w\<lparr>cw_files := (cw_files w)(i := map_option f (cw_files w i))\<rparr>)"

definition cw_update_meta :: "u16 option \<Rightarrow> (file_meta \<Rightarrow> file_meta) \<Rightarrow> comp_world \<Rightarrow> comp_world" where
  "cw_update_meta p f w =
     (case p of None \<Rightarrow> w | Some i \<Rightarrow> w\<lparr>cw_meta := (cw_meta w)(i := map_option f (cw_meta w i))\<rparr>)"

section \<open>Errors and requests\<close>

definition is_retryable_error :: "int \<Rightarrow> bool" where
  "is_retryable_error error_code = (error_code = -11 \<or> error_code = -16 \<or> error_code = -12)"

definition handle_io_error :: "u64 \<Rightarrow> comp_state \<Rightarrow> int \<Rightarrow> comp_task \<Rightarrow> comp_task" where
  "handle_io_error now retry_state error_code t =
     (let t = t\<lparr>ct_retry_count := ct_retry_count t + 1, ct_last_error := error_code\<rparr>
      in if is_retryable_error error_code \<and> ct_retry_count t < kMaxRetryCount
         then t\<lparr>ct_retry_target := retry_state, ct_retry_start := now, ct_state := CRetryWait\<rparr>
         else t\<lparr>ct_state := CRollback\<rparr>)"

text \<open>\<^verbatim>\<open>submit_blob_read\<close> and \<^verbatim>\<open>submit_blob_write\<close>: the request is in flight, or the callback is called
  at once with status -1.\<close>

definition ct_submit :: "comp_env \<Rightarrow> u16 option \<Rightarrow> comp_io \<Rightarrow> (int \<Rightarrow> comp_task \<times> comp_world \<Rightarrow> comp_task \<times> comp_world)
    \<Rightarrow> comp_task \<times> comp_world \<Rightarrow> comp_task \<times> comp_world" where
  "ct_submit env file io callback s =
     (let opened = (case file of None \<Rightarrow> False | Some i \<Rightarrow>
                      (case cw_files (snd s) i of None \<Rightarrow> False | Some f \<Rightarrow> fi_blob_opened f))
      in if opened \<and> co_channel env then ((fst s)\<lparr>ct_io := Some io\<rparr>, snd s) else callback (-1) s)"

definition ct_write_file_header :: "comp_env \<Rightarrow> u16 option \<Rightarrow> file_state \<Rightarrow> (byte list \<Rightarrow> comp_io)
    \<Rightarrow> (int \<Rightarrow> comp_task \<times> comp_world \<Rightarrow> comp_task \<times> comp_world) \<Rightarrow> comp_task \<times> comp_world \<Rightarrow> comp_task \<times> comp_world" where
  "ct_write_file_header env file new_state io callback s =
     (if \<not> co_header_dma env then callback (-12) s
      else ct_submit env file (io (data_header_page (case file of None \<Rightarrow> 0 | Some i \<Rightarrow> i) new_state 0)) callback s)"

definition ct_free_dma_buffers :: "comp_task \<Rightarrow> comp_task" where
  "ct_free_dma_buffers t = t\<lparr>ct_read_buffer := False, ct_write_buffer := False\<rparr>"

section \<open>Starting\<close>

definition ct_init :: "comp_env \<Rightarrow> comp_task \<times> comp_world \<Rightarrow> comp_task \<times> comp_world" where
  "ct_init env = (\<lambda>(t, w).
     (let t = t\<lparr>ct_read_buffer := co_read_dma env, ct_write_buffer := co_write_dma env\<rparr> in
      if \<not> co_read_dma env \<or> \<not> co_write_dma env then (t\<lparr>ct_last_error := -12, ct_state := CFailed\<rparr>, w)
      else (let src = ct_src_file_id t;
                t = t\<lparr>ct_src_info := map_option (\<lambda>_. src) (cw_files w src),
                      ct_src_meta := map_option (\<lambda>_. src) (cw_meta w src)\<rparr>
            in if cw_files w src = None \<or> cw_meta w src = None
               then (t\<lparr>ct_last_error := -2, ct_state := CFailed\<rparr>, w)
               else (case co_allocate_new_file env w of
                  (None, w) \<Rightarrow> (t\<lparr>ct_dest_info := None, ct_last_error := -28, ct_state := CFailed\<rparr>, w)
                | (Some dest, w) \<Rightarrow> (t\<lparr>ct_dest_info := Some dest, ct_dest_file_id := dest,
                      ct_dest_meta := map_option (\<lambda>_. dest) (cw_meta w dest),
                      ct_dest_offset := 4096, ct_migrated := [], ct_state := CMarkCompacting\<rparr>, w)))))"

definition ct_on_mark_compacting :: "u64 \<Rightarrow> int \<Rightarrow> comp_task \<times> comp_world \<Rightarrow> comp_task \<times> comp_world" where
  "ct_on_mark_compacting now status = (\<lambda>(t, w).
     (let t = t\<lparr>ct_io_pending := False\<rparr>
      in if status = 0 then (t\<lparr>ct_state := CReadChunk\<rparr>, w)
         else (handle_io_error now CMarkCompacting status t, w)))"

definition ct_mark_compacting :: "comp_env \<Rightarrow> u64 \<Rightarrow> comp_task \<times> comp_world \<Rightarrow> comp_task \<times> comp_world" where
  "ct_mark_compacting env now = (\<lambda>(t, w).
     (let w = cw_update_meta (ct_src_meta t) (\<lambda>f. f\<lparr>ft_state := FCompacting\<rparr>) w;
          w = cw_update_file (ct_src_info t) (\<lambda>f. f\<lparr>fi_state := FCompacting\<rparr>) w
      in ct_write_file_header env (ct_src_info t) FCompacting CioMarkCompacting
           (ct_on_mark_compacting now) (t\<lparr>ct_io_pending := True\<rparr>, w)))"

section \<open>Reading a chunk\<close>

definition ct_src_file :: "comp_task \<times> comp_world \<Rightarrow> file_info option" where
  "ct_src_file = (\<lambda>(t, w). case ct_src_info t of None \<Rightarrow> None | Some i \<Rightarrow> cw_files w i)"

definition ct_source_meta :: "comp_task \<times> comp_world \<Rightarrow> file_meta option" where
  "ct_source_meta = (\<lambda>(t, w). case ct_src_meta t of None \<Rightarrow> None | Some i \<Rightarrow> cw_meta w i)"

text \<open>The end of the source's data; the pointer is not null once the task has started.\<close>

definition ct_src_end :: "comp_task \<times> comp_world \<Rightarrow> nat" where
  "ct_src_end s = (case ct_src_file s of None \<Rightarrow> 0 | Some f \<Rightarrow> unat (fi_write_offset f))"

function (sequential) skip_pages :: "file_meta \<Rightarrow> nat \<Rightarrow> nat \<Rightarrow> nat" where
  "skip_pages meta src_end offset =
     (if offset < src_end
      then if is_page_valid meta (word_of_nat (offset div 4096)) then offset
           else skip_pages meta src_end (offset + 4096)
      else offset)"
  by pat_completeness auto

termination skip_pages
  by (relation "measure (\<lambda>(_, src_end, offset). src_end - offset)") auto

declare skip_pages.simps [simp del]

definition skip_invalid_pages :: "comp_task \<times> comp_world \<Rightarrow> comp_task" where
  "skip_invalid_pages s =
     (case ct_source_meta s of None \<Rightarrow> fst s
      | Some meta \<Rightarrow> if ft_bitmap meta = None then fst s
          else (fst s)\<lparr>ct_current_offset := skip_pages meta (ct_src_end s) (ct_current_offset (fst s))\<rparr>)"

text \<open>\<open>data\<close> is what the device delivered.\<close>

definition ct_on_read :: "u64 \<Rightarrow> nat \<Rightarrow> byte list \<Rightarrow> int \<Rightarrow> comp_task \<times> comp_world \<Rightarrow> comp_task \<times> comp_world" where
  "ct_on_read now read_size data status = (\<lambda>(t, w).
     (let t = t\<lparr>ct_io_pending := False\<rparr>
      in if status = 0 then (t\<lparr>ct_read_data := data, ct_bytes_read := read_size, ct_state := CProcessEntries\<rparr>, w)
         else (handle_io_error now CReadChunk status t, w)))"

definition ct_read_size :: "nat \<Rightarrow> nat \<Rightarrow> nat" where
  "ct_read_size src_end offset = 4096 * ((min kChunkSize (src_end - offset) + 4095) div 4096)"

definition read_next_chunk :: "comp_env \<Rightarrow> u64 \<Rightarrow> comp_task \<times> comp_world \<Rightarrow> comp_task \<times> comp_world" where
  "read_next_chunk env now s =
     (let t = skip_invalid_pages s; w = snd s; src_end = ct_src_end s
      in if ct_current_offset t \<ge> src_end
         then (t\<lparr>ct_state := (if length (ct_write_data t) > 0 then CWriteChunk else CFinalize)\<rparr>, w)
         else (let read_size = ct_read_size src_end (ct_current_offset t)
               in ct_submit env (ct_src_info t) (CioRead (ct_current_offset t) read_size)
                    (ct_on_read now read_size []) (t\<lparr>ct_io_pending := True\<rparr>, w)))"

section \<open>Copying the live entries\<close>

definition ct_validate_entry :: "byte list \<Rightarrow> nat \<Rightarrow> nat \<Rightarrow> bool" where
  "ct_validate_entry buf offset max_size =
     (if max_size < 16 then False
      else if eh_magic (entry_header_at buf offset) \<noteq> kEntryMagic then False
      else (let entry_size = unat (kv_entry_size (get_u32 buf (offset + 24)))
            in if entry_size > max_size then False
               else get_u32 buf (offset + entry_size - 4) = crc32_calculate (slice offset (entry_size - 4) buf)))"

text \<open>Does the index point to the entry at this position of the source file?\<close>

definition ct_should_migrate :: "mem_index \<Rightarrow> u64 \<Rightarrow> u16 \<Rightarrow> u32 \<Rightarrow> bool" where
  "ct_should_migrate m key src offset_index =
     (case mi_find m key of None \<Rightarrow> False
      | Some i \<Rightarrow> (let current = mi_entries m ! i
                 in if \<not> me_deleted current
                    then ucast (me_file_id current) = src \<and> ucast (me_offset_index current) = offset_index
                    else False))"

text \<open>The record of an entry at an offset of the chunk that is copied to the write buffer.\<close>

definition ct_migration :: "comp_task \<Rightarrow> nat \<Rightarrow> u64 \<Rightarrow> nat \<Rightarrow> u32 \<Rightarrow> migrated_entry" where
  "ct_migration t offset key entry_size seq =
     \<lparr>mg_key = key, mg_old_file_id = ct_src_file_id t,
      mg_old_offset_index = word_of_nat ((ct_current_offset t + offset) div 4096),
      mg_new_file_id = ct_dest_file_id t,
      mg_new_offset_index = word_of_nat ((ct_dest_offset t + length (ct_write_data t)) div 4096),
      mg_page_count = word_of_nat (entry_size div 4096), mg_sequence = seq\<rparr>"

definition ct_copy_entry :: "nat \<Rightarrow> u64 \<Rightarrow> nat \<Rightarrow> u32 \<Rightarrow> comp_task \<Rightarrow> comp_task" where
  "ct_copy_entry offset key entry_size seq t =
     t\<lparr>ct_migrated := ct_migrated t @ [ct_migration t offset key entry_size seq],
       ct_write_data := ct_write_data t @ slice offset entry_size (ct_read_data t),
       ct_entries_migrated := ct_entries_migrated t + 1\<rparr>"

text \<open>The loop of \<^verbatim>\<open>process_entries\<close>.\<close>

function (sequential) process_loop :: "mem_index \<Rightarrow> nat \<Rightarrow> comp_task \<Rightarrow> comp_task" where
  "process_loop m offset t =
     (if offset < ct_bytes_read t
      then (if \<not> ct_validate_entry (ct_read_data t) offset (ct_bytes_read t - offset)
            then process_loop m (next_page offset) t
            else (let h = entry_header_at (ct_read_data t) offset;
                      key = get_u64 (ct_read_data t) (offset + 16);
                      entry_size = unat (kv_entry_size (get_u32 (ct_read_data t) (offset + 24)));
                      should_migrate = ct_should_migrate m key (ct_src_file_id t)
                        (word_of_nat ((ct_current_offset t + offset) div 4096));
                      t = t\<lparr>ct_entries_processed := ct_entries_processed t + 1\<rparr>
                  in if should_migrate \<and> \<not> eh_is_deleted h
                     then (if length (ct_write_data t) + entry_size > kChunkSize
                           then t\<lparr>ct_state := CWriteChunk\<rparr>
                           else process_loop m (offset + entry_size)
                                  (ct_copy_entry offset key entry_size (eh_sequence h) t))
                     else process_loop m (offset + entry_size) t))
      else t\<lparr>ct_current_offset := ct_current_offset t + ct_bytes_read t, ct_state := CReadChunk\<rparr>)"
  by pat_completeness auto

termination process_loop
proof (relation "measure (\<lambda>(_, offset, t). ct_bytes_read t - offset)", goal_cases)
  case 1
  show ?case by simp
next
  case (2 m offset t)
  then show ?case using next_page_gt [of offset] by simp
next
  case (3 m offset t h key entry_size mig t')
  then show ?case using kv_entry_size_bounds(4) [of "get_u32 (ct_read_data t) (offset + 24)"]
    by (simp add: ct_copy_entry_def)
next
  case (4 m offset t h key entry_size mig t')
  then show ?case using kv_entry_size_bounds(4) [of "get_u32 (ct_read_data t) (offset + 24)"] by simp
qed

declare process_loop.simps [simp del]

definition process_entries :: "comp_task \<times> comp_world \<Rightarrow> comp_task \<times> comp_world" where
  "process_entries = (\<lambda>(t, w). (process_loop (cw_index w) 0 t, w))"

section \<open>Writing and moving the index\<close>

definition ct_on_write :: "u64 \<Rightarrow> int \<Rightarrow> comp_task \<times> comp_world \<Rightarrow> comp_task \<times> comp_world" where
  "ct_on_write now status = (\<lambda>(t, w).
     (let t = t\<lparr>ct_io_pending := False\<rparr>
      in if status = 0 then (t\<lparr>ct_retry_count := 0, ct_state := CUpdateIndices\<rparr>, w)
         else (handle_io_error now CWriteChunk status t, w)))"

definition write_chunk :: "comp_env \<Rightarrow> u64 \<Rightarrow> comp_task \<times> comp_world \<Rightarrow> comp_task \<times> comp_world" where
  "write_chunk env now = (\<lambda>(t, w).
     if ct_write_data t = [] then (t\<lparr>ct_state := CReadChunk\<rparr>, w)
     else ct_submit env (ct_dest_info t) (CioWrite (ct_dest_offset t) (ct_write_data t))
            (ct_on_write now) (t\<lparr>ct_io_pending := True\<rparr>, w))"

text \<open>Pointing an index entry at another place, if it points at the expected one.\<close>

definition mi_repoint :: "u64 \<Rightarrow> u16 \<Rightarrow> u32 \<Rightarrow> u16 \<Rightarrow> u32 \<Rightarrow> u16 \<Rightarrow> mem_index \<Rightarrow> mem_index" where
  "mi_repoint key file offset_index file' offset_index' page_count m =
     (case mi_find m key of None \<Rightarrow> m
      | Some i \<Rightarrow> (let current = mi_entries m ! i
                 in if ucast (me_file_id current) = file \<and> ucast (me_offset_index current) = offset_index
                    then m\<lparr>mi_entries := (mi_entries m)[i := current\<lparr>me_file_id := ucast file',
                           me_offset_index := ucast offset_index', me_page_count := page_count\<rparr>]\<rparr>
                    else m))"

definition apply_migration :: "migrated_entry \<Rightarrow> mem_index \<Rightarrow> mem_index" where
  "apply_migration g = mi_repoint (mg_key g) (mg_old_file_id g) (mg_old_offset_index g)
     (mg_new_file_id g) (mg_new_offset_index g) (mg_page_count g)"

definition update_indices :: "comp_task \<times> comp_world \<Rightarrow> comp_task \<times> comp_world" where
  "update_indices = (\<lambda>(t, w).
     (let w = w\<lparr>cw_index := fold apply_migration (ct_migrated t) (cw_index w)\<rparr>;
          t = t\<lparr>ct_committed := ct_committed t @ ct_migrated t, ct_migrated := [],
                ct_dest_offset := ct_dest_offset t + length (ct_write_data t)\<rparr>;
          w = cw_update_file (ct_dest_info t)
                (\<lambda>f. f\<lparr>fi_write_offset := word_of_nat (ct_dest_offset t), fi_size := word_of_nat (ct_dest_offset t)\<rparr>) w
      in (t\<lparr>ct_write_data := [], ct_state := CReadChunk\<rparr>, w)))"

definition finalize :: "comp_task \<times> comp_world \<Rightarrow> comp_task \<times> comp_world" where
  "finalize = (\<lambda>(t, w).
     if length (ct_write_data t) > 0 then (t\<lparr>ct_state := CWriteChunk\<rparr>, w) else (t\<lparr>ct_state := CMarkDeleted\<rparr>, w))"

definition ct_on_mark_deleted :: "u64 \<Rightarrow> int \<Rightarrow> comp_task \<times> comp_world \<Rightarrow> comp_task \<times> comp_world" where
  "ct_on_mark_deleted now status = (\<lambda>(t, w).
     (let t = t\<lparr>ct_io_pending := False\<rparr>
      in if status = 0
         then ((ct_free_dma_buffers (t\<lparr>ct_committed := [], ct_migrated := []\<rparr>))\<lparr>ct_state := CDone\<rparr>, w)
         else (handle_io_error now CMarkDeleted status t, w)))"

definition mark_deleted :: "comp_env \<Rightarrow> u64 \<Rightarrow> comp_task \<times> comp_world \<Rightarrow> comp_task \<times> comp_world" where
  "mark_deleted env now = (\<lambda>(t, w).
     (let w = cw_update_meta (ct_src_meta t)
                (\<lambda>f. f\<lparr>ft_state := FDeleted, ft_valid_entries := 0, ft_valid_bytes := 0\<rparr>) w
      in ct_write_file_header env (ct_src_info t) FDeleted CioMarkDeleted
           (ct_on_mark_deleted now) (t\<lparr>ct_io_pending := True\<rparr>, w)))"

definition check_retry_timeout :: "u64 \<Rightarrow> comp_task \<Rightarrow> comp_task" where
  "check_retry_timeout now t =
     (if now - ct_retry_start t \<ge> kRetryDelayUs * 1000 then t\<lparr>ct_state := ct_retry_target t\<rparr> else t)"

section \<open>Rolling back\<close>

definition revert_index_update :: "migrated_entry \<Rightarrow> mem_index \<Rightarrow> mem_index" where
  "revert_index_update g = mi_repoint (mg_key g) (mg_new_file_id g) (mg_new_offset_index g)
     (mg_old_file_id g) (mg_old_offset_index g) (mg_page_count g)"

text \<open>\<open>erased\<close> tells whether \<^verbatim>\<open>compaction_remove_file\<close> got as far as erasing the file's metadata.\<close>

definition ct_on_removed :: "bool \<Rightarrow> comp_task \<times> comp_world \<Rightarrow> comp_task \<times> comp_world" where
  "ct_on_removed erased = (\<lambda>(t, w).
     (t\<lparr>ct_io_pending := False, ct_state := CRollbackMarkSealed\<rparr>,
      if erased then w\<lparr>cw_meta := (cw_meta w)(ct_dest_file_id t := None)\<rparr> else w))"

definition delete_garbage_file :: "comp_task \<times> comp_world \<Rightarrow> comp_task \<times> comp_world" where
  "delete_garbage_file = (\<lambda>(t, w).
     (let w = cw_update_file (ct_dest_info t) (\<lambda>f. f\<lparr>fi_state := FDeleted\<rparr>) w;
          w = cw_update_meta (ct_dest_meta t)
                (\<lambda>f. f\<lparr>ft_state := FDeleted, ft_valid_entries := 0, ft_valid_bytes := 0\<rparr>) w;
          t = t\<lparr>ct_io_pending := True\<rparr>
      in if cw_files w (ct_dest_file_id t) = None then ct_on_removed False (t, w)
         else (t\<lparr>ct_io := Some (CioRemove (ct_dest_file_id t))\<rparr>, w)))"

definition start_rollback :: "comp_task \<times> comp_world \<Rightarrow> comp_task \<times> comp_world" where
  "start_rollback = (\<lambda>(t, w).
     (let w = w\<lparr>cw_index := fold revert_index_update (ct_committed t) (cw_index w)\<rparr>;
          w = w\<lparr>cw_index := fold revert_index_update (ct_migrated t) (cw_index w)\<rparr>;
          t = t\<lparr>ct_committed := [], ct_migrated := []\<rparr>
      in if ct_dest_info t \<noteq> None \<and> ct_dest_offset t > 4096 then delete_garbage_file (t, w)
         else (t\<lparr>ct_state := CRollbackMarkSealed\<rparr>, w)))"

definition ct_on_mark_sealed :: "int \<Rightarrow> comp_task \<times> comp_world \<Rightarrow> comp_task \<times> comp_world" where
  "ct_on_mark_sealed status = (\<lambda>(t, w).
     ((ct_free_dma_buffers (t\<lparr>ct_io_pending := False, ct_migrated := [], ct_committed := [],
         ct_write_data := []\<rparr>))\<lparr>ct_state := CFailed\<rparr>, w))"

definition rollback_mark_sealed :: "comp_env \<Rightarrow> comp_task \<times> comp_world \<Rightarrow> comp_task \<times> comp_world" where
  "rollback_mark_sealed env = (\<lambda>(t, w).
     (let w = cw_update_file (ct_src_info t) (\<lambda>f. f\<lparr>fi_state := FSealed\<rparr>) w;
          w = cw_update_meta (ct_src_meta t) (\<lambda>f. f\<lparr>ft_state := FSealed\<rparr>) w
      in ct_write_file_header env (ct_src_info t) FSealed CioMarkSealed
           ct_on_mark_sealed (t\<lparr>ct_io_pending := True\<rparr>, w)))"

section \<open>Steps and completions\<close>

fun ct_dispatch :: "comp_env \<Rightarrow> u64 \<Rightarrow> comp_state \<Rightarrow> comp_task \<times> comp_world \<Rightarrow> comp_task \<times> comp_world" where
  "ct_dispatch env now CInit s = ct_init env s"
| "ct_dispatch env now CMarkCompacting s = ct_mark_compacting env now s"
| "ct_dispatch env now CReadChunk s = read_next_chunk env now s"
| "ct_dispatch env now CProcessEntries s = process_entries s"
| "ct_dispatch env now CWriteChunk s = write_chunk env now s"
| "ct_dispatch env now CUpdateIndices s = update_indices s"
| "ct_dispatch env now CFinalize s = finalize s"
| "ct_dispatch env now CMarkDeleted s = mark_deleted env now s"
| "ct_dispatch env now CRetryWait s = (check_retry_timeout now (fst s), snd s)"
| "ct_dispatch env now CRollback s = start_rollback s"
| "ct_dispatch env now CRollbackMarkSealed s = rollback_mark_sealed env s"
| "ct_dispatch env now _ s = s"

definition ct_step :: "comp_env \<Rightarrow> u64 \<Rightarrow> comp_task \<times> comp_world \<Rightarrow> comp_task \<times> comp_world" where
  "ct_step env now s = (if ct_io_pending (fst s) then s else ct_dispatch env now (ct_state (fst s)) s)"

text \<open>The completion of the request in flight, with its status, the data read, and what became of
  the destination's metadata.\<close>

definition ct_complete :: "u64 \<Rightarrow> int \<Rightarrow> byte list \<Rightarrow> bool \<Rightarrow> comp_task \<times> comp_world \<Rightarrow> comp_task \<times> comp_world" where
  "ct_complete now status data erased = (\<lambda>(t, w).
     (let s = (t\<lparr>ct_io := None\<rparr>, w)
      in case ct_io t of None \<Rightarrow> (t, w)
         | Some (CioMarkCompacting _) \<Rightarrow> ct_on_mark_compacting now status s
         | Some (CioRead _ read_size) \<Rightarrow> ct_on_read now read_size data status s
         | Some (CioWrite _ _) \<Rightarrow> ct_on_write now status s
         | Some (CioMarkDeleted _) \<Rightarrow> ct_on_mark_deleted now status s
         | Some (CioRemove _) \<Rightarrow> ct_on_removed erased s
         | Some (CioMarkSealed _) \<Rightarrow> ct_on_mark_sealed status s))"

section \<open>Scheduler\<close>

record comp_scheduler =
  cs_limiter :: rate_limiter
  cs_pending :: "comp_task list"
  cs_active :: "comp_task option"
  cs_paused :: bool
  cs_foreground :: nat

definition kMaxCyclesPerPoll :: u64 where "kMaxCyclesPerPoll = 50000"
definition kMaxIopsPerSec :: u32 where "kMaxIopsPerSec = 1000"
definition kPauseThreshold :: nat where "kPauseThreshold = 1000"
definition kResumeThreshold :: nat where "kResumeThreshold = 100"
definition kThrottleThreshold :: nat where "kThrottleThreshold = 500"

definition cs_new :: comp_scheduler where
  "cs_new = \<lparr>cs_limiter = rl_new kMaxIopsPerSec, cs_pending = [], cs_active = None, cs_paused = False,
     cs_foreground = 0\<rparr>"

definition cs_set_pending_foreground_count :: "nat \<Rightarrow> comp_scheduler \<Rightarrow> comp_scheduler" where
  "cs_set_pending_foreground_count count c = c\<lparr>cs_foreground := count\<rparr>"

definition cs_schedule_compaction :: "u16 \<Rightarrow> comp_scheduler \<Rightarrow> comp_scheduler" where
  "cs_schedule_compaction file_id c = c\<lparr>cs_pending := cs_pending c @ [ct_new file_id]\<rparr>"

text \<open>The loop over the steps of the active task: \<open>tsc n\<close> is the \<open>n\<close>-th reading of the cycle counter in
  the loop, \<open>ns n\<close> what the clock shows to step \<open>n\<close>. \<open>None\<close> means that the loop does not end.\<close>

partial_function (option) cs_run_steps ::
    "comp_env \<Rightarrow> (nat \<Rightarrow> u64) \<Rightarrow> (nat \<Rightarrow> u64) \<Rightarrow> u64 \<Rightarrow> nat \<Rightarrow> comp_task \<times> comp_world \<Rightarrow> (comp_task \<times> comp_world) option" where
  "cs_run_steps env tsc ns start_cycles n s =
     (if ct_is_complete (fst s) then Some s
      else (let elapsed = tsc n - start_cycles
            in if elapsed > kMaxCyclesPerPoll then Some s
               else cs_run_steps env tsc ns start_cycles (n + 1) (ct_step env (ns n) s)))"

text \<open>Priority control: whether the poll goes on, and the scheduler after it.\<close>

definition cs_priority :: "comp_scheduler \<Rightarrow> bool \<times> comp_scheduler" where
  "cs_priority c =
     (if cs_paused c
      then (if cs_foreground c \<le> kResumeThreshold then (True, c\<lparr>cs_paused := False\<rparr>) else (False, c))
      else if cs_foreground c \<ge> kPauseThreshold then (False, c\<lparr>cs_paused := True\<rparr>)
      else if cs_foreground c \<ge> kThrottleThreshold
      then (True, c\<lparr>cs_limiter := rl_set_rate (kMaxIopsPerSec div 4) (cs_limiter c)\<rparr>)
      else if cs_foreground c \<ge> kResumeThreshold
      then (True, c\<lparr>cs_limiter := rl_set_rate (kMaxIopsPerSec div 2) (cs_limiter c)\<rparr>)
      else (True, c\<lparr>cs_limiter := rl_set_rate kMaxIopsPerSec (cs_limiter c)\<rparr>))"

text \<open>The task this poll works on, if the priority and the rate limiter let it; and what becomes of the
  task after its steps.\<close>

definition cs_begin :: "u64 \<Rightarrow> comp_scheduler \<Rightarrow> comp_task option \<times> comp_scheduler" where
  "cs_begin now c =
     (case cs_priority c of
        (False, c) \<Rightarrow> (None, c)
      | (True, c) \<Rightarrow> (case rl_allow now (cs_limiter c) of (allowed, limiter) \<Rightarrow>
          (let c = c\<lparr>cs_limiter := limiter\<rparr> in
           if \<not> allowed then (None, c)
           else if cs_pending c = [] \<and> cs_active c = None then (None, c)
           else if cs_active c = None then (Some (hd (cs_pending c)), c\<lparr>cs_active := Some (hd (cs_pending c)), cs_pending := tl (cs_pending c)\<rparr>)
           else (cs_active c, c))))"

definition cs_end :: "comp_task \<Rightarrow> comp_scheduler \<Rightarrow> comp_scheduler" where
  "cs_end t c = c\<lparr>cs_active := (if ct_is_complete t then None else Some t)\<rparr>"

definition cs_poll :: "comp_env \<Rightarrow> (nat \<Rightarrow> u64) \<Rightarrow> (nat \<Rightarrow> u64) \<Rightarrow> u64 \<Rightarrow> comp_scheduler \<times> comp_world
    \<Rightarrow> (comp_scheduler \<times> comp_world) option" where
  "cs_poll env tsc ns start_cycles = (\<lambda>(c, w).
     (case cs_begin (ns 0) c of
        (None, c) \<Rightarrow> Some (c, w)
      | (Some t, c) \<Rightarrow> (case cs_run_steps env tsc ns start_cycles 1 (t, w) of
            None \<Rightarrow> None | Some (t, w) \<Rightarrow> Some (cs_end t c, w))))"

text \<open>\<open>metas\<close> are the metadata in the order of the map. The order of files with the same ratio is
  not specified by \<^verbatim>\<open>std::sort\<close>; here they keep theirs.\<close>

definition select_files_for_compaction :: "rat \<Rightarrow> file_meta list \<Rightarrow> file_meta list" where
  "select_files_for_compaction min_garbage_ratio metas =
     sort_key (\<lambda>f. - garbage_ratio f)
       (filter (\<lambda>f. needs_compaction f \<and> garbage_ratio f \<ge> min_garbage_ratio) metas)"

end
