(* ===== verification/KvCompactTask.thy ===== *)
theory KvCompactTask
  imports KvCompaction
begin

text \<open>
  What the compaction task of \<open>KvCompaction\<close> does to the index and to its write buffer: how it moves index
  entries and rolls the moves back, and which entries of a chunk it copies.
\<close>

section \<open>Moving an index entry\<close>

lemma nth_update_fields:
  "f (e') = f (xs ! i) \<Longrightarrow> f (xs[i := e'] ! j) = f (xs ! j)"
  by (cases "i < length xs") (auto simp: nth_list_update list_update_beyond not_less)

lemma repoint_same: "mi_same_keys m (mi_repoint key f off f' off' pc m)"
  by (auto simp: mi_repoint_def mi_same_keys_def Let_def intro!: nth_update_fields split: option.splits)

lemma find_repoint [simp]: "mi_find (mi_repoint key f off f' off' pc m) x = mi_find m x"
  by (rule find_same [OF repoint_same])

definition me_repointed :: "u16 \<Rightarrow> u32 \<Rightarrow> u16 \<Rightarrow> mem_index_entry \<Rightarrow> mem_index_entry" where
  "me_repointed file offset_index pc e =
     e\<lparr>me_file_id := ucast file, me_offset_index := ucast offset_index, me_page_count := pc\<rparr>"

definition me_points :: "u16 \<Rightarrow> u32 \<Rightarrow> mem_index_entry \<Rightarrow> bool" where
  "me_points file offset_index e \<longleftrightarrow> ucast (me_file_id e) = file \<and> ucast (me_offset_index e) = offset_index"

lemma repoint_eq:
  "mi_repoint key f off f' off' pc m =
     (case mi_find m key of None \<Rightarrow> m
      | Some i \<Rightarrow> if me_points f off (mi_entries m ! i)
                 then m\<lparr>mi_entries := (mi_entries m)[i := me_repointed f' off' pc (mi_entries m ! i)]\<rparr> else m)"
  by (auto simp: mi_repoint_def me_points_def me_repointed_def Let_def split: option.splits)

lemma repoint_inv:
  assumes "mi_inv m"
  shows "mi_inv (mi_repoint key f off f' off' pc m)"
proof (cases "mi_find m key")
  case None
  then show ?thesis using assms by (simp add: repoint_eq)
next
  case (Some i)
  define e' where "e' = me_repointed f' off' pc (mi_entries m ! i)"
  define m' where "m' = m\<lparr>mi_entries := (mi_entries m)[i := e']\<rparr>"
  have live: "mi_live m key i" using mi_find_iff [OF assms] Some by simp
  have key: "me_key (mi_entries m' ! j) = me_key (mi_entries m ! j)" and
    tag: "me_tag (mi_entries m' ! j) = me_tag (mi_entries m ! j)" and
    seq: "me_sequence (mi_entries m' ! j) = me_sequence (mi_entries m ! j)" for j
    by (auto simp: m'_def e'_def me_repointed_def intro!: nth_update_fields)
  have "mi_wf m'" using assms by (simp add: mi_inv_def mi_wf_def m'_def)
  moreover have disp: "mi_disp m' k j = mi_disp m k j" and path: "mi_path m' k n = mi_path m k n" for k j n
    by (simp_all add: m'_def mi_disp_def mi_path_def mi_pos_def mi_home_def mi_wrap_def)
  have "mi_slot_ok m' j" if "j < mi_cap m" for j
  proof -
    have "mi_slot_ok m j" using assms that by (simp add: mi_inv_def)
    moreover have "mi_psl m' = mi_psl m" by (simp add: m'_def)
    moreover have "mi_entries m' ! j = mi_entries m ! j" if "mi_psl m ! j = 0"
      using live that by (cases "i = j") (auto simp: m'_def mi_live_def)
    ultimately show ?thesis using key [of j] tag [of j] seq [of j] disp path
      by (simp add: mi_slot_ok_def me_is_empty_def Let_def split: if_splits)
  qed
  ultimately have "mi_inv m'"
    using assms key by (simp add: mi_inv_def m'_def)
  then show ?thesis using Some assms by (simp add: repoint_eq m'_def e'_def)
qed

text \<open>The effect on lookups.\<close>

lemma lookup_repoint:
  assumes "mi_inv m"
  shows "mi_lookup (mi_repoint key f off f' off' pc m) x =
    map_option (\<lambda>e. if x = key \<and> me_points f off e then me_repointed f' off' pc e else e) (mi_lookup m x)"
proof (cases "mi_find m x")
  case None
  then show ?thesis by (simp add: mi_lookup_def)
next
  case (Some j)
  then have j: "me_key (mi_entries m ! j) = x" "j < mi_cap m"
    using mi_find_iff [OF assms] by (auto simp: mi_live_def)
  then have len: "j < length (mi_entries m)" using assms by (simp add: mi_inv_def mi_wf_def)
  show ?thesis
  proof (cases "x = key")
    case True
    have "mi_find (mi_repoint key f off f' off' pc m) x = Some j" using Some by simp
    then show ?thesis using Some len True by (simp add: mi_lookup_def) (simp add: repoint_eq)
  next
    case False
    then have no: "mi_find m key \<noteq> Some j" using find_key [of m key j] j by auto
    have "mi_find (mi_repoint key f off f' off' pc m) x = Some j" using Some by simp
    then show ?thesis using Some False no
      by (simp add: mi_lookup_def) (auto simp: repoint_eq split: option.splits)
  qed
qed

lemma repoint_commute:
  assumes "key \<noteq> key2"
  shows "mi_repoint key f off f' off' pc (mi_repoint key2 g on g' on' pc2 m)
    = mi_repoint key2 g on g' on' pc2 (mi_repoint key f off f' off' pc m)"
proof (cases "mi_find m key = None \<or> mi_find m key2 = None")
  case True
  then show ?thesis using find_repoint [of key2 g on g' on' pc2 m key] find_repoint [of key f off f' off' pc m key2]
    unfolding repoint_eq by (auto split: option.splits if_splits)
next
  case False
  then obtain i j where ij: "mi_find m key = Some i" "mi_find m key2 = Some j" by auto
  then have "i \<noteq> j" using assms find_key by metis
  then show ?thesis
    using ij find_repoint [of key2 g on g' on' pc2 m key] find_repoint [of key f off f' off' pc m key2]
    unfolding repoint_eq by (auto simp: list_update_swap)
qed

definition place_fits :: "u16 \<Rightarrow> u32 \<Rightarrow> bool" where
  "place_fits file offset_index \<longleftrightarrow> unat file < 1024 \<and> unat offset_index < 2 ^ 21"

lemma repointed_points: "place_fits f off \<Longrightarrow> me_points f off (me_repointed f off pc e)"
  by (auto simp: place_fits_def me_points_def me_repointed_def unsigned_ucast_eq unsigned_take_bit_eq take_bit_nat_eq_self
      intro!: word_unat_eq_iff [THEN iffD2])

lemma ucast_narrow:
  "(ucast (ucast (x :: 10 word) :: u16) :: 10 word) = x" "(ucast (ucast (y :: 21 word) :: u32) :: 21 word) = y"
proof -
  have "unat x < 2 ^ 10" "unat y < 2 ^ 21"
    by (rule order_less_le_trans [OF unsigned_less], simp)+
  then show "(ucast (ucast x :: u16) :: 10 word) = x" "(ucast (ucast y :: u32) :: 21 word) = y"
    by (auto simp: unsigned_ucast_eq unsigned_take_bit_eq take_bit_nat_eq_self intro!: word_unat_eq_iff [THEN iffD2])
qed

lemma repointed_home: "me_points f off e \<Longrightarrow> me_repointed f off (me_page_count e) e = e"
  by (cases e) (auto simp: me_points_def me_repointed_def ucast_narrow)

lemma repointed_twice: "me_repointed f off pc (me_repointed f' off' pc' e) = me_repointed f off pc e"
  by (simp add: me_repointed_def)

lemma repoint_there_and_back:
  assumes "place_fits f' off'"
    and "\<And>i. mi_find m key = Some i \<Longrightarrow> (if me_points f off (mi_entries m ! i)
      then me_page_count (mi_entries m ! i) = pc else \<not> me_points f' off' (mi_entries m ! i))"
  shows "mi_repoint key f' off' f off pc (mi_repoint key f off f' off' pc m) = m"
proof (cases "mi_find m key")
  case None
  then show ?thesis by (simp add: repoint_eq)
next
  case (Some i)
  define e where "e = mi_entries m ! i"
  show ?thesis
  proof (cases "me_points f off e")
    case False
    then show ?thesis using Some assms(2) [OF Some] by (simp add: repoint_eq e_def)
  next
    case True
    then have there: "me_repointed f off pc e = e" "me_repointed f off pc (me_repointed f' off' pc e) = e"
      using assms(2) [OF Some] by (auto simp: repointed_twice repointed_home e_def [symmetric])
    define m1 where "m1 = mi_repoint key f off f' off' pc m"
    have m1: "m1 = m\<lparr>mi_entries := (mi_entries m)[i := me_repointed f' off' pc e]\<rparr>"
      using Some True by (simp add: repoint_eq e_def m1_def)
    have find: "mi_find m1 key = Some i" using Some by (simp add: m1_def)
    have "mi_repoint key f' off' f off pc m1 = m"
    proof (cases "i < length (mi_entries m)")
      case False
      then have "m1 = m" by (simp add: m1 list_update_beyond)
      then show ?thesis using find there unfolding repoint_eq by (simp add: e_def)
    next
      case True
      then have "mi_entries m1 ! i = me_repointed f' off' pc e" by (simp add: m1)
      then have "mi_repoint key f' off' f off pc m1 = m1\<lparr>mi_entries := (mi_entries m1)[i := e]\<rparr>"
        using find repointed_points [OF assms(1), of pc e] there unfolding repoint_eq by simp
      then show ?thesis by (simp add: m1 e_def)
    qed
    then show ?thesis by (simp only: m1_def)
  qed
qed

lemma repoint_fold_commute:
  assumes "\<forall>g \<in> set gs. mg_key g \<noteq> key"
  shows "mi_repoint key f off f' off' pc (fold apply_migration gs m) = fold apply_migration gs (mi_repoint key f off f' off' pc m)"
  using assms by (induction gs arbitrary: m) (simp_all add: apply_migration_def repoint_commute)

lemma find_fold_migration [simp]: "mi_find (fold apply_migration gs m) x = mi_find m x"
  by (induction gs arbitrary: m) (simp_all add: apply_migration_def)

lemma lookup_fold_migration:
  assumes "mi_inv m" "distinct (map mg_key gs)"
  shows "mi_lookup (fold apply_migration gs m) x = (case find (\<lambda>g. mg_key g = x) gs of None \<Rightarrow> mi_lookup m x
    | Some g \<Rightarrow> map_option (\<lambda>e. if me_points (mg_old_file_id g) (mg_old_offset_index g) e
       then me_repointed (mg_new_file_id g) (mg_new_offset_index g) (mg_page_count g) e else e) (mi_lookup m x))"
  using assms
proof (induction gs arbitrary: m)
  case (Cons g gs)
  have "find (\<lambda>h. mg_key h = mg_key g) gs = None" using Cons.prems(2) by (auto simp: find_None_iff image_iff)
  then show ?case
    using Cons by (auto simp: apply_migration_def lookup_repoint repoint_inv option.map_ident split: option.splits)
qed simp

text \<open>What a rollback needs to know of a migration: the entry in the index is the one that is moved, with
  its number of pages, or it does not point at the new place.\<close>

definition migration_ok :: "mem_index \<Rightarrow> migrated_entry \<Rightarrow> bool" where
  "migration_ok m g \<longleftrightarrow> place_fits (mg_new_file_id g) (mg_new_offset_index g)
     \<and> (case mi_lookup m (mg_key g) of None \<Rightarrow> True
        | Some e \<Rightarrow> if me_points (mg_old_file_id g) (mg_old_offset_index g) e then me_page_count e = mg_page_count g
                   else \<not> me_points (mg_new_file_id g) (mg_new_offset_index g) e)"

lemma revert_apply: "migration_ok m g \<Longrightarrow> revert_index_update g (apply_migration g m) = m"
  unfolding revert_index_update_def apply_migration_def migration_ok_def
  by (rule repoint_there_and_back) (auto simp: mi_lookup_def split: if_splits)

lemma revert_fold:
  assumes "distinct (map mg_key gs)" "\<forall>g \<in> set gs. migration_ok m g"
  shows "fold revert_index_update gs (fold apply_migration gs m) = m"
  using assms
proof (induction gs)
  case (Cons g gs)
  then have "revert_index_update g (fold apply_migration gs (apply_migration g m))
      = fold apply_migration gs (revert_index_update g (apply_migration g m))"
    unfolding revert_index_update_def by (intro repoint_fold_commute) (auto simp: image_iff)
  then show ?case using Cons revert_apply [of m g] by simp
qed simp

section \<open>A small engine for the witnesses\<close>

text \<open>File 1 is sealed and holds one entry, of key 5, in its second page; file 2 is new.\<close>

definition demo_file :: "u16 \<Rightarrow> file_state \<Rightarrow> u64 \<Rightarrow> file_info" where
  "demo_file i st end_offset = \<lparr>fi_file_id = i, fi_blob_id = 0, fi_state = st, fi_size = end_offset,
     fi_write_offset = end_offset, fi_blob_opened = True\<rparr>"

definition demo_index :: mem_index where
  "demo_index = snd (mi_upsert (mem_index_new 8 True) 5
     ((ix_entry 5 1)\<lparr>me_file_id := 1, me_offset_index := 1, me_page_count := 1\<rparr>))"

definition demo_world :: comp_world where
  "demo_world = \<lparr>cw_files = [1 \<mapsto> demo_file 1 FSealed 8192],
     cw_meta = [1 \<mapsto> file_meta_new\<lparr>ft_file_id := 1, ft_state := FSealed\<rparr>], cw_index = demo_index\<rparr>"

definition demo_env :: comp_env where
  "demo_env = \<lparr>co_allocate_new_file = (\<lambda>w. (Some 2, w\<lparr>cw_files := (cw_files w)(2 \<mapsto> demo_file 2 FActive 4096),
       cw_meta := (cw_meta w)(2 \<mapsto> file_meta_new\<lparr>ft_file_id := 2\<rparr>)\<rparr>)),
     co_read_dma = True, co_write_dma = True, co_header_dma = True, co_channel = True\<rparr>"

definition demo_entry :: mem_index_entry where
  "demo_entry = \<lparr>me_key = 5, me_file_id = 1, me_offset_index = 1, me_deleted = False, me_sequence = 1,
     me_page_count = 1, me_tag = 13, me_reserved = 0\<rparr>"

lemma demo_upsert:
  "mi_upsert (mem_index_new 8 True) 5 ((ix_entry 5 1)\<lparr>me_file_id := 1, me_offset_index := 1, me_page_count := 1\<rparr>)
     = (True, demo_index)"
  by (simp add: demo_index_def) (simp add: ix_eval)

lemma demo_index_inv: "mi_inv demo_index"
  and demo_index_lookup: "mi_lookup demo_index x = (if x = 5 then Some demo_entry else None)"
proof -
  let ?e = "(ix_entry 5 1)\<lparr>me_file_id := 1, me_offset_index := 1, me_page_count := 1\<rparr>"
  have new: "mi_inv (mem_index_new 8 True)" "mi_content (mem_index_new 8 True) = Map.empty"
    "0 < mi_free (mem_index_new 8 True)"
    using mem_index_new_inv [of 8] by (simp_all add: next_power_of_2_def)
  have ok: "mi_storable 5 ?e" by (simp add: mi_storable_def me_is_empty_def ix_entry_def)
  show "mi_inv demo_index" using mix.ins_fresh [OF new(1) _ new(3) ok demo_upsert] new(2) by simp
  have "mi_visible (mi_stored 5 ?e)" "mi_stored 5 ?e = demo_entry"
    by (simp_all add: mi_visible_def mi_stored_def ix_entry_def me_zero_def ix_tag demo_entry_def)
  then show "mi_lookup demo_index x = (if x = 5 then Some demo_entry else None)"
    using mix.lookup_ins [OF new(1) _ new(3) ok demo_upsert, of x] new by (simp add: mix.lookup_content)
qed

definition demo_move :: migrated_entry where
  "demo_move = \<lparr>mg_key = 5, mg_old_file_id = 1, mg_old_offset_index = 1, mg_new_file_id = 2,
     mg_new_offset_index = 1, mg_page_count = 1, mg_sequence = 1\<rparr>"

text \<open>The task when the entry has been copied to the write buffer.\<close>

definition demo_task :: comp_task where
  "demo_task = (ct_new 1)\<lparr>ct_dest_file_id := 2, ct_src_info := Some 1, ct_dest_info := Some 2,
     ct_src_meta := Some 1, ct_dest_meta := Some 2, ct_dest_offset := 4096, ct_migrated := [demo_move]\<rparr>"

lemma demo_points: "me_points 1 1 demo_entry" "\<not> me_points 2 1 demo_entry" "place_fits 2 1"
  by (simp_all add: me_points_def demo_entry_def place_fits_def)

section \<open>Index updates and their rollback\<close>

text \<open>\<^verbatim>\<open>update_indices\<close> moves exactly the entries that still point at the place they were copied from. A
  key that the user has written or removed in the meantime keeps what the user left, and so does every
  key without a migration.\<close>

theorem update_indices_moves_current_only:
  assumes "mi_inv (cw_index w)" "distinct (map mg_key (ct_migrated t))"
  shows "mi_lookup (cw_index (snd (update_indices (t, w)))) x =
    (case find (\<lambda>g. mg_key g = x) (ct_migrated t) of
       None \<Rightarrow> mi_lookup (cw_index w) x
     | Some g \<Rightarrow> map_option (\<lambda>e. if me_points (mg_old_file_id g) (mg_old_offset_index g) e
         then me_repointed (mg_new_file_id g) (mg_new_offset_index g) (mg_page_count g) e else e)
         (mi_lookup (cw_index w) x))"
  using lookup_fold_migration [OF assms, of x]
  by (simp add: update_indices_def Let_def cw_update_file_def split: option.splits)

lemma update_indices_moves_current_only_witness:
  "mi_lookup (cw_index (snd (update_indices (demo_task, demo_world)))) 5
     = Some (demo_entry\<lparr>me_file_id := 2\<rparr>)"
proof -
  have "mi_inv (cw_index demo_world)" "distinct (map mg_key (ct_migrated demo_task))"
    by (simp_all add: demo_world_def demo_task_def demo_index_inv)
  from update_indices_moves_current_only [OF this, of 5] show ?thesis
    using demo_points by (simp add: demo_task_def demo_world_def demo_index_lookup demo_move_def me_repointed_def)
      (simp add: demo_entry_def)
qed

text \<open>C26: A rollback restores the index. If the index is what the committed migrations made of \<open>m\<close>, whatever
  chunks they were committed in, and the new places fit the index's bit fields, then after
  \<^verbatim>\<open>start_rollback\<close> it is \<open>m\<close> again; the migrations that were not committed change nothing.\<close>

theorem rollback_restores_index:
  assumes "cw_index w = fold apply_migration (ct_committed t) m"
    and "distinct (map mg_key (ct_committed t))" "\<forall>g \<in> set (ct_committed t). migration_ok m g"
    and "\<forall>g \<in> set (ct_migrated t). \<forall>e. mi_lookup m (mg_key g) = Some e
           \<longrightarrow> \<not> me_points (mg_new_file_id g) (mg_new_offset_index g) e"
  shows "cw_index (snd (start_rollback (t, w))) = m"
proof -
  have "fold revert_index_update gs m = m" if "set gs \<subseteq> set (ct_migrated t)" for gs
    using that
  proof (induction gs)
    case (Cons g gs)
    then have "revert_index_update g m = m"
      using assms(4) by (auto simp: revert_index_update_def repoint_eq mi_lookup_def split: option.splits)
    then show ?case using Cons by simp
  qed simp
  moreover have "fold revert_index_update (ct_committed t) (cw_index w) = m"
    unfolding assms(1) by (rule revert_fold [OF assms(2,3)])
  ultimately show ?thesis
    by (auto simp: start_rollback_def delete_garbage_file_def ct_on_removed_def cw_update_file_def cw_update_meta_def
        Let_def split: option.splits)
qed

lemma rollback_restores_index_witness:
  "cw_index (snd (start_rollback (demo_task\<lparr>ct_committed := [demo_move], ct_migrated := []\<rparr>,
      demo_world\<lparr>cw_index := apply_migration demo_move demo_index\<rparr>))) = demo_index"
proof (rule rollback_restores_index)
  show "\<forall>g \<in> set (ct_committed (demo_task\<lparr>ct_committed := [demo_move], ct_migrated := []\<rparr>)). migration_ok demo_index g"
    using demo_points by (simp add: migration_ok_def demo_move_def demo_index_lookup) (simp add: demo_entry_def)
qed simp_all


section \<open>The live entries of a chunk are copied\<close>

text \<open>The entries of a run that are migrated, with the record of each: \<open>so\<close> and \<open>do\<close> are the offsets
  in the source and in the destination file.\<close>

fun live_moves :: "mem_index \<Rightarrow> u16 \<Rightarrow> u16 \<Rightarrow> nat \<Rightarrow> nat \<Rightarrow> log_entry list \<Rightarrow> (migrated_entry \<times> log_entry) list" where
  "live_moves m src dest so do [] = []"
| "live_moves m src dest so do ((key, v, seq, d) # es) =
     (let n = length (log_image (key, v, seq, d)) in
      if ct_should_migrate m key src (word_of_nat (so div 4096)) \<and> \<not> d
      then (\<lparr>mg_key = key, mg_old_file_id = src, mg_old_offset_index = word_of_nat (so div 4096),
             mg_new_file_id = dest, mg_new_offset_index = word_of_nat (do div 4096),
             mg_page_count = word_of_nat (n div 4096), mg_sequence = seq\<rparr>, (key, v, seq, d))
           # live_moves m src dest (so + n) (do + n) es
      else live_moves m src dest (so + n) do es)"

abbreviation moves_data :: "(migrated_entry \<times> log_entry) list \<Rightarrow> byte list" where
  "moves_data mvs \<equiv> log_images (map snd mvs)"

text \<open>The state of the task after a run of entries.\<close>

definition ct_copied :: "(migrated_entry \<times> log_entry) list \<Rightarrow> nat \<Rightarrow> comp_task \<Rightarrow> comp_task" where
  "ct_copied mvs n t = t\<lparr>ct_migrated := ct_migrated t @ map fst mvs, ct_write_data := ct_write_data t @ moves_data mvs,
     ct_entries_migrated := ct_entries_migrated t + length mvs, ct_entries_processed := ct_entries_processed t + n\<rparr>"

lemma log_images_simps [simp]: "log_images [] = []" "log_images (e # es) = log_image e @ log_images es"
  by (simp_all add: log_images_def)

lemma ct_copied_fields [simp]:
  "ct_read_data (ct_copied mvs n t) = ct_read_data t" "ct_bytes_read (ct_copied mvs n t) = ct_bytes_read t"
  "ct_src_file_id (ct_copied mvs n t) = ct_src_file_id t" "ct_dest_file_id (ct_copied mvs n t) = ct_dest_file_id t"
  "ct_current_offset (ct_copied mvs n t) = ct_current_offset t" "ct_dest_offset (ct_copied mvs n t) = ct_dest_offset t"
  "ct_write_data (ct_copied mvs n t) = ct_write_data t @ moves_data mvs"
  "ct_copied [] 0 t = t"
  "ct_copied mvs n (ct_copied mvs' n' t) = ct_copied (mvs' @ mvs) (n' + n) t"
  by (simp_all add: ct_copied_def log_images_def add.assoc)

text \<open>One entry at an offset of the chunk.\<close>

lemma process_entry:
  assumes ok: "log_ok (key, v, seq, d)" and off: "length pre = off"
    and buf: "ct_read_data t = pre @ log_image (key, v, seq, d) @ rest" "ct_bytes_read t = length (ct_read_data t)"
    and mvs: "mvs = live_moves m (ct_src_file_id t) (ct_dest_file_id t) (ct_current_offset t + off)
      (ct_dest_offset t + length (ct_write_data t)) [(key, v, seq, d)]"
    and fits: "length (ct_write_data t) + length (moves_data mvs) \<le> kChunkSize"
  shows "process_loop m off t = process_loop m (off + length (log_image (key, v, seq, d))) (ct_copied mvs 1 t)"
proof -
  let ?len = "value_len v"
  note fields = log_image_at [OF ok off, of rest, folded buf(1)]
  note size = length_log_image [OF ok]
  have sz: "32 \<le> unat (kv_entry_size ?len)" using kv_entry_size_bounds [of ?len] by simp
  have valid: "ct_validate_entry (ct_read_data t) off (ct_bytes_read t - off)"
    using fields sz size off by (simp add: ct_validate_entry_def Let_def buf(2) del: log_image.simps)
      (simp add: buf(1) del: log_image.simps)
  have del: "eh_is_deleted \<lparr>eh_magic = kEntryMagic, eh_version = 1,
       eh_flags = (if d then kFlagDeleted else 0), eh_reserved = 0, eh_sequence = seq, eh_padding = 0\<rparr> = d"
    by (simp add: eh_is_deleted_def kFlagDeleted_def)
  have lt: "off < ct_bytes_read t" using size sz off by (simp add: buf del: log_image.simps)
  have sl: "slice off (unat (kv_entry_size ?len)) (ct_read_data t) = log_image (key, v, seq, d)"
    using off size by (simp add: buf(1) slice_def del: log_image.simps)
  show ?thesis
  proof (cases "ct_should_migrate m key (ct_src_file_id t) (word_of_nat ((ct_current_offset t + off) div 4096)) \<and> \<not> d")
    case False
    then have "mvs = []" by (auto simp: mvs Let_def)
    then have c: "ct_copied mvs 1 t = t\<lparr>ct_entries_processed := ct_entries_processed t + 1\<rparr>"
      by (cases t) (simp add: ct_copied_def)
    show ?thesis
      unfolding c by (subst process_loop.simps)
        (use lt valid fields del False size in \<open>auto simp add: Let_def simp del: log_image.simps\<close>)
  next
    case True
    then have m1: "mvs = [(ct_migration t off key (unat (kv_entry_size ?len)) seq, (key, v, seq, d))]"
      using size by (auto simp add: mvs Let_def ct_migration_def simp del: log_image.simps)
    then have "length (ct_write_data t) + unat (kv_entry_size ?len) \<le> kChunkSize"
      using fits size by (simp del: log_image.simps)
    moreover have c: "ct_copied mvs 1 t
        = ct_copy_entry off key (unat (kv_entry_size ?len)) seq (t\<lparr>ct_entries_processed := ct_entries_processed t + 1\<rparr>)"
      using sl by (cases t) (simp add: ct_copied_def ct_copy_entry_def m1 ct_migration_def del: log_image.simps)
    ultimately show ?thesis
      by (subst process_loop.simps)
        (use lt valid fields del True size in \<open>simp add: Let_def c del: log_image.simps\<close>)
  qed
qed

lemma live_moves_Cons:
  "live_moves m src dest so do (e # es) = live_moves m src dest so do [e]
     @ live_moves m src dest (so + length (log_image e)) (do + length (moves_data (live_moves m src dest so do [e]))) es"
  by (cases e rule: prod_cases4) (simp add: Let_def del: log_image.simps)

lemma process_run:
  assumes "list_all log_ok es" "length pre = off"
    and "ct_read_data t = pre @ log_images es @ rest" "ct_bytes_read t = length (ct_read_data t)"
    and "mvs = live_moves m (ct_src_file_id t) (ct_dest_file_id t) (ct_current_offset t + off)
      (ct_dest_offset t + length (ct_write_data t)) es"
    and "length (ct_write_data t) + length (moves_data mvs) \<le> kChunkSize"
  shows "process_loop m off t = process_loop m (off + length (log_images es)) (ct_copied mvs (length es) t)"
  using assms
proof (induction es arbitrary: pre off t mvs)
  case Nil
  then show ?case by simp
next
  case (Cons e es)
  obtain key v seq d where e: "e = (key, v, seq, d)" by (cases e) auto
  define mv where "mv = live_moves m (ct_src_file_id t) (ct_dest_file_id t) (ct_current_offset t + off)
      (ct_dest_offset t + length (ct_write_data t)) [e]"
  define mvs' where "mvs' = live_moves m (ct_src_file_id t) (ct_dest_file_id t) (ct_current_offset t + (off + length (log_image e)))
      (ct_dest_offset t + length (ct_write_data t @ moves_data mv)) es"
  have split: "mvs = mv @ mvs'"
    unfolding Cons.prems(5) by (subst live_moves_Cons) (simp add: mv_def mvs'_def add.assoc)
  then have fits: "length (ct_write_data t) + length (moves_data mv) + length (moves_data mvs') \<le> kChunkSize"
    using Cons.prems(6) by (simp add: log_images_def)
  have "process_loop m off t = process_loop m (off + length (log_image e)) (ct_copied mv 1 t)"
    unfolding e
    by (rule process_entry [where pre = pre and rest = "log_images es @ rest"])
      (use Cons.prems fits in \<open>simp_all add: e mv_def del: log_image.simps live_moves.simps\<close>)
  also have "\<dots> = process_loop m (off + length (log_image e) + length (log_images es)) (ct_copied mvs' (length es) (ct_copied mv 1 t))"
    using Cons.prems fits by (intro Cons.IH [of "pre @ log_image e"]) (simp_all add: mvs'_def add.assoc)
  finally show ?case by (simp add: split add.assoc)
qed

lemma log_image_pages:
  "log_ok x \<Longrightarrow> 4096 \<le> length (log_image x) \<and> 4096 dvd length (log_image x)"
  by (cases x rule: prod_cases4)
    (simp add: length_log_image kv_entry_size_bounds del: log_image.simps log_ok.simps)

lemma should_migrate_lookup:
  "ct_should_migrate m key src oi \<longleftrightarrow> (\<exists>e. mi_lookup m key = Some e \<and> me_points src oi e)"
proof (cases "mi_find m key")
  case (Some i)
  then show ?thesis using find_key [OF Some] by (simp add: ct_should_migrate_def mi_lookup_def me_points_def Let_def)
qed (simp add: ct_should_migrate_def mi_lookup_def)

lemma length_moves_data: "length (moves_data (live_moves m src dest so do es)) \<le> length (log_images es)"
  by (induction es arbitrary: so do rule: list.induct)
    (simp_all add: split_paired_all Let_def del: log_image.simps, (meson le_add2 le_trans add_left_mono)+)

text \<open>Where a move comes from.\<close>

lemma live_moves_source:
  assumes "(g, x) \<in> set (live_moves m src dest so do es)" "list_all log_ok es"
  shows "\<exists>p. so \<le> p \<and> p + 4096 \<le> so + length (log_images es) \<and> mg_key g = fst x \<and> mg_old_file_id g = src
    \<and> mg_old_offset_index g = word_of_nat (p div 4096) \<and> ct_should_migrate m (fst x) src (word_of_nat (p div 4096))"
  using assms
proof (induction es arbitrary: so do)
  case (Cons y es)
  obtain key v seq d where y: "y = (key, v, seq, d)" by (cases y) auto
  have n: "4096 \<le> length (log_image y)" using log_image_pages [of y] Cons.prems(2) by simp
  show ?case
  proof (cases "(g, x) \<in> set (live_moves m src dest so do [y])")
    case True
    then show ?thesis using n by (intro exI [of _ so]) (auto simp: y Let_def split: if_splits simp del: log_image.simps)
  next
    case False
    then obtain do' where "(g, x) \<in> set (live_moves m src dest (so + length (log_image y)) do' es)"
      using Cons.prems(1) live_moves_Cons [of m src dest so do y es] by auto
    from Cons.IH [OF this] Cons.prems(2) obtain p where "so + length (log_image y) \<le> p"
      "p + 4096 \<le> so + length (log_image y) + length (log_images es)" "mg_key g = fst x" "mg_old_file_id g = src"
      "mg_old_offset_index g = word_of_nat (p div 4096)" "ct_should_migrate m (fst x) src (word_of_nat (p div 4096))" by auto
    then show ?thesis by (intro exI [of _ p]) simp
  qed
qed simp

text \<open>Where it goes.\<close>

lemma live_moves_target:
  assumes "(g, x) \<in> set (live_moves m src dest so do es)" "list_all log_ok es" "mvs = live_moves m src dest so do es"
  shows "\<exists>p. p + length (log_image x) \<le> length (moves_data mvs) \<and> mg_new_file_id g = dest
    \<and> mg_page_count g = word_of_nat (length (log_image x) div 4096)
    \<and> mg_new_offset_index g = word_of_nat ((do + p) div 4096) \<and> 4096 dvd p
    \<and> slice p (length (log_image x)) (moves_data mvs) = log_image x"
  using assms
proof (induction es arbitrary: so do mvs)
  case (Cons y es)
  obtain key v seq d where y: "y = (key, v, seq, d)" by (cases y) auto
  define mv where "mv = live_moves m src dest so do [y]"
  define mvs' where "mvs' = live_moves m src dest (so + length (log_image y)) (do + length (moves_data mv)) es"
  have mvs: "mvs = mv @ mvs'" unfolding Cons.prems(3) mv_def mvs'_def by (rule live_moves_Cons)
  have pages: "4096 dvd length (moves_data mv)"
    using log_image_pages [of y] Cons.prems(2) by (cases d) (simp_all add: mv_def y Let_def del: log_image.simps log_ok.simps)
  show ?case
  proof (cases "(g, x) \<in> set mv")
    case True
    then show ?thesis
      by (intro exI [of _ 0]) (auto simp: mvs mv_def y Let_def slice_def split: if_splits simp del: log_image.simps)
  next
    case False
    have "(g, x) \<in> set mvs" using Cons.prems(1) by (simp only: Cons.prems(3))
    with False have "(g, x) \<in> set mvs'" by (simp add: mvs)
    from Cons.IH [OF this [unfolded mvs'_def] _ mvs'_def] Cons.prems(2) obtain p where
      "p + length (log_image x) \<le> length (moves_data mvs')" "mg_new_file_id g = dest"
      "mg_page_count g = word_of_nat (length (log_image x) div 4096)"
      "mg_new_offset_index g = word_of_nat ((do + length (moves_data mv) + p) div 4096)" "4096 dvd p"
      "slice p (length (log_image x)) (moves_data mvs') = log_image x" by auto
    then show ?thesis using pages
      by (intro exI [of _ "length (moves_data mv) + p"]) (simp add: mvs log_images_def slice_def add.assoc)
  qed
qed simp

lemma live_moves_distinct:
  assumes "list_all log_ok es" "so + length (log_images es) \<le> 2 ^ 33"
  shows "distinct (map mg_key (map fst (live_moves m src dest so do es)))"
  using assms
proof (induction es arbitrary: so do)
  case (Cons y es)
  obtain key v seq d where y: "y = (key, v, seq, d)" by (cases y) auto
  define mv where "mv = live_moves m src dest so do [y]"
  define so' where "so' = so + length (log_image y)"
  define mvs' where "mvs' = live_moves m src dest so' (do + length (moves_data mv)) es"
  have n: "4096 \<le> length (log_image y)" using log_image_pages [of y] Cons.prems(1) by simp
  have "mg_key g' \<noteq> key" if g: "ct_should_migrate m key src (word_of_nat (so div 4096))" "(g', x') \<in> set mvs'" for g' x'
  proof
    assume same: "mg_key g' = key"
    have ok: "list_all log_ok es" using Cons.prems(1) by simp
    from live_moves_source [OF g(2) [unfolded mvs'_def] ok] obtain p where
      p: "so' \<le> p" "p + 4096 \<le> so' + length (log_images es)" "mg_key g' = fst x'"
         "ct_should_migrate m (fst x') src (word_of_nat (p div 4096))" by blast
    with g(1) same have "(word_of_nat (so div 4096) :: u32) = word_of_nat (p div 4096)"
      by (auto simp: should_migrate_lookup me_points_def)
    moreover have "so div 4096 < 2 ^ 32" "p div 4096 < 2 ^ 32"
      using p Cons.prems(2) by (auto simp: so'_def)
    ultimately have "so div 4096 = p div 4096" by (simp add: word_of_nat_eq_iff take_bit_nat_eq_self)
    moreover have "so + 4096 \<le> p" using p(1) n by (simp add: so'_def)
    then have "(so + 4096) div 4096 \<le> p div 4096" by (rule div_le_mono)
    ultimately show False by simp
  qed
  moreover have "distinct (map mg_key (map fst mvs'))"
    unfolding mvs'_def using Cons.prems by (intro Cons.IH) (simp_all add: so'_def add.assoc)
  moreover have "live_moves m src dest so do (y # es) = mv @ mvs'"
    unfolding mv_def mvs'_def so'_def by (rule live_moves_Cons)
  moreover have "mv = [] \<or> (\<exists>g x. mv = [(g, x)] \<and> mg_key g = key \<and> ct_should_migrate m key src (word_of_nat (so div 4096)))"
    by (auto simp add: mv_def y Let_def simp del: log_image.simps)
  ultimately show ?case by force
qed simp

lemma find_distinct_key:
  assumes "distinct (map mg_key gs)" "g \<in> set gs"
  shows "find (\<lambda>h. mg_key h = mg_key g) gs = Some g"
  using assms by (induction gs) (auto simp: image_iff)

lemma live_moves_member:
  assumes "ct_should_migrate m key src (word_of_nat ((so + length (log_images es1)) div 4096))"
  shows "\<exists>g. (g, (key, v, seq, False)) \<in> set (live_moves m src dest so do (es1 @ (key, v, seq, False) # es2))"
  using assms
proof (induction es1 arbitrary: so do)
  case Nil
  then show ?case by (auto simp: Let_def)
next
  case (Cons y es1)
  have "ct_should_migrate m key src (word_of_nat ((so + length (log_image y) + length (log_images es1)) div 4096))"
    using Cons.prems by (simp add: add.assoc)
  from Cons.IH [OF this] obtain g where "(g, (key, v, seq, False)) \<in> set (live_moves m src dest (so + length (log_image y))
      (do + length (moves_data (live_moves m src dest so do [y]))) (es1 @ (key, v, seq, False) # es2))"
    by blast
  then show ?case by (intro exI [of _ g]) (subst append_Cons, subst live_moves_Cons, simp)
qed

text \<open>What processing a whole chunk of entries leaves in the task.\<close>

lemma process_chunk:
  assumes "list_all log_ok es" "ct_read_data t = log_images es" "ct_bytes_read t = length (log_images es)"
    and "mvs = live_moves m (ct_src_file_id t) (ct_dest_file_id t) (ct_current_offset t)
      (ct_dest_offset t + length (ct_write_data t)) es"
    and "length (ct_write_data t) + length (log_images es) \<le> kChunkSize"
  shows "process_loop m 0 t = (ct_copied mvs (length es) t)\<lparr>
    ct_current_offset := ct_current_offset t + length (log_images es), ct_state := CReadChunk\<rparr>"
proof -
  have "length (moves_data mvs) \<le> length (log_images es)" unfolding assms(4) by (rule length_moves_data)
  then have "process_loop m 0 t = process_loop m (length (log_images es)) (ct_copied mvs (length es) t)"
    using process_run [OF assms(1), of "[]" 0 t "[]" mvs m] assms by simp
  also have "\<dots> = (ct_copied mvs (length es) t)\<lparr>
      ct_current_offset := ct_current_offset t + length (log_images es), ct_state := CReadChunk\<rparr>"
    by (subst process_loop.simps) (simp add: assms(3))
  finally show ?thesis .
qed

text \<open>The write buffer holds the live entries of \<open>es\<close>, a run of whole entries that ends where the next
  chunk begins.\<close>

definition buffer_holds :: "mem_index \<Rightarrow> comp_task \<Rightarrow> log_entry list \<Rightarrow> bool" where
  "buffer_holds m t es \<longleftrightarrow> length (log_images es) \<le> ct_current_offset t
     \<and> (let mvs = live_moves m (ct_src_file_id t) (ct_dest_file_id t) (ct_current_offset t - length (log_images es))
                    (ct_dest_offset t) es
        in ct_migrated t = map fst mvs \<and> ct_write_data t = moves_data mvs)"

lemma live_moves_append:
  "live_moves m src dest so do (es @ fs) = live_moves m src dest so do es
     @ live_moves m src dest (so + length (log_images es)) (do + length (moves_data (live_moves m src dest so do es))) fs"
proof (induction es arbitrary: so do)
  case (Cons e es)
  show ?case
    using live_moves_Cons [of m src dest so do e es] live_moves_Cons [of m src dest so do e "es @ fs"] Cons.IH
    by (simp add: log_images_def add.assoc)
qed simp

lemma buffer_holds_empty: "ct_migrated t = [] \<Longrightarrow> ct_write_data t = [] \<Longrightarrow> buffer_holds m t []"
  by (simp add: buffer_holds_def)

text \<open>Processing a chunk of whole entries adds its live entries to the buffer.\<close>

lemma process_chunk_holds:
  assumes "buffer_holds m t es0" "list_all log_ok es"
    and "ct_read_data t = log_images es" "ct_bytes_read t = length (log_images es)"
    and "length (ct_write_data t) + length (log_images es) \<le> kChunkSize"
  shows "\<exists>mvs. process_loop m 0 t = (ct_copied mvs (length es) t)\<lparr>
      ct_current_offset := ct_current_offset t + length (log_images es), ct_state := CReadChunk\<rparr>
    \<and> length (moves_data mvs) \<le> length (log_images es) \<and> buffer_holds m (process_loop m 0 t) (es0 @ es)"
proof -
  let ?so = "ct_current_offset t - length (log_images es0)" and ?src = "ct_src_file_id t" and ?dest = "ct_dest_file_id t"
  define mvs0 where "mvs0 = live_moves m ?src ?dest ?so (ct_dest_offset t) es0"
  define mvs where "mvs = live_moves m ?src ?dest (ct_current_offset t) (ct_dest_offset t + length (ct_write_data t)) es"
  have old: "ct_migrated t = map fst mvs0" "ct_write_data t = moves_data mvs0" "length (log_images es0) \<le> ct_current_offset t"
    using assms(1) by (simp_all add: buffer_holds_def Let_def mvs0_def)
  have run: "process_loop m 0 t = (ct_copied mvs (length es) t)\<lparr>
      ct_current_offset := ct_current_offset t + length (log_images es), ct_state := CReadChunk\<rparr>"
    using assms(5) by (intro process_chunk [OF assms(2-4) mvs_def])
  have "live_moves m ?src ?dest ?so (ct_dest_offset t) (es0 @ es) = mvs0 @ mvs"
    using old by (simp add: live_moves_append mvs0_def [symmetric] mvs_def)
  then have "buffer_holds m (process_loop m 0 t) (es0 @ es)"
    using old by (simp add: run buffer_holds_def ct_copied_def log_images_def)
  moreover have "length (moves_data mvs) \<le> length (log_images es)" unfolding mvs_def by (rule length_moves_data)
  ultimately show ?thesis using run by blast
qed

text \<open>Where the index update points the live entries of the buffer.\<close>

lemma buffer_moved:
  assumes "mi_inv m" "buffer_holds m t es" "list_all log_ok es" "es = es1 @ (key, v, seq, False) # es2"
    and "length (ct_write_data t) \<le> kChunkSize" "4096 dvd ct_dest_offset t" "ct_dest_offset t + kChunkSize \<le> 2 ^ 33"
    and "ct_current_offset t \<le> 2 ^ 33" "mi_lookup m key = Some e"
    and "me_points (ct_src_file_id t)
      (word_of_nat ((ct_current_offset t - length (log_images es) + length (log_images es1)) div 4096)) e"
  shows "\<exists>e' p. mi_lookup (fold apply_migration (ct_migrated t) m) key = Some e' \<and> me_file_id e' = ucast (ct_dest_file_id t)
      \<and> me_sequence e' = me_sequence e \<and> 4096 * unat (me_page_count e') = length (log_image (key, v, seq, False))
      \<and> 4096 * unat (me_offset_index e') = ct_dest_offset t + p
      \<and> p + length (log_image (key, v, seq, False)) \<le> length (ct_write_data t)
      \<and> slice p (length (log_image (key, v, seq, False))) (ct_write_data t) = log_image (key, v, seq, False)"
proof -
  let ?src = "ct_src_file_id t" and ?dest = "ct_dest_file_id t" and ?do = "ct_dest_offset t" and ?x = "(key, v, seq, False)"
  define so where "so = ct_current_offset t - length (log_images es)"
  define mvs where "mvs = live_moves m ?src ?dest so ?do es"
  have t: "ct_migrated t = map fst mvs" "ct_write_data t = moves_data mvs" and so: "so + length (log_images es) \<le> 2 ^ 33"
    using assms(2,8) by (simp_all add: buffer_holds_def Let_def mvs_def so_def)
  have dist: "distinct (map mg_key (map fst mvs))"
    unfolding mvs_def by (rule live_moves_distinct [OF assms(3) so])
  have "ct_should_migrate m key ?src (word_of_nat ((so + length (log_images es1)) div 4096))"
    using assms(9,10) by (auto simp: should_migrate_lookup so_def)
  from live_moves_member [OF this] obtain g where g: "(g, ?x) \<in> set mvs"
    unfolding mvs_def assms(4) by blast
  have gk: "mg_key g = key" and old: "me_points (mg_old_file_id g) (mg_old_offset_index g) e"
    using live_moves_source [OF g [unfolded mvs_def] assms(3)] assms(9) by (auto simp: should_migrate_lookup)
  have "find (\<lambda>h. mg_key h = key) (map fst mvs) = Some g"
    using find_distinct_key [OF dist, of g] g gk by force
  then have e': "mi_lookup (fold apply_migration (map fst mvs) m) key
      = Some (me_repointed (mg_new_file_id g) (mg_new_offset_index g) (mg_page_count g) e)"
    using lookup_fold_migration [OF assms(1) dist, of key] assms(9) old by simp
  obtain p where p: "p + length (log_image ?x) \<le> length (moves_data mvs)" "mg_new_file_id g = ?dest"
    "mg_page_count g = word_of_nat (length (log_image ?x) div 4096)"
    "mg_new_offset_index g = word_of_nat ((?do + p) div 4096)" "4096 dvd p"
    "slice p (length (log_image ?x)) (moves_data mvs) = log_image ?x"
    using live_moves_target [OF g [unfolded mvs_def] assms(3) mvs_def] by blast
  have img: "4096 \<le> length (log_image ?x)" "4096 dvd length (log_image ?x)"
    using log_image_pages [of ?x] assms(3,4) by simp_all
  have len: "length (log_image ?x) \<le> kChunkSize" using p(1) assms(5) t(2) by (simp del: log_image.simps)
  then have "length (log_image ?x) div 4096 < 2 ^ 16" by (simp add: kChunkSize_def)
  then have pc: "4096 * unat (mg_page_count g) = length (log_image ?x)"
    using img(2) by (simp add: p(3) unsigned_of_nat take_bit_nat_eq_self)
  have "?do + p < 2 ^ 33" using p(1) img(1) assms(5,7) unfolding t(2) by linarith
  then have "(?do + p) div 4096 < 2 ^ 21" by simp
  then have "unat (me_offset_index (me_repointed (mg_new_file_id g) (mg_new_offset_index g) (mg_page_count g) e)) = (?do + p) div 4096"
    by (simp add: me_repointed_def p(4) unsigned_ucast_eq unsigned_of_nat take_bit_nat_eq_self)
  moreover have "4096 * ((?do + p) div 4096) = ?do + p" using p(5) assms(6) by simp
  ultimately show ?thesis using e' p(1,2,6) pc
    by (intro exI [of _ "me_repointed (mg_new_file_id g) (mg_new_offset_index g) (mg_page_count g) e"] exI [of _ p])
      (simp add: t me_repointed_def del: log_image.simps)
qed

text \<open>Entries of other files stay.\<close>

lemma buffer_others:
  assumes "mi_inv m" "buffer_holds m t es" "list_all log_ok es" "ct_current_offset t \<le> 2 ^ 33"
    and "mi_lookup m x = Some e" "ucast (me_file_id e) \<noteq> ct_src_file_id t"
  shows "mi_lookup (fold apply_migration (ct_migrated t) m) x = Some e"
proof -
  define so where "so = ct_current_offset t - length (log_images es)"
  define mvs where "mvs = live_moves m (ct_src_file_id t) (ct_dest_file_id t) so (ct_dest_offset t) es"
  have t: "ct_migrated t = map fst mvs" and so: "so + length (log_images es) \<le> 2 ^ 33"
    using assms(2,4) by (simp_all add: buffer_holds_def Let_def mvs_def so_def)
  have dist: "distinct (map mg_key (map fst mvs))"
    unfolding mvs_def by (rule live_moves_distinct [OF assms(3) so])
  show ?thesis
  proof (cases "find (\<lambda>g. mg_key g = x) (map fst mvs)")
    case (Some g)
    then have "g \<in> fst ` set mvs" by (auto simp: find_Some_iff intro: nth_mem simp flip: set_map)
    then have "mg_old_file_id g = ct_src_file_id t" using live_moves_source [OF _ assms(3)] by (fastforce simp: mvs_def)
    then show ?thesis using lookup_fold_migration [OF assms(1) dist, of x] Some assms(5,6) by (simp add: t me_points_def)
  qed (simp add: t lookup_fold_migration [OF assms(1) dist] assms(5))
qed

end
