(* ===== verification/KvCompactFlow.thy ===== *)
theory KvCompactFlow
  imports KvCompactTask
begin

text \<open>
  The life of a compaction task: the states it can reach while the engine goes on changing the index
  and the files, that it comes to an end, the entries it loses on the way, and the scheduler's loop.
\<close>

section \<open>Reachable states\<close>

text \<open>Between its steps and the completions of its requests the rest of the engine may leave anything in
  the shared state.\<close>

inductive comp_reachable :: "comp_env \<Rightarrow> u16 \<Rightarrow> comp_world \<Rightarrow> comp_task \<times> comp_world \<Rightarrow> bool"
  for env src w0 where
  start: "comp_reachable env src w0 (ct_new src, w0)"
| step: "comp_reachable env src w0 s \<Longrightarrow> comp_reachable env src w0 (ct_step env now s)"
| complete: "comp_reachable env src w0 s \<Longrightarrow> comp_reachable env src w0 (ct_complete now status data erased s)"
| engine: "comp_reachable env src w0 (t, w) \<Longrightarrow> comp_reachable env src w0 (t, w')"

text \<open>The state in which a request is in flight.\<close>

fun io_state :: "comp_io \<Rightarrow> comp_state" where
  "io_state (CioMarkCompacting _) = CMarkCompacting"
| "io_state (CioRead _ _) = CReadChunk"
| "io_state (CioWrite _ _) = CWriteChunk"
| "io_state (CioMarkDeleted _) = CMarkDeleted"
| "io_state (CioRemove _) = CRollback"
| "io_state (CioMarkSealed _) = CRollbackMarkSealed"

text \<open>What a request asks of the buffers: reads and writes fit the 1 MB buffers.\<close>

fun io_fits :: "comp_io \<Rightarrow> bool" where
  "io_fits (CioRead _ n) = (n \<le> kChunkSize)"
| "io_fits (CioWrite _ data) = (data \<noteq> [] \<and> length data \<le> kChunkSize)"
| "io_fits _ = True"

definition io_wf :: "comp_task \<Rightarrow> bool" where
  "io_wf t \<longleftrightarrow> (case ct_io t of None \<Rightarrow> \<not> ct_io_pending t
     | Some io \<Rightarrow> ct_io_pending t \<and> ct_state t = io_state io \<and> io_fits io)"

definition retry_wf :: "comp_task \<Rightarrow> bool" where
  "retry_wf t \<longleftrightarrow> ct_retry_count t \<le> kMaxRetryCount
     \<and> (ct_state t \<notin> {CRollback, CRollbackMarkSealed, CFailed} \<longrightarrow> ct_retry_count t < kMaxRetryCount)
     \<and> (ct_state t = CRetryWait \<longrightarrow> ct_retry_target t \<in> {CMarkCompacting, CReadChunk, CWriteChunk, CMarkDeleted})"

definition comp_wf :: "comp_task \<Rightarrow> bool" where
  "comp_wf t \<longleftrightarrow> io_wf t \<and> retry_wf t
     \<and> ct_state t \<notin> {CWaitMarkComplete, CWaitReadComplete, CWaitWriteComplete, CWaitDeleteComplete, CWaitRollbackComplete}
     \<and> length (ct_write_data t) \<le> kChunkSize \<and> ct_bytes_read t \<le> kChunkSize
     \<and> (ct_state t = CDone \<longrightarrow> \<not> ct_read_buffer t \<and> \<not> ct_write_buffer t \<and> ct_migrated t = [] \<and> ct_committed t = [])"

lemmas comp_wf_defs = comp_wf_def io_wf_def retry_wf_def

lemma wf_new: "comp_wf (ct_new src)"
  by (simp add: comp_wf_defs ct_new_def kMaxRetryCount_def kChunkSize_def)

lemma wf_handle_io_error:
  assumes "comp_wf (t\<lparr>ct_io := None, ct_io_pending := False\<rparr>)" "ct_io t = None" "ct_retry_count t < kMaxRetryCount"
    and "retry_state \<in> {CMarkCompacting, CReadChunk, CWriteChunk, CMarkDeleted}"
  shows "comp_wf (handle_io_error now retry_state status (t\<lparr>ct_io_pending := False\<rparr>))"
  using assms by (auto simp: comp_wf_defs handle_io_error_def Let_def)

text \<open>A submission leaves a request in flight or runs the callback.\<close>

lemma ct_submit_cases:
  obtains "ct_submit env file io cb s = ((fst s)\<lparr>ct_io := Some io\<rparr>, snd s)" | "ct_submit env file io cb s = cb (-1) s"
  by (simp add: ct_submit_def Let_def) metis

lemma ct_write_file_header_cases:
  obtains page where "ct_write_file_header env p st io cb s = ((fst s)\<lparr>ct_io := Some (io page)\<rparr>, snd s)"
  | e where "ct_write_file_header env p st io cb s = cb e s"
proof (cases "co_header_dma env")
  case True
  then show ?thesis
    using that ct_submit_cases [of env p "io (data_header_page (case p of None \<Rightarrow> 0 | Some i \<Rightarrow> i) st 0)" cb s]
    by (metis ct_write_file_header_def)
qed (use that in \<open>simp add: ct_write_file_header_def\<close>)

text \<open>The handlers, called with no request in flight.\<close>

definition handler_ready :: "comp_task \<Rightarrow> comp_state \<Rightarrow> bool" where
  "handler_ready t st \<longleftrightarrow> ct_io t = None \<and> ct_state t = st \<and> comp_wf (t\<lparr>ct_io_pending := False\<rparr>)"

lemma wf_on_mark_compacting:
  "handler_ready t CMarkCompacting \<Longrightarrow> comp_wf (fst (ct_on_mark_compacting now status (t, w)))"
  by (auto simp: handler_ready_def ct_on_mark_compacting_def handle_io_error_def Let_def comp_wf_defs)

lemma wf_on_read:
  "handler_ready t CReadChunk \<Longrightarrow> n \<le> kChunkSize \<Longrightarrow> comp_wf (fst (ct_on_read now n data status (t, w)))"
  by (auto simp: handler_ready_def ct_on_read_def handle_io_error_def Let_def comp_wf_defs)

lemma wf_on_write:
  "handler_ready t CWriteChunk \<Longrightarrow> comp_wf (fst (ct_on_write now status (t, w)))"
  by (auto simp: handler_ready_def ct_on_write_def handle_io_error_def Let_def comp_wf_defs kMaxRetryCount_def)

lemma wf_on_mark_deleted:
  "handler_ready t CMarkDeleted \<Longrightarrow> comp_wf (fst (ct_on_mark_deleted now status (t, w)))"
  by (auto simp: handler_ready_def ct_on_mark_deleted_def handle_io_error_def Let_def comp_wf_defs ct_free_dma_buffers_def)

lemma wf_on_removed:
  "handler_ready t CRollback \<Longrightarrow> comp_wf (fst (ct_on_removed erased (t, w)))"
  by (auto simp: handler_ready_def ct_on_removed_def comp_wf_defs)

lemma wf_on_mark_sealed:
  "handler_ready t CRollbackMarkSealed \<Longrightarrow> comp_wf (fst (ct_on_mark_sealed status (t, w)))"
  by (auto simp: handler_ready_def ct_on_mark_sealed_def comp_wf_defs ct_free_dma_buffers_def)

lemmas wf_handlers = wf_on_mark_compacting wf_on_read wf_on_write wf_on_mark_deleted wf_on_removed wf_on_mark_sealed

lemma wf_complete:
  assumes "comp_wf (fst s)"
  shows "comp_wf (fst (ct_complete now status data erased s))"
proof (cases "ct_io (fst s)")
  case None
  then show ?thesis using assms by (simp add: ct_complete_def split_beta)
next
  case (Some io)
  have "handler_ready ((fst s)\<lparr>ct_io := None\<rparr>) (io_state io)" "io_fits io"
    using assms Some by (cases io; simp add: handler_ready_def comp_wf_defs)+
  then show ?thesis
    using Some by (cases io) (simp_all add: ct_complete_def split_beta wf_handlers)
qed

lemma wf_init:
  assumes "comp_wf t" "ct_io t = None" "ct_state t = CInit"
  shows "comp_wf (fst (ct_init env (t, w)))"
proof (cases "co_read_dma env \<and> co_write_dma env \<and> cw_files w (ct_src_file_id t) \<noteq> None \<and> cw_meta w (ct_src_file_id t) \<noteq> None")
  case True
  obtain d w' where "co_allocate_new_file env w = (d, w')" by fastforce
  then show ?thesis using assms True by (cases d) (auto simp: ct_init_def Let_def comp_wf_defs)
next
  case False
  then show ?thesis using assms by (auto simp: ct_init_def Let_def comp_wf_defs)
qed

lemma wf_request:
  assumes "comp_wf t" "ct_io t = None" "ct_state t = io_state io" "io_fits io"
  shows "comp_wf (t\<lparr>ct_io_pending := True, ct_io := Some io\<rparr>)"
  using assms by (cases io) (simp_all add: comp_wf_defs)

lemma ready: "comp_wf t \<Longrightarrow> ct_io t = None \<Longrightarrow> ct_state t = st \<Longrightarrow> handler_ready (t\<lparr>ct_io_pending := True\<rparr>) st"
  by (cases t) (simp add: handler_ready_def comp_wf_defs)

text \<open>A request whose callback keeps the invariant keeps it, whether it goes out or fails at once.\<close>

lemma wf_submit:
  assumes "comp_wf t" "ct_io t = None" "ct_state t = io_state io" "io_fits io"
    and "\<And>e. comp_wf (fst (cb e (t\<lparr>ct_io_pending := True\<rparr>, w)))"
  shows "comp_wf (fst (ct_submit env p io cb (t\<lparr>ct_io_pending := True\<rparr>, w)))"
  using assms wf_request [OF assms(1-4)]
  by (cases rule: ct_submit_cases [of env p io cb "(t\<lparr>ct_io_pending := True\<rparr>, w)"]) simp_all

lemma wf_write_file_header:
  assumes "comp_wf t" "ct_io t = None" "\<And>page. ct_state t = io_state (io page) \<and> io_fits (io page)"
    and "\<And>e. comp_wf (fst (cb e (t\<lparr>ct_io_pending := True\<rparr>, w)))"
  shows "comp_wf (fst (ct_write_file_header env p st io cb (t\<lparr>ct_io_pending := True\<rparr>, w)))"
  using assms wf_request [OF assms(1,2)]
  by (cases rule: ct_write_file_header_cases [of env p st io cb "(t\<lparr>ct_io_pending := True\<rparr>, w)"]) simp_all

lemma wf_mark_compacting:
  assumes "comp_wf t" "ct_io t = None" "ct_state t = CMarkCompacting"
  shows "comp_wf (fst (ct_mark_compacting env now (t, w)))"
  using assms by (auto simp: ct_mark_compacting_def Let_def intro!: wf_write_file_header wf_handlers ready)

lemma skip_invalid_pages_eq: "\<exists>n. skip_invalid_pages (t, w) = t\<lparr>ct_current_offset := n\<rparr>"
  by (cases t) (auto simp: skip_invalid_pages_def split: option.splits)

lemma wf_read_next_chunk:
  assumes "comp_wf t" "ct_io t = None" "ct_state t = CReadChunk"
  shows "comp_wf (fst (read_next_chunk env now (t, w)))"
proof -
  obtain n where n: "skip_invalid_pages (t, w) = t\<lparr>ct_current_offset := n\<rparr>" using skip_invalid_pages_eq by blast
  have size: "ct_read_size e o' \<le> kChunkSize" for e o'
    by (simp add: ct_read_size_def kChunkSize_def)
  have wf: "comp_wf (t\<lparr>ct_current_offset := n\<rparr>)" using assms by (simp add: comp_wf_defs)
  show ?thesis
    using assms wf size
    by (auto simp: read_next_chunk_def n Let_def intro!: wf_submit wf_handlers ready)
      (auto simp: comp_wf_defs)
qed

text \<open>The loop of \<^verbatim>\<open>process_entries\<close>, abstractly: it skips, stops at a full write buffer, copies
  an entry or passes over it.\<close>

lemma process_loop_rule:
  assumes finish: "\<And>off t. \<not> off < ct_bytes_read t \<Longrightarrow>
      P off t (t\<lparr>ct_current_offset := ct_current_offset t + ct_bytes_read t, ct_state := CReadChunk\<rparr>)"
    and skip: "\<And>off off' t r. off < ct_bytes_read t \<Longrightarrow> off < off' \<Longrightarrow> P off' t r \<Longrightarrow> P off t r"
    and full: "\<And>off t n k. n \<le> ct_bytes_read t - off \<Longrightarrow> kChunkSize < length (ct_write_data t) + n \<Longrightarrow>
      P off t (t\<lparr>ct_entries_processed := k, ct_state := CWriteChunk\<rparr>)"
    and copy: "\<And>off t n key q k r. n \<le> ct_bytes_read t - off \<Longrightarrow> length (ct_write_data t) + n \<le> kChunkSize \<Longrightarrow>
      P (off + n) (ct_copy_entry off key n q (t\<lparr>ct_entries_processed := k\<rparr>)) r \<Longrightarrow> P off t r"
    and pass: "\<And>off t n k r. n \<le> ct_bytes_read t - off \<Longrightarrow> P (off + n) (t\<lparr>ct_entries_processed := k\<rparr>) r \<Longrightarrow> P off t r"
  shows "P off t (process_loop m off t)"
proof (induction m off t rule: process_loop.induct)
  case (1 m off t)
  show ?case
  proof (cases "off < ct_bytes_read t")
    case False
    then show ?thesis by (subst process_loop.simps) (simp add: finish)
  next
    case lt: True
    show ?thesis
    proof (cases "ct_validate_entry (ct_read_data t) off (ct_bytes_read t - off)")
      case False
      then show ?thesis using skip [OF lt next_page_gt "1.IH"(1) [OF lt]]
        by (subst process_loop.simps) (simp add: lt)
    next
      case True
      then have fit: "unat (kv_entry_size (get_u32 (ct_read_data t) (off + 24))) \<le> ct_bytes_read t - off"
        by (auto simp: ct_validate_entry_def Let_def split: if_splits)
      show ?thesis
        by (subst process_loop.simps)
          (use lt True full [OF fit] copy [OF fit] pass [OF fit] "1.IH"(2,3) [OF lt _ refl refl refl refl refl] in
            \<open>auto simp: Let_def not_less\<close>)
    qed
  qed
qed

text \<open>The write buffer never holds more than a chunk.\<close>

lemma process_loop_wf:
  "comp_wf t \<Longrightarrow> ct_io t = None \<Longrightarrow> ct_state t = CProcessEntries \<Longrightarrow> comp_wf (process_loop m off t)"
  by (rule process_loop_rule [where P = "\<lambda>_ t r. comp_wf t \<longrightarrow> ct_io t = None \<longrightarrow> ct_state t = CProcessEntries \<longrightarrow> comp_wf r",
        rule_format])
    (auto simp: comp_wf_defs ct_copy_entry_def slice_def)

lemma wf_process_entries:
  "comp_wf t \<Longrightarrow> ct_io t = None \<Longrightarrow> ct_state t = CProcessEntries \<Longrightarrow> comp_wf (fst (process_entries (t, w)))"
  by (simp add: process_entries_def process_loop_wf)

lemma wf_write_chunk:
  assumes "comp_wf t" "ct_io t = None" "ct_state t = CWriteChunk"
  shows "comp_wf (fst (write_chunk env now (t, w)))"
proof (cases "ct_write_data t = []")
  case True
  then show ?thesis using assms by (auto simp: write_chunk_def comp_wf_defs)
next
  case False
  moreover have "length (ct_write_data t) \<le> kChunkSize" using assms by (simp add: comp_wf_defs)
  ultimately show ?thesis using assms by (auto simp: write_chunk_def intro!: wf_submit wf_handlers ready)
qed

lemma wf_update_indices:
  "comp_wf t \<Longrightarrow> ct_io t = None \<Longrightarrow> ct_state t = CUpdateIndices \<Longrightarrow> comp_wf (fst (update_indices (t, w)))"
  by (auto simp: update_indices_def Let_def comp_wf_defs)

lemma wf_finalize:
  "comp_wf t \<Longrightarrow> ct_io t = None \<Longrightarrow> ct_state t = CFinalize \<Longrightarrow> comp_wf (fst (finalize (t, w)))"
  by (auto simp: finalize_def comp_wf_defs)

lemma wf_mark_deleted:
  assumes "comp_wf t" "ct_io t = None" "ct_state t = CMarkDeleted"
  shows "comp_wf (fst (mark_deleted env now (t, w)))"
  using assms by (auto simp: mark_deleted_def Let_def intro!: wf_write_file_header wf_handlers ready)

lemma wf_check_retry_timeout:
  "comp_wf t \<Longrightarrow> ct_io t = None \<Longrightarrow> ct_state t = CRetryWait \<Longrightarrow> comp_wf (check_retry_timeout now t)"
  by (auto simp: check_retry_timeout_def comp_wf_defs)

lemma wf_start_rollback:
  assumes "comp_wf t" "ct_io t = None" "ct_state t = CRollback"
  shows "comp_wf (fst (start_rollback (t, w)))"
  using assms
  by (auto simp: start_rollback_def delete_garbage_file_def ct_on_removed_def Let_def comp_wf_defs)

lemma wf_rollback_mark_sealed:
  assumes "comp_wf t" "ct_io t = None" "ct_state t = CRollbackMarkSealed"
  shows "comp_wf (fst (rollback_mark_sealed env (t, w)))"
  using assms by (auto simp: rollback_mark_sealed_def Let_def intro!: wf_write_file_header wf_handlers ready)

lemma wf_step:
  assumes "comp_wf (fst s)"
  shows "comp_wf (fst (ct_step env now s))"
proof (cases "ct_io_pending (fst s)")
  case False
  then have "ct_io (fst s) = None" using assms by (auto simp: comp_wf_defs split: option.splits)
  with False assms show ?thesis
    by (cases s; cases "ct_state (fst s)") (simp_all add: ct_step_def wf_init wf_mark_compacting wf_read_next_chunk wf_process_entries
        wf_write_chunk wf_update_indices wf_finalize wf_mark_deleted wf_check_retry_timeout wf_start_rollback
        wf_rollback_mark_sealed)
qed (simp add: ct_step_def assms)

text \<open>The state machine of a task keeps its invariant whatever the engine and the device do. A request is
  in flight exactly while \<^verbatim>\<open>io_pending_\<close> is set, and then the task is in the state that issued it; reads
  and writes fit the 1 MB buffers; an operation is retried at most twice in a row, so that the third
  failure rolls back; the five waiting states of the enumeration are never entered; a task that is
  done has given its buffers back.\<close>

theorem comp_task_invariant:
  assumes "comp_reachable env src w0 (t, w)"
  shows "comp_wf t"
  using assms
proof (induction "(t, w)" arbitrary: t w rule: comp_reachable.induct)
  case start
  then show ?case by (simp add: wf_new)
next
  case (step s now)
  then show ?case using wf_step [of s env now] by (metis fst_conv surj_pair)
next
  case (complete s now status data erased)
  then show ?case using wf_complete [of s now status data erased] by (metis fst_conv surj_pair)
qed

lemma comp_task_invariant_witness: "comp_wf (fst (ct_step demo_env 7 (ct_new 1, demo_world)))"
proof -
  have "comp_reachable demo_env 1 demo_world (ct_step demo_env 7 (ct_new 1, demo_world))"
    by (intro comp_reachable.step comp_reachable.start)
  then show ?thesis by (cases "ct_step demo_env 7 (ct_new 1, demo_world)") (simp add: comp_task_invariant)
qed

section \<open>A task comes to an end\<close>

text \<open>One round: the engine may change the index, the task takes a step, and the request in flight, if
  any, is completed with success and whatever data the device holds.\<close>

definition comp_round :: "comp_env \<Rightarrow> (mem_index \<Rightarrow> mem_index) \<Rightarrow> byte list \<Rightarrow> comp_task \<times> comp_world \<Rightarrow> comp_task \<times> comp_world" where
  "comp_round env f data s =
     ct_complete 0 0 data False (ct_step env 0 (fst s, (snd s)\<lparr>cw_index := f (cw_index (snd s))\<rparr>))"

text \<open>The task has started: both files are there and open, and the source's data end at \<open>n\<close>.\<close>

definition files_ready :: "nat \<Rightarrow> u16 option \<Rightarrow> u16 option \<Rightarrow> u16 option \<Rightarrow> (u16 \<Rightarrow> file_info option) \<Rightarrow> (u16 \<Rightarrow> file_meta option) \<Rightarrow> bool" where
  "files_ready n src dest meta files metas \<longleftrightarrow> (\<exists>i j fi fj. i \<noteq> j \<and> src = Some i \<and> dest = Some j \<and> meta = Some i
     \<and> files i = Some fi \<and> files j = Some fj \<and> metas i \<noteq> None
     \<and> fi_blob_opened fi \<and> fi_blob_opened fj \<and> unat (fi_write_offset fi) = n)"

definition comp_running :: "nat \<Rightarrow> comp_task \<times> comp_world \<Rightarrow> bool" where
  "comp_running n = (\<lambda>(t, w). files_ready n (ct_src_info t) (ct_dest_info t) (ct_src_meta t) (cw_files w) (cw_meta w))"

fun comp_rank :: "comp_state \<Rightarrow> nat" where
  "comp_rank CMarkCompacting = 4"
| "comp_rank CReadChunk = 3"
| "comp_rank CProcessEntries = 2"
| "comp_rank CWriteChunk = 1"
| "comp_rank _ = 0"

text \<open>What is left to do, once the task is running.\<close>

fun comp_left :: "nat \<Rightarrow> comp_state \<Rightarrow> nat \<Rightarrow> nat \<Rightarrow> nat" where
  "comp_left n CFinalize offset used = 2"
| "comp_left n CMarkDeleted offset used = 1"
| "comp_left n CDone offset used = 0"
| "comp_left n st offset used = 3 + comp_rank st + 8 * (n - offset) + (if used = 0 then 0 else 4)"

definition comp_measure :: "nat \<Rightarrow> comp_task \<Rightarrow> nat" where
  "comp_measure n t = comp_left n (ct_state t) (ct_current_offset t) (length (ct_write_data t))"

definition comp_forward :: "nat \<Rightarrow> comp_task \<Rightarrow> bool" where
  "comp_forward n t \<longleftrightarrow> ct_io t = None \<and> \<not> ct_io_pending t
     \<and> ct_state t \<in> {CMarkCompacting, CReadChunk, CProcessEntries, CWriteChunk, CUpdateIndices, CFinalize, CMarkDeleted, CDone}
     \<and> (ct_state t = CFinalize \<longrightarrow> ct_write_data t = [])
     \<and> (ct_state t \<in> {CWriteChunk, CUpdateIndices} \<longrightarrow> ct_write_data t \<noteq> [])
     \<and> (ct_state t = CProcessEntries \<longrightarrow> 0 < ct_bytes_read t \<and> ct_bytes_read t \<le> kChunkSize \<and> ct_current_offset t < n)"

text \<open>A chunk is processed to its end, or it leaves data in the write buffer, which had data before.\<close>

definition loop_end :: "nat \<Rightarrow> comp_task \<Rightarrow> comp_task \<Rightarrow> bool" where
  "loop_end off t r \<longleftrightarrow>
     (if ct_state r = CReadChunk then ct_current_offset r = ct_current_offset t + ct_bytes_read t
      else ct_state r = CWriteChunk \<and> ct_current_offset r = ct_current_offset t
        \<and> kChunkSize < length (ct_write_data t) + (ct_bytes_read t - off)
        \<and> (ct_bytes_read t - off \<le> kChunkSize \<longrightarrow> ct_write_data r \<noteq> []))"

lemma process_loop_ends: "loop_end off t (process_loop m off t)"
  by (rule process_loop_rule [where P = loop_end])
    (auto simp: loop_end_def ct_copy_entry_def slice_def split: if_splits)

definition same_task :: "comp_task \<Rightarrow> comp_task \<Rightarrow> bool" where
  "same_task t r \<longleftrightarrow> ct_io r = ct_io t \<and> ct_io_pending r = ct_io_pending t \<and> ct_src_info r = ct_src_info t
     \<and> ct_dest_info r = ct_dest_info t \<and> ct_src_meta r = ct_src_meta t"

lemma process_loop_same: "same_task t (process_loop m off t)"
  by (rule process_loop_rule [where P = "\<lambda>_. same_task"]) (auto simp: same_task_def ct_copy_entry_def)

lemma running_update_meta: "comp_running n (t, w) \<Longrightarrow> comp_running n (t, cw_update_meta p f w)"
  by (cases p) (fastforce simp: comp_running_def files_ready_def cw_update_meta_def)+

lemma running_update_file:
  assumes "comp_running n (t, w)" "\<And>x. fi_blob_opened (f x) = fi_blob_opened x"
    and "p = ct_src_info t \<Longrightarrow> (\<And>x. fi_write_offset (f x) = fi_write_offset x)"
  shows "comp_running n (t, cw_update_file p f w)"
proof -
  obtain i j fi fj where i: "i \<noteq> j" "ct_src_info t = Some i" "ct_dest_info t = Some j" "ct_src_meta t = Some i"
    "cw_files w i = Some fi" "cw_files w j = Some fj" "cw_meta w i \<noteq> None" "fi_blob_opened fi" "fi_blob_opened fj"
    "unat (fi_write_offset fi) = n"
    using assms(1) by (auto simp: comp_running_def files_ready_def)
  show ?thesis
    unfolding comp_running_def files_ready_def split_conv
    by (rule exI [of _ i], rule exI [of _ j], rule exI [of _ "if p = Some i then f fi else fi"],
        rule exI [of _ "if p = Some j then f fj else fj"])
      (use i assms(2,3) in \<open>auto simp: cw_update_file_def split: option.splits\<close>)
qed

lemma running_src: "comp_running n (t, w) \<Longrightarrow> ct_src_end (t, w) = n"
  by (auto simp: comp_running_def files_ready_def ct_src_end_def ct_src_file_def)

definition env_good :: "comp_env \<Rightarrow> bool" where
  "env_good env \<longleftrightarrow> co_header_dma env \<and> co_channel env"

lemma submit_running:
  assumes "env_good env" "comp_running n (t, w)" "p = ct_src_info t \<or> p = ct_dest_info t"
  shows "ct_submit env p io cb (t, w) = (t\<lparr>ct_io := Some io\<rparr>, w)"
    and "\<exists>page. ct_write_file_header env p st mk cb (t, w) = (t\<lparr>ct_io := Some (mk page)\<rparr>, w)"
  using assms by (auto simp: env_good_def comp_running_def files_ready_def ct_submit_def ct_write_file_header_def)

lemma skip_pages_ge: "offset \<le> skip_pages meta n offset"
proof (induction meta n offset rule: skip_pages.induct)
  case (1 meta src_end offset)
  show ?case by (subst skip_pages.simps) (use 1 in \<open>auto intro: le_trans [of _ "offset + 4096"]\<close>)
qed

lemma skip_invalid_pages_ge: "\<exists>k \<ge> ct_current_offset t. skip_invalid_pages (t, w) = t\<lparr>ct_current_offset := k\<rparr>"
  by (cases t) (auto simp: skip_invalid_pages_def skip_pages_ge split: option.splits)

lemma read_size_pos: "k < n \<Longrightarrow> 0 < ct_read_size n k \<and> ct_read_size n k \<le> kChunkSize"
  by (auto simp: ct_read_size_def kChunkSize_def)

definition round_ok :: "nat \<Rightarrow> comp_task \<Rightarrow> comp_task \<times> comp_world \<Rightarrow> bool" where
  "round_ok n t r \<longleftrightarrow> comp_forward n (fst r) \<and> comp_running n r \<and> comp_measure n (fst r) < comp_measure n t"

lemma header_round:
  assumes "env_good env" "comp_running n (t, w)" "ct_io t = None"
  shows "\<exists>page. ct_write_file_header env (ct_src_info t) st mk cb (t\<lparr>ct_io_pending := True\<rparr>, w)
    = (t\<lparr>ct_io_pending := True, ct_io := Some (mk page)\<rparr>, w)"
  using submit_running(2) [of env n "t\<lparr>ct_io_pending := True\<rparr>" w "ct_src_info t" st mk cb] assms
  by (simp add: comp_running_def)

lemma round_mark_compacting:
  assumes "env_good env" "comp_forward n t" "comp_running n (t, w)" "ct_state t = CMarkCompacting"
  shows "round_ok n t (ct_complete 0 0 data False (ct_mark_compacting env 0 (t, w)))"
proof -
  define w' where "w' = cw_update_file (ct_src_info t) (\<lambda>f. f\<lparr>fi_state := FCompacting\<rparr>)
    (cw_update_meta (ct_src_meta t) (\<lambda>f. f\<lparr>ft_state := FCompacting\<rparr>) w)"
  have run: "comp_running n (t, w')" unfolding w'_def by (intro running_update_file running_update_meta assms) simp_all
  obtain page where "ct_mark_compacting env 0 (t, w) = (t\<lparr>ct_io_pending := True, ct_io := Some (CioMarkCompacting page)\<rparr>, w')"
    using header_round [OF assms(1) run, of FCompacting CioMarkCompacting "ct_on_mark_compacting 0"] assms(2)
    by (auto simp: ct_mark_compacting_def w'_def Let_def comp_forward_def)
  then show ?thesis using assms run
    by (auto simp: round_ok_def ct_complete_def ct_on_mark_compacting_def comp_forward_def comp_running_def comp_measure_def)
qed

lemma round_read:
  assumes "env_good env" "comp_forward n t" "comp_running n (t, w)" "ct_state t = CReadChunk"
  shows "round_ok n t (ct_complete 0 0 data False (read_next_chunk env 0 (t, w)))"
proof -
  obtain k where k: "skip_invalid_pages (t, w) = t\<lparr>ct_current_offset := k\<rparr>" "ct_current_offset t \<le> k"
    using skip_invalid_pages_ge by blast
  note n = running_src [OF assms(3)]
  show ?thesis
  proof (cases "n \<le> k")
    case True
    then show ?thesis using assms k n
      by (auto simp: read_next_chunk_def round_ok_def ct_complete_def comp_forward_def comp_running_def comp_measure_def Let_def)
  next
    case False
    let ?t = "t\<lparr>ct_current_offset := k, ct_io_pending := True\<rparr>"
    have "comp_running n (?t, w)" using assms(3) by (simp add: comp_running_def)
    from submit_running(1) [OF assms(1) this] False k n
    have "read_next_chunk env 0 (t, w) = (?t\<lparr>ct_io := Some (CioRead k (ct_read_size n k))\<rparr>, w)"
      by (simp add: read_next_chunk_def Let_def)
    moreover have "3 + comp_rank CProcessEntries + 8 * (n - k) < 3 + comp_rank CReadChunk + 8 * (n - ct_current_offset t)"
      using k(2) by simp
    ultimately show ?thesis using assms k False read_size_pos [of k n]
      by (auto simp: round_ok_def ct_complete_def ct_on_read_def comp_forward_def comp_running_def comp_measure_def)
  qed
qed

lemma round_process:
  assumes "comp_forward n t" "comp_running n (t, w)" "ct_state t = CProcessEntries"
  shows "round_ok n t (ct_complete 0 0 data False (process_entries (t, w)))"
proof -
  define r where "r = process_loop (cw_index w) 0 t"
  have ends: "loop_end 0 t r" and same: "same_task t r" unfolding r_def by (rule process_loop_ends, rule process_loop_same)
  have fwd: "0 < ct_bytes_read t" "ct_bytes_read t \<le> kChunkSize" "ct_current_offset t < n" "ct_io t = None" "\<not> ct_io_pending t"
    using assms(1,3) by (simp_all add: comp_forward_def)
  have "comp_forward n r" using ends same fwd by (auto simp: loop_end_def same_task_def comp_forward_def split: if_splits)
  moreover have "comp_measure n r < comp_measure n t"
    using ends fwd assms(3) by (cases "ct_state r = CReadChunk") (auto simp: loop_end_def comp_measure_def)
  moreover have "comp_running n (r, w)" using assms(2) same by (simp add: comp_running_def same_task_def)
  ultimately show ?thesis using same fwd
    by (simp add: round_ok_def process_entries_def ct_complete_def r_def [symmetric] same_task_def)
qed

lemma round_write:
  assumes "env_good env" "comp_forward n t" "comp_running n (t, w)" "ct_state t = CWriteChunk"
  shows "round_ok n t (ct_complete 0 0 data False (write_chunk env 0 (t, w)))"
proof -
  have "comp_running n (t\<lparr>ct_io_pending := True\<rparr>, w)" using assms(3) by (simp add: comp_running_def)
  from submit_running(1) [OF assms(1) this] assms(2,4)
  have "write_chunk env 0 (t, w) = (t\<lparr>ct_io_pending := True, ct_io := Some (CioWrite (ct_dest_offset t) (ct_write_data t))\<rparr>, w)"
    by (simp add: write_chunk_def comp_forward_def)
  then show ?thesis using assms
    by (auto simp: round_ok_def ct_complete_def ct_on_write_def comp_forward_def comp_running_def comp_measure_def)
qed

lemma round_update:
  assumes "comp_forward n t" "comp_running n (t, w)" "ct_state t = CUpdateIndices"
  shows "round_ok n t (ct_complete 0 0 data False (update_indices (t, w)))"
proof -
  obtain t' w' where r: "update_indices (t, w) = (t', w')" by fastforce
  have t': "t' = t\<lparr>ct_committed := ct_committed t @ ct_migrated t, ct_migrated := [],
      ct_dest_offset := ct_dest_offset t + length (ct_write_data t), ct_write_data := [], ct_state := CReadChunk\<rparr>"
    using r by (simp add: update_indices_def Let_def)
  have "comp_running n (t', w')"
  proof -
    have "w' = cw_update_file (ct_dest_info t) (\<lambda>f. f\<lparr>fi_write_offset := word_of_nat (ct_dest_offset t + length (ct_write_data t)),
        fi_size := word_of_nat (ct_dest_offset t + length (ct_write_data t))\<rparr>) (w\<lparr>cw_index := fold apply_migration (ct_migrated t) (cw_index w)\<rparr>)"
      using r by (simp add: update_indices_def Let_def)
    moreover have "comp_running n (t, w\<lparr>cw_index := fold apply_migration (ct_migrated t) (cw_index w)\<rparr>)"
      using assms(2) by (simp add: comp_running_def)
    moreover have "ct_dest_info t \<noteq> ct_src_info t"
      using assms(2) by (auto simp: comp_running_def files_ready_def)
    ultimately have "comp_running n (t, w')" by (simp only:) (rule running_update_file, simp_all)
    then show ?thesis by (simp add: comp_running_def t')
  qed
  then show ?thesis using assms r
    by (auto simp: round_ok_def ct_complete_def t' comp_forward_def comp_measure_def)
qed

lemma round_finalize:
  assumes "comp_forward n t" "comp_running n (t, w)" "ct_state t = CFinalize"
  shows "round_ok n t (ct_complete 0 0 data False (finalize (t, w)))"
  using assms
  by (auto simp: round_ok_def finalize_def ct_complete_def comp_forward_def comp_running_def comp_measure_def)

lemma round_mark_deleted:
  assumes "env_good env" "comp_forward n t" "comp_running n (t, w)" "ct_state t = CMarkDeleted"
  shows "round_ok n t (ct_complete 0 0 data False (mark_deleted env 0 (t, w)))"
proof -
  define w' where "w' = cw_update_meta (ct_src_meta t) (\<lambda>f. f\<lparr>ft_state := FDeleted, ft_valid_entries := 0, ft_valid_bytes := 0\<rparr>) w"
  have run: "comp_running n (t, w')" unfolding w'_def by (intro running_update_meta assms)
  obtain page where "mark_deleted env 0 (t, w) = (t\<lparr>ct_io_pending := True, ct_io := Some (CioMarkDeleted page)\<rparr>, w')"
    using header_round [OF assms(1) run, of FDeleted CioMarkDeleted "ct_on_mark_deleted 0"] assms(2)
    by (auto simp: mark_deleted_def w'_def Let_def comp_forward_def)
  then show ?thesis using assms run
    by (auto simp: round_ok_def ct_complete_def ct_on_mark_deleted_def ct_free_dma_buffers_def comp_forward_def comp_running_def comp_measure_def)
qed

lemma comp_round_progress:
  assumes "env_good env" "comp_forward n t" "comp_running n (t, w)"
  shows "if ct_state t = CDone then ct_state (fst (comp_round env f data (t, w))) = CDone
    \<and> comp_forward n (fst (comp_round env f data (t, w))) \<and> comp_running n (comp_round env f data (t, w))
    else round_ok n t (comp_round env f data (t, w))"
proof -
  let ?w = "w\<lparr>cw_index := f (cw_index w)\<rparr>"
  have run: "comp_running n (t, ?w)" using assms(3) by (simp add: comp_running_def)
  have round: "comp_round env f data (t, w) = ct_complete 0 0 data False (ct_dispatch env 0 (ct_state t) (t, ?w))"
    using assms(2) by (simp add: comp_round_def ct_step_def comp_forward_def)
  have "ct_state t \<in> {CMarkCompacting, CReadChunk, CProcessEntries, CWriteChunk, CUpdateIndices, CFinalize, CMarkDeleted, CDone}"
    "ct_io t = None" using assms(2) by (simp_all add: comp_forward_def)
  then show ?thesis
    using round_mark_compacting [OF assms(1,2) run] round_read [OF assms(1,2) run] round_process [OF assms(2) run]
      round_write [OF assms(1,2) run] round_update [OF assms(2) run] round_finalize [OF assms(2) run]
      round_mark_deleted [OF assms(1,2) run] run assms(2)
    by (auto simp: round) (auto simp: ct_complete_def)
qed

definition comp_rounds :: "comp_env \<Rightarrow> ((mem_index \<Rightarrow> mem_index) \<times> byte list) list \<Rightarrow> comp_task \<times> comp_world \<Rightarrow> comp_task \<times> comp_world" where
  "comp_rounds env fds = fold (\<lambda>(f, data). comp_round env f data) fds"

lemma comp_rounds_end:
  assumes "env_good env" "comp_forward n (fst s)" "comp_running n s" "comp_measure n (fst s) \<le> length fds"
  shows "ct_state (fst (comp_rounds env fds s)) = CDone"
  using assms
proof (induction fds arbitrary: s)
  case Nil
  then show ?case by (auto simp: comp_rounds_def comp_measure_def comp_forward_def)
next
  case (Cons fd fds)
  obtain f data where fd: "fd = (f, data)" by (cases fd)
  obtain t w where s: "s = (t, w)" by (cases s)
  note progress = comp_round_progress [OF Cons.prems(1) Cons.prems(2,3) [unfolded s fst_conv], of f data]
  define s' where "s' = comp_round env f data (t, w)"
  have "comp_forward n (fst s')" "comp_running n s'" "comp_measure n (fst s') \<le> length fds"
    using progress Cons.prems(4) by (auto simp: s s'_def round_ok_def comp_measure_def split: if_splits)
  then show ?case using Cons.IH [OF Cons.prems(1)] by (simp add: comp_rounds_def fd s s'_def)
qed

text \<open>C25: A task comes to an end. When its requests succeed, a task whose source has \<open>n\<close> bytes is done after
  \<open>8 n + 12\<close> rounds at the latest, with any data on the device and with any changes of the index by the
  rest of the engine in between: a chunk that does not fit the write buffer is read again only once.\<close>

theorem compaction_terminates:
  assumes "env_good env" "co_read_dma env" "co_write_dma env"
    and "cw_files w src = Some f" "cw_meta w src \<noteq> None" "unat (fi_write_offset f) = n"
    and "\<And>m. \<exists>w'. co_allocate_new_file env (w\<lparr>cw_index := m\<rparr>) = (Some dest, w')
      \<and> files_ready n (Some src) (Some dest) (Some src) (cw_files w') (cw_meta w')"
    and "8 * n + 12 \<le> length fds"
  shows "ct_state (fst (comp_rounds env fds (ct_new src, w))) = CDone"
proof -
  obtain g data fds' where fds: "fds = (g, data) # fds'" using assms(8) by (cases fds) auto
  obtain w' where w': "co_allocate_new_file env (w\<lparr>cw_index := g (cw_index w)\<rparr>) = (Some dest, w')"
    "files_ready n (Some src) (Some dest) (Some src) (cw_files w') (cw_meta w')"
    using assms(7) by blast
  define s1 where "s1 = comp_round env g data (ct_new src, w)"
  have s1: "comp_forward n (fst s1)" "comp_running n s1" "comp_measure n (fst s1) \<le> 8 * n + 11"
    using assms(2-5) w'
    by (auto simp: s1_def comp_round_def ct_step_def ct_new_def ct_init_def ct_complete_def comp_forward_def
        comp_running_def comp_measure_def)
  have "ct_state (fst (comp_rounds env fds' s1)) = CDone"
    using s1(3) assms(8) by (intro comp_rounds_end [OF assms(1) s1(1,2)]) (simp add: fds)
  then show ?thesis by (simp add: fds comp_rounds_def s1_def)
qed

lemma compaction_terminates_witness:
  "ct_state (fst (comp_rounds demo_env (replicate (8 * 8192 + 12) (id, [])) (ct_new 1, demo_world))) = CDone"
proof (rule compaction_terminates [where dest = 2 and n = 8192 and f = "demo_file 1 FSealed 8192"])
  show "\<exists>w'. co_allocate_new_file demo_env (demo_world\<lparr>cw_index := m\<rparr>) = (Some 2, w')
      \<and> files_ready 8192 (Some 1) (Some 2) (Some 1) (cw_files w') (cw_meta w')" for m
    by (auto simp: demo_env_def demo_world_def files_ready_def demo_file_def)
qed (simp_all add: env_good_def demo_env_def demo_world_def demo_file_def)

section \<open>What compaction loses\<close>

lemma skip_pages_all:
  assumes "\<And>p. \<not> is_page_valid meta p"
  shows "n \<le> skip_pages meta n offset"
  using assms
proof (induction meta n offset rule: skip_pages.induct)
  case (1 meta src_end offset)
  then show ?case by (subst skip_pages.simps) simp
qed

text \<open>Once the bitmap of a file exists, created by the invalidation that crossed the garbage threshold, a
  compaction of the file passes over all its pages: it copies nothing, marks the source deleted and
  reports success, while the index goes on pointing at the live entries in the deleted file.\<close>

theorem compaction_discards_hidden_entries:
  assumes "env_good env" "comp_forward n t" "comp_running n (t, w)" "ct_state t = CReadChunk" "ct_write_data t = []"
    and "ct_src_meta t = Some i" "cw_meta w i = Some (mark_invalid offset_index page_count bytes meta)"
    and "ft_bitmap meta = None" "kBitmapCreationThreshold \<le> garbage_ratio meta"
    and "comp_rounds env [(id, []), (id, []), (id, [])] (t, w) = (t', w')"
  shows "ct_state t' = CDone \<and> cw_index w' = cw_index w
    \<and> (\<exists>meta'. cw_meta w' i = Some meta' \<and> ft_state meta' = FDeleted)"
proof -
  let ?meta = "mark_invalid offset_index page_count bytes meta"
  obtain b where b: "ft_bitmap ?meta = Some b" "bm_pages b = {}"
    using mark_invalid_empty_bitmap [OF assms(8,9)] by blast
  then have "\<not> is_page_valid ?meta p" for p by (auto simp: is_page_valid_def bm_pages_def)
  then have k: "n \<le> skip_pages ?meta n (ct_current_offset t)" by (rule skip_pages_all)
  note n = running_src [OF assms(3)]
  define t1 where "t1 = t\<lparr>ct_current_offset := skip_pages ?meta n (ct_current_offset t), ct_state := CMarkDeleted\<rparr>"
  have fwd: "ct_io t = None" "\<not> ct_io_pending t" using assms(2) by (simp_all add: comp_forward_def)
  have "comp_round env id [] (t, w) = (t1\<lparr>ct_state := CFinalize\<rparr>, w)"
    using assms(4-7) b k n fwd
    by (simp add: comp_round_def ct_step_def read_next_chunk_def skip_invalid_pages_def ct_source_meta_def
        ct_complete_def t1_def Let_def)
  moreover have "comp_round env id [] (t1\<lparr>ct_state := CFinalize\<rparr>, w) = (t1, w)"
    using assms(5) fwd by (simp add: comp_round_def ct_step_def finalize_def ct_complete_def t1_def)
  ultimately have last: "(t', w') = comp_round env id [] (t1, w)" using assms(10) by (simp add: comp_rounds_def)
  have run: "comp_running n (t1, cw_update_meta (Some i) f w)" for f
    by (rule running_update_meta) (use assms(3) in \<open>simp add: comp_running_def t1_def\<close>)
  obtain page where "mark_deleted env 0 (t1, w) = (t1\<lparr>ct_io_pending := True, ct_io := Some (CioMarkDeleted page)\<rparr>,
      cw_update_meta (Some i) (\<lambda>f. f\<lparr>ft_state := FDeleted, ft_valid_entries := 0, ft_valid_bytes := 0\<rparr>) w)"
    using header_round [OF assms(1) run, of FDeleted CioMarkDeleted "ct_on_mark_deleted 0"] assms(6) fwd
    by (auto simp: mark_deleted_def Let_def t1_def)
  then show ?thesis using last fwd assms(7)
    by (simp add: comp_round_def ct_step_def ct_complete_def ct_on_mark_deleted_def ct_free_dma_buffers_def t1_def
        cw_update_meta_def)
qed

definition hidden_world :: comp_world where
  "hidden_world = \<lparr>cw_files = [1 \<mapsto> demo_file 1 FCompacting 8192, 2 \<mapsto> demo_file 2 FActive 4096],
     cw_meta = [1 \<mapsto> mark_invalid 3 1 4096 half_dead], cw_index = demo_index\<rparr>"

lemma compaction_discards_hidden_entries_witness:
  "\<exists>t' w' meta. comp_rounds demo_env [(id, []), (id, []), (id, [])]
       (demo_task\<lparr>ct_migrated := [], ct_state := CReadChunk\<rparr>, hidden_world) = (t', w')
     \<and> ct_state t' = CDone \<and> mi_lookup (cw_index w') 5 = Some demo_entry \<and> me_file_id demo_entry = 1
     \<and> cw_meta w' 1 = Some meta \<and> ft_state meta = FDeleted"
proof -
  let ?t = "demo_task\<lparr>ct_migrated := [], ct_state := CReadChunk\<rparr>"
  obtain t' w' where run: "comp_rounds demo_env [(id, []), (id, []), (id, [])] (?t, hidden_world) = (t', w')"
    by (metis surj_pair)
  have "env_good demo_env" "comp_forward 8192 ?t" "comp_running 8192 (?t, hidden_world)"
    by (simp_all add: env_good_def demo_env_def comp_forward_def comp_running_def files_ready_def demo_task_def ct_new_def
        hidden_world_def demo_file_def)
  moreover have "ct_state ?t = CReadChunk" "ct_write_data ?t = []" "ct_src_meta ?t = Some 1"
    "cw_meta hidden_world 1 = Some (mark_invalid 3 1 4096 half_dead)" "ft_bitmap half_dead = None"
    "kBitmapCreationThreshold \<le> garbage_ratio half_dead"
    by (simp_all add: demo_task_def ct_new_def hidden_world_def half_dead_def garbage_ratio_def kBitmapCreationThreshold_def)
  ultimately have "ct_state t' = CDone \<and> cw_index w' = cw_index hidden_world
      \<and> (\<exists>meta. cw_meta w' 1 = Some meta \<and> ft_state meta = FDeleted)"
    using run by (rule compaction_discards_hidden_entries)
  with run show ?thesis by (auto simp: hidden_world_def demo_index_lookup) (simp add: demo_entry_def)
qed

text \<open>A part of the chunk in which no page starts a valid entry is passed over.\<close>

lemma process_invalid:
  assumes "4096 dvd off"
    and "\<And>q. off + 4096 * q < ct_bytes_read t \<Longrightarrow>
      \<not> ct_validate_entry (ct_read_data t) (off + 4096 * q) (ct_bytes_read t - (off + 4096 * q))"
  shows "process_loop m off t = t\<lparr>ct_current_offset := ct_current_offset t + ct_bytes_read t, ct_state := CReadChunk\<rparr>"
  using assms
proof (induction m off t rule: process_loop.induct)
  case (1 m off t)
  show ?case
  proof (cases "off < ct_bytes_read t")
    case True
    have np: "next_page off = off + 4096" using "1.prems"(1) by (auto simp: next_page_eq)
    have "process_loop m (next_page off) t = t\<lparr>ct_current_offset := ct_current_offset t + ct_bytes_read t, ct_state := CReadChunk\<rparr>"
    proof (rule "1.IH"(1) [OF True])
      show "\<not> ct_validate_entry (ct_read_data t) off (ct_bytes_read t - off)" using "1.prems"(2) [of 0] True by simp
      show "4096 dvd next_page off" using "1.prems"(1) by (simp add: np)
      show "\<not> ct_validate_entry (ct_read_data t) (next_page off + 4096 * q) (ct_bytes_read t - (next_page off + 4096 * q))"
        if "next_page off + 4096 * q < ct_bytes_read t" for q
        using "1.prems"(2) [of "Suc q"] that by (simp add: np algebra_simps)
    qed
    then show ?thesis using True "1.prems"(2) [of 0] by (subst process_loop.simps) simp
  qed (subst process_loop.simps, simp)
qed

lemma log_images_pages: "list_all log_ok es \<Longrightarrow> 4096 dvd length (log_images es)"
  by (induction es) (simp_all add: log_image_pages del: log_image.simps log_ok.simps)

text \<open>The first pages of an entry at the end of a chunk.\<close>

lemma cut_entry_invalid:
  assumes ok: "log_ok (key, v, seq, d)" and k: "28 \<le> k" "k < length (log_image (key, v, seq, d))"
    and off: "length pre = off"
    and inner: "\<And>q. 0 < q \<Longrightarrow> 4096 * q < k \<Longrightarrow> eh_magic (entry_header_at (log_image (key, v, seq, d)) (4096 * q)) \<noteq> kEntryMagic"
    and q: "4096 * q < k" "4096 dvd k"
  shows "\<not> ct_validate_entry (pre @ take k (log_image (key, v, seq, d))) (off + 4096 * q) (k - 4096 * q)"
proof (cases "q = 0")
  case True
  obtain tail where img: "log_image (key, v, seq, d) = entry_prefix key (value_len v) seq d @ tail"
    by (simp add: kv_entry_image_def kv_entry_body_def)
  have "get_u32 (pre @ take k (log_image (key, v, seq, d))) (off + 24) = value_len v"
    using off k(1) by (simp add: img entry_prefix_def entry_header_bytes_def kv_layout del: log_image.simps)
  then show ?thesis
    using True k(2) length_log_image [OF ok] by (simp add: ct_validate_entry_def Let_def del: log_image.simps)
next
  case False
  let ?img = "log_image (key, v, seq, d)"
  obtain c where c: "k = 4096 * c" using q(2) by blast
  then have "4096 * Suc q \<le> 4096 * c" using q(1) by (intro mult_le_mono) simp_all
  then have "min 4 (k - 4096 * q) = 4" unfolding c by simp
  then have "slice (off + 4096 * q) 4 (pre @ take k ?img) = slice (4096 * q) 4 ?img"
    using off by (simp only: slice_def drop_append drop_take take_take add_diff_cancel_left' append_Nil
        drop_all le_add1 off)
  then have "eh_magic (entry_header_at (pre @ take k ?img) (off + 4096 * q)) = eh_magic (entry_header_at ?img (4096 * q))"
    by (simp add: entry_header_at_def get_u32_def del: log_image.simps)
  then show ?thesis using inner [of q] False q(1) by (simp add: ct_validate_entry_def del: log_image.simps)
qed

text \<open>An entry that does not end in the chunk it begins in is never migrated: the chunk is passed to its
  end as if the entry were not there, also when the index points at it, and the next chunk starts inside
  the entry. This loses every entry that crosses a 1 MB boundary of the scan, and every entry larger
  than a chunk.\<close>

theorem compaction_loses_cut_entry:
  assumes "list_all log_ok es" "log_ok (key, v, seq, False)"
    and "4096 dvd k" "0 < k" "k < length (log_image (key, v, seq, False))"
    and "\<forall>q. 0 < q \<longrightarrow> 4096 * q < k \<longrightarrow> eh_magic (entry_header_at (log_image (key, v, seq, False)) (4096 * q)) \<noteq> kEntryMagic"
    and "ct_read_data t = log_images es @ take k (log_image (key, v, seq, False))"
    and "ct_bytes_read t = length (log_images es) + k" "length (ct_write_data t) + length (log_images es) \<le> kChunkSize"
    and "mvs = live_moves (cw_index w) (ct_src_file_id t) (ct_dest_file_id t) (ct_current_offset t)
      (ct_dest_offset t + length (ct_write_data t)) es"
  shows "process_entries (t, w) = ((ct_copied mvs (length es) t)\<lparr>
    ct_current_offset := ct_current_offset t + length (log_images es) + k, ct_state := CReadChunk\<rparr>, w)"
proof -
  let ?img = "log_image (key, v, seq, False)" and ?off = "length (log_images es)"
  have len: "ct_bytes_read t = length (ct_read_data t)" using assms(5,7,8) by (simp del: log_image.simps)
  have "length (moves_data mvs) \<le> ?off" unfolding assms(10) by (rule length_moves_data)
  then have "process_loop (cw_index w) 0 t = process_loop (cw_index w) ?off (ct_copied mvs (length es) t)"
    using process_run [OF assms(1), of "[]" 0 t "take k ?img" mvs "cw_index w"] assms(7,9,10) len by simp
  also have "\<dots> = (ct_copied mvs (length es) t)\<lparr>ct_current_offset := ct_current_offset t + ct_bytes_read t, ct_state := CReadChunk\<rparr>"
  proof -
    have k: "28 \<le> k" using assms(3,4) by (auto dest: dvd_imp_le)
    have "\<not> ct_validate_entry (ct_read_data t) (?off + 4096 * q) (ct_bytes_read t - (?off + 4096 * q))"
      if "?off + 4096 * q < ct_bytes_read t" for q
      using cut_entry_invalid [OF assms(2) k assms(5) refl _ _ assms(3), where q = q and pre = "log_images es"] assms(6) that
      by (simp add: assms(7,8) del: log_image.simps)
    then show ?thesis
      using process_invalid [of ?off "ct_copied mvs (length es) t" "cw_index w"] log_images_pages [OF assms(1)] by simp
  qed
  finally show ?thesis by (simp add: process_entries_def assms(8) add.assoc)
qed

lemma compaction_loses_cut_entry_witness:
  "\<exists>t'. process_entries (demo_task\<lparr>ct_migrated := [], ct_read_data := take 4096 (log_image (5, replicate 5000 1, 1, False)),
       ct_bytes_read := 4096\<rparr>, demo_world) = (t', demo_world)
     \<and> ct_migrated t' = [] \<and> ct_current_offset t' = 8192 \<and> mi_lookup demo_index 5 = Some demo_entry"
proof -
  let ?x = "(5, replicate 5000 1, 1, False) :: log_entry"
  let ?t = "demo_task\<lparr>ct_migrated := [], ct_read_data := take 4096 (log_image ?x), ct_bytes_read := 4096\<rparr>"
  have ok: "log_ok ?x" by simp
  have "length (log_image ?x) = 8192"
    using length_log_image [OF ok] by (simp add: unat_kv_entry_size del: log_image.simps)
  then have "process_entries (?t, demo_world) = ((ct_copied [] 0 ?t)\<lparr>ct_current_offset := 8192, ct_state := CReadChunk\<rparr>, demo_world)"
    using compaction_loses_cut_entry [of "[]" 5 "replicate 5000 1" 1 4096 ?t "[]" demo_world] ok
    by (simp add: demo_task_def ct_new_def kChunkSize_def del: log_image.simps log_ok.simps ct_copied_fields)
  then show ?thesis
    by (simp add: demo_task_def ct_new_def demo_index_lookup del: log_image.simps)
qed

section \<open>The scheduler's loop\<close>

text \<open>One poll of the scheduler ends: once the cycle counter has advanced by more than the budget of a
  poll, the loop over the steps returns, whatever state the active task is in.\<close>

theorem scheduler_poll_returns:
  assumes "n \<le> k" "kMaxCyclesPerPoll < tsc k - start_cycles"
  shows "\<exists>s'. cs_run_steps env tsc ns start_cycles n s = Some s'"
  using assms(1)
proof (induction "k - n" arbitrary: n s)
  case 0
  then show ?case using assms(2) by (subst cs_run_steps.simps) (simp add: Let_def)
next
  case (Suc d)
  then have "\<exists>s'. cs_run_steps env tsc ns start_cycles (n + 1) (ct_step env (ns n) s) = Some s'"
    by (intro Suc.hyps(1)) simp_all
  then show ?case by (subst cs_run_steps.simps) (simp add: Let_def)
qed

lemma scheduler_poll_returns_witness:
  "\<exists>s'. cs_run_steps demo_env (\<lambda>n. 30000 * word_of_nat n) (\<lambda>n. 0) 0 1 (ct_new 1, demo_world) = Some s'"
  by (rule scheduler_poll_returns [where k = 2]) (simp_all add: kMaxCyclesPerPoll_def word_less_nat_alt)

text \<open>Where there is no cycle counter the loop relies on the task. The fallback of \<^verbatim>\<open>rdtsc\<close> always
  returns 0, so a poll that finds a request of the task in flight never returns: the completion that would
  end the wait is only delivered between polls.\<close>

theorem scheduler_hangs_without_cycle_counter:
  assumes "ct_io_pending (fst s)" "\<not> ct_is_complete (fst s)"
  shows "cs_run_steps env (\<lambda>_. 0) ns 0 n s = None"
proof -
  have never: "ct_io_pending (fst s) \<longrightarrow> \<not> ct_is_complete (fst s) \<longrightarrow> tsc = (\<lambda>_. 0) \<longrightarrow> start_cycles = 0 \<longrightarrow> False"
    if "cs_run_steps env tsc ns start_cycles n s = Some r" for tsc start_cycles n s r
    using that
    by (rule cs_run_steps.raw_induct [rotated, where P = "\<lambda>env tsc ns start_cycles n s r.
        ct_io_pending (fst s) \<longrightarrow> \<not> ct_is_complete (fst s) \<longrightarrow> tsc = (\<lambda>_. 0) \<longrightarrow> start_cycles = 0 \<longrightarrow> False"])
      (auto simp: Let_def ct_step_def kMaxCyclesPerPoll_def split: if_splits)
  show ?thesis
  proof (cases "cs_run_steps env (\<lambda>_. 0) ns 0 n s")
    case (Some r)
    from never [OF Some] assms show ?thesis by simp
  qed
qed

lemma scheduler_hangs_without_cycle_counter_witness:
  "cs_run_steps demo_env (\<lambda>_. 0) (\<lambda>_. 0) 0 1
     (demo_task\<lparr>ct_state := CReadChunk, ct_io_pending := True, ct_io := Some (CioRead 4096 4096)\<rparr>, demo_world) = None"
  by (rule scheduler_hangs_without_cycle_counter) (simp_all add: ct_is_complete_def)

end
