(* ===== verification/KvEngine.thy ===== *)
theory KvEngine
  imports KvIndexStore KvSuperblock KvAllocLog KvFileMeta
begin

text \<open>
  The engine's files and its synchronous operations, \<^verbatim>\<open>include/spdk_kv/engine.h\<close> and
  \<^verbatim>\<open>src/engine.cpp\<close>: the allocation of a data file with its log entry and header, \<^verbatim>\<open>put\<close>,
  \<^verbatim>\<open>get\<close> and \<^verbatim>\<open>del\<close>. The loops that poll until a request completes are the completion itself;
  what the blob store, the DMA allocator and the clock answer are parameters.
\<close>

section \<open>Blobs\<close>

text \<open>The content of the blobs, by blob id. Offsets and lengths are in bytes; the source hands them
  over in IO units, of which pages are multiples.\<close>

type_synonym disk = "u64 \<Rightarrow> nat \<Rightarrow> byte"

definition disk_write :: "u64 \<Rightarrow> nat \<Rightarrow> byte list \<Rightarrow> disk \<Rightarrow> disk" where
  "disk_write b off data d =
     d(b := (\<lambda>i. if off \<le> i \<and> i < off + length data then data ! (i - off) else d b i))"

definition disk_read :: "disk \<Rightarrow> u64 \<Rightarrow> nat \<Rightarrow> nat \<Rightarrow> byte list" where
  "disk_read d b off n = map (d b) [off..<off + n]"

section \<open>State\<close>

text \<open>A pointer to a \<^verbatim>\<open>FileInfo\<close> is the position of the file in \<^verbatim>\<open>files_\<close>; \<open>fi_blob_opened\<close> stands
  for \<^verbatim>\<open>blob && blob_opened\<close>, which are set and reset together.\<close>

record kv_engine =
  en_state :: engine_state
  en_index :: mem_index
  en_files :: "file_info list"
  en_active_file_id :: u16
  en_next_file_id :: u16
  en_data_file_size :: u64
  en_total_data :: u64
  en_total_garbage :: u64
  en_meta :: "u16 \<Rightarrow> file_meta option"
  en_superblock :: superblock
  en_alloc_log :: "alloc_log option"
  en_disk :: disk

text \<open>What the surroundings answer during one operation: whether the environment, the store and the
  channel are there; whether the DMA buffer of the entry can be allocated; the status of the read or
  write, and what a failed write leaves in its place; for an allocation the blob id (\<^verbatim>\<open>None\<close> is
  \<^verbatim>\<open>SPDK_BLOBID_INVALID\<close>), the status of the log page, whether the blob opens, the header's buffer
  and status, the times; and the checkpoint that is run when the log is nearly full.\<close>

record io_env =
  io_ready :: bool
  io_dma :: bool
  io_status :: int
  io_torn :: "nat \<Rightarrow> byte"
  io_blob :: "u64 option"
  io_log_status :: int
  io_opened :: bool
  io_header_dma :: bool
  io_header_status :: int
  io_header_torn :: "nat \<Rightarrow> byte"
  io_log_time :: u64
  io_header_time :: u64
  io_checkpoint :: "kv_engine \<Rightarrow> kv_engine"

fun find_file :: "file_info list \<Rightarrow> u16 \<Rightarrow> nat option" where
  "find_file [] file_id = None"
| "find_file (f # fs) file_id =
     (if fi_file_id f = file_id then Some 0 else map_option Suc (find_file fs file_id))"

definition get_file :: "kv_engine \<Rightarrow> u16 \<Rightarrow> nat option" where
  "get_file e file_id = find_file (en_files e) file_id"

definition get_active_file :: "kv_engine \<Rightarrow> nat option" where
  "get_active_file e = get_file e (en_active_file_id e)"

definition en_update_file :: "nat \<Rightarrow> (file_info \<Rightarrow> file_info) \<Rightarrow> kv_engine \<Rightarrow> kv_engine" where
  "en_update_file i f e = e\<lparr>en_files := (en_files e)[i := f (en_files e ! i)]\<rparr>"

text \<open>\<^verbatim>\<open>submit_blob_write\<close> and \<^verbatim>\<open>submit_blob_read\<close>, with the wait for the completion.\<close>

definition submit_write :: "bool \<Rightarrow> int \<Rightarrow> (nat \<Rightarrow> byte) \<Rightarrow> file_info \<Rightarrow> nat \<Rightarrow> byte list \<Rightarrow> disk \<Rightarrow> int \<times> disk" where
  "submit_write ready status torn f off data d =
     (if \<not> fi_blob_opened f \<or> \<not> ready then (-1, d)
      else if status = 0 then (0, disk_write (fi_blob_id f) off data d)
      else (status, disk_write (fi_blob_id f) off (map torn [0..<length data]) d))"

definition submit_read :: "bool \<Rightarrow> int \<Rightarrow> file_info \<Rightarrow> nat \<Rightarrow> nat \<Rightarrow> disk \<Rightarrow> int \<times> byte list" where
  "submit_read ready status f off n d =
     (if \<not> fi_blob_opened f \<or> \<not> ready then (-1, [])
      else if status = 0 then (0, disk_read d (fi_blob_id f) off n) else (status, []))"

section \<open>Allocating a data file\<close>

text \<open>\<^verbatim>\<open>handle_blob_opened_for_file\<close>: the blob handle is stored, then the header is written.\<close>

definition handle_blob_opened :: "io_env \<Rightarrow> nat \<Rightarrow> kv_engine \<Rightarrow> bool \<times> kv_engine" where
  "handle_blob_opened env i e =
     (if \<not> io_opened env then (False, e)
      else (let e = en_update_file i (\<lambda>f. f\<lparr>fi_blob_opened := True\<rparr>) e; f = en_files e ! i
            in if \<not> io_header_dma env then (False, e)
               else (case submit_write (io_ready env) (io_header_status env) (io_header_torn env) f 0
                            (data_header_page (fi_file_id f) FActive (io_header_time env)) (en_disk e) of
                       (status, d) \<Rightarrow> (status = 0, e\<lparr>en_disk := d\<rparr>))))"

definition open_blob_for_file :: "io_env \<Rightarrow> nat \<Rightarrow> kv_engine \<Rightarrow> bool \<times> kv_engine" where
  "open_blob_for_file env i e = (if \<not> io_ready env then (False, e) else handle_blob_opened env i e)"

text \<open>\<^verbatim>\<open>on_blob_allocated\<close>: the log entry is persisted before the blob is opened.\<close>

definition on_blob_allocated :: "io_env \<Rightarrow> nat \<Rightarrow> kv_engine \<Rightarrow> bool \<times> kv_engine" where
  "on_blob_allocated env i e =
     (case io_blob env of
        None \<Rightarrow> (False, e)
      | Some blob_id \<Rightarrow>
         (let e = en_update_file i (\<lambda>f. f\<lparr>fi_blob_id := blob_id\<rparr>) e
          in (case en_alloc_log e of
                None \<Rightarrow> open_blob_for_file env i e
              | Some lg \<Rightarrow>
                  if \<not> lg_initialized lg then open_blob_for_file env i e
                  else (case lg_write_entry blob_id (fi_file_id (en_files e ! i)) (en_data_file_size e) (io_log_time env) lg of
                          (outcome, lg) \<Rightarrow>
                            (let e = e\<lparr>en_alloc_log := Some lg\<rparr>;
                                 status = (case outcome of LgRejected \<Rightarrow> -1 | LgInMemory \<Rightarrow> 0 | LgWritePage _ \<Rightarrow> io_log_status env)
                             in if status \<noteq> 0 then (False, e) else open_blob_for_file env i e)))))"

definition allocate_blob_for_file :: "io_env \<Rightarrow> nat \<Rightarrow> kv_engine \<Rightarrow> bool \<times> kv_engine" where
  "allocate_blob_for_file env i e = (if \<not> io_ready env then (False, e) else on_blob_allocated env i e)"

definition new_file_info :: "u16 \<Rightarrow> file_info" where
  "new_file_info file_id = \<lparr>fi_file_id = file_id, fi_blob_id = 0, fi_state = FActive, fi_size = 0,
     fi_write_offset = 4096, fi_blob_opened = False\<rparr>"

text \<open>The entry \<^verbatim>\<open>file_metadata_[file_id]\<close> is created or reused; its bitmap is not touched.\<close>

definition init_file_metadata :: "file_info \<Rightarrow> kv_engine \<Rightarrow> kv_engine" where
  "init_file_metadata f e =
     (let meta = (case en_meta e (fi_file_id f) of None \<Rightarrow> file_meta_new | Some m \<Rightarrow> m)
      in e\<lparr>en_meta := (en_meta e)(fi_file_id f \<mapsto> meta\<lparr>ft_file_id := fi_file_id f, ft_state := fi_state f,
             ft_total_entries := 0, ft_valid_entries := 0, ft_total_bytes := 0, ft_valid_bytes := 0\<rparr>),
           en_superblock := update_superblock_file_mapping (Some f) (en_superblock e)\<rparr>)"

text \<open>\<^verbatim>\<open>allocate_new_file\<close>.\<close>

definition alloc_log_near_full :: "kv_engine \<Rightarrow> bool" where
  "alloc_log_near_full e = (case en_alloc_log e of None \<Rightarrow> False | Some lg \<Rightarrow> lg_is_near_full lg)"

definition push_new_file :: "kv_engine \<Rightarrow> kv_engine" where
  "push_new_file e = e\<lparr>en_files := en_files e @ [new_file_info (en_next_file_id e)], en_next_file_id := en_next_file_id e + 1\<rparr>"

definition pop_new_file :: "kv_engine \<Rightarrow> kv_engine" where
  "pop_new_file e = e\<lparr>en_files := butlast (en_files e), en_next_file_id := en_next_file_id e - 1\<rparr>"

definition allocate_new_file :: "io_env \<Rightarrow> kv_engine \<Rightarrow> nat option \<times> kv_engine" where
  "allocate_new_file env e =
     (let e = (if alloc_log_near_full e then io_checkpoint env e else e);
          e = push_new_file e;
          i = length (en_files e) - 1
      in case allocate_blob_for_file env i e of
           (success, e) \<Rightarrow> if \<not> success then (None, pop_new_file e)
                           else (Some i, init_file_metadata (en_files e ! i) e))"

section \<open>put\<close>

text \<open>The file a write of a size goes to: the active one, or a new one after sealing it.\<close>

definition file_for_write :: "io_env \<Rightarrow> u64 \<Rightarrow> kv_engine \<Rightarrow> nat option \<times> kv_engine" where
  "file_for_write env aligned_size e =
     (let file = get_active_file e;
          full = (case file of None \<Rightarrow> True
                  | Some i \<Rightarrow> \<not> fi_blob_opened (en_files e ! i)
                      \<or> fi_write_offset (en_files e ! i) + aligned_size > en_data_file_size e)
      in if full
         then (let e = (case file of None \<Rightarrow> e | Some i \<Rightarrow> en_update_file i (\<lambda>f. f\<lparr>fi_state := FSealed\<rparr>) e)
               in case allocate_new_file env e of
                    (None, e) \<Rightarrow> (None, e)
                  | (Some i, e) \<Rightarrow> (Some i, e\<lparr>en_active_file_id := fi_file_id (en_files e ! i)\<rparr>))
         else (file, e))"

text \<open>The index entry of a write. \<^verbatim>\<open>reserved\<close> is not initialised in the source; here it is 0.\<close>

definition written_entry :: "u64 \<Rightarrow> file_info \<Rightarrow> u64 \<Rightarrow> u64 \<Rightarrow> u32 \<Rightarrow> mem_index_entry" where
  "written_entry key f write_offset aligned_size seq =
     \<lparr>me_key = key, me_file_id = ucast (fi_file_id f), me_offset_index = ucast (write_offset div kPageSize),
      me_deleted = False, me_sequence = seq, me_page_count = ucast (aligned_size div kPageSize),
      me_tag = kv_tag key, me_reserved = 0\<rparr>"

definition advance_file :: "nat \<Rightarrow> u64 \<Rightarrow> kv_engine \<Rightarrow> kv_engine" where
  "advance_file i aligned_size e =
     (let e = en_update_file i (\<lambda>f. f\<lparr>fi_write_offset := fi_write_offset f + aligned_size,
                                     fi_size := fi_write_offset f + aligned_size\<rparr>) e
      in e\<lparr>en_total_data := en_total_data e + aligned_size\<rparr>)"

definition page_bytes :: "mem_index_entry \<Rightarrow> u64" where
  "page_bytes m = ucast (me_page_count m) * kPageSize"

text \<open>Old data of a key that is overwritten count as garbage; the result of \<^verbatim>\<open>upsert\<close> is dropped.\<close>

definition index_written :: "u64 \<Rightarrow> mem_index_entry \<Rightarrow> kv_engine \<Rightarrow> kv_engine" where
  "index_written key m e =
     (let e = (case mi_lookup (en_index e) key of None \<Rightarrow> e
               | Some old \<Rightarrow> e\<lparr>en_total_garbage := en_total_garbage e + page_bytes old\<rparr>)
      in e\<lparr>en_index := snd (mi_upsert (en_index e) key m)\<rparr>)"

text \<open>\<open>value\<close> is the memory at the value pointer, \<open>None\<close> the null pointer.\<close>

definition kv_put :: "io_env \<Rightarrow> u64 \<Rightarrow> byte list option \<Rightarrow> u32 \<Rightarrow> kv_engine \<Rightarrow> kv_error \<times> kv_engine" where
  "kv_put env key value value_len e =
     (if en_state e \<noteq> EReady then (KEngineNotReady, e)
      else if value_len = 0 then (KInvalidArgument, e)
      else if value = None then (KInvalidArgument, e)
      else (let aligned_size = kv_entry_size value_len
            in case file_for_write env aligned_size e of
                 (None, e) \<Rightarrow> (KNoSpace, e)
               | (Some i, e) \<Rightarrow>
                   if \<not> io_dma env then (KInternalError, e)
                   else (case mi_allocate_sequence (en_index e) of (seq, idx) \<Rightarrow>
                      (let e = e\<lparr>en_index := idx\<rparr>; f = en_files e ! i; write_offset = fi_write_offset f
                       in case submit_write (io_ready env) (io_status env) (io_torn env) f (unat write_offset)
                                (build_entry_inplace key value value_len seq False) (en_disk e) of
                            (status, d) \<Rightarrow>
                              (let e = e\<lparr>en_disk := d\<rparr>
                               in if status \<noteq> 0 then (KIoError, e)
                                  else (KSuccess, advance_file i aligned_size
                                          (index_written key (written_entry key f write_offset aligned_size seq) e)))))))"

section \<open>get\<close>

text \<open>The result is the error, the value that is copied to the caller's buffer, and what
  \<^verbatim>\<open>*actual_len\<close> is set to. \<open>has_buf\<close>: \<^verbatim>\<open>value_buf\<close> is not null.\<close>

definition kv_get :: "io_env \<Rightarrow> u64 \<Rightarrow> bool \<Rightarrow> u32 \<Rightarrow> kv_engine \<Rightarrow> kv_error \<times> byte list option \<times> u32 option" where
  "kv_get env key has_buf buf_len e =
     (if en_state e \<noteq> EReady then (KEngineNotReady, None, None)
      else if \<not> has_buf \<or> buf_len = 0 then (KInvalidArgument, None, None)
      else (case mi_lookup (en_index e) key of
         None \<Rightarrow> (KKeyNotFound, None, None)
       | Some m \<Rightarrow>
          if me_deleted m then (KKeyNotFound, None, None)
          else (case get_file e (ucast (me_file_id m)) of
             None \<Rightarrow> (KIoError, None, None)
           | Some i \<Rightarrow>
              (let f = en_files e ! i in
               if \<not> file_state_readable (fi_state f) \<or> \<not> fi_blob_opened f then (KIoError, None, None)
               else if \<not> io_dma env then (KInternalError, None, None)
               else (let read_size = 4096 * unat (me_page_count m); off = 4096 * unat (me_offset_index m)
                     in case submit_read (io_ready env) (io_status env) f off read_size (en_disk e) of
                          (status, data) \<Rightarrow>
                            if status \<noteq> 0 then (KIoError, None, None)
                            else if \<not> eh_is_valid (entry_header_at data 0) then (KCorruption, None, None)
                            else (let value_len = get_u32 data 24
                                  in if value_len > buf_len then (KValueTooLarge, None, Some value_len)
                                     else (KSuccess, Some (slice 28 (unat value_len) data), Some value_len)))))))"

section \<open>del\<close>

definition kv_del :: "io_env \<Rightarrow> u64 \<Rightarrow> kv_engine \<Rightarrow> kv_error \<times> kv_engine" where
  "kv_del env key e =
     (if en_state e \<noteq> EReady then (KEngineNotReady, e)
      else (case mi_lookup (en_index e) key of
         None \<Rightarrow> (KKeyNotFound, e)
       | Some old \<Rightarrow>
          (let aligned_size = kv_entry_size 0; old_size = page_bytes old
           in case file_for_write env aligned_size e of
                (None, e) \<Rightarrow> (KNoSpace, e)
              | (Some i, e) \<Rightarrow>
                  if \<not> io_dma env then (KInternalError, e)
                  else (case mi_allocate_sequence (en_index e) of (seq, idx) \<Rightarrow>
                     (let e = e\<lparr>en_index := idx\<rparr>; f = en_files e ! i; write_offset = fi_write_offset f
                      in case submit_write (io_ready env) (io_status env) (io_torn env) f (unat write_offset)
                               (build_entry_inplace key None 0 seq True) (en_disk e) of
                           (status, d) \<Rightarrow>
                             (let e = e\<lparr>en_disk := d\<rparr>
                              in if status \<noteq> 0 then (KIoError, e)
                                 else (let e = e\<lparr>en_index := snd (mi_remove (en_index e) key)\<rparr>;
                                           e = e\<lparr>en_total_garbage := en_total_garbage e + old_size\<rparr>
                                       in (KSuccess, advance_file i aligned_size e))))))))"

end
