(* ===== verification/KvEngineSpec.thy ===== *)
theory KvEngineSpec
  imports KvEngine KvRecovery
begin

text \<open>
  The contract of the engine's synchronous operations: together they implement a map from keys to
  values. The abstraction reads the value of each indexed key from the blobs; the invariant says that
  the index points at whole entries below the write offsets.
\<close>

section \<open>The abstract map\<close>

definition kv_abs :: "kv_engine \<Rightarrow> u64 \<Rightarrow> byte list option" where
  "kv_abs e key =
     (case mi_lookup (en_index e) key of None \<Rightarrow> None
      | Some m \<Rightarrow> (case get_file e (ucast (me_file_id m)) of None \<Rightarrow> None
         | Some i \<Rightarrow> (let data = disk_read (en_disk e) (fi_blob_id (en_files e ! i))
                                 (4096 * unat (me_offset_index m)) (4096 * unat (me_page_count m))
                     in Some (slice 28 (unat (get_u32 data 24)) data))))"

text \<open>Values whose entry has at most \<open>2^16 - 1\<close> pages: the page count of an index entry has 16 bits.\<close>

definition kMaxStoredLen :: nat where "kMaxStoredLen = 65535 * 4096 - 32"

definition on_disk :: "file_info list \<Rightarrow> disk \<Rightarrow> mem_index_entry \<Rightarrow> u64 \<Rightarrow> byte list \<Rightarrow> bool" where
  "on_disk fs d m key v \<longleftrightarrow> (\<exists>i seq. find_file fs (ucast (me_file_id m)) = Some i
     \<and> file_state_readable (fi_state (fs ! i)) \<and> fi_blob_opened (fs ! i)
     \<and> length v \<le> kMaxStoredLen \<and> 4096 \<le> 4096 * unat (me_offset_index m)
     \<and> 4096 * unat (me_page_count m) = length (log_image (key, v, seq, False))
     \<and> 4096 * unat (me_offset_index m) + 4096 * unat (me_page_count m) \<le> unat (fi_write_offset (fs ! i))
     \<and> disk_read d (fi_blob_id (fs ! i)) (4096 * unat (me_offset_index m)) (4096 * unat (me_page_count m))
         = log_image (key, v, seq, False))"

definition file_ok :: "file_info \<Rightarrow> bool" where
  "file_ok f \<longleftrightarrow> 4096 dvd unat (fi_write_offset f) \<and> 4096 \<le> unat (fi_write_offset f) \<and> unat (fi_write_offset f) \<le> 2 ^ 33"

definition files_ok :: "kv_engine \<Rightarrow> bool" where
  "files_ok e \<longleftrightarrow> distinct (map fi_file_id (en_files e)) \<and> distinct (map fi_blob_id (en_files e))
     \<and> (\<forall>f \<in> set (en_files e). file_ok f \<and> fi_file_id f < en_next_file_id e) \<and> unat (en_next_file_id e) \<le> 1024
     \<and> unat (en_data_file_size e) \<le> 2 ^ 33
     \<and> (\<forall>i. get_active_file e = Some i \<longrightarrow> file_state_readable (fi_state (en_files e ! i)))"

definition kv_inv :: "kv_engine \<Rightarrow> bool" where
  "kv_inv e \<longleftrightarrow> mi_inv (en_index e) \<and> files_ok e
     \<and> (\<forall>key m. mi_lookup (en_index e) key = Some m \<longrightarrow> (\<exists>v. on_disk (en_files e) (en_disk e) m key v))"

text \<open>What a call may assume of its surroundings: a new blob is not one of those in use, there are file
  ids left, and the allocation log has room, so that no checkpoint has to be run first.\<close>

definition env_ok :: "io_env \<Rightarrow> kv_engine \<Rightarrow> bool" where
  "env_ok env e \<longleftrightarrow> (\<forall>b. io_blob env = Some b \<longrightarrow> b \<notin> fi_blob_id ` set (en_files e))
     \<and> unat (en_next_file_id e) < 1024 \<and> \<not> alloc_log_near_full e"

section \<open>Reading what is on disk\<close>

lemma log_ok_stored: "length v \<le> kMaxStoredLen \<Longrightarrow> log_ok (key, v, seq, t)"
  by (simp add: kMaxStoredLen_def)

lemma log_image_fields:
  assumes "length v \<le> kMaxStoredLen"
  shows "eh_is_valid (entry_header_at (log_image (key, v, seq, t)) 0)"
    and "get_u32 (log_image (key, v, seq, t)) 24 = word_of_nat (length v)"
    and "slice 28 (length v) (log_image (key, v, seq, t)) = v"
proof -
  note ok = log_ok_stored [OF assms]
  show "eh_is_valid (entry_header_at (log_image (key, v, seq, t)) 0)"
    "get_u32 (log_image (key, v, seq, t)) 24 = word_of_nat (length v)"
    using log_image_at(1,3) [OF ok, where pre = "[]" and rest = "[]" and off = 0] by (simp_all add: eh_is_valid_def del: log_image.simps)
  show "slice 28 (length v) (log_image (key, v, seq, t)) = v"
    by (simp add: slice_def kv_entry_image_def kv_entry_body_def)
qed

lemma on_disk_value:
  assumes "on_disk (en_files e) (en_disk e) m key v" "mi_lookup (en_index e) key = Some m"
  shows "kv_abs e key = Some v"
proof -
  have "unat (word_of_nat (length v) :: u32) = length v"
    using assms(1) by (auto simp: on_disk_def kMaxStoredLen_def intro!: unat_of_nat_small)
  then show ?thesis using assms
    by (auto simp: kv_abs_def on_disk_def get_file_def log_image_fields Let_def simp del: log_image.simps)
qed

lemma kv_abs_lookup:
  assumes "kv_inv e"
  obtains "mi_lookup (en_index e) key = None" "kv_abs e key = None"
  | m v where "mi_lookup (en_index e) key = Some m" "on_disk (en_files e) (en_disk e) m key v" "kv_abs e key = Some v"
proof (cases "mi_lookup (en_index e) key")
  case None
  then show ?thesis using that(1) by (simp add: kv_abs_def)
next
  case (Some m)
  then obtain v where "on_disk (en_files e) (en_disk e) m key v" using assms unfolding kv_inv_def by blast
  with Some show ?thesis using that(2) on_disk_value by blast
qed

lemma kv_get_sim:
  assumes "kv_inv e" "en_state e = EReady" "io_ready env" "io_dma env" "io_status env = 0" "buf_len \<noteq> 0"
  shows "kv_get env key True buf_len e =
    (case kv_abs e key of None \<Rightarrow> (KKeyNotFound, None, None)
     | Some v \<Rightarrow> if length v > unat buf_len then (KValueTooLarge, None, Some (word_of_nat (length v)))
                else (KSuccess, Some v, Some (word_of_nat (length v))))"
proof (cases rule: kv_abs_lookup [OF assms(1), of key])
  case 1
  then show ?thesis using assms by (simp add: kv_get_def)
next
  case (2 m v)
  have len: "unat (word_of_nat (length v) :: u32) = length v"
    using 2(2) by (auto simp: on_disk_def kMaxStoredLen_def intro!: unat_of_nat_small)
  have "\<not> me_deleted m"
    using 2(1) find_key [of "en_index e" key] by (auto simp: mi_lookup_def)
  then show ?thesis using 2 assms len
    by (auto simp: kv_get_def on_disk_def get_file_def submit_read_def log_image_fields Let_def word_less_nat_alt
        simp del: log_image.simps)
qed

text \<open>C2: \<^verbatim>\<open>get\<close> returns what the map holds: the whole value, the length alone when the caller's buffer is too
  small, and \<^verbatim>\<open>kKeyNotFound\<close> for a key that is not there.\<close>

theorem kv_get_refines:
  assumes "kv_inv e" "en_state e = EReady" "io_ready env" "io_dma env" "io_status env = 0" "buf_len \<noteq> 0"
  shows "kv_get env key True buf_len e =
    (case kv_abs e key of None \<Rightarrow> (KKeyNotFound, None, None)
     | Some v \<Rightarrow> if length v > unat buf_len then (KValueTooLarge, None, Some (word_of_nat (length v)))
                else (KSuccess, Some v, Some (word_of_nat (length v))))"
  by (rule kv_get_sim [OF assms])

section \<open>Growing files keep what is stored\<close>

definition file_grows :: "disk \<Rightarrow> disk \<Rightarrow> file_info \<Rightarrow> file_info \<Rightarrow> bool" where
  "file_grows d d' f f' \<longleftrightarrow> fi_file_id f' = fi_file_id f \<and> fi_blob_id f' = fi_blob_id f
     \<and> (fi_blob_opened f \<longrightarrow> fi_blob_opened f') \<and> (file_state_readable (fi_state f) \<longrightarrow> file_state_readable (fi_state f'))
     \<and> unat (fi_write_offset f) \<le> unat (fi_write_offset f')
     \<and> (\<forall>n. 4096 \<le> n \<longrightarrow> n < unat (fi_write_offset f) \<longrightarrow> d' (fi_blob_id f) n = d (fi_blob_id f) n)"

definition store_grows :: "file_info list \<Rightarrow> disk \<Rightarrow> file_info list \<Rightarrow> disk \<Rightarrow> bool" where
  "store_grows fs d fs' d' \<longleftrightarrow> length fs \<le> length fs' \<and> (\<forall>i < length fs. file_grows d d' (fs ! i) (fs' ! i))"

lemma file_grows_refl: "file_grows d d f f"
  by (simp add: file_grows_def)

lemma store_grows_refl: "store_grows fs d fs d"
  by (simp add: store_grows_def file_grows_refl)

lemma file_grows_trans: "file_grows d d' f g \<Longrightarrow> file_grows d' d'' g h \<Longrightarrow> file_grows d d'' f h"
  unfolding file_grows_def by (auto intro: order_trans)

lemma store_grows_trans:
  assumes "store_grows fs d fs' d'" "store_grows fs' d' fs'' d''"
  shows "store_grows fs d fs'' d''"
  using assms file_grows_trans by (fastforce simp: store_grows_def)

lemma find_file_Some:
  "find_file fs k = Some i \<longleftrightarrow> i < length fs \<and> fi_file_id (fs ! i) = k \<and> (\<forall>j < i. fi_file_id (fs ! j) \<noteq> k)"
proof (induction fs arbitrary: i)
  case (Cons f fs)
  show ?case
  proof (cases i)
    case (Suc j)
    then show ?thesis using Cons by (auto simp: less_Suc_eq_0_disj)
  qed auto
qed simp

lemma find_file_grows: "store_grows fs d fs' d' \<Longrightarrow> find_file fs k = Some i \<Longrightarrow> find_file fs' k = Some i"
  by (auto simp: find_file_Some store_grows_def file_grows_def)

text \<open>One file that is still there and has only grown; the entries in it are still on disk.\<close>

definition file_kept :: "file_info list \<Rightarrow> disk \<Rightarrow> file_info list \<Rightarrow> disk \<Rightarrow> u16 \<Rightarrow> bool" where
  "file_kept fs d fs' d' k \<longleftrightarrow> (\<forall>i. find_file fs k = Some i \<longrightarrow> find_file fs' k = Some i \<and> file_grows d d' (fs ! i) (fs' ! i))"

lemma grows_kept: "store_grows fs d fs' d' \<Longrightarrow> file_kept fs d fs' d' k"
  using find_file_grows [of fs d fs' d' k] by (auto simp: file_kept_def store_grows_def find_file_Some)

lemma on_disk_kept:
  assumes "file_kept fs d fs' d' (ucast (me_file_id m))" "on_disk fs d m key v"
  shows "on_disk fs' d' m key v"
proof -
  let ?off = "4096 * unat (me_offset_index m)" and ?n = "4096 * unat (me_page_count m)"
  obtain i seq where i: "find_file fs (ucast (me_file_id m)) = Some i"
    "file_state_readable (fi_state (fs ! i))" "fi_blob_opened (fs ! i)" "length v \<le> kMaxStoredLen" "4096 \<le> ?off"
    "?n = length (log_image (key, v, seq, False))" "?off + ?n \<le> unat (fi_write_offset (fs ! i))"
    "disk_read d (fi_blob_id (fs ! i)) ?off ?n = log_image (key, v, seq, False)"
    using assms(2) unfolding on_disk_def by blast
  have g: "find_file fs' (ucast (me_file_id m)) = Some i" "file_grows d d' (fs ! i) (fs' ! i)"
    using assms(1) i(1) by (simp_all add: file_kept_def)
  have "disk_read d' (fi_blob_id (fs' ! i)) ?off ?n = disk_read d (fi_blob_id (fs ! i)) ?off ?n"
    using g i(5,7) by (auto simp: disk_read_def file_grows_def)
  then show ?thesis
    using i g unfolding on_disk_def file_grows_def
    by (intro exI [of _ i] exI [of _ seq]) (auto simp del: log_image.simps)
qed

lemmas on_disk_grows = on_disk_kept [OF grows_kept]

text \<open>When every entry the index finds is found again, with its bytes wherever they are now, the
  invariant and the map are kept.\<close>

lemma kv_moved:
  assumes "kv_inv e" "files_ok e'" "mi_inv (en_index e')"
    and "\<And>x. rel_option (\<lambda>m m'. \<forall>v. on_disk (en_files e) (en_disk e) m x v \<longrightarrow> on_disk (en_files e') (en_disk e') m' x v)
           (mi_lookup (en_index e) x) (mi_lookup (en_index e') x)"
  shows "kv_inv e' \<and> kv_abs e' = kv_abs e"
proof -
  have "mi_lookup (en_index e') x = None \<and> kv_abs e x = None
      \<or> (\<exists>m v. mi_lookup (en_index e') x = Some m \<and> on_disk (en_files e') (en_disk e') m x v \<and> kv_abs e x = Some v)" for x
    by (cases rule: kv_abs_lookup [OF assms(1), of x]; use assms(4) [of x] in \<open>auto simp: option_rel_Some1\<close>)
  note found = this
  have "\<exists>v. on_disk (en_files e') (en_disk e') m x v" if "mi_lookup (en_index e') x = Some m" for x m
    using found [of x] that by auto
  then have "kv_inv e'" unfolding kv_inv_def using assms(2,3) by blast
  moreover have "kv_abs e' x = kv_abs e x" for x
    using found [of x] on_disk_value [of e' _ x] by (auto simp: kv_abs_def [of e'])
  ultimately show ?thesis by (simp add: fun_eq_iff)
qed

text \<open>The same index over a grown store.\<close>

lemma kv_grows:
  assumes "kv_inv e" "store_grows (en_files e) (en_disk e) (en_files e') (en_disk e')" "files_ok e'"
    and "mi_inv (en_index e')" "\<And>x. mi_lookup (en_index e') x = mi_lookup (en_index e) x"
  shows "kv_inv e' \<and> kv_abs e' = kv_abs e"
  by (rule kv_moved [OF assms(1,3,4)]) (auto simp: assms(5) on_disk_grows [OF assms(2)] intro: option.rel_refl_strong)

lemma disk_write_other: "b' \<noteq> b \<Longrightarrow> disk_write b off data d b' = d b'"
  by (simp add: disk_write_def)

lemma disk_write_below: "n < off \<Longrightarrow> disk_write b off data d b' n = d b' n"
  by (simp add: disk_write_def)

lemma disk_read_write: "disk_read (disk_write b off data d) b off (length data) = data"
  by (rule nth_equalityI) (simp_all add: disk_read_def disk_write_def)

section \<open>Allocating a file\<close>

lemma update_last:
  "en_files (en_update_file (length fs) f (e\<lparr>en_files := fs @ [x]\<rparr>)) = fs @ [f x]"
  by (simp add: en_update_file_def)

text \<open>Whatever happens, only the last file, the allocation log and the new blob change; on success the
  file is open and its blob is the new one.\<close>

definition alloc_changes :: "io_env \<Rightarrow> file_info list \<Rightarrow> kv_engine \<Rightarrow> bool \<times> kv_engine \<Rightarrow> bool" where
  "alloc_changes env fs e r \<longleftrightarrow> (\<exists>f d lg. snd r = e\<lparr>en_files := fs @ [f], en_disk := d, en_alloc_log := lg\<rparr>
     \<and> fi_file_id f = fi_file_id (last (en_files e)) \<and> fi_state f = fi_state (last (en_files e))
     \<and> fi_write_offset f = fi_write_offset (last (en_files e))
     \<and> (\<forall>b. Some b \<noteq> io_blob env \<longrightarrow> d b = en_disk e b)
     \<and> (fst r \<longrightarrow> fi_blob_opened f \<and> Some (fi_blob_id f) = io_blob env))"

lemma alloc_changesI:
  assumes "r = (ok, e\<lparr>en_files := fs @ [f], en_disk := d, en_alloc_log := lg\<rparr>)" "en_files e = fs @ [g]"
    and "fi_file_id f = fi_file_id g" "fi_state f = fi_state g" "fi_write_offset f = fi_write_offset g"
    and "\<And>b. Some b \<noteq> io_blob env \<Longrightarrow> d b = en_disk e b" "ok \<Longrightarrow> fi_blob_opened f \<and> Some (fi_blob_id f) = io_blob env"
  shows "alloc_changes env fs e r"
  unfolding alloc_changes_def
  by (rule exI [of _ f], rule exI [of _ d], rule exI [of _ lg]) (use assms in simp)

lemma alloc_unchanged: "en_files e = fs @ [g] \<Longrightarrow> alloc_changes env fs e (False, e)"
  by (rule alloc_changesI [where f = g and d = "en_disk e" and lg = "en_alloc_log e" and ok = False]) (cases e; simp)+

lemma handle_blob_opened_changes:
  assumes "en_files e = fs @ [g]" "io_blob env = Some (fi_blob_id g)"
  shows "alloc_changes env fs e (handle_blob_opened env (length fs) e)"
proof -
  define g' where "g' = g\<lparr>fi_blob_opened := True\<rparr>"
  have upd: "en_update_file (length fs) (\<lambda>f. f\<lparr>fi_blob_opened := True\<rparr>) e = e\<lparr>en_files := fs @ [g']\<rparr>"
    using assms(1) by (simp add: en_update_file_def g'_def)
  obtain status d where w: "submit_write (io_ready env) (io_header_status env) (io_header_torn env) g' 0
      (data_header_page (fi_file_id g') FActive (io_header_time env)) (en_disk e) = (status, d)" by fastforce
  have other: "d b = en_disk e b" if "Some b \<noteq> io_blob env" for b
    using w that assms(2) by (auto simp: submit_write_def g'_def disk_write_other split: if_splits)
  consider "\<not> io_opened env" | "io_opened env" "\<not> io_header_dma env" | "io_opened env" "io_header_dma env" by blast
  then show ?thesis
  proof cases
    case 1
    then show ?thesis using alloc_unchanged [OF assms(1)] by (simp add: handle_blob_opened_def)
  next
    case 2
    then have "handle_blob_opened env (length fs) e = (False, e\<lparr>en_files := fs @ [g'], en_disk := en_disk e, en_alloc_log := en_alloc_log e\<rparr>)"
      by (simp add: handle_blob_opened_def upd Let_def)
    then show ?thesis by (rule alloc_changesI [OF _ assms(1)]) (simp_all add: g'_def)
  next
    case 3
    then have "handle_blob_opened env (length fs) e = (status = 0, e\<lparr>en_files := fs @ [g'], en_disk := d, en_alloc_log := en_alloc_log e\<rparr>)"
      using w by (simp add: handle_blob_opened_def upd Let_def)
    then show ?thesis by (rule alloc_changesI [OF _ assms(1)]) (use other assms(2) in \<open>simp_all add: g'_def\<close>)
  qed
qed

lemma alloc_changes_trans:
  assumes "alloc_changes env fs (e\<lparr>en_files := fs @ [g'], en_alloc_log := lg\<rparr>) r" "en_files e = fs @ [g]"
    and "fi_file_id g' = fi_file_id g" "fi_state g' = fi_state g" "fi_write_offset g' = fi_write_offset g"
  shows "alloc_changes env fs e r"
  using assms by (auto simp: alloc_changes_def)

lemma open_blob_for_file_changes:
  assumes "en_files e = fs @ [g]" "io_blob env = Some (fi_blob_id g)"
  shows "alloc_changes env fs e (open_blob_for_file env (length fs) e)"
  using handle_blob_opened_changes [OF assms] alloc_unchanged [OF assms(1)] by (simp add: open_blob_for_file_def)

lemma on_blob_allocated_changes:
  assumes "en_files e = fs @ [g]"
  shows "alloc_changes env fs e (on_blob_allocated env (length fs) e)"
proof (cases "io_blob env")
  case None
  then show ?thesis using alloc_unchanged [OF assms] by (simp add: on_blob_allocated_def)
next
  case (Some b)
  define g' where "g' = g\<lparr>fi_blob_id := b\<rparr>"
  have upd: "en_update_file (length fs) (\<lambda>f. f\<lparr>fi_blob_id := b\<rparr>) e = e\<lparr>en_files := fs @ [g']\<rparr>"
    using assms by (simp add: en_update_file_def g'_def)
  have log: "e\<lparr>en_files := fs @ [g'], en_alloc_log := en_alloc_log e\<rparr> = e\<lparr>en_files := fs @ [g']\<rparr>" by (cases e) simp
  have g': "fi_file_id g' = fi_file_id g" "fi_state g' = fi_state g" "fi_write_offset g' = fi_write_offset g"
    "io_blob env = Some (fi_blob_id g')" by (simp_all add: g'_def Some)
  have fs: "en_files (e\<lparr>en_files := fs @ [g'], en_alloc_log := lg\<rparr>) = fs @ [g']" for lg by simp
  note opened = alloc_changes_trans [OF open_blob_for_file_changes [OF fs g'(4)] assms g'(1-3)]
  note failed = alloc_changes_trans [OF alloc_unchanged [OF fs] assms g'(1-3)]
  show ?thesis
    using opened [where lg = "en_alloc_log e"] opened failed log
    by (auto simp: on_blob_allocated_def Some upd Let_def split: option.splits prod.splits lg_outcome.splits)
qed

lemma allocate_blob_for_file_changes:
  assumes "en_files e = fs @ [g]"
  shows "alloc_changes env fs e (allocate_blob_for_file env (length fs) e)"
  using on_blob_allocated_changes [OF assms] alloc_unchanged [OF assms] by (simp add: allocate_blob_for_file_def)

text \<open>\<^verbatim>\<open>allocate_new_file\<close>: one more file, open and empty, under the next id and in the new blob; or
  the same files. Nothing else than the new blob is written.\<close>

definition alloc_result :: "io_env \<Rightarrow> kv_engine \<Rightarrow> nat option \<Rightarrow> kv_engine \<Rightarrow> bool" where
  "alloc_result env e r e' \<longleftrightarrow> (\<forall>b. Some b \<noteq> io_blob env \<longrightarrow> en_disk e' b = en_disk e b) \<and> en_index e' = en_index e
     \<and> en_state e' = en_state e \<and> en_active_file_id e' = en_active_file_id e \<and> en_data_file_size e' = en_data_file_size e
     \<and> (case r of None \<Rightarrow> en_files e' = en_files e \<and> en_next_file_id e' = en_next_file_id e
        | Some i \<Rightarrow> i = length (en_files e) \<and> en_next_file_id e' = en_next_file_id e + 1
            \<and> (\<exists>f. en_files e' = en_files e @ [f] \<and> fi_file_id f = en_next_file_id e \<and> fi_state f = FActive
                \<and> fi_write_offset f = 4096 \<and> fi_blob_opened f \<and> Some (fi_blob_id f) = io_blob env))"

lemma allocate_new_file_result:
  assumes "env_ok env e" "allocate_new_file env e = (r, e')"
  shows "alloc_result env e r e'"
proof -
  let ?fs = "en_files e" and ?e = "push_new_file e"
  have e1: "en_files ?e = ?fs @ [new_file_info (en_next_file_id e)]" by (simp add: push_new_file_def)
  obtain ok e2 where al: "allocate_blob_for_file env (length ?fs) ?e = (ok, e2)" by fastforce
  obtain f d lg where e2: "e2 = ?e\<lparr>en_files := ?fs @ [f], en_disk := d, en_alloc_log := lg\<rparr>"
    and f: "fi_file_id f = en_next_file_id e" "fi_state f = FActive" "fi_write_offset f = 4096"
    and d: "\<And>b. Some b \<noteq> io_blob env \<Longrightarrow> d b = en_disk e b"
    and ok: "ok \<Longrightarrow> fi_blob_opened f \<and> Some (fi_blob_id f) = io_blob env"
    using allocate_blob_for_file_changes [OF e1, of env]
    by (auto simp: al alloc_changes_def e1 new_file_info_def) (auto simp: push_new_file_def)
  have "(r, e') = (if ok then (Some (length ?fs), init_file_metadata f e2) else (None, pop_new_file e2))"
  proof -
    have "length (en_files ?e) = Suc (length ?fs)" by (simp add: e1)
    then show ?thesis
      using assms by (simp add: allocate_new_file_def env_ok_def Let_def al) (auto simp: e2)
  qed
  then show ?thesis using f d ok
    by (auto simp: alloc_result_def init_file_metadata_def pop_new_file_def push_new_file_def e2 Let_def split: if_splits)
qed

text \<open>It keeps what is stored.\<close>

lemma allocate_new_file_spec:
  assumes "files_ok e" "env_ok env e" "allocate_new_file env e = (r, e')"
  shows "store_grows (en_files e) (en_disk e) (en_files e') (en_disk e') \<and> files_ok e' \<and> en_index e' = en_index e
    \<and> (\<forall>i. r = Some i \<longrightarrow> i = length (en_files e) \<and> length (en_files e') = Suc i \<and> fi_blob_opened (en_files e' ! i)
         \<and> fi_state (en_files e' ! i) = FActive \<and> unat (fi_write_offset (en_files e' ! i)) = 4096)"
proof -
  let ?fs = "en_files e"
  note res = allocate_new_file_result [OF assms(2,3), unfolded alloc_result_def]
  have keep: "file_grows (en_disk e) (en_disk e') g g" if "g \<in> set ?fs" for g
  proof -
    have "Some (fi_blob_id g) \<noteq> io_blob env" using assms(2) that by (force simp: env_ok_def)
    then show ?thesis using res by (simp add: file_grows_def)
  qed
  show ?thesis
  proof (cases r)
    case None
    then show ?thesis using res assms(1) keep by (simp add: store_grows_def files_ok_def get_active_file_def get_file_def)
  next
    case (Some i)
    with res obtain f where f: "i = length ?fs" "en_files e' = ?fs @ [f]" "fi_file_id f = en_next_file_id e" "fi_state f = FActive"
      "fi_write_offset f = 4096" "fi_blob_opened f" "Some (fi_blob_id f) = io_blob env" "en_next_file_id e' = en_next_file_id e + 1"
      by auto
    have nxt: "unat (en_next_file_id e + 1) = unat (en_next_file_id e) + 1" "unat (en_next_file_id e) < 1024"
      using assms(2) by (auto simp: env_ok_def intro!: trans [OF unat_plus_small])
    have grows: "store_grows ?fs (en_disk e) (en_files e') (en_disk e')"
      using keep by (simp add: store_grows_def f(2) nth_append)
    have active: "file_state_readable (fi_state (en_files e' ! j))" if "get_active_file e' = Some j" for j
    proof (cases "get_active_file e = Some j")
      case True
      then have "j < length ?fs" by (simp add: get_active_file_def get_file_def find_file_Some)
      then show ?thesis using True assms(1) by (simp add: f(2) nth_append files_ok_def)
    next
      case False
      then have "j = length ?fs"
        using that res find_file_grows [OF grows] by (auto simp: get_active_file_def get_file_def f(2) find_file_Some nth_append less_Suc_eq)
      then show ?thesis using f(2,4) by (simp add: file_state_readable_def)
    qed
    have "fi_blob_id f \<notin> fi_blob_id ` set ?fs" using f(7) assms(2) by (auto simp: env_ok_def)
    moreover have "fi_file_id f \<notin> fi_file_id ` set ?fs" using f(3) assms(1) by (auto simp: files_ok_def)
    moreover have "g \<in> set ?fs \<Longrightarrow> fi_file_id g < en_next_file_id e + 1" for g
      using assms(1) nxt by (fastforce simp: files_ok_def word_less_nat_alt)
    ultimately have "files_ok e'"
      using assms(1) f nxt active res by (simp add: files_ok_def file_ok_def word_less_nat_alt)
    with grows show ?thesis using f Some res by simp
  qed
qed

section \<open>Writing an entry\<close>

lemma files_ok_update:
  assumes "files_ok e" "i < length (en_files e)" "f (en_files e ! i) = g"
    and "fi_file_id g = fi_file_id (en_files e ! i)" "fi_blob_id g = fi_blob_id (en_files e ! i)" "file_ok g"
    and "file_state_readable (fi_state (en_files e ! i)) \<Longrightarrow> file_state_readable (fi_state g)"
  shows "files_ok (en_update_file i f e)"
proof -
  have ids: "map fi_file_id ((en_files e)[i := g]) = map fi_file_id (en_files e)"
    "map fi_blob_id ((en_files e)[i := g]) = map fi_blob_id (en_files e)"
    using assms(2,4,5) by (simp_all add: map_update list_update_same_conv)
  have find: "find_file ((en_files e)[i := g]) k = find_file (en_files e) k" for k
  proof -
    have same: "fi_file_id ((en_files e)[i := g] ! j) = fi_file_id (en_files e ! j)" if "j < length (en_files e)" for j
      using that assms(2,4) by (auto simp: nth_list_update)
    then have "find_file ((en_files e)[i := g]) k = Some j \<longleftrightarrow> find_file (en_files e) k = Some j" for j
      by (auto simp: find_file_Some)
    then show ?thesis by (metis not_Some_eq)
  qed
  have "h \<in> set ((en_files e)[i := g]) \<Longrightarrow> file_ok h \<and> fi_file_id h < en_next_file_id e" for h
    using assms set_update_subset_insert [of "en_files e" i g] by (auto simp: files_ok_def)
  then show ?thesis
    using assms(1,2,3,7) by (auto simp: files_ok_def en_update_file_def ids get_active_file_def get_file_def find nth_list_update)
qed

lemma update_grows:
  assumes "i < length fs" "file_grows d d' (fs ! i) g"
    and "\<And>j. j < length fs \<Longrightarrow> j \<noteq> i \<Longrightarrow> file_grows d d' (fs ! j) (fs ! j)"
  shows "store_grows fs d (fs[i := g]) d'"
  using assms by (auto simp: store_grows_def nth_list_update)

lemma seal_active_spec:
  assumes "files_ok e" "env_ok env e"
    and "e0 = (case get_active_file e of None \<Rightarrow> e | Some i \<Rightarrow> en_update_file i (\<lambda>f. f\<lparr>fi_state := FSealed\<rparr>) e)"
  shows "files_ok e0 \<and> store_grows (en_files e) (en_disk e) (en_files e0) (en_disk e0) \<and> en_index e0 = en_index e \<and> env_ok env e0"
proof (cases "get_active_file e")
  case None
  then show ?thesis using assms by (simp add: store_grows_refl)
next
  case (Some i)
  then have i: "i < length (en_files e)" by (simp add: get_active_file_def get_file_def find_file_Some)
  have e0: "e0 = en_update_file i (\<lambda>f. f\<lparr>fi_state := FSealed\<rparr>) e" using assms(3) Some by simp
  have "files_ok e0"
    unfolding e0 using assms(1) i
    by (intro files_ok_update [OF _ _ refl]) (auto simp: files_ok_def file_ok_def file_state_readable_def)
  moreover have "store_grows (en_files e) (en_disk e) (en_files e0) (en_disk e0)"
    using i by (auto simp: e0 en_update_file_def file_grows_refl intro!: update_grows)
      (auto simp: file_grows_def file_state_readable_def)
  moreover have "map fi_blob_id (en_files e0) = map fi_blob_id (en_files e)"
    using i by (simp add: e0 en_update_file_def map_update list_update_same_conv)
  then have "fi_blob_id ` set (en_files e0) = fi_blob_id ` set (en_files e)" by (metis set_map)
  ultimately show ?thesis using assms(2)
    by (simp add: env_ok_def alloc_log_near_full_def) (simp add: e0 en_update_file_def)
qed

lemma file_for_write_spec:
  assumes "kv_inv e" "env_ok env e" "file_for_write env sz e = (r, e')" "unat sz \<le> 65535 * 4096"
  shows "kv_inv e' \<and> kv_abs e' = kv_abs e \<and> en_index e' = en_index e
    \<and> (\<forall>i. r = Some i \<longrightarrow> i < length (en_files e') \<and> fi_blob_opened (en_files e' ! i)
         \<and> file_state_readable (fi_state (en_files e' ! i))
         \<and> unat (fi_write_offset (en_files e' ! i)) + unat sz \<le> 2 ^ 33)"
proof -
  let ?file = "get_active_file e"
  define full where "full \<longleftrightarrow> (case ?file of None \<Rightarrow> True
    | Some i \<Rightarrow> \<not> fi_blob_opened (en_files e ! i) \<or> fi_write_offset (en_files e ! i) + sz > en_data_file_size e)"
  have ok: "files_ok e" "mi_inv (en_index e)" using assms(1) by (simp_all add: kv_inv_def)
  show ?thesis
  proof (cases full)
    case False
    then obtain i where i: "?file = Some i" "fi_blob_opened (en_files e ! i)"
      "fi_write_offset (en_files e ! i) + sz \<le> en_data_file_size e"
      by (auto simp: full_def not_less split: option.splits)
    have "e' = e" "r = Some i" using assms(3) False i(1) by (auto simp: file_for_write_def Let_def full_def)
    moreover have len: "i < length (en_files e)" using i(1) by (simp add: get_active_file_def get_file_def find_file_Some)
    moreover have "unat (fi_write_offset (en_files e ! i)) \<le> 2 ^ 33" using ok(1) len by (simp add: files_ok_def file_ok_def)
    then have "unat (fi_write_offset (en_files e ! i) + sz) = unat (fi_write_offset (en_files e ! i)) + unat sz"
      using assms(4) by (subst unat_plus_small) simp_all
    ultimately show ?thesis using assms(1) i ok(1) by (auto simp: files_ok_def word_le_nat_alt)
  next
    case True
    define e0 where "e0 = (case ?file of None \<Rightarrow> e | Some i \<Rightarrow> en_update_file i (\<lambda>f. f\<lparr>fi_state := FSealed\<rparr>) e)"
    obtain q e1 where al: "allocate_new_file env e0 = (q, e1)" by fastforce
    have run: "r = q" "e' = (case q of None \<Rightarrow> e1 | Some i \<Rightarrow> e1\<lparr>en_active_file_id := fi_file_id (en_files e1 ! i)\<rparr>)"
      using assms(3) True by (auto simp: file_for_write_def Let_def full_def [symmetric] e0_def [symmetric] al split: option.splits)
    have e0: "files_ok e0 \<and> store_grows (en_files e) (en_disk e) (en_files e0) (en_disk e0) \<and> en_index e0 = en_index e \<and> env_ok env e0"
      using seal_active_spec [OF ok(1) assms(2)] by (simp add: e0_def)
    note al_spec = allocate_new_file_spec [OF _ _ al]
    have e1: "store_grows (en_files e) (en_disk e) (en_files e1) (en_disk e1)" "files_ok e1" "en_index e1 = en_index e"
      using al_spec e0 store_grows_trans by (blast, blast, simp)
    have new: "i = length (en_files e0) \<and> i < length (en_files e1) \<and> fi_blob_opened (en_files e1 ! i)
        \<and> fi_state (en_files e1 ! i) = FActive \<and> unat (fi_write_offset (en_files e1 ! i)) = 4096" if "q = Some i" for i
      using al_spec e0 that by auto
    have "files_ok e'"
    proof (cases q)
      case None
      then show ?thesis using run e1 by simp
    next
      case (Some i)
      have "j = i" if "find_file (en_files e1) (fi_file_id (en_files e1 ! i)) = Some j" for j
        using that new [OF Some] e1(2) by (auto simp: find_file_Some files_ok_def distinct_conv_nth)
      then show ?thesis using run Some e1(2) new [OF Some]
        by (auto simp: files_ok_def get_active_file_def get_file_def file_state_readable_def)
    qed
    moreover have "en_files e' = en_files e1" "en_disk e' = en_disk e1" "en_index e' = en_index e"
      using run e1(3) by (auto split: option.splits)
    ultimately show ?thesis
      using kv_grows [OF assms(1), of e'] e1(1) ok(2) new run(1) assms(4) by (auto simp: file_state_readable_def)
  qed
qed

text \<open>The index accepts a write of the key under the sequence number just drawn: either the key is new and
  a slot can be found for it, or its slot is reached over slots that do not provoke the displacement
  \<open>index_update_loses_key\<close> describes, and the number is newer than the stored one.\<close>

definition index_takes :: "mem_index \<Rightarrow> u64 \<Rightarrow> bool" where
  "index_takes idx key \<longleftrightarrow> (key \<noteq> 0 \<or> mi_global_sequence idx \<noteq> 0)
     \<and> (mi_content idx key = None \<and> 0 < mi_free idx
          \<and> (\<forall>m. me_key m = key \<longrightarrow> me_sequence m = mi_global_sequence idx \<longrightarrow> fst (mi_upsert idx key m))
        \<or> (\<exists>i. mi_live idx key i \<and> mi_strict_path idx key (mi_disp idx key i)
             \<and> sequence_newer (mi_global_sequence idx) (me_sequence (mi_entries idx ! i))))"

lemma index_takes_lookup:
  assumes "mi_inv idx" "index_takes idx key" "me_key m = key" "me_tag m = kv_tag key" "\<not> me_deleted m"
    and "me_sequence m = mi_global_sequence idx"
  shows "mi_inv (snd (mi_upsert idx key m))
    \<and> mi_lookup (snd (mi_upsert idx key m)) x = (if x = key then Some m else mi_lookup idx x)"
proof -
  have ok: "\<not> me_is_empty m" "mi_storable key m" "mi_stored key m = m" "mi_visible m"
    using assms by (auto simp: me_is_empty_def index_takes_def mi_storable_def mi_stored_def mi_visible_def)
  obtain b idx' where up: "mi_upsert idx key m = (b, idx')" by fastforce
  from assms(2) consider "mi_content idx key = None" "0 < mi_free idx" "fst (mi_upsert idx key m)"
    | i where "mi_live idx key i" "mi_strict_path idx key (mi_disp idx key i)"
        "sequence_newer (me_sequence m) (me_sequence (mi_entries idx ! i))"
    using assms(3,6) by (auto simp: index_takes_def)
  then show ?thesis
  proof cases
    case 1
    then have up': "mi_upsert idx key m = (True, idx')" using up by simp
    have "mi_inv idx'" using mix.ins_fresh [OF assms(1) 1(1,2) ok(2) up'] by blast
    moreover have "mi_lookup idx' x = (if x = key then Some m else mi_lookup idx x)"
      using mix.lookup_ins [OF assms(1) 1(1,2) ok(2) up', of x] ok(3,4) by simp
    ultimately show ?thesis by (simp only: up' snd_conv)
  next
    case 2
    have m: "m\<lparr>me_tag := kv_tag key\<rparr> = m" using ok(3) by (simp only: mi_stored_def)
    obtain n where n: "mi_upsert idx key m = (True, n)" "mi_inv n" "mi_content n = (mi_content idx)(key \<mapsto> m)"
      using mi_upsert_update [OF assms(1) 2(1,2) assms(3) ok(1)] unfolding if_P [OF 2(3)] m by blast
    have "mi_lookup n x = (if x = key then Some m else mi_lookup idx x)"
      unfolding mi_lookup_content [OF n(2)] mi_lookup_content [OF assms(1)] n(3) using ok(4) by simp
    then show ?thesis using n(2) by (simp only: n(1) snd_conv)
  qed
qed

lemma mi_inv_sequence: "mi_inv (m\<lparr>mi_global_sequence := s\<rparr>) = mi_inv m"
proof -
  let ?m = "m\<lparr>mi_global_sequence := s\<rparr>"
  have "mi_home ?m = mi_home m" by (simp add: fun_eq_iff mi_home_def mi_wrap_def)
  then have "mi_pos ?m = mi_pos m" "mi_disp ?m = mi_disp m" by (simp_all add: fun_eq_iff mi_pos_def mi_disp_def)
  then have "mi_path ?m = mi_path m" "mi_disp ?m = mi_disp m" by (simp_all add: fun_eq_iff mi_path_def)
  then have "mi_slot_ok ?m = mi_slot_ok m" by (simp add: fun_eq_iff mi_slot_ok_def Let_def)
  then show ?thesis by (simp add: mi_inv_def mi_wf_def)
qed

lemma submit_write_grows:
  assumes "files_ok e" "i < length (en_files e)"
    and "submit_write ready status torn (en_files e ! i) (unat (fi_write_offset (en_files e ! i))) data (en_disk e) = (r, d)"
  shows "store_grows (en_files e) (en_disk e) (en_files e) d"
    and "r = 0 \<Longrightarrow> disk_read d (fi_blob_id (en_files e ! i)) (unat (fi_write_offset (en_files e ! i))) (length data) = data"
proof -
  let ?f = "en_files e ! i"
  have "d (fi_blob_id g) n = en_disk e (fi_blob_id g) n"
    if "g \<in> set (en_files e)" "n < unat (fi_write_offset g)" for g n
  proof (cases "fi_blob_id g = fi_blob_id ?f")
    case True
    then have "g = ?f" using assms(1,2) that(1) by (auto simp: files_ok_def distinct_map inj_on_def)
    then show ?thesis using assms(3) that(2) by (auto simp: submit_write_def disk_write_below split: if_splits)
  next
    case False
    then show ?thesis using assms(3) by (auto simp: submit_write_def disk_write_other split: if_splits)
  qed
  then show "store_grows (en_files e) (en_disk e) (en_files e) d" by (simp add: store_grows_def file_grows_def)
  show "r = 0 \<Longrightarrow> disk_read d (fi_blob_id ?f) (unat (fi_write_offset ?f)) (length data) = data"
    using assms(3) by (auto simp: submit_write_def disk_read_write split: if_splits)
qed

text \<open>Drawing a sequence number and a write at the end of a file, whatever becomes of it.\<close>

lemma kv_append:
  assumes "kv_inv e" "i < length (en_files e)" "mi_allocate_sequence (en_index e) = (seq, idx)"
    and "submit_write ready status torn (en_files e ! i) (unat (fi_write_offset (en_files e ! i))) data (en_disk e) = (r, d)"
  shows "kv_inv (e\<lparr>en_index := idx, en_disk := d\<rparr>) \<and> kv_abs (e\<lparr>en_index := idx, en_disk := d\<rparr>) = kv_abs e"
proof (rule kv_grows [OF assms(1)])
  have ok: "files_ok e" "mi_inv (en_index e)" using assms(1) by (simp_all add: kv_inv_def)
  show "store_grows (en_files e) (en_disk e) (en_files (e\<lparr>en_index := idx, en_disk := d\<rparr>)) (en_disk (e\<lparr>en_index := idx, en_disk := d\<rparr>))"
    using submit_write_grows(1) [OF ok(1) assms(2,4)] by simp
  show "files_ok (e\<lparr>en_index := idx, en_disk := d\<rparr>)"
    using ok(1) by (simp add: files_ok_def get_active_file_def get_file_def)
  have idx: "idx = (en_index e)\<lparr>mi_global_sequence := seq\<rparr>" using assms(3) by (auto simp: mi_allocate_sequence_def Let_def)
  show "mi_inv (en_index (e\<lparr>en_index := idx, en_disk := d\<rparr>))"
    using ok(2) by (simp add: idx mi_inv_sequence)
  show "mi_lookup (en_index (e\<lparr>en_index := idx, en_disk := d\<rparr>)) x = mi_lookup (en_index e) x" for x
    by (simp add: mi_lookup_def idx find_same [OF same_keys_sequence])
qed

lemma ucast_small:
  fixes x :: "'a :: len word"
  assumes "unat x < 2 ^ LENGTH('b)"
  shows "unat (ucast x :: 'b :: len word) = unat x"
  using assms by (simp add: unsigned_ucast_eq unsigned_take_bit_eq take_bit_nat_eq_self)

lemma find_file_nth: "distinct (map fi_file_id fs) \<Longrightarrow> i < length fs \<Longrightarrow> find_file fs (fi_file_id (fs ! i)) = Some i"
  by (auto simp: find_file_Some distinct_conv_nth)

text \<open>The file grows by what was written.\<close>

definition advanced :: "u64 \<Rightarrow> file_info \<Rightarrow> file_info" where
  "advanced sz f = f\<lparr>fi_write_offset := fi_write_offset f + sz, fi_size := fi_write_offset f + sz\<rparr>"

lemma advance_file_alt:
  "advance_file i sz e = en_update_file i (advanced sz) e\<lparr>en_total_data := en_total_data e + sz\<rparr>"
  by (simp add: advance_file_def advanced_def Let_def en_update_file_def)

lemma advanced_offset:
  assumes "unat (fi_write_offset f) + unat sz \<le> 2 ^ 33"
  shows "unat (fi_write_offset (advanced sz f)) = unat (fi_write_offset f) + unat sz"
  unfolding advanced_def using assms by (simp, subst unat_plus_small) simp_all

lemma advance_files_ok:
  assumes "files_ok e" "i < length (en_files e)" "4096 dvd unat sz"
    and "unat (fi_write_offset (en_files e ! i)) + unat sz \<le> 2 ^ 33"
  shows "files_ok (advance_file i sz e)"
proof -
  let ?f = "en_files e ! i"
  have "file_ok ?f" using assms(1,2) by (simp add: files_ok_def)
  then have f: "file_ok (advanced sz ?f)" using assms(3,4) advanced_offset [OF assms(4)] by (simp add: file_ok_def)
  have "files_ok (en_update_file i (advanced sz) e)"
    using assms(1,2) f by (intro files_ok_update [where g = "advanced sz ?f"]) (simp_all add: advanced_def)
  then show ?thesis by (simp add: advance_file_alt files_ok_def get_active_file_def get_file_def)
qed

lemma advance_file_spec:
  assumes "kv_inv e" "i < length (en_files e)" "4096 dvd unat sz"
    and "unat (fi_write_offset (en_files e ! i)) + unat sz \<le> 2 ^ 33"
  shows "kv_inv (advance_file i sz e) \<and> kv_abs (advance_file i sz e) = kv_abs e"
proof (rule kv_grows [OF assms(1)])
  let ?f = "en_files e ! i"
  have ok: "files_ok e" "mi_inv (en_index e)" using assms(1) by (simp_all add: kv_inv_def)
  have "file_grows (en_disk e) (en_disk e) ?f (advanced sz ?f)"
    using advanced_offset [OF assms(4)] by (simp add: file_grows_def) (simp add: advanced_def)
  then show "store_grows (en_files e) (en_disk e) (en_files (advance_file i sz e)) (en_disk (advance_file i sz e))"
    using assms(2) by (simp add: advance_file_alt en_update_file_def update_grows file_grows_refl)
  show "files_ok (advance_file i sz e)" by (rule advance_files_ok [OF ok(1) assms(2-4)])
  show "mi_inv (en_index (advance_file i sz e))" using ok(2) by (simp add: advance_file_alt en_update_file_def)
  show "mi_lookup (en_index (advance_file i sz e)) x = mi_lookup (en_index e) x" for x
    by (simp add: advance_file_alt en_update_file_def)
qed

text \<open>A change of the index alone: a key that now points at an entry on disk, or a key that is hidden.\<close>

lemma kv_index_put:
  assumes "kv_inv e" "en_files e' = en_files e" "en_disk e' = en_disk e" "files_ok e'" "mi_inv (en_index e')"
    and "\<And>x. mi_lookup (en_index e') x = (if x = key then Some m else mi_lookup (en_index e) x)"
    and "on_disk (en_files e) (en_disk e) m key v"
  shows "kv_inv e' \<and> kv_abs e' = (kv_abs e)(key \<mapsto> v)"
proof (intro conjI ext)
  show "kv_inv e'" unfolding kv_inv_def assms(2,3,6) using assms(1,4,5,7) by (auto simp: kv_inv_def)
  show "kv_abs e' x = ((kv_abs e)(key \<mapsto> v)) x" for x
  proof (cases "x = key")
    case True
    then show ?thesis using assms(2,3,6,7) by (simp add: on_disk_value)
  next
    case False
    then show ?thesis unfolding kv_abs_def get_file_def assms(2,3,6) by simp
  qed
qed

lemma kv_index_del:
  assumes "kv_inv e" "en_files e' = en_files e" "en_disk e' = en_disk e" "files_ok e'" "mi_inv (en_index e')"
    and "\<And>x. mi_lookup (en_index e') x = (if x = key then None else mi_lookup (en_index e) x)"
  shows "kv_inv e' \<and> kv_abs e' = (kv_abs e)(key := None)"
proof (intro conjI ext)
  show "kv_inv e'" unfolding kv_inv_def assms(2,3,6) using assms(1,4,5) by (auto simp: kv_inv_def)
  show "kv_abs e' x = ((kv_abs e)(key := None)) x" for x
    unfolding kv_abs_def get_file_def assms(2,3,6) by simp
qed

text \<open>The index entry of a write points at the file and the pages of the write.\<close>

lemma written_entry_points:
  assumes "files_ok e" "i < length (en_files e)" "f = en_files e ! i"
    and "unat (fi_write_offset f) + unat sz \<le> 2 ^ 33" "4096 dvd unat sz" "4096 \<le> unat sz" "unat sz \<le> 65535 * 4096"
    and "m = written_entry key f (fi_write_offset f) sz seq"
  shows "find_file ((en_files e)[i := advanced sz f]) (ucast (me_file_id m)) = Some i"
    and "4096 * unat (me_offset_index m) = unat (fi_write_offset f)" and "4096 * unat (me_page_count m) = unat sz"
proof -
  let ?fs = "(en_files e)[i := advanced sz f]"
  have f: "file_ok f" "fi_file_id f < en_next_file_id e" "unat (en_next_file_id e) \<le> 1024"
    using assms(1-3) by (auto simp: files_ok_def)
  then have id: "unat (fi_file_id f) < 1024" by (simp add: word_less_nat_alt)
  then have "ucast (ucast (fi_file_id f) :: 10 word) = fi_file_id f"
    by (intro word_unat_eq_iff [THEN iffD2]) (simp add: ucast_small)
  then have fid: "ucast (me_file_id m) = fi_file_id (?fs ! i)" using assms(2,8) by (simp add: written_entry_def advanced_def)
  have "map fi_file_id ?fs = map fi_file_id (en_files e)"
    using assms(2,3) by (simp add: map_update list_update_same_conv advanced_def)
  then show "find_file ?fs (ucast (me_file_id m)) = Some i"
    unfolding fid using assms(1,2) by (intro find_file_nth) (simp_all add: files_ok_def)
  have p: "unat (kPageSize :: u64) = 4096" by (simp add: kPageSize_def)
  show "4096 * unat (me_offset_index m) = unat (fi_write_offset f)"
    using f(1) assms(4,6,8) by (simp add: written_entry_def ucast_small unat_div p file_ok_def)
  show "4096 * unat (me_page_count m) = unat sz"
    using assms(5,7,8) by (simp add: written_entry_def ucast_small unat_div p)
qed

text \<open>An entry that was written in full is on disk once the file has advanced past it.\<close>

lemma written_on_disk:
  assumes "files_ok e" "i < length (en_files e)" "f = en_files e ! i"
    and "fi_blob_opened f" "file_state_readable (fi_state f)" "length v \<le> kMaxStoredLen"
    and "unat (fi_write_offset f) + unat sz \<le> 2 ^ 33"
    and "length (log_image (key, v, seq, False)) = unat sz" "4096 dvd unat sz" "4096 \<le> unat sz" "unat sz \<le> 65535 * 4096"
    and "disk_read d (fi_blob_id f) (unat (fi_write_offset f)) (unat sz) = log_image (key, v, seq, False)"
  shows "on_disk ((en_files e)[i := advanced sz f]) d (written_entry key f (fi_write_offset f) sz seq) key v"
proof -
  have "file_ok f" using assms(1-3) by (auto simp: files_ok_def)
  then show ?thesis unfolding on_disk_def
    using written_entry_points [OF assms(1-3,7,9-11) refl, of key seq] assms(2,4-8,12) advanced_offset [OF assms(7)]
    by (intro exI [of _ i] exI [of _ seq]) (simp add: file_ok_def advanced_def del: log_image.simps)
qed

text \<open>The common part of \<^verbatim>\<open>put\<close> and \<^verbatim>\<open>del\<close>: what was written is on disk behind the old write
  offset, the file has advanced, and the map has not changed yet.\<close>

lemma entry_appended:
  assumes "kv_inv e" "i < length (en_files e)" "f = en_files e ! i" "mi_allocate_sequence (en_index e) = (seq, idx)"
    and "submit_write ready status torn f (unat (fi_write_offset f)) img (en_disk e) = (0, d)"
    and "length img = unat sz" "4096 dvd unat sz" "unat (fi_write_offset f) + unat sz \<le> 2 ^ 33"
    and "e' = advance_file i sz (e\<lparr>en_index := idx, en_disk := d\<rparr>)"
  shows "kv_inv e' \<and> kv_abs e' = kv_abs e \<and> en_files e' = (en_files e)[i := advanced sz f] \<and> en_disk e' = d
    \<and> en_index e' = idx \<and> disk_read d (fi_blob_id f) (unat (fi_write_offset f)) (unat sz) = img"
proof -
  note w = assms(5) [unfolded assms(3)]
  have ok: "files_ok e" using assms(1) by (simp add: kv_inv_def)
  have e2: "kv_inv (e\<lparr>en_index := idx, en_disk := d\<rparr>)" "kv_abs (e\<lparr>en_index := idx, en_disk := d\<rparr>) = kv_abs e"
    using kv_append [OF assms(1,2,4) w] by simp_all
  have "disk_read d (fi_blob_id f) (unat (fi_write_offset f)) (unat sz) = img"
    using submit_write_grows(2) [OF ok assms(2) w] assms(3,6) by simp
  then show ?thesis
    using advance_file_spec [OF e2(1), of i sz] e2(2) assms(2,3,7,8)
    by (simp add: assms(9)) (simp add: advance_file_alt en_update_file_def)
qed

text \<open>The cases of \<^verbatim>\<open>put\<close>, and the last one in the order of its state changes.\<close>

lemma kv_put_rejected:
  "en_state e \<noteq> EReady \<or> len = 0 \<Longrightarrow>
   kv_put env key (Some v) len e = (if en_state e \<noteq> EReady then KEngineNotReady else KInvalidArgument, e)"
  unfolding kv_put_def by simp

lemma kv_put_no_room:
  assumes "en_state e = EReady" "len \<noteq> 0" "file_for_write env (kv_entry_size len) e = (q, e1)" "q = None \<or> \<not> io_dma env"
  shows "kv_put env key (Some v) len e = (if q = None then KNoSpace else KInternalError, e1)"
  using assms by (cases q) (simp_all add: kv_put_def)

lemma kv_put_writes:
  assumes "en_state e = EReady" "len \<noteq> 0" "file_for_write env (kv_entry_size len) e = (Some i, e1)" "io_dma env"
    and "mi_allocate_sequence (en_index e1) = (seq, idx)" "f = en_files e1 ! i"
    and "submit_write (io_ready env) (io_status env) (io_torn env) f (unat (fi_write_offset f))
           (build_entry_inplace key (Some v) len seq False) (en_disk e1) = (status, d)"
  shows "kv_put env key (Some v) len e =
    (if status \<noteq> 0 then (KIoError, e1\<lparr>en_index := idx, en_disk := d\<rparr>)
     else (KSuccess, advance_file i (kv_entry_size len)
            (index_written key (written_entry key f (fi_write_offset f) (kv_entry_size len) seq)
              (e1\<lparr>en_index := idx, en_disk := d\<rparr>))))"
  using assms by (simp add: kv_put_def Let_def)

lemma index_written_advance:
  "advance_file i sz (index_written key m e) = (advance_file i sz e)\<lparr>en_index := snd (mi_upsert (en_index e) key m),
     en_total_garbage := en_total_garbage (index_written key m e)\<rparr>"
  by (cases e; cases "mi_lookup (en_index e) key") (simp_all add: index_written_def advance_file_def en_update_file_def Let_def)

lemma kv_entry_size_stored: "unat len \<le> kMaxStoredLen \<Longrightarrow> unat (kv_entry_size len) \<le> 65535 * 4096"
  using kv_entry_size_bounds(2,3) [of len] by (auto simp: kMaxStoredLen_def elim!: dvdE)

lemma files_ok_index: "files_ok (e\<lparr>en_index := idx, en_total_garbage := g\<rparr>) = files_ok e"
  by (simp add: files_ok_def get_active_file_def get_file_def)

text \<open>The index takes what was appended.\<close>

lemma kv_put_stored:
  assumes "kv_inv e" "f = en_files e ! i"
    and f: "i < length (en_files e)" "fi_blob_opened f" "file_state_readable (fi_state f)" "unat (fi_write_offset f) + unat sz \<le> 2 ^ 33"
    and "mi_allocate_sequence (en_index e) = (seq, idx)"
    and "submit_write ready status torn f (unat (fi_write_offset f)) img (en_disk e) = (0, d)"
    and img: "img = log_image (key, v, seq, False)" "length img = unat sz"
    and sz: "4096 dvd unat sz" "4096 \<le> unat sz" "unat sz \<le> 65535 * 4096"
    and "length v \<le> kMaxStoredLen" "index_takes idx key"
    and e': "e' = advance_file i sz (index_written key (written_entry key f (fi_write_offset f) sz seq)
           (e\<lparr>en_index := idx, en_disk := d\<rparr>))"
  shows "kv_inv e' \<and> kv_abs e' = (kv_abs e)(key \<mapsto> v)"
proof -
  define m where "m = written_entry key f (fi_write_offset f) sz seq"
  define e3 where "e3 = advance_file i sz (e\<lparr>en_index := idx, en_disk := d\<rparr>)"
  note e3 = entry_appended [OF assms(1) f(1) assms(2,7,8) img(2) sz(1) f(4) e3_def]
  have disk: "on_disk (en_files e3) (en_disk e3) m key v"
    using written_on_disk [OF _ f(1) assms(2) f(2,3) assms(14) f(4) _ sz, of key seq d] e3 img assms(1)
    by (simp add: kv_inv_def m_def del: log_image.simps)
  have seq: "mi_global_sequence idx = seq" using assms(7) by (auto simp: mi_allocate_sequence_def Let_def)
  have "mi_inv idx" using e3 by (auto simp: kv_inv_def)
  moreover have "me_key m = key" "me_tag m = kv_tag key" "\<not> me_deleted m" "me_sequence m = mi_global_sequence idx"
    by (simp_all add: m_def written_entry_def seq)
  ultimately have takes: "mi_inv (snd (mi_upsert idx key m))"
    "\<And>x. mi_lookup (snd (mi_upsert idx key m)) x = (if x = key then Some m else mi_lookup idx x)"
    using index_takes_lookup [OF _ assms(15), of m] by simp_all
  have e'': "e' = e3\<lparr>en_index := snd (mi_upsert idx key m), en_total_garbage := en_total_garbage e'\<rparr>"
    unfolding e' index_written_advance e3_def m_def by (simp add: index_written_advance)
  have "kv_inv e' \<and> kv_abs e' = (kv_abs e3)(key \<mapsto> v)"
  proof (rule kv_index_put [OF _ _ _ _ _ _ disk])
    show "files_ok e'" using e3 by (subst e'') (simp add: files_ok_index kv_inv_def)
    show "mi_inv (en_index e')" using takes(1) by (subst e'') simp
    show "mi_lookup (en_index e') x = (if x = key then Some m else mi_lookup (en_index e3) x)" for x
      using takes(2) e3 by (subst e'') simp
    show "en_files e' = en_files e3" "en_disk e' = en_disk e3" by (subst e'', simp)+
  qed (use e3 in simp)
  then show ?thesis using e3 by simp
qed

lemma kv_put_sim:
  assumes "kv_inv e" "env_ok env e" "kv_put env key (Some v) len e = (r, e')"
    and "unat len \<le> length v" "unat len \<le> kMaxStoredLen"
    and "r = KSuccess \<longrightarrow> index_takes (snd (mi_allocate_sequence (en_index e))) key"
  shows "kv_inv e' \<and> kv_abs e' = (if r = KSuccess then (kv_abs e)(key \<mapsto> take (unat len) v) else kv_abs e)"
proof (cases "en_state e \<noteq> EReady \<or> len = 0")
  case True
  then show ?thesis using assms(1,3) kv_put_rejected [OF True] by (simp split: if_splits)
next
  case False
  let ?sz = "kv_entry_size len" and ?v = "take (unat len) v"
  obtain q e1 where fw: "file_for_write env ?sz e = (q, e1)" by fastforce
  note e1 = file_for_write_spec [OF assms(1,2) fw kv_entry_size_stored [OF assms(5)]]
  show ?thesis
  proof (cases "q = None \<or> \<not> io_dma env")
    case True
    then show ?thesis using e1 False assms(3) kv_put_no_room [OF _ _ fw True] by (simp split: if_splits)
  next
    case dma: False
    then obtain i where i: "q = Some i" by auto
    define f where "f = en_files e1 ! i"
    have f: "i < length (en_files e1)" "fi_blob_opened f" "file_state_readable (fi_state f)"
      "unat (fi_write_offset f) + unat ?sz \<le> 2 ^ 33" using e1 i by (simp_all add: f_def)
    obtain seq idx where al: "mi_allocate_sequence (en_index e1) = (seq, idx)" by fastforce
    define img where "img = build_entry_inplace key (Some v) len seq False"
    obtain status d where w: "submit_write (io_ready env) (io_status env) (io_torn env) f
        (unat (fi_write_offset f)) img (en_disk e1) = (status, d)" by fastforce
    note run = kv_put_writes [OF _ _ fw [unfolded i] _ al f_def w [unfolded img_def]]
    show ?thesis
    proof (cases "status = 0")
      case bad: False
      then show ?thesis using run False dma assms(3) kv_append [OF _ f(1) al w [unfolded f_def]] e1 by auto
    next
      case ok: True
      have "value_len ?v = len" "length ?v = unat len" using assms(4) by simp_all
      then have img: "img = log_image (key, ?v, seq, False)" "length img = unat ?sz"
        using assms(4) length_kv_entry(2) [of ?v len] by (simp_all add: img_def build_entry_image)
      have e': "r = KSuccess" "e' = advance_file i ?sz (index_written key (written_entry key f (fi_write_offset f) ?sz seq)
           (e1\<lparr>en_index := idx, en_disk := d\<rparr>))"
        using run False dma ok assms(3) by simp_all
      have v: "length ?v \<le> kMaxStoredLen" and takes: "index_takes idx key" using assms(4-6) al e1 e'(1) by auto
      show ?thesis
        using kv_put_stored [OF _ f_def f al w [unfolded ok] img kv_entry_size_bounds(3,4) kv_entry_size_stored [OF assms(5)] v takes e'(2)]
          e1 e'(1) by simp
    qed
  qed
qed

text \<open>C1: A \<^verbatim>\<open>put\<close> that reports an error has changed nothing in the map. One that reports success has set the
  key to the value, and no other key has changed, provided the index takes the key
  (\<open>index_takes\<close>: the upsert of the entry neither drops it nor displaces another stored key, as it can, see
  \<open>KvIndexStore\<close>: a free slot is found for a new key, no slot on the path of a stored one gives way). Both
  hold for values whose entry has at most 65535 pages, of which the page count of 16 bits can tell, and in an engine in
  which a file can be allocated safely (\<open>env_ok\<close>: a new blob is none of the engine's, the next file id is
  below 1024, the allocation log is not near full). The invariant of the engine is kept.\<close>

theorem kv_put_refines:
  assumes "kv_inv e" "env_ok env e" "kv_put env key (Some v) len e = (r, e')"
    and "unat len \<le> length v" "unat len \<le> kMaxStoredLen"
    and "r = KSuccess \<longrightarrow> index_takes (snd (mi_allocate_sequence (en_index e))) key"
  shows "kv_inv e' \<and> kv_abs e' = (if r = KSuccess then (kv_abs e)(key \<mapsto> take (unat len) v) else kv_abs e)"
  by (rule kv_put_sim [OF assms])

lemma kv_del_no_room:
  assumes "en_state e = EReady" "mi_lookup (en_index e) key = Some old" "file_for_write env (kv_entry_size 0) e = (q, e1)"
    and "q = None \<or> \<not> io_dma env"
  shows "kv_del env key e = (if q = None then KNoSpace else KInternalError, e1)"
  using assms by (cases q) (simp_all add: kv_del_def)

lemma kv_del_writes:
  assumes "en_state e = EReady" "mi_lookup (en_index e) key = Some old" "file_for_write env (kv_entry_size 0) e = (Some i, e1)"
    and "io_dma env" "mi_allocate_sequence (en_index e1) = (seq, idx)" "f = en_files e1 ! i"
    and "submit_write (io_ready env) (io_status env) (io_torn env) f (unat (fi_write_offset f))
           (build_entry_inplace key None 0 seq True) (en_disk e1) = (status, d)"
  shows "kv_del env key e =
    (if status \<noteq> 0 then (KIoError, e1\<lparr>en_index := idx, en_disk := d\<rparr>)
     else (KSuccess, advance_file i (kv_entry_size 0)
            (e1\<lparr>en_disk := d, en_index := snd (mi_remove idx key), en_total_garbage := en_total_garbage e1 + page_bytes old\<rparr>)))"
  using assms by (simp add: kv_del_def Let_def)

lemma kv_del_stored:
  assumes "kv_inv e" "f = en_files e ! i" "i < length (en_files e)" "unat (fi_write_offset f) + unat sz \<le> 2 ^ 33"
    and "mi_allocate_sequence (en_index e) = (seq, idx)"
    and "submit_write ready status torn f (unat (fi_write_offset f)) img (en_disk e) = (0, d)"
    and "length img = unat sz" "4096 dvd unat sz"
    and e': "e' = advance_file i sz (e\<lparr>en_disk := d, en_index := snd (mi_remove idx key), en_total_garbage := g\<rparr>)"
  shows "kv_inv e' \<and> kv_abs e' = (kv_abs e)(key := None)"
proof -
  define e3 where "e3 = advance_file i sz (e\<lparr>en_index := idx, en_disk := d\<rparr>)"
  note e3 = entry_appended [OF assms(1,3,2,5-8,4) e3_def]
  have "e' = e3\<lparr>en_index := snd (mi_remove idx key), en_total_garbage := g\<rparr>"
    by (cases e) (simp add: e' e3_def advance_file_def en_update_file_def Let_def)
  moreover have inv: "mi_inv idx" using e3 by (auto simp: kv_inv_def)
  obtain b idx' where rm: "mi_remove idx key = (b, idx')" by fastforce
  ultimately have e'': "e' = e3\<lparr>en_index := idx', en_total_garbage := g\<rparr>" by simp
  have "kv_inv e' \<and> kv_abs e' = (kv_abs e3)(key := None)"
  proof (rule kv_index_del)
    show "files_ok e'" using e3 by (simp add: e'' files_ok_index kv_inv_def)
    show "mi_inv (en_index e')" using mix.del_content [OF inv rm] by (simp add: e'')
    show "mi_lookup (en_index e') x = (if x = key then None else mi_lookup (en_index e3) x)" for x
      using mix.lookup_del [OF inv rm] e3 by (simp add: e'')
  qed (use e3 e'' in simp_all)
  then show ?thesis using e3 by simp
qed

lemma kv_del_sim:
  assumes "kv_inv e" "env_ok env e" "kv_del env key e = (r, e')"
  shows "kv_inv e' \<and> kv_abs e' = (if r = KSuccess then (kv_abs e)(key := None) else kv_abs e)
    \<and> (en_state e = EReady \<longrightarrow> (r = KKeyNotFound \<longleftrightarrow> kv_abs e key = None))"
proof (cases rule: kv_abs_lookup [OF assms(1), of key])
  case 1
  then show ?thesis using assms(1,3) by (auto simp: kv_del_def split: if_splits)
next
  case (2 m v)
  let ?sz = "kv_entry_size 0"
  have small: "unat ?sz \<le> 65535 * 4096" by (rule kv_entry_size_stored) simp
  obtain q e1 where fw: "file_for_write env ?sz e = (q, e1)" by fastforce
  note e1 = file_for_write_spec [OF assms(1,2) fw small]
  show ?thesis
  proof (cases "en_state e = EReady")
    case False
    then show ?thesis using assms(1,3) by (auto simp: kv_del_def)
  next
    case ready: True
    show ?thesis
    proof (cases "q = None \<or> \<not> io_dma env")
      case True
      then show ?thesis using e1 ready assms(3) 2(3) kv_del_no_room [OF ready 2(1) fw True] by (simp split: if_splits)
    next
      case dma: False
      then obtain i where i: "q = Some i" by auto
      define f where "f = en_files e1 ! i"
      have f: "i < length (en_files e1)" "unat (fi_write_offset f) + unat ?sz \<le> 2 ^ 33" using e1 i by (simp_all add: f_def)
      obtain seq idx where al: "mi_allocate_sequence (en_index e1) = (seq, idx)" by fastforce
      obtain status d where w: "submit_write (io_ready env) (io_status env) (io_torn env) f
          (unat (fi_write_offset f)) (build_entry_inplace key None 0 seq True) (en_disk e1) = (status, d)" by fastforce
      note run = kv_del_writes [OF ready 2(1) fw [unfolded i] _ al f_def w]
      show ?thesis
      proof (cases "status = 0")
        case False
        then show ?thesis using run dma assms(3) kv_append [OF _ f(1) al w [unfolded f_def]] e1 2(3) by auto
      next
        case True
        have "length (build_entry_inplace key None 0 seq True) = unat ?sz"
          by (simp add: build_entry_tombstone_image length_kv_entry(2))
        note stored = kv_del_stored [OF _ f_def f al w [unfolded True] this kv_entry_size_bounds(3) refl]
        show ?thesis using stored run True dma assms(3) e1 2(3) by auto
      qed
    qed
  qed
qed

text \<open>C3: \<^verbatim>\<open>del\<close> that reports success has taken the key out of the map and left every other key alone;
  an error leaves the map as it was, and is \<^verbatim>\<open>kKeyNotFound\<close> for a key that was not there.\<close>

theorem kv_del_refines:
  assumes "kv_inv e" "env_ok env e" "kv_del env key e = (r, e')"
  shows "kv_inv e' \<and> kv_abs e' = (if r = KSuccess then (kv_abs e)(key := None) else kv_abs e)
    \<and> (en_state e = EReady \<longrightarrow> (r = KKeyNotFound \<longleftrightarrow> kv_abs e key = None))"
  by (rule kv_del_sim [OF assms])

section \<open>A concrete engine\<close>

definition demo_store :: kv_engine where
  "demo_store = \<lparr>en_state = EReady, en_index = mem_index_new 8 True,
     en_files = [\<lparr>fi_file_id = 0, fi_blob_id = 77, fi_state = FActive, fi_size = 4096, fi_write_offset = 4096, fi_blob_opened = True\<rparr>],
     en_active_file_id = 0, en_next_file_id = 1, en_data_file_size = 1048576, en_total_data = 0, en_total_garbage = 0,
     en_meta = Map.empty, en_superblock = sb_demo, en_alloc_log = None, en_disk = (\<lambda>_ _. 0)\<rparr>"

definition demo_io :: io_env where
  "demo_io = \<lparr>io_ready = True, io_dma = True, io_status = 0, io_torn = (\<lambda>_. 0), io_blob = Some 78, io_log_status = 0,
     io_opened = True, io_header_dma = True, io_header_status = 0, io_header_torn = (\<lambda>_. 0), io_log_time = 0,
     io_header_time = 0, io_checkpoint = (\<lambda>e. e)\<rparr>"

lemma demo_store_ok: "kv_inv demo_store" "env_ok demo_io demo_store" "kv_abs demo_store = Map.empty"
proof -
  have new: "mi_inv (mem_index_new 8 True)" "mi_content (mem_index_new 8 True) = Map.empty"
    using mem_index_new_inv [of 8] by (simp_all add: next_power_of_2_def)
  have none: "mi_lookup (mem_index_new 8 True) key = None" for key
    using new by (simp add: mi_lookup_content)
  show "kv_inv demo_store"
    using new(1) none by (simp add: kv_inv_def demo_store_def files_ok_def file_ok_def get_active_file_def get_file_def file_state_readable_def)
  show "env_ok demo_io demo_store" by (simp add: env_ok_def demo_io_def demo_store_def alloc_log_near_full_def)
  show "kv_abs demo_store = Map.empty" by (rule ext) (simp add: kv_abs_def demo_store_def none)
qed

lemma demo_takes: "index_takes (snd (mi_allocate_sequence (en_index demo_store))) 5"
proof -
  let ?idx = "(mem_index_new 8 True)\<lparr>mi_global_sequence := 1\<rparr>"
  have new: "mi_inv (mem_index_new 8 True)" "mi_content (mem_index_new 8 True) = Map.empty" "0 < mi_free (mem_index_new 8 True)"
    using mem_index_new_inv [of 8] by (simp_all add: next_power_of_2_def)
  have seq: "snd (mi_allocate_sequence (en_index demo_store)) = ?idx"
    by (simp add: demo_store_def mi_allocate_sequence_def Let_def mem_index_new_def)
  have "mi_content ?idx 5 = None" "0 < mi_free ?idx"
    using new by (simp_all add: mi_content_def mi_occupied_def mi_free_def)
  moreover have "fst (mi_upsert ?idx 5 m)" if "me_key m = 5" "me_sequence m = mi_global_sequence ?idx" for m
    using that by (simp add: ix_new mi_upsert_def mi_home_def mi_wrap_def ix_hash upsert_loop.simps ix_replicate me_is_empty_def me_zero_def ix_less)
  moreover have "(5 :: u64) \<noteq> 0" by simp
  ultimately show ?thesis unfolding seq index_takes_def by blast
qed

lemma demo_file_for_write: "file_for_write demo_io (kv_entry_size 3) demo_store = (Some 0, demo_store)"
  by (simp add: file_for_write_def demo_store_def get_active_file_def get_file_def kv_entry_size_def align_up_def kPageSize_def)

definition demo_kv :: kv_engine where
  "demo_kv = snd (kv_put demo_io 5 (Some [1, 2, 3]) 3 demo_store)"

lemma demo_put:
  obtains e' where "kv_put demo_io 5 (Some [1, 2, 3]) 3 demo_store = (KSuccess, e')" "e' = demo_kv"
    "kv_inv e'" "kv_abs e' = [5 \<mapsto> [1, 2, 3]]" "en_state e' = EReady" "env_ok demo_io e'"
    "file_for_write demo_io (kv_entry_size 0) e' = (Some 0, e')"
proof -
  let ?f = "en_files demo_store ! 0" and ?img = "build_entry_inplace 5 (Some [1, 2, 3]) 3 1 False"
  let ?idx = "snd (mi_allocate_sequence (en_index demo_store))"
  let ?d = "disk_write 77 4096 ?img (en_disk demo_store)"
  have al: "mi_allocate_sequence (en_index demo_store) = (1, ?idx)"
    by (simp add: demo_store_def mi_allocate_sequence_def Let_def mem_index_new_def)
  have w: "submit_write (io_ready demo_io) (io_status demo_io) (io_torn demo_io) ?f (unat (fi_write_offset ?f)) ?img (en_disk demo_store) = (0, ?d)"
    by (simp add: submit_write_def demo_io_def demo_store_def)
  define e' where "e' = advance_file 0 (kv_entry_size 3) (index_written 5 (written_entry 5 ?f (fi_write_offset ?f) (kv_entry_size 3) 1)
    (demo_store\<lparr>en_index := ?idx, en_disk := ?d\<rparr>))"
  have put: "kv_put demo_io 5 (Some [1, 2, 3]) 3 demo_store = (KSuccess, e')"
    using kv_put_writes [OF _ _ demo_file_for_write _ al refl w] by (simp add: e'_def demo_io_def) (simp add: demo_store_def)
  have img: "?img = log_image (5, [1, 2, 3], 1, False)" "length ?img = unat (kv_entry_size 3)"
    using build_entry_image [of 3 "[1, 2, 3]"] length_kv_entry(2) [of "[1, 2, 3]" 3] by simp_all
  have "kv_inv e' \<and> kv_abs e' = (kv_abs demo_store)(5 \<mapsto> [1, 2, 3])"
    by (rule kv_put_stored [OF demo_store_ok(1) refl _ _ _ _ al w img _ _ _ _ demo_takes e'_def])
      (simp_all add: demo_store_def file_state_readable_def kv_entry_size_def align_up_def kPageSize_def kMaxStoredLen_def)
  moreover have "en_state e' = EReady" "env_ok demo_io e'" "file_for_write demo_io (kv_entry_size 0) e' = (Some 0, e')"
    unfolding e'_def index_written_advance
    by (simp_all add: advance_file_def en_update_file_def Let_def demo_store_def demo_io_def env_ok_def alloc_log_near_full_def
        file_for_write_def get_active_file_def get_file_def kv_entry_size_def align_up_def kPageSize_def)
  ultimately show thesis using that [OF put] put demo_store_ok(3) by (simp add: demo_kv_def)
qed

theorem kv_put_refines_witness:
  "\<exists>e'. kv_put demo_io 5 (Some [1, 2, 3]) 3 demo_store = (KSuccess, e') \<and> kv_inv e' \<and> kv_abs e' = [5 \<mapsto> [1, 2, 3]]"
proof -
  obtain e' where put: "kv_put demo_io 5 (Some [1, 2, 3]) 3 demo_store = (KSuccess, e')" by (rule demo_put)
  show ?thesis
    using kv_put_refines [OF demo_store_ok(1,2) put] demo_takes put demo_store_ok(3) by (simp add: kMaxStoredLen_def)
qed

theorem kv_get_refines_witness:
  "kv_get demo_io 5 True 100 demo_kv = (KSuccess, Some [1, 2, 3], Some 3) \<and> kv_get demo_io 6 True 100 demo_kv = (KKeyNotFound, None, None)"
proof -
  have io: "io_ready demo_io" "io_dma demo_io" "io_status demo_io = 0" by (simp_all add: demo_io_def)
  obtain e' where e': "e' = demo_kv" "kv_inv e'" "kv_abs e' = [5 \<mapsto> [1, 2, 3]]" "en_state e' = EReady" by (rule demo_put)
  show ?thesis using kv_get_refines [OF e'(2,4) io, of 100] e'(3) by (simp add: e'(1))
qed

theorem kv_del_refines_witness:
  "fst (kv_del demo_io 6 demo_kv) = KKeyNotFound
   \<and> (\<exists>e'. kv_del demo_io 5 demo_kv = (KSuccess, e') \<and> kv_inv e' \<and> kv_abs e' = Map.empty)"
proof -
  obtain e where e: "e = demo_kv" "kv_inv e" "kv_abs e = [5 \<mapsto> [1, 2, 3]]" "en_state e = EReady" "env_ok demo_io e"
    "file_for_write demo_io (kv_entry_size 0) e = (Some 0, e)" by (rule demo_put)
  obtain seq idx where al: "mi_allocate_sequence (en_index e) = (seq, idx)" by fastforce
  obtain m where m: "mi_lookup (en_index e) 5 = Some m"
    by (rule kv_abs_lookup [OF e(2), of 5]) (simp_all add: e(3))
  have "fi_blob_opened (en_files e ! 0)"
    using file_for_write_spec [OF e(2,5,6)] kv_entry_size_stored [of 0] by simp
  then obtain d where w: "submit_write (io_ready demo_io) (io_status demo_io) (io_torn demo_io) (en_files e ! 0)
      (unat (fi_write_offset (en_files e ! 0))) (build_entry_inplace 5 None 0 seq True) (en_disk e) = (0, d)"
    by (simp add: submit_write_def demo_io_def)
  obtain e' where del: "kv_del demo_io 5 e = (KSuccess, e')"
    using kv_del_writes [OF e(4) m e(6) _ al refl w] by (simp add: demo_io_def)
  obtain r e'' where del6: "kv_del demo_io 6 e = (r, e'')" by fastforce
  show ?thesis
    using kv_del_refines [OF e(2,5) del] kv_del_refines [OF e(2,5) del6] del del6 e(1,3,4) by auto
qed

end
