(* ===== verification/KvAsync.thy ===== *)
theory KvAsync
  imports KvEngine
begin

text \<open>
  The asynchronous operations of \<^verbatim>\<open>src/engine.cpp\<close>: \<^verbatim>\<open>put_async\<close>, \<^verbatim>\<open>delete_async\<close> and \<^verbatim>\<open>get_async\<close>
  with their completions, the allocation of a file in the background and the queue of the writes that
  wait for it. Requests at the device complete in any order: a completion is an event, like a call of
  the client. A callback is identified by the argument the client hands over with it; what it is
  called with is recorded.
\<close>

section \<open>Requests\<close>

text \<open>The completion contexts: \<^verbatim>\<open>PutAsyncWriteCompletionCtx\<close>, \<^verbatim>\<open>QueuedWriteCompletionCtx\<close> and the
  closure of \<^verbatim>\<open>delete_async\<close> with the key, the garbage and the callback.\<close>

datatype write_ctx =
    PutCtx u64 mem_index_entry nat
  | QueuedCtx u64 mem_index_entry bool u64 nat
  | DelCtx u64 u64 nat

datatype flight =
    FlWrite u64 nat "byte list" write_ctx
  | FlRead u64 nat nat nat

record pending_write =
  pw_key :: u64
  pw_data :: "byte list"
  pw_is_segment :: bool
  pw_aligned_size :: u32
  pw_sequence :: u32
  pw_page_count :: u16
  pw_tag :: u8
  pw_cb :: nat
  pw_is_delete :: bool
  pw_old_garbage :: u64

text \<open>What a callback was called with: the error, and for a read the length and the bytes in the
  caller's buffers.\<close>

datatype reply = Done nat kv_error | Got nat kv_error u32 "byte list"

text \<open>\<open>ak_alloc\<close> is the file whose blob is being allocated, the pointer captured by the callback.\<close>

record async_kv =
  ak_engine :: kv_engine
  ak_allocating :: bool
  ak_checkpoint_for_alloc :: bool
  ak_alloc :: "nat option"
  ak_queue :: "pending_write list"
  ak_foreground :: u64
  ak_flights :: "flight list"
  ak_replies :: "reply list"

text \<open>What the surroundings answer during a call: the environment of the synchronous operations, and
  the status the checkpoint's callback is called with before \<^verbatim>\<open>start_checkpoint\<close> returns, if it is.\<close>

record async_env =
  ae_io :: io_env
  ae_checkpoint :: "int option"

definition ak_reply :: "reply \<Rightarrow> async_kv \<Rightarrow> async_kv" where
  "ak_reply r a = a\<lparr>ak_replies := ak_replies a @ [r]\<rparr>"

definition io_error :: "int \<Rightarrow> kv_error" where
  "io_error status = (if status = 0 then KSuccess else KIoError)"

section \<open>Completions\<close>

definition index_updated :: "u64 \<Rightarrow> mem_index_entry \<Rightarrow> async_kv \<Rightarrow> async_kv" where
  "index_updated key m a = a\<lparr>ak_engine := index_written key m (ak_engine a)\<rparr>"

definition index_removed :: "u64 \<Rightarrow> u64 \<Rightarrow> async_kv \<Rightarrow> async_kv" where
  "index_removed key old_size a =
     (let e = ak_engine a
      in a\<lparr>ak_engine := e\<lparr>en_index := snd (mi_remove (en_index e) key),
                            en_total_garbage := en_total_garbage e + old_size\<rparr>\<rparr>)"

definition on_put_async_write_complete :: "int \<Rightarrow> u64 \<Rightarrow> mem_index_entry \<Rightarrow> nat \<Rightarrow> async_kv \<Rightarrow> async_kv" where
  "on_put_async_write_complete status key m cb a =
     (let a = a\<lparr>ak_foreground := ak_foreground a - 1\<rparr>;
          a = (if status = 0 then index_updated key m a else a)
      in ak_reply (Done cb (io_error status)) a)"

definition on_queued_write_complete ::
    "int \<Rightarrow> u64 \<Rightarrow> mem_index_entry \<Rightarrow> bool \<Rightarrow> u64 \<Rightarrow> nat \<Rightarrow> async_kv \<Rightarrow> async_kv" where
  "on_queued_write_complete status key m is_delete old_garbage_size cb a =
     (let a = a\<lparr>ak_foreground := ak_foreground a - 1\<rparr>;
          a = (if status = 0
               then (if is_delete then index_removed key old_garbage_size a else index_updated key m a) else a)
      in ak_reply (Done cb (io_error status)) a)"

definition on_delete_complete :: "int \<Rightarrow> u64 \<Rightarrow> u64 \<Rightarrow> nat \<Rightarrow> async_kv \<Rightarrow> async_kv" where
  "on_delete_complete status key old_size cb a =
     (let a = a\<lparr>ak_foreground := ak_foreground a - 1\<rparr>;
          a = (if status = 0 then index_removed key old_size a else a)
      in ak_reply (Done cb (io_error status)) a)"

fun ak_complete :: "int \<Rightarrow> write_ctx \<Rightarrow> async_kv \<Rightarrow> async_kv" where
  "ak_complete status (PutCtx key m cb) a = on_put_async_write_complete status key m cb a"
| "ak_complete status (QueuedCtx key m d g cb) a = on_queued_write_complete status key m d g cb a"
| "ak_complete status (DelCtx key g cb) a = on_delete_complete status key g cb a"

text \<open>\<^verbatim>\<open>submit_blob_write\<close> and \<^verbatim>\<open>submit_blob_writev\<close>: a request that cannot be submitted completes at
  once with -1.\<close>

definition ak_submit_write :: "io_env \<Rightarrow> nat \<Rightarrow> nat \<Rightarrow> byte list \<Rightarrow> write_ctx \<Rightarrow> async_kv \<Rightarrow> async_kv" where
  "ak_submit_write env i off data ctx a =
     (let f = en_files (ak_engine a) ! i
      in if \<not> fi_blob_opened f \<or> \<not> io_ready env then ak_complete (-1) ctx a
         else a\<lparr>ak_flights := ak_flights a @ [FlWrite (fi_blob_id f) off data ctx]\<rparr>)"

section \<open>The queue of the writes that wait for a file\<close>

text \<open>The bytes of an index entry that the source leaves uninitialised are 0 here.\<close>

definition queued_entry :: "pending_write \<Rightarrow> file_info \<Rightarrow> mem_index_entry" where
  "queued_entry w f =
     \<lparr>me_key = pw_key w, me_file_id = ucast (fi_file_id f), me_offset_index = ucast (fi_write_offset f div kPageSize),
      me_deleted = pw_is_delete w, me_sequence = pw_sequence w, me_page_count = pw_page_count w,
      me_tag = pw_tag w, me_reserved = 0\<rparr>"

definition submit_queued_write :: "io_env \<Rightarrow> nat \<Rightarrow> pending_write \<Rightarrow> async_kv \<Rightarrow> async_kv" where
  "submit_queued_write env i w a =
     (let f = en_files (ak_engine a) ! i;
          m = queued_entry w f;
          write_offset = fi_write_offset f;
          a = a\<lparr>ak_engine := advance_file i (ucast (pw_aligned_size w)) (ak_engine a), ak_foreground := ak_foreground a + 1\<rparr>
      in ak_submit_write env i (unat write_offset) (pw_data w)
           (QueuedCtx (pw_key w) m (pw_is_delete w) (pw_old_garbage w) (pw_cb w)) a)"

definition fail_queue :: "kv_error \<Rightarrow> async_kv \<Rightarrow> async_kv" where
  "fail_queue err a = a\<lparr>ak_replies := ak_replies a @ map (\<lambda>w. Done (pw_cb w) err) (ak_queue a), ak_queue := []\<rparr>"

definition process_pending_write_queue :: "io_env \<Rightarrow> async_kv \<Rightarrow> async_kv" where
  "process_pending_write_queue env a =
     (case get_active_file (ak_engine a) of
        None \<Rightarrow> fail_queue KInternalError a
      | Some i \<Rightarrow>
          if \<not> fi_blob_opened (en_files (ak_engine a) ! i) then fail_queue KInternalError a
          else fold (submit_queued_write env i) (ak_queue a) (a\<lparr>ak_queue := []\<rparr>))"

section \<open>Allocating a file in the background\<close>

text \<open>The file that was allocated is taken to be the last one of the list.\<close>

definition on_new_file_allocated :: "io_env \<Rightarrow> bool \<Rightarrow> async_kv \<Rightarrow> async_kv" where
  "on_new_file_allocated env success a =
     (let a = a\<lparr>ak_allocating := False\<rparr>
      in if \<not> success then fail_queue KNoSpace (a\<lparr>ak_engine := pop_new_file (ak_engine a)\<rparr>)
         else (let f = last (en_files (ak_engine a));
                   e = init_file_metadata f (ak_engine a)
               in process_pending_write_queue env (a\<lparr>ak_engine := e\<lparr>en_active_file_id := fi_file_id f\<rparr>\<rparr>)))"

text \<open>The part of \<^verbatim>\<open>allocate_new_file_async\<close> after the log is known to have room. Without an
  initialised environment the callback is called at once.\<close>

definition start_file_allocation :: "io_env \<Rightarrow> async_kv \<Rightarrow> async_kv" where
  "start_file_allocation env a =
     (let a = a\<lparr>ak_engine := push_new_file (ak_engine a)\<rparr>
      in if \<not> io_ready env then on_new_file_allocated env False a
         else a\<lparr>ak_alloc := Some (length (en_files (ak_engine a)) - 1)\<rparr>)"

text \<open>\<^verbatim>\<open>resume_allocation_after_checkpoint\<close> runs inside the checkpoint's callback, while the checkpoint
  is not idle yet: a checkpoint that \<^verbatim>\<open>allocate_new_file_async\<close> starts there is refused with -1, which
  calls the same function again.\<close>

definition resume_failed :: "async_kv \<Rightarrow> async_kv" where
  "resume_failed a = fail_queue KInternalError (a\<lparr>ak_checkpoint_for_alloc := False, ak_allocating := False\<rparr>)"

definition resume_allocation_after_checkpoint :: "io_env \<Rightarrow> int \<Rightarrow> async_kv \<Rightarrow> async_kv" where
  "resume_allocation_after_checkpoint env status a =
     (if status \<noteq> 0 then resume_failed a
      else (let a = a\<lparr>ak_checkpoint_for_alloc := False, ak_allocating := True\<rparr>
            in if alloc_log_near_full (ak_engine a) then resume_failed a
               else start_file_allocation env a))"

definition allocate_new_file_async :: "async_env \<Rightarrow> async_kv \<Rightarrow> async_kv" where
  "allocate_new_file_async env a =
     (let a = a\<lparr>ak_allocating := True\<rparr>
      in if alloc_log_near_full (ak_engine a) \<and> \<not> ak_checkpoint_for_alloc a
         then (let a = a\<lparr>ak_checkpoint_for_alloc := True\<rparr>
               in case ae_checkpoint env of None \<Rightarrow> a
                  | Some status \<Rightarrow> resume_allocation_after_checkpoint (ae_io env) status a)
         else start_file_allocation (ae_io env) a)"

text \<open>\<^verbatim>\<open>on_superblock_update\<close>, with the result of \<^verbatim>\<open>write_superblock\<close>: the second half of a
  checkpoint, which is where the allocation log is reclaimed.\<close>

definition on_superblock_update ::
    "(superblock \<Rightarrow> kv_error \<times> superblock) \<Rightarrow> u64 \<Rightarrow> u32 \<Rightarrow> active_buffer_pos list \<Rightarrow> kv_engine \<Rightarrow> int \<times> kv_engine" where
  "on_superblock_update write checkpoint_sequence checkpoint_seq positions e =
     (let sb = (en_superblock e)\<lparr>sb_checkpoint_global_seq := checkpoint_seq,
                 sb_checkpoint_sequence := checkpoint_sequence + 1,
                 sb_active_mem_index_area := (if sb_active_mem_index_area (en_superblock e) = 0 then 1 else 0),
                 sb_active_file_id := en_active_file_id e,
                 sb_total_entries := mi_size (en_index e),
                 sb_total_data_bytes := en_total_data e,
                 sb_total_garbage_bytes := en_total_garbage e,
                 sb_active_buffer_positions := positions\<rparr>;
          sb = (case positions of [] \<Rightarrow> sb
                | p # _ \<Rightarrow> sb\<lparr>sb_checkpoint_file_id := ab_file_id p, sb_checkpoint_page_index := ab_page_index p\<rparr>);
          sb = fold (\<lambda>f. update_superblock_file_mapping (Some f)) (en_files e) sb;
          log = map_option lg_reclaim (en_alloc_log e);
          sb = (case log of None \<Rightarrow> sb
                | Some lg \<Rightarrow> sb\<lparr>sb_alloc_log_head := lg_head lg, sb_alloc_log_tail := lg_tail lg,
                                sb_alloc_log_sequence := lg_sequence lg\<rparr>)
      in case write sb of (err, sb) \<Rightarrow>
           (if err = KSuccess then 0 else -1, e\<lparr>en_superblock := sb, en_alloc_log := log\<rparr>))"

section \<open>put\_async\<close>

text \<open>The segments of a \<^verbatim>\<open>SegmentBuf\<close> are given by their contents. The metadata are written into
  bytes 256 to 287 of the first one, after its checksum has been taken over everything but 256 to 511.\<close>

definition segments_size :: "byte list list \<Rightarrow> u32" where
  "segments_size segs = foldl (\<lambda>n b. n + word_of_nat (length b)) 0 segs"

definition segments_crc :: "byte list list \<Rightarrow> u32" where
  "segments_crc segs =
     (let base = hd segs;
          crc = crc32_calculate (take 256 base);
          crc = (if length base > 512 then crc32_combine crc (drop 512 base) else crc)
      in foldl crc32_combine crc (tl segs))"

definition segment_metadata :: "u64 \<Rightarrow> u32 \<Rightarrow> u32 \<Rightarrow> u32 \<Rightarrow> byte list" where
  "segment_metadata key seq total_size crc =
     entry_header_bytes \<lparr>eh_magic = kEntryMagic, eh_version = 1, eh_flags = kFlagSegmentBuf, eh_reserved = 0,
       eh_sequence = seq, eh_padding = 0\<rparr> @ enc_u64 key @ enc_u32 total_size @ enc_u32 crc"

definition fill_metadata :: "u64 \<Rightarrow> u32 \<Rightarrow> byte list list \<Rightarrow> byte list list" where
  "fill_metadata key seq segs =
     put_bytes 256 (segment_metadata key seq (segments_size segs) (segments_crc segs)) (hd segs) # tl segs"

text \<open>\<^verbatim>\<open>fill_pending_write_req\<close>.\<close>

definition fill_pending_write_req ::
    "u64 \<Rightarrow> byte list \<Rightarrow> bool \<Rightarrow> u32 \<Rightarrow> u32 \<Rightarrow> u16 \<Rightarrow> nat \<Rightarrow> bool \<Rightarrow> u64 \<Rightarrow> pending_write" where
  "fill_pending_write_req key data is_segment aligned_size seq page_count cb is_delete old_garbage =
     \<lparr>pw_key = key, pw_data = data, pw_is_segment = is_segment, pw_aligned_size = aligned_size, pw_sequence = seq,
      pw_page_count = page_count, pw_tag = kv_tag key, pw_cb = cb, pw_is_delete = is_delete, pw_old_garbage = old_garbage\<rparr>"

definition need_new_file :: "u64 \<Rightarrow> kv_engine \<Rightarrow> bool" where
  "need_new_file sz e =
     (case get_active_file e of None \<Rightarrow> True
      | Some i \<Rightarrow> \<not> fi_blob_opened (en_files e ! i) \<or> fi_write_offset (en_files e ! i) + sz > en_data_file_size e)"

text \<open>The write goes to the queue; unless a file is being allocated, the active one is sealed and an
  allocation is started.\<close>

definition enqueue_write :: "async_env \<Rightarrow> pending_write \<Rightarrow> async_kv \<Rightarrow> async_kv" where
  "enqueue_write env w a =
     (let a = a\<lparr>ak_queue := ak_queue a @ [w]\<rparr>
      in if ak_allocating a then a
         else (let e = ak_engine a;
                   e = (case get_active_file e of None \<Rightarrow> e | Some i \<Rightarrow> en_update_file i (\<lambda>f. f\<lparr>fi_state := FSealed\<rparr>) e)
               in allocate_new_file_async env (a\<lparr>ak_engine := e\<rparr>)))"

definition put_async :: "async_env \<Rightarrow> u64 \<Rightarrow> byte list list \<Rightarrow> nat \<Rightarrow> async_kv \<Rightarrow> async_kv" where
  "put_async env key segs cb a =
     (if en_state (ak_engine a) \<noteq> EReady then ak_reply (Done cb KEngineNotReady) a
      else if segs = [] then ak_reply (Done cb KInvalidArgument) a
      else if length (hd segs) < 4096 then ak_reply (Done cb KInvalidArgument) a
      else (let total_size = segments_size segs;
                page_count = ucast (total_size div 4096);
                e = ak_engine a
            in case mi_allocate_sequence (en_index e) of (seq, idx) \<Rightarrow>
               (let segs = fill_metadata key seq segs;
                    data = take (unat total_size) (concat segs);
                    e = e\<lparr>en_index := idx\<rparr>;
                    a = a\<lparr>ak_engine := e\<rparr>
                in if need_new_file (ucast total_size) e \<or> ak_allocating a
                   then enqueue_write env
                          (fill_pending_write_req key data True total_size seq page_count cb False 0) a
                   else (case get_active_file e of
                           None \<Rightarrow> a
                         | Some i \<Rightarrow>
                             (let f = en_files e ! i; write_offset = fi_write_offset f;
                                  m = \<lparr>me_key = key, me_file_id = ucast (fi_file_id f),
                                       me_offset_index = ucast (write_offset div kPageSize), me_deleted = False,
                                       me_sequence = seq, me_page_count = page_count, me_tag = kv_tag key, me_reserved = 0\<rparr>;
                                  a = a\<lparr>ak_engine := advance_file i (ucast total_size) e, ak_foreground := ak_foreground a + 1\<rparr>
                              in ak_submit_write (ae_io env) i (unat write_offset) data (PutCtx key m cb) a)))))"

section \<open>delete\_async\<close>

definition delete_async :: "async_env \<Rightarrow> u64 \<Rightarrow> nat \<Rightarrow> async_kv \<Rightarrow> async_kv" where
  "delete_async env key cb a =
     (if en_state (ak_engine a) \<noteq> EReady then ak_reply (Done cb KEngineNotReady) a
      else (case mi_lookup (en_index (ak_engine a)) key of
         None \<Rightarrow> ak_reply (Done cb KKeyNotFound) a
       | Some old \<Rightarrow>
          (let e = ak_engine a; aligned_size = kv_entry_size 0; old_size = page_bytes old in
           if \<not> io_dma (ae_io env) then ak_reply (Done cb KInternalError) a
           else (case mi_allocate_sequence (en_index e) of (seq, idx) \<Rightarrow>
             (let data = build_entry_inplace key None 0 seq True;
                  e = e\<lparr>en_index := idx\<rparr>;
                  a = a\<lparr>ak_engine := e\<rparr>
              in if need_new_file aligned_size e \<or> ak_allocating a
                 then enqueue_write env
                        (fill_pending_write_req key data False (ucast aligned_size) seq (ucast (aligned_size div kPageSize))
                           cb True old_size) a
                 else (case get_active_file e of
                         None \<Rightarrow> a
                       | Some i \<Rightarrow>
                           (let write_offset = fi_write_offset (en_files e ! i);
                                a = a\<lparr>ak_engine := advance_file i aligned_size e, ak_foreground := ak_foreground a + 1\<rparr>
                            in ak_submit_write (ae_io env) i (unat write_offset) data (DelCtx key old_size cb) a)))))))"

section \<open>get\_async\<close>

text \<open>\<open>lens\<close> are the lengths of the caller's buffers, \<open>None\<close> the null pointer. What the first
  buffer holds before the read does not matter.\<close>

definition get_read_completion :: "int \<Rightarrow> byte list \<Rightarrow> kv_error \<times> u32" where
  "get_read_completion status data =
     (if status \<noteq> 0 then (KIoError, 0)
      else if \<not> eh_is_valid (entry_header_at data 256) then (KCorruption, 0)
      else (KSuccess, get_u32 data (256 + 16 + 8)))"

definition handle_get_read_completion :: "int \<Rightarrow> byte list \<Rightarrow> nat \<Rightarrow> async_kv \<Rightarrow> async_kv" where
  "handle_get_read_completion status data cb a =
     (let a = a\<lparr>ak_foreground := ak_foreground a - 1\<rparr>
      in case get_read_completion status data of (err, len) \<Rightarrow> ak_reply (Got cb err len data) a)"

definition ak_submit_read :: "io_env \<Rightarrow> nat \<Rightarrow> nat \<Rightarrow> nat \<Rightarrow> nat \<Rightarrow> async_kv \<Rightarrow> async_kv" where
  "ak_submit_read env i off n cb a =
     (let f = en_files (ak_engine a) ! i
      in if \<not> fi_blob_opened f \<or> \<not> io_ready env then handle_get_read_completion (-1) [] cb a
         else a\<lparr>ak_flights := ak_flights a @ [FlRead (fi_blob_id f) off n cb]\<rparr>)"

definition get_async :: "async_env \<Rightarrow> u64 \<Rightarrow> nat list option \<Rightarrow> nat \<Rightarrow> async_kv \<Rightarrow> async_kv" where
  "get_async env key lens cb a =
     (let e = ak_engine a in
      if en_state e \<noteq> EReady then ak_reply (Got cb KEngineNotReady 0 []) a
      else if lens = None \<or> lens = Some [] then ak_reply (Got cb KInvalidArgument 0 []) a
      else (case mi_lookup (en_index e) key of
         None \<Rightarrow> ak_reply (Got cb KKeyNotFound 0 []) a
       | Some m \<Rightarrow>
          if me_deleted m then ak_reply (Got cb KKeyNotFound 0 []) a
          else (case get_file e (ucast (me_file_id m)) of
             None \<Rightarrow> ak_reply (Got cb KIoError 0 []) a
           | Some i \<Rightarrow>
              (let f = en_files e ! i; read_size = 4096 * unat (me_page_count m) in
               if \<not> file_state_readable (fi_state f) \<or> \<not> fi_blob_opened f then ak_reply (Got cb KIoError 0 []) a
               else if foldl (+) 0 (the lens) < read_size
               then ak_reply (Got cb KInvalidArgument (word_of_nat read_size) []) a
               else ak_submit_read (ae_io env) i (4096 * unat (me_offset_index m)) read_size cb
                      (a\<lparr>ak_foreground := ak_foreground a + 1\<rparr>)))))"

section \<open>Steps\<close>

text \<open>\<open>EvIo n status torn\<close> completes the request \<open>n\<close> of those at the device: a write takes
  effect then, a failed one leaves \<open>torn\<close>; a read delivers what the blob holds. \<open>EvAllocated\<close> completes
  the allocation of a file. \<open>EvCheckpoint\<close> ends the checkpoint that an allocation waits for: it fails,
  or it has updated the superblock and reclaimed the log.\<close>

datatype ak_event =
    EvPut async_env u64 "byte list list" nat
  | EvDel async_env u64 nat
  | EvGet async_env u64 "nat list option" nat
  | EvIo nat int "nat \<Rightarrow> byte"
  | EvAllocated io_env
  | EvCheckpoint io_env "kv_engine \<Rightarrow> int \<times> kv_engine"

fun ak_io_done :: "flight \<Rightarrow> int \<Rightarrow> (nat \<Rightarrow> byte) \<Rightarrow> async_kv \<Rightarrow> async_kv" where
  "ak_io_done (FlWrite b off data ctx) status torn a =
     (let d = disk_write b off (if status = 0 then data else map torn [0..<length data]) (en_disk (ak_engine a))
      in ak_complete status ctx (a\<lparr>ak_engine := (ak_engine a)\<lparr>en_disk := d\<rparr>\<rparr>))"
| "ak_io_done (FlRead b off n cb) status torn a =
     handle_get_read_completion status
       (if status = 0 then disk_read (en_disk (ak_engine a)) b off n else map torn [0..<n]) cb a"

fun ak_step :: "ak_event \<Rightarrow> async_kv \<Rightarrow> async_kv" where
  "ak_step (EvPut env key segs cb) a = put_async env key segs cb a"
| "ak_step (EvDel env key cb) a = delete_async env key cb a"
| "ak_step (EvGet env key lens cb) a = get_async env key lens cb a"
| "ak_step (EvIo n status torn) a =
     (if n < length (ak_flights a)
      then ak_io_done (ak_flights a ! n) status torn
             (a\<lparr>ak_flights := take n (ak_flights a) @ drop (Suc n) (ak_flights a)\<rparr>)
      else a)"
| "ak_step (EvAllocated env) a =
     (case ak_alloc a of None \<Rightarrow> a
      | Some i \<Rightarrow> (case allocate_blob_for_file env i (ak_engine a) of
           (success, e) \<Rightarrow> on_new_file_allocated env success (a\<lparr>ak_engine := e, ak_alloc := None\<rparr>)))"
| "ak_step (EvCheckpoint env update) a =
     (if ak_checkpoint_for_alloc a
      then (case update (ak_engine a) of
              (status, e) \<Rightarrow> resume_allocation_after_checkpoint env status (a\<lparr>ak_engine := e\<rparr>))
      else a)"

definition ak_run :: "ak_event list \<Rightarrow> async_kv \<Rightarrow> async_kv" where
  "ak_run evs a = fold ak_step evs a"

definition ak_start :: "kv_engine \<Rightarrow> async_kv" where
  "ak_start e = \<lparr>ak_engine = e, ak_allocating = False, ak_checkpoint_for_alloc = False, ak_alloc = None,
     ak_queue = [], ak_foreground = 0, ak_flights = [], ak_replies = []\<rparr>"

end
