(* ===== verification/KvAsyncSpec.thy ===== *)
theory KvAsyncSpec
  imports KvAsync KvEngineSpec "HOL-Library.Multiset"
begin

text \<open>
  What the asynchronous operations guarantee under every interleaving of calls and completions, and
  what they do not.
\<close>

section \<open>Every request is answered once\<close>

fun ctx_id :: "write_ctx \<Rightarrow> nat" where
  "ctx_id (PutCtx key m cb) = cb"
| "ctx_id (QueuedCtx key m d g cb) = cb"
| "ctx_id (DelCtx key g cb) = cb"

fun flight_id :: "flight \<Rightarrow> nat" where
  "flight_id (FlWrite b off data ctx) = ctx_id ctx"
| "flight_id (FlRead b off n cb) = cb"

fun reply_id :: "reply \<Rightarrow> nat" where
  "reply_id (Done cb err) = cb"
| "reply_id (Got cb err len data) = cb"

fun event_ids :: "ak_event \<Rightarrow> nat list" where
  "event_ids (EvPut env key segs cb) = [cb]"
| "event_ids (EvDel env key cb) = [cb]"
| "event_ids (EvGet env key lens cb) = [cb]"
| "event_ids _ = []"

text \<open>The requests that were answered, are at the device or wait for a file.\<close>

definition ak_ids :: "async_kv \<Rightarrow> nat multiset" where
  "ak_ids a = mset (map reply_id (ak_replies a)) + mset (map flight_id (ak_flights a)) + mset (map pw_cb (ak_queue a))"

definition ak_slack :: "async_kv \<Rightarrow> u64" where
  "ak_slack a = ak_foreground a - word_of_nat (length (ak_flights a))"

definition ak_answers :: "nat list \<Rightarrow> async_kv \<Rightarrow> async_kv \<Rightarrow> bool" where
  "ak_answers cbs a a' \<longleftrightarrow> ak_ids a' = ak_ids a + mset cbs \<and> ak_slack a' = ak_slack a"

text \<open>Writes wait only while a file is being allocated, and an allocation waits either for the blob or
  for a checkpoint.\<close>

definition ak_flow :: "async_kv \<Rightarrow> bool" where
  "ak_flow a \<longleftrightarrow> (ak_queue a = [] \<or> ak_allocating a)
     \<and> (ak_allocating a \<longleftrightarrow> ak_alloc a \<noteq> None \<or> ak_checkpoint_for_alloc a) \<and> (ak_alloc a = None \<or> \<not> ak_checkpoint_for_alloc a)"

definition ak_same_flow :: "async_kv \<Rightarrow> async_kv \<Rightarrow> bool" where
  "ak_same_flow a a' \<longleftrightarrow> ak_queue a' = ak_queue a \<and> ak_allocating a' = ak_allocating a \<and> ak_alloc a' = ak_alloc a
     \<and> ak_checkpoint_for_alloc a' = ak_checkpoint_for_alloc a"

lemma same_flow_refl: "ak_same_flow a a"
  by (simp add: ak_same_flow_def)

lemma same_flow_trans: "ak_same_flow a b \<Longrightarrow> ak_same_flow b c \<Longrightarrow> ak_same_flow a c"
  by (simp add: ak_same_flow_def)

lemma ak_flow_same: "ak_same_flow a a' \<Longrightarrow> ak_flow a' = ak_flow a"
  by (simp add: ak_same_flow_def ak_flow_def)

lemma answers_trans: "ak_answers xs a b \<Longrightarrow> ak_answers ys b c \<Longrightarrow> ak_answers (xs @ ys) a c"
  by (simp add: ak_answers_def add.assoc)

lemmas ak_plain = ak_answers_def ak_ids_def ak_slack_def ak_same_flow_def ak_reply_def Let_def

lemma complete_fields:
  "ak_foreground (ak_complete status ctx a) = ak_foreground a - 1"
  "ak_flights (ak_complete status ctx a) = ak_flights a"
  "ak_replies (ak_complete status ctx a) = ak_replies a @ [Done (ctx_id ctx) (io_error status)]"
  "ak_same_flow a (ak_complete status ctx a)"
  by (cases ctx; simp add: on_put_async_write_complete_def on_queued_write_complete_def on_delete_complete_def
      index_updated_def index_removed_def ak_reply_def Let_def ak_same_flow_def)+

lemma complete_answers:
  "ak_ids (ak_complete status ctx a) = ak_ids a + {#ctx_id ctx#}" "ak_slack (ak_complete status ctx a) = ak_slack a - 1"
  using complete_fields [where status = status and ctx = ctx and a = a] by (simp_all add: ak_ids_def ak_slack_def ak_same_flow_def)

lemma submit_write_answers:
  assumes "a' = ak_submit_write env i off data ctx (a\<lparr>ak_engine := e, ak_foreground := ak_foreground a + 1\<rparr>)"
  shows "ak_answers [ctx_id ctx] a a' \<and> ak_same_flow a a'"
proof (cases "fi_blob_opened (en_files e ! i) \<and> io_ready env")
  case True
  then have "a' = a\<lparr>ak_engine := e, ak_foreground := ak_foreground a + 1,
      ak_flights := ak_flights a @ [FlWrite (fi_blob_id (en_files e ! i)) off data ctx]\<rparr>"
    using assms by (simp add: ak_submit_write_def)
  then show ?thesis by (simp add: ak_plain)
next
  case False
  then have a': "a' = ak_complete (-1) ctx (a\<lparr>ak_engine := e, ak_foreground := ak_foreground a + 1\<rparr>)"
    using assms by (auto simp: ak_submit_write_def)
  show ?thesis
    unfolding a' ak_answers_def complete_answers
    using complete_fields(4) [where a = "a\<lparr>ak_engine := e, ak_foreground := ak_foreground a + 1\<rparr>"]
    by (simp add: ak_ids_def ak_slack_def ak_same_flow_def)
qed

lemma queued_write_answers:
  "ak_answers [pw_cb w] a (submit_queued_write env i w a) \<and> ak_same_flow a (submit_queued_write env i w a)"
  using submit_write_answers [OF refl, where a = a and ctx = "QueuedCtx (pw_key w) (queued_entry w (en_files (ak_engine a) ! i))
      (pw_is_delete w) (pw_old_garbage w) (pw_cb w)"]
  by (simp add: submit_queued_write_def Let_def)

lemma queue_answers:
  "ak_answers (map pw_cb ws) a (fold (submit_queued_write env i) ws a) \<and> ak_same_flow a (fold (submit_queued_write env i) ws a)"
proof (induction ws arbitrary: a)
  case Nil
  then show ?case by (simp add: ak_plain)
next
  case (Cons w ws)
  show ?case
    using queued_write_answers [where w = w and a = a and env = env and i = i] Cons [of "submit_queued_write env i w a"]
      answers_trans [of "[pw_cb w]" a "submit_queued_write env i w a"] same_flow_trans by auto
qed

lemma fail_queue_answers:
  "ak_answers [] a (fail_queue err a)" "ak_queue (fail_queue err a) = []"
  "ak_allocating (fail_queue err a) = ak_allocating a" "ak_alloc (fail_queue err a) = ak_alloc a"
  "ak_checkpoint_for_alloc (fail_queue err a) = ak_checkpoint_for_alloc a"
  by (simp_all add: fail_queue_def ak_plain comp_def)

lemma process_queue_answers:
  assumes "a' = process_pending_write_queue env a"
  shows "ak_answers [] a a' \<and> ak_queue a' = [] \<and> ak_allocating a' = ak_allocating a \<and> ak_alloc a' = ak_alloc a
    \<and> ak_checkpoint_for_alloc a' = ak_checkpoint_for_alloc a"
proof (cases "\<exists>i. get_active_file (ak_engine a) = Some i \<and> fi_blob_opened (en_files (ak_engine a) ! i)")
  case True
  then obtain i where a': "a' = fold (submit_queued_write env i) (ak_queue a) (a\<lparr>ak_queue := []\<rparr>)"
    using assms by (auto simp: process_pending_write_queue_def)
  have "ak_answers [] a a' = ak_answers (map pw_cb (ak_queue a)) (a\<lparr>ak_queue := []\<rparr>) a'"
    by (simp add: ak_answers_def ak_ids_def ak_slack_def)
  then show ?thesis
    using queue_answers [where ws = "ak_queue a" and a = "a\<lparr>ak_queue := []\<rparr>" and env = env and i = i] by (simp add: a' ak_same_flow_def)
next
  case False
  then have "a' = fail_queue KInternalError a"
    using assms by (auto simp: process_pending_write_queue_def split: option.splits)
  then show ?thesis using fail_queue_answers [where a = a and err = KInternalError] by simp
qed

text \<open>The end of an allocation, and its start: afterwards the queue is empty, or an allocation or a
  checkpoint is under way.\<close>

lemma new_file_answers:
  assumes "a' = on_new_file_allocated env success a" "ak_alloc a = None" "\<not> ak_checkpoint_for_alloc a"
  shows "ak_answers [] a a' \<and> ak_flow a'"
proof -
  have same: "ak_answers [] (a\<lparr>ak_engine := e, ak_allocating := b\<rparr>) x = ak_answers [] a x"
    "ak_answers [] (a\<lparr>ak_allocating := b, ak_engine := e\<rparr>) x = ak_answers [] a x" for e b x
    by (simp_all add: ak_answers_def ak_ids_def ak_slack_def)
  show ?thesis
  proof (cases success)
    case True
    obtain e where a': "a' = process_pending_write_queue env (a\<lparr>ak_allocating := False, ak_engine := e\<rparr>)"
      using assms(1) True by (simp add: on_new_file_allocated_def Let_def)
    show ?thesis using process_queue_answers [OF a'] assms(2,3) by (simp add: same ak_flow_def)
  next
    case False
    then obtain e where a': "a' = fail_queue KNoSpace (a\<lparr>ak_allocating := False, ak_engine := e\<rparr>)"
      using assms(1) by (simp add: on_new_file_allocated_def Let_def)
    show ?thesis
      using fail_queue_answers [where err = KNoSpace and a = "a\<lparr>ak_allocating := False, ak_engine := e\<rparr>"] assms(2,3)
      by (simp add: a' same ak_flow_def)
  qed
qed

lemma start_allocation_answers:
  assumes "a' = start_file_allocation env a" "ak_alloc a = None" "\<not> ak_checkpoint_for_alloc a" "ak_allocating a"
  shows "ak_answers [] a a' \<and> ak_flow a'"
proof (cases "io_ready env")
  case True
  then show ?thesis using assms by (simp add: start_file_allocation_def Let_def ak_flow_def ak_plain)
next
  case False
  have "ak_answers [] (a\<lparr>ak_engine := e\<rparr>) x = ak_answers [] a x" for e x
    by (simp add: ak_answers_def ak_ids_def ak_slack_def)
  then show ?thesis
    using new_file_answers [where env = env and success = False and a = "a\<lparr>ak_engine := push_new_file (ak_engine a)\<rparr>"]
      assms False by (simp add: start_file_allocation_def Let_def)
qed

lemma resume_answers:
  assumes "a' = resume_allocation_after_checkpoint env status a" "ak_alloc a = None"
  shows "ak_answers [] a a' \<and> ak_flow a'"
proof -
  have same: "ak_answers [] (a\<lparr>ak_checkpoint_for_alloc := b, ak_allocating := c\<rparr>) x = ak_answers [] a x" for b c x
    by (simp add: ak_answers_def ak_ids_def ak_slack_def)
  have failed: "ak_answers [] x (resume_failed x) \<and> ak_flow (resume_failed x)" if "ak_alloc x = None" for x
    using fail_queue_answers [where err = KInternalError and a = "x\<lparr>ak_checkpoint_for_alloc := False, ak_allocating := False\<rparr>"] that
    by (simp add: resume_failed_def ak_flow_def) (simp add: ak_plain)
  show ?thesis
  proof (cases "status = 0 \<and> \<not> alloc_log_near_full (ak_engine a)")
    case True
    then show ?thesis
      using start_allocation_answers [where env = env and a = "a\<lparr>ak_checkpoint_for_alloc := False, ak_allocating := True\<rparr>"]
        assms by (simp add: resume_allocation_after_checkpoint_def Let_def same)
  next
    case False
    then show ?thesis
      using failed [of a] failed [of "a\<lparr>ak_checkpoint_for_alloc := False, ak_allocating := True\<rparr>"] assms
      by (auto simp: resume_allocation_after_checkpoint_def Let_def same)
  qed
qed

lemma allocate_async_answers:
  assumes "a' = allocate_new_file_async env a" "ak_alloc a = None" "\<not> ak_checkpoint_for_alloc a"
  shows "ak_answers [] a a' \<and> ak_flow a'"
proof -
  have same: "ak_answers [] (a\<lparr>ak_allocating := c\<rparr>) x = ak_answers [] a x"
    "ak_answers [] (a\<lparr>ak_allocating := c, ak_checkpoint_for_alloc := b\<rparr>) x = ak_answers [] a x" for b c x
    by (simp_all add: ak_answers_def ak_ids_def ak_slack_def)
  have wait: "ak_answers [] a (a\<lparr>ak_allocating := True, ak_checkpoint_for_alloc := True\<rparr>)"
    by (simp add: ak_answers_def ak_ids_def ak_slack_def)
  show ?thesis
    using assms start_allocation_answers [where env = "ae_io env" and a = "a\<lparr>ak_allocating := True\<rparr>"] wait
      resume_answers [OF refl, of "a\<lparr>ak_allocating := True, ak_checkpoint_for_alloc := True\<rparr>" "ae_io env"]
    by (auto simp: allocate_new_file_async_def Let_def same ak_flow_def split: option.splits)
qed

lemma enqueue_answers:
  assumes "a' = enqueue_write env w a" "ak_flow a"
  shows "ak_answers [pw_cb w] a a' \<and> ak_flow a'"
proof (cases "ak_allocating a")
  case True
  then show ?thesis using assms by (simp add: enqueue_write_def Let_def ak_flow_def ak_plain)
next
  case False
  define e where "e = (case get_active_file (ak_engine a) of None \<Rightarrow> ak_engine a
    | Some i \<Rightarrow> en_update_file i (\<lambda>f. f\<lparr>fi_state := FSealed\<rparr>) (ak_engine a))"
  let ?b = "a\<lparr>ak_queue := ak_queue a @ [w], ak_engine := e\<rparr>"
  have "a' = allocate_new_file_async env ?b"
    using assms(1) False by (simp add: enqueue_write_def Let_def e_def)
  moreover have "ak_alloc ?b = None" "\<not> ak_checkpoint_for_alloc ?b" using assms(2) False by (auto simp: ak_flow_def)
  moreover have "ak_answers [pw_cb w] a ?b" by (simp add: ak_plain)
  ultimately show ?thesis
    using allocate_async_answers [of a' env ?b] answers_trans [of "[pw_cb w]" a ?b "[]" a'] by simp
qed

lemma reply_answers: "ak_flow a \<Longrightarrow> ak_answers [reply_id r] a (ak_reply r a) \<and> ak_flow (ak_reply r a)"
  by (auto simp: ak_plain ak_flow_def)

lemma answers_engine: "ak_answers xs (a\<lparr>ak_engine := e\<rparr>) b = ak_answers xs a b"
  by (simp add: ak_answers_def ak_ids_def ak_slack_def)

lemma flow_engine: "ak_flow (a\<lparr>ak_engine := e\<rparr>) = ak_flow a"
  by (simp add: ak_flow_def)

lemma submit_answers:
  assumes "ak_flow a"
  shows "ak_answers [ctx_id ctx] a (ak_submit_write env i off data ctx (a\<lparr>ak_engine := e, ak_foreground := ak_foreground a + 1\<rparr>))
    \<and> ak_flow (ak_submit_write env i off data ctx (a\<lparr>ak_engine := e, ak_foreground := ak_foreground a + 1\<rparr>))"
  using submit_write_answers [OF refl] ak_flow_same assms by metis

lemma need_new_file_active: "\<not> need_new_file sz e \<Longrightarrow> \<exists>i. get_active_file e = Some i"
  by (simp add: need_new_file_def split: option.splits)

lemma fill_pending_cb: "pw_cb (fill_pending_write_req key data seg sz seq n cb d g) = cb"
  by (simp add: fill_pending_write_req_def)

lemma put_async_answers:
  assumes "ak_flow a"
  shows "ak_answers [cb] a (put_async env key segs cb a) \<and> ak_flow (put_async env key segs cb a)"
proof (cases "en_state (ak_engine a) = EReady \<and> segs \<noteq> [] \<and> 4096 \<le> length (hd segs)")
  case False
  then show ?thesis
    using reply_answers [OF assms, of "Done cb KEngineNotReady"] reply_answers [OF assms, of "Done cb KInvalidArgument"]
    by (auto simp: put_async_def)
next
  case True
  obtain seq idx where al: "mi_allocate_sequence (en_index (ak_engine a)) = (seq, idx)" by fastforce
  let ?e = "(ak_engine a)\<lparr>en_index := idx\<rparr>" and ?sz = "ucast (segments_size segs) :: u64"
  show ?thesis
  proof (cases "need_new_file ?sz ?e \<or> ak_allocating a")
    case queue: True
    have "put_async env key segs cb a = enqueue_write env (fill_pending_write_req key
        (take (unat (segments_size segs)) (concat (fill_metadata key seq segs))) True (segments_size segs) seq
        (ucast (segments_size segs div 4096)) cb False 0) (a\<lparr>ak_engine := ?e\<rparr>)"
      using True queue al by (simp add: put_async_def Let_def)
    moreover note enqueue_answers [OF refl, where a = "a\<lparr>ak_engine := ?e\<rparr>", unfolded flow_engine answers_engine, OF assms]
    ultimately show ?thesis by (metis fill_pending_cb)
  next
    case False
    then obtain i where i: "get_active_file ?e = Some i" using need_new_file_active by blast
    have "\<exists>off data m. put_async env key segs cb a = ak_submit_write (ae_io env) i off data (PutCtx key m cb)
        (a\<lparr>ak_engine := advance_file i ?sz ?e, ak_foreground := ak_foreground a + 1\<rparr>)"
      using True False al i by (auto simp: put_async_def Let_def)
    then show ?thesis using submit_answers [OF assms] by (metis ctx_id.simps(1))
  qed
qed

lemma delete_async_answers:
  assumes "ak_flow a"
  shows "ak_answers [cb] a (delete_async env key cb a) \<and> ak_flow (delete_async env key cb a)"
proof (cases "en_state (ak_engine a) = EReady \<and> mi_lookup (en_index (ak_engine a)) key \<noteq> None \<and> io_dma (ae_io env)")
  case False
  then show ?thesis
    using reply_answers [OF assms, of "Done cb KEngineNotReady"] reply_answers [OF assms, of "Done cb KKeyNotFound"]
      reply_answers [OF assms, of "Done cb KInternalError"]
    by (auto simp: delete_async_def Let_def split: option.splits)
next
  case True
  then obtain old where old: "mi_lookup (en_index (ak_engine a)) key = Some old" by blast
  obtain seq idx where al: "mi_allocate_sequence (en_index (ak_engine a)) = (seq, idx)" by fastforce
  let ?e = "(ak_engine a)\<lparr>en_index := idx\<rparr>" and ?sz = "kv_entry_size 0"
  show ?thesis
  proof (cases "need_new_file ?sz ?e \<or> ak_allocating a")
    case queue: True
    have "delete_async env key cb a = enqueue_write env (fill_pending_write_req key (build_entry_inplace key None 0 seq True) False
        (ucast ?sz) seq (ucast (?sz div kPageSize)) cb True (page_bytes old)) (a\<lparr>ak_engine := ?e\<rparr>)"
      using True queue al old by (simp add: delete_async_def Let_def)
    moreover note enqueue_answers [OF refl, where a = "a\<lparr>ak_engine := ?e\<rparr>", unfolded flow_engine answers_engine, OF assms]
    ultimately show ?thesis by (metis fill_pending_cb)
  next
    case False
    then obtain i where i: "get_active_file ?e = Some i" using need_new_file_active by blast
    have "\<exists>off data. delete_async env key cb a = ak_submit_write (ae_io env) i off data (DelCtx key (page_bytes old) cb)
        (a\<lparr>ak_engine := advance_file i ?sz ?e, ak_foreground := ak_foreground a + 1\<rparr>)"
      using True False al i old by (auto simp: delete_async_def Let_def)
    then show ?thesis using submit_answers [OF assms] by (metis ctx_id.simps(3))
  qed
qed

lemma get_async_answers:
  assumes "ak_flow a"
  shows "ak_answers [cb] a (get_async env key lens cb a) \<and> ak_flow (get_async env key lens cb a)"
proof -
  have "ak_answers [cb] a (ak_submit_read io i off n cb (a\<lparr>ak_foreground := ak_foreground a + 1\<rparr>))
    \<and> ak_flow (ak_submit_read io i off n cb (a\<lparr>ak_foreground := ak_foreground a + 1\<rparr>))" for io i off n
    using assms by (auto simp: ak_submit_read_def handle_get_read_completion_def ak_plain ak_flow_def split: prod.splits)
  then show ?thesis
    using reply_answers [OF assms, of "Got cb err len data" for err len data]
    unfolding get_async_def Let_def by (auto split: option.splits)
qed

lemma io_done_answers:
  assumes "ak_flow a" "n < length (ak_flights a)"
  shows "ak_answers [] a (ak_step (EvIo n status torn) a) \<and> ak_flow (ak_step (EvIo n status torn) a)"
proof -
  let ?fl = "ak_flights a" and ?b = "a\<lparr>ak_flights := take n (ak_flights a) @ drop (Suc n) (ak_flights a)\<rparr>"
  have "mset (map flight_id ?fl) = mset (map flight_id (take n ?fl @ ?fl ! n # drop (Suc n) ?fl))"
    using id_take_nth_drop [OF assms(2)] by simp
  then have b: "ak_ids a = ak_ids ?b + {#flight_id (?fl ! n)#}" "ak_slack ?b = ak_slack a + 1"
    using assms(2) by (auto simp: ak_ids_def ak_slack_def of_nat_diff)
  have e: "ak_ids (?b\<lparr>ak_engine := e\<rparr>) = ak_ids ?b" "ak_slack (?b\<lparr>ak_engine := e\<rparr>) = ak_slack ?b"
    "ak_flow (?b\<lparr>ak_engine := e\<rparr>)" for e
    using assms(1) by (auto simp: ak_ids_def ak_slack_def ak_flow_def)
  show ?thesis
  proof (cases "?fl ! n")
    case (FlWrite blob off data ctx)
    obtain e where step: "ak_step (EvIo n status torn) a = ak_complete status ctx (?b\<lparr>ak_engine := e\<rparr>)"
      using assms(2) FlWrite by (simp add: Let_def)
    show ?thesis
      using b e [of e] FlWrite complete_answers [where a = "?b\<lparr>ak_engine := e\<rparr>"]
        ak_flow_same [OF complete_fields(4), of status ctx "?b\<lparr>ak_engine := e\<rparr>"]
      unfolding step ak_answers_def by simp
  next
    case (FlRead blob off k cb)
    then show ?thesis using assms b
      by (auto simp: handle_get_read_completion_def ak_answers_def ak_ids_def ak_slack_def ak_flow_def ak_reply_def Let_def
          split: prod.splits)
  qed
qed

lemma step_answers:
  assumes "ak_flow a"
  shows "ak_answers (event_ids ev) a (ak_step ev a) \<and> ak_flow (ak_step ev a)"
proof (cases ev)
  case (EvPut env key segs cb)
  then show ?thesis using put_async_answers [OF assms] by simp
next
  case (EvDel env key cb)
  then show ?thesis using delete_async_answers [OF assms] by simp
next
  case (EvGet env key lens cb)
  then show ?thesis using get_async_answers [OF assms] by simp
next
  case (EvIo n status torn)
  then show ?thesis using io_done_answers [OF assms] assms by (cases "n < length (ak_flights a)") (simp_all add: ak_answers_def)
next
  case (EvAllocated env)
  show ?thesis
  proof (cases "ak_alloc a")
    case None
    then show ?thesis using EvAllocated assms by (simp add: ak_answers_def)
  next
    case (Some i)
    have "ak_answers [] (a\<lparr>ak_engine := e, ak_alloc := x\<rparr>) b = ak_answers [] a b" for e x b
      by (simp add: ak_answers_def ak_ids_def ak_slack_def)
    moreover have "\<not> ak_checkpoint_for_alloc a" using assms Some by (auto simp: ak_flow_def)
    ultimately show ?thesis
      using EvAllocated Some new_file_answers [OF refl, where a = "a\<lparr>ak_engine := e, ak_alloc := None\<rparr>" for e]
      by (simp split: prod.splits)
  qed
next
  case (EvCheckpoint env update)
  show ?thesis
  proof (cases "ak_checkpoint_for_alloc a")
    case True
    then have "ak_alloc a = None" using assms by (auto simp: ak_flow_def)
    then show ?thesis
      using EvCheckpoint True resume_answers [OF refl, where a = "a\<lparr>ak_engine := e\<rparr>" for e]
      by (simp add: answers_engine split: prod.splits)
  next
    case False
    then show ?thesis using EvCheckpoint assms by (simp add: ak_answers_def)
  qed
qed

lemma run_answers:
  "ak_flow a \<Longrightarrow> ak_answers (concat (map event_ids evs)) a (ak_run evs a) \<and> ak_flow (ak_run evs a)"
proof (induction evs arbitrary: a)
  case Nil
  then show ?case by (simp add: ak_run_def ak_answers_def)
next
  case (Cons ev evs)
  then show ?case using step_answers [OF Cons.prems, of ev] answers_trans by (fastforce simp: ak_run_def)
qed

text \<open>C8: No request is lost and none is answered twice, whatever the order of calls and completions: those
  that were made are those answered, at the device or waiting for a file; the count of pending
  requests is the number at the device. Writes wait only while an allocation is under way.\<close>

theorem async_answers_once:
  "let a = ak_run evs (ak_start e) in
     mset (map reply_id (ak_replies a)) + mset (map flight_id (ak_flights a)) + mset (map pw_cb (ak_queue a))
       = mset (concat (map event_ids evs))
     \<and> ak_foreground a = word_of_nat (length (ak_flights a)) \<and> (ak_queue a = [] \<or> ak_allocating a)"
proof -
  have flow: "ak_flow (ak_start e)" by (simp add: ak_flow_def ak_start_def)
  have "ak_ids (ak_start e) = {#}" "ak_slack (ak_start e) = 0" by (simp_all add: ak_ids_def ak_slack_def ak_start_def)
  then show ?thesis using run_answers [OF flow, of evs] by (auto simp: Let_def ak_answers_def ak_ids_def ak_slack_def ak_flow_def)
qed

end
