(* ===== verification/KvAsyncOps.thy ===== *)
theory KvAsyncOps
  imports KvAsyncSpec KvCheckpoint
begin

text \<open>
  The life of asynchronous requests: a \<^verbatim>\<open>put_async\<close> and the \<^verbatim>\<open>get_async\<close> that reads it back, the order in
  which completions take effect, writes that wait for a file, and the two formats of an entry.
\<close>

section \<open>Segments\<close>

definition segs_ok :: "byte list list \<Rightarrow> bool" where
  "segs_ok segs \<longleftrightarrow> segs \<noteq> [] \<and> (\<forall>s \<in> set segs. 4096 dvd length s \<and> 4096 \<le> length s) \<and> length (concat segs) \<le> 65535 * 4096"

lemma segments_size_sum:
  "foldl (\<lambda>n b. n + word_of_nat (length b)) (word_of_nat k :: u32) segs = word_of_nat (k + length (concat segs))"
proof (induction segs arbitrary: k)
  case (Cons s segs)
  show ?case using Cons [of "k + length s"] by (simp add: add.assoc)
qed simp

lemma segments_size_eq:
  assumes "segs_ok segs"
  shows "unat (segments_size segs) = length (concat segs)" "4096 dvd unat (segments_size segs)"
    "4096 \<le> unat (segments_size segs)" "unat (segments_size segs) \<le> 65535 * 4096"
proof -
  have "segments_size segs = word_of_nat (length (concat segs))"
    using segments_size_sum [of 0 segs] by (simp add: segments_size_def)
  then show sz: "unat (segments_size segs) = length (concat segs)"
    using assms unat_of_nat_small [where 'a = 32, of "length (concat segs)"] by (simp add: segs_ok_def)
  show "unat (segments_size segs) \<le> 65535 * 4096" unfolding sz using assms by (simp add: segs_ok_def)
  have "\<forall>s \<in> set segs. 4096 dvd length s \<Longrightarrow> 4096 dvd length (concat segs)"
    by (induction segs) auto
  then show "4096 dvd unat (segments_size segs)" unfolding sz using assms by (simp add: segs_ok_def)
  show "4096 \<le> unat (segments_size segs)" unfolding sz using assms by (cases segs) (auto simp: segs_ok_def)
qed

lemma length_segment_metadata [simp]: "length (segment_metadata key seq sz crc) = 32"
  by (simp add: segment_metadata_def)

text \<open>The metadata replace bytes 256 to 287 of the whole; everything else stays the caller's.\<close>

lemma fill_metadata_concat:
  assumes "segs \<noteq> []" "288 \<le> length (hd segs)"
  shows "concat (fill_metadata key seq segs)
    = put_bytes 256 (segment_metadata key seq (segments_size segs) (segments_crc segs)) (concat segs)"
proof -
  obtain s segs' where segs: "segs = s # segs'" using assms(1) by (cases segs) auto
  then show ?thesis using assms(2) by (simp add: fill_metadata_def put_bytes_def)
qed

lemma fill_metadata_length:
  assumes "segs \<noteq> []" "288 \<le> length (hd segs)"
  shows "length (concat (fill_metadata key seq segs)) = length (concat segs)"
proof -
  have "288 \<le> length (concat segs)" using assms by (cases segs) auto
  then show ?thesis unfolding fill_metadata_concat [OF assms] by (simp add: put_bytes_def)
qed

lemma metadata_reads:
  assumes "288 \<le> length bs" "d = put_bytes 256 (segment_metadata key seq sz crc) bs"
  shows "eh_is_valid (entry_header_at d 256)" "get_u64 d 272 = key" "get_u32 d 280 = sz" "get_u32 d 284 = crc"
proof -
  define pre where "pre = take 256 bs"
  have pre: "length pre = 256" using assms(1) by (simp add: pre_def)
  let ?h = "\<lparr>eh_magic = kEntryMagic, eh_version = 1, eh_flags = kFlagSegmentBuf, eh_reserved = 0, eh_sequence = seq, eh_padding = 0\<rparr>"
  have d: "d = pre @ entry_header_bytes ?h @ enc_u64 key @ enc_u32 sz @ enc_u32 crc @ drop 288 bs"
    by (simp add: assms(2) put_bytes_def segment_metadata_def pre_def)
  have "entry_header_at d 256 = entry_header_at (entry_header_bytes ?h @ enc_u64 key @ enc_u32 sz @ enc_u32 crc @ drop 288 bs) 0"
    using entry_header_at_append [of pre _ 0] pre by (simp add: d)
  then show "eh_is_valid (entry_header_at d 256)" by (simp add: entry_header_roundtrip eh_is_valid_def)
  show "get_u64 d 272 = key" "get_u32 d 280 = sz" "get_u32 d 284 = crc"
    using pre by (simp_all add: d get_skip get_here)
qed

section \<open>A put that finds room\<close>

definition async_room :: "io_env \<Rightarrow> u64 \<Rightarrow> nat \<Rightarrow> async_kv \<Rightarrow> bool" where
  "async_room env sz i a \<longleftrightarrow> en_state (ak_engine a) = EReady \<and> \<not> ak_allocating a \<and> io_ready env \<and> io_dma env
     \<and> files_ok (ak_engine a) \<and> get_active_file (ak_engine a) = Some i \<and> fi_blob_opened (en_files (ak_engine a) ! i)
     \<and> unat (fi_write_offset (en_files (ak_engine a) ! i)) + unat sz \<le> unat (en_data_file_size (ak_engine a))"

abbreviation put_size :: "byte list list \<Rightarrow> u64" where
  "put_size segs \<equiv> ucast (segments_size segs)"

lemma put_size_eq:
  assumes "segs_ok segs"
  shows "unat (put_size segs) = length (concat segs)" "4096 dvd unat (put_size segs)" "4096 \<le> unat (put_size segs)"
    "unat (put_size segs) \<le> 65535 * 4096" "(ucast (segments_size segs div 4096) :: u16) = ucast (put_size segs div kPageSize)"
proof -
  have "unat (put_size segs) = unat (segments_size segs)" using unat_u32 [of "segments_size segs"] by (simp add: ucast_small)
  note eq = this [unfolded segments_size_eq(1) [OF assms]]
  show "unat (put_size segs) = length (concat segs)" "4096 dvd unat (put_size segs)" "4096 \<le> unat (put_size segs)"
    "unat (put_size segs) \<le> 65535 * 4096"
    unfolding eq using segments_size_eq [OF assms] by simp_all
  show "(ucast (segments_size segs div 4096) :: u16) = ucast (put_size segs div kPageSize)"
    using segments_size_eq [OF assms] eq
    by (intro word_unat_eq_iff [THEN iffD2]) (simp add: ucast_small unat_div kPageSize_def)
qed

lemma room_fits: "async_room env sz i a \<Longrightarrow> \<not> need_new_file sz ((ak_engine a)\<lparr>en_index := idx\<rparr>)"
  unfolding async_room_def need_new_file_def get_active_file_def get_file_def files_ok_def
  by (simp add: word_le_nat_alt not_less, subst unat_plus_small) auto

lemma room_file: "async_room env sz i a \<Longrightarrow> i < length (en_files (ak_engine a))"
  by (simp add: async_room_def get_active_file_def get_file_def find_file_Some)

text \<open>The state after the call: one more write at the device, and the file has advanced.\<close>

definition put_flying :: "nat \<Rightarrow> u64 \<Rightarrow> u32 \<Rightarrow> mem_index \<Rightarrow> byte list list \<Rightarrow> nat \<Rightarrow> async_kv \<Rightarrow> async_kv" where
  "put_flying i key seq idx segs cb a =
     (let f = en_files (ak_engine a) ! i in
      a\<lparr>ak_engine := advance_file i (put_size segs) ((ak_engine a)\<lparr>en_index := idx\<rparr>), ak_foreground := ak_foreground a + 1,
        ak_flights := ak_flights a @ [FlWrite (fi_blob_id f) (unat (fi_write_offset f)) (concat (fill_metadata key seq segs))
          (PutCtx key (written_entry key f (fi_write_offset f) (put_size segs) seq) cb)]\<rparr>)"

lemma put_async_submits:
  assumes "async_room (ae_io env) (put_size segs) i a" "segs_ok segs" "mi_allocate_sequence (en_index (ak_engine a)) = (seq, idx)"
  shows "put_async env key segs cb a = put_flying i key seq idx segs cb a"
proof -
  have segs: "segs \<noteq> []" "4096 \<le> length (hd segs)" using assms(2) by (auto simp: segs_ok_def)
  then have "288 \<le> length (hd segs)" by simp
  then have data: "take (unat (segments_size segs)) (concat (fill_metadata key seq segs)) = concat (fill_metadata key seq segs)"
    using fill_metadata_length [OF segs(1)] segments_size_eq(1) [OF assms(2)] by simp
  have i: "get_active_file ((ak_engine a)\<lparr>en_index := idx\<rparr>) = Some i" "i < length (en_files (ak_engine a))"
    using assms(1) room_file by (auto simp: async_room_def get_active_file_def get_file_def)
  have "fi_blob_opened (advanced (put_size segs) (en_files (ak_engine a) ! i))" "io_ready (ae_io env)"
    "fi_blob_id (advanced sz f) = fi_blob_id f" for sz f
    using assms(1) by (simp_all add: async_room_def advanced_def)
  then show ?thesis
    using segs assms(1,3) room_fits [OF assms(1), of idx] data i put_size_eq(5) [OF assms(2)]
    by (simp add: put_async_def Let_def async_room_def ak_submit_write_def advance_file_alt en_update_file_def put_flying_def
        written_entry_def)
qed

text \<open>The last request at the device completes.\<close>

lemma step_last_flight:
  assumes "ak_flights a = fs @ [fl]"
  shows "ak_step (EvIo (length fs) status torn) a = ak_io_done fl status torn (a\<lparr>ak_flights := fs\<rparr>)"
  using assms by simp

lemma index_written_fields:
  "en_index (index_written key m e) = snd (mi_upsert (en_index e) key m)" "en_files (index_written key m e) = en_files e"
  "en_disk (index_written key m e) = en_disk e" "en_state (index_written key m e) = en_state e"
  by (simp_all add: index_written_def Let_def split: option.splits)

text \<open>The state after a put and its completion: the entry is indexed and its bytes are in place.\<close>

lemma async_put_done:
  assumes room: "async_room (ae_io env) (put_size segs) i a" and segs: "segs_ok segs"
    and inv: "mi_inv (en_index (ak_engine a))" and al: "mi_allocate_sequence (en_index (ak_engine a)) = (seq, idx)"
    and takes: "index_takes idx key"
  obtains a2 m where "ak_run [EvPut env key segs cb, EvIo (length (ak_flights a)) 0 torn] a = a2"
    "ak_replies a2 = ak_replies a @ [Done cb KSuccess]" "ak_flights a2 = ak_flights a" "en_state (ak_engine a2) = EReady"
    "mi_lookup (en_index (ak_engine a2)) key = Some m" "\<not> me_deleted m"
    "get_file (ak_engine a2) (ucast (me_file_id m)) = Some i" "fi_blob_opened (en_files (ak_engine a2) ! i)"
    "file_state_readable (fi_state (en_files (ak_engine a2) ! i))" "4096 * unat (me_page_count m) = length (concat segs)"
    "disk_read (en_disk (ak_engine a2)) (fi_blob_id (en_files (ak_engine a2) ! i)) (4096 * unat (me_offset_index m))
       (length (concat segs)) = concat (fill_metadata key seq segs)"
proof -
  let ?e = "ak_engine a" and ?f = "en_files (ak_engine a) ! i" and ?sz = "put_size segs" and ?data = "concat (fill_metadata key seq segs)"
  define m where "m = written_entry key ?f (fi_write_offset ?f) ?sz seq"
  define d where "d = disk_write (fi_blob_id ?f) (unat (fi_write_offset ?f)) ?data (en_disk ?e)"
  define e2 where "e2 = index_written key m ((advance_file i ?sz (?e\<lparr>en_index := idx\<rparr>))\<lparr>en_disk := d\<rparr>)"
  define a2 where "a2 = a\<lparr>ak_engine := e2, ak_replies := ak_replies a @ [Done cb KSuccess]\<rparr>"
  have i: "i < length (en_files ?e)" by (rule room_file [OF room])
  have r: "files_ok ?e" "fi_blob_opened ?f" "file_state_readable (fi_state ?f)" "en_state ?e = EReady"
    "unat (fi_write_offset ?f) + unat ?sz \<le> 2 ^ 33" using room by (auto simp: async_room_def files_ok_def)
  have disk: "en_disk (advance_file i ?sz (?e\<lparr>en_index := idx\<rparr>)) = en_disk ?e"
    by (simp add: advance_file_alt en_update_file_def)
  have "ak_step (EvIo (length (ak_flights a)) 0 torn) (put_flying i key seq idx segs cb a)
      = ak_complete 0 (PutCtx key m cb) (a\<lparr>ak_foreground := ak_foreground a + 1,
          ak_engine := (advance_file i ?sz (?e\<lparr>en_index := idx\<rparr>))\<lparr>en_disk := d\<rparr>\<rparr>)"
  proof (subst step_last_flight)
    show "ak_flights (put_flying i key seq idx segs cb a) = ak_flights a @ [FlWrite (fi_blob_id ?f) (unat (fi_write_offset ?f)) ?data (PutCtx key m cb)]"
      by (simp add: put_flying_def m_def Let_def)
  qed (simp add: put_flying_def m_def d_def disk Let_def)
  also have "\<dots> = a2"
    by (cases a) (simp add: a2_def e2_def on_put_async_write_complete_def index_updated_def ak_reply_def io_error_def Let_def)
  finally have run: "ak_run [EvPut env key segs cb, EvIo (length (ak_flights a)) 0 torn] a = a2"
    using put_async_submits [OF room segs al, where key = key and cb = cb] by (simp add: ak_run_def del: ak_step.simps(4))
  have files: "en_files e2 = (en_files ?e)[i := advanced ?sz ?f]" "en_disk e2 = d" "en_index e2 = snd (mi_upsert idx key m)"
    "en_state e2 = EReady"
    using r(4) by (simp_all add: e2_def index_written_fields advance_file_alt en_update_file_def)
  note points = written_entry_points [OF r(1) i refl r(5) put_size_eq(2-4) [OF segs] m_def]
  have len: "length ?data = length (concat segs)"
    using fill_metadata_length [of segs key seq] segs by (cases segs) (auto simp: segs_ok_def)
  have seq: "idx = (en_index ?e)\<lparr>mi_global_sequence := seq\<rparr>" using al by (auto simp: mi_allocate_sequence_def Let_def)
  have "mi_lookup (en_index e2) key = Some m"
    using index_takes_lookup [OF _ takes, of m key] inv
    by (simp add: files m_def written_entry_def seq mi_inv_sequence)
  then show thesis
    using that [OF run] files r i points len put_size_eq(1) [OF segs] disk_read_write [of "fi_blob_id ?f" "unat (fi_write_offset ?f)" ?data "en_disk ?e"]
    by (simp add: a2_def get_file_def advanced_def d_def) (simp add: m_def written_entry_def)
qed

text \<open>A get of an indexed key, and the completion of its read.\<close>

lemma async_get_submits:
  assumes "en_state (ak_engine a) = EReady" "mi_lookup (en_index (ak_engine a)) key = Some m" "\<not> me_deleted m"
    and "get_file (ak_engine a) (ucast (me_file_id m)) = Some i" "fi_blob_opened (en_files (ak_engine a) ! i)"
    and "file_state_readable (fi_state (en_files (ak_engine a) ! i))" "io_ready (ae_io env)"
    and "lens \<noteq> []" "n = 4096 * unat (me_page_count m)" "n \<le> foldl (+) 0 lens"
  shows "get_async env key (Some lens) cb a = a\<lparr>ak_foreground := ak_foreground a + 1, ak_flights := ak_flights a
    @ [FlRead (fi_blob_id (en_files (ak_engine a) ! i)) (4096 * unat (me_offset_index m)) n cb]\<rparr>"
  using assms by (simp add: get_async_def ak_submit_read_def Let_def)

lemma async_get_done:
  assumes "en_state (ak_engine a) = EReady" "mi_lookup (en_index (ak_engine a)) key = Some m" "\<not> me_deleted m"
    and "get_file (ak_engine a) (ucast (me_file_id m)) = Some i" "fi_blob_opened (en_files (ak_engine a) ! i)"
    and "file_state_readable (fi_state (en_files (ak_engine a) ! i))" "io_ready (ae_io env)"
    and "lens \<noteq> []" "n = 4096 * unat (me_page_count m)" "n \<le> foldl (+) 0 lens"
    and "data = disk_read (en_disk (ak_engine a)) (fi_blob_id (en_files (ak_engine a) ! i)) (4096 * unat (me_offset_index m)) n"
  shows "ak_replies (ak_run [EvGet env key (Some lens) cb, EvIo (length (ak_flights a)) 0 torn] a)
    = ak_replies a @ [case get_read_completion 0 data of (err, len) \<Rightarrow> Got cb err len data]"
proof -
  let ?fl = "FlRead (fi_blob_id (en_files (ak_engine a) ! i)) (4096 * unat (me_offset_index m)) n cb"
  note get = async_get_submits [OF assms(1-10)]
  obtain err len where rc: "get_read_completion 0 data = (err, len)" by fastforce
  have "ak_step (EvIo (length (ak_flights a)) 0 torn) (get_async env key (Some lens) cb a)
      = handle_get_read_completion 0 data cb (a\<lparr>ak_foreground := ak_foreground a + 1\<rparr>)"
    unfolding get
  proof (subst step_last_flight)
    show "ak_flights (a\<lparr>ak_foreground := ak_foreground a + 1, ak_flights := ak_flights a @ [?fl]\<rparr>) = ak_flights a @ [?fl]" by simp
  qed (use assms(11) in simp)
  then show ?thesis
    by (simp add: ak_run_def handle_get_read_completion_def Let_def rc ak_reply_def del: ak_step.simps(4))
qed

lemma ak_run_append: "ak_run (xs @ ys) a = ak_run ys (ak_run xs a)"
  by (simp add: ak_run_def)

text \<open>C9: A \<^verbatim>\<open>put_async\<close> whose write completes is read back by the \<^verbatim>\<open>get_async\<close> that follows at once, whatever
  other requests are at the device: the caller gets its own bytes, with the metadata in bytes 256 to 287 of
  the first buffer, and the size of the whole record. The active file has room for the record and no
  allocation is under way (\<open>async_room\<close>), the buffers of the record are whole pages, at most 65535 (\<open>segs_ok\<close>), those
  of the \<^verbatim>\<open>get_async\<close> hold as much, and the index takes
  the key (\<open>index_takes\<close>: its upsert neither drops the entry nor displaces another key); an upsert that drops the entry is
  answered with success, too, and \<^verbatim>\<open>get_async\<close> then finds nothing.\<close>

theorem async_put_get:
  assumes "async_room (ae_io env) (put_size segs) i a" "segs_ok segs" "mi_inv (en_index (ak_engine a))"
    and "mi_allocate_sequence (en_index (ak_engine a)) = (seq, idx)" "index_takes idx key"
    and "io_ready (ae_io env')" "lens \<noteq> []" "length (concat segs) \<le> foldl (+) 0 lens" "n = length (ak_flights a)"
  shows "ak_replies (ak_run [EvPut env key segs cb, EvIo n 0 torn, EvGet env' key (Some lens) cb', EvIo n 0 torn'] a)
    = ak_replies a @ [Done cb KSuccess, Got cb' KSuccess (segments_size segs)
        (put_bytes 256 (segment_metadata key seq (segments_size segs) (segments_crc segs)) (concat segs))]"
proof -
  obtain a2 m where a2: "ak_run [EvPut env key segs cb, EvIo (length (ak_flights a)) 0 torn] a = a2"
    "ak_replies a2 = ak_replies a @ [Done cb KSuccess]" "ak_flights a2 = ak_flights a" "en_state (ak_engine a2) = EReady"
    "mi_lookup (en_index (ak_engine a2)) key = Some m" "\<not> me_deleted m"
    "get_file (ak_engine a2) (ucast (me_file_id m)) = Some i" "fi_blob_opened (en_files (ak_engine a2) ! i)"
    "file_state_readable (fi_state (en_files (ak_engine a2) ! i))" "4096 * unat (me_page_count m) = length (concat segs)"
    "disk_read (en_disk (ak_engine a2)) (fi_blob_id (en_files (ak_engine a2) ! i)) (4096 * unat (me_offset_index m))
       (length (concat segs)) = concat (fill_metadata key seq segs)"
    by (rule async_put_done [OF assms(1-5)])
  have segs: "segs \<noteq> []" "288 \<le> length (hd segs)" "288 \<le> length (concat segs)"
    using assms(2) by (cases segs; auto simp: segs_ok_def)+
  let ?d = "put_bytes 256 (segment_metadata key seq (segments_size segs) (segments_crc segs)) (concat segs)"
  have "get_read_completion 0 ?d = (KSuccess, segments_size segs)"
    using metadata_reads [OF segs(3) refl] by (simp add: get_read_completion_def)
  then have "ak_replies (ak_run [EvGet env' key (Some lens) cb', EvIo n 0 torn'] a2)
      = ak_replies a2 @ [Got cb' KSuccess (segments_size segs) ?d]"
    using async_get_done [OF a2(4-9) assms(6,7) a2(10) [symmetric] assms(8) refl] a2(3,11) assms(9)
    by (simp add: fill_metadata_concat [OF segs(1,2)])
  then show ?thesis
    using ak_run_append [of "[EvPut env key segs cb, EvIo n 0 torn]" "[EvGet env' key (Some lens) cb', EvIo n 0 torn']" a] a2(1,2) assms(9)
    by simp
qed

section \<open>Two formats\<close>

lemma short_value_zeros:
  assumes "length v \<le> 224"
  shows "get_u32 (log_image (key, v, seq, t)) 256 = 0"
proof -
  let ?len = "value_len v" and ?crc = "enc_u32 (crc32_calculate (kv_entry_body key v (value_len v) seq t))"
  have len: "unat ?len = length v" using assms by (intro unat_of_nat_small) simp
  have pad: "4064 - length v \<le> unat (entry_padding ?len)"
    using kv_entry_size_bounds(4) [of ?len] by (simp add: entry_padding_size len)
  have "log_image (key, v, seq, t) = entry_prefix key ?len seq t @ v @ replicate (unat (entry_padding ?len)) 0 @ ?crc"
    by (simp add: kv_entry_image_def kv_entry_body_def)
  then have "slice 256 4 (log_image (key, v, seq, t)) = replicate 4 0"
    using assms pad by (simp add: slice_def del: log_image.simps)
  then show ?thesis by (simp add: get_u32_def le_nat_zeros del: log_image.simps)
qed

text \<open>An entry written by \<^verbatim>\<open>put\<close> cannot be read by \<^verbatim>\<open>get_async\<close>: its header is at byte 0 and
  \<^verbatim>\<open>get_async\<close> looks for one at byte 256, in the value or behind it. The reply is
  \<^verbatim>\<open>kCorruption\<close> unless the value happens to hold the magic number there.\<close>

theorem sync_entry_unreadable_async:
  assumes "kv_inv (ak_engine a)" "en_state (ak_engine a) = EReady" "kv_abs (ak_engine a) key = Some v"
    and "length v \<le> 224" "io_ready (ae_io env)" "65535 * 4096 \<le> foldl (+) 0 lens" "lens \<noteq> []"
  shows "\<exists>data. ak_replies (ak_run [EvGet env key (Some lens) cb, EvIo (length (ak_flights a)) 0 torn] a)
    = ak_replies a @ [Got cb KCorruption 0 data]"
proof (cases rule: kv_abs_lookup [OF assms(1), of key])
  case 1
  then show ?thesis using assms(3) by simp
next
  case (2 m v')
  have m: "\<not> me_deleted m" using 2(1) find_key [of "en_index (ak_engine a)" key] by (auto simp: mi_lookup_def)
  have "unat (me_page_count m) \<le> 65535" using unat_u16 [of "me_page_count m"] by simp
  then have fits: "4096 * unat (me_page_count m) \<le> foldl (+) 0 lens" using assms(6) by simp
  have v': "v' = v" using 2(3) assms(3) by simp
  obtain i seq where i: "get_file (ak_engine a) (ucast (me_file_id m)) = Some i" "fi_blob_opened (en_files (ak_engine a) ! i)"
    "file_state_readable (fi_state (en_files (ak_engine a) ! i))"
    "disk_read (en_disk (ak_engine a)) (fi_blob_id (en_files (ak_engine a) ! i)) (4096 * unat (me_offset_index m))
       (4096 * unat (me_page_count m)) = log_image (key, v, seq, False)"
    using 2(2) unfolding on_disk_def get_file_def v' by blast
  have "get_read_completion 0 (log_image (key, v, seq, False)) = (KCorruption, 0)"
    using short_value_zeros [OF assms(4)]
    by (simp add: get_read_completion_def eh_is_valid_def entry_header_at_def kEntryMagic_def del: log_image.simps)
  then show ?thesis
    using async_get_done [OF assms(2) 2(1) m i(1,2,3) assms(5,7) refl fits refl] i(4) by simp
qed

lemma parse_no_magic:
  assumes "\<And>p. q \<le> p \<Longrightarrow> p < q + n \<Longrightarrow> get_u32 buf (4096 * p) \<noteq> kEntryMagic" "length buf = 4096 * (q + n)"
  shows "parse_entries buf file base (4096 * q) c ms = (c, ms)"
  using assms
proof (induction n arbitrary: q)
  case 0
  then show ?case by (subst parse_entries.simps) simp
next
  case (Suc n)
  have "eh_magic (entry_header_at buf (4096 * q)) \<noteq> kEntryMagic"
    using Suc.prems(1) [of q] by (simp add: entry_header_at_def)
  moreover have "next_page (4096 * q) = 4096 * Suc q" by (simp add: next_page_eq)
  moreover have "parse_entries buf file base (4096 * Suc q) c ms = (c, ms)"
    using Suc.prems by (intro Suc.IH) (auto simp: Suc_le_eq)
  ultimately show ?case by (subst parse_entries.simps) (simp add: Let_def)
qed

text \<open>The scan that rebuilds the index after a crash does not see the entries of \<^verbatim>\<open>put_async\<close>: it looks
  for a header at the start of each page, where these have the caller's data. An acknowledged
  write is lost, unless a checkpoint has saved the index after it.\<close>

theorem recovery_skips_async_entries:
  assumes "segs_ok segs" "\<And>p. 4096 * p < length (concat segs) \<Longrightarrow> get_u32 (concat segs) (4096 * p) \<noteq> kEntryMagic"
  shows "parse_and_rebuild_entries (concat (fill_metadata key seq segs)) file base l = (0, l)"
proof -
  have segs: "segs \<noteq> []" "288 \<le> length (hd segs)" "288 \<le> length (concat segs)"
    using assms(1) by (cases segs; auto simp: segs_ok_def)+
  let ?bs = "concat segs" and ?d = "concat (fill_metadata key seq segs)"
  obtain n where n: "length ?bs = 4096 * n" using segments_size_eq(1,2) [OF assms(1)] by (metis dvdE)
  have "get_u32 ?d (4096 * p) = get_u32 ?bs (4096 * p)" if "p < n" for p
  proof (cases "p = 0")
    case True
    then show ?thesis using segs(3)
      by (simp add: fill_metadata_concat [OF segs(1,2)] put_bytes_def get_u32_def slice_def)
  next
    case False
    have d: "?d = (take 256 ?bs @ segment_metadata key seq (segments_size segs) (segments_crc segs)) @ drop 288 ?bs"
      by (simp add: fill_metadata_concat [OF segs(1,2)] put_bytes_def)
    have len: "length (take 256 ?bs @ segment_metadata key seq (segments_size segs) (segments_crc segs)) = 288"
      using segs(3) by simp
    show ?thesis unfolding d get_u32_def using False len by (subst slice_skip) (simp_all add: slice_def)
  qed
  then have "parse_entries ?d file base (4096 * 0) 0 ms = (0, ms)" for ms
    using assms(2) n fill_metadata_length [OF segs(1,2)] by (intro parse_no_magic [where n = n]) auto
  then show ?thesis by (simp add: parse_and_rebuild_entries_def)
qed

section \<open>The order of completions\<close>

definition delete_flying :: "nat \<Rightarrow> u64 \<Rightarrow> u32 \<Rightarrow> mem_index \<Rightarrow> u64 \<Rightarrow> nat \<Rightarrow> async_kv \<Rightarrow> async_kv" where
  "delete_flying i key seq idx garbage cb a =
     (let f = en_files (ak_engine a) ! i in
      a\<lparr>ak_engine := advance_file i (kv_entry_size 0) ((ak_engine a)\<lparr>en_index := idx\<rparr>), ak_foreground := ak_foreground a + 1,
        ak_flights := ak_flights a @ [FlWrite (fi_blob_id f) (unat (fi_write_offset f)) (build_entry_inplace key None 0 seq True)
          (DelCtx key garbage cb)]\<rparr>)"

lemma delete_async_submits:
  assumes "async_room (ae_io env) (kv_entry_size 0) i a" "mi_allocate_sequence (en_index (ak_engine a)) = (seq, idx)"
    and "mi_lookup (en_index (ak_engine a)) key = Some old"
  shows "delete_async env key cb a = delete_flying i key seq idx (page_bytes old) cb a"
proof -
  have i: "get_active_file ((ak_engine a)\<lparr>en_index := idx\<rparr>) = Some i" "i < length (en_files (ak_engine a))"
    using assms(1) room_file by (auto simp: async_room_def get_active_file_def get_file_def)
  have "fi_blob_opened (advanced (kv_entry_size 0) (en_files (ak_engine a) ! i))" "fi_blob_id (advanced sz f) = fi_blob_id f" for sz f
    using assms(1) by (simp_all add: async_room_def advanced_def)
  then show ?thesis
    using assms room_fits [OF assms(1), of idx] i
    by (simp add: delete_async_def Let_def async_room_def ak_submit_write_def advance_file_alt en_update_file_def delete_flying_def)
qed

lemma room_smaller: "async_room env sz i a \<Longrightarrow> unat sz' \<le> unat sz \<Longrightarrow> async_room env sz' i a"
  by (simp add: async_room_def)

lemma room_after_delete:
  assumes "async_room env (kv_entry_size 0 + sz) i a" "unat sz \<le> 65535 * 4096"
  shows "async_room env (kv_entry_size 0) i a" "async_room env sz i (delete_flying i key seq idx g cb a)"
proof -
  have k: "unat (kv_entry_size 0) \<le> 65535 * 4096" by (rule kv_entry_size_stored) simp
  have sum: "unat (kv_entry_size 0 + sz) = unat (kv_entry_size 0) + unat sz"
    using assms(2) k by (subst unat_plus_small) simp_all
  show one: "async_room env (kv_entry_size 0) i a" by (rule room_smaller [OF assms(1)]) (simp add: sum)
  let ?e = "(ak_engine a)\<lparr>en_index := idx\<rparr>" and ?f = "en_files (ak_engine a) ! i"
  have i: "i < length (en_files (ak_engine a))" by (rule room_file [OF assms(1)])
  have ok: "files_ok ?e" using assms(1) by (simp add: async_room_def files_ok_def get_active_file_def get_file_def)
  have off: "unat (fi_write_offset ?f) + unat (kv_entry_size 0) \<le> 2 ^ 33"
    using one by (auto simp: async_room_def files_ok_def)
  have "files_ok (advance_file i (kv_entry_size 0) ?e)"
    using advance_files_ok [OF ok, of i] i off kv_entry_size_bounds(3) by simp
  moreover have "get_active_file (advance_file i (kv_entry_size 0) ?e) = Some i"
  proof -
    have "en_active_file_id (advance_file i (kv_entry_size 0) ?e) = fi_file_id ?f"
      using assms(1) by (simp add: async_room_def get_active_file_def get_file_def find_file_Some advance_file_alt en_update_file_def)
    moreover have "fi_file_id (en_files (advance_file i (kv_entry_size 0) ?e) ! i) = fi_file_id ?f"
      using i by (simp add: advance_file_alt en_update_file_def advanced_def)
    ultimately show ?thesis
      using find_file_nth [of "en_files (advance_file i (kv_entry_size 0) ?e)" i] \<open>files_ok (advance_file i (kv_entry_size 0) ?e)\<close> i
      by (simp add: get_active_file_def get_file_def files_ok_def) (simp add: advance_file_alt en_update_file_def)
  qed
  ultimately show "async_room env sz i (delete_flying i key seq idx g cb a)"
    using assms(1) i advanced_offset [OF off] sum
    by (simp add: async_room_def delete_flying_def Let_def) (simp add: advance_file_alt en_update_file_def advanced_def)
qed

lemma put_io_done:
  assumes "a' = ak_io_done (FlWrite b off data (PutCtx key m cb)) 0 torn a"
  shows "ak_replies a' = ak_replies a @ [Done cb KSuccess] \<and> ak_flights a' = ak_flights a
    \<and> en_index (ak_engine a') = snd (mi_upsert (en_index (ak_engine a)) key m)"
  by (simp add: assms on_put_async_write_complete_def index_updated_def index_written_fields ak_reply_def io_error_def Let_def)

lemma delete_io_done:
  assumes "a' = ak_io_done (FlWrite b off data (DelCtx key g cb)) 0 torn a"
  shows "ak_replies a' = ak_replies a @ [Done cb KSuccess] \<and> ak_flights a' = ak_flights a
    \<and> en_index (ak_engine a') = snd (mi_remove (en_index (ak_engine a)) key)"
  by (simp add: assms on_delete_complete_def index_removed_def ak_reply_def io_error_def Let_def)

text \<open>C39: The completion of a delete removes whatever the key maps to by then. Of a delete and a later put
  of the same key, both acknowledged, the put is lost when its write happens to complete first,
  although its sequence number is the newer one.\<close>

theorem late_delete_removes_newer_put:
  assumes "async_room (ae_io env) (kv_entry_size 0 + put_size segs) i a" "ae_io env' = ae_io env" "segs_ok segs"
    and "mi_inv (en_index (ak_engine a))" "mi_lookup (en_index (ak_engine a)) key = Some old"
    and "mi_allocate_sequence (en_index (ak_engine a)) = (seq, idx)" "mi_allocate_sequence idx = (seq', idx')" "index_takes idx' key"
    and "n = length (ak_flights a)"
    and "a' = ak_run [EvDel env key cb, EvPut env' key segs cb', EvIo (Suc n) 0 torn, EvIo n 0 torn'] a"
  shows "ak_replies a' = ak_replies a @ [Done cb' KSuccess, Done cb KSuccess] \<and> mi_lookup (en_index (ak_engine a')) key = None"
proof -
  define b where "b = delete_flying i key seq idx (page_bytes old) cb a"
  define b2 where "b2 = put_flying i key seq' idx' segs cb' b"
  define b3 where "b3 = ak_step (EvIo (Suc n) 0 torn) b2"
  have sz: "unat (put_size segs) \<le> 65535 * 4096" using put_size_eq [OF assms(3)] by simp
  note room = room_after_delete [OF assms(1) sz]
  have idx: "en_index (ak_engine b) = idx" by (simp add: b_def delete_flying_def advance_file_alt en_update_file_def Let_def)
  have "put_async env' key segs cb' b = b2"
    using put_async_submits [of env' segs i b seq' idx'] room(2) assms(2,3,7) by (simp add: b2_def idx) (simp add: b_def)
  then have run: "a' = ak_step (EvIo n 0 torn') b3"
    using assms(10) delete_async_submits [OF room(1) assms(6,5)] by (simp add: ak_run_def b3_def b_def del: ak_step.simps(4))
  obtain blob off data where fb: "ak_flights b = ak_flights a @ [FlWrite blob off data (DelCtx key (page_bytes old) cb)]"
    by (simp add: b_def delete_flying_def Let_def)
  obtain blob' off' data' m where fb2: "ak_flights b2 = ak_flights b @ [FlWrite blob' off' data' (PutCtx key m cb')]"
    and m: "me_key m = key" "me_tag m = kv_tag key" "\<not> me_deleted m" "me_sequence m = seq'"
    by (simp add: b2_def put_flying_def Let_def written_entry_def)
  have b2: "ak_replies b2 = ak_replies a" "en_index (ak_engine b2) = idx'"
    by (simp_all add: b2_def b_def put_flying_def delete_flying_def Let_def advance_file_alt en_update_file_def)
  have "b3 = ak_io_done (FlWrite blob' off' data' (PutCtx key m cb')) 0 torn (b2\<lparr>ak_flights := ak_flights b\<rparr>)"
    unfolding b3_def using step_last_flight [OF fb2] fb assms(9) by simp
  note b3 = put_io_done [OF this]
  have "a' = ak_io_done (FlWrite blob off data (DelCtx key (page_bytes old) cb)) 0 torn' (b3\<lparr>ak_flights := ak_flights a\<rparr>)"
    unfolding run using step_last_flight [of b3 "ak_flights a"] b3 fb assms(9) by simp
  note a' = delete_io_done [OF this]
  have seq: "mi_global_sequence idx' = seq'" "mi_inv idx'"
    using assms(4,6,7) by (auto simp: mi_allocate_sequence_def Let_def mi_inv_sequence)
  have "mi_inv (snd (mi_upsert idx' key m))"
    using index_takes_lookup [OF seq(2) assms(8) m(1-3)] m(4) seq(1) by simp
  then have "mi_lookup (snd (mi_remove (snd (mi_upsert idx' key m)) key)) key = None"
    using mix.lookup_del [of "snd (mi_upsert idx' key m)" key _ _ key] by (metis surjective_pairing)
  then show ?thesis using a' b3 b2 by simp
qed

section \<open>Writes that wait for a file\<close>

text \<open>A checkpoint without dirty segments completes before \<^verbatim>\<open>start_checkpoint\<close> returns and does not
  reach the superblock update that reclaims the log; one that is refused answers at once as well.\<close>

lemma snapshot_positions_fields:
  "ck_dirty (ck_snapshot_positions m c) = ck_dirty c" "ck_callback (ck_snapshot_positions m c) = ck_callback c"
  by (simp_all add: ck_snapshot_positions_def Let_def split: option.splits)

lemma clean_checkpoint_answers_at_once:
  assumes "ck_state c = CkIdle" "list_all Not (take ck_segments (ck_dirty c))" "length (ck_dirty c) = ck_segments"
  obtains c' where "ck_start_checkpoint env cb (c, s) = ck_complete env 0 (c', s)" "ck_callback c' = Some cb"
proof -
  have "\<not> ck_dirty c ! i" if "i < ck_segments" for i using assms(2,3) that by (simp add: list_all_length)
  then have "filter (\<lambda>i. ck_dirty c ! i) [0..<ck_segments] = []" by (simp add: filter_empty_conv)
  then show thesis using that assms(1) by (simp add: ck_start_checkpoint_def Let_def snapshot_positions_fields)
qed

lemma resume_full_log:
  assumes "alloc_log_near_full (ak_engine a)"
  shows "resume_allocation_after_checkpoint env status a = resume_failed a"
  using assms by (simp add: resume_allocation_after_checkpoint_def resume_failed_def Let_def)

text \<open>Once the allocation log is nearly full, a \<^verbatim>\<open>put_async\<close> that needs a new file fails, whatever the
  checkpoint that it starts answers before it returns: the callback runs while the log is still full,
  and the checkpoint that would have to empty it is refused there. The log stays as full as it was,
  so the next one fails in the same way.\<close>

theorem full_log_fails_puts:
  assumes "ak_flow a" "\<not> ak_allocating a" "en_state (ak_engine a) = EReady" "segs_ok segs"
    and "need_new_file (put_size segs) (ak_engine a)" "alloc_log_near_full (ak_engine a)" "ae_checkpoint env = Some status"
    and "a' = put_async env key segs cb a"
  shows "ak_replies a' = ak_replies a @ [Done cb KInternalError] \<and> ak_queue a' = [] \<and> \<not> ak_allocating a'
    \<and> alloc_log_near_full (ak_engine a') \<and> length (en_files (ak_engine a')) = length (en_files (ak_engine a))"
proof -
  have segs: "segs \<noteq> []" "4096 \<le> length (hd segs)" using assms(4) by (auto simp: segs_ok_def)
  obtain seq idx where al: "mi_allocate_sequence (en_index (ak_engine a)) = (seq, idx)" by fastforce
  let ?e = "(ak_engine a)\<lparr>en_index := idx\<rparr>"
  have q: "ak_queue a = []" "\<not> ak_checkpoint_for_alloc a" using assms(1,2) by (auto simp: ak_flow_def)
  have need: "need_new_file (put_size segs) ?e"
    using assms(5) by (simp add: need_new_file_def get_active_file_def get_file_def split: option.splits)
  define e' where "e' = (case get_active_file ?e of None \<Rightarrow> ?e | Some i \<Rightarrow> en_update_file i (\<lambda>f. f\<lparr>fi_state := FSealed\<rparr>) ?e)"
  have e': "alloc_log_near_full e'" "length (en_files e') = length (en_files (ak_engine a))"
    using assms(6) by (simp_all add: e'_def en_update_file_def alloc_log_near_full_def split: option.splits)
  obtain w where w: "a' = enqueue_write env w (a\<lparr>ak_engine := ?e\<rparr>)" "pw_cb w = cb"
    using assms(2,3,8) segs al need that [OF _ fill_pending_cb] by (simp add: put_async_def Let_def)
  have "a' = resume_failed (a\<lparr>ak_queue := [w], ak_engine := e', ak_allocating := True, ak_checkpoint_for_alloc := True\<rparr>)"
    using w(1) q assms(2,7) e'(1)
    by (simp add: enqueue_write_def allocate_new_file_async_def Let_def e'_def [symmetric] resume_full_log)
  then show ?thesis using e' w(2) by (simp add: resume_failed_def fail_queue_def)
qed

text \<open>What submitting the queue does to the file: its write offset grows by every write.\<close>

lemma complete_files: "en_files (ak_engine (ak_complete status ctx a)) = en_files (ak_engine a)"
  by (cases ctx; simp add: on_put_async_write_complete_def on_queued_write_complete_def on_delete_complete_def
      index_updated_def index_removed_def index_written_fields ak_reply_def Let_def)

lemma submit_files: "en_files (ak_engine (ak_submit_write env i off data ctx a)) = en_files (ak_engine a)"
  by (simp add: ak_submit_write_def complete_files Let_def)

lemma submit_queued_files:
  "en_files (ak_engine (submit_queued_write env i w a))
     = (en_files (ak_engine a))[i := advanced (ucast (pw_aligned_size w)) (en_files (ak_engine a) ! i)]"
  by (simp add: submit_queued_write_def submit_files advance_file_alt en_update_file_def Let_def)

lemma queue_offset:
  assumes "i < length (en_files (ak_engine a))" "a' = fold (submit_queued_write env i) ws a"
  shows "fi_write_offset (en_files (ak_engine a') ! i)
      = fi_write_offset (en_files (ak_engine a) ! i) + sum_list (map (\<lambda>w. ucast (pw_aligned_size w)) ws)"
  using assms
proof (induction ws arbitrary: a)
  case (Cons w ws)
  then show ?case
    using Cons.IH [of "submit_queued_write env i w a"] by (simp add: submit_queued_files advanced_def)
qed simp

text \<open>When the file that the waiting writes asked for has been allocated, all of them go to it, however
  many they are: nobody compares with the size of a data file.\<close>

theorem queued_writes_ignore_file_size:
  assumes "en_files (ak_engine a) = fs @ [f]" "fi_file_id f \<notin> fi_file_id ` set fs" "fi_blob_opened f" "fi_write_offset f = 4096"
    and "a' = on_new_file_allocated env True a"
  shows "fi_write_offset (en_files (ak_engine a') ! length fs) = 4096 + sum_list (map (\<lambda>w. ucast (pw_aligned_size w)) (ak_queue a))
    \<and> ak_queue a' = []"
proof -
  define e where "e = (init_file_metadata f (ak_engine a))\<lparr>en_active_file_id := fi_file_id f\<rparr>"
  let ?b = "a\<lparr>ak_allocating := False, ak_engine := e\<rparr>"
  have files: "en_files e = fs @ [f]" using assms(1) by (simp add: e_def init_file_metadata_def Let_def)
  have "find_file (fs @ [f]) (fi_file_id f) = Some (length fs)"
    using assms(2) by (auto simp: find_file_Some nth_append image_iff) (metis nth_mem)
  then have active: "get_active_file e = Some (length fs)"
    using files by (simp add: get_active_file_def get_file_def) (simp add: e_def)
  have "a' = process_pending_write_queue env ?b"
    using assms(1,5) by (simp add: on_new_file_allocated_def e_def Let_def)
  then have a': "a' = fold (submit_queued_write env (length fs)) (ak_queue a) (?b\<lparr>ak_queue := []\<rparr>)"
    using active files assms(3) by (simp add: process_pending_write_queue_def)
  have "ak_queue a' = []" using queue_answers [where ws = "ak_queue a" and a = "?b\<lparr>ak_queue := []\<rparr>"] by (simp add: a' ak_same_flow_def)
  then show ?thesis using queue_offset [OF _ a'] files assms(4) by simp
qed

section \<open>Concrete runs\<close>

definition demo_async :: async_env where
  "demo_async = \<lparr>ae_io = demo_io, ae_checkpoint = Some 0\<rparr>"

lemma demo_room: "async_room demo_io (put_size [replicate 4096 1]) 0 (ak_start demo_store)"
proof -
  have "files_ok demo_store" using demo_store_ok(1) by (simp add: kv_inv_def)
  then show ?thesis
    using put_size_eq(1) [of "[replicate 4096 1]"]
    by (simp add: async_room_def ak_start_def segs_ok_def) (simp add: demo_store_def demo_io_def get_active_file_def get_file_def)
qed

lemma demo_segs: "segs_ok [replicate 4096 1]"
  by (simp add: segs_ok_def)

theorem async_put_get_witness:
  "\<exists>data. ak_replies (ak_run [EvPut demo_async 5 [replicate 4096 1] 7, EvIo 0 0 (\<lambda>_. 0), EvGet demo_async 5 (Some [4096]) 8,
      EvIo 0 0 (\<lambda>_. 0)] (ak_start demo_store)) = [Done 7 KSuccess, Got 8 KSuccess 4096 data]"
proof -
  have inv: "mi_inv (en_index (ak_engine (ak_start demo_store)))" using demo_store_ok(1) by (simp add: kv_inv_def ak_start_def)
  obtain seq idx where al: "mi_allocate_sequence (en_index (ak_engine (ak_start demo_store))) = (seq, idx)" by fastforce
  have takes: "index_takes idx 5" using demo_takes al by (simp add: ak_start_def)
  have room: "async_room (ae_io demo_async) (put_size [replicate 4096 1]) 0 (ak_start demo_store)"
    using demo_room by (simp add: demo_async_def)
  have sz: "segments_size [replicate 4096 1] = 4096" by (simp add: segments_size_def)
  show ?thesis
    using async_put_get [OF room demo_segs inv al takes, of demo_async "[4096]" 0 7 "\<lambda>_. 0" 8 "\<lambda>_. 0"]
    by (simp add: sz ak_start_def demo_async_def demo_io_def del: ak_step.simps)
qed

theorem sync_entry_unreadable_async_witness:
  "\<exists>data. ak_replies (ak_run [EvGet demo_async 5 (Some [65535 * 4096]) 8, EvIo 0 0 (\<lambda>_. 0)] (ak_start demo_kv)) = [Got 8 KCorruption 0 data]"
proof -
  obtain e where e: "e = demo_kv" "kv_inv e" "kv_abs e = [5 \<mapsto> [1, 2, 3]]" "en_state e = EReady" by (rule demo_put)
  show ?thesis
    using sync_entry_unreadable_async [of "ak_start e" 5 "[1, 2, 3]" demo_async "[65535 * 4096]" 8 "\<lambda>_. 0"] e(2-4)
    by (simp add: ak_start_def demo_async_def demo_io_def e(1) del: ak_step.simps)
qed

theorem recovery_skips_async_entries_witness:
  "parse_and_rebuild_entries (concat (fill_metadata 5 1 [replicate 4096 1])) 0 4096 demo_loader = (0, demo_loader)"
proof (rule recovery_skips_async_entries [OF demo_segs])
  fix p :: nat
  assume "4096 * p < length (concat [replicate 4096 (1 :: byte)])"
  then have "p = 0" by simp
  moreover have "slice 0 4 (replicate 4096 (1 :: byte)) = replicate 4 1" by (simp add: slice_def)
  moreover have "replicate 4 (1 :: byte) = [1, 1, 1, 1]" by (simp add: eval_nat_numeral)
  ultimately show "get_u32 (concat [replicate 4096 1]) (4096 * p) \<noteq> kEntryMagic"
    by (simp add: get_u32_def kEntryMagic_def)
qed

theorem full_log_fails_puts_witness:
  "ak_replies (put_async demo_async 5 [replicate 4096 1] 7 (ak_start (demo_store\<lparr>en_data_file_size := 4096,
     en_alloc_log := Some ((lg_initialize True True 0 0 0)\<lparr>lg_tail := 60\<rparr>)\<rparr>))) = [Done 7 KInternalError]"
proof -
  let ?e = "demo_store\<lparr>en_data_file_size := 4096, en_alloc_log := Some ((lg_initialize True True 0 0 0)\<lparr>lg_tail := 60\<rparr>)\<rparr>"
  have flow: "ak_flow (ak_start ?e)" "\<not> ak_allocating (ak_start ?e)" by (simp_all add: ak_flow_def ak_start_def)
  have full: "alloc_log_near_full (ak_engine (ak_start ?e))"
    by (simp add: alloc_log_near_full_def ak_start_def lg_is_near_full_def lg_used_count_def lg_initialize_def kv_consts)
  have need: "need_new_file (put_size [replicate 4096 1]) (ak_engine (ak_start ?e))"
    by (simp add: need_new_file_def ak_start_def segments_size_def) (simp add: demo_store_def get_active_file_def get_file_def)
  have ready: "en_state (ak_engine (ak_start ?e)) = EReady" by (simp add: ak_start_def demo_store_def)
  show ?thesis
    using full_log_fails_puts [OF flow ready demo_segs need full, of demo_async 0 _ 5 7] by (simp add: demo_async_def ak_start_def)
qed

text \<open>Two writes of a page wait for a file of two pages, of which one is the header.\<close>

definition demo_waiting :: async_kv where
  "demo_waiting = (ak_start (demo_store\<lparr>en_data_file_size := 8192\<rparr>))\<lparr>ak_allocating := True,
     ak_queue := [fill_pending_write_req 5 (replicate 4096 1) True 4096 1 1 7 False 0,
                  fill_pending_write_req 6 (replicate 4096 1) True 4096 2 1 8 False 0]\<rparr>"

theorem queued_writes_ignore_file_size_witness:
  "fi_write_offset (en_files (ak_engine (on_new_file_allocated demo_io True demo_waiting)) ! 0) = 12288
   \<and> en_data_file_size (ak_engine demo_waiting) = 8192"
proof -
  have files: "en_files (ak_engine demo_waiting) = [] @ [\<lparr>fi_file_id = 0, fi_blob_id = 77, fi_state = FActive, fi_size = 4096,
      fi_write_offset = 4096, fi_blob_opened = True\<rparr>]" "en_data_file_size (ak_engine demo_waiting) = 8192"
    by (simp_all add: demo_waiting_def ak_start_def demo_store_def)
  show ?thesis
    using queued_writes_ignore_file_size [OF files(1) _ _ _ refl, of demo_io] files(2)
    by (simp add: demo_waiting_def fill_pending_write_req_def)
qed

text \<open>A key is deleted and put again; the put completes first.\<close>

theorem late_delete_removes_newer_put_witness:
  "\<exists>a'. a' = ak_run [EvDel demo_async 5 7, EvPut demo_async 5 [replicate 4096 1] 8, EvIo (Suc 0) 0 (\<lambda>_. 0), EvIo 0 0 (\<lambda>_. 0)]
      (ak_start (demo_store\<lparr>en_index := ix_table [(5, 1)]\<rparr>))
    \<and> ak_replies a' = [Done 8 KSuccess, Done 7 KSuccess] \<and> mi_lookup (en_index (ak_engine a')) 5 = None"
proof -
  let ?ix = "ix_table [(5, 1)]"
  let ?a = "ak_start (demo_store\<lparr>en_index := ?ix\<rparr>)"
  have ok: "files_ok (demo_store\<lparr>en_index := ?ix\<rparr>)" using demo_store_ok(1) by (simp add: kv_inv_def files_ok_def get_active_file_def get_file_def)
  have "kv_entry_size 0 = 4096" by (simp add: kv_entry_size_def align_up_def kPageSize_def)
  then have room: "async_room (ae_io demo_async) (kv_entry_size 0 + put_size [replicate 4096 1]) 0 ?a"
    using ok by (simp add: async_room_def ak_start_def segments_size_def demo_async_def)
      (simp add: demo_store_def demo_io_def get_active_file_def get_file_def)
  have run: "mi_upsert (mem_index_new 8 True) 5 (ix_entry 5 1) = (True, ?ix)"
    by (simp add: ix_table_def) (simp add: ix_eval)
  have table: "mi_live ?ix 5 0" "mi_disp ?ix 5 0 = 0" "me_sequence (mi_entries ?ix ! 0) = 1" "mi_global_sequence ?ix = 0"
    by (simp_all add: ix_table_def mi_live_def mi_disp_def ix_eval)
  define idx where "idx = ?ix\<lparr>mi_global_sequence := 1\<rparr>"
  define idx' where "idx' = ?ix\<lparr>mi_global_sequence := 2\<rparr>"
  have al: "mi_allocate_sequence (en_index (ak_engine ?a)) = (1, idx)" "mi_allocate_sequence idx = (2, idx')"
    using table(4) by (simp_all add: mi_allocate_sequence_def ak_start_def idx_def idx'_def Let_def)
  have "mi_live idx' 5 0" "mi_strict_path idx' 5 (mi_disp idx' 5 0)" "sequence_newer (mi_global_sequence idx') (me_sequence (mi_entries idx' ! 0))"
    using table(1-3) by (simp_all add: idx'_def mi_live_def mi_disp_def mi_strict_path_def mi_home_def mi_wrap_def
        sequence_newer_def sless_zero_window)
  then have takes: "index_takes idx' 5" unfolding index_takes_def by (intro conjI disjI2 exI [of _ 0]) (simp_all add: idx'_def)
  obtain old where old: "mi_lookup (en_index (ak_engine ?a)) 5 = Some old"
    using mix.lookup_ins [OF _ _ _ _ run, of 5] mem_index_new_inv [of 8]
    by (simp add: next_power_of_2_def mi_storable_def ix_entry_ok mi_visible_def mi_stored_def ix_entry_def me_zero_def
        me_is_empty_def ak_start_def)
  show ?thesis
    using late_delete_removes_newer_put [OF room refl demo_segs _ old al takes refl refl, of 7 8 "\<lambda>_. 0" "\<lambda>_. 0"] ix_table_5_inv
    by (simp add: ak_start_def del: ak_step.simps)
qed

end
