(* ===== verification/KvBuffered.thy ===== *)
theory KvBuffered
  imports KvAsync KvAppendBuffer
begin

text \<open>
  The buffered path of \<^verbatim>\<open>src/engine.cpp\<close>: \<^verbatim>\<open>put_buffered\<close> and \<^verbatim>\<open>put_rdma\<close>, which build entries in
  the active append buffer, the submission of a full buffer as one write and its completion, the wait
  queue that holds requests back under back-pressure, and the parts of \<^verbatim>\<open>poll\<close> and \<^verbatim>\<open>close\<close> that
  drive them. A buffer is its index in the manager of \<open>KvAppendBuffer\<close>.
\<close>

section \<open>State\<close>

text \<open>The fields \<^verbatim>\<open>flags\<close>, \<^verbatim>\<open>old_file_id\<close>, \<^verbatim>\<open>old_offset_index\<close> and \<^verbatim>\<open>old_garbage_size\<close> are always 0
  and never read.\<close>

record buffered_write =
  bw_key :: u64
  bw_sequence :: u32
  bw_buffer_offset :: u32
  bw_aligned_size :: u32
  bw_page_count :: u16
  bw_tag :: u8
  bw_cb :: nat

record wait_entry =
  wq_key :: u64
  wq_data :: "byte list"
  wq_value_len :: u32
  wq_aligned_size :: u32
  wq_sequence :: u32
  wq_page_count :: u16
  wq_tag :: u8
  wq_cb :: nat
  wq_is_delete :: bool
  wq_old_garbage :: u64

text \<open>A buffer at the device: the context of its completion, and the write.\<close>

record buffer_io =
  bi_buffer :: nat
  bi_file_id :: u16
  bi_base_page :: u32
  bi_blob :: u64
  bi_offset :: nat
  bi_data :: "byte list"

datatype slot_state = SlotAllocated | SlotRdmaComplete | SlotCommitted | SlotFlushed

record append_slot =
  sl_addr :: "nat \<times> u64"
  sl_len :: u32
  sl_epoch :: u32
  sl_slot_id :: u32
  sl_state :: slot_state

text \<open>\<open>bk_pending\<close> is \<^verbatim>\<open>buffer_pending_writes_\<close>; a buffer without an entry has the empty list.\<close>

record buffered_kv =
  bk_async :: async_kv
  bk_mgr :: "unit append_mgr"
  bk_wait :: "wait_entry list"
  bk_pending :: "nat \<Rightarrow> buffered_write list"
  bk_ios :: "buffer_io list"
  bk_slots :: "u32 \<Rightarrow> append_slot option"
  bk_next_slot :: u32
  bk_last_flush :: u64

abbreviation bk_engine :: "buffered_kv \<Rightarrow> kv_engine" where
  "bk_engine b \<equiv> ak_engine (bk_async b)"

definition bk_set_engine :: "kv_engine \<Rightarrow> buffered_kv \<Rightarrow> buffered_kv" where
  "bk_set_engine e b = b\<lparr>bk_async := (bk_async b)\<lparr>ak_engine := e\<rparr>\<rparr>"

definition bk_reply :: "nat \<Rightarrow> kv_error \<Rightarrow> buffered_kv \<Rightarrow> buffered_kv" where
  "bk_reply cb err b = b\<lparr>bk_async := ak_reply (Done cb err) (bk_async b)\<rparr>"

section \<open>Writing into the active buffer\<close>

text \<open>The end of \<^verbatim>\<open>put_buffered\<close> and \<^verbatim>\<open>put_rdma\<close>: the write is tracked with the active buffer, if there
  is one, which is submitted when it is full. \<open>offset\<close> is what its \<^verbatim>\<open>get_offset\<close> returns.\<close>

definition track_write :: "u64 \<Rightarrow> u32 \<Rightarrow> u32 \<Rightarrow> u32 \<Rightarrow> nat \<Rightarrow> buffered_kv \<Rightarrow> buffered_kv" where
  "track_write key offset aligned_size seq cb b =
     (case am_active (bk_mgr b) of
        None \<Rightarrow> b
      | Some i \<Rightarrow>
          (let w = \<lparr>bw_key = key, bw_sequence = seq, bw_buffer_offset = offset, bw_aligned_size = aligned_size,
                    bw_page_count = ucast (aligned_size div 4096), bw_tag = kv_tag key, bw_cb = cb\<rparr>;
               b = b\<lparr>bk_pending := (bk_pending b)(i := bk_pending b i @ [w])\<rparr>
           in if buf_is_full (am_all_buffers (bk_mgr b) ! i)
              then b\<lparr>bk_mgr := am_submit_current_buffer (bk_mgr b)\<rparr> else b))"

definition bk_write_bytes :: "nat \<Rightarrow> u64 \<Rightarrow> byte list \<Rightarrow> buffered_kv \<Rightarrow> buffered_kv" where
  "bk_write_bytes i slot img b =
     b\<lparr>bk_mgr := am_update_buffer i (\<lambda>buf. buf\<lparr>bf_bytes := put_bytes (unat slot) img (bf_bytes buf)\<rparr>) (bk_mgr b)\<rparr>"

text \<open>A request that finds no room is built in a buffer of its own and waits.\<close>

definition put_wait_entry :: "u64 \<Rightarrow> byte list \<Rightarrow> u32 \<Rightarrow> u32 \<Rightarrow> nat \<Rightarrow> wait_entry" where
  "put_wait_entry key value value_len seq cb =
     (let aligned_size = kv_entry_size value_len in
      \<lparr>wq_key = key, wq_data = build_entry_inplace key (Some value) value_len seq False, wq_value_len = value_len,
       wq_aligned_size = ucast aligned_size, wq_sequence = seq, wq_page_count = ucast (aligned_size div kPageSize),
       wq_tag = kv_tag key, wq_cb = cb, wq_is_delete = False, wq_old_garbage = 0\<rparr>)"

definition wait_put :: "async_env \<Rightarrow> bool \<Rightarrow> u64 \<Rightarrow> byte list \<Rightarrow> u32 \<Rightarrow> nat \<Rightarrow> buffered_kv \<Rightarrow> buffered_kv" where
  "wait_put env register key value value_len cb b =
     (if \<not> io_dma (ae_io env) then bk_reply cb KInternalError b
      else (case mi_allocate_sequence (en_index (bk_engine b)) of (seq, idx) \<Rightarrow>
         (let w = put_wait_entry key value value_len seq cb;
              b = bk_set_engine ((bk_engine b)\<lparr>en_index := idx\<rparr>) (b\<lparr>bk_wait := bk_wait b @ [w]\<rparr>)
          in if register then b\<lparr>bk_mgr := am_register_resume_callback () (bk_mgr b)\<rparr> else b)))"

definition store_put :: "nat \<times> u64 \<Rightarrow> u64 \<Rightarrow> byte list \<Rightarrow> u32 \<Rightarrow> nat \<Rightarrow> buffered_kv \<Rightarrow> buffered_kv" where
  "store_put slot key value value_len cb b =
     (case mi_allocate_sequence (en_index (bk_engine b)) of (seq, idx) \<Rightarrow>
        (let b = bk_set_engine ((bk_engine b)\<lparr>en_index := idx\<rparr>) b;
             b = bk_write_bytes (fst slot) (snd slot) (build_entry_inplace key (Some value) value_len seq False) b
         in track_write key (buf_get_offset (snd slot)) (ucast (kv_entry_size value_len)) seq cb b))"

text \<open>\<open>mem\<close> and \<open>mem'\<close> are the allocations of an expansion that the two reservations may make; the branch
  that submits the full buffer and reserves again is there as in the source, although every failure is
  reported as back-pressure.\<close>

definition put_buffered ::
    "async_env \<Rightarrow> byte list option \<Rightarrow> byte list option \<Rightarrow> u64 \<Rightarrow> byte list option \<Rightarrow> u32 \<Rightarrow> nat \<Rightarrow> buffered_kv \<Rightarrow> buffered_kv" where
  "put_buffered env mem mem' key value value_len cb b =
     (if en_state (bk_engine b) \<noteq> EReady then bk_reply cb KEngineNotReady b
      else if value_len = 0 \<or> value = None then bk_reply cb KInvalidArgument b
      else (let aligned_size = kv_entry_size value_len; v = the value
            in case am_reserve_with_backpressure aligned_size mem (bk_mgr b) of
                 (Inl slot, m) \<Rightarrow> store_put slot key v value_len cb (b\<lparr>bk_mgr := m\<rparr>)
               | (Inr err, m) \<Rightarrow>
                   if err = KBackpressure then wait_put env True key v value_len cb (b\<lparr>bk_mgr := m\<rparr>)
                   else (case am_reserve_with_backpressure aligned_size mem' (am_submit_current_buffer m) of
                           (Inl slot, m) \<Rightarrow> store_put slot key v value_len cb (b\<lparr>bk_mgr := m\<rparr>)
                         | (Inr err, m) \<Rightarrow> wait_put env (err = KBackpressure) key v value_len cb (b\<lparr>bk_mgr := m\<rparr>))))"

section \<open>RDMA slots\<close>

text \<open>The slot the client gets: its place, the offset and room for the value, its id and epoch;
  \<^verbatim>\<open>rkey\<close> is always 0.\<close>

definition alloc_rdma_slot ::
    "byte list option \<Rightarrow> u32 \<Rightarrow> buffered_kv \<Rightarrow> (kv_error + (nat \<times> u64) \<times> u32 \<times> u32 \<times> u32 \<times> u32) \<times> buffered_kv" where
  "alloc_rdma_slot mem value_len b =
     (let aligned_size = kv_entry_size value_len
      in case am_reserve_with_backpressure aligned_size mem (bk_mgr b) of
           (Inr err, m) \<Rightarrow> (Inl err, b\<lparr>bk_mgr := m\<rparr>)
         | (Inl slot, m) \<Rightarrow>
             (let slot_id = bk_next_slot b; epoch = am_current_buffer_epoch m;
                  s = \<lparr>sl_addr = slot, sl_len = ucast aligned_size, sl_epoch = epoch, sl_slot_id = slot_id, sl_state = SlotAllocated\<rparr>
              in (Inr (slot, 28, ucast (aligned_size - 28 - 4), slot_id, epoch),
                  b\<lparr>bk_mgr := m, bk_next_slot := slot_id + 1, bk_slots := (bk_slots b)(slot_id \<mapsto> s)\<rparr>)))"

definition commit_rdma_slot :: "u32 \<Rightarrow> u32 \<Rightarrow> buffered_kv \<Rightarrow> kv_error \<times> buffered_kv" where
  "commit_rdma_slot slot_id epoch b =
     (case bk_slots b slot_id of
        None \<Rightarrow> (KInvalidArgument, b)
      | Some s \<Rightarrow>
          if sl_epoch s \<noteq> epoch then (KInvalidArgument, b)
          else if sl_state s \<noteq> SlotAllocated then (KInvalidArgument, b)
          else (KSuccess, b\<lparr>bk_slots := (bk_slots b)(slot_id \<mapsto> s\<lparr>sl_state := SlotRdmaComplete\<rparr>),
                  bk_mgr := (case am_active (bk_mgr b) of None \<Rightarrow> bk_mgr b
                             | Some i \<Rightarrow> am_update_buffer i (buf_mark_rdma_complete slot_id) (bk_mgr b))\<rparr>))"

text \<open>The value is already in the buffer, at \<open>addr\<close>. The offset is the distance to the start of the buffer
  that is active now; \<open>base\<close> gives the address of each buffer's memory.\<close>

definition put_rdma :: "(nat \<Rightarrow> u64) \<Rightarrow> u64 \<Rightarrow> nat \<times> u64 \<Rightarrow> u32 \<Rightarrow> u32 \<Rightarrow> u32 \<Rightarrow> nat \<Rightarrow> buffered_kv \<Rightarrow> buffered_kv" where
  "put_rdma base key addr value_offset len seq cb b =
     (if value_offset \<noteq> 28 then bk_reply cb KInvalidArgument b
      else (let slot = drop (unat (snd addr)) (bf_bytes (am_all_buffers (bk_mgr b) ! fst addr));
                b = bk_write_bytes (fst addr) (snd addr) (build_entry_inplace_rdma slot key len seq False) b;
                offset = (case am_active (bk_mgr b) of None \<Rightarrow> 0
                          | Some i \<Rightarrow> buf_get_offset (base (fst addr) + snd addr - base i))
            in track_write key offset (ucast (kv_entry_size len)) seq cb b))"

section \<open>Submitting a buffer\<close>

text \<open>What happens to the writes of a buffer that cannot be submitted.\<close>

definition fail_buffer :: "kv_error \<Rightarrow> nat \<Rightarrow> buffered_kv \<Rightarrow> buffered_kv" where
  "fail_buffer err i b =
     (let b = fold (\<lambda>w. bk_reply (bw_cb w) err) (bk_pending b i) b
      in b\<lparr>bk_pending := (bk_pending b)(i := []), bk_mgr := am_return_buffer i (bk_mgr b)\<rparr>)"

definition buffered_entry :: "u16 \<Rightarrow> u32 \<Rightarrow> buffered_write \<Rightarrow> mem_index_entry" where
  "buffered_entry file_id base_page w =
     \<lparr>me_key = bw_key w, me_file_id = ucast file_id, me_offset_index = ucast (base_page + bw_buffer_offset w div 4096),
      me_deleted = False, me_sequence = bw_sequence w, me_page_count = bw_page_count w, me_tag = bw_tag w, me_reserved = 0\<rparr>"

definition complete_buffered_write :: "int \<Rightarrow> u16 \<Rightarrow> u32 \<Rightarrow> buffered_write \<Rightarrow> buffered_kv \<Rightarrow> buffered_kv" where
  "complete_buffered_write status file_id base_page w b =
     (let b = (if status = 0
               then bk_set_engine (index_written (bw_key w) (buffered_entry file_id base_page w) (bk_engine b)) b else b)
      in bk_reply (bw_cb w) (io_error status) b)"

definition on_buffer_io_complete :: "int \<Rightarrow> nat \<Rightarrow> u16 \<Rightarrow> u32 \<Rightarrow> buffered_kv \<Rightarrow> buffered_kv" where
  "on_buffer_io_complete status i file_id base_page b =
     (let b = b\<lparr>bk_async := (bk_async b)\<lparr>ak_foreground := ak_foreground (bk_async b) - 1\<rparr>\<rparr>;
          b = fold (complete_buffered_write status file_id base_page) (bk_pending b i) b
      in b\<lparr>bk_pending := (bk_pending b)(i := []), bk_mgr := am_return_buffer i (bk_mgr b)\<rparr>)"

text \<open>The file a buffer goes to, as for \<^verbatim>\<open>put\<close>; then one write of the used part.\<close>

definition send_buffer :: "io_env \<Rightarrow> nat \<Rightarrow> nat \<Rightarrow> buffered_kv \<Rightarrow> buffered_kv" where
  "send_buffer env fi i b =
     (let buf = am_all_buffers (bk_mgr b) ! i; f = en_files (bk_engine b) ! fi;
          base_page = ucast (fi_write_offset f div kPageSize); write_offset = fi_write_offset f;
          b = bk_set_engine (advance_file fi (bf_used buf) (bk_engine b)) b;
          b = b\<lparr>bk_async := (bk_async b)\<lparr>ak_foreground := ak_foreground (bk_async b) + 1\<rparr>\<rparr>
      in if \<not> fi_blob_opened f \<or> \<not> io_ready env then on_buffer_io_complete (-1) i (fi_file_id f) base_page b
         else b\<lparr>bk_ios := bk_ios b @ [\<lparr>bi_buffer = i, bi_file_id = fi_file_id f, bi_base_page = base_page,
                bi_blob = fi_blob_id f, bi_offset = unat write_offset,
                bi_data = take (unat (ucast (bf_used buf) :: u32)) (bf_bytes buf)\<rparr>]\<rparr>)"

definition submit_buffer_io :: "io_env \<Rightarrow> nat \<Rightarrow> buffered_kv \<Rightarrow> buffered_kv" where
  "submit_buffer_io env i b =
     (let buf = am_all_buffers (bk_mgr b) ! i in
      if buf_is_empty buf then b
      else (case file_for_write env (bf_used buf) (bk_engine b) of
              (None, e) \<Rightarrow> fail_buffer KNoSpace i (bk_set_engine e b)
            | (Some fi, e) \<Rightarrow> send_buffer env fi i (bk_set_engine e b)))"

section \<open>The wait queue\<close>

definition wait_request :: "wait_entry \<Rightarrow> pending_write" where
  "wait_request w =
     \<lparr>pw_key = wq_key w, pw_data = wq_data w, pw_is_segment = False, pw_aligned_size = wq_aligned_size w,
      pw_sequence = wq_sequence w, pw_page_count = wq_page_count w, pw_tag = wq_tag w, pw_cb = wq_cb w,
      pw_is_delete = wq_is_delete w, pw_old_garbage = wq_old_garbage w\<rparr>"

text \<open>A waiting request is queued for a new file or sent at once, as a queued write is.\<close>

definition send_waiting :: "async_env \<Rightarrow> wait_entry \<Rightarrow> async_kv \<Rightarrow> async_kv" where
  "send_waiting env w a =
     (let e = ak_engine a
      in if need_new_file (ucast (wq_aligned_size w)) e \<or> ak_allocating a then enqueue_write env (wait_request w) a
         else (case get_active_file e of None \<Rightarrow> a
               | Some i \<Rightarrow> submit_queued_write (ae_io env) i (wait_request w) a))"

fun wait_loop :: "async_env \<Rightarrow> wait_entry list \<Rightarrow> buffered_kv \<Rightarrow> buffered_kv" where
  "wait_loop env [] b = b\<lparr>bk_wait := []\<rparr>"
| "wait_loop env (w # ws) b =
     (if am_backpressure (bk_mgr b)
      then b\<lparr>bk_wait := w # ws, bk_mgr := am_register_resume_callback () (bk_mgr b)\<rparr>
      else wait_loop env ws (b\<lparr>bk_async := send_waiting env w (bk_async b)\<rparr>))"

definition process_wait_queue :: "async_env \<Rightarrow> buffered_kv \<Rightarrow> buffered_kv" where
  "process_wait_queue env b = wait_loop env (bk_wait b) b"

section \<open>poll and close\<close>

text \<open>\<^verbatim>\<open>FlushTrigger\<close>.\<close>

definition should_flush_immediately :: "nat \<Rightarrow> u64 \<Rightarrow> bool" where
  "should_flush_immediately pending_buffers pending_entries \<longleftrightarrow> pending_buffers \<ge> 16 \<or> pending_entries \<ge> 128"

definition should_flush_on_timeout :: "u64 \<Rightarrow> u64 \<Rightarrow> bool" where
  "should_flush_on_timeout last_flush_ns current_ns \<longleftrightarrow> current_ns - last_flush_ns \<ge> 10000000"

definition current_entry_count :: "unit append_mgr \<Rightarrow> u64" where
  "current_entry_count m = (case am_active m of None \<Rightarrow> 0 | Some i \<Rightarrow> bf_entry_count (am_all_buffers m ! i))"

text \<open>Steps 3 to 6 of \<^verbatim>\<open>poll\<close>, with the time and what the surroundings answer; the completions that
  \<^verbatim>\<open>process_completions\<close> delivers are events of their own.\<close>

definition flush_step :: "u64 \<Rightarrow> buffered_kv \<Rightarrow> buffered_kv" where
  "flush_step now b =
     (let m = bk_mgr b in
      if should_flush_immediately (am_pending_count m) (current_entry_count m) \<or> should_flush_on_timeout (bk_last_flush b) now
      then b\<lparr>bk_mgr := am_submit_current_buffer m, bk_last_flush := now\<rparr> else b)"

definition submit_step :: "io_env \<Rightarrow> buffered_kv \<Rightarrow> buffered_kv" where
  "submit_step env b =
     (case am_get_pending_buffers 16 (bk_mgr b) of (bufs, m) \<Rightarrow> fold (submit_buffer_io env) bufs (b\<lparr>bk_mgr := m\<rparr>))"

definition resume_step :: "async_env \<Rightarrow> buffered_kv \<Rightarrow> buffered_kv" where
  "resume_step env b =
     (case am_process_resume_notifications (bk_mgr b) of
        (fired, m) \<Rightarrow> fold (\<lambda>_. process_wait_queue env) fired (b\<lparr>bk_mgr := m\<rparr>))"

definition wait_step :: "async_env \<Rightarrow> buffered_kv \<Rightarrow> buffered_kv" where
  "wait_step env b = (if \<not> am_backpressure (bk_mgr b) \<and> bk_wait b \<noteq> [] then process_wait_queue env b else b)"

definition poll_buffers :: "async_env \<Rightarrow> u64 \<Rightarrow> buffered_kv \<Rightarrow> buffered_kv" where
  "poll_buffers env now b =
     (let b = b\<lparr>bk_mgr := am_check_pending_resets (bk_mgr b)\<rparr>
      in wait_step env (resume_step env (submit_step (ae_io env) (flush_step now b))))"

text \<open>The first part of \<^verbatim>\<open>close\<close>. The submit ring holds at most 16 buffers, so that the first round of
  the loop empties it and the second finds nothing.\<close>

definition close_buffers :: "io_env \<Rightarrow> buffered_kv \<Rightarrow> buffered_kv" where
  "close_buffers env b =
     (if en_state (bk_engine b) \<noteq> EReady then b
      else (let b = bk_set_engine ((bk_engine b)\<lparr>en_state := EClosing\<rparr>) b;
                b = submit_step env (b\<lparr>bk_mgr := am_submit_current_buffer (bk_mgr b)\<rparr>);
                b = fold (\<lambda>w. bk_reply (wq_cb w) KEngineNotReady) (bk_wait b) (b\<lparr>bk_wait := []\<rparr>)
            in b\<lparr>bk_pending := (\<lambda>_. [])\<rparr>))"

section \<open>Steps\<close>

datatype bk_event =
    BvPut async_env "byte list option" "byte list option" u64 "byte list option" u32 nat
  | BvIo nat int "nat \<Rightarrow> byte"
  | BvPoll async_env u64
  | BvAsync ak_event

definition bk_io_done :: "buffer_io \<Rightarrow> int \<Rightarrow> (nat \<Rightarrow> byte) \<Rightarrow> buffered_kv \<Rightarrow> buffered_kv" where
  "bk_io_done io status torn b =
     (let data = (if status = 0 then bi_data io else map torn [0..<length (bi_data io)]);
          d = disk_write (bi_blob io) (bi_offset io) data (en_disk (bk_engine b))
      in on_buffer_io_complete status (bi_buffer io) (bi_file_id io) (bi_base_page io)
           (bk_set_engine ((bk_engine b)\<lparr>en_disk := d\<rparr>) b))"

fun bk_step :: "bk_event \<Rightarrow> buffered_kv \<Rightarrow> buffered_kv" where
  "bk_step (BvPut env mem mem' key value value_len cb) b = put_buffered env mem mem' key value value_len cb b"
| "bk_step (BvIo n status torn) b =
     (if n < length (bk_ios b)
      then bk_io_done (bk_ios b ! n) status torn (b\<lparr>bk_ios := take n (bk_ios b) @ drop (Suc n) (bk_ios b)\<rparr>)
      else b)"
| "bk_step (BvPoll env now) b = poll_buffers env now b"
| "bk_step (BvAsync ev) b = b\<lparr>bk_async := ak_step ev (bk_async b)\<rparr>"

definition bk_run :: "bk_event list \<Rightarrow> buffered_kv \<Rightarrow> buffered_kv" where
  "bk_run evs b = fold bk_step evs b"

definition bk_start :: "kv_engine \<Rightarrow> unit append_mgr \<Rightarrow> buffered_kv" where
  "bk_start e m = \<lparr>bk_async = ak_start e, bk_mgr = m, bk_wait = [], bk_pending = (\<lambda>_. []), bk_ios = [],
     bk_slots = Map.empty, bk_next_slot = 0, bk_last_flush = 0\<rparr>"

end
