(* ===== verification/KvBufferedSpec.thy ===== *)
theory KvBufferedSpec
  imports KvBuffered KvAsyncSpec
begin

text \<open>
  What the buffered path guarantees: no request is lost, the writes in a buffer are intact until the
  buffer is on disk; and where it fails: a relieved back-pressure that nobody notices, callbacks
  dropped by \<^verbatim>\<open>close\<close>, RDMA slots.
\<close>

section \<open>The buffers that hold requests\<close>

text \<open>The active buffer and those that wait for submission.\<close>

definition am_busy :: "'r append_mgr \<Rightarrow> nat list" where
  "am_busy m = (case am_active m of Some i \<Rightarrow> [i] | None \<Rightarrow> []) @ ring_list (am_submit_ring m)"

lemma am_owned_busy: "am_owned m fl = am_busy m @ ring_list (am_complete_ring m) @ am_pending_reset m @ fl"
  by (simp add: am_owned_def am_busy_def)

text \<open>An operation that takes no buffer out of the busy ones and changes at most the buffers of a set.\<close>

definition am_keep :: "nat set \<Rightarrow> 'r append_mgr \<Rightarrow> 'r append_mgr \<Rightarrow> bool" where
  "am_keep S m m' \<longleftrightarrow> set (am_busy m) \<subseteq> set (am_busy m') \<and> length (am_all_buffers m) \<le> length (am_all_buffers m')
     \<and> (\<forall>i < length (am_all_buffers m). i \<notin> S \<longrightarrow> am_all_buffers m' ! i = am_all_buffers m ! i)"

lemma am_keep_refl: "am_keep S m m"
  by (simp add: am_keep_def)

lemma am_keep_trans: "am_keep S m m1 \<Longrightarrow> am_keep S m1 m2 \<Longrightarrow> am_keep S m m2"
  by (fastforce simp: am_keep_def)

lemma am_keep_mono: "am_keep S m m' \<Longrightarrow> S \<subseteq> T \<Longrightarrow> am_keep T m m'"
  by (auto simp: am_keep_def)

lemma take_active_keep:
  assumes "am_active m = None"
  shows "am_keep {} m (am_take_active m)" "am_submit_ring (am_take_active m) = am_submit_ring m"
    "am_all_buffers (am_take_active m) = am_all_buffers m"
  using assms by (auto simp: am_take_active_def am_keep_def am_busy_def split: option.split)

lemma expand_keep:
  "am_keep {} m (snd (am_try_expand mem m))" "am_submit_ring (snd (am_try_expand mem m)) = am_submit_ring m"
proof -
  have "am_keep {} m (snd (am_try_expand mem m)) \<and> am_submit_ring (snd (am_try_expand mem m)) = am_submit_ring m"
  proof (cases "am_buffer_count m \<ge> kMaxBufferCount \<or> mem = None")
    case True
    then show ?thesis by (auto simp: am_try_expand_def am_keep_refl split: option.split)
  next
    case False
    then obtain bytes where b: "mem = Some bytes" by blast
    let ?m = "(am_add_buffer bytes m)\<lparr>am_buffer_count := am_buffer_count m + 1\<rparr>"
    have "am_keep {} m ?m" "am_submit_ring ?m = am_submit_ring m"
      by (simp_all add: am_keep_def am_add_buffer_def am_busy_def nth_append)
    then show ?thesis
      using False b take_active_keep [where m = ?m] am_keep_trans
      by (auto simp: am_try_expand_def Let_def split: option.split)
  qed
  then show "am_keep {} m (snd (am_try_expand mem m))" "am_submit_ring (snd (am_try_expand mem m)) = am_submit_ring m"
    by simp_all
qed

lemma check_backpressure_keep:
  "am_keep {} m (snd (am_check_backpressure mem m))" "am_submit_ring (snd (am_check_backpressure mem m)) = am_submit_ring m"
proof -
  have flag: "am_keep S x (y\<lparr>am_backpressure := b\<rparr>) = am_keep S x y" for S and x y :: "'a append_mgr" and b
    by (simp add: am_keep_def am_busy_def)
  show "am_keep {} m (snd (am_check_backpressure mem m))" "am_submit_ring (snd (am_check_backpressure mem m)) = am_submit_ring m"
    using expand_keep [where m = m and mem = mem]
    by (auto simp: am_check_backpressure_def Let_def flag am_keep_refl split: prod.split bool.split)
qed

text \<open>A reservation: it fails and leaves the buffers, or it takes room at the end of the active one.\<close>

lemma reserve_keep:
  assumes "am_reserve_with_backpressure len mem m = (res, m')"
  obtains (full) err where "res = Inr err" "m' = snd (am_check_backpressure mem m)" "am_keep {} m m'" "am_submit_ring m' = am_submit_ring m"
  | (room) i off m1 where "res = Inl (i, off)" "m1 = snd (am_check_backpressure mem m)" "am_keep {} m m1" "am_submit_ring m1 = am_submit_ring m" "am_active m1 = Some i"
      "off = bf_used (am_all_buffers m1 ! i)" "off + len \<le> kFlushThreshold"
      "m' = am_update_buffer i (\<lambda>b. b\<lparr>bf_used := off + len, bf_entry_count := bf_entry_count b + 1\<rparr>) m1"
proof -
  obtain bp m1 where c: "am_check_backpressure mem m = (bp, m1)" by fastforce
  have k: "am_keep {} m m1" "am_submit_ring m1 = am_submit_ring m" using check_backpressure_keep [where m = m and mem = mem] c by simp_all
  have m1: "m1 = snd (am_check_backpressure mem m)" using c by simp
  show ?thesis
  proof (cases "bp \<or> fst (am_reserve len m1) = None")
    case True
    then obtain err where "res = Inr err" "m' = m1"
      using assms c by (auto simp: am_reserve_with_backpressure_def am_reserve_def split: option.splits if_splits bool.splits)
    with k m1 show ?thesis by (intro full) simp_all
  next
    case False
    then obtain i x where r: "am_reserve len m1 = (Some (i, x), m')" "res = Inl (i, x)"
      using assms c by (cases "am_reserve len m1") (auto simp: am_reserve_with_backpressure_def split: option.splits bool.splits)
    from r(1) have "am_active m1 = Some i" "x = bf_used (am_all_buffers m1 ! i)" "\<not> kFlushThreshold < bf_used (am_all_buffers m1 ! i) + len"
      "m' = am_update_buffer i (\<lambda>b. b\<lparr>bf_used := bf_used (am_all_buffers m1 ! i) + len, bf_entry_count := bf_entry_count b + 1\<rparr>) m1"
      by (auto simp: am_reserve_def buf_reserve_def am_update_buffer_def split: option.splits if_splits)
    with r(2) k m1 show ?thesis by (intro room) (simp_all add: not_less)
  qed
qed

lemma submit_current_keep:
  assumes "am_inv m fl"
  shows "am_keep {} m (am_submit_current_buffer m)" "am_all_buffers (am_submit_current_buffer m) = am_all_buffers m"
    "set (ring_list (am_submit_ring (am_submit_current_buffer m)))
       \<subseteq> set (ring_list (am_submit_ring m)) \<union> {i. am_active m = Some i \<and> bf_used (am_all_buffers m ! i) \<noteq> 0}"
proof -
  have "am_keep {} m (am_submit_current_buffer m) \<and> am_all_buffers (am_submit_current_buffer m) = am_all_buffers m \<and>
    set (ring_list (am_submit_ring (am_submit_current_buffer m)))
       \<subseteq> set (ring_list (am_submit_ring m)) \<union> {i. am_active m = Some i \<and> bf_used (am_all_buffers m ! i) \<noteq> 0}"
  proof (cases "\<exists>i. am_active m = Some i \<and> bf_used (am_all_buffers m ! i) \<noteq> 0")
    case False
    then show ?thesis by (auto simp: am_submit_current_buffer_def am_keep_refl buf_is_empty_def split: option.split)
  next
    case True
    then obtain i where i: "am_active m = Some i" "bf_used (am_all_buffers m ! i) \<noteq> 0" by blast
    let ?m = "m\<lparr>am_submit_ring := snd (ring_enqueue (am_submit_ring m) i), am_active := None\<rparr>"
    have d: "distinct (am_owned m fl)" by (rule am_inv_distinct [OF assms])
    have ring: "ring_wf (am_submit_ring m)" "ring_room (am_submit_ring m) = kMaxBufferCount"
      using assms by (simp_all add: am_inv_def am_rings_ok_def)
    have "length (ring_list (am_submit_ring m)) < kMaxBufferCount"
      by (rule am_ring_length [OF assms, of i]) (use d i in \<open>auto simp: am_owned_def\<close>)
    note e = ring_enqueue_room [OF ring this, of i]
    have "am_keep {} m ?m" using i e by (auto simp: am_keep_def am_busy_def)
    moreover have "am_submit_current_buffer m = am_take_active ?m"
      using i by (simp add: am_submit_current_buffer_def buf_is_empty_def)
    ultimately show ?thesis
      using take_active_keep [where m = ?m] am_keep_trans e i by auto
  qed
  then show "am_keep {} m (am_submit_current_buffer m)" "am_all_buffers (am_submit_current_buffer m) = am_all_buffers m"
    "set (ring_list (am_submit_ring (am_submit_current_buffer m)))
       \<subseteq> set (ring_list (am_submit_ring m)) \<union> {i. am_active m = Some i \<and> bf_used (am_all_buffers m ! i) \<noteq> 0}" by blast+
qed

lemma update_keep: "am_keep {i} m (am_update_buffer i f m)" "am_busy (am_update_buffer i f m) = am_busy m"
  by (simp_all add: am_keep_def am_busy_def) (simp add: am_update_buffer_def)

lemma recycle_keep: "am_keep {i} m (am_recycle i m)" "am_submit_ring (am_recycle i m) = am_submit_ring m"
  using update_keep(1) [of i m buf_reset] by (simp_all add: am_recycle_def Let_def am_keep_def am_busy_def)

lemma return_keep:
  "am_keep {i} m (am_return_buffer i m)" "am_submit_ring (am_return_buffer i m) = am_submit_ring m"
proof -
  have "am_keep {i} m (am_take_active (am_recycle i m)) \<and> am_submit_ring (am_take_active (am_recycle i m)) = am_submit_ring m"
    if "am_active (am_recycle i m) = None"
    using take_active_keep [OF that] recycle_keep am_keep_trans am_keep_mono by (metis empty_subsetI)
  then show "am_keep {i} m (am_return_buffer i m)" "am_submit_ring (am_return_buffer i m) = am_submit_ring m"
    using recycle_keep [of i m]
    by (auto simp: am_return_buffer_def Let_def) (simp_all add: am_keep_def am_busy_def)
qed

lemma reset_loop_keep:
  "am_keep (set is) m (am_reset_loop is m) \<and> am_submit_ring (am_reset_loop is m) = am_submit_ring m"
proof (induction "is" m rule: am_reset_loop.induct)
  case (1 m)
  then show ?case by (simp add: am_keep_def am_busy_def)
next
  case (2 i "is" m)
  have stop: "am_keep (set (i # is)) m (m\<lparr>am_pending_reset := i # is\<rparr>)" by (simp add: am_keep_def am_busy_def)
  show ?case
  proof (cases "buf_can_reset (am_all_buffers m ! i)")
    case True
    have "am_keep (set (i # is)) m (am_recycle i m)" by (rule am_keep_mono [OF recycle_keep(1)]) simp
    moreover have "am_keep (set (i # is)) (am_recycle i m) (am_reset_loop is (am_recycle i m))"
      by (rule am_keep_mono) (use 2 True in auto)
    ultimately show ?thesis using am_keep_trans 2 True recycle_keep(2) by (metis am_reset_loop.simps(2))
  qed (use stop in simp)
qed

section \<open>Every buffered request is answered once\<close>

text \<open>The requests that were answered or are on the way: with the asynchronous operations, in the wait
  queue, in a buffer.\<close>

definition bk_ids :: "buffered_kv \<Rightarrow> nat multiset" where
  "bk_ids b = ak_ids (bk_async b) + mset (map wq_cb (bk_wait b)) + (\<Sum>i<kMaxBufferCount. mset (map bw_cb (bk_pending b i)))"

definition bk_slack :: "buffered_kv \<Rightarrow> u64" where
  "bk_slack b = ak_slack (bk_async b) - word_of_nat (length (bk_ios b))"

definition bk_answers :: "nat list \<Rightarrow> buffered_kv \<Rightarrow> buffered_kv \<Rightarrow> bool" where
  "bk_answers cbs b b' \<longleftrightarrow> bk_ids b' = bk_ids b + mset cbs \<and> bk_slack b' = bk_slack b"

text \<open>The buffers are in their places, \<open>bufs\<close> are those about to be submitted; a buffer with pending
  writes is active, waits for submission or is at the device; one that is submitted is not empty.\<close>

definition bk_held :: "nat list \<Rightarrow> buffered_kv \<Rightarrow> nat set" where
  "bk_held bufs b = set (am_busy (bk_mgr b)) \<union> bi_buffer ` set (bk_ios b) \<union> set bufs"

definition bk_parked :: "nat list \<Rightarrow> buffered_kv \<Rightarrow> nat set" where
  "bk_parked bufs b = set (ring_list (am_submit_ring (bk_mgr b))) \<union> bi_buffer ` set (bk_ios b) \<union> set bufs"

definition bk_flow :: "nat list \<Rightarrow> buffered_kv \<Rightarrow> bool" where
  "bk_flow bufs b \<longleftrightarrow> ak_flow (bk_async b) \<and> am_inv (bk_mgr b) (map bi_buffer (bk_ios b) @ bufs)
     \<and> (\<forall>i. bk_pending b i \<noteq> [] \<longrightarrow> i \<in> bk_held bufs b)
     \<and> (\<forall>i \<in> bk_parked bufs b. bf_used (am_all_buffers (bk_mgr b) ! i) \<noteq> 0)"

lemma bk_answers_trans: "bk_answers xs a b \<Longrightarrow> bk_answers ys b c \<Longrightarrow> bk_answers (xs @ ys) a c"
  by (simp add: bk_answers_def add.assoc)

lemma bk_answers_refl: "bk_answers [] b b"
  by (simp add: bk_answers_def)

lemma bk_flow_held: "bk_flow bufs b \<Longrightarrow> i \<in> bk_held bufs b \<Longrightarrow> i < length (am_all_buffers (bk_mgr b)) \<and> i < kMaxBufferCount"
  using am_inv_owned [of "bk_mgr b" "map bi_buffer (bk_ios b) @ bufs" i]
  by (auto simp: bk_flow_def bk_parked_def bk_held_def am_owned_busy am_inv_def)

text \<open>A change of the manager that keeps the busy buffers, and one of the asynchronous part.\<close>

lemma mgr_answers: "bk_answers cbs b (b\<lparr>bk_mgr := m\<rparr>) = bk_answers cbs b b"
  by (simp add: bk_answers_def bk_ids_def bk_slack_def)

lemma flow_mgr:
  assumes flow: "bk_flow bufs b" and inv: "am_inv m (map bi_buffer (bk_ios b) @ bufs)"
    and keep: "am_keep S (bk_mgr b) m" and S: "S \<inter> bk_held bufs b = {}"
    and sub: "\<forall>i \<in> set (ring_list (am_submit_ring m)).
        bf_used (am_all_buffers m ! i) \<noteq> 0 \<or> i \<in> set (ring_list (am_submit_ring (bk_mgr b)))"
  shows "bk_flow bufs (b\<lparr>bk_mgr := m\<rparr>)"
proof -
  have old: "am_all_buffers m ! i = am_all_buffers (bk_mgr b) ! i" if "i \<in> bk_held bufs b" for i
    using keep S bk_flow_held [OF flow that] that by (auto simp: am_keep_def)
  have "bf_used (am_all_buffers m ! i) \<noteq> 0" if "i \<in> bk_parked bufs b" for i
    using that flow old [of i] by (auto simp: bk_flow_def bk_parked_def bk_held_def bk_parked_def am_busy_def)
  then have "bf_used (am_all_buffers m ! i) \<noteq> 0" if "i \<in> bk_parked bufs (b\<lparr>bk_mgr := m\<rparr>)" for i
    using that sub by (auto simp: bk_parked_def)
  moreover have "bk_held bufs b \<subseteq> bk_held bufs (b\<lparr>bk_mgr := m\<rparr>)" using keep by (auto simp: bk_held_def am_keep_def)
  ultimately show ?thesis using flow inv unfolding bk_flow_def by auto
qed

lemma flow_async: "bk_flow bufs b \<Longrightarrow> ak_flow a \<Longrightarrow> bk_flow bufs (b\<lparr>bk_async := a\<rparr>)"
  by (simp add: bk_flow_def bk_parked_def bk_held_def)

lemma async_answers: "ak_answers cbs (bk_async b) a \<Longrightarrow> bk_answers cbs b (b\<lparr>bk_async := a\<rparr>)"
  by (simp add: bk_answers_def bk_ids_def bk_slack_def ak_answers_def)

lemma set_engine_simps [simp]:
  "bk_flow bufs (bk_set_engine e b) = bk_flow bufs b" "bk_answers cbs (bk_set_engine e b) c = bk_answers cbs b c"
  "bk_answers cbs c (bk_set_engine e b) = bk_answers cbs c b" "bk_mgr (bk_set_engine e b) = bk_mgr b"
  "bk_pending (bk_set_engine e b) = bk_pending b" "bk_ios (bk_set_engine e b) = bk_ios b"
  "bk_wait (bk_set_engine e b) = bk_wait b"
  by (simp_all add: bk_set_engine_def bk_flow_def bk_parked_def bk_held_def flow_engine bk_answers_def bk_ids_def bk_slack_def ak_ids_def ak_slack_def)

lemma bk_set_engine_ids: "bk_ids (bk_set_engine e b) = bk_ids b" "bk_slack (bk_set_engine e b) = bk_slack b"
  by (simp_all add: bk_set_engine_def bk_ids_def bk_slack_def ak_ids_def ak_slack_def)

lemma bk_reply_answers:
  assumes "bk_flow bufs b"
  shows "bk_answers [cb] b (bk_reply cb err b)" "bk_flow bufs (bk_reply cb err b)"
proof -
  have "ak_flow (bk_async b)" using assms by (simp add: bk_flow_def)
  from reply_answers [OF this, of "Done cb err"] assms
  show "bk_answers [cb] b (bk_reply cb err b)" "bk_flow bufs (bk_reply cb err b)"
    by (simp_all add: bk_reply_def async_answers flow_async)
qed

lemma wait_answers:
  "bk_answers [wq_cb w] b (b\<lparr>bk_wait := bk_wait b @ [w]\<rparr>)" "bk_flow bufs (b\<lparr>bk_wait := ws\<rparr>) = bk_flow bufs b"
  by (simp_all add: bk_answers_def bk_ids_def bk_slack_def bk_flow_def bk_parked_def bk_held_def)

lemma flow_register:
  "bk_flow bufs (b\<lparr>bk_mgr := am_register_resume_callback r (bk_mgr b)\<rparr>) = bk_flow bufs b"
  by (simp add: bk_flow_def bk_parked_def bk_held_def am_register_resume_callback_def am_inv_resume am_busy_def)

lemma answers_register: "bk_answers cbs a (b\<lparr>bk_mgr := m\<rparr>) = bk_answers cbs a b"
  by (simp add: bk_answers_def bk_ids_def bk_slack_def)

lemma wait_put_answers:
  assumes "bk_flow bufs b"
  shows "bk_answers [cb] b (wait_put env reg key v len cb b) \<and> bk_flow bufs (wait_put env reg key v len cb b)"
proof (cases "io_dma (ae_io env)")
  case False
  then show ?thesis using bk_reply_answers [OF assms] by (simp add: wait_put_def)
next
  case True
  obtain seq idx where al: "mi_allocate_sequence (en_index (bk_engine b)) = (seq, idx)" by fastforce
  define w where "w = put_wait_entry key v len seq cb"
  have w: "wq_cb w = cb" "wait_put env reg key v len cb b =
      (let b = bk_set_engine ((bk_engine b)\<lparr>en_index := idx\<rparr>) (b\<lparr>bk_wait := bk_wait b @ [w]\<rparr>)
       in if reg then b\<lparr>bk_mgr := am_register_resume_callback () (bk_mgr b)\<rparr> else b)"
    using True by (simp_all add: wait_put_def w_def put_wait_entry_def al Let_def)
  show ?thesis
    unfolding w(2) Let_def using wait_answers(1) [of w b] w(1) assms
    by (simp add: flow_register answers_register wait_answers(2) del: set_engine_simps(4))
qed

subsection \<open>Storing into the active buffer\<close>

lemma am_inv_update_iff: "am_inv (am_update_buffer i f m) fl = am_inv m fl"
  by (simp add: am_inv_def)

lemma am_inv_perm: "mset fl = mset fl' \<Longrightarrow> am_inv m fl = am_inv m fl'"
  by (simp add: am_inv_def am_owned_def)

lemma flow_same_mgr: "bk_flow bufs (b\<lparr>bk_mgr := bk_mgr b\<rparr>) = bk_flow bufs b"
  by simp

lemma flow_update_active:
  assumes "bk_flow bufs b" "am_active (bk_mgr b) = Some i"
  shows "bk_flow bufs (b\<lparr>bk_mgr := am_update_buffer i f (bk_mgr b)\<rparr>)"
proof -
  have "distinct (am_owned (bk_mgr b) (map bi_buffer (bk_ios b) @ bufs))"
    by (rule am_inv_distinct) (use assms(1) in \<open>simp add: bk_flow_def\<close>)
  then have "i \<notin> bk_parked bufs b"
    using assms(2) by (auto simp: am_owned_def bk_parked_def)
  then have "\<forall>j \<in> bk_parked bufs b.
      am_all_buffers (am_update_buffer i f (bk_mgr b)) ! j = am_all_buffers (bk_mgr b) ! j"
    by (metis (no_types, lifting) am_update_buffer_def append_mgr.select_convs(1) append_mgr.surjective append_mgr.update_convs(1) nth_list_update_neq)
  moreover have "bk_parked bufs (b\<lparr>bk_mgr := am_update_buffer i f (bk_mgr b)\<rparr>) = bk_parked bufs b" by (simp add: bk_parked_def)
  ultimately show ?thesis
    using assms(1) unfolding bk_flow_def bk_held_def by (simp add: am_inv_update_iff update_keep(2))
qed

lemma flow_submit_current:
  assumes "bk_flow bufs b"
  shows "bk_flow bufs (b\<lparr>bk_mgr := am_submit_current_buffer (bk_mgr b)\<rparr>)"
proof (rule flow_mgr [OF assms, where S = "{}"])
  have inv: "am_inv (bk_mgr b) (map bi_buffer (bk_ios b) @ bufs)" using assms by (simp add: bk_flow_def)
  show "am_inv (am_submit_current_buffer (bk_mgr b)) (map bi_buffer (bk_ios b) @ bufs)" by (rule am_inv_submit [OF inv])
  note k = submit_current_keep [OF inv]
  show "am_keep {} (bk_mgr b) (am_submit_current_buffer (bk_mgr b))" by (rule k)
  show "\<forall>i\<in>set (ring_list (am_submit_ring (am_submit_current_buffer (bk_mgr b)))).
      bf_used (am_all_buffers (am_submit_current_buffer (bk_mgr b)) ! i) \<noteq> 0
      \<or> i \<in> set (ring_list (am_submit_ring (bk_mgr b)))" using k(2,3) by auto
qed simp

text \<open>A reservation keeps the buffers in their places; when it succeeds, the buffer is the active one.\<close>

lemma flow_reserve:
  assumes flow: "bk_flow bufs b" and res: "am_reserve_with_backpressure len mem (bk_mgr b) = (res, m)"
  shows "bk_flow bufs (b\<lparr>bk_mgr := m\<rparr>)" "\<forall>i off. res = Inl (i, off) \<longrightarrow> am_active m = Some i"
proof -
  let ?fl = "map bi_buffer (bk_ios b) @ bufs"
  have inv: "am_inv m ?fl"
    using am_inv_reserve_with_backpressure [of "bk_mgr b" ?fl len mem] res flow by (simp add: bk_flow_def)
  have base: "bk_flow bufs (b\<lparr>bk_mgr := x\<rparr>)"
    if "am_inv x ?fl" "am_keep {} (bk_mgr b) x" "am_submit_ring x = am_submit_ring (bk_mgr b)" for x
    by (rule flow_mgr [OF flow that(1,2)]) (simp_all add: that)
  from res have "bk_flow bufs (b\<lparr>bk_mgr := m\<rparr>) \<and> (\<forall>i off. res = Inl (i, off) \<longrightarrow> am_active m = Some i)"
  proof (cases rule: reserve_keep)
    case (full err)
    then show ?thesis using base inv by simp
  next
    case (room i off m1)
    then have "bk_flow bufs (b\<lparr>bk_mgr := m1\<rparr>)" using base inv by (simp add: am_inv_update_iff)
    from flow_update_active [OF this, of i] room show ?thesis by simp
  qed
  then show "bk_flow bufs (b\<lparr>bk_mgr := m\<rparr>)" "\<forall>i off. res = Inl (i, off) \<longrightarrow> am_active m = Some i" by blast+
qed

lemma pending_answers:
  assumes "i < kMaxBufferCount"
  shows "bk_answers [bw_cb w] b (b\<lparr>bk_pending := (bk_pending b)(i := bk_pending b i @ [w])\<rparr>)"
proof -
  let ?f = "\<lambda>j. mset (map bw_cb (bk_pending b j))" and ?g = "\<lambda>j. mset (map bw_cb (((bk_pending b)(i := bk_pending b i @ [w])) j))"
  have "sum ?g {..<kMaxBufferCount} = ?g i + sum ?g ({..<kMaxBufferCount} - {i})"
    by (rule sum.remove) (use assms in auto)
  also have "sum ?g ({..<kMaxBufferCount} - {i}) = sum ?f ({..<kMaxBufferCount} - {i})" by (rule sum.cong) auto
  also have "?g i + \<dots> = {#bw_cb w#} + (?f i + sum ?f ({..<kMaxBufferCount} - {i}))" by simp
  also have "?f i + sum ?f ({..<kMaxBufferCount} - {i}) = sum ?f {..<kMaxBufferCount}"
    by (rule sum.remove [symmetric]) (use assms in auto)
  finally show ?thesis by (simp add: bk_answers_def bk_ids_def bk_slack_def)
qed

lemma flow_active_bound: "bk_flow bufs b \<Longrightarrow> am_active (bk_mgr b) = Some i \<Longrightarrow> i < kMaxBufferCount"
  using bk_flow_held [of bufs b i] by (simp add: bk_held_def am_busy_def)

lemma track_write_answers:
  assumes flow: "bk_flow bufs b" and act: "am_active (bk_mgr b) = Some i"
  shows "bk_answers [cb] b (track_write key off sz seq cb b) \<and> bk_flow bufs (track_write key off sz seq cb b)"
proof -
  let ?w = "\<lparr>bw_key = key, bw_sequence = seq, bw_buffer_offset = off, bw_aligned_size = sz,
      bw_page_count = ucast (sz div 4096), bw_tag = kv_tag key, bw_cb = cb\<rparr>"
  let ?b = "b\<lparr>bk_pending := (bk_pending b)(i := bk_pending b i @ [?w])\<rparr>"
  have ans: "bk_answers [cb] b ?b" using pending_answers [OF flow_active_bound [OF flow act], of ?w b] by simp
  have fl: "bk_flow bufs ?b" using flow act by (auto simp: bk_flow_def bk_parked_def bk_held_def am_busy_def)
  show ?thesis
    using ans fl flow_submit_current [OF fl] act by (simp add: track_write_def Let_def answers_register)
qed

lemma store_put_answers:
  assumes flow: "bk_flow bufs b" and act: "am_active (bk_mgr b) = Some (fst slot)"
  shows "bk_answers [cb] b (store_put slot key v len cb b) \<and> bk_flow bufs (store_put slot key v len cb b)"
proof -
  obtain seq idx where al: "mi_allocate_sequence (en_index (bk_engine b)) = (seq, idx)" by fastforce
  let ?b = "bk_write_bytes (fst slot) (snd slot) (build_entry_inplace key (Some v) len seq False)
      (bk_set_engine ((bk_engine b)\<lparr>en_index := idx\<rparr>) b)"
  have fl: "bk_flow bufs ?b"
    unfolding bk_write_bytes_def by (rule flow_update_active) (use flow act in simp_all)
  have act': "am_active (bk_mgr ?b) = Some (fst slot)" using act by (simp add: bk_write_bytes_def)
  have "bk_answers cbs ?b x = bk_answers cbs b x" for cbs x
    by (simp add: bk_write_bytes_def bk_answers_def bk_ids_def bk_slack_def bk_set_engine_def ak_ids_def ak_slack_def)
  then show ?thesis
    using track_write_answers [OF fl act', of cb] by (simp add: store_put_def al Let_def)
qed

lemma answers_mgr: "bk_answers cbs (b\<lparr>bk_mgr := m\<rparr>) c = bk_answers cbs b c"
  by (simp add: bk_answers_def bk_ids_def bk_slack_def)

lemma put_buffered_answers:
  assumes flow: "bk_flow bufs b"
  shows "bk_answers [cb] b (put_buffered env mem mem' key value len cb b)
    \<and> bk_flow bufs (put_buffered env mem mem' key value len cb b)"
proof -
  obtain res m where r: "am_reserve_with_backpressure (kv_entry_size len) mem (bk_mgr b) = (res, m)" by fastforce
  note f = flow_reserve [OF flow r]
  obtain res2 m2 where r2: "am_reserve_with_backpressure (kv_entry_size len) mem' (am_submit_current_buffer m) = (res2, m2)" by fastforce
  have r2': "am_reserve_with_backpressure (kv_entry_size len) mem' (bk_mgr (b\<lparr>bk_mgr := am_submit_current_buffer m\<rparr>)) = (res2, m2)"
    using r2 by simp
  have "bk_flow bufs (b\<lparr>bk_mgr := am_submit_current_buffer m\<rparr>)" using flow_submit_current [OF f(1)] by simp
  note f2 = flow_reserve [OF this r2']
  have store: "bk_answers [cb] b (store_put slot key v len cb (b\<lparr>bk_mgr := x\<rparr>)) \<and> bk_flow bufs (store_put slot key v len cb (b\<lparr>bk_mgr := x\<rparr>))"
    if "bk_flow bufs (b\<lparr>bk_mgr := x\<rparr>)" "am_active x = Some (fst slot)" for x slot v
    using store_put_answers [OF that(1), of slot cb] that(2) by (simp add: answers_mgr)
  have wait: "bk_answers [cb] b (wait_put env reg key v len cb (b\<lparr>bk_mgr := x\<rparr>)) \<and> bk_flow bufs (wait_put env reg key v len cb (b\<lparr>bk_mgr := x\<rparr>))"
    if "bk_flow bufs (b\<lparr>bk_mgr := x\<rparr>)" for x reg v
    using wait_put_answers [OF that, of cb] by (simp add: answers_mgr)
  show ?thesis
    using f f2 store wait bk_reply_answers [OF flow]
    by (auto simp: put_buffered_def Let_def r r2 split: sum.split)
qed

subsection \<open>Submission and completion\<close>

text \<open>What answering one write of a buffer does to the rest of the state.\<close>

definition bk_only_answers :: "nat list \<Rightarrow> buffered_kv \<Rightarrow> buffered_kv \<Rightarrow> bool" where
  "bk_only_answers cbs b b' \<longleftrightarrow> bk_answers cbs b b' \<and> bk_mgr b' = bk_mgr b \<and> bk_pending b' = bk_pending b
     \<and> bk_ios b' = bk_ios b \<and> (ak_flow (bk_async b) \<longrightarrow> ak_flow (bk_async b'))"

lemma only_answers_fold:
  "(\<And>w b. bk_only_answers [bw_cb w] b (f w b)) \<Longrightarrow> bk_only_answers (map bw_cb ws) b (fold f ws b)"
proof (induction ws arbitrary: b)
  case Nil
  show ?case by (simp add: bk_only_answers_def bk_answers_refl)
next
  case (Cons w ws)
  have "bk_only_answers [bw_cb w] b (f w b)" "bk_only_answers (map bw_cb ws) (f w b) (fold f ws (f w b))"
    using Cons by blast+
  then show ?case
    using bk_answers_trans [of "[bw_cb w]" b "f w b" "map bw_cb ws"] by (simp add: bk_only_answers_def)
qed

lemma reply_only_answers: "bk_only_answers [cb] b (bk_reply cb err b)"
  by (auto simp: bk_only_answers_def bk_reply_def ak_flow_def ak_reply_def bk_answers_def bk_ids_def bk_slack_def ak_ids_def
      ak_slack_def)

lemma only_answers_engine: "bk_only_answers cbs (bk_set_engine e b) c = bk_only_answers cbs b c"
  by (simp add: bk_only_answers_def) (simp add: bk_set_engine_def flow_engine)

lemma complete_write_only_answers: "bk_only_answers [bw_cb w] b (complete_buffered_write status fid base w b)"
  by (simp add: complete_buffered_write_def Let_def reply_only_answers) (metis only_answers_engine reply_only_answers)

text \<open>The writes of a buffer are answered, then the buffer goes back to the manager.\<close>

lemma release_answers:
  assumes flow: "bk_flow (i # bufs) b" and only: "bk_only_answers (map bw_cb (bk_pending b i)) b b1"
  shows "bk_answers [] b (b1\<lparr>bk_pending := (bk_pending b1)(i := []), bk_mgr := am_return_buffer i (bk_mgr b1)\<rparr>)
    \<and> bk_flow bufs (b1\<lparr>bk_pending := (bk_pending b1)(i := []), bk_mgr := am_return_buffer i (bk_mgr b1)\<rparr>)"
    (is "bk_answers [] b ?b \<and> _")
proof
  let ?f = "\<lambda>j. mset (map bw_cb (bk_pending b j))" and ?g = "\<lambda>j. mset (map bw_cb (((bk_pending b)(i := [])) j))"
  have same: "bk_mgr b1 = bk_mgr b" "bk_pending b1 = bk_pending b" "bk_ios b1 = bk_ios b"
    using only by (simp_all add: bk_only_answers_def)
  have i: "i < kMaxBufferCount" using bk_flow_held [OF flow, of i] by (simp add: bk_held_def)
  then have "sum ?f {..<kMaxBufferCount} = ?f i + sum ?f ({..<kMaxBufferCount} - {i})"
    "sum ?g {..<kMaxBufferCount} = ?g i + sum ?g ({..<kMaxBufferCount} - {i})" by (simp_all add: sum.remove del: fun_upd_apply)
  moreover have "sum ?g ({..<kMaxBufferCount} - {i}) = sum ?f ({..<kMaxBufferCount} - {i})" by (rule sum.cong) auto
  ultimately have "sum ?f {..<kMaxBufferCount} = ?f i + sum ?g {..<kMaxBufferCount}" by simp
  then show "bk_answers [] b ?b"
    using only same by (simp add: bk_only_answers_def bk_answers_def bk_ids_def bk_slack_def)
  let ?fl = "map bi_buffer (bk_ios b) @ i # bufs" and ?m = "am_return_buffer i (bk_mgr b)"
  have inv: "am_inv (bk_mgr b) ?fl" using flow by (simp add: bk_flow_def)
  have "am_inv ?m (remove1 i ?fl)" by (rule am_inv_return [OF inv]) simp
  then have inv': "am_inv ?m (map bi_buffer (bk_ios b) @ bufs)"
    by (subst am_inv_perm [where fl' = "remove1 i ?fl"]) simp_all
  have d: "distinct (am_owned (bk_mgr b) ?fl)" by (rule am_inv_distinct [OF inv])
  have old: "am_all_buffers ?m ! j = am_all_buffers (bk_mgr b) ! j" if "j \<in> bk_held (i # bufs) b" "j \<noteq> i" for j
    using return_keep(1) [of i "bk_mgr b"] bk_flow_held [OF flow that(1)] that(2) by (simp add: am_keep_def)
  have "bf_used (am_all_buffers ?m ! j) \<noteq> 0" if "j \<in> bk_parked bufs ?b" for j
  proof -
    have p: "j \<in> bk_parked (i # bufs) b" "j \<noteq> i"
      using that d same return_keep(2) [of i "bk_mgr b"] by (auto simp: bk_parked_def am_owned_busy am_busy_def)
    then have "j \<in> bk_held (i # bufs) b" by (auto simp: bk_parked_def bk_held_def am_busy_def)
    with old p flow show ?thesis by (simp add: bk_flow_def)
  qed
  moreover have "j \<in> bk_held bufs ?b" if "bk_pending ?b j \<noteq> []" for j
    using that flow return_keep(1) [of i "bk_mgr b"] same
    by (auto simp: bk_flow_def bk_held_def am_keep_def split: if_splits)
  ultimately show "bk_flow bufs ?b"
    using inv' flow only same by (simp add: bk_flow_def bk_only_answers_def)
qed

definition bk_count :: "u64 \<Rightarrow> buffered_kv \<Rightarrow> buffered_kv" where
  "bk_count n b = b\<lparr>bk_async := (bk_async b)\<lparr>ak_foreground := ak_foreground (bk_async b) + n\<rparr>\<rparr>"

lemma count_simps [simp]:
  "bk_flow bufs (bk_count n b) = bk_flow bufs b" "bk_ids (bk_count n b) = bk_ids b" "bk_slack (bk_count n b) = bk_slack b + n"
  "bk_pending (bk_count n b) = bk_pending b" "bk_mgr (bk_count n b) = bk_mgr b" "bk_ios (bk_count n b) = bk_ios b"
  by (simp_all add: bk_count_def bk_flow_def bk_held_def bk_parked_def ak_flow_def bk_ids_def ak_ids_def bk_slack_def ak_slack_def)

lemma buffer_complete_answers:
  assumes "bk_flow (i # bufs) b"
  shows "bk_answers [] (bk_count (-1) b) (on_buffer_io_complete status i fid base b) \<and> bk_flow bufs (on_buffer_io_complete status i fid base b)"
proof -
  let ?c = "bk_count (-1) b"
  have "bk_only_answers (map bw_cb (bk_pending ?c i)) ?c (fold (complete_buffered_write status fid base) (bk_pending ?c i) ?c)"
    by (rule only_answers_fold) (rule complete_write_only_answers)
  moreover have "bk_flow (i # bufs) ?c" using assms by simp
  ultimately show ?thesis
    using release_answers [of i bufs ?c]
    by (simp add: on_buffer_io_complete_def Let_def bk_count_def)
qed

lemma fail_buffer_answers:
  assumes "bk_flow (i # bufs) b"
  shows "bk_answers [] b (fail_buffer err i b) \<and> bk_flow bufs (fail_buffer err i b)"
  unfolding fail_buffer_def Let_def
  by (rule release_answers [OF assms], rule only_answers_fold) (rule reply_only_answers)

lemma send_buffer_answers:
  assumes flow: "bk_flow (i # bufs) b"
  shows "bk_answers [] b (send_buffer env fi i b) \<and> bk_flow bufs (send_buffer env fi i b)"
proof -
  let ?f = "en_files (bk_engine b) ! fi"
  define c where "c = bk_count 1 (bk_set_engine (advance_file fi (bf_used (am_all_buffers (bk_mgr b) ! i)) (bk_engine b)) b)"
  have c: "bk_flow (i # bufs) c" "bk_ids c = bk_ids b" "bk_slack c = bk_slack b + 1"
    using flow by (simp_all add: c_def bk_set_engine_ids)
  show ?thesis
  proof (cases "fi_blob_opened ?f \<and> io_ready env")
    case True
    have "\<exists>io. bi_buffer io = i \<and> send_buffer env fi i b = c\<lparr>bk_ios := bk_ios c @ [io]\<rparr>"
      using True by (auto simp: send_buffer_def Let_def c_def bk_count_def intro!: exI)
    then obtain io where io: "bi_buffer io = i" "send_buffer env fi i b = c\<lparr>bk_ios := bk_ios c @ [io]\<rparr>" by blast
    have "bk_flow bufs (c\<lparr>bk_ios := bk_ios c @ [io]\<rparr>)"
      using c(1) io(1) by (simp add: bk_flow_def bk_held_def bk_parked_def insert_commute Un_commute Un_left_commute)
    moreover have "bk_ids (c\<lparr>bk_ios := bk_ios c @ [io]\<rparr>) = bk_ids c" "bk_slack (c\<lparr>bk_ios := bk_ios c @ [io]\<rparr>) = bk_slack c - 1"
      by (simp_all add: bk_ids_def bk_slack_def)
    ultimately show ?thesis using c unfolding io(2) by (simp add: bk_answers_def)
  next
    case False
    then have s: "send_buffer env fi i b = on_buffer_io_complete (-1) i (fi_file_id ?f) (ucast (fi_write_offset ?f div kPageSize)) c"
      by (auto simp: send_buffer_def Let_def c_def bk_count_def)
    show ?thesis using buffer_complete_answers [OF c(1)] c(2,3) unfolding s by (simp add: bk_answers_def)
  qed
qed

lemma submit_buffer_answers:
  assumes flow: "bk_flow (i # bufs) b"
  shows "bk_answers [] b (submit_buffer_io env i b) \<and> bk_flow bufs (submit_buffer_io env i b)"
proof -
  have "\<not> buf_is_empty (am_all_buffers (bk_mgr b) ! i)"
    using flow by (simp add: bk_flow_def bk_parked_def buf_is_empty_def)
  moreover have "bk_flow (i # bufs) (bk_set_engine e b)" for e using flow by simp
  note this [THEN send_buffer_answers] this [THEN fail_buffer_answers]
  ultimately show ?thesis
    by (simp add: submit_buffer_io_def Let_def split: prod.split option.split)
qed

lemma submit_buffers_answers:
  "bk_flow bufs b \<Longrightarrow> bk_answers [] b (fold (submit_buffer_io env) bufs b) \<and> bk_flow [] (fold (submit_buffer_io env) bufs b)"
proof (induction bufs arbitrary: b)
  case Nil
  then show ?case by (simp add: bk_answers_refl)
next
  case (Cons i bufs)
  show ?case
    using submit_buffer_answers [OF Cons.prems, of env] Cons.IH [of "submit_buffer_io env i b"]
      bk_answers_trans [of "[]" b "submit_buffer_io env i b" "[]"] by auto
qed

lemma flow_get_pending:
  assumes flow: "bk_flow [] b" and g: "am_get_pending_buffers n (bk_mgr b) = (bufs, m)"
  shows "bk_flow bufs (b\<lparr>bk_mgr := m\<rparr>)"
proof -
  have inv: "am_inv (bk_mgr b) (map bi_buffer (bk_ios b))" using flow by (simp add: bk_flow_def)
  have wf: "ring_wf (am_submit_ring (bk_mgr b))" using inv by (simp add: am_inv_def am_rings_ok_def)
  obtain ring where d: "dequeue_upto ring_dequeue n (am_submit_ring (bk_mgr b)) = (bufs, ring)"
    and m: "m = (bk_mgr b)\<lparr>am_submit_ring := ring\<rparr>"
    using g by (auto simp: am_get_pending_buffers_def split: prod.splits)
  have "ring_list (am_submit_ring (bk_mgr b)) = bufs @ ring_list ring"
    using sring.dequeue_upto_fifo [OF wf d] by (auto simp: append_take_drop_id)
  then show ?thesis
    using flow am_inv_get_pending [OF inv g] by (auto simp: bk_flow_def bk_held_def bk_parked_def am_busy_def m)
qed

lemma submit_step_answers:
  assumes flow: "bk_flow [] b"
  shows "bk_answers [] b (submit_step env b) \<and> bk_flow [] (submit_step env b)"
proof -
  obtain bufs m where g: "am_get_pending_buffers 16 (bk_mgr b) = (bufs, m)" by fastforce
  from submit_buffers_answers [OF flow_get_pending [OF flow g], of env] show ?thesis by (simp add: submit_step_def g answers_mgr)
qed

subsection \<open>The wait queue\<close>

lemma send_waiting_answers:
  assumes "ak_flow a"
  shows "ak_answers [wq_cb w] a (send_waiting env w a) \<and> ak_flow (send_waiting env w a)"
proof (cases "need_new_file (ucast (wq_aligned_size w)) (ak_engine a) \<or> ak_allocating a")
  case True
  then show ?thesis
    using enqueue_answers [OF refl assms, of "wait_request w" env] by (simp add: send_waiting_def Let_def wait_request_def)
next
  case False
  then obtain i where i: "get_active_file (ak_engine a) = Some i" using need_new_file_active by blast
  then have "send_waiting env w a = submit_queued_write (ae_io env) i (wait_request w) a"
    using False by (simp add: send_waiting_def Let_def)
  then show ?thesis
    using queued_write_answers [of "wait_request w" a "ae_io env" i] ak_flow_same assms
    by (metis wait_request_def pending_write.select_convs(8))
qed

lemma wait_loop_answers:
  "bk_flow bufs b \<Longrightarrow> bk_answers (map wq_cb ws) (b\<lparr>bk_wait := []\<rparr>) (wait_loop env ws b) \<and> bk_flow bufs (wait_loop env ws b)"
proof (induction ws arbitrary: b)
  case Nil
  then show ?case by (simp add: wait_answers(2) bk_answers_refl)
next
  case (Cons w ws)
  show ?case
  proof (cases "am_backpressure (bk_mgr b)")
    case True
    have "wait_loop env (w # ws) b = (b\<lparr>bk_wait := w # ws\<rparr>)\<lparr>bk_mgr := am_register_resume_callback () (bk_mgr (b\<lparr>bk_wait := w # ws\<rparr>))\<rparr>"
      using True by simp
    moreover have "bk_answers (map wq_cb (w # ws)) (b\<lparr>bk_wait := []\<rparr>) (b\<lparr>bk_wait := w # ws\<rparr>)"
      by (simp add: bk_answers_def bk_ids_def bk_slack_def)
    ultimately show ?thesis using Cons.prems by (simp only: flow_register answers_register wait_answers(2))
  next
    case False
    let ?b = "b\<lparr>bk_async := send_waiting env w (bk_async b)\<rparr>"
    have a: "ak_answers [wq_cb w] (bk_async b) (bk_async ?b) \<and> ak_flow (bk_async ?b)"
      using send_waiting_answers [of "bk_async b" w env] Cons.prems by (simp add: bk_flow_def)
    then have b: "bk_flow bufs ?b" using flow_async [OF Cons.prems] by simp
    have "bk_answers [wq_cb w] (b\<lparr>bk_wait := []\<rparr>) (?b\<lparr>bk_wait := []\<rparr>)"
      using a by (simp add: bk_answers_def bk_ids_def bk_slack_def ak_answers_def)
    from bk_answers_trans [OF this] Cons.IH [OF b] False show ?thesis by simp
  qed
qed

lemma process_wait_answers:
  assumes "bk_flow bufs b"
  shows "bk_answers [] b (process_wait_queue env b) \<and> bk_flow bufs (process_wait_queue env b)"
proof -
  have "bk_answers (map wq_cb (bk_wait b)) (b\<lparr>bk_wait := []\<rparr>) c = bk_answers [] b c" for c
    by (simp add: bk_answers_def bk_ids_def bk_slack_def ac_simps)
  then show ?thesis using wait_loop_answers [OF assms, of "bk_wait b" env] by (simp add: process_wait_queue_def)
qed

section \<open>poll and the runs\<close>

lemma bk_answers_step: "bk_answers [] a b \<and> bk_flow bufs b \<Longrightarrow> (bk_flow bufs b \<Longrightarrow> bk_answers [] b c \<and> bk_flow bufs c)
    \<Longrightarrow> bk_answers [] a c \<and> bk_flow bufs c"
  using bk_answers_trans [of "[]" a b "[]" c] by simp

lemma flow_check_resets:
  assumes flow: "bk_flow bufs b"
  shows "bk_flow bufs (b\<lparr>bk_mgr := am_check_pending_resets (bk_mgr b)\<rparr>)"
proof -
  let ?ps = "am_pending_reset (bk_mgr b)"
  have inv: "am_inv (bk_mgr b) (map bi_buffer (bk_ios b) @ bufs)" using flow by (simp add: bk_flow_def)
  have "set ?ps \<inter> bk_held bufs b = {}"
    using am_inv_distinct [OF inv] by (auto simp: am_owned_busy bk_held_def)
  then show ?thesis
    using reset_loop_keep [of ?ps "bk_mgr b"] am_inv_check_resets [OF inv]
    by (intro flow_mgr [OF flow]) (auto simp: am_check_pending_resets_def)
qed

lemma flow_resume:
  assumes "am_process_resume_notifications (bk_mgr b) = (fired, m)"
  shows "bk_flow bufs (b\<lparr>bk_mgr := m\<rparr>) = bk_flow bufs b"
proof -
  have "am_all_buffers m = am_all_buffers (bk_mgr b)" "am_submit_ring m = am_submit_ring (bk_mgr b)"
    "am_complete_ring m = am_complete_ring (bk_mgr b)" "am_active m = am_active (bk_mgr b)"
    "am_buffer_count m = am_buffer_count (bk_mgr b)" "am_pending_reset m = am_pending_reset (bk_mgr b)"
    using assms by (auto simp: am_process_resume_notifications_def split: if_splits prod.splits)
  then show ?thesis
    by (simp add: bk_flow_def bk_held_def bk_parked_def am_busy_def am_inv_def am_owned_def am_rings_ok_def)
qed

lemma resume_step_answers:
  assumes "bk_flow bufs b"
  shows "bk_answers [] b (resume_step env b) \<and> bk_flow bufs (resume_step env b)"
proof -
  obtain fired m where p: "am_process_resume_notifications (bk_mgr b) = (fired, m)" by fastforce
  have "bk_flow bufs c \<Longrightarrow> bk_answers [] c (fold (\<lambda>_. process_wait_queue env) us c) \<and> bk_flow bufs (fold (\<lambda>_. process_wait_queue env) us c)"
    for c and us :: "unit list"
  proof (induction us arbitrary: c)
    case Nil
    then show ?case by (simp add: bk_answers_refl)
  next
    case (Cons u us)
    then show ?case using process_wait_answers [OF Cons.prems, of env] bk_answers_trans [of "[]" c _ "[]"] by fastforce
  qed
  from this [of "b\<lparr>bk_mgr := m\<rparr>" fired] flow_resume [OF p] assms show ?thesis
    by (simp add: resume_step_def p answers_mgr)
qed

lemma poll_answers:
  assumes "bk_flow [] b"
  shows "bk_answers [] b (poll_buffers env now b) \<and> bk_flow [] (poll_buffers env now b)"
proof -
  let ?b = "b\<lparr>bk_mgr := am_check_pending_resets (bk_mgr b)\<rparr>"
  have flush: "bk_answers [] c (flush_step now c) \<and> bk_flow [] (flush_step now c)" if "bk_flow [] c" for c
  proof -
    have "bk_flow [] (x\<lparr>bk_last_flush := now\<rparr>) = bk_flow [] x" "bk_answers [] y (x\<lparr>bk_last_flush := now\<rparr>) = bk_answers [] y x"
      for x y by (simp_all add: bk_flow_def bk_held_def bk_parked_def bk_answers_def bk_ids_def bk_slack_def)
    then show ?thesis using that flow_submit_current [OF that] by (simp add: flush_step_def Let_def answers_register bk_answers_refl)
  qed
  have wait: "bk_answers [] c (wait_step env c) \<and> bk_flow [] (wait_step env c)" if "bk_flow [] c" for c
    using process_wait_answers [OF that] that by (simp add: wait_step_def bk_answers_refl)
  have 1: "bk_answers [] b ?b \<and> bk_flow [] ?b" using flow_check_resets [OF assms] by (simp add: answers_register bk_answers_refl)
  note 2 = bk_answers_step [OF 1 flush]
  note 3 = bk_answers_step [OF 2 submit_step_answers]
  note 4 = bk_answers_step [OF 3 resume_step_answers]
  show ?thesis unfolding poll_buffers_def Let_def by (rule bk_answers_step [OF 4 wait])
qed

fun bk_event_ids :: "bk_event \<Rightarrow> nat list" where
  "bk_event_ids (BvPut env mem mem' key value len cb) = [cb]"
| "bk_event_ids (BvIo n status torn) = []"
| "bk_event_ids (BvPoll env now) = []"
| "bk_event_ids (BvAsync ev) = event_ids ev"

lemma flow_take_io:
  assumes flow: "bk_flow [] b" and n: "n < length (bk_ios b)"
  shows "bk_flow [bi_buffer (bk_ios b ! n)] (b\<lparr>bk_ios := take n (bk_ios b) @ drop (Suc n) (bk_ios b)\<rparr>)"
proof -
  let ?io = "bk_ios b ! n" and ?b = "b\<lparr>bk_ios := take n (bk_ios b) @ drop (Suc n) (bk_ios b)\<rparr>"
  have split: "bk_ios b = take n (bk_ios b) @ ?io # drop (Suc n) (bk_ios b)" by (rule id_take_nth_drop [OF n])
  have "mset (map bi_buffer (bk_ios b)) = mset (map bi_buffer (bk_ios ?b) @ [bi_buffer ?io])" by (subst split) simp
  then have "am_inv (bk_mgr b) (map bi_buffer (bk_ios ?b) @ [bi_buffer ?io])"
    using flow am_inv_perm by (metis bk_flow_def append_Nil2)
  moreover have "bi_buffer ` set (bk_ios b) = insert (bi_buffer ?io) (bi_buffer ` set (bk_ios ?b))" by (subst split) auto
  then have "bk_held [bi_buffer ?io] ?b = bk_held [] b" "bk_parked [bi_buffer ?io] ?b = bk_parked [] b"
    by (auto simp: bk_held_def bk_parked_def)
  ultimately show ?thesis using flow by (simp add: bk_flow_def)
qed

lemma bk_io_done_answers:
  assumes flow: "bk_flow [] b" and n: "n < length (bk_ios b)"
  shows "bk_answers [] b (bk_step (BvIo n status torn) b) \<and> bk_flow [] (bk_step (BvIo n status torn) b)"
proof -
  let ?io = "bk_ios b ! n" and ?b = "b\<lparr>bk_ios := take n (bk_ios b) @ drop (Suc n) (bk_ios b)\<rparr>"
  have "bk_ids ?b = bk_ids b" "bk_slack ?b = bk_slack b + 1" using n by (simp_all add: bk_ids_def bk_slack_def of_nat_diff)
  then have b: "bk_answers [] b x = bk_answers [] (bk_count (-1) (bk_set_engine e ?b)) x" for x e
    by (simp add: bk_answers_def bk_set_engine_ids)
  obtain e where step: "bk_step (BvIo n status torn) b
      = on_buffer_io_complete status (bi_buffer ?io) (bi_file_id ?io) (bi_base_page ?io) (bk_set_engine e ?b)"
    using n by (simp add: bk_io_done_def Let_def)
  have "bk_flow [bi_buffer ?io] (bk_set_engine e ?b)" using flow_take_io [OF assms] by simp
  from buffer_complete_answers [OF this] show ?thesis unfolding step b [of _ e] by blast
qed

lemma bk_step_answers:
  assumes "bk_flow [] b"
  shows "bk_answers (bk_event_ids ev) b (bk_step ev b) \<and> bk_flow [] (bk_step ev b)"
proof (cases ev)
  case (BvPut env mem mem' key v len cb)
  then show ?thesis using put_buffered_answers [OF assms] by simp
next
  case (BvIo n status torn)
  then show ?thesis using bk_io_done_answers [OF assms] assms by (cases "n < length (bk_ios b)") (simp_all add: bk_answers_refl)
next
  case (BvPoll env now)
  then show ?thesis using poll_answers [OF assms] by simp
next
  case (BvAsync ev')
  have a: "ak_flow (bk_async b)" using assms by (simp add: bk_flow_def)
  show ?thesis using step_answers [OF a, of ev'] flow_async [OF assms] async_answers BvAsync by auto
qed

lemma bk_run_answers:
  "bk_flow [] b \<Longrightarrow> bk_answers (concat (map bk_event_ids evs)) b (bk_run evs b) \<and> bk_flow [] (bk_run evs b)"
proof (induction evs arbitrary: b)
  case Nil
  then show ?case by (simp add: bk_run_def bk_answers_refl)
next
  case (Cons ev evs)
  then show ?case using bk_step_answers [OF Cons.prems, of ev] bk_answers_trans by (fastforce simp: bk_run_def)
qed

lemma am_initialize_empty:
  assumes "am_initialize mems buffer_size (am_new ()) = (True, m)"
  shows "ring_list (am_submit_ring m) = []"
proof -
  have loop: "am_submit_ring (snd (am_init_loop mems x)) = am_submit_ring x" for x :: "unit append_mgr"
    by (induction mems x rule: am_init_loop.induct) (simp_all add: am_add_buffer_def)
  have "am_submit_ring m = am_submit_ring (am_new ())"
    using assms loop [of "(am_new ())\<lparr>am_buffer_size := buffer_size\<rparr>"]
    by (auto simp: am_initialize_def Let_def am_take_active_def split: prod.splits bool.splits option.splits)
  then show ?thesis using ring_new_list [of "kMaxBufferCount + 1" "0 :: nat"] by (simp add: am_new_def)
qed

lemma bk_start_flow:
  assumes "am_initialize mems buffer_size (am_new ()) = (True, m)" "length mems \<le> kMaxBufferCount"
  shows "bk_flow [] (bk_start e m)"
  using am_initialize_inv [OF assms] am_initialize_empty [OF assms(1)]
  by (simp add: bk_flow_def bk_start_def ak_start_def ak_flow_def bk_parked_def)

text \<open>C11: No request of the buffered path is lost and none is answered twice. After any sequence of puts,
  completions, polls and asynchronous calls the requests made are those answered, at the device,
  queued for a file, waiting for the end of the back-pressure, or in a buffer; the count of pending
  requests is the number of requests at the device; and a buffer that holds requests is the active
  one, waits for submission or is at the device, so that none is forgotten in a free buffer.\<close>

theorem buffered_answers_once:
  assumes "am_initialize mems buffer_size (am_new ()) = (True, m)" "length mems \<le> kMaxBufferCount"
    and "b = bk_run evs (bk_start e m)"
  shows "mset (map reply_id (ak_replies (bk_async b))) + mset (map flight_id (ak_flights (bk_async b)))
      + mset (map pw_cb (ak_queue (bk_async b))) + mset (map wq_cb (bk_wait b))
      + (\<Sum>i<kMaxBufferCount. mset (map bw_cb (bk_pending b i))) = mset (concat (map bk_event_ids evs))
    \<and> ak_foreground (bk_async b) = word_of_nat (length (ak_flights (bk_async b)) + length (bk_ios b))
    \<and> {i. bk_pending b i \<noteq> []} \<subseteq> set_option (am_active (bk_mgr b)) \<union> set (ring_list (am_submit_ring (bk_mgr b)))
        \<union> bi_buffer ` set (bk_ios b)"
proof -
  have "bk_ids (bk_start e m) = {#}" "bk_slack (bk_start e m) = 0"
    by (simp_all add: bk_ids_def bk_slack_def ak_ids_def ak_slack_def bk_start_def ak_start_def)
  moreover have "bk_answers (concat (map bk_event_ids evs)) (bk_start e m) b \<and> bk_flow [] b"
    using bk_run_answers [OF bk_start_flow [OF assms(1,2)]] assms(3) by blast
  ultimately show ?thesis
    by (auto simp: bk_answers_def bk_ids_def bk_slack_def ak_ids_def ak_slack_def bk_flow_def bk_held_def am_busy_def
        algebra_simps split: option.splits)
qed

theorem buffered_answers_once_witness:
  "\<exists>b :: buffered_kv. mset (map reply_id (ak_replies (bk_async b))) + mset (map flight_id (ak_flights (bk_async b)))
      + mset (map pw_cb (ak_queue (bk_async b))) + mset (map wq_cb (bk_wait b))
      + (\<Sum>i<kMaxBufferCount. mset (map bw_cb (bk_pending b i))) = {#7, 8#}"
proof -
  obtain m where m: "am_initialize [Some [], Some []] 4096 (am_new ()) = (True, m)" using am_two_buffers by blast
  have "length [Some [], Some ([] :: byte list)] \<le> kMaxBufferCount" by (simp add: kMaxBufferCount_def)
  from buffered_answers_once [OF m this refl, of "[BvPut \<lparr>ae_io = demo_io, ae_checkpoint = None\<rparr> None None 5 (Some [1]) 1 7,
      BvPoll \<lparr>ae_io = demo_io, ae_checkpoint = None\<rparr> 0, BvPut \<lparr>ae_io = demo_io, ae_checkpoint = None\<rparr> None None 6 None 1 8]" demo_store]
  show ?thesis by (intro exI) (erule conjunct1 [THEN trans], simp)
qed

end
