(* ===== verification/KvBufferedOps.thy ===== *)
theory KvBufferedOps
  imports KvBufferedSpec
begin

text \<open>
  The content of the buffers: what the device receives for a request is the entry that was put. Then
  the paths on which the buffered operations fail.
\<close>

section \<open>The writes in the buffers\<close>

text \<open>A write tracked with a buffer is the entry of a put that was made, inside the used part.\<close>

definition bk_entry :: "buffered_write \<Rightarrow> byte list \<Rightarrow> u32 \<Rightarrow> byte list" where
  "bk_entry w v len = build_entry_inplace (bw_key w) (Some v) len (bw_sequence w) False"

definition bk_holds :: "append_buffer \<Rightarrow> buffered_write \<Rightarrow> byte list \<Rightarrow> u32 \<Rightarrow> bool" where
  "bk_holds buf w v len \<longleftrightarrow> length v = unat len \<and> unat (bw_buffer_offset w) + unat (kv_entry_size len) \<le> unat (bf_used buf)
     \<and> slice (unat (bw_buffer_offset w)) (unat (kv_entry_size len)) (bf_bytes buf) = bk_entry w v len
     \<and> 4096 dvd unat (bw_buffer_offset w) \<and> 4096 * unat (bw_page_count w) = unat (kv_entry_size len) \<and> bw_tag w = kv_tag (bw_key w)"

definition bk_was_put :: "bk_event set \<Rightarrow> buffered_write \<Rightarrow> byte list \<Rightarrow> u32 \<Rightarrow> bool" where
  "bk_was_put E w v len \<longleftrightarrow> (\<exists>env mem mem'. BvPut env mem mem' (bw_key w) (Some v) len (bw_cb w) \<in> E)"

definition bk_stored :: "bk_event set \<Rightarrow> append_buffer \<Rightarrow> buffered_write \<Rightarrow> bool" where
  "bk_stored E buf w \<longleftrightarrow> (\<exists>v len. bk_was_put E w v len \<and> bk_holds buf w v len)"

definition buf_ok :: "append_buffer \<Rightarrow> bool" where
  "buf_ok buf \<longleftrightarrow> bf_used buf \<le> kFlushThreshold \<and> unat kFlushThreshold \<le> length (bf_bytes buf) \<and> 4096 dvd unat (bf_used buf)"

definition bufs_ok :: "'r append_mgr \<Rightarrow> bool" where
  "bufs_ok m \<longleftrightarrow> list_all buf_ok (am_all_buffers m)"

text \<open>The page of a request is the one its offset lies in.\<close>

definition io_page_ok :: "buffer_io \<Rightarrow> bool" where
  "io_page_ok io \<longleftrightarrow> bi_base_page io = ucast (word_of_nat (bi_offset io) div kPageSize :: u64)"

definition bk_data :: "bk_event set \<Rightarrow> buffered_kv \<Rightarrow> bool" where
  "bk_data E b \<longleftrightarrow> bufs_ok (bk_mgr b)
     \<and> (\<forall>i. list_all (bk_stored E (am_all_buffers (bk_mgr b) ! i)) (bk_pending b i))
     \<and> list_all (\<lambda>io. bi_data io = take (unat (bf_used (am_all_buffers (bk_mgr b) ! bi_buffer io)))
                                        (bf_bytes (am_all_buffers (bk_mgr b) ! bi_buffer io))
                        \<and> io_page_ok io) (bk_ios b)"

text \<open>What the surroundings hand over: buffers of the size asked for, values of the length named.\<close>

fun bk_event_ok :: "bk_event \<Rightarrow> bool" where
  "bk_event_ok (BvPut env mem mem' key v len cb) \<longleftrightarrow>
     (case v of None \<Rightarrow> True | Some bytes \<Rightarrow> length bytes = unat len)
     \<and> list_all (\<lambda>bytes. unat kFlushThreshold \<le> length bytes) (case mem of None \<Rightarrow> [] | Some x \<Rightarrow> [x])
     \<and> list_all (\<lambda>bytes. unat kFlushThreshold \<le> length bytes) (case mem' of None \<Rightarrow> [] | Some x \<Rightarrow> [x])"
| "bk_event_ok _ \<longleftrightarrow> True"

abbreviation mem_ok :: "byte list option \<Rightarrow> bool" where
  "mem_ok mem \<equiv> list_all (\<lambda>bytes. unat kFlushThreshold \<le> length bytes) (case mem of None \<Rightarrow> [] | Some x \<Rightarrow> [x])"

subsection \<open>The manager keeps its buffers in order\<close>

lemma bufs_ok_update: "bufs_ok m \<Longrightarrow> (\<And>x. buf_ok x \<Longrightarrow> buf_ok (f x)) \<Longrightarrow> bufs_ok (am_update_buffer i f m)"
  by (cases "i < length (am_all_buffers m)")
    (auto simp: bufs_ok_def am_update_buffer_def list_all_length nth_list_update)

lemma bufs_ok_take [simp]: "bufs_ok (am_take_active m) = bufs_ok m"
  by (simp add: bufs_ok_def am_take_active_def split: option.split prod.split)

lemma buf_ok_reset: "buf_ok x \<Longrightarrow> buf_ok (buf_reset x)"
  by (simp add: buf_ok_def buf_reset_def)

lemma bufs_ok_recycle: "bufs_ok m \<Longrightarrow> bufs_ok (am_recycle i m)"
  using bufs_ok_update [of m buf_reset i] buf_ok_reset by (simp add: am_recycle_def Let_def bufs_ok_def)

lemma bufs_ok_return: "bufs_ok m \<Longrightarrow> bufs_ok (am_return_buffer i m)"
  using bufs_ok_recycle [of m i] by (auto simp: am_return_buffer_def Let_def) (simp_all add: bufs_ok_def)

lemma bufs_ok_submit: "bufs_ok m \<Longrightarrow> bufs_ok (am_submit_current_buffer m)"
  by (auto simp: am_submit_current_buffer_def split: option.split) (simp add: bufs_ok_def)

lemma bufs_ok_resets: "bufs_ok m \<Longrightarrow> bufs_ok (am_reset_loop is m)"
proof (induction "is" m rule: am_reset_loop.induct)
  case (2 i "is" m)
  then show ?case using bufs_ok_recycle [of m i] by (simp add: bufs_ok_def)
qed (simp add: bufs_ok_def)

lemma bufs_ok_resume: "am_process_resume_notifications m = (fired, m') \<Longrightarrow> bufs_ok m' = bufs_ok m"
  by (auto simp: am_process_resume_notifications_def bufs_ok_def split: if_splits prod.splits)

lemma bufs_ok_expand: "bufs_ok m \<Longrightarrow> mem_ok mem \<Longrightarrow> bufs_ok (snd (am_try_expand mem m))"
proof -
  assume a: "bufs_ok m" "mem_ok mem"
  have "bufs_ok ((am_add_buffer bytes m)\<lparr>am_buffer_count := n\<rparr>)" if "mem = Some bytes" for bytes n
    using a that by (simp add: bufs_ok_def am_add_buffer_def buf_ok_def append_buffer_new_def)
  then show ?thesis using a by (simp add: am_try_expand_def Let_def split: option.split)
qed

lemma bufs_ok_backpressure: "bufs_ok m \<Longrightarrow> mem_ok mem \<Longrightarrow> bufs_ok (snd (am_check_backpressure mem m))"
proof -
  assume a: "bufs_ok m" "mem_ok mem"
  have "bufs_ok (x\<lparr>am_backpressure := v\<rparr>) = bufs_ok x" for x :: "'a append_mgr" and v by (simp add: bufs_ok_def)
  then show ?thesis using a bufs_ok_expand [OF a]
    by (auto simp: am_check_backpressure_def Let_def split: prod.split bool.split)
qed

subsection \<open>Preservation\<close>

lemma data_engine [simp]: "bk_data E (bk_set_engine e b) = bk_data E b"
  by (simp add: bk_data_def)

lemma data_mgr:
  assumes flow: "bk_flow bufs b" and data: "bk_data E b" and keep: "am_keep S (bk_mgr b) m"
    and S: "S \<inter> ({i. bk_pending b i \<noteq> []} \<union> bi_buffer ` set (bk_ios b)) = {}" and ok: "bufs_ok m"
  shows "bk_data E (b\<lparr>bk_mgr := m\<rparr>)"
proof -
  have old: "am_all_buffers m ! i = am_all_buffers (bk_mgr b) ! i" if "bk_pending b i \<noteq> [] \<or> i \<in> bi_buffer ` set (bk_ios b)" for i
  proof -
    have "i \<in> bk_held bufs b" using that flow by (auto simp: bk_flow_def bk_held_def)
    then show ?thesis using keep S bk_flow_held [OF flow, of i] that by (auto simp: am_keep_def)
  qed
  have "list_all (bk_stored E (am_all_buffers m ! i)) (bk_pending b i)" for i
    using old [of i] data by (cases "bk_pending b i = []") (auto simp: bk_data_def)
  then show ?thesis using data ok old by (auto simp: bk_data_def list_all_iff)
qed

lemma data_submit_current:
  assumes "bk_flow bufs b" "bk_data E b"
  shows "bk_data E (b\<lparr>bk_mgr := am_submit_current_buffer (bk_mgr b)\<rparr>)"
proof (rule data_mgr [OF assms])
  have inv: "am_inv (bk_mgr b) (map bi_buffer (bk_ios b) @ bufs)" using assms(1) by (simp add: bk_flow_def)
  show "am_keep {} (bk_mgr b) (am_submit_current_buffer (bk_mgr b))" by (rule submit_current_keep [OF inv])
  show "bufs_ok (am_submit_current_buffer (bk_mgr b))" using assms(2) by (simp add: bk_data_def bufs_ok_submit)
qed simp

text \<open>A put that finds room: the entry goes behind everything the buffer holds.\<close>

lemma kv_entry_fits:
  assumes "off \<le> kFlushThreshold"
  shows "unat (off + kv_entry_size len) = unat off + unat (kv_entry_size len)"
proof -
  have "unat off \<le> unat kFlushThreshold" using assms by (simp add: word_le_nat_alt)
  then show ?thesis
    using kv_entry_size_bounds(2) [of len] unat_u32 [of len]
    by (intro unat_plus_small) (simp add: kFlushThreshold_def kAppendBufferSize_def)
qed

definition bk_filled :: "u64 \<Rightarrow> u64 \<Rightarrow> byte list \<Rightarrow> append_buffer \<Rightarrow> append_buffer" where
  "bk_filled off sz img buf =
     buf\<lparr>bf_used := off + sz, bf_entry_count := bf_entry_count buf + 1, bf_bytes := put_bytes (unat off) img (bf_bytes buf)\<rparr>"

lemma filled_stored:
  assumes ok: "buf_ok buf" and off: "off = bf_used buf" and fit: "off + kv_entry_size len \<le> kFlushThreshold"
    and img: "length img = unat (kv_entry_size len)"
  shows "buf_ok (bk_filled off (kv_entry_size len) img buf)"
    and "bk_stored E buf w \<Longrightarrow> bk_stored E (bk_filled off (kv_entry_size len) img buf) w"
    and "slice (unat off) (unat (kv_entry_size len)) (bf_bytes (bk_filled off (kv_entry_size len) img buf)) = img"
    and "unat (bf_used (bk_filled off (kv_entry_size len) img buf)) = unat off + unat (kv_entry_size len)"
proof -
  have sum: "unat (off + kv_entry_size len) = unat off + unat (kv_entry_size len)"
    using kv_entry_fits ok off by (simp add: buf_ok_def)
  then have room: "unat off + length img \<le> length (bf_bytes buf)"
    using ok fit img by (simp add: buf_ok_def word_le_nat_alt)
  show "buf_ok (bk_filled off (kv_entry_size len) img buf)"
    using ok fit room off sum kv_entry_size_bounds(3) [of len] by (simp add: buf_ok_def bk_filled_def)
  show "slice (unat off) (unat (kv_entry_size len)) (bf_bytes (bk_filled off (kv_entry_size len) img buf)) = img"
    using room img by (simp add: bk_filled_def slice_put_bytes_same)
  show "unat (bf_used (bk_filled off (kv_entry_size len) img buf)) = unat off + unat (kv_entry_size len)"
    by (simp add: bk_filled_def sum)
  assume "bk_stored E buf w"
  then obtain v l where v: "bk_was_put E w v l" "bk_holds buf w v l" by (auto simp: bk_stored_def)
  then have "bk_holds (bk_filled off (kv_entry_size len) img buf) w v l"
    using room off sum by (simp add: bk_holds_def bk_filled_def slice_put_bytes_before)
  with v(1) show "bk_stored E (bk_filled off (kv_entry_size len) img buf) w" by (auto simp: bk_stored_def)
qed

lemma buf_offset_small: "off \<le> kFlushThreshold \<Longrightarrow> unat (buf_get_offset off) = unat off"
  unfolding buf_get_offset_def
  by (rule ucast_small) (simp add: word_le_nat_alt kFlushThreshold_def kAppendBufferSize_def)

lemma entry_pages:
  assumes "off \<le> kFlushThreshold" "off + kv_entry_size len \<le> kFlushThreshold"
  shows "4096 * unat (ucast ((ucast (kv_entry_size len) :: u32) div 4096) :: u16) = unat (kv_entry_size len)"
proof -
  have lt: "unat (kv_entry_size len) < 2097152"
    using assms(2) kv_entry_fits [OF assms(1), of len] by (simp add: word_le_nat_alt kFlushThreshold_def kAppendBufferSize_def)
  then have "unat (ucast (kv_entry_size len) :: u32) = unat (kv_entry_size len)" by (simp add: ucast_small)
  then have "unat ((ucast (kv_entry_size len) :: u32) div 4096) = unat (kv_entry_size len) div 4096" by (simp add: unat_div)
  moreover from this lt have "unat ((ucast (kv_entry_size len) :: u32) div 4096) < 2 ^ 16" by simp
  ultimately show ?thesis using kv_entry_size_bounds(3) [of len] by (simp add: ucast_small)
qed

lemma flow_pending:
  assumes "bk_flow bufs b" "am_active (bk_mgr b) = Some i"
  shows "bk_flow bufs (b\<lparr>bk_pending := (bk_pending b)(i := ws)\<rparr>)"
  using assms by (auto simp: bk_flow_def bk_held_def bk_parked_def am_busy_def)

lemma data_store:
  assumes flow: "bk_flow bufs b" and data: "bk_data E b" and act: "am_active (bk_mgr b) = Some i"
    and off: "off = bf_used (am_all_buffers (bk_mgr b) ! i)" and fit: "off + kv_entry_size len \<le> kFlushThreshold"
    and put: "BvPut env mem mem' key (Some v) len cb \<in> E" and len: "length v = unat len"
    and m: "m = am_update_buffer i (\<lambda>buf. buf\<lparr>bf_used := off + kv_entry_size len, bf_entry_count := bf_entry_count buf + 1\<rparr>) (bk_mgr b)"
  shows "bk_data E (store_put (i, off) key v len cb (b\<lparr>bk_mgr := m\<rparr>))"
proof -
  obtain seq idx where al: "mi_allocate_sequence (en_index (bk_engine b)) = (seq, idx)" by fastforce
  define img where "img = build_entry_inplace key (Some v) len seq False"
  have img: "length img = unat (kv_entry_size len)"
    using length_kv_entry(2) [of v len key seq False] len by (simp add: img_def build_entry_image)
  let ?buf = "am_all_buffers (bk_mgr b) ! i" and ?sz = "kv_entry_size len"
  have i: "i < length (am_all_buffers (bk_mgr b))"
    using bk_flow_held [OF flow, of i] act by (simp add: bk_held_def am_busy_def)
  have ok: "buf_ok ?buf" using data i by (simp add: bk_data_def bufs_ok_def list_all_length)
  note f = filled_stored [OF ok off fit img]
  define w where "w = \<lparr>bw_key = key, bw_sequence = seq, bw_buffer_offset = buf_get_offset off, bw_aligned_size = ucast ?sz,
      bw_page_count = ucast ((ucast ?sz :: u32) div 4096), bw_tag = kv_tag key, bw_cb = cb\<rparr>"
  define m' where "m' = am_update_buffer i (bk_filled off ?sz img) (bk_mgr b)"
  define c where "c = (bk_set_engine ((bk_engine b)\<lparr>en_index := idx\<rparr>) (b\<lparr>bk_mgr := m'\<rparr>))\<lparr>bk_pending := (bk_pending b)(i := bk_pending b i @ [w])\<rparr>"
  have bufs: "am_all_buffers m' = (am_all_buffers (bk_mgr b))[i := bk_filled off ?sz img ?buf]"
    by (simp add: m'_def am_update_buffer_def)
  have flowc: "bk_flow bufs c"
    using flow_pending [of bufs "bk_set_engine ((bk_engine b)\<lparr>en_index := idx\<rparr>) (b\<lparr>bk_mgr := m'\<rparr>)" i "bk_pending b i @ [w]"]
      flow_update_active [OF flow act] act by (simp add: c_def m'_def)
  have "bk_was_put E w v len" using put by (auto simp: bk_was_put_def w_def)
  moreover have "off \<le> kFlushThreshold" "4096 dvd unat off" using ok off by (simp_all add: buf_ok_def)
  then have "bk_holds (bk_filled off ?sz img ?buf) w v len"
    using f(3,4) len entry_pages [OF _ fit] by (simp add: bk_holds_def w_def buf_offset_small bk_entry_def img_def)
  ultimately have new: "bk_stored E (bk_filled off ?sz img ?buf) w" by (auto simp: bk_stored_def)
  have "i \<notin> bi_buffer ` set (bk_ios b)"
    using am_inv_distinct [of "bk_mgr b" "map bi_buffer (bk_ios b) @ bufs"] flow act by (auto simp: bk_flow_def am_owned_def)
  then have ios: "\<forall>io \<in> set (bk_ios b). am_all_buffers m' ! bi_buffer io = am_all_buffers (bk_mgr b) ! bi_buffer io"
    unfolding bufs by (metis image_eqI nth_list_update_neq)
  have pend: "list_all (bk_stored E (am_all_buffers m' ! j)) (bk_pending c j)" for j
    using data new f(2) i by (cases "j = i") (auto simp: c_def bufs bk_data_def list_all_iff)
  have "bufs_ok m'"
    using data f(1) i by (auto simp: bufs_ok_def bufs bk_data_def list_all_length nth_list_update)
  with pend ios data have datac: "bk_data E c"
    by (simp add: bk_data_def c_def list_all_iff)
  have "store_put (i, off) key v len cb (b\<lparr>bk_mgr := m\<rparr>)
      = (if buf_is_full (am_all_buffers m' ! i) then c\<lparr>bk_mgr := am_submit_current_buffer (bk_mgr c)\<rparr> else c)"
    using act i by (simp add: store_put_def al bk_write_bytes_def track_write_def Let_def m c_def m'_def w_def bk_set_engine_def
        am_update_buffer_def bk_filled_def img_def)
  with datac data_submit_current [OF flowc datac] show ?thesis by simp
qed

lemma data_reserve:
  assumes flow: "bk_flow bufs b" and data: "bk_data E b" and mem: "mem_ok mem"
    and res: "am_reserve_with_backpressure (kv_entry_size len) mem (bk_mgr b) = (res, m)"
  shows "res = Inr err \<Longrightarrow> bk_data E (b\<lparr>bk_mgr := m\<rparr>)"
    and "res = Inl slot \<Longrightarrow> BvPut env mm mm' key (Some v) len cb \<in> E \<Longrightarrow> length v = unat len
      \<Longrightarrow> bk_data E (store_put slot key v len cb (b\<lparr>bk_mgr := m\<rparr>))"
proof -
  let ?m = "snd (am_check_backpressure mem (bk_mgr b))"
  have ok: "bufs_ok ?m" by (rule bufs_ok_backpressure [OF _ mem]) (use data in \<open>simp add: bk_data_def\<close>)
  from check_backpressure_keep [where m = "bk_mgr b" and mem = mem] have k: "am_keep {} (bk_mgr b) ?m" by simp
  have base: "bk_data E (b\<lparr>bk_mgr := ?m\<rparr>)" by (rule data_mgr [OF flow data k _ ok]) simp
  have inv: "am_inv ?m (map bi_buffer (bk_ios b) @ bufs)" using am_inv_check_backpressure flow by (auto simp: bk_flow_def)
  have flow1: "bk_flow bufs (b\<lparr>bk_mgr := ?m\<rparr>)"
    by (rule flow_mgr [OF flow inv k]) (use check_backpressure_keep [where m = "bk_mgr b" and mem = mem] in simp_all)
  from res have "(res = Inr err \<longrightarrow> bk_data E (b\<lparr>bk_mgr := m\<rparr>)) \<and>
    (res = Inl slot \<longrightarrow> BvPut env mm mm' key (Some v) len cb \<in> E \<longrightarrow> length v = unat len
      \<longrightarrow> bk_data E (store_put slot key v len cb (b\<lparr>bk_mgr := m\<rparr>)))"
  proof (cases rule: reserve_keep)
    case (full err)
    then show ?thesis using base by simp
  next
    case (room i off m1)
    have "bk_data E (store_put (i, off) key v len cb ((b\<lparr>bk_mgr := ?m\<rparr>)\<lparr>bk_mgr := m\<rparr>))"
      if "BvPut env mm mm' key (Some v) len cb \<in> E" "length v = unat len"
      by (rule data_store [OF flow1 base _ _ _ that]) (use room in simp_all)
    then show ?thesis using room(1) by auto
  qed
  then show "res = Inr err \<Longrightarrow> bk_data E (b\<lparr>bk_mgr := m\<rparr>)"
    and "res = Inl slot \<Longrightarrow> BvPut env mm mm' key (Some v) len cb \<in> E \<Longrightarrow> length v = unat len
      \<Longrightarrow> bk_data E (store_put slot key v len cb (b\<lparr>bk_mgr := m\<rparr>))" by blast+
qed

lemma data_same: "bk_mgr b' = bk_mgr b \<Longrightarrow> bk_pending b' = bk_pending b \<Longrightarrow> bk_ios b' = bk_ios b \<Longrightarrow> bk_data E b' = bk_data E b"
  by (simp add: bk_data_def)

lemma data_register: "bk_data E (b\<lparr>bk_mgr := am_register_resume_callback r (bk_mgr b)\<rparr>) = bk_data E b"
  by (simp add: bk_data_def am_register_resume_callback_def bufs_ok_def)

lemma data_wait_put: "bk_data E b \<Longrightarrow> bk_data E (wait_put env reg key v len cb b)"
proof -
  assume d: "bk_data E b"
  obtain seq idx where al: "mi_allocate_sequence (en_index (bk_engine b)) = (seq, idx)" by fastforce
  have "bk_data E (bk_set_engine e (b\<lparr>bk_wait := ws\<rparr>))" "bk_data E (bk_reply cb err b)" for e ws err
    using d by (simp_all add: bk_data_def bk_reply_def)
  moreover from this(1) have "bk_data E ((bk_set_engine e (b\<lparr>bk_wait := ws\<rparr>))\<lparr>bk_mgr := am_register_resume_callback () (bk_mgr b)\<rparr>)" for e ws
    using data_register [where b = "bk_set_engine e (b\<lparr>bk_wait := ws\<rparr>)" and r = "()"] by simp
  ultimately show ?thesis by (simp add: wait_put_def al Let_def)
qed

lemma data_put:
  assumes flow: "bk_flow [] b" and data: "bk_data E b" and ev: "BvPut env mem mem' key value len cb \<in> E"
    and ok: "bk_event_ok (BvPut env mem mem' key value len cb)"
  shows "bk_data E (put_buffered env mem mem' key value len cb b)"
proof (cases "en_state (bk_engine b) = EReady \<and> len \<noteq> 0 \<and> value \<noteq> None")
  case False
  then show ?thesis using data by (auto simp: put_buffered_def bk_data_def bk_reply_def)
next
  case True
  then obtain v where v: "value = Some v" "length v = unat len" using ok by auto
  obtain res m where r: "am_reserve_with_backpressure (kv_entry_size len) mem (bk_mgr b) = (res, m)" by fastforce
  have mem: "mem_ok mem" "mem_ok mem'" using ok by simp_all
  note d = data_reserve [OF flow data mem(1) r]
  show ?thesis
  proof (cases res)
    case (Inl slot)
    then show ?thesis using True v d(2) [OF Inl ev [unfolded v(1)] v(2)] r by (simp add: put_buffered_def)
  next
    case (Inr err)
    note d1 = d(1) [OF Inr] and f1 = flow_reserve(1) [OF flow r]
    let ?b = "b\<lparr>bk_mgr := am_submit_current_buffer m\<rparr>"
    have b2: "bk_flow [] ?b" "bk_data E ?b"
      using flow_submit_current [OF f1] data_submit_current [OF f1 d1] by simp_all
    obtain res2 m2 where r2: "am_reserve_with_backpressure (kv_entry_size len) mem' (am_submit_current_buffer m) = (res2, m2)" by fastforce
    then have r2': "am_reserve_with_backpressure (kv_entry_size len) mem' (bk_mgr ?b) = (res2, m2)" by simp
    note d2 = data_reserve [OF b2 mem(2) r2']
    have "bk_data E (store_put slot key v len cb (b\<lparr>bk_mgr := m2\<rparr>))" if "res2 = Inl slot" for slot
      using d2(2) [OF that ev [unfolded v(1)] v(2)] by simp
    moreover have "bk_data E (b\<lparr>bk_mgr := m2\<rparr>)" if "res2 = Inr e" for e using d2(1) [OF that] by simp
    ultimately show ?thesis
      using True v Inr r r2 d1 by (auto simp: put_buffered_def data_wait_put split: sum.split)
  qed
qed

lemma data_release:
  assumes flow: "bk_flow (i # bufs) b" and data: "bk_data E b" and only: "bk_only_answers cbs b b1"
  shows "bk_data E (b1\<lparr>bk_pending := (bk_pending b1)(i := []), bk_mgr := am_return_buffer i (bk_mgr b1)\<rparr>)"
proof -
  have same: "bk_mgr b1 = bk_mgr b" "bk_pending b1 = bk_pending b" "bk_ios b1 = bk_ios b"
    using only by (simp_all add: bk_only_answers_def)
  let ?b = "b\<lparr>bk_pending := (bk_pending b)(i := [])\<rparr>"
  have "distinct (am_owned (bk_mgr b) (map bi_buffer (bk_ios b) @ i # bufs))"
    by (rule am_inv_distinct) (use flow in \<open>simp add: bk_flow_def\<close>)
  then have i: "i \<notin> bi_buffer ` set (bk_ios b)" by (auto simp: am_owned_def)
  have fl: "bk_flow (i # bufs) ?b" using flow by (auto simp: bk_flow_def bk_held_def bk_parked_def)
  have d: "bk_data E ?b" using data by (simp add: bk_data_def)
  have "bufs_ok (am_return_buffer i (bk_mgr b))" by (rule bufs_ok_return) (use data in \<open>simp add: bk_data_def\<close>)
  then have "bk_data E (?b\<lparr>bk_mgr := am_return_buffer i (bk_mgr b)\<rparr>)"
    using return_keep(1) [of i "bk_mgr b"] i by (intro data_mgr [OF fl d, where S = "{i}"]) auto
  then show ?thesis by (simp add: bk_data_def same)
qed

lemma data_count [simp]: "bk_data E (bk_count n b) = bk_data E b"
  by (simp add: bk_data_def)

lemma data_complete:
  assumes "bk_flow (i # bufs) b" "bk_data E b"
  shows "bk_data E (on_buffer_io_complete status i fid base b)"
proof -
  let ?c = "bk_count (-1) b"
  have "bk_only_answers (map bw_cb (bk_pending ?c i)) ?c (fold (complete_buffered_write status fid base) (bk_pending ?c i) ?c)"
    by (rule only_answers_fold) (rule complete_write_only_answers)
  then have "bk_data E ((fold (complete_buffered_write status fid base) (bk_pending ?c i) ?c)\<lparr>bk_pending :=
      (bk_pending (fold (complete_buffered_write status fid base) (bk_pending ?c i) ?c))(i := []),
      bk_mgr := am_return_buffer i (bk_mgr (fold (complete_buffered_write status fid base) (bk_pending ?c i) ?c))\<rparr>)"
    using assms by (intro data_release) simp_all
  then show ?thesis by (simp add: on_buffer_io_complete_def Let_def bk_count_def)
qed

lemma data_fail: "bk_flow (i # bufs) b \<Longrightarrow> bk_data E b \<Longrightarrow> bk_data E (fail_buffer err i b)"
  unfolding fail_buffer_def Let_def
  by (rule data_release, assumption+, rule only_answers_fold) (rule reply_only_answers)

lemma data_send:
  assumes flow: "bk_flow (i # bufs) b" and data: "bk_data E b"
  shows "bk_data E (send_buffer env fi i b)"
proof -
  let ?f = "en_files (bk_engine b) ! fi" and ?buf = "am_all_buffers (bk_mgr b) ! i"
  define c where "c = bk_count 1 (bk_set_engine (advance_file fi (bf_used ?buf) (bk_engine b)) b)"
  have c: "bk_flow (i # bufs) c" "bk_data E c" using flow data by (simp_all add: c_def)
  have "i < length (am_all_buffers (bk_mgr b))" using bk_flow_held [OF flow, of i] by (simp add: bk_held_def)
  then have "bf_used ?buf \<le> kFlushThreshold" using data by (simp add: bk_data_def bufs_ok_def list_all_length buf_ok_def)
  then have u: "unat (ucast (bf_used ?buf) :: u32) = unat (bf_used ?buf)"
    using buf_offset_small by (simp add: buf_get_offset_def)
  show ?thesis
  proof (cases "fi_blob_opened ?f \<and> io_ready env")
    case True
    then have "send_buffer env fi i b = c\<lparr>bk_ios := bk_ios c @ [\<lparr>bi_buffer = i, bi_file_id = fi_file_id ?f,
        bi_base_page = ucast (fi_write_offset ?f div kPageSize), bi_blob = fi_blob_id ?f, bi_offset = unat (fi_write_offset ?f),
        bi_data = take (unat (bf_used ?buf)) (bf_bytes ?buf)\<rparr>]\<rparr>"
      by (simp add: send_buffer_def Let_def c_def bk_count_def bk_set_engine_def u)
    moreover have "bk_mgr c = bk_mgr b" by (simp add: c_def)
    ultimately show ?thesis using c(2) by (simp add: bk_data_def io_page_ok_def)
  next
    case False
    then have "send_buffer env fi i b = on_buffer_io_complete (-1) i (fi_file_id ?f) (ucast (fi_write_offset ?f div kPageSize)) c"
      by (auto simp: send_buffer_def Let_def c_def bk_count_def)
    then show ?thesis using data_complete [OF c] by simp
  qed
qed

lemma data_submit_buffers:
  "bk_flow bufs b \<Longrightarrow> bk_data E b \<Longrightarrow> bk_data E (fold (submit_buffer_io env) bufs b)"
proof (induction bufs arbitrary: b)
  case (Cons i bufs)
  have "bk_flow (i # bufs) (bk_set_engine e b)" "bk_data E (bk_set_engine e b)" for e using Cons.prems by simp_all
  then have "bk_data E (send_buffer env fi i (bk_set_engine e b))" "bk_data E (fail_buffer err i (bk_set_engine e b))" for e fi err
    using data_send data_fail by blast+
  then have "bk_data E (submit_buffer_io env i b)"
    using Cons.prems by (simp add: submit_buffer_io_def Let_def split: prod.split option.split)
  then show ?case using Cons.IH submit_buffer_answers [OF Cons.prems(1)] by auto
qed simp

lemma data_submit_step:
  assumes flow: "bk_flow [] b" and data: "bk_data E b"
  shows "bk_data E (submit_step env b)"
proof -
  obtain bufs m where g: "am_get_pending_buffers 16 (bk_mgr b) = (bufs, m)" by fastforce
  have "bk_data E (b\<lparr>bk_mgr := m\<rparr>)"
    using data g by (auto simp: am_get_pending_buffers_def bk_data_def bufs_ok_def split: prod.splits)
  then show ?thesis using data_submit_buffers flow_get_pending [OF flow g] by (simp add: submit_step_def g)
qed

lemma data_wait_loop: "bk_data E b \<Longrightarrow> bk_data E (wait_loop env ws b)"
proof (induction ws arbitrary: b)
  case (Cons w ws)
  have "bk_data E (b\<lparr>bk_async := send_waiting env w (bk_async b)\<rparr>)" using Cons.prems by (simp add: bk_data_def)
  moreover have "bk_data E (b\<lparr>bk_wait := w # ws, bk_mgr := am_register_resume_callback () (bk_mgr b)\<rparr>)"
    using Cons.prems data_register [where b = "b\<lparr>bk_wait := w # ws\<rparr>" and E = E] by (simp add: bk_data_def)
  ultimately show ?case using Cons.IH by simp
qed (simp add: bk_data_def)

lemma data_resume_step: "bk_data E b \<Longrightarrow> bk_data E (resume_step env b)"
proof -
  assume d: "bk_data E b"
  obtain fired m where p: "am_process_resume_notifications (bk_mgr b) = (fired, m)" by fastforce
  have "am_all_buffers m = am_all_buffers (bk_mgr b)"
    using p by (auto simp: am_process_resume_notifications_def split: if_splits prod.splits)
  then have "bk_data E (b\<lparr>bk_mgr := m\<rparr>)" using d by (simp add: bk_data_def bufs_ok_def)
  moreover have "bk_data E c \<Longrightarrow> bk_data E (fold (\<lambda>_. process_wait_queue env) us c)" for c and us :: "unit list"
    by (induction us arbitrary: c) (simp_all add: process_wait_queue_def data_wait_loop)
  ultimately show ?thesis by (simp add: resume_step_def p)
qed

lemma data_poll:
  assumes flow: "bk_flow [] b" and data: "bk_data E b"
  shows "bk_data E (poll_buffers env now b)"
proof -
  let ?b = "b\<lparr>bk_mgr := am_check_pending_resets (bk_mgr b)\<rparr>"
  have inv: "am_inv (bk_mgr b) (map bi_buffer (bk_ios b))" using flow by (simp add: bk_flow_def)
  have "set (am_pending_reset (bk_mgr b)) \<inter> bk_held [] b = {}"
    using am_inv_distinct [OF inv] by (auto simp: am_owned_busy bk_held_def)
  then have "set (am_pending_reset (bk_mgr b)) \<inter> ({i. bk_pending b i \<noteq> []} \<union> bi_buffer ` set (bk_ios b)) = {}"
    using flow by (auto simp: bk_flow_def bk_held_def)
  moreover have "bufs_ok (am_reset_loop (am_pending_reset (bk_mgr b)) (bk_mgr b))"
    by (rule bufs_ok_resets) (use data in \<open>simp add: bk_data_def\<close>)
  ultimately have 1: "bk_data E ?b" "bk_flow [] ?b"
    using data_mgr [OF flow data, of "set (am_pending_reset (bk_mgr b))"] reset_loop_keep [of "am_pending_reset (bk_mgr b)" "bk_mgr b"]
      flow_check_resets [OF flow] by (simp_all add: am_check_pending_resets_def)
  have last: "bk_data E (x\<lparr>bk_last_flush := now\<rparr>) = bk_data E x" "bk_flow [] (x\<lparr>bk_last_flush := now\<rparr>) = bk_flow [] x" for x
    by (simp_all add: bk_data_def bk_flow_def bk_held_def bk_parked_def)
  have 2: "bk_data E (flush_step now ?b)" "bk_flow [] (flush_step now ?b)"
    using 1 data_submit_current [OF 1(2,1)] flow_submit_current [OF 1(2)] last by (simp_all add: flush_step_def Let_def)
  have wait: "bk_data E (wait_step env c)" if "bk_data E c" for c
    using data_wait_loop that by (simp add: wait_step_def process_wait_queue_def)
  show ?thesis
    unfolding poll_buffers_def Let_def by (intro wait data_resume_step data_submit_step 2)
qed

lemma data_io_done:
  assumes flow: "bk_flow [] b" and data: "bk_data E b"
  shows "bk_data E (bk_step (BvIo n status torn) b)"
proof (cases "n < length (bk_ios b)")
  case n: True
  let ?io = "bk_ios b ! n" and ?b = "b\<lparr>bk_ios := take n (bk_ios b) @ drop (Suc n) (bk_ios b)\<rparr>"
  obtain e where step: "bk_step (BvIo n status torn) b
      = on_buffer_io_complete status (bi_buffer ?io) (bi_file_id ?io) (bi_base_page ?io) (bk_set_engine e ?b)"
    using n by (simp add: bk_io_done_def Let_def)
  have "bk_data E ?b" using data by (auto simp: bk_data_def list_all_iff dest: in_set_takeD in_set_dropD)
  then show ?thesis unfolding step using flow_take_io [OF flow n] by (intro data_complete) simp_all
qed (use data in simp)

lemma data_step:
  assumes "bk_flow [] b" "bk_data E b" "ev \<in> E" "bk_event_ok ev"
  shows "bk_data E (bk_step ev b)"
proof (cases ev)
  case (BvPut env mem mem' key v len cb)
  then show ?thesis using data_put assms by simp
next
  case (BvIo n status torn)
  then show ?thesis using data_io_done [OF assms(1,2)] by (simp del: bk_step.simps)
next
  case (BvPoll env now)
  then show ?thesis using data_poll assms by simp
next
  case (BvAsync ev')
  then show ?thesis using assms by (simp add: bk_data_def)
qed

lemma data_run:
  "bk_flow [] b \<Longrightarrow> bk_data E b \<Longrightarrow> set evs \<subseteq> E \<Longrightarrow> list_all bk_event_ok evs \<Longrightarrow> bk_data E (bk_run evs b)"
proof (induction evs arbitrary: b)
  case (Cons ev evs)
  then have "bk_data E (bk_step ev b)" by (intro data_step) simp_all
  moreover have "bk_flow [] (bk_step ev b)" using bk_step_answers Cons.prems(1) by blast
  ultimately show ?case using Cons by (simp add: bk_run_def)
qed (simp add: bk_run_def)

lemma data_start:
  assumes "am_initialize mems buffer_size (am_new ()) = (True, m)" "list_all (\<lambda>mem. mem_ok mem) mems"
  shows "bk_data E (bk_start e m)"
proof -
  have loop: "bufs_ok x \<Longrightarrow> list_all (\<lambda>mem. mem_ok mem) mems \<Longrightarrow> bufs_ok (snd (am_init_loop mems x))" for x :: "unit append_mgr"
    by (induction mems x rule: am_init_loop.induct)
      (simp_all add: bufs_ok_def am_add_buffer_def buf_ok_def append_buffer_new_def)
  have "bufs_ok ((am_new () :: unit append_mgr)\<lparr>am_buffer_size := buffer_size\<rparr>)" by (simp add: bufs_ok_def am_new_def)
  from loop [OF this assms(2)] have "bufs_ok (snd (am_init_loop mems ((am_new ())\<lparr>am_buffer_size := buffer_size\<rparr>)))" .
  moreover have "bufs_ok (x\<lparr>am_buffer_count := k\<rparr>) = bufs_ok x" for x :: "unit append_mgr" and k by (simp add: bufs_ok_def)
  ultimately have "bufs_ok m" using assms(1) by (auto simp: am_initialize_def Let_def split: prod.splits bool.splits)
  then show ?thesis by (simp add: bk_data_def bk_start_def)
qed

subsection \<open>A completed buffer\<close>

lemma slice_take: "off + n \<le> k \<Longrightarrow> slice off n (take k xs) = slice off n xs"
  by (simp add: slice_def drop_take min_def)

lemma disk_read_inside:
  "off + n \<le> length data \<Longrightarrow> disk_read (disk_write b base data d) b (base + off) n = slice off n data"
  by (rule nth_equalityI) (simp_all add: disk_read_def disk_write_def slice_def)

lemma complete_writes:
  "ak_replies (bk_async (fold (complete_buffered_write status fid base) ws b))
     = ak_replies (bk_async b) @ map (\<lambda>w. Done (bw_cb w) (io_error status)) ws"
  "en_disk (bk_engine (fold (complete_buffered_write status fid base) ws b)) = en_disk (bk_engine b)"
proof -
  have "en_disk (index_written key m e) = en_disk e" for key m e
    by (simp add: index_written_def Let_def split: option.split)
  then have "ak_replies (bk_async (complete_buffered_write status fid base w b)) = ak_replies (bk_async b) @ [Done (bw_cb w) (io_error status)]"
    "en_disk (bk_engine (complete_buffered_write status fid base w b)) = en_disk (bk_engine b)" for w b
    by (simp_all add: complete_buffered_write_def Let_def bk_reply_def ak_reply_def bk_set_engine_def)
  then show "ak_replies (bk_async (fold (complete_buffered_write status fid base) ws b))
      = ak_replies (bk_async b) @ map (\<lambda>w. Done (bw_cb w) (io_error status)) ws"
    "en_disk (bk_engine (fold (complete_buffered_write status fid base) ws b)) = en_disk (bk_engine b)"
    by (induction ws arbitrary: b) simp_all
qed

lemma buffer_complete_effect:
  "ak_replies (bk_async (on_buffer_io_complete status i fid base b))
     = ak_replies (bk_async b) @ map (\<lambda>w. Done (bw_cb w) (io_error status)) (bk_pending b i)"
  "en_disk (bk_engine (on_buffer_io_complete status i fid base b)) = en_disk (bk_engine b)"
  by (simp_all add: on_buffer_io_complete_def Let_def complete_writes)

text \<open>The index after the requests of a buffer, when it takes each of them.\<close>

definition upsert_takes :: "mem_index \<Rightarrow> mem_index_entry \<Rightarrow> bool" where
  "upsert_takes idx m \<longleftrightarrow> \<not> me_is_empty m
     \<and> (mi_content idx (me_key m) = None \<and> 0 < mi_free idx \<and> fst (mi_upsert idx (me_key m) m)
        \<or> (\<exists>i. mi_live idx (me_key m) i \<and> mi_strict_path idx (me_key m) (mi_disp idx (me_key m) i)
             \<and> sequence_newer (me_sequence m) (me_sequence (mi_entries idx ! i))))"

fun batch_takes :: "mem_index \<Rightarrow> mem_index_entry list \<Rightarrow> bool" where
  "batch_takes idx [] \<longleftrightarrow> True"
| "batch_takes idx (m # ms) \<longleftrightarrow> upsert_takes idx m \<and> batch_takes (snd (mi_upsert idx (me_key m) m)) ms"

lemma upsert_takes_lookup:
  assumes "mi_inv idx" "upsert_takes idx m" "me_tag m = kv_tag (me_key m)" "\<not> me_deleted m"
  shows "mi_inv (snd (mi_upsert idx (me_key m) m))
    \<and> mi_lookup (snd (mi_upsert idx (me_key m) m)) x = (if x = me_key m then Some m else mi_lookup idx x)"
proof -
  have m: "mi_storable (me_key m) m" "mi_stored (me_key m) m = m" "mi_visible m" "\<not> me_is_empty m"
    using assms(2-4) by (auto simp: upsert_takes_def mi_storable_def mi_stored_def mi_visible_def)
  obtain ok idx' where up: "mi_upsert idx (me_key m) m = (ok, idx')" by fastforce
  consider "mi_content idx (me_key m) = None" "0 < mi_free idx" "ok"
    | i where "mi_live idx (me_key m) i" "mi_strict_path idx (me_key m) (mi_disp idx (me_key m) i)"
        "sequence_newer (me_sequence m) (me_sequence (mi_entries idx ! i))"
    using assms(2) up by (auto simp: upsert_takes_def)
  then show ?thesis
  proof cases
    case 1
    then show ?thesis using mix.ins_fresh [OF assms(1) 1(1,2) m(1)] mix.lookup_ins [OF assms(1) 1(1,2) m(1)] up m by simp
  next
    case 2
    have "mi_inv idx' \<and> mi_content idx' = (mi_content idx)(me_key m \<mapsto> m)"
      using mi_upsert_update [OF assms(1) 2(1,2) refl m(4)] 2(3) up m(2) by (auto simp: mi_stored_def)
    then show ?thesis using assms(1) m(3) up by (simp add: mi_lookup_content)
  qed
qed

lemma batch_lookup:
  assumes "mi_inv idx" "batch_takes idx ms" "\<forall>m \<in> set ms. me_tag m = kv_tag (me_key m) \<and> \<not> me_deleted m"
  shows "mi_lookup (fold (\<lambda>m idx. snd (mi_upsert idx (me_key m) m)) ms idx) x
    = (case find (\<lambda>m. me_key m = x) (rev ms) of Some m \<Rightarrow> Some m | None \<Rightarrow> mi_lookup idx x)"
  using assms
proof (induction ms arbitrary: idx)
  case (Cons m ms)
  have f: "find P (xs @ [y]) = (case find P xs of Some z \<Rightarrow> Some z | None \<Rightarrow> if P y then Some y else None)" for P xs and y :: mem_index_entry
    by (induction xs) auto
  define idx' where "idx' = snd (mi_upsert idx (me_key m) m)"
  have "mi_inv idx' \<and> mi_lookup idx' x = (if x = me_key m then Some m else mi_lookup idx x)"
    unfolding idx'_def by (rule upsert_takes_lookup) (use Cons.prems in simp_all)
  moreover have "mi_lookup (fold (\<lambda>m idx. snd (mi_upsert idx (me_key m) m)) ms idx') x
      = (case find (\<lambda>m. me_key m = x) (rev ms) of Some m \<Rightarrow> Some m | None \<Rightarrow> mi_lookup idx' x)"
    by (rule Cons.IH) (use Cons.prems calculation in \<open>simp_all add: idx'_def\<close>)
  ultimately show ?case by (simp add: f idx'_def [symmetric] split: option.split)
qed simp

lemma complete_index:
  "en_index (bk_engine (fold (complete_buffered_write 0 fid base) ws b))
     = fold (\<lambda>m idx. snd (mi_upsert idx (me_key m) m)) (map (buffered_entry fid base) ws) (en_index (bk_engine b))"
proof (induction ws arbitrary: b)
  case (Cons w ws)
  have "en_index (bk_engine (complete_buffered_write 0 fid base w b))
      = snd (mi_upsert (en_index (bk_engine b)) (bw_key w) (buffered_entry fid base w))"
    by (simp add: complete_buffered_write_def Let_def bk_set_engine_def bk_reply_def ak_reply_def io_error_def
        index_written_def split: option.split)
  then show ?case using Cons by (simp add: buffered_entry_def)
qed simp

text \<open>The place an index entry of a completed request names.\<close>

lemma buffered_place:
  assumes "io_page_ok io" "4096 dvd bi_offset io" "bi_offset io + unat (bw_buffer_offset w) < 2 ^ 33" "unat (bi_file_id io) < 1024"
    and "4096 dvd unat (bw_buffer_offset w)"
  shows "ucast (me_file_id (buffered_entry (bi_file_id io) (bi_base_page io) w)) = bi_file_id io"
    and "4096 * unat (me_offset_index (buffered_entry (bi_file_id io) (bi_base_page io) w)) = bi_offset io + unat (bw_buffer_offset w)"
proof -
  have u: "unat (word_of_nat (bi_offset io) :: u64) = bi_offset io"
    using assms(3) by (simp add: unsigned_of_nat take_bit_nat_eq_self)
  have "unat (word_of_nat (bi_offset io) div kPageSize :: u64) = bi_offset io div 4096" by (simp add: unat_div u kPageSize_def)
  moreover have "bi_offset io div 4096 < 2 ^ 21" using assms(3) by simp
  ultimately have base: "unat (bi_base_page io) = bi_offset io div 4096"
    using assms(1) by (simp add: io_page_ok_def ucast_small)
  have add: "bi_offset io div 4096 + unat (bw_buffer_offset w) div 4096 = (bi_offset io + unat (bw_buffer_offset w)) div 4096"
    using assms(2) by (simp add: div_plus_div_distrib_dvd_left)
  have lt: "(bi_offset io + unat (bw_buffer_offset w)) div 4096 < 2 ^ 21" using assms(3) by simp
  then have "unat (bi_base_page io + bw_buffer_offset w div 4096) = (bi_offset io + unat (bw_buffer_offset w)) div 4096"
    using add base by (subst unat_plus_small) (simp_all add: unat_div)
  then have "unat (me_offset_index (buffered_entry (bi_file_id io) (bi_base_page io) w)) = (bi_offset io + unat (bw_buffer_offset w)) div 4096"
    using lt by (simp add: buffered_entry_def ucast_small)
  then show "4096 * unat (me_offset_index (buffered_entry (bi_file_id io) (bi_base_page io) w)) = bi_offset io + unat (bw_buffer_offset w)"
    using assms(2,5) by simp
  show "ucast (me_file_id (buffered_entry (bi_file_id io) (bi_base_page io) w)) = bi_file_id io"
    using assms(4) by (simp add: buffered_entry_def unsigned_ucast_eq unsigned_take_bit_eq take_bit_nat_eq_self word_unat_eq_iff)
qed

lemma buffered_index_names:
  assumes "mi_inv idx" "bw_key w \<notin> bw_key ` set ws'"
    and "batch_takes idx (map (buffered_entry (bi_file_id io) (bi_base_page io)) (ws @ w # ws'))"
    and "\<forall>x \<in> set (ws @ w # ws'). bw_tag x = kv_tag (bw_key x)" "io_page_ok io" "4096 dvd bi_offset io"
    and "bi_offset io + unat (bw_buffer_offset w) < 2 ^ 33" "unat (bi_file_id io) < 1024" "4096 dvd unat (bw_buffer_offset w)"
  shows "\<exists>x. mi_lookup (fold (\<lambda>m idx. snd (mi_upsert idx (me_key m) m))
          (map (buffered_entry (bi_file_id io) (bi_base_page io)) (ws @ w # ws')) idx) (bw_key w) = Some x
      \<and> me_sequence x = bw_sequence w \<and> ucast (me_file_id x) = bi_file_id io
      \<and> 4096 * unat (me_offset_index x) = bi_offset io + unat (bw_buffer_offset w) \<and> me_page_count x = bw_page_count w"
proof -
  let ?be = "buffered_entry (bi_file_id io) (bi_base_page io)" and ?ws = "ws @ w # ws'"
  have key: "me_key (?be x) = bw_key x" for x by (simp add: buffered_entry_def)
  have tags: "\<forall>m \<in> set (map ?be ?ws). me_tag m = kv_tag (me_key m) \<and> \<not> me_deleted m"
    using assms(4) by (auto simp: buffered_entry_def)
  have find_last: "find P (xs @ [y] @ zs) = Some y" if "P y" "\<forall>x \<in> set xs. \<not> P x" for P xs zs and y :: mem_index_entry
    using that(2) by (induction xs) (simp_all add: that(1))
  have "find (\<lambda>m. me_key m = bw_key w) (rev (map ?be ws') @ [?be w] @ rev (map ?be ws)) = Some (?be w)"
    by (rule find_last) (simp_all add: key, metis assms(2) imageI)
  then have look: "mi_lookup (fold (\<lambda>m idx. snd (mi_upsert idx (me_key m) m)) (map ?be ?ws) idx) (bw_key w) = Some (?be w)"
    using batch_lookup [OF assms(1,3) tags, of "bw_key w"] by simp
  have "me_sequence (?be w) = bw_sequence w" "me_page_count (?be w) = bw_page_count w" by (simp_all add: buffered_entry_def)
  then show ?thesis using look buffered_place [OF assms(5-9)] by blast
qed

text \<open>C12: When the device has written a buffer, each request \<open>w\<close> in it is answered with success, and the disk
  holds, at the position of \<open>w\<close> in the written area, exactly the entry of a put that was made: its key,
  its value, its sequence number. It holds for every sequence of events before, with buffers reused,
  submitted and completed in any order. The index entry of \<open>w\<close> names this place, its file id, page and number of
  pages, under the conditions that the index is well formed and takes the updates of this buffer
  one after the other (none is dropped, none displaces a stored key), that \<open>w\<close> is the last request of its key in the
  buffer, and that the buffer went to a page-aligned position inside the first 8 GB of a file with an id
  below 1024, which the bit fields of an index entry need.\<close>

theorem buffered_write_lands:
  assumes "am_initialize mems buffer_size (am_new ()) = (True, m)" "length mems \<le> kMaxBufferCount"
    and "list_all (\<lambda>mem. mem_ok mem) mems" "list_all bk_event_ok evs"
    and "b = bk_run evs (bk_start e m)" "n < length (bk_ios b)" "io = bk_ios b ! n"
    and "bk_pending b (bi_buffer io) = ws @ w # ws'" "b' = bk_step (BvIo n 0 torn) b"
  shows "\<exists>env mem mem' v len. BvPut env mem mem' (bw_key w) (Some v) len (bw_cb w) \<in> set evs
    \<and> Done (bw_cb w) KSuccess \<in> set (ak_replies (bk_async b'))
    \<and> disk_read (en_disk (bk_engine b')) (bi_blob io) (bi_offset io + unat (bw_buffer_offset w)) (unat (kv_entry_size len))
        = build_entry_inplace (bw_key w) (Some v) len (bw_sequence w) False
    \<and> (mi_inv (en_index (bk_engine b)) \<and> bw_key w \<notin> bw_key ` set ws'
         \<and> batch_takes (en_index (bk_engine b)) (map (buffered_entry (bi_file_id io) (bi_base_page io)) (ws @ w # ws'))
         \<and> 4096 dvd bi_offset io \<and> bi_offset io + length (bi_data io) \<le> 2 ^ 33 \<and> unat (bi_file_id io) < 1024
       \<longrightarrow> (\<exists>x. mi_lookup (en_index (bk_engine b')) (bw_key w) = Some x \<and> me_sequence x = bw_sequence w
             \<and> ucast (me_file_id x) = bi_file_id io
             \<and> 4096 * unat (me_offset_index x) = bi_offset io + unat (bw_buffer_offset w)
             \<and> 4096 * unat (me_page_count x) = unat (kv_entry_size len)))"
proof -
  let ?ws = "bk_pending b (bi_buffer io)" and ?be = "buffered_entry (bi_file_id io) (bi_base_page io)"
  have flow: "bk_flow [] b" using bk_run_answers [OF bk_start_flow [OF assms(1,2)]] assms(5) by blast
  have data: "bk_data (set evs) b"
    unfolding assms(5) by (rule data_run [OF bk_start_flow [OF assms(1,2)] data_start [OF assms(1,3)] _ assms(4)]) simp
  let ?buf = "am_all_buffers (bk_mgr b) ! bi_buffer io" and ?off = "unat (bw_buffer_offset w)"
  have all: "bk_stored (set evs) ?buf x" if "x \<in> set ?ws" for x using data that by (auto simp: bk_data_def list_all_iff)
  have w: "w \<in> set ?ws" by (simp add: assms(8))
  obtain v len where v: "bk_was_put (set evs) w v len" "bk_holds ?buf w v len" using all [OF w] by (auto simp: bk_stored_def)
  have io: "io \<in> set (bk_ios b)" using assms(6,7) by simp
  then have bi: "bi_data io = take (unat (bf_used ?buf)) (bf_bytes ?buf)" "io_page_ok io"
    using data by (auto simp: bk_data_def list_all_iff)
  have "bi_buffer io < length (am_all_buffers (bk_mgr b))" using bk_flow_held [OF flow, of "bi_buffer io"] io by (simp add: bk_held_def)
  then have "buf_ok ?buf" using data by (simp add: bk_data_def bufs_ok_def list_all_length)
  then have used: "unat (bf_used ?buf) \<le> length (bf_bytes ?buf)" by (simp add: buf_ok_def word_le_nat_alt)
  have step: "b' = on_buffer_io_complete 0 (bi_buffer io) (bi_file_id io) (bi_base_page io)
      (bk_set_engine ((bk_engine b)\<lparr>en_disk := disk_write (bi_blob io) (bi_offset io) (bi_data io) (en_disk (bk_engine b))\<rparr>)
        (b\<lparr>bk_ios := take n (bk_ios b) @ drop (Suc n) (bk_ios b)\<rparr>))"
    using assms(6,7,9) by (simp add: bk_io_done_def Let_def)
  have "disk_read (en_disk (bk_engine b')) (bi_blob io) (bi_offset io + ?off) (unat (kv_entry_size len))
      = slice ?off (unat (kv_entry_size len)) (bi_data io)"
    unfolding step buffer_complete_effect
    by (simp add: bk_set_engine_def, rule disk_read_inside) (use v(2) used in \<open>simp add: bi bk_holds_def\<close>)
  also have "\<dots> = slice ?off (unat (kv_entry_size len)) (bf_bytes ?buf)"
    unfolding bi by (rule slice_take) (use v(2) in \<open>simp add: bk_holds_def\<close>)
  finally have disk: "disk_read (en_disk (bk_engine b')) (bi_blob io) (bi_offset io + ?off) (unat (kv_entry_size len))
      = build_entry_inplace (bw_key w) (Some v) len (bw_sequence w) False"
    using v(2) by (simp add: bk_holds_def bk_entry_def)
  have reply: "Done (bw_cb w) KSuccess \<in> set (ak_replies (bk_async b'))"
    unfolding step buffer_complete_effect using w by (simp add: io_error_def)
  have index: "en_index (bk_engine b') = fold (\<lambda>m idx. snd (mi_upsert idx (me_key m) m)) (map ?be ?ws) (en_index (bk_engine b))"
    unfolding step by (simp add: on_buffer_io_complete_def Let_def complete_index bk_set_engine_def)
  have tags: "\<forall>x \<in> set ?ws. bw_tag x = kv_tag (bw_key x)" using all by (auto simp: bk_stored_def bk_holds_def)
  have held: "?off + unat (kv_entry_size len) \<le> length (bi_data io)" "4096 dvd ?off" "4096 * unat (bw_page_count w) = unat (kv_entry_size len)"
    using v(2) used unfolding bi(1) by (simp_all add: bk_holds_def)
  have named: "\<exists>x. mi_lookup (en_index (bk_engine b')) (bw_key w) = Some x \<and> me_sequence x = bw_sequence w
      \<and> ucast (me_file_id x) = bi_file_id io \<and> 4096 * unat (me_offset_index x) = bi_offset io + ?off
      \<and> 4096 * unat (me_page_count x) = unat (kv_entry_size len)"
    if "mi_inv (en_index (bk_engine b))" "bw_key w \<notin> bw_key ` set ws'"
      "batch_takes (en_index (bk_engine b)) (map ?be (ws @ w # ws'))"
      "4096 dvd bi_offset io" "bi_offset io + length (bi_data io) \<le> 2 ^ 33" "unat (bi_file_id io) < 1024"
  proof -
    have "bi_offset io + ?off < 2 ^ 33" using that(5) held(1) kv_entry_size_bounds(4) [of len] by simp
    from buffered_index_names [OF that(1-3) tags [unfolded assms(8)] bi(2) that(4) this that(6) held(2)]
    show ?thesis unfolding index assms(8) held(3) [symmetric] by auto
  qed
  obtain env mem mem' where "BvPut env mem mem' (bw_key w) (Some v) len (bw_cb w) \<in> set evs" using v(1) by (auto simp: bk_was_put_def)
  then show ?thesis using disk reply named by blast
qed

section \<open>Back-pressure is relieved by puts only\<close>

fun bk_is_put :: "bk_event \<Rightarrow> bool" where
  "bk_is_put (BvPut env mem mem' key v len cb) \<longleftrightarrow> True"
| "bk_is_put _ \<longleftrightarrow> False"

lemma backpressure_simps [simp]:
  "am_backpressure (am_update_buffer i f m) = am_backpressure m"
  "am_backpressure (am_take_active m) = am_backpressure m"
  "am_backpressure (am_recycle i m) = am_backpressure m"
  "am_backpressure (am_return_buffer i m) = am_backpressure m"
  "am_backpressure (am_submit_current_buffer m) = am_backpressure m"
  "am_backpressure (am_register_resume_callback r m) = am_backpressure m"
  "am_backpressure (snd (am_process_resume_notifications m)) = am_backpressure m"
  "am_backpressure (snd (am_get_pending_buffers n m)) = am_backpressure m"
  by (simp_all add: am_update_buffer_def am_take_active_def am_recycle_def am_return_buffer_def am_submit_current_buffer_def
      am_register_resume_callback_def am_process_resume_notifications_def am_get_pending_buffers_def Let_def
      split: option.split prod.split)

lemma backpressure_resets [simp]: "am_backpressure (am_reset_loop is m) = am_backpressure m"
  by (induction "is" m rule: am_reset_loop.induct) simp_all

definition bk_stuck :: "wait_entry list \<Rightarrow> buffered_kv \<Rightarrow> bool" where
  "bk_stuck ws b \<longleftrightarrow> am_backpressure (bk_mgr b) \<and> bk_wait b = ws"

lemma stuck_simps [simp]:
  "bk_stuck ws (bk_set_engine e b) = bk_stuck ws b" "bk_stuck ws (bk_reply cb err b) = bk_stuck ws b"
  "bk_stuck ws (bk_count n b) = bk_stuck ws b"
  by (simp_all add: bk_stuck_def bk_reply_def bk_count_def)

lemma stuck_fold: "(\<And>x b. bk_stuck ws (f x b) = bk_stuck ws b) \<Longrightarrow> bk_stuck ws (fold f xs b) = bk_stuck ws b"
  by (induction xs arbitrary: b) simp_all

lemma stuck_release: "bk_stuck ws (x\<lparr>bk_pending := p, bk_mgr := am_return_buffer i (bk_mgr x)\<rparr>) = bk_stuck ws x"
  by (simp add: bk_stuck_def)

lemma stuck_complete: "bk_stuck ws (on_buffer_io_complete status i fid base b) = bk_stuck ws b"
proof -
  have "bk_stuck ws (complete_buffered_write status fid base w c) = bk_stuck ws c" for w c
    by (simp add: complete_buffered_write_def Let_def)
  then have "bk_stuck ws (fold (complete_buffered_write status fid base) xs c) = bk_stuck ws c" for xs c by (rule stuck_fold)
  then show ?thesis
    unfolding on_buffer_io_complete_def Let_def stuck_release by (simp add: bk_stuck_def)
qed

lemma stuck_submit: "bk_stuck ws (submit_buffer_io env i b) = bk_stuck ws b"
proof -
  have "bk_stuck ws (fold (\<lambda>w. bk_reply (bw_cb w) err) xs c) = bk_stuck ws c" for err xs c by (rule stuck_fold) simp
  then have "bk_stuck ws (fail_buffer err i c) = bk_stuck ws c" for err c
    unfolding fail_buffer_def Let_def stuck_release .
  moreover have "bk_stuck ws (send_buffer env fi i c) = bk_stuck ws c" for fi c
    using stuck_complete by (simp add: send_buffer_def Let_def) (simp add: bk_stuck_def)
  ultimately show ?thesis by (simp add: submit_buffer_io_def Let_def split: prod.split option.split)
qed

lemma stuck_wait: "bk_stuck ws b \<Longrightarrow> bk_stuck ws (process_wait_queue env b)"
  by (cases ws) (simp_all add: bk_stuck_def process_wait_queue_def)

lemma stuck_poll: "bk_stuck ws b \<Longrightarrow> bk_stuck ws (poll_buffers env now b)"
proof -
  assume stuck: "bk_stuck ws b"
  have "bk_stuck ws (submit_step env' c)" if "bk_stuck ws c" for env' c
  proof -
    obtain bufs m where g: "am_get_pending_buffers 16 (bk_mgr c) = (bufs, m)" by fastforce
    have "am_backpressure m = am_backpressure (bk_mgr c)" using backpressure_simps(8) [of 16 "bk_mgr c"] g by simp
    then have "bk_stuck ws (c\<lparr>bk_mgr := m\<rparr>)" using that by (simp add: bk_stuck_def)
    then show ?thesis by (simp add: submit_step_def g stuck_fold [OF stuck_submit])
  qed
  moreover have "bk_stuck ws (resume_step env' c)" if "bk_stuck ws c" for env' c
  proof -
    obtain us m where p: "am_process_resume_notifications (bk_mgr c) = (us, m)" by fastforce
    have "am_backpressure m = am_backpressure (bk_mgr c)" using backpressure_simps(7) [of "bk_mgr c"] p by simp
    then have "bk_stuck ws (c\<lparr>bk_mgr := m\<rparr>)" using that by (simp add: bk_stuck_def)
    moreover have "bk_stuck ws d \<Longrightarrow> bk_stuck ws (fold (\<lambda>_. process_wait_queue env') us d)" for d
      by (induction us arbitrary: d) (simp_all add: stuck_wait)
    ultimately show ?thesis by (simp add: resume_step_def p)
  qed
  moreover have "bk_stuck ws (flush_step now c)" if "bk_stuck ws c" for c
    using that by (simp add: flush_step_def Let_def bk_stuck_def)
  moreover have "bk_stuck ws (wait_step env c)" if "bk_stuck ws c" for c
    using that by (simp add: wait_step_def bk_stuck_def)
  moreover have "bk_stuck ws (b\<lparr>bk_mgr := am_check_pending_resets (bk_mgr b)\<rparr>)"
    using stuck by (simp add: bk_stuck_def am_check_pending_resets_def)
  ultimately show ?thesis unfolding poll_buffers_def Let_def by blast
qed

lemma stuck_step: "bk_stuck ws b \<Longrightarrow> \<not> bk_is_put ev \<Longrightarrow> bk_stuck ws (bk_step ev b)"
  by (cases ev) (auto simp: stuck_poll bk_io_done_def stuck_complete Let_def, simp_all add: bk_stuck_def)

lemma stuck_run: "bk_stuck ws b \<Longrightarrow> list_all (\<lambda>ev. \<not> bk_is_put ev) evs \<Longrightarrow> bk_stuck ws (bk_run evs b)"
  by (induction evs arbitrary: b) (simp_all add: bk_run_def stuck_step)

text \<open>C40: Requests that wait under back-pressure wait until the client puts again: the flag is reset by a
  reservation only, so no sequence of polls, completions and asynchronous calls answers them, even
  when every buffer is free.\<close>

theorem backpressure_strands_waiters:
  assumes "am_backpressure (bk_mgr b)" "list_all (\<lambda>ev. \<not> bk_is_put ev) evs"
  shows "bk_wait (bk_run evs b) = bk_wait b \<and> am_backpressure (bk_mgr (bk_run evs b))"
  using stuck_run [of "bk_wait b" b evs] assms by (simp add: bk_stuck_def)

section \<open>close\<close>

lemma close_clears: "en_state (bk_engine b) = EReady \<Longrightarrow> bk_pending (close_buffers env b) i = []"
  by (simp add: close_buffers_def Let_def)

text \<open>The requests in the buffers that \<^verbatim>\<open>close\<close> submits, or that were at the device before, are never
  answered: \<^verbatim>\<open>close\<close> clears the table of pending writes while their buffers are at the device, so the
  completion calls no callback and updates no index entry, whether the write succeeded or not.\<close>

theorem close_drops_buffered_puts:
  assumes "en_state (bk_engine b) = EReady" "c = close_buffers env b" "c' = bk_step (BvIo n status torn) c"
  shows "ak_replies (bk_async c') = ak_replies (bk_async c) \<and> en_index (bk_engine c') = en_index (bk_engine c)"
  using close_clears [OF assms(1), of env "bi_buffer (bk_ios c ! n)"] assms
  by (simp add: bk_io_done_def Let_def buffer_complete_effect) (simp add: on_buffer_io_complete_def Let_def bk_set_engine_def)

section \<open>RDMA slots\<close>

text \<open>A \<^verbatim>\<open>put_rdma\<close> that finds no active buffer is neither tracked nor answered.\<close>

theorem put_rdma_unanswered:
  assumes "am_active (bk_mgr b) = None"
  shows "bk_ids (put_rdma base key addr 28 len seq cb b) = bk_ids b"
  using assms by (simp add: put_rdma_def track_write_def Let_def bk_write_bytes_def bk_ids_def)

text \<open>A slot is committed whatever became of its buffer: the epoch is compared with the one the client
  sends back, never with the one of the buffer, and the engine's slots do not pin buffers.\<close>

theorem stale_slot_commits:
  assumes "alloc_rdma_slot mem len b = (Inr (addr, value_offset, max_len, slot_id, epoch), b1)"
    and "bk_slots b2 = bk_slots b1"
  shows "fst (commit_rdma_slot slot_id epoch b2) = KSuccess"
  using assms by (auto simp: alloc_rdma_slot_def Let_def commit_rdma_slot_def split: prod.splits sum.splits)

section \<open>Concrete runs\<close>

definition demo_buffered :: async_env where
  "demo_buffered = \<lparr>ae_io = demo_io, ae_checkpoint = None\<rparr>"

text \<open>Back-pressure, one request waiting: polling does not help it.\<close>

theorem backpressure_strands_waiters_witness:
  "let b = put_buffered demo_buffered None None 5 (Some [1]) 1 7 (bk_start demo_store ((am_new ())\<lparr>am_backpressure := True,
       am_submit_ring := \<lparr>rg_buffer = replicate 17 0, rg_head = 15, rg_tail = 0\<rparr>\<rparr>))
   in map wq_cb (bk_wait (bk_run [BvPoll demo_buffered 0, BvPoll demo_buffered 1] b)) = [7]"
proof -
  let ?b = "put_buffered demo_buffered None None 5 (Some [1]) 1 7 (bk_start demo_store ((am_new ())\<lparr>am_backpressure := True,
       am_submit_ring := \<lparr>rg_buffer = replicate 17 0, rg_head = 15, rg_tail = 0\<rparr>\<rparr>))"
  have b: "am_backpressure (bk_mgr ?b) \<and> map wq_cb (bk_wait ?b) = [7]"
    by (simp add: put_buffered_def bk_start_def ak_start_def demo_store_def Let_def am_reserve_with_backpressure_def
        am_check_backpressure_def am_pending_count_def ring_count_def kBackpressureLowWater_def wait_put_def demo_buffered_def
        demo_io_def bk_set_engine_def put_wait_entry_def am_register_resume_callback_def split: prod.split)
  then show ?thesis
    using backpressure_strands_waiters [of ?b "[BvPoll demo_buffered 0, BvPoll demo_buffered 1]"] by (simp add: Let_def)
qed

text \<open>One buffer: a put, a poll that submits it, its completion.\<close>

definition demo_memory :: "byte list" where
  "demo_memory = replicate (unat kFlushThreshold) 0"

definition demo_mgr :: "unit append_mgr" where
  "demo_mgr = snd (am_initialize [Some demo_memory] kFlushThreshold (am_new ()))"

lemma replicate_same: "(replicate n x)[i := x] = replicate n x"
  by (cases "i < n") (simp_all add: list_update_same_conv list_update_beyond)

lemma demo_mgr: "am_initialize [Some demo_memory] kFlushThreshold (am_new ()) = (True, demo_mgr)"
  "demo_mgr = (am_new ())\<lparr>am_all_buffers := [append_buffer_new demo_memory kFlushThreshold], am_buffer_size := kFlushThreshold,
     am_complete_ring := \<lparr>rg_buffer = replicate 17 0, rg_head = 1, rg_tail = 1\<rparr>, am_active := Some 0, am_buffer_count := 1\<rparr>"
  by (simp_all add: demo_mgr_def am_initialize_def am_add_buffer_def am_new_def ring_enqueue_def ring_new_def [of 17] kMaxBufferCount_def
      am_take_active_def ring_dequeue_def Let_def replicate_same)

abbreviation demo_call :: bk_event where
  "demo_call \<equiv> BvPut demo_buffered None None 5 (Some [1, 2, 3]) 3 7"

definition demo_write :: buffered_write where
  "demo_write = \<lparr>bw_key = 5, bw_sequence = 1, bw_buffer_offset = 0, bw_aligned_size = 4096, bw_page_count = 1,
     bw_tag = kv_tag 5, bw_cb = 7\<rparr>"

lemma demo_size: "kv_entry_size 3 = 4096"
  by (simp add: kv_entry_size_def align_up_def kPageSize_def)

lemma demo_reserve: "am_reserve_with_backpressure 4096 None demo_mgr
    = (Inl (0, 0), am_update_buffer 0 (\<lambda>buf. buf\<lparr>bf_used := 4096, bf_entry_count := bf_entry_count buf + 1\<rparr>) demo_mgr)"
  by (simp add: am_reserve_with_backpressure_def am_check_backpressure_def am_pending_count_def demo_mgr(2) am_new_def ring_new_def
      ring_count_def am_reserve_def buf_reserve_def append_buffer_new_def kFlushThreshold_def kAppendBufferSize_def
      kBackpressureHighWater_def am_update_buffer_def Let_def)

definition demo_idx :: mem_index where
  "demo_idx = snd (mi_allocate_sequence (en_index demo_store))"

lemma demo_idx: "mi_allocate_sequence (en_index demo_store) = (1, demo_idx)" "mi_inv demo_idx"
  "me_key m = 5 \<Longrightarrow> me_sequence m = 1 \<Longrightarrow> upsert_takes demo_idx m"
proof -
  show al: "mi_allocate_sequence (en_index demo_store) = (1, demo_idx)"
    by (simp add: demo_idx_def demo_store_def mi_allocate_sequence_def Let_def mem_index_new_def)
  show "mi_inv demo_idx"
    using demo_store_ok(1) by (simp add: demo_idx_def mi_allocate_sequence_def Let_def kv_inv_def mi_inv_sequence)
  have "mi_global_sequence demo_idx = 1" by (simp add: demo_idx_def demo_store_def mi_allocate_sequence_def Let_def mem_index_new_def)
  then show "me_key m = 5 \<Longrightarrow> me_sequence m = 1 \<Longrightarrow> upsert_takes demo_idx m"
    using demo_takes unfolding demo_idx_def [symmetric] index_takes_def upsert_takes_def by (auto simp: me_is_empty_def)
qed

lemma demo_after_put:
  obtains buf where "bk_step demo_call (bk_start demo_store demo_mgr)
      = bk_set_engine (demo_store\<lparr>en_index := demo_idx\<rparr>)
          ((bk_start demo_store demo_mgr)\<lparr>bk_mgr := demo_mgr\<lparr>am_all_buffers := [buf]\<rparr>, bk_pending := (\<lambda>_. [])(0 := [demo_write])\<rparr>)"
    "bf_used buf = 4096"
proof -
  note al = demo_idx(1)
  define buf where "buf = (append_buffer_new demo_memory kFlushThreshold)\<lparr>bf_used := 4096, bf_entry_count := 1,
      bf_bytes := put_bytes 0 (build_entry_inplace 5 (Some [1, 2, 3]) 3 1 False) demo_memory\<rparr>"
  have "bk_step demo_call (bk_start demo_store demo_mgr)
      = bk_set_engine (demo_store\<lparr>en_index := demo_idx\<rparr>)
          ((bk_start demo_store demo_mgr)\<lparr>bk_mgr := demo_mgr\<lparr>am_all_buffers := [buf]\<rparr>, bk_pending := (\<lambda>_. [])(0 := [demo_write])\<rparr>)"
  proof -
    have ready: "en_state demo_store = EReady" by (simp add: demo_store_def)
    let ?m = "am_update_buffer 0 (\<lambda>buf. buf\<lparr>bf_used := 4096, bf_entry_count := bf_entry_count buf + 1\<rparr>) demo_mgr"
    have "bk_step demo_call (bk_start demo_store demo_mgr)
        = store_put (0, 0) 5 [1, 2, 3] 3 7 ((bk_start demo_store demo_mgr)\<lparr>bk_mgr := ?m\<rparr>)"
      using ready by (simp add: put_buffered_def bk_start_def ak_start_def demo_size demo_reserve)
    also have "?m = demo_mgr\<lparr>am_all_buffers := [(append_buffer_new demo_memory kFlushThreshold)\<lparr>bf_used := 4096, bf_entry_count := 1\<rparr>]\<rparr>"
      by (simp add: am_update_buffer_def demo_mgr(2) append_buffer_new_def)
    finally show ?thesis
      by (simp add: store_put_def bk_start_def ak_start_def al bk_write_bytes_def track_write_def am_update_buffer_def demo_mgr(2)
          am_new_def Let_def buf_def demo_write_def buf_get_offset_def buf_is_full_def demo_size bk_set_engine_def)
        (simp add: append_buffer_new_def kFlushThreshold_def kAppendBufferSize_def)
  qed
  then show ?thesis by (rule that) (simp add: buf_def)
qed

lemma demo_after_poll:
  obtains io where "bk_ios (bk_run [demo_call, BvPoll demo_buffered 10000000] (bk_start demo_store demo_mgr)) = [io]"
    "bi_buffer io = 0" "bi_file_id io = 0" "bi_offset io = 4096" "length (bi_data io) \<le> 4096"
    "en_index (bk_engine (bk_run [demo_call, BvPoll demo_buffered 10000000] (bk_start demo_store demo_mgr))) = demo_idx"
    "bk_pending (bk_run [demo_call, BvPoll demo_buffered 10000000] (bk_start demo_store demo_mgr)) 0 = [demo_write]"
proof -
  obtain buf where b: "bk_step demo_call (bk_start demo_store demo_mgr)
      = bk_set_engine (demo_store\<lparr>en_index := demo_idx\<rparr>)
          ((bk_start demo_store demo_mgr)\<lparr>bk_mgr := demo_mgr\<lparr>am_all_buffers := [buf]\<rparr>, bk_pending := (\<lambda>_. [])(0 := [demo_write])\<rparr>)"
    "bf_used buf = 4096" by (rule demo_after_put)
  let ?e = "demo_store\<lparr>en_index := demo_idx\<rparr>" and ?ring = "\<lparr>rg_buffer = replicate 17 (0::nat), rg_head = Suc 0, rg_tail = 0\<rparr>"
  let ?m = "demo_mgr\<lparr>am_all_buffers := [buf], am_submit_ring := ?ring, am_active := None\<rparr>"
  let ?b = "bk_set_engine ?e ((bk_start demo_store demo_mgr)\<lparr>bk_mgr := ?m, bk_pending := (\<lambda>_. [])(0 := [demo_write]), bk_last_flush := 10000000\<rparr>)"
  have fw: "file_for_write demo_io 4096 ?e = (Some 0, ?e)"
    by (simp add: file_for_write_def demo_store_def get_active_file_def get_file_def)
  have flush: "flush_step 10000000 (bk_step demo_call (bk_start demo_store demo_mgr)\<lparr>bk_mgr := am_check_pending_resets
      (bk_mgr (bk_step demo_call (bk_start demo_store demo_mgr)))\<rparr>) = ?b"
    unfolding b(1) by (simp add: flush_step_def should_flush_on_timeout_def bk_set_engine_def bk_start_def am_check_pending_resets_def demo_mgr(2)
        am_new_def am_submit_current_buffer_def buf_is_empty_def b(2) ring_enqueue_def ring_new_def [of 17] kMaxBufferCount_def
        am_take_active_def ring_dequeue_def replicate_same Let_def)
  have pending_one: "am_get_pending_buffers (Suc (Suc n)) ?m = ([0], ?m\<lparr>am_submit_ring := ?ring\<lparr>rg_tail := Suc 0\<rparr>\<rparr>)" for n
    by (simp add: am_get_pending_buffers_def ring_dequeue_def)
  have pend: "am_get_pending_buffers 16 ?m = ([0], ?m\<lparr>am_submit_ring := ?ring\<lparr>rg_tail := Suc 0\<rparr>\<rparr>)"
    using pending_one [of 14] by simp
  define c where "c = ?b\<lparr>bk_mgr := ?m\<lparr>am_submit_ring := ?ring\<lparr>rg_tail := Suc 0\<rparr>\<rparr>\<rparr>"
  have c: "bk_engine c = ?e" "am_all_buffers (bk_mgr c) = [buf]" "bk_ios c = []" "bk_pending c 0 = [demo_write]" "bk_wait c = []"
    "\<not> am_backpressure (bk_mgr c)" "\<not> am_was_backpressure (bk_mgr c)"
    by (simp_all add: c_def bk_set_engine_def bk_start_def demo_mgr(2) am_new_def)
  have "submit_step demo_io ?b = submit_buffer_io demo_io 0 c"
    unfolding c_def by (simp add: submit_step_def pend)
  also have "\<dots> = send_buffer demo_io 0 0 (bk_set_engine ?e c)"
    by (simp add: submit_buffer_io_def c(1,2) b(2) buf_is_empty_def fw)
  finally have sub: "submit_step demo_io ?b = send_buffer demo_io 0 0 (bk_set_engine ?e c)" .
  have open_file: "fi_blob_opened (en_files ?e ! 0)" "io_ready demo_io" by (simp_all add: demo_store_def demo_io_def)
  have io: "\<exists>io. bi_buffer io = 0 \<and> bi_file_id io = 0 \<and> bi_offset io = 4096 \<and> length (bi_data io) \<le> 4096 \<and> bk_ios (submit_step demo_io ?b) = [io]" "bk_pending (submit_step demo_io ?b) 0 = [demo_write]"
    "\<not> am_backpressure (bk_mgr (submit_step demo_io ?b))" "\<not> am_was_backpressure (bk_mgr (submit_step demo_io ?b))"
    "bk_wait (submit_step demo_io ?b) = []" "en_index (bk_engine (submit_step demo_io ?b)) = demo_idx"
    unfolding sub using open_file c(3-7)
    by (simp_all add: send_buffer_def Let_def bk_set_engine_def c(1,2) b(2) advance_file_def) (simp_all add: demo_store_def en_update_file_def)
  have "bk_run [demo_call, BvPoll demo_buffered 10000000] (bk_start demo_store demo_mgr)
      = wait_step demo_buffered (resume_step demo_buffered (submit_step demo_io ?b))"
    by (simp only: bk_run_def fold.simps comp_apply id_apply bk_step.simps(3) poll_buffers_def Let_def flush) (simp add: demo_buffered_def)
  also have "\<dots> = submit_step demo_io ?b"
    using io by (simp add: resume_step_def am_process_resume_notifications_def wait_step_def)
  finally show ?thesis using that io by auto
qed

text \<open>The theorems about the path at this run.\<close>

theorem buffered_write_lands_witness:
  "\<exists>(io :: buffer_io) x. let e = bk_engine (bk_run [demo_call, BvPoll demo_buffered 10000000, BvIo 0 0 (\<lambda>_. 0)] (bk_start demo_store demo_mgr))
     in disk_read (en_disk e) (bi_blob io) (bi_offset io) 4096 = build_entry_inplace 5 (Some [1, 2, 3]) 3 1 False
        \<and> mi_lookup (en_index e) 5 = Some x \<and> me_sequence x = 1 \<and> 4096 * unat (me_offset_index x) = bi_offset io"
proof -
  let ?evs = "[demo_call, BvPoll demo_buffered 10000000]" and ?b = "bk_run [demo_call, BvPoll demo_buffered 10000000] (bk_start demo_store demo_mgr)"
  define b where "b = ?b"
  define b' where "b' = bk_step (BvIo 0 0 (\<lambda>_. 0)) b"
  obtain io where io: "bk_ios b = [io]" "bi_buffer io = 0" "bi_file_id io = 0" "bi_offset io = 4096" "length (bi_data io) \<le> 4096"
      "en_index (bk_engine b) = demo_idx" "bk_pending b 0 = [demo_write]"
    unfolding b_def by (rule demo_after_poll)
  have mems: "length [Some demo_memory] \<le> kMaxBufferCount" "list_all (\<lambda>mem. mem_ok mem) [Some demo_memory]"
    by (simp_all add: kMaxBufferCount_def demo_memory_def)
  have w: "bw_key demo_write = 5" "bw_sequence demo_write = 1" "bw_buffer_offset demo_write = 0" "bw_cb demo_write = 7"
    by (simp_all add: demo_write_def)
  have evs: "list_all bk_event_ok ?evs" "0 < length (bk_ios b)" "io = bk_ios b ! 0" "bk_pending b (bi_buffer io) = [] @ demo_write # []"
    using io by simp_all
  have "upsert_takes demo_idx (buffered_entry (bi_file_id io) (bi_base_page io) demo_write)"
    by (rule demo_idx(3)) (simp_all add: buffered_entry_def w)
  then have "mi_inv (en_index (bk_engine b)) \<and> bw_key demo_write \<notin> bw_key ` set []
      \<and> batch_takes (en_index (bk_engine b)) (map (buffered_entry (bi_file_id io) (bi_base_page io)) ([] @ demo_write # []))
      \<and> 4096 dvd bi_offset io \<and> bi_offset io + length (bi_data io) \<le> 2 ^ 33 \<and> unat (bi_file_id io) < 1024"
    using io demo_idx(2) by simp
  then obtain v len x where r: "v = [1, 2, 3] \<and> len = 3"
    "disk_read (en_disk (bk_engine b')) (bi_blob io) (bi_offset io + unat (bw_buffer_offset demo_write)) (unat (kv_entry_size len))
       = build_entry_inplace (bw_key demo_write) (Some v) len (bw_sequence demo_write) False"
    "mi_lookup (en_index (bk_engine b')) (bw_key demo_write) = Some x" "me_sequence x = bw_sequence demo_write"
    "4096 * unat (me_offset_index x) = bi_offset io + unat (bw_buffer_offset demo_write)"
    using buffered_write_lands [OF demo_mgr(1) mems evs(1) b_def evs(2-4) b'_def] by auto
  have run: "bk_run [demo_call, BvPoll demo_buffered 10000000, BvIo 0 0 (\<lambda>_. 0)] (bk_start demo_store demo_mgr) = b'"
    unfolding b'_def b_def by (simp add: bk_run_def)
  show ?thesis unfolding run Let_def
    by (intro exI [of _ io] exI [of _ x]) (use r w demo_size in simp)
qed

theorem close_drops_buffered_puts_witness:
  "let io = \<lparr>bi_buffer = 0, bi_file_id = 0, bi_base_page = 1, bi_blob = 77, bi_offset = 4096, bi_data = []\<rparr>;
       b = (bk_start demo_store (am_new ()))\<lparr>bk_ios := [io], bk_pending := (\<lambda>_. [])(0 := [demo_write])\<rparr>
   in bk_ids b = {#7#} \<and> ak_replies (bk_async (bk_step (BvIo 0 0 (\<lambda>_. 0)) (close_buffers demo_io b))) = []"
proof -
  let ?b = "(bk_start demo_store (am_new ()))\<lparr>bk_ios := [\<lparr>bi_buffer = 0, bi_file_id = 0, bi_base_page = 1, bi_blob = 77,
      bi_offset = 4096, bi_data = []\<rparr>], bk_pending := (\<lambda>_. [])(0 := [demo_write])\<rparr>"
  have "(\<Sum>i<kMaxBufferCount. mset (map bw_cb (bk_pending ?b i))) = {#7#} + (\<Sum>i\<in>{..<kMaxBufferCount} - {0}. mset (map bw_cb (bk_pending ?b i)))"
    by (subst sum.remove [of _ 0]) (simp_all add: kMaxBufferCount_def demo_write_def)
  also have "(\<Sum>i\<in>{..<kMaxBufferCount} - {0}. mset (map bw_cb (bk_pending ?b i))) = {#}" by (intro sum.neutral) simp
  finally have ids: "bk_ids ?b = {#7#}" by (simp add: bk_ids_def bk_start_def ak_ids_def ak_start_def)
  have ready: "en_state (bk_engine ?b) = EReady" by (simp add: bk_start_def ak_start_def demo_store_def)
  have none: "am_get_pending_buffers (Suc n) (am_new ()) = ([], am_new ())" for n
    by (simp add: am_get_pending_buffers_def am_new_def ring_dequeue_def ring_new_def)
  have "ak_replies (bk_async (close_buffers demo_io ?b)) = []"
    using ready none [of 15] by (simp add: close_buffers_def submit_step_def Let_def bk_start_def am_submit_current_buffer_def
        am_new_def ak_start_def bk_set_engine_def)
  then show ?thesis using close_drops_buffered_puts [OF ready refl refl, of 0 0 "\<lambda>_. 0" demo_io] ids by (simp add: Let_def)
qed

theorem put_rdma_unanswered_witness:
  "bk_ids (put_rdma (\<lambda>_. 0) 5 (0, 0) 28 3 1 7 (bk_start demo_store (am_new ()))) = {#}"
  using put_rdma_unanswered [of "bk_start demo_store (am_new ())" "\<lambda>_. 0" 5 "(0, 0)" 3 1 7]
  by (simp add: bk_start_def am_new_def bk_ids_def ak_ids_def ak_start_def)

theorem stale_slot_commits_witness:
  "\<exists>b. fst (commit_rdma_slot 0 0 (b\<lparr>bk_mgr := am_recycle 0 (bk_mgr b)\<rparr>)) = KSuccess
     \<and> bf_epoch (am_all_buffers (am_recycle 0 (bk_mgr b)) ! 0) = 1"
proof -
  let ?m = "am_update_buffer 0 (\<lambda>buf. buf\<lparr>bf_used := 4096, bf_entry_count := bf_entry_count buf + 1\<rparr>) demo_mgr"
  have "am_reserve_with_backpressure 4096 None (bk_mgr (bk_start demo_store demo_mgr)) = (Inl (0, 0), ?m)"
    using demo_reserve by (simp add: bk_start_def)
  moreover have ep: "am_current_buffer_epoch ?m = 0" "bk_next_slot (bk_start demo_store demo_mgr) = 0"
    by (simp_all add: am_current_buffer_epoch_def am_update_buffer_def demo_mgr(2) append_buffer_new_def bk_start_def)
  ultimately obtain b1 len where a: "alloc_rdma_slot None 3 (bk_start demo_store demo_mgr) = (Inr ((0, 0), 28, len, 0, 0), b1)"
    "bk_mgr b1 = ?m" by (simp add: alloc_rdma_slot_def demo_size Let_def)
  have "bk_slots (b1\<lparr>bk_mgr := am_recycle 0 (bk_mgr b1)\<rparr>) = bk_slots b1" by simp
  from stale_slot_commits [OF a(1) this]
  have "fst (commit_rdma_slot 0 0 (b1\<lparr>bk_mgr := am_recycle 0 (bk_mgr b1)\<rparr>)) = KSuccess" .
  moreover have "bf_epoch (am_all_buffers (am_recycle 0 ?m) ! 0) = 1"
    by (simp add: am_recycle_def Let_def am_update_buffer_def demo_mgr(2) append_buffer_new_def buf_reset_def)
  ultimately show ?thesis using a(2) by (intro exI [of _ b1]) simp
qed

end
