(* ===== verification/KvLifecycle.thy ===== *)
theory KvLifecycle
  imports KvBuffered KvRecovery KvCheckpoint KvCompaction
begin

text \<open>
  The life of an engine, \<^verbatim>\<open>src/engine.cpp\<close>: \<^verbatim>\<open>create\<close>, \<^verbatim>\<open>open\<close> and \<^verbatim>\<open>close\<close>, which set up the
  components of the other theories, connect them and bring their state to disk and back; the removal of
  a file for the compaction; the checkpoint trigger of \<^verbatim>\<open>poll\<close> and the statistics.
\<close>

section \<open>State\<close>

text \<open>Of \<^verbatim>\<open>EngineConfig\<close> the fields these operations read. \<open>cf_slots\<close> is \<^verbatim>\<open>max_entries / index_load_factor\<close>,
  which the constructor of the index computes in double precision; \<^verbatim>\<open>io_queue_size\<close> is only handed to
  SPDK, the three thresholds of the checkpoint are never read.\<close>

record engine_config =
  cf_max_capacity :: u64
  cf_data_file_size :: u64
  cf_slots :: u64
  cf_append_buffer_size :: u64
  cf_append_buffer_count :: nat

text \<open>The defaults; 2000000000 / 0.55 slots. A constructed engine always has these: \<^verbatim>\<open>create\<close> replaces
  them, \<^verbatim>\<open>open\<close> overwrites capacity and file size from the superblock and keeps the others.\<close>

definition default_config :: engine_config where
  "default_config = \<lparr>cf_max_capacity = kMaxCapacity, cf_data_file_size = kDefaultFileSize, cf_slots = 3636363636,
     cf_append_buffer_size = kAppendBufferSize, cf_append_buffer_count = kMinBufferCount\<rparr>"

text \<open>\<open>sy_parts\<close>: the components behind the engine's pointers exist; when \<^verbatim>\<open>close\<close> has reset them, what
  the model keeps of them is not read. \<open>sy_areas\<close> are the two copies of the superblock in its blob,
  \<open>sy_super\<close> its blob id, \<open>sy_sb_open\<close> whether its handle is open. \<open>sy_deleted\<close> are the blobs that were
  deleted.\<close>

record kv_system =
  sy_bk :: buffered_kv
  sy_parts :: bool
  sy_config :: engine_config
  sy_ckpt :: "nat ckpt"
  sy_sched :: comp_scheduler
  sy_areas :: sb_disk
  sy_super :: "u64 option"
  sy_sb_open :: bool
  sy_deleted :: "u64 list"

abbreviation sy_engine :: "kv_system \<Rightarrow> kv_engine" where
  "sy_engine s \<equiv> bk_engine (sy_bk s)"

definition sy_set_engine :: "kv_engine \<Rightarrow> kv_system \<Rightarrow> kv_system" where
  "sy_set_engine e s = s\<lparr>sy_bk := bk_set_engine e (sy_bk s)\<rparr>"

definition sy_set_state :: "engine_state \<Rightarrow> kv_system \<Rightarrow> kv_system" where
  "sy_set_state st s = sy_set_engine ((sy_engine s)\<lparr>en_state := st\<rparr>) s"

text \<open>What the surroundings answer while an engine is created, opened or closed. \<open>le_io\<close> serves the
  allocation of a file, and its \<open>io_ready\<close> tells whether SPDK's environment is initialised; \<open>le_now\<close> is
  the time in seconds; \<open>le_mapped\<close> and \<open>le_log_mapped\<close> are the allocations of the index and of the log
  page, \<open>le_mems\<close> those of the append buffers. Then the calls about the superblock: allocating, setting
  and opening its blob, the buffers and the channel, the writes and the reads. \<open>le_blob_opens\<close> tells which
  blobs can be opened, \<open>le_headers\<close> what their first pages hold, \<open>le_blobs\<close> lists the blobs of the store,
  \<open>le_log_read\<close> is the completion of reading the log page, \<open>le_loads\<close> the completions of the loader's
  requests.\<close>

record life_env =
  le_io :: io_env
  le_now :: u64
  le_mapped :: bool
  le_log_mapped :: bool
  le_mems :: "nat \<Rightarrow> byte list option"
  le_sb_allocated :: "u64 option"
  le_sb_set :: bool
  le_sb_opened :: bool
  le_sb_dma :: bool
  le_channel :: bool
  le_sb_write :: "sb_write \<Rightarrow> bool \<times> byte list"
  le_sb_read :: "byte list \<Rightarrow> byte list option"
  le_blob_opens :: "u64 \<Rightarrow> bool"
  le_headers :: "u64 \<Rightarrow> byte list option option"
  le_blobs :: "u64 list"
  le_log_read :: "bool \<times> byte list"
  le_io_unit :: u64
  le_cluster_size :: u64
  le_clusters :: "u64 \<Rightarrow> u64"
  le_loads :: "(nat \<times> bool \<times> byte list) option list"

section \<open>Construction\<close>

definition superblock_zero :: superblock where
  "superblock_zero = \<lparr>sb_magic = 0, sb_version = 0, sb_sequence = 0, sb_create_time = 0, sb_last_mount_time = 0,
     sb_total_capacity = 0, sb_data_file_size = 0, sb_alignment_unit = 0, sb_mem_index_blob_a = 0,
     sb_mem_index_blob_b = 0, sb_mem_index_size = 0, sb_active_mem_index_area = 0, sb_active_file_id = 0,
     sb_file_mappings = [], sb_checkpoint_sequence = 0, sb_checkpoint_global_seq = 0, sb_checkpoint_file_id = 0,
     sb_checkpoint_page_index = 0, sb_active_buffer_positions = [], sb_total_entries = 0, sb_total_data_bytes = 0,
     sb_total_garbage_bytes = 0, sb_alloc_log_head = 0, sb_alloc_log_tail = 0, sb_alloc_log_sequence = 0\<rparr>"

text \<open>The constructor, over the content of a blob store.\<close>

definition engine_new :: "disk \<Rightarrow> sb_disk \<Rightarrow> u64 option \<Rightarrow> kv_system" where
  "engine_new d areas super =
     \<lparr>sy_bk = bk_start \<lparr>en_state = EUninitialized, en_index = mem_index_new 0 False, en_files = [], en_active_file_id = 0,
         en_next_file_id = 0, en_data_file_size = cf_data_file_size default_config, en_total_data = 0, en_total_garbage = 0,
         en_meta = Map.empty, en_superblock = superblock_zero, en_alloc_log = None, en_disk = d\<rparr> (am_new ()),
      sy_parts = False, sy_config = default_config, sy_ckpt = ck_new 0, sy_sched = cs_new, sy_areas = areas, sy_super = super,
      sy_sb_open = False, sy_deleted = []\<rparr>"

text \<open>The memory of the append buffers, as many as the configuration asks for.\<close>

definition le_buffers :: "life_env \<Rightarrow> engine_config \<Rightarrow> byte list option list" where
  "le_buffers env config = map (le_mems env) [0..<cf_append_buffer_count config]"

text \<open>The components \<^verbatim>\<open>initialize_new\<close> and \<^verbatim>\<open>load_existing\<close> set up before they touch SPDK: the index and
  the append buffers.\<close>

definition init_parts :: "life_env \<Rightarrow> kv_system \<Rightarrow> bool \<times> kv_system" where
  "init_parts env s =
     (let s = sy_set_engine ((sy_engine s)\<lparr>en_index := mem_index_new (cf_slots (sy_config s)) (le_mapped env)\<rparr>) s
      in case am_initialize (le_buffers env (sy_config s)) (cf_append_buffer_size (sy_config s)) (am_new ()) of
           (ok, m) \<Rightarrow> (ok, s\<lparr>sy_parts := True, sy_bk := (sy_bk s)\<lparr>bk_mgr := m\<rparr>\<rparr>))"

definition init_alloc_log_manager :: "life_env \<Rightarrow> kv_system \<Rightarrow> kv_system" where
  "init_alloc_log_manager env s =
     (let sb = en_superblock (sy_engine s); ready = io_ready (le_io env)
      in sy_set_engine ((sy_engine s)\<lparr>en_alloc_log := Some (lg_initialize (sy_sb_open s \<and> ready \<and> le_channel env) (le_log_mapped env)
           (sb_alloc_log_head sb) (sb_alloc_log_tail sb) (sb_alloc_log_sequence sb))\<rparr>) s)"

definition persist_alloc_log :: "kv_engine \<Rightarrow> superblock \<Rightarrow> superblock" where
  "persist_alloc_log e sb =
     (case en_alloc_log e of None \<Rightarrow> sb
      | Some lg \<Rightarrow> sb\<lparr>sb_alloc_log_head := lg_head lg, sb_alloc_log_tail := lg_tail lg, sb_alloc_log_sequence := lg_sequence lg\<rparr>)"

definition sy_write_superblock :: "life_env \<Rightarrow> kv_system \<Rightarrow> kv_error \<times> kv_system" where
  "sy_write_superblock env s =
     (case write_superblock (sy_sb_open s \<and> io_ready (le_io env) \<and> le_channel env) (le_sb_dma env) (le_sb_write env)
             (en_superblock (sy_engine s), sy_areas s) of
        (err, sb, areas) \<Rightarrow> (err, (sy_set_engine ((sy_engine s)\<lparr>en_superblock := sb\<rparr>) s)\<lparr>sy_areas := areas\<rparr>))"

section \<open>create\<close>

definition new_superblock :: "engine_config \<Rightarrow> u64 \<Rightarrow> superblock \<Rightarrow> superblock" where
  "new_superblock config now sb =
     sb\<lparr>sb_magic := kSuperblockMagic, sb_version := 1, sb_sequence := 0, sb_create_time := now, sb_last_mount_time := now,
        sb_total_capacity := cf_max_capacity config, sb_data_file_size := cf_data_file_size config,
        sb_alignment_unit := ucast kPageSize, sb_file_mappings := []\<rparr>"

text \<open>The part of \<^verbatim>\<open>initialize_new\<close> from the allocation of the first data file on.\<close>

definition create_first_file :: "life_env \<Rightarrow> kv_system \<Rightarrow> kv_error \<times> kv_system" where
  "create_first_file env s =
     (case allocate_new_file (le_io env) (sy_engine s) of
        (None, e) \<Rightarrow> (KInternalError, sy_set_engine e s)
      | (Some i, e) \<Rightarrow>
          (let id = fi_file_id (en_files e ! i);
               e = e\<lparr>en_active_file_id := id, en_superblock := persist_alloc_log e ((en_superblock e)\<lparr>sb_active_file_id := id\<rparr>)\<rparr>
           in sy_write_superblock env (sy_set_engine e s)))"

definition initialize_new :: "life_env \<Rightarrow> kv_system \<Rightarrow> kv_error \<times> kv_system" where
  "initialize_new env s =
     (case init_parts env s of
        (False, s) \<Rightarrow> (KInternalError, s)
      | (True, s) \<Rightarrow>
          (let s = s\<lparr>sy_ckpt := ck_new (mi_capacity (en_index (sy_engine s))), sy_sched := cs_new\<rparr>
           in if \<not> io_ready (le_io env) then (KInternalError, s)
              else (let s = sy_set_engine ((sy_engine s)\<lparr>en_superblock :=
                              new_superblock (sy_config s) (le_now env) (en_superblock (sy_engine s))\<rparr>) s
                    in case create_superblock_blob True (le_sb_allocated env) (le_sb_set env) (le_sb_opened env) of
                         (err, super, opened) \<Rightarrow>
                           (let s = s\<lparr>sy_super := super, sy_sb_open := opened\<rparr>
                            in if err \<noteq> KSuccess then (err, s)
                               else create_first_file env (init_alloc_log_manager env s)))))"

definition engine_create :: "life_env \<Rightarrow> engine_config \<Rightarrow> kv_system \<Rightarrow> kv_error \<times> kv_system" where
  "engine_create env config s =
     (if en_state (sy_engine s) \<noteq> EUninitialized then (KInvalidState, s)
      else (let s = (sy_set_engine ((sy_engine s)\<lparr>en_state := EOpening, en_data_file_size := cf_data_file_size config\<rparr>) s)
                      \<lparr>sy_config := config\<rparr>
            in case initialize_new env s of
                 (err, s) \<Rightarrow> if err \<noteq> KSuccess then (err, sy_set_state EErrorState s) else (KSuccess, sy_set_state EReady s)))"

section \<open>open\<close>

definition sy_load_superblock :: "life_env \<Rightarrow> kv_system \<Rightarrow> kv_error \<times> kv_system" where
  "sy_load_superblock env s =
     (let ready = io_ready (le_io env);
          s1 = s\<lparr>sy_sb_open := ready \<and> sy_super s \<noteq> None \<and> le_sb_opened env\<rparr>
      in case load_superblock ready (sy_super s) (le_sb_opened env) (le_sb_dma env) (le_channel env) (le_sb_read env) (sy_areas s) of
           Inl err \<Rightarrow> (err, s1)
         | Inr sb \<Rightarrow> (KSuccess, sy_set_engine ((sy_engine s1)\<lparr>en_superblock := sb\<rparr>) s1))"

text \<open>The entries the log is read for are those after the sequence number in the superblock.\<close>

definition sy_log_recovery :: "life_env \<Rightarrow> kv_system \<Rightarrow> kv_system" where
  "sy_log_recovery env s =
     (let e = sy_engine s in
      case en_alloc_log e of None \<Rightarrow> s
      | Some lg \<Rightarrow>
          if \<not> lg_initialized lg \<or> \<not> io_ready (le_io env) then s
          else (let seq = sb_alloc_log_sequence (en_superblock e) in
                case (case lg_load_entries seq lg of
                        (LgLoadFailed, lg) \<Rightarrow> ([], lg)
                      | (LgLoaded es, lg) \<Rightarrow> (es, lg)
                      | (LgReadPage, lg) \<Rightarrow>
                          (case lg_on_page_read seq (fst (le_log_read env)) (snd (le_log_read env)) lg of
                             (es, lg) \<Rightarrow> (case es of None \<Rightarrow> [] | Some es \<Rightarrow> es, lg))) of
                  (es, lg) \<Rightarrow>
                    (let r = process_alloc_log_recovery (le_headers env) es
                               \<lparr>ar_mappings = sb_file_mappings (en_superblock e), ar_next_file_id = en_next_file_id e, ar_deleted = []\<rparr>
                     in (sy_set_engine (e\<lparr>en_alloc_log := Some lg, en_next_file_id := ar_next_file_id r,
                           en_superblock := (en_superblock e)\<lparr>sb_file_mappings := ar_mappings r\<rparr>\<rparr>) s)
                          \<lparr>sy_deleted := sy_deleted s @ ar_deleted r\<rparr>)))"

text \<open>One turn of the loop over the mappings, the opening of its blob included; the files are opened
  whatever their state.\<close>

definition mapped_file :: "(u64 \<Rightarrow> bool) \<Rightarrow> file_mapping \<Rightarrow> file_info" where
  "mapped_file opens m = \<lparr>fi_file_id = fm_file_id m, fi_blob_id = fm_blob_id m, fi_state = fm_state m, fi_size = fm_size m,
     fi_write_offset = fm_write_offset m, fi_blob_opened = opens (fm_blob_id m)\<rparr>"

definition rebuild_file :: "(u64 \<Rightarrow> bool) \<Rightarrow> file_mapping \<Rightarrow> kv_engine \<Rightarrow> kv_engine" where
  "rebuild_file opens m e =
     (let f = mapped_file opens m;
          meta = (case en_meta e (fi_file_id f) of None \<Rightarrow> file_meta_new | Some x \<Rightarrow> x)
      in e\<lparr>en_meta := (en_meta e)(fi_file_id f \<mapsto> meta\<lparr>ft_file_id := fi_file_id f, ft_state := fi_state f,
             ft_total_entries := 0, ft_valid_entries := 0, ft_total_bytes := fi_size f, ft_valid_bytes := 0\<rparr>),
           en_next_file_id := (if fi_file_id f \<ge> en_next_file_id e then fi_file_id f + 1 else en_next_file_id e),
           en_files := en_files e @ [f]\<rparr>)"

definition rebuild_file_info :: "life_env \<Rightarrow> kv_engine \<Rightarrow> kv_error \<times> kv_engine" where
  "rebuild_file_info env e =
     (let e = e\<lparr>en_files := []\<rparr> in
      if \<not> io_ready (le_io env) then (KInternalError, e)
      else (let ms = sb_file_mappings (en_superblock e);
                e = fold (rebuild_file (le_blob_opens env)) ms e
            in if \<not> list_all (\<lambda>m. le_blob_opens env (fm_blob_id m)) ms then (KIoError, e)
               else if en_files e = []
               then (case allocate_new_file (le_io env) e of
                       (None, e) \<Rightarrow> (KInternalError, e)
                     | (Some i, e) \<Rightarrow> (KSuccess, e\<lparr>en_active_file_id := fi_file_id (en_files e ! i)\<rparr>))
               else (KSuccess, e)))"

definition release_dangling_blobs :: "life_env \<Rightarrow> kv_system \<Rightarrow> kv_system" where
  "release_dangling_blobs env s =
     (if \<not> io_ready (le_io env) then s
      else s\<lparr>sy_deleted := sy_deleted s @ dangling_blobs (sy_super s) (en_superblock (sy_engine s)) (le_blobs env)\<rparr>)"

text \<open>The statistics and counters that are taken from the superblock.\<close>

definition restore_statistics :: "kv_engine \<Rightarrow> kv_engine" where
  "restore_statistics e =
     (let sb = en_superblock e
      in e\<lparr>en_total_data := sb_total_data_bytes sb, en_total_garbage := sb_total_garbage_bytes sb,
           en_active_file_id := sb_active_file_id sb, en_next_file_id := word_of_nat (length (sb_file_mappings sb)),
           en_index := mi_set_global_sequence (sb_checkpoint_global_seq sb) (en_index e)\<rparr>)"

definition recover_mem_index :: "life_env \<Rightarrow> kv_system \<Rightarrow> kv_error \<times> kv_system" where
  "recover_mem_index env s =
     (let e = sy_engine s;
          l = engine_loader (en_index e) (superblock_bytes (en_superblock e)) (io_ready (le_io env) \<and> sy_sb_open s) (le_sb_dma env)
                (le_io_unit env) (le_cluster_size env) (le_clusters env) (en_files e);
          l = fold (\<lambda>c l. snd (ld_poll c l)) (le_loads env) (start_recovery l)
      in case recover_mem_index_finish (en_superblock e) l of
           (err, idx) \<Rightarrow> (err, sy_set_engine (e\<lparr>en_index := idx\<rparr>) s))"

text \<open>\<^verbatim>\<open>load_existing\<close> from the rebuilding of the file list on.\<close>

definition load_files :: "life_env \<Rightarrow> bool \<Rightarrow> kv_system \<Rightarrow> kv_error \<times> kv_system" where
  "load_files env recover s =
     (case rebuild_file_info env (sy_engine s) of
        (err, e) \<Rightarrow>
          (let s = sy_set_engine e s in
           if err \<noteq> KSuccess then (err, s)
           else (let s = release_dangling_blobs env s;
                     s = s\<lparr>sy_ckpt := ck_new (mi_capacity (en_index (sy_engine s))), sy_sched := cs_new\<rparr>;
                     s = sy_set_engine (restore_statistics (sy_engine s)) s
                 in case (if recover then recover_mem_index env s else (KSuccess, s)) of
                      (err, s) \<Rightarrow>
                        if err \<noteq> KSuccess then (err, s)
                        else (KSuccess, sy_set_engine ((sy_engine s)\<lparr>en_superblock :=
                               (en_superblock (sy_engine s))\<lparr>sb_last_mount_time := le_now env\<rparr>\<rparr>) s))))"

definition load_existing :: "life_env \<Rightarrow> bool \<Rightarrow> kv_system \<Rightarrow> kv_error \<times> kv_system" where
  "load_existing env recover s =
     (case sy_load_superblock env s of
        (err, s) \<Rightarrow>
          if err \<noteq> KSuccess then (err, s)
          else if \<not> superblock_is_valid (en_superblock (sy_engine s)) then (KCorruption, s)
          else (let sb = en_superblock (sy_engine s);
                    s = s\<lparr>sy_config := (sy_config s)\<lparr>cf_max_capacity := sb_total_capacity sb, cf_data_file_size := sb_data_file_size sb\<rparr>\<rparr>;
                    s = sy_set_engine ((sy_engine s)\<lparr>en_data_file_size := sb_data_file_size sb\<rparr>) s;
                    s = sy_log_recovery env (init_alloc_log_manager env s)
                in case init_parts env s of
                     (False, s) \<Rightarrow> (KInternalError, s)
                   | (True, s) \<Rightarrow> if \<not> io_ready (le_io env) then (KInternalError, s) else load_files env recover s))"

text \<open>\<^verbatim>\<open>recover\<close> itself does nothing.\<close>

definition engine_open :: "life_env \<Rightarrow> bool \<Rightarrow> kv_system \<Rightarrow> kv_error \<times> kv_system" where
  "engine_open env recover s =
     (if en_state (sy_engine s) \<noteq> EUninitialized then (KInvalidState, s)
      else (case load_existing env recover (sy_set_state EOpening s) of
              (err, s) \<Rightarrow> if err \<noteq> KSuccess then (err, sy_set_state EErrorState s)
                          else (KSuccess, sy_set_state EReady (if recover then sy_set_state ERecovering s else s))))"

section \<open>close\<close>

text \<open>\<open>le_now\<close> and the allocations are not used; what the blob store answers when a handle is closed does
  not matter, the file is marked closed in any case.\<close>

definition close_blob_for_file :: "bool \<Rightarrow> nat \<Rightarrow> int \<Rightarrow> kv_engine \<Rightarrow> bool \<times> kv_engine" where
  "close_blob_for_file ready i status e =
     (if \<not> fi_blob_opened (en_files e ! i) then (True, e)
      else if \<not> ready then (False, e)
      else (status = 0, en_update_file i (\<lambda>f. f\<lparr>fi_blob_opened := False\<rparr>) e))"

definition final_superblock :: "kv_engine \<Rightarrow> superblock" where
  "final_superblock e =
     (let sb = (en_superblock e)\<lparr>sb_active_file_id := en_active_file_id e, sb_total_data_bytes := en_total_data e,
                 sb_total_garbage_bytes := en_total_garbage e, sb_total_entries := mi_size (en_index e)\<rparr>
      in fold (\<lambda>f. update_superblock_file_mapping (Some f)) (en_files e) (persist_alloc_log e sb))"

definition engine_close :: "life_env \<Rightarrow> kv_system \<Rightarrow> kv_error \<times> kv_system" where
  "engine_close env s =
     (if en_state (sy_engine s) \<noteq> EReady then (KInvalidState, s)
      else (let s = s\<lparr>sy_bk := close_buffers (le_io env) (sy_bk s)\<rparr>;
                s = sy_set_engine ((sy_engine s)\<lparr>en_superblock := final_superblock (sy_engine s)\<rparr>) s;
                s = (if sy_sb_open s then snd (sy_write_superblock env s) else s);
                e = (sy_engine s)\<lparr>en_files := [], en_alloc_log := None, en_state := EClosed\<rparr>
            in (KSuccess, (sy_set_engine e s)\<lparr>sy_parts := False, sy_sb_open := False\<rparr>)))"

section \<open>Removing a file\<close>

definition on_compaction_blob_closed :: "bool \<Rightarrow> int \<Rightarrow> bool \<Rightarrow> u16 \<Rightarrow> nat \<Rightarrow> kv_system \<Rightarrow> bool \<times> kv_system" where
  "on_compaction_blob_closed ready status close_ok file_id i s =
     (if \<not> close_ok then (False, s)
      else if \<not> ready then (False, s)
      else (let blob = fi_blob_id (en_files (sy_engine s) ! i);
                s = (if status = 0 then s\<lparr>sy_deleted := sy_deleted s @ [blob]\<rparr> else s)
            in (status = 0, sy_set_engine ((sy_engine s)\<lparr>en_meta := (en_meta (sy_engine s))(file_id := None)\<rparr>) s)))"

definition compaction_remove_file :: "bool \<Rightarrow> int \<Rightarrow> int \<Rightarrow> u16 \<Rightarrow> kv_system \<Rightarrow> bool \<times> kv_system" where
  "compaction_remove_file ready close_status delete_status file_id s =
     (case get_file (sy_engine s) file_id of
        None \<Rightarrow> (False, s)
      | Some i \<Rightarrow> (case close_blob_for_file ready i close_status (sy_engine s) of
                     (ok, e) \<Rightarrow> on_compaction_blob_closed ready delete_status ok file_id i (sy_set_engine e s)))"

section \<open>Checkpoints, statistics\<close>

text \<open>The positions a checkpoint is started with, and the test \<^verbatim>\<open>poll\<close> makes.\<close>

definition active_positions :: "kv_engine \<Rightarrow> active_buffer_pos list" where
  "active_positions e =
     (case get_active_file e of None \<Rightarrow> []
      | Some i \<Rightarrow> [\<lparr>ab_file_id = fi_file_id (en_files e ! i), ab_page_index = fi_write_offset (en_files e ! i) div kPageSize\<rparr>])"

definition check_checkpoint_trigger ::
    "('c, 's) ckpt_env \<Rightarrow> 'c \<Rightarrow> u64 \<Rightarrow> kv_engine \<Rightarrow> ckpt_trigger \<times> 'c ckpt \<times> 's \<Rightarrow> ckpt_trigger \<times> 'c ckpt \<times> 's" where
  "check_checkpoint_trigger env cb now e = (\<lambda>(t, c, x).
     if ck_is_in_progress c then (t, c, x)
     else if ct_should_checkpoint t (ck_dirty_segment_count c) now
     then (ct_reset now t, ck_engine_start env cb (mi_global_sequence (en_index e)) (active_positions e) (c, x))
     else (t, c, x))"

definition engine_schedule_compaction :: "u16 \<Rightarrow> kv_system \<Rightarrow> kv_system" where
  "engine_schedule_compaction file_id s = (if sy_parts s then s\<lparr>sy_sched := cs_schedule_compaction file_id (sy_sched s)\<rparr> else s)"

definition get_entry_count :: "kv_system \<Rightarrow> u64" where
  "get_entry_count s = (if sy_parts s then mi_size (en_index (sy_engine s)) else 0)"

definition get_garbage_ratio :: "kv_engine \<Rightarrow> u64" where
  "get_garbage_ratio e = (if en_total_data e = 0 then 0 else (en_total_garbage e * 100) div en_total_data e)"

definition get_file_metadata :: "u16 \<Rightarrow> kv_engine \<Rightarrow> file_meta option" where
  "get_file_metadata file_id e = en_meta e file_id"

definition get_blob_for_file :: "u16 \<Rightarrow> kv_engine \<Rightarrow> u64 option" where
  "get_blob_for_file file_id e =
     (case get_file e file_id of None \<Rightarrow> None
      | Some i \<Rightarrow> if fi_blob_opened (en_files e ! i) then Some (fi_blob_id (en_files e ! i)) else None)"

text \<open>Not called by anything.\<close>

definition update_index_on_write_complete :: "u64 \<Rightarrow> mem_index_entry \<Rightarrow> bool \<Rightarrow> u16 \<Rightarrow> u32 \<Rightarrow> mem_index \<Rightarrow> mem_index" where
  "update_index_on_write_complete key entry is_compaction old_file_id old_offset_index idx =
     (case mi_lookup idx key of
        None \<Rightarrow> snd (mi_upsert idx key entry)
      | Some m \<Rightarrow>
          if is_compaction
          then (if ucast (me_file_id m) = old_file_id \<and> ucast (me_offset_index m) = old_offset_index
                then snd (mi_upsert idx key entry) else idx)
          else snd (mi_upsert idx key entry))"

end
