(* ===== verification/KvStoreLog.thy ===== *)
theory KvStoreLog
  imports KvEngineSpec KvRecovery
begin

text \<open>
  What \<^verbatim>\<open>put\<close> and \<^verbatim>\<open>del\<close> leave in a store's first data file: a run of entries, one for each
  call that succeeded, from which the recovery scan rebuilds the index slot by slot.
\<close>

section \<open>The index and its sequence counter\<close>

text \<open>No operation on the table reads the counter.\<close>

lemma mi_wrap_sequence: "mi_wrap (m\<lparr>mi_global_sequence := q\<rparr>) i = mi_wrap m i"
  by (simp add: mi_wrap_def)

lemma upsert_loop_sequence:
  "upsert_loop (m\<lparr>mi_global_sequence := q\<rparr>) key idx d e
     = map_prod id (\<lambda>m. m\<lparr>mi_global_sequence := q\<rparr>) (upsert_loop m key idx d e)"
proof (induction m key idx d e rule: upsert_loop.induct)
  case (1 m key idx d e)
  define swap where "swap \<longleftrightarrow> unat (mi_psl m ! unat idx) < unat d + 1"
  define e' where "e' = (if swap then mi_entries m ! unat idx else e)"
  define d' where "d' = (if swap then mi_psl m ! unat idx + 1 else d)"
  define m' where "m' = (if swap then m\<lparr>mi_entries := (mi_entries m)[unat idx := e], mi_psl := (mi_psl m)[unat idx := d]\<rparr> else m)"
  let ?ends = "\<not> unat idx < length (mi_psl m) \<or> mi_psl m ! unat idx = 0 \<and> me_is_empty (mi_entries m ! unat idx)
    \<or> me_key (mi_entries m ! unat idx) = key"
  show ?case
  proof (cases ?ends)
    case True
    then show ?thesis
      unfolding upsert_loop.simps [of m key idx d e] upsert_loop.simps [of "m\<lparr>mi_global_sequence := q\<rparr>" key idx d e]
      by (elim disjE conjE) simp_all
  next
    case False
    then have ends: "unat idx < length (mi_psl m)" "(mi_psl m ! unat idx = 0 \<and> me_is_empty (mi_entries m ! unat idx)) = False"
      "(me_key (mi_entries m ! unat idx) = key) = False" by auto
    have m'q: "m'\<lparr>mi_global_sequence := q\<rparr> = (if swap then m\<lparr>mi_global_sequence := q, mi_entries := (mi_entries m)[unat idx := e],
        mi_psl := (mi_psl m)[unat idx := d]\<rparr> else m\<lparr>mi_global_sequence := q\<rparr>)"
      by (simp add: m'_def)
    have step: "upsert_loop m key idx d e = (if d' \<ge> 128 then (False, m') else upsert_loop m' key (mi_wrap m (idx + 1)) (d' + 1) e')"
      "upsert_loop (m\<lparr>mi_global_sequence := q\<rparr>) key idx d e = (if d' \<ge> 128 then (False, m'\<lparr>mi_global_sequence := q\<rparr>)
         else upsert_loop (m'\<lparr>mi_global_sequence := q\<rparr>) key (mi_wrap m (idx + 1)) (d' + 1) e')"
      unfolding m'q unfolding m'_def d'_def e'_def
      unfolding upsert_loop.simps [of m key idx d e] upsert_loop.simps [of "m\<lparr>mi_global_sequence := q\<rparr>" key idx d e]
      by (simp_all add: ends Let_def mi_wrap_sequence swap_def del: de_Morgan_conj not_all)
    have "upsert_loop (m'\<lparr>mi_global_sequence := q\<rparr>) key (mi_wrap m (idx + 1)) (d' + 1) e'
        = map_prod id (\<lambda>m. m\<lparr>mi_global_sequence := q\<rparr>) (upsert_loop m' key (mi_wrap m (idx + 1)) (d' + 1) e')" if "\<not> d' \<ge> 128"
      by (rule "1.IH" [OF _ _ _ swap_def e'_def d'_def m'_def that])
        (use False in auto)
    then show ?thesis by (simp only: step) (simp add: id_def)
  qed
qed

lemma mi_upsert_sequence:
  "snd (mi_upsert (mi_set_global_sequence q m) key e) = mi_set_global_sequence q (snd (mi_upsert m key e))"
  by (simp add: mi_upsert_def mi_set_global_sequence_def mi_home_def mi_wrap_def upsert_loop_sequence)

lemma find_internal_sequence:
  "find_internal (m\<lparr>mi_global_sequence := q\<rparr>) key idx tag d = find_internal m key idx tag d"
proof (induction m key idx tag d rule: find_internal.induct)
  case (1 m key idx tag d)
  then show ?case by (subst (1 2) find_internal.simps) (simp add: mi_wrap_def)
qed

lemma mi_find_sequence: "mi_find (mi_set_global_sequence q m) key = mi_find m key"
  by (simp add: mi_find_def mi_set_global_sequence_def mi_home_def mi_wrap_def find_internal_sequence)

lemma mi_lookup_sequence: "mi_lookup (mi_set_global_sequence q m) key = mi_lookup m key"
  by (simp add: mi_lookup_def mi_find_sequence) (simp add: mi_set_global_sequence_def)

lemma mi_remove_sequence:
  "snd (mi_remove (mi_set_global_sequence q m) key) = mi_set_global_sequence q (snd (mi_remove m key))"
  by (simp add: mi_remove_def mi_find_sequence split: option.split) (simp add: mi_set_global_sequence_def)

lemma mi_allocate_sequence_set:
  "mi_allocate_sequence (mi_set_global_sequence q m) = (q + 1, mi_set_global_sequence (q + 1) m)"
  by (simp add: mi_allocate_sequence_def mi_set_global_sequence_def Let_def)

section \<open>The calls\<close>

datatype store_op = StPut io_env u64 "byte list option" u32 | StDel io_env u64

fun store_do :: "store_op \<Rightarrow> kv_engine \<Rightarrow> kv_engine" where
  "store_do (StPut env key v len) e = snd (kv_put env key v len e)"
| "store_do (StDel env key) e = snd (kv_del env key e)"

fun store_bytes :: "store_op \<Rightarrow> nat" where
  "store_bytes (StPut env key v len) = unat (kv_entry_size len)"
| "store_bytes (StDel env key) = 4096"

text \<open>The caller's buffer is as long as it says.\<close>

fun store_op_ok :: "store_op \<Rightarrow> bool" where
  "store_op_ok (StPut env key (Some v) len) \<longleftrightarrow> unat len \<le> length v"
| "store_op_ok op \<longleftrightarrow> True"

section \<open>The log of a store with one file\<close>

abbreviation log_index :: "mem_index \<Rightarrow> u16 \<Rightarrow> log_entry list \<Rightarrow> mem_index" where
  "log_index m0 file es \<equiv> fst (fold rebuild_entry (log_rebuilt file 0 4096 es) (m0, 0))"

definition log_file :: "file_info \<Rightarrow> disk \<Rightarrow> log_entry list \<Rightarrow> bool" where
  "log_file f d es \<longleftrightarrow> fi_blob_opened f \<and> unat (fi_write_offset f) = 4096 + length (log_images es)
     \<and> fi_size f = (if es = [] then 0 else fi_write_offset f)
     \<and> disk_read d (fi_blob_id f) 4096 (length (log_images es)) = log_images es
     \<and> get_u32 (disk_read d (fi_blob_id f) 0 4096) 0 \<noteq> kEntryMagic"

definition store_log :: "mem_index \<Rightarrow> kv_engine \<Rightarrow> log_entry list \<Rightarrow> bool" where
  "store_log m0 e es \<longleftrightarrow> en_state e = EReady \<and> list_all log_ok es
     \<and> (\<exists>f. en_files e = [f] \<and> fi_file_id f = en_active_file_id e \<and> log_file f (en_disk e) es)
     \<and> (\<exists>q. en_index e = mi_set_global_sequence q (log_index m0 (en_active_file_id e) es))"

text \<open>What the calls do not touch.\<close>

definition same_setup :: "kv_engine \<Rightarrow> kv_engine \<Rightarrow> bool" where
  "same_setup e e' \<longleftrightarrow> en_superblock e' = en_superblock e \<and> en_alloc_log e' = en_alloc_log e
     \<and> en_active_file_id e' = en_active_file_id e \<and> en_next_file_id e' = en_next_file_id e
     \<and> en_data_file_size e' = en_data_file_size e \<and> en_state e' = en_state e
     \<and> map (\<lambda>f. (fi_file_id f, fi_blob_id f, fi_state f)) (en_files e') = map (\<lambda>f. (fi_file_id f, fi_blob_id f, fi_state f)) (en_files e)"

lemma log_images_append: "log_images (es @ [x]) = log_images es @ log_image x"
  by (simp add: log_images_def)

lemma log_rebuilt_append:
  "log_rebuilt file base off (es @ [x]) = log_rebuilt file base off es @ log_rebuilt file base (off + length (log_images es)) [x]"
proof (induction es arbitrary: off)
  case Nil
  then show ?case by (simp add: log_images_def)
next
  case (Cons e es)
  obtain key v seq t where e: "e = (key, v, seq, t)" by (cases e) auto
  show ?case by (simp add: e Cons log_images_def add.assoc del: log_image.simps)
qed

lemma log_index_append:
  "log_index m0 file (es @ [(key, v, seq, t)]) = (let m = log_index m0 file es in
     if t then snd (mi_remove m key)
     else snd (mi_upsert m key (hd (log_rebuilt file 0 (4096 + length (log_images es)) [(key, v, seq, t)]))))"
  by (cases "fold rebuild_entry (log_rebuilt file 0 4096 es) (m0, 0)") (simp add: log_rebuilt_append rebuild_entry_def)

lemma store_log_file:
  assumes "store_log m0 e es" "4096 + length (log_images es) + unat sz \<le> 2 ^ 20" "4096 + length (log_images es) + unat sz \<le> unat (en_data_file_size e)"
  shows "file_for_write env sz e = (Some 0, e)"
proof -
  obtain f where f: "en_files e = [f]" "fi_file_id f = en_active_file_id e" "log_file f (en_disk e) es"
    using assms(1) by (auto simp: store_log_def)
  have "unat (fi_write_offset f + sz) = unat (fi_write_offset f) + unat sz"
    using f(3) assms(2) by (subst unat_plus_small) (auto simp: log_file_def)
  then have "\<not> en_data_file_size e < fi_write_offset f + sz"
    using f(3) assms(2,3) by (simp add: word_less_nat_alt log_file_def)
  then show ?thesis using f by (simp add: file_for_write_def get_active_file_def get_file_def log_file_def)
qed

section \<open>Appending\<close>

lemma submit_write_at:
  assumes "fi_blob_opened f" "submit_write ready status torn f off img d = (r, d')"
  shows "n + k \<le> off \<Longrightarrow> disk_read d' b n k = disk_read d b n k"
    and "r = 0 \<Longrightarrow> disk_read d' (fi_blob_id f) off (length img) = img"
proof -
  have d': "d' = d \<or> (\<exists>bs. d' = disk_write (fi_blob_id f) off bs d)" and r: "r = 0 \<Longrightarrow> d' = disk_write (fi_blob_id f) off img d"
    using assms by (auto simp: submit_write_def split: if_splits)
  show "disk_read d' b n k = disk_read d b n k" if "n + k \<le> off"
    using d' that by (auto simp: disk_read_def disk_write_below)
  show "disk_read d' (fi_blob_id f) off (length img) = img" if "r = 0"
    using r that by (simp add: disk_read_write)
qed

lemma disk_read_split: "disk_read d b off (n + k) = disk_read d b off n @ disk_read d b (off + n) k"
  using upt_add_eq_append [of off "off + n" k] by (simp add: disk_read_def add.assoc)

lemma log_file_kept:
  assumes "log_file f d es" "submit_write ready status torn f (unat (fi_write_offset f)) img d = (r, d')"
  shows "log_file f d' es"
proof -
  have o: "fi_blob_opened f" "4096 + length (log_images es) \<le> unat (fi_write_offset f)" using assms(1) by (simp_all add: log_file_def)
  show ?thesis
    using assms(1) submit_write_at(1) [OF o(1) assms(2), of 0 4096] submit_write_at(1) [OF o(1) assms(2), of 4096 "length (log_images es)"] o(2)
    by (simp add: log_file_def)
qed

lemma log_file_appended:
  assumes "log_file f d es" "submit_write ready status torn f (unat (fi_write_offset f)) (log_image x) d = (0, d')"
    and "length (log_image x) = unat sz" "unat (fi_write_offset f) + unat sz \<le> 2 ^ 20"
  shows "log_file (advanced sz f) d' (es @ [x])"
proof -
  have o: "fi_blob_opened f" "unat (fi_write_offset f) = 4096 + length (log_images es)" using assms(1) by (simp_all add: log_file_def)
  have "unat (fi_write_offset f + sz) = 4096 + length (log_images es) + unat sz"
    using assms(4) o(2) by (subst unat_plus_small) simp_all
  moreover have "disk_read d' (fi_blob_id f) 4096 (length (log_images es) + unat sz) = log_images es @ log_image x"
    using log_file_kept [OF assms(1,2)] submit_write_at(2) [OF o(1) assms(2)] assms(3) o(2)
    by (simp add: disk_read_split log_file_def)
  ultimately show ?thesis
    using log_file_kept [OF assms(1,2)] assms(3) by (simp add: log_file_def advanced_def log_images_append)
qed

section \<open>One call\<close>

lemma same_setup_refl: "same_setup e e"
  by (simp add: same_setup_def)

lemma same_setup_trans: "same_setup a b \<Longrightarrow> same_setup b c \<Longrightarrow> same_setup a c"
  by (simp add: same_setup_def)

lemma store_log_wrote:
  assumes log: "store_log m0 e es" and f: "en_files e = [f]"
    and al: "mi_allocate_sequence (en_index e) = (seq, idx)"
    and w: "submit_write ready status torn f (unat (fi_write_offset f)) img (en_disk e) = (r, d)"
  shows "store_log m0 (e\<lparr>en_index := idx, en_disk := d\<rparr>) es"
proof -
  have "log_file f d es" using log f log_file_kept [OF _ w, of es] by (auto simp: store_log_def)
  then show ?thesis using log f al by (auto simp: store_log_def mi_allocate_sequence_set)
qed

lemma store_log_appended:
  assumes log: "store_log m0 e es" and f: "en_files e = [f]"
    and w: "submit_write ready status torn f (unat (fi_write_offset f)) (log_image x) (en_disk e) = (0, d)"
    and x: "log_ok x" "length (log_image x) = unat sz" "unat (fi_write_offset f) + unat sz \<le> 2 ^ 20"
    and e': "en_files e' = [advanced sz f]" "en_disk e' = d" "en_state e' = en_state e" "en_active_file_id e' = en_active_file_id e"
    and idx: "en_index e' = mi_set_global_sequence q (log_index m0 (en_active_file_id e) (es @ [x]))"
  shows "store_log m0 e' (es @ [x])"
proof -
  have "fi_file_id f = en_active_file_id e" "log_file f (en_disk e) es" using log f by (auto simp: store_log_def)
  from log_file_appended [OF this(2) w x(2,3)] this(1) show ?thesis
    using log x(1) idx e' by (auto simp: store_log_def advanced_def)
qed

lemma written_entry_rebuilt:
  assumes "unat (fi_write_offset f) = off" "length v = unat len"
  shows "written_entry key f (fi_write_offset f) (kv_entry_size len) seq = hd (log_rebuilt (fi_file_id f) 0 off [(key, v, seq, False)])"
proof -
  have "(word_of_nat (length v) :: u32) = len" "(word_of_nat off :: u64) = fi_write_offset f"
    using assms by (simp_all flip: assms(1))
  then show ?thesis by (simp add: written_entry_def)
qed

text \<open>A call that submits an entry: it fails and keeps the log, or succeeds and extends it.\<close>

lemma store_log_call:
  assumes log: "store_log m0 e es" and f: "en_files e = [f]"
    and al: "mi_allocate_sequence (en_index e) = (seq, idx)"
    and w: "submit_write ready status torn f (unat (fi_write_offset f)) (log_image x) (en_disk e) = (r, d)"
    and x: "log_ok x" "length (log_image x) = unat sz" "4096 + length (log_images es) + unat sz \<le> 2 ^ 20"
    and failed: "r \<noteq> 0 \<Longrightarrow> e' = e\<lparr>en_index := idx, en_disk := d\<rparr>"
    and success: "r = 0 \<Longrightarrow> en_files e' = [advanced sz f] \<and> en_disk e' = d \<and> same_setup e e'
      \<and> en_index e' = mi_set_global_sequence seq (log_index m0 (en_active_file_id e) (es @ [x]))"
  shows "\<exists>es'. store_log m0 e' es' \<and> same_setup e e' \<and> length (log_images es') \<le> length (log_images es) + unat sz"
proof (cases "r = 0")
  case False
  then show ?thesis using store_log_wrote [OF log f al w] failed by (intro exI [of _ es]) (simp add: same_setup_def)
next
  case True
  have "log_file f (en_disk e) es" using log f by (auto simp: store_log_def)
  then have "store_log m0 e' (es @ [x])"
    by (intro store_log_appended [OF log f w [unfolded True] x(1,2)])
      (use x(3) success True in \<open>auto simp: log_file_def same_setup_def\<close>)
  then show ?thesis using success True x(2) by (intro exI [of _ "es @ [x]"]) (simp add: log_images_append)
qed

lemma store_log_idle:
  "store_log m0 e es \<Longrightarrow> e' = e \<Longrightarrow> \<exists>es'. store_log m0 e' es' \<and> same_setup e e' \<and> length (log_images es') \<le> length (log_images es) + n"
  using same_setup_refl [of e] by (intro exI [of _ es]) simp

lemma store_log_state:
  assumes "store_log m0 e es" "mi_allocate_sequence (en_index e) = (seq, idx)"
  obtains f where "en_files e = [f]" "fi_file_id f = en_active_file_id e" "en_state e = EReady"
    "unat (fi_write_offset f) = 4096 + length (log_images es)" "idx = mi_set_global_sequence seq (log_index m0 (en_active_file_id e) es)"
  using assms by (auto simp: store_log_def log_file_def mi_allocate_sequence_set)

lemma put_keeps_log:
  assumes log: "store_log m0 e es" and ok: "store_op_ok (StPut env key v len)"
    and room: "4096 + length (log_images es) + unat (kv_entry_size len) \<le> 2 ^ 20"
      "4096 + length (log_images es) + unat (kv_entry_size len) \<le> unat (en_data_file_size e)"
  shows "\<exists>es'. store_log m0 (snd (kv_put env key v len e)) es' \<and> same_setup e (snd (kv_put env key v len e))
    \<and> length (log_images es') \<le> length (log_images es) + unat (kv_entry_size len)"
proof (cases "len = 0 \<or> v = None \<or> \<not> io_dma env")
  case True
  have "en_state e = EReady" using log by (simp add: store_log_def)
  with True show ?thesis using store_log_file [OF log room] by (intro store_log_idle [OF log]) (auto simp: kv_put_def)
next
  case False
  then obtain v0 where v: "v = Some v0" "len \<noteq> 0" "unat len \<le> length v0" "io_dma env" using ok by auto
  obtain seq idx where al: "mi_allocate_sequence (en_index e) = (seq, idx)" by fastforce
  obtain f where f: "en_files e = [f]" "fi_file_id f = en_active_file_id e" "en_state e = EReady"
    "unat (fi_write_offset f) = 4096 + length (log_images es)" "idx = mi_set_global_sequence seq (log_index m0 (en_active_file_id e) es)"
    by (rule store_log_state [OF log al])
  let ?x = "(key, take (unat len) v0, seq, False)" and ?e = "snd (kv_put env key v len e)"
  have img: "build_entry_inplace key (Some v0) len seq False = log_image ?x" and vl: "length (take (unat len) v0) = unat len"
    using build_entry_image [OF v(3)] v(3) by simp_all
  have len: "length (log_image ?x) = unat (kv_entry_size len)" "log_ok ?x"
    using length_log_image [of key "take (unat len) v0" seq False] vl unat_u32 [of len] by (simp_all del: log_image.simps)
  obtain r d where w: "submit_write (io_ready env) (io_status env) (io_torn env) f (unat (fi_write_offset f)) (log_image ?x) (en_disk e) = (r, d)"
    by fastforce
  note put = kv_put_writes [OF f(3) v(2) store_log_file [OF log room, of env] v(4) al refl, of key v0 r d]
  have idx: "snd (mi_upsert idx key (written_entry key f (fi_write_offset f) (kv_entry_size len) seq))
      = mi_set_global_sequence seq (log_index m0 (en_active_file_id e) (es @ [?x]))"
    using written_entry_rebuilt [OF f(4) vl, of key seq] f(2)
    by (simp add: f(5) mi_upsert_sequence log_index_append Let_def del: log_rebuilt.simps)
  show ?thesis
  proof (rule store_log_call [OF log f(1) al w len(2,1) room(1)])
    assume "r \<noteq> 0"
    then show "?e = e\<lparr>en_index := idx, en_disk := d\<rparr>" using put w img f(1) v(1) by simp
  next
    assume "r = 0"
    then have "?e = advance_file 0 (kv_entry_size len) (index_written key (written_entry key f (fi_write_offset f) (kv_entry_size len) seq)
          (e\<lparr>en_index := idx, en_disk := d\<rparr>))" using put w img f(1) v(1) by simp
    then show "en_files ?e = [advanced (kv_entry_size len) f] \<and> en_disk ?e = d \<and> same_setup e ?e
      \<and> en_index ?e = mi_set_global_sequence seq (log_index m0 (en_active_file_id e) (es @ [?x]))"
      using idx f(1) by (simp add: index_written_advance) (simp add: advance_file_alt en_update_file_def same_setup_def advanced_def)
  qed
qed

lemma del_keeps_log:
  assumes log: "store_log m0 e es"
    and room: "4096 + length (log_images es) + 4096 \<le> 2 ^ 20" "4096 + length (log_images es) + 4096 \<le> unat (en_data_file_size e)"
  shows "\<exists>es'. store_log m0 (snd (kv_del env key e)) es' \<and> same_setup e (snd (kv_del env key e))
    \<and> length (log_images es') \<le> length (log_images es) + 4096"
proof -
  have sz: "unat (kv_entry_size 0) = 4096" by (simp add: kv_entry_size_def align_up_def kPageSize_def)
  note ffw = store_log_file [OF log, of "kv_entry_size 0" env, unfolded sz, OF room]
  obtain seq idx where al: "mi_allocate_sequence (en_index e) = (seq, idx)" by fastforce
  obtain f where f: "en_files e = [f]" "fi_file_id f = en_active_file_id e" "en_state e = EReady"
    "unat (fi_write_offset f) = 4096 + length (log_images es)" "idx = mi_set_global_sequence seq (log_index m0 (en_active_file_id e) es)"
    by (rule store_log_state [OF log al])
  show ?thesis
  proof (cases "mi_lookup (en_index e) key = None \<or> \<not> io_dma env")
    case True
    then show ?thesis using ffw f(3) by (intro store_log_idle [OF log]) (auto simp: kv_del_def split: option.split)
  next
    case False
    then obtain old where old: "mi_lookup (en_index e) key = Some old" and dma: "io_dma env" by auto
    let ?x = "(key, [], seq, True)" and ?e = "snd (kv_del env key e)"
    have img: "build_entry_inplace key None 0 seq True = log_image ?x" by (simp add: build_entry_tombstone_image)
    have len: "length (log_image ?x) = unat (kv_entry_size 0)" "log_ok ?x"
      using length_log_image [of key "[]" seq True] by (simp_all del: log_image.simps)
    obtain r d where w: "submit_write (io_ready env) (io_status env) (io_torn env) f (unat (fi_write_offset f)) (log_image ?x) (en_disk e) = (r, d)"
      by fastforce
    note del = kv_del_writes [OF f(3) old ffw dma al refl, of r d]
    show ?thesis unfolding sz [symmetric]
    proof (rule store_log_call [OF log f(1) al w len(2,1)])
      show "4096 + length (log_images es) + unat (kv_entry_size 0) \<le> 2 ^ 20" using room(1) sz by simp
    next
      assume "r \<noteq> 0"
      then show "?e = e\<lparr>en_index := idx, en_disk := d\<rparr>" using del w img f(1) by simp
    next
      assume "r = 0"
      then have "?e = advance_file 0 (kv_entry_size 0) (e\<lparr>en_disk := d, en_index := snd (mi_remove idx key),
          en_total_garbage := en_total_garbage e + page_bytes old\<rparr>)" using del w img f(1) by simp
      then show "en_files ?e = [advanced (kv_entry_size 0) f] \<and> en_disk ?e = d \<and> same_setup e ?e
        \<and> en_index ?e = mi_set_global_sequence seq (log_index m0 (en_active_file_id e) (es @ [?x]))"
        using f(1,5) by (simp add: advance_file_alt en_update_file_def same_setup_def advanced_def mi_remove_sequence log_index_append
            Let_def del: log_rebuilt.simps)
    qed
  qed
qed

section \<open>A run of calls\<close>

lemma op_keeps_log:
  assumes "store_log m0 e es" "store_op_ok op" "4096 + length (log_images es) + store_bytes op \<le> 2 ^ 20"
    and "4096 + length (log_images es) + store_bytes op \<le> unat (en_data_file_size e)"
  shows "\<exists>es'. store_log m0 (store_do op e) es' \<and> same_setup e (store_do op e)
    \<and> length (log_images es') \<le> length (log_images es) + store_bytes op"
proof (cases op)
  case (StPut env key v len)
  then show ?thesis using put_keeps_log [OF assms(1), of env key v len] assms(2-4) by simp
next
  case (StDel env key)
  then show ?thesis using del_keeps_log [OF assms(1), of env key] assms(3,4) by simp
qed

lemma ops_keep_log:
  assumes "store_log m0 e es" "list_all store_op_ok ops"
    and "4096 + length (log_images es) + sum_list (map store_bytes ops) \<le> min (2 ^ 20) (unat (en_data_file_size e))"
  shows "\<exists>es'. store_log m0 (fold store_do ops e) es' \<and> same_setup e (fold store_do ops e)
    \<and> 4096 + length (log_images es') \<le> 2 ^ 20"
  using assms
proof (induction ops arbitrary: e es)
  case Nil
  then show ?case using same_setup_refl [of e] by (intro exI [of _ es]) simp
next
  case (Cons op ops)
  obtain es1 where es1: "store_log m0 (store_do op e) es1" "same_setup e (store_do op e)"
    "length (log_images es1) \<le> length (log_images es) + store_bytes op"
    using op_keeps_log [OF Cons.prems(1), of op] Cons.prems(2,3) by auto
  have "en_data_file_size (store_do op e) = en_data_file_size e" using es1(2) by (simp add: same_setup_def)
  then obtain es' where es': "store_log m0 (fold store_do ops (store_do op e)) es'"
    "same_setup (store_do op e) (fold store_do ops (store_do op e))" "4096 + length (log_images es') \<le> 2 ^ 20"
    using Cons.IH [OF es1(1)] Cons.prems(2,3) es1(3) by auto
  then show ?case using same_setup_trans [OF es1(2)] by auto
qed

section \<open>The recovery scan of the file\<close>

lemma fold_rebuild_index: "fst (fold rebuild_entry ms (m, q)) = fst (fold rebuild_entry ms (m, q'))"
  by (induction ms arbitrary: m q q') (simp_all add: rebuild_entry_def)

lemma log_file_read:
  assumes "log_file f d es" "es \<noteq> []"
  obtains page where "disk_read d (fi_blob_id f) 0 (unat (fi_size f)) = page @ log_images es" "length page = 4096"
    "get_u32 page 0 \<noteq> kEntryMagic"
proof (rule that [of "disk_read d (fi_blob_id f) 0 4096"])
  show "disk_read d (fi_blob_id f) 0 (unat (fi_size f)) = disk_read d (fi_blob_id f) 0 4096 @ log_images es"
    using assms disk_read_split [of d "fi_blob_id f" 0 4096 "length (log_images es)"] by (simp add: log_file_def)
qed (use assms in \<open>simp_all add: log_file_def disk_read_def\<close>)

lemma log_images_whole_pages: "list_all log_ok es \<Longrightarrow> 4096 dvd length (log_images es)"
proof (induction es)
  case Nil
  then show ?case by (simp add: log_images_def)
next
  case (Cons e es)
  obtain key v seq t where e: "e = (key, v, seq, t)" by (cases e) auto
  have "4096 dvd length (log_image e)"
    using Cons.prems length_log_image [of key v seq t] kv_entry_size_bounds(3) [of "value_len v"] by (simp add: e del: log_image.simps)
  then show ?case using Cons by (simp add: log_images_def)
qed

lemma log_file_size:
  assumes "log_file f d es" "es \<noteq> []" "list_all log_ok es"
  shows "unat (fi_size f) = 4096 + length (log_images es)" "fi_size f div kPageSize * kPageSize = fi_size f"
    "0 < fi_size f div kPageSize"
proof -
  show u: "unat (fi_size f) = 4096 + length (log_images es)" using assms(1,2) by (simp add: log_file_def)
  have "4096 dvd unat (fi_size f)" unfolding u using log_images_whole_pages [OF assms(3)] by simp
  moreover have d: "unat (fi_size f div kPageSize) = unat (fi_size f) div 4096" by (simp add: kPageSize_def unat_div)
  ultimately have "unat (fi_size f div kPageSize) * unat kPageSize = unat (fi_size f)" by (simp add: kPageSize_def)
  then show "fi_size f div kPageSize * kPageSize = fi_size f"
    using unat_u64 [of "fi_size f"] by (simp only: word_unat_eq_iff unat_word_ariths) simp
  show "0 < fi_size f div kPageSize" using u d by (simp add: word_less_nat_alt)
qed

lemma scan_finds_log:
  fixes l :: loader
  assumes f: "log_file f d es" "es \<noteq> []" "list_all log_ok es"
    and l: "ld_ranges l = [\<lparr>sr_file_id = fi_file_id f, sr_start_page = 0, sr_end_page = fi_size f div kPageSize\<rparr>]"
      "ld_scan_idx l = 0" "ld_scan_offset l = 0"
    and l': "l' = on_scan_chunk_read True (disk_read d (fi_blob_id f) 0 (unat (fi_size f))) (fi_size f) l"
  shows "ld_state l' = LdDone \<and> (\<exists>q. ld_index l' = mi_set_global_sequence q (log_index (ld_index l) (fi_file_id f) es))"
proof -
  obtain page where page: "disk_read d (fi_blob_id f) 0 (unat (fi_size f)) = page @ log_images es" "length page = 4096" "get_u32 page 0 \<noteq> kEntryMagic"
    by (rule log_file_read [OF f(1,2)])
  note size = log_file_size [OF f]
  obtain m s where ms: "fold rebuild_entry (log_rebuilt (fi_file_id f) 0 4096 es) (ld_index l, ld_max_sequence l) = (m, s)" by fastforce
  have m: "m = log_index (ld_index l) (fi_file_id f) es"
    using fold_rebuild_index [of "log_rebuilt (fi_file_id f) 0 4096 es" "ld_index l" "ld_max_sequence l" 0] ms by simp
  have parse: "parse_and_rebuild_entries (take (unat (fi_size f)) (page @ log_images es)) (fi_file_id f) 0 l
      = (length es, l\<lparr>ld_index := m, ld_max_sequence := s\<rparr>)"
    using parse_skip_page [OF page(2,3) f(3), of "fi_file_id f" 0 0 "(ld_index l, ld_max_sequence l)"] page(2) size(1) ms
    by (simp add: parse_and_rebuild_entries_def)
  have "l' = scan_blob_chunk (l\<lparr>ld_index := m, ld_max_sequence := s, ld_scan_offset := fi_size f\<rparr>)"
    unfolding l' page(1) using parse f(2) by (simp add: on_scan_chunk_read_def l)
  also have "\<dots> = finalize_recovery (l\<lparr>ld_index := m, ld_max_sequence := s, ld_scan_offset := fi_size f, ld_scan_idx := 1,
      ld_state := LdFinalizingRecovery\<rparr>)"
    using size(2) by (subst scan_blob_chunk.simps) (simp add: l Let_def scan_next_file.simps)
  finally show ?thesis using m by (auto simp: finalize_recovery_def Let_def)
qed

text \<open>The whole recovery: the superblock, then one chunk.\<close>

lemma engine_recovers_log:
  assumes f: "log_file f d es" "es \<noteq> []" "list_all log_ok es" "4096 + length (log_images es) \<le> 2 ^ 20" "fi_state f \<noteq> FDeleted"
    and sb: "validate_superblock data" "sb_checkpoint_file_id (superblock_at (take 41376 data)) = fi_file_id f"
      "sb_checkpoint_page_index (superblock_at (take 41376 data)) = 0"
    and blob: "fi_size f div kPageSize \<le> clusters (fi_blob_id f) * cluster_size div kPageSize"
    and l: "l = fold (\<lambda>c l. snd (ld_poll c l)) [Some (0, True, data), Some (0, True, disk_read d (fi_blob_id f) 0 (unat (fi_size f)))]
        (start_recovery (engine_loader m img True True io_unit cluster_size clusters [f]))"
  shows "ld_is_success l \<and> (\<exists>q. ld_index l = mi_set_global_sequence q (log_index m (fi_file_id f) es))"
proof -
  let ?e = "engine_loader m img True True io_unit cluster_size clusters [f]"
  let ?range = "\<lparr>sr_file_id = fi_file_id f, sr_start_page = 0, sr_end_page = fi_size f div kPageSize\<rparr>"
  let ?sb = "superblock_at (take 41376 data)"
  note size = log_file_size [OF f(1-3)]
  define l1 where "l1 = ?e\<lparr>ld_state := LdScanningDataFiles, ld_sb := take 41376 data, ld_ckpt_file_id := fi_file_id f,
      ld_ckpt_page_index := 0, ld_max_sequence := sb_checkpoint_global_seq ?sb, ld_ranges := [?range], ld_scan_idx := 0, ld_scan_offset := 0\<rparr>"
  have opened: "fi_blob_opened f" using f(1) by (simp add: log_file_def)
  have ends: "\<not> fi_size f div kPageSize < clusters (fi_blob_id f) * cluster_size div kPageSize \<Longrightarrow>
      clusters (fi_blob_id f) * cluster_size div kPageSize = fi_size f div kPageSize"
    and phys: "0 < clusters (fi_blob_id f) * cluster_size div kPageSize"
    using blob size(3) by auto
  have start: "ld_state (start_recovery ?e) = LdLoadingSuperblockPrimary" "ld_spdk (start_recovery ?e)"
    by (simp_all add: start_recovery_def load_superblock_primary_def load_superblock_from_blob_def engine_loader_def ld_issue_def)
  have "fi_size f \<le> 1024 * 1024" using f(4) size(1) by (simp add: word_le_nat_alt)
  then have rd: "min (1024 * 1024) (fi_size f) = fi_size f" by simp
  have blobs: "ld_data_blobs ?e = [\<lparr>db_file_id = fi_file_id f, db_blob = True, db_clusters = clusters (fi_blob_id f), db_size = fi_size f\<rparr>]"
    using opened f(5) by (simp add: engine_loader_def)
  have nz: "fi_size f \<noteq> 0" and dma: "ld_dma ?e" using size(3) by (auto simp: engine_loader_def)
  have ranges: "build_scan_ranges (?e\<lparr>ld_state := LdScanningDataFiles, ld_sb := take 41376 data, ld_ckpt_file_id := fi_file_id f,
      ld_ckpt_page_index := 0, ld_max_sequence := sb_checkpoint_global_seq ?sb\<rparr>) = [?range]"
    using ends phys size(3) by (simp add: build_scan_ranges_def List.map_filter_def scan_range_of_def Let_def blob_physical_end_def blobs)
      (simp add: engine_loader_def)
  have "ld_io_complete 0 True data (start_recovery ?e) = scan_next_file (l1\<lparr>ld_scan_idx := 0\<rparr>)"
    unfolding engine_loader_superblock [OF sb(1)] start_incremental_rebuild_def Let_def
    using ranges sb(2,3) by (simp add: blobs l1_def) (simp add: engine_loader_def)
  also have "\<dots> = ld_issue (LdReadScan (fi_file_id f) 0 (fi_size f)) l1"
    using size rd nz by (simp add: scan_next_file.simps scan_blob_chunk.simps l1_def blobs Let_def dma)
  finally have first: "ld_io_complete 0 True data (start_recovery ?e) = ld_issue (LdReadScan (fi_file_id f) 0 (fi_size f)) l1" .
  have l1: "ld_state l1 = LdScanningDataFiles" "ld_spdk l1" "ld_io l1 = []" "ld_index l1 = m" "ld_ranges l1 = [?range]"
    "ld_scan_idx l1 = 0" "ld_scan_offset l1 = 0" by (simp_all add: l1_def engine_loader_def)
  have "ld_io_complete 0 True (disk_read d (fi_blob_id f) 0 (unat (fi_size f))) (ld_issue (LdReadScan (fi_file_id f) 0 (fi_size f)) l1)
      = on_scan_chunk_read True (disk_read d (fi_blob_id f) 0 (unat (fi_size f))) (fi_size f) (l1\<lparr>ld_io := []\<rparr>)"
    by (simp add: ld_io_complete_def ld_issue_def l1(3))
  also have "l1\<lparr>ld_io := []\<rparr> = l1" using l1(3) by simp
  finally have second: "ld_io_complete 0 True (disk_read d (fi_blob_id f) 0 (unat (fi_size f))) (ld_issue (LdReadScan (fi_file_id f) 0 (fi_size f)) l1)
      = on_scan_chunk_read True (disk_read d (fi_blob_id f) 0 (unat (fi_size f))) (fi_size f) l1" .
  have issued: "ld_state (ld_issue r l1) = LdScanningDataFiles" "ld_spdk (ld_issue r l1)" for r
    by (simp_all add: ld_issue_def l1(1,2))
  have "snd (ld_poll (Some (0, True, data)) (start_recovery ?e)) = ld_issue (LdReadScan (fi_file_id f) 0 (fi_size f)) l1"
    using start by (simp add: ld_poll_def ld_is_complete_def first Let_def)
  then have "l = on_scan_chunk_read True (disk_read d (fi_blob_id f) 0 (unat (fi_size f))) (fi_size f) l1"
    unfolding l using issued second by (simp add: ld_poll_def [of "Some (0, True, disk_read d (fi_blob_id f) 0 (unat (fi_size f)))"] ld_is_complete_def Let_def)
  then show ?thesis using scan_finds_log [OF f(1-3) l1(5-7)] by (simp add: l1(4) ld_is_success_def)
qed

end
