(* ===== verification/KvReopen.thy ===== *)
theory KvReopen
  imports KvStoreLog KvLifecycle
begin

text \<open>
  What survives a \<^verbatim>\<open>close\<close> and the next \<^verbatim>\<open>open\<close>: the superblock's view of the files, and with
  recovery the index.
\<close>

section \<open>The superblock and the files\<close>

text \<open>The superblock knows every file of the engine, in order.\<close>

definition store_wf :: "kv_engine \<Rightarrow> bool" where
  "store_wf e \<longleftrightarrow> superblock_is_valid (en_superblock e) \<and> sb_fits (en_superblock e)
     \<and> map fm_file_id (sb_file_mappings (en_superblock e)) = map fi_file_id (en_files e)
     \<and> distinct (map fi_file_id (en_files e)) \<and> sb_data_file_size (en_superblock e) = en_data_file_size e"

lemma update_mapping_at:
  assumes "fm_file_id m = fi_file_id f" "fi_file_id f \<notin> fm_file_id ` set pre"
  shows "update_mapping f (pre @ m # post) = Some (pre @ fi_mapping f # post)"
  using assms by (induction pre) auto

lemma update_all_mappings:
  assumes "map fm_file_id (sb_file_mappings sb) = map fm_file_id pre @ map fi_file_id fs"
    and "distinct (map fm_file_id pre @ map fi_file_id fs)" "take (length pre) (sb_file_mappings sb) = pre"
  shows "fold (\<lambda>f. update_superblock_file_mapping (Some f)) fs sb = sb\<lparr>sb_file_mappings := pre @ map fi_mapping fs\<rparr>"
  using assms
proof (induction fs arbitrary: pre sb)
  case Nil
  then have "length (sb_file_mappings sb) = length pre" by (metis append_Nil2 length_map list.simps(8))
  then show ?case using Nil by simp
next
  case (Cons f fs)
  obtain rest where rest: "sb_file_mappings sb = pre @ rest" "map fm_file_id rest = map fi_file_id (f # fs)"
    using Cons.prems(1,3) by (metis append_take_drop_id map_append same_append_eq)
  then obtain m post where m: "rest = m # post" "fm_file_id m = fi_file_id f" "map fm_file_id post = map fi_file_id fs"
    by (cases rest) auto
  have "update_superblock_file_mapping (Some f) sb = sb\<lparr>sb_file_mappings := pre @ fi_mapping f # post\<rparr>"
    using Cons.prems(2) rest(1) m by (simp add: update_superblock_file_mapping_def update_mapping_at)
  moreover have "fm_file_id (fi_mapping f) = fi_file_id f" by (simp add: fi_mapping_def)
  ultimately show ?case
    using Cons.IH [of "sb\<lparr>sb_file_mappings := pre @ fi_mapping f # post\<rparr>" "pre @ [fi_mapping f]"] Cons.prems(2) m(3) by simp
qed

lemma final_superblock_eq:
  assumes "store_wf e"
  shows "final_superblock e = (persist_alloc_log e ((en_superblock e)\<lparr>sb_active_file_id := en_active_file_id e,
      sb_total_data_bytes := en_total_data e, sb_total_garbage_bytes := en_total_garbage e, sb_total_entries := mi_size (en_index e)\<rparr>))
      \<lparr>sb_file_mappings := map fi_mapping (en_files e)\<rparr>"
proof -
  have "sb_file_mappings (persist_alloc_log e sb) = sb_file_mappings sb" for sb
    by (simp add: persist_alloc_log_def split: option.split)
  then show ?thesis
    unfolding final_superblock_def Let_def using assms by (subst update_all_mappings [of _ "[]"]) (simp_all add: store_wf_def)
qed

lemma final_superblock_ok:
  assumes "store_wf e"
  shows "superblock_is_valid (final_superblock e)" "sb_fits (final_superblock e)"
proof -
  have "length (en_files e) = length (sb_file_mappings (en_superblock e))"
    using assms by (metis store_wf_def length_map)
  then show "superblock_is_valid (final_superblock e)" "sb_fits (final_superblock e)"
    using assms by (auto simp: final_superblock_eq store_wf_def superblock_is_valid_def sb_fits_def persist_alloc_log_def split: option.split)
qed

section \<open>Surroundings without failures\<close>

definition life_works :: "life_env \<Rightarrow> bool" where
  "life_works env \<longleftrightarrow> io_ready (le_io env) \<and> le_mapped env \<and> le_log_mapped env \<and> le_sb_opened env \<and> le_sb_dma env
     \<and> le_channel env \<and> le_sb_write env = (\<lambda>w. (True, case w of SbBackup bs \<Rightarrow> bs | SbPrimary bs \<Rightarrow> bs)) \<and> le_sb_read env = Some"

lemma write_superblock_works:
  "write_superblock True True (\<lambda>w. (True, case w of SbBackup bs \<Rightarrow> bs | SbPrimary bs \<Rightarrow> bs)) (sb, d)
    = (KSuccess, sb\<lparr>sb_sequence := sb_sequence sb + 1\<rparr>,
       \<lparr>sd_primary = sb_image (sb\<lparr>sb_sequence := sb_sequence sb + 1\<rparr>), sd_backup = sb_image (sb\<lparr>sb_sequence := sb_sequence sb + 1\<rparr>)\<rparr>)"
  by (cases d) (simp add: write_superblock_def Let_def)

abbreviation closed_superblock :: "kv_engine \<Rightarrow> superblock" where
  "closed_superblock e \<equiv> (final_superblock e)\<lparr>sb_sequence := sb_sequence (en_superblock e) + 1\<rparr>"

lemma final_superblock_sequence: "store_wf e \<Longrightarrow> sb_sequence (final_superblock e) = sb_sequence (en_superblock e)"
  by (simp add: final_superblock_eq persist_alloc_log_def split: option.split)

lemma close_works:
  assumes "en_state (sy_engine s) = EReady" "sy_sb_open s" "life_works env"
    and "e = bk_engine (close_buffers (le_io env) (sy_bk s))" "store_wf e"
  obtains s' where "engine_close env s = (KSuccess, s')" "en_disk (sy_engine s') = en_disk e" "sy_super s' = sy_super s"
    "sy_areas s' = \<lparr>sd_primary = sb_image (closed_superblock e), sd_backup = sb_image (closed_superblock e)\<rparr>"
    "en_state (sy_engine s') = EClosed"
proof -
  obtain s' where "engine_close env s = (KSuccess, s') \<and> en_disk (sy_engine s') = en_disk e \<and> sy_super s' = sy_super s
    \<and> sy_areas s' = \<lparr>sd_primary = sb_image (closed_superblock e), sd_backup = sb_image (closed_superblock e)\<rparr>
    \<and> en_state (sy_engine s') = EClosed"
    using assms by (simp add: engine_close_def Let_def sy_write_superblock_def sy_set_engine_def bk_set_engine_def life_works_def
        write_superblock_works final_superblock_sequence)
  then show ?thesis using that by blast
qed

section \<open>Opening\<close>

text \<open>The engine when the superblock has been read and nothing else; \<open>lg\<close> is the log it found.\<close>

definition opening_engine :: "engine_config \<Rightarrow> disk \<Rightarrow> superblock \<Rightarrow> alloc_log \<Rightarrow> kv_engine" where
  "opening_engine config d sb lg =
     \<lparr>en_state = EOpening, en_index = mem_index_new (cf_slots config) True, en_files = [], en_active_file_id = 0,
      en_next_file_id = 0, en_data_file_size = sb_data_file_size sb, en_total_data = 0, en_total_garbage = 0,
      en_meta = Map.empty, en_superblock = sb, en_alloc_log = Some lg, en_disk = d\<rparr>"

text \<open>The log holds no allocation that the superblock does not know.\<close>

definition log_settled :: "life_env \<Rightarrow> superblock \<Rightarrow> bool" where
  "log_settled env sb \<longleftrightarrow>
     (case fst (lg_on_page_read (sb_alloc_log_sequence sb) (fst (le_log_read env)) (snd (le_log_read env))
                  (lg_initialize True True (sb_alloc_log_head sb) (sb_alloc_log_tail sb) (sb_alloc_log_sequence sb))) of
        None \<Rightarrow> True | Some es \<Rightarrow> es = [])"

lemma load_works: "sb_fits sb \<Longrightarrow> superblock_is_valid sb \<Longrightarrow> sd_primary d = sb_image sb \<Longrightarrow>
  load_superblock True (Some b) True True True Some d = Inr sb"
  by (simp add: sb_load_eq sb_image_valid sb_image_reads(1))

lemma log_recovery_settled:
  assumes "log_settled env (en_superblock e)" "io_ready (le_io env)" "sy_engine s = e" "en_next_file_id e = 0"
    and "en_alloc_log e = Some (lg_initialize True True (sb_alloc_log_head (en_superblock e)) (sb_alloc_log_tail (en_superblock e))
           (sb_alloc_log_sequence (en_superblock e)))"
  obtains lg where "sy_log_recovery env s = sy_set_engine (e\<lparr>en_alloc_log := Some lg\<rparr>) s"
proof -
  let ?sb = "en_superblock e"
  let ?lg = "lg_initialize True True (sb_alloc_log_head ?sb) (sb_alloc_log_tail ?sb) (sb_alloc_log_sequence ?sb)"
  obtain r lg where r: "lg_on_page_read (sb_alloc_log_sequence ?sb) (fst (le_log_read env)) (snd (le_log_read env)) ?lg = (r, lg)"
    by fastforce
  have "lg_load_entries q ?lg = (LgReadPage, ?lg)" for q by (simp add: lg_load_entries_def lg_initialize_def)
  moreover have "lg_initialized ?lg" by (simp add: lg_initialize_def)
  moreover have "(case r of None \<Rightarrow> [] | Some es \<Rightarrow> es) = []" using assms(1) r by (simp add: log_settled_def split: option.splits)
  ultimately have "sy_log_recovery env s = sy_set_engine (e\<lparr>en_alloc_log := Some lg\<rparr>) s"
    using assms(2-5) r by (simp add: sy_log_recovery_def Let_def process_alloc_log_recovery_def)
      (cases s, cases e, simp add: sy_set_engine_def)
  then show thesis by (rule that)
qed

lemma open_loads:
  assumes env: "life_works env" "log_settled env sb" "fst (am_initialize (le_buffers env default_config) (cf_append_buffer_size default_config) (am_new ()))"
    and sb: "sb_fits sb" "superblock_is_valid sb" "sd_primary areas = sb_image sb"
  obtains lg s where "load_existing env recover (sy_set_state EOpening (engine_new d areas (Some b))) = load_files env recover s"
    "sy_engine s = opening_engine default_config d sb lg" "sy_super s = Some b" "sy_sb_open s" "sy_areas s = areas"
proof -
  let ?s = "sy_set_state EOpening (engine_new d areas (Some b))"
  obtain m where m: "am_initialize (le_buffers env default_config) (cf_append_buffer_size default_config) (am_new ()) = (True, m)"
    using env(3) by (cases "am_initialize (le_buffers env default_config) (cf_append_buffer_size default_config) (am_new ())") auto
  have load: "sy_load_superblock env ?s = (KSuccess, sy_set_engine ((sy_engine ?s)\<lparr>en_superblock := sb\<rparr>) (?s\<lparr>sy_sb_open := True\<rparr>))"
    using env(1) load_works [OF sb, of b]
    by (simp add: sy_load_superblock_def life_works_def engine_new_def sy_set_state_def sy_set_engine_def Let_def)
  define s1 where "s1 = sy_set_engine ((sy_engine ?s)\<lparr>en_superblock := sb, en_data_file_size := sb_data_file_size sb\<rparr>)
      (?s\<lparr>sy_sb_open := True, sy_config := default_config\<lparr>cf_max_capacity := sb_total_capacity sb, cf_data_file_size := sb_data_file_size sb\<rparr>\<rparr>)"
  define s2 where "s2 = init_alloc_log_manager env s1"
  note step = s1_def engine_new_def sy_set_state_def sy_set_engine_def bk_set_engine_def
  have s2: "en_alloc_log (sy_engine s2) = Some (lg_initialize True True (sb_alloc_log_head sb) (sb_alloc_log_tail sb) (sb_alloc_log_sequence sb))"
    "en_superblock (sy_engine s2) = sb" "en_next_file_id (sy_engine s2) = 0" "sy_super s2 = Some b" "sy_sb_open s2" "sy_areas s2 = areas"
    "cf_slots (sy_config s2) = cf_slots default_config" "cf_append_buffer_size (sy_config s2) = cf_append_buffer_size default_config"
    "sy_engine s2\<lparr>en_alloc_log := Some lg, en_index := mem_index_new (cf_slots default_config) True\<rparr> = opening_engine default_config d sb lg"
    "le_buffers env (sy_config s2) = le_buffers env default_config" for lg
    using env(1) by (simp_all add: le_buffers_def s2_def init_alloc_log_manager_def step life_works_def Let_def opening_engine_def bk_start_def ak_start_def)
  have ready: "io_ready (le_io env)" "le_mapped env" using env(1) by (simp_all add: life_works_def)
  obtain lg where lg: "sy_log_recovery env s2 = sy_set_engine ((sy_engine s2)\<lparr>en_alloc_log := Some lg\<rparr>) s2"
    using log_recovery_settled [OF _ ready(1) refl s2(3)] s2(1,2) env(2) by auto
  define s3 where "s3 = (sy_set_engine (opening_engine default_config d sb lg) s2)\<lparr>sy_parts := True,
      sy_bk := (sy_bk (sy_set_engine (opening_engine default_config d sb lg) s2))\<lparr>bk_mgr := m\<rparr>\<rparr>"
  have parts: "init_parts env (sy_log_recovery env s2) = (True, s3)"
    unfolding lg s3_def s2(9) [symmetric]
    using m by (simp add: init_parts_def sy_set_engine_def bk_set_engine_def s2(7,8,10) ready(2))
  have "load_existing env recover ?s = load_files env recover s3"
    unfolding load_existing_def load using parts sb(2) ready(1)
    by (simp add: Let_def s2_def) (simp add: step)
  moreover have "sy_engine s3 = opening_engine default_config d sb lg" "sy_super s3 = Some b" "sy_sb_open s3" "sy_areas s3 = areas"
    by (simp_all add: s3_def sy_set_engine_def bk_set_engine_def s2)
  ultimately show thesis by (rule that)
qed

lemma rebuild_files:
  "\<exists>meta nxt. fold (rebuild_file opens) ms e
     = e\<lparr>en_files := en_files e @ map (mapped_file opens) ms, en_meta := meta, en_next_file_id := nxt\<rparr>"
proof (induction ms arbitrary: e)
  case Nil
  then show ?case by (intro exI [of _ "en_meta e"] exI [of _ "en_next_file_id e"]) simp
next
  case (Cons m ms)
  obtain meta nxt where "rebuild_file opens m e = e\<lparr>en_files := en_files e @ [mapped_file opens m], en_meta := meta, en_next_file_id := nxt\<rparr>"
    by (cases e) (auto simp: rebuild_file_def Let_def)
  moreover obtain meta' nxt' where "fold (rebuild_file opens) ms (rebuild_file opens m e)
      = (rebuild_file opens m e)\<lparr>en_files := en_files (rebuild_file opens m e) @ map (mapped_file opens) ms, en_meta := meta', en_next_file_id := nxt'\<rparr>"
    using Cons by blast
  ultimately show ?case by (intro exI [of _ meta'] exI [of _ nxt']) simp
qed

text \<open>The engine after \<^verbatim>\<open>open\<close>, but for the index, the metadata and the mount time.\<close>

definition reopened :: "engine_config \<Rightarrow> disk \<Rightarrow> superblock \<Rightarrow> kv_engine \<Rightarrow> bool" where
  "reopened config d sb e \<longleftrightarrow>
     en_files e = map (mapped_file (\<lambda>_. True)) (sb_file_mappings sb) \<and> en_disk e = d
     \<and> en_data_file_size e = sb_data_file_size sb \<and> en_total_data e = sb_total_data_bytes sb
     \<and> en_total_garbage e = sb_total_garbage_bytes sb \<and> en_active_file_id e = sb_active_file_id sb
     \<and> en_next_file_id e = word_of_nat (length (sb_file_mappings sb))
     \<and> (\<exists>t. en_superblock e = sb\<lparr>sb_last_mount_time := t\<rparr>)"

lemma mapped_file_open: "opens (fm_blob_id m) \<Longrightarrow> mapped_file opens m = mapped_file (\<lambda>_. True) m"
  by (simp add: mapped_file_def)

lemma load_files_works:
  assumes env: "life_works env" "list_all (\<lambda>m. le_blob_opens env (fm_blob_id m)) (sb_file_mappings sb)" "sb_file_mappings sb \<noteq> []"
    and s: "sy_engine s = opening_engine config d sb lg" "sy_super s = Some b" "sy_sb_open s"
  obtains s1 where "load_files env recover s = (case (if recover then recover_mem_index env s1 else (KSuccess, s1)) of
       (err, s) \<Rightarrow> if err \<noteq> KSuccess then (err, s)
         else (KSuccess, sy_set_engine ((sy_engine s)\<lparr>en_superblock := (en_superblock (sy_engine s))\<lparr>sb_last_mount_time := le_now env\<rparr>\<rparr>) s))"
    "reopened config d sb (sy_engine s1)" "en_superblock (sy_engine s1) = sb" "sy_sb_open s1"
    "en_index (sy_engine s1) = mi_set_global_sequence (sb_checkpoint_global_seq sb) (mem_index_new (cf_slots config) True)"
proof -
  let ?ms = "sb_file_mappings sb" and ?e = "opening_engine config d sb lg"
  have ready: "io_ready (le_io env)" using env(1) by (simp add: life_works_def)
  have init: "en_files ?e = []" "en_superblock ?e = sb" "en_index ?e = mem_index_new (cf_slots config) True" "en_disk ?e = d"
    "en_data_file_size ?e = sb_data_file_size sb" by (simp_all add: opening_engine_def)
  obtain meta nxt where "fold (rebuild_file (le_blob_opens env)) ?ms (?e\<lparr>en_files := []\<rparr>)
      = ?e\<lparr>en_files := map (mapped_file (le_blob_opens env)) ?ms, en_meta := meta, en_next_file_id := nxt\<rparr>"
    using rebuild_files [of "le_blob_opens env" ?ms "?e\<lparr>en_files := []\<rparr>"] by auto
  moreover have files: "map (mapped_file (le_blob_opens env)) ?ms = map (mapped_file (\<lambda>_. True)) ?ms"
    by (intro map_cong refl mapped_file_open) (use env(2) in \<open>simp add: list_all_iff\<close>)
  ultimately have fold: "fold (rebuild_file (le_blob_opens env)) ?ms (?e\<lparr>en_files := []\<rparr>)
      = ?e\<lparr>en_files := map (mapped_file (\<lambda>_. True)) ?ms, en_meta := meta, en_next_file_id := nxt\<rparr>"
    by (simp only: files)
  have sb: "sb_file_mappings (en_superblock (?e\<lparr>en_files := []\<rparr>)) = ?ms" by (simp add: init(2))
  have rebuilt: "rebuild_file_info env ?e = (KSuccess, ?e\<lparr>en_files := map (mapped_file (\<lambda>_. True)) ?ms, en_meta := meta, en_next_file_id := nxt\<rparr>)"
    unfolding rebuild_file_info_def Let_def sb fold using ready env(2,3) by simp
  define e1 where "e1 = restore_statistics (?e\<lparr>en_files := map (mapped_file (\<lambda>_. True)) ?ms, en_meta := meta, en_next_file_id := nxt\<rparr>)"
  define s0 where "s0 = release_dangling_blobs env (sy_set_engine (?e\<lparr>en_files := map (mapped_file (\<lambda>_. True)) ?ms, en_meta := meta, en_next_file_id := nxt\<rparr>) s)"
  define s1 where "s1 = sy_set_engine e1 (s0\<lparr>sy_ckpt := ck_new (mi_capacity (en_index (sy_engine s0))), sy_sched := cs_new\<rparr>)"
  have s0: "sy_engine s0 = ?e\<lparr>en_files := map (mapped_file (\<lambda>_. True)) ?ms, en_meta := meta, en_next_file_id := nxt\<rparr>" "sy_sb_open s0"
    using s(3) by (simp_all add: s0_def release_dangling_blobs_def sy_set_engine_def bk_set_engine_def)
  show thesis
  proof (rule that [of s1])
    show "load_files env recover s = (case (if recover then recover_mem_index env s1 else (KSuccess, s1)) of
       (err, s) \<Rightarrow> if err \<noteq> KSuccess then (err, s)
         else (KSuccess, sy_set_engine ((sy_engine s)\<lparr>en_superblock := (en_superblock (sy_engine s))\<lparr>sb_last_mount_time := le_now env\<rparr>\<rparr>) s))"
      unfolding load_files_def s(1) rebuilt using s0(1)
      by (simp add: Let_def s0_def [symmetric] s1_def e1_def)
    show "reopened config d sb (sy_engine s1)" "en_superblock (sy_engine s1) = sb" "sy_sb_open s1"
      "en_index (sy_engine s1) = mi_set_global_sequence (sb_checkpoint_global_seq sb) (mem_index_new (cf_slots config) True)"
      using s0(2) by (simp_all add: s1_def sy_set_engine_def bk_set_engine_def e1_def restore_statistics_def Let_def reopened_def init)
        (rule exI [of _ "sb_last_mount_time sb"], simp)
  qed
qed

section \<open>Closing with nothing buffered\<close>

definition mgr_idle :: "'r append_mgr \<Rightarrow> bool" where
  "mgr_idle m \<longleftrightarrow> ring_dequeue (am_submit_ring m) = None \<and> list_all buf_is_empty (am_all_buffers m)
     \<and> (case am_active m of None \<Rightarrow> True | Some i \<Rightarrow> i < length (am_all_buffers m))"

lemma init_loop_idle:
  "am_init_loop mems m = (ok, m') \<Longrightarrow> list_all buf_is_empty (am_all_buffers m) \<Longrightarrow>
   list_all buf_is_empty (am_all_buffers m') \<and> am_submit_ring m' = am_submit_ring m"
proof (induction mems m rule: am_init_loop.induct)
  case (3 mem mems m)
  then show ?case by (simp add: am_add_buffer_def buf_is_empty_def append_buffer_new_def)
qed simp_all

lemma initialize_idle:
  assumes "am_initialize mems buffer_size (am_new fill) = (True, m)" "length mems \<le> kMaxBufferCount"
  shows "mgr_idle m"
proof -
  obtain m1 where m1: "am_init_loop mems ((am_new fill)\<lparr>am_buffer_size := buffer_size\<rparr>) = (True, m1)"
    and m: "m = am_take_active (m1\<lparr>am_buffer_count := length mems\<rparr>)"
    using assms(1) by (auto simp: am_initialize_def Let_def split: prod.splits bool.splits)
  have "list_all buf_is_empty (am_all_buffers m1)" "am_submit_ring m1 = ring_new (kMaxBufferCount + 1) 0"
    using init_loop_idle [OF m1] by (simp_all add: am_new_def)
  then have "list_all buf_is_empty (am_all_buffers m)" "ring_dequeue (am_submit_ring m) = None"
    by (simp_all add: m am_take_active_def ring_dequeue_def ring_new_def split: option.split)
  moreover have "i < length (am_all_buffers m)" if "am_active m = Some i" for i
    using am_initialize_inv [OF assms] am_inv_owned [of m "[]" i] that by (simp add: am_owned_def)
  ultimately show ?thesis by (simp add: mgr_idle_def split: option.split)
qed

lemma close_idle:
  assumes "mgr_idle (bk_mgr b)" "bk_wait b = []" "en_state (bk_engine b) = EReady"
  shows "bk_engine (close_buffers env b) = (bk_engine b)\<lparr>en_state := EClosing\<rparr>"
proof -
  have "am_submit_current_buffer (bk_mgr b) = bk_mgr b"
    using assms(1) by (auto simp: am_submit_current_buffer_def mgr_idle_def list_all_length split: option.splits)
  moreover have "am_get_pending_buffers 16 (bk_mgr b) = ([], bk_mgr b)"
    using assms(1) by (simp add: am_get_pending_buffers_def mgr_idle_def numeral_eq_Suc)
  ultimately show ?thesis using assms(2,3)
    by (simp add: close_buffers_def Let_def submit_step_def bk_set_engine_def)
qed

section \<open>Creating\<close>

text \<open>The allocation of a file works.\<close>

definition alloc_works :: "io_env \<Rightarrow> bool" where
  "alloc_works io \<longleftrightarrow> io_ready io \<and> io_blob io \<noteq> None \<and> io_log_status io = 0 \<and> io_opened io \<and> io_header_dma io \<and> io_header_status io = 0"

definition first_file :: "u64 \<Rightarrow> file_info" where
  "first_file blob = (new_file_info 0)\<lparr>fi_blob_id := blob, fi_blob_opened := True\<rparr>"

lemma first_allocation:
  assumes io: "alloc_works io" "io_blob io = Some blob"
    and e: "en_files e = []" "en_next_file_id e = 0" "en_alloc_log e = Some (lg_initialize True True head head sequence)"
      "sb_file_mappings (en_superblock e) = []"
  obtains e' lg' where "allocate_new_file io e = (Some 0, e')" "en_files e' = [first_file blob]" "en_next_file_id e' = 1"
    "en_superblock e' = (en_superblock e)\<lparr>sb_file_mappings := [fi_mapping (first_file blob)]\<rparr>"
    "en_alloc_log e' = Some lg'" "lg_write_entry blob 0 (en_data_file_size e) (io_log_time io) (lg_initialize True True head head sequence) = (LgWritePage (lg_page lg'), lg')"
    "en_disk e' = disk_write blob 0 (data_header_page 0 FActive (io_header_time io)) (en_disk e)"
    "en_index e' = en_index e" "en_state e' = en_state e" "en_data_file_size e' = en_data_file_size e"
    "en_total_data e' = en_total_data e" "en_total_garbage e' = en_total_garbage e"
proof -
  let ?lg = "lg_initialize True True head head sequence"
  obtain out lg' where w: "lg_write_entry blob 0 (en_data_file_size e) (io_log_time io) ?lg = (out, lg')" by fastforce
  have fresh: "lg_initialized ?lg" "\<not> lg_is_near_full ?lg" "\<not> lg_is_full ?lg" "lg_has_spdk ?lg"
    by (simp_all add: lg_initialize_def lg_is_near_full_def lg_is_full_def lg_used_count_def kAllocLogNearFullThreshold_def kAllocLogCapacity_def)
  then have out: "out = LgWritePage (lg_page lg')" using w by (auto simp: lg_write_entry_def Let_def)
  have near: "\<not> alloc_log_near_full e" using e(3) fresh(2) by (simp add: alloc_log_near_full_def)
  have push: "push_new_file e = e\<lparr>en_files := [new_file_info 0], en_next_file_id := 1\<rparr>"
    using e(1,2) by (simp add: push_new_file_def)
  define e1 where "e1 = e\<lparr>en_files := [first_file blob], en_next_file_id := 1, en_alloc_log := Some lg',
      en_disk := disk_write blob 0 (data_header_page 0 FActive (io_header_time io)) (en_disk e)\<rparr>"
  have "allocate_blob_for_file io 0 (push_new_file e) = (True, e1)"
    using io e fresh w out
    by (simp add: push allocate_blob_for_file_def on_blob_allocated_def open_blob_for_file_def handle_blob_opened_def alloc_works_def
        en_update_file_def submit_write_def Let_def first_file_def new_file_info_def e1_def)
  moreover have "en_superblock e1 = en_superblock e" "en_files e1 ! 0 = first_file blob" by (simp_all add: e1_def)
  ultimately have alloc: "allocate_new_file io e = (Some 0, init_file_metadata (first_file blob) e1)"
    using near push by (simp add: allocate_new_file_def Let_def)
  have "update_superblock_file_mapping (Some (first_file blob)) (en_superblock e)
      = (en_superblock e)\<lparr>sb_file_mappings := [fi_mapping (first_file blob)]\<rparr>"
    using e(4) by (simp add: update_superblock_file_mapping_def kMaxFileCount_def)
  then obtain meta where meta: "init_file_metadata (first_file blob) e1
      = e1\<lparr>en_meta := meta, en_superblock := (en_superblock e)\<lparr>sb_file_mappings := [fi_mapping (first_file blob)]\<rparr>\<rparr>"
    by (simp add: init_file_metadata_def Let_def e1_def)
  show thesis
    by (rule that [of _ lg', OF alloc]) (unfold meta, simp_all add: e1_def w out)
qed

text \<open>What \<^verbatim>\<open>create\<close> leaves.\<close>

definition fresh_store :: "engine_config \<Rightarrow> u64 \<Rightarrow> kv_engine \<Rightarrow> bool" where
  "fresh_store config blob e \<longleftrightarrow> en_state e = EReady \<and> en_index e = mem_index_new (cf_slots config) True
     \<and> en_files e = [first_file blob] \<and> en_active_file_id e = 0 \<and> en_next_file_id e = 1
     \<and> en_data_file_size e = cf_data_file_size config \<and> en_total_data e = 0 \<and> en_total_garbage e = 0
     \<and> get_u32 (disk_read (en_disk e) blob 0 4096) 0 \<noteq> kEntryMagic \<and> store_wf e
     \<and> sb_checkpoint_file_id (en_superblock e) = 0 \<and> sb_checkpoint_page_index (en_superblock e) = 0
     \<and> (\<exists>lg x. en_alloc_log e = Some lg \<and> lg_holds lg 0 [x])"

lemma header_page_magic: "get_u32 (disk_read (disk_write b 0 (data_header_page file st t) d) b 0 4096) 0 \<noteq> kEntryMagic"
proof -
  have len: "length (data_header_page file st t) = 4096" by (simp add: data_header_page_def data_file_header_bytes_def Let_def)
  have "disk_read (disk_write b 0 (data_header_page file st t) d) b 0 4096 = data_header_page file st t"
    using disk_read_write [of b 0 "data_header_page file st t" d] len by simp
  moreover have "get_u32 (data_header_page file st t) 0 = kDataFileHeaderMagic"
    by (simp add: data_header_page_def Let_def data_file_header_bytes_def kv_layout)
  ultimately show ?thesis by (simp add: kDataFileHeaderMagic_def kEntryMagic_def)
qed

lemma create_first_file_works:
  assumes env: "life_works env" "alloc_works (le_io env)" "io_blob (le_io env) = Some blob"
    and s: "sy_sb_open s" "en_files (sy_engine s) = []" "en_next_file_id (sy_engine s) = 0"
      "en_alloc_log (sy_engine s) = Some (lg_initialize True True 0 0 0)" "en_superblock (sy_engine s) = new_superblock config now superblock_zero"
      "en_index (sy_engine s) = mem_index_new (cf_slots config) True" "en_data_file_size (sy_engine s) = cf_data_file_size config"
      "en_total_data (sy_engine s) = 0" "en_total_garbage (sy_engine s) = 0"
  obtains s' where "create_first_file env s = (KSuccess, s')" "fresh_store config blob ((sy_engine s')\<lparr>en_state := EReady\<rparr>)"
    "sy_super s' = sy_super s" "sy_sb_open s'" "bk_mgr (sy_bk s') = bk_mgr (sy_bk s)" "bk_wait (sy_bk s') = bk_wait (sy_bk s)"
proof -
  have maps: "sb_file_mappings (en_superblock (sy_engine s)) = []" by (simp add: s new_superblock_def)
  obtain e lg where e: "allocate_new_file (le_io env) (sy_engine s) = (Some 0, e)" "en_files e = [first_file blob]" "en_next_file_id e = 1"
    "en_superblock e = (en_superblock (sy_engine s))\<lparr>sb_file_mappings := [fi_mapping (first_file blob)]\<rparr>"
    "en_alloc_log e = Some lg" "lg_write_entry blob 0 (en_data_file_size (sy_engine s)) (io_log_time (le_io env)) (lg_initialize True True 0 0 0) = (LgWritePage (lg_page lg), lg)"
    "en_disk e = disk_write blob 0 (data_header_page 0 FActive (io_header_time (le_io env))) (en_disk (sy_engine s))"
    "en_index e = en_index (sy_engine s)" "en_state e = en_state (sy_engine s)" "en_data_file_size e = en_data_file_size (sy_engine s)"
    "en_total_data e = en_total_data (sy_engine s)" "en_total_garbage e = en_total_garbage (sy_engine s)"
    by (rule first_allocation [OF env(2,3) s(2-4) maps])
  have "lg_holds (lg_initialize True True 0 0 0) (unat (0 :: u32)) []" by (rule lg_initialize_holds)
  from lg_holds_write [OF this _ _ e(6)] have lg: "\<exists>x. lg_holds lg 0 [x]" by auto
  define sb where "sb = (persist_alloc_log e ((en_superblock e)\<lparr>sb_active_file_id := 0\<rparr>))\<lparr>sb_sequence := 1\<rparr>"
  define s' where "s' = (sy_set_engine (e\<lparr>en_active_file_id := 0, en_superblock := sb\<rparr>) s)\<lparr>sy_areas := \<lparr>sd_primary = sb_image sb, sd_backup = sb_image sb\<rparr>\<rparr>"
  have id: "fi_file_id (first_file blob) = 0" by (simp add: first_file_def new_file_info_def)
  have seq: "sb_sequence (persist_alloc_log e x) = sb_sequence x" for x by (simp add: persist_alloc_log_def split: option.split)
  have "create_first_file env s = (KSuccess, s')"
    using env(1) s(1) by (simp add: create_first_file_def e(1,2) id Let_def sy_write_superblock_def life_works_def write_superblock_works
        sy_set_engine_def bk_set_engine_def s'_def sb_def seq e(4) s(5) new_superblock_def superblock_zero_def)
  moreover have "fresh_store config blob ((sy_engine s')\<lparr>en_state := EReady\<rparr>)"
    using lg e s header_page_magic
    by (simp add: fresh_store_def s'_def sy_set_engine_def bk_set_engine_def sb_def store_wf_def persist_alloc_log_def id new_superblock_def
        superblock_zero_def superblock_is_valid_def sb_fits_def kMaxFileCount_def fi_mapping_def)
  moreover have "sy_super s' = sy_super s" "sy_sb_open s'" "bk_mgr (sy_bk s') = bk_mgr (sy_bk s)" "bk_wait (sy_bk s') = bk_wait (sy_bk s)"
    using s(1) by (simp_all add: s'_def sy_set_engine_def bk_set_engine_def)
  ultimately show thesis by (rule that)
qed

definition create_works :: "life_env \<Rightarrow> engine_config \<Rightarrow> bool" where
  "create_works env config \<longleftrightarrow> life_works env \<and> alloc_works (le_io env) \<and> le_sb_allocated env \<noteq> None \<and> le_sb_set env
     \<and> fst (am_initialize (le_buffers env config) (cf_append_buffer_size config) (am_new ())) \<and> cf_append_buffer_count config \<le> kMaxBufferCount"

lemma create_store:
  assumes env: "create_works env config" "io_blob (le_io env) = Some blob" "le_sb_allocated env = Some b"
  obtains s where "engine_create env config (engine_new d areas super) = (KSuccess, s)" "fresh_store config blob (sy_engine s)"
    "sy_super s = Some b" "sy_sb_open s" "mgr_idle (bk_mgr (sy_bk s))" "bk_wait (sy_bk s) = []"
proof -
  have works: "life_works env" "alloc_works (le_io env)" using env(1) by (simp_all add: create_works_def)
  obtain m where m: "am_initialize (le_buffers env config) (cf_append_buffer_size config) (am_new ()) = (True, m)"
    using env(1) by (cases "am_initialize (le_buffers env config) (cf_append_buffer_size config) (am_new ())") (auto simp: create_works_def)
  have idle: "mgr_idle m" by (rule initialize_idle [OF m]) (use env(1) in \<open>simp add: create_works_def le_buffers_def\<close>)
  let ?s = "(sy_set_engine ((sy_engine (engine_new d areas super))\<lparr>en_state := EOpening, en_data_file_size := cf_data_file_size config\<rparr>)
      (engine_new d areas super))\<lparr>sy_config := config\<rparr>"
  define s1 where "s1 = init_alloc_log_manager env
     ((sy_set_engine ((sy_engine ?s)\<lparr>en_index := mem_index_new (cf_slots config) True,
         en_superblock := new_superblock config (le_now env) superblock_zero\<rparr>) ?s)
       \<lparr>sy_parts := True, sy_bk := bk_set_engine ((sy_engine ?s)\<lparr>en_index := mem_index_new (cf_slots config) True,
          en_superblock := new_superblock config (le_now env) superblock_zero\<rparr>) ((sy_bk ?s)\<lparr>bk_mgr := m\<rparr>),
        sy_ckpt := ck_new (mi_capacity (mem_index_new (cf_slots config) True)), sy_sched := cs_new, sy_super := Some b, sy_sb_open := True\<rparr>)"
  note step = engine_new_def sy_set_engine_def bk_set_engine_def bk_start_def ak_start_def
  have init: "initialize_new env ?s = create_first_file env s1"
    using works(1) m env(3) env(1)
    by (simp add: initialize_new_def init_parts_def step Let_def life_works_def create_superblock_blob_def create_works_def s1_def)
  have s1: "sy_sb_open s1" "en_files (sy_engine s1) = []" "en_next_file_id (sy_engine s1) = 0"
      "en_alloc_log (sy_engine s1) = Some (lg_initialize True True 0 0 0)" "en_superblock (sy_engine s1) = new_superblock config (le_now env) superblock_zero"
      "en_index (sy_engine s1) = mem_index_new (cf_slots config) True" "en_data_file_size (sy_engine s1) = cf_data_file_size config"
      "en_total_data (sy_engine s1) = 0" "en_total_garbage (sy_engine s1) = 0"
    and more: "sy_super s1 = Some b" "bk_mgr (sy_bk s1) = m" "bk_wait (sy_bk s1) = []"
    using works(1)
    by (simp_all add: s1_def init_alloc_log_manager_def step Let_def life_works_def new_superblock_def superblock_zero_def)
  obtain s' where s': "create_first_file env s1 = (KSuccess, s')" "fresh_store config blob ((sy_engine s')\<lparr>en_state := EReady\<rparr>)"
    "sy_super s' = sy_super s1" "sy_sb_open s'" "bk_mgr (sy_bk s') = bk_mgr (sy_bk s1)" "bk_wait (sy_bk s') = bk_wait (sy_bk s1)"
    by (rule create_first_file_works [OF works env(2) s1])
  show thesis
  proof (rule that [of "sy_set_state EReady s'"])
    have "en_state (sy_engine (engine_new d areas super)) = EUninitialized" by (simp add: step)
    then show "engine_create env config (engine_new d areas super) = (KSuccess, sy_set_state EReady s')"
      unfolding engine_create_def Let_def init s'(1) by simp
  qed (use s' more idle in \<open>simp_all add: sy_set_state_def sy_set_engine_def bk_set_engine_def\<close>)
qed

end
