(* ===== verification/KvReopenSpec.thy ===== *)
theory KvReopenSpec
  imports KvReopen
begin

text \<open>
  The properties of an engine's life: a store that is created, used, closed and opened again serves what
  it served before; without recovery only the files come back; a deleted blob makes a store unusable.
\<close>

section \<open>The allocation log after a clean close\<close>

lemma log_settled_holds:
  assumes "lg_holds lg base es" "le_log_read env = (True, lg_page lg)" "sb_alloc_log_head sb = lg_head lg" "sb_alloc_log_sequence sb = lg_sequence lg"
  shows "log_settled env sb"
proof -
  let ?p = "unat (lg_head lg) mod 64"
  have seq: "unat (lg_sequence lg) = base + length es" using assms(1) by (simp add: lg_holds_def)
  have "unat (al_sequence (lg_entry_at (lg_page lg) ?p)) \<le> unat (lg_sequence lg)" if "lg_entry_ok (lg_page lg) ?p"
  proof (cases es)
    case Nil
    then show ?thesis using assms(1) that seq by (auto simp: lg_holds_def)
  next
    case (Cons x xs)
    then have "lg_entry_at (lg_page lg) ?p = es ! 0 \<and> unat (al_sequence (es ! 0)) = base + 1"
      using assms(1) by (auto simp: lg_holds_def)
    then show ?thesis using seq Cons by simp
  qed
  moreover have "lg_slot (lg_head lg + 0) = ?p" using lg_slot_add [of "lg_head lg" 0] by simp
  ultimately have "lg_scan (lg_page lg) (lg_head lg) (Suc n) 0 (lg_sequence lg) = []" for n
    by (auto simp: Let_def lg_entry_ok_def word_le_nat_alt)
  then have "lg_scan (lg_page lg) (lg_head lg) (unat kAllocLogCapacity) 0 (lg_sequence lg) = []"
    by (metis Suc_pred lg_scan.simps(1) not_gr_zero)
  then show ?thesis
    by (simp add: log_settled_def lg_on_page_read_def assms(2-4) lg_load_page_def Let_def lg_initialize_def)
qed

lemma closed_superblock_log:
  assumes "store_wf e" "en_alloc_log e = Some lg"
  shows "sb_alloc_log_head (closed_superblock e) = lg_head lg" "sb_alloc_log_sequence (closed_superblock e) = lg_sequence lg"
  using assms by (simp_all add: final_superblock_eq persist_alloc_log_def)

lemma closed_superblock_fields:
  assumes "store_wf e"
  shows "sb_file_mappings (closed_superblock e) = map fi_mapping (en_files e)" "sb_data_file_size (closed_superblock e) = en_data_file_size e"
    "sb_total_data_bytes (closed_superblock e) = en_total_data e" "sb_total_garbage_bytes (closed_superblock e) = en_total_garbage e"
    "sb_active_file_id (closed_superblock e) = en_active_file_id e" "superblock_is_valid (closed_superblock e)" "sb_fits (closed_superblock e)"
    "sb_checkpoint_file_id (closed_superblock e) = sb_checkpoint_file_id (en_superblock e)"
    "sb_checkpoint_page_index (closed_superblock e) = sb_checkpoint_page_index (en_superblock e)"
  using assms final_superblock_ok [OF assms]
  by (simp_all add: final_superblock_eq persist_alloc_log_def store_wf_def superblock_is_valid_def sb_fits_def split: option.split)

lemma mapped_file_mapping: "mapped_file (\<lambda>_. True) (fi_mapping f) = f\<lparr>fi_blob_opened := True\<rparr>"
  by (simp add: mapped_file_def fi_mapping_def)

text \<open>\<^verbatim>\<open>close\<close> and the first part of \<^verbatim>\<open>open\<close>: up to the files, and up to the recovery of the index.\<close>

lemma close_then_open:
  assumes "en_state (sy_engine s) = EReady" "sy_sb_open s" "sy_super s = Some b"
    and "e = bk_engine (close_buffers (le_io env) (sy_bk s))" "store_wf e" "en_alloc_log e = Some lg" "lg_holds lg base es"
    and "life_works env" "engine_close env s = (r, s1)" "life_works env2" "le_log_read env2 = (True, lg_page lg)"
    and "fst (am_initialize (le_buffers env2 default_config) (cf_append_buffer_size default_config) (am_new ()))"
  obtains lg2 s3 where "r = KSuccess" "sy_areas s1 = \<lparr>sd_primary = sb_image (closed_superblock e), sd_backup = sb_image (closed_superblock e)\<rparr>"
    "load_existing env2 recover (sy_set_state EOpening (engine_new (en_disk (sy_engine s1)) (sy_areas s1) (sy_super s1)))
      = load_files env2 recover s3"
    "sy_engine s3 = opening_engine default_config (en_disk e) (closed_superblock e) lg2" "sy_super s3 = Some b" "sy_sb_open s3"
proof -
  let ?sb = "closed_superblock e"
  obtain s1' where close: "engine_close env s = (KSuccess, s1')" "en_disk (sy_engine s1') = en_disk e" "sy_super s1' = sy_super s"
    "sy_areas s1' = \<lparr>sd_primary = sb_image ?sb, sd_backup = sb_image ?sb\<rparr>" "en_state (sy_engine s1') = EClosed"
    by (rule close_works [OF assms(1,2,8,4,5)])
  have s1: "s1' = s1" "r = KSuccess" using close(1) assms(9) by simp_all
  note close = close [unfolded s1(1)]
  have settled: "log_settled env2 ?sb"
    using log_settled_holds [OF assms(7,11)] closed_superblock_log [OF assms(5,6)] by simp
  have prim: "sd_primary (sy_areas s1) = sb_image ?sb" using close(4) by simp
  obtain lg2 s3 where "load_existing env2 recover (sy_set_state EOpening (engine_new (en_disk (sy_engine s1)) (sy_areas s1) (Some b)))
      = load_files env2 recover s3"
    "sy_engine s3 = opening_engine default_config (en_disk (sy_engine s1)) ?sb lg2" "sy_super s3 = Some b" "sy_sb_open s3" "sy_areas s3 = sy_areas s1"
    by (rule open_loads [OF assms(10) settled assms(12) closed_superblock_fields(7,6) [OF assms(5)] prim])
  then show thesis using that s1(2) close(2-4) assms(3) by simp
qed

lemma close_then_load:
  assumes "en_state (sy_engine s) = EReady" "sy_sb_open s" "sy_super s = Some b"
    and "e = bk_engine (close_buffers (le_io env) (sy_bk s))" "store_wf e" "en_files e \<noteq> []"
    and "en_alloc_log e = Some lg" "lg_holds lg base es"
    and "life_works env" "engine_close env s = (r, s1)"
    and "life_works env2" "le_log_read env2 = (True, lg_page lg)" "list_all (\<lambda>f. le_blob_opens env2 (fi_blob_id f)) (en_files e)"
    and "fst (am_initialize (le_buffers env2 default_config) (cf_append_buffer_size default_config) (am_new ()))"
  obtains s4 where "r = KSuccess" "sy_areas s1 = \<lparr>sd_primary = sb_image (closed_superblock e), sd_backup = sb_image (closed_superblock e)\<rparr>"
    "load_existing env2 recover (sy_set_state EOpening (engine_new (en_disk (sy_engine s1)) (sy_areas s1) (sy_super s1)))
      = (case (if recover then recover_mem_index env2 s4 else (KSuccess, s4)) of
           (err, s) \<Rightarrow> if err \<noteq> KSuccess then (err, s)
             else (KSuccess, sy_set_engine ((sy_engine s)\<lparr>en_superblock := (en_superblock (sy_engine s))\<lparr>sb_last_mount_time := le_now env2\<rparr>\<rparr>) s))"
    "reopened default_config (en_disk e) (closed_superblock e) (sy_engine s4)" "en_superblock (sy_engine s4) = closed_superblock e" "sy_sb_open s4"
    "en_index (sy_engine s4) = mi_set_global_sequence (sb_checkpoint_global_seq (closed_superblock e)) (mem_index_new (cf_slots default_config) True)"
proof -
  have opens: "list_all (\<lambda>m. le_blob_opens env2 (fm_blob_id m)) (sb_file_mappings (closed_superblock e))" "sb_file_mappings (closed_superblock e) \<noteq> []"
    unfolding closed_superblock_fields(1) [OF assms(5)] using assms(6,13) by (simp_all add: list_all_iff fi_mapping_def)
  obtain lg2 s3 where s3: "r = KSuccess" "sy_areas s1 = \<lparr>sd_primary = sb_image (closed_superblock e), sd_backup = sb_image (closed_superblock e)\<rparr>"
    "load_existing env2 recover (sy_set_state EOpening (engine_new (en_disk (sy_engine s1)) (sy_areas s1) (sy_super s1)))
      = load_files env2 recover s3"
    "sy_engine s3 = opening_engine default_config (en_disk e) (closed_superblock e) lg2" "sy_super s3 = Some b" "sy_sb_open s3"
    by (rule close_then_open [OF assms(1-5,7-12,14), of recover])
  show thesis
    by (rule load_files_works [OF assms(11) opens s3(4-6), of recover], rule that [OF s3(1,2)]) (use s3(3) in simp_all)
qed

section \<open>Reopening without recovery\<close>

text \<open>What \<^verbatim>\<open>close\<close> has written, the next \<^verbatim>\<open>open\<close> restores: every file with its size, state and write
  position, open again, the active file, the next file id, the counters. The index is not part of it:
  opened without recovery, the store has every byte on disk and finds no key.\<close>

theorem close_open_restores_files:
  assumes "en_state (sy_engine s) = EReady" "sy_sb_open s" "sy_super s = Some b"
    and "e = bk_engine (close_buffers (le_io env) (sy_bk s))" "store_wf e" "en_files e \<noteq> []"
    and "en_alloc_log e = Some lg" "lg_holds lg base es"
    and "life_works env" "engine_close env s = (r, s1)"
    and "life_works env2" "le_log_read env2 = (True, lg_page lg)" "list_all (\<lambda>f. le_blob_opens env2 (fi_blob_id f)) (en_files e)"
    and "fst (am_initialize (le_buffers env2 default_config) (cf_append_buffer_size default_config) (am_new ()))"
    and "engine_open env2 False (engine_new (en_disk (sy_engine s1)) (sy_areas s1) (sy_super s1)) = (r2, s2)"
  shows "r = KSuccess \<and> r2 = KSuccess \<and> en_state (sy_engine s2) = EReady
     \<and> en_files (sy_engine s2) = map (\<lambda>f. f\<lparr>fi_blob_opened := True\<rparr>) (en_files e) \<and> en_disk (sy_engine s2) = en_disk e
     \<and> en_active_file_id (sy_engine s2) = en_active_file_id e \<and> en_next_file_id (sy_engine s2) = word_of_nat (length (en_files e))
     \<and> en_data_file_size (sy_engine s2) = en_data_file_size e
     \<and> en_total_data (sy_engine s2) = en_total_data e \<and> en_total_garbage (sy_engine s2) = en_total_garbage e
     \<and> en_index (sy_engine s2) = mi_set_global_sequence (sb_checkpoint_global_seq (closed_superblock e)) (mem_index_new (cf_slots default_config) True)"
proof (rule close_then_load [OF assms(1-14), where recover = False], goal_cases)
  case (1 s4)
  have "en_state (sy_engine (engine_new d areas super)) = EUninitialized" for d areas super
    by (simp add: engine_new_def bk_start_def ak_start_def)
  then have "r2 = KSuccess" "s2 = sy_set_state EReady (sy_set_engine ((sy_engine s4)
       \<lparr>en_superblock := (en_superblock (sy_engine s4))\<lparr>sb_last_mount_time := le_now env2\<rparr>\<rparr>) s4)"
    using assms(15) 1(3) by (simp_all add: engine_open_def)
  then show ?case
    using 1 closed_superblock_fields(1-5) [OF assms(5)]
    by (simp add: sy_set_state_def sy_set_engine_def bk_set_engine_def reopened_def mapped_file_mapping)
qed

section \<open>Reopening with recovery\<close>

lemma same_setup_wf: "same_setup e e' \<Longrightarrow> store_wf e \<Longrightarrow> store_wf e'"
proof -
  assume same: "same_setup e e'" and wf: "store_wf e"
  have "map fst (map (\<lambda>f. (fi_file_id f, fi_blob_id f, fi_state f)) (en_files e')) = map fst (map (\<lambda>f. (fi_file_id f, fi_blob_id f, fi_state f)) (en_files e))"
    using same by (simp only: same_setup_def)
  then have "map fi_file_id (en_files e') = map fi_file_id (en_files e)" by (simp add: comp_def)
  then show "store_wf e'" using same wf by (simp add: store_wf_def same_setup_def)
qed

lemma fresh_store_log:
  assumes "fresh_store config blob e"
  shows "store_log (mem_index_new (cf_slots config) True) e []"
proof -
  have "log_file (first_file blob) (en_disk e) []"
    using assms by (simp add: log_file_def fresh_store_def first_file_def new_file_info_def log_images_def disk_read_def)
  moreover have "fi_file_id (first_file blob) = 0" by (simp add: first_file_def new_file_info_def)
  moreover have "mi_set_global_sequence 0 (mem_index_new n True) = mem_index_new n True" for n
    by (simp add: mem_index_new_def mi_set_global_sequence_def Let_def)
  ultimately show ?thesis using assms by (auto simp: store_log_def fresh_store_def intro: exI [of _ 0])
qed

lemma log_index_sequence:
  "fst (fold rebuild_entry ms (mi_set_global_sequence q m, a)) = mi_set_global_sequence q (fst (fold rebuild_entry ms (m, b)))"
  by (induction ms arbitrary: m a b) (simp_all add: rebuild_entry_def mi_upsert_sequence mi_remove_sequence)

lemma kv_get_cong:
  assumes "en_state e' = en_state e" "en_files e' = en_files e" "en_disk e' = en_disk e"
    and "\<And>k. mi_lookup (en_index e') k = mi_lookup (en_index e) k"
  shows "kv_get env key has len e' = kv_get env key has len e"
  unfolding kv_get_def get_file_def assms ..

lemma sb_image_parsed: "sb_fits sb \<Longrightarrow> superblock_at (take 41376 (sb_image sb)) = sb"
  using superblock_at_body [of sb "enc_u32 (crc32_calculate (superblock_body sb))"] length_superblock_bytes [of sb]
  by (simp add: sb_image_eq) (simp add: superblock_bytes_def)

lemma recover_log_index:
  assumes env: "life_works env" and s: "sy_sb_open s" "en_superblock (sy_engine s) = sb" "en_files (sy_engine s) = [f]"
    and sb: "sb_fits sb" "superblock_is_valid sb" "sb_checkpoint_file_id sb = fi_file_id f" "sb_checkpoint_page_index sb = 0"
    and f: "log_file f d es" "es \<noteq> []" "list_all log_ok es" "4096 + length (log_images es) \<le> 2 ^ 20" "fi_state f \<noteq> FDeleted"
    and blob: "fi_size f div kPageSize \<le> le_clusters env (fi_blob_id f) * le_cluster_size env div kPageSize"
    and reads: "le_loads env = [Some (0, True, sb_image sb), Some (0, True, disk_read d (fi_blob_id f) 0 (unat (fi_size f)))]"
  obtains q where "recover_mem_index env s = (KSuccess, sy_set_engine
      ((sy_engine s)\<lparr>en_index := mi_set_global_sequence q (log_index (en_index (sy_engine s)) (fi_file_id f) es)\<rparr>) s)"
proof -
  let ?m = "en_index (sy_engine s)"
  define l where "l = fold (\<lambda>c l. snd (ld_poll c l)) (le_loads env) (start_recovery (engine_loader ?m (superblock_bytes sb) True True
      (le_io_unit env) (le_cluster_size env) (le_clusters env) [f]))"
  obtain q where q: "ld_is_success l" "ld_index l = mi_set_global_sequence q (log_index ?m (fi_file_id f) es)"
    using engine_recovers_log [OF f sb_image_valid [OF sb(1,2)] _ _ blob l_def [unfolded reads]] sb(3,4) sb_image_parsed [OF sb(1)] by auto
  have "recover_mem_index env s = (KSuccess, sy_set_engine ((sy_engine s)\<lparr>en_index := mi_set_global_sequence
      (max (sb_checkpoint_global_seq sb) (ld_max_sequence l) + 1) (ld_index l)\<rparr>) s)"
    using env s(1) q(1) by (simp add: recover_mem_index_def Let_def s(2,3) life_works_def l_def [symmetric] recover_mem_index_finish_def)
  then show thesis using that by (simp add: q(2) mi_set_global_sequence_def)
qed

text \<open>A store with one file whose log is known, closed and opened.\<close>

lemma reopen_logged:
  assumes s: "sy_engine s = e" "bk_wait (sy_bk s) = []" "mgr_idle (bk_mgr (sy_bk s))" "sy_sb_open s" "sy_super s = Some b"
    and e: "store_log m0 e es" "4096 + length (log_images es) \<le> 2 ^ 20" "es \<noteq> []" "store_wf e"
      "en_files e = [f]" "fi_state f \<noteq> FDeleted" "en_alloc_log e = Some lg" "lg_holds lg base xs"
      "sb_checkpoint_file_id (en_superblock e) = fi_file_id f" "sb_checkpoint_page_index (en_superblock e) = 0"
    and close: "life_works env1" "engine_close env1 s = (r1, s1)"
    and env: "life_works env2" "le_log_read env2 = (True, lg_page lg)" "le_blob_opens env2 (fi_blob_id f)"
      "fst (am_initialize (le_buffers env2 default_config) (cf_append_buffer_size default_config) (am_new ()))"
    and reads: "le_loads env2 = [Some (0, True, sd_primary (sy_areas s1)), Some (0, True, disk_read (en_disk e) (fi_blob_id f) 0 (unat (fi_size f)))]"
      "fi_size f div kPageSize \<le> le_clusters env2 (fi_blob_id f) * le_cluster_size env2 div kPageSize"
    and run: "engine_open env2 True (engine_new (en_disk (sy_engine s1)) (sy_areas s1) (sy_super s1)) = (r2, s2)"
  shows "r1 = KSuccess \<and> r2 = KSuccess \<and> en_state (sy_engine s2) = EReady
     \<and> (m0 = mem_index_new (cf_slots default_config) True \<longrightarrow> (\<exists>q. en_index (sy_engine s2) = mi_set_global_sequence q (en_index e)))
     \<and> en_files (sy_engine s2) = en_files e \<and> en_disk (sy_engine s2) = en_disk e \<and> en_active_file_id (sy_engine s2) = en_active_file_id e
     \<and> en_next_file_id (sy_engine s2) = 1 \<and> en_data_file_size (sy_engine s2) = en_data_file_size e
     \<and> en_total_data (sy_engine s2) = en_total_data e \<and> en_total_garbage (sy_engine s2) = en_total_garbage e"
proof -
  let ?m0 = "mem_index_new (cf_slots default_config) True" and ?e = "e\<lparr>en_state := EClosing\<rparr>"
  have f: "fi_file_id f = en_active_file_id e" "log_file f (en_disk e) es" "en_state e = EReady" "list_all log_ok es" "fi_blob_opened f"
    using e(1,5) by (auto simp: store_log_def log_file_def)
  have fmap: "f\<lparr>fi_blob_opened := True\<rparr> = f" using f(5) by (cases f) simp
  have wf: "store_wf ?e" using e(4) by (simp add: store_wf_def)
  note sb = closed_superblock_fields [OF wf]
  have closing: "?e = bk_engine (close_buffers (le_io env1) (sy_bk s))" using close_idle [OF s(3,2)] s(1) f(3) by simp
  obtain s4 where s4: "r1 = KSuccess"
    "sy_areas s1 = \<lparr>sd_primary = sb_image (closed_superblock ?e), sd_backup = sb_image (closed_superblock ?e)\<rparr>"
    "load_existing env2 True (sy_set_state EOpening (engine_new (en_disk (sy_engine s1)) (sy_areas s1) (sy_super s1)))
      = (case recover_mem_index env2 s4 of (err, s) \<Rightarrow> if err \<noteq> KSuccess then (err, s)
           else (KSuccess, sy_set_engine ((sy_engine s)\<lparr>en_superblock := (en_superblock (sy_engine s))\<lparr>sb_last_mount_time := le_now env2\<rparr>\<rparr>) s))"
    "reopened default_config (en_disk ?e) (closed_superblock ?e) (sy_engine s4)" "en_superblock (sy_engine s4) = closed_superblock ?e" "sy_sb_open s4"
    "en_index (sy_engine s4) = mi_set_global_sequence (sb_checkpoint_global_seq (closed_superblock ?e)) ?m0"
    using close_then_load [OF _ s(4,5) closing wf _ _ e(8) close env(1,2) _ env(4), of True] s(1) f(3) e(5,7) env(3) by auto
  have files: "en_files (sy_engine s4) = [f]" using s4(4) sb(1) e(5) fmap by (simp add: reopened_def mapped_file_mapping)
  obtain q where q: "recover_mem_index env2 s4 = (KSuccess, sy_set_engine
      ((sy_engine s4)\<lparr>en_index := mi_set_global_sequence q (log_index (en_index (sy_engine s4)) (fi_file_id f) es)\<rparr>) s4)"
    by (rule recover_log_index [OF env(1) s4(6,5) files sb(7,6) _ _ f(2) e(3) f(4) e(2,6) reads(2)])
      (use sb(8,9) e(9,10) s4(2) reads(1) in simp_all)
  have "en_state (sy_engine (engine_new d areas super)) = EUninitialized" for d areas super
    by (simp add: engine_new_def bk_start_def ak_start_def)
  moreover obtain q' where "en_index e = mi_set_global_sequence q' (log_index m0 (fi_file_id f) es)" using e(1) f(1) by (auto simp: store_log_def)
  moreover have "mi_set_global_sequence q (log_index (en_index (sy_engine s4)) (fi_file_id f) es)
      = mi_set_global_sequence q (log_index ?m0 (fi_file_id f) es)"
    unfolding s4(7) log_index_sequence [of _ _ ?m0 0 0] by (simp add: mi_set_global_sequence_def)
  ultimately show ?thesis
    using run s4(1,3,4) q sb(1-5) files
    by (auto simp: engine_open_def reopened_def sy_set_state_def sy_set_engine_def bk_set_engine_def mi_set_global_sequence_def e(5))
qed

text \<open>C7: The whole life of a store. It is created with any configuration; any calls of \<^verbatim>\<open>put\<close> and \<^verbatim>\<open>del\<close>
  follow, successful or failing, that stay inside its first file and inside one chunk of the recovery
  scan, at least one of them writing an entry; it is closed and opened again with recovery, by a newly
  constructed engine, which has the default configuration but for the capacity and the file size that it takes from the
  superblock. The surroundings of create, close and open work, and the reads of the recovery deliver what is
  stored. Then the files, their contents and the counters are those from before the \<^verbatim>\<open>close\<close>;
  and if the store was created with the default size of the index, the index is the same slot by
  slot and every \<^verbatim>\<open>get\<close> answers as it would have answered before. With another size the entries go into a
  table of the default size instead.\<close>

theorem reopened_store_serves_the_same:
  assumes "create_works env0 config" "io_blob (le_io env0) = Some blob" "le_sb_allocated env0 = Some b"
    and "engine_create env0 config (engine_new d areas super) = (r0, s0)"
    and "list_all store_op_ok ops" "4096 + sum_list (map store_bytes ops) \<le> min (2 ^ 20) (unat (cf_data_file_size config))"
    and "e = fold store_do ops (sy_engine s0)" "f = hd (en_files e)" "fi_size f \<noteq> 0"
    and "life_works env1" "engine_close env1 (sy_set_engine e s0) = (r1, s1)"
    and "life_works env2" "le_log_read env2 = (True, lg_page (the (en_alloc_log e)))" "le_blob_opens env2 blob"
      "fst (am_initialize (le_buffers env2 default_config) (cf_append_buffer_size default_config) (am_new ()))"
      "le_loads env2 = [Some (0, True, sd_primary (sy_areas s1)), Some (0, True, disk_read (en_disk e) blob 0 (unat (fi_size f)))]"
      "fi_size f div kPageSize \<le> le_clusters env2 blob * le_cluster_size env2 div kPageSize"
    and "engine_open env2 True (engine_new (en_disk (sy_engine s1)) (sy_areas s1) (sy_super s1)) = (r2, s2)"
  shows "r0 = KSuccess \<and> r1 = KSuccess \<and> r2 = KSuccess
     \<and> (cf_slots config = cf_slots default_config \<longrightarrow> kv_get env key has len (sy_engine s2) = kv_get env key has len e
          \<and> (\<exists>q. en_index (sy_engine s2) = mi_set_global_sequence q (en_index e)))
     \<and> en_files (sy_engine s2) = en_files e \<and> en_disk (sy_engine s2) = en_disk e \<and> en_active_file_id (sy_engine s2) = en_active_file_id e
     \<and> en_next_file_id (sy_engine s2) = en_next_file_id e \<and> en_data_file_size (sy_engine s2) = en_data_file_size e
     \<and> en_total_data (sy_engine s2) = en_total_data e \<and> en_total_garbage (sy_engine s2) = en_total_garbage e"
proof -
  let ?m0 = "mem_index_new (cf_slots config) True" and ?e = "e\<lparr>en_state := EClosing\<rparr>"
  obtain s0' where s0: "engine_create env0 config (engine_new d areas super) = (KSuccess, s0')" "fresh_store config blob (sy_engine s0')"
    "sy_super s0' = Some b" "sy_sb_open s0'" "mgr_idle (bk_mgr (sy_bk s0'))" "bk_wait (sy_bk s0') = []"
    by (rule create_store [OF assms(1-3)])
  have r0: "s0' = s0" "r0 = KSuccess" using s0(1) assms(4) by simp_all
  note s0 = s0 [unfolded r0(1)]
  have size: "en_data_file_size (sy_engine s0) = cf_data_file_size config" using s0(2) by (simp add: fresh_store_def)
  obtain es where es: "store_log ?m0 e es" "same_setup (sy_engine s0) e" "4096 + length (log_images es) \<le> 2 ^ 20"
    using ops_keep_log [OF fresh_store_log [OF s0(2)] assms(5)] assms(6,7) size by (auto simp: log_images_def)
  obtain lg x where lg: "en_alloc_log e = Some lg" "lg_holds lg 0 [x]"
    using s0(2) es(2) by (auto simp: fresh_store_def same_setup_def)
  have f: "en_files e = [f]" "fi_file_id f = 0" "log_file f (en_disk e) es" "en_active_file_id e = 0" "en_state e = EReady" "list_all log_ok es"
    using es(1,2) s0(2) assms(8) by (auto simp: store_log_def same_setup_def fresh_store_def)
  have kind: "fi_blob_id f = blob" "fi_state f = FActive" "fi_blob_opened f" "en_next_file_id e = 1"
    using es(2) s0(2) f(1,3) by (auto simp: same_setup_def fresh_store_def first_file_def new_file_info_def log_file_def)
  have nonempty: "es \<noteq> []" using f(3) assms(9) by (auto simp: log_file_def)
  have wf: "store_wf e" using same_setup_wf [OF es(2)] s0(2) by (simp add: fresh_store_def)
  have ckpt: "sb_checkpoint_file_id (en_superblock e) = fi_file_id f" "sb_checkpoint_page_index (en_superblock e) = 0"
    using es(2) s0(2) f(2) by (simp_all add: same_setup_def fresh_store_def)
  have live: "fi_state f \<noteq> FDeleted" using kind(2) by simp
  have bk: "sy_engine (sy_set_engine e s0) = e" "bk_wait (sy_bk (sy_set_engine e s0)) = []" "mgr_idle (bk_mgr (sy_bk (sy_set_engine e s0)))"
    "sy_sb_open (sy_set_engine e s0)" "sy_super (sy_set_engine e s0) = Some b"
    using s0 by (simp_all add: sy_set_engine_def bk_set_engine_def)
  note again = reopen_logged [OF bk es(1,3) nonempty wf f(1) live lg ckpt assms(10,11,12) _ _ assms(15), unfolded kind(1), OF _ assms(14,16,17,18)]
  have "en_index (sy_engine s2) = mi_set_global_sequence q (en_index e) \<Longrightarrow> mi_lookup (en_index (sy_engine s2)) k = mi_lookup (en_index e) k" for q k
    by (simp add: mi_lookup_sequence)
  then show ?thesis using again assms(13) lg(1) r0(2) kind(4) kv_get_cong [of "sy_engine s2" e env key has len] f(5) by auto
qed

section \<open>A concrete store\<close>

definition demo_config :: engine_config where
  "demo_config = \<lparr>cf_max_capacity = 2 ^ 30, cf_data_file_size = 2 ^ 20, cf_slots = cf_slots default_config,
     cf_append_buffer_size = 8192, cf_append_buffer_count = 1\<rparr>"

definition demo_life :: life_env where
  "demo_life = \<lparr>le_io = demo_io, le_now = 0, le_mapped = True, le_log_mapped = True, le_mems = (\<lambda>_. Some []), le_sb_allocated = Some 1,
     le_sb_set = True, le_sb_opened = True, le_sb_dma = True, le_channel = True,
     le_sb_write = (\<lambda>w. (True, case w of SbBackup bs \<Rightarrow> bs | SbPrimary bs \<Rightarrow> bs)), le_sb_read = Some, le_blob_opens = (\<lambda>_. True),
     le_headers = (\<lambda>_. None), le_blobs = [], le_log_read = (False, []), le_io_unit = 512, le_cluster_size = 1048576, le_clusters = (\<lambda>_. 1),
     le_loads = []\<rparr>"

text \<open>The surroundings of the second start: the log page and the reads of the recovery.\<close>

definition demo_restart :: "kv_engine \<Rightarrow> kv_system \<Rightarrow> life_env" where
  "demo_restart e s = demo_life\<lparr>le_log_read := (True, lg_page (the (en_alloc_log e))),
     le_loads := [Some (0, True, sd_primary (sy_areas s)), Some (0, True, disk_read (en_disk e) 78 0 8192)]\<rparr>"

lemma demo_life_works: "create_works demo_life demo_config" "life_works demo_life" "life_works (demo_restart e s)"
  "fst (am_initialize (le_buffers (demo_restart e s) default_config) (cf_append_buffer_size default_config) (am_new ()))" "io_blob (le_io demo_life) = Some 78"
  "le_sb_allocated demo_life = Some 1"
proof -
  have mems: "le_mems demo_life = (\<lambda>_. Some [])" "le_mems (demo_restart e s) = (\<lambda>_. Some [])"
    by (simp_all add: demo_life_def demo_restart_def)
  have buf: "fst (am_initialize (le_buffers demo_life demo_config) (cf_append_buffer_size demo_config) (am_new ()))"
    by (simp add: le_buffers_def mems demo_config_def am_initialize_def am_add_buffer_def am_new_def ring_enqueue_def ring_new_def kMaxBufferCount_def
        am_take_active_def ring_dequeue_def Let_def)
  have four: "[0..<4] = [0, 1, 2, 3 :: nat]" by (simp add: upt_rec)
  show "fst (am_initialize (le_buffers (demo_restart e s) default_config) (cf_append_buffer_size default_config) (am_new ()))"
    by (simp add: le_buffers_def mems default_config_def kMinBufferCount_def four am_initialize_def am_add_buffer_def am_new_def ring_enqueue_def ring_new_def
        kMaxBufferCount_def am_take_active_def ring_dequeue_def Let_def)
  show "life_works demo_life" "life_works (demo_restart e s)" "io_blob (le_io demo_life) = Some 78" "le_sb_allocated demo_life = Some 1"
    by (simp_all add: life_works_def demo_life_def demo_restart_def demo_io_def)
  then show "create_works demo_life demo_config" using buf
    by (simp add: create_works_def) (simp add: alloc_works_def demo_life_def demo_io_def demo_config_def kMaxBufferCount_def)
qed

abbreviation demo_use :: "kv_engine \<Rightarrow> kv_engine" where
  "demo_use e \<equiv> fold store_do [StPut demo_io 5 (Some [1, 2, 3]) 3] e"

lemma demo_first_put:
  assumes "fresh_store demo_config 78 e"
  shows "en_files (demo_use e) = [advanced 4096 (first_file 78)]"
proof -
  note log = fresh_store_log [OF assms]
  have e: "en_state e = EReady" "en_files e = [first_file 78]" "unat (en_data_file_size e) = 2 ^ 20"
    using assms by (simp_all add: fresh_store_def demo_config_def)
  have sz: "kv_entry_size 3 = 4096" by (simp add: kv_entry_size_def align_up_def kPageSize_def)
  have ffw: "file_for_write demo_io (kv_entry_size 3) e = (Some 0, e)"
    by (rule store_log_file [OF log]) (simp_all add: sz e(3) log_images_def)
  obtain seq idx where al: "mi_allocate_sequence (en_index e) = (seq, idx)" by fastforce
  obtain d' where w: "submit_write (io_ready demo_io) (io_status demo_io) (io_torn demo_io) (first_file 78) (unat (fi_write_offset (first_file 78)))
      (build_entry_inplace 5 (Some [1, 2, 3]) 3 seq False) (en_disk e) = (0, d')"
    by (simp add: submit_write_def demo_io_def first_file_def)
  have dma: "io_dma demo_io" by (simp add: demo_io_def)
  show ?thesis
    using kv_put_writes [OF e(1) _ ffw dma al refl, of 5 "[1, 2, 3]" 0 d'] w e(2)
    by (simp add: index_written_advance sz) (simp add: advance_file_alt en_update_file_def)
qed

theorem reopened_store_serves_the_same_witness:
  "\<exists>s0 s1 s2. engine_create demo_life demo_config (engine_new (\<lambda>_ _. 0) \<lparr>sd_primary = [], sd_backup = []\<rparr> None) = (KSuccess, s0)
     \<and> engine_close demo_life (sy_set_engine (demo_use (sy_engine s0)) s0) = (KSuccess, s1)
     \<and> engine_open (demo_restart (demo_use (sy_engine s0)) s1) True (engine_new (en_disk (sy_engine s1)) (sy_areas s1) (sy_super s1)) = (KSuccess, s2)
     \<and> kv_get demo_io 5 True 100 (sy_engine s2) = kv_get demo_io 5 True 100 (demo_use (sy_engine s0))"
proof -
  note demo = demo_life_works
  obtain s0 where s0: "engine_create demo_life demo_config (engine_new (\<lambda>_ _. 0) \<lparr>sd_primary = [], sd_backup = []\<rparr> None) = (KSuccess, s0)"
    "fresh_store demo_config 78 (sy_engine s0)"
    by (rule create_store [OF demo(1,5,6)])
  let ?e = "demo_use (sy_engine s0)" and ?f = "advanced 4096 (first_file 78)"
  obtain r1 s1 where close: "engine_close demo_life (sy_set_engine ?e s0) = (r1, s1)" by fastforce
  obtain r2 s2 where run: "engine_open (demo_restart ?e s1) True (engine_new (en_disk (sy_engine s1)) (sy_areas s1) (sy_super s1)) = (r2, s2)"
    by fastforce
  have f: "?f = hd (en_files ?e)" "fi_size ?f = 8192" using demo_first_put [OF s0(2)]
    by (simp_all add: advanced_def first_file_def new_file_info_def)
  have ops: "list_all store_op_ok [StPut demo_io 5 (Some [1, 2, 3]) 3]"
    "4096 + sum_list (map store_bytes [StPut demo_io 5 (Some [1, 2, 3]) 3]) \<le> min (2 ^ 20) (unat (cf_data_file_size demo_config))"
    by (simp_all add: demo_config_def kv_entry_size_def align_up_def kPageSize_def)
  have restart: "le_log_read (demo_restart ?e s1) = (True, lg_page (the (en_alloc_log ?e)))" "le_blob_opens (demo_restart ?e s1) 78"
    "fst (am_initialize (le_buffers (demo_restart ?e s1) default_config) (cf_append_buffer_size default_config) (am_new ()))"
    "le_loads (demo_restart ?e s1) = [Some (0, True, sd_primary (sy_areas s1)), Some (0, True, disk_read (en_disk ?e) 78 0 (unat (fi_size ?f)))]"
    "fi_size ?f div kPageSize \<le> le_clusters (demo_restart ?e s1) 78 * le_cluster_size (demo_restart ?e s1) div kPageSize"
    using demo(4) by (simp_all add: demo_restart_def f(2)) (simp_all add: demo_life_def kPageSize_def)
  have nz: "fi_size ?f \<noteq> 0" by (simp add: f(2))
  from reopened_store_serves_the_same [OF demo(1,5,6) s0(1) ops refl f(1) nz demo(2) close demo(3) restart run, of demo_io 5 True 100]
  show ?thesis using s0(1) close run by (auto simp: demo_config_def)
qed

theorem close_open_restores_files_witness:
  "\<exists>s0 s1 s2. engine_create demo_life demo_config (engine_new (\<lambda>_ _. 0) \<lparr>sd_primary = [], sd_backup = []\<rparr> None) = (KSuccess, s0)
     \<and> engine_close demo_life s0 = (KSuccess, s1)
     \<and> engine_open (demo_restart (sy_engine s0) s1) False (engine_new (en_disk (sy_engine s1)) (sy_areas s1) (sy_super s1)) = (KSuccess, s2)
     \<and> en_files (sy_engine s2) = [first_file 78]"
proof -
  obtain s0 where s0: "engine_create demo_life demo_config (engine_new (\<lambda>_ _. 0) \<lparr>sd_primary = [], sd_backup = []\<rparr> None) = (KSuccess, s0)"
    "fresh_store demo_config 78 (sy_engine s0)" "sy_super s0 = Some 1" "sy_sb_open s0" "mgr_idle (bk_mgr (sy_bk s0))" "bk_wait (sy_bk s0) = []"
    by (rule create_store [OF demo_life_works(1,5,6)])
  let ?e = "(sy_engine s0)\<lparr>en_state := EClosing\<rparr>"
  have ready: "en_state (sy_engine s0) = EReady" using s0(2) by (simp add: fresh_store_def)
  have e: "?e = bk_engine (close_buffers (le_io demo_life) (sy_bk s0))" using close_idle [OF s0(5,6) ready] by simp
  obtain lg x where lg: "en_alloc_log ?e = Some lg" "lg_holds lg 0 [x]" using s0(2) by (auto simp: fresh_store_def)
  have wf: "store_wf ?e" "en_files ?e \<noteq> []" using s0(2) by (simp_all add: fresh_store_def store_wf_def)
  obtain r1 s1 where close: "engine_close demo_life s0 = (r1, s1)" by fastforce
  obtain r2 s2 where run: "engine_open (demo_restart (sy_engine s0) s1) False (engine_new (en_disk (sy_engine s1)) (sy_areas s1) (sy_super s1)) = (r2, s2)"
    by fastforce
  have restart: "le_log_read (demo_restart (sy_engine s0) s1) = (True, lg_page lg)"
    "list_all (\<lambda>f. le_blob_opens (demo_restart (sy_engine s0) s1) (fi_blob_id f)) (en_files ?e)"
    "fst (am_initialize (le_buffers (demo_restart (sy_engine s0) s1) default_config) (cf_append_buffer_size default_config) (am_new ()))"
    by (simp add: demo_restart_def lg(1) [simplified], simp add: demo_restart_def list_all_iff demo_life_def, rule demo_life_works(4))
  from close_open_restores_files [OF ready s0(4,3) e wf lg demo_life_works(2) close demo_life_works(3) restart run]
  show ?thesis using s0(1,2) close run by (auto simp: fresh_store_def first_file_def)
qed

section \<open>A deleted blob\<close>

lemma open_missing_blob:
  assumes "sy_engine s = opening_engine config d sb lg" "life_works env" "\<not> list_all (\<lambda>m. le_blob_opens env (fm_blob_id m)) (sb_file_mappings sb)"
  obtains s' where "load_files env recover s = (KIoError, s')"
proof -
  let ?e = "opening_engine config d sb lg"
  have sb: "en_superblock (?e\<lparr>en_files := []\<rparr>) = sb" by (simp add: opening_engine_def)
  obtain e where "rebuild_file_info env ?e = (KIoError, e)"
    using assms(2,3) by (simp add: rebuild_file_info_def Let_def sb life_works_def)
  then show thesis using that by (simp add: load_files_def assms(1))
qed

lemma remove_file_effect:
  assumes "get_file (sy_engine s) file_id = Some i"
  obtains meta fs where "compaction_remove_file True 0 0 file_id s = (True, (sy_set_engine ((sy_engine s)\<lparr>en_files := fs, en_meta := meta\<rparr>) s)
      \<lparr>sy_deleted := sy_deleted s @ [fi_blob_id (en_files (sy_engine s) ! i)]\<rparr>)"
    "map fi_mapping fs = map fi_mapping (en_files (sy_engine s))"
proof -
  let ?fs = "en_files (sy_engine s)"
  define gs where "gs = (if fi_blob_opened (?fs ! i) then ?fs[i := (?fs ! i)\<lparr>fi_blob_opened := False\<rparr>] else ?fs)"
  have i: "i < length ?fs" using assms by (auto simp: get_file_def find_file_Some)
  have m: "fi_mapping (f\<lparr>fi_blob_opened := x\<rparr>) = fi_mapping f" for f x by (simp add: fi_mapping_def)
  have maps: "map fi_mapping gs = map fi_mapping ?fs"
    using i by (simp add: gs_def map_update m) (metis list_update_id nth_map)
  have id: "fi_blob_id (gs ! i) = fi_blob_id (?fs ! i)" using i by (simp add: gs_def)
  have close: "close_blob_for_file True i 0 (sy_engine s) = (True, (sy_engine s)\<lparr>en_files := gs\<rparr>)"
    by (simp add: close_blob_for_file_def gs_def en_update_file_def)
  show thesis
    by (rule that [OF _ maps, of "(en_meta (sy_engine s))(file_id := None)"])
      (simp add: compaction_remove_file_def assms close on_compaction_blob_closed_def Let_def sy_set_engine_def bk_set_engine_def id)
qed

text \<open>C38: A rolled-back compaction deletes the blob of its destination file, but no mapping is ever taken out of
  the superblock and \<^verbatim>\<open>rebuild_file_info\<close> opens the blob of every mapping whatever its state: after the next
  \<^verbatim>\<open>close\<close> the store cannot be opened any more.\<close>

theorem reopen_fails_on_deleted_blob:
  assumes "en_state (sy_engine s) = EReady" "sy_sb_open s" "sy_super s = Some b" "mgr_idle (bk_mgr (sy_bk s))" "bk_wait (sy_bk s) = []"
    and "store_wf (sy_engine s)" "en_alloc_log (sy_engine s) = Some lg" "lg_holds lg base es"
    and "get_file (sy_engine s) file_id = Some i" "compaction_remove_file True 0 0 file_id s = (ok, s')"
    and "life_works env" "engine_close env s' = (r, s1)"
    and "life_works env2" "le_log_read env2 = (True, lg_page lg)" "fst (am_initialize (le_buffers env2 default_config) (cf_append_buffer_size default_config) (am_new ()))"
    and "list_all (\<lambda>b. \<not> le_blob_opens env2 b) (sy_deleted s')"
    and "engine_open env2 recover (engine_new (en_disk (sy_engine s1)) (sy_areas s1) (sy_super s1)) = (r2, s2)"
  shows "ok \<and> r = KSuccess \<and> r2 = KIoError \<and> en_state (sy_engine s2) = EErrorState"
proof -
  obtain meta fs where rm: "compaction_remove_file True 0 0 file_id s = (True, (sy_set_engine ((sy_engine s)\<lparr>en_files := fs, en_meta := meta\<rparr>) s)
      \<lparr>sy_deleted := sy_deleted s @ [fi_blob_id (en_files (sy_engine s) ! i)]\<rparr>)"
    "map fi_mapping fs = map fi_mapping (en_files (sy_engine s))"
    by (rule remove_file_effect [OF assms(9)])
  let ?e = "(sy_engine s)\<lparr>en_files := fs, en_meta := meta, en_state := EClosing\<rparr>"
  have s': "ok" "sy_engine s' = (sy_engine s)\<lparr>en_files := fs, en_meta := meta\<rparr>" "sy_sb_open s'" "sy_super s' = Some b"
    "bk_mgr (sy_bk s') = bk_mgr (sy_bk s)" "bk_wait (sy_bk s') = []" "fi_blob_id (en_files (sy_engine s) ! i) \<in> set (sy_deleted s')"
    using rm(1) assms(2,3,5,10) by (auto simp: sy_set_engine_def bk_set_engine_def)
  have ready: "en_state (sy_engine s') = EReady" using s'(2) assms(1) by simp
  have closing: "?e = bk_engine (close_buffers (le_io env) (sy_bk s'))"
    using close_idle [of "sy_bk s'", OF _ s'(6) ready] s'(2,5) assms(4) by simp
  have "map fm_file_id (map fi_mapping fs) = map fm_file_id (map fi_mapping (en_files (sy_engine s)))" by (simp only: rm(2))
  then have ids: "map fi_file_id fs = map fi_file_id (en_files (sy_engine s))" by (simp add: comp_def fi_mapping_def)
  then have wf: "store_wf ?e" using assms(6) by (simp add: store_wf_def)
  have lg: "en_alloc_log ?e = Some lg" using assms(7) by simp
  obtain lg2 s3 where load: "r = KSuccess" "load_existing env2 recover (sy_set_state EOpening (engine_new (en_disk (sy_engine s1)) (sy_areas s1) (sy_super s1)))
      = load_files env2 recover s3" "sy_engine s3 = opening_engine default_config (en_disk ?e) (closed_superblock ?e) lg2"
    by (rule close_then_open [OF ready s'(3,4) closing wf lg assms(8,11-15), of recover])
  have i: "i < length (en_files (sy_engine s))" using assms(9) by (auto simp: get_file_def find_file_Some)
  have "fi_mapping (en_files (sy_engine s) ! i) \<in> set (map fi_mapping fs)" unfolding rm(2) using i by simp
  moreover have "\<not> le_blob_opens env2 (fm_blob_id (fi_mapping (en_files (sy_engine s) ! i)))"
    using s'(7) assms(16) by (auto simp: list_all_iff fi_mapping_def)
  ultimately have "\<not> list_all (\<lambda>m. le_blob_opens env2 (fm_blob_id m)) (sb_file_mappings (closed_superblock ?e))"
    unfolding closed_superblock_fields(1) [OF wf] by (auto simp: list_all_iff)
  from open_missing_blob [OF load(3) assms(13) this] obtain s4 where s4: "load_files env2 recover s3 = (KIoError, s4)" by blast
  have "en_state (sy_engine (engine_new d areas super)) = EUninitialized" for d areas super
    by (simp add: engine_new_def bk_start_def ak_start_def)
  then show ?thesis
    using assms(17) load(1,2) s4 s'(1) by (auto simp: engine_open_def sy_set_state_def sy_set_engine_def bk_set_engine_def)
qed

theorem reopen_fails_on_deleted_blob_witness:
  "\<exists>s0 s s1. engine_create demo_life demo_config (engine_new (\<lambda>_ _. 0) \<lparr>sd_primary = [], sd_backup = []\<rparr> None) = (KSuccess, s0)
     \<and> compaction_remove_file True 0 0 0 s0 = (True, s) \<and> engine_close demo_life s = (KSuccess, s1)
     \<and> fst (engine_open ((demo_restart (sy_engine s0) s1)\<lparr>le_blob_opens := (\<lambda>b. b \<notin> set (sy_deleted s))\<rparr>) True
              (engine_new (en_disk (sy_engine s1)) (sy_areas s1) (sy_super s1))) = KIoError"
proof -
  obtain s0 where s0: "engine_create demo_life demo_config (engine_new (\<lambda>_ _. 0) \<lparr>sd_primary = [], sd_backup = []\<rparr> None) = (KSuccess, s0)"
    "fresh_store demo_config 78 (sy_engine s0)" "sy_super s0 = Some 1" "sy_sb_open s0" "mgr_idle (bk_mgr (sy_bk s0))" "bk_wait (sy_bk s0) = []"
    by (rule create_store [OF demo_life_works(1,5,6)])
  obtain ok s where rm: "compaction_remove_file True 0 0 0 s0 = (ok, s)" by fastforce
  obtain r s1 where close: "engine_close demo_life s = (r, s1)" by fastforce
  let ?env = "(demo_restart (sy_engine s0) s1)\<lparr>le_blob_opens := (\<lambda>b. b \<notin> set (sy_deleted s))\<rparr>"
  obtain r2 s2 where run: "engine_open ?env True (engine_new (en_disk (sy_engine s1)) (sy_areas s1) (sy_super s1)) = (r2, s2)"
    by fastforce
  have e: "en_state (sy_engine s0) = EReady" "store_wf (sy_engine s0)" "get_file (sy_engine s0) 0 = Some 0"
    using s0(2) by (simp_all add: fresh_store_def get_file_def first_file_def new_file_info_def)
  obtain lg x where lg: "en_alloc_log (sy_engine s0) = Some lg" "lg_holds lg 0 [x]" using s0(2) by (auto simp: fresh_store_def)
  have env: "life_works ?env" "le_log_read ?env = (True, lg_page lg)" "list_all (\<lambda>b. \<not> le_blob_opens ?env b) (sy_deleted s)"
    using demo_life_works(3) lg(1) by (simp_all add: life_works_def demo_restart_def list_all_iff)
  have buf: "fst (am_initialize (le_buffers ?env default_config) (cf_append_buffer_size default_config) (am_new ()))"
    using demo_life_works(4) by (simp add: le_buffers_def)
  from reopen_fails_on_deleted_blob [OF e(1) s0(4,3,5,6) e(2) lg e(3) rm demo_life_works(2) close env(1,2) buf env(3) run]
  show ?thesis using s0(1) rm close run by auto
qed

end
