(* ===== verification/KvStoreWf.thy ===== *)
theory KvStoreWf
  imports KvReopen
begin

text \<open>
  The superblock that an engine keeps in memory follows its files: every allocation adds the mapping of the
  new file, a failed one leaves files and mappings as they were.
\<close>

section \<open>The superblock knows every file\<close>

text \<open>The identity of a file does not change while its blob is allocated and opened.\<close>

lemma map_id_update:
  "fi_file_id (g (en_files e ! i)) = fi_file_id (en_files e ! i) \<Longrightarrow>
   map fi_file_id (en_files (en_update_file i g e)) = map fi_file_id (en_files e)"
  by (cases "i < length (en_files e)") (simp_all add: en_update_file_def map_update list_update_same_conv list_update_beyond)

definition same_files :: "kv_engine \<Rightarrow> kv_engine \<Rightarrow> bool" where
  "same_files e e' \<longleftrightarrow> map fi_file_id (en_files e') = map fi_file_id (en_files e) \<and> en_superblock e' = en_superblock e
     \<and> en_data_file_size e' = en_data_file_size e \<and> en_next_file_id e' = en_next_file_id e"

lemma same_files_refl: "same_files e e"
  by (simp add: same_files_def)

lemma same_files_trans: "same_files a b \<Longrightarrow> same_files b c \<Longrightarrow> same_files a c"
  by (simp add: same_files_def)

lemma same_files_update: "(\<And>f. fi_file_id (g f) = fi_file_id f) \<Longrightarrow> same_files e (en_update_file i g e)"
  by (simp add: same_files_def map_id_update) (simp add: en_update_file_def)

lemma handle_blob_opened_files: "same_files e (snd (handle_blob_opened env i e))"
proof -
  have "same_files e (en_update_file i (fi_blob_opened_update (\<lambda>_. True)) e)" by (rule same_files_update) simp
  then show ?thesis by (simp add: handle_blob_opened_def Let_def same_files_refl split: prod.split) (simp add: same_files_def)
qed

lemma allocate_blob_files: "same_files e (snd (allocate_blob_for_file env i e))"
proof -
  have "same_files e (en_update_file i (fi_blob_id_update (\<lambda>_. b)) e)" for b by (rule same_files_update) simp
  moreover have "same_files x (y\<lparr>en_alloc_log := lg\<rparr>) = same_files x y" for x y lg by (simp add: same_files_def)
  moreover have "same_files x y \<Longrightarrow> same_files x (snd (open_blob_for_file env i y))" for x y
    using handle_blob_opened_files same_files_trans by (auto simp: open_blob_for_file_def)
  ultimately show ?thesis
    by (simp add: allocate_blob_for_file_def on_blob_allocated_def Let_def same_files_refl split: option.split prod.split lg_outcome.split)
qed

lemma allocate_new_file_wf:
  assumes "store_wf e" "files_ok e" "env_ok env e" "allocate_new_file env e = (q, e')"
  shows "store_wf e'"
proof -
  let ?e = "push_new_file e" and ?i = "length (en_files e)"
  obtain ok e1 where alloc: "allocate_blob_for_file env ?i ?e = (ok, e1)" by fastforce
  have same: "same_files ?e e1" using allocate_blob_files [of ?e env ?i] alloc by simp
  then have ids: "map fi_file_id (en_files e1) = map fi_file_id (en_files e) @ [en_next_file_id e]" "en_superblock e1 = en_superblock e"
    "en_data_file_size e1 = en_data_file_size e"
    by (auto simp: same_files_def push_new_file_def new_file_info_def)
  have len1: "length (en_files e1) = Suc ?i" using arg_cong [OF ids(1), of length] by simp
  have fresh: "en_next_file_id e \<notin> set (map fi_file_id (en_files e))" using assms(2) by (auto simp: files_ok_def)
  have len: "?i < 1024"
  proof -
    have "distinct (map (unat \<circ> fi_file_id) (en_files e))" "set (map (unat \<circ> fi_file_id) (en_files e)) \<subseteq> {..<unat (en_next_file_id e)}"
      using assms(2) by (auto simp: files_ok_def word_less_nat_alt distinct_map inj_on_def word_unat_eq_iff)
    then have "?i \<le> unat (en_next_file_id e)"
      using card_mono [of "{..<unat (en_next_file_id e)}"] distinct_card by (metis card_lessThan finite_lessThan length_map)
    then show ?thesis using assms(3) by (simp add: env_ok_def)
  qed
  have run: "allocate_new_file env e = (if ok then (Some ?i, init_file_metadata (en_files e1 ! ?i) e1) else (None, pop_new_file e1))"
    using assms(3) alloc by (simp add: allocate_new_file_def env_ok_def Let_def push_new_file_def)
  show ?thesis
  proof (cases ok)
    case False
    then have "e' = pop_new_file e1" using run assms(4) by simp
    then show ?thesis using ids assms(1) by (simp add: store_wf_def pop_new_file_def map_butlast)
  next
    case True
    let ?f = "en_files e1 ! ?i"
    have id: "fi_file_id ?f = en_next_file_id e"
      using ids(1) len1 by (metis length_map lessI nth_append_length nth_map)
    have maps: "fm_file_id ` set (sb_file_mappings (en_superblock e)) = set (map fi_file_id (en_files e))"
      "length (sb_file_mappings (en_superblock e)) = ?i"
      using assms(1) by (metis store_wf_def set_map) (metis assms(1) store_wf_def length_map)
    moreover have "update_mapping ?f ms = None" if "fi_file_id ?f \<notin> fm_file_id ` set ms" for ms
      using that by (induction ms) auto
    ultimately have "update_superblock_file_mapping (Some ?f) (en_superblock e)
        = (en_superblock e)\<lparr>sb_file_mappings := sb_file_mappings (en_superblock e) @ [fi_mapping ?f]\<rparr>"
      using fresh id len by (simp add: update_superblock_file_mapping_def kMaxFileCount_def)
    then have "en_superblock e' = (en_superblock e)\<lparr>sb_file_mappings := sb_file_mappings (en_superblock e) @ [fi_mapping ?f]\<rparr>"
      "en_files e' = en_files e1" "en_data_file_size e' = en_data_file_size e"
      using True run assms(4) ids(2,3) by (auto simp: init_file_metadata_def Let_def)
    then show ?thesis using assms(1) ids(1) id fresh len maps(2)
      by (auto simp: store_wf_def superblock_is_valid_def sb_fits_def kMaxFileCount_def fi_mapping_def)
  qed
qed

lemma store_wf_same: "same_files e e' \<Longrightarrow> store_wf e \<Longrightarrow> store_wf e'"
  by (simp add: store_wf_def same_files_def)

lemma file_for_write_wf:
  assumes "store_wf e" "kv_inv e" "env_ok env e" "file_for_write env sz e = (q, e')"
  shows "store_wf e'"
proof -
  define e0 where "e0 = (case get_active_file e of None \<Rightarrow> e | Some i \<Rightarrow> en_update_file i (\<lambda>f. f\<lparr>fi_state := FSealed\<rparr>) e)"
  have "files_ok e0 \<and> env_ok env e0" using seal_active_spec [OF _ assms(3) e0_def] assms(2) by (simp add: kv_inv_def)
  moreover have "store_wf e0"
    by (rule store_wf_same [OF _ assms(1)]) (simp add: e0_def same_files_refl same_files_update split: option.split)
  ultimately have new: "store_wf e1" if "allocate_new_file env e0 = (r, e1)" for r e1 using allocate_new_file_wf that by blast
  have act: "store_wf (e1\<lparr>en_active_file_id := i\<rparr>) = store_wf e1" for e1 i by (simp add: store_wf_def)
  obtain r e1 where r: "allocate_new_file env e0 = (r, e1)" by fastforce
  then show ?thesis
    using assms(1,4) new [OF r] act
    by (auto simp: file_for_write_def Let_def e0_def [symmetric] split: if_splits option.splits)
qed

lemma same_files_write:
  "same_files e (e\<lparr>en_index := idx, en_disk := d\<rparr>)"
  "same_files e (advance_file i sz (index_written key m (e\<lparr>en_index := idx, en_disk := d\<rparr>)))"
  "same_files e (advance_file i sz (e\<lparr>en_disk := d, en_index := idx, en_total_garbage := g\<rparr>))"
proof -
  have upd: "same_files e (en_update_file i (advanced sz) e)" by (rule same_files_update) (simp add: advanced_def)
  then show "same_files e (e\<lparr>en_index := idx, en_disk := d\<rparr>)"
    "same_files e (advance_file i sz (index_written key m (e\<lparr>en_index := idx, en_disk := d\<rparr>)))"
    "same_files e (advance_file i sz (e\<lparr>en_disk := d, en_index := idx, en_total_garbage := g\<rparr>))"
    by (simp_all add: index_written_advance) (simp_all add: advance_file_alt same_files_def en_update_file_def)
qed

text \<open>C17: The superblock in memory stays well-formed, whatever a call does and returns: valid, within its
  arrays, with one mapping for each file of the engine in the same order. This is what \<^verbatim>\<open>close\<close> needs to
  write an image from which \<^verbatim>\<open>open\<close> finds every file.\<close>

theorem superblock_tracks_files:
  assumes "store_wf e" "kv_inv e" "env_ok env e"
  shows "store_wf (snd (kv_put env key v len e)) \<and> store_wf (snd (kv_del env key e))"
proof -
  note writes = same_files_write [THEN store_wf_same]
  have target: "store_wf e1" if "file_for_write env sz e = (q, e1)" for sz q e1
    by (rule file_for_write_wf [OF assms that])
  show ?thesis
    using assms(1) unfolding kv_put_def kv_del_def Let_def
    by (auto intro: writes target split: option.split prod.split)
qed

definition demo_tracked :: kv_engine where
  "demo_tracked = demo_store\<lparr>en_superblock := sb_demo\<lparr>sb_data_file_size := 1048576,
     sb_file_mappings := [fi_mapping (en_files demo_store ! 0)]\<rparr>\<rparr>"

theorem superblock_tracks_files_witness:
  "store_wf (snd (kv_put demo_io 5 (Some [1, 2, 3]) 3 demo_tracked)) \<and> store_wf (snd (kv_del demo_io 5 demo_tracked))"
proof -
  have "kv_inv demo_tracked" using demo_store_ok(1)
    by (simp add: demo_tracked_def kv_inv_def files_ok_def get_active_file_def get_file_def)
  moreover have "env_ok demo_io demo_tracked" using demo_store_ok(2)
    by (simp add: demo_tracked_def env_ok_def alloc_log_near_full_def)
  moreover have "store_wf demo_tracked"
    using sb_demo_ok by (simp add: demo_tracked_def store_wf_def superblock_is_valid_def sb_fits_def kMaxFileCount_def)
      (simp add: demo_store_def fi_mapping_def)
  ultimately show ?thesis using superblock_tracks_files [of demo_tracked demo_io 5 "Some [1, 2, 3]" 3] 
      superblock_tracks_files [of demo_tracked demo_io 5 None 0] by simp
qed

end
