(* ===== verification/KvRuns.thy ===== *)
theory KvRuns
  imports KvEngineSpec
begin

text \<open>
  Whole runs. A locale states once what a simulation gives for any sequence of calls; the engine's
  synchronous operations are an instance of it. The second part says what a call leaves alone, which
  is what the compaction that runs between the calls relies on.
\<close>

section \<open>Simulations\<close>

text \<open>A run of a step function with outputs, as the list of its events and results, and the final state.\<close>

primrec sim_run :: "('ev \<Rightarrow> 's \<Rightarrow> 'r \<times> 's) \<Rightarrow> 'ev list \<Rightarrow> 's \<Rightarrow> ('ev \<times> 'r) list \<times> 's" where
  "sim_run step [] s = ([], s)"
| "sim_run step (ev # evs) s =
     (case step ev s of (r, s) \<Rightarrow> (case sim_run step evs s of (tr, s) \<Rightarrow> ((ev, r) # tr, s)))"

primrec sim_allowed :: "('ev \<Rightarrow> 's \<Rightarrow> bool) \<Rightarrow> ('ev \<Rightarrow> 's \<Rightarrow> 'r \<times> 's) \<Rightarrow> 'ev list \<Rightarrow> 's \<Rightarrow> bool" where
  "sim_allowed allowed step [] s = True"
| "sim_allowed allowed step (ev # evs) s = (allowed ev s \<and> sim_allowed allowed step evs (snd (step ev s)))"

text \<open>The abstract side: every result is one the specification allows, and the state it ends in.\<close>

fun spec_accepts :: "('ev \<Rightarrow> 'r \<Rightarrow> 'a \<Rightarrow> bool) \<Rightarrow> ('ev \<Rightarrow> 'r \<Rightarrow> 'a \<Rightarrow> 'a) \<Rightarrow> ('ev \<times> 'r) list \<Rightarrow> 'a \<Rightarrow> bool" where
  "spec_accepts ok effect [] a = True"
| "spec_accepts ok effect ((ev, r) # tr) a = (ok ev r a \<and> spec_accepts ok effect tr (effect ev r a))"

fun spec_final :: "('ev \<Rightarrow> 'r \<Rightarrow> 'a \<Rightarrow> 'a) \<Rightarrow> ('ev \<times> 'r) list \<Rightarrow> 'a \<Rightarrow> 'a" where
  "spec_final effect [] a = a"
| "spec_final effect ((ev, r) # tr) a = spec_final effect tr (effect ev r a)"

locale simulation =
  fixes allowed :: "'ev \<Rightarrow> 's \<Rightarrow> bool" and step :: "'ev \<Rightarrow> 's \<Rightarrow> 'r \<times> 's"
    and inv :: "'s \<Rightarrow> bool" and abstr :: "'s \<Rightarrow> 'a"
    and ok :: "'ev \<Rightarrow> 'r \<Rightarrow> 'a \<Rightarrow> bool" and effect :: "'ev \<Rightarrow> 'r \<Rightarrow> 'a \<Rightarrow> 'a"
  assumes sim: "inv s \<Longrightarrow> allowed ev s \<Longrightarrow> step ev s = (r, s')
    \<Longrightarrow> inv s' \<and> ok ev r (abstr s) \<and> abstr s' = effect ev r (abstr s)"
begin

theorem run_simulates:
  assumes "inv s" "sim_allowed allowed step evs s" "sim_run step evs s = (tr, s')"
  shows "inv s' \<and> spec_accepts ok effect tr (abstr s) \<and> abstr s' = spec_final effect tr (abstr s)"
  using assms
proof (induction evs arbitrary: s tr)
  case (Cons ev evs)
  obtain r s1 where step: "step ev s = (r, s1)" by fastforce
  obtain tr' where run: "sim_run step evs s1 = (tr', s')" "tr = (ev, r) # tr'"
    using Cons.prems(3) by (auto simp: step split: prod.splits)
  have "inv s1 \<and> ok ev r (abstr s) \<and> abstr s1 = effect ev r (abstr s)"
    using sim [OF Cons.prems(1) _ step] Cons.prems(2) by simp
  then show ?case using Cons.IH [OF _ _ run(1)] Cons.prems(2) by (simp add: step run(2))
qed simp

lemma run_keeps: "inv s \<Longrightarrow> sim_allowed allowed step evs s \<Longrightarrow> inv (snd (sim_run step evs s))"
  using run_simulates [of s evs] by (cases "sim_run step evs s") simp

end

section \<open>The calls and their specification\<close>

datatype kv_call = KvPut io_env u64 "byte list" u32 | KvGet io_env u64 u32 | KvDel io_env u64

datatype kv_result = KvDone kv_error | KvGot kv_error "byte list option" "u32 option"

fun kv_do :: "kv_call \<Rightarrow> kv_engine \<Rightarrow> kv_result \<times> kv_engine" where
  "kv_do (KvPut env key v len) e = (case kv_put env key (Some v) len e of (r, e) \<Rightarrow> (KvDone r, e))"
| "kv_do (KvGet env key buf_len) e = (case kv_get env key True buf_len e of (r, v, n) \<Rightarrow> (KvGot r v n, e))"
| "kv_do (KvDel env key) e = (case kv_del env key e of (r, e) \<Rightarrow> (KvDone r, e))"

text \<open>What a call may assume: fresh blobs and file ids for the writes, a pointer to \<open>len\<close> bytes, an index
  that accepts the key; for a get a device that reads. A write may fail in any way.\<close>

fun kv_call_ok :: "kv_call \<Rightarrow> kv_engine \<Rightarrow> bool" where
  "kv_call_ok (KvPut env key v len) e =
     (env_ok env e \<and> unat len \<le> length v \<and> unat len \<le> kMaxStoredLen
      \<and> index_takes (snd (mi_allocate_sequence (en_index e))) key)"
| "kv_call_ok (KvGet env key buf_len) e = (io_ready env \<and> io_dma env \<and> io_status env = 0 \<and> buf_len \<noteq> 0)"
| "kv_call_ok (KvDel env key) e = env_ok env e"

text \<open>The map: what a call may answer, and what it makes of the map when it answers so.\<close>

fun kv_answer_ok :: "kv_call \<Rightarrow> kv_result \<Rightarrow> (u64 \<Rightarrow> byte list option) \<Rightarrow> bool" where
  "kv_answer_ok (KvGet env key buf_len) (KvGot r v n) a =
     ((r, v, n) = (case a key of None \<Rightarrow> (KKeyNotFound, None, None)
        | Some v \<Rightarrow> if length v > unat buf_len then (KValueTooLarge, None, Some (word_of_nat (length v)))
                   else (KSuccess, Some v, Some (word_of_nat (length v)))))"
| "kv_answer_ok (KvDel env key) (KvDone r) a = (r = KKeyNotFound \<longleftrightarrow> a key = None)"
| "kv_answer_ok (KvPut env key v len) (KvDone r) a = (len = 0 \<longrightarrow> r = KInvalidArgument)"
| "kv_answer_ok _ _ a = False"

fun kv_effect :: "kv_call \<Rightarrow> kv_result \<Rightarrow> (u64 \<Rightarrow> byte list option) \<Rightarrow> u64 \<Rightarrow> byte list option" where
  "kv_effect (KvPut env key v len) (KvDone r) a = (if r = KSuccess then a(key \<mapsto> take (unat len) v) else a)"
| "kv_effect (KvDel env key) (KvDone r) a = (if r = KSuccess then a(key := None) else a)"
| "kv_effect _ _ a = a"

definition kv_serving :: "kv_engine \<Rightarrow> bool" where
  "kv_serving e \<longleftrightarrow> kv_inv e \<and> en_state e = EReady"

section \<open>What a call leaves alone\<close>

definition file_of :: "kv_engine \<Rightarrow> u16 \<Rightarrow> file_info option" where
  "file_of e i = map_option (nth (en_files e)) (get_file e i)"

text \<open>A call lets the store grow; of the files that are not the active one, and of their blobs, it changes
  nothing, and none of them becomes the active one.\<close>

definition call_frame :: "kv_engine \<Rightarrow> kv_engine \<Rightarrow> bool" where
  "call_frame e e' \<longleftrightarrow> store_grows (en_files e) (en_disk e) (en_files e') (en_disk e') \<and> en_state e' = en_state e
     \<and> en_data_file_size e' = en_data_file_size e \<and> en_next_file_id e \<le> en_next_file_id e'
     \<and> (en_active_file_id e < en_next_file_id e \<longrightarrow> en_active_file_id e' < en_next_file_id e')
     \<and> (\<forall>i f. i \<noteq> en_active_file_id e \<longrightarrow> i < en_next_file_id e \<longrightarrow> file_of e i = Some f \<longrightarrow>
          i \<noteq> en_active_file_id e' \<and> file_of e' i = Some f \<and> en_disk e' (fi_blob_id f) = en_disk e (fi_blob_id f))"

text \<open>The index entries it makes point into the active file.\<close>

definition index_frame :: "kv_engine \<Rightarrow> kv_engine \<Rightarrow> bool" where
  "index_frame e e' \<longleftrightarrow> (\<forall>x m. mi_lookup (en_index e') x = Some m \<longrightarrow>
     mi_lookup (en_index e) x = Some m \<or> ucast (me_file_id m) = en_active_file_id e')"

lemma frame_refl: "call_frame e e" "index_frame e e"
  by (simp_all add: call_frame_def index_frame_def store_grows_refl)

lemma frame_trans:
  assumes "call_frame e e1" "call_frame e1 e2"
  shows "call_frame e e2"
proof -
  note f = assms [unfolded call_frame_def]
  have "store_grows (en_files e) (en_disk e) (en_files e2) (en_disk e2)" using f store_grows_trans by blast
  moreover have "i \<noteq> en_active_file_id e2 \<and> file_of e2 i = Some f \<and> en_disk e2 (fi_blob_id f) = en_disk e (fi_blob_id f)"
    if i: "i \<noteq> en_active_file_id e" "i < en_next_file_id e" "file_of e i = Some f" for i f
  proof -
    from i f have e1: "i \<noteq> en_active_file_id e1" "file_of e1 i = Some f" "en_disk e1 (fi_blob_id f) = en_disk e (fi_blob_id f)"
      by simp_all
    moreover have "i < en_next_file_id e1" using i(2) f by (blast intro: order_less_le_trans)
    ultimately show ?thesis using f(2) by simp
  qed
  moreover have "en_next_file_id e \<le> en_next_file_id e2" using f by (blast intro: order_trans)
  ultimately show ?thesis using f unfolding call_frame_def by simp
qed

lemma file_of_Some:
  "file_of e i = Some f \<longleftrightarrow> (\<exists>j. find_file (en_files e) i = Some j \<and> en_files e ! j = f)"
  by (auto simp: file_of_def get_file_def)

lemma file_of_member: "file_of e i = Some f \<Longrightarrow> f \<in> set (en_files e) \<and> fi_file_id f = i"
  by (auto simp: file_of_Some find_file_Some)

lemma find_file_None: "find_file fs i = None \<longleftrightarrow> i \<notin> fi_file_id ` set fs"
  by (induction fs) auto

lemma file_of_nth: "files_ok e \<Longrightarrow> j < length (en_files e) \<Longrightarrow> file_of e (fi_file_id (en_files e ! j)) = Some (en_files e ! j)"
  using find_file_nth [of "en_files e" j] by (simp add: files_ok_def file_of_def get_file_def)

lemma file_of_blob:
  "files_ok e \<Longrightarrow> file_of e i = Some f \<Longrightarrow> g \<in> set (en_files e) \<Longrightarrow> fi_file_id g \<noteq> i \<Longrightarrow> fi_blob_id g \<noteq> fi_blob_id f"
  by (frule file_of_member) (auto simp: files_ok_def distinct_map inj_on_def)

lemma find_file_update:
  assumes "fi_file_id g = fi_file_id (fs ! j)"
  shows "find_file (fs[j := g]) i = find_file fs i"
proof -
  have "fi_file_id (fs[j := g] ! k) = fi_file_id (fs ! k)" for k
    using assms by (cases "j < length fs"; cases "k = j") (simp_all add: list_update_beyond)
  then have "find_file (fs[j := g]) i = Some k \<longleftrightarrow> find_file fs i = Some k" for k
    by (simp add: find_file_Some)
  then show ?thesis by (metis not_Some_eq)
qed

lemma file_of_update:
  assumes "fi_file_id (g (en_files e ! j)) = fi_file_id (en_files e ! j)" "i \<noteq> fi_file_id (en_files e ! j)"
  shows "file_of (en_update_file j g e) i = file_of e i"
proof -
  have "k \<noteq> j" if "find_file (en_files e) i = Some k" for k using that assms(2) by (auto simp: find_file_Some)
  then show ?thesis
    using find_file_update [of "g (en_files e ! j)" "en_files e" j i] assms(1)
    by (cases "find_file (en_files e) i") (auto simp: file_of_def get_file_def en_update_file_def)
qed

lemma allocate_frame:
  assumes "files_ok e" "env_ok env e" "allocate_new_file env e = (r, e')"
  shows "call_frame e e'"
proof -
  note res = allocate_new_file_result [OF assms(2,3), unfolded alloc_result_def]
  have nxt: "unat (en_next_file_id e + 1) = unat (en_next_file_id e) + 1"
    using assms(2) by (subst unat_plus_small) (auto simp: env_ok_def)
  have keep: "file_of e' i = Some f \<and> en_disk e' (fi_blob_id f) = en_disk e (fi_blob_id f)" if f: "file_of e i = Some f" for i f
  proof -
    have "Some (fi_blob_id f) \<noteq> io_blob env" using file_of_member [OF f] assms(2) by (force simp: env_ok_def)
    moreover have "file_of e' i = Some f"
      using f res by (auto simp: file_of_Some find_file_Some nth_append split: option.splits)
    ultimately show ?thesis using res by simp
  qed
  moreover have "store_grows (en_files e) (en_disk e) (en_files e') (en_disk e')"
    using allocate_new_file_spec [OF assms] by simp
  moreover have "en_next_file_id e \<le> en_next_file_id e'"
    using res nxt by (cases r) (auto simp: word_le_nat_alt)
  ultimately show ?thesis using res by (simp add: call_frame_def order_less_le_trans)
qed

text \<open>A change of the active file.\<close>

lemma update_frame:
  assumes "j < length (en_files e)" "fi_file_id (en_files e ! j) = en_active_file_id e"
    and "\<And>f. fi_file_id (g f) = fi_file_id f" "file_grows (en_disk e) (en_disk e) (en_files e ! j) (g (en_files e ! j))"
  shows "call_frame e (en_update_file j g e)"
proof -
  have "store_grows (en_files e) (en_disk e) ((en_files e)[j := g (en_files e ! j)]) (en_disk e)"
    by (rule update_grows [OF assms(1,4) file_grows_refl])
  then show ?thesis using file_of_update [of g e j] assms(2,3)
    by (simp add: call_frame_def) (simp add: en_update_file_def)
qed

lemma active_file: "get_active_file e = Some j \<Longrightarrow> j < length (en_files e) \<and> fi_file_id (en_files e ! j) = en_active_file_id e"
  by (simp add: get_active_file_def get_file_def find_file_Some)

definition seal_active :: "kv_engine \<Rightarrow> kv_engine" where
  "seal_active e = (case get_active_file e of None \<Rightarrow> e | Some i \<Rightarrow> en_update_file i (\<lambda>f. f\<lparr>fi_state := FSealed\<rparr>) e)"

lemma file_for_write_cases:
  obtains "file_for_write env sz e = (get_active_file e, e)"
  | q e1 where "allocate_new_file env (seal_active e) = (q, e1)" "file_for_write env sz e
      = (q, case q of None \<Rightarrow> e1 | Some i \<Rightarrow> e1\<lparr>en_active_file_id := fi_file_id (en_files e1 ! i)\<rparr>)"
proof -
  obtain q e1 where al: "allocate_new_file env (seal_active e) = (q, e1)" by fastforce
  then have "file_for_write env sz e = (get_active_file e, e) \<or> file_for_write env sz e
      = (q, case q of None \<Rightarrow> e1 | Some i \<Rightarrow> e1\<lparr>en_active_file_id := fi_file_id (en_files e1 ! i)\<rparr>)"
    unfolding file_for_write_def Let_def seal_active_def by (simp only: al split: if_split) (auto split: option.split)
  with al that show thesis by blast
qed

lemma file_for_write_frame:
  assumes "files_ok e" "env_ok env e" "file_for_write env sz e = (r, e')"
  shows "call_frame e e' \<and> (\<forall>j. r = Some j \<longrightarrow> j < length (en_files e') \<and> fi_file_id (en_files e' ! j) = en_active_file_id e')"
proof -
  define e0 where "e0 = seal_active e"
  have e0: "files_ok e0 \<and> env_ok env e0" using seal_active_spec [OF assms(1,2)] by (simp add: e0_def seal_active_def)
  have fr: "call_frame e e0"
    using active_file [of e]
    by (auto simp: e0_def seal_active_def frame_refl file_grows_def file_state_readable_def intro!: update_frame split: option.split)
  show ?thesis
  proof (cases rule: file_for_write_cases [of env sz e])
    case 1
    then show ?thesis using active_file [of e] assms(3) by (simp add: frame_refl)
  next
    case (2 q e1)
    note al = 2(1) [folded e0_def]
    have fr2: "call_frame e e1" using frame_trans [OF fr allocate_frame [OF _ _ al]] e0 by blast
    have res: "alloc_result env e0 q e1" using allocate_new_file_result [OF _ al] e0 by blast
    have run: "r = q" "e' = (case q of None \<Rightarrow> e1 | Some i \<Rightarrow> e1\<lparr>en_active_file_id := fi_file_id (en_files e1 ! i)\<rparr>)"
      using assms(3) 2(2) by auto
    show ?thesis
    proof (cases q)
      case None
      then show ?thesis using run fr2 by simp
    next
      case (Some j)
      from Some res have j: "j < length (en_files e1)" "fi_file_id (en_files e1 ! j) = en_next_file_id e0"
        "en_next_file_id e1 = en_next_file_id e0 + 1"
        by (auto simp: alloc_result_def)
      have nxt: "en_next_file_id e0 < en_next_file_id e1"
        using e0 unfolding j(3) env_ok_def word_less_nat_alt by (subst unat_plus_small) auto
      have "en_next_file_id e \<le> en_next_file_id e0" using fr by (simp add: call_frame_def)
      then have "i < en_next_file_id e \<Longrightarrow> i \<noteq> en_next_file_id e0" for i by auto
      then have "call_frame e (e1\<lparr>en_active_file_id := en_next_file_id e0\<rparr>)"
        using fr2 nxt by (simp add: call_frame_def file_of_def get_file_def)
      then show ?thesis using run Some j by simp
    qed
  qed
qed

text \<open>The write of an entry at the end of the active file, and the file's advance over it.\<close>

lemma frame_index: "call_frame e (e'\<lparr>en_index := idx, en_total_garbage := g\<rparr>) = call_frame e e'"
  by (simp add: call_frame_def file_of_def get_file_def)

lemma append_frame:
  assumes "files_ok e" "j < length (en_files e)" "fi_file_id (en_files e ! j) = en_active_file_id e"
    and "submit_write ready status torn (en_files e ! j) (unat (fi_write_offset (en_files e ! j))) data (en_disk e) = (r, d)"
  shows "call_frame e (e\<lparr>en_index := idx, en_disk := d\<rparr>)"
proof -
  have "d (fi_blob_id f) = en_disk e (fi_blob_id f)" if "file_of e i = Some f" "i \<noteq> en_active_file_id e" for i f
    using file_of_blob [OF assms(1) that(1) nth_mem [OF assms(2)]] assms(3,4) that(2)
    by (auto simp: submit_write_def disk_write_other split: if_splits)
  then show ?thesis
    using submit_write_grows(1) [OF assms(1,2,4)] by (simp add: call_frame_def file_of_def get_file_def)
qed

lemma advance_frame:
  assumes "j < length (en_files e)" "fi_file_id (en_files e ! j) = en_active_file_id e"
    and "unat (fi_write_offset (en_files e ! j)) + unat sz \<le> 2 ^ 33"
  shows "call_frame e (advance_file j sz e)"
proof -
  have "call_frame e (en_update_file j (advanced sz) e)"
    using advanced_offset [OF assms(3)] by (intro update_frame assms) (simp_all add: file_grows_def, simp_all add: advanced_def)
  then show ?thesis by (simp add: advance_file_alt call_frame_def file_of_def get_file_def)
qed

lemma write_frame:
  assumes "files_ok e" "j < length (en_files e)" "fi_file_id (en_files e ! j) = en_active_file_id e" "f = en_files e ! j"
    and "submit_write ready status torn f (unat (fi_write_offset f)) data (en_disk e) = (r, d)"
    and "unat (fi_write_offset f) + unat sz \<le> 2 ^ 33"
  shows "call_frame e (advance_file j sz (e\<lparr>en_index := idx, en_disk := d\<rparr>))"
  using frame_trans [OF append_frame [OF assms(1-3) assms(5) [unfolded assms(4)]] advance_frame] assms by simp

lemma lookup_allocated: "mi_allocate_sequence m = (seq, idx) \<Longrightarrow> mi_lookup idx x = mi_lookup m x"
  by (auto simp: mi_lookup_def mi_allocate_sequence_def Let_def find_same [OF same_keys_sequence])

lemma inv_allocated: "mi_allocate_sequence m = (seq, idx) \<Longrightarrow> mi_inv m \<Longrightarrow> mi_inv idx"
  by (auto simp: mi_allocate_sequence_def Let_def mi_inv_sequence)

lemma written_file_id:
  assumes "files_ok e" "j < length (en_files e)" "f = en_files e ! j"
  shows "ucast (me_file_id (written_entry key f off sz seq)) = fi_file_id f"
proof -
  have "fi_file_id f < en_next_file_id e" "unat (en_next_file_id e) \<le> 1024" using assms by (auto simp: files_ok_def)
  then have "unat (fi_file_id f) < 1024" by (simp add: word_less_nat_alt)
  then show ?thesis by (intro word_unat_eq_iff [THEN iffD2]) (simp add: written_entry_def ucast_small)
qed

lemma kv_put_frame:
  assumes "kv_inv e" "env_ok env e" "kv_put env key (Some v) len e = (r, e')" "unat len \<le> kMaxStoredLen"
    and "index_takes (snd (mi_allocate_sequence (en_index e))) key"
  shows "call_frame e e' \<and> index_frame e e'"
proof (cases "en_state e \<noteq> EReady \<or> len = 0")
  case True
  then show ?thesis using assms(3) kv_put_rejected [OF True] by (simp add: frame_refl split: if_splits)
next
  case False
  let ?sz = "kv_entry_size len"
  have ok: "files_ok e" using assms(1) by (simp add: kv_inv_def)
  obtain q e1 where fw: "file_for_write env ?sz e = (q, e1)" by fastforce
  note e1 = file_for_write_spec [OF assms(1,2) fw kv_entry_size_stored [OF assms(4)]]
  note fr1 = file_for_write_frame [OF ok assms(2) fw]
  have idx1: "index_frame e e1" using e1 by (simp add: index_frame_def)
  show ?thesis
  proof (cases "q = None \<or> \<not> io_dma env")
    case True
    then show ?thesis using fr1 idx1 False assms(3) kv_put_no_room [OF _ _ fw True] by (simp split: if_splits)
  next
    case dma: False
    then obtain j where q: "q = Some j" by auto
    define f where "f = en_files e1 ! j"
    have "kv_inv e1" using e1 by blast
    then have ok1: "files_ok e1" "mi_inv (en_index e1)" unfolding kv_inv_def by blast+
    have j: "j < length (en_files e1)" "fi_file_id (en_files e1 ! j) = en_active_file_id e1"
      "unat (fi_write_offset f) + unat ?sz \<le> 2 ^ 33" using e1 fr1 q by (simp_all add: f_def)
    obtain seq idx where al: "mi_allocate_sequence (en_index e1) = (seq, idx)" by fastforce
    define img where "img = build_entry_inplace key (Some v) len seq False"
    obtain status d where w: "submit_write (io_ready env) (io_status env) (io_torn env) f
        (unat (fi_write_offset f)) img (en_disk e1) = (status, d)" by fastforce
    note run = kv_put_writes [OF _ _ fw [unfolded q] _ al f_def w [unfolded img_def]]
    define m where "m = written_entry key f (fi_write_offset f) ?sz seq"
    have m: "ucast (me_file_id m) = en_active_file_id e1"
      using written_file_id [OF ok1(1) j(1) f_def] j(2) by (simp add: m_def f_def)
    have up: "mi_lookup (snd (mi_upsert idx key m)) x = (if x = key then Some m else mi_lookup idx x)" for x
      using index_takes_lookup [of idx key m x] inv_allocated [OF al ok1(2)] assms(5) al e1
      by (auto simp: m_def written_entry_def mi_allocate_sequence_def Let_def)
    have e': "e' = (if status \<noteq> 0 then e1\<lparr>en_index := idx, en_disk := d\<rparr>
        else advance_file j ?sz (index_written key m (e1\<lparr>en_index := idx, en_disk := d\<rparr>)))"
      using run False dma assms(3) by (auto simp: m_def split: if_splits)
    have "call_frame e1 e'"
      using append_frame [OF ok1(1) j(1,2) w [unfolded f_def]] write_frame [OF ok1(1) j(1,2) f_def w j(3)]
      by (simp add: e' index_written_advance frame_index)
    moreover have "en_active_file_id e' = en_active_file_id e1"
      by (simp add: e' index_written_advance) (simp add: advance_file_alt en_update_file_def)
    moreover have "mi_lookup (en_index e') x = (if status = 0 \<and> x = key then Some m else mi_lookup (en_index e) x)" for x
      using e1 by (simp add: e' index_written_advance up lookup_allocated [OF al])
    ultimately have "call_frame e1 e'" "index_frame e e'" using m by (auto simp: index_frame_def)
    then show ?thesis using frame_trans fr1 by blast
  qed
qed

lemma kv_del_frame:
  assumes "kv_inv e" "env_ok env e" "kv_del env key e = (r, e')"
  shows "call_frame e e' \<and> index_frame e e'"
proof (cases "en_state e \<noteq> EReady \<or> mi_lookup (en_index e) key = None")
  case True
  then show ?thesis using assms(3) by (auto simp: kv_del_def frame_refl split: if_splits)
next
  case False
  then obtain old where old: "mi_lookup (en_index e) key = Some old" and ready: "en_state e = EReady" by auto
  let ?sz = "kv_entry_size 0"
  have ok: "files_ok e" using assms(1) by (simp add: kv_inv_def)
  obtain q e1 where fw: "file_for_write env ?sz e = (q, e1)" by fastforce
  note e1 = file_for_write_spec [OF assms(1,2) fw kv_entry_size_stored, simplified]
  note fr1 = file_for_write_frame [OF ok assms(2) fw]
  have idx1: "index_frame e e1" using e1 by (simp add: index_frame_def)
  show ?thesis
  proof (cases "q = None \<or> \<not> io_dma env")
    case True
    then show ?thesis using fr1 idx1 assms(3) kv_del_no_room [OF ready old fw True] by (simp split: if_splits)
  next
    case dma: False
    then obtain j where q: "q = Some j" by auto
    define f where "f = en_files e1 ! j"
    have "kv_inv e1" using e1 by blast
    then have ok1: "files_ok e1" "mi_inv (en_index e1)" unfolding kv_inv_def by blast+
    have j: "j < length (en_files e1)" "fi_file_id (en_files e1 ! j) = en_active_file_id e1"
      "unat (fi_write_offset f) + unat ?sz \<le> 2 ^ 33" using e1 fr1 q by (simp_all add: f_def)
    obtain seq idx where al: "mi_allocate_sequence (en_index e1) = (seq, idx)" by fastforce
    obtain status d where w: "submit_write (io_ready env) (io_status env) (io_torn env) f
        (unat (fi_write_offset f)) (build_entry_inplace key None 0 seq True) (en_disk e1) = (status, d)" by fastforce
    note run = kv_del_writes [OF ready old fw [unfolded q] _ al f_def w]
    have rm: "mi_lookup (snd (mi_remove idx key)) x = (if x = key then None else mi_lookup idx x)" for x
      using mix.lookup_del [OF inv_allocated [OF al ok1(2)]] by (cases "mi_remove idx key") simp
    have adv: "advance_file j ?sz (e1\<lparr>en_disk := d, en_index := i, en_total_garbage := g\<rparr>)
        = (advance_file j ?sz (e1\<lparr>en_index := i, en_disk := d\<rparr>))\<lparr>en_index := i, en_total_garbage := g\<rparr>" for i g
      by (simp add: advance_file_def en_update_file_def Let_def)
    have e': "e' = (if status \<noteq> 0 then e1\<lparr>en_index := idx, en_disk := d\<rparr>
        else (advance_file j ?sz (e1\<lparr>en_index := snd (mi_remove idx key), en_disk := d\<rparr>))
               \<lparr>en_index := snd (mi_remove idx key), en_total_garbage := en_total_garbage e1 + page_bytes old\<rparr>)"
      using run dma assms(3) by (auto simp: adv split: if_splits)
    have "call_frame e1 e'"
      using append_frame [OF ok1(1) j(1,2) w [unfolded f_def]] write_frame [OF ok1(1) j(1,2) f_def w j(3)]
      by (simp add: e' frame_index)
    moreover have "index_frame e e'"
      using e1 by (auto simp: index_frame_def e' rm lookup_allocated [OF al])
    ultimately show ?thesis using frame_trans fr1 by blast
  qed
qed

section \<open>The engine simulates the map\<close>

lemma kv_do_simulates:
  assumes "kv_serving e" "kv_call_ok c e" "kv_do c e = (r, e')"
  shows "kv_serving e' \<and> kv_answer_ok c r (kv_abs e) \<and> kv_abs e' = kv_effect c r (kv_abs e)"
proof -
  have inv: "kv_inv e" "en_state e = EReady" using assms(1) by (simp_all add: kv_serving_def)
  show ?thesis
  proof (cases c)
    case (KvPut env key v len)
    obtain q e1 where p: "kv_put env key (Some v) len e = (q, e1)" by fastforce
    have ok: "env_ok env e" "unat len \<le> length v" "unat len \<le> kMaxStoredLen" "index_takes (snd (mi_allocate_sequence (en_index e))) key"
      using assms(2) by (simp_all add: KvPut)
    have "en_state e1 = en_state e" using kv_put_frame [OF inv(1) ok(1) p ok(3,4)] by (simp add: call_frame_def)
    moreover have "len = 0 \<Longrightarrow> q = KInvalidArgument" using p inv(2) by (simp add: kv_put_def)
    ultimately show ?thesis
      using kv_put_sim [OF inv(1) ok(1) p ok(2,3)] ok(4) inv(2) assms(3) p by (auto simp: KvPut kv_serving_def)
  next
    case (KvGet env key buf_len)
    obtain q v n where g: "kv_get env key True buf_len e = (q, v, n)" by (cases "kv_get env key True buf_len e")
    then show ?thesis
      using kv_get_sim [OF inv, of env buf_len key] assms by (auto simp: KvGet split: option.splits if_splits)
  next
    case (KvDel env key)
    obtain q e1 where p: "kv_del env key e = (q, e1)" by fastforce
    have "env_ok env e" using assms(2) by (simp add: KvDel)
    then have "en_state e1 = en_state e" using kv_del_frame [OF inv(1) _ p] by (simp add: call_frame_def)
    then show ?thesis
      using kv_del_sim [OF inv(1) \<open>env_ok env e\<close> p] inv(2) assms(3) p by (auto simp: KvDel kv_serving_def)
  qed
qed

interpretation engine: simulation kv_call_ok kv_do kv_serving kv_abs kv_answer_ok kv_effect
  by unfold_locales (rule kv_do_simulates)

text \<open>C6: A sequence of puts, gets and deletes, of any length and across changes of the active file, answers as
  the map does: whatever the device does to the writes, every get returns what the puts and deletes that
  reported success have left. Every call of the sequence meets \<open>kv_call_ok\<close>: at a put the index takes the key
  (\<open>index_takes\<close>: its upsert neither drops the entry nor displaces another key) and the value fits an
  entry of 65535 pages; at a put and a delete a file can be allocated safely (\<open>env_ok\<close>: fresh blob, file ids left, log not
  near full); at a get the device reads and the buffer is not empty.\<close>

theorem kv_runs_like_a_map:
  assumes "kv_inv e" "en_state e = EReady" "sim_allowed kv_call_ok kv_do cs e" "sim_run kv_do cs e = (tr, e')"
  shows "spec_accepts kv_answer_ok kv_effect tr (kv_abs e) \<and> kv_abs e' = spec_final kv_effect tr (kv_abs e)"
  using engine.run_simulates [OF _ assms(3,4)] assms(1,2) by (simp add: kv_serving_def)

theorem kv_runs_like_a_map_witness:
  "map snd (fst (sim_run kv_do [KvPut demo_io 5 [1, 2, 3] 3, KvGet demo_io 5 100, KvGet demo_io 6 100] demo_store))
     = [KvDone KSuccess, KvGot KSuccess (Some [1, 2, 3]) (Some 3), KvGot KKeyNotFound None None]"
proof -
  let ?put = "KvPut demo_io 5 [1, 2, 3] 3" and ?get = "\<lambda>k. KvGet demo_io k 100"
  obtain e where put: "kv_put demo_io 5 (Some [1, 2, 3]) 3 demo_store = (KSuccess, e)" by (rule demo_put)
  obtain a b where g: "kv_do (?get 5) e = (a, e)" "kv_do (?get 6) e = (b, e)"
    by (cases "kv_get demo_io 5 True 100 e"; cases "kv_get demo_io 6 True 100 e") auto
  then have run: "sim_run kv_do [?put, ?get 5, ?get 6] demo_store = ([(?put, KvDone KSuccess), (?get 5, a), (?get 6, b)], e)"
    by (simp add: put del: kv_do.simps(2))
  have "sim_allowed kv_call_ok kv_do [?put, ?get 5, ?get 6] demo_store"
    using demo_store_ok(2) demo_takes by (simp add: kMaxStoredLen_def demo_io_def split: prod.split)
  moreover have "en_state demo_store = EReady" by (simp add: demo_store_def)
  ultimately have "spec_accepts kv_answer_ok kv_effect [(?put, KvDone KSuccess), (?get 5, a), (?get 6, b)] Map.empty"
    using kv_runs_like_a_map [OF demo_store_ok(1) _ _ run] demo_store_ok(3) by simp
  then have "a = KvGot KSuccess (Some [1, 2, 3]) (Some 3)" "b = KvGot KKeyNotFound None None"
    by (cases a; cases b; simp)+
  then show ?thesis unfolding run by simp
qed

end
