(* ===== verification/KvCompactEngine.thy ===== *)
theory KvCompactEngine
  imports KvCompactFlow KvLifecycle KvRuns
begin

text \<open>
  A compaction task inside the engine: the task of \<open>KvCompaction\<close> works on the engine's own files,
  metadata and index, allocates its destination through \<^verbatim>\<open>allocate_new_file\<close>, and its requests are
  carried out on the engine's blobs when they complete. Between the task's steps and the completions of
  its requests the engine serves calls.
\<close>

section \<open>The engine as the task sees it\<close>

definition comp_world_of :: "kv_engine \<Rightarrow> comp_world" where
  "comp_world_of e = \<lparr>cw_files = file_of e, cw_meta = en_meta e, cw_index = en_index e\<rparr>"

definition with_comp_world :: "comp_world \<Rightarrow> kv_engine \<Rightarrow> kv_engine" where
  "with_comp_world w e =
     e\<lparr>en_files := map (\<lambda>f. case cw_files w (fi_file_id f) of None \<Rightarrow> f | Some g \<Rightarrow> g) (en_files e),
       en_meta := cw_meta w, en_index := cw_index w\<rparr>"

text \<open>\<^verbatim>\<open>engine_->allocate_new_file()\<close>: the new file does not become the active one.\<close>

definition ce_env :: "comp_env \<Rightarrow> io_env \<Rightarrow> kv_engine \<Rightarrow> comp_env" where
  "ce_env env io e = env\<lparr>co_allocate_new_file := (\<lambda>_. case allocate_new_file io e of
     (r, e') \<Rightarrow> (map_option (\<lambda>i. fi_file_id (en_files e' ! i)) r, comp_world_of e'))\<rparr>"

definition ce_allocates :: "comp_env \<Rightarrow> comp_task \<Rightarrow> kv_engine \<Rightarrow> bool" where
  "ce_allocates env t e \<longleftrightarrow> \<not> ct_io_pending t \<and> ct_state t = CInit \<and> co_read_dma env \<and> co_write_dma env
     \<and> file_of e (ct_src_file_id t) \<noteq> None \<and> en_meta e (ct_src_file_id t) \<noteq> None"

text \<open>One \<^verbatim>\<open>step()\<close> of the task.\<close>

definition ce_step :: "comp_env \<Rightarrow> io_env \<Rightarrow> u64 \<Rightarrow> comp_task \<times> kv_engine \<Rightarrow> comp_task \<times> kv_engine" where
  "ce_step env io now = (\<lambda>(t, e).
     (case ct_step (ce_env env io e) now (t, comp_world_of e) of
        (t', w) \<Rightarrow> (t', with_comp_world w (if ce_allocates env t e then snd (allocate_new_file io e) else e))))"

section \<open>Requests\<close>

text \<open>What the device does to a request: a write that reports success is there, one that fails leaves
  anything in its place; a read delivers what is there. \<open>ready\<close> and \<open>cstatus\<close> serve the removal of a
  file: whether SPDK's environment is there and what the blob store answers to the close.\<close>

definition ce_write :: "u16 option \<Rightarrow> nat \<Rightarrow> byte list \<Rightarrow> int \<Rightarrow> (nat \<Rightarrow> byte) \<Rightarrow> kv_engine \<Rightarrow> kv_engine" where
  "ce_write p off data status torn e =
     (case p of None \<Rightarrow> e | Some i \<Rightarrow> (case file_of e i of None \<Rightarrow> e
      | Some f \<Rightarrow> e\<lparr>en_disk := disk_write (fi_blob_id f) off (if status = 0 then data else map torn [0..<length data]) (en_disk e)\<rparr>))"

definition ce_read :: "u16 option \<Rightarrow> nat \<Rightarrow> nat \<Rightarrow> kv_engine \<Rightarrow> byte list" where
  "ce_read p off n e =
     (case p of None \<Rightarrow> [] | Some i \<Rightarrow> (case file_of e i of None \<Rightarrow> []
      | Some f \<Rightarrow> disk_read (en_disk e) (fi_blob_id f) off n))"

fun ce_device :: "comp_task \<Rightarrow> int \<Rightarrow> (nat \<Rightarrow> byte) \<Rightarrow> bool \<Rightarrow> int \<Rightarrow> comp_io \<Rightarrow> kv_engine \<Rightarrow> kv_engine" where
  "ce_device t status torn ready cstatus (CioMarkCompacting page) e = ce_write (ct_src_info t) 0 page status torn e"
| "ce_device t status torn ready cstatus (CioMarkDeleted page) e = ce_write (ct_src_info t) 0 page status torn e"
| "ce_device t status torn ready cstatus (CioMarkSealed page) e = ce_write (ct_src_info t) 0 page status torn e"
| "ce_device t status torn ready cstatus (CioWrite off data) e = ce_write (ct_dest_info t) off data status torn e"
| "ce_device t status torn ready cstatus (CioRead off n) e = e"
| "ce_device t status torn ready cstatus (CioRemove file_id) e =
     (case get_file e file_id of None \<Rightarrow> e | Some i \<Rightarrow> snd (close_blob_for_file ready i cstatus e))"

fun ce_erases :: "bool \<Rightarrow> int \<Rightarrow> comp_io \<Rightarrow> kv_engine \<Rightarrow> bool" where
  "ce_erases ready cstatus (CioRemove file_id) e =
     (case get_file e file_id of None \<Rightarrow> False | Some i \<Rightarrow> fst (close_blob_for_file ready i cstatus e) \<and> ready)"
| "ce_erases ready cstatus _ e = False"

fun ce_data :: "comp_task \<Rightarrow> comp_io \<Rightarrow> kv_engine \<Rightarrow> byte list" where
  "ce_data t (CioRead off n) e = ce_read (ct_src_info t) off n e"
| "ce_data t _ e = []"

text \<open>The completion of the request in flight.\<close>

definition ce_complete :: "u64 \<Rightarrow> int \<Rightarrow> (nat \<Rightarrow> byte) \<Rightarrow> bool \<Rightarrow> int \<Rightarrow> comp_task \<times> kv_engine \<Rightarrow> comp_task \<times> kv_engine" where
  "ce_complete now status torn ready cstatus = (\<lambda>(t, e).
     (case ct_io t of None \<Rightarrow> (t, e)
      | Some io \<Rightarrow>
          (let e1 = ce_device t status torn ready cstatus io e
           in case ct_complete now status (ce_data t io e) (ce_erases ready cstatus io e) (t, comp_world_of e1) of
                (t', w) \<Rightarrow> (t', with_comp_world w e1))))"

section \<open>Events\<close>

datatype ce_event = CeCall kv_call | CeStep comp_env io_env u64 | CeDone u64 int "nat \<Rightarrow> byte" bool int

fun ce_do :: "ce_event \<Rightarrow> comp_task \<times> kv_engine \<Rightarrow> kv_result option \<times> (comp_task \<times> kv_engine)" where
  "ce_do (CeCall c) (t, e) = (case kv_do c e of (r, e) \<Rightarrow> (Some r, t, e))"
| "ce_do (CeStep env io now) s = (None, ce_step env io now s)"
| "ce_do (CeDone now status torn ready cstatus) s = (None, ce_complete now status torn ready cstatus s)"

text \<open>What an event may assume: calls as before; a task that allocates, that the blob is fresh and file
  ids are left; of the device, that it rejects a write beyond the size the blob was created with.\<close>

fun write_in_blob :: "comp_io option \<Rightarrow> int \<Rightarrow> kv_engine \<Rightarrow> bool" where
  "write_in_blob (Some (CioWrite off data)) status e = (status = 0 \<longrightarrow> off + length data \<le> unat (en_data_file_size e))"
| "write_in_blob _ status e = True"

fun ce_allowed :: "ce_event \<Rightarrow> comp_task \<times> kv_engine \<Rightarrow> bool" where
  "ce_allowed (CeCall c) (t, e) = kv_call_ok c e"
| "ce_allowed (CeStep env io now) (t, e) = (ce_allocates env t e \<longrightarrow> env_ok io e)"
| "ce_allowed (CeDone now status torn ready cstatus) (t, e) = write_in_blob (ct_io t) status e"

text \<open>To the map the task's steps do not exist.\<close>

fun ce_answer_ok :: "ce_event \<Rightarrow> kv_result option \<Rightarrow> (u64 \<Rightarrow> byte list option) \<Rightarrow> bool" where
  "ce_answer_ok (CeCall c) (Some r) a = kv_answer_ok c r a"
| "ce_answer_ok (CeCall c) None a = False"
| "ce_answer_ok _ r a = (r = None)"

fun ce_effect :: "ce_event \<Rightarrow> kv_result option \<Rightarrow> (u64 \<Rightarrow> byte list option) \<Rightarrow> u64 \<Rightarrow> byte list option" where
  "ce_effect (CeCall c) (Some r) a = kv_effect c r a"
| "ce_effect _ r a = a"

end
