(* ===== verification/KvCompactInv.thy ===== *)
theory KvCompactInv
  imports KvCompactEngine
begin

text \<open>
  What the running task and the engine keep between them: the places of the file under compaction, the
  invariant of a task beside its engine, and what a call of a client or an allocation leaves of it.
\<close>

section \<open>The engine after a change of one file\<close>

definition upd_file :: "u16 option \<Rightarrow> (file_info \<Rightarrow> file_info) \<Rightarrow> file_info list \<Rightarrow> file_info list" where
  "upd_file p f fs = map (\<lambda>g. if p = Some (fi_file_id g) then f g else g) fs"

lemma upd_file_nth: "j < length fs \<Longrightarrow> upd_file p f fs ! j = (if p = Some (fi_file_id (fs ! j)) then f (fs ! j) else fs ! j)"
  by (simp add: upd_file_def)

lemma upd_file_length [simp]: "length (upd_file p f fs) = length fs"
  by (simp add: upd_file_def)

text \<open>The updates of a task never change the identity of a file.\<close>

definition same_id :: "(file_info \<Rightarrow> file_info) \<Rightarrow> bool" where
  "same_id f \<longleftrightarrow> (\<forall>g. fi_file_id (f g) = fi_file_id g \<and> fi_blob_id (f g) = fi_blob_id g)"

lemma upd_file_ids:
  assumes "same_id f"
  shows "map fi_file_id (upd_file p f fs) = map fi_file_id fs" "map fi_blob_id (upd_file p f fs) = map fi_blob_id fs"
  using assms by (simp_all add: upd_file_def same_id_def)

lemma upd_file_find: "same_id f \<Longrightarrow> find_file (upd_file p f fs) i = find_file fs i"
  by (induction fs) (auto simp: upd_file_def same_id_def)

definition with_files :: "u16 option \<Rightarrow> (file_info \<Rightarrow> file_info) \<Rightarrow> mem_index \<Rightarrow> (u16 \<Rightarrow> file_meta option) \<Rightarrow> kv_engine \<Rightarrow> kv_engine" where
  "with_files p f idx metas e = e\<lparr>en_files := upd_file p f (en_files e), en_meta := metas, en_index := idx\<rparr>"

lemma with_files_simps [simp]:
  "en_files (with_files p f idx metas e) = upd_file p f (en_files e)" "en_index (with_files p f idx metas e) = idx"
  "en_disk (with_files p f idx metas e) = en_disk e" "en_state (with_files p f idx metas e) = en_state e"
  "en_active_file_id (with_files p f idx metas e) = en_active_file_id e"
  "en_next_file_id (with_files p f idx metas e) = en_next_file_id e"
  "en_data_file_size (with_files p f idx metas e) = en_data_file_size e"
  by (simp_all add: with_files_def)

lemma file_of_with_files:
  assumes "same_id f"
  shows "file_of (with_files p f idx metas e) i = (if p = Some i then map_option f (file_of e i) else file_of e i)"
proof (cases "find_file (en_files e) i")
  case (Some j)
  then have "j < length (en_files e)" "fi_file_id (en_files e ! j) = i" by (simp_all add: find_file_Some)
  then show ?thesis using Some upd_file_find [OF assms] by (simp add: file_of_def get_file_def upd_file_nth)
qed (simp add: file_of_def get_file_def upd_file_find [OF assms])

lemma file_of_in: "files_ok e \<Longrightarrow> g \<in> set (en_files e) \<Longrightarrow> file_of e (fi_file_id g) = Some g"
  using file_of_nth [of e] by (auto simp: in_set_conv_nth)

lemma world_update:
  assumes "files_ok e" "\<And>i. cw_files w i = (if p = Some i then map_option f (file_of e i) else file_of e i)"
  shows "with_comp_world w e = with_files p f (cw_index w) (cw_meta w) e"
proof -
  have "map (\<lambda>g. case cw_files w (fi_file_id g) of None \<Rightarrow> g | Some h \<Rightarrow> h) (en_files e) = upd_file p f (en_files e)"
    unfolding upd_file_def by (intro map_cong) (simp_all add: assms(2) file_of_in [OF assms(1)])
  then show ?thesis by (simp add: with_comp_world_def with_files_def)
qed

lemma world_same: "files_ok e \<Longrightarrow> cw_files w = file_of e \<Longrightarrow> with_comp_world w e = with_files None id (cw_index w) (cw_meta w) e"
  by (rule world_update) simp_all

lemma cw_update_files:
  "cw_files (cw_update_file p f w) i = (if p = Some i then map_option f (cw_files w i) else cw_files w i)"
  "cw_files (cw_update_meta p h w) = cw_files w" "cw_index (cw_update_meta p h w) = cw_index w"
  "cw_index (cw_update_file p f w) = cw_index w" "cw_files (w\<lparr>cw_index := idx\<rparr>) = cw_files w"
  "cw_files (comp_world_of e) = file_of e" "cw_index (comp_world_of e) = en_index e"
  by (auto simp: cw_update_file_def cw_update_meta_def comp_world_of_def split: option.splits)

text \<open>A file that is in the table belongs to it after the update, too.\<close>

lemma with_files_ok:
  assumes "files_ok e" "same_id f"
    and "\<And>g. p = Some (fi_file_id g) \<Longrightarrow> g \<in> set (en_files e) \<Longrightarrow> file_ok (f g)"
    and "p \<noteq> Some (en_active_file_id e) \<or> (\<forall>g. file_state_readable (fi_state g) \<longrightarrow> file_state_readable (fi_state (f g)))"
  shows "files_ok (with_files p f idx metas e)"
proof -
  have "file_ok h \<and> fi_file_id h < en_next_file_id e" if "h \<in> set (upd_file p f (en_files e))" for h
    using that assms(1-3) by (auto simp: upd_file_def files_ok_def same_id_def)
  moreover have "file_state_readable (fi_state (upd_file p f (en_files e) ! j))"
    if "find_file (en_files e) (en_active_file_id e) = Some j" for j
  proof -
    have "file_state_readable (fi_state (en_files e ! j))" "j < length (en_files e)"
      "fi_file_id (en_files e ! j) = en_active_file_id e"
      using that assms(1) by (auto simp: files_ok_def get_active_file_def get_file_def find_file_Some)
    then show ?thesis using assms(4) by (auto simp: upd_file_nth)
  qed
  ultimately show ?thesis
    using assms(1,2) by (simp add: files_ok_def upd_file_ids upd_file_find get_active_file_def get_file_def)
qed

section \<open>Places\<close>

text \<open>A place in a file, as an index entry that points there.\<close>

definition place :: "u16 \<Rightarrow> u32 \<Rightarrow> u16 \<Rightarrow> mem_index_entry" where
  "place file_id offset_index pages = me_repointed file_id offset_index pages me_zero"

definition image_at :: "kv_engine \<Rightarrow> u16 \<Rightarrow> u32 \<Rightarrow> u16 \<Rightarrow> u64 \<Rightarrow> byte list \<Rightarrow> bool" where
  "image_at e file_id offset_index pages key v \<longleftrightarrow> on_disk (en_files e) (en_disk e) (place file_id offset_index pages) key v"

lemma on_disk_fields:
  "me_file_id m = me_file_id m' \<Longrightarrow> me_offset_index m = me_offset_index m' \<Longrightarrow> me_page_count m = me_page_count m'
   \<Longrightarrow> on_disk fs d m key v = on_disk fs d m' key v"
  by (simp only: on_disk_def)

lemma on_disk_place:
  assumes "me_points file_id offset_index m"
  shows "on_disk (en_files e) (en_disk e) m key v = image_at e file_id offset_index (me_page_count m) key v"
  unfolding image_at_def
  by (rule on_disk_fields) (use assms in \<open>auto simp: me_points_def place_def me_repointed_def ucast_narrow\<close>)

lemma on_disk_repointed:
  "on_disk (en_files e) (en_disk e) (me_repointed file_id offset_index pages m) key v = image_at e file_id offset_index pages key v"
  unfolding image_at_def by (rule on_disk_fields) (simp_all add: place_def me_repointed_def)

lemma place_file: "place_fits file_id offset_index \<Longrightarrow> ucast (me_file_id (place file_id offset_index pages)) = file_id"
  by (simp add: place_def repointed_points [unfolded me_points_def])

lemma place_offset: "place_fits file_id offset_index \<Longrightarrow> unat (me_offset_index (place file_id offset_index pages)) = unat offset_index"
  by (simp add: place_def me_repointed_def place_fits_def ucast_small)

lemma place_pages [simp]: "me_page_count (place file_id offset_index pages) = pages"
  by (simp add: place_def me_repointed_def)

text \<open>What a place holds does not depend on who looks.\<close>

lemma get_u32_disk: "28 \<le> n \<Longrightarrow> get_u32 (disk_read d b off n) 24 = get_u32 (disk_read d b off 28) 24"
  by (simp add: get_u32_def slice_def disk_read_def drop_map take_map add.commute)

lemma on_disk_unique:
  assumes "on_disk fs d m key v" "on_disk fs d m' key' v'"
    and "me_file_id m' = me_file_id m" "me_offset_index m' = me_offset_index m"
  shows "me_page_count m' = me_page_count m \<and> v' = v"
proof -
  let ?n = "4096 * unat (me_page_count m)" and ?n' = "4096 * unat (me_page_count m')"
  obtain i seq where i: "find_file fs (ucast (me_file_id m)) = Some i" "length v \<le> kMaxStoredLen"
    "?n = length (log_image (key, v, seq, False))"
    "disk_read d (fi_blob_id (fs ! i)) (4096 * unat (me_offset_index m)) ?n = log_image (key, v, seq, False)"
    using assms(1) unfolding on_disk_def by blast
  obtain i' seq' where i': "find_file fs (ucast (me_file_id m)) = Some i'" "length v' \<le> kMaxStoredLen"
    "?n' = length (log_image (key', v', seq', False))"
    "disk_read d (fi_blob_id (fs ! i')) (4096 * unat (me_offset_index m)) ?n' = log_image (key', v', seq', False)"
    using assms(2) unfolding on_disk_def assms(3,4) by blast
  have big: "28 \<le> ?n" "28 \<le> ?n'"
    using log_image_pages [OF log_ok_stored [OF i(2)], of key seq False] log_image_pages [OF log_ok_stored [OF i'(2)], of key' seq' False]
      i(3) i'(3) by linarith+
  have "(word_of_nat (length v) :: u32) = word_of_nat (length v')"
    using get_u32_disk [OF big(1)] get_u32_disk [OF big(2)] log_image_fields(2) [OF i(2)] log_image_fields(2) [OF i'(2)] i(1,4) i'(1,4)
    by (metis option.inject)
  moreover have "unat (word_of_nat (length v) :: u32) = length v" "unat (word_of_nat (length v') :: u32) = length v'"
    using i(2) i'(2) by (auto simp: kMaxStoredLen_def intro!: unat_of_nat_small)
  ultimately have len: "length v' = length v" by metis
  then have "?n' = ?n"
    using i(3) i'(3) length_log_image [OF log_ok_stored [OF i(2)]] length_log_image [OF log_ok_stored [OF i'(2)]] by metis
  then have pages: "me_page_count m' = me_page_count m" by (simp add: word_unat_eq_iff)
  have "log_image (key', v', seq', False) = log_image (key, v, seq, False)"
    using i(1,4) i'(1,4) pages by simp
  then have "v' = v" using log_image_fields(3) [OF i(2)] log_image_fields(3) [OF i'(2)] len by metis
  with pages show ?thesis by simp
qed

lemma image_unique: "image_at e f off pc key v \<Longrightarrow> image_at e f off pc' key' v' \<Longrightarrow> pc' = pc \<and> v' = v"
  using on_disk_unique [of "en_files e" "en_disk e" "place f off pc" key v "place f off pc'" key' v']
  by (simp add: image_at_def) (simp add: place_def me_repointed_def)

lemma image_kept:
  "file_kept (en_files e) (en_disk e) (en_files e') (en_disk e') f \<Longrightarrow> place_fits f off
   \<Longrightarrow> image_at e f off pc key v \<Longrightarrow> image_at e' f off pc key v"
  unfolding image_at_def by (rule on_disk_kept) (simp_all add: place_file)

section \<open>The invariant\<close>

abbreviation "task_src \<equiv> ct_src_file_id"
abbreviation "task_dest \<equiv> ct_dest_file_id"

definition usable :: "file_info \<Rightarrow> bool" where
  "usable f \<longleftrightarrow> fi_blob_opened f \<and> file_state_readable (fi_state f)"

text \<open>The source is there and is not the file that calls write to.\<close>

definition src_ok :: "comp_task \<Rightarrow> kv_engine \<Rightarrow> bool" where
  "src_ok t e \<longleftrightarrow> task_src t \<noteq> en_active_file_id e \<and> (\<exists>f. file_of e (task_src t) = Some f \<and> usable f)"

text \<open>So is the destination; it ends at \<^verbatim>\<open>dest_offset_\<close>, and index entries that point into it are
  committed migrations.\<close>

definition dest_ok :: "comp_task \<Rightarrow> kv_engine \<Rightarrow> bool" where
  "dest_ok t e \<longleftrightarrow> ct_src_info t = Some (task_src t) \<and> ct_dest_info t = Some (task_dest t) \<and> task_dest t \<noteq> task_src t
     \<and> task_dest t \<noteq> en_active_file_id e \<and> 4096 \<le> ct_dest_offset t \<and> 4096 dvd ct_dest_offset t
     \<and> (\<exists>f. file_of e (task_dest t) = Some f \<and> usable f \<and> unat (fi_write_offset f) = ct_dest_offset t)
     \<and> (\<forall>x m. mi_lookup (en_index e) x = Some m \<longrightarrow> ucast (me_file_id m) = task_dest t \<longrightarrow>
          (\<exists>g \<in> set (ct_committed t). mg_key g = x \<and> me_points (task_dest t) (mg_new_offset_index g) m))"

text \<open>A committed migration has the same bytes at both places.\<close>

definition committed_ok :: "comp_task \<Rightarrow> kv_engine \<Rightarrow> bool" where
  "committed_ok t e \<longleftrightarrow> (\<forall>g \<in> set (ct_committed t). mg_old_file_id g = task_src t \<and> mg_new_file_id g = task_dest t
     \<and> place_fits (task_src t) (mg_old_offset_index g) \<and> place_fits (task_dest t) (mg_new_offset_index g)
     \<and> (\<exists>v. image_at e (task_src t) (mg_old_offset_index g) (mg_page_count g) (mg_key g) v
          \<and> image_at e (task_dest t) (mg_new_offset_index g) (mg_page_count g) (mg_key g) v))"

text \<open>A pending one has them in the write buffer, at the place where they go.\<close>

definition pending_one :: "comp_task \<Rightarrow> kv_engine \<Rightarrow> migrated_entry \<Rightarrow> bool" where
  "pending_one t e g \<longleftrightarrow> mg_old_file_id g = task_src t \<and> mg_new_file_id g = task_dest t
     \<and> place_fits (task_src t) (mg_old_offset_index g)
     \<and> (\<exists>v seq p. image_at e (task_src t) (mg_old_offset_index g) (mg_page_count g) (mg_key g) v
          \<and> length v \<le> kMaxStoredLen \<and> length (log_image (mg_key g, v, seq, False)) = 4096 * unat (mg_page_count g)
          \<and> 4096 * unat (mg_new_offset_index g) = ct_dest_offset t + p \<and> p + 4096 * unat (mg_page_count g) \<le> length (ct_write_data t)
          \<and> slice p (4096 * unat (mg_page_count g)) (ct_write_data t) = log_image (mg_key g, v, seq, False))"

definition pending_ok :: "comp_task \<Rightarrow> kv_engine \<Rightarrow> bool" where
  "pending_ok t e \<longleftrightarrow> 4096 dvd length (ct_write_data t) \<and> (\<forall>g \<in> set (ct_migrated t). pending_one t e g)"

definition src_end :: "comp_task \<Rightarrow> kv_engine \<Rightarrow> nat" where
  "src_end t e = (case file_of e (task_src t) of None \<Rightarrow> 0 | Some f \<Rightarrow> unat (fi_write_offset f))"

text \<open>What the task has asked for and what it has got: a chunk below the end of the source, and the
  write buffer at the end of the destination.\<close>

definition chunk_ok :: "comp_task \<Rightarrow> kv_engine \<Rightarrow> bool" where
  "chunk_ok t e \<longleftrightarrow> 4096 \<le> ct_current_offset t \<and> 4096 dvd ct_current_offset t
     \<and> (case ct_io t of
          Some (CioRead off n) \<Rightarrow> off = ct_current_offset t \<and> 4096 dvd n \<and> off + n \<le> src_end t e
        | Some (CioWrite off data) \<Rightarrow> off = ct_dest_offset t \<and> data = ct_write_data t | _ \<Rightarrow> True)
     \<and> (ct_state t = CProcessEntries \<longrightarrow> 4096 dvd ct_bytes_read t \<and> ct_current_offset t + ct_bytes_read t \<le> src_end t e
          \<and> ct_read_data t = ce_read (Some (task_src t)) (ct_current_offset t) (ct_bytes_read t) e)
     \<and> (ct_state t = CUpdateIndices \<longrightarrow> ct_dest_offset t + length (ct_write_data t) \<le> 2 ^ 33
          \<and> ce_read (Some (task_dest t)) (ct_dest_offset t) (length (ct_write_data t)) e = ct_write_data t)"

definition ce_running :: "comp_task \<Rightarrow> kv_engine \<Rightarrow> bool" where
  "ce_running t e \<longleftrightarrow> src_ok t e \<and> dest_ok t e \<and> committed_ok t e \<and> pending_ok t e \<and> chunk_ok t e"

text \<open>Before it runs, and while its destination is removed after a rollback.\<close>

definition ce_fresh :: "comp_task \<Rightarrow> kv_engine \<Rightarrow> bool" where
  "ce_fresh t e \<longleftrightarrow> src_ok t e \<and> ct_migrated t = [] \<and> ct_committed t = [] \<and> ct_write_data t = [] \<and> ct_current_offset t = 4096"

definition ce_removing :: "comp_task \<Rightarrow> kv_engine \<Rightarrow> bool" where
  "ce_removing t e \<longleftrightarrow> task_dest t \<noteq> en_active_file_id e \<and> file_of e (task_dest t) \<noteq> None
     \<and> (\<forall>x m. mi_lookup (en_index e) x = Some m \<longrightarrow> ucast (me_file_id m) \<noteq> task_dest t)"

definition is_removal :: "comp_task \<Rightarrow> bool" where
  "is_removal t \<longleftrightarrow> (\<exists>i. ct_io t = Some (CioRemove i))"

definition ce_phase :: "comp_task \<Rightarrow> kv_engine \<Rightarrow> bool" where
  "ce_phase t e \<longleftrightarrow>
     (if is_removal t then ct_io t = Some (CioRemove (task_dest t)) \<and> ce_removing t e
      else if ct_state t = CInit then ce_fresh t e
      else ct_state t \<in> {CRollbackMarkSealed, CFailed, CDone} \<or> ce_running t e)"

fun io_page_ok :: "comp_io option \<Rightarrow> bool" where
  "io_page_ok (Some (CioMarkCompacting page)) = (length page = 4096)"
| "io_page_ok (Some (CioMarkDeleted page)) = (length page = 4096)"
| "io_page_ok (Some (CioMarkSealed page)) = (length page = 4096)"
| "io_page_ok _ = True"

definition ce_inv :: "comp_task \<times> kv_engine \<Rightarrow> bool" where
  "ce_inv = (\<lambda>(t, e). comp_wf t \<and> kv_serving e \<and> en_active_file_id e < en_next_file_id e \<and> io_page_ok (ct_io t) \<and> ce_phase t e)"

section \<open>Stability\<close>

text \<open>What may happen to the engine under a task: its files stay as they are but for their state, their
  bytes from the first entry on stay, and no new index entry points into them.\<close>

definition same_data :: "kv_engine \<Rightarrow> kv_engine \<Rightarrow> file_info \<Rightarrow> file_info \<Rightarrow> bool" where
  "same_data e e' f f' \<longleftrightarrow> fi_blob_id f' = fi_blob_id f \<and> fi_blob_opened f' = fi_blob_opened f
     \<and> (file_state_readable (fi_state f) \<longrightarrow> file_state_readable (fi_state f')) \<and> fi_write_offset f' = fi_write_offset f
     \<and> (\<forall>n \<ge> 4096. en_disk e' (fi_blob_id f) n = en_disk e (fi_blob_id f) n)"

definition ce_stable :: "u16 set \<Rightarrow> kv_engine \<Rightarrow> kv_engine \<Rightarrow> bool" where
  "ce_stable I e e' \<longleftrightarrow> store_grows (en_files e) (en_disk e) (en_files e') (en_disk e')
     \<and> (en_active_file_id e \<notin> I \<longrightarrow> en_active_file_id e' \<notin> I)
     \<and> (\<forall>i \<in> I. \<forall>f. file_of e i = Some f \<longrightarrow> (\<exists>f'. file_of e' i = Some f' \<and> same_data e e' f f'))
     \<and> (\<forall>x m. mi_lookup (en_index e') x = Some m \<longrightarrow> mi_lookup (en_index e) x = Some m \<or> ucast (me_file_id m) \<notin> I)"

lemma src_stable:
  assumes "src_ok t e" "ce_stable {task_src t} e e'"
  shows "src_ok t e'"
  using assms by (auto simp: src_ok_def ce_stable_def same_data_def usable_def)

lemma stable_read:
  assumes "ce_stable I e e'" "i \<in> I" "file_of e i \<noteq> None" "4096 \<le> off"
  shows "ce_read (Some i) off n e' = ce_read (Some i) off n e"
  using assms by (fastforce simp: ce_stable_def same_data_def ce_read_def disk_read_def)

lemma stable_kept: "ce_stable I e e' \<Longrightarrow> file_kept (en_files e) (en_disk e) (en_files e') (en_disk e') i"
  by (simp add: ce_stable_def grows_kept)

lemma stable_subset: "ce_stable I e e' \<Longrightarrow> J \<subseteq> I \<Longrightarrow> en_active_file_id e \<notin> I \<Longrightarrow> ce_stable J e e'"
  by (auto simp: ce_stable_def) blast

lemma running_stable:
  assumes "ce_running t e" "ce_stable {task_src t, task_dest t} e e'"
  shows "ce_running t e'"
proof -
  let ?I = "{task_src t, task_dest t}"
  note run = assms(1) [unfolded ce_running_def] and st = assms(2) [unfolded ce_stable_def]
  note kept = image_kept [OF stable_kept [OF assms(2)]]
  have act: "en_active_file_id e \<notin> ?I" using run by (auto simp: src_ok_def dest_ok_def)
  obtain f where f: "file_of e (task_src t) = Some f" using run by (auto simp: src_ok_def)
  have "src_ok t e'" using run src_stable [OF _ stable_subset [OF assms(2) _ act]] by simp
  moreover have "dest_ok t e'"
  proof -
    obtain g g' where g: "file_of e (task_dest t) = Some g" "usable g" "unat (fi_write_offset g) = ct_dest_offset t"
      "file_of e' (task_dest t) = Some g'" "same_data e e' g g'"
      using run st by (auto simp: dest_ok_def) blast
    moreover have "usable g' \<and> unat (fi_write_offset g') = ct_dest_offset t"
      using g by (auto simp: same_data_def usable_def)
    moreover have "en_active_file_id e' \<noteq> task_dest t" using st act by simp
    ultimately show ?thesis using run st unfolding dest_ok_def by fastforce
  qed
  moreover have "committed_ok t e'" using run kept by (fastforce simp: committed_ok_def)
  moreover have "pending_ok t e'" using run kept by (fastforce simp: pending_ok_def pending_one_def)
  moreover have "chunk_ok t e'"
  proof -
    have ends: "src_end t e' = src_end t e" using f st by (fastforce simp: src_end_def same_data_def)
    have "4096 \<le> ct_current_offset t" "4096 \<le> ct_dest_offset t" "file_of e (task_dest t) \<noteq> None"
      using run by (auto simp: chunk_ok_def dest_ok_def)
    then have reads: "ce_read (Some (task_src t)) (ct_current_offset t) n e' = ce_read (Some (task_src t)) (ct_current_offset t) n e"
      "ce_read (Some (task_dest t)) (ct_dest_offset t) n e' = ce_read (Some (task_dest t)) (ct_dest_offset t) n e" for n
      using f by (auto intro!: stable_read [OF assms(2)])
    show ?thesis using run unfolding chunk_ok_def reads ends by blast
  qed
  ultimately show ?thesis by (simp add: ce_running_def)
qed

text \<open>Calls, and the changes a task makes besides its copies, are of this kind.\<close>

lemma call_stable:
  assumes "call_frame e e'" "index_frame e e'" "files_ok e" "en_active_file_id e \<notin> I" "\<forall>i \<in> I. file_of e i \<noteq> None"
  shows "ce_stable I e e'"
proof -
  have old: "i < en_next_file_id e" if "file_of e i = Some f" for i f
    using file_of_member [OF that] assms(3) by (auto simp: files_ok_def)
  have keep: "i \<noteq> en_active_file_id e' \<and> file_of e' i = Some f \<and> en_disk e' (fi_blob_id f) = en_disk e (fi_blob_id f)"
    if "i \<in> I" "file_of e i = Some f" for i f
  proof -
    have "i \<noteq> en_active_file_id e" using that(1) assms(4) by blast
    then show ?thesis using assms(1) that(2) old [OF that(2)] unfolding call_frame_def by blast
  qed
  have act: "en_active_file_id e' \<notin> I"
  proof
    assume a: "en_active_file_id e' \<in> I"
    then obtain f where "file_of e (en_active_file_id e') = Some f" using assms(5) by blast
    then show False using keep [OF a] by blast
  qed
  have "same_data e e' f f" if "i \<in> I" "file_of e i = Some f" for i f
    using keep [OF that] by (simp add: same_data_def)
  moreover have "store_grows (en_files e) (en_disk e) (en_files e') (en_disk e')" using assms(1) by (simp add: call_frame_def)
  ultimately show ?thesis
    using keep act assms(2) unfolding ce_stable_def index_frame_def by metis
qed

lemma same_data_refl: "same_data e e f f"
  by (simp add: same_data_def)

lemma ce_write_disk:
  obtains d where "ce_write p off data status torn e = e\<lparr>en_disk := d\<rparr>"
proof -
  have "ce_write p off data status torn e = e\<lparr>en_disk := en_disk (ce_write p off data status torn e)\<rparr>"
    by (simp add: ce_write_def split: option.split)
  then show thesis by (rule that)
qed

lemma write_header_stable:
  assumes "length page \<le> 4096"
  shows "ce_stable I e (ce_write p 0 page status torn e)"
proof -
  have low: "en_disk (ce_write p 0 page status torn e) b n = en_disk e b n" if "4096 \<le> n" for b n
    using that assms by (auto simp: ce_write_def disk_write_def split: option.split)
  obtain d where d: "ce_write p 0 page status torn e = e\<lparr>en_disk := d\<rparr>" by (rule ce_write_disk)
  then show ?thesis
    using low by (auto simp: d ce_stable_def store_grows_def file_grows_def same_data_def file_of_def get_file_def)
qed

lemma state_stable:
  assumes "file_state_readable st"
  shows "ce_stable I e (with_files p (\<lambda>f. f\<lparr>fi_state := st\<rparr>) (en_index e) metas e)"
proof -
  have id: "same_id (\<lambda>f. f\<lparr>fi_state := st\<rparr>)" by (simp add: same_id_def)
  have "store_grows (en_files e) (en_disk e) (upd_file p (\<lambda>f. f\<lparr>fi_state := st\<rparr>) (en_files e)) (en_disk e)"
    using assms by (simp add: store_grows_def upd_file_nth file_grows_def)
  moreover have "\<exists>f'. file_of (with_files p (\<lambda>f. f\<lparr>fi_state := st\<rparr>) (en_index e) metas e) i = Some f'
      \<and> same_data e (with_files p (\<lambda>f. f\<lparr>fi_state := st\<rparr>) (en_index e) metas e) f f'" if "file_of e i = Some f" for i f
    using that assms by (auto simp: file_of_with_files [OF id] same_data_def)
  ultimately show ?thesis by (simp add: ce_stable_def)
qed

text \<open>The engine goes on serving the same map.\<close>

definition ce_same :: "kv_engine \<Rightarrow> kv_engine \<Rightarrow> bool" where
  "ce_same e e' \<longleftrightarrow> kv_serving e' \<and> en_active_file_id e' < en_next_file_id e' \<and> kv_abs e' = kv_abs e"

definition ce_live :: "kv_engine \<Rightarrow> bool" where
  "ce_live e \<longleftrightarrow> kv_serving e \<and> en_active_file_id e < en_next_file_id e"

lemma live_files: "ce_live e \<Longrightarrow> files_ok e \<and> mi_inv (en_index e) \<and> kv_inv e \<and> en_state e = EReady"
  by (simp add: ce_live_def kv_serving_def kv_inv_def)

lemma write_header_same:
  assumes "ce_live e" "length page \<le> 4096"
  shows "ce_same e (ce_write p 0 page status torn e)"
proof -
  obtain d where d: "ce_write p 0 page status torn e = e\<lparr>en_disk := d\<rparr>"
    by (rule ce_write_disk)
  have "store_grows (en_files e) (en_disk e) (en_files e) d"
    using write_header_stable [OF assms(2), of UNIV e p status torn] by (simp add: ce_stable_def d)
  then have "kv_inv (e\<lparr>en_disk := d\<rparr>) \<and> kv_abs (e\<lparr>en_disk := d\<rparr>) = kv_abs e"
    using live_files [OF assms(1)] by (intro kv_grows) (auto simp: files_ok_def get_active_file_def get_file_def)
  then show ?thesis using assms(1) by (simp add: d ce_same_def ce_live_def kv_serving_def)
qed

lemma state_same:
  assumes "ce_live e" "file_state_readable st"
  shows "ce_same e (with_files p (\<lambda>f. f\<lparr>fi_state := st\<rparr>) (en_index e) metas e)"
proof -
  let ?e = "with_files p (\<lambda>f. f\<lparr>fi_state := st\<rparr>) (en_index e) metas e"
  note live = live_files [OF assms(1)]
  have "files_ok ?e"
    using live assms(2) by (intro with_files_ok) (auto simp: same_id_def file_ok_def files_ok_def)
  moreover have "store_grows (en_files e) (en_disk e) (en_files ?e) (en_disk ?e)"
    using state_stable [OF assms(2), of UNIV e] by (simp add: ce_stable_def)
  ultimately have "kv_inv ?e \<and> kv_abs ?e = kv_abs e" using live by (intro kv_grows) simp_all
  then show ?thesis using assms(1) by (simp add: ce_same_def ce_live_def kv_serving_def)
qed

end
