(* ===== verification/KvCompactChunk.thy ===== *)
theory KvCompactChunk
  imports KvCompactInv
begin

text \<open>
  One chunk through a compaction task inside the engine: the steps and the completion that process the
  last chunk of the source, write the buffer to the destination and move the index.
\<close>

section \<open>Steps that leave the engine alone\<close>

lemma with_own_world: "files_ok e \<Longrightarrow> with_comp_world (comp_world_of e) e = e"
  by (simp add: world_same cw_update_files with_files_def upd_file_def) (simp add: comp_world_of_def)

lemma step_leaves_engine:
  assumes "files_ok e" "ct_state t \<noteq> CInit" "ct_step (ce_env env io e) now (t, comp_world_of e) = (t', comp_world_of e)"
  shows "ce_step env io now (t, e) = (t', e)"
  using assms by (simp add: ce_step_def ce_allocates_def with_own_world)

lemma skip_at_end: "ct_src_end (t, w) \<le> ct_current_offset t \<Longrightarrow> skip_invalid_pages (t, w) = t"
  by (cases t) (simp add: skip_invalid_pages_def skip_pages.simps split: option.split)

lemma ct_src_end_fields: "ct_src_info t' = ct_src_info t \<Longrightarrow> ct_src_end (t', w) = ct_src_end (t, w)"
  by (simp add: ct_src_end_def ct_src_file_def)

lemma step_process:
  assumes "files_ok e" "ct_state t = CProcessEntries" "\<not> ct_io_pending t"
  shows "ce_step env io now (t, e) = (process_loop (en_index e) 0 t, e)"
  using assms by (intro step_leaves_engine) (simp_all add: ct_step_def process_entries_def comp_world_of_def)

lemma step_end_of_source:
  assumes "files_ok e" "ct_state t = CReadChunk" "\<not> ct_io_pending t" "ct_write_data t \<noteq> []"
    and "ct_src_end (t, comp_world_of e) \<le> ct_current_offset t"
  shows "ce_step env io now (t, e) = (t\<lparr>ct_state := CWriteChunk\<rparr>, e)"
  using assms by (intro step_leaves_engine) (simp_all add: ct_step_def read_next_chunk_def Let_def skip_at_end)

lemma step_write:
  assumes "files_ok e" "ct_state t = CWriteChunk" "\<not> ct_io_pending t" "ct_write_data t \<noteq> []"
    and "ct_dest_info t = Some i" "file_of e i = Some f" "fi_blob_opened f" "co_channel env"
  shows "ce_step env io now (t, e)
    = (t\<lparr>ct_io_pending := True, ct_io := Some (CioWrite (ct_dest_offset t) (ct_write_data t))\<rparr>, e)"
  using assms by (intro step_leaves_engine)
    (simp_all add: ct_step_def write_chunk_def ct_submit_def Let_def cw_update_files ce_env_def)

text \<open>The device carries the write out.\<close>

lemma complete_write:
  assumes "files_ok e" "ct_io t = Some (CioWrite off data)" "ct_dest_info t = Some i" "file_of e i = Some f"
  shows "ce_complete now 0 torn ready cstatus (t, e)
    = (t\<lparr>ct_io := None, ct_io_pending := False, ct_retry_count := 0, ct_state := CUpdateIndices\<rparr>,
       e\<lparr>en_disk := disk_write (fi_blob_id f) off data (en_disk e)\<rparr>)"
proof -
  let ?e = "e\<lparr>en_disk := disk_write (fi_blob_id f) off data (en_disk e)\<rparr>"
  have "files_ok ?e" using assms(1) by (simp add: files_ok_def get_active_file_def get_file_def)
  then show ?thesis
    using assms by (simp add: ce_complete_def ce_write_def Let_def ct_complete_def ct_on_write_def with_own_world)
qed

text \<open>The update of the index; of the rest of the engine only the entry of the destination changes.\<close>

lemma step_update:
  assumes "ct_state t = CUpdateIndices" "\<not> ct_io_pending t"
  shows "en_index (snd (ce_step env io now (t, e))) = fold apply_migration (ct_migrated t) (en_index e)
    \<and> en_disk (snd (ce_step env io now (t, e))) = en_disk e"
  using assms by (simp add: ce_step_def ce_allocates_def ct_step_def update_indices_def Let_def cw_update_files
      with_comp_world_def split: prod.split)

lemma disk_read_within:
  "off + n \<le> length data \<Longrightarrow> disk_read (disk_write b base data d) b (base + off) n = slice off n data"
  by (rule nth_equalityI) (simp_all add: disk_read_def disk_write_def slice_def)

section \<open>Property\<close>

text \<open>C24: Compaction keeps the data of a chunk. The task has read the last chunk of the source file; the
  chunk consists of the whole entries \<open>es\<close> (an entry cut by the end of a chunk is not copied, and this
  does not speak of such a chunk), and the write buffer holds the live ones of the entries \<open>es0\<close> before it,
  possibly none. Offsets stay below 8 GB, buffer and destination are page-aligned and the buffer has room for the chunk.
  When the task processes the chunk, finds the end of the source, writes the buffer, the device reports
  success and the task moves the index, then the index entry of every live entry, one which the index
  pointed at in the source, names a place of the destination file where the disk holds exactly the
  bytes of the entry, with the same sequence number; entries of other files are untouched.\<close>

theorem compaction_preserves_entries:
  assumes "files_ok e" "mi_inv (en_index e)" "ct_state t = CProcessEntries" "\<not> ct_io_pending t"
    and "buffer_holds (en_index e) t es0" "list_all log_ok (es0 @ es)" "es0 @ es = es1 @ (key, v, seq, False) # es2"
    and "ct_read_data t = log_images es" "ct_bytes_read t = length (log_images es)"
    and "length (ct_write_data t) + length (log_images es) \<le> kChunkSize"
    and "4096 dvd ct_dest_offset t" "ct_dest_offset t + kChunkSize \<le> 2 ^ 33"
    and "ct_current_offset t + length (log_images es) \<le> 2 ^ 33"
    and "ct_src_end (t, comp_world_of e) \<le> ct_current_offset t + length (log_images es)"
    and "ct_dest_info t = Some (ct_dest_file_id t)" "file_of e (ct_dest_file_id t) = Some f" "fi_blob_opened f" "co_channel env"
    and "mi_lookup (en_index e) key = Some m"
    and "me_points (ct_src_file_id t)
      (word_of_nat ((ct_current_offset t - length (log_images es0) + length (log_images es1)) div 4096)) m"
    and "(t1, e1) = ce_step env io now1 (t, e)" "(t2, e2) = ce_step env io now2 (t1, e1)"
    and "(t3, e3) = ce_step env io now3 (t2, e2)" "(t4, e4) = ce_complete now4 0 torn ready cstatus (t3, e3)"
    and "(t5, e5) = ce_step env io now5 (t4, e4)"
  shows "(\<exists>m'. mi_lookup (en_index e5) key = Some m' \<and> me_file_id m' = ucast (ct_dest_file_id t)
      \<and> me_sequence m' = me_sequence m
      \<and> disk_read (en_disk e5) (fi_blob_id f) (4096 * unat (me_offset_index m')) (4096 * unat (me_page_count m'))
          = log_image (key, v, seq, False))
    \<and> (\<forall>x g. mi_lookup (en_index e) x = Some g \<longrightarrow> ucast (me_file_id g) \<noteq> ct_src_file_id t
          \<longrightarrow> mi_lookup (en_index e5) x = Some g)"
proof -
  let ?m = "en_index e" and ?x = "(key, v, seq, False)"
  define p where "p = process_loop ?m 0 t"
  have ok: "list_all log_ok es" using assms(6) by simp
  from process_chunk_holds [OF assms(5) ok assms(8-10), folded p_def] obtain mvs where
    p: "p = (ct_copied mvs (length es) t)\<lparr>ct_current_offset := ct_current_offset t + length (log_images es), ct_state := CReadChunk\<rparr>"
    and len: "length (moves_data mvs) \<le> length (log_images es)" and holds: "buffer_holds ?m p (es0 @ es)" by blast
  have fields: "ct_src_file_id p = ct_src_file_id t" "ct_dest_file_id p = ct_dest_file_id t" "ct_dest_offset p = ct_dest_offset t"
    "ct_dest_info p = ct_dest_info t" "ct_src_info p = ct_src_info t" "\<not> ct_io_pending p" "ct_state p = CReadChunk"
    "ct_current_offset p = ct_current_offset t + length (log_images es)"
    using assms(4) by (simp_all add: p ct_copied_def)
  have room: "length (ct_write_data p) \<le> kChunkSize" using len assms(10) by (simp add: p ct_copied_def)
  have at: "ct_current_offset t + length (log_images es) - length (log_images (es0 @ es)) = ct_current_offset t - length (log_images es0)"
    by (simp add: log_images_def)
  obtain m' q where m': "mi_lookup (fold apply_migration (ct_migrated p) ?m) key = Some m'"
      "me_file_id m' = ucast (ct_dest_file_id t)" "me_sequence m' = me_sequence m"
      "4096 * unat (me_page_count m') = length (log_image ?x)" "4096 * unat (me_offset_index m') = ct_dest_offset t + q"
      "q + length (log_image ?x) \<le> length (ct_write_data p)"
      "slice q (length (log_image ?x)) (ct_write_data p) = log_image ?x"
    using buffer_moved [OF assms(2) holds assms(6,7) room, of m] assms(11-13,19,20) unfolding fields at by blast
  have "4096 \<le> length (log_image ?x)" using log_image_pages [of ?x] assms(6,7) by simp
  then have data: "ct_write_data p \<noteq> []" using m'(6) by auto
  have s1: "(t1, e1) = (p, e)" using step_process [OF assms(1,3,4)] assms(21) by (simp add: p_def)
  have "ct_src_end (p, comp_world_of e) \<le> ct_current_offset p"
    using assms(14) ct_src_end_fields [OF fields(5)] by (simp add: fields)
  then have s2: "(t2, e2) = (p\<lparr>ct_state := CWriteChunk\<rparr>, e)"
    using step_end_of_source [OF assms(1) fields(7,6) data] assms(22) s1 by simp
  have s3: "(t3, e3) = (p\<lparr>ct_state := CWriteChunk, ct_io_pending := True,
      ct_io := Some (CioWrite (ct_dest_offset p) (ct_write_data p))\<rparr>, e)"
    using step_write [OF assms(1), of "p\<lparr>ct_state := CWriteChunk\<rparr>"] fields data assms(15-18,23) s2 by simp
  have s4: "(t4, e4) = (p\<lparr>ct_io := None, ct_io_pending := False, ct_retry_count := 0, ct_state := CUpdateIndices\<rparr>,
      e\<lparr>en_disk := disk_write (fi_blob_id f) (ct_dest_offset p) (ct_write_data p) (en_disk e)\<rparr>)"
    using complete_write [OF assms(1), of t3 "ct_dest_offset p" "ct_write_data p"] fields assms(15,16,24) s3 by simp
  have s5: "en_index e5 = fold apply_migration (ct_migrated p) ?m"
    "en_disk e5 = disk_write (fi_blob_id f) (ct_dest_offset p) (ct_write_data p) (en_disk e)"
    using step_update [of t4 env io now5 e4] s4 arg_cong [OF assms(25), of snd] by simp_all
  have "mi_lookup (en_index e5) x = Some g"
    if "mi_lookup ?m x = Some g" "ucast (me_file_id g) \<noteq> ct_src_file_id t" for x g
    using buffer_others [OF assms(2) holds assms(6) _ that(1)] that(2) assms(13) by (simp add: s5 fields)
  moreover have "disk_read (en_disk e5) (fi_blob_id f) (4096 * unat (me_offset_index m')) (4096 * unat (me_page_count m')) = log_image ?x"
    unfolding s5 m'(4,5) fields disk_read_within [OF m'(6)] by (rule m'(7))
  moreover have "mi_lookup (en_index e5) key = Some m'" using m'(1) s5(1) by simp
  ultimately show ?thesis using m'(2,3) by blast
qed

text \<open>File 1 is sealed and holds the entry of key 5 in its second page, file 2 is new; the task has read
  the chunk.\<close>

definition demo_moving :: kv_engine where
  "demo_moving = demo_store\<lparr>en_index := demo_index, en_active_file_id := 7, en_next_file_id := 3,
     en_files := [(demo_file 1 FSealed 8192)\<lparr>fi_blob_id := 77\<rparr>, (demo_file 2 FActive 4096)\<lparr>fi_blob_id := 78\<rparr>]\<rparr>"

theorem compaction_preserves_entries_witness:
  "\<exists>t5 e5 m'. ce_step demo_env demo_io 4 (ce_complete 3 0 (\<lambda>_. 0) True 0 (ce_step demo_env demo_io 2
        (ce_step demo_env demo_io 1 (ce_step demo_env demo_io 0 (demo_task\<lparr>ct_state := CProcessEntries, ct_migrated := [],
          ct_read_data := log_image (5, [7], 1, False), ct_bytes_read := 4096\<rparr>, demo_moving))))) = (t5, e5)
     \<and> mi_lookup (en_index e5) 5 = Some m' \<and> me_file_id m' = 2
     \<and> disk_read (en_disk e5) 78 (4096 * unat (me_offset_index m')) (4096 * unat (me_page_count m')) = log_image (5, [7], 1, False)"
proof -
  let ?x = "(5, [7], 1, False) :: log_entry" and ?torn = "\<lambda>_ :: nat. 0 :: byte"
  let ?t = "demo_task\<lparr>ct_state := CProcessEntries, ct_migrated := [], ct_read_data := log_image ?x, ct_bytes_read := 4096\<rparr>"
  let ?f = "(demo_file 2 FActive 4096)\<lparr>fi_blob_id := 78\<rparr>"
  have len: "length (log_image ?x) = 4096"
    using length_log_image [of 5 "[7]" 1 False] by (simp add: unat_kv_entry_size del: log_image.simps)
  obtain t1 e1 where s1: "(t1, e1) = ce_step demo_env demo_io 0 (?t, demo_moving)" by (metis surj_pair)
  obtain t2 e2 where s2: "(t2, e2) = ce_step demo_env demo_io 1 (t1, e1)" by (metis surj_pair)
  obtain t3 e3 where s3: "(t3, e3) = ce_step demo_env demo_io 2 (t2, e2)" by (metis surj_pair)
  obtain t4 e4 where s4: "(t4, e4) = ce_complete 3 0 ?torn True 0 (t3, e3)" by (metis surj_pair)
  obtain t5 e5 where s5: "(t5, e5) = ce_step demo_env demo_io 4 (t4, e4)" by (metis surj_pair)
  have e: "files_ok demo_moving" "mi_inv (en_index demo_moving)" "mi_lookup (en_index demo_moving) 5 = Some demo_entry"
    "file_of demo_moving (ct_dest_file_id ?t) = Some ?f" "fi_blob_opened ?f" "co_channel demo_env"
    by (simp_all add: demo_moving_def demo_store_def demo_index_inv demo_index_lookup files_ok_def file_ok_def demo_file_def
        get_active_file_def get_file_def file_of_def demo_task_def demo_env_def)
  have t: "ct_state ?t = CProcessEntries" "\<not> ct_io_pending ?t" "buffer_holds (en_index demo_moving) ?t []"
    "4096 dvd ct_dest_offset ?t" "ct_dest_offset ?t + kChunkSize \<le> 2 ^ 33" "ct_dest_info ?t = Some (ct_dest_file_id ?t)"
    "length (ct_write_data ?t) + length (log_images [?x]) \<le> kChunkSize" "ct_current_offset ?t + length (log_images [?x]) \<le> 2 ^ 33"
    "ct_src_end (?t, comp_world_of demo_moving) \<le> ct_current_offset ?t + length (log_images [?x])"
    "ct_read_data ?t = log_images [?x]" "ct_bytes_read ?t = length (log_images [?x])"
    using len by (simp_all add: demo_task_def ct_new_def buffer_holds_def kChunkSize_def ct_src_end_def ct_src_file_def
        comp_world_of_def file_of_def get_file_def demo_moving_def demo_store_def demo_file_def del: log_image.simps)
  have x: "list_all log_ok ([] @ [?x])" "[] @ [?x] = [] @ ?x # []" by simp_all
  have at: "me_points (ct_src_file_id ?t)
      (word_of_nat ((ct_current_offset ?t - length (log_images []) + length (log_images [])) div 4096)) demo_entry"
    by (simp add: demo_task_def ct_new_def demo_points)
  from compaction_preserves_entries [OF e(1,2) t(1,2,3) x t(10,11,7,4,5,8,9,6) e(4,5,6,3) at s1 s2 s3 s4 s5]
  show ?thesis unfolding s1 [symmetric] s2 [symmetric] s3 [symmetric] s4 [symmetric] s5 [symmetric]
    by (auto simp: demo_task_def demo_file_def simp del: log_image.simps)
qed

end
