(* ===== verification/KvCompactCopy.thy ===== *)
theory KvCompactCopy
  imports KvCompactInv
begin

text \<open>
  The steps of the task keep the invariant: the states that copy nothing, the copy of a batch of entries
  to the destination, the index moved to the copies, and the destination given up after a failure.
\<close>

section \<open>Steps that copy nothing\<close>

definition same_core :: "comp_task \<Rightarrow> comp_task \<Rightarrow> bool" where
  "same_core t t' \<longleftrightarrow> task_src t' = task_src t \<and> task_dest t' = task_dest t \<and> ct_src_info t' = ct_src_info t
     \<and> ct_dest_info t' = ct_dest_info t \<and> ct_dest_offset t' = ct_dest_offset t \<and> ct_current_offset t' = ct_current_offset t
     \<and> ct_migrated t' = ct_migrated t \<and> ct_committed t' = ct_committed t \<and> ct_write_data t' = ct_write_data t"

fun io_plain :: "comp_io option \<Rightarrow> bool" where
  "io_plain (Some (CioRead off n)) = False"
| "io_plain (Some (CioWrite off data)) = False"
| "io_plain _ = True"

lemma running_core:
  assumes "ce_running t e" "same_core t t'" "ct_state t' \<notin> {CProcessEntries, CUpdateIndices}" "io_plain (ct_io t')"
  shows "ce_running t' e"
proof -
  have "case ct_io t' of Some (CioRead off n) \<Rightarrow> P off n | Some (CioWrite off d) \<Rightarrow> Q off d | _ \<Rightarrow> True" for P Q
    using assms(4) by (cases "ct_io t'" rule: io_plain.cases) simp_all
  then show ?thesis
    using assms(1-3) unfolding ce_running_def src_ok_def dest_ok_def committed_ok_def pending_ok_def pending_one_def chunk_ok_def
      same_core_def src_end_def by simp
qed

lemma phase_running: "ce_running t e \<Longrightarrow> \<not> is_removal t \<Longrightarrow> ct_state t \<noteq> CInit \<Longrightarrow> ce_phase t e"
  by (simp add: ce_phase_def)

lemma phase_over: "\<not> is_removal t \<Longrightarrow> ct_state t \<in> {CRollbackMarkSealed, CFailed, CDone} \<Longrightarrow> ce_phase t e"
  by (auto simp: ce_phase_def)

lemma handle_core:
  "same_core t (handle_io_error now st status t)" "ct_io (handle_io_error now st status t) = ct_io t"
  "ct_state (handle_io_error now st status t) = CRetryWait \<or> ct_state (handle_io_error now st status t) = CRollback"
  by (simp_all add: handle_io_error_def same_core_def Let_def)

lemma running_error:
  assumes "ce_running t e" "ct_io t = None"
  shows "ce_phase (handle_io_error now st status (t\<lparr>ct_io_pending := b\<rparr>)) e"
    and "ct_io (handle_io_error now st status (t\<lparr>ct_io_pending := b\<rparr>)) = None"
proof -
  let ?t = "handle_io_error now st status (t\<lparr>ct_io_pending := b\<rparr>)"
  have "same_core t ?t" using handle_core(1) [of "t\<lparr>ct_io_pending := b\<rparr>" now st status] by (simp add: same_core_def)
  then have "ce_running ?t e" using handle_core(2,3) [of now st status "t\<lparr>ct_io_pending := b\<rparr>"] assms
    by (intro running_core [OF assms(1)]) auto
  then show "ce_phase ?t e" "ct_io ?t = None"
    using handle_core(2,3) [of now st status "t\<lparr>ct_io_pending := b\<rparr>"] assms(2) by (auto simp: is_removal_def intro!: phase_running)
qed

definition ce_good :: "kv_engine \<Rightarrow> comp_task \<times> kv_engine \<Rightarrow> bool" where
  "ce_good e r \<longleftrightarrow> ce_same e (snd r) \<and> io_page_ok (ct_io (fst r)) \<and> ce_phase (fst r) (snd r)"

lemma same_refl: "ce_live e \<Longrightarrow> ce_same e e"
  by (simp add: ce_same_def ce_live_def)

lemma same_trans: "ce_same e e1 \<Longrightarrow> ce_same e1 e2 \<Longrightarrow> ce_same e e2"
  by (simp add: ce_same_def)

lemma same_live: "ce_same e e' \<Longrightarrow> ce_live e'"
  by (simp add: ce_same_def ce_live_def)

text \<open>Metadata play no part.\<close>

lemma meta_same: "ce_live e \<Longrightarrow> ce_same e (with_files None f (en_index e) metas e)"
  and meta_stable: "ce_stable I e (with_files None f (en_index e) metas e)"
proof -
  have upd: "upd_file None f fs = fs" for fs by (simp add: upd_file_def)
  show "ce_same e (with_files None f (en_index e) metas e)" if live: "ce_live e"
  proof -
    have "files_ok (with_files None f (en_index e) metas e)"
      using live_files [OF live] by (simp add: with_files_def upd files_ok_def get_active_file_def get_file_def)
    then have "kv_inv (with_files None f (en_index e) metas e) \<and> kv_abs (with_files None f (en_index e) metas e) = kv_abs e"
      using live_files [OF live] by (intro kv_grows) (simp_all add: upd store_grows_refl)
    then show ?thesis using live by (simp add: ce_same_def ce_live_def kv_serving_def)
  qed
  show "ce_stable I e (with_files None f (en_index e) metas e)"
    by (auto simp: ce_stable_def with_files_def upd store_grows_refl file_of_def get_file_def same_data_def)
qed

lemma ce_step_dispatch:
  assumes "\<not> ct_io_pending t" "ct_state t \<noteq> CInit"
  shows "ce_step env io now (t, e) = (case ct_dispatch (ce_env env io e) now (ct_state t) (t, comp_world_of e) of
    (t', w) \<Rightarrow> (t', with_comp_world w e))"
  using assms by (simp add: ce_step_def ct_step_def ce_allocates_def)

lemma length_header_page [simp]: "length (data_header_page i st time) = 4096"
  by (simp add: data_header_page_def data_file_header_bytes_def Let_def)

lemma write_header_result:
  obtains page where "ct_write_file_header env p st mk cb (t, w) = (t\<lparr>ct_io := Some (mk page)\<rparr>, w)" "length page = 4096"
  | err where "ct_write_file_header env p st mk cb (t, w) = cb err (t, w)" "err \<noteq> 0"
proof (cases "co_header_dma env")
  case False
  then show ?thesis using that(2) [of "-12"] by (simp add: ct_write_file_header_def)
next
  case True
  define page where "page = data_header_page (case p of None \<Rightarrow> 0 | Some i \<Rightarrow> i) st 0"
  have "ct_write_file_header env p st mk cb (t, w) = ct_submit env p (mk page) cb (t, w)"
    using True by (simp add: ct_write_file_header_def page_def)
  then show ?thesis
    using that(1) [of page] that(2) [of "-1"] by (cases rule: ct_submit_cases [of env p "mk page" cb "(t, w)"]) (simp_all add: page_def)
qed

lemma good_mark_compacting:
  assumes "ce_live e" "ce_running t e" "ct_io t = None" "ct_state t = CMarkCompacting" "\<not> ct_io_pending t"
  shows "ce_good e (ce_step env io now (t, e))"
proof -
  define w where "w = cw_update_file (ct_src_info t) (\<lambda>f. f\<lparr>fi_state := FCompacting\<rparr>)
    (cw_update_meta (ct_src_meta t) (\<lambda>f. f\<lparr>ft_state := FCompacting\<rparr>) (comp_world_of e))"
  define e' where "e' = with_files (ct_src_info t) (\<lambda>f. f\<lparr>fi_state := FCompacting\<rparr>) (en_index e) (cw_meta w) e"
  have w: "with_comp_world w e = e'"
    unfolding e'_def using live_files [OF assms(1)]
    by (subst world_update [where p = "ct_src_info t" and f = "\<lambda>f. f\<lparr>fi_state := FCompacting\<rparr>"]) (simp_all add: w_def cw_update_files)
  have readable: "file_state_readable FCompacting" by (simp add: file_state_readable_def)
  have same: "ce_same e e'" unfolding e'_def by (rule state_same [OF assms(1) readable])
  have run: "ce_running t e'" unfolding e'_def by (rule running_stable [OF assms(2) state_stable [OF readable]])
  note step = ce_step_dispatch [OF assms(5), of env io now e]
  show ?thesis
  proof (cases rule: write_header_result [of "ce_env env io e" "ct_src_info t" FCompacting CioMarkCompacting "ct_on_mark_compacting now"
        "t\<lparr>ct_io_pending := True\<rparr>" w])
    case (1 page)
    have "ce_running (t\<lparr>ct_io_pending := True, ct_io := Some (CioMarkCompacting page)\<rparr>) e'"
      by (rule running_core [OF run]) (simp_all add: same_core_def assms(4))
    then show ?thesis using step 1 same assms(4)
      by (simp add: ct_mark_compacting_def Let_def w_def [symmetric] w ce_good_def phase_running is_removal_def)
  next
    case (2 err)
    then show ?thesis using step same assms(3,4) running_error [OF run assms(3)]
      by (simp add: ct_mark_compacting_def Let_def w_def [symmetric] w ce_good_def ct_on_mark_compacting_def)
  qed
qed

lemma good_mark_deleted:
  assumes "ce_live e" "ce_running t e" "ct_io t = None" "ct_state t = CMarkDeleted" "\<not> ct_io_pending t"
  shows "ce_good e (ce_step env io now (t, e))"
proof -
  define w where "w = cw_update_meta (ct_src_meta t)
    (\<lambda>f. f\<lparr>ft_state := FDeleted, ft_valid_entries := 0, ft_valid_bytes := 0\<rparr>) (comp_world_of e)"
  define e' where "e' = with_files None id (en_index e) (cw_meta w) e"
  have w: "with_comp_world w e = e'"
    unfolding e'_def using live_files [OF assms(1)] by (subst world_same) (simp_all add: w_def cw_update_files)
  have same: "ce_same e e'" unfolding e'_def by (rule meta_same [OF assms(1)])
  have run: "ce_running t e'" unfolding e'_def by (rule running_stable [OF assms(2) meta_stable])
  note step = ce_step_dispatch [OF assms(5), of env io now e]
  show ?thesis
  proof (cases rule: write_header_result [of "ce_env env io e" "ct_src_info t" FDeleted CioMarkDeleted "ct_on_mark_deleted now"
        "t\<lparr>ct_io_pending := True\<rparr>" w])
    case (1 page)
    have "ce_running (t\<lparr>ct_io_pending := True, ct_io := Some (CioMarkDeleted page)\<rparr>) e'"
      by (rule running_core [OF run]) (simp_all add: same_core_def assms(4))
    then show ?thesis using step 1 same assms(4)
      by (simp add: mark_deleted_def Let_def w_def [symmetric] w ce_good_def phase_running is_removal_def)
  next
    case (2 err)
    then show ?thesis using step same assms(3,4) running_error [OF run assms(3)]
      by (simp add: mark_deleted_def Let_def w_def [symmetric] w ce_good_def ct_on_mark_deleted_def)
  qed
qed

lemma good_mark_sealed:
  assumes "ce_live e" "ct_io t = None" "ct_state t = CRollbackMarkSealed" "\<not> ct_io_pending t"
  shows "ce_good e (ce_step env io now (t, e))"
proof -
  define w where "w = cw_update_meta (ct_src_meta t) (\<lambda>f. f\<lparr>ft_state := FSealed\<rparr>)
    (cw_update_file (ct_src_info t) (\<lambda>f. f\<lparr>fi_state := FSealed\<rparr>) (comp_world_of e))"
  define e' where "e' = with_files (ct_src_info t) (\<lambda>f. f\<lparr>fi_state := FSealed\<rparr>) (en_index e) (cw_meta w) e"
  have w: "with_comp_world w e = e'"
    unfolding e'_def using live_files [OF assms(1)]
    by (subst world_update [where p = "ct_src_info t" and f = "\<lambda>f. f\<lparr>fi_state := FSealed\<rparr>"]) (simp_all add: w_def cw_update_files)
  have same: "ce_same e e'" unfolding e'_def
    by (rule state_same [OF assms(1)]) (simp add: file_state_readable_def)
  note step = ce_step_dispatch [OF assms(4), of env io now e]
  show ?thesis
  proof (cases rule: write_header_result [of "ce_env env io e" "ct_src_info t" FSealed CioMarkSealed ct_on_mark_sealed
        "t\<lparr>ct_io_pending := True\<rparr>" w])
    case (1 page)
    then show ?thesis using step same assms(3)
      by (simp add: rollback_mark_sealed_def Let_def w_def [symmetric] w ce_good_def phase_over is_removal_def)
  next
    case (2 err)
    then show ?thesis using step same assms(2,3)
      by (simp add: rollback_mark_sealed_def Let_def w_def [symmetric] w ce_good_def ct_on_mark_sealed_def ct_free_dma_buffers_def
          phase_over is_removal_def)
  qed
qed

text \<open>Steps that leave the engine alone.\<close>

lemma world_kept:
  assumes "ce_live e"
  shows "ce_same e (with_comp_world (comp_world_of e) e)" "ce_stable I e (with_comp_world (comp_world_of e) e)"
proof -
  have w: "with_comp_world (comp_world_of e) e = with_files None id (en_index e) (cw_meta (comp_world_of e)) e"
    using live_files [OF assms] by (subst world_same) (simp_all add: cw_update_files)
  show "ce_same e (with_comp_world (comp_world_of e) e)" unfolding w by (rule meta_same [OF assms])
  show "ce_stable I e (with_comp_world (comp_world_of e) e)" unfolding w by (rule meta_stable)
qed

text \<open>A step that only changes the task is good when the task runs on.\<close>

lemma good_task:
  assumes "ce_live e" "ce_running t' e" "io_page_ok (ct_io t')" "\<not> is_removal t'" "ct_state t' \<noteq> CInit"
  shows "ce_good e (t', with_comp_world (comp_world_of e) e)"
  using world_kept [OF assms(1)] running_stable [OF assms(2)] assms(3-5)
  by (simp add: ce_good_def phase_running)

lemma good_quiet:
  assumes "ce_live e" "ce_running t e" "ct_io t = None" "\<not> ct_io_pending t" "ct_state t = CFinalize \<or> ct_state t = CRetryWait" "comp_wf t"
  shows "ce_good e (ce_step env io now (t, e))"
proof -
  have state: "ct_state t \<noteq> CInit" using assms(5) by auto
  obtain st where st: "ct_dispatch (ce_env env io e) now (ct_state t) (t, comp_world_of e) = (t\<lparr>ct_state := st\<rparr>, comp_world_of e)"
    "st \<in> {CWriteChunk, CMarkDeleted, CRetryWait, CMarkCompacting, CReadChunk}"
  proof -
    consider "ct_state t = CFinalize" | "ct_state t = CRetryWait" "check_retry_timeout now t = t"
      | "ct_state t = CRetryWait" "check_retry_timeout now t = t\<lparr>ct_state := ct_retry_target t\<rparr>"
    proof -
      have "check_retry_timeout now t = t \<or> check_retry_timeout now t = t\<lparr>ct_state := ct_retry_target t\<rparr>"
        by (simp add: check_retry_timeout_def)
      then show ?thesis using assms(5) that by blast
    qed
    then show thesis
    proof cases
      case 1
      then show ?thesis using that [of CWriteChunk] that [of CMarkDeleted] by (cases "ct_write_data t = []") (simp_all add: finalize_def)
    next
      case 2
      then have "t\<lparr>ct_state := CRetryWait\<rparr> = t" by simp
      then show ?thesis using that [of CRetryWait] 2 by simp
    next
      case 3
      then show ?thesis using that [of "ct_retry_target t"] assms(6) by (auto simp: comp_wf_defs)
    qed
  qed
  have "ce_running (t\<lparr>ct_state := st\<rparr>) e"
    by (rule running_core [OF assms(2)]) (use st(2) assms(3) in \<open>auto simp: same_core_def\<close>)
  then have "ce_good e (t\<lparr>ct_state := st\<rparr>, with_comp_world (comp_world_of e) e)"
    by (rule good_task [OF assms(1)]) (use st(2) assms(3) in \<open>auto simp: is_removal_def\<close>)
  then show ?thesis by (simp add: ce_step_dispatch [OF assms(4) state] st(1))
qed

lemma skip_pages_dvd: "4096 dvd offset \<Longrightarrow> 4096 dvd skip_pages meta n offset"
proof (induction meta n offset rule: skip_pages.induct)
  case (1 meta src_end offset)
  then show ?case by (subst skip_pages.simps) simp
qed

lemma skip_invalid_pages_dvd:
  assumes "4096 dvd ct_current_offset t" "4096 \<le> ct_current_offset t"
  obtains k where "skip_invalid_pages (t, w) = t\<lparr>ct_current_offset := k\<rparr>" "4096 dvd k" "4096 \<le> k"
proof -
  have same: "t\<lparr>ct_current_offset := ct_current_offset t\<rparr> = t" by simp
  consider "skip_invalid_pages (t, w) = t"
    | meta where "skip_invalid_pages (t, w) = t\<lparr>ct_current_offset := skip_pages meta (ct_src_end (t, w)) (ct_current_offset t)\<rparr>"
  proof -
    have "skip_invalid_pages (t, w) = t \<or> (\<exists>meta. skip_invalid_pages (t, w)
        = t\<lparr>ct_current_offset := skip_pages meta (ct_src_end (t, w)) (ct_current_offset t)\<rparr>)"
      by (auto simp: skip_invalid_pages_def split: option.split)
    then show ?thesis using that by blast
  qed
  then show thesis
  proof cases
    case 1
    then show ?thesis using that [of "ct_current_offset t"] same assms by (simp only:)
  next
    case (2 meta)
    then show ?thesis by (rule that) (rule skip_pages_dvd [OF assms(1)], rule order_trans [OF assms(2) skip_pages_ge])
  qed
qed

lemma read_size_fits:
  assumes "4096 dvd k" "4096 dvd n" "k < n"
  shows "4096 dvd ct_read_size n k \<and> k + ct_read_size n k \<le> n"
proof -
  have "4096 dvd min kChunkSize (n - k)" using assms by (simp add: min_def kChunkSize_def)
  then obtain q where "min kChunkSize (n - k) = 4096 * q" by blast
  then have "ct_read_size n k = min kChunkSize (n - k)" by (simp add: ct_read_size_def)
  then show ?thesis using \<open>4096 dvd min kChunkSize (n - k)\<close> assms(3) by simp
qed

lemma running_offset:
  "ce_running t e \<Longrightarrow> io_plain (ct_io t) \<Longrightarrow> ct_state t \<notin> {CProcessEntries, CUpdateIndices} \<Longrightarrow> 4096 dvd k \<Longrightarrow> 4096 \<le> k
   \<Longrightarrow> ce_running (t\<lparr>ct_current_offset := k\<rparr>) e"
  by (cases "ct_io t" rule: io_plain.cases)
    (simp_all add: ce_running_def src_ok_def dest_ok_def committed_ok_def pending_ok_def pending_one_def chunk_ok_def src_end_def)

lemma running_world:
  assumes "ce_running t e"
  shows "ct_src_end (t, comp_world_of e) = src_end t e" "4096 dvd src_end t e \<or> \<not> files_ok e"
proof -
  obtain f where f: "file_of e (task_src t) = Some f" "ct_src_info t = Some (task_src t)"
    using assms by (auto simp: ce_running_def src_ok_def dest_ok_def)
  then show "ct_src_end (t, comp_world_of e) = src_end t e"
    by (simp add: ct_src_end_def ct_src_file_def src_end_def cw_update_files)
  have "f \<in> set (en_files e)" using file_of_member [OF f(1)] by blast
  then show "4096 dvd src_end t e \<or> \<not> files_ok e"
    using f by (auto simp: src_end_def files_ok_def file_ok_def)
qed

lemma good_read:
  assumes "ce_live e" "ce_running t e" "ct_io t = None" "ct_state t = CReadChunk" "\<not> ct_io_pending t"
  shows "ce_good e (ce_step env io now (t, e))"
proof -
  let ?w = "comp_world_of e" and ?n = "src_end t e" and ?env = "ce_env env io e"
  have off: "4096 dvd ct_current_offset t" "4096 \<le> ct_current_offset t" using assms(2) by (simp_all add: ce_running_def chunk_ok_def)
  obtain k where k: "skip_invalid_pages (t, ?w) = t\<lparr>ct_current_offset := k\<rparr>" "4096 dvd k" "4096 \<le> k"
    using skip_invalid_pages_dvd [OF off] by blast
  define t1 where "t1 = t\<lparr>ct_current_offset := k\<rparr>"
  have run: "ce_running t1 e" unfolding t1_def by (rule running_offset [OF assms(2)]) (use assms(3,4) k in simp_all)
  have fields: "ct_io t1 = None" "ct_state t1 = CReadChunk" "ct_src_info t1 = ct_src_info t" "ct_current_offset t1 = k"
    "ct_write_data t1 = ct_write_data t" "src_end t1 e = ?n"
    using assms(3,4) by (simp_all add: t1_def src_end_def)
  have n: "ct_src_end (t, ?w) = ?n" "4096 dvd ?n" using running_world [OF assms(2)] live_files [OF assms(1)] by auto
  have step: "ce_step env io now (t, e) = (case read_next_chunk ?env now (t, ?w) of (t', w) \<Rightarrow> (t', with_comp_world w e))"
    using ce_step_dispatch [OF assms(5)] assms(4) by simp
  show ?thesis
  proof (cases "k < ?n")
    case False
    define t2 where "t2 = t1\<lparr>ct_state := (if length (ct_write_data t1) > 0 then CWriteChunk else CFinalize)\<rparr>"
    have "read_next_chunk ?env now (t, ?w) = (t2, ?w)"
      using False k(1) n by (simp add: read_next_chunk_def Let_def t1_def t2_def)
    moreover have "ce_running t2 e"
      by (rule running_core [OF run]) (auto simp: t2_def same_core_def fields)
    then have "ce_good e (t2, with_comp_world ?w e)"
      by (rule good_task [OF assms(1)]) (simp_all add: t2_def fields is_removal_def)
    ultimately show ?thesis by (simp add: step)
  next
    case True
    let ?io = "CioRead k (ct_read_size ?n k)" and ?t = "t1\<lparr>ct_io_pending := True\<rparr>"
    have sub: "read_next_chunk ?env now (t, ?w) = ct_submit ?env (ct_src_info t) ?io (ct_on_read now (ct_read_size ?n k) []) (?t, ?w)"
      using True k(1) n by (simp add: read_next_chunk_def Let_def t1_def)
    show ?thesis
    proof (cases rule: ct_submit_cases [of ?env "ct_src_info t" ?io "ct_on_read now (ct_read_size ?n k) []" "(?t, ?w)"])
      case 1
      have "ce_running (?t\<lparr>ct_io := Some ?io\<rparr>) e"
        using run read_size_fits [OF k(2) n(2) True] fields
        by (simp add: ce_running_def src_ok_def dest_ok_def committed_ok_def pending_ok_def pending_one_def chunk_ok_def src_end_def)
      then have "ce_good e (?t\<lparr>ct_io := Some ?io\<rparr>, with_comp_world ?w e)"
        by (rule good_task [OF assms(1)]) (simp_all add: fields is_removal_def)
      then show ?thesis using 1 by (simp add: step sub)
    next
      case 2
      have st: "ct_on_read now n [] (-1) (?t, ?w) = (handle_io_error now CReadChunk (-1) (t1\<lparr>ct_io_pending := False\<rparr>), ?w)" for n
        by (simp add: ct_on_read_def)
      show ?thesis
        using 2 running_error [OF running_stable [OF run world_kept(2) [OF assms(1)]] fields(1)] world_kept(1) [OF assms(1)]
        by (simp add: step sub st ce_good_def)
    qed
  qed
qed

lemma good_write:
  assumes "ce_live e" "ce_running t e" "ct_io t = None" "ct_state t = CWriteChunk" "\<not> ct_io_pending t"
  shows "ce_good e (ce_step env io now (t, e))"
proof -
  let ?w = "comp_world_of e" and ?env = "ce_env env io e" and ?t = "t\<lparr>ct_io_pending := True\<rparr>"
  let ?io = "CioWrite (ct_dest_offset t) (ct_write_data t)"
  have step: "ce_step env io now (t, e) = (case write_chunk ?env now (t, ?w) of (t', w) \<Rightarrow> (t', with_comp_world w e))"
    using ce_step_dispatch [OF assms(5)] assms(4) by simp
  show ?thesis
  proof (cases "ct_write_data t = []")
    case True
    have "ce_running (t\<lparr>ct_state := CReadChunk\<rparr>) e"
      by (rule running_core [OF assms(2)]) (simp_all add: same_core_def assms(3))
    then have "ce_good e (t\<lparr>ct_state := CReadChunk\<rparr>, with_comp_world ?w e)"
      by (rule good_task [OF assms(1)]) (simp_all add: is_removal_def assms(3))
    then show ?thesis using True by (simp add: step write_chunk_def)
  next
    case False
    show ?thesis
    proof (cases rule: ct_submit_cases [of ?env "ct_dest_info t" ?io "ct_on_write now" "(?t, ?w)"])
      case 1
      have "ce_running (?t\<lparr>ct_io := Some ?io\<rparr>) e"
        using assms(2,4) by (simp add: ce_running_def src_ok_def dest_ok_def committed_ok_def pending_ok_def pending_one_def chunk_ok_def src_end_def)
      then have "ce_good e (?t\<lparr>ct_io := Some ?io\<rparr>, with_comp_world ?w e)"
        by (rule good_task [OF assms(1)]) (simp_all add: is_removal_def assms(4))
      then show ?thesis using 1 False by (simp add: step write_chunk_def)
    next
      case 2
      have st: "ct_on_write now (-1) (?t, ?w) = (handle_io_error now CWriteChunk (-1) (t\<lparr>ct_io_pending := False\<rparr>), ?w)"
        by (simp add: ct_on_write_def)
      show ?thesis
        using 2 False running_error [OF running_stable [OF assms(2) world_kept(2) [OF assms(1)]] assms(3)] world_kept(1) [OF assms(1)]
        by (simp add: step write_chunk_def st ce_good_def)
    qed
  qed
qed

section \<open>Copying\<close>

lemma points_fits: "me_points f off m \<Longrightarrow> place_fits f off"
proof -
  have "unat (x :: 10 word) < 2 ^ 10" "unat (y :: 21 word) < 2 ^ 21" for x y
    by (rule order_less_le_trans [OF unsigned_less], simp)+
  moreover have "unat (ucast (x :: 10 word) :: u16) \<le> unat x" "unat (ucast (y :: 21 word) :: u32) \<le> unat y" for x y
    by (simp_all add: unsigned_ucast_eq unsigned_take_bit_eq take_bit_nat_less_eq_self)
  ultimately have "unat (ucast (x :: 10 word) :: u16) < 2 ^ 10" "unat (ucast (y :: 21 word) :: u32) < 2 ^ 21" for x y
    by (blast intro: order_le_less_trans)+
  then show "me_points f off m \<Longrightarrow> place_fits f off" by (auto simp: me_points_def place_fits_def)
qed

lemma slice_disk_read: "off + k \<le> n \<Longrightarrow> slice off k (disk_read d b pos n) = disk_read d b (pos + off) k"
  by (simp add: slice_def disk_read_def drop_map take_map add.assoc min_def)

text \<open>What an image looks like to a reader of the blob.\<close>

lemma image_bytes:
  assumes "image_at e f off pc key v" "place_fits f off" "file_of e f = Some i"
  obtains seq where "length v \<le> kMaxStoredLen" "length (log_image (key, v, seq, False)) = 4096 * unat pc"
    "disk_read (en_disk e) (fi_blob_id i) (4096 * unat off) (4096 * unat pc) = log_image (key, v, seq, False)"
  using assms by (auto simp: image_at_def on_disk_def place_file place_offset file_of_Some)

lemma image_size:
  assumes "length (log_image (key, v, seq, False)) = 4096 * unat pc" "length v \<le> kMaxStoredLen"
  shows "unat (kv_entry_size (word_of_nat (length v))) = 4096 * unat pc" "1 \<le> unat pc"
  using assms length_log_image [OF log_ok_stored [OF assms(2)], of key seq False] kv_entry_size_bounds [of "word_of_nat (length v)"]
  by (simp_all del: log_image.simps)

text \<open>A position of the read buffer that passes the checks holds the entry the index points to.\<close>

lemma read_entry:
  assumes "kv_inv e" "file_of e src = Some i" "data = disk_read (en_disk e) (fi_blob_id i) pos n" "4096 dvd pos + off"
    and "pos + n \<le> 2 ^ 33" "off < n" "ct_validate_entry data off (n - off)" "k = unat (kv_entry_size (get_u32 data (off + 24)))"
    and "ct_should_migrate (en_index e) key src (word_of_nat ((pos + off) div 4096))"
  obtains v seq pc where "image_at e src (word_of_nat ((pos + off) div 4096)) pc key v" "length v \<le> kMaxStoredLen"
    "length (log_image (key, v, seq, False)) = 4096 * unat pc" "k = 4096 * unat pc" "slice off k data = log_image (key, v, seq, False)"
    "place_fits src (word_of_nat ((pos + off) div 4096))"
proof -
  let ?oi = "word_of_nat ((pos + off) div 4096) :: u32"
  obtain m where m: "mi_lookup (en_index e) key = Some m" "me_points src ?oi m"
    using assms(9) by (auto simp: should_migrate_lookup)
  then obtain v where "on_disk (en_files e) (en_disk e) m key v" using assms(1) unfolding kv_inv_def by blast
  then have img: "image_at e src ?oi (me_page_count m) key v" by (simp only: on_disk_place [OF m(2)])
  have "(pos + off) div 4096 < 2 ^ 32" using assms(5,6) by simp
  then have oi: "4096 * unat ?oi = pos + off" using assms(4) by (simp add: unat_of_nat_small)
  obtain seq where seq: "length v \<le> kMaxStoredLen" "length (log_image (key, v, seq, False)) = 4096 * unat (me_page_count m)"
    "disk_read (en_disk e) (fi_blob_id i) (pos + off) (4096 * unat (me_page_count m)) = log_image (key, v, seq, False)"
    using image_bytes [OF img points_fits [OF m(2)] assms(2)] unfolding oi by blast
  have k: "k \<le> n - off" "28 \<le> k"
    using assms(7,8) kv_entry_size_bounds [of "get_u32 data (off + 24)"] by (auto simp: ct_validate_entry_def Let_def split: if_splits)
  have big: "28 \<le> 4096 * unat (me_page_count m)" using image_size(2) [OF seq(2,1)] by simp
  have "get_u32 data (off + 24) = get_u32 (slice off 28 data) 24" by (simp add: get_slice)
  also have "slice off 28 data = disk_read (en_disk e) (fi_blob_id i) (pos + off) 28"
    unfolding assms(3) by (rule slice_disk_read) (use k in simp)
  also have "get_u32 \<dots> 24 = word_of_nat (length v)"
    using get_u32_disk [OF big, of "en_disk e" "fi_blob_id i" "pos + off"] seq(3) log_image_fields(2) [OF seq(1)] by simp
  finally have len: "k = 4096 * unat (me_page_count m)" using image_size(1) [OF seq(2,1)] assms(8) by simp
  moreover have "slice off k data = log_image (key, v, seq, False)"
    unfolding assms(3) using k(1) assms(6) seq(3) len by (subst slice_disk_read) (simp_all del: log_image.simps)
  ultimately show thesis using that [OF img seq(1,2)] points_fits [OF m(2)] by blast
qed

text \<open>Copying an entry makes one more pending migration.\<close>

lemma pending_copy:
  assumes "pending_ok t e" "image_at e (task_src t) oi pc key v" "place_fits (task_src t) oi" "length v \<le> kMaxStoredLen"
    and "length (log_image (key, v, seq, False)) = 4096 * unat pc" "slice off (4096 * unat pc) (ct_read_data t) = log_image (key, v, seq, False)"
    and "oi = word_of_nat ((ct_current_offset t + off) div 4096)"
    and "4096 dvd ct_dest_offset t" "ct_dest_offset t \<le> 2 ^ 33" "length (ct_write_data t) \<le> kChunkSize"
  shows "pending_ok (ct_copy_entry off key (4096 * unat pc) q t) e"
proof -
  let ?n = "4096 * unat pc" and ?wd = "ct_write_data t"
  let ?t = "ct_copy_entry off key ?n q t" and ?g = "ct_migration t off key ?n q"
  have t: "task_src ?t = task_src t" "task_dest ?t = task_dest t" "ct_dest_offset ?t = ct_dest_offset t"
    "ct_write_data ?t = ?wd @ log_image (key, v, seq, False)" "ct_migrated ?t = ct_migrated t @ [?g]"
    using assms(6) by (simp_all add: ct_copy_entry_def)
  have wd: "4096 dvd length ?wd" using assms(1) by (simp add: pending_ok_def)
  then have div: "4096 dvd ct_dest_offset t + length ?wd" using assms(8) by simp
  have "(ct_dest_offset t + length ?wd) div 4096 < 2 ^ 32" using assms(9,10) by (simp add: kChunkSize_def)
  then have new: "4096 * unat (mg_new_offset_index ?g) = ct_dest_offset t + length ?wd"
    using div by (simp add: ct_migration_def unat_of_nat_small)
  have "pending_one ?t e ?g"
    unfolding pending_one_def t
    by (intro conjI exI [of _ v] exI [of _ seq] exI [of _ "length ?wd"])
      (use assms(2-7) new in \<open>simp_all add: ct_migration_def slice_skip slice_here [where zs = "[]", simplified] del: log_image.simps\<close>)
  moreover have "pending_one ?t e g" if "pending_one t e g" for g
  proof -
    from that obtain v' seq' p where "image_at e (task_src t) (mg_old_offset_index g) (mg_page_count g) (mg_key g) v'"
      "length v' \<le> kMaxStoredLen" "length (log_image (mg_key g, v', seq', False)) = 4096 * unat (mg_page_count g)"
      "4096 * unat (mg_new_offset_index g) = ct_dest_offset t + p" "p + 4096 * unat (mg_page_count g) \<le> length ?wd"
      "slice p (4096 * unat (mg_page_count g)) ?wd = log_image (mg_key g, v', seq', False)"
      unfolding pending_one_def by blast
    then show ?thesis
      using that unfolding pending_one_def t
      by (intro conjI exI [of _ v'] exI [of _ seq'] exI [of _ p]) (simp_all add: slice_within del: log_image.simps)
  qed
  moreover have "4096 dvd length (ct_write_data ?t)" using wd assms(5) by (simp add: t del: log_image.simps)
  ultimately show ?thesis using assms(1) by (auto simp: pending_ok_def t)
qed

lemma pending_fields [simp]:
  "pending_ok (t\<lparr>ct_state := st\<rparr>) e = pending_ok t e" "pending_ok (t\<lparr>ct_entries_processed := k\<rparr>) e = pending_ok t e"
  "pending_ok (t\<lparr>ct_current_offset := k\<rparr>) e = pending_ok t e"
  by (simp_all add: pending_ok_def pending_one_def)

text \<open>What the loop of \<^verbatim>\<open>process_entries\<close> finds at every turn.\<close>

definition chunk_read :: "kv_engine \<Rightarrow> comp_task \<Rightarrow> bool" where
  "chunk_read e t \<longleftrightarrow> (\<exists>i. file_of e (task_src t) = Some i
     \<and> ct_read_data t = disk_read (en_disk e) (fi_blob_id i) (ct_current_offset t) (ct_bytes_read t))
     \<and> 4096 dvd ct_current_offset t \<and> ct_current_offset t + ct_bytes_read t \<le> 2 ^ 33
     \<and> 4096 dvd ct_dest_offset t \<and> ct_dest_offset t \<le> 2 ^ 33 \<and> length (ct_write_data t) \<le> kChunkSize"

lemma chunk_read_copy:
  "chunk_read e t \<Longrightarrow> length (ct_write_data t) + n \<le> kChunkSize \<Longrightarrow> chunk_read e (ct_copy_entry off key n q (t\<lparr>ct_entries_processed := k\<rparr>))"
  "chunk_read e (t\<lparr>ct_entries_processed := k\<rparr>) = chunk_read e t"
  by (auto simp: chunk_read_def ct_copy_entry_def slice_def)

lemma next_page_dvd: "4096 dvd next_page off"
  by (simp add: next_page_def)

lemma pending_loop_copy:
  assumes "kv_inv e" "pending_ok t e" "chunk_read e t" "4096 dvd off" "off < ct_bytes_read t"
    and "ct_validate_entry (ct_read_data t) off (ct_bytes_read t - off)"
    and "key = get_u64 (ct_read_data t) (off + 16)" "n = unat (kv_entry_size (get_u32 (ct_read_data t) (off + 24)))"
    and "ct_should_migrate (en_index e) key (task_src t) (word_of_nat ((ct_current_offset t + off) div 4096))"
  shows "pending_ok (ct_copy_entry off key n q (t\<lparr>ct_entries_processed := k\<rparr>)) e"
proof -
  define oi :: u32 where "oi = word_of_nat ((ct_current_offset t + off) div 4096)"
  obtain i where i: "file_of e (task_src t) = Some i"
    "ct_read_data t = disk_read (en_disk e) (fi_blob_id i) (ct_current_offset t) (ct_bytes_read t)"
    "4096 dvd ct_current_offset t" "ct_current_offset t + ct_bytes_read t \<le> 2 ^ 33"
    "4096 dvd ct_dest_offset t" "ct_dest_offset t \<le> 2 ^ 33" "length (ct_write_data t) \<le> kChunkSize"
    using assms(3) unfolding chunk_read_def by blast
  have pos: "4096 dvd ct_current_offset t + off" using i(3) assms(4) by simp
  obtain v seq pc where e: "image_at e (task_src t) oi pc key v" "length v \<le> kMaxStoredLen"
    "length (log_image (key, v, seq, False)) = 4096 * unat pc" "n = 4096 * unat pc"
    "slice off n (ct_read_data t) = log_image (key, v, seq, False)" "place_fits (task_src t) oi"
    using read_entry [OF assms(1) i(1,2) pos i(4) assms(5,6,8) assms(9)] unfolding oi_def by blast
  show ?thesis
    unfolding e(4) by (rule pending_copy [where v = v and seq = seq and oi = oi])
      (use e i assms(2) in \<open>simp_all add: oi_def del: log_image.simps\<close>)
qed

lemma process_pending:
  assumes "kv_inv e"
  shows "pending_ok t e \<Longrightarrow> chunk_read e t \<Longrightarrow> 4096 dvd off \<Longrightarrow> pending_ok (process_loop (en_index e) off t) e"
proof (induction "en_index e" off t rule: process_loop.induct)
  case (1 off t)
  show ?case
  proof (cases "off < ct_bytes_read t")
    case False
    then show ?thesis using "1.prems"(1) by (subst process_loop.simps) simp
  next
    case lt: True
    show ?thesis
    proof (cases "ct_validate_entry (ct_read_data t) off (ct_bytes_read t - off)")
      case False
      then show ?thesis using "1.hyps"(1) [OF lt False "1.prems"(1,2) next_page_dvd]
        by (subst process_loop.simps) (simp add: lt)
    next
      case valid: True
      define key where "key = get_u64 (ct_read_data t) (off + 16)"
      define h where "h = entry_header_at (ct_read_data t) off"
      define n where "n = unat (kv_entry_size (get_u32 (ct_read_data t) (off + 24)))"
      define oi :: u32 where "oi = word_of_nat ((ct_current_offset t + off) div 4096)"
      define t1 where "t1 = t\<lparr>ct_entries_processed := ct_entries_processed t + 1\<rparr>"
      define mig where "mig = ct_should_migrate (en_index e) key (task_src t) oi"
      note defs = key_def [symmetric] h_def [symmetric] n_def [symmetric] oi_def [symmetric] t1_def [symmetric] mig_def [symmetric]
      have unfold: "process_loop (en_index e) off t =
          (if mig \<and> \<not> eh_is_deleted h
           then (if length (ct_write_data t1) + n > kChunkSize then t1\<lparr>ct_state := CWriteChunk\<rparr>
                 else process_loop (en_index e) (off + n) (ct_copy_entry off key n (eh_sequence h) t1))
           else process_loop (en_index e) (off + n) t1)"
        by (subst process_loop.simps) (simp only: lt valid Let_def defs if_True not_True_eq_False if_False)
      have ih: "pending_ok (process_loop (en_index e) (off + n) (ct_copy_entry off key n (eh_sequence h) t1)) e"
        if "mig \<and> \<not> eh_is_deleted h" "\<not> length (ct_write_data t1) + n > kChunkSize"
          "pending_ok (ct_copy_entry off key n (eh_sequence h) t1) e" "chunk_read e (ct_copy_entry off key n (eh_sequence h) t1)" "4096 dvd off + n"
        using "1.hyps"(2) [OF lt _ h_def key_def n_def mig_def [unfolded oi_def] t1_def that] valid by blast
      have ih2: "pending_ok (process_loop (en_index e) (off + n) t1) e" if "\<not> (mig \<and> \<not> eh_is_deleted h)" "4096 dvd off + n"
        using "1.hyps"(3) [OF lt _ h_def key_def n_def mig_def [unfolded oi_def] t1_def that(1)] valid "1.prems"(1,2) that(2)
        by (simp add: t1_def chunk_read_copy)
      have n4: "4096 dvd n" using kv_entry_size_bounds(3) by (simp add: n_def)
      with "1.prems"(3) have off': "4096 dvd off + n" by simp
      have copy: "pending_ok (ct_copy_entry off key n (eh_sequence h) t1) e" if m: mig
        unfolding t1_def by (rule pending_loop_copy [OF assms "1.prems" lt valid key_def n_def m [unfolded mig_def oi_def]])
      show ?thesis
        using ih ih2 copy chunk_read_copy(1) [OF "1.prems"(2), of n off key "eh_sequence h"] off' "1.prems"(1) unfolding unfold
        by (auto simp: t1_def)
    qed
  qed
qed

text \<open>The loop touches only what it copies.\<close>

lemma process_fixed:
  "task_src (process_loop m off t) = task_src t \<and> task_dest (process_loop m off t) = task_dest t
   \<and> ct_dest_offset (process_loop m off t) = ct_dest_offset t \<and> ct_committed (process_loop m off t) = ct_committed t"
  by (rule process_loop_rule [where P = "\<lambda>_ t r. task_src r = task_src t \<and> task_dest r = task_dest t
        \<and> ct_dest_offset r = ct_dest_offset t \<and> ct_committed r = ct_committed t"])
    (auto simp: ct_copy_entry_def)

lemma running_chunk:
  assumes "ce_live e" "ce_running t e" "ct_state t = CProcessEntries" "comp_wf t"
  shows "chunk_read e t"
proof -
  obtain i where i: "file_of e (task_src t) = Some i" using assms(2) by (auto simp: ce_running_def src_ok_def)
  obtain f where f: "file_of e (task_dest t) = Some f" "unat (fi_write_offset f) = ct_dest_offset t"
    using assms(2) by (auto simp: ce_running_def dest_ok_def)
  have fs: "file_ok i" "file_ok f"
    using live_files [OF assms(1)] file_of_member [OF i] file_of_member [OF f(1)] by (auto simp: files_ok_def)
  then have "src_end t e \<le> 2 ^ 33" "ct_dest_offset t \<le> 2 ^ 33" using i f(2) by (auto simp: src_end_def file_ok_def)
  moreover have "length (ct_write_data t) \<le> kChunkSize" using assms(4) by (simp add: comp_wf_def)
  ultimately show ?thesis
    using assms(2,3) i by (auto simp: ce_running_def chunk_ok_def dest_ok_def chunk_read_def ce_read_def)
qed

lemma good_process:
  assumes "ce_live e" "ce_running t e" "ct_io t = None" "ct_state t = CProcessEntries" "\<not> ct_io_pending t" "comp_wf t"
  shows "ce_good e (ce_step env io now (t, e))"
proof -
  define r where "r = process_loop (en_index e) 0 t"
  have step: "ce_step env io now (t, e) = (r, with_comp_world (comp_world_of e) e)"
    using ce_step_dispatch [OF assms(5)] assms(4) by (simp add: process_entries_def r_def cw_update_files)
  have same: "same_task t r" and ends: "loop_end 0 t r" unfolding r_def by (rule process_loop_same, rule process_loop_ends)
  have fixed: "task_src r = task_src t" "task_dest r = task_dest t" "ct_dest_offset r = ct_dest_offset t" "ct_committed r = ct_committed t"
    using process_fixed by (simp_all add: r_def)
  have state: "ct_state r = CReadChunk \<or> ct_state r = CWriteChunk" using ends by (auto simp: loop_end_def split: if_splits)
  have off: "4096 \<le> ct_current_offset r \<and> 4096 dvd ct_current_offset r"
    using ends assms(2,4) by (auto simp: loop_end_def ce_running_def chunk_ok_def split: if_splits)
  have "kv_inv e" "pending_ok t e" using live_files [OF assms(1)] assms(2) by (auto simp: ce_running_def)
  then have "pending_ok r e"
    unfolding r_def by (rule process_pending [OF _ _ running_chunk [OF assms(1,2,4,6)]]) simp
  then have "ce_running r e"
    using assms(2,3) same state off
    by (auto simp: ce_running_def src_ok_def dest_ok_def committed_ok_def chunk_ok_def fixed same_task_def)
  then show ?thesis
    unfolding step using state same assms(3) by (intro good_task [OF assms(1)]) (auto simp: same_task_def is_removal_def)
qed

section \<open>Moving the index\<close>

definition index_serves :: "kv_engine \<Rightarrow> kv_engine \<Rightarrow> mem_index \<Rightarrow> bool" where
  "index_serves e e' idx \<longleftrightarrow> mi_inv idx
     \<and> (\<forall>x. rel_option (\<lambda>m m'. \<forall>v. on_disk (en_files e) (en_disk e) m x v \<longrightarrow> on_disk (en_files e') (en_disk e') m' x v)
            (mi_lookup (en_index e) x) (mi_lookup idx x))"

lemma serves_same:
  assumes "ce_live e" "files_ok e'" "index_serves e e' (en_index e')"
    and "en_state e' = en_state e" "en_active_file_id e' = en_active_file_id e" "en_next_file_id e' = en_next_file_id e"
  shows "ce_same e e'"
  using kv_moved [of e e'] live_files [OF assms(1)] assms by (simp add: ce_same_def ce_live_def kv_serving_def index_serves_def)

lemma serves_start:
  assumes "mi_inv (en_index e)" "store_grows (en_files e) (en_disk e) (en_files e') (en_disk e')"
  shows "index_serves e e' (en_index e)"
  using assms on_disk_grows [OF assms(2)] by (auto simp: index_serves_def intro: option.rel_refl_strong)

text \<open>An entry may be pointed at another place with the same image.\<close>

lemma serves_repoint:
  assumes "index_serves e e' idx" "image_at e' f off pc key v" "image_at e' f' off' pc key v"
  shows "index_serves e e' (mi_repoint key f off f' off' pc idx)"
proof -
  have inv: "mi_inv idx" using assms(1) by (simp add: index_serves_def)
  have "rel_option (\<lambda>m m'. \<forall>v. on_disk (en_files e) (en_disk e) m x v \<longrightarrow> on_disk (en_files e') (en_disk e') m' x v)
      (mi_lookup (en_index e) x) (mi_lookup (mi_repoint key f off f' off' pc idx) x)" for x
  proof -
    have rel: "rel_option (\<lambda>m m'. \<forall>v. on_disk (en_files e) (en_disk e) m x v \<longrightarrow> on_disk (en_files e') (en_disk e') m' x v)
      (mi_lookup (en_index e) x) (mi_lookup idx x)" using assms(1) by (simp add: index_serves_def)
    have moved: "on_disk (en_files e') (en_disk e') (me_repointed f' off' pc m) x w"
      if "x = key" "me_points f off m" "on_disk (en_files e') (en_disk e') m x w" for m w
    proof -
      have "image_at e' f off (me_page_count m) key w" using that by (simp add: on_disk_place [OF that(2)])
      then have "w = v" using image_unique [OF assms(2)] by blast
      then show ?thesis using assms(3) that(1) by (simp add: on_disk_repointed)
    qed
    show ?thesis
      by (rule option.rel_cases [OF rel]) (use moved in \<open>auto simp: lookup_repoint [OF inv]\<close>)
  qed
  then show ?thesis using repoint_inv [OF inv] by (simp add: index_serves_def)
qed

definition points_in :: "u16 \<Rightarrow> migrated_entry set \<Rightarrow> mem_index \<Rightarrow> bool" where
  "points_in dest G idx \<longleftrightarrow> (\<forall>x m. mi_lookup idx x = Some m \<longrightarrow> ucast (me_file_id m) = dest \<longrightarrow>
     (\<exists>g \<in> G. mg_key g = x \<and> me_points dest (mg_new_offset_index g) m))"

definition same_image :: "kv_engine \<Rightarrow> u16 \<Rightarrow> u16 \<Rightarrow> migrated_entry \<Rightarrow> bool" where
  "same_image e src dest g \<longleftrightarrow> mg_old_file_id g = src \<and> mg_new_file_id g = dest
     \<and> place_fits src (mg_old_offset_index g) \<and> place_fits dest (mg_new_offset_index g)
     \<and> (\<exists>v. image_at e src (mg_old_offset_index g) (mg_page_count g) (mg_key g) v
          \<and> image_at e dest (mg_new_offset_index g) (mg_page_count g) (mg_key g) v)"

lemma committed_same: "committed_ok t e \<longleftrightarrow> (\<forall>g \<in> set (ct_committed t). same_image e (task_src t) (task_dest t) g)"
  by (simp add: committed_ok_def same_image_def)

lemma repointed_file: "place_fits f off \<Longrightarrow> ucast (me_file_id (me_repointed f off pc m)) = f"
  using repointed_points [of f off pc m] by (simp add: me_points_def)

text \<open>The migrations of a chunk.\<close>

lemma serves_apply:
  assumes "\<forall>g \<in> set gs. same_image e' src dest g" "index_serves e e' idx" "points_in dest G idx" "set gs \<subseteq> G"
  shows "index_serves e e' (fold apply_migration gs idx) \<and> points_in dest G (fold apply_migration gs idx)"
  using assms
proof (induction gs arbitrary: idx)
  case (Cons g gs)
  have g: "same_image e' src dest g" "g \<in> G" using Cons.prems(1,4) by simp_all
  then have old: "mg_old_file_id g = src" "mg_new_file_id g = dest" "place_fits dest (mg_new_offset_index g)"
    by (simp_all add: same_image_def)
  have serves: "index_serves e e' (apply_migration g idx)"
    using g(1) Cons.prems(2) by (auto simp: same_image_def apply_migration_def intro: serves_repoint)
  have inv: "mi_inv idx" using Cons.prems(2) by (simp add: index_serves_def)
  have "\<exists>h \<in> G. mg_key h = x \<and> me_points dest (mg_new_offset_index h) m"
    if m: "mi_lookup (apply_migration g idx) x = Some m" "ucast (me_file_id m) = dest" for x m
  proof -
    obtain m0 where m0: "mi_lookup idx x = Some m0" "m = (if x = mg_key g \<and> me_points src (mg_old_offset_index g) m0
        then me_repointed dest (mg_new_offset_index g) (mg_page_count g) m0 else m0)"
      using m(1) by (auto simp: apply_migration_def lookup_repoint [OF inv] old(1,2))
    show ?thesis
    proof (cases "x = mg_key g \<and> me_points src (mg_old_offset_index g) m0")
      case True
      then show ?thesis using m0(2) g(2) repointed_points [OF old(3)] by auto
    next
      case False
      then show ?thesis using m0 m(2) Cons.prems(3) by (auto simp: points_in_def)
    qed
  qed
  then have "points_in dest G (apply_migration g idx)" by (simp add: points_in_def)
  then show ?case using Cons.IH [OF _ serves] Cons.prems(1,4) by simp
qed simp

text \<open>A rollback leaves no entry in the destination.\<close>

lemma serves_revert:
  assumes "\<forall>g \<in> set gs. same_image e' src dest g" "index_serves e e' idx" "points_in dest (set gs) idx" "src \<noteq> dest"
  shows "index_serves e e' (fold revert_index_update gs idx) \<and> points_in dest {} (fold revert_index_update gs idx)"
  using assms
proof (induction gs arbitrary: idx)
  case (Cons g gs)
  have g: "same_image e' src dest g" using Cons.prems(1) by simp
  then have old: "mg_old_file_id g = src" "mg_new_file_id g = dest" "place_fits src (mg_old_offset_index g)"
    by (simp_all add: same_image_def)
  have serves: "index_serves e e' (revert_index_update g idx)"
    using g Cons.prems(2) by (auto simp: same_image_def revert_index_update_def intro: serves_repoint)
  have inv: "mi_inv idx" using Cons.prems(2) by (simp add: index_serves_def)
  have "\<exists>h \<in> set gs. mg_key h = x \<and> me_points dest (mg_new_offset_index h) m"
    if m: "mi_lookup (revert_index_update g idx) x = Some m" "ucast (me_file_id m) = dest" for x m
  proof -
    obtain m0 where m0: "mi_lookup idx x = Some m0" "m = (if x = mg_key g \<and> me_points dest (mg_new_offset_index g) m0
        then me_repointed src (mg_old_offset_index g) (mg_page_count g) m0 else m0)"
      using m(1) by (auto simp: revert_index_update_def lookup_repoint [OF inv] old(1,2))
    have stay: "\<not> (x = mg_key g \<and> me_points dest (mg_new_offset_index g) m0)"
    proof
      assume "x = mg_key g \<and> me_points dest (mg_new_offset_index g) m0"
      then have "ucast (me_file_id m) = src" using m0(2) repointed_file [OF old(3)] by simp
      then show False using m(2) Cons.prems(4) by simp
    qed
    have "m = m0" using m0(2) unfolding if_not_P [OF stay] .
    then obtain h where "h \<in> set (g # gs)" "mg_key h = x" "me_points dest (mg_new_offset_index h) m"
      using m0(1) m(2) Cons.prems(3) by (auto simp: points_in_def)
    then show ?thesis using stay \<open>m = m0\<close> by auto
  qed
  then have "points_in dest (set gs) (revert_index_update g idx)" by (simp add: points_in_def)
  then show ?case using Cons.IH [OF _ serves _ Cons.prems(4)] Cons.prems(1) by simp
qed simp

lemma revert_pending:
  assumes "\<forall>g \<in> set gs. mg_new_file_id g = dest" "mi_inv idx" "points_in dest {} idx"
  shows "mi_inv (fold revert_index_update gs idx) \<and> mi_lookup (fold revert_index_update gs idx) = mi_lookup idx"
  using assms
proof (induction gs arbitrary: idx)
  case (Cons g gs)
  have same: "mi_lookup (revert_index_update g idx) x = mi_lookup idx x" for x
    using Cons.prems by (cases "mi_lookup idx x") (auto simp: revert_index_update_def lookup_repoint points_in_def me_points_def)
  moreover have inv: "mi_inv (revert_index_update g idx)" using Cons.prems(2) by (simp add: revert_index_update_def repoint_inv)
  ultimately have "points_in dest {} (revert_index_update g idx)" using Cons.prems(3) by (simp add: points_in_def)
  then show ?case using Cons.IH [OF _ inv] Cons.prems(1) same by (simp add: fun_eq_iff)
qed simp

text \<open>When the write buffer is on disk and the destination ends behind it, a pending migration has its
  bytes at both places.\<close>

lemma pending_lands:
  assumes "pending_one t e g" "file_of e' (task_dest t) = Some f" "usable f" "unat (fi_write_offset f) = ct_dest_offset t + length (ct_write_data t)"
    and "ct_dest_offset t + length (ct_write_data t) \<le> 2 ^ 33" "unat (task_dest t) < 1024" "4096 \<le> ct_dest_offset t"
    and "disk_read (en_disk e') (fi_blob_id f) (ct_dest_offset t) (length (ct_write_data t)) = ct_write_data t"
    and "file_kept (en_files e) (en_disk e) (en_files e') (en_disk e') (task_src t)"
  shows "same_image e' (task_src t) (task_dest t) g"
proof -
  from assms(1) obtain v seq p where v: "mg_old_file_id g = task_src t" "mg_new_file_id g = task_dest t"
    "place_fits (task_src t) (mg_old_offset_index g)"
    "image_at e (task_src t) (mg_old_offset_index g) (mg_page_count g) (mg_key g) v" "length v \<le> kMaxStoredLen"
    "length (log_image (mg_key g, v, seq, False)) = 4096 * unat (mg_page_count g)"
    "4096 * unat (mg_new_offset_index g) = ct_dest_offset t + p" "p + 4096 * unat (mg_page_count g) \<le> length (ct_write_data t)"
    "slice p (4096 * unat (mg_page_count g)) (ct_write_data t) = log_image (mg_key g, v, seq, False)"
    unfolding pending_one_def by blast
  have "1 \<le> unat (mg_page_count g)" by (rule image_size(2) [OF v(6,5)])
  then have "4096 * unat (mg_new_offset_index g) + 4096 \<le> 2 ^ 33" using v(7,8) assms(5) by simp
  then have fits: "place_fits (task_dest t) (mg_new_offset_index g)" using assms(6) by (simp add: place_fits_def)
  have "disk_read (en_disk e') (fi_blob_id f) (ct_dest_offset t + p) (4096 * unat (mg_page_count g)) = log_image (mg_key g, v, seq, False)"
    using slice_disk_read [OF v(8), of "en_disk e'" "fi_blob_id f" "ct_dest_offset t"] assms(8) v(9) by simp
  moreover obtain j where "find_file (en_files e') (task_dest t) = Some j" "en_files e' ! j = f"
    using assms(2) by (auto simp: file_of_Some)
  ultimately have "image_at e' (task_dest t) (mg_new_offset_index g) (mg_page_count g) (mg_key g) v"
    unfolding image_at_def on_disk_def place_file [OF fits] place_offset [OF fits] place_pages
    using v(5-8) assms(3,4,7) by (intro exI [of _ j] exI [of _ seq]) (simp add: usable_def del: log_image.simps)
  moreover have "image_at e' (task_src t) (mg_old_offset_index g) (mg_page_count g) (mg_key g) v"
    by (rule image_kept [OF assms(9) v(3,4)])
  ultimately show ?thesis using v(1-3) fits by (auto simp: same_image_def)
qed

lemma same_image_kept:
  assumes "same_image e src dest g" "store_grows (en_files e) (en_disk e) (en_files e') (en_disk e')"
  shows "same_image e' src dest g"
  using assms(1) image_kept [OF grows_kept [OF assms(2)]] by (fastforce simp: same_image_def)

lemma dest_file_id:
  assumes "ce_live e" "file_of e i = Some f"
  shows "unat i < 1024"
proof -
  have "i < en_next_file_id e" "unat (en_next_file_id e) \<le> 1024"
    using live_files [OF assms(1)] file_of_member [OF assms(2)] by (auto simp: files_ok_def)
  then show ?thesis by (simp add: word_less_nat_alt)
qed

text \<open>The destination with its new end.\<close>

lemma dest_advance:
  assumes "ce_live e" "file_of e dest = Some g" "usable g" "unat (fi_write_offset g) \<le> D" "4096 dvd D" "4096 \<le> D" "D \<le> 2 ^ 33"
    and "dest \<noteq> en_active_file_id e" "f = (\<lambda>g. g\<lparr>fi_write_offset := word_of_nat D, fi_size := word_of_nat D\<rparr>)"
    and "e' = with_files (Some dest) f idx metas e"
  shows "same_id f" "files_ok e'" "store_grows (en_files e) (en_disk e) (en_files e') (en_disk e')"
    and "file_of e' dest = Some (f g)" "usable (f g)" "unat (fi_write_offset (f g)) = D" "fi_blob_id (f g) = fi_blob_id g"
    and "i \<noteq> dest \<Longrightarrow> file_of e' i = file_of e i"
proof -
  note live = live_files [OF assms(1)]
  have f: "fi_file_id (f x) = fi_file_id x" "fi_blob_id (f x) = fi_blob_id x" "fi_state (f x) = fi_state x"
    "fi_blob_opened (f x) = fi_blob_opened x" "fi_write_offset (f x) = word_of_nat D" for x by (simp_all add: assms(9))
  show id: "same_id f" by (simp add: same_id_def f)
  have D: "unat (word_of_nat D :: u64) = D" using assms(7) by (intro unat_of_nat_small) simp
  show "files_ok e'"
    unfolding assms(10) using live assms(5-8) D by (intro with_files_ok [OF _ id]) (auto simp: f file_ok_def)
  have "file_grows (en_disk e) (en_disk e) h (f h)" if "h \<in> set (en_files e)" "fi_file_id h = dest" for h
  proof -
    have "h = g" using file_of_in [of e h] live that assms(2) by simp
    then show ?thesis using assms(4) D by (simp add: file_grows_def f)
  qed
  then show "store_grows (en_files e) (en_disk e) (en_files e') (en_disk e')"
    by (simp add: store_grows_def assms(10) upd_file_nth file_grows_refl)
  show "file_of e' dest = Some (f g)" "usable (f g)" "unat (fi_write_offset (f g)) = D" "fi_blob_id (f g) = fi_blob_id g"
    using assms(2,3) D by (simp_all add: assms(10) file_of_with_files [OF id] f usable_def)
  show "file_of e' i = file_of e i" if "i \<noteq> dest"
    using that by (simp add: assms(10) file_of_with_files [OF id])
qed

lemma update_step:
  assumes "ce_live e" "ct_state t = CUpdateIndices" "\<not> ct_io_pending t" "ct_dest_info t = Some dest"
    and "D = ct_dest_offset t + length (ct_write_data t)" "f = (\<lambda>g. g\<lparr>fi_write_offset := word_of_nat D, fi_size := word_of_nat D\<rparr>)"
  shows "ce_step env io now (t, e) = (t\<lparr>ct_committed := ct_committed t @ ct_migrated t, ct_migrated := [], ct_dest_offset := D,
      ct_write_data := [], ct_state := CReadChunk\<rparr>, with_files (Some dest) f (fold apply_migration (ct_migrated t) (en_index e)) (en_meta e) e)"
proof -
  define w where "w = cw_update_file (Some dest) f ((comp_world_of e)\<lparr>cw_index := fold apply_migration (ct_migrated t) (en_index e)\<rparr>)"
  have "update_indices (t, comp_world_of e) = (t\<lparr>ct_committed := ct_committed t @ ct_migrated t, ct_migrated := [], ct_dest_offset := D,
      ct_write_data := [], ct_state := CReadChunk\<rparr>, w)"
    using assms(4) by (simp add: update_indices_def Let_def w_def assms(5,6) comp_world_of_def)
  moreover have "with_comp_world w e = with_files (Some dest) f (fold apply_migration (ct_migrated t) (en_index e)) (en_meta e) e"
    using live_files [OF assms(1)]
    by (subst world_update [where p = "Some dest" and f = f]) (simp_all add: w_def cw_update_files, simp add: cw_update_file_def comp_world_of_def)
  ultimately show ?thesis using ce_step_dispatch [OF assms(3), of env io now e] assms(2) by simp
qed

lemma good_update:
  assumes "ce_live e" "ce_running t e" "ct_io t = None" "ct_state t = CUpdateIndices" "\<not> ct_io_pending t"
  shows "ce_good e (ce_step env io now (t, e))"
proof -
  let ?src = "task_src t" and ?dest = "task_dest t"
  define D where "D = ct_dest_offset t + length (ct_write_data t)"
  define f :: "file_info \<Rightarrow> file_info" where "f = (\<lambda>g. g\<lparr>fi_write_offset := word_of_nat D, fi_size := word_of_nat D\<rparr>)"
  define idx where "idx = fold apply_migration (ct_migrated t) (en_index e)"
  define e' where "e' = with_files (Some ?dest) f idx (en_meta e) e"
  define t' where "t' = t\<lparr>ct_committed := ct_committed t @ ct_migrated t, ct_migrated := [],
                ct_dest_offset := D, ct_write_data := [], ct_state := CReadChunk\<rparr>"
  note run = assms(2) [unfolded ce_running_def] and live = live_files [OF assms(1)]
  from run obtain g where g: "file_of e ?dest = Some g" "usable g" "unat (fi_write_offset g) = ct_dest_offset t"
    by (auto simp: dest_ok_def)
  have task: "ct_src_info t = Some ?src" "ct_dest_info t = Some ?dest" "?dest \<noteq> ?src" "?dest \<noteq> en_active_file_id e"
    "4096 \<le> ct_dest_offset t" "4096 dvd D" "4096 \<le> D" using run by (auto simp: dest_ok_def pending_ok_def D_def)
  have fits: "D \<le> 2 ^ 33" and there: "disk_read (en_disk e) (fi_blob_id g) (ct_dest_offset t) (length (ct_write_data t)) = ct_write_data t"
    using run assms(4) g(1) by (auto simp: chunk_ok_def ce_read_def D_def)
  have le: "unat (fi_write_offset g) \<le> D" by (simp add: g(3) D_def)
  note adv = dest_advance [OF assms(1) g(1,2) le task(6,7) fits task(4) f_def e'_def]
  have step: "ce_step env io now (t, e) = (t', e')"
    unfolding t'_def e'_def idx_def by (rule update_step [OF assms(1,4,5) task(2) D_def f_def])
  have com: "\<forall>g \<in> set (ct_committed t). same_image e' ?src ?dest g"
    using run same_image_kept [OF _ adv(3)] by (auto simp: committed_same)
  have mig: "\<forall>g \<in> set (ct_migrated t). same_image e' ?src ?dest g"
    using run pending_lands [OF _ adv(4,5) adv(6) [unfolded D_def] fits [unfolded D_def] dest_file_id [OF assms(1) g(1)] task(5) _
        grows_kept [OF adv(3)]] there
    by (simp add: pending_ok_def adv(7)) (simp add: e'_def)
  let ?G = "set (ct_committed t) \<union> set (ct_migrated t)"
  have "points_in ?dest ?G (en_index e)" using run unfolding dest_ok_def points_in_def by blast
  then have idx: "index_serves e e' idx" "points_in ?dest ?G idx"
    unfolding idx_def using serves_apply [OF mig serves_start [OF _ adv(3)]] live by blast+
  have same: "ce_same e e'"
    by (rule serves_same [OF assms(1) adv(2)]) (use idx(1) in \<open>simp_all add: e'_def\<close>)
  have t': "task_src t' = ?src" "task_dest t' = ?dest" "ct_committed t' = ct_committed t @ ct_migrated t" "ct_io t' = None"
    "ct_state t' = CReadChunk" by (simp_all add: t'_def assms(3))
  have "src_ok t' e'" using run adv(8) [of ?src] task(3) by (simp add: src_ok_def t') (simp add: e'_def)
  moreover have "dest_ok t' e'"
    using idx(2) adv(4-7) task by (auto simp: dest_ok_def points_in_def t'_def e'_def)
  moreover have "committed_ok t' e'" using com mig by (auto simp: committed_same t')
  moreover have "pending_ok t' e'" by (simp add: pending_ok_def t'_def)
  moreover have "chunk_ok t' e'" using run by (simp add: chunk_ok_def t') (simp add: t'_def)
  ultimately have "ce_running t' e'" by (simp add: ce_running_def)
  then show ?thesis using same by (simp add: step ce_good_def phase_running is_removal_def t')
qed

section \<open>Giving the destination up\<close>

text \<open>Nothing points into the destination any more: it may be marked deleted and closed.\<close>

lemma drop_same:
  assumes "ce_live e" "points_in dest {} (en_index e)" "dest \<noteq> en_active_file_id e"
    and "same_id f" "\<And>g. fi_write_offset (f g) = fi_write_offset g"
  shows "ce_same e (with_files (Some dest) f (en_index e) metas e)"
proof -
  let ?e = "with_files (Some dest) f (en_index e) metas e"
  note live = live_files [OF assms(1)]
  have ok: "files_ok ?e"
    using live assms(3,5) by (intro with_files_ok [OF _ assms(4)]) (auto simp: files_ok_def file_ok_def)
  have kept: "file_kept (en_files e) (en_disk e) (en_files ?e) (en_disk ?e) i" if "i \<noteq> dest" for i
    using that upd_file_find [OF assms(4)] by (auto simp: file_kept_def upd_file_nth find_file_Some file_grows_refl)
  have "rel_option (\<lambda>m m'. \<forall>v. on_disk (en_files e) (en_disk e) m x v \<longrightarrow> on_disk (en_files ?e) (en_disk ?e) m' x v)
      (mi_lookup (en_index e) x) (mi_lookup (en_index e) x)" for x
    using assms(2) on_disk_kept [OF kept] by (intro option.rel_refl_strong) (auto simp: points_in_def)
  then have "index_serves e ?e (en_index ?e)" using live by (simp add: index_serves_def)
  then show ?thesis by (rule serves_same [OF assms(1) ok]) simp_all
qed

lemma rollback_index:
  assumes "ce_live e" "ce_running t e"
    and "idx = fold revert_index_update (ct_migrated t) (fold revert_index_update (ct_committed t) (en_index e))"
  shows "index_serves e e idx \<and> points_in (task_dest t) {} idx"
proof -
  note run = assms(2) [unfolded ce_running_def] and live = live_files [OF assms(1)]
  have "points_in (task_dest t) (set (ct_committed t)) (en_index e)" using run unfolding dest_ok_def points_in_def by blast
  moreover have "\<forall>g \<in> set (ct_committed t). same_image e (task_src t) (task_dest t) g" using run by (simp add: committed_same)
  moreover have "task_src t \<noteq> task_dest t" using run by (auto simp: dest_ok_def)
  moreover have "index_serves e e (en_index e)" using live by (intro serves_start) (simp_all add: store_grows_refl)
  ultimately have c: "index_serves e e (fold revert_index_update (ct_committed t) (en_index e))"
    "points_in (task_dest t) {} (fold revert_index_update (ct_committed t) (en_index e))"
    using serves_revert by blast+
  have "\<forall>g \<in> set (ct_migrated t). mg_new_file_id g = task_dest t" using run by (auto simp: pending_ok_def pending_one_def)
  from revert_pending [OF this _ c(2)] c show ?thesis
    unfolding assms(3) by (simp add: index_serves_def points_in_def)
qed

text \<open>The destination is marked deleted, its removal asked for.\<close>

lemma good_garbage:
  assumes "ce_live e" "ce_same e e1" "e1 = with_files None id idx (en_meta e) e" "points_in dest {} idx"
    and "ct_dest_info t = Some dest" "task_dest t = dest" "dest \<noteq> en_active_file_id e" "file_of e dest \<noteq> None"
    and "w = (comp_world_of e)\<lparr>cw_index := idx\<rparr>" "delete_garbage_file (t, w) = (t2, w2)"
  shows "ce_good e (t2, with_comp_world w2 e)"
proof -
  define f :: "file_info \<Rightarrow> file_info" where "f = (\<lambda>g. g\<lparr>fi_state := FDeleted\<rparr>)"
  define w1 where "w1 = cw_update_meta (ct_dest_meta t) (\<lambda>f. f\<lparr>ft_state := FDeleted, ft_valid_entries := 0, ft_valid_bytes := 0\<rparr>)
    (cw_update_file (Some dest) f w)"
  define e2 where "e2 = with_files (Some dest) f (en_index e1) (cw_meta w1) e1"
  have upd: "upd_file None id fs = fs" for fs by (simp add: upd_file_def)
  have e1: "en_files e1 = en_files e" "en_index e1 = idx" "en_disk e1 = en_disk e" "en_active_file_id e1 = en_active_file_id e"
    by (simp_all add: assms(3) upd)
  have id: "same_id f" by (simp add: same_id_def f_def)
  have files: "cw_files w1 i = (if Some dest = Some i then map_option f (file_of e i) else file_of e i)" for i
    by (simp add: w1_def assms(9) cw_update_files)
  then have "delete_garbage_file (t, w) = (t\<lparr>ct_io_pending := True, ct_io := Some (CioRemove dest)\<rparr>, w1)"
    using assms(5,6,8) by (auto simp: delete_garbage_file_def Let_def w1_def f_def)
  then have r: "t2 = t\<lparr>ct_io_pending := True, ct_io := Some (CioRemove dest)\<rparr>" "w2 = w1" using assms(10) by simp_all
  have e2: "with_comp_world w2 e = e2"
    using world_update [of e w1 "Some dest" f] live_files [OF assms(1)] files
    by (simp add: r(2) e2_def with_files_def assms(3) upd) (simp add: w1_def assms(9) cw_update_files)
  have "ce_same e1 e2" unfolding e2_def
    by (rule drop_same [OF same_live [OF assms(2)] _ _ id]) (use assms(4,7) in \<open>simp_all add: e1 f_def\<close>)
  then have "ce_same e e2" using assms(2) same_trans by blast
  moreover have "ce_phase t2 e2"
    using assms(4-8) by (simp add: ce_phase_def is_removal_def r(1) ce_removing_def points_in_def e2_def e1
        file_of_with_files [OF id]) (simp add: assms(3) file_of_with_files [where f = id] same_id_def)
  ultimately show ?thesis by (simp add: e2 ce_good_def r(1))
qed

lemma good_rollback:
  assumes "ce_live e" "ce_running t e" "ct_io t = None" "ct_state t = CRollback" "\<not> ct_io_pending t"
  shows "ce_good e (ce_step env io now (t, e))"
proof -
  let ?dest = "task_dest t"
  define idx where "idx = fold revert_index_update (ct_migrated t) (fold revert_index_update (ct_committed t) (en_index e))"
  define w where "w = (comp_world_of e)\<lparr>cw_index := idx\<rparr>"
  define t1 where "t1 = t\<lparr>ct_committed := [], ct_migrated := []\<rparr>"
  define e1 where "e1 = with_files None id idx (en_meta e) e"
  note run = assms(2) [unfolded ce_running_def] and live = live_files [OF assms(1)]
  have idx: "index_serves e e idx" "points_in ?dest {} idx" using rollback_index [OF assms(1,2) idx_def] by simp_all
  have upd: "upd_file None id fs = fs" for fs by (simp add: upd_file_def)
  have e1: "en_files e1 = en_files e" "en_index e1 = idx" "en_disk e1 = en_disk e" by (simp_all add: e1_def upd)
  have "files_ok e1" using live by (simp add: e1_def with_files_def upd files_ok_def get_active_file_def get_file_def)
  moreover have "index_serves e e1 (en_index e1)" using idx(1) by (simp add: index_serves_def e1)
  ultimately have same1: "ce_same e e1" by (intro serves_same [OF assms(1)]) (simp_all add: e1_def)
  have task: "ct_dest_info t = Some ?dest" "?dest \<noteq> en_active_file_id e" "file_of e ?dest \<noteq> None"
    using run by (auto simp: dest_ok_def)
  have roll: "start_rollback (t, comp_world_of e) =
      (if ct_dest_offset t > 4096 then delete_garbage_file (t1, w) else (t1\<lparr>ct_state := CRollbackMarkSealed\<rparr>, w))"
    using task(1) by (simp add: start_rollback_def Let_def t1_def w_def idx_def comp_world_of_def)
  have step: "ce_step env io now (t, e) = (case start_rollback (t, comp_world_of e) of (t', w) \<Rightarrow> (t', with_comp_world w e))"
    using ce_step_dispatch [OF assms(5), of env io now e] assms(4) by simp
  show ?thesis
  proof (cases "ct_dest_offset t > 4096")
    case False
    have "with_comp_world w e = e1"
      unfolding e1_def using live by (subst world_same) (simp_all add: w_def comp_world_of_def)
    then show ?thesis using False same1 assms(3)
      by (simp add: step roll ce_good_def t1_def phase_over is_removal_def)
  next
    case True
    obtain t2 w2 where r: "delete_garbage_file (t1, w) = (t2, w2)" by fastforce
    have "ce_good e (t2, with_comp_world w2 e)"
      by (rule good_garbage [OF assms(1) same1 e1_def idx(2) _ _ task(2,3) w_def r]) (simp_all add: t1_def task(1))
    then show ?thesis using True by (simp add: step roll r)
  qed
qed

end
