(* ===== verification/KvCompactEngineSpec.thy ===== *)
theory KvCompactEngineSpec
  imports KvCompactCopy
begin

text \<open>
  A compaction beside the calls of a client: whatever the order of its steps, of the completions of its
  writes and reads and of the gets, puts and deletes, the calls are answered as by a map that no compaction touches.
\<close>

section \<open>Starting\<close>

lemma new_file_points:
  assumes "ce_live e" "mi_lookup (en_index e) x = Some m"
  shows "ucast (me_file_id m) < en_next_file_id e"
proof -
  obtain v where "on_disk (en_files e) (en_disk e) m x v"
    using live_files [OF assms(1)] assms(2) unfolding kv_inv_def by blast
  then obtain j where "find_file (en_files e) (ucast (me_file_id m)) = Some j" unfolding on_disk_def by blast
  then have "\<exists>f \<in> set (en_files e). fi_file_id f = ucast (me_file_id m)" by (auto simp: find_file_Some)
  then show ?thesis using live_files [OF assms(1)] by (auto simp: files_ok_def)
qed

lemma allocate_same:
  assumes "ce_live e" "env_ok io e" "allocate_new_file io e = (r, e')"
  shows "ce_same e e'"
proof -
  note live = live_files [OF assms(1)]
  have ok: "files_ok e" using live by blast
  have fr: "call_frame e e'" by (rule allocate_frame [OF ok assms(2,3)])
  have res: "alloc_result io e r e'" by (rule allocate_new_file_result [OF assms(2,3)])
  have "kv_inv e' \<and> kv_abs e' = kv_abs e"
    using live allocate_new_file_spec [OF ok assms(2,3)] by (intro kv_grows) simp_all
  then show ?thesis using fr res assms(1) by (simp add: ce_same_def ce_live_def kv_serving_def call_frame_def alloc_result_def)
qed

lemma good_trans: "ce_same e e1 \<Longrightarrow> ce_good e1 r \<Longrightarrow> ce_good e r"
  by (auto simp: ce_good_def intro: same_trans)

lemma good_over:
  assumes "ce_live e" "ct_io t' = None" "ct_state t' \<in> {CRollbackMarkSealed, CFailed, CDone}"
  shows "ce_good e (t', with_comp_world (comp_world_of e) e)"
proof -
  have "\<not> is_removal t'" using assms(2) by (simp add: is_removal_def)
  then show ?thesis using world_kept(1) [OF assms(1)] assms(2) phase_over [OF _ assms(3)] by (simp add: ce_good_def)
qed

lemma init_running:
  assumes "ce_live e" "ce_fresh t e" "ct_io t = None" "alloc_result io e (Some i) e'" "call_frame e e'"
    and "dest = en_next_file_id e"
    and "t' = t\<lparr>ct_read_buffer := a, ct_write_buffer := b, ct_src_info := Some (task_src t), ct_src_meta := c, ct_dest_info := Some dest,
           ct_dest_file_id := dest, ct_dest_meta := d, ct_dest_offset := 4096, ct_migrated := [], ct_state := CMarkCompacting\<rparr>"
  shows "ce_running t' e'"
proof -
  have live: "files_ok e" "en_active_file_id e < en_next_file_id e" using assms(1) live_files by (auto simp: ce_live_def)
  obtain g where g: "file_of e (task_src t) = Some g" "usable g" "task_src t \<noteq> en_active_file_id e"
    using assms(2) by (auto simp: ce_fresh_def src_ok_def)
  have less: "task_src t < en_next_file_id e" using file_of_member [OF g(1)] live(1) by (auto simp: files_ok_def)
  have src: "file_of e' (task_src t) = Some g" "en_active_file_id e' = en_active_file_id e" "en_index e' = en_index e"
    using assms(4,5) g less by (auto simp: call_frame_def alloc_result_def)
  obtain f where f: "en_files e' = en_files e @ [f]" "fi_file_id f = dest" "fi_state f = FActive" "fi_write_offset f = 4096" "fi_blob_opened f"
    using assms(4,6) by (auto simp: alloc_result_def)
  have "dest \<notin> fi_file_id ` set (en_files e)" using live(1) assms(6) by (auto simp: files_ok_def)
  then have "fi_file_id (en_files e ! j) \<noteq> dest" if "j < length (en_files e)" for j
    using that by (metis image_eqI nth_mem)
  then have "find_file (en_files e') dest = Some (length (en_files e))"
    using f(1,2) by (simp add: find_file_Some nth_append)
  then have dest: "file_of e' dest = Some f" using f(1) by (simp add: file_of_def get_file_def)
  have none: "ucast (me_file_id m) \<noteq> dest" if "mi_lookup (en_index e') x = Some m" for x m
    using new_file_points [OF assms(1), of x m] that assms(6) src(3) by auto
  have "src_ok t' e'" using src g by (simp add: src_ok_def assms(7))
  moreover have "dest_ok t' e'"
    using dest f less live(2) none assms(6) src(2)
    by (auto simp: dest_ok_def assms(7) usable_def file_state_readable_def)
  moreover have "committed_ok t' e'" "pending_ok t' e'" "chunk_ok t' e'"
    using assms(2,3) by (simp_all add: committed_ok_def pending_ok_def chunk_ok_def ce_fresh_def assms(7))
  ultimately show ?thesis by (simp add: ce_running_def)
qed

lemma good_init:
  assumes "ce_live e" "ce_fresh t e" "ct_io t = None" "ct_state t = CInit" "\<not> ct_io_pending t"
    and "ce_allocates env t e \<Longrightarrow> env_ok io e"
  shows "ce_good e (ce_step env io now (t, e))"
proof -
  let ?w = "comp_world_of e" and ?env = "ce_env env io e"
  have src: "file_of e (task_src t) \<noteq> None" using assms(2) by (auto simp: ce_fresh_def src_ok_def)
  have step: "ce_step env io now (t, e) = (case ct_init ?env (t, ?w) of
      (t', w) \<Rightarrow> (t', with_comp_world w (if ce_allocates env t e then snd (allocate_new_file io e) else e)))"
    using assms(4,5) by (simp add: ce_step_def ct_step_def)
  have flags: "co_read_dma ?env = co_read_dma env" "co_write_dma ?env = co_write_dma env" by (simp_all add: ce_env_def)
  show ?thesis
  proof (cases "ce_allocates env t e")
    case False
    then have "co_read_dma env \<and> co_write_dma env \<longrightarrow> en_meta e (task_src t) = None" using src assms(4,5) by (auto simp: ce_allocates_def)
    then have "ct_io (fst (ct_init ?env (t, ?w))) = None \<and> ct_state (fst (ct_init ?env (t, ?w))) = CFailed \<and> snd (ct_init ?env (t, ?w)) = ?w"
      using assms(3) by (cases "co_read_dma env \<and> co_write_dma env") (simp_all add: ct_init_def Let_def flags, simp add: comp_world_of_def)
    then obtain t' where "ct_init ?env (t, ?w) = (t', ?w)" "ct_io t' = None" "ct_state t' = CFailed"
      by (cases "ct_init ?env (t, ?w)") simp
    then show ?thesis using False by (simp add: step good_over [OF assms(1)])
  next
    case True
    obtain r e' where al: "allocate_new_file io e = (r, e')" by fastforce
    have ok: "env_ok io e" "files_ok e" using assms(6) [OF True] live_files [OF assms(1)] by auto
    have same: "ce_same e e'" by (rule allocate_same [OF assms(1) ok(1) al])
    have res: "alloc_result io e r e'" by (rule allocate_new_file_result [OF ok(1) al])
    have fr: "call_frame e e'" by (rule allocate_frame [OF ok(2,1) al])
    have flags': "co_read_dma env" "co_write_dma env" "en_meta e (task_src t) \<noteq> None" using True by (simp_all add: ce_allocates_def)
    have alloc: "co_allocate_new_file ?env ?w = (map_option (\<lambda>i. fi_file_id (en_files e' ! i)) r, comp_world_of e')"
      by (simp add: ce_env_def al)
    have world: "cw_files ?w (task_src t) \<noteq> None" "cw_meta ?w (task_src t) \<noteq> None"
      using src flags' by (simp_all add: comp_world_of_def)
    show ?thesis
    proof (cases r)
      case None
      obtain t' where "ct_init ?env (t, ?w) = (t', comp_world_of e')" "ct_io t' = None" "ct_state t' = CFailed"
        using assms(3) alloc None world flags' by (simp add: ct_init_def Let_def flags)
      then show ?thesis using True al good_trans [OF same good_over [OF same_live [OF same]]] by (simp add: step)
    next
      case (Some i)
      have dest: "fi_file_id (en_files e' ! i) = en_next_file_id e" using res Some by (auto simp: alloc_result_def)
      obtain a b c d t' where t': "t' = t\<lparr>ct_read_buffer := a, ct_write_buffer := b, ct_src_info := Some (task_src t), ct_src_meta := c,
           ct_dest_info := Some (en_next_file_id e), ct_dest_file_id := en_next_file_id e, ct_dest_meta := d, ct_dest_offset := 4096,
           ct_migrated := [], ct_state := CMarkCompacting\<rparr>" "ct_init ?env (t, ?w) = (t', comp_world_of e')"
        using alloc Some world flags' dest by (simp add: ct_init_def Let_def flags) (auto split: option.splits)
      have "ce_running t' e'" by (rule init_running [OF assms(1-3) res [unfolded Some] fr refl t'(1)])
      then have "ce_good e' (t', with_comp_world (comp_world_of e') e')"
        using assms(3) by (intro good_task [OF same_live [OF same]]) (simp_all add: t'(1) is_removal_def)
      then show ?thesis using True al t'(2) good_trans [OF same] by (simp add: step)
    qed
  qed
qed

section \<open>Completions\<close>

lemma ce_complete_eq:
  assumes "ct_io t = Some io" "e1 = ce_device t status torn ready cstatus io e"
    and "ct_complete now status (ce_data t io e) (ce_erases ready cstatus io e) (t, comp_world_of e1) = (t', w)"
  shows "ce_complete now status torn ready cstatus (t, e) = (t', with_comp_world w e1)"
  using assms by (simp add: ce_complete_def Let_def)

lemma running_io_done:
  assumes "ce_running t e" "ct_state t \<notin> {CProcessEntries, CUpdateIndices}"
  shows "ce_running (t\<lparr>ct_io := None\<rparr>) e"
  by (rule running_core [OF assms(1)]) (use assms(2) in \<open>simp_all add: same_core_def\<close>)

lemma good_error:
  assumes "ce_live e" "ce_running t e" "ct_state t \<notin> {CProcessEntries, CUpdateIndices}"
  shows "ce_good e (handle_io_error now st status (t\<lparr>ct_io := None, ct_io_pending := b\<rparr>), with_comp_world (comp_world_of e) e)"
proof -
  note run = running_stable [OF running_io_done [OF assms(2,3)], unfolded comp_task.simps, OF world_kept(2) [OF assms(1)]]
  show ?thesis
    using running_error [OF run, of now st status b] world_kept(1) [OF assms(1)] by (simp add: ce_good_def)
qed

lemma good_header_done:
  assumes "ce_live e" "ce_running t e" "length page = 4096"
    and "ct_io t = Some (CioMarkCompacting page) \<and> ct_state t = CMarkCompacting \<or> ct_io t = Some (CioMarkDeleted page) \<and> ct_state t = CMarkDeleted"
  shows "ce_good e (ce_complete now status torn ready cstatus (t, e))"
proof -
  define e1 where "e1 = ce_write (ct_src_info t) 0 page status torn e"
  have same: "ce_same e e1" unfolding e1_def by (rule write_header_same [OF assms(1)]) (simp add: assms(3))
  have run: "ce_running t e1" unfolding e1_def by (rule running_stable [OF assms(2) write_header_stable]) (simp add: assms(3))
  note live = same_live [OF same]
  have err: "ce_good e1 (handle_io_error now st status (t\<lparr>ct_io := None, ct_io_pending := False\<rparr>), with_comp_world (comp_world_of e1) e1)" for st
    by (rule good_error [OF live run]) (use assms(4) in auto)
  from assms(4) show ?thesis
  proof
    assume io: "ct_io t = Some (CioMarkCompacting page) \<and> ct_state t = CMarkCompacting"
    let ?t = "t\<lparr>ct_io := None, ct_io_pending := False, ct_state := CReadChunk\<rparr>"
    have eq: "ce_complete now status torn ready cstatus (t, e) = (case ct_on_mark_compacting now status (t\<lparr>ct_io := None\<rparr>, comp_world_of e1) of
        (t', w) \<Rightarrow> (t', with_comp_world w e1))"
      using io by (simp add: ce_complete_def ct_complete_def Let_def e1_def)
    have "ce_running ?t e1" by (rule running_core [OF run]) (simp_all add: same_core_def)
    then have "ce_good e1 (?t, with_comp_world (comp_world_of e1) e1)"
      by (rule good_task [OF live]) (simp_all add: is_removal_def)
    then have "ce_good e1 (ce_complete now status torn ready cstatus (t, e))"
      using err by (simp add: eq ct_on_mark_compacting_def Let_def)
    then show ?thesis by (rule good_trans [OF same])
  next
    assume io: "ct_io t = Some (CioMarkDeleted page) \<and> ct_state t = CMarkDeleted"
    let ?t = "(ct_free_dma_buffers (t\<lparr>ct_io := None, ct_io_pending := False, ct_committed := [], ct_migrated := []\<rparr>))\<lparr>ct_state := CDone\<rparr>"
    have eq: "ce_complete now status torn ready cstatus (t, e) = (case ct_on_mark_deleted now status (t\<lparr>ct_io := None\<rparr>, comp_world_of e1) of
        (t', w) \<Rightarrow> (t', with_comp_world w e1))"
      using io by (simp add: ce_complete_def ct_complete_def Let_def e1_def)
    have "ce_good e1 (?t, with_comp_world (comp_world_of e1) e1)"
      by (rule good_over [OF live]) (simp_all add: ct_free_dma_buffers_def)
    then have "ce_good e1 (ce_complete now status torn ready cstatus (t, e))"
      using err by (simp add: eq ct_on_mark_deleted_def Let_def)
    then show ?thesis by (rule good_trans [OF same])
  qed
qed

lemma good_sealed_done:
  assumes "ce_live e" "ct_io t = Some (CioMarkSealed page)" "length page = 4096"
  shows "ce_good e (ce_complete now status torn ready cstatus (t, e))"
proof -
  define e1 where "e1 = ce_write (ct_src_info t) 0 page status torn e"
  have same: "ce_same e e1" unfolding e1_def by (rule write_header_same [OF assms(1)]) (simp add: assms(3))
  have "ce_good e1 (ce_complete now status torn ready cstatus (t, e))"
    using good_over [OF same_live [OF same]] assms(2)
    by (simp add: ce_complete_def ct_complete_def Let_def ct_on_mark_sealed_def e1_def [symmetric] ct_free_dma_buffers_def)
  then show ?thesis by (rule good_trans [OF same])
qed

lemma good_read_done:
  assumes "ce_live e" "ce_running t e" "ct_io t = Some (CioRead off n)" "ct_state t = CReadChunk"
  shows "ce_good e (ce_complete now status torn ready cstatus (t, e))"
proof -
  have err: "ce_good e (handle_io_error now CReadChunk status (t\<lparr>ct_io := None, ct_io_pending := False\<rparr>), with_comp_world (comp_world_of e) e)"
    by (rule good_error [OF assms(1,2)]) (simp add: assms(4))
  let ?t = "t\<lparr>ct_io := None, ct_io_pending := False, ct_read_data := ce_read (Some (task_src t)) off n e, ct_bytes_read := n,
    ct_state := CProcessEntries\<rparr>"
  have src: "ct_src_info t = Some (task_src t)" using assms(2) by (simp add: ce_running_def dest_ok_def)
  have "ce_running ?t e"
    using assms(2-4) by (simp add: ce_running_def src_ok_def dest_ok_def committed_ok_def pending_ok_def pending_one_def chunk_ok_def src_end_def)
  then have "ce_good e (?t, with_comp_world (comp_world_of e) e)"
    by (rule good_task [OF assms(1)]) (simp_all add: is_removal_def)
  then show ?thesis
    using err assms(3) src by (simp add: ce_complete_def ct_complete_def Let_def ct_on_read_def)
qed

text \<open>The write of a chunk goes behind the end of the destination.\<close>

lemma dest_write:
  assumes "ce_live e" "ce_running t e" "e1 = ce_write (ct_dest_info t) (ct_dest_offset t) data status torn e"
  shows "ce_same e e1 \<and> store_grows (en_files e) (en_disk e) (en_files e1) (en_disk e1)
    \<and> (status = 0 \<longrightarrow> ce_read (Some (task_dest t)) (ct_dest_offset t) (length data) e1 = data)"
proof -
  note live = live_files [OF assms(1)]
  obtain f where f: "file_of e (task_dest t) = Some f" "usable f" "unat (fi_write_offset f) = ct_dest_offset t" "ct_dest_info t = Some (task_dest t)"
    using assms(2) by (auto simp: ce_running_def dest_ok_def)
  obtain j where j: "find_file (en_files e) (task_dest t) = Some j" "en_files e ! j = f" "j < length (en_files e)"
    using f(1) by (auto simp: file_of_Some find_file_Some)
  define d where "d = disk_write (fi_blob_id f) (ct_dest_offset t) (if status = 0 then data else map torn [0..<length data]) (en_disk e)"
  have e1: "e1 = e\<lparr>en_disk := d\<rparr>" using f(1,4) by (simp add: assms(3) ce_write_def d_def)
  have w: "submit_write True status torn (en_files e ! j) (unat (fi_write_offset (en_files e ! j))) data (en_disk e) = (status, d)"
    using f(2,3) j(2) by (simp add: submit_write_def usable_def d_def)
  have ok: "files_ok e" using live by blast
  note grows = submit_write_grows(1) [OF ok j(3) w]
  have "files_ok e1" using ok by (simp add: e1 files_ok_def get_active_file_def get_file_def)
  then have "kv_inv e1 \<and> kv_abs e1 = kv_abs e" using live grows by (intro kv_grows) (simp_all add: e1)
  then have "ce_same e e1" using assms(1) by (simp add: ce_same_def ce_live_def kv_serving_def e1)
  moreover have "ce_read (Some (task_dest t)) (ct_dest_offset t) (length data) e1 = data" if "status = 0"
    using submit_write_grows(2) [OF ok j(3) w that] j(1,2) f(1,3) by (simp add: ce_read_def e1 file_of_def get_file_def)
  ultimately show ?thesis using grows by (simp add: e1)
qed

lemma good_write_done:
  assumes "ce_live e" "ce_running t e" "ct_io t = Some (CioWrite off data)" "ct_state t = CWriteChunk" "write_in_blob (ct_io t) status e"
  shows "ce_good e (ce_complete now status torn ready cstatus (t, e))"
proof -
  note run = assms(2) [unfolded ce_running_def]
  have io: "off = ct_dest_offset t" "data = ct_write_data t" using run assms(3) by (simp_all add: chunk_ok_def)
  define e1 where "e1 = ce_write (ct_dest_info t) (ct_dest_offset t) data status torn e"
  have e1: "ce_same e e1" "store_grows (en_files e) (en_disk e) (en_files e1) (en_disk e1)"
    "status = 0 \<Longrightarrow> ce_read (Some (task_dest t)) (ct_dest_offset t) (length data) e1 = data"
    using dest_write [OF assms(1,2) e1_def] by simp_all
  obtain d where d: "e1 = e\<lparr>en_disk := d\<rparr>" unfolding e1_def by (rule ce_write_disk)
  have tab: "file_of e1 = file_of e" by (simp add: d file_of_def get_file_def fun_eq_iff)
  have parts: "src_ok t e1" "dest_ok t e1" using run by (simp_all add: src_ok_def dest_ok_def tab, simp_all add: d)
  have com: "committed_ok t e1" using run same_image_kept [OF _ e1(2)] by (simp add: committed_same)
  have pend: "pending_ok t e1" using run image_kept [OF grows_kept [OF e1(2)]] by (fastforce simp: pending_ok_def pending_one_def)
  have off: "4096 \<le> ct_current_offset t" "4096 dvd ct_current_offset t" using run by (simp_all add: chunk_ok_def)
  note live = same_live [OF e1(1)]
  have run: "ce_complete now status torn ready cstatus (t, e)
      = (case ct_on_write now status (t\<lparr>ct_io := None\<rparr>, comp_world_of e1) of (t', w) \<Rightarrow> (t', with_comp_world w e1))"
    using assms(3) by (simp add: ce_complete_def ct_complete_def Let_def e1_def io)
  have "ce_good e1 (ce_complete now status torn ready cstatus (t, e))"
  proof (cases "status = 0")
    case False
    have "ce_running (t\<lparr>ct_io := None\<rparr>) e1"
      using parts com pend off assms(4)
      by (simp add: ce_running_def src_ok_def dest_ok_def committed_ok_def pending_ok_def pending_one_def chunk_ok_def)
    from good_error [OF live this] show ?thesis
      using False assms(4) by (simp add: run ct_on_write_def)
  next
    case True
    let ?t = "t\<lparr>ct_io := None, ct_io_pending := False, ct_retry_count := 0, ct_state := CUpdateIndices\<rparr>"
    have "unat (en_data_file_size e) \<le> 2 ^ 33" using live_files [OF assms(1)] by (simp add: files_ok_def)
    then have "ct_dest_offset t + length (ct_write_data t) \<le> 2 ^ 33" using assms(3,5) True io by simp
    then have "ce_running ?t e1"
      using parts com pend off e1(3) [OF True] io
      by (simp add: ce_running_def src_ok_def dest_ok_def committed_ok_def pending_ok_def pending_one_def chunk_ok_def)
    then have "ce_good e1 (?t, with_comp_world (comp_world_of e1) e1)"
      by (rule good_task [OF live]) (simp_all add: is_removal_def)
    then show ?thesis unfolding run using True by (simp add: ct_on_write_def)
  qed
  then show ?thesis by (rule good_trans [OF e1(1)])
qed

lemma update_by_id:
  assumes "files_ok e" "get_file e i = Some j"
  shows "en_update_file j f e = with_files (Some i) f (en_index e) (en_meta e) e"
proof -
  have j: "j < length (en_files e)" "fi_file_id (en_files e ! j) = i" using assms(2) by (auto simp: get_file_def find_file_Some)
  have "fi_file_id (en_files e ! k) = i \<longleftrightarrow> k = j" if "k < length (en_files e)" for k
    using that j assms(1) by (auto simp: files_ok_def distinct_conv_nth)
  then have "(en_files e)[j := f (en_files e ! j)] = upd_file (Some i) f (en_files e)"
    using j by (intro nth_equalityI) (auto simp: upd_file_nth nth_list_update)
  then show ?thesis by (simp add: en_update_file_def with_files_def)
qed

lemma good_removed:
  assumes "ce_live e" "ct_io t = Some (CioRemove (task_dest t))" "ce_removing t e"
  shows "ce_good e (ce_complete now status torn ready cstatus (t, e))"
proof -
  let ?dest = "task_dest t"
  define e1 where "e1 = ce_device t status torn ready cstatus (CioRemove ?dest) e"
  have none: "points_in ?dest {} (en_index e)" using assms(3) by (simp add: ce_removing_def points_in_def)
  have act: "?dest \<noteq> en_active_file_id e" using assms(3) by (simp add: ce_removing_def)
  note live = live_files [OF assms(1)]
  have same: "ce_same e e1"
  proof (cases "get_file e ?dest")
    case None
    then show ?thesis by (simp add: e1_def same_refl [OF assms(1)])
  next
    case (Some j)
    have "ce_same e (en_update_file j (\<lambda>f. f\<lparr>fi_blob_opened := False\<rparr>) e)"
      using live by (subst update_by_id [OF _ Some], blast)
        (intro drop_same [OF assms(1) none act]; simp add: same_id_def)
    then show ?thesis using Some same_refl [OF assms(1)] by (simp add: e1_def close_blob_for_file_def)
  qed
  define t' where "t' = t\<lparr>ct_io := None, ct_io_pending := False, ct_state := CRollbackMarkSealed\<rparr>"
  obtain w where w: "ct_complete now status [] (ce_erases ready cstatus (CioRemove ?dest) e) (t, comp_world_of e1) = (t', w)"
    "cw_files w = file_of e1" "cw_index w = en_index e1"
    using assms(2) by (simp add: ct_complete_def ct_on_removed_def t'_def comp_world_of_def)
  have "with_comp_world w e1 = with_files None id (en_index e1) (cw_meta w) e1"
    using world_same [OF _ w(2)] live_files [OF same_live [OF same]] w(3) by simp
  then have "ce_same e1 (with_comp_world w e1)" using meta_same [OF same_live [OF same]] by simp
  moreover have "ce_complete now status torn ready cstatus (t, e) = (t', with_comp_world w e1)"
    using w(1) by (intro ce_complete_eq [OF assms(2) e1_def]) simp
  moreover have "ce_phase t' e'" for e' by (rule phase_over) (simp_all add: t'_def is_removal_def)
  ultimately show ?thesis using same same_trans by (simp add: ce_good_def t'_def)
qed

lemma good_complete:
  assumes "ce_live e" "comp_wf t" "ce_phase t e" "io_page_ok (ct_io t)" "write_in_blob (ct_io t) status e"
  shows "ce_good e (ce_complete now status torn ready cstatus (t, e))"
proof (cases "ct_io t")
  case None
  then show ?thesis using assms(1,3) by (simp add: ce_complete_def ce_good_def same_refl)
next
  case (Some io)
  have state: "ct_state t = io_state io" using assms(2) Some by (simp add: comp_wf_defs)
  have run: "ce_running t e" if "\<forall>i. io \<noteq> CioRemove i" "\<forall>p. io \<noteq> CioMarkSealed p"
    using assms(3) Some state that by (cases io) (auto simp: ce_phase_def is_removal_def)
  show ?thesis
  proof (cases io)
    case (CioMarkCompacting page)
    then show ?thesis using Some state assms(4) run by (intro good_header_done [OF assms(1)]) auto
  next
    case (CioMarkDeleted page)
    then show ?thesis using Some state assms(4) run by (intro good_header_done [OF assms(1)]) auto
  next
    case (CioRead off n)
    then show ?thesis using Some state run by (intro good_read_done [OF assms(1)]) auto
  next
    case (CioWrite off data)
    then show ?thesis using Some state run assms(5) by (intro good_write_done [OF assms(1)]) auto
  next
    case (CioRemove i)
    then show ?thesis using Some assms(3) by (intro good_removed [OF assms(1)]) (auto simp: ce_phase_def is_removal_def)
  next
    case (CioMarkSealed page)
    then show ?thesis using Some assms(4) by (intro good_sealed_done [OF assms(1)]) auto
  qed
qed

section \<open>The task and the calls simulate the map\<close>

lemma good_step:
  assumes "ce_live e" "comp_wf t" "ce_phase t e" "ce_allocates env t e \<longrightarrow> env_ok io e" "io_page_ok (ct_io t)"
  shows "ce_good e (ce_step env io now (t, e))"
proof (cases "ct_io_pending t")
  case True
  then have io: "ct_io t \<noteq> None" and alloc: "\<not> ce_allocates env t e"
    using assms(2) by (auto simp: comp_wf_defs ce_allocates_def split: option.splits)
  have step: "ce_step env io now (t, e) = (t, with_comp_world (comp_world_of e) e)"
    using True alloc by (simp add: ce_step_def ct_step_def)
  obtain r where "ct_io t = Some r" using io by blast
  then have "ct_state t = io_state r" using assms(2) by (simp add: comp_wf_defs)
  then have "ct_state t \<noteq> CInit" by (cases r) simp_all
  then consider "ce_removing t e" "ct_io t = Some (CioRemove (task_dest t))" | "\<not> is_removal t" "ct_state t \<in> {CRollbackMarkSealed, CFailed, CDone}"
    | "\<not> is_removal t" "ce_running t e" "ct_state t \<noteq> CInit"
    using assms(3) by (auto simp: ce_phase_def split: if_splits)
  then have "ce_phase t (with_comp_world (comp_world_of e) e)"
  proof cases
    case 1
    note st = world_kept(2) [OF assms(1), of "{task_dest t}"]
    obtain f where "file_of e (task_dest t) = Some f" using 1(1) by (auto simp: ce_removing_def)
    then have "ce_removing t (with_comp_world (comp_world_of e) e)"
      using 1(1) st by (fastforce simp: ce_removing_def ce_stable_def)
    then show ?thesis using 1(2) by (simp add: ce_phase_def is_removal_def)
  next
    case 2
    then show ?thesis by (intro phase_over)
  next
    case 3
    then show ?thesis by (intro phase_running running_stable [OF _ world_kept(2) [OF assms(1)]])
  qed
  then show ?thesis using world_kept(1) [OF assms(1)] assms(5) by (simp add: step ce_good_def)
next
  case False
  then have io: "ct_io t = None" using assms(2) by (auto simp: comp_wf_defs split: option.splits)
  then have rem: "\<not> is_removal t" by (simp add: is_removal_def)
  have over: "ce_good e (ce_step env io' now (t, e))" if "ct_state t = CFailed \<or> ct_state t = CDone" for io'
    using that good_over [OF assms(1) io] False by (auto simp: ce_step_dispatch)
  have run: "ce_running t e" if "ct_state t \<notin> {CInit, CRollbackMarkSealed, CFailed, CDone}"
    using assms(3) rem that by (auto simp: ce_phase_def)
  have wait: "ct_state t \<notin> {CWaitMarkComplete, CWaitReadComplete, CWaitWriteComplete, CWaitDeleteComplete, CWaitRollbackComplete}"
    using assms(2) by (simp add: comp_wf_def)
  show ?thesis
  proof (cases "ct_state t")
    case CInit
    then have "ce_fresh t e" using assms(3) rem by (simp add: ce_phase_def)
    then show ?thesis using good_init [OF assms(1) _ io CInit False] assms(4) by blast
  qed (use run over wait io False assms(1,2) in \<open>auto intro: good_mark_compacting good_read good_process good_write good_update
      good_quiet good_mark_deleted good_rollback good_mark_sealed\<close>)
qed

lemma kv_do_frame:
  assumes "kv_serving e" "kv_call_ok c e" "kv_do c e = (r, e')"
  shows "call_frame e e' \<and> index_frame e e'"
proof (cases c)
  case (KvPut env key v len)
  then show ?thesis using assms kv_put_frame [of e env key v len] by (auto simp: kv_serving_def split: prod.splits)
next
  case (KvGet env key buf_len)
  then show ?thesis using assms(3) by (auto simp: frame_refl split: prod.splits)
next
  case (KvDel env key)
  then show ?thesis using assms kv_del_frame [of e env key] by (auto simp: kv_serving_def split: prod.splits)
qed

text \<open>A call leaves the task where it is.\<close>

lemma phase_call:
  assumes "ce_phase t e" "call_frame e e'" "index_frame e e'" "files_ok e"
  shows "ce_phase t e'"
proof -
  note st = call_stable [OF assms(2-4)]
  have "ce_removing t e'" if "ce_removing t e"
  proof -
    have d: "task_dest t \<noteq> en_active_file_id e" "file_of e (task_dest t) \<noteq> None" using that by (simp_all add: ce_removing_def)
    then have "ce_stable {task_dest t} e e'" by (intro st) auto
    then show ?thesis using that d by (auto simp: ce_removing_def ce_stable_def) fastforce+
  qed
  moreover have "ce_fresh t e'" if "ce_fresh t e"
  proof -
    have "ce_stable {task_src t} e e'" using that by (intro st) (auto simp: ce_fresh_def src_ok_def)
    then show ?thesis using that src_stable [of t e e'] by (simp add: ce_fresh_def)
  qed
  moreover have "ce_running t e'" if "ce_running t e"
  proof -
    have "ce_stable {task_src t, task_dest t} e e'" using that by (intro st) (auto simp: ce_running_def src_ok_def dest_ok_def)
    then show ?thesis using that running_stable by blast
  qed
  ultimately show ?thesis using assms(1) by (auto simp: ce_phase_def split: if_splits)
qed

lemma inv_live: "ce_inv (t, e) \<longleftrightarrow> comp_wf t \<and> ce_live e \<and> io_page_ok (ct_io t) \<and> ce_phase t e"
  by (auto simp: ce_inv_def ce_live_def)

lemma ce_do_simulates:
  assumes "ce_inv s" "ce_allowed ev s" "ce_do ev s = (r, s')"
  shows "ce_inv s' \<and> ce_answer_ok ev r (kv_abs (snd s)) \<and> kv_abs (snd s') = ce_effect ev r (kv_abs (snd s))"
proof -
  obtain t e where s: "s = (t, e)" by fastforce
  have inv: "comp_wf t" "ce_live e" "io_page_ok (ct_io t)" "ce_phase t e" using assms(1) by (simp_all add: s inv_live)
  have good: "ce_inv s' \<and> kv_abs (snd s') = kv_abs e" if "comp_wf (fst s')" "ce_good e s'"
    using that by (cases s') (simp add: inv_live ce_good_def ce_same_def ce_live_def)
  show ?thesis
  proof (cases ev)
    case (CeCall c)
    obtain q e' where c: "kv_do c e = (q, e')" by fastforce
    have sv: "kv_serving e" "kv_call_ok c e" using inv(2) assms(2) by (simp_all add: ce_live_def s CeCall)
    have fr: "call_frame e e'" "index_frame e e'" using kv_do_frame [OF sv c] by simp_all
    have "ce_phase t e'" using phase_call [OF inv(4) fr] live_files [OF inv(2)] by blast
    moreover have "en_active_file_id e' < en_next_file_id e'" using fr(1) inv(2) by (simp add: call_frame_def ce_live_def)
    ultimately show ?thesis
      using kv_do_simulates [OF sv c] c inv(1,3) assms(3) by (auto simp: s CeCall inv_live ce_live_def)
  next
    case (CeStep env io now)
    have r: "r = None" "s' = ce_step env io now (t, e)" using assms(3) by (simp_all add: s CeStep)
    have "comp_wf (fst s')"
      using wf_step [of "(t, comp_world_of e)" "ce_env env io e" now] inv(1) by (simp add: r ce_step_def case_prod_beta)
    moreover have "ce_good e s'"
      unfolding r(2) by (rule good_step [OF inv(2,1,4) _ inv(3)]) (use assms(2) in \<open>simp add: s CeStep\<close>)
    ultimately show ?thesis using good by (simp add: s CeStep r(1))
  next
    case (CeDone now status torn ready cstatus)
    have r: "r = None" "s' = ce_complete now status torn ready cstatus (t, e)" using assms(3) by (simp_all add: s CeDone)
    have "comp_wf (fst s')"
      using wf_complete [of "(t, w)" for w] inv(1)
      by (auto simp: r ce_complete_def Let_def split: option.splits prod.splits) (metis fst_conv)
    moreover have "ce_good e s'"
      unfolding r(2) by (rule good_complete [OF inv(2,1,4,3)]) (use assms(2) in \<open>simp add: s CeDone\<close>)
    ultimately show ?thesis using good by (simp add: s CeDone r(1))
  qed
qed

interpretation compacting: simulation ce_allowed ce_do ce_inv "\<lambda>s. kv_abs (snd s)" ce_answer_ok ce_effect
  by unfold_locales (rule ce_do_simulates)

text \<open>C4: A compaction is invisible to the callers of the engine, under the conditions that follow. Let the engine serve a map and let a task be
  created for a file that is open, readable and not the active one. Then whatever puts, gets and deletes
  are called between the steps of the task and the completions of its requests, in whatever order, and
  whatever these requests return, with torn writes, retries, a rollback and the removal of the
  destination included: every get answers what the map holds, which the calls alone have changed.
  Every event meets \<open>ce_allowed\<close>: a call meets \<open>kv_call_ok\<close> (at a put the index takes the key, neither dropped nor
  displacing another, and the entry has at most 65535 pages; at a put and a delete a file can be allocated safely, with
  a fresh blob, a file id below 1024 and room in the allocation log; at a get the device reads); a step
  that allocates the destination meets the same \<open>env_ok\<close>; and the device rejects a write beyond the size of the
  blob.\<close>

theorem compaction_is_invisible:
  assumes "kv_inv e" "en_state e = EReady" "en_active_file_id e < en_next_file_id e"
    and "file_of e src = Some f" "usable f" "src \<noteq> en_active_file_id e"
    and "sim_allowed ce_allowed ce_do evs (ct_new src, e)" "sim_run ce_do evs (ct_new src, e) = (tr, t', e')"
  shows "spec_accepts ce_answer_ok ce_effect tr (kv_abs e) \<and> kv_abs e' = spec_final ce_effect tr (kv_abs e) \<and> kv_inv e'"
proof -
  have "ce_phase (ct_new src) e"
    using assms(4-6) by (simp add: ce_phase_def is_removal_def ct_new_def ce_fresh_def src_ok_def)
  then have "ce_inv (ct_new src, e)"
    using assms(1-3) wf_new by (simp add: inv_live ce_live_def kv_serving_def) (simp add: ct_new_def)
  from compacting.run_simulates [OF this assms(7,8)] show ?thesis
    by (auto simp: inv_live dest: live_files)
qed

section \<open>A concrete run\<close>

text \<open>File 0 is sealed and holds the entry of key 5; file 1 is active.\<close>

definition demo_two :: kv_engine where
  "demo_two = demo_kv\<lparr>en_files := en_files demo_kv @ [\<lparr>fi_file_id = 1, fi_blob_id = 79, fi_state = FActive, fi_size = 4096,
     fi_write_offset = 4096, fi_blob_opened = True\<rparr>], en_active_file_id := 1, en_next_file_id := 2\<rparr>"

lemma index_written_frame:
  "en_files (advance_file i sz (index_written key m e)) = en_files (advance_file i sz e)"
  "en_next_file_id (advance_file i sz (index_written key m e)) = en_next_file_id e"
  "en_data_file_size (advance_file i sz (index_written key m e)) = en_data_file_size e"
  "en_alloc_log (advance_file i sz (index_written key m e)) = en_alloc_log e"
  unfolding index_written_advance by (simp_all add: advance_file_alt en_update_file_def)

lemma demo_kv_files:
  "\<exists>f. en_files demo_kv = [f] \<and> fi_file_id f = 0 \<and> fi_blob_id f = 77 \<and> usable f"
  "en_next_file_id demo_kv = 1" "en_data_file_size demo_kv = 1048576" "en_alloc_log demo_kv = None"
proof -
  let ?f = "en_files demo_store ! 0" and ?idx = "snd (mi_allocate_sequence (en_index demo_store))"
  have al: "mi_allocate_sequence (en_index demo_store) = (1, ?idx)"
    by (simp add: demo_store_def mi_allocate_sequence_def Let_def mem_index_new_def)
  obtain d where w: "submit_write (io_ready demo_io) (io_status demo_io) (io_torn demo_io) ?f (unat (fi_write_offset ?f))
      (build_entry_inplace 5 (Some [1, 2, 3]) 3 1 False) (en_disk demo_store) = (0, d)"
    by (simp add: submit_write_def demo_io_def demo_store_def)
  have eq: "demo_kv = advance_file 0 (kv_entry_size 3) (index_written 5 (written_entry 5 ?f (fi_write_offset ?f) (kv_entry_size 3) 1)
      (demo_store\<lparr>en_index := ?idx, en_disk := d\<rparr>))"
    unfolding demo_kv_def using kv_put_writes [OF _ _ demo_file_for_write _ al refl w] by (simp add: demo_io_def) (simp add: demo_store_def)
  show "\<exists>f. en_files demo_kv = [f] \<and> fi_file_id f = 0 \<and> fi_blob_id f = 77 \<and> usable f"
    "en_next_file_id demo_kv = 1" "en_data_file_size demo_kv = 1048576" "en_alloc_log demo_kv = None"
    unfolding eq index_written_frame
    by (simp_all add: advance_file_alt en_update_file_def demo_store_def advanced_def usable_def file_state_readable_def)
qed

lemma demo_two_ok:
  "kv_inv demo_two" "kv_abs demo_two = [5 \<mapsto> [1, 2, 3]]" "en_state demo_two = EReady" "env_ok demo_io demo_two"
  "\<exists>f. file_of demo_two 0 = Some f \<and> usable f" "en_active_file_id demo_two = 1" "en_next_file_id demo_two = 2"
proof -
  obtain e where e: "e = demo_kv" "kv_inv e" "kv_abs e = [5 \<mapsto> [1, 2, 3]]" "en_state e = EReady" by (rule demo_put)
  obtain f where f: "en_files demo_kv = [f]" "fi_file_id f = 0" "fi_blob_id f = 77" "usable f" using demo_kv_files(1) by blast
  have ok: "file_ok f" using e(1,2) f(1) by (simp add: kv_inv_def files_ok_def)
  have "files_ok demo_two"
    using ok f demo_kv_files(2,3) by (simp add: demo_two_def files_ok_def file_ok_def get_active_file_def get_file_def file_state_readable_def)
  moreover have "store_grows (en_files demo_kv) (en_disk demo_kv) (en_files demo_two) (en_disk demo_two)"
    by (simp add: demo_two_def store_grows_def f(1) file_grows_refl)
  ultimately have "kv_inv demo_two \<and> kv_abs demo_two = kv_abs demo_kv"
    using e(1,2) by (intro kv_grows) (simp_all add: demo_two_def kv_inv_def)
  then show "kv_inv demo_two" "kv_abs demo_two = [5 \<mapsto> [1, 2, 3]]" using e(1,3) by simp_all
  show "\<exists>f. file_of demo_two 0 = Some f \<and> usable f" using f by (simp add: demo_two_def file_of_def get_file_def)
  show "en_state demo_two = EReady" "env_ok demo_io demo_two" "en_active_file_id demo_two = 1" "en_next_file_id demo_two = 2"
    using e(1,4) f demo_kv_files(4) by (simp_all add: demo_two_def env_ok_def demo_io_def alloc_log_near_full_def)
qed

text \<open>The task starts on file 0, the header write it asks for fails, a get of key 5 is called.\<close>

theorem compaction_is_invisible_witness:
  "\<exists>t e. sim_run ce_do [CeStep demo_env demo_io 0, CeDone 0 (-5) (\<lambda>_. 0) True 0, CeCall (KvGet demo_io 5 100)] (ct_new 0, demo_two)
     = ([(CeStep demo_env demo_io 0, None), (CeDone 0 (-5) (\<lambda>_. 0) True 0, None),
         (CeCall (KvGet demo_io 5 100), Some (KvGot KSuccess (Some [1, 2, 3]) (Some 3)))], t, e)"
proof -
  let ?step = "CeStep demo_env demo_io 0" and ?done = "CeDone 0 (-5) (\<lambda>_. 0) True 0" and ?get = "CeCall (KvGet demo_io 5 100)"
  obtain t1 e1 where s1: "ce_step demo_env demo_io 0 (ct_new 0, demo_two) = (t1, e1)" by fastforce
  obtain t2 e2 where s2: "ce_complete 0 (-5) (\<lambda>_. 0) True 0 (t1, e1) = (t2, e2)" by fastforce
  obtain a where g: "kv_do (KvGet demo_io 5 100) e2 = (a, e2)" by (cases "kv_get demo_io 5 True 100 e2") auto
  have run: "sim_run ce_do [?step, ?done, ?get] (ct_new 0, demo_two) = ([(?step, None), (?done, None), (?get, Some a)], t2, e2)"
    using s1 s2 g by (simp del: kv_do.simps)
  have "write_in_blob io (-5) e" for io e by (cases "(io, -5 :: int, e)" rule: write_in_blob.cases) auto
  then have allowed: "sim_allowed ce_allowed ce_do [?step, ?done, ?get] (ct_new 0, demo_two)"
    using demo_two_ok(4) s1 s2 by (simp add: demo_io_def del: kv_do.simps)
  obtain f where f: "file_of demo_two 0 = Some f" "usable f" using demo_two_ok(5) by blast
  have "spec_accepts ce_answer_ok ce_effect [(?step, None), (?done, None), (?get, Some a)] [5 \<mapsto> [1, 2, 3]]"
    using compaction_is_invisible [OF demo_two_ok(1,3) _ f _ allowed run] demo_two_ok(2,6,7) by simp
  then have "a = KvGot KSuccess (Some [1, 2, 3]) (Some 3)" by (cases a) simp_all
  then show ?thesis unfolding run by simp
qed

end
