(* ===== verification/KvPoll.thy ===== *)
theory KvPoll
  imports KvCompactInv
begin

text \<open>
  The scheduler of compactions inside the engine, and \<^verbatim>\<open>Engine::poll\<close> as a whole: the buffers, the
  checkpoint and the compaction one after the other on one system.
\<close>

section \<open>The scheduler\<close>

text \<open>What the surroundings answer to one poll: at every step the DMA allocator, the cycle counter and the
  clock; for the destination file the blob store.\<close>

record sched_env =
  sc_env :: "nat \<Rightarrow> comp_env"
  sc_io :: io_env
  sc_tsc :: "nat \<Rightarrow> u64"
  sc_ns :: "nat \<Rightarrow> u64"
  sc_start :: u64

partial_function (option) ce_run_steps :: "sched_env \<Rightarrow> nat \<Rightarrow> comp_task \<times> kv_engine \<Rightarrow> (comp_task \<times> kv_engine) option" where
  "ce_run_steps env n s =
     (if ct_is_complete (fst s) then Some s
      else (let elapsed = sc_tsc env n - sc_start env
            in if elapsed > kMaxCyclesPerPoll then Some s
               else ce_run_steps env (n + 1) (ce_step (sc_env env n) (sc_io env) (sc_ns env n) s)))"

definition ce_poll :: "sched_env \<Rightarrow> comp_scheduler \<times> kv_engine \<Rightarrow> (comp_scheduler \<times> kv_engine) option" where
  "ce_poll env = (\<lambda>(c, e).
     (case cs_begin (sc_ns env 0) c of
        (None, c) \<Rightarrow> Some (c, e)
      | (Some t, c) \<Rightarrow> (case ce_run_steps env 1 (t, e) of
            None \<Rightarrow> None | Some (t, e) \<Rightarrow> Some (cs_end t c, e))))"

section \<open>Runs\<close>

datatype cs_event = CsCall kv_call | CsSchedule u16 | CsPoll nat sched_env | CsDone u64 int "nat \<Rightarrow> byte" bool int

definition cs_tick :: "nat \<Rightarrow> sched_env \<Rightarrow> comp_scheduler \<times> kv_engine \<Rightarrow> (comp_scheduler \<times> kv_engine) option" where
  "cs_tick foreground env = (\<lambda>(c, e). ce_poll env (cs_set_pending_foreground_count foreground c, e))"

text \<open>A poll that does not return is the value \<open>None\<close>; runs with such a poll are excluded below.\<close>

fun cs_do :: "cs_event \<Rightarrow> comp_scheduler \<times> kv_engine \<Rightarrow> kv_result option \<times> (comp_scheduler \<times> kv_engine)" where
  "cs_do (CsCall q) (c, e) = (case kv_do q e of (r, e) \<Rightarrow> (Some r, c, e))"
| "cs_do (CsSchedule file_id) (c, e) = (None, cs_schedule_compaction file_id c, e)"
| "cs_do (CsPoll foreground env) s = (None, case cs_tick foreground env s of None \<Rightarrow> s | Some s' \<Rightarrow> s')"
| "cs_do (CsDone now status torn ready cstatus) (c, e) =
     (None, case cs_active c of None \<Rightarrow> (c, e)
        | Some t \<Rightarrow> (case ce_complete now status torn ready cstatus (t, e) of (t, e) \<Rightarrow> (c\<lparr>cs_active := Some t\<rparr>, e)))"

text \<open>A file that may be compacted is open, readable and not the active one, and the running task does not
  write to it.\<close>

definition waits :: "kv_engine \<Rightarrow> u16 \<Rightarrow> bool" where
  "waits e p \<longleftrightarrow> p \<noteq> en_active_file_id e \<and> (\<exists>f. file_of e p = Some f \<and> usable f)"

definition apart :: "u16 \<Rightarrow> comp_task \<Rightarrow> bool" where
  "apart p t \<longleftrightarrow> ct_dest_info t \<noteq> Some p \<and> ct_io t \<noteq> Some (CioRemove p)"

fun cs_allowed :: "cs_event \<Rightarrow> comp_scheduler \<times> kv_engine \<Rightarrow> bool" where
  "cs_allowed (CsCall q) (c, e) = kv_call_ok q e"
| "cs_allowed (CsSchedule file_id) (c, e) = (waits e file_id \<and> (\<forall>t. cs_active c = Some t \<longrightarrow> apart file_id t))"
| "cs_allowed (CsPoll foreground env) (c, e) = (cs_tick foreground env (c, e) \<noteq> None \<and> env_ok (sc_io env) e)"
| "cs_allowed (CsDone now status torn ready cstatus) (c, e) = (\<forall>t. cs_active c = Some t \<longrightarrow> write_in_blob (ct_io t) status e)"

fun cs_answer_ok :: "cs_event \<Rightarrow> kv_result option \<Rightarrow> (u64 \<Rightarrow> byte list option) \<Rightarrow> bool" where
  "cs_answer_ok (CsCall q) (Some r) a = kv_answer_ok q r a"
| "cs_answer_ok (CsCall q) None a = False"
| "cs_answer_ok _ r a = (r = None)"

fun cs_effect :: "cs_event \<Rightarrow> kv_result option \<Rightarrow> (u64 \<Rightarrow> byte list option) \<Rightarrow> u64 \<Rightarrow> byte list option" where
  "cs_effect (CsCall q) (Some r) a = kv_effect q r a"
| "cs_effect _ r a = a"

section \<open>Engine::poll\<close>

text \<open>The whole system with the trigger of the checkpoints and the switch of the compaction; what the
  surroundings answer to one poll. \<open>pe_ckpt_done\<close> is the completion that polling the checkpoint finds.\<close>

record kv_polled =
  pk_sys :: kv_system
  pk_trigger :: ckpt_trigger
  pk_compaction :: bool

record poll_env =
  pe_async :: async_env
  pe_now :: u64
  pe_ckpt :: "(nat, kv_system) ckpt_env"
  pe_ckpt_now :: u64
  pe_ckpt_done :: "int option"
  pe_sched :: sched_env

text \<open>\<^verbatim>\<open>on_superblock_update\<close> on the system: the engine is brought up to date as without the write, then the
  superblock is written.\<close>

definition sy_superblock_update :: "life_env \<Rightarrow> u64 \<Rightarrow> u32 \<Rightarrow> active_buffer_pos list \<Rightarrow> kv_system \<Rightarrow> int \<times> kv_system" where
  "sy_superblock_update env checkpoint_sequence checkpoint_seq positions s =
     (let e = snd (on_superblock_update (\<lambda>sb. (KSuccess, sb)) checkpoint_sequence checkpoint_seq positions (sy_engine s))
      in case sy_write_superblock env (sy_set_engine e s) of (err, s) \<Rightarrow> (if err = KSuccess then 0 else -1, s))"

text \<open>The surroundings of the checkpoint manager in the engine; the callback of the checkpoints that a poll
  starts is the null pointer.\<close>

definition sy_ckpt_env :: "bool \<Rightarrow> bool \<Rightarrow> bool \<Rightarrow> life_env \<Rightarrow> (nat, kv_system) ckpt_env" where
  "sy_ckpt_env blob channel dma env =
     \<lparr>ce_blob = blob, ce_channel = channel, ce_dma = dma,
      ce_manager = (\<lambda>s. Some (am_active (bk_mgr (sy_bk s)) \<noteq> None)), ce_index = (\<lambda>s. Some (en_index (sy_engine s))),
      ce_superblock = Some (\<lambda>c. sy_superblock_update env (ck_sequence c)), ce_run = (\<lambda>_ _ cs. cs)\<rparr>"

text \<open>\<^verbatim>\<open>start_checkpoint\<close> called by a client; where there is no manager its callback gets an error.\<close>

definition engine_start_checkpoint :: "(nat, kv_system) ckpt_env \<Rightarrow> nat \<Rightarrow> kv_system \<Rightarrow> kv_system" where
  "engine_start_checkpoint env cb s =
     (case (if sy_parts s
            then ck_engine_start env cb (mi_global_sequence (en_index (sy_engine s))) (active_positions (sy_engine s)) (sy_ckpt s, s)
            else ce_run env cb (-1) (sy_ckpt s, s)) of
        (c, s) \<Rightarrow> s\<lparr>sy_ckpt := c\<rparr>)"

definition is_checkpoint_in_progress :: "kv_system \<Rightarrow> bool" where
  "is_checkpoint_in_progress s \<longleftrightarrow> sy_parts s \<and> ck_is_in_progress (sy_ckpt s)"

definition poll_checkpoint :: "poll_env \<Rightarrow> kv_polled \<Rightarrow> kv_polled" where
  "poll_checkpoint env p =
     (case check_checkpoint_trigger (pe_ckpt env) 0 (pe_ckpt_now env) (sy_engine (pk_sys p)) (pk_trigger p, sy_ckpt (pk_sys p), pk_sys p) of
        (t, c, s) \<Rightarrow>
          (case (if ck_is_in_progress c then snd (ck_poll (pe_ckpt env) (pe_ckpt_done env) (c, s)) else (c, s)) of
             (c, s) \<Rightarrow> p\<lparr>pk_sys := s\<lparr>sy_ckpt := c\<rparr>, pk_trigger := t\<rparr>))"

definition with_sched :: "comp_scheduler \<times> kv_engine \<Rightarrow> kv_polled \<Rightarrow> kv_polled" where
  "with_sched = (\<lambda>(c, e) p. p\<lparr>pk_sys := (sy_set_engine e (pk_sys p))\<lparr>sy_sched := c\<rparr>\<rparr>)"

definition poll_compaction :: "poll_env \<Rightarrow> kv_polled \<Rightarrow> kv_polled option" where
  "poll_compaction env p =
     (if \<not> pk_compaction p then Some p
      else (let s = pk_sys p; foreground = unat (ak_foreground (bk_async (sy_bk s)))
            in map_option (\<lambda>r. with_sched r p) (cs_tick foreground (pe_sched env) (sy_sched s, sy_engine s))))"

text \<open>Completions that the device has are events of their own; nothing ever enqueues a deferred task.
  Before the engine is initialised and after it is closed there is nothing to poll.\<close>

definition engine_poll :: "poll_env \<Rightarrow> kv_polled \<Rightarrow> kv_polled option" where
  "engine_poll env p =
     (if \<not> sy_parts (pk_sys p) then Some p
      else (let p = p\<lparr>pk_sys := (pk_sys p)\<lparr>sy_bk := poll_buffers (pe_async env) (pe_now env) (sy_bk (pk_sys p))\<rparr>\<rparr>
            in poll_compaction env (poll_checkpoint env p)))"

end
