(* ===== verification/KvSchedulerSpec.thy ===== *)
theory KvSchedulerSpec
  imports KvPoll KvCompactEngineSpec
begin

text \<open>
  Any number of compactions: what holds of one task beside the calls of a client is carried over to the
  tasks that the scheduler starts and drives, poll by poll.
\<close>

section \<open>A waiting file is left alone\<close>

text \<open>A step changes one file, its own destination or, in its state only, its source.\<close>

definition task_world :: "comp_task \<Rightarrow> comp_world \<Rightarrow> comp_task \<times> comp_world \<Rightarrow> bool" where
  "task_world t w r \<longleftrightarrow> ct_dest_info (fst r) = ct_dest_info t
     \<and> (\<forall>x. ct_io (fst r) = Some (CioRemove x) \<longrightarrow> ct_io t = Some (CioRemove x) \<or> x = task_dest t \<and> ct_state t = CRollback)
     \<and> (\<exists>q h. (\<forall>i. cw_files (snd r) i = (if q = Some i then map_option h (cw_files w i) else cw_files w i))
          \<and> same_id h \<and> (q = ct_dest_info t \<or> (\<forall>f. usable f \<longrightarrow> usable (h f))))"

lemma task_world_update:
  assumes "\<And>i. cw_files (snd r) i = (if q = Some i then map_option h (cw_files w i) else cw_files w i)" "same_id h"
    and "q = ct_dest_info t \<or> (\<forall>f. usable f \<longrightarrow> usable (h f))" "ct_dest_info (fst r) = ct_dest_info t"
    and "\<And>x. ct_io (fst r) = Some (CioRemove x) \<Longrightarrow> ct_io t = Some (CioRemove x) \<or> x = task_dest t \<and> ct_state t = CRollback"
  shows "task_world t w r"
  unfolding task_world_def using assms by auto

lemma task_world_quiet:
  assumes "cw_files (snd r) = cw_files w" "ct_dest_info (fst r) = ct_dest_info t"
    and "\<And>x. ct_io (fst r) = Some (CioRemove x) \<Longrightarrow> ct_io t = Some (CioRemove x)"
  shows "task_world t w r"
  by (rule task_world_update [where q = None and h = id]) (use assms in \<open>simp_all add: same_id_def\<close>)

lemma handle_dest [simp]:
  "ct_dest_info (handle_io_error now st err t) = ct_dest_info t" "ct_io (handle_io_error now st err t) = ct_io t"
  by (simp_all add: handle_io_error_def Let_def)

lemma process_loop_dest [simp]:
  "ct_dest_info (process_loop m off t) = ct_dest_info t" "ct_io (process_loop m off t) = ct_io t"
  by (induction m off t rule: process_loop.induct; subst process_loop.simps; simp add: Let_def ct_copy_entry_def)+

lemma skip_dest [simp]:
  "ct_dest_info (skip_invalid_pages s) = ct_dest_info (fst s)" "ct_io (skip_invalid_pages s) = ct_io (fst s)"
  by (simp_all add: skip_invalid_pages_def split: option.split)

lemma submit_cases:
  assumes "\<And>x. P ((fst s)\<lparr>ct_io := Some io\<rparr>, snd s)" "\<And>err. err \<noteq> 0 \<Longrightarrow> P (cb err s)"
  shows "P (ct_submit env p io cb s)"
  using assms by (simp add: ct_submit_def Let_def)

lemma header_cases:
  assumes "\<And>page. P ((fst s)\<lparr>ct_io := Some (mk page)\<rparr>, snd s)" "\<And>err. err \<noteq> 0 \<Longrightarrow> P (cb err s)"
  shows "P (ct_write_file_header env p st mk cb s)"
  using assms by (simp add: ct_write_file_header_def submit_cases)

lemma task_world_refl: "task_world t w (t, w)"
  by (rule task_world_quiet) simp_all

lemma read_world:
  assumes "ct_io t = None"
  shows "task_world t w (read_next_chunk env now (t, w))"
proof -
  let ?t = "skip_invalid_pages (t, w)"
  have "task_world t w (ct_submit env (ct_src_info ?t) (CioRead off n) (ct_on_read now n []) (?t\<lparr>ct_io_pending := True\<rparr>, w))" for off n
    by (rule submit_cases; rule task_world_quiet) (simp_all add: ct_on_read_def Let_def assms)
  moreover have "task_world t w (?t\<lparr>ct_state := st\<rparr>, w)" for st
    by (rule task_world_quiet) (simp_all add: assms)
  ultimately show ?thesis by (simp add: read_next_chunk_def Let_def)
qed

lemma rollback_world:
  assumes "ct_io t = None" "ct_state t = CRollback"
  shows "task_world t w (start_rollback (t, w))"
proof (cases "ct_dest_info t \<noteq> None \<and> ct_dest_offset t > 4096")
  case True
  show ?thesis unfolding start_rollback_def Let_def prod.case
    by (rule task_world_update [where q = "ct_dest_info t" and h = "\<lambda>f. f\<lparr>fi_state := FDeleted\<rparr>"])
      (use True in \<open>simp_all add: delete_garbage_file_def ct_on_removed_def Let_def cw_update_files same_id_def assms split: if_splits\<close>)
next
  case False
  show ?thesis unfolding start_rollback_def Let_def prod.case
    by (rule task_world_quiet) (use False in \<open>auto simp: cw_update_files assms split: if_splits\<close>)
qed

lemma dispatch_world:
  assumes "ct_state t \<noteq> CInit" "ct_io t = None"
  shows "task_world t w (ct_dispatch env now (ct_state t) (t, w))"
proof (cases "ct_state t")
  case CMarkCompacting
  show ?thesis unfolding CMarkCompacting ct_dispatch.simps ct_mark_compacting_def Let_def prod.case
    by (rule header_cases; rule task_world_update [where q = "ct_src_info t" and h = "\<lambda>f. f\<lparr>fi_state := FCompacting\<rparr>"])
      (simp_all add: ct_on_mark_compacting_def Let_def cw_update_files same_id_def usable_def file_state_readable_def assms(2))
next
  case CReadChunk
  then show ?thesis by (simp add: read_world assms(2))
next
  case CProcessEntries
  show ?thesis by (rule task_world_quiet) (simp_all add: CProcessEntries process_entries_def assms(2))
next
  case CWriteChunk
  have "task_world t w (ct_submit env (ct_dest_info t) (CioWrite off data) (ct_on_write now) (t\<lparr>ct_io_pending := True\<rparr>, w))" for off data
    by (rule submit_cases; rule task_world_quiet) (simp_all add: ct_on_write_def Let_def assms(2))
  moreover have "task_world t w (t\<lparr>ct_state := CReadChunk\<rparr>, w)" by (rule task_world_quiet) (simp_all add: assms(2))
  ultimately show ?thesis by (simp add: CWriteChunk write_chunk_def)
next
  case CUpdateIndices
  show ?thesis unfolding CUpdateIndices ct_dispatch.simps update_indices_def Let_def prod.case
    by (rule task_world_update [where q = "ct_dest_info t" and h = "\<lambda>f. f\<lparr>fi_write_offset := word_of_nat (ct_dest_offset t
        + length (ct_write_data t)), fi_size := word_of_nat (ct_dest_offset t + length (ct_write_data t))\<rparr>"])
      (simp_all add: cw_update_files same_id_def assms(2))
next
  case CFinalize
  show ?thesis by (rule task_world_quiet) (simp_all add: CFinalize finalize_def assms(2) split: if_splits)
next
  case CMarkDeleted
  show ?thesis unfolding CMarkDeleted ct_dispatch.simps mark_deleted_def Let_def prod.case
    by (rule header_cases; rule task_world_quiet) (simp_all add: ct_on_mark_deleted_def Let_def cw_update_files assms(2))
next
  case CRetryWait
  show ?thesis by (rule task_world_quiet) (simp_all add: CRetryWait check_retry_timeout_def assms(2) split: if_splits)
next
  case CRollback
  then show ?thesis by (simp add: rollback_world assms(2))
next
  case CRollbackMarkSealed
  show ?thesis unfolding CRollbackMarkSealed ct_dispatch.simps rollback_mark_sealed_def Let_def prod.case
    by (rule header_cases; rule task_world_update [where q = "ct_src_info t" and h = "\<lambda>f. f\<lparr>fi_state := FSealed\<rparr>"])
      (simp_all add: ct_on_mark_sealed_def ct_free_dma_buffers_def Let_def cw_update_files same_id_def usable_def file_state_readable_def assms(2))
qed (use assms(1) in \<open>simp_all add: task_world_refl\<close>)

lemma handle_not_init: "ct_state (handle_io_error now st err t) \<noteq> CInit"
  by (simp add: handle_io_error_def Let_def)

lemma process_not_init: "ct_state (process_loop m off t) \<noteq> CInit"
  by (induction m off t rule: process_loop.induct; subst process_loop.simps; simp add: Let_def)

text \<open>A task allocates once: it does not come back to its first state.\<close>

lemma dispatch_not_init:
  assumes "comp_wf t"
  shows "ct_state (fst (ct_dispatch env now (ct_state t) (t, w))) \<noteq> CInit"
proof (cases "ct_state t")
  case CInit
  then show ?thesis by (simp add: ct_init_def Let_def split: option.split prod.split)
next
  case CMarkCompacting
  show ?thesis unfolding CMarkCompacting ct_dispatch.simps ct_mark_compacting_def Let_def prod.case
    by (rule header_cases) (simp_all add: CMarkCompacting ct_on_mark_compacting_def Let_def handle_not_init)
next
  case CReadChunk
  have "ct_state (fst (ct_submit env p (CioRead off n) (ct_on_read now n []) (t'\<lparr>ct_io_pending := True\<rparr>, w))) \<noteq> CInit"
    if "ct_state t' = CReadChunk" for p off n and t'
    by (rule submit_cases) (simp_all add: that ct_on_read_def Let_def handle_not_init)
  moreover have "ct_state (skip_invalid_pages (t, w)) = CReadChunk"
    using CReadChunk by (simp add: skip_invalid_pages_def split: option.split)
  ultimately show ?thesis by (simp add: CReadChunk read_next_chunk_def Let_def)
next
  case CProcessEntries
  then show ?thesis by (simp add: process_entries_def process_not_init)
next
  case CWriteChunk
  have "ct_state (fst (ct_submit env p io (ct_on_write now) (t\<lparr>ct_io_pending := True\<rparr>, w))) \<noteq> CInit" for p io
    by (rule submit_cases) (simp_all add: CWriteChunk ct_on_write_def Let_def handle_not_init)
  then show ?thesis by (simp add: CWriteChunk write_chunk_def)
next
  case CMarkDeleted
  show ?thesis unfolding CMarkDeleted ct_dispatch.simps mark_deleted_def Let_def prod.case
    by (rule header_cases) (simp_all add: CMarkDeleted ct_on_mark_deleted_def Let_def handle_not_init)
next
  case CRetryWait
  then show ?thesis using assms by (auto simp: check_retry_timeout_def comp_wf_defs)
next
  case CRollback
  then show ?thesis by (simp add: start_rollback_def delete_garbage_file_def ct_on_removed_def Let_def)
next
  case CRollbackMarkSealed
  show ?thesis unfolding CRollbackMarkSealed ct_dispatch.simps rollback_mark_sealed_def Let_def prod.case
    by (rule header_cases) (simp_all add: CRollbackMarkSealed ct_on_mark_sealed_def Let_def)
qed (simp_all add: update_indices_def finalize_def Let_def)

lemma step_not_init:
  assumes "comp_wf t"
  shows "ct_state (fst (ce_step env io now (t, e))) \<noteq> CInit"
proof (cases "ct_io_pending t")
  case True
  then obtain r where "ct_state t = io_state r" using assms by (auto simp: comp_wf_defs split: option.splits)
  then have "ct_state t \<noteq> CInit" by (cases r) simp_all
  then show ?thesis using True by (simp add: ce_step_def ct_step_def split: prod.split)
next
  case False
  then show ?thesis using dispatch_not_init [OF assms] by (simp add: ce_step_def ct_step_def split_beta)
qed

lemma waits_task_world:
  assumes "ce_live e" "waits e p" "apart p t" "task_world t (comp_world_of e) (t', w)" "ct_state t = CRollback \<Longrightarrow> task_dest t \<noteq> p"
  shows "apart p t' \<and> waits (with_comp_world w e) p"
proof -
  obtain q h where qh: "\<And>i. cw_files w i = (if q = Some i then map_option h (file_of e i) else file_of e i)" "same_id h"
    "q = ct_dest_info t \<or> (\<forall>f. usable f \<longrightarrow> usable (h f))"
    using assms(4) unfolding task_world_def cw_update_files fst_conv snd_conv by blast
  have w: "with_comp_world w e = with_files q h (cw_index w) (cw_meta w) e"
    using live_files [OF assms(1)] by (intro world_update [OF _ qh(1)]) blast
  obtain f where f: "file_of e p = Some f" "usable f" "p \<noteq> en_active_file_id e" using assms(2) by (auto simp: waits_def)
  have "q = Some p \<longrightarrow> usable (h f)" using qh(3) assms(3) f(2) by (auto simp: apart_def)
  then have "waits (with_comp_world w e) p" using f by (auto simp: waits_def w file_of_with_files [OF qh(2)])
  moreover have "apart p t'" using assms(3-5) by (auto simp: task_world_def apart_def)
  ultimately show ?thesis by simp
qed

lemma waits_world: "ce_live e \<Longrightarrow> waits e p \<Longrightarrow> waits (with_comp_world (comp_world_of e) e) p"
  using waits_task_world [of e p "ct_new 0" "ct_new 0"] task_world_refl by (simp add: apart_def ct_new_def)

lemma waits_old: "ce_live e \<Longrightarrow> waits e p \<Longrightarrow> p < en_next_file_id e"
  using live_files [of e] by (auto simp: waits_def files_ok_def dest!: file_of_member)

lemma waits_call: "ce_live e \<Longrightarrow> waits e p \<Longrightarrow> call_frame e e' \<Longrightarrow> waits e' p"
  using waits_old [of e p] by (auto simp: waits_def call_frame_def)

lemma waiting_init:
  assumes "ce_live e" "apart p t" "waits e p" "ct_io t = None" "ct_state t = CInit" "\<not> ct_io_pending t"
    and "ce_allocates env t e \<Longrightarrow> env_ok io e" "ce_step env io now (t, e) = (t', e')"
  shows "apart p t' \<and> waits e' p"
proof -
  define e1 where "e1 = (if ce_allocates env t e then snd (allocate_new_file io e) else e)"
  obtain r a where al: "allocate_new_file io e = (r, a)" by fastforce
  have e1: "ce_live e1 \<and> waits e1 p"
  proof (cases "ce_allocates env t e")
    case True
    then have "call_frame e a" using allocate_frame [OF _ assms(7) al] live_files [OF assms(1)] by blast
    then show ?thesis
      using waits_call [OF assms(1,3)] allocate_same [OF assms(1,7) al] True same_live by (auto simp: e1_def al)
  qed (use assms(1,3) in \<open>simp add: e1_def\<close>)
  have new: "fi_file_id (en_files a ! i) \<noteq> p" if "ce_allocates env t e" "r = Some i" for i
    using allocate_new_file_result [OF assms(7) [OF that(1)] al] waits_old [OF assms(1,3)] that(2)
    by (auto simp: alloc_result_def)
  obtain w where init: "ct_init (ce_env env io e) (t, comp_world_of e) = (t', w)" "e' = with_comp_world w e1"
    using assms(5,6,8) by (auto simp: ce_step_def ct_step_def e1_def split: prod.splits)
  have flags: "co_read_dma (ce_env env io e) = co_read_dma env" "co_write_dma (ce_env env io e) = co_write_dma env"
    by (simp_all add: ce_env_def)
  have alloc: "co_allocate_new_file (ce_env env io e) x = (map_option (\<lambda>i. fi_file_id (en_files a ! i)) r, comp_world_of a)" for x
    by (simp add: ce_env_def al)
  have "w = comp_world_of e1 \<and> apart p t'"
  proof (cases "ce_allocates env t e")
    case True
    then have "co_read_dma env" "co_write_dma env" "file_of e (task_src t) \<noteq> None" "en_meta e (task_src t) \<noteq> None"
      by (simp_all add: ce_allocates_def)
    then have "w = comp_world_of a \<and> ct_io t' = None \<and> (ct_dest_info t' = None \<or> (\<exists>i. r = Some i \<and> ct_dest_info t' = Some (fi_file_id (en_files a ! i))))"
      using init(1) assms(4) by (cases r) (auto simp: ct_init_def Let_def flags alloc comp_world_of_def)
    then show ?thesis using True new by (auto simp: e1_def al apart_def)
  next
    case False
    then have "w = comp_world_of e \<and> ct_io t' = None \<and> ct_dest_info t' = ct_dest_info t"
      using init(1) assms(4-6) by (auto simp: ct_init_def Let_def flags ce_allocates_def comp_world_of_def split: if_splits)
    then show ?thesis using False assms(2) by (simp add: e1_def apart_def)
  qed
  then show ?thesis using e1 waits_world by (simp add: init(2))
qed

lemma waiting_step:
  assumes "ce_live e" "comp_wf t" "ce_phase t e" "apart p t" "waits e p"
    and "ce_allocates env t e \<Longrightarrow> env_ok io e" "ce_step env io now (t, e) = (t', e')"
  shows "apart p t' \<and> waits e' p"
proof (cases "ct_io_pending t")
  case True
  then have "t' = t \<and> e' = with_comp_world (comp_world_of e) e"
    using assms(7) by (simp add: ce_step_def ct_step_def ce_allocates_def)
  then show ?thesis using waits_world [OF assms(1,5)] assms(4) by simp
next
  case False
  then have io: "ct_io t = None" using assms(2) by (auto simp: comp_wf_defs split: option.splits)
  show ?thesis
  proof (cases "ct_state t = CInit")
    case True
    then show ?thesis using waiting_init [OF assms(1,4,5) io True False assms(6,7)] by simp
  next
    case running: False
    obtain w where w: "ct_dispatch (ce_env env io e) now (ct_state t) (t, comp_world_of e) = (t', w)" "e' = with_comp_world w e"
      using assms(7) ce_step_dispatch [OF False running] by (auto split: prod.splits)
    have "task_dest t \<noteq> p" if "ct_state t = CRollback"
    proof -
      have "ce_running t e" using assms(3) that io by (auto simp: ce_phase_def is_removal_def)
      then show ?thesis using assms(4) by (auto simp: ce_running_def dest_ok_def apart_def)
    qed
    then show ?thesis
      using waits_task_world [OF assms(1,5,4) dispatch_world [OF running io, of "comp_world_of e" "ce_env env io e" now, unfolded w(1)]] w(2) by simp
  qed
qed

text \<open>So does a completion.\<close>

lemma complete_world:
  assumes "ct_io t = Some r"
  shows "cw_files (snd (ct_complete now status data erased (t, w))) = cw_files w"
    "ct_dest_info (fst (ct_complete now status data erased (t, w))) = ct_dest_info t"
    "ct_io (fst (ct_complete now status data erased (t, w))) = None"
  using assms by (cases r; simp add: ct_complete_def ct_on_mark_compacting_def ct_on_read_def ct_on_write_def ct_on_mark_deleted_def
    ct_on_removed_def ct_on_mark_sealed_def ct_free_dma_buffers_def Let_def)+

lemma device_waits:
  assumes "files_ok e" "waits e p" "r \<noteq> CioRemove p" "e1 = ce_device t status torn ready cstatus r e"
  shows "waits e1 p \<and> files_ok e1"
proof (cases "\<exists>q. r = CioRemove q")
  case False
  have "\<exists>d. e1 = e\<lparr>en_disk := d\<rparr>"
  proof (cases r)
    case (CioRead off n)
    then show ?thesis using assms(4) by (intro exI [of _ "en_disk e"]) simp
  qed (use assms(4) False in \<open>simp_all, (metis ce_write_disk)+\<close>)
  then show ?thesis using assms(1,2) by (auto simp: waits_def file_of_def get_file_def files_ok_def get_active_file_def)
next
  case True
  then obtain q where q: "r = CioRemove q" "q \<noteq> p" using assms(3) by blast
  then have e1: "e1 = (case get_file e q of None \<Rightarrow> e | Some i \<Rightarrow> snd (close_blob_for_file ready i cstatus e))" using assms(4) by simp
  have id: "same_id (\<lambda>f. f\<lparr>fi_blob_opened := False\<rparr>)" by (simp add: same_id_def)
  have "e1 = e \<or> e1 = with_files (Some q) (\<lambda>f. f\<lparr>fi_blob_opened := False\<rparr>) (en_index e) (en_meta e) e"
    using update_by_id [OF assms(1), of q] by (cases "get_file e q") (simp_all add: e1 close_blob_for_file_def)
  then consider "e1 = e" | "e1 = with_files (Some q) (\<lambda>f. f\<lparr>fi_blob_opened := False\<rparr>) (en_index e) (en_meta e) e" by blast
  then show ?thesis
  proof cases
    case 2
    have "files_ok e1"
      unfolding 2 by (rule with_files_ok [OF assms(1) id]) (use assms(1) in \<open>auto simp: files_ok_def file_ok_def\<close>)
    then show ?thesis using assms(2) q(2) by (auto simp: waits_def 2 file_of_with_files [OF id])
  qed (use assms(1,2) in simp)
qed

lemma waiting_done:
  assumes "ce_live e" "apart p t" "waits e p" "ce_complete now status torn ready cstatus (t, e) = (t', e')"
  shows "apart p t' \<and> waits e' p"
proof (cases "ct_io t")
  case None
  then show ?thesis using assms(2-4) by (simp add: ce_complete_def)
next
  case (Some r)
  define e1 where "e1 = ce_device t status torn ready cstatus r e"
  have files: "waits e1 p" "files_ok e1"
    using device_waits [OF _ assms(3) _ e1_def] live_files [OF assms(1)] assms(2) Some by (auto simp: apart_def)
  obtain w where w: "ct_complete now status (ce_data t r e) (ce_erases ready cstatus r e) (t, comp_world_of e1) = (t', w)"
    "e' = with_comp_world w e1"
    using assms(4) Some by (auto simp: ce_complete_def e1_def Let_def split: prod.splits)
  note cw = complete_world [OF Some, of now status "ce_data t r e" "ce_erases ready cstatus r e" "comp_world_of e1", unfolded w(1), simplified]
  have "e' = with_files None id (cw_index w) (cw_meta w) e1"
    unfolding w(2) by (rule world_same [OF files(2)]) (simp add: cw(1) cw_update_files)
  then have "waits e' p" using files(1) by (simp add: waits_def file_of_with_files same_id_def)
  then show ?thesis using cw(2,3) assms(2) by (simp add: apart_def)
qed

section \<open>The scheduler and the calls simulate the map\<close>

definition cs_waiting :: "comp_scheduler \<times> kv_engine \<Rightarrow> bool" where
  "cs_waiting = (\<lambda>(c, e). \<forall>w \<in> set (cs_pending c). \<exists>p. w = ct_new p \<and> waits e p \<and> (\<forall>t. cs_active c = Some t \<longrightarrow> apart p t))"

definition cs_inv :: "comp_scheduler \<times> kv_engine \<Rightarrow> bool" where
  "cs_inv = (\<lambda>(c, e). ce_live e \<and> cs_waiting (c, e) \<and> (\<forall>t. cs_active c = Some t \<longrightarrow> ce_inv (t, e)))"

text \<open>What a number of steps keep.\<close>

definition cs_kept :: "comp_task \<times> kv_engine \<Rightarrow> comp_task \<times> kv_engine \<Rightarrow> bool" where
  "cs_kept s s' \<longleftrightarrow> ce_inv s' \<and> kv_abs (snd s') = kv_abs (snd s)
     \<and> (\<forall>p. apart p (fst s) \<longrightarrow> waits (snd s) p \<longrightarrow> apart p (fst s') \<and> waits (snd s') p)"

lemma kept_trans: "cs_kept s s1 \<Longrightarrow> cs_kept s1 s2 \<Longrightarrow> cs_kept s s2"
  by (auto simp: cs_kept_def)

lemma ce_step_keeps:
  assumes "ce_inv (t, e)" "ce_allocates env t e \<longrightarrow> env_ok io e"
  shows "cs_kept (t, e) (ce_step env io now (t, e))"
proof -
  obtain t' e' where s: "ce_step env io now (t, e) = (t', e')" by fastforce
  show ?thesis
    using ce_do_simulates [of "(t, e)" "CeStep env io now"] assms s waiting_step [OF _ _ _ _ _ _ s]
    by (auto simp: inv_live cs_kept_def)
qed

lemma run_steps_keep:
  assumes "ce_run_steps env n s = Some s'" "ce_inv s" "env_ok (sc_io env) (snd s) \<or> ct_state (fst s) \<noteq> CInit"
  shows "cs_kept s s'"
proof -
  have "ce_inv s \<longrightarrow> env_ok (sc_io env) (snd s) \<or> ct_state (fst s) \<noteq> CInit \<longrightarrow> cs_kept s s'"
  proof (rule ce_run_steps.raw_induct [OF _ assms(1)], intro impI)
    fix run env n s s'
    let ?s = "ce_step (sc_env env n) (sc_io env) (sc_ns env n) s"
    assume IH: "\<And>env n s s'. run env n s = Some s' \<Longrightarrow> ce_inv s \<longrightarrow> env_ok (sc_io env) (snd s) \<or> ct_state (fst s) \<noteq> CInit
        \<longrightarrow> cs_kept s s'"
      and body: "(if ct_is_complete (fst s) then Some s
          else let elapsed = sc_tsc env n - sc_start env
               in if kMaxCyclesPerPoll < elapsed then Some s else run env (n + 1) ?s) = Some s'"
      and pre: "ce_inv s" "env_ok (sc_io env) (snd s) \<or> ct_state (fst s) \<noteq> CInit"
    obtain t e where s: "s = (t, e)" by fastforce
    have "ce_allocates (sc_env env n) t e \<longrightarrow> env_ok (sc_io env) e" using pre(2) by (auto simp: s ce_allocates_def)
    then have keep: "cs_kept s ?s" unfolding s by (rule ce_step_keeps [OF pre(1) [unfolded s]])
    have "comp_wf t" using pre(1) by (simp add: s inv_live)
    then have init: "ct_state (fst ?s) \<noteq> CInit" unfolding s by (rule step_not_init)
    show "cs_kept s s'"
    proof (cases "s' = s")
      case False
      then have "run env (n + 1) ?s = Some s'" using body by (simp add: Let_def split: if_splits)
      then have "cs_kept ?s s'" using IH keep init by (simp add: cs_kept_def)
      then show ?thesis by (rule kept_trans [OF keep])
    qed (simp add: cs_kept_def pre(1))
  qed
  then show ?thesis using assms(2,3) by blast
qed

text \<open>Which task a poll works on.\<close>

lemma cs_begin_cases:
  assumes "cs_begin now c = (r, c')"
  obtains "r = None" "cs_pending c' = cs_pending c" "cs_active c' = cs_active c"
  | t where "r = Some t" "cs_active c' = Some t" "cs_active c = Some t" "cs_pending c' = cs_pending c"
  | t where "r = Some t" "cs_active c' = Some t" "cs_active c = None" "cs_pending c = t # cs_pending c'"
proof -
  obtain go c1 where c1: "cs_priority c = (go, c1)" by fastforce
  have same: "cs_pending c = cs_pending c1" "cs_active c = cs_active c1" using c1 by (auto simp: cs_priority_def split: if_splits)
  obtain ok l where l: "rl_allow now (cs_limiter c1) = (ok, l)" by fastforce
  show thesis
  proof (cases "go \<and> ok \<and> \<not> (cs_pending c1 = [] \<and> cs_active c1 = None)")
    case False
    then show ?thesis using assms same that(1) by (cases go) (auto simp: cs_begin_def c1 l Let_def split: if_splits)
  next
    case True
    show ?thesis
    proof (cases "cs_active c1")
      case None
      then obtain x xs where "cs_pending c1 = x # xs" using True by (cases "cs_pending c1") simp_all
      then show ?thesis using assms True None same by (intro that(3) [of x]) (simp_all add: cs_begin_def c1 l Let_def, auto)
    next
      case (Some t)
      then show ?thesis using assms True same by (intro that(2) [of t]) (simp_all add: cs_begin_def c1 l Let_def, auto)
    qed
  qed
qed

lemma apart_new: "apart p (ct_new q)"
  by (simp add: apart_def ct_new_def)

lemma inv_new:
  assumes "ce_live e" "waits e p"
  shows "ce_inv (ct_new p, e)"
proof -
  have "ce_phase (ct_new p) e"
    using assms(2) by (simp add: ce_phase_def is_removal_def ct_new_def ce_fresh_def src_ok_def waits_def)
  then show ?thesis using assms(1) wf_new by (simp add: inv_live) (simp add: ct_new_def)
qed

text \<open>A poll is some steps of the task that is active, or that becomes it.\<close>

lemma poll_keeps:
  assumes "cs_inv (c, e)" "env_ok (sc_io env) e" "ce_poll env (c, e) = Some (c', e')"
  shows "cs_inv (c', e') \<and> kv_abs e' = kv_abs e"
proof -
  note inv = assms(1) [unfolded cs_inv_def cs_waiting_def prod.case]
  obtain r c1 where st: "cs_begin (sc_ns env 0) c = (r, c1)" by fastforce
  have steps: "cs_inv (c', e') \<and> kv_abs e' = kv_abs e"
    if r: "r = Some t" "ce_inv (t, e)"
      and pend: "\<forall>w \<in> set (cs_pending c1). \<exists>p. w = ct_new p \<and> waits e p \<and> apart p t" for t
  proof -
    obtain t' where run: "ce_run_steps env 1 (t, e) = Some (t', e')" "c' = cs_end t' c1"
      using assms(3) by (auto simp: ce_poll_def st r(1) split: option.splits)
    have kept: "cs_kept (t, e) (t', e')" by (rule run_steps_keep [OF run(1) r(2)]) (simp add: assms(2))
    have "\<exists>p. w = ct_new p \<and> waits e' p \<and> apart p t'" if "w \<in> set (cs_pending c1)" for w
      using pend that kept by (fastforce simp: cs_kept_def)
    then show ?thesis
      using kept by (auto simp: cs_inv_def cs_waiting_def run(2) cs_end_def cs_kept_def inv_live split: if_splits)
  qed
  from st show ?thesis
  proof (cases rule: cs_begin_cases)
    case 1
    then show ?thesis using assms(3) inv by (simp add: ce_poll_def st cs_inv_def cs_waiting_def)
  next
    case (2 t)
    then show ?thesis using inv by (intro steps) auto
  next
    case (3 t)
    then obtain p where "t = ct_new p" "waits e p" using inv by auto
    then show ?thesis using 3 inv by (intro steps [of t]) (auto simp: apart_new intro: inv_new)
  qed
qed

lemma cs_do_simulates:
  assumes "cs_inv s" "cs_allowed ev s" "cs_do ev s = (r, s')"
  shows "cs_inv s' \<and> cs_answer_ok ev r (kv_abs (snd s)) \<and> kv_abs (snd s') = cs_effect ev r (kv_abs (snd s))"
proof -
  obtain c e where s: "s = (c, e)" by fastforce
  note inv = assms(1) [unfolded s cs_inv_def cs_waiting_def prod.case]
  show ?thesis
  proof (cases ev)
    case (CsCall q)
    obtain a e' where q: "kv_do q e = (a, e')" by fastforce
    have sv: "kv_serving e" "kv_call_ok q e" using inv assms(2) by (simp_all add: ce_live_def s CsCall)
    note sim = kv_do_simulates [OF sv q] and fr = kv_do_frame [OF sv q]
    have live: "ce_live e'" using sim fr inv by (simp add: ce_live_def call_frame_def)
    have "ce_inv (t, e')" if "cs_active c = Some t" for t
      using ce_do_simulates [of "(t, e)" "CeCall q"] inv that sv(2) by (simp add: q)
    moreover have "waits e' p" if "waits e p" for p using waits_call that inv fr by blast
    ultimately show ?thesis
      using live sim inv assms(3) by (fastforce simp: s CsCall q cs_inv_def cs_waiting_def)
  next
    case (CsSchedule p)
    then show ?thesis
      using inv assms(2,3) by (auto simp: s cs_inv_def cs_waiting_def cs_schedule_compaction_def)
  next
    case (CsPoll foreground env)
    let ?c = "cs_set_pending_foreground_count foreground c"
    obtain c' e' where poll: "ce_poll env (?c, e) = Some (c', e')" "env_ok (sc_io env) e"
      using assms(2) by (auto simp: s CsPoll cs_tick_def)
    have "cs_inv (?c, e)" using assms(1) by (simp add: s cs_inv_def cs_waiting_def cs_set_pending_foreground_count_def)
    from poll_keeps [OF this poll(2,1)] show ?thesis using assms(3) by (auto simp: s CsPoll cs_tick_def poll(1))
  next
    case (CsDone now status torn ready cstatus)
    show ?thesis
    proof (cases "cs_active c")
      case None
      then show ?thesis using assms(1,3) by (auto simp: s CsDone)
    next
      case (Some t)
      obtain t' e' where fin: "ce_complete now status torn ready cstatus (t, e) = (t', e')" by fastforce
      have "ce_inv (t', e') \<and> kv_abs e' = kv_abs e"
        using ce_do_simulates [of "(t, e)" "CeDone now status torn ready cstatus"] inv assms(2) Some by (simp add: s CsDone fin)
      moreover have "apart p t' \<and> waits e' p" if "apart p t" "waits e p" for p
        using waiting_done [OF _ that fin] inv by blast
      ultimately show ?thesis
        using inv assms(3) Some by (fastforce simp: s CsDone fin cs_inv_def cs_waiting_def inv_live)
    qed
  qed
qed

interpretation scheduling: simulation cs_allowed cs_do cs_inv "\<lambda>s. kv_abs (snd s)" cs_answer_ok cs_effect
  by unfold_locales (rule cs_do_simulates)

text \<open>Compactions are invisible to the callers of the engine, whatever the scheduler does. Let the engine
  serve a map, and let polls of the scheduler, with any load and any readings of the clock and of the cycle
  counter, be interleaved with calls of puts, gets and deletes, with requests to compact files, and with
  completions of the running task's requests, which may succeed, fail or tear a write: every get answers
  what the map holds that the calls alone have changed, through any number of compactions, finished,
  rolled back or under way.\<close>

theorem compactions_are_invisible:
  assumes "kv_inv e" "en_state e = EReady" "en_active_file_id e < en_next_file_id e"
    and "sim_allowed cs_allowed cs_do evs (cs_new, e)" "sim_run cs_do evs (cs_new, e) = (tr, c', e')"
  shows "spec_accepts cs_answer_ok cs_effect tr (kv_abs e) \<and> kv_abs e' = spec_final cs_effect tr (kv_abs e) \<and> kv_inv e'"
proof -
  have "cs_inv (cs_new, e)"
    using assms(1-3) by (simp add: cs_inv_def cs_waiting_def cs_new_def ce_live_def kv_serving_def)
  from scheduling.run_simulates [OF this assms(4,5)] show ?thesis
    by (auto simp: cs_inv_def dest: live_files)
qed

section \<open>A poll returns\<close>

text \<open>Where the cycle counter moves on, the loop ends.\<close>

lemma run_steps_return:
  assumes "n \<le> k" "kMaxCyclesPerPoll < sc_tsc env k - sc_start env"
  shows "\<exists>s'. ce_run_steps env n s = Some s'"
  using assms(1)
proof (induction "k - n" arbitrary: n s)
  case 0
  then show ?case using assms(2) by (subst ce_run_steps.simps) (simp add: Let_def)
next
  case (Suc d)
  then have "\<exists>s'. ce_run_steps env (n + 1) (ce_step (sc_env env n) (sc_io env) (sc_ns env n) s) = Some s'"
    by (intro Suc.hyps(1)) simp_all
  then show ?case by (subst ce_run_steps.simps) (simp add: Let_def)
qed

lemma tick_returns:
  assumes "1 \<le> k" "kMaxCyclesPerPoll < sc_tsc env k - sc_start env"
  shows "cs_tick foreground env s \<noteq> None"
proof -
  obtain c e where s: "s = (c, e)" by fastforce
  obtain r c1 where st: "cs_begin (sc_ns env 0) (cs_set_pending_foreground_count foreground c) = (r, c1)" by fastforce
  show ?thesis
    using run_steps_return [OF assms] by (cases r) (auto simp: cs_tick_def ce_poll_def s st split: option.split)
qed

text \<open>A file is given to the scheduler, a poll starts the task, then a get is called.\<close>

definition demo_sched_env :: sched_env where
  "demo_sched_env = \<lparr>sc_env = \<lambda>_. demo_env, sc_io = demo_io, sc_tsc = \<lambda>n. 30000 * word_of_nat n, sc_ns = \<lambda>_. 0, sc_start = 0\<rparr>"

theorem compactions_are_invisible_witness:
  "\<exists>c e. sim_run cs_do [CsSchedule 0, CsPoll 0 demo_sched_env, CsCall (KvGet demo_io 5 100)] (cs_new, demo_two)
     = ([(CsSchedule 0, None), (CsPoll 0 demo_sched_env, None),
         (CsCall (KvGet demo_io 5 100), Some (KvGot KSuccess (Some [1, 2, 3]) (Some 3)))], c, e)"
proof -
  let ?sched = "CsSchedule 0" and ?poll = "CsPoll 0 demo_sched_env" and ?get = "CsCall (KvGet demo_io 5 100)"
  let ?c = "cs_schedule_compaction 0 cs_new"
  have returns: "cs_tick 0 demo_sched_env s \<noteq> None" for s
    by (rule tick_returns [where k = 2]) (simp_all add: demo_sched_env_def kMaxCyclesPerPoll_def word_less_nat_alt)
  obtain c1 e1 where tick: "cs_tick 0 demo_sched_env (?c, demo_two) = Some (c1, e1)" using returns [of "(?c, demo_two)"] by auto
  obtain a where g: "kv_do (KvGet demo_io 5 100) e1 = (a, e1)" by (cases "kv_get demo_io 5 True 100 e1") auto
  have run: "sim_run cs_do [?sched, ?poll, ?get] (cs_new, demo_two) = ([(?sched, None), (?poll, None), (?get, Some a)], c1, e1)"
    using tick g by (simp del: kv_do.simps)
  have "env_ok (sc_io demo_sched_env) demo_two" using demo_two_ok(4) by (simp add: demo_sched_env_def)
  moreover have "waits demo_two 0" "cs_active cs_new = None" using demo_two_ok(5,6) by (auto simp: waits_def cs_new_def)
  moreover have "kv_call_ok (KvGet demo_io 5 100) e1" by (simp add: demo_io_def)
  ultimately have allowed: "sim_allowed cs_allowed cs_do [?sched, ?poll, ?get] (cs_new, demo_two)"
    using returns tick by (simp del: kv_do.simps kv_call_ok.simps)
  have "spec_accepts cs_answer_ok cs_effect [(?sched, None), (?poll, None), (?get, Some a)] [5 \<mapsto> [1, 2, 3]]"
    using compactions_are_invisible [OF demo_two_ok(1,3) _ allowed run] demo_two_ok(2,6,7) by simp
  then have "a = KvGot KSuccess (Some [1, 2, 3]) (Some 3)" by (cases a) simp_all
  then show ?thesis unfolding run by simp
qed

end
