(* ===== verification/KvPollSpec.thy ===== *)
theory KvPollSpec
  imports KvSchedulerSpec
begin

text \<open>
  The engine serves its map while it is polled as a whole: the steps of a poll that drive the buffers and
  the checkpoint leave the map alone, those of the scheduler do so by \<open>KvSchedulerSpec\<close>.
\<close>

section \<open>Polls without buffered requests\<close>

text \<open>With no buffered request about, the first part of a poll leaves the engine alone.\<close>

definition bk_idle :: "buffered_kv \<Rightarrow> bool" where
  "bk_idle b \<longleftrightarrow> bk_wait b = [] \<and> rg_tail (am_submit_ring (bk_mgr b)) = rg_head (am_submit_ring (bk_mgr b))
     \<and> am_pending_reset (bk_mgr b) = []
     \<and> (\<forall>i. am_active (bk_mgr b) = Some i \<longrightarrow> buf_is_empty (am_all_buffers (bk_mgr b) ! i))"

lemma wait_queue_idle: "bk_wait b = [] \<Longrightarrow> fold (\<lambda>_. process_wait_queue env) xs b = b"
proof -
  assume "bk_wait b = []"
  then have "process_wait_queue env b = b" by (cases b) (simp add: process_wait_queue_def)
  then show ?thesis by (induction xs) simp_all
qed

lemma poll_idle:
  assumes "bk_idle b"
  shows "bk_async (poll_buffers env now b) = bk_async b \<and> bk_idle (poll_buffers env now b)"
proof -
  note idle = assms [unfolded bk_idle_def]
  have "(bk_mgr b)\<lparr>am_pending_reset := []\<rparr> = bk_mgr b" using idle by simp
  then have resets: "b\<lparr>bk_mgr := am_check_pending_resets (bk_mgr b)\<rparr> = b" using idle by (simp add: am_check_pending_resets_def)
  have "am_submit_current_buffer (bk_mgr b) = bk_mgr b"
    using idle by (simp add: am_submit_current_buffer_def split: option.split)
  then have "flush_step now b = b\<lparr>bk_last_flush := now\<rparr> \<or> flush_step now b = b\<lparr>bk_last_flush := bk_last_flush b\<rparr>"
    by (cases b) (simp add: flush_step_def Let_def)
  then obtain l where flush: "flush_step now b = b\<lparr>bk_last_flush := l\<rparr>" by blast
  let ?b = "b\<lparr>bk_last_flush := l\<rparr>"
  have "am_get_pending_buffers 16 (bk_mgr ?b) = ([], bk_mgr ?b)"
    using idle by (simp add: am_get_pending_buffers_def eval_nat_numeral ring_dequeue_def)
  then have submit: "submit_step (ae_io env) ?b = ?b" by (simp add: submit_step_def)
  obtain fired m where res: "am_process_resume_notifications (bk_mgr ?b) = (fired, m)" by fastforce
  have m: "am_submit_ring m = am_submit_ring (bk_mgr b)" "am_pending_reset m = am_pending_reset (bk_mgr b)"
    "am_active m = am_active (bk_mgr b)" "am_all_buffers m = am_all_buffers (bk_mgr b)"
    using res by (auto simp: am_process_resume_notifications_def split: if_splits prod.splits)
  have resume: "resume_step env ?b = ?b\<lparr>bk_mgr := m\<rparr>"
    unfolding resume_step_def res using idle by (simp add: wait_queue_idle)
  have "poll_buffers env now b = ?b\<lparr>bk_mgr := m\<rparr>"
    unfolding poll_buffers_def Let_def resets flush submit resume using idle by (simp add: wait_step_def)
  then show ?thesis using idle m by (simp add: bk_idle_def)
qed

section \<open>What a checkpoint leaves alone\<close>

text \<open>The manager touches the world around it only through the superblock update and the callback: what
  both keep, every operation of the manager keeps.\<close>

locale checkpoint_world =
  fixes env :: "('c, 's) ckpt_env" and kept :: "'s \<Rightarrow> bool"
  assumes superblock_keeps: "ce_superblock env = Some update \<Longrightarrow> kept s \<Longrightarrow> kept (snd (update c seq positions s))"
    and callback_keeps: "kept s \<Longrightarrow> kept (snd (ce_run env cb status (c, s)))"
begin

lemma complete_keeps: "kept s \<Longrightarrow> kept (snd (ck_complete env status (c, s)))"
  by (cases "ck_callback c") (simp_all add: ck_complete_def Let_def callback_keeps split: prod.split, metis callback_keeps snd_conv)

lemma sync_keeps:
  assumes "kept s"
  shows "kept (snd (ck_on_sync_complete env status (c, s)))"
proof (cases "status = 0")
  case False
  then show ?thesis by (simp add: ck_on_sync_complete_def complete_keeps assms)
next
  case True
  show ?thesis
  proof (cases "ce_superblock env")
    case None
    then show ?thesis using True by (simp add: ck_on_sync_complete_def ck_on_superblock_updated_def Let_def complete_keeps assms)
  next
    case (Some update)
    then show ?thesis
      using True superblock_keeps [OF Some assms] complete_keeps
      by (simp add: ck_on_sync_complete_def ck_on_superblock_updated_def Let_def split_beta)
  qed
qed

lemma next_keeps: "kept s \<Longrightarrow> kept (snd (ck_process_next_segment env (c, s)))"
proof (induction "length (ck_pending c) - ck_current c" arbitrary: c)
  case (0 c)
  then show ?case
    by (subst ck_process_next_segment.simps) (simp add: Let_def sync_keeps)
next
  case (Suc n c)
  have "kept (snd (ck_process_next_segment env (c\<lparr>ck_current := ck_current c + 1\<rparr>, s)))"
    by (rule Suc.hyps(1)) (use Suc.hyps(2) Suc.prems in simp_all)
  then show ?case
    using Suc.prems by (subst ck_process_next_segment.simps) (simp add: Let_def sync_keeps complete_keeps)
qed

lemma io_keeps: "kept s \<Longrightarrow> kept (snd (ck_io_complete env status (c, s)))"
  by (auto simp: ck_io_complete_def ck_on_segment_written_def Let_def next_keeps sync_keeps complete_keeps
      split: option.split ckpt_io.split)

lemma ckpt_poll_keeps: "kept s \<Longrightarrow> kept (snd (snd (ck_poll env completion (c, s))))"
  by (auto simp: ck_poll_def io_keeps split: option.split prod.split) (metis io_keeps snd_conv)+

lemma start_keeps: "kept s \<Longrightarrow> kept (snd (ck_start_checkpoint env cb (c, s)))"
  by (simp add: ck_start_checkpoint_def Let_def callback_keeps complete_keeps next_keeps)

lemma trigger_keeps: "kept s \<Longrightarrow> kept (snd (snd (check_checkpoint_trigger env cb now e (t, c, s))))"
  by (simp add: check_checkpoint_trigger_def ck_engine_start_def start_keeps)

end

text \<open>In the engine this is everything but the superblock and the allocation log, which a checkpoint
  empties.\<close>

definition polled_as :: "kv_engine \<Rightarrow> kv_system \<Rightarrow> kv_system \<Rightarrow> bool" where
  "polled_as e s0 s \<longleftrightarrow> (\<exists>sb lg. sy_engine s = e\<lparr>en_superblock := sb, en_alloc_log := lg\<rparr>
       \<and> (lg = en_alloc_log e \<or> lg = map_option lg_reclaim (en_alloc_log e)))
     \<and> sy_sched s = sy_sched s0 \<and> sy_parts s = sy_parts s0 \<and> bk_mgr (sy_bk s) = bk_mgr (sy_bk s0) \<and> bk_wait (sy_bk s) = bk_wait (sy_bk s0)"

lemma superblock_update_keeps:
  assumes "polled_as e s0 s"
  shows "polled_as e s0 (snd (sy_superblock_update env seq gseq positions s))"
proof -
  obtain sb lg where s: "sy_engine s = e\<lparr>en_superblock := sb, en_alloc_log := lg\<rparr>"
    "lg = en_alloc_log e \<or> lg = map_option lg_reclaim (en_alloc_log e)" using assms by (auto simp: polled_as_def)
  define e1 where "e1 = snd (on_superblock_update (\<lambda>sb. (KSuccess, sb)) seq gseq positions (sy_engine s))"
  have e1: "e1 = e\<lparr>en_superblock := en_superblock e1, en_alloc_log := map_option lg_reclaim lg\<rparr>"
    by (simp add: e1_def on_superblock_update_def Let_def s(1))
  have idem: "lg_reclaim (lg_reclaim x) = lg_reclaim x" for x by (simp add: lg_reclaim_def)
  have log: "map_option lg_reclaim lg = map_option lg_reclaim (en_alloc_log e)"
    using s(2) idem by (cases "en_alloc_log e") auto
  obtain err sb' areas where w: "write_superblock (sy_sb_open (sy_set_engine e1 s) \<and> io_ready (le_io env) \<and> le_channel env) (le_sb_dma env)
      (le_sb_write env) (en_superblock (sy_engine (sy_set_engine e1 s)), sy_areas (sy_set_engine e1 s)) = (err, sb', areas)"
    by (metis prod.exhaust)
  have "snd (sy_superblock_update env seq gseq positions s) = (sy_set_engine (e1\<lparr>en_superblock := sb'\<rparr>) (sy_set_engine e1 s))\<lparr>sy_areas := areas\<rparr>"
    using w by (simp add: sy_superblock_update_def e1_def [symmetric] Let_def sy_write_superblock_def) (simp add: sy_set_engine_def bk_set_engine_def)
  moreover have "e1\<lparr>en_superblock := sb'\<rparr> = e\<lparr>en_superblock := sb', en_alloc_log := map_option lg_reclaim (en_alloc_log e)\<rparr>"
    by (subst e1) (simp add: log)
  ultimately show ?thesis
    using assms by (auto simp: polled_as_def sy_set_engine_def bk_set_engine_def)
qed

interpretation checkpointing: checkpoint_world "sy_ckpt_env blob channel dma env" "polled_as e s0" for blob channel dma env e s0
  by unfold_locales (auto simp: sy_ckpt_env_def superblock_update_keeps)

section \<open>The polled engine serves a map\<close>

datatype pk_event = PkPoll poll_env | PkOther cs_event

fun pk_do :: "pk_event \<Rightarrow> kv_polled \<Rightarrow> kv_result option \<times> kv_polled" where
  "pk_do (PkPoll env) p = (None, case engine_poll env p of None \<Rightarrow> p | Some p' \<Rightarrow> p')"
| "pk_do (PkOther ev) p = (case cs_do ev (sy_sched (pk_sys p), sy_engine (pk_sys p)) of (r, s) \<Rightarrow> (r, with_sched s p))"

text \<open>A poll returns, may get a fresh blob, and its checkpoints are those of the engine. Polls of the
  scheduler alone are not events here.\<close>

fun pk_allowed :: "pk_event \<Rightarrow> kv_polled \<Rightarrow> bool" where
  "pk_allowed (PkPoll env) p = (engine_poll env p \<noteq> None \<and> env_ok (sc_io (pe_sched env)) (sy_engine (pk_sys p))
     \<and> (\<exists>blob channel dma life. pe_ckpt env = sy_ckpt_env blob channel dma life))"
| "pk_allowed (PkOther ev) p = ((case ev of CsPoll _ _ \<Rightarrow> False | _ \<Rightarrow> True) \<and> cs_allowed ev (sy_sched (pk_sys p), sy_engine (pk_sys p)))"

fun pk_answer_ok :: "pk_event \<Rightarrow> kv_result option \<Rightarrow> (u64 \<Rightarrow> byte list option) \<Rightarrow> bool" where
  "pk_answer_ok (PkPoll env) r a = (r = None)"
| "pk_answer_ok (PkOther ev) r a = cs_answer_ok ev r a"

fun pk_effect :: "pk_event \<Rightarrow> kv_result option \<Rightarrow> (u64 \<Rightarrow> byte list option) \<Rightarrow> u64 \<Rightarrow> byte list option" where
  "pk_effect (PkPoll env) r a = a"
| "pk_effect (PkOther ev) r a = cs_effect ev r a"

definition pk_inv :: "kv_polled \<Rightarrow> bool" where
  "pk_inv p \<longleftrightarrow> cs_inv (sy_sched (pk_sys p), sy_engine (pk_sys p)) \<and> bk_idle (sy_bk (pk_sys p))"

lemma with_sched_fields [simp]:
  "sy_sched (pk_sys (with_sched (c, e) p)) = c" "sy_engine (pk_sys (with_sched (c, e) p)) = e"
  "bk_idle (sy_bk (pk_sys (with_sched (c, e) p))) = bk_idle (sy_bk (pk_sys p))"
  by (simp_all add: with_sched_def sy_set_engine_def bk_set_engine_def bk_idle_def)

text \<open>The superblock and the allocation log are not the scheduler's business.\<close>

lemma logged_frame: "call_frame e (e\<lparr>en_superblock := sb, en_alloc_log := lg\<rparr>) \<and> index_frame e (e\<lparr>en_superblock := sb, en_alloc_log := lg\<rparr>)"
  by (simp add: call_frame_def index_frame_def store_grows_refl file_of_def get_file_def)

lemma logged_serves:
  assumes "cs_inv (c, e)" "e' = e\<lparr>en_superblock := sb, en_alloc_log := lg\<rparr>"
  shows "cs_inv (c, e') \<and> kv_abs e' = kv_abs e"
proof -
  note inv = assms(1) [unfolded cs_inv_def cs_waiting_def prod.case]
  have fr: "call_frame e e'" "index_frame e e'" using logged_frame by (simp_all add: assms(2))
  note live = live_files [of e]
  have "files_ok e'" using live inv by (simp add: assms(2) files_ok_def get_active_file_def get_file_def)
  then have kv: "kv_inv e' \<and> kv_abs e' = kv_abs e"
    using live inv by (intro kv_grows) (simp_all add: assms(2) store_grows_refl)
  then have "ce_live e'" using inv by (simp add: ce_live_def kv_serving_def assms(2))
  moreover have "ce_inv (t, e')" if "cs_active c = Some t" for t
    using inv that phase_call [OF _ fr] live calculation by (simp add: inv_live)
  moreover have "waits e' p" if "waits e p" for p using waits_call [OF _ that fr(1)] inv by blast
  ultimately show ?thesis using kv inv by (fastforce simp: cs_inv_def cs_waiting_def)
qed

lemma logged_env_ok:
  assumes "env_ok io e" "lg = en_alloc_log e \<or> lg = map_option lg_reclaim (en_alloc_log e)"
  shows "env_ok io (e\<lparr>en_superblock := sb, en_alloc_log := lg\<rparr>)"
  using assms by (auto simp: env_ok_def alloc_log_near_full_def lg_is_near_full_def lg_used_count_def lg_reclaim_def
      kAllocLogNearFullThreshold_def split: option.splits)

lemma poll_checkpoint_keeps:
  assumes "pe_ckpt env = sy_ckpt_env blob channel dma life"
  shows "polled_as (sy_engine (pk_sys p)) (pk_sys p) (pk_sys (poll_checkpoint env p)) \<and> pk_compaction (poll_checkpoint env p) = pk_compaction p"
proof -
  let ?s = "pk_sys p" and ?e = "sy_engine (pk_sys p)"
  let ?kept = "polled_as ?e ?s"
  have "?e = ?e\<lparr>en_superblock := en_superblock ?e, en_alloc_log := en_alloc_log ?e\<rparr>" by simp
  then have start: "?kept ?s" unfolding polled_as_def by blast
  obtain t c s where trig: "check_checkpoint_trigger (pe_ckpt env) 0 (pe_ckpt_now env) ?e (pk_trigger p, sy_ckpt ?s, ?s) = (t, c, s)"
    by (metis prod.exhaust)
  have s: "?kept s"
    using checkpointing.trigger_keeps [OF start, of blob channel dma life 0 "pe_ckpt_now env" ?e "pk_trigger p" "sy_ckpt ?s"]
    by (simp add: assms [symmetric] trig)
  obtain ok c' s' where poll: "ck_poll (pe_ckpt env) (pe_ckpt_done env) (c, s) = (ok, c', s')" by (metis prod.exhaust)
  have s': "?kept s'"
    using checkpointing.ckpt_poll_keeps [OF s, of blob channel dma life "pe_ckpt_done env" c] by (simp add: assms [symmetric] poll)
  show ?thesis using s s' by (simp add: poll_checkpoint_def trig poll polled_as_def)
qed

lemma engine_poll_keeps:
  assumes "pk_inv p" "pk_allowed (PkPoll env) p" "engine_poll env p = Some p'"
  shows "pk_inv p' \<and> kv_abs (sy_engine (pk_sys p')) = kv_abs (sy_engine (pk_sys p))"
proof (cases "sy_parts (pk_sys p)")
  case False
  then show ?thesis using assms(1,3) by (simp add: engine_poll_def)
next
  case True
  define p1 where "p1 = p\<lparr>pk_sys := (pk_sys p)\<lparr>sy_bk := poll_buffers (pe_async env) (pe_now env) (sy_bk (pk_sys p))\<rparr>\<rparr>"
  let ?e = "sy_engine (pk_sys p)" and ?c = "sy_sched (pk_sys p)"
  note idle = poll_idle [of "sy_bk (pk_sys p)" "pe_async env" "pe_now env"]
  have p1: "sy_engine (pk_sys p1) = ?e" "sy_sched (pk_sys p1) = ?c" "bk_idle (sy_bk (pk_sys p1))"
    using idle assms(1) by (simp_all add: p1_def pk_inv_def)
  obtain blob channel dma life where ck: "pe_ckpt env = sy_ckpt_env blob channel dma life" using assms(2) by auto
  define p2 where "p2 = poll_checkpoint env p1"
  obtain sb lg where e2: "sy_engine (pk_sys p2) = ?e\<lparr>en_superblock := sb, en_alloc_log := lg\<rparr>"
    "lg = en_alloc_log ?e \<or> lg = map_option lg_reclaim (en_alloc_log ?e)"
    using poll_checkpoint_keeps [OF ck, of p1] by (auto simp: polled_as_def p1(1) p2_def)
  have p2: "sy_sched (pk_sys p2) = ?c" "bk_idle (sy_bk (pk_sys p2))"
    using poll_checkpoint_keeps [OF ck, of p1] p1 by (simp_all add: polled_as_def p2_def bk_idle_def)
  have serve: "cs_inv (?c, sy_engine (pk_sys p2)) \<and> kv_abs (sy_engine (pk_sys p2)) = kv_abs ?e"
    by (rule logged_serves [OF _ e2(1)]) (use assms(1) in \<open>simp add: pk_inv_def\<close>)
  have env: "env_ok (sc_io (pe_sched env)) (sy_engine (pk_sys p2))"
    unfolding e2(1) using assms(2) by (intro logged_env_ok [OF _ e2(2)]) simp
  have last: "poll_compaction env p2 = Some p'"
    using assms(3) True by (simp add: engine_poll_def p1_def [symmetric] p2_def)
  show ?thesis
  proof (cases "pk_compaction p2")
    case False
    then show ?thesis using last serve p2 by (simp add: poll_compaction_def pk_inv_def)
  next
    case on: True
    define n where "n = unat (ak_foreground (bk_async (sy_bk (pk_sys p2))))"
    obtain c' e' where tick: "cs_tick n (pe_sched env) (?c, sy_engine (pk_sys p2)) = Some (c', e')" "p' = with_sched (c', e') p2"
      using last on by (auto simp: poll_compaction_def Let_def p2(1) n_def)
    have "cs_inv (cs_set_pending_foreground_count n ?c, sy_engine (pk_sys p2))"
      using serve by (simp add: cs_inv_def cs_waiting_def cs_set_pending_foreground_count_def)
    from poll_keeps [OF this env] have "cs_inv (c', e') \<and> kv_abs e' = kv_abs ?e" using tick(1) serve by (simp add: cs_tick_def)
    then show ?thesis using p2(2) by (simp add: pk_inv_def tick(2))
  qed
qed

lemma pk_do_simulates:
  assumes "pk_inv p" "pk_allowed ev p" "pk_do ev p = (r, p')"
  shows "pk_inv p' \<and> pk_answer_ok ev r (kv_abs (sy_engine (pk_sys p)))
     \<and> kv_abs (sy_engine (pk_sys p')) = pk_effect ev r (kv_abs (sy_engine (pk_sys p)))"
proof (cases ev)
  case (PkPoll env)
  then obtain p1 where "engine_poll env p = Some p1" using assms(2) by auto
  then show ?thesis using engine_poll_keeps [OF assms(1) assms(2) [unfolded PkPoll]] assms(3) by (auto simp: PkPoll)
next
  case (PkOther ev')
  obtain c e where step: "cs_do ev' (sy_sched (pk_sys p), sy_engine (pk_sys p)) = (r, c, e)" "p' = with_sched (c, e) p"
    using assms(3) by (auto simp: PkOther split: prod.splits)
  show ?thesis
    using cs_do_simulates [OF _ _ step(1)] assms(1,2) by (simp add: PkOther step(2) pk_inv_def)
qed

interpretation polling: simulation pk_allowed pk_do pk_inv "\<lambda>p. kv_abs (sy_engine (pk_sys p))" pk_answer_ok pk_effect
  by unfold_locales (rule pk_do_simulates)

text \<open>C5: The engine serves its map while it is polled, to clients of the synchronous operations: let an engine with
  a fresh scheduler serve a map, with no buffered request about, so that the flush of a poll has nothing to
  do. Its polls as a whole, with the checkpoint trigger, the progress of a
  checkpoint with its superblock update, and the scheduler with its compactions, are interleaved with puts,
  gets, deletes, requests to compact a file and completions of the compaction's requests, in any order and
  with any answers of the device, the clock and the cycle counter: every get answers what the map holds
  that the calls alone have changed, and the engine's invariant stays. Every event meets
  \<open>pk_allowed\<close>: a call meets \<open>kv_call_ok\<close> (at a put the index takes the key, neither dropped nor displacing
  another, and the entry has at most 65535 pages; files can be allocated safely; a get can read); a file is
  handed to the scheduler while it is open, readable, not the active one and not the file that
  the running compaction writes or removes; a poll returns (the loop of the scheduler ends), and may allocate a destination
  safely; the device rejects writes beyond the size of a blob.\<close>

theorem polled_engine_serves_map:
  assumes "kv_inv (sy_engine (pk_sys p))" "en_state (sy_engine (pk_sys p)) = EReady"
    and "en_active_file_id (sy_engine (pk_sys p)) < en_next_file_id (sy_engine (pk_sys p))"
    and "sy_sched (pk_sys p) = cs_new" "bk_idle (sy_bk (pk_sys p))"
    and "sim_allowed pk_allowed pk_do evs p" "sim_run pk_do evs p = (tr, p')"
  shows "spec_accepts pk_answer_ok pk_effect tr (kv_abs (sy_engine (pk_sys p)))
     \<and> kv_abs (sy_engine (pk_sys p')) = spec_final pk_effect tr (kv_abs (sy_engine (pk_sys p))) \<and> kv_inv (sy_engine (pk_sys p'))"
proof -
  have "pk_inv p"
    using assms(1-5) by (simp add: pk_inv_def cs_inv_def cs_waiting_def ce_live_def kv_serving_def) (simp add: cs_new_def)
  from polling.run_simulates [OF this assms(6,7)] show ?thesis
    by (auto simp: pk_inv_def cs_inv_def dest: live_files)
qed

text \<open>The same run as before, on the system: a file is given to the scheduler, the engine is polled, a get is
  called.\<close>

definition demo_polled :: kv_polled where
  "demo_polled = \<lparr>pk_sys = (engine_new
       (en_disk demo_two) \<lparr>sd_primary = [], sd_backup = []\<rparr> None)\<lparr>sy_parts := True, sy_bk := bk_start demo_two (am_new ())\<rparr>,
     pk_trigger = ct_default, pk_compaction = True\<rparr>"

definition demo_surroundings :: life_env where
  "demo_surroundings = \<lparr>le_io = demo_io, le_now = 0, le_mapped = True, le_log_mapped = True, le_mems = (\<lambda>_. None), le_sb_allocated = None,
     le_sb_set = True, le_sb_opened = True, le_sb_dma = True, le_channel = True, le_sb_write = (\<lambda>w. (False, [])), le_sb_read = Some,
     le_blob_opens = (\<lambda>_. True), le_headers = (\<lambda>_. None), le_blobs = [], le_log_read = (False, []), le_io_unit = 512,
     le_cluster_size = 1048576, le_clusters = (\<lambda>_. 1), le_loads = []\<rparr>"

definition demo_poll_env :: poll_env where
  "demo_poll_env = \<lparr>pe_async = \<lparr>ae_io = demo_io, ae_checkpoint = None\<rparr>, pe_now = 10000000, pe_ckpt = sy_ckpt_env True True True demo_surroundings,
     pe_ckpt_now = 0, pe_ckpt_done = None, pe_sched = demo_sched_env\<rparr>"

lemma demo_polled_ok:
  "sy_engine (pk_sys demo_polled) = demo_two" "sy_sched (pk_sys demo_polled) = cs_new" "bk_idle (sy_bk (pk_sys demo_polled))"
  by (simp_all add: demo_polled_def bk_start_def ak_start_def engine_new_def bk_idle_def am_new_def ring_new_def)

theorem polled_engine_serves_map_witness:
  "\<exists>p. sim_run pk_do [PkOther (CsSchedule 0), PkPoll demo_poll_env, PkOther (CsCall (KvGet demo_io 5 100))] demo_polled
     = ([(PkOther (CsSchedule 0), None), (PkPoll demo_poll_env, None),
         (PkOther (CsCall (KvGet demo_io 5 100)), Some (KvGot KSuccess (Some [1, 2, 3]) (Some 3)))], p)"
proof -
  let ?sched = "PkOther (CsSchedule 0)" and ?poll = "PkPoll demo_poll_env" and ?get = "PkOther (CsCall (KvGet demo_io 5 100))"
  define p1 where "p1 = with_sched (cs_schedule_compaction 0 cs_new, demo_two) demo_polled"
  have p1: "sy_engine (pk_sys p1) = demo_two" by (simp add: p1_def)
  have "cs_tick n demo_sched_env s \<noteq> None" for n s
    by (rule tick_returns [where k = 2]) (simp_all add: demo_sched_env_def kMaxCyclesPerPoll_def word_less_nat_alt)
  then have returns: "engine_poll demo_poll_env p1 \<noteq> None"
    by (simp add: engine_poll_def poll_compaction_def demo_poll_env_def Let_def del: not_None_eq)
  then obtain p2 where poll: "engine_poll demo_poll_env p1 = Some p2" by auto
  obtain a where g: "kv_do (KvGet demo_io 5 100) (sy_engine (pk_sys p2)) = (a, sy_engine (pk_sys p2))"
    by (cases "kv_get demo_io 5 True 100 (sy_engine (pk_sys p2))") auto
  obtain p3 where run: "sim_run pk_do [?sched, ?poll, ?get] demo_polled = ([(?sched, None), (?poll, None), (?get, Some a)], p3)"
    using poll g by (simp add: demo_polled_ok p1_def [symmetric] del: kv_do.simps)
  have "env_ok (sc_io (pe_sched demo_poll_env)) demo_two" "\<exists>blob channel dma l. pe_ckpt demo_poll_env = sy_ckpt_env blob channel dma l"
    using demo_two_ok(4) by (auto simp: demo_poll_env_def demo_sched_env_def)
  moreover have "waits demo_two 0" "cs_active cs_new = None" using demo_two_ok(5,6) by (auto simp: waits_def cs_new_def)
  moreover have "kv_call_ok (KvGet demo_io 5 100) (sy_engine (pk_sys p2))" by (simp add: demo_io_def)
  ultimately have allowed: "sim_allowed pk_allowed pk_do [?sched, ?poll, ?get] demo_polled"
    using poll p1 by (simp add: demo_polled_ok p1_def [symmetric] del: kv_do.simps kv_call_ok.simps)
  have "spec_accepts pk_answer_ok pk_effect [(?sched, None), (?poll, None), (?get, Some a)] [5 \<mapsto> [1, 2, 3]]"
    using polled_engine_serves_map [OF _ _ _ demo_polled_ok(2,3) allowed run] demo_two_ok(1,2,3,6,7) by (simp add: demo_polled_ok)
  then have "a = KvGot KSuccess (Some [1, 2, 3]) (Some 3)" by (cases a) simp_all
  then show ?thesis unfolding run by simp
qed

end
