(* ===== verification/KvSimd.thy ===== *)
theory KvSimd
  imports KvIndexStore
begin

text \<open>
  The AVX2 lookup of \<^verbatim>\<open>include/spdk_kv/mem_index.h\<close>, compiled where \<^verbatim>\<open>__AVX2__\<close> is defined. It looks at
  aligned groups of four slots and compares their tags at once. Its loop has no bound: a lookup that does
  not return is the value \<open>None\<close>.
\<close>

unbundle bit_operations_syntax

section \<open>One group\<close>

text \<open>The first slot of the group of an index.\<close>

definition simd_group :: "u64 \<Rightarrow> u64" where
  "simd_group idx = idx AND NOT 3"

text \<open>The four gathered tags, 0 behind the end of the table, and the mask of those that are equal to the
  wanted one.\<close>

definition simd_tags :: "mem_index \<Rightarrow> u64 \<Rightarrow> u8 list" where
  "simd_tags m g =
     map (\<lambda>i. if g + word_of_nat i < mi_capacity m then me_tag (mi_entries m ! unat (g + word_of_nat i)) else 0) [0..<4]"

definition simd_matches :: "u8 list \<Rightarrow> u8 \<Rightarrow> nat list" where
  "simd_matches tags tag = filter (\<lambda>i. tags ! i = tag) [0..<length tags]"

text \<open>The loop over the bits of the mask, lowest first.\<close>

definition simd_check :: "mem_index \<Rightarrow> u64 \<Rightarrow> u64 \<Rightarrow> nat list \<Rightarrow> nat option" where
  "simd_check m key g matches =
     (case find (\<lambda>i. g + word_of_nat i < mi_capacity m \<and> me_key (mi_entries m ! unat (g + word_of_nat i)) = key
                     \<and> \<not> me_deleted (mi_entries m ! unat (g + word_of_nat i))) matches of
        Some i \<Rightarrow> Some (unat (g + word_of_nat i)) | None \<Rightarrow> None)"

definition simd_continue :: "mem_index \<Rightarrow> u64 \<Rightarrow> bool" where
  "simd_continue m idx =
     (let g = simd_group idx; d = ucast (idx - g) + 1 :: u8
      in list_ex (\<lambda>i. g + word_of_nat i < mi_capacity m \<and> unat (mi_psl m ! unat (g + word_of_nat i)) \<ge> unat d + i) [0..<4])"

section \<open>The lookup\<close>

partial_function (option) find_avx2_loop :: "mem_index \<Rightarrow> u64 \<Rightarrow> u8 \<Rightarrow> u64 \<Rightarrow> u64 \<Rightarrow> nat option option" where
  "find_avx2_loop m key tag home idx =
     (let g = simd_group idx in
      case simd_check m key g (simd_matches (simd_tags m g) tag) of
        Some i \<Rightarrow> Some (Some i)
      | None \<Rightarrow>
          if \<not> simd_continue m idx then Some None
          else (let idx' = mi_wrap m (g + 4)
                in if idx' = home then Some None else find_avx2_loop m key tag home idx'))"

definition find_avx2 :: "mem_index \<Rightarrow> u64 \<Rightarrow> nat option option" where
  "find_avx2 m key = (if \<not> mi_mapped m then Some None else find_avx2_loop m key (kv_tag key) (mi_home m key) (mi_home m key))"

text \<open>Batches of eight keys, each looked up in turn; the hashes computed before are not used.\<close>

fun batch_find_avx2 :: "mem_index \<Rightarrow> u64 list \<Rightarrow> (nat option list) option" where
  "batch_find_avx2 m [] = Some []"
| "batch_find_avx2 m (key # keys) =
     (if \<not> mi_mapped m then Some (map (\<lambda>_. None) (key # keys))
      else (case find_avx2 m key of None \<Rightarrow> None
            | Some r \<Rightarrow> map_option (\<lambda>rs. r # rs) (batch_find_avx2 m keys)))"

lemmas simd_eval = simd_group_def simd_check_def simd_matches_def simd_tags_def simd_continue_def upt_rec

section \<open>Whatever it finds is the entry of the key\<close>

lemma simd_check_live:
  assumes inv: "mi_inv m"
    and found: "simd_check m key g (simd_matches (simd_tags m g) (kv_tag key)) = Some i"
  shows "mi_live m key i \<and> \<not> me_deleted (mi_entries m ! i)"
proof -
  obtain j where j: "j < 4" "simd_tags m g ! j = kv_tag key" "g + word_of_nat j < mi_capacity m"
      "me_key (mi_entries m ! unat (g + word_of_nat j)) = key"
      "\<not> me_deleted (mi_entries m ! unat (g + word_of_nat j))" "i = unat (g + word_of_nat j)"
    using found
    by (auto simp: simd_check_def simd_matches_def simd_tags_def find_Some_iff nth_mem split: option.splits
        dest!: nth_mem)
  have "i < mi_cap m" using j(3,6) inv by (simp add: mi_inv_def mi_wf_def word_less_nat_alt)
  moreover have "me_tag (mi_entries m ! i) = kv_tag key" using j by (simp add: simd_tags_def)
  ultimately show ?thesis using mi_match_live [OF inv, of i key] j by simp
qed

lemma find_avx2_loop_live:
  assumes "find_avx2_loop m key tag home idx = Some r" "mi_inv m" "tag = kv_tag key" "r = Some i"
  shows "mi_live m key i \<and> \<not> me_deleted (mi_entries m ! i)"
  using assms
proof (induction rule: find_avx2_loop.raw_induct [rotated 1, consumes 1, case_names step])
  case (step loop m key tag home idx r)
  then show ?case
    using simd_check_live [of m key "simd_group idx" i]
    by (auto simp: Let_def split: option.splits if_splits)
qed

text \<open>C18: A lookup of the AVX2 path that returns a slot returns the slot the scalar lookup returns.\<close>

theorem simd_find_sound:
  assumes "mi_inv m" "find_avx2 m key = Some (Some i)"
  shows "mi_find m key = Some i"
proof -
  from assms(2) have "find_avx2_loop m key (kv_tag key) (mi_home m key) (mi_home m key) = Some (Some i)"
    by (auto simp: find_avx2_def split: if_splits)
  from find_avx2_loop_live [OF this assms(1) refl refl] show ?thesis using mi_find_iff [OF assms(1)] by blast
qed

theorem simd_find_sound_witness:
  "find_avx2 (ix_table [(5, 1)]) 5 = Some (Some 0) \<and> mi_find (ix_table [(5, 1)]) 5 = Some 0"
proof -
  have "find_avx2 (ix_table [(5, 1)]) 5 = Some (Some 0)"
    by (simp add: ix_table_def find_avx2_def find_avx2_loop.simps simd_eval ix_eval)
  with simd_find_sound [OF ix_table_5_inv this] show ?thesis by blast
qed

text \<open>A lookup of the AVX2 path can miss a key the scalar lookup finds. Four keys that share the end of a
  table of eight slots push key 26 from its home 7 to slot 0. Its group is asked whether a probe length reaches
  four steps and more; the lengths are measured from other homes, and the lookup gives up.\<close>

theorem simd_find_misses_key:
  "fst (insert_all mi_upsert (map (\<lambda>(k, s). (k, ix_entry k s)) [(24, 1), (16, 2), (3, 3), (26, 4)]) (mem_index_new 8 True))
   \<and> mi_find (ix_table [(24, 1), (16, 2), (3, 3), (26, 4)]) 26 = Some 0
   \<and> find_avx2 (ix_table [(24, 1), (16, 2), (3, 3), (26, 4)]) 26 = Some None"
  by (simp add: ix_table_def mi_find_def find_internal.simps find_avx2_def find_avx2_loop.simps simd_eval ix_eval)

section \<open>Lookups that do not return\<close>

lemma unat_simd_group: "unat (simd_group idx) = 4 * (unat idx div 4)"
proof -
  have "simd_group idx = idx AND NOT (mask 2)" by (simp add: simd_group_def mask_eq_exp_minus_1)
  then show ?thesis unfolding unat_and_not_mask by (simp add: unat_and_not_mask minus_mod_eq_mult_div del: bit_simps)
qed

text \<open>No slot carries the key, and the first slot of every group is occupied.\<close>

definition simd_crowded :: "mem_index \<Rightarrow> u64 \<Rightarrow> bool" where
  "simd_crowded m key \<longleftrightarrow>
     list_all (\<lambda>e. me_key e \<noteq> key) (mi_entries m) \<and> list_all (\<lambda>i. 4 dvd i \<longrightarrow> mi_psl m ! i \<noteq> 0) [0..<mi_cap m]"

lemma simd_check_crowded:
  assumes "mi_wf m" "simd_crowded m key"
  shows "simd_check m key g matches = None"
proof -
  have "me_key (mi_entries m ! unat (g + x)) \<noteq> key" if "g + x < mi_capacity m" for x
    using assms that by (simp add: simd_crowded_def list_all_length mi_wf_def word_less_nat_alt)
  then show ?thesis by (auto simp: simd_check_def find_None_iff split: option.splits)
qed

lemma simd_continue_aligned:
  assumes wf: "mi_wf m" and crowd: "simd_crowded m key" and idx: "4 dvd unat idx" "unat idx < mi_cap m"
  shows "simd_continue m idx"
proof -
  have g: "simd_group idx = idx" using unat_simd_group [of idx] idx(1) by (simp add: unsigned_word_eqI)
  have "mi_psl m ! unat idx \<noteq> 0" using crowd idx by (auto simp: simd_crowded_def list_all_iff)
  then have "1 \<le> unat (mi_psl m ! unat idx)" using unat_eq_0 by (metis One_nat_def Suc_leI neq0_conv)
  moreover have "idx < mi_capacity m" using wf idx by (simp add: mi_wf_def word_less_nat_alt)
  ultimately show ?thesis
    unfolding simd_continue_def Let_def g list_ex_iff by (intro bexI [where x = 0]) simp_all
qed

lemma simd_next_aligned:
  assumes wf: "mi_wf m" and cap: "4 \<le> mi_cap m"
  shows "4 dvd unat (mi_wrap m (simd_group idx + 4))" "unat (mi_wrap m (simd_group idx + 4)) < mi_cap m"
proof -
  obtain k where k: "k < 64" "mi_cap m = 2 ^ k" using mi_wf_cap [OF wf] by blast
  have "2 \<le> k" using cap k(2) power_less_imp_less_exp [of 2 2 k] by (cases "k < 2") (auto simp: less_2_cases_iff)
  then have c: "(4 :: nat) dvd mi_cap m" using k(2) le_imp_power_dvd [of 2 k 2] by simp
  have "(4 :: nat) dvd 2 ^ 64" by simp
  then have "4 dvd unat (simd_group idx + 4)"
    by (simp add: unat_word_ariths(1) unat_simd_group dvd_mod del: unat_plus_if')
  then show "4 dvd unat (mi_wrap m (simd_group idx + 4))" using c by (simp add: unat_mi_wrap [OF wf] dvd_mod)
  show "unat (mi_wrap m (simd_group idx + 4)) < mi_cap m"
    using mi_wf_bounds [OF wf] by (simp add: unat_mi_wrap [OF wf])
qed

text \<open>The loop never sees the home again: a result would be one of a loop that goes on for ever.\<close>

lemma find_avx2_loop_crowded:
  assumes "find_avx2_loop m key tag home idx = Some r" "mi_wf m" "4 \<le> mi_cap m" "simd_crowded m key"
    "\<not> 4 dvd unat home" "simd_continue m idx"
  shows False
  using assms
proof (induction rule: find_avx2_loop.raw_induct [rotated 1, consumes 1, case_names step])
  case (step loop m key tag home idx r)
  let ?next = "mi_wrap m (simd_group idx + 4)"
  have n: "4 dvd unat ?next" "unat ?next < mi_cap m" using simd_next_aligned [OF step(3,4)] by blast+
  have "simd_continue m ?next" by (rule simd_continue_aligned [OF step(3,5) n])
  moreover have "?next \<noteq> home" using n(1) step(6) by auto
  then have "loop m key tag home ?next = Some r"
    using step(2,7) simd_check_crowded [OF step(3,5)] by (simp add: Let_def)
  ultimately show False using step(1,3-6) by blast
qed

text \<open>A lookup of the AVX2 path for a key that is not stored never returns, where the first slot of every
  group is occupied, the home of the key is not a multiple of four and its group sends the probe on: the
  loop stops a full circle at the home only, and from the second step on it visits multiples of four.\<close>

theorem simd_find_never_returns:
  assumes "mi_wf m" "4 \<le> mi_cap m" "simd_crowded m key" "\<not> 4 dvd unat (mi_home m key)"
    "simd_continue m (mi_home m key)"
  shows "find_avx2 m key = None"
proof -
  have "find_avx2_loop m key (kv_tag key) (mi_home m key) (mi_home m key) = None"
    using find_avx2_loop_crowded [of m key _ "mi_home m key" "mi_home m key"] assms
    by (cases "find_avx2_loop m key (kv_tag key) (mi_home m key) (mi_home m key)") blast+
  moreover have "mi_mapped m" using assms(1) by (simp add: mi_wf_def)
  ultimately show ?thesis by (simp add: find_avx2_def)
qed

theorem simd_find_never_returns_witness:
  "mi_find (ix_table [(24, 1), (16, 2), (3, 3), (26, 4), (1, 5)]) 4 = None
   \<and> find_avx2 (ix_table [(24, 1), (16, 2), (3, 3), (26, 4), (1, 5)]) 4 = None"
proof -
  let ?m = "ix_table [(24, 1), (16, 2), (3, 3), (26, 4), (1, 5)]"
  have h: "kv_hash 1 = 0x89cd31291d2aefa4" by (simp add: kv_hash_def hash_bytes_numeral)
  then have t: "kv_tag 1 = 137" by (simp add: kv_tag_def)
  have c: "(8 :: u64) = 2 ^ 3" by simp
  have "mi_wf ?m"
    unfolding mi_wf_def by (simp add: ix_table_def h t ix_eval) (rule exI [of _ 3], simp)
  moreover have "4 \<le> mi_cap ?m" "simd_crowded ?m 4" "\<not> 4 dvd unat (mi_home ?m 4)" "simd_continue ?m (mi_home ?m 4)"
    by (simp_all add: ix_table_def simd_crowded_def h t simd_eval ix_eval) presburger
  ultimately have "find_avx2 ?m 4 = None" by (rule simd_find_never_returns)
  moreover have "mi_find ?m 4 = None"
    by (simp add: ix_table_def mi_find_def find_internal.simps h t ix_eval)
  ultimately show ?thesis by blast
qed

end
