(* ===== verification/KvEnv.thy ===== *)
theory KvEnv
  imports KvPools
begin

text \<open>
  The environment manager of \<^verbatim>\<open>src/spdk_env.cpp\<close>: SPDK's initialisation and clean-up, and the blob
  operations with their completion contexts. What SPDK answers is a parameter; handles are numbers, the
  null pointer is \<open>None\<close>. The resources taken from SPDK and given back are recorded as a trace.
\<close>

section \<open>State\<close>

datatype spdk_resource = ResEnv | ResBdev | ResBlobStore | ResChannel | ResQpair

datatype spdk_trace = Acquired spdk_resource | Released spdk_resource

text \<open>The options that are looked at. \<^verbatim>\<open>config_file\<close>, \<^verbatim>\<open>core_mask\<close> and \<^verbatim>\<open>num_hugepages\<close> are not.\<close>

record env_opts =
  eo_name :: string
  eo_bdev_name :: string
  eo_shm_id :: u64
  eo_mem_size :: u64
  eo_no_pci :: bool

text \<open>What is set in SPDK's options; \<open>None\<close> leaves SPDK's default.\<close>

record spdk_init_opts =
  si_name :: string
  si_shm_id :: "int option"
  si_mem_size :: "int option"
  si_no_pci :: bool

definition env_init_opts :: "env_opts \<Rightarrow> spdk_init_opts" where
  "env_init_opts opts =
     \<lparr>si_name = eo_name opts,
      si_shm_id = (if eo_shm_id opts > 0 then Some (sint (ucast (eo_shm_id opts) :: u32)) else None),
      si_mem_size = (if eo_mem_size opts > 0 then Some (sint (ucast (eo_mem_size opts) :: u32)) else None),
      si_no_pci = eo_no_pci opts\<rparr>"

text \<open>\<open>an_bs_load\<close> and \<open>an_unloaded\<close>: whether the completion is delivered inside the call, and with what.\<close>

record spdk_answers =
  an_env_init :: "spdk_init_opts \<Rightarrow> int"
  an_bdev :: "string \<Rightarrow> u64 option"
  an_bdev_open :: "int \<times> u64"
  an_bs_dev :: "int \<times> u64 option"
  an_bs_load :: "(u64 option \<times> int) option"
  an_channel :: "u64 option"

datatype blob_kind = KindAlloc | KindOpen | KindClose | KindDelete | KindResize | KindSync

datatype blob_call = CreateBlob u64 | OpenBlob u64 | CloseBlob u64 | DeleteBlob u64 | ResizeBlob u64 u64 | SyncBlob u64

text \<open>A call at the blob store: what was asked, its completion context and the callback in it.\<close>

record blob_request =
  br_call :: blob_call
  br_ctx :: ctx_ptr
  br_cb :: nat

text \<open>What a callback is called with; \<open>None\<close> is \<^verbatim>\<open>SPDK_BLOBID_INVALID\<close> or the null pointer.\<close>

datatype blob_answer = AnsId nat "u64 option" | AnsBlob nat "u64 option" | AnsStatus nat int

record spdk_env =
  se_ctrlr :: "u64 option"
  se_ns :: "u64 option"
  se_qpair :: "u64 option"
  se_blobstore :: "u64 option"
  se_io_channel :: "u64 option"
  se_bdev :: "u64 option"
  se_bdev_desc :: "u64 option"
  se_initialized :: bool
  se_polling :: bool
  se_opts :: "env_opts option"
  se_pools :: "blob_kind \<Rightarrow> ctx_pool"
  se_flights :: "blob_request list"
  se_answers :: "blob_answer list"
  se_trace :: "spdk_trace list"

fun blob_pool_size :: "blob_kind \<Rightarrow> nat" where
  "blob_pool_size KindAlloc = 16"
| "blob_pool_size KindOpen = 16"
| "blob_pool_size KindClose = 16"
| "blob_pool_size KindDelete = 16"
| "blob_pool_size KindResize = 8"
| "blob_pool_size KindSync = 8"

definition env_new :: spdk_env where
  "env_new = \<lparr>se_ctrlr = None, se_ns = None, se_qpair = None, se_blobstore = None, se_io_channel = None, se_bdev = None,
     se_bdev_desc = None, se_initialized = False, se_polling = False, se_opts = None,
     se_pools = (\<lambda>k. ctx_pool_new (blob_pool_size k)), se_flights = [], se_answers = [], se_trace = []\<rparr>"

definition env_traced :: "spdk_trace \<Rightarrow> spdk_env \<Rightarrow> spdk_env" where
  "env_traced t s = s\<lparr>se_trace := se_trace s @ [t]\<rparr>"

section \<open>Initialisation and clean-up\<close>

text \<open>\<^verbatim>\<open>while (!done) {}\<close>: nothing in the loop lets the completion come.\<close>

partial_function (option) wait_done :: "'a option \<Rightarrow> 'a option" where
  "wait_done r = (case r of Some x \<Rightarrow> Some x | None \<Rightarrow> wait_done r)"

text \<open>The end of a failed initialisation: \<^verbatim>\<open>spdk_env_fini\<close>, after \<^verbatim>\<open>spdk_bdev_close\<close> where the
  descriptor is open. The members keep their values.\<close>

definition env_fini :: "spdk_env \<Rightarrow> spdk_env" where
  "env_fini s = env_traced (Released ResEnv) s"

definition env_close_fini :: "spdk_env \<Rightarrow> spdk_env" where
  "env_close_fini s = env_fini (env_traced (Released ResBdev) s)"

definition env_load_blobstore :: "spdk_answers \<Rightarrow> spdk_env \<Rightarrow> (bool \<times> spdk_env) option" where
  "env_load_blobstore ans s =
     (case wait_done (an_bs_load ans) of None \<Rightarrow> None
      | Some (bs, rc) \<Rightarrow>
          if rc \<noteq> 0 \<or> bs = None then Some (False, env_close_fini s)
          else (let s = env_traced (Acquired ResBlobStore) (s\<lparr>se_blobstore := bs\<rparr>);
                    s = s\<lparr>se_io_channel := an_channel ans\<rparr>;
                    s = (if an_channel ans = None then s else env_traced (Acquired ResChannel) s)
                in Some (True, s\<lparr>se_initialized := True\<rparr>)))"

text \<open>A failed \<^verbatim>\<open>spdk_bdev_open_ext\<close> leaves the descriptor as it was.\<close>

definition env_open_bdev :: "spdk_answers \<Rightarrow> spdk_env \<Rightarrow> (bool \<times> spdk_env) option" where
  "env_open_bdev ans s =
     (case an_bdev_open ans of (rc, desc) \<Rightarrow>
        if rc < 0 then Some (False, env_fini s)
        else (let s = env_traced (Acquired ResBdev) (s\<lparr>se_bdev_desc := Some desc\<rparr>)
              in case an_bs_dev ans of (rc, dev) \<Rightarrow>
                   if rc < 0 \<or> dev = None then Some (False, env_close_fini s) else env_load_blobstore ans s))"

definition env_initialize :: "spdk_answers \<Rightarrow> env_opts \<Rightarrow> spdk_env \<Rightarrow> (bool \<times> spdk_env) option" where
  "env_initialize ans opts s =
     (if se_initialized s then Some (True, s)
      else (let s = s\<lparr>se_opts := Some opts\<rparr> in
        if an_env_init ans (env_init_opts opts) < 0 then Some (False, s)
        else (let s = env_traced (Acquired ResEnv) s in
          if eo_bdev_name opts = [] then Some (False, env_fini s)
          else (let s = s\<lparr>se_bdev := an_bdev ans (eo_bdev_name opts)\<rparr> in
            if se_bdev s = None then Some (False, env_fini s) else env_open_bdev ans s))))"

definition env_unload :: "bool \<Rightarrow> spdk_env \<Rightarrow> spdk_env option" where
  "env_unload unloaded s =
     (if se_blobstore s = None then Some s
      else (case wait_done (if unloaded then Some () else None) of None \<Rightarrow> None
            | Some _ \<Rightarrow> Some (env_traced (Released ResBlobStore) (s\<lparr>se_blobstore := None\<rparr>))))"

definition env_cleanup :: "bool \<Rightarrow> spdk_env \<Rightarrow> spdk_env option" where
  "env_cleanup unloaded s =
     (if \<not> se_initialized s then Some s
      else (let s = (if se_io_channel s = None then s else env_traced (Released ResChannel) (s\<lparr>se_io_channel := None\<rparr>))
            in case env_unload unloaded s of None \<Rightarrow> None
               | Some s \<Rightarrow>
                  (let s = (if se_bdev_desc s = None then s else env_traced (Released ResBdev) (s\<lparr>se_bdev_desc := None\<rparr>));
                       s = (if se_qpair s = None then s else env_traced (Released ResQpair) (s\<lparr>se_qpair := None\<rparr>))
                   in Some ((env_fini s)\<lparr>se_initialized := False\<rparr>))))"

section \<open>Polling\<close>

text \<open>\<open>process\<close> is \<^verbatim>\<open>spdk_nvme_qpair_process_completions\<close>: what it returns for a queue pair.\<close>

definition env_process_completions :: "(u64 \<Rightarrow> u32 \<Rightarrow> int) \<Rightarrow> u32 \<Rightarrow> spdk_env \<Rightarrow> int" where
  "env_process_completions process max_completions s =
     (case se_qpair s of None \<Rightarrow> 0 | Some q \<Rightarrow> process q max_completions)"

text \<open>The queue pairs whose completions \<^verbatim>\<open>poll\<close> processes.\<close>

definition env_poll :: "spdk_env \<Rightarrow> u64 list" where
  "env_poll s = (case se_qpair s of None \<Rightarrow> [] | Some q \<Rightarrow> [q])"

definition env_set_polling :: "bool \<Rightarrow> spdk_env \<Rightarrow> spdk_env" where
  "env_set_polling on s = s\<lparr>se_polling := on\<rparr>"

section \<open>Blob operations\<close>

fun blob_kind_of :: "blob_call \<Rightarrow> blob_kind" where
  "blob_kind_of (CreateBlob _) = KindAlloc"
| "blob_kind_of (OpenBlob _) = KindOpen"
| "blob_kind_of (CloseBlob _) = KindClose"
| "blob_kind_of (DeleteBlob _) = KindDelete"
| "blob_kind_of (ResizeBlob _ _) = KindResize"
| "blob_kind_of (SyncBlob _) = KindSync"

definition env_answer :: "blob_answer \<Rightarrow> spdk_env \<Rightarrow> spdk_env" where
  "env_answer r s = s\<lparr>se_answers := se_answers s @ [r]\<rparr>"

text \<open>A context is taken from the pool of the operation and the request goes to the blob store. \<open>fresh\<close>
  is the block the heap gives when the pool is empty.\<close>

definition env_submit :: "nat \<Rightarrow> blob_call \<Rightarrow> nat \<Rightarrow> spdk_env \<Rightarrow> spdk_env" where
  "env_submit fresh call cb s =
     (let k = blob_kind_of call in
      case ctx_pool_alloc fresh (se_pools s k) of
        (ctx, p) \<Rightarrow> s\<lparr>se_pools := (se_pools s)(k := p),
                      se_flights := se_flights s @ [\<lparr>br_call = call, br_ctx = ctx, br_cb = cb\<rparr>]\<rparr>)"

definition env_allocate_blob :: "nat \<Rightarrow> u64 \<Rightarrow> u64 \<Rightarrow> nat \<Rightarrow> spdk_env \<Rightarrow> spdk_env" where
  "env_allocate_blob fresh cluster_size sz cb s =
     (if se_blobstore s = None then env_answer (AnsId cb None) s
      else env_submit fresh (CreateBlob ((sz + cluster_size - 1) div cluster_size)) cb s)"

definition env_open_blob :: "nat \<Rightarrow> u64 \<Rightarrow> nat \<Rightarrow> spdk_env \<Rightarrow> spdk_env" where
  "env_open_blob fresh blob_id cb s =
     (if se_blobstore s = None then env_answer (AnsBlob cb None) s else env_submit fresh (OpenBlob blob_id) cb s)"

definition env_close_blob :: "nat \<Rightarrow> u64 option \<Rightarrow> nat \<Rightarrow> spdk_env \<Rightarrow> spdk_env" where
  "env_close_blob fresh blob cb s =
     (case blob of None \<Rightarrow> env_answer (AnsStatus cb (-1)) s | Some b \<Rightarrow> env_submit fresh (CloseBlob b) cb s)"

definition env_delete_blob :: "nat \<Rightarrow> u64 \<Rightarrow> nat \<Rightarrow> spdk_env \<Rightarrow> spdk_env" where
  "env_delete_blob fresh blob_id cb s =
     (if se_blobstore s = None then env_answer (AnsStatus cb (-1)) s else env_submit fresh (DeleteBlob blob_id) cb s)"

definition env_resize_blob :: "nat \<Rightarrow> u64 option \<Rightarrow> u64 \<Rightarrow> nat \<Rightarrow> spdk_env \<Rightarrow> spdk_env" where
  "env_resize_blob fresh blob clusters cb s =
     (case blob of None \<Rightarrow> env_answer (AnsStatus cb (-1)) s | Some b \<Rightarrow> env_submit fresh (ResizeBlob b clusters) cb s)"

definition env_sync_blob_md :: "nat \<Rightarrow> u64 option \<Rightarrow> nat \<Rightarrow> spdk_env \<Rightarrow> spdk_env" where
  "env_sync_blob_md fresh blob cb s =
     (case blob of None \<Rightarrow> env_answer (AnsStatus cb (-1)) s | Some b \<Rightarrow> env_submit fresh (SyncBlob b) cb s)"

text \<open>The completions: the callback is taken out, the context freed, the callback called. \<open>result\<close> is the
  blob id or the handle the blob store delivers.\<close>

definition blob_answered :: "blob_call \<Rightarrow> nat \<Rightarrow> int \<Rightarrow> u64 \<Rightarrow> blob_answer" where
  "blob_answered call cb status result =
     (let delivered = (if status = 0 then Some result else None) in
      case blob_kind_of call of KindAlloc \<Rightarrow> AnsId cb delivered | KindOpen \<Rightarrow> AnsBlob cb delivered | _ \<Rightarrow> AnsStatus cb status)"

definition on_blob_complete :: "blob_request \<Rightarrow> int \<Rightarrow> u64 \<Rightarrow> spdk_env \<Rightarrow> spdk_env" where
  "on_blob_complete r status result s =
     (let k = blob_kind_of (br_call r);
          s = s\<lparr>se_pools := (se_pools s)(k := ctx_pool_free (Some (br_ctx r)) (se_pools s k))\<rparr>
      in env_answer (blob_answered (br_call r) (br_cb r) status result) s)"

section \<open>Runs\<close>

datatype env_op =
    OpAllocate u64 u64 | OpOpen u64 | OpClose "u64 option" | OpDelete u64 | OpResize "u64 option" u64 | OpSync "u64 option"

fun env_call :: "env_op \<Rightarrow> nat \<Rightarrow> nat \<Rightarrow> spdk_env \<Rightarrow> spdk_env" where
  "env_call (OpAllocate cluster_size sz) fresh cb s = env_allocate_blob fresh cluster_size sz cb s"
| "env_call (OpOpen i) fresh cb s = env_open_blob fresh i cb s"
| "env_call (OpClose b) fresh cb s = env_close_blob fresh b cb s"
| "env_call (OpDelete i) fresh cb s = env_delete_blob fresh i cb s"
| "env_call (OpResize b n) fresh cb s = env_resize_blob fresh b n cb s"
| "env_call (OpSync b) fresh cb s = env_sync_blob_md fresh b cb s"

text \<open>\<open>EnvDone n\<close> completes the request \<open>n\<close> of those at the blob store. A run that does not return is \<open>None\<close>.\<close>

datatype env_event =
    EnvInit spdk_answers env_opts
  | EnvCleanup bool
  | EnvPolling bool
  | EnvCall env_op nat nat
  | EnvDone nat int u64

fun env_step :: "env_event \<Rightarrow> spdk_env \<Rightarrow> spdk_env option" where
  "env_step (EnvInit ans opts) s = map_option snd (env_initialize ans opts s)"
| "env_step (EnvCleanup unloaded) s = env_cleanup unloaded s"
| "env_step (EnvPolling on) s = Some (env_set_polling on s)"
| "env_step (EnvCall opr fresh cb) s = Some (env_call opr fresh cb s)"
| "env_step (EnvDone n status result) s =
     Some (if n < length (se_flights s)
           then on_blob_complete (se_flights s ! n) status result
                  (s\<lparr>se_flights := take n (se_flights s) @ drop (Suc n) (se_flights s)\<rparr>)
           else s)"

fun env_run :: "env_event list \<Rightarrow> spdk_env \<Rightarrow> spdk_env option" where
  "env_run [] s = Some s"
| "env_run (ev # evs) s = (case env_step ev s of None \<Rightarrow> None | Some s \<Rightarrow> env_run evs s)"

end
