(* ===== verification/KvEnvSpec.thy ===== *)
theory KvEnvSpec
  imports KvEnv "HOL-Library.Multiset"
begin

text \<open>
  What the environment manager promises: the resources of SPDK are given back in the reverse order of
  their acquisition, on every path; every blob operation is answered once, from a context of its own; and
  what it does not do: it never processes a completion.
\<close>

section \<open>Resources\<close>

text \<open>The resources that are held after a trace, the newest first; \<open>None\<close> if something is released that
  is not the newest one held.\<close>

fun spdk_held :: "spdk_trace list \<Rightarrow> spdk_resource list \<Rightarrow> spdk_resource list option" where
  "spdk_held [] st = Some st"
| "spdk_held (Acquired r # ts) st = spdk_held ts (r # st)"
| "spdk_held (Released r # ts) (x # st) = (if r = x then spdk_held ts st else None)"
| "spdk_held (Released r # ts) [] = None"

lemma spdk_held_append: "spdk_held (ts @ us) st = Option.bind (spdk_held ts st) (spdk_held us)"
  by (induction ts st rule: spdk_held.induct) auto

definition env_holds :: "spdk_env \<Rightarrow> spdk_resource list" where
  "env_holds s = (if se_initialized s then (if se_io_channel s = None then [] else [ResChannel]) @ [ResBlobStore, ResBdev, ResEnv]
                  else [])"

lemma wait_done_returns: "wait_done r = Some x \<Longrightarrow> r = Some x"
  by (induction rule: wait_done.raw_induct [rotated 1, consumes 1]) (auto split: option.splits)

lemma wait_done_eq: "wait_done r = r"
proof (cases r)
  case None
  then show ?thesis using wait_done_returns [of r] by (cases "wait_done r") auto
next
  case (Some x)
  then show ?thesis by (subst wait_done.simps) simp
qed

text \<open>The members that are set together, and the trace.\<close>

definition env_consistent :: "spdk_env \<Rightarrow> bool" where
  "env_consistent s \<longleftrightarrow> spdk_held (se_trace s) [] = Some (env_holds s) \<and> se_qpair s = None
     \<and> (if se_initialized s then se_blobstore s \<noteq> None \<and> se_bdev_desc s \<noteq> None
        else se_blobstore s = None \<and> se_io_channel s = None)"

lemmas env_trace_defs = env_consistent_def env_holds_def env_traced_def env_fini_def env_close_fini_def spdk_held_append

lemma initialize_consistent:
  assumes "env_consistent s" "env_initialize ans opts s = Some (ok, s')"
  shows "env_consistent s' \<and> (ok \<longleftrightarrow> se_initialized s')"
proof (cases "se_initialized s")
  case True
  then show ?thesis using assms by (auto simp: env_initialize_def)
next
  case False
  then show ?thesis using assms
    by (auto simp: env_initialize_def env_open_bdev_def env_load_blobstore_def wait_done_eq env_trace_defs Let_def
        split: if_splits prod.splits option.splits)
qed

lemma cleanup_consistent:
  assumes "env_consistent s" "env_cleanup unloaded s = Some s'"
  shows "env_consistent s' \<and> \<not> se_initialized s'"
  using assms
  by (auto simp: env_cleanup_def env_unload_def wait_done_eq env_trace_defs Let_def split: if_splits)

lemma env_answer_consistent [simp]: "env_consistent (env_answer r s) = env_consistent s"
  by (simp add: env_consistent_def env_holds_def env_answer_def)

lemma env_submit_consistent [simp]: "env_consistent (env_submit fresh call cb s) = env_consistent s"
proof -
  obtain ctx q where "ctx_pool_alloc fresh (se_pools s (blob_kind_of call)) = (ctx, q)" by fastforce
  then show ?thesis by (simp add: env_consistent_def env_holds_def env_submit_def Let_def)
qed

lemmas env_call_defs = env_allocate_blob_def env_open_blob_def env_close_blob_def env_delete_blob_def env_resize_blob_def
  env_sync_blob_md_def

lemma env_call_consistent [simp]: "env_consistent (env_call opr fresh cb s) = env_consistent s"
  by (cases opr) (simp_all add: env_call_defs split: option.splits)

lemma env_step_consistent:
  assumes "env_consistent s" "env_step ev s = Some s'"
  shows "env_consistent s'"
proof (cases ev)
  case (EnvDone n status result)
  then have "se_trace s' = se_trace s" "env_holds s' = env_holds s" "se_qpair s' = se_qpair s" "se_initialized s' = se_initialized s"
    "se_blobstore s' = se_blobstore s" "se_bdev_desc s' = se_bdev_desc s" "se_io_channel s' = se_io_channel s"
    using assms(2) by (auto simp: on_blob_complete_def env_answer_def env_holds_def Let_def split: if_splits)
  then show ?thesis using assms(1) by (simp add: env_consistent_def)
next
  case (EnvPolling on)
  then show ?thesis using assms by (auto simp: env_consistent_def env_holds_def env_set_polling_def)
next
  case (EnvInit ans opts)
  then obtain ok where "env_initialize ans opts s = Some (ok, s')" using assms(2) by auto
  from initialize_consistent [OF assms(1) this] show ?thesis by blast
next
  case (EnvCleanup unloaded)
  then have "env_cleanup unloaded s = Some s'" using assms(2) by simp
  from cleanup_consistent [OF assms(1) this] show ?thesis by blast
next
  case (EnvCall opr fresh cb)
  then show ?thesis using assms by auto
qed

lemma env_run_consistent: "env_run evs s = Some s' \<Longrightarrow> env_consistent s \<Longrightarrow> env_consistent s'"
  by (induction evs s rule: env_run.induct) (auto split: option.splits dest: env_step_consistent)

text \<open>C23: After any run of initialisations, failing at any point or not, clean-ups and blob operations, what was
  taken from SPDK was given back in the reverse order, but for what an initialised environment holds.\<close>

theorem env_resources_nested:
  assumes "env_run evs env_new = Some s"
  shows "spdk_held (se_trace s) [] = Some (env_holds s)"
proof -
  have "env_consistent env_new" by (simp add: env_consistent_def env_holds_def env_new_def)
  from env_run_consistent [OF assms this] show ?thesis by (simp add: env_consistent_def)
qed

text \<open>Nothing ever sets the queue pair, the controller or the namespace: \<^verbatim>\<open>poll\<close>, which the engine
  calls in every loop that waits for the device, processes no completions.\<close>

theorem env_poll_processes_nothing:
  assumes "env_run evs env_new = Some s"
  shows "env_poll s = [] \<and> env_process_completions process n s = 0"
proof -
  have "env_consistent env_new" by (simp add: env_consistent_def env_holds_def env_new_def)
  from env_run_consistent [OF assms this] show ?thesis
    by (simp add: env_consistent_def env_poll_def env_process_completions_def)
qed

section \<open>Blob operations\<close>

fun answer_cb :: "blob_answer \<Rightarrow> nat" where
  "answer_cb (AnsId cb _) = cb"
| "answer_cb (AnsBlob cb _) = cb"
| "answer_cb (AnsStatus cb _) = cb"

fun env_called :: "env_event \<Rightarrow> nat list" where
  "env_called (EnvCall _ _ cb) = [cb]"
| "env_called _ = []"

text \<open>The slots of a pool that are in use.\<close>

definition pool_slots :: "blob_kind \<Rightarrow> blob_request list \<Rightarrow> nat list" where
  "pool_slots k fs = concat (map (\<lambda>r. case br_ctx r of PoolSlot i \<Rightarrow> if blob_kind_of (br_call r) = k then [i] else []
                                     | HeapBlock _ \<Rightarrow> []) fs)"

definition env_account :: "spdk_env \<Rightarrow> nat multiset" where
  "env_account s = mset (map answer_cb (se_answers s)) + mset (map br_cb (se_flights s))"

definition env_pools_ok :: "spdk_env \<Rightarrow> bool" where
  "env_pools_ok s \<longleftrightarrow> (\<forall>k. ctxp.accounted (se_pools s k) (pool_slots k (se_flights s))
     \<and> length (cp_free_list (se_pools s k)) = blob_pool_size k)"

context slot_pool
begin

lemma accounted_perm: "mset live = mset live' \<Longrightarrow> accounted p live \<longleftrightarrow> accounted p live'"
  using mset_eq_imp_distinct_iff [of "live @ free_slots p" "live' @ free_slots p"] mset_eq_setD [of live live']
  by (simp add: accounted_def)

end

lemma pool_slots_append [simp]: "pool_slots k (fs @ gs) = pool_slots k fs @ pool_slots k gs"
  by (simp add: pool_slots_def)

lemma ctx_alloc_accounted:
  assumes "ctxp.accounted p live" "ctx_pool_alloc fresh p = (ctx, q)"
  shows "ctxp.accounted q ((case ctx of PoolSlot i \<Rightarrow> [i] | HeapBlock _ \<Rightarrow> []) @ live) \<and> cp_free_list q = cp_free_list p"
proof (cases "cp_free_count p > 0")
  case True
  then have c: "ctx = PoolSlot (cp_free_list p ! (cp_free_count p - 1))" "ctx_pop p = Some (cp_free_list p ! (cp_free_count p - 1), q)"
    using assms(2) by (auto simp: ctx_pool_alloc_def ctx_pop_def)
  show ?thesis using ctxp.accounted_step(1) [OF assms(1) c(2)] c(1) assms(2) True by (auto simp: ctx_pool_alloc_def)
next
  case False
  then show ?thesis using assms by (auto simp: ctx_pool_alloc_def)
qed

lemma env_submit_pools:
  assumes "env_pools_ok s"
  shows "env_pools_ok (env_submit fresh call cb s)"
proof -
  let ?k = "blob_kind_of call"
  obtain ctx q where al: "ctx_pool_alloc fresh (se_pools s ?k) = (ctx, q)" by fastforce
  have acc: "ctxp.accounted (se_pools s k) (pool_slots k (se_flights s))" "length (cp_free_list (se_pools s k)) = blob_pool_size k" for k
    using assms by (simp_all add: env_pools_ok_def)
  note new = ctx_alloc_accounted [OF acc(1) al]
  have flights: "se_flights (env_submit fresh call cb s) = se_flights s @ [\<lparr>br_call = call, br_ctx = ctx, br_cb = cb\<rparr>]"
    and pools: "se_pools (env_submit fresh call cb s) = (se_pools s)(?k := q)"
    using al by (simp_all add: env_submit_def Let_def)
  have "ctxp.accounted q (pool_slots ?k (se_flights s @ [\<lparr>br_call = call, br_ctx = ctx, br_cb = cb\<rparr>]))"
    using new ctxp.accounted_perm [of "(case ctx of PoolSlot i \<Rightarrow> [i] | HeapBlock _ \<Rightarrow> []) @ pool_slots ?k (se_flights s)"
        "pool_slots ?k (se_flights s @ [\<lparr>br_call = call, br_ctx = ctx, br_cb = cb\<rparr>])" q]
    by (cases ctx) (simp_all add: pool_slots_def)
  moreover have "pool_slots k [\<lparr>br_call = call, br_ctx = ctx, br_cb = cb\<rparr>] = []" if "k \<noteq> ?k" for k
    using that by (simp add: pool_slots_def split: ctx_ptr.splits)
  ultimately have "ctxp.accounted (se_pools (env_submit fresh call cb s) k) (pool_slots k (se_flights (env_submit fresh call cb s)))"
    for k using acc(1) [of k] by (cases "k = ?k") (simp_all add: flights pools)
  moreover have "length (cp_free_list (se_pools (env_submit fresh call cb s) k)) = blob_pool_size k" for k
    using acc(2) [of k] acc(2) [of ?k] new by (simp add: pools)
  ultimately show ?thesis unfolding env_pools_ok_def by blast
qed

lemma env_answer_pools [simp]: "env_pools_ok (env_answer r s) = env_pools_ok s"
  by (simp add: env_pools_ok_def env_answer_def)

lemma env_call_pools: "env_pools_ok s \<Longrightarrow> env_pools_ok (env_call opr fresh cb s)"
  by (cases opr) (auto simp: env_call_defs intro: env_submit_pools split: option.splits)

lemma ctx_free_accounted:
  assumes "ctxp.accounted p ((case ctx of PoolSlot i \<Rightarrow> [i] | HeapBlock _ \<Rightarrow> []) @ live)"
  shows "ctxp.accounted (ctx_pool_free (Some ctx) p) live"
proof (cases ctx)
  case (PoolSlot i)
  then have "ctxp.accounted (ctx_push i p) live" using ctxp.accounted_step(2) [of p "i # live" i] assms by simp
  then show ?thesis by (simp add: ctx_push_def PoolSlot)
next
  case (HeapBlock n)
  then show ?thesis using assms by (simp add: ctx_pool_free_def)
qed

lemma ctx_free_length: "length (cp_free_list (ctx_pool_free ptr p)) = length (cp_free_list p)"
  by (simp add: ctx_pool_free_def split: option.splits ctx_ptr.splits)

lemma env_done_pools:
  assumes "env_pools_ok s" "n < length (se_flights s)"
  shows "env_pools_ok (on_blob_complete (se_flights s ! n) status result
           (s\<lparr>se_flights := take n (se_flights s) @ drop (Suc n) (se_flights s)\<rparr>))"
proof -
  let ?r = "se_flights s ! n" and ?rest = "take n (se_flights s) @ drop (Suc n) (se_flights s)"
  let ?k = "blob_kind_of (br_call ?r)"
  have fs: "pool_slots k (se_flights s) = pool_slots k (take n (se_flights s)) @ pool_slots k [?r] @ pool_slots k (drop (Suc n) (se_flights s))" for k
    by (subst id_take_nth_drop [OF assms(2)]) (simp flip: pool_slots_append)
  have acc: "ctxp.accounted (se_pools s k) (pool_slots k [?r] @ pool_slots k ?rest)" for k
    using assms(1) ctxp.accounted_perm [of "pool_slots k (se_flights s)" "pool_slots k [?r] @ pool_slots k ?rest" "se_pools s k"]
    by (simp add: env_pools_ok_def fs)
  have own: "pool_slots ?k [?r] = (case br_ctx ?r of PoolSlot i \<Rightarrow> [i] | HeapBlock _ \<Rightarrow> [])"
    by (simp add: pool_slots_def split: ctx_ptr.splits)
  have other: "pool_slots k [?r] = []" if "k \<noteq> ?k" for k using that by (simp add: pool_slots_def split: ctx_ptr.splits)
  have "ctxp.accounted (ctx_pool_free (Some (br_ctx ?r)) (se_pools s ?k)) (pool_slots ?k ?rest)"
    using acc [of ?k] own by (intro ctx_free_accounted) simp
  moreover have "ctxp.accounted (se_pools s k) (pool_slots k ?rest)" if "k \<noteq> ?k" for k using acc [of k] other [OF that] by simp
  moreover have "length (cp_free_list (se_pools s k)) = blob_pool_size k" for k using assms(1) by (simp add: env_pools_ok_def)
  ultimately show ?thesis
    unfolding env_pools_ok_def on_blob_complete_def Let_def env_answer_def by (auto simp: ctx_free_length)
qed

lemma env_submit_account: "env_account (env_submit fresh call cb s) = add_mset cb (env_account s)"
proof -
  obtain ctx q where "ctx_pool_alloc fresh (se_pools s (blob_kind_of call)) = (ctx, q)" by fastforce
  then show ?thesis by (simp add: env_account_def env_submit_def Let_def)
qed

lemma env_answer_account: "env_account (env_answer r s) = add_mset (answer_cb r) (env_account s)"
  by (simp add: env_account_def env_answer_def)

lemma answer_cb_answered: "answer_cb (blob_answered call cb status result) = cb"
  by (simp add: blob_answered_def Let_def split: blob_kind.splits)

lemma env_done_account:
  assumes "n < length (se_flights s)"
  shows "env_account (on_blob_complete (se_flights s ! n) status result
           (s\<lparr>se_flights := take n (se_flights s) @ drop (Suc n) (se_flights s)\<rparr>)) = env_account s"
proof -
  have "mset (map br_cb (se_flights s)) = add_mset (br_cb (se_flights s ! n)) (mset (map br_cb (take n (se_flights s) @ drop (Suc n) (se_flights s))))"
    by (subst id_take_nth_drop [OF assms]) simp
  then show ?thesis
    by (simp add: on_blob_complete_def Let_def env_answer_account answer_cb_answered) (simp add: env_account_def)
qed

text \<open>Neither initialisation nor clean-up touch the blob operations.\<close>

lemma env_lifecycle_keeps_blobs:
  "env_initialize ans opts s = Some (ok, s') \<Longrightarrow> se_flights s' = se_flights s \<and> se_pools s' = se_pools s \<and> se_answers s' = se_answers s"
  "env_cleanup unloaded s = Some s' \<Longrightarrow> se_flights s' = se_flights s \<and> se_pools s' = se_pools s \<and> se_answers s' = se_answers s"
  by (auto simp: env_initialize_def env_open_bdev_def env_load_blobstore_def wait_done_eq env_traced_def env_fini_def
      env_close_fini_def Let_def split: if_splits prod.splits option.splits)
    (auto simp: env_cleanup_def env_unload_def wait_done_eq env_traced_def env_fini_def Let_def split: if_splits)

lemma env_step_blobs:
  assumes "env_pools_ok s" "env_step ev s = Some s'"
  shows "env_pools_ok s' \<and> env_account s' = mset (env_called ev) + env_account s"
proof (cases ev)
  case (EnvInit ans opts)
  then obtain ok where "env_initialize ans opts s = Some (ok, s')" using assms(2) by auto
  from env_lifecycle_keeps_blobs(1) [OF this] show ?thesis using EnvInit assms(1) by (simp add: env_pools_ok_def env_account_def)
next
  case (EnvCleanup unloaded)
  then have "env_cleanup unloaded s = Some s'" using assms(2) by simp
  from env_lifecycle_keeps_blobs(2) [OF this] show ?thesis using EnvCleanup assms(1) by (simp add: env_pools_ok_def env_account_def)
next
  case (EnvPolling on)
  then show ?thesis using assms by (auto simp: env_set_polling_def env_pools_ok_def env_account_def)
next
  case (EnvCall opr fresh cb)
  then have s': "s' = env_call opr fresh cb s" using assms(2) by simp
  have "env_account s' = add_mset cb (env_account s)"
    unfolding s' by (cases opr) (simp_all add: env_call_defs env_submit_account env_answer_account split: option.splits)
  then show ?thesis using EnvCall env_call_pools [OF assms(1)] s' by simp
next
  case (EnvDone n status result)
  then show ?thesis using assms env_done_pools [OF assms(1), of n] env_done_account [of n s] by (auto split: if_splits)
qed

lemma env_run_blobs:
  "env_run evs s = Some s' \<Longrightarrow> env_pools_ok s \<Longrightarrow>
     env_pools_ok s' \<and> env_account s' = mset (concat (map env_called evs)) + env_account s"
proof (induction evs s rule: env_run.induct)
  case (2 ev evs s)
  then obtain s1 where s1: "env_step ev s = Some s1" "env_run evs s1 = Some s'" by (auto split: option.splits)
  note one = env_step_blobs [OF 2(3) s1(1)]
  from 2(1) [OF s1 conjunct1 [OF one]] one show ?case by (simp add: ac_simps)
qed simp

lemma env_new_pools: "env_pools_ok env_new"
  by (auto simp: env_pools_ok_def env_new_def pool_slots_def ctxp.accounted_def ctx_pool_wf_def ctx_pool_new_def
      ctx_free_slots_def ctx_slots_def)

text \<open>C13: However calls, completions in any order, initialisations and clean-ups follow each other, every blob
  operation is either at the blob store or was answered, once; the contexts of one operation that are in use
  are distinct slots of its pool, and the pool loses none.\<close>

theorem blob_operations_answered_once:
  assumes "env_run evs env_new = Some s"
  shows "mset (map answer_cb (se_answers s)) + mset (map br_cb (se_flights s)) = mset (concat (map env_called evs))
     \<and> distinct (pool_slots k (se_flights s))
     \<and> length (pool_slots k (se_flights s)) + ctx_pool_available (se_pools s k) = blob_pool_size k"
proof -
  note run = env_run_blobs [OF assms env_new_pools]
  have "env_account env_new = {#}" by (simp add: env_account_def env_new_def)
  then have "mset (map answer_cb (se_answers s)) + mset (map br_cb (se_flights s)) = mset (concat (map env_called evs))"
    using run by (simp add: env_account_def)
  moreover have acc: "ctxp.accounted (se_pools s k) (pool_slots k (se_flights s))"
    "length (cp_free_list (se_pools s k)) = blob_pool_size k" using run by (simp_all add: env_pools_ok_def)
  ultimately show ?thesis
    using ctxp.accounted_exclusive [OF acc(1)] ctx_accounted_length [OF acc(1)] by (simp add: ctx_pool_available_def)
qed

section \<open>A concrete run\<close>

definition demo_answers :: spdk_answers where
  "demo_answers = \<lparr>an_env_init = (\<lambda>_. 0), an_bdev = (\<lambda>_. Some 1), an_bdev_open = (0, 2), an_bs_dev = (0, Some 3),
     an_bs_load = Some (Some 4, 0), an_channel = Some 5\<rparr>"

definition demo_env_opts :: env_opts where
  "demo_env_opts = \<lparr>eo_name = ''spdk_kv'', eo_bdev_name = ''Nvme0n1'', eo_shm_id = 0, eo_mem_size = 0, eo_no_pci = False\<rparr>"

definition demo_env_events :: "env_event list" where
  "demo_env_events = [EnvInit demo_answers demo_env_opts, EnvCall (OpOpen 9) 0 7, EnvCall (OpClose None) 0 8, EnvDone 0 0 70, EnvCleanup True]"

lemma demo_env_run: "\<exists>s. env_run demo_env_events env_new = Some s \<and> se_answers s = [AnsStatus 8 (-1), AnsBlob 7 (Some 70)]
    \<and> se_flights s = [] \<and> se_initialized s = False"
  by (simp add: demo_env_events_def env_initialize_def env_open_bdev_def env_load_blobstore_def wait_done_eq demo_answers_def
      demo_env_opts_def env_cleanup_def env_unload_def env_call_defs env_submit_def env_answer_def on_blob_complete_def
      blob_answered_def env_traced_def env_fini_def env_new_def ctx_pool_alloc_def ctx_pool_new_def Let_def)

theorem env_resources_nested_witness:
  "\<exists>s. env_run demo_env_events env_new = Some s \<and> spdk_held (se_trace s) [] = Some []"
proof -
  obtain s where s: "env_run demo_env_events env_new = Some s" "se_initialized s = False" using demo_env_run by blast
  with env_resources_nested [OF s(1)] show ?thesis by (auto simp: env_holds_def)
qed

theorem env_poll_processes_nothing_witness:
  "\<exists>s. env_run demo_env_events env_new = Some s \<and> env_process_completions (\<lambda>_ _. 1) 32 s = 0"
proof -
  obtain s where s: "env_run demo_env_events env_new = Some s" using demo_env_run by blast
  with env_poll_processes_nothing [OF s] show ?thesis by blast
qed

theorem blob_operations_answered_once_witness:
  "\<exists>s. env_run demo_env_events env_new = Some s \<and> mset (map answer_cb (se_answers s)) = {#7, 8#}
     \<and> ctx_pool_available (se_pools s KindOpen) = 16"
proof -
  obtain s where s: "env_run demo_env_events env_new = Some s" "se_flights s = []" using demo_env_run by blast
  with blob_operations_answered_once [OF s(1), of KindOpen] show ?thesis
    by (auto simp: pool_slots_def demo_env_events_def)
qed

end
