(* ===== verification/KvSubmitter.thy ===== *)
theory KvSubmitter
  imports KvEnv KvAppendBuffer
begin

text \<open>
  The batch submitter of \<^verbatim>\<open>src/io_submitter.cpp\<close>: writes are queued, sent to the blob store in one batch
  and completed in any order; reads are sent at once. A buffer is its number, its contents are those at
  the time of the batch. Of a write context only the blob is looked at.
\<close>

section \<open>State\<close>

record write_context =
  wc_key :: u64
  wc_sequence :: u32
  wc_buffer_offset :: u32
  wc_aligned_size :: u32
  wc_flags :: u8
  wc_blob :: "u64 option"

definition wc_is_compaction :: "write_context \<Rightarrow> bool" where
  "wc_is_compaction c \<longleftrightarrow> wc_flags c AND 1 \<noteq> 0"

record queued_batch_write =
  qb_buffer :: "nat option"
  qb_offset :: u64
  qb_contexts :: "write_context list"
  qb_cb :: nat

text \<open>A request at the blob store, offset and length in units of the device. The buffer of a read is that of
  the caller.\<close>

record unit_io =
  ui_blob :: u64
  ui_buffer :: nat
  ui_offset_units :: u64
  ui_length_units :: u64
  ui_read :: bool
  ui_ctx :: ctx_ptr
  ui_cb :: nat

record io_submitter =
  su_ctrlr :: "u64 option"
  su_ns :: "u64 option"
  su_qpair :: "u64 option"
  su_blobstore :: "u64 option"
  su_channel :: "u64 option"
  su_pending :: "queued_batch_write list"
  su_read_pool :: ctx_pool
  su_write_pool :: ctx_pool
  su_flights :: "unit_io list"
  su_replies :: "(nat \<times> int) list"
  su_freed :: "spdk_resource list"

definition submitter_new :: io_submitter where
  "submitter_new = \<lparr>su_ctrlr = None, su_ns = None, su_qpair = None, su_blobstore = None, su_channel = None, su_pending = [],
     su_read_pool = ctx_pool_new 64, su_write_pool = ctx_pool_new 32, su_flights = [], su_replies = [], su_freed = []\<rparr>"

section \<open>Initialisation\<close>

text \<open>\<open>qpair\<close> and \<open>channel\<close> are what SPDK allocates.\<close>

definition submitter_initialize ::
    "u64 option \<Rightarrow> u64 option \<Rightarrow> u64 option \<Rightarrow> u64 option \<Rightarrow> u64 option \<Rightarrow> io_submitter \<Rightarrow> bool \<times> io_submitter" where
  "submitter_initialize ctrlr ns blobstore qpair channel s =
     (let s = s\<lparr>su_ctrlr := ctrlr, su_ns := ns, su_blobstore := blobstore, su_qpair := qpair\<rparr>
      in if qpair = None then (False, s)
         else (let s = s\<lparr>su_channel := channel\<rparr>
               in if channel = None then (False, s\<lparr>su_qpair := None, su_freed := su_freed s @ [ResQpair]\<rparr>) else (True, s)))"

definition submitter_destroy :: "io_submitter \<Rightarrow> spdk_resource list" where
  "submitter_destroy s =
     su_freed s @ (if su_qpair s = None then [] else [ResQpair]) @ (if su_channel s = None then [] else [ResChannel])"

section \<open>Requests\<close>

definition su_reply :: "nat \<Rightarrow> int \<Rightarrow> io_submitter \<Rightarrow> io_submitter" where
  "su_reply cb status s = s\<lparr>su_replies := su_replies s @ [(cb, status)]\<rparr>"

definition su_submit_write :: "nat option \<Rightarrow> u64 \<Rightarrow> write_context list \<Rightarrow> nat \<Rightarrow> io_submitter \<Rightarrow> io_submitter" where
  "su_submit_write buffer file_offset contexts cb s =
     s\<lparr>su_pending := su_pending s @ [\<lparr>qb_buffer = buffer, qb_offset = file_offset, qb_contexts = contexts, qb_cb = cb\<rparr>]\<rparr>"

definition su_submit_blob_read :: "u64 \<Rightarrow> nat \<Rightarrow> u64 option \<Rightarrow> u64 \<Rightarrow> u32 \<Rightarrow> nat \<Rightarrow> nat \<Rightarrow> io_submitter \<Rightarrow> io_submitter" where
  "su_submit_blob_read io_unit fresh blob offset pages buffer cb s =
     (if blob = None \<or> su_channel s = None \<or> su_blobstore s = None then su_reply cb (-1) s
      else (case ctx_pool_alloc fresh (su_read_pool s) of (ctx, p) \<Rightarrow>
              s\<lparr>su_read_pool := p,
                su_flights := su_flights s @ [\<lparr>ui_blob = the blob, ui_buffer = buffer, ui_offset_units = offset div io_unit,
                  ui_length_units = (ucast pages * kPageSize) div io_unit, ui_read = True, ui_ctx = ctx, ui_cb = cb\<rparr>]\<rparr>))"

text \<open>One write of the batch: it needs a context with a blob, and a buffer.\<close>

definition su_sendable :: "queued_batch_write \<Rightarrow> bool" where
  "su_sendable w \<longleftrightarrow> qb_contexts w \<noteq> [] \<and> wc_blob (hd (qb_contexts w)) \<noteq> None \<and> qb_buffer w \<noteq> None"

definition submit_pending_write :: "u64 \<Rightarrow> (nat \<Rightarrow> append_buffer) \<Rightarrow> nat \<Rightarrow> queued_batch_write \<Rightarrow> io_submitter \<Rightarrow> io_submitter" where
  "submit_pending_write io_unit bufs fresh w s =
     (if su_sendable w
      then (case ctx_pool_alloc fresh (su_write_pool s) of (ctx, p) \<Rightarrow>
              s\<lparr>su_write_pool := p,
                su_flights := su_flights s @ [\<lparr>ui_blob = the (wc_blob (hd (qb_contexts w))), ui_buffer = the (qb_buffer w),
                  ui_offset_units = qb_offset w div io_unit,
                  ui_length_units = bf_used (bufs (the (qb_buffer w))) div io_unit,
                  ui_read = False, ui_ctx = ctx, ui_cb = qb_cb w\<rparr>]\<rparr>)
      else su_reply (qb_cb w) (-1) s)"

fun submit_loop :: "u64 \<Rightarrow> (nat \<Rightarrow> append_buffer) \<Rightarrow> nat \<Rightarrow> queued_batch_write list \<Rightarrow> io_submitter \<Rightarrow> io_submitter" where
  "submit_loop io_unit bufs fresh [] s = s\<lparr>su_pending := []\<rparr>"
| "submit_loop io_unit bufs fresh (w # ws) s =
     submit_loop io_unit bufs (Suc fresh) ws (submit_pending_write io_unit bufs fresh w (s\<lparr>su_pending := ws\<rparr>))"

definition submit_batch :: "u64 \<Rightarrow> (nat \<Rightarrow> append_buffer) \<Rightarrow> nat \<Rightarrow> io_submitter \<Rightarrow> io_submitter" where
  "submit_batch io_unit bufs fresh s =
     (if su_pending s = [] \<or> su_channel s = None then s else submit_loop io_unit bufs fresh (su_pending s) s)"

definition flush_pending_writes :: "u64 \<Rightarrow> (nat \<Rightarrow> append_buffer) \<Rightarrow> nat \<Rightarrow> io_submitter \<Rightarrow> io_submitter" where
  "flush_pending_writes io_unit bufs fresh s = submit_batch io_unit bufs fresh s"

definition pending_write_count :: "io_submitter \<Rightarrow> nat" where
  "pending_write_count s = length (su_pending s)"

definition has_pending_io :: "io_submitter \<Rightarrow> bool" where
  "has_pending_io s \<longleftrightarrow> su_pending s \<noteq> []"

section \<open>Completions\<close>

text \<open>\<open>process\<close> is \<^verbatim>\<open>spdk_nvme_qpair_process_completions\<close>.\<close>

definition su_process_completions :: "(u64 \<Rightarrow> nat \<Rightarrow> int) \<Rightarrow> nat \<Rightarrow> io_submitter \<Rightarrow> u64" where
  "su_process_completions process max_completions s =
     (case su_qpair s of None \<Rightarrow> 0 | Some q \<Rightarrow> word_of_int (process q max_completions))"

definition on_unit_io_complete :: "unit_io \<Rightarrow> int \<Rightarrow> io_submitter \<Rightarrow> io_submitter" where
  "on_unit_io_complete io status s =
     su_reply (ui_cb io) status
       (if ui_read io then s\<lparr>su_read_pool := ctx_pool_free (Some (ui_ctx io)) (su_read_pool s)\<rparr>
        else s\<lparr>su_write_pool := ctx_pool_free (Some (ui_ctx io)) (su_write_pool s)\<rparr>)"

section \<open>Runs\<close>

datatype su_event =
    SuWrite "nat option" u64 "write_context list" nat
  | SuRead u64 nat "u64 option" u64 u32 nat nat
  | SuFlush u64 "nat \<Rightarrow> append_buffer" nat
  | SuDone nat int

fun su_step :: "su_event \<Rightarrow> io_submitter \<Rightarrow> io_submitter" where
  "su_step (SuWrite buffer off contexts cb) s = su_submit_write buffer off contexts cb s"
| "su_step (SuRead io_unit fresh blob off pages buffer cb) s = su_submit_blob_read io_unit fresh blob off pages buffer cb s"
| "su_step (SuFlush io_unit bufs fresh) s = flush_pending_writes io_unit bufs fresh s"
| "su_step (SuDone n status) s =
     (if n < length (su_flights s)
      then on_unit_io_complete (su_flights s ! n) status (s\<lparr>su_flights := take n (su_flights s) @ drop (Suc n) (su_flights s)\<rparr>)
      else s)"

section \<open>A batch\<close>

text \<open>What a write looks like to the device, without its context.\<close>

definition unit_view :: "unit_io \<Rightarrow> u64 \<times> nat \<times> u64 \<times> u64 \<times> bool \<times> nat" where
  "unit_view io = (ui_blob io, ui_buffer io, ui_offset_units io, ui_length_units io, ui_read io, ui_cb io)"

definition batch_view :: "u64 \<Rightarrow> (nat \<Rightarrow> append_buffer) \<Rightarrow> queued_batch_write \<Rightarrow> u64 \<times> nat \<times> u64 \<times> u64 \<times> bool \<times> nat" where
  "batch_view io_unit bufs w =
     (the (wc_blob (hd (qb_contexts w))), the (qb_buffer w), qb_offset w div io_unit,
      bf_used (bufs (the (qb_buffer w))) div io_unit, False, qb_cb w)"

lemma submit_pending_effect:
  "map unit_view (su_flights (submit_pending_write io_unit bufs fresh w s))
     = map unit_view (su_flights s) @ (if su_sendable w then [batch_view io_unit bufs w] else [])"
  "su_replies (submit_pending_write io_unit bufs fresh w s) = su_replies s @ (if su_sendable w then [] else [(qb_cb w, -1)])"
  by (simp_all add: submit_pending_write_def su_reply_def unit_view_def batch_view_def split: prod.splits)

lemma submit_loop_effect:
  "map unit_view (su_flights (submit_loop io_unit bufs fresh ws s))
     = map unit_view (su_flights s) @ map (batch_view io_unit bufs) (filter su_sendable ws)
   \<and> su_replies (submit_loop io_unit bufs fresh ws s) = su_replies s @ map (\<lambda>w. (qb_cb w, -1)) (filter (\<lambda>w. \<not> su_sendable w) ws)
   \<and> su_pending (submit_loop io_unit bufs fresh ws s) = []"
  by (induction io_unit bufs fresh ws s rule: submit_loop.induct) (simp_all add: submit_pending_effect)

text \<open>C33: A flush empties the queue: the writes that have a blob and a buffer go to the blob store in the order
  they were submitted in, each with its place and length in units of the device; the others are
  answered with -1, in order.\<close>

theorem batch_sent_in_order:
  assumes "su_channel s \<noteq> None" "s' = flush_pending_writes io_unit bufs fresh s"
  shows "su_pending s' = []
     \<and> map unit_view (su_flights s') = map unit_view (su_flights s) @ map (batch_view io_unit bufs) (filter su_sendable (su_pending s))
     \<and> su_replies s' = su_replies s @ map (\<lambda>w. (qb_cb w, -1)) (filter (\<lambda>w. \<not> su_sendable w) (su_pending s))"
  using assms submit_loop_effect [of io_unit bufs fresh "su_pending s" s]
  by (cases "su_pending s = []") (simp_all add: flush_pending_writes_def submit_batch_def)

section \<open>Answers\<close>

fun su_called :: "su_event \<Rightarrow> nat list" where
  "su_called (SuWrite _ _ _ cb) = [cb]"
| "su_called (SuRead _ _ _ _ _ _ cb) = [cb]"
| "su_called _ = []"

definition su_account :: "io_submitter \<Rightarrow> nat multiset" where
  "su_account s = mset (map fst (su_replies s)) + mset (map ui_cb (su_flights s)) + mset (map qb_cb (su_pending s))"

lemma submit_pending_account:
  "su_account (submit_pending_write io_unit bufs fresh w s) = add_mset (qb_cb w) (su_account s)"
  by (simp add: submit_pending_write_def su_reply_def su_account_def split: prod.splits)

lemma submit_loop_account:
  "su_account (submit_loop io_unit bufs fresh ws s) = mset (map qb_cb ws) + su_account (s\<lparr>su_pending := []\<rparr>)"
proof (induction io_unit bufs fresh ws s rule: submit_loop.induct)
  case (2 io_unit bufs fresh w ws s)
  have "su_account ((submit_pending_write io_unit bufs fresh w t)\<lparr>su_pending := []\<rparr>)
      = su_account (submit_pending_write io_unit bufs fresh w (t\<lparr>su_pending := []\<rparr>))" for t
    by (simp add: submit_pending_write_def su_reply_def su_account_def split: prod.splits)
  with 2 show ?case by (simp add: submit_pending_account)
qed simp

lemma su_step_account: "su_account (su_step ev s) = mset (su_called ev) + su_account s"
proof (cases ev)
  case (SuFlush io_unit bufs fresh)
  show ?thesis
    using submit_loop_account [of io_unit bufs fresh "su_pending s" s]
    by (simp add: SuFlush flush_pending_writes_def submit_batch_def) (simp add: su_account_def ac_simps)
next
  case (SuDone n status)
  show ?thesis
  proof (cases "n < length (su_flights s)")
    case True
    have "mset (map ui_cb (su_flights s)) = add_mset (ui_cb (su_flights s ! n)) (mset (map ui_cb (take n (su_flights s) @ drop (Suc n) (su_flights s))))"
      by (subst id_take_nth_drop [OF True]) simp
    then show ?thesis using True by (simp add: SuDone on_unit_io_complete_def su_reply_def su_account_def)
  qed (simp add: SuDone)
qed (simp_all add: su_submit_write_def su_submit_blob_read_def su_reply_def su_account_def split: prod.splits)

text \<open>Every write and read of the submitter is answered once, or is queued, or is at the blob store.\<close>

theorem submitter_answers_once:
  "su_account (fold su_step evs submitter_new) = mset (concat (map su_called evs))"
proof -
  have "su_account (fold su_step evs s) = mset (concat (map su_called evs)) + su_account s" for s
    by (induction evs arbitrary: s) (simp_all add: su_step_account ac_simps)
  moreover have "su_account submitter_new = {#}" by (simp add: su_account_def submitter_new_def)
  ultimately show ?thesis by simp
qed

definition demo_submitter :: io_submitter where
  "demo_submitter = fold su_step [SuWrite (Some 0) 8192 [\<lparr>wc_key = 5, wc_sequence = 1, wc_buffer_offset = 0, wc_aligned_size = 4096,
      wc_flags = 0, wc_blob = Some 77\<rparr>] 1, SuWrite None 0 [] 2]
    (snd (submitter_initialize None None (Some 4) (Some 6) (Some 5) submitter_new))"

theorem batch_sent_in_order_witness:
  "map unit_view (su_flights (flush_pending_writes 512 (\<lambda>_. (append_buffer_new [] 65536)\<lparr>bf_used := 4096\<rparr>) 0 demo_submitter))
     = [(77, 0, 16, 8, False, 1)]"
proof -
  have "su_channel demo_submitter \<noteq> None"
    by (simp add: demo_submitter_def submitter_initialize_def su_submit_write_def)
  from batch_sent_in_order [OF this refl] show ?thesis
    by (simp add: demo_submitter_def submitter_initialize_def su_submit_write_def submitter_new_def su_sendable_def batch_view_def)
qed

end
