(* ===== verification/KvHugePages.thy ===== *)
theory KvHugePages
  imports KvIndexStore KvPools
begin

text \<open>
  The memory of the index and of the DMA pools: the fallback chains of
  \<^verbatim>\<open>include/spdk_kv/huge_page_allocator.h\<close> and \<^verbatim>\<open>dma_memory_pool.h\<close>, the warm-up of fresh memory, the
  constructor of the index that uses them, and which allocator the memory is given back to. A region is the
  function from its offsets to its bytes. NUMA binding and CPU affinity change no contents.
\<close>

unbundle bit_operations_syntax

section \<open>Huge pages\<close>

datatype warmup_mode = WarmupSync | WarmupAsync | WarmupLazy | WarmupOnLoad

datatype alloc_method = Hugepage1G | SpdkHugepage | Spdk4K | AlignedAlloc

type_synonym region = "nat \<Rightarrow> byte"

text \<open>What the kernel and the allocators answer: whether a mapping of a length succeeds, and the
  contents of the memory a call returns. An anonymous mapping is filled with zeros.\<close>

record page_answers =
  pa_mmap_1g :: "u64 \<Rightarrow> bool"
  pa_mmap_2m :: "u64 \<Rightarrow> bool"
  pa_spdk_1g :: "region option"
  pa_spdk_4k :: "region option"
  pa_aligned :: "region option"

definition kHugePage1G :: u64 where
  "kHugePage1G = 2 ^ 30"

definition align_1g :: "u64 \<Rightarrow> u64" where
  "align_1g sz = (sz + kHugePage1G - 1) AND NOT (kHugePage1G - 1)"

definition zero_below :: "nat \<Rightarrow> region \<Rightarrow> region" where
  "zero_below n mem = (\<lambda>i. if i < n then 0 else mem i)"

text \<open>The chunks the warm-up thread sets to zero, one after the other, after the allocation has returned.\<close>

definition warmup_chunks :: "nat \<Rightarrow> (nat \<times> nat) list" where
  "warmup_chunks n = map (\<lambda>i. (i * 2 ^ 30, min (2 ^ 30) (n - i * 2 ^ 30))) [0..<(n + 2 ^ 30 - 1) div 2 ^ 30]"

definition apply_warmup :: "warmup_mode \<Rightarrow> u64 \<Rightarrow> region \<Rightarrow> region \<times> (nat \<times> nat) list" where
  "apply_warmup warmup sz mem =
     (case warmup of WarmupSync \<Rightarrow> (zero_below (unat sz) mem, [])
      | WarmupAsync \<Rightarrow> (mem, warmup_chunks (unat sz))
      | WarmupLazy \<Rightarrow> (mem, [])
      | WarmupOnLoad \<Rightarrow> (mem, []))"

definition alloc_1g_hugepage :: "page_answers \<Rightarrow> u64 \<Rightarrow> warmup_mode \<Rightarrow> (region \<times> (nat \<times> nat) list) option" where
  "alloc_1g_hugepage ans sz warmup =
     (let aligned = align_1g sz in
      if pa_mmap_1g ans aligned \<or> pa_mmap_2m ans aligned then Some (apply_warmup warmup aligned (\<lambda>_. 0)) else None)"

definition alloc_spdk_hugepage :: "page_answers \<Rightarrow> u64 \<Rightarrow> region option" where
  "alloc_spdk_hugepage ans sz = map_option (zero_below (unat sz)) (pa_spdk_1g ans)"

text \<open>\<^verbatim>\<open>AllocResult\<close> with the chunks of the warm-up. The size is the one asked for.\<close>

record alloc_result =
  ar_region :: "region option"
  ar_size :: u64
  ar_method :: alloc_method
  ar_warmup :: "(nat \<times> nat) list"

definition allocate_index_memory :: "page_answers \<Rightarrow> u64 \<Rightarrow> warmup_mode \<Rightarrow> alloc_result" where
  "allocate_index_memory ans sz warmup =
     (case alloc_1g_hugepage ans sz warmup of
        Some (mem, chunks) \<Rightarrow> \<lparr>ar_region = Some mem, ar_size = sz, ar_method = Hugepage1G, ar_warmup = chunks\<rparr>
      | None \<Rightarrow> (case alloc_spdk_hugepage ans sz of
          Some mem \<Rightarrow> \<lparr>ar_region = Some mem, ar_size = sz, ar_method = SpdkHugepage, ar_warmup = []\<rparr>
        | None \<Rightarrow> (case pa_spdk_4k ans of
            Some mem \<Rightarrow> \<lparr>ar_region = Some mem, ar_size = sz, ar_method = Spdk4K, ar_warmup = []\<rparr>
          | None \<Rightarrow> (case pa_aligned ans of
              Some mem \<Rightarrow> \<lparr>ar_region = Some (zero_below (unat sz) mem), ar_size = sz, ar_method = AlignedAlloc, ar_warmup = []\<rparr>
            | None \<Rightarrow> \<lparr>ar_region = None, ar_size = sz, ar_method = Hugepage1G, ar_warmup = []\<rparr>))))"

text \<open>Who the memory is given back to.\<close>

datatype dealloc = Munmap u64 | SpdkDmaFree | StdFree

definition free_hugepage :: "u64 \<Rightarrow> dealloc" where
  "free_hugepage sz = Munmap (align_1g sz)"

definition free_index_memory :: "u64 \<Rightarrow> alloc_method \<Rightarrow> dealloc" where
  "free_index_memory sz method =
     (case method of Hugepage1G \<Rightarrow> free_hugepage sz | SpdkHugepage \<Rightarrow> SpdkDmaFree | Spdk4K \<Rightarrow> SpdkDmaFree | AlignedAlloc \<Rightarrow> StdFree)"

section \<open>The index on huge pages\<close>

text \<open>One region holds the entries, 20 bytes each, and behind them the probe lengths. Nothing is written to it.\<close>

definition mem_index_total :: "u64 \<Rightarrow> u64" where
  "mem_index_total c = c * 20 + c"

definition mi_of_region :: "region \<Rightarrow> mem_index \<Rightarrow> mem_index" where
  "mi_of_region mem m =
     m\<lparr>mi_entries := map (\<lambda>i. mem_index_entry_at (map mem [20 * i..<20 * i + 20]) 0) [0..<unat (mi_capacity m)],
       mi_psl := map (\<lambda>i. mem (unat (mi_capacity m * 20) + i)) [0..<unat (mi_capacity m)]\<rparr>"

definition mem_index_numa :: "u64 \<Rightarrow> page_answers \<Rightarrow> warmup_mode \<Rightarrow> mem_index \<times> alloc_result" where
  "mem_index_numa slots ans warmup =
     (let m = mem_index_new slots False;
          result = allocate_index_memory ans (mem_index_total (mi_capacity m)) warmup
      in case ar_region result of None \<Rightarrow> (m, result)
         | Some mem \<Rightarrow> (mi_of_region mem (m\<lparr>mi_mapped := True\<rparr>), result))"

text \<open>What the region holds while the index is in use, and a chunk of the warm-up.\<close>

definition mi_region :: "mem_index \<Rightarrow> region" where
  "mi_region m = (\<lambda>i. let bytes = concat (map mem_index_entry_bytes (mi_entries m)) @ mi_psl m
                      in if i < length bytes then bytes ! i else 0)"

definition warm_chunk :: "nat \<times> nat \<Rightarrow> mem_index \<Rightarrow> mem_index" where
  "warm_chunk chunk m =
     mi_of_region (\<lambda>i. if fst chunk \<le> i \<and> i < fst chunk + snd chunk then 0 else mi_region m i) m"

section \<open>The memory of the DMA pools\<close>

text \<open>The addresses the three attempts return, 0 for none.\<close>

record dma_answers =
  da_numa :: u64
  da_spdk :: u64
  da_aligned :: u64

definition dma_pool_construct :: "dma_answers \<Rightarrow> u64 \<Rightarrow> nat \<Rightarrow> dma_pool" where
  "dma_pool_construct ans block_size block_count =
     dma_pool_new (if da_numa ans \<noteq> 0 then da_numa ans else if da_spdk ans \<noteq> 0 then da_spdk ans else da_aligned ans)
       block_size block_count"

text \<open>The allocator the memory came from, and the one the destructor gives it back to.\<close>

definition dma_pool_origin :: "dma_answers \<Rightarrow> dealloc" where
  "dma_pool_origin ans = (if da_numa ans \<noteq> 0 \<or> da_spdk ans \<noteq> 0 then SpdkDmaFree else StdFree)"

definition dma_pool_destroy :: "dma_pool \<Rightarrow> dealloc option" where
  "dma_pool_destroy p = (if dp_base p \<noteq> 0 then Some SpdkDmaFree else None)"

record memory_pools =
  mp_append :: dma_pool
  mp_read :: dma_pool
  mp_small :: dma_pool

definition memory_pools_new :: "dma_answers \<Rightarrow> dma_answers \<Rightarrow> dma_answers \<Rightarrow> memory_pools" where
  "memory_pools_new a r s =
     \<lparr>mp_append = dma_pool_construct a (2 * 1024 * 1024) 4, mp_read = dma_pool_construct r (64 * 1024) 256,
      mp_small = dma_pool_construct s (4 * 1024) 1024\<rparr>"

definition memory_pools_valid :: "memory_pools \<Rightarrow> bool" where
  "memory_pools_valid p \<longleftrightarrow> dma_pool_is_valid (mp_append p) \<and> dma_pool_is_valid (mp_read p) \<and> dma_pool_is_valid (mp_small p)"

lemma dma_pool_origin_lost:
  assumes "da_numa ans = 0" "da_spdk ans = 0" "da_aligned ans \<noteq> 0"
  shows "dma_pool_origin ans = StdFree \<and> dma_pool_destroy (dma_pool_construct ans bs n) = Some SpdkDmaFree"
  using assms by (simp add: dma_pool_origin_def dma_pool_destroy_def dma_pool_construct_def dma_pool_new_def)

section \<open>A fresh index\<close>

lemma mem_index_entry_at_zeros: "mem_index_entry_at (map (\<lambda>_. 0) [n..<n + 20]) 0 = me_zero"
proof -
  have "map (\<lambda>_. 0 :: byte) [n..<n + 20] = replicate 20 0" by (simp add: map_replicate_const)
  then show ?thesis
    by (simp add: mem_index_entry_at_def me_zero_def get_u64_def get_u32_def get_u16_def get_u8_def slice_def le_nat_zeros)
qed

lemma mi_of_zero_region:
  assumes "\<And>i. i < 21 * unat (mi_capacity m) \<Longrightarrow> mem i = 0" "21 * unat (mi_capacity m) < 2 ^ 64"
  shows "mi_of_region mem m = m\<lparr>mi_entries := replicate (unat (mi_capacity m)) me_zero, mi_psl := replicate (unat (mi_capacity m)) 0\<rparr>"
proof -
  let ?c = "unat (mi_capacity m)"
  have bytes: "unat (mi_capacity m * 20) = ?c * 20" using assms(2) by (simp add: unat_word_ariths)
  have "map mem [20 * i..<20 * i + 20] = map (\<lambda>_. 0) [20 * i..<20 * i + 20]" if "i < ?c" for i
    using that assms(1) by (intro map_cong refl) simp
  then have "map (\<lambda>i. mem_index_entry_at (map mem [20 * i..<20 * i + 20]) 0) [0..<?c] = map (\<lambda>_. me_zero) [0..<?c]"
    by (intro map_cong refl) (simp only: mem_index_entry_at_zeros atLeast0LessThan set_upt lessThan_iff)
  moreover have "map (\<lambda>i. mem (?c * 20 + i)) [0..<?c] = map (\<lambda>_. 0) [0..<?c]"
    using assms(1) by (intro map_cong refl) simp
  ultimately show ?thesis by (simp add: mi_of_region_def bytes map_replicate_const)
qed

text \<open>The constructor with huge pages makes the same index as the one without, unless the memory came from
  the third attempt.\<close>

theorem numa_index_is_fresh:
  assumes "mem_index_numa slots ans warmup = (m, result)" "ar_method result \<noteq> Spdk4K" "21 * unat (next_power_of_2 slots) < 2 ^ 64"
  shows "m = mem_index_new slots (ar_region result \<noteq> None)"
proof -
  let ?m = "mem_index_new slots False" and ?c = "next_power_of_2 slots"
  have c: "mi_capacity ?m = ?c" by (simp add: mem_index_new_def Let_def)
  have total: "unat (mem_index_total ?c) = 21 * unat ?c"
    using assms(3) by (simp add: mem_index_total_def unat_word_ariths)
  have result: "result = allocate_index_memory ans (mem_index_total ?c) warmup"
    using assms(1) by (auto simp: mem_index_numa_def Let_def c split: option.splits)
  show ?thesis
  proof (cases "ar_region result")
    case None
    then show ?thesis using assms(1) by (auto simp: mem_index_numa_def Let_def c result split: option.splits)
  next
    case (Some mem)
    have "mem i = 0" if "i < 21 * unat ?c" for i
      using Some assms(2) that total
      by (auto simp: result allocate_index_memory_def alloc_1g_hugepage_def alloc_spdk_hugepage_def apply_warmup_def zero_below_def
          Let_def split: option.splits if_splits warmup_mode.splits)
    then have "mi_of_region mem (?m\<lparr>mi_mapped := True\<rparr>) = mem_index_new slots True"
      using mi_of_zero_region [of "?m\<lparr>mi_mapped := True\<rparr>" mem] assms(3) by (simp add: mem_index_new_def Let_def)
    then show ?thesis using assms(1) Some by (auto simp: mem_index_numa_def Let_def c result split: option.splits)
  qed
qed

text \<open>Memory of the third attempt is used as it comes. A new index of one slot answers a lookup of key 5 with
  an entry nobody stored, when the bytes happen to be there.\<close>

theorem numa_index_finds_garbage:
  "case mem_index_numa 1 \<lparr>pa_mmap_1g = (\<lambda>_. False), pa_mmap_2m = (\<lambda>_. False), pa_spdk_1g = None,
       pa_spdk_4k = Some (\<lambda>i. if i = 0 then 5 else if i = 18 then 13 else 0), pa_aligned = None\<rparr> WarmupSync of
     (m, result) \<Rightarrow> ar_method result = Spdk4K \<and> mi_size m = 0 \<and> mi_find m 5 = Some 0"
proof -
  let ?mem = "\<lambda>i :: nat. if i = 0 then 5 else if i = 18 then 13 else 0 :: byte"
  have n: "next_power_of_2 1 = 1" by (simp add: next_power_of_2_def)
  have "map ?mem [0..<20] = [5, 0, 0, 0, 0, 0, 0, 0, 0, 0, 0, 0, 0, 0, 0, 0, 0, 0, 13, 0]" by (simp add: upt_rec)
  then have e: "mem_index_entry_at (map ?mem [0..<20]) 0 = me_zero\<lparr>me_key := 5, me_tag := 13\<rparr>"
    by (simp add: mem_index_entry_at_def me_zero_def get_u64_def get_u32_def get_u16_def get_u8_def slice_def)
  show ?thesis
    by (simp add: mem_index_numa_def mem_index_new_def n allocate_index_memory_def alloc_1g_hugepage_def alloc_spdk_hugepage_def
        mi_of_region_def mi_find_def mi_home_def mi_wrap_def find_internal.simps e [simplified] ix_hash ix_tag me_zero_def Let_def)
qed

section \<open>The warm-up of an index in use\<close>

lemma mi_find_zeros:
  assumes "mi_wf m"
  shows "mi_find (m\<lparr>mi_entries := replicate (mi_cap m) me_zero, mi_psl := replicate (mi_cap m) 0\<rparr>) key = None"
proof -
  let ?z = "m\<lparr>mi_entries := replicate (mi_cap m) me_zero, mi_psl := replicate (mi_cap m) 0\<rparr>"
  have wf: "mi_wf ?z" using assms by (simp add: mi_wf_def)
  have slot: "mi_psl ?z ! i = 0" "mi_entries ?z ! i = me_zero" if "i < mi_cap m" for i using that by simp_all
  have home: "unat (mi_home ?z key) < mi_cap m" using mi_home_less [OF wf, of key] by simp
  have nxt: "unat (mi_wrap ?z (mi_home ?z key + 1)) < mi_cap m" using mi_wf_bounds [OF wf] by (simp add: unat_mi_wrap [OF wf])
  have miss: "\<not> (me_tag me_zero = kv_tag key \<and> me_key me_zero = key)" using kv_tag_zero by (auto simp: me_zero_def)
  have "find_internal ?z key (mi_wrap ?z (mi_home ?z key + 1)) (kv_tag key) 1 = None"
    by (subst find_internal.simps) (simp only: slot [OF nxt] word_gt_0, simp)
  moreover have "\<not> (me_tag me_zero = kv_tag key \<and> me_key me_zero = key \<and> \<not> me_deleted me_zero)" using miss by blast
  ultimately have "find_internal ?z key (mi_home ?z key) (kv_tag key) 0 = None"
    by (subst find_internal.simps) (simp only: slot [OF home], simp)
  then show ?thesis by (simp add: mi_find_def)
qed

lemma unat_align_1g:
  assumes "unat sz + 2 ^ 30 \<le> 2 ^ 64"
  shows "unat (align_1g sz) = (unat sz + (2 ^ 30 - 1)) div 2 ^ 30 * 2 ^ 30"
proof -
  have m: "kHugePage1G - 1 = mask 30" by (simp add: kHugePage1G_def mask_eq_exp_minus_1)
  have "unat (sz + mask 30) = unat sz + (2 ^ 30 - 1)"
    using assms by (subst unat_plus_small) (simp_all add: mask_eq_exp_minus_1)
  then show ?thesis
    unfolding align_1g_def m add_diff_eq [symmetric] by (simp only: unat_and_not_mask minus_mod_eq_div_mult)
qed

lemma align_1g_covers:
  assumes "unat sz + 2 ^ 30 \<le> 2 ^ 64"
  shows "unat sz \<le> unat (align_1g sz)"
proof -
  define n :: nat where "n = unat sz + (2 ^ 30 - 1)"
  have "n = n div 2 ^ 30 * 2 ^ 30 + n mod 2 ^ 30" by simp
  moreover have "n mod 2 ^ 30 < 2 ^ 30" by simp
  ultimately have "n < n div 2 ^ 30 * 2 ^ 30 + 2 ^ 30" by linarith
  then show ?thesis unfolding unat_align_1g [OF assms] n_def [symmetric] by (simp add: n_def)
qed

text \<open>The chunks cover the memory.\<close>

lemma warmup_chunks_cover:
  assumes "i < n"
  shows "\<exists>c \<in> set (warmup_chunks n). fst c \<le> i \<and> i < fst c + snd c"
proof -
  define q r where "q = i div 2 ^ 30" and "r = i mod 2 ^ 30"
  have i: "i = q * 2 ^ 30 + r" "r < 2 ^ 30" by (simp_all add: q_def r_def)
  have "q < (n + 2 ^ 30 - 1) div 2 ^ 30"
    using assms i(1) by (subst less_eq_Suc_le, subst less_eq_div_iff_mult_less_eq) simp_all
  then have "(q * 2 ^ 30, min (2 ^ 30) (n - q * 2 ^ 30)) \<in> set (warmup_chunks n)"
    by (auto simp: warmup_chunks_def)
  moreover have "q * 2 ^ 30 \<le> i" "i < q * 2 ^ 30 + min (2 ^ 30) (n - q * 2 ^ 30)" using i assms by auto
  ultimately show ?thesis by force
qed

text \<open>The memory of an index, read and written back.\<close>

lemma enc_get:
  "off + 8 \<le> length bs \<Longrightarrow> enc_u64 (get_u64 bs off) = slice off 8 bs"
  "off + 4 \<le> length bs \<Longrightarrow> enc_u32 (get_u32 bs off) = slice off 4 bs"
  "off + 2 \<le> length bs \<Longrightarrow> enc_u16 (get_u16 bs off) = slice off 2 bs"
  "off + 1 \<le> length bs \<Longrightarrow> enc_u8 (get_u8 bs off) = slice off 1 bs"
proof -
  have n: "nat_le k (le_nat (slice off k bs)) = slice off k bs" "le_nat (slice off k bs) < 256 ^ k" if "off + k \<le> length bs" for k
    using nat_le_le_nat [of "slice off k bs"] le_nat_bound [of "slice off k bs"] that by (simp_all add: slice_def)
  show "off + 8 \<le> length bs \<Longrightarrow> enc_u64 (get_u64 bs off) = slice off 8 bs"
    using n [of 8] by (simp add: enc_u64_def get_u64_def unsigned_of_nat take_bit_nat_eq_self)
  show "off + 4 \<le> length bs \<Longrightarrow> enc_u32 (get_u32 bs off) = slice off 4 bs"
    using n [of 4] by (simp add: enc_u32_def get_u32_def unsigned_of_nat take_bit_nat_eq_self)
  show "off + 2 \<le> length bs \<Longrightarrow> enc_u16 (get_u16 bs off) = slice off 2 bs"
    using n [of 2] by (simp add: enc_u16_def get_u16_def unsigned_of_nat take_bit_nat_eq_self)
  show "off + 1 \<le> length bs \<Longrightarrow> enc_u8 (get_u8 bs off) = slice off 1 bs"
    by (simp add: enc_u8_def get_u8_def slice_def take_Suc hd_drop_conv_nth)
qed

lemma packed_fields:
  assumes "w < 2 ^ 32"
  shows "w mod 1024 + 1024 * (w div 1024 mod 2097152) + 2147483648 * of_bool (w div 2147483648 = 1) = (w :: nat)"
proof -
  define a where "a = w div 1024"
  have b: "w div 2147483648 = a div 2097152" by (simp add: a_def div_mult2_eq [symmetric])
  have "w = 1024 * a + w mod 1024" "a = 2097152 * (a div 2097152) + a mod 2097152" by (simp_all add: a_def)
  then have w: "w mod 1024 + 1024 * (a mod 2097152) + 2147483648 * (a div 2097152) = w" by linarith
  have "a div 2097152 = 0 \<or> a div 2097152 = 1" using assms b by auto
  then have "of_bool (a div 2097152 = 1) = a div 2097152" by auto
  then show ?thesis using w by (simp only: b a_def [symmetric])
qed

lemma mem_index_entry_bytes_at:
  assumes "length bs = 20"
  shows "mem_index_entry_bytes (mem_index_entry_at bs 0) = bs"
proof -
  define w where "w = unat (get_u32 bs 8)"
  have lt: "w < 2 ^ 32" unfolding w_def by (rule order_less_le_trans [OF unsigned_less]) simp
  have p: "unat (word_of_nat (w mod 1024) :: 10 word) = w mod 1024"
    "unat (word_of_nat (w div 1024 mod 2097152) :: 21 word) = w div 1024 mod 2097152"
    by (simp_all add: unsigned_of_nat take_bit_nat_eq_self)
  have "me_packed (mem_index_entry_at bs 0) = get_u32 bs 8"
    unfolding me_packed_def mem_index_entry_at_def Let_def
    by (simp only: add_0 w_def [symmetric] mem_index_entry.simps p packed_fields [OF lt]) (simp add: w_def)
  then have "mem_index_entry_bytes (mem_index_entry_at bs 0)
      = slice 0 8 bs @ slice 8 4 bs @ slice 12 4 bs @ slice 16 2 bs @ slice 18 1 bs @ slice 19 1 bs"
    using assms by (simp add: mem_index_entry_bytes_def enc_get) (simp add: mem_index_entry_at_def Let_def enc_get)
  also have "\<dots> = bs" using assms by (intro nth_equalityI) (auto simp: slice_def nth_append less_Suc_eq numeral_eq_Suc)
  finally show ?thesis .
qed

lemma concat_windows: "concat (map (\<lambda>i. map mem [20 * i..<20 * i + 20]) [0..<n]) = map mem [0..<20 * n]"
proof (induction n)
  case (Suc n)
  have n: "20 * Suc n = 20 * n + 20" by simp
  have "[0..<20 * Suc n] = [0..<20 * n] @ [20 * n..<20 * n + 20]" unfolding n by (rule upt_add_eq_append) simp
  then show ?case by (simp only: upt_Suc_append le0 map_append concat_append list.map concat.simps append_Nil2 Suc)
qed simp

lemma mi_region_of:
  assumes "21 * unat (mi_capacity m) < 2 ^ 64" "i < 21 * unat (mi_capacity m)"
  shows "mi_region (mi_of_region mem m) i = mem i"
proof -
  let ?c = "unat (mi_capacity m)"
  have b: "unat (mi_capacity m * 20) = ?c * 20" using assms(1) by (simp add: unat_word_ariths)
  have "concat (map mem_index_entry_bytes (mi_entries (mi_of_region mem m))) = map mem [0..<20 * ?c]"
    by (simp add: mi_of_region_def comp_def mem_index_entry_bytes_at concat_windows)
  moreover have "mi_psl (mi_of_region mem m) = map mem [20 * ?c..<20 * ?c + ?c]"
    by (intro nth_equalityI) (simp_all add: mi_of_region_def b mult.commute)
  ultimately have "concat (map mem_index_entry_bytes (mi_entries (mi_of_region mem m))) @ mi_psl (mi_of_region mem m)
      = map mem [0..<21 * ?c]"
    using upt_add_eq_append [of 0 "20 * ?c" ?c] by (simp flip: map_append)
  then show ?thesis using assms(2) by (simp add: mi_region_def Let_def)
qed

lemma mi_of_region_cong:
  assumes "21 * unat (mi_capacity m) < 2 ^ 64" "\<And>i. i < 21 * unat (mi_capacity m) \<Longrightarrow> mem i = mem' i"
  shows "mi_of_region mem m = mi_of_region mem' m"
proof -
  have b: "unat (mi_capacity m * 20) = unat (mi_capacity m) * 20" using assms(1) by (simp add: unat_word_ariths)
  have "map mem [20 * i..<20 * i + 20] = map mem' [20 * i..<20 * i + 20]" if "i < unat (mi_capacity m)" for i
    using that assms(2) by (intro map_cong refl) simp
  then have e: "map (\<lambda>i. mem_index_entry_at (map mem [20 * i..<20 * i + 20]) 0) [0..<unat (mi_capacity m)]
      = map (\<lambda>i. mem_index_entry_at (map mem' [20 * i..<20 * i + 20]) 0) [0..<unat (mi_capacity m)]"
    by (intro map_cong refl) (simp only: atLeast0LessThan set_upt lessThan_iff)
  have "map (\<lambda>i. mem (unat (mi_capacity m) * 20 + i)) [0..<unat (mi_capacity m)]
      = map (\<lambda>i. mem' (unat (mi_capacity m) * 20 + i)) [0..<unat (mi_capacity m)]"
    using assms(2) by (intro map_cong refl) simp
  then show ?thesis by (simp only: mi_of_region_def b e)
qed

definition zero_chunk :: "nat \<times> nat \<Rightarrow> region \<Rightarrow> region" where
  "zero_chunk c mem = (\<lambda>i. if fst c \<le> i \<and> i < fst c + snd c then 0 else mem i)"

lemma warm_chunks_region:
  assumes "21 * unat (mi_capacity m) < 2 ^ 64"
  shows "fold warm_chunk cs (mi_of_region mem m) = mi_of_region (fold zero_chunk cs mem) m"
proof (induction cs arbitrary: mem)
  case (Cons c cs)
  have again: "mi_of_region x (mi_of_region mem m) = mi_of_region x m" for x by (simp add: mi_of_region_def)
  have "warm_chunk c (mi_of_region mem m) = mi_of_region (zero_chunk c mem) m"
    unfolding warm_chunk_def again
    by (intro mi_of_region_cong [OF assms]) (simp add: zero_chunk_def mi_region_of [OF assms])
  then show ?case by (simp add: Cons.IH)
qed simp

lemma zero_chunks: "(\<exists>c \<in> set cs. fst c \<le> i \<and> i < fst c + snd c) \<or> mem i = 0 \<Longrightarrow> fold zero_chunk cs mem i = 0"
  by (induction cs arbitrary: mem) (force simp: zero_chunk_def)+

lemma warmup_all_zero:
  assumes "21 * unat (mi_capacity m) \<le> n" "n < 2 ^ 64" "0 < unat (mi_capacity m)"
  shows "fold warm_chunk (warmup_chunks n) m
    = m\<lparr>mi_entries := replicate (unat (mi_capacity m)) me_zero, mi_psl := replicate (unat (mi_capacity m)) 0\<rparr>"
proof -
  have small: "21 * unat (mi_capacity m) < 2 ^ 64" using assms(1,2) by simp
  have "0 < n" using assms(1,3) by simp
  then obtain c cs where cs: "warmup_chunks n = c # cs" using warmup_chunks_cover [of 0 n] by (cases "warmup_chunks n") auto
  have "fold warm_chunk (c # cs) m = mi_of_region (fold zero_chunk cs (zero_chunk c (mi_region m))) m"
    using warm_chunks_region [OF small, of cs] by (simp add: warm_chunk_def zero_chunk_def)
  also have "\<dots> = mi_of_region (fold zero_chunk (warmup_chunks n) (mi_region m)) m" by (simp add: cs)
  also have "\<dots> = m\<lparr>mi_entries := replicate (unat (mi_capacity m)) me_zero, mi_psl := replicate (unat (mi_capacity m)) 0\<rparr>"
    by (rule mi_of_zero_region [OF _ small]) (use warmup_chunks_cover assms(1) in \<open>auto intro!: zero_chunks\<close>)
  finally show ?thesis by (simp add: cs)
qed

text \<open>C37: The asynchronous warm-up sets the memory of the index to zero in a thread of its own, gigabyte by
  gigabyte, after the constructor has handed the index out. When the memory came from huge pages of one
  gigabyte (or the two-megabyte mapping behind it), whatever the index holds when the thread runs is
  lost, whatever its size, up to the 64-bit range: after all chunks, with no call between them, no key is
  found any more.\<close>

theorem async_warmup_erases_index:
  assumes "mem_index_numa slots ans WarmupAsync = (m0, result)" "ar_method result = Hugepage1G" "ar_region result \<noteq> None"
    and "mi_wf m" "mi_capacity m = mi_capacity m0" "21 * mi_cap m + 2 ^ 30 \<le> 2 ^ 64"
  shows "mi_find (fold warm_chunk (ar_warmup result) m) key = None"
proof -
  let ?c = "next_power_of_2 slots" and ?n = "unat (align_1g (mem_index_total (next_power_of_2 slots)))"
  have cap: "mi_cap m = unat ?c" "mi_capacity m = ?c" "0 < unat ?c"
    using assms(1,4,5) mi_wf_bounds [OF assms(4)]
    by (auto simp: mem_index_numa_def mem_index_new_def mi_of_region_def mi_wf_def Let_def split: option.splits)
  have total: "unat (mem_index_total ?c) = 21 * unat ?c"
    using assms(6) cap by (simp add: mem_index_total_def unat_word_ariths)
  have n: "21 * unat (mi_capacity m) \<le> ?n" "?n < 2 ^ 64"
    using align_1g_covers [of "mem_index_total ?c"] assms(6) unat_u64 [of "align_1g (mem_index_total ?c)"]
    by (simp_all add: total cap)
  have "ar_warmup result = warmup_chunks ?n"
    using assms(1-3) by (auto simp: mem_index_numa_def mem_index_new_def allocate_index_memory_def alloc_1g_hugepage_def
        apply_warmup_def Let_def split: option.splits if_splits)
  then show ?thesis
    using warmup_all_zero [OF n] mi_find_zeros [OF assms(4), of key] cap by simp
qed

section \<open>Concrete answers\<close>

definition demo_pages :: page_answers where
  "demo_pages = \<lparr>pa_mmap_1g = (\<lambda>_. True), pa_mmap_2m = (\<lambda>_. False), pa_spdk_1g = None, pa_spdk_4k = None, pa_aligned = None\<rparr>"

lemma demo_pages_run:
  "\<exists>m result. mem_index_numa 8 demo_pages warmup = (m, result) \<and> ar_method result = Hugepage1G \<and> ar_region result \<noteq> None
     \<and> mi_capacity m = 8"
proof -
  have "next_power_of_2 8 = 8" by (simp add: next_power_of_2_def)
  then show ?thesis
    by (simp add: mem_index_numa_def mem_index_new_def allocate_index_memory_def alloc_1g_hugepage_def demo_pages_def mi_of_region_def
        Let_def split: prod.splits)
qed

theorem numa_index_is_fresh_witness: "fst (mem_index_numa 8 demo_pages WarmupSync) = mem_index_new 8 True"
proof -
  obtain m result where run: "mem_index_numa 8 demo_pages WarmupSync = (m, result)" "ar_method result = Hugepage1G"
    "ar_region result \<noteq> None" using demo_pages_run by blast
  have "21 * unat (next_power_of_2 8) < 2 ^ 64" by (simp add: next_power_of_2_def)
  with numa_index_is_fresh [OF run(1)] run show ?thesis by simp
qed

theorem async_warmup_erases_index_witness:
  "mi_find (ix_table [(5, 1)]) 5 = Some 0
   \<and> mi_find (fold warm_chunk (ar_warmup (snd (mem_index_numa 8 demo_pages WarmupAsync))) (ix_table [(5, 1)])) 5 = None"
proof -
  obtain m result where run: "mem_index_numa 8 demo_pages WarmupAsync = (m, result)" "ar_method result = Hugepage1G"
    "ar_region result \<noteq> None" "mi_capacity m = 8" using demo_pages_run by blast
  have t: "mi_wf (ix_table [(5, 1)])" using ix_table_5_inv by (simp add: mi_inv_def)
  have c: "mi_capacity (ix_table [(5, 1)]) = mi_capacity m" "21 * mi_cap (ix_table [(5, 1)]) + 2 ^ 30 \<le> 2 ^ 64"
    "mi_find (ix_table [(5, 1)]) 5 = Some 0"
    unfolding run(4) by (simp_all add: ix_table_def mi_find_def find_internal.simps ix_eval)
  from async_warmup_erases_index [OF run(1-3) t c(1,2)] show ?thesis using run(1) c(3) by simp
qed

end
