(* ===== verification/KvCApi.thy ===== *)
theory KvCApi
  imports KvLifecycle KvAsyncOps KvPools
begin

text \<open>
  The C interface at the end of \<^verbatim>\<open>src/engine.cpp\<close>: a handle that may be null in front of each operation,
  error codes as integers, and the wrapper of \<^verbatim>\<open>get_async\<close>, which reads into a DMA buffer of its own and
  copies the value out of it in its callback.
\<close>

section \<open>State\<close>

text \<open>\<open>CApiGetAsyncCtx\<close>: the size of the DMA buffer, the caller's buffer and callback. What the callback is
  called with is \<open>CDone\<close> or \<open>CGot\<close>, with the bytes copied to the caller's buffer, if any; \<open>COverrun\<close> is the
  copy that reads behind the end of the DMA buffer.\<close>

record capi_ctx =
  cx_ptr :: ctx_ptr
  cx_dma_buf_size :: u32
  cx_user_buf_len :: u32
  cx_user_cb :: nat

datatype capi_reply = CDone nat int | CGot nat int u32 "byte list option" | COverrun nat u32

text \<open>\<open>ca_handle\<close> is the engine behind the handle, \<open>None\<close> the null pointer. \<open>ca_ctxs\<close> finds the context by the
  argument the engine's callback is given, \<open>ca_seen\<close> counts the engine's callbacks that were passed on.\<close>

record capi =
  ca_handle :: "kv_system option"
  ca_pool :: ctx_pool
  ca_ctxs :: "nat \<Rightarrow> capi_ctx option"
  ca_seen :: nat
  ca_replies :: "capi_reply list"

definition ca_reply :: "capi_reply \<Rightarrow> capi \<Rightarrow> capi" where
  "ca_reply r c = c\<lparr>ca_replies := ca_replies c @ [r]\<rparr>"

section \<open>create, open, close\<close>

record capi_create_opts =
  co_max_capacity :: u64
  co_data_file_size :: u64
  co_slots :: u64
  co_force :: bool

definition capi_config :: "capi_create_opts option \<Rightarrow> engine_config" where
  "capi_config opts =
     (case opts of None \<Rightarrow> default_config
      | Some x \<Rightarrow> default_config\<lparr>cf_max_capacity := co_max_capacity x, cf_data_file_size := co_data_file_size x, cf_slots := co_slots x\<rparr>)"

text \<open>The handle is set only on success. \<open>d\<close>, \<open>areas\<close> and \<open>super\<close> are what the device holds.\<close>

definition spdk_kv_create ::
    "life_env \<Rightarrow> capi_create_opts option \<Rightarrow> disk \<Rightarrow> sb_disk \<Rightarrow> u64 option \<Rightarrow> int \<times> kv_system option" where
  "spdk_kv_create env opts d areas super =
     (case engine_create env (capi_config opts) (engine_new d areas super) of
        (err, s) \<Rightarrow> if err \<noteq> KSuccess then (kv_code err, None) else (0, Some s))"

text \<open>\<open>opts\<close> are the flags \<^verbatim>\<open>read_only\<close>, which the engine does not look at, and \<^verbatim>\<open>recover\<close>.\<close>

definition spdk_kv_open :: "life_env \<Rightarrow> (bool \<times> bool) option \<Rightarrow> disk \<Rightarrow> sb_disk \<Rightarrow> u64 option \<Rightarrow> int \<times> kv_system option" where
  "spdk_kv_open env opts d areas super =
     (let recover = (case opts of None \<Rightarrow> True | Some (_, r) \<Rightarrow> r)
      in case engine_open env recover (engine_new d areas super) of
           (err, s) \<Rightarrow> if err \<noteq> KSuccess then (kv_code err, None) else (0, Some s))"

text \<open>The engine is deleted whatever \<^verbatim>\<open>close\<close> returns; what stays is the device.\<close>

definition spdk_kv_close :: "life_env \<Rightarrow> kv_system option \<Rightarrow> int \<times> kv_system option" where
  "spdk_kv_close env h =
     (case h of None \<Rightarrow> (-1, None) | Some s \<Rightarrow> (case engine_close env s of (err, s) \<Rightarrow> (kv_code err, Some s)))"

section \<open>Synchronous operations\<close>

definition ca_set_engine :: "kv_engine \<Rightarrow> kv_system \<Rightarrow> capi \<Rightarrow> capi" where
  "ca_set_engine e s c = c\<lparr>ca_handle := Some (sy_set_engine e s)\<rparr>"

definition spdk_kv_put :: "io_env \<Rightarrow> u64 \<Rightarrow> byte list option \<Rightarrow> u32 \<Rightarrow> capi \<Rightarrow> int \<times> capi" where
  "spdk_kv_put env key val len c =
     (case ca_handle c of None \<Rightarrow> (-1, c)
      | Some s \<Rightarrow> (case kv_put env key val len (sy_engine s) of (err, e) \<Rightarrow> (kv_code err, ca_set_engine e s c)))"

definition spdk_kv_get :: "io_env \<Rightarrow> u64 \<Rightarrow> bool \<Rightarrow> u32 \<Rightarrow> capi \<Rightarrow> int \<times> byte list option \<times> u32 option" where
  "spdk_kv_get env key has_buf buf_len c =
     (case ca_handle c of None \<Rightarrow> (-1, None, None)
      | Some s \<Rightarrow> (case kv_get env key has_buf buf_len (sy_engine s) of (err, r) \<Rightarrow> (kv_code err, r)))"

definition spdk_kv_del :: "io_env \<Rightarrow> u64 \<Rightarrow> capi \<Rightarrow> int \<times> capi" where
  "spdk_kv_del env key c =
     (case ca_handle c of None \<Rightarrow> (-1, c)
      | Some s \<Rightarrow> (case kv_del env key (sy_engine s) of (err, e) \<Rightarrow> (kv_code err, ca_set_engine e s c)))"

definition spdk_kv_get_entry_count :: "capi \<Rightarrow> u64" where
  "spdk_kv_get_entry_count c = (case ca_handle c of None \<Rightarrow> 0 | Some s \<Rightarrow> get_entry_count s)"

definition spdk_kv_get_total_bytes :: "capi \<Rightarrow> u64" where
  "spdk_kv_get_total_bytes c = (case ca_handle c of None \<Rightarrow> 0 | Some s \<Rightarrow> en_total_data (sy_engine s))"

section \<open>Callbacks\<close>

text \<open>\<open>memory\<close> is what the DMA buffer holds when the callback runs.\<close>

definition c_api_get_async_callback :: "capi_ctx \<Rightarrow> byte list \<Rightarrow> int \<Rightarrow> u32 \<Rightarrow> capi_reply" where
  "c_api_get_async_callback ctx memory status actual_len =
     (if status \<noteq> 0 then CGot (cx_user_cb ctx) status actual_len None
      else if actual_len > cx_user_buf_len ctx then CGot (cx_user_cb ctx) (kv_code KValueTooLarge) actual_len None
      else if 512 + unat actual_len \<le> length memory
      then CGot (cx_user_cb ctx) status actual_len (Some (slice 512 (unat actual_len) memory))
      else COverrun (cx_user_cb ctx) actual_len)"

text \<open>The engine's callbacks: a read goes through the wrapper and gives its context back, the others are the
  caller's own. The part of the DMA buffer that was not read into holds \<open>junk\<close>.\<close>

definition dma_contents :: "(nat \<Rightarrow> byte) \<Rightarrow> nat \<Rightarrow> byte list \<Rightarrow> byte list" where
  "dma_contents junk n data = map (\<lambda>i. if i < length data then data ! i else junk i) [0..<n]"

fun capi_deliver :: "(nat \<Rightarrow> byte) \<Rightarrow> reply \<Rightarrow> capi \<Rightarrow> capi" where
  "capi_deliver junk (Done cb err) c = ca_reply (CDone cb (kv_code err)) c"
| "capi_deliver junk (Got a err len data) c =
     (case ca_ctxs c a of None \<Rightarrow> c
      | Some ctx \<Rightarrow>
          (ca_reply (c_api_get_async_callback ctx (dma_contents junk (unat (cx_dma_buf_size ctx)) data) (kv_code err) len) c)
            \<lparr>ca_ctxs := (ca_ctxs c)(a := None), ca_pool := ctx_pool_free (Some (cx_ptr ctx)) (ca_pool c)\<rparr>)"

definition capi_callbacks :: "(nat \<Rightarrow> byte) \<Rightarrow> capi \<Rightarrow> capi" where
  "capi_callbacks junk c =
     (case ca_handle c of None \<Rightarrow> c
      | Some s \<Rightarrow> (let rs = ak_replies (bk_async (sy_bk s))
                  in fold (capi_deliver junk) (drop (ca_seen c) rs) (c\<lparr>ca_seen := length rs\<rparr>)))"

section \<open>Asynchronous operations\<close>

text \<open>A call that is answered at once is answered before it returns, by an error.\<close>

definition spdk_kv_put_async ::
    "async_env \<Rightarrow> byte list option \<Rightarrow> byte list option \<Rightarrow> u64 \<Rightarrow> byte list option \<Rightarrow> u32 \<Rightarrow> nat \<Rightarrow> capi \<Rightarrow> capi" where
  "spdk_kv_put_async env mem mem' key val len cb c =
     (case ca_handle c of None \<Rightarrow> ca_reply (CDone cb (-1)) c
      | Some s \<Rightarrow> capi_callbacks (\<lambda>_. 0)
          (c\<lparr>ca_handle := Some (s\<lparr>sy_bk := put_buffered env mem mem' key val len cb (sy_bk s)\<rparr>)\<rparr>))"

definition ca_async :: "(async_kv \<Rightarrow> async_kv) \<Rightarrow> kv_system \<Rightarrow> kv_system" where
  "ca_async f s = s\<lparr>sy_bk := (sy_bk s)\<lparr>bk_async := f (bk_async (sy_bk s))\<rparr>\<rparr>"

definition spdk_kv_del_async :: "async_env \<Rightarrow> u64 \<Rightarrow> nat \<Rightarrow> capi \<Rightarrow> capi" where
  "spdk_kv_del_async env key cb c =
     (case ca_handle c of None \<Rightarrow> ca_reply (CDone cb (-1)) c
      | Some s \<Rightarrow> capi_callbacks (\<lambda>_. 0) (c\<lparr>ca_handle := Some (ca_async (delete_async env key cb) s)\<rparr>))"

text \<open>The DMA buffer of a read: room for the caller's buffer and the header, at most 64 KB.\<close>

definition capi_dma_size :: "u32 \<Rightarrow> u32" where
  "capi_dma_size buf_len = min (ucast (align_up (ucast buf_len + kSegmentDataOffset) kPageSize)) (16 * 4096)"

text \<open>\<open>dma\<close>: whether the buffer is allocated; \<open>fresh\<close> is a heap block for the context.\<close>

definition spdk_kv_get_async :: "async_env \<Rightarrow> bool \<Rightarrow> nat \<Rightarrow> u64 \<Rightarrow> u32 \<Rightarrow> nat \<Rightarrow> capi \<Rightarrow> capi" where
  "spdk_kv_get_async env dma fresh key buf_len cb c =
     (case ca_handle c of None \<Rightarrow> ca_reply (CGot cb (-1) 0 None) c
      | Some s \<Rightarrow>
          if \<not> dma then ca_reply (CGot cb (kv_code KInternalError) 0 None) c
          else (case ctx_pool_alloc fresh (ca_pool c) of (ptr, p) \<Rightarrow>
            (let n = capi_dma_size buf_len;
                 ctx = \<lparr>cx_ptr = ptr, cx_dma_buf_size = n, cx_user_buf_len = buf_len, cx_user_cb = cb\<rparr>
             in capi_callbacks (\<lambda>_. 0) (c\<lparr>ca_pool := p, ca_ctxs := (ca_ctxs c)(cb \<mapsto> ctx),
                  ca_handle := Some (ca_async (get_async env key (Some [unat n]) cb) s)\<rparr>))))"

text \<open>A completion of the device reaches the engine, and its callback the caller.\<close>

definition capi_io_done :: "nat \<Rightarrow> int \<Rightarrow> (nat \<Rightarrow> byte) \<Rightarrow> (nat \<Rightarrow> byte) \<Rightarrow> capi \<Rightarrow> capi" where
  "capi_io_done n status torn junk c =
     (case ca_handle c of None \<Rightarrow> c
      | Some s \<Rightarrow> capi_callbacks junk (c\<lparr>ca_handle := Some (ca_async (ak_step (EvIo n status torn)) s)\<rparr>))"

text \<open>\<^verbatim>\<open>spdk_kv_poll\<close>, in the parts of \<^verbatim>\<open>poll\<close> that drive the buffers.\<close>

definition spdk_kv_poll :: "async_env \<Rightarrow> u64 \<Rightarrow> (nat \<Rightarrow> byte) \<Rightarrow> capi \<Rightarrow> capi" where
  "spdk_kv_poll env now junk c =
     (case ca_handle c of None \<Rightarrow> c
      | Some s \<Rightarrow> capi_callbacks junk (c\<lparr>ca_handle := Some (s\<lparr>sy_bk := poll_buffers env now (sy_bk s)\<rparr>)\<rparr>))"

section \<open>A read that completes\<close>

lemma unat_capi_dma_size:
  assumes "unat buf_len \<le> 2 ^ 32 - 8192"
  shows "unat (capi_dma_size buf_len) = min (4096 * ((unat buf_len + 512 + 4095) div 4096)) 65536"
proof -
  let ?n = "4096 * ((unat buf_len + 512 + 4095) div 4096)"
  have u: "unat (ucast buf_len :: u64) = unat buf_len"
    using unat_u32 [of buf_len] by (simp add: unsigned_ucast_eq take_bit_nat_eq_self)
  have up: "unat (ucast buf_len + kSegmentDataOffset :: u64) = unat buf_len + 512"
    using unat_u32 [of buf_len] by (subst unat_plus_small) (simp_all add: kSegmentDataOffset_def u)
  have al: "unat (align_up (ucast buf_len + kSegmentDataOffset) kPageSize) = ?n"
    using unat_u32 [of buf_len] by (subst unat_align_up_page) (simp_all add: up)
  have "?n \<le> unat buf_len + 4607" by simp
  then have "?n < 2 ^ 32" using assms by simp
  then have "unat (ucast (align_up (ucast buf_len + kSegmentDataOffset) kPageSize) :: u32) = ?n"
    by (simp add: unsigned_ucast_eq al take_bit_nat_eq_self)
  then show ?thesis by (simp add: capi_dma_size_def min_def word_le_nat_alt)
qed

definition ca_async_of :: "capi \<Rightarrow> async_kv" where
  "ca_async_of c = bk_async (sy_bk (the (ca_handle c)))"

text \<open>The whole way of a read: the engine finds the entry, the device completes, the wrapper gets what the
  engine makes of the bytes.\<close>

lemma capi_get_run:
  fixes buf_len :: u32
  defines "n \<equiv> unat (capi_dma_size buf_len)"
  assumes c: "ca_handle c = Some s" "a = bk_async (sy_bk s)" "ca_seen c = length (ak_replies a)"
    and e: "en_state (ak_engine a) = EReady" "mi_lookup (en_index (ak_engine a)) key = Some m" "\<not> me_deleted m"
      "get_file (ak_engine a) (ucast (me_file_id m)) = Some i" "fi_blob_opened (en_files (ak_engine a) ! i)"
      "file_state_readable (fi_state (en_files (ak_engine a) ! i))" "io_ready (ae_io env)"
    and len: "4096 * unat (me_page_count m) \<le> n"
    and data: "data = disk_read (en_disk (ak_engine a)) (fi_blob_id (en_files (ak_engine a) ! i)) (4096 * unat (me_offset_index m))
      (4096 * unat (me_page_count m))"
    and rc: "get_read_completion 0 data = (err, actual)"
  obtains ptr where "ca_replies (capi_io_done (length (ak_flights a)) 0 torn junk (spdk_kv_get_async env True fresh key buf_len cb c))
    = ca_replies c @ [c_api_get_async_callback \<lparr>cx_ptr = ptr, cx_dma_buf_size = capi_dma_size buf_len, cx_user_buf_len = buf_len,
        cx_user_cb = cb\<rparr> (dma_contents junk n data) (kv_code err) actual]"
proof -
  let ?ev = "EvIo (length (ak_flights a)) 0 torn" and ?get = "get_async env key (Some [n]) cb a"
  have len': "4096 * unat (me_page_count m) \<le> foldl (+) 0 [n]" using len by simp
  have sub: "ak_replies ?get = ak_replies a" by (subst async_get_submits [OF e _ refl len']) simp_all
  have finished: "ak_replies (ak_step ?ev ?get) = ak_replies a @ [Got cb err actual data]"
    using async_get_done [OF e _ refl len' data] by (simp add: ak_run_def rc del: ak_step.simps(4))
  obtain ptr p where al: "ctx_pool_alloc fresh (ca_pool c) = (ptr, p)" by fastforce
  let ?ctx = "\<lparr>cx_ptr = ptr, cx_dma_buf_size = capi_dma_size buf_len, cx_user_buf_len = buf_len, cx_user_cb = cb\<rparr>"
  have got: "spdk_kv_get_async env True fresh key buf_len cb c = c\<lparr>ca_pool := p, ca_ctxs := (ca_ctxs c)(cb \<mapsto> ?ctx),
      ca_handle := Some (ca_async (get_async env key (Some [n]) cb) s)\<rparr>"
    using c(3) sub by (simp add: spdk_kv_get_async_def c(1) al capi_callbacks_def ca_async_def n_def [symmetric] Let_def
        flip: c(2))
  have "ca_replies (capi_io_done (length (ak_flights a)) 0 torn junk (spdk_kv_get_async env True fresh key buf_len cb c))
      = ca_replies c @ [c_api_get_async_callback ?ctx (dma_contents junk n data) (kv_code err) actual]"
    unfolding got capi_io_done_def
    using c(3) finished by (simp add: capi_callbacks_def ca_async_def ca_reply_def n_def [symmetric] Let_def
        del: ak_step.simps(4) flip: c(2))
  then show thesis by (rule that)
qed

section \<open>What the C interface puts it cannot get\<close>

lemma log_image_short:
  assumes "length v \<le> 224"
  shows "length (log_image (key, v, seq, False)) = 4096"
proof -
  have v: "length v \<le> kMaxStoredLen" using assms by (simp add: kMaxStoredLen_def)
  have "unat (value_len v) = length v" using assms by (intro unat_of_nat_small) simp
  then show ?thesis
    using length_log_image [OF log_ok_stored [OF v]] assms by (simp add: unat_kv_entry_size div_nat_eqI del: log_image.simps)
qed

text \<open>A short value that was stored by \<^verbatim>\<open>spdk_kv_put\<close>, or by \<^verbatim>\<open>spdk_kv_put_async\<close>, which writes the same
  entry, is found by \<^verbatim>\<open>spdk_kv_get_async\<close>, read from the device, and reported as corrupt.\<close>

theorem capi_get_async_reports_corruption:
  assumes "ca_handle c = Some s" "a = bk_async (sy_bk s)" "ca_seen c = length (ak_replies a)"
    and "kv_inv (sy_engine s)" "en_state (sy_engine s) = EReady" "kv_abs (sy_engine s) key = Some v" "length v \<le> 224"
    and "io_ready (ae_io env)" "unat buf_len \<le> 2 ^ 32 - 8192"
  shows "ca_replies (capi_io_done (length (ak_flights a)) 0 torn junk (spdk_kv_get_async env True fresh key buf_len cb c))
    = ca_replies c @ [CGot cb (-5) 0 None]"
proof (cases rule: kv_abs_lookup [OF assms(4), of key])
  case 1
  then show ?thesis using assms(6) by simp
next
  case (2 m v')
  have e: "sy_engine s = ak_engine a" using assms(2) by simp
  have m: "\<not> me_deleted m" using 2(1) find_key [of "en_index (sy_engine s)" key] by (auto simp: mi_lookup_def)
  have v': "v' = v" using 2(3) assms(6) by simp
  obtain i seq where i: "get_file (ak_engine a) (ucast (me_file_id m)) = Some i" "fi_blob_opened (en_files (ak_engine a) ! i)"
    "file_state_readable (fi_state (en_files (ak_engine a) ! i))" "4096 * unat (me_page_count m) = length (log_image (key, v, seq, False))"
    "disk_read (en_disk (ak_engine a)) (fi_blob_id (en_files (ak_engine a) ! i)) (4096 * unat (me_offset_index m))
       (4096 * unat (me_page_count m)) = log_image (key, v, seq, False)"
    using 2(2) unfolding on_disk_def get_file_def v' e by blast
  have fits: "4096 * unat (me_page_count m) \<le> unat (capi_dma_size buf_len)"
    using i(4) log_image_short [OF assms(7), of key seq] by (simp add: unat_capi_dma_size [OF assms(9)] del: log_image.simps)
  have rc: "get_read_completion 0 (log_image (key, v, seq, False)) = (KCorruption, 0)"
    using short_value_zeros [OF assms(7)]
    by (simp add: get_read_completion_def eh_is_valid_def entry_header_at_def kEntryMagic_def del: log_image.simps)
  obtain ptr where "ca_replies (capi_io_done (length (ak_flights a)) 0 torn junk (spdk_kv_get_async env True fresh key buf_len cb c))
    = ca_replies c @ [c_api_get_async_callback \<lparr>cx_ptr = ptr, cx_dma_buf_size = capi_dma_size buf_len, cx_user_buf_len = buf_len,
        cx_user_cb = cb\<rparr> (dma_contents junk (unat (capi_dma_size buf_len)) (log_image (key, v, seq, False))) (kv_code KCorruption) 0]"
    by (rule capi_get_run [OF assms(1-3) assms(5) [unfolded e] 2(1) [unfolded e] m i(1-3) assms(8) fits i(5) [symmetric] rc])
  then show ?thesis by (simp add: c_api_get_async_callback_def)
qed

lemma dma_contents_length [simp]: "length (dma_contents junk n data) = n"
  by (simp add: dma_contents_def)

lemma dma_contents_slice:
  assumes "length data + 512 \<le> n"
  shows "512 \<le> length data \<Longrightarrow> slice 512 (length data) (dma_contents junk n data) = drop 512 data @ map junk [length data..<length data + 512]"
  using assms by (intro nth_equalityI) (auto simp: slice_def dma_contents_def nth_append add.commute)

text \<open>C10: A record of \<^verbatim>\<open>put_async\<close>, which only the C++ interface offers, is delivered from byte 512 on with the
  length of the whole record: the caller gets the value and then 512 bytes of the DMA buffer that belong
  to no record. For a record of 16 pages, the largest the buffer holds, these lie outside the buffer.\<close>

theorem capi_get_copies_too_much:
  assumes room: "async_room (ae_io env) (put_size segs) i a" and segs: "segs_ok segs" and inv: "mi_inv (en_index (ak_engine a))"
    and al: "mi_allocate_sequence (en_index (ak_engine a)) = (seq, idx)" and takes: "index_takes idx key" and io: "io_ready (ae_io env')"
    and c: "ca_handle c = Some s" "bk_async (sy_bk s) = ak_run [EvPut env key segs cb, EvIo (length (ak_flights a)) 0 torn] a"
      "ca_seen c = length (ak_replies (bk_async (sy_bk s)))"
    and len: "length (concat segs) \<le> unat buf_len" "unat buf_len \<le> 2 ^ 32 - 8192" "length (concat segs) \<le> 65536"
    and rec: "rec = concat (fill_metadata key seq segs)"
  shows "ca_replies (capi_io_done (length (ak_flights a)) 0 torn' junk (spdk_kv_get_async env' True fresh key buf_len cb' c))
    = ca_replies c @ [if length rec + 512 \<le> 65536
        then CGot cb' 0 (segments_size segs) (Some (drop 512 rec @ map junk [length rec..<length rec + 512]))
        else COverrun cb' (segments_size segs)]"
proof -
  obtain a2 m where a2: "ak_run [EvPut env key segs cb, EvIo (length (ak_flights a)) 0 torn] a = a2"
    "ak_replies a2 = ak_replies a @ [Done cb KSuccess]" "ak_flights a2 = ak_flights a" "en_state (ak_engine a2) = EReady"
    "mi_lookup (en_index (ak_engine a2)) key = Some m" "\<not> me_deleted m"
    "get_file (ak_engine a2) (ucast (me_file_id m)) = Some i" "fi_blob_opened (en_files (ak_engine a2) ! i)"
    "file_state_readable (fi_state (en_files (ak_engine a2) ! i))" "4096 * unat (me_page_count m) = length (concat segs)"
    "disk_read (en_disk (ak_engine a2)) (fi_blob_id (en_files (ak_engine a2) ! i)) (4096 * unat (me_offset_index m))
       (length (concat segs)) = concat (fill_metadata key seq segs)"
    by (rule async_put_done [OF room segs inv al takes])
  have ok: "segs \<noteq> []" "288 \<le> length (hd segs)" "4096 \<le> length (concat segs)" using segs by (cases segs; auto simp: segs_ok_def)+
  have recs: "length rec = length (concat segs)" "rec = put_bytes 256 (segment_metadata key seq (segments_size segs) (segments_crc segs)) (concat segs)"
    using fill_metadata_length [OF ok(1,2)] fill_metadata_concat [OF ok(1,2)] rec by simp_all
  have size: "unat (segments_size segs) = length (concat segs)" using segments_size_eq [OF segs] by simp
  have rc: "get_read_completion 0 rec = (KSuccess, segments_size segs)"
    using metadata_reads [OF _ recs(2)] ok(3) by (simp add: get_read_completion_def)
  let ?n = "unat (capi_dma_size buf_len)"
  define room' where "room' = 4096 * ((unat buf_len + 512 + 4095) div 4096)"
  have "unat buf_len + 512 \<le> room'"
    using mult_div_mod_eq [of 4096 "unat buf_len + 512 + 4095"] mod_less_divisor [of 4096 "unat buf_len + 512 + 4095"]
    unfolding room'_def by linarith
  moreover have "?n = min room' 65536" unfolding room'_def by (rule unat_capi_dma_size [OF len(2)])
  ultimately have n: "length rec \<le> ?n" "length rec + 512 \<le> 65536 \<longleftrightarrow> length rec + 512 \<le> ?n"
    using len(1,3) recs(1) by auto
  have s2: "a2 = bk_async (sy_bk s)" "ca_seen c = length (ak_replies a2)" using c(2,3) a2(1) by simp_all
  have data: "rec = disk_read (en_disk (ak_engine a2)) (fi_blob_id (en_files (ak_engine a2) ! i)) (4096 * unat (me_offset_index m))
    (4096 * unat (me_page_count m))" unfolding a2(10,11) by (rule rec)
  obtain ptr where "ca_replies (capi_io_done (length (ak_flights a2)) 0 torn' junk (spdk_kv_get_async env' True fresh key buf_len cb' c))
    = ca_replies c @ [c_api_get_async_callback \<lparr>cx_ptr = ptr, cx_dma_buf_size = capi_dma_size buf_len, cx_user_buf_len = buf_len,
        cx_user_cb = cb'\<rparr> (dma_contents junk ?n rec) (kv_code KSuccess) (segments_size segs)]"
    by (rule capi_get_run [OF c(1) s2(1) s2(2) a2(4-9) io _ data rc]) (use a2(3,10) recs(1) n(1) in simp_all)
  moreover have "c_api_get_async_callback \<lparr>cx_ptr = ptr, cx_dma_buf_size = capi_dma_size buf_len, cx_user_buf_len = buf_len,
        cx_user_cb = cb'\<rparr> (dma_contents junk ?n rec) (kv_code KSuccess) (segments_size segs)
      = (if length rec + 512 \<le> 65536
         then CGot cb' 0 (segments_size segs) (Some (drop 512 rec @ map junk [length rec..<length rec + 512]))
         else COverrun cb' (segments_size segs))"
  proof -
    have "\<not> buf_len < segments_size segs" using len(1) size by (simp add: word_less_nat_alt)
    moreover have "slice 512 (unat (segments_size segs)) (dma_contents junk ?n rec) = drop 512 rec @ map junk [length rec..<length rec + 512]"
      if "length rec + 512 \<le> ?n"
      using dma_contents_slice [OF that, of junk] ok(3) recs(1) size by simp
    ultimately show ?thesis using n(2) size recs(1) by (auto simp: c_api_get_async_callback_def add.commute)
  qed
  ultimately show ?thesis unfolding a2(3) by (simp only:)
qed

section \<open>Concrete calls\<close>

definition demo_capi :: "async_kv \<Rightarrow> capi" where
  "demo_capi a = \<lparr>ca_handle = Some ((engine_new (\<lambda>_ _. 0) \<lparr>sd_primary = [], sd_backup = []\<rparr> None)
       \<lparr>sy_bk := (bk_start (ak_engine a) (am_new ()))\<lparr>bk_async := a\<rparr>\<rparr>),
     ca_pool = ctx_pool_new 64, ca_ctxs = Map.empty, ca_seen = length (ak_replies a), ca_replies = []\<rparr>"

theorem capi_get_async_reports_corruption_witness:
  "ca_replies (capi_io_done 0 0 (\<lambda>_. 0) (\<lambda>_. 0) (spdk_kv_get_async demo_async True 0 5 100 8 (demo_capi (ak_start demo_kv))))
     = [CGot 8 (-5) 0 None]"
proof -
  obtain e where e: "e = demo_kv" "kv_inv e" "kv_abs e = [5 \<mapsto> [1, 2, 3]]" "en_state e = EReady" by (rule demo_put)
  let ?c = "demo_capi (ak_start demo_kv)"
  define s where "s = the (ca_handle ?c)"
  then have s: "ca_handle ?c = Some s" "ak_start demo_kv = bk_async (sy_bk s)" "ca_seen ?c = length (ak_replies (ak_start demo_kv))"
    "sy_engine s = demo_kv" by (simp_all add: demo_capi_def ak_start_def)
  show ?thesis
    using capi_get_async_reports_corruption [OF s(1-3), of 5 "[1, 2, 3]" demo_async 100 "\<lambda>_. 0" "\<lambda>_. 0" 0 8] e(2-4) s(4)
    by (simp add: e(1) demo_async_def demo_io_def) (simp add: demo_capi_def ak_start_def)
qed

theorem capi_get_copies_too_much_witness:
  "\<exists>rec. length rec = 4096 \<and> ca_replies (capi_io_done 0 0 (\<lambda>_. 0) (\<lambda>_. 9) (spdk_kv_get_async demo_async True 0 5 8192 8
       (demo_capi (ak_run [EvPut demo_async 5 [replicate 4096 1] 7, EvIo 0 0 (\<lambda>_. 0)] (ak_start demo_store)))))
     = [CGot 8 0 4096 (Some (drop 512 rec @ replicate 512 9))]"
proof -
  let ?segs = "[replicate 4096 1]" and ?a = "ak_start demo_store"
  let ?a2 = "ak_run [EvPut demo_async 5 ?segs 7, EvIo 0 0 (\<lambda>_. 0)] ?a"
  have inv: "mi_inv (en_index (ak_engine ?a))" using demo_store_ok(1) by (simp add: kv_inv_def ak_start_def)
  obtain seq idx where al: "mi_allocate_sequence (en_index (ak_engine ?a)) = (seq, idx)" by fastforce
  have takes: "index_takes idx 5" using demo_takes al by (simp add: ak_start_def)
  have room: "async_room (ae_io demo_async) (put_size ?segs) 0 ?a" using demo_room by (simp add: demo_async_def)
  have io: "io_ready (ae_io demo_async)" by (simp add: demo_async_def demo_io_def)
  have n: "length (ak_flights ?a) = 0" by (simp add: ak_start_def)
  define s where "s = the (ca_handle (demo_capi ?a2))"
  then have s: "ca_handle (demo_capi ?a2) = Some s" "bk_async (sy_bk s) = ?a2" by (simp_all add: demo_capi_def)
  have c: "ca_seen (demo_capi ?a2) = length (ak_replies (bk_async (sy_bk s)))" "ca_replies (demo_capi ?a2) = []"
    unfolding s(2) by (simp_all add: demo_capi_def)
  define rec where "rec = concat (fill_metadata 5 seq ?segs)"
  have len: "length rec = 4096" using fill_metadata_length [of ?segs 5 seq] by (simp add: rec_def)
  have sz: "segments_size ?segs = 4096" by (simp add: segments_size_def)
  have "ca_replies (capi_io_done (length (ak_flights ?a)) 0 (\<lambda>_. 0) (\<lambda>_. 9) (spdk_kv_get_async demo_async True 0 5 8192 8 (demo_capi ?a2)))
      = ca_replies (demo_capi ?a2) @ [if length rec + 512 \<le> 65536
        then CGot 8 0 (segments_size ?segs) (Some (drop 512 rec @ map (\<lambda>_. 9) [length rec..<length rec + 512]))
        else COverrun 8 (segments_size ?segs)]"
    by (rule capi_get_copies_too_much [OF room demo_segs inv al takes io s(1) _ c(1) _ _ _ rec_def, where cb = 7 and torn = "\<lambda>_. 0"])
      (simp_all add: s(2) n del: ak_step.simps)
  moreover have "map (\<lambda>_. 9 :: byte) [length rec..<length rec + 512] = replicate 512 9" by (simp only: map_replicate_const length_upt add_diff_cancel_left')
  moreover have "length rec + 512 \<le> 65536" by (simp add: len)
  ultimately have "ca_replies (capi_io_done 0 0 (\<lambda>_. 0) (\<lambda>_. 9) (spdk_kv_get_async demo_async True 0 5 8192 8 (demo_capi ?a2)))
      = [CGot 8 0 4096 (Some (drop 512 rec @ replicate 512 9))]" by (simp only: n c(2) sz if_True append_Nil)
  with len show ?thesis by blast
qed

end
