(* ===== verification/Spec2Isabelle.thy ===== *)
theory Spec2Isabelle
  imports KvPrelude KvCrc32 KvRings KvPools KvEntry KvMemIndex KvIndexStore KvAppendBuffer KvAllocLog
    KvCheckpoint KvSuperblock KvRecovery KvFileMeta KvCompaction KvCompactTask KvCompactFlow KvEngine KvEngineSpec
    KvAsync KvAsyncSpec KvAsyncOps KvBuffered KvBufferedSpec KvBufferedOps KvLifecycle KvStoreLog
    KvReopen KvReopenSpec KvStoreWf KvRuns KvCompactEngine KvCompactInv KvCompactChunk KvCompactCopy KvCompactEngineSpec KvPoll KvSchedulerSpec KvPollSpec KvSimd KvEnv KvEnvSpec KvSubmitter KvHugePages KvCApi
begin

text \<open>
  A verification development for the SPDK key-value engine: a log-structured store of 64-bit keys and
  byte values on the blobs of an SPDK blob store, driven by one polling thread.

  \<^bold>\<open>The program and its model.\<close> An engine (\<^verbatim>\<open>src/engine.cpp\<close>) appends entries to data files, each
  one blob, and keeps for every key the place of its newest entry in a memory index. The theories follow
  the files of the source, a theory imports those it calls:

  \<^item> \<open>KvPrelude\<close>: \<^verbatim>\<open>types.h\<close>, little-endian layouts, lists of bytes, the collections of simplification
    and invariant rules.
  \<^item> \<open>KvCrc32\<close>: \<^verbatim>\<open>crc32.h\<close> with its table as it stands in the source, a bitwise reference checksum.
  \<^item> \<open>KvRings\<close>: \<^verbatim>\<open>SimpleRing\<close> and \<^verbatim>\<open>CallbackTaskQueue\<close>; the locale \<open>bounded_queue\<close> states what their
    users rely on and is interpreted on both.
  \<^item> \<open>KvPools\<close>: \<^verbatim>\<open>CtxPool\<close>, \<^verbatim>\<open>DmaMemoryPool\<close>, \<^verbatim>\<open>RefCountedBuffer\<close>; the locale \<open>slot_pool\<close>.
  \<^item> \<open>KvEntry\<close>: the structures on disk (\<^verbatim>\<open>entry.h\<close>) and the three builders of entries.
  \<^item> \<open>KvMemIndex\<close>, \<open>KvIndexStore\<close>: \<^verbatim>\<open>mem_index.h\<close>, a Robin Hood table over lists of slots with its probe
    lengths; the invariant \<open>mi_inv\<close>, the map it stands for, and the locale \<open>kv_index\<close> with the laws
    the engine, the recovery and the compaction use.
  \<^item> \<open>KvAppendBuffer\<close>: \<^verbatim>\<open>append_buffer.h\<close>, the manager as a record of rings of buffer numbers.
  \<^item> \<open>KvAllocLog\<close>: \<^verbatim>\<open>alloc_log.cpp\<close> and the recovery of allocations in \<^verbatim>\<open>engine.cpp\<close>.
  \<^item> \<open>KvCheckpoint\<close>: \<^verbatim>\<open>checkpoint.cpp\<close> as a state machine whose IO completions are steps.
  \<^item> \<open>KvSuperblock\<close>: the superblock, its two copies, creation, loading and writing.
  \<^item> \<open>KvRecovery\<close>: \<^verbatim>\<open>recovery.cpp\<close>, the index loader with its reads as requests and completions.
  \<^item> \<open>KvFileMeta\<close>: the sparse bitmap, the garbage counters and the rate limiter of \<^verbatim>\<open>compaction.cpp\<close>.
  \<^item> \<open>KvCompaction\<close>, \<open>KvCompactTask\<close>, \<open>KvCompactFlow\<close>: the compaction task and its scheduler.
  \<^item> \<open>KvEngine\<close>, \<open>KvEngineSpec\<close>: data files and the synchronous \<^verbatim>\<open>put\<close>, \<^verbatim>\<open>get\<close>, \<^verbatim>\<open>del\<close>.
  \<^item> \<open>KvRuns\<close>: runs of these calls; the locale \<open>simulation\<close> lifts what holds of one call, or of one step,
    to runs, and is interpreted on the calls of the engine, on the engine with a compaction, with its scheduler, and polled.
  \<^item> \<open>KvCompactEngine\<close>: the compaction task on the engine's own files, metadata, index and blobs;
    \<open>KvCompactInv\<close>, \<open>KvCompactCopy\<close>, \<open>KvCompactEngineSpec\<close>: the invariant between task and engine, the steps
    that keep it, and the theorem that the calls served meanwhile do not see the compaction.
    \<open>KvCompactChunk\<close>: one chunk from its processing to the index update, with the bytes on the disk.
  \<^item> \<open>KvPoll\<close>: the scheduler in the engine and \<^verbatim>\<open>Engine::poll\<close> as a whole; \<open>KvSchedulerSpec\<close>,
    \<open>KvPollSpec\<close>: the same theorem for any number of scheduled compactions and for whole polls, where the
    locale \<open>checkpoint_world\<close> says what the checkpoints of the polls leave alone.
  \<^item> \<open>KvAsync\<close>, \<open>KvAsyncSpec\<close>, \<open>KvAsyncOps\<close>: the asynchronous operations, the queue of the writes that
    wait for a file, the allocation of files in the background.
  \<^item> \<open>KvBuffered\<close>, \<open>KvBufferedSpec\<close>, \<open>KvBufferedOps\<close>: the buffered path, RDMA slots, \<^verbatim>\<open>poll\<close> and \<^verbatim>\<open>close\<close>.
  \<^item> \<open>KvLifecycle\<close>: \<^verbatim>\<open>create\<close>, \<^verbatim>\<open>open\<close>, \<^verbatim>\<open>close\<close> with the superblock and the files they write and rebuild,
    the removal of a file, the statistics. The constructor sets the default configuration, which \<^verbatim>\<open>create\<close>
    replaces and \<^verbatim>\<open>open\<close> keeps but for the capacity and the file size.
  \<^item> \<open>KvStoreLog\<close>, \<open>KvStoreWf\<close>: the log a run of \<^verbatim>\<open>put\<close> and \<^verbatim>\<open>del\<close> leaves in a file, and the well-formedness
    of an engine that they keep.
  \<^item> \<open>KvReopen\<close>, \<open>KvReopenSpec\<close>: what \<^verbatim>\<open>close\<close> writes and \<^verbatim>\<open>open\<close> reads back, step by step, and the
    theorems about a store that is created, used, closed and opened again.
  \<^item> \<open>KvSimd\<close>: the AVX2 lookup of the index.
  \<^item> \<open>KvHugePages\<close>: \<^verbatim>\<open>huge_page_allocator.h\<close>, the constructor of the index on huge pages, the allocation
    of the DMA pools.
  \<^item> \<open>KvEnv\<close>, \<open>KvEnvSpec\<close>: \<^verbatim>\<open>spdk_env.cpp\<close>; \<open>KvSubmitter\<close>: \<^verbatim>\<open>io_submitter.cpp\<close>.
  \<^item> \<open>KvCApi\<close>: the C interface at the end of \<^verbatim>\<open>engine.cpp\<close>.

  \<^bold>\<open>Conventions.\<close> A class is a record with the fields of the source; a method is a definition that takes
  the state and returns it updated, with its result in a pair; errors are values of \<open>kv_error\<close>. Integers
  keep their width as words, so that wrap-around is the code's. A pointer to an object of a container is
  its position. The contents of the blobs are a function from blob and byte offset to byte. What SPDK, the
  allocator and the clock answer is a parameter (the record \<open>io_env\<close>, arguments, or the events of a run):
  theorems quantify over all of it. Where requests overlap, a run is a list of events, the calls of the
  client and the completions of the device, in any order.

  \<^bold>\<open>What is shown.\<close>
  \<^item> Contracts: the synchronous operations implement a map from keys to values (\<open>kv_abs\<close>), the index
    implements a map, the rings queues, the bitmap a set, the allocation log a list of allocations.
  \<^item> Every request of the asynchronous and of the buffered path is answered exactly once, under every
    interleaving; an entry that was put reaches the disk unchanged, the index names its place, and it is
    read back.
  \<^item> A store that is closed and opened again with recovery answers every \<^verbatim>\<open>get\<close> as before, when it was
    created with the default size of the index.
  \<^item> Durability: an update of the superblock that fails or is cut anywhere leaves the old or the new one
    loadable; damaged copies are detected; the log
    of entries is parsed back into the index; the allocation log recovers its allocations.
  \<^item> Compaction is invisible: in every interleaving of calls with the steps of a task and with the
    completions of its requests, whatever fails and is rolled back, every \<^verbatim>\<open>get\<close> answers what the map holds;
    the task moves only current index entries, and ends.
  \<^item> Ownership: buffers, pool blocks and contexts are in one place each; regions do not overlap; the
    resources of SPDK are given back in the reverse order of their acquisition.
  \<^item> Where the code does not do this, the theorem says what it does: an update can lose another key, an
    entry at a chunk's end is lost in a recovery, a late delete removes a newer put, requests wait for a
    back-pressure nobody relieves, \<^verbatim>\<open>close\<close> drops callbacks, a store with a deleted blob cannot be opened, the
    AVX2 lookup misses keys or does not return, a warm-up in the background erases the index, the C
    interface copies too much and cannot get what it put.

  \<^bold>\<open>Bounds and fuel.\<close> Loops are structural recursions or \<^verbatim>\<open>function\<close>s with a measure; the probe loop of
  the index ends at the source's own limit of 128 steps. Loops that need not end are partial functions
  into an option, and not returning is \<open>None\<close>: the AVX2 lookup, the loop of the compaction scheduler,
  the waits of the environment manager. Runs are finite lists of events of any length. Values whose entry
  has more than 65535 pages are excluded where the page count of 16 bits would wrap, and the hypothesis
  says so. The theorems about calls that store a key have one condition on the index: it takes the key
  (\<open>index_takes\<close>, \<open>batch_takes\<close>), its upsert neither drops the entry nor displaces another stored
  key, as the Robin Hood swap of the source can; and where a file may be allocated, that this is safe
  (\<open>env_ok\<close>: a fresh blob, file ids left, an allocation log that is not near full). The theorem about the
  reopened store covers runs that stay inside the first file and inside
  one chunk of 1 MB of the recovery scan, which loses entries that cross the end of a chunk. The runs with
  a compaction assume what the code relies on: a blob that the blob store hands out is none of the
  engine's, file ids are left, and the device rejects a write beyond the size a blob was created with; a file is
  handed to the scheduler while it is open, readable, not the active one and not the file that a running
  compaction writes.

  \<^bold>\<open>Not modelled.\<close> SPDK itself, its threads and its blob store, the kernel, NUMA binding and CPU affinity:
  their answers are the parameters above. Completions that a \<^verbatim>\<open>poll\<close> delivers are events of their own; the
  deferred tasks it runs first are never enqueued. The theorem about polls is about clients of the
  synchronous operations, with no buffered request under way. Copies and prefetches by vector instructions have
  no effect of their own. The examples only call the engine. Callbacks of the client do not call the
  engine back.
\<close>

end
